(* ===== verification/Prelude.thy ===== *)
theory Prelude
  imports Main "HOL-Library.Word" "HOL-Library.Multiset"
begin

text \<open>
  Shared vocabulary of the development: the machine integer types of the C++ sources, the
  canonicalisation idioms they apply to vectors of ids (\<open>std::sort\<close>, \<open>std::unique\<close>,
  \<open>std::remove\<close>, \<open>std::set_difference\<close>), in-place stable compaction of an array, and the
  interface every stateful class of the program satisfies: a state, operations, and an
  invariant that each operation keeps.
\<close>

type_synonym u8 = "8 word"
type_synonym u16 = "16 word"
type_synonym u32 = "32 word"
type_synonym u64 = "64 word"
type_synonym bytes = "8 word list"

named_theorems canon_simps \<open>facts about canonicalised id vectors\<close>
named_theorems frame_simps \<open>fields an operation leaves unchanged\<close>

section \<open>Canonical id vectors\<close>

text \<open>\<open>std::sort\<close> followed by \<open>erase(unique(..))\<close>, and \<open>erase(remove(.., 0))\<close>.\<close>

definition sort_uniq :: "'a::linorder list \<Rightarrow> 'a list" where
  "sort_uniq xs = remdups_adj (sort xs)"

definition drop_zero :: "'a::zero list \<Rightarrow> 'a list" where
  "drop_zero xs = filter (\<lambda>x. x \<noteq> 0) xs"

lemma remdups_adj_sorted_distinct:
  "sorted (xs :: 'a::linorder list) \<Longrightarrow> distinct (remdups_adj xs)"
  by (induction xs rule: remdups_adj.induct) auto

lemma set_sort_uniq [simp, canon_simps]: "set (sort_uniq xs) = set xs"
  by (simp add: sort_uniq_def)

lemma sorted_sort_uniq [simp, canon_simps]: "sorted (sort_uniq xs)"
  by (simp add: sort_uniq_def)

lemma distinct_sort_uniq [simp, canon_simps]: "distinct (sort_uniq xs)"
  by (simp add: sort_uniq_def remdups_adj_sorted_distinct)

lemma strict_sorted_sort_uniq [simp, canon_simps]: "sorted_wrt (<) (sort_uniq xs)"
  by (simp add: strict_sorted_iff)

lemma set_drop_zero [simp, canon_simps]: "set (drop_zero xs) = set xs - {0}"
  by (auto simp: drop_zero_def)

lemma sorted_drop_zero [canon_simps]: "sorted xs \<Longrightarrow> sorted (drop_zero xs)"
  by (simp add: drop_zero_def sorted_filter [where f = id, simplified])

lemma distinct_drop_zero [canon_simps]: "distinct xs \<Longrightarrow> distinct (drop_zero xs)"
  by (simp add: drop_zero_def)

lemma strict_sorted_filter: "sorted_wrt (<) xs \<Longrightarrow> sorted_wrt (<) (filter P xs)"
  by (rule sorted_wrt_filter)

lemma strict_sorted_eqI:
  fixes xs ys :: "'a::linorder list"
  assumes "sorted_wrt (<) xs" "sorted_wrt (<) ys" "set xs = set ys"
  shows "xs = ys"
  using assms by (auto simp: strict_sorted_iff intro: sorted_distinct_set_unique)

lemma sort_uniq_of_strict [canon_simps]: "sorted_wrt (<) xs \<Longrightarrow> sort_uniq xs = xs"
  by (rule strict_sorted_eqI) simp_all

lemma sort_uniq_idem [simp]: "sort_uniq (sort_uniq xs) = sort_uniq xs"
  by (rule sort_uniq_of_strict) simp

lemma sort_uniq_cong: "set xs = set ys \<Longrightarrow> sort_uniq xs = sort_uniq ys"
  by (rule strict_sorted_eqI) simp_all

lemma sort_uniq_perm: "mset xs = mset ys \<Longrightarrow> sort_uniq xs = sort_uniq ys"
  by (rule sort_uniq_cong) (metis set_mset_mset)

lemma sort_uniq_Nil [simp]: "sort_uniq [] = []"
  by (simp add: sort_uniq_def)

lemma sort_uniq_eq_Nil [simp]: "sort_uniq xs = [] \<longleftrightarrow> xs = []"
  by (metis set_empty set_sort_uniq)

text \<open>\<open>std::set_difference\<close> on two sorted ranges: the standard's merge loop.\<close>

fun set_difference :: "'a::linorder list \<Rightarrow> 'a list \<Rightarrow> 'a list" where
  "set_difference [] ys = []"
| "set_difference (x # xs) [] = x # xs"
| "set_difference (x # xs) (y # ys) =
     (if x < y then x # set_difference xs (y # ys)
      else if y < x then set_difference (x # xs) ys
      else set_difference xs ys)"

lemma set_difference_filter:
  "sorted_wrt (<) xs \<Longrightarrow> sorted_wrt (<) ys \<Longrightarrow>
     set_difference xs ys = filter (\<lambda>x. x \<notin> set ys) xs"
proof (induction xs ys rule: set_difference.induct)
  case (3 x xs y ys)
  consider "x < y" | "y < x" | "x = y" by fastforce
  then show ?case
  proof cases
    case 1
    with 3 have "x \<notin> set (y # ys)" by auto
    with 1 3 show ?thesis by simp
  next
    case 2
    with 3 have nle: "\<forall>z \<in> set (x # xs). z \<noteq> y" by auto
    from 2 have "\<not> x < y" by simp
    with 2 "3.IH"(2) "3.prems"
    have "set_difference (x # xs) (y # ys) = filter (\<lambda>z. z \<notin> set ys) (x # xs)"
      by (simp del: filter.simps)
    also have "\<dots> = filter (\<lambda>z. z \<notin> set (y # ys)) (x # xs)"
      using nle by (intro filter_cong) auto
    finally show ?thesis .
  next
    case 3
    with "3.prems" have nle: "\<forall>z \<in> set xs. z \<noteq> y" by auto
    have "filter (\<lambda>z. z \<notin> set ys) xs = filter (\<lambda>z. z \<notin> set (y # ys)) xs"
      using nle by (intro filter_cong) auto
    with 3 "3.IH"(3) "3.prems" show ?thesis by simp
  qed
qed auto

lemma set_set_difference [canon_simps]:
  "sorted_wrt (<) xs \<Longrightarrow> sorted_wrt (<) ys \<Longrightarrow>
     set (set_difference xs ys) = set xs - set ys"
  by (auto simp: set_difference_filter)

lemma strict_sorted_set_difference [canon_simps]:
  "sorted_wrt (<) xs \<Longrightarrow> sorted_wrt (<) ys \<Longrightarrow> sorted_wrt (<) (set_difference xs ys)"
  by (simp add: set_difference_filter strict_sorted_filter)

section \<open>In-place stable compaction\<close>

text \<open>
  The loop shape shared by the depot-entry filter and the package-vector compaction: one read
  index walks the array, one write index trails it, kept cells are copied down. The array is a
  list updated by index; the final write index is the surviving count.
\<close>

fun compact_loop :: "('a \<Rightarrow> bool) \<Rightarrow> nat \<Rightarrow> nat \<Rightarrow> nat \<Rightarrow> 'a list \<Rightarrow> nat \<times> 'a list" where
  "compact_loop drop_it 0 rd wr arr = (wr, arr)"
| "compact_loop drop_it (Suc n) rd wr arr =
     (let cell = arr ! rd in
      if drop_it cell then compact_loop drop_it n (Suc rd) wr arr
      else compact_loop drop_it n (Suc rd) (Suc wr)
             (if wr \<noteq> rd then arr[wr := cell] else arr))"

lemma compact_loop_gen:
  assumes "wr \<le> rd" "rd + n \<le> length arr"
  shows "\<exists>arr'. compact_loop P n rd wr arr
           = (wr + length (filter (Not \<circ> P) (take n (drop rd arr))), arr')
       \<and> length arr' = length arr
       \<and> take (wr + length (filter (Not \<circ> P) (take n (drop rd arr)))) arr'
           = take wr arr @ filter (Not \<circ> P) (take n (drop rd arr))
       \<and> drop (rd + n) arr' = drop (rd + n) arr"
  using assms
proof (induction n arbitrary: rd wr arr)
  case 0
  then show ?case by simp
next
  case (Suc n)
  then have split: "take (Suc n) (drop rd arr) = arr ! rd # take n (drop (Suc rd) arr)"
    by (simp add: Cons_nth_drop_Suc [symmetric])
  show ?case
  proof (cases "P (arr ! rd)")
    case True
    from Suc.IH [of wr "Suc rd" arr] Suc.prems show ?thesis
      by (auto simp: split True Let_def)
  next
    case False
    define arr1 where "arr1 = (if wr \<noteq> rd then arr[wr := arr ! rd] else arr)"
    have len1: "length arr1 = length arr" and drop1: "drop (Suc rd) arr1 = drop (Suc rd) arr"
      using Suc.prems by (auto simp: arr1_def drop_update_cancel)
    have tail1: "drop (Suc rd + n) arr1 = drop (Suc rd + n) arr"
      using Suc.prems by (auto simp: arr1_def drop_update_cancel)
    have take1: "take (Suc wr) arr1 = take wr arr @ [arr ! rd]"
      using Suc.prems by (auto simp: arr1_def take_Suc_conv_app_nth)
    have "Suc wr \<le> Suc rd" "Suc rd + n \<le> length arr1" using Suc.prems len1 by auto
    from Suc.IH [OF this] show ?thesis
      by (auto simp: split False Let_def arr1_def [symmetric] len1 drop1 take1 tail1 [simplified])
  qed
qed

lemma compact_loop_filter:
  assumes "n \<le> length arr"
  shows "fst (compact_loop P n 0 0 arr) = length (filter (Not \<circ> P) (take n arr))"
    and "take (fst (compact_loop P n 0 0 arr)) (snd (compact_loop P n 0 0 arr))
           = filter (Not \<circ> P) (take n arr)"
    and "length (snd (compact_loop P n 0 0 arr)) = length arr"
    and "drop n (snd (compact_loop P n 0 0 arr)) = drop n arr"
  using compact_loop_gen [of 0 0 n arr P] assms by auto

section \<open>Machines with an invariant\<close>

text \<open>
  The stateful classes of the program are used through their public operations only, each under
  the class's mutex, so an execution is a sequence of whole operations. The interface below is
  that contract: an initial state and operations that keep an invariant.
\<close>

fun run_ops :: "('op \<Rightarrow> 's \<Rightarrow> 's) \<Rightarrow> 'op list \<Rightarrow> 's \<Rightarrow> 's" where
  "run_ops step [] s = s"
| "run_ops step (x # xs) s = run_ops step xs (step x s)"

lemma run_ops_append: "run_ops step (xs @ ys) s = run_ops step ys (run_ops step xs s)"
  by (induction xs arbitrary: s) auto

locale invariant_machine =
  fixes step :: "'op \<Rightarrow> 's \<Rightarrow> 's"
    and init :: "'s \<Rightarrow> bool"
    and inv :: "'s \<Rightarrow> bool"
  assumes inv_init: "init s \<Longrightarrow> inv s"
    and inv_step: "inv s \<Longrightarrow> inv (step x s)"
begin

lemma inv_run: "inv s \<Longrightarrow> inv (run_ops step xs s)"
  by (induction xs arbitrary: s) (auto intro: inv_step)

lemma inv_reachable: "init s \<Longrightarrow> inv (run_ops step xs s)"
  by (intro inv_run inv_init)

end

text \<open>
  A machine whose operations never lower a measured quantity (a generation, an epoch): the
  quantity is monotone along every run.
\<close>

locale monotone_machine = invariant_machine +
  fixes clock :: "'s \<Rightarrow> 'c::preorder"
  assumes clock_step: "inv s \<Longrightarrow> clock s \<le> clock (step x s)"
begin

lemma clock_run: "inv s \<Longrightarrow> clock s \<le> clock (run_ops step xs s)"
proof (induction xs arbitrary: s)
  case (Cons x xs)
  then show ?case
    using clock_step [of s x] inv_step [of s x] by (auto intro: order_trans)
qed simp

end

section \<open>\<open>std::sort\<close> with a comparator\<close>

fun insert_by :: "('a \<Rightarrow> 'a \<Rightarrow> bool) \<Rightarrow> 'a \<Rightarrow> 'a list \<Rightarrow> 'a list" where
  "insert_by before x [] = [x]"
| "insert_by before x (y # ys) = (if before y x then y # insert_by before x ys else x # y # ys)"

definition sort_by :: "('a \<Rightarrow> 'a \<Rightarrow> bool) \<Rightarrow> 'a list \<Rightarrow> 'a list" where
  "sort_by before xs = foldr (insert_by before) xs []"

lemma mset_insert_by [simp]: "mset (insert_by before x xs) = add_mset x (mset xs)"
  by (induction xs) auto

lemma mset_sort_by [simp]: "mset (sort_by before xs) = mset xs"
  by (induction xs) (auto simp: sort_by_def)

lemma set_sort_by [simp]: "set (sort_by before xs) = set xs"
  by (metis mset_sort_by set_mset_mset)

lemma set_insert_by [simp]: "set (insert_by before x xs) = insert x (set xs)"
  by (metis mset_insert_by set_mset_add_mset_insert set_mset_mset)

lemma insert_by_sorted:
  assumes key: "\<And>a b. before a b \<longleftrightarrow> (key a :: 'k::linorder) < key b"
  shows "sorted (map key xs) \<Longrightarrow> sorted (map key (insert_by before x xs))"
  by (induction xs) (auto simp: key not_less)

lemma sort_by_sorted:
  assumes "\<And>a b. before a b \<longleftrightarrow> (key a :: 'k::linorder) < key b"
  shows "sorted (map key (sort_by before xs))"
  by (induction xs) (auto simp: sort_by_def intro: insert_by_sorted [OF assms])

text \<open>When the comparator separates all distinct elements, the result does not depend on the order
  of the input, so an unstable sort gives it too.\<close>

lemma sort_by_unique:
  assumes key: "\<And>a b. before a b \<longleftrightarrow> (key a :: 'k::linorder) < key b" and inj: "inj key"
    and perm: "mset xs = mset ys"
  shows "sort_by before xs = sort_by before ys"
proof -
  have srt: "sort (map key zs) = map key (sort_by before zs)" for zs
    by (rule properties_for_sort) (simp_all add: sort_by_sorted [OF key])
  have "map key (sort_by before xs) = map key (sort_by before ys)"
    unfolding srt [symmetric] by (rule properties_for_sort) (simp_all add: perm)
  then show ?thesis using inj by (simp add: inj_map_eq_map)
qed

end
