(* ===== verification/CppText.thy ===== *)
theory CppText
  imports Prelude
begin

text \<open>
  The parts of the C++ standard library's text handling that the sources use, on strings as
  lists of bytes (\<open>char\<close>): \<open>std::string::find\<close>, \<open>std::from_chars\<close>, \<open>std::to_string\<close>,
  \<open>std::stoul\<close> on a digit string, ASCII lower-casing and suffix tests.
\<close>

section \<open>Digits\<close>

definition char_code :: "char \<Rightarrow> nat" where
  "char_code c = of_char c"

definition is_digit :: "char \<Rightarrow> bool" where
  "is_digit c \<longleftrightarrow> 48 \<le> char_code c \<and> char_code c \<le> 57"

definition digit_char :: "nat \<Rightarrow> char" where
  "digit_char d = char_of (48 + d)"

definition digit_val :: "char \<Rightarrow> nat" where
  "digit_val c = char_code c - 48"

lemma char_code_less [simp]: "char_code c < 256"
  using range_nat_of_char by (auto simp: char_code_def)

lemma char_code_inj: "char_code c = char_code d \<longleftrightarrow> c = d"
  by (simp add: char_code_def)

lemma char_code_digit_char [simp]: "d < 10 \<Longrightarrow> char_code (digit_char d) = 48 + d"
  by (simp add: char_code_def digit_char_def)

lemma is_digit_digit_char [simp]: "d < 10 \<Longrightarrow> is_digit (digit_char d)"
  by (simp add: is_digit_def)

lemma digit_val_digit_char [simp]: "d < 10 \<Longrightarrow> digit_val (digit_char d) = d"
  by (simp add: digit_val_def)

lemma digit_val_less: "is_digit c \<Longrightarrow> digit_val c < 10"
  by (auto simp: is_digit_def digit_val_def)

section \<open>Decimal numbers\<close>

definition dec_value :: "string \<Rightarrow> nat" where
  "dec_value s = foldl (\<lambda>n c. 10 * n + digit_val c) 0 s"

text \<open>\<open>std::to_string\<close> of an unsigned value.\<close>

fun to_dec :: "nat \<Rightarrow> string" where
  "to_dec n = (if n < 10 then [digit_char n] else to_dec (n div 10) @ [digit_char (n mod 10)])"

declare to_dec.simps [simp del]

lemma dec_value_snoc: "dec_value (s @ [c]) = 10 * dec_value s + digit_val c"
  by (simp add: dec_value_def)

lemma dec_value_to_dec [simp]: "dec_value (to_dec n) = n"
proof (induction n rule: to_dec.induct)
  case (1 n)
  show ?case
  proof (cases "n < 10")
    case True
    then show ?thesis by (subst to_dec.simps) (simp add: dec_value_def)
  next
    case False
    with 1 show ?thesis by (subst to_dec.simps) (simp add: dec_value_snoc)
  qed
qed

lemma digits_to_dec: "c \<in> set (to_dec n) \<Longrightarrow> is_digit c"
proof (induction n rule: to_dec.induct)
  case (1 n)
  show ?case
  proof (cases "n < 10")
    case True
    with "1.prems" show ?thesis by (simp add: to_dec.simps [of n])
  next
    case False
    with "1.prems" have "c \<in> set (to_dec (n div 10)) \<or> c = digit_char (n mod 10)"
      by (auto simp: to_dec.simps [of n])
    with "1.IH" [OF False] show ?thesis by auto
  qed
qed

lemma all_digits_to_dec [simp]: "list_all is_digit (to_dec n)"
  by (auto simp: list_all_iff digits_to_dec)

lemma to_dec_not_Nil [simp]: "to_dec n \<noteq> []"
  by (subst to_dec.simps) simp

lemma to_dec_inject [simp]: "to_dec m = to_dec n \<longleftrightarrow> m = n"
  by (metis dec_value_to_dec)

text \<open>
  \<open>std::from_chars(first, last, value)\<close> for an unsigned type with largest value \<open>lim\<close>: the
  longest digit prefix is converted; no digit or a value out of range is an error. The result is
  the value and the unread rest (\<open>ptr\<close>).
\<close>

definition from_chars :: "nat \<Rightarrow> string \<Rightarrow> (nat \<times> string) option" where
  "from_chars lim s =
     (let ds = takeWhile is_digit s in
      if ds = [] \<or> lim < dec_value ds then None
      else Some (dec_value ds, dropWhile is_digit s))"

text \<open>The idiom \<open>ec == errc{} \<and> ptr == last\<close>.\<close>

definition from_chars_all :: "nat \<Rightarrow> string \<Rightarrow> nat option" where
  "from_chars_all lim s =
     (case from_chars lim s of Some (n, []) \<Rightarrow> Some n | _ \<Rightarrow> None)"

definition u32_max :: nat where "u32_max = 4294967295"
definition u64_max :: nat where "u64_max = 18446744073709551615"

lemma takeWhile_all_eq: "list_all P s \<Longrightarrow> takeWhile P s = s"
  by (induction s) auto

lemma dropWhile_all_eq: "list_all P s \<Longrightarrow> dropWhile P s = []"
  by (induction s) auto

lemma from_chars_all_iff:
  "from_chars_all lim s = Some n \<longleftrightarrow>
     s \<noteq> [] \<and> list_all is_digit s \<and> dec_value s = n \<and> n \<le> lim"
proof
  assume L: "from_chars_all lim s = Some n"
  then have dr: "dropWhile is_digit s = []"
    by (auto simp: from_chars_all_def from_chars_def Let_def split: if_splits list.splits option.splits)
  then have tk: "takeWhile is_digit s = s"
    by (metis append_Nil2 takeWhile_dropWhile_id)
  have "list_all is_digit s"
    using dr by (auto simp: list_all_iff dropWhile_eq_Nil_conv)
  with L show "s \<noteq> [] \<and> list_all is_digit s \<and> dec_value s = n \<and> n \<le> lim"
    by (auto simp: from_chars_all_def from_chars_def Let_def takeWhile_all_eq dropWhile_all_eq
        split: if_splits)
qed (auto simp: from_chars_all_def from_chars_def Let_def takeWhile_all_eq dropWhile_all_eq)

lemma from_chars_all_to_dec [simp]:
  "n \<le> lim \<Longrightarrow> from_chars_all lim (to_dec n) = Some n"
  by (simp add: from_chars_all_iff)

section \<open>Searching\<close>

definition starts_with :: "'a list \<Rightarrow> 'a list \<Rightarrow> bool" where
  "starts_with p s \<longleftrightarrow> take (length p) s = p"

definition ends_with :: "'a list \<Rightarrow> 'a list \<Rightarrow> bool" where
  "ends_with p s \<longleftrightarrow> length p \<le> length s \<and> drop (length s - length p) s = p"

text \<open>\<open>s.find(needle)\<close>: the least index at which the needle starts, \<open>None\<close> for \<open>npos\<close>.\<close>

fun find_at :: "'a list \<Rightarrow> 'a list \<Rightarrow> nat option" where
  "find_at p [] = (if p = [] then Some 0 else None)"
| "find_at p (c # s) =
     (if starts_with p (c # s) then Some 0 else map_option Suc (find_at p s))"

text \<open>\<open>s.find(needle, from)\<close>.\<close>

definition find_from :: "'a list \<Rightarrow> 'a list \<Rightarrow> nat \<Rightarrow> nat option" where
  "find_from p s from =
     (if length s < from then None else map_option (\<lambda>i. from + i) (find_at p (drop from s)))"

definition contains_sub :: "'a list \<Rightarrow> 'a list \<Rightarrow> bool" where
  "contains_sub p s \<longleftrightarrow> find_at p s \<noteq> None"

lemma find_at_SomeD:
  "find_at p s = Some i \<Longrightarrow>
     i + length p \<le> length s \<and> starts_with p (drop i s) \<and> (\<forall>j < i. \<not> starts_with p (drop j s))"
proof (induction s arbitrary: i)
  case Nil
  then show ?case by (auto simp: starts_with_def split: if_splits)
next
  case (Cons c s)
  show ?case
  proof (cases "starts_with p (c # s)")
    case True
    with Cons.prems have "i = 0" by simp
    moreover have "length p \<le> length (c # s)"
      using True unfolding starts_with_def by (metis length_take min.cobounded1)
    ultimately show ?thesis using True by simp
  next
    case False
    with Cons.prems obtain k where k: "find_at p s = Some k" "i = Suc k" by auto
    from Cons.IH [OF k(1)] k(2) False show ?thesis
      by (auto simp: less_Suc_eq_0_disj)
  qed
qed

lemma find_at_None: "find_at p s = None \<Longrightarrow> i \<le> length s \<Longrightarrow> \<not> starts_with p (drop i s)"
proof (induction s arbitrary: i)
  case Nil
  then show ?case by (auto simp: starts_with_def split: if_splits)
next
  case (Cons c s)
  then show ?case by (cases i) (auto split: if_splits)
qed

lemma find_from_SomeD:
  assumes "find_from p s from = Some i"
  shows "from \<le> i" and "i + length p \<le> length s" and "starts_with p (drop i s)"
  using assms
  by (auto simp: find_from_def add.commute split: if_splits dest!: find_at_SomeD)

lemma find_at_single:
  "find_at [c] s = (if c \<in> set s then Some (length (takeWhile (\<lambda>d. d \<noteq> c) s)) else None)"
  by (induction s) (auto simp: starts_with_def)

text \<open>Searching for one character splits the string at its first occurrence.\<close>

lemma find_char:
  "find_from [c] s i = Some k \<longleftrightarrow>
     i \<le> length s \<and> (\<exists>a b. drop i s = a @ c # b \<and> c \<notin> set a \<and> k = i + length a)"
proof
  assume f: "find_from [c] s i = Some k"
  let ?a = "takeWhile (\<lambda>d. d \<noteq> c) (drop i s)"
  have m: "i \<le> length s" "c \<in> set (drop i s)" "k = i + length ?a"
    using f by (auto simp: find_from_def find_at_single split: if_splits)
  from m(2) have "dropWhile (\<lambda>d. d \<noteq> c) (drop i s) \<noteq> []"
    by (auto simp: dropWhile_eq_Nil_conv simp del: drop_eq_Nil)
  then have "drop i s = ?a @ c # tl (dropWhile (\<lambda>d. d \<noteq> c) (drop i s))"
    using hd_dropWhile [of "\<lambda>d. d \<noteq> c" "drop i s"] by (metis list.collapse takeWhile_dropWhile_id)
  moreover have "c \<notin> set ?a" by (auto dest: set_takeWhileD)
  ultimately show "i \<le> length s \<and> (\<exists>a b. drop i s = a @ c # b \<and> c \<notin> set a \<and> k = i + length a)"
    using m by blast
next
  assume "i \<le> length s \<and> (\<exists>a b. drop i s = a @ c # b \<and> c \<notin> set a \<and> k = i + length a)"
  then obtain a b where a: "i \<le> length s" "drop i s = a @ c # b" "c \<notin> set a" "k = i + length a" by blast
  then have "takeWhile (\<lambda>d. d \<noteq> c) (drop i s) = a" by (auto simp: takeWhile_append takeWhile_all_eq list_all_iff)
  then show "find_from [c] s i = Some k" using a by (simp add: find_from_def find_at_single)
qed

lemma find_char_none: "find_from [c] s i = None \<longleftrightarrow> length s < i \<or> c \<notin> set (drop i s)"
  by (auto simp: find_from_def find_at_single)

section \<open>ASCII case\<close>

text \<open>\<open>Ascii::toLower\<close>.\<close>

definition to_lower :: "char \<Rightarrow> char" where
  "to_lower c = (if 65 \<le> char_code c \<and> char_code c \<le> 90 then char_of (char_code c + 32) else c)"

lemma to_lower_idem [simp]: "to_lower (to_lower c) = to_lower c"
  by (auto simp: to_lower_def char_code_def)

end
