(* ===== verification/CachePolicy.thy ===== *)
theory CachePolicy
  imports CppText "HOL-Library.Product_Lexorder"
begin

text \<open>
  \<open>src/feats/provision_cache.hpp\<close>: the readiness classes of a provisioning cache pair, the
  exception-free metadata parser, the identity key under which a validated pair is memoised, and
  the publication, provenance and freshness decisions. Sizes and times are \<open>long long\<close>
  quantities far from their limits and are \<open>int\<close>; ids and change numbers keep their width.
\<close>

datatype cache_readiness = Missing | Invalid | Fresh | ValidStale | Busy | Unverified

section \<open>The metadata parser\<close>

record cache_metadata_view =
  cmAppId :: u32
  cmChangeNumber :: u32
  cmWireSize :: u64
  cmShaBase64 :: string
  cmHasNormalized :: bool
  cmNormalized :: bool
  cmHasSynthetic :: bool
  cmSynthetic :: bool

definition empty_metadata :: cache_metadata_view where
  "empty_metadata = \<lparr>cmAppId = 0, cmChangeNumber = 0, cmWireSize = 0, cmShaBase64 = '''',
     cmHasNormalized = False, cmNormalized = False, cmHasSynthetic = False, cmSynthetic = False\<rparr>"

text \<open>The parser's locals: the record under construction and the keys already seen.\<close>

record metadata_parser =
  mpParsed :: cache_metadata_view
  mpAppIdSeen :: bool
  mpWireSizeSeen :: bool
  mpShaSeen :: bool
  mpChangeSeen :: bool
  mpNormalizedSeen :: bool
  mpSyntheticSeen :: bool

definition init_parser :: metadata_parser where
  "init_parser = \<lparr>mpParsed = empty_metadata, mpAppIdSeen = False, mpWireSizeSeen = False,
     mpShaSeen = False, mpChangeSeen = False, mpNormalizedSeen = False, mpSyntheticSeen = False\<rparr>"

definition parseUnsigned :: "string \<Rightarrow> nat option" where
  "parseUnsigned v = (if v = [] then None else from_chars_all u64_max v)"

definition parseBool :: "string \<Rightarrow> bool option" where
  "parseBool v = (if v = ''true'' then Some True else if v = ''false'' then Some False else None)"

definition base64_char :: "char \<Rightarrow> bool" where
  "base64_char c \<longleftrightarrow>
     (65 \<le> char_code c \<and> char_code c \<le> 90) \<or> (97 \<le> char_code c \<and> char_code c \<le> 122) \<or>
     (48 \<le> char_code c \<and> char_code c \<le> 57) \<or> c = CHR ''+'' \<or> c = CHR ''/''"

definition sha_b64_ok :: "string \<Rightarrow> bool" where
  "sha_b64_ok v \<longleftrightarrow> length v = 28 \<and> last v = CHR ''='' \<and> list_all base64_char (butlast v)"

text \<open>One \<open>key: value\<close> pair: \<open>None\<close> is the parser's early \<open>return false\<close>.\<close>

definition apply_pair :: "metadata_parser \<Rightarrow> string \<Rightarrow> string \<Rightarrow> metadata_parser option" where
  "apply_pair st key value =
     (if key = ''appid'' then
        (case parseUnsigned value of
           Some n \<Rightarrow>
             if mpAppIdSeen st \<or> n = 0 \<or> u32_max < n then None
             else Some (st\<lparr>mpAppIdSeen := True,
                           mpParsed := (mpParsed st)\<lparr>cmAppId := of_nat n\<rparr>\<rparr>)
         | None \<Rightarrow> None)
      else if key = ''change_number'' then
        (case parseUnsigned value of
           Some n \<Rightarrow>
             if mpChangeSeen st \<or> u32_max < n then None
             else Some (st\<lparr>mpChangeSeen := True,
                           mpParsed := (mpParsed st)\<lparr>cmChangeNumber := of_nat n\<rparr>\<rparr>)
         | None \<Rightarrow> None)
      else if key = ''wire_size'' then
        (case parseUnsigned value of
           Some n \<Rightarrow>
             if mpWireSizeSeen st \<or> n = 0 then None
             else Some (st\<lparr>mpWireSizeSeen := True,
                           mpParsed := (mpParsed st)\<lparr>cmWireSize := of_nat n\<rparr>\<rparr>)
         | None \<Rightarrow> None)
      else if key = ''sha_b64'' then
        (if mpShaSeen st \<or> \<not> sha_b64_ok value then None
         else Some (st\<lparr>mpShaSeen := True, mpParsed := (mpParsed st)\<lparr>cmShaBase64 := value\<rparr>\<rparr>))
      else if key = ''normalized'' then
        (case parseBool value of
           Some b \<Rightarrow>
             if mpNormalizedSeen st then None
             else Some (st\<lparr>mpNormalizedSeen := True,
                           mpParsed := (mpParsed st)\<lparr>cmNormalized := b, cmHasNormalized := True\<rparr>\<rparr>)
         | None \<Rightarrow> None)
      else if key = ''synthetic'' then
        (case parseBool value of
           Some b \<Rightarrow>
             if mpSyntheticSeen st then None
             else Some (st\<lparr>mpSyntheticSeen := True,
                           mpParsed := (mpParsed st)\<lparr>cmSynthetic := b, cmHasSynthetic := True\<rparr>\<rparr>)
         | None \<Rightarrow> None)
      else None)"

definition parse_line :: "metadata_parser \<Rightarrow> string \<Rightarrow> metadata_parser option" where
  "parse_line st line =
     (if line = [] \<or> CHR 0x0D \<in> set line then None
      else case find_at '': '' line of
        None \<Rightarrow> None
      | Some separator \<Rightarrow>
          if separator = 0 \<or> length line \<le> separator + 2 then None
          else apply_pair st (take separator line) (drop (separator + 2) line))"

function parse_lines :: "metadata_parser \<Rightarrow> string \<Rightarrow> metadata_parser option" where
  "parse_lines st s =
     (if s = [] then Some st
      else case parse_line st (takeWhile (\<lambda>c. c \<noteq> CHR 0x0A) s) of
        None \<Rightarrow> None
      | Some st' \<Rightarrow> parse_lines st' (drop 1 (dropWhile (\<lambda>c. c \<noteq> CHR 0x0A) s)))"
  by pat_completeness auto
termination
proof (relation "measure (\<lambda>(st, s). length s)")
  show "wf (measure (\<lambda>(st, s). length s))" by simp
  fix st :: metadata_parser and st' and s :: string
  assume "s \<noteq> []"
  moreover have "length (dropWhile (\<lambda>c. c \<noteq> CHR 0x0A) s) \<le> length s"
    by (rule length_dropWhile_le)
  ultimately show "((st', drop 1 (dropWhile (\<lambda>c. c \<noteq> CHR 0x0A) s)), (st, s))
      \<in> measure (\<lambda>(st, s). length s)"
    by (cases s) auto
qed

declare parse_lines.simps [simp del]

definition parseCacheMetadata :: "string \<Rightarrow> cache_metadata_view option" where
  "parseCacheMetadata text =
     (case parse_lines init_parser text of
        None \<Rightarrow> None
      | Some st \<Rightarrow>
          if \<not> mpAppIdSeen st \<or> \<not> mpWireSizeSeen st \<or> \<not> mpShaSeen st then None
          else Some (mpParsed st))"

text \<open>
  The line form of a record, one \<open>key: value\<close> line per field in the order the cache writer
  gives them to the emitter.
\<close>

definition bool_text :: "bool \<Rightarrow> string" where
  "bool_text b = (if b then ''true'' else ''false'')"

definition metadata_pairs :: "cache_metadata_view \<Rightarrow> (string \<times> string) list" where
  "metadata_pairs m =
     [(''appid'', to_dec (unat (cmAppId m))),
      (''change_number'', to_dec (unat (cmChangeNumber m))),
      (''wire_size'', to_dec (unat (cmWireSize m))),
      (''sha_b64'', cmShaBase64 m)] @
     (if cmHasNormalized m then [(''normalized'', bool_text (cmNormalized m))] else []) @
     (if cmHasSynthetic m then [(''synthetic'', bool_text (cmSynthetic m))] else [])"

definition render_pair :: "string \<times> string \<Rightarrow> string" where
  "render_pair kv = fst kv @ '': '' @ snd kv"

fun join_lines :: "string list \<Rightarrow> string" where
  "join_lines [] = []"
| "join_lines [l] = l"
| "join_lines (l # ls) = l @ [CHR 0x0A] @ join_lines ls"

definition metadata_text :: "cache_metadata_view \<Rightarrow> string" where
  "metadata_text m = join_lines (map render_pair (metadata_pairs m))"

definition metadata_wf :: "cache_metadata_view \<Rightarrow> bool" where
  "metadata_wf m \<longleftrightarrow> cmAppId m \<noteq> 0 \<and> cmWireSize m \<noteq> 0 \<and> sha_b64_ok (cmShaBase64 m) \<and>
     (\<not> cmHasNormalized m \<longrightarrow> \<not> cmNormalized m) \<and> (\<not> cmHasSynthetic m \<longrightarrow> \<not> cmSynthetic m)"

subsection \<open>What a metadata value can contain\<close>

definition plain_value :: "string \<Rightarrow> bool" where
  "plain_value v \<longleftrightarrow> v \<noteq> [] \<and> CHR 0x0A \<notin> set v \<and> CHR 0x0D \<notin> set v"

definition plain_key :: "string \<Rightarrow> bool" where
  "plain_key k \<longleftrightarrow> k \<noteq> [] \<and> CHR '':'' \<notin> set k \<and> CHR 0x0A \<notin> set k \<and> CHR 0x0D \<notin> set k"

lemma find_sep_key: "CHR '':'' \<notin> set k \<Longrightarrow> find_at '': '' (k @ '': '' @ v) = Some (length k)"
  by (induction k) (auto simp: starts_with_def)

lemma parse_line_pair:
  assumes "plain_key k" "plain_value v"
  shows "parse_line st (render_pair (k, v)) = apply_pair st k v"
proof -
  have "find_at '': '' (k @ '': '' @ v) = Some (length k)"
    using assms(1) by (intro find_sep_key) (simp add: plain_key_def)
  then show ?thesis
    using assms by (auto simp: parse_line_def render_pair_def plain_key_def plain_value_def)
qed

lemma takeWhile_line: "c \<notin> set l \<Longrightarrow> takeWhile (\<lambda>x. x \<noteq> c) (l @ c # r) = l"
  by (induction l) auto

lemma dropWhile_line: "c \<notin> set l \<Longrightarrow> dropWhile (\<lambda>x. x \<noteq> c) (l @ c # r) = c # r"
  by (induction l) auto

lemma takeWhile_none: "c \<notin> set l \<Longrightarrow> takeWhile (\<lambda>x. x \<noteq> c) l = l"
  by (induction l) auto

lemma dropWhile_none: "c \<notin> set l \<Longrightarrow> dropWhile (\<lambda>x. x \<noteq> c) l = []"
  by (induction l) auto

fun apply_pairs :: "metadata_parser \<Rightarrow> (string \<times> string) list \<Rightarrow> metadata_parser option" where
  "apply_pairs st [] = Some st"
| "apply_pairs st ((k, v) # ps) =
     (case apply_pair st k v of None \<Rightarrow> None | Some st' \<Rightarrow> apply_pairs st' ps)"

text \<open>The parser reads a joined sequence of plain pairs as the fold of its single-pair step.\<close>

lemma parse_lines_pairs:
  assumes "\<forall>(k, v) \<in> set ps. plain_key k \<and> plain_value v"
  shows "parse_lines st (join_lines (map render_pair ps)) = apply_pairs st ps"
  using assms
proof (induction ps arbitrary: st)
  case Nil
  then show ?case by (simp add: parse_lines.simps)
next
  case (Cons p ps)
  obtain k v where p: "p = (k, v)" by fastforce
  have kv: "plain_key k" "plain_value v" using Cons.prems p by auto
  define l where "l = render_pair (k, v)"
  have nl: "CHR 0x0A \<notin> set l" and ne: "l \<noteq> []"
    using kv by (auto simp: l_def render_pair_def plain_key_def plain_value_def)
  have pl: "parse_line st l = apply_pair st k v"
    unfolding l_def by (rule parse_line_pair [OF kv])
  show ?case
  proof (cases "ps = []")
    case True
    have "parse_lines st l = apply_pairs st [p]"
      using ne nl pl p
      by (simp add: parse_lines.simps [of st l] parse_lines.simps [of _ "[]"]
          takeWhile_none dropWhile_none split: option.splits)
    with True p show ?thesis by (simp add: l_def)
  next
    case False
    define r where "r = join_lines (map render_pair ps)"
    have j: "join_lines (map render_pair (p # ps)) = l @ CHR 0x0A # r"
      using p False by (cases ps) (simp_all add: l_def r_def)
    have IH: "parse_lines st' r = apply_pairs st' ps" for st'
      unfolding r_def using Cons by simp
    have "parse_lines st (l @ CHR 0x0A # r) = apply_pairs st (p # ps)"
      using nl pl p IH
      by (simp add: parse_lines.simps [of st "l @ CHR 0x0A # r"] takeWhile_line dropWhile_line
          split: option.splits)
    then show ?thesis unfolding j .
  qed
qed

lemma plain_to_dec: "plain_value (to_dec n)"
  using digits_to_dec [of _ n] by (fastforce simp: plain_value_def is_digit_def char_code_def)

lemma plain_bool: "plain_value (bool_text b)"
  by (simp add: plain_value_def bool_text_def)

lemma base64_not_eol: "base64_char c \<Longrightarrow> c \<noteq> CHR 0x0A \<and> c \<noteq> CHR 0x0D"
  by (auto simp: base64_char_def char_code_def)

lemma plain_sha:
  assumes "sha_b64_ok v"
  shows "plain_value v"
proof -
  have "v \<noteq> []" using assms by (auto simp: sha_b64_ok_def)
  then obtain w c where w: "v = w @ [c]" by (cases v rule: rev_cases) auto
  with assms have "c = CHR ''=''" "\<forall>x \<in> set w. base64_char x"
    by (simp_all add: sha_b64_ok_def list_all_iff)
  with w show ?thesis by (auto simp: plain_value_def dest: base64_not_eol)
qed

lemma parseUnsigned_to_dec [simp]: "n \<le> u64_max \<Longrightarrow> parseUnsigned (to_dec n) = Some n"
  by (simp add: parseUnsigned_def)

lemma parseBool_text [simp]: "parseBool (bool_text b) = Some b"
  by (simp add: parseBool_def bool_text_def)

lemma unat_u32_max: "unat (x :: u32) \<le> u32_max"
proof -
  have "unat x < 2 ^ LENGTH(32)" by (rule unsigned_less)
  then show ?thesis by (simp add: u32_max_def)
qed

lemma unat_u64_max: "unat (x :: u64) \<le> u64_max"
proof -
  have "unat x < 2 ^ LENGTH(64)" by (rule unsigned_less)
  then show ?thesis by (simp add: u64_max_def)
qed

lemma unat_u32_max64: "unat (x :: u32) \<le> u64_max"
  using unat_u32_max [of x] by (simp add: u32_max_def u64_max_def)

subsection \<open>Soundness and round trip\<close>

definition parser_inv :: "metadata_parser \<Rightarrow> bool" where
  "parser_inv st \<longleftrightarrow>
     (mpAppIdSeen st \<longrightarrow> cmAppId (mpParsed st) \<noteq> 0) \<and>
     (mpWireSizeSeen st \<longrightarrow> cmWireSize (mpParsed st) \<noteq> 0) \<and>
     (mpShaSeen st \<longrightarrow> sha_b64_ok (cmShaBase64 (mpParsed st))) \<and>
     (\<not> cmHasNormalized (mpParsed st) \<longrightarrow> \<not> cmNormalized (mpParsed st)) \<and>
     (\<not> cmHasSynthetic (mpParsed st) \<longrightarrow> \<not> cmSynthetic (mpParsed st))"

lemma of_nat_u32_nonzero: "0 < n \<Longrightarrow> n \<le> u32_max \<Longrightarrow> (of_nat n :: u32) \<noteq> 0"
  by (auto simp: word_of_nat_eq_0_iff u32_max_def dest!: dvd_imp_le)

lemma of_nat_u64_nonzero: "0 < n \<Longrightarrow> n \<le> u64_max \<Longrightarrow> (of_nat n :: u64) \<noteq> 0"
  by (auto simp: word_of_nat_eq_0_iff u64_max_def dest!: dvd_imp_le)

lemma parseUnsigned_bound: "parseUnsigned v = Some n \<Longrightarrow> n \<le> u64_max"
  by (auto simp: parseUnsigned_def from_chars_all_iff split: if_splits)

lemma parser_inv_updates:
  "parser_inv st \<Longrightarrow> a \<noteq> 0 \<Longrightarrow>
     parser_inv (st\<lparr>mpAppIdSeen := True, mpParsed := (mpParsed st)\<lparr>cmAppId := a\<rparr>\<rparr>)"
  "parser_inv st \<Longrightarrow>
     parser_inv (st\<lparr>mpChangeSeen := True, mpParsed := (mpParsed st)\<lparr>cmChangeNumber := c\<rparr>\<rparr>)"
  "parser_inv st \<Longrightarrow> w \<noteq> 0 \<Longrightarrow>
     parser_inv (st\<lparr>mpWireSizeSeen := True, mpParsed := (mpParsed st)\<lparr>cmWireSize := w\<rparr>\<rparr>)"
  "parser_inv st \<Longrightarrow> sha_b64_ok s \<Longrightarrow>
     parser_inv (st\<lparr>mpShaSeen := True, mpParsed := (mpParsed st)\<lparr>cmShaBase64 := s\<rparr>\<rparr>)"
  "parser_inv st \<Longrightarrow> parser_inv (st\<lparr>mpNormalizedSeen := True,
     mpParsed := (mpParsed st)\<lparr>cmNormalized := b, cmHasNormalized := True\<rparr>\<rparr>)"
  "parser_inv st \<Longrightarrow> parser_inv (st\<lparr>mpSyntheticSeen := True,
     mpParsed := (mpParsed st)\<lparr>cmSynthetic := b, cmHasSynthetic := True\<rparr>\<rparr>)"
  by (simp_all add: parser_inv_def)

lemma apply_pair_inv:
  assumes "parser_inv st" "apply_pair st k v = Some st'"
  shows "parser_inv st'"
  using assms(2) unfolding apply_pair_def
  by (auto split: if_split_asm option.split_asm intro!: parser_inv_updates assms(1)
      simp: of_nat_u32_nonzero of_nat_u64_nonzero parseUnsigned_bound linorder_not_less)

lemma parse_line_inv: "parser_inv st \<Longrightarrow> parse_line st l = Some st' \<Longrightarrow> parser_inv st'"
  by (auto simp: parse_line_def intro: apply_pair_inv split: if_splits option.splits)

lemma parse_lines_inv: "parser_inv st \<Longrightarrow> parse_lines st s = Some st' \<Longrightarrow> parser_inv st'"
proof (induction st s rule: parse_lines.induct)
  case (1 st s)
  then show ?case
    by (auto simp: parse_lines.simps [of st s] dest: parse_line_inv split: if_splits option.splits)
qed

lemma parser_inv_init: "parser_inv init_parser"
  by (simp add: parser_inv_def init_parser_def empty_metadata_def)

lemma parse_sound_aux: "parseCacheMetadata s = Some m \<Longrightarrow> metadata_wf m"
  using parse_lines_inv [OF parser_inv_init]
  by (fastforce simp: parseCacheMetadata_def parser_inv_def metadata_wf_def
      split: option.splits if_splits)

lemma metadata_pairs_plain:
  "metadata_wf m \<Longrightarrow> \<forall>(k, v) \<in> set (metadata_pairs m). plain_key k \<and> plain_value v"
  by (auto simp: metadata_pairs_def metadata_wf_def plain_key_def
      intro: plain_to_dec plain_bool plain_sha)

lemma apply_metadata_pairs:
  assumes "metadata_wf m"
  shows "apply_pairs init_parser (metadata_pairs m) =
    Some \<lparr>mpParsed = m, mpAppIdSeen = True, mpWireSizeSeen = True, mpShaSeen = True,
          mpChangeSeen = True, mpNormalizedSeen = cmHasNormalized m,
          mpSyntheticSeen = cmHasSynthetic m\<rparr>"
  using assms
  by (simp add: metadata_pairs_def apply_pair_def init_parser_def empty_metadata_def metadata_wf_def
      unat_u32_max unat_u32_max64 unat_u64_max linorder_not_less unat_eq_zero)

lemma metadata_roundtrip_aux:
  assumes "metadata_wf m"
  shows "parseCacheMetadata (metadata_text m) = Some m"
  using parse_lines_pairs [OF metadata_pairs_plain [OF assms], of init_parser]
    apply_metadata_pairs [OF assms]
  by (simp add: parseCacheMetadata_def metadata_text_def)

section \<open>The validation memo key\<close>

datatype cache_validation_key = CacheValidationKey
  (ckAppId: u32) (ckMtimeSecs: int) (ckMtimeNsecs: int) (ckSize: int) (ckInode: u64)
  (ckMetadataMtimeSecs: int) (ckMetadataMtimeNsecs: int) (ckMetadataSize: int)
  (ckMetadataInode: u64)

text \<open>\<open>operator==\<close>\<close>

definition key_eq :: "cache_validation_key \<Rightarrow> cache_validation_key \<Rightarrow> bool" where
  "key_eq a b \<longleftrightarrow> ckAppId a = ckAppId b \<and> ckMtimeSecs a = ckMtimeSecs b
     \<and> ckMtimeNsecs a = ckMtimeNsecs b \<and> ckSize a = ckSize b \<and> ckInode a = ckInode b
     \<and> ckMetadataMtimeSecs a = ckMetadataMtimeSecs b
     \<and> ckMetadataMtimeNsecs a = ckMetadataMtimeNsecs b
     \<and> ckMetadataSize a = ckMetadataSize b \<and> ckMetadataInode a = ckMetadataInode b"

text \<open>\<open>operator<\<close>\<close>

definition key_less :: "cache_validation_key \<Rightarrow> cache_validation_key \<Rightarrow> bool" where
  "key_less a b =
     (if ckAppId a \<noteq> ckAppId b then ckAppId a < ckAppId b
      else if ckMtimeSecs a \<noteq> ckMtimeSecs b then ckMtimeSecs a < ckMtimeSecs b
      else if ckMtimeNsecs a \<noteq> ckMtimeNsecs b then ckMtimeNsecs a < ckMtimeNsecs b
      else if ckSize a \<noteq> ckSize b then ckSize a < ckSize b
      else if ckInode a \<noteq> ckInode b then ckInode a < ckInode b
      else if ckMetadataMtimeSecs a \<noteq> ckMetadataMtimeSecs b
        then ckMetadataMtimeSecs a < ckMetadataMtimeSecs b
      else if ckMetadataMtimeNsecs a \<noteq> ckMetadataMtimeNsecs b
        then ckMetadataMtimeNsecs a < ckMetadataMtimeNsecs b
      else if ckMetadataSize a \<noteq> ckMetadataSize b then ckMetadataSize a < ckMetadataSize b
      else ckMetadataInode a < ckMetadataInode b)"

definition key_tuple ::
  "cache_validation_key \<Rightarrow> u32 \<times> int \<times> int \<times> int \<times> u64 \<times> int \<times> int \<times> int \<times> u64" where
  "key_tuple a = (ckAppId a, ckMtimeSecs a, ckMtimeNsecs a, ckSize a, ckInode a,
     ckMetadataMtimeSecs a, ckMetadataMtimeNsecs a, ckMetadataSize a, ckMetadataInode a)"

lemma key_eq_iff: "key_eq a b \<longleftrightarrow> a = b"
  by (cases a; cases b) (simp add: key_eq_def)

lemma key_tuple_inject: "key_tuple a = key_tuple b \<longleftrightarrow> a = b"
  by (cases a; cases b) (simp add: key_tuple_def)

lemma key_less_tuple: "key_less a b \<longleftrightarrow> key_tuple a < key_tuple b"
  by (auto simp: key_less_def key_tuple_def less_prod_def')

instantiation cache_validation_key :: linorder
begin

definition less_cache_validation_key where
  "(a :: cache_validation_key) < b \<longleftrightarrow> key_less a b"

definition less_eq_cache_validation_key where
  "(a :: cache_validation_key) \<le> b \<longleftrightarrow> key_less a b \<or> key_eq a b"

instance
  by standard
    (auto simp: less_cache_validation_key_def less_eq_cache_validation_key_def key_less_tuple
      key_eq_iff key_tuple_inject [symmetric])

end

section \<open>Publication and provenance decisions\<close>

datatype cache_use = UseNone | UseFresh | UseFallback

definition shouldPreserveCacheFromRawPics :: "bool \<Rightarrow> bool \<Rightarrow> bool" where
  "shouldPreserveCacheFromRawPics hasNormalizedMarker normalized \<longleftrightarrow>
     \<not> hasNormalizedMarker \<or> normalized"

record local_authority_facts =
  laManaged :: bool
  laActive :: bool
  laSynthetic :: bool
  laCacheValid :: bool
  laHasNormalizedMarker :: bool
  laNormalized :: bool

definition locallyAuthoritative :: "local_authority_facts \<Rightarrow> bool" where
  "locallyAuthoritative facts =
     (if \<not> laActive facts then False
      else if laSynthetic facts then True
      else laManaged facts \<and> laCacheValid facts \<and>
        shouldPreserveCacheFromRawPics (laHasNormalizedMarker facts) (laNormalized facts))"

definition cachePublicationAllowed :: "bool \<Rightarrow> u64 \<Rightarrow> u64 \<Rightarrow> bool" where
  "cachePublicationAllowed managed expectedGeneration currentGeneration \<longleftrightarrow>
     managed \<and> expectedGeneration = currentGeneration"

definition protonPublicationAllowed :: "bool \<Rightarrow> u64 \<Rightarrow> u64 \<Rightarrow> bool" where
  "protonPublicationAllowed managed expectedGeneration currentGeneration =
     cachePublicationAllowed managed expectedGeneration currentGeneration"

definition terminalResultStillApplies :: "bool \<Rightarrow> u64 \<Rightarrow> u64 \<Rightarrow> bool" where
  "terminalResultStillApplies recorded recordedGeneration currentGeneration \<longleftrightarrow>
     recorded \<and> recordedGeneration = currentGeneration"

definition syntheticMarkerConsistent :: "bool \<Rightarrow> bool \<Rightarrow> bool" where
  "syntheticMarkerConsistent synthetic markerPresent \<longleftrightarrow> synthetic = markerPresent"

definition syntheticMarkerPublicationConsistent :: "bool \<Rightarrow> bool \<Rightarrow> bool \<Rightarrow> bool" where
  "syntheticMarkerPublicationConsistent synthetic operationSucceeded markerPresent \<longleftrightarrow>
     operationSucceeded \<and> syntheticMarkerConsistent synthetic markerPresent"

definition syntheticMarkerStateConsistent :: "bool \<Rightarrow> bool \<Rightarrow> bool \<Rightarrow> bool" where
  "syntheticMarkerStateConsistent hasSyntheticMetadata synthetic markerPresent =
     (if \<not> hasSyntheticMetadata then True
      else syntheticMarkerConsistent synthetic markerPresent)"

definition retainedSyntheticMarkerProtectionAllowed :: "bool \<Rightarrow> bool \<Rightarrow> bool \<Rightarrow> bool" where
  "retainedSyntheticMarkerProtectionAllowed markerPresent metadataPresent activeCompatibility \<longleftrightarrow>
     markerPresent \<and> \<not> metadataPresent \<and> activeCompatibility"

definition shouldPreserveSyntheticMarker :: "bool \<Rightarrow> bool \<Rightarrow> bool" where
  "shouldPreserveSyntheticMarker retainCompatibility isSynthetic \<longleftrightarrow>
     retainCompatibility \<and> isSynthetic"

definition shouldInvalidateDlcMetadata :: "bool \<Rightarrow> bool" where
  "shouldInvalidateDlcMetadata basePublicationSucceeded = basePublicationSucceeded"

record cache_record_facts =
  crRequestedAppId :: u32
  crMetadataAppId :: u32
  crDeclaredSize :: u64
  crActualSize :: u64
  crShaSize :: u64
  crShaMatches :: bool
  crParsed :: bool
  crHasUsableContent :: bool

definition isCacheRecordValid :: "cache_record_facts \<Rightarrow> bool" where
  "isCacheRecordValid facts \<longleftrightarrow>
     crRequestedAppId facts \<noteq> 0
     \<and> crMetadataAppId facts = crRequestedAppId facts
     \<and> crDeclaredSize facts > 0
     \<and> crDeclaredSize facts = crActualSize facts
     \<and> crShaSize facts = 20
     \<and> crShaMatches facts
     \<and> crParsed facts
     \<and> crHasUsableContent facts"

definition chooseCacheUse :: "bool \<Rightarrow> bool \<Rightarrow> bool \<Rightarrow> cache_use" where
  "chooseCacheUse cacheValid cacheFresh refreshUnavailable =
     (if \<not> cacheValid then UseNone
      else if cacheFresh then UseFresh
      else if refreshUnavailable then UseFallback else UseNone)"

definition shouldValidateCache :: "bool \<Rightarrow> bool \<Rightarrow> bool" where
  "shouldValidateCache cacheFresh refreshUnavailable \<longleftrightarrow> cacheFresh \<or> refreshUnavailable"

definition wireSizeMatches :: "u64 \<Rightarrow> u64 \<Rightarrow> bool" where
  "wireSizeMatches actualSize declaredSize \<longleftrightarrow> declaredSize > 0 \<and> actualSize = declaredSize"

definition isBufferReusable :: "bool \<Rightarrow> int \<Rightarrow> int \<Rightarrow> int \<Rightarrow> bool" where
  "isBufferReusable bufExists mtimeSecs nowSecs ttlSecs =
     (if \<not> bufExists then False
      else if ttlSecs \<le> 0 then False
      else (let age = nowSecs - mtimeSecs in
            if age < 0 then False else age < ttlSecs))"

section \<open>Properties\<close>

text \<open>C?: a metadata view is well formed exactly when rendering it as \<open>key: value\<close> lines and parsing
  the text gives the same view back.\<close>

theorem metadata_roundtrip:
  "metadata_wf m \<longleftrightarrow> parseCacheMetadata (metadata_text m) = Some m"
  using metadata_roundtrip_aux parse_sound_aux by blast

text \<open>parsing fails closed: whatever text is accepted names a non-zero app and wire size and a
  28-character base64 digest, and an absent optional flag reads as false.\<close>

theorem parseCacheMetadata_sound:
  "parseCacheMetadata s = Some m \<Longrightarrow>
     cmAppId m \<noteq> 0 \<and> cmWireSize m \<noteq> 0 \<and> sha_b64_ok (cmShaBase64 m) \<and>
     (cmNormalized m \<longrightarrow> cmHasNormalized m) \<and> (cmSynthetic m \<longrightarrow> cmHasSynthetic m)"
  using parse_sound_aux [of s m] by (auto simp: metadata_wf_def)

lemma parseCacheMetadata_sound_witness:
  "let m = \<lparr>cmAppId = 440, cmChangeNumber = 7, cmWireSize = 12,
        cmShaBase64 = replicate 27 (CHR ''A'') @ ''='',
        cmHasNormalized = True, cmNormalized = True, cmHasSynthetic = False, cmSynthetic = False\<rparr>
   in cmAppId m \<noteq> 0 \<and> cmWireSize m \<noteq> 0 \<and> sha_b64_ok (cmShaBase64 m) \<and>
      (\<not> cmNormalized m \<or> cmHasNormalized m) \<and> (\<not> cmSynthetic m \<or> cmHasSynthetic m)"
proof -
  define m where "m = \<lparr>cmAppId = 440, cmChangeNumber = 7, cmWireSize = 12,
        cmShaBase64 = replicate 27 (CHR ''A'') @ ''='',
        cmHasNormalized = True, cmNormalized = True, cmHasSynthetic = False, cmSynthetic = False\<rparr>"
  have "base64_char (CHR ''A'')" by code_simp
  then have "sha_b64_ok (replicate 27 (CHR ''A'') @ ''='')"
    by (simp add: sha_b64_ok_def butlast_append list_all_iff)
  then have "metadata_wf m" by (simp add: metadata_wf_def m_def)
  then have "parseCacheMetadata (metadata_text m) = Some m" by (rule metadata_roundtrip_aux)
  from parseCacheMetadata_sound [OF this] show ?thesis unfolding Let_def m_def by blast
qed

end
