(* ===== verification/OrdMap.thy ===== *)
theory OrdMap
  imports Prelude
begin

text \<open>
  \<open>std::map\<close> and \<open>std::set\<close> as the sources use them: lookup, insert-or-assign, erase, and
  iteration in ascending key order. A map is its list of entries in iteration order. The
  interface the clients rely on is the locale \<open>ordered_map\<close>, discharged for the entry list.
\<close>

type_synonym ('k, 'v) omap = "('k \<times> 'v) list"

definition om_find :: "('k, 'v) omap \<Rightarrow> 'k \<Rightarrow> 'v option" where
  "om_find m k = map_of m k"

fun om_put :: "'k::linorder \<Rightarrow> 'v \<Rightarrow> ('k, 'v) omap \<Rightarrow> ('k, 'v) omap" where
  "om_put k v [] = [(k, v)]"
| "om_put k v ((k', v') # m) =
     (if k = k' then (k, v) # m
      else if k < k' then (k, v) # (k', v') # m
      else (k', v') # om_put k v m)"

definition om_erase :: "'k \<Rightarrow> ('k, 'v) omap \<Rightarrow> ('k, 'v) omap" where
  "om_erase k m = filter (\<lambda>e. fst e \<noteq> k) m"

definition om_keys :: "('k, 'v) omap \<Rightarrow> 'k list" where
  "om_keys m = map fst m"

definition om_values :: "('k, 'v) omap \<Rightarrow> 'v list" where
  "om_values m = map snd m"

definition om_ok :: "('k::linorder, 'v) omap \<Rightarrow> bool" where
  "om_ok m \<longleftrightarrow> sorted_wrt (<) (map fst m)"

lemma om_ok_Nil [simp]: "om_ok []"
  by (simp add: om_ok_def)

lemma om_find_Nil [simp]: "om_find [] k = None"
  by (simp add: om_find_def)

lemma fst_set_om_put: "fst ` set (om_put k v m) = insert k (fst ` set m)"
  by (induction k v m rule: om_put.induct) auto

lemma om_ok_put [simp]: "om_ok m \<Longrightarrow> om_ok (om_put k v m)"
  unfolding om_ok_def
proof (induction k v m rule: om_put.induct)
  case (2 k v k' v' m)
  have "fst ` set (om_put k v m) = insert k (fst ` set m)" by (rule fst_set_om_put)
  then have "\<forall>x \<in> set (map fst (om_put k v m)). x = k \<or> x \<in> set (map fst m)" by auto
  with 2 show ?case by (cases k k' rule: linorder_cases) (force dest: less_trans)+
qed simp

lemma om_ok_erase [simp]: "om_ok m \<Longrightarrow> om_ok (om_erase k m)"
  by (induction m) (auto simp: om_ok_def om_erase_def)

lemma om_find_put [simp]: "om_find (om_put k v m) = (om_find m)(k \<mapsto> v)"
  by (induction k v m rule: om_put.induct) (auto simp: om_find_def)

lemma om_find_erase [simp]: "om_find (om_erase k m) = (om_find m)(k := None)"
  by (induction m) (auto simp: om_find_def om_erase_def)

lemma om_find_in_set: "om_ok m \<Longrightarrow> om_find m k = Some v \<longleftrightarrow> (k, v) \<in> set m"
  by (simp add: om_find_def om_ok_def strict_sorted_iff)

lemma om_put_not_Nil [simp]: "om_put k v m \<noteq> []"
  by (induction k v m rule: om_put.induct) auto

lemma set_om_keys [simp]: "set (om_keys m) = dom (om_find m)"
  by (simp add: om_keys_def om_find_def [abs_def] dom_map_of_conv_image_fst)

lemma om_find_None_iff: "om_find m k = None \<longleftrightarrow> k \<notin> fst ` set m"
  by (simp add: om_find_def map_of_eq_None_iff)

lemma om_empty_iff: "m = [] \<longleftrightarrow> om_find m = Map.empty"
  by (cases m) (auto simp: om_find_def fun_eq_iff)

section \<open>The contract\<close>

locale ordered_map =
  fixes find :: "'m \<Rightarrow> 'k::linorder \<Rightarrow> 'v option"
    and put :: "'k \<Rightarrow> 'v \<Rightarrow> 'm \<Rightarrow> 'm"
    and erase :: "'k \<Rightarrow> 'm \<Rightarrow> 'm"
    and entries :: "'m \<Rightarrow> ('k \<times> 'v) list"
    and ok :: "'m \<Rightarrow> bool"
  assumes find_put: "ok m \<Longrightarrow> find (put k v m) = (find m)(k \<mapsto> v)"
    and find_erase: "ok m \<Longrightarrow> find (erase k m) = (find m)(k := None)"
    and ok_put: "ok m \<Longrightarrow> ok (put k v m)"
    and ok_erase: "ok m \<Longrightarrow> ok (erase k m)"
    and entries_find: "ok m \<Longrightarrow> (k, v) \<in> set (entries m) \<longleftrightarrow> find m k = Some v"
    and entries_sorted: "ok m \<Longrightarrow> sorted_wrt (<) (map fst (entries m))"
begin

text \<open>Iteration sees every key once, in order; two maps with the same lookups iterate alike.\<close>

lemma keys_are_dom: "ok m \<Longrightarrow> set (map fst (entries m)) = dom (find m)"
  by (force simp: entries_find [symmetric])

lemma iteration_determined:
  assumes "ok m" "ok m'" "find m = find m'"
  shows "entries m = entries m'"
proof -
  have keys: "map fst (entries m) = map fst (entries m')"
    by (rule strict_sorted_eqI) (use assms keys_are_dom entries_sorted in auto)
  have shape: "entries n = map (\<lambda>k. (k, the (find n k))) (map fst (entries n))" if "ok n" for n
  proof -
    have "(fst e, the (find n (fst e))) = e" if "e \<in> set (entries n)" for e
      using that \<open>ok n\<close> entries_find [of n "fst e" "snd e"] by simp
    then show ?thesis by (simp add: map_idI comp_def)
  qed
  show ?thesis
    using shape [of m] shape [of m'] keys assms by simp
qed

lemma put_commute:
  "ok m \<Longrightarrow> k \<noteq> l \<Longrightarrow> entries (put k v (put l w m)) = entries (put l w (put k v m))"
  by (rule iteration_determined) (auto simp: find_put ok_put)

lemma put_twice: "ok m \<Longrightarrow> entries (put k v (put k w m)) = entries (put k v m)"
  by (rule iteration_determined) (auto simp: find_put ok_put)

end

interpretation std_map: ordered_map om_find om_put om_erase "\<lambda>m. m" om_ok
  by unfold_locales (simp_all add: om_find_in_set, simp add: om_ok_def)

lemma om_eqI: "om_ok m \<Longrightarrow> om_ok m' \<Longrightarrow> om_find m = om_find m' \<Longrightarrow> m = m'"
  by (rule std_map.iteration_determined)

lemma om_values_find: "om_ok m \<Longrightarrow> v \<in> set (om_values m) \<longleftrightarrow> (\<exists>k. om_find m k = Some v)"
  by (force simp: om_values_def om_find_in_set)

section \<open>Folding insertions\<close>

text \<open>A loop that inserts one entry per element of a vector.\<close>

lemma om_ok_fold:
  "(\<And>m x. om_ok m \<Longrightarrow> om_ok (f x m)) \<Longrightarrow> om_ok m \<Longrightarrow> om_ok (fold f xs m)"
  by (induction xs arbitrary: m) auto

end
