(* ===== verification/RefreshQueue.thy ===== *)
theory RefreshQueue
  imports CachePolicy OrdMap
begin

unbundle bit_operations_syntax

text \<open>
  \<open>src/feats/provision_refresh.hpp\<close>: refresh requests, the plan selected from observed app
  states, and the single-worker queue that coalesces requests. \<open>std::map\<close> by app id is
  \<open>(u32, _) omap\<close>; the queue's methods run under the coordinator's lock, so each is one step.
\<close>

section \<open>Requests\<close>

datatype refresh_reason =
  PicsProductInfo | PicsChanges | HotAdd | LocalInputs | CacheRepair | ForceFull | DlcMetadata

fun reasonMask :: "refresh_reason \<Rightarrow> u8" where
  "reasonMask PicsProductInfo = 1"
| "reasonMask PicsChanges = 2"
| "reasonMask HotAdd = 4"
| "reasonMask LocalInputs = 8"
| "reasonMask CacheRepair = 16"
| "reasonMask ForceFull = 32"
| "reasonMask DlcMetadata = 64"

record refresh_request =
  rqAppId :: u32
  rqMinimumChange :: u32
  rqGeneration :: u64
  rqReasons :: u8
  rqForceRefresh :: bool
  rqPublishRuntime :: bool

definition empty_request :: refresh_request where
  "empty_request = \<lparr>rqAppId = 0, rqMinimumChange = 0, rqGeneration = 0, rqReasons = 0,
     rqForceRefresh = False, rqPublishRuntime = False\<rparr>"

definition dlcMetadataPublishesLive :: "refresh_request \<Rightarrow> bool" where
  "dlcMetadataPublishesLive request =
     (let metadataOnly = (rqReasons request AND NOT (reasonMask DlcMetadata) = 0);
          explicitlyHotAdded = (rqReasons request AND reasonMask HotAdd \<noteq> 0);
          startupCacheRecovery = (rqReasons request AND reasonMask CacheRepair \<noteq> 0)
      in rqPublishRuntime request \<and> (metadataOnly \<or> explicitlyHotAdded \<or> startupCacheRecovery))"

record observed_app_state =
  oaAppId :: u32
  oaGeneration :: u64
  oaCachedChange :: u32
  oaObservedChange :: u32
  oaReadiness :: cache_readiness
  oaTerminalApplies :: bool
  oaTerminalChange :: u32

record refresh_plan =
  rpRequests :: "refresh_request list"
  rpReady :: nat
  rpTerminal :: nat
  rpBusy :: nat

datatype refresh_queue_action = Ignore | Start | Queue

section \<open>Merging\<close>

definition mergeRefreshRequests :: "refresh_request \<Rightarrow> refresh_request \<Rightarrow> refresh_request" where
  "mergeRefreshRequests current incoming =
     (if rqGeneration incoming > rqGeneration current then incoming
      else if rqGeneration incoming < rqGeneration current then current
      else current\<lparr>
        rqMinimumChange := (if rqMinimumChange incoming > rqMinimumChange current
                            then rqMinimumChange incoming else rqMinimumChange current),
        rqReasons := rqReasons current OR rqReasons incoming,
        rqForceRefresh := rqForceRefresh current \<or> rqForceRefresh incoming,
        rqPublishRuntime := rqPublishRuntime current \<or> rqPublishRuntime incoming\<rparr>)"

definition refreshRequestStrongerThan :: "refresh_request \<Rightarrow> refresh_request \<Rightarrow> bool" where
  "refreshRequestStrongerThan candidate baseline =
     (if rqGeneration candidate \<noteq> rqGeneration baseline
      then rqGeneration candidate > rqGeneration baseline
      else rqMinimumChange candidate > rqMinimumChange baseline \<or>
           rqReasons candidate AND NOT (rqReasons baseline) \<noteq> 0 \<or>
           (rqForceRefresh candidate \<and> \<not> rqForceRefresh baseline) \<or>
           (rqPublishRuntime candidate \<and> \<not> rqPublishRuntime baseline))"

definition sameRefreshRequest :: "refresh_request \<Rightarrow> refresh_request \<Rightarrow> bool" where
  "sameRefreshRequest left right \<longleftrightarrow>
     rqAppId left = rqAppId right \<and>
     rqMinimumChange left = rqMinimumChange right \<and>
     rqGeneration left = rqGeneration right \<and>
     rqReasons left = rqReasons right \<and>
     rqForceRefresh left = rqForceRefresh right \<and>
     rqPublishRuntime left = rqPublishRuntime right"

type_synonym request_map = "(u32, refresh_request) omap"

definition mergeRefreshRequest :: "request_map \<Rightarrow> refresh_request \<Rightarrow> request_map" where
  "mergeRefreshRequest requests incoming =
     (if rqAppId incoming = 0 then requests
      else case om_find requests (rqAppId incoming) of
        None \<Rightarrow> om_put (rqAppId incoming) incoming requests
      | Some cur \<Rightarrow>
          om_put (rqAppId incoming) (mergeRefreshRequests cur incoming) requests)"

definition refreshRequestBatch :: "request_map \<Rightarrow> refresh_request list" where
  "refreshRequestBatch requests = om_values requests"

section \<open>Planning\<close>

text \<open>One iteration of the selection loop: the plan's counters and the selected map.\<close>

definition select_state ::
  "refresh_reason \<Rightarrow> observed_app_state \<Rightarrow> request_map \<times> refresh_plan \<Rightarrow> request_map \<times> refresh_plan"
where
  "select_state reason st = (\<lambda>(selected, plan).
     if oaAppId st = 0 then (selected, plan)
     else if oaTerminalApplies st \<and> oaObservedChange st \<le> oaTerminalChange st
       then (selected, plan\<lparr>rpTerminal := Suc (rpTerminal plan)\<rparr>)
     else
       (let cacheReady = (oaReadiness st = Fresh \<or> oaReadiness st = ValidStale);
            hasNewerChange = (oaObservedChange st > oaCachedChange st)
        in if cacheReady \<and> (oaObservedChange st = 0 \<or> \<not> hasNewerChange)
           then (selected, plan\<lparr>rpReady := Suc (rpReady plan)\<rparr>)
           else
             (mergeRefreshRequest selected
                \<lparr>rqAppId = oaAppId st, rqMinimumChange = oaObservedChange st,
                 rqGeneration = oaGeneration st, rqReasons = reasonMask reason,
                 rqForceRefresh = True, rqPublishRuntime = False\<rparr>,
              if oaReadiness st = Busy then plan\<lparr>rpBusy := Suc (rpBusy plan)\<rparr> else plan)))"

definition selectRefreshRequests ::
  "observed_app_state list \<Rightarrow> refresh_reason \<Rightarrow> refresh_plan" where
  "selectRefreshRequests states reason =
     (let (selected, plan) = fold (select_state reason) states
            ([], \<lparr>rpRequests = [], rpReady = 0, rpTerminal = 0, rpBusy = 0\<rparr>)
      in plan\<lparr>rpRequests := refreshRequestBatch selected\<rparr>)"

section \<open>The queue\<close>

record refresh_queue =
  qActive :: bool
  qActiveRequests :: request_map
  qPendingRequests :: request_map

definition new_queue :: refresh_queue where
  "new_queue = \<lparr>qActive = False, qActiveRequests = [], qPendingRequests = []\<rparr>"

record refresh_decision =
  rdAction :: refresh_queue_action
  rdBatch :: "refresh_request list"

text \<open>The body of the loop that runs while a worker is active: pending map and \<open>queued\<close> flag.\<close>

definition enqueue_active_one ::
  "request_map \<Rightarrow> refresh_request \<Rightarrow> request_map \<times> bool \<Rightarrow> request_map \<times> bool" where
  "enqueue_active_one activeRequests request = (\<lambda>(pendingRequests, queued).
     if rqAppId request = 0 then (pendingRequests, queued)
     else
       (let merge_in = (\<lambda>rq.
              let pending = om_find pendingRequests (rqAppId request);
                  before = (case pending of None \<Rightarrow> empty_request | Some p \<Rightarrow> p);
                  pendingRequests' = mergeRefreshRequest pendingRequests rq;
                  after = (case om_find pendingRequests' (rqAppId request) of
                             None \<Rightarrow> empty_request | Some p \<Rightarrow> p)
              in (pendingRequests',
                  queued \<or> pending = None \<or> \<not> sameRefreshRequest before after))
        in case om_find activeRequests (rqAppId request) of
             None \<Rightarrow> merge_in request
           | Some act \<Rightarrow>
               (let merged = mergeRefreshRequests act request
                in if \<not> refreshRequestStrongerThan merged act then (pendingRequests, queued)
                   else merge_in merged)))"

definition enqueue :: "refresh_request list \<Rightarrow> refresh_queue \<Rightarrow> refresh_decision \<times> refresh_queue"
where
  "enqueue incoming q =
     (if \<not> qActive q then
        (let pending = fold (\<lambda>r m. mergeRefreshRequest m r) incoming (qPendingRequests q)
         in if pending = []
            then (\<lparr>rdAction = Ignore, rdBatch = []\<rparr>, q\<lparr>qPendingRequests := pending\<rparr>)
            else (\<lparr>rdAction = Start, rdBatch = refreshRequestBatch pending\<rparr>,
                  \<lparr>qActive = True, qActiveRequests = pending, qPendingRequests = []\<rparr>))
      else
        (let (pending, queued) =
               fold (enqueue_active_one (qActiveRequests q)) incoming (qPendingRequests q, False)
         in (\<lparr>rdAction = (if queued then Queue else Ignore), rdBatch = []\<rparr>,
             q\<lparr>qPendingRequests := pending\<rparr>)))"

definition finishActive :: "refresh_queue \<Rightarrow> refresh_request list \<times> refresh_queue" where
  "finishActive q =
     (if qPendingRequests q = []
      then ([], \<lparr>qActive = False, qActiveRequests = [], qPendingRequests = []\<rparr>)
      else (refreshRequestBatch (qPendingRequests q),
            \<lparr>qActive = True, qActiveRequests = qPendingRequests q, qPendingRequests = []\<rparr>))"

definition restoreAfterStartFailure :: "refresh_request list \<Rightarrow> refresh_queue \<Rightarrow> refresh_queue" where
  "restoreAfterStartFailure failed q =
     q\<lparr>qActiveRequests := [], qActive := False,
       qPendingRequests := fold (\<lambda>r m. mergeRefreshRequest m r) failed (qPendingRequests q)\<rparr>"

section \<open>The merge is a join\<close>

text \<open>
  A request covers another when running it satisfies the other: same app, a newer managed
  generation, or the same generation with every demand included.
\<close>

definition covers :: "refresh_request \<Rightarrow> refresh_request \<Rightarrow> bool" where
  "covers a b \<longleftrightarrow> rqAppId a = rqAppId b \<and>
     (rqGeneration b < rqGeneration a \<or>
      (rqGeneration a = rqGeneration b \<and>
       rqMinimumChange b \<le> rqMinimumChange a \<and>
       rqReasons b AND NOT (rqReasons a) = 0 \<and>
       (rqForceRefresh b \<longrightarrow> rqForceRefresh a) \<and>
       (rqPublishRuntime b \<longrightarrow> rqPublishRuntime a)))"

lemma and_not_zero_iff: "(a :: 'a::len word) AND NOT b = 0 \<longleftrightarrow> (\<forall>n. bit a n \<longrightarrow> bit b n)"
  by (auto simp: bit_eq_iff bit_and_iff bit_not_iff dest: bit_imp_le_length)

lemma covers_refl [simp]: "covers a a"
  by (simp add: covers_def)

lemma covers_trans: "covers a b \<Longrightarrow> covers b c \<Longrightarrow> covers a c"
  by (auto simp: covers_def and_not_zero_iff)

lemma same_request_eq: "sameRefreshRequest a b \<longleftrightarrow> a = b"
  by (auto simp: sameRefreshRequest_def)

lemma mask_antisym: "a AND NOT b = 0 \<Longrightarrow> b AND NOT a = 0 \<Longrightarrow> a = (b :: 'a::len word)"
  unfolding and_not_zero_iff by (intro bit_eqI) blast

lemma covers_antisym: "covers a b \<Longrightarrow> covers b a \<Longrightarrow> a = (b :: refresh_request)"
  by (cases "rqGeneration a" "rqGeneration b" rule: linorder_cases)
    (auto simp: covers_def dest: mask_antisym intro!: refresh_request.equality)

lemma merge_appId: "rqAppId a = rqAppId b \<Longrightarrow> rqAppId (mergeRefreshRequests a b) = rqAppId a"
  by (simp add: mergeRefreshRequests_def)

lemma merge_covers_left: "rqAppId a = rqAppId b \<Longrightarrow> covers (mergeRefreshRequests a b) a"
  by (auto simp: mergeRefreshRequests_def covers_def and_not_zero_iff bit_or_iff)

lemma merge_covers_right: "rqAppId a = rqAppId b \<Longrightarrow> covers (mergeRefreshRequests a b) b"
  by (auto simp: mergeRefreshRequests_def covers_def and_not_zero_iff bit_or_iff)

lemma merge_least: "covers c a \<Longrightarrow> covers c b \<Longrightarrow> covers c (mergeRefreshRequests a b)"
  by (auto simp: mergeRefreshRequests_def covers_def and_not_zero_iff bit_or_iff)

lemma stronger_iff_not_covered:
  "rqAppId a = rqAppId b \<Longrightarrow> refreshRequestStrongerThan a b \<longleftrightarrow> \<not> covers b a"
  by (auto simp: refreshRequestStrongerThan_def covers_def)

lemma merge_not_stronger_iff:
  assumes "rqAppId a = rqAppId b"
  shows "\<not> refreshRequestStrongerThan (mergeRefreshRequests a b) a \<longleftrightarrow> covers a b"
  using assms merge_covers_right [OF assms] merge_least [of a a b] covers_trans
  by (auto simp: stronger_iff_not_covered merge_appId)

section \<open>Request maps\<close>

definition map_wf :: "request_map \<Rightarrow> bool" where
  "map_wf m \<longleftrightarrow> om_ok m \<and> (\<forall>k r. om_find m k = Some r \<longrightarrow> k \<noteq> 0 \<and> rqAppId r = k)"

definition held_in :: "request_map \<Rightarrow> refresh_request \<Rightarrow> bool" where
  "held_in m r \<longleftrightarrow> (\<exists>x. om_find m (rqAppId r) = Some x \<and> covers x r)"

lemma map_wf_Nil [simp]: "map_wf []"
  by (simp add: map_wf_def)

lemma map_wf_ok [simp]: "map_wf m \<Longrightarrow> om_ok m"
  by (simp add: map_wf_def)

lemma map_wf_find: "map_wf m \<Longrightarrow> om_find m k = Some r \<Longrightarrow> k \<noteq> 0 \<and> rqAppId r = k"
  by (simp add: map_wf_def)

lemma map_wf_app: "map_wf m \<Longrightarrow> om_find m k = Some r \<Longrightarrow> rqAppId r = k"
  by (simp add: map_wf_def)

lemma merge_find:
  "om_find (mergeRefreshRequest m r) k =
     (if rqAppId r \<noteq> 0 \<and> k = rqAppId r
      then Some (case om_find m k of None \<Rightarrow> r | Some cur \<Rightarrow> mergeRefreshRequests cur r)
      else om_find m k)"
  by (auto simp: mergeRefreshRequest_def split: option.splits)

lemma merge_wf [simp]: "map_wf m \<Longrightarrow> map_wf (mergeRefreshRequest m r)"
  by (auto simp: map_wf_def mergeRefreshRequest_def merge_appId split: option.splits if_splits)

lemma merge_holds_new: "map_wf m \<Longrightarrow> rqAppId r \<noteq> 0 \<Longrightarrow> held_in (mergeRefreshRequest m r) r"
  by (auto simp: held_in_def merge_find dest: map_wf_find intro: merge_covers_right
      split: option.splits)

lemma merge_grows:
  assumes "map_wf m" "om_find m k = Some x"
  shows "\<exists>y. om_find (mergeRefreshRequest m r) k = Some y \<and> covers y x"
  using assms map_wf_app [OF assms] merge_covers_left [of x r] by (auto simp: merge_find)

lemma merge_keeps_held: "map_wf m \<Longrightarrow> held_in m r \<Longrightarrow> held_in (mergeRefreshRequest m r') r"
  by (meson held_in_def merge_grows covers_trans)

lemma held_in_covers: "held_in m x \<Longrightarrow> covers x r \<Longrightarrow> held_in m r"
  using covers_trans by (auto simp: held_in_def covers_def [of x r])

lemma fold_merge_wf [simp]:
  "map_wf m \<Longrightarrow> map_wf (fold (\<lambda>r m. mergeRefreshRequest m r) rs m)"
  by (induction rs arbitrary: m) auto

lemma fold_merge_keeps_held:
  "map_wf m \<Longrightarrow> held_in m r \<Longrightarrow> held_in (fold (\<lambda>r m. mergeRefreshRequest m r) rs m) r"
  by (induction rs arbitrary: m) (simp_all add: merge_keeps_held)

lemma fold_merge_holds:
  "map_wf m \<Longrightarrow> r \<in> set rs \<Longrightarrow> rqAppId r \<noteq> 0 \<Longrightarrow>
     held_in (fold (\<lambda>r m. mergeRefreshRequest m r) rs m) r"
  by (induction rs arbitrary: m) (auto intro: fold_merge_keeps_held merge_holds_new)

lemma held_in_batch: "map_wf m \<Longrightarrow> held_in m r \<Longrightarrow> \<exists>x \<in> set (refreshRequestBatch m). covers x r"
  using om_values_find [of m] by (auto simp: held_in_def refreshRequestBatch_def)

section \<open>The queue's invariant\<close>

text \<open>
  Both maps are keyed by their requests' non-zero app ids; there is an active batch exactly while
  a worker is active; a pending entry for an app the worker is already refreshing demands
  strictly more than the running request.
\<close>

definition queue_inv :: "refresh_queue \<Rightarrow> bool" where
  "queue_inv q \<longleftrightarrow> map_wf (qActiveRequests q) \<and> map_wf (qPendingRequests q) \<and>
     (qActive q \<longleftrightarrow> qActiveRequests q \<noteq> []) \<and>
     (\<forall>k a p. om_find (qActiveRequests q) k = Some a \<longrightarrow> om_find (qPendingRequests q) k = Some p
        \<longrightarrow> covers p a \<and> \<not> covers a p)"

definition pending_ok :: "request_map \<Rightarrow> request_map \<Rightarrow> bool" where
  "pending_ok act m \<longleftrightarrow> map_wf m \<and>
     (\<forall>k a p. om_find act k = Some a \<longrightarrow> om_find m k = Some p \<longrightarrow> covers p a \<and> \<not> covers a p)"

definition active_one_target :: "request_map \<Rightarrow> refresh_request \<Rightarrow> refresh_request option" where
  "active_one_target act r =
     (if rqAppId r = 0 then None
      else case om_find act (rqAppId r) of
        None \<Rightarrow> Some r
      | Some a \<Rightarrow> if covers a r then None else Some (mergeRefreshRequests a r))"

lemma fst_enqueue_active_one:
  assumes "map_wf act"
  shows "fst (enqueue_active_one act r (m, b)) =
    (case active_one_target act r of None \<Rightarrow> m | Some t \<Rightarrow> mergeRefreshRequest m t)"
proof (cases "om_find act (rqAppId r)")
  case None
  then show ?thesis by (simp add: enqueue_active_one_def active_one_target_def Let_def)
next
  case (Some a)
  with assms have "\<not> refreshRequestStrongerThan (mergeRefreshRequests a r) a \<longleftrightarrow> covers a r"
    by (intro merge_not_stronger_iff) (simp add: map_wf_app)
  with Some show ?thesis by (auto simp: enqueue_active_one_def active_one_target_def Let_def)
qed

lemma target_appId:
  "map_wf act \<Longrightarrow> active_one_target act r = Some t \<Longrightarrow> rqAppId t = rqAppId r \<and> rqAppId r \<noteq> 0"
  by (auto simp: active_one_target_def merge_appId dest: map_wf_find split: if_splits option.splits)

lemma target_covers: "map_wf act \<Longrightarrow> active_one_target act r = Some t \<Longrightarrow> covers t r"
  by (auto simp: active_one_target_def intro: merge_covers_right dest: map_wf_find
      split: if_splits option.splits)

lemma target_beats_active:
  assumes "map_wf act" "active_one_target act r = Some t" "om_find act (rqAppId r) = Some a"
  shows "covers t a \<and> \<not> covers a t"
proof -
  have "rqAppId a = rqAppId r" "t = mergeRefreshRequests a r" "\<not> covers a r"
    using assms by (auto simp: active_one_target_def dest: map_wf_find split: if_splits)
  then show ?thesis
    using merge_covers_left [of a r] merge_covers_right [of a r] covers_trans by metis
qed

lemma enqueue_active_one_pending:
  assumes "map_wf act" "pending_ok act m"
  shows "pending_ok act (fst (enqueue_active_one act r (m, b)))"
proof (cases "active_one_target act r")
  case None
  then show ?thesis using assms by (simp add: fst_enqueue_active_one)
next
  case (Some t)
  have t: "rqAppId t = rqAppId r" "rqAppId r \<noteq> 0" using target_appId [OF assms(1) Some] by auto
  have "covers p a \<and> \<not> covers a p"
    if a: "om_find act k = Some a" and p: "om_find (mergeRefreshRequest m t) k = Some p" for k a p
  proof (cases "k = rqAppId r")
    case True
    then have ta: "covers t a" "\<not> covers a t"
      using target_beats_active [OF assms(1) Some] a by auto
    have "rqAppId t \<noteq> 0" using t by simp
    then have "held_in (mergeRefreshRequest m t) t"
      using assms(2) by (auto simp: pending_ok_def intro: merge_holds_new)
    then have "covers p t" using p True t by (simp add: held_in_def)
    with ta show ?thesis by (blast intro: covers_trans)
  next
    case False
    then show ?thesis using assms(2) a p t by (auto simp: pending_ok_def merge_find)
  qed
  then show ?thesis
    using Some assms by (auto simp: fst_enqueue_active_one pending_ok_def)
qed

lemma fold_enqueue_pending:
  "map_wf act \<Longrightarrow> pending_ok act m \<Longrightarrow>
     pending_ok act (fst (fold (enqueue_active_one act) rs (m, b)))"
proof (induction rs arbitrary: m b)
  case (Cons r rs)
  obtain m' b' where e: "enqueue_active_one act r (m, b) = (m', b')" by fastforce
  with Cons.prems enqueue_active_one_pending [of act m r b] have "pending_ok act m'" by simp
  with Cons show ?case by (simp add: e)
qed simp

lemma enqueue_inv: "queue_inv q \<Longrightarrow> queue_inv (snd (enqueue rs q))"
proof -
  assume q: "queue_inv q"
  show ?thesis
  proof (cases "qActive q")
    case False
    with q show ?thesis by (auto simp: enqueue_def queue_inv_def Let_def)
  next
    case True
    have "pending_ok (qActiveRequests q)
        (fst (fold (enqueue_active_one (qActiveRequests q)) rs (qPendingRequests q, False)))"
      using q by (intro fold_enqueue_pending) (auto simp: queue_inv_def pending_ok_def)
    with q True show ?thesis
      by (auto simp: enqueue_def queue_inv_def pending_ok_def split: prod.splits)
  qed
qed

lemma finishActive_inv: "queue_inv q \<Longrightarrow> queue_inv (snd (finishActive q))"
  by (auto simp: finishActive_def queue_inv_def)

lemma restore_inv: "queue_inv q \<Longrightarrow> queue_inv (restoreAfterStartFailure rs q)"
  by (auto simp: restoreAfterStartFailure_def queue_inv_def)

lemma new_queue_inv: "queue_inv new_queue"
  by (simp add: new_queue_def queue_inv_def)

datatype queue_op = OpEnqueue "refresh_request list" | OpFinish | OpRestore "refresh_request list"

fun queue_step :: "queue_op \<Rightarrow> refresh_queue \<Rightarrow> refresh_queue" where
  "queue_step (OpEnqueue rs) q = snd (enqueue rs q)"
| "queue_step OpFinish q = snd (finishActive q)"
| "queue_step (OpRestore rs) q = restoreAfterStartFailure rs q"

interpretation refresh_machine: invariant_machine queue_step "\<lambda>q. q = new_queue" queue_inv
proof
  show "queue_inv q" if "q = new_queue" for q using that new_queue_inv by simp
  show "queue_inv (queue_step x q)" if "queue_inv q" for x q
    using that by (cases x) (auto intro: enqueue_inv finishActive_inv restore_inv)
qed

section \<open>No request is lost\<close>

lemma enqueue_active_one_holds:
  assumes "map_wf act" "pending_ok act m" "rqAppId r \<noteq> 0"
  shows "held_in act r \<or> held_in (fst (enqueue_active_one act r (m, b))) r"
proof (cases "active_one_target act r")
  case None
  then show ?thesis
    using assms(3) by (auto simp: active_one_target_def held_in_def split: option.splits if_splits)
next
  case (Some t)
  have "held_in (mergeRefreshRequest m t) t"
    using assms target_appId [OF assms(1) Some] by (auto simp: pending_ok_def intro: merge_holds_new)
  then show ?thesis
    using Some assms target_covers [OF assms(1) Some]
    by (auto simp: fst_enqueue_active_one intro: held_in_covers)
qed

lemma enqueue_active_one_keeps:
  assumes "map_wf act" "pending_ok act m" "held_in m r'"
  shows "held_in (fst (enqueue_active_one act r (m, b))) r'"
  using assms
  by (auto simp: fst_enqueue_active_one pending_ok_def intro: merge_keeps_held split: option.splits)

lemma fold_enqueue_keeps:
  "map_wf act \<Longrightarrow> pending_ok act m \<Longrightarrow> held_in m r' \<Longrightarrow>
     held_in (fst (fold (enqueue_active_one act) rs (m, b))) r'"
proof (induction rs arbitrary: m b)
  case (Cons r rs)
  obtain m' b' where e: "enqueue_active_one act r (m, b) = (m', b')" by fastforce
  with Cons.prems enqueue_active_one_pending [of act m r b] enqueue_active_one_keeps [of act m r' r b]
  have "pending_ok act m'" "held_in m' r'" by auto
  with Cons show ?case by (simp add: e)
qed simp

lemma fold_enqueue_holds:
  "map_wf act \<Longrightarrow> pending_ok act m \<Longrightarrow> r \<in> set rs \<Longrightarrow> rqAppId r \<noteq> 0 \<Longrightarrow>
     held_in act r \<or> held_in (fst (fold (enqueue_active_one act) rs (m, b))) r"
proof (induction rs arbitrary: m b)
  case (Cons r' rs)
  obtain m' b' where e: "enqueue_active_one act r' (m, b) = (m', b')" by fastforce
  with Cons.prems enqueue_active_one_pending [of act m r' b] have m': "pending_ok act m'" by simp
  show ?case
  proof (cases "r = r'")
    case True
    with Cons.prems enqueue_active_one_holds [of act m r b] e
    have "held_in act r \<or> held_in m' r" by auto
    with Cons.prems m' show ?thesis by (auto simp: e intro: fold_enqueue_keeps)
  next
    case False
    with Cons m' show ?thesis by (simp add: e)
  qed
qed simp

lemma enqueue_holds:
  assumes "queue_inv q" "r \<in> set rs" "rqAppId r \<noteq> 0"
  shows "held_in (qActiveRequests (snd (enqueue rs q))) r \<or>
         held_in (qPendingRequests (snd (enqueue rs q))) r"
proof (cases "qActive q")
  case False
  have h: "held_in (fold (\<lambda>r m. mergeRefreshRequest m r) rs (qPendingRequests q)) r"
    using assms by (intro fold_merge_holds) (auto simp: queue_inv_def)
  then have "fold (\<lambda>r m. mergeRefreshRequest m r) rs (qPendingRequests q) \<noteq> []"
    by (auto simp: held_in_def)
  with h False show ?thesis by (simp add: enqueue_def Let_def)
next
  case True
  have "held_in (qActiveRequests q) r \<or>
      held_in (fst (fold (enqueue_active_one (qActiveRequests q)) rs (qPendingRequests q, False))) r"
    using assms by (intro fold_enqueue_holds) (auto simp: queue_inv_def pending_ok_def)
  with True show ?thesis by (auto simp: enqueue_def split: prod.splits)
qed

section \<open>Properties\<close>

text \<open>C38: merging two requests for one app is their least upper bound in the demand order: a request
  satisfies the merge exactly when it satisfies both.\<close>

theorem merge_is_join:
  "rqAppId a = rqAppId b \<Longrightarrow>
     covers c (mergeRefreshRequests a b) \<longleftrightarrow> covers c a \<and> covers c b"
  using merge_covers_left [of a b] merge_covers_right [of a b] merge_least [of c a b]
  by (auto intro: covers_trans)

text \<open>in every state the queue reaches from empty, both maps are keyed by non-zero app ids, an
  active batch exists exactly while the worker is active, and pending work for a running app
  strictly exceeds the running request.\<close>

theorem refresh_queue_reachable_inv: "queue_inv (run_ops queue_step ops new_queue)"
  by (rule refresh_machine.inv_reachable) simp

text \<open>C6: no accepted request is lost: after enqueueing, every request for a real app is satisfied
  either by the batch the worker is running or by the batch handed out when it finishes.\<close>

theorem refresh_request_not_lost:
  assumes "r \<in> set rs" "rqAppId r \<noteq> 0"
    and q_def: "q = snd (enqueue rs (run_ops queue_step ops new_queue))"
  shows "(\<exists>x \<in> set (refreshRequestBatch (qActiveRequests q)). covers x r) \<or>
         (\<exists>x \<in> set (fst (finishActive q)). covers x r)"
proof -
  have inv: "queue_inv (run_ops queue_step ops new_queue)" "queue_inv q"
    unfolding q_def by (auto intro: refresh_machine.inv_reachable enqueue_inv)
  from enqueue_holds [OF inv(1) assms(1,2)]
  have "held_in (qActiveRequests q) r \<or> held_in (qPendingRequests q) r" by (simp add: q_def)
  then show ?thesis
  proof
    assume "held_in (qPendingRequests q) r"
    moreover from this have "qPendingRequests q \<noteq> []" by (auto simp: held_in_def)
    ultimately show ?thesis
      using inv(2) by (auto simp: finishActive_def queue_inv_def dest!: held_in_batch)
  qed (use inv(2) in \<open>auto simp: queue_inv_def dest!: held_in_batch\<close>)
qed

text \<open>when the worker cannot be started, giving the batch back keeps it: the next batch started
  satisfies every request of the failed one.\<close>

theorem refresh_restore_retries:
  assumes "rdAction (fst (enqueue rs q)) = Start" "r \<in> set (rdBatch (fst (enqueue rs q)))"
    and "queue_inv q"
  shows "rdAction (fst (enqueue rs' (restoreAfterStartFailure (rdBatch (fst (enqueue rs q)))
            (snd (enqueue rs q))))) = Start \<and>
         (\<exists>x \<in> set (rdBatch (fst (enqueue rs' (restoreAfterStartFailure
            (rdBatch (fst (enqueue rs q))) (snd (enqueue rs q)))))). covers x r)"
proof -
  let ?b = "rdBatch (fst (enqueue rs q))"
  let ?q = "restoreAfterStartFailure ?b (snd (enqueue rs q))"
  have q': "queue_inv (snd (enqueue rs q))" by (rule enqueue_inv [OF assms(3)])
  have batch: "?b = refreshRequestBatch (qActiveRequests (snd (enqueue rs q)))"
    using assms(1) by (auto simp: enqueue_def Let_def split: if_splits prod.splits)
  then have "rqAppId r \<noteq> 0"
    using assms(2) q' by (auto simp: refreshRequestBatch_def queue_inv_def om_values_find dest: map_wf_find)
  then have "held_in (qPendingRequests ?q) r"
    using assms(2) q' by (auto simp: restoreAfterStartFailure_def queue_inv_def intro: fold_merge_holds)
  moreover have wf: "map_wf (qPendingRequests ?q)" "\<not> qActive ?q"
    using restore_inv [OF q', of ?b] by (auto simp: queue_inv_def restoreAfterStartFailure_def)
  ultimately have held: "held_in (fold (\<lambda>r m. mergeRefreshRequest m r) rs' (qPendingRequests ?q)) r"
    by (intro fold_merge_keeps_held) auto
  then have "fold (\<lambda>r m. mergeRefreshRequest m r) rs' (qPendingRequests ?q) \<noteq> []"
    by (auto simp: held_in_def)
  moreover have "\<exists>x \<in> set (refreshRequestBatch
      (fold (\<lambda>r m. mergeRefreshRequest m r) rs' (qPendingRequests ?q))). covers x r"
    by (rule held_in_batch) (use held wf in auto)
  ultimately show ?thesis using wf(2) by (simp add: enqueue_def Let_def)
qed

section \<open>Witnesses\<close>

definition sample_request :: "u32 \<Rightarrow> u64 \<Rightarrow> u32 \<Rightarrow> refresh_request" where
  "sample_request app gen change =
     \<lparr>rqAppId = app, rqMinimumChange = change, rqGeneration = gen, rqReasons = 1,
      rqForceRefresh = True, rqPublishRuntime = False\<rparr>"

lemma merge_is_join_witness:
  "covers (sample_request 440 2 9) (mergeRefreshRequests (sample_request 440 2 5) (sample_request 440 2 7))
   \<longleftrightarrow> covers (sample_request 440 2 9) (sample_request 440 2 5) \<and>
       covers (sample_request 440 2 9) (sample_request 440 2 7)"
  by (rule merge_is_join) (simp add: sample_request_def)

lemma refresh_request_not_lost_witness:
  "let q = snd (enqueue [sample_request 440 2 5] (run_ops queue_step [] new_queue)) in
   (\<exists>x \<in> set (refreshRequestBatch (qActiveRequests q)). covers x (sample_request 440 2 5)) \<or>
   (\<exists>x \<in> set (fst (finishActive q)). covers x (sample_request 440 2 5))"
  unfolding Let_def
  by (rule refresh_request_not_lost [where rs = "[sample_request 440 2 5]" and ops = "[]"])
    (simp_all add: sample_request_def)

lemma refresh_restore_retries_witness:
  "rdAction (fst (enqueue [] (restoreAfterStartFailure
      (rdBatch (fst (enqueue [sample_request 440 2 5] new_queue)))
      (snd (enqueue [sample_request 440 2 5] new_queue))))) = Start"
  by (rule refresh_restore_retries [where r = "sample_request 440 2 5", THEN conjunct1])
    (simp_all add: enqueue_def Let_def mergeRefreshRequest_def sample_request_def new_queue_def
      refreshRequestBatch_def om_values_def new_queue_inv [unfolded new_queue_def])

end
