(* ===== verification/ProvisionPolicy.thy ===== *)
theory ProvisionPolicy
  imports RefreshQueue
begin

unbundle bit_operations_syntax

text \<open>
  The decisions of a provisioning pass: outcome classification (\<open>provision_result.hpp\<close>),
  scheduling (\<open>provision_schedule.hpp\<close>), bounded retries (\<open>retry.hpp\<close>,
  \<open>provision_network.hpp\<close>), the per-pass network state, and the connection-manager budget and
  server-list freshness (\<open>cm_budget.hpp\<close>, \<open>cmlist_cache.hpp\<close>). The clock is an argument.
\<close>

section \<open>Outcomes\<close>

datatype source_result =
  SrcSuccess | SrcInvalidResponse | SrcIncompleteContent | SrcNoUsableContent | SrcVirtualDlc
  | SrcLocalFailure

datatype provision_outcome =
  Updated | FreshCache | FallbackCache | NetworkUnavailable | IncompleteContent | NoUsableContent
  | NotApplicable | LocalFailure

datatype provision_notice = NoNotice | MetadataUnavailable | ReviewGameData | LocalStorage

definition isProvisioned :: "provision_outcome \<Rightarrow> bool" where
  "isProvisioned outcome \<longleftrightarrow>
     outcome = Updated \<or> outcome = FreshCache \<or> outcome = FallbackCache"

definition isTerminalOutcome :: "provision_outcome \<Rightarrow> bool" where
  "isTerminalOutcome outcome \<longleftrightarrow> outcome = NotApplicable \<or> outcome = NoUsableContent"

definition runtimePublicationAllowed :: "bool \<Rightarrow> provision_outcome \<Rightarrow> bool" where
  "runtimePublicationAllowed requested outcome \<longleftrightarrow> requested \<and> isProvisioned outcome"

fun noticeForOutcome :: "provision_outcome \<Rightarrow> provision_notice" where
  "noticeForOutcome Updated = NoNotice"
| "noticeForOutcome FreshCache = NoNotice"
| "noticeForOutcome FallbackCache = NoNotice"
| "noticeForOutcome NotApplicable = NoNotice"
| "noticeForOutcome NetworkUnavailable = MetadataUnavailable"
| "noticeForOutcome IncompleteContent = ReviewGameData"
| "noticeForOutcome NoUsableContent = ReviewGameData"
| "noticeForOutcome LocalFailure = LocalStorage"

definition classifyContentResult :: "bool \<Rightarrow> bool \<Rightarrow> source_result" where
  "classifyContentResult hadConcreteContent hasUsableContent =
     (if hasUsableContent then SrcSuccess
      else if hadConcreteContent then SrcNoUsableContent else SrcIncompleteContent)"

text \<open>The three-argument overload.\<close>

definition classifyDlcContentResult :: "bool \<Rightarrow> bool \<Rightarrow> bool \<Rightarrow> source_result" where
  "classifyDlcContentResult hadConcreteContent hasUsableContent isDlc =
     (if isDlc \<and> \<not> hadConcreteContent \<and> \<not> hasUsableContent then SrcVirtualDlc
      else classifyContentResult hadConcreteContent hasUsableContent)"

definition shouldTryProviderFallback :: "source_result \<Rightarrow> bool" where
  "shouldTryProviderFallback result \<longleftrightarrow> result = SrcInvalidResponse"

section \<open>Scheduling\<close>

definition shouldRequeueRefreshAfterStartFailure :: "bool \<Rightarrow> bool" where
  "shouldRequeueRefreshAfterStartFailure workerMayStillExist = (\<not> workerMayStillExist)"

definition mergeRuntimePublishCandidates :: "u32 list \<Rightarrow> u32 list \<Rightarrow> u32 list" where
  "mergeRuntimePublishCandidates current incoming = drop_zero (sort_uniq (current @ incoming))"

definition runtime_publish_selected ::
  "u32 set \<Rightarrow> u32 set \<Rightarrow> (u32 \<rightharpoonup> u64) \<Rightarrow> refresh_request \<Rightarrow> bool" where
  "runtime_publish_selected managed synthetic generations request =
     (if rqAppId request = 0 \<or> \<not> rqPublishRuntime request \<or> rqAppId request \<notin> managed then False
      else case generations (rqAppId request) of
        None \<Rightarrow> False
      | Some generation \<Rightarrow>
          if generation \<noteq> rqGeneration request then False
          else
            (let localUpdate = (rqReasons request AND
                    (reasonMask HotAdd OR reasonMask LocalInputs) \<noteq> 0);
                 suppressedSynthetic = (rqAppId request \<in> synthetic \<and>
                    rqReasons request AND
                    (reasonMask PicsProductInfo OR reasonMask PicsChanges OR reasonMask ForceFull) \<noteq> 0)
             in localUpdate \<or> suppressedSynthetic))"

definition selectRuntimePublishCandidates ::
  "refresh_request list \<Rightarrow> u32 set \<Rightarrow> u32 set \<Rightarrow> (u32 \<rightharpoonup> u64) \<Rightarrow> u32 list" where
  "selectRuntimePublishCandidates requested managed synthetic generations =
     sort_uniq (map rqAppId
       (filter (runtime_publish_selected managed synthetic generations) requested))"

datatype preinit_provision_action = SynchronousProvision | ColdFallbackThenSplice

definition preinitProvisionAction :: "bool \<Rightarrow> preinit_provision_action" where
  "preinitProvisionAction asyncEnabled =
     (if asyncEnabled then ColdFallbackThenSplice else SynchronousProvision)"

definition cachePairReady :: "bool \<Rightarrow> bool \<Rightarrow> bool \<Rightarrow> bool" where
  "cachePairReady bufferExists metadataExists recordValid \<longleftrightarrow>
     bufferExists \<and> metadataExists \<and> recordValid"

definition coldFallbackNeeded :: "cache_readiness \<Rightarrow> bool" where
  "coldFallbackNeeded readiness = (if readiness = Missing \<or> readiness = Invalid then True else False)"

definition shouldWarmCurlBeforePics :: "bool \<Rightarrow> bool" where
  "shouldWarmCurlBeforePics hasManagedApps = True"

definition asyncProvisionEnabled :: "bool \<Rightarrow> string option \<Rightarrow> bool" where
  "asyncProvisionEnabled configEnabled envOverride =
     (case envOverride of
        None \<Rightarrow> configEnabled
      | Some value \<Rightarrow>
          if value = '''' then configEnabled
          else if value \<in> {''1'', ''true'', ''yes'', ''on''} then True
          else if value \<in> {''0'', ''false'', ''no'', ''off''} then False
          else False)"

definition shouldMarkColdCacheSanitized :: "bool \<Rightarrow> bool" where
  "shouldMarkColdCacheSanitized explicitFallback = (\<not> explicitFallback)"

section \<open>Bounded retries\<close>

datatype network_failure = NetNone | Connectivity | Transient | Provider

text \<open>libcurl's result codes the classifier names; every other code is \<open>CURLE_OTHER\<close>.\<close>

datatype curl_code =
  CURLE_OK | CURLE_COULDNT_RESOLVE_PROXY | CURLE_COULDNT_RESOLVE_HOST | CURLE_COULDNT_CONNECT
  | CURLE_INTERFACE_FAILED | CURLE_OPERATION_TIMEDOUT | CURLE_SSL_CONNECT_ERROR
  | CURLE_GOT_NOTHING | CURLE_SEND_ERROR | CURLE_RECV_ERROR | CURLE_OTHER int

fun classifyCurlFailure :: "curl_code \<Rightarrow> network_failure" where
  "classifyCurlFailure CURLE_OK = NetNone"
| "classifyCurlFailure CURLE_COULDNT_RESOLVE_PROXY = Connectivity"
| "classifyCurlFailure CURLE_COULDNT_RESOLVE_HOST = Connectivity"
| "classifyCurlFailure CURLE_COULDNT_CONNECT = Connectivity"
| "classifyCurlFailure CURLE_INTERFACE_FAILED = Connectivity"
| "classifyCurlFailure CURLE_OPERATION_TIMEDOUT = Transient"
| "classifyCurlFailure CURLE_SSL_CONNECT_ERROR = Transient"
| "classifyCurlFailure CURLE_GOT_NOTHING = Transient"
| "classifyCurlFailure CURLE_SEND_ERROR = Transient"
| "classifyCurlFailure CURLE_RECV_ERROR = Transient"
| "classifyCurlFailure (CURLE_OTHER _) = Provider"

definition classifyHttpFailure :: "int \<Rightarrow> network_failure" where
  "classifyHttpFailure status =
     (if status \<ge> 500 \<or> status = 408 \<or> status = 429 then Transient
      else if status = 200 then NetNone else Provider)"

text \<open>
  The retry loops call an operation with side effects; the model takes the result of the n-th
  call as \<open>op n\<close> and returns, beside the loop's result, how many calls were made and the
  arguments of the sleeps in order.
\<close>

fun retry_network_loop ::
  "(nat \<Rightarrow> network_failure) \<Rightarrow> int \<Rightarrow> nat \<Rightarrow> nat \<Rightarrow> network_failure \<times> nat \<times> int list" where
  "retry_network_loop op base attempt 0 = (Provider, attempt - 1, [])"
| "retry_network_loop op base attempt (Suc left) =
     (let result = op attempt in
      if result = NetNone \<or> result = Connectivity \<or> result = Provider
      then (result, attempt, [])
      else if left = 0 then (result, attempt, [])
      else (let (r, n, sleeps) = retry_network_loop op base (Suc attempt) left
            in (r, n, base * int attempt # sleeps)))"

definition retryNetworkOperation ::
  "(nat \<Rightarrow> network_failure) \<Rightarrow> int \<Rightarrow> int \<Rightarrow> network_failure \<times> nat \<times> int list" where
  "retryNetworkOperation op maxAttempts baseDelayMs =
     retry_network_loop op baseDelayMs 1 (nat (if maxAttempts < 1 then 1 else maxAttempts))"

fun retry_backoff_loop ::
  "(nat \<Rightarrow> bool) \<Rightarrow> int \<Rightarrow> nat \<Rightarrow> nat \<Rightarrow> bool \<times> nat \<times> int list" where
  "retry_backoff_loop op base attempt 0 = (False, attempt - 1, [])"
| "retry_backoff_loop op base attempt (Suc left) =
     (if op attempt then (True, attempt, [])
      else if left = 0 then (False, attempt, [])
      else (let (r, n, sleeps) = retry_backoff_loop op base (Suc attempt) left
            in (r, n, base * int attempt # sleeps)))"

definition retryWithBackoff ::
  "(nat \<Rightarrow> bool) \<Rightarrow> int \<Rightarrow> int \<Rightarrow> bool \<times> nat \<times> int list" where
  "retryWithBackoff op maxAttempts baseDelayMs =
     retry_backoff_loop op baseDelayMs 1 (nat (if maxAttempts < 1 then 1 else maxAttempts))"

section \<open>The per-pass network state\<close>

definition kProviderBudgetMs :: int where "kProviderBudgetMs = 15000"

record provision_pass_state =
  psCmFailed :: bool
  psProviderCircuitOpen :: bool
  psRecoveryPending :: bool
  psRecoveryAttempted :: bool
  psConnectivityNoticeTaken :: bool
  psPreparationNoticeTaken :: bool
  psPreparationFailures :: nat
  psFirstPreparationFailure :: u32
  psProviderBudgetStarted :: bool
  psProviderStarted :: int

definition new_pass_state :: provision_pass_state where
  "new_pass_state = \<lparr>psCmFailed = False, psProviderCircuitOpen = False, psRecoveryPending = False,
     psRecoveryAttempted = False, psConnectivityNoticeTaken = False,
     psPreparationNoticeTaken = False, psPreparationFailures = 0, psFirstPreparationFailure = 0,
     psProviderBudgetStarted = False, psProviderStarted = 0\<rparr>"

definition noteCmBatchFailure :: "provision_pass_state \<Rightarrow> provision_pass_state" where
  "noteCmBatchFailure s = s\<lparr>psCmFailed := True\<rparr>"

definition noteFinalProviderFailure ::
  "network_failure \<Rightarrow> provision_pass_state \<Rightarrow> provision_pass_state" where
  "noteFinalProviderFailure failure s =
     (if failure = Connectivity \<or> failure = Transient
      then s\<lparr>psProviderCircuitOpen := True\<rparr> else s)"

definition noteProviderSuccess :: "provision_pass_state \<Rightarrow> provision_pass_state" where
  "noteProviderSuccess s =
     (if psCmFailed s \<and> \<not> psRecoveryAttempted s then s\<lparr>psRecoveryPending := True\<rparr> else s)"

definition shouldAttemptProvider :: "provision_pass_state \<Rightarrow> bool" where
  "shouldAttemptProvider s = (\<not> psProviderCircuitOpen s)"

definition startProviderBudget :: "int \<Rightarrow> provision_pass_state \<Rightarrow> provision_pass_state" where
  "startProviderBudget now s =
     (if psProviderBudgetStarted s then s
      else s\<lparr>psProviderBudgetStarted := True, psProviderStarted := now\<rparr>)"

definition remainingProviderBudgetMs :: "int \<Rightarrow> provision_pass_state \<Rightarrow> int" where
  "remainingProviderBudgetMs now s =
     (if \<not> psProviderBudgetStarted s then kProviderBudgetMs
      else (let elapsed = now - psProviderStarted s in
            if elapsed \<ge> kProviderBudgetMs then 0
            else kProviderBudgetMs - max 0 elapsed))"

definition providerOperationTimeoutMs ::
  "int \<Rightarrow> int \<Rightarrow> provision_pass_state \<Rightarrow> int \<times> provision_pass_state" where
  "providerOperationTimeoutMs now operationCapMs s =
     (let s' = startProviderBudget now s
      in (min operationCapMs (remainingProviderBudgetMs now s'), s'))"

definition providerDelayMs ::
  "int \<Rightarrow> int \<Rightarrow> provision_pass_state \<Rightarrow> int \<times> provision_pass_state" where
  "providerDelayMs now requestedMs s =
     (let s' = startProviderBudget now s
      in (min requestedMs (remainingProviderBudgetMs now s'), s'))"

definition providerBudgetExhausted :: "int \<Rightarrow> provision_pass_state \<Rightarrow> bool" where
  "providerBudgetExhausted now s \<longleftrightarrow>
     psProviderBudgetStarted s \<and> remainingProviderBudgetMs now s = 0"

definition takeCmRecoveryRequest :: "provision_pass_state \<Rightarrow> bool \<times> provision_pass_state" where
  "takeCmRecoveryRequest s =
     (if \<not> psRecoveryPending s \<or> psRecoveryAttempted s then (False, s)
      else (True, s\<lparr>psRecoveryPending := False, psRecoveryAttempted := True\<rparr>))"

definition takeConnectivityNotice :: "provision_pass_state \<Rightarrow> bool \<times> provision_pass_state" where
  "takeConnectivityNotice s =
     (if psConnectivityNoticeTaken s then (False, s)
      else (True, s\<lparr>psConnectivityNoticeTaken := True\<rparr>))"

definition takePreparationNotice ::
  "u32 \<Rightarrow> provision_pass_state \<Rightarrow> bool \<times> provision_pass_state" where
  "takePreparationNotice appId s =
     (let s' = s\<lparr>psPreparationFailures := Suc (psPreparationFailures s)\<rparr> in
      if psPreparationNoticeTaken s' then (False, s')
      else (True, s'\<lparr>psPreparationNoticeTaken := True, psFirstPreparationFailure := appId\<rparr>))"

definition pendingPreparationSummary :: "provision_pass_state \<Rightarrow> nat" where
  "pendingPreparationSummary s =
     (if psPreparationFailures s > 1 then psPreparationFailures s - 1 else 0)"

section \<open>Connection-manager budget and server-list freshness\<close>

definition remainingBudgetSeconds :: "int \<Rightarrow> int \<Rightarrow> int \<Rightarrow> int" where
  "remainingBudgetSeconds elapsedMs budgetMs operationCapSecs =
     (if budgetMs \<le> 0 \<or> operationCapSecs \<le> 0 \<or> elapsedMs \<ge> budgetMs then 0
      else (let remainingMs = budgetMs - max 0 elapsedMs;
                roundedSecs = (remainingMs + 999) div 1000
            in min roundedSecs operationCapSecs))"

definition isCmListReusable :: "bool \<Rightarrow> int \<Rightarrow> int \<Rightarrow> int \<Rightarrow> bool" where
  "isCmListReusable listExists mtimeSecs nowSecs ttlSecs =
     (if \<not> listExists then False
      else if ttlSecs \<le> 0 then False
      else if mtimeSecs > nowSecs then False
      else nowSecs - mtimeSecs < ttlSecs)"

section \<open>What the retry loops do\<close>

lemma retry_backoff_loop_spec:
  "retry_backoff_loop op base k (Suc n) =
     (case find op [k..<k + Suc n] of
        Some j \<Rightarrow> (True, j, map (\<lambda>i. base * int i) [k..<j])
      | None \<Rightarrow> (False, k + n, map (\<lambda>i. base * int i) [k..<k + n]))"
proof (induction n arbitrary: k)
  case 0
  then show ?case by simp
next
  case (Suc n)
  have unroll: "[k..<k + Suc (Suc n)] = k # [Suc k..<Suc k + Suc n]" by (simp add: upt_rec)
  have "k < j" if "find op [Suc k..<Suc k + Suc n] = Some j" for j
    using that by (metis Suc_le_lessD atLeastLessThan_iff find_Some_iff nth_mem set_upt)
  then show ?case
    using Suc [of "Suc k"]
    by (auto simp: unroll upt_conv_Cons Let_def simp del: upt_Suc split: option.splits)
qed

lemma retry_network_loop_spec:
  "retry_network_loop op base k (Suc n) =
     (case find (\<lambda>j. op j \<noteq> Transient) [k..<k + Suc n] of
        Some j \<Rightarrow> (op j, j, map (\<lambda>i. base * int i) [k..<j])
      | None \<Rightarrow> (Transient, k + n, map (\<lambda>i. base * int i) [k..<k + n]))"
proof (induction n arbitrary: k)
  case 0
  then show ?case by (cases "op k") auto
next
  case (Suc n)
  have unroll: "[k..<k + Suc (Suc n)] = k # [Suc k..<Suc k + Suc n]" by (simp add: upt_rec)
  have "k < j" if "find (\<lambda>j. op j \<noteq> Transient) [Suc k..<Suc k + Suc n] = Some j" for j
    using that by (metis Suc_le_lessD atLeastLessThan_iff find_Some_iff nth_mem set_upt)
  then show ?case
    using Suc [of "Suc k"]
    by (cases "op k")
      (auto simp: unroll upt_conv_Cons Let_def simp del: upt_Suc split: option.splits)
qed

section \<open>Runs of the pass state\<close>

text \<open>The class's operations as one alphabet, with the boolean the caller sees; time is an argument.\<close>

datatype pass_op =
    CmBatchFailure | ProviderFailure network_failure | ProviderSuccess
  | TakeRecovery | TakeConnectivity | TakePreparation u32
  | OperationTimeout int int | DelayFor int int

fun pass_step :: "pass_op \<Rightarrow> provision_pass_state \<Rightarrow> provision_pass_state" where
  "pass_step CmBatchFailure s = noteCmBatchFailure s"
| "pass_step (ProviderFailure f) s = noteFinalProviderFailure f s"
| "pass_step ProviderSuccess s = noteProviderSuccess s"
| "pass_step TakeRecovery s = snd (takeCmRecoveryRequest s)"
| "pass_step TakeConnectivity s = snd (takeConnectivityNotice s)"
| "pass_step (TakePreparation a) s = snd (takePreparationNotice a s)"
| "pass_step (OperationTimeout now cap) s = snd (providerOperationTimeoutMs now cap s)"
| "pass_step (DelayFor now ms) s = snd (providerDelayMs now ms s)"

fun granted :: "(pass_op \<Rightarrow> provision_pass_state \<Rightarrow> bool) \<Rightarrow> pass_op list \<Rightarrow> provision_pass_state \<Rightarrow> nat" where
  "granted out [] s = 0"
| "granted out (x # xs) s = (if out x s then 1 else 0) + granted out xs (pass_step x s)"

definition recovery_granted :: "pass_op \<Rightarrow> provision_pass_state \<Rightarrow> bool" where
  "recovery_granted x s \<longleftrightarrow> x = TakeRecovery \<and> fst (takeCmRecoveryRequest s)"

definition connectivity_granted :: "pass_op \<Rightarrow> provision_pass_state \<Rightarrow> bool" where
  "connectivity_granted x s \<longleftrightarrow> x = TakeConnectivity \<and> fst (takeConnectivityNotice s)"

fun is_preparation :: "pass_op \<Rightarrow> bool" where
  "is_preparation (TakePreparation a) = True"
| "is_preparation _ = False"

definition preparation_granted :: "pass_op \<Rightarrow> provision_pass_state \<Rightarrow> bool" where
  "preparation_granted x s \<longleftrightarrow> is_preparation x \<and> fst (takePreparationNotice 0 s)"

lemmas pass_defs = noteCmBatchFailure_def noteFinalProviderFailure_def noteProviderSuccess_def
  takeCmRecoveryRequest_def takeConnectivityNotice_def takePreparationNotice_def
  providerOperationTimeoutMs_def providerDelayMs_def startProviderBudget_def Let_def

lemma pass_step_latches:
  "psRecoveryAttempted (pass_step x s) \<longleftrightarrow> psRecoveryAttempted s \<or> recovery_granted x s"
  "psConnectivityNoticeTaken (pass_step x s) \<longleftrightarrow> psConnectivityNoticeTaken s \<or> x = TakeConnectivity"
  "psPreparationNoticeTaken (pass_step x s) \<longleftrightarrow> psPreparationNoticeTaken s \<or> is_preparation x"
  "psPreparationFailures (pass_step x s) =
     psPreparationFailures s + (if is_preparation x then 1 else 0)"
  by (cases x; simp add: pass_defs recovery_granted_def)+

lemma granted_recovery: "granted recovery_granted ops s \<le> (if psRecoveryAttempted s then 0 else 1)"
proof (induction ops arbitrary: s)
  case (Cons x xs)
  have "\<not> (recovery_granted x s \<and> psRecoveryAttempted s)"
    by (simp add: recovery_granted_def takeCmRecoveryRequest_def)
  with Cons [of "pass_step x s"] show ?case by (auto simp: pass_step_latches split: if_splits)
qed simp

lemma granted_connectivity:
  "granted connectivity_granted ops s \<le> (if psConnectivityNoticeTaken s then 0 else 1)"
proof (induction ops arbitrary: s)
  case (Cons x xs)
  have "connectivity_granted x s \<longleftrightarrow> x = TakeConnectivity \<and> \<not> psConnectivityNoticeTaken s"
    by (simp add: connectivity_granted_def takeConnectivityNotice_def)
  with Cons [of "pass_step x s"] show ?case by (auto simp: pass_step_latches split: if_splits)
qed simp

lemma granted_preparation:
  "granted preparation_granted ops s =
     (if psPreparationNoticeTaken s then 0 else min 1 (length (filter is_preparation ops)))"
proof (induction ops arbitrary: s)
  case (Cons x xs)
  have "preparation_granted x s \<longleftrightarrow> is_preparation x \<and> \<not> psPreparationNoticeTaken s"
    by (simp add: preparation_granted_def takePreparationNotice_def Let_def)
  with Cons [of "pass_step x s"] show ?case by (auto simp: pass_step_latches)
qed simp

lemma preparation_failures_run:
  "psPreparationFailures (run_ops pass_step ops s) =
     psPreparationFailures s + length (filter is_preparation ops)"
  by (induction ops arbitrary: s) (auto simp: pass_step_latches)

text \<open>The request carries one of the reasons in a mask.\<close>

definition has_reason :: "refresh_request \<Rightarrow> u8 \<Rightarrow> bool" where
  "has_reason r wanted \<longleftrightarrow> rqReasons r AND wanted \<noteq> 0"

section \<open>Properties\<close>

text \<open>C?: \<open>retryWithBackoff\<close> succeeds at the first successful attempt within the budget (at least one
  attempt), and sleeps linearly growing delays only between attempts.\<close>

theorem retryWithBackoff_spec:
  "retryWithBackoff op maxAttempts base =
     (let m = nat (max 1 maxAttempts) in
      case find op [1..<Suc m] of
        Some k \<Rightarrow> (True, k, map (\<lambda>i. base * int i) [1..<k])
      | None \<Rightarrow> (False, m, map (\<lambda>i. base * int i) [1..<m]))"
proof -
  have "0 < nat (max 1 maxAttempts)" by simp
  then obtain n where n: "nat (max 1 maxAttempts) = Suc n" using gr0_implies_Suc by blast
  have "(if maxAttempts < 1 then 1 else maxAttempts) = max 1 maxAttempts" by auto
  then show ?thesis
    using retry_backoff_loop_spec [of op base 1 n] by (simp add: retryWithBackoff_def n Let_def del: upt_Suc retry_backoff_loop.simps
        split: option.split)
qed

text \<open>C?: \<open>retryNetworkOperation\<close> repeats only transient failures: its result is that of the first
  attempt that is not transient, or a transient failure after exactly the allowed attempts.\<close>

theorem retryNetworkOperation_spec:
  "retryNetworkOperation op maxAttempts base =
     (let m = nat (max 1 maxAttempts) in
      case find (\<lambda>k. op k \<noteq> Transient) [1..<Suc m] of
        Some k \<Rightarrow> (op k, k, map (\<lambda>i. base * int i) [1..<k])
      | None \<Rightarrow> (Transient, m, map (\<lambda>i. base * int i) [1..<m]))"
proof -
  have "0 < nat (max 1 maxAttempts)" by simp
  then obtain n where n: "nat (max 1 maxAttempts) = Suc n" using gr0_implies_Suc by blast
  have "(if maxAttempts < 1 then 1 else maxAttempts) = max 1 maxAttempts" by auto
  then show ?thesis
    using retry_network_loop_spec [of op base 1 n] by (simp add: retryNetworkOperation_def n Let_def del: upt_Suc retry_network_loop.simps
        split: option.split)
qed

text \<open>over any sequence of operations of one provisioning pass, at most one CM recovery and one
  connectivity notice are granted, and the individual preparation notice plus the final summary
  account for every preparation failure.\<close>

theorem provision_pass_notices:
  "granted recovery_granted ops new_pass_state \<le> 1 \<and>
   granted connectivity_granted ops new_pass_state \<le> 1 \<and>
   granted preparation_granted ops new_pass_state +
     pendingPreparationSummary (run_ops pass_step ops new_pass_state) =
     length (filter is_preparation ops)"
  using granted_recovery [of ops new_pass_state] granted_connectivity [of ops new_pass_state]
  by (auto simp: granted_preparation preparation_failures_run pendingPreparationSummary_def
      new_pass_state_def min_def)

text \<open>a provider transfer or backoff delay never runs past the pass-wide provider budget, counted
  from the first provider use.\<close>

theorem provider_budget_bound:
  assumes "providerOperationTimeoutMs now cap s = (timeout, s')" "psProviderStarted s' \<le> now" "0 < timeout"
  shows "timeout \<le> cap \<and> now + timeout \<le> psProviderStarted s' + kProviderBudgetMs"
  using assms by (auto simp: providerOperationTimeoutMs_def remainingProviderBudgetMs_def
      startProviderBudget_def Let_def kProviderBudgetMs_def split: if_splits)

lemma provider_budget_bound_witness:
  "(9000::int) \<le> 9000 \<and> (5000::int) + 9000 \<le> 5000 + kProviderBudgetMs"
proof -
  define s where "s = new_pass_state\<lparr>psProviderBudgetStarted := True, psProviderStarted := 5000\<rparr>"
  have "providerOperationTimeoutMs 5000 9000 new_pass_state = (9000, s)"
    by (simp add: s_def new_pass_state_def providerOperationTimeoutMs_def startProviderBudget_def
        remainingProviderBudgetMs_def kProviderBudgetMs_def Let_def)
  from provider_budget_bound [OF this] show ?thesis by (simp add: s_def)
qed

text \<open>a CM operation's timeout is at most its cap, is zero exactly when a budget is used up or
  not given, and never overshoots the remaining budget by a whole second.\<close>

theorem remainingBudgetSeconds_bounds:
  "let r = remainingBudgetSeconds elapsed budget cap in
   0 \<le> r \<and> r \<le> max 0 cap \<and> (r = 0 \<longleftrightarrow> budget \<le> 0 \<or> cap \<le> 0 \<or> budget \<le> elapsed) \<and>
   (r = 0 \<or> max 0 elapsed + 1000 * (r - 1) < budget)"
proof (cases "budget \<le> 0 \<or> cap \<le> 0 \<or> elapsed \<ge> budget")
  case False
  define rem where "rem = budget - max 0 elapsed"
  define q where "q = (rem + 999) div 1000"
  have pos: "0 < rem" "max 0 elapsed + rem = budget" using False by (auto simp: rem_def)
  have "1000 * q + (rem + 999) mod 1000 = rem + 999" unfolding q_def by (rule mult_div_mod_eq)
  moreover have "0 \<le> (rem + 999) mod 1000" "(rem + 999) mod 1000 < 1000" by simp_all
  ultimately have "1000 * q \<le> rem + 999" "rem < 1000 * q + 1" by linarith+
  then have q: "1 \<le> q" "1000 * (q - 1) < rem" using pos(1) by simp_all
  have r: "remainingBudgetSeconds elapsed budget cap = min q cap"
    using False by (simp add: remainingBudgetSeconds_def q_def rem_def Let_def)
  have "0 < cap" "\<not> budget \<le> 0" "\<not> budget \<le> elapsed" using False by auto
  moreover have "1000 * (min q cap - 1) \<le> 1000 * (q - 1)" by simp
  then have "max 0 elapsed + 1000 * (min q cap - 1) < budget" using q(2) pos(2) by linarith
  ultimately show ?thesis unfolding r Let_def using q(1) by simp
qed (auto simp: remainingBudgetSeconds_def)

text \<open>the apps whose runtime record may be republished are, in ascending order and once each,
  those with a publishing request for a managed app at its current generation that comes from a
  local change, or from Steam for an app whose live record is synthesized.\<close>

theorem selectRuntimePublish_exact:
  "sorted_wrt (<) (selectRuntimePublishCandidates rs managed synthetic gens) \<and>
   (a \<in> set (selectRuntimePublishCandidates rs managed synthetic gens) \<longleftrightarrow>
     (\<exists>r \<in> set rs. rqAppId r = a \<and> a \<noteq> 0 \<and> rqPublishRuntime r \<and> a \<in> managed \<and>
        gens a = Some (rqGeneration r) \<and>
        (has_reason r 12 \<or> (a \<in> synthetic \<and> has_reason r 35))))"
proof -
  have masks: "reasonMask HotAdd OR reasonMask LocalInputs = 12"
    "reasonMask PicsProductInfo OR reasonMask PicsChanges OR reasonMask ForceFull = 35"
    by simp_all
  have "runtime_publish_selected managed synthetic gens r \<longleftrightarrow>
      rqAppId r \<noteq> 0 \<and> rqPublishRuntime r \<and> rqAppId r \<in> managed \<and>
      gens (rqAppId r) = Some (rqGeneration r) \<and>
      (rqReasons r AND 12 \<noteq> 0 \<or> (rqAppId r \<in> synthetic \<and> rqReasons r AND 35 \<noteq> 0))" for r
    by (auto simp: runtime_publish_selected_def masks Let_def split: option.splits)
  then show ?thesis unfolding selectRuntimePublishCandidates_def has_reason_def by auto
qed

end
