(* ===== verification/HotReloadStore.thy ===== *)
theory HotReloadStore
  imports Prelude
begin

text \<open>
  \<open>src/feats/hotreload_state.hpp\<close>: the copy-on-write store of managed app records. Records are
  shared between snapshots by pointer, and their \<open>resolvedGeneration\<close> is written through any of
  them, so records live in an explicit heap and snapshots hold addresses. The second half is the
  reclamation protocol between lock-free readers and the publisher, as interleaved atomic steps.
\<close>

section \<open>State\<close>

record hr_record =
  hrAppId :: u32
  hrGeneration :: u64
  hrResolved :: u64

record snapshot =
  snGeneration :: u64
  snRecords :: "nat list"

definition empty_snapshot :: snapshot where
  "empty_snapshot = \<lparr>snGeneration = 0, snRecords = []\<rparr>"

record transition =
  trGeneration :: u64
  trAdded :: "u32 list"
  trRemoved :: "u32 list"
  trSnapshot :: snapshot

definition changed :: "transition \<Rightarrow> bool" where
  "changed t \<longleftrightarrow> trAdded t \<noteq> [] \<or> trRemoved t \<noteq> []"

record store =
  stHeap :: "nat \<Rightarrow> hr_record"
  stNext :: nat
  stRaw :: snapshot
  stOwner :: "snapshot option"
  stRetired :: "snapshot list"
  stReaders :: u32
  stDirty :: u64

definition null_record :: hr_record where
  "null_record = \<lparr>hrAppId = 0, hrGeneration = 0, hrResolved = 0\<rparr>"

definition new_store :: store where
  "new_store = \<lparr>stHeap = (\<lambda>_. null_record), stNext = 0, stRaw = empty_snapshot, stOwner = None,
     stRetired = [], stReaders = 0, stDirty = 0\<rparr>"

section \<open>Lookup\<close>

text \<open>\<open>std::lower_bound\<close> on the records sorted by app id, then the equality test.\<close>

definition findRecord :: "(nat \<Rightarrow> hr_record) \<Rightarrow> snapshot \<Rightarrow> u32 \<Rightarrow> nat option" where
  "findRecord heap sn appId =
     (case dropWhile (\<lambda>r. hrAppId (heap r) < appId) (snRecords sn) of
        [] \<Rightarrow> None
      | r # _ \<Rightarrow> if hrAppId (heap r) = appId then Some r else None)"

section \<open>Publication\<close>

text \<open>The loop building the next record vector: heap, next address, collected records.\<close>

fun build_records ::
  "u64 \<Rightarrow> (nat \<Rightarrow> hr_record) \<Rightarrow> nat \<Rightarrow> nat list \<Rightarrow> u32 list \<Rightarrow> (nat \<Rightarrow> hr_record) \<times> nat \<times> nat list"
where
  "build_records gen heap nxt prev [] = (heap, nxt, [])"
| "build_records gen heap nxt prev (appId # ids) =
     (case dropWhile (\<lambda>r. hrAppId (heap r) < appId) prev of
        r # rest \<Rightarrow>
          if hrAppId (heap r) = appId
          then (let (h, n, rs) = build_records gen heap nxt rest ids in (h, n, r # rs))
          else (let (h, n, rs) = build_records gen
                  (heap(nxt := \<lparr>hrAppId = appId, hrGeneration = gen, hrResolved = 0\<rparr>)) (Suc nxt)
                  (r # rest) ids in (h, n, nxt # rs))
      | [] \<Rightarrow>
          (let (h, n, rs) = build_records gen
             (heap(nxt := \<lparr>hrAppId = appId, hrGeneration = gen, hrResolved = 0\<rparr>)) (Suc nxt)
             [] ids in (h, n, nxt # rs)))"

definition reclaimRetired :: "store \<Rightarrow> store" where
  "reclaimRetired s = (if stReaders s = 0 then s\<lparr>stRetired := []\<rparr> else s)"

text \<open>\<open>publish\<close>; the argument is the desired set in its iteration order.\<close>

definition publish :: "u32 list \<Rightarrow> store \<Rightarrow> transition \<times> store" where
  "publish desired s =
     (let previous = stRaw s;
          desiredIds = sort desired;
          previousIds = map (\<lambda>r. hrAppId (stHeap s r)) (snRecords previous)
      in if desiredIds = previousIds
         then (\<lparr>trGeneration = snGeneration previous, trAdded = [], trRemoved = [],
                trSnapshot = (case stOwner s of Some o' \<Rightarrow> o' | None \<Rightarrow> empty_snapshot)\<rparr>, s)
         else
           (let gen = snGeneration previous + 1;
                (heap', next', recs) =
                  build_records gen (stHeap s) (stNext s) (snRecords previous) desiredIds;
                nextSn = \<lparr>snGeneration = gen, snRecords = recs\<rparr>;
                s1 = s\<lparr>stHeap := heap', stNext := next',
                       stRetired := (case stOwner s of Some o' \<Rightarrow> stRetired s @ [o'] | None \<Rightarrow> stRetired s),
                       stOwner := Some nextSn, stRaw := nextSn\<rparr>
            in (\<lparr>trGeneration = gen,
                 trAdded = set_difference desiredIds previousIds,
                 trRemoved = set_difference previousIds desiredIds,
                 trSnapshot = nextSn\<rparr>, reclaimRetired s1)))"

section \<open>Read handles\<close>

record read_handle =
  rhSnapshot :: "snapshot option"
  rhRecord :: "nat option"
  rhLookupDone :: bool

definition readHandle :: "store \<Rightarrow> read_handle \<times> store" where
  "readHandle s = (\<lparr>rhSnapshot = Some (stRaw s), rhRecord = None, rhLookupDone = False\<rparr>,
     s\<lparr>stReaders := stReaders s + 1\<rparr>)"

definition handle_contains :: "(nat \<Rightarrow> hr_record) \<Rightarrow> u32 \<Rightarrow> read_handle \<Rightarrow> bool \<times> read_handle" where
  "handle_contains heap appId h =
     (if rhLookupDone h
      then (case rhRecord h of None \<Rightarrow> (False, h) | Some r \<Rightarrow> (hrAppId (heap r) = appId, h))
      else (let r = (case rhSnapshot h of None \<Rightarrow> None | Some sn \<Rightarrow> findRecord heap sn appId)
            in (r \<noteq> None, h\<lparr>rhLookupDone := True, rhRecord := r\<rparr>)))"

definition handle_noteResolved :: "read_handle \<Rightarrow> store \<Rightarrow> bool \<times> store" where
  "handle_noteResolved h s =
     (case rhRecord h of
        None \<Rightarrow> (False, s)
      | Some r \<Rightarrow>
          (let heap = stHeap s;
               currentRecord = findRecord heap (stRaw s) (hrAppId (heap r))
           in case currentRecord of
                None \<Rightarrow> (False, s)
              | Some c \<Rightarrow>
                  if c \<noteq> r \<or> hrGeneration (heap c) \<noteq> hrGeneration (heap r) then (False, s)
                  else if hrResolved (heap r) \<noteq> 0 then (False, s)
                  else (True, s\<lparr>stHeap := heap(r := (heap r)\<lparr>hrResolved := hrGeneration (heap r)\<rparr>),
                                stDirty := hrGeneration (heap r)\<rparr>)))"

definition release_handle :: "store \<Rightarrow> store" where
  "release_handle s = s\<lparr>stReaders := stReaders s - 1\<rparr>"

text \<open>\<open>Store::contains\<close> and \<open>Store::noteResolved\<close>: a handle used for one call.\<close>

definition store_contains :: "u32 \<Rightarrow> store \<Rightarrow> bool" where
  "store_contains appId s = fst (handle_contains (stHeap s) appId (fst (readHandle s)))"

definition noteResolved :: "u32 \<Rightarrow> store \<Rightarrow> bool \<times> store" where
  "noteResolved appId s =
     (let (h, s1) = readHandle s;
          (found, h') = handle_contains (stHeap s1) appId h;
          (r, s2) = (if found then handle_noteResolved h' s1 else (False, s1))
      in (r, release_handle s2))"

definition resolvedDirtyHint :: "store \<Rightarrow> bool" where
  "resolvedDirtyHint s \<longleftrightarrow> stDirty s \<noteq> 0"

definition takeResolvedDirty :: "store \<Rightarrow> bool \<times> store" where
  "takeResolvedDirty s =
     (let dirty = stDirty s; s' = s\<lparr>stDirty := 0\<rparr>
      in if dirty = 0 then (False, s')
         else (list_ex (\<lambda>r. hrGeneration (stHeap s r) = dirty \<and> hrResolved (stHeap s r) = dirty)
                 (snRecords (stRaw s)), s'))"

definition current_snapshot :: "store \<Rightarrow> snapshot" where
  "current_snapshot s = (case stOwner s of Some o' \<Rightarrow> o' | None \<Rightarrow> empty_snapshot)"

section \<open>Invariant\<close>

text \<open>
  Records of the live snapshot are allocated, sorted strictly by app id, no newer than the
  snapshot, and resolved either never or for their own generation; the raw pointer is the
  owner's snapshot.
\<close>

definition sn_ids :: "(nat \<Rightarrow> hr_record) \<Rightarrow> snapshot \<Rightarrow> u32 list" where
  "sn_ids heap sn = map (\<lambda>r. hrAppId (heap r)) (snRecords sn)"

definition store_inv :: "store \<Rightarrow> bool" where
  "store_inv s \<longleftrightarrow>
     sorted_wrt (<) (sn_ids (stHeap s) (stRaw s)) \<and>
     (\<forall>r \<in> set (snRecords (stRaw s)). r < stNext s) \<and>
     (\<forall>r. hrResolved (stHeap s r) = 0 \<or> hrResolved (stHeap s r) = hrGeneration (stHeap s r)) \<and>
     stRaw s = (case stOwner s of Some o' \<Rightarrow> o' | None \<Rightarrow> empty_snapshot)"

lemma new_store_inv: "store_inv new_store"
  by (simp add: store_inv_def new_store_def sn_ids_def empty_snapshot_def null_record_def)

lemma findRecord_iff:
  assumes "sorted_wrt (<) (sn_ids heap sn)"
  shows "findRecord heap sn a = Some r \<longleftrightarrow> r \<in> set (snRecords sn) \<and> hrAppId (heap r) = a"
proof -
  have "sorted_wrt (<) (map (\<lambda>r. hrAppId (heap r)) rs) \<Longrightarrow>
    (case dropWhile (\<lambda>r. hrAppId (heap r) < a) rs of
        [] \<Rightarrow> None | r # _ \<Rightarrow> if hrAppId (heap r) = a then Some r else None) = Some r
     \<longleftrightarrow> r \<in> set rs \<and> hrAppId (heap r) = a" for rs
    by (induction rs) auto
  then show ?thesis using assms by (simp add: findRecord_def sn_ids_def)
qed

lemma findRecord_None_iff:
  assumes "sorted_wrt (<) (sn_ids heap sn)"
  shows "findRecord heap sn a = None \<longleftrightarrow> a \<notin> set (sn_ids heap sn)"
proof -
  have "findRecord heap sn a = None \<longleftrightarrow> (\<forall>r. findRecord heap sn a \<noteq> Some r)"
    by (cases "findRecord heap sn a") auto
  then show ?thesis using findRecord_iff [OF assms, of a] by (auto simp: sn_ids_def)
qed

text \<open>
  The building loop: the new ids are the desired ones, a record of a surviving app is the old
  address, every other address is fresh and carries the new generation.
\<close>

definition built ::
  "u64 \<Rightarrow> (nat \<Rightarrow> hr_record) \<Rightarrow> nat \<Rightarrow> nat list \<Rightarrow> u32 list \<Rightarrow>
     (nat \<Rightarrow> hr_record) \<Rightarrow> nat \<Rightarrow> nat list \<Rightarrow> bool" where
  "built gen heap nxt prev ids h n rs \<longleftrightarrow>
     map (\<lambda>r. hrAppId (h r)) rs = ids \<and> nxt \<le> n \<and> (\<forall>r < nxt. h r = heap r) \<and>
     (\<forall>r \<in> set rs. r < n) \<and>
     (\<forall>r \<in> set rs. r \<in> set prev \<or> (nxt \<le> r \<and> hrAppId (h r) \<notin> (\<lambda>r. hrAppId (heap r)) ` set prev \<and>
         hrGeneration (h r) = gen \<and> hrResolved (h r) = 0)) \<and>
     (\<forall>r. n \<le> r \<longrightarrow> h r = heap r) \<and>
     (\<forall>r. nxt \<le> r \<and> r < n \<longrightarrow> hrResolved (h r) = 0)"

lemma built_app_in: "built gen heap nxt prev ids h n rs \<Longrightarrow> r \<in> set rs \<Longrightarrow> hrAppId (h r) \<in> set ids"
  unfolding built_def by (metis image_eqI list.set_map)

lemma built_fresh_above:
  assumes b: "built gen heap' nxt' prev' ids h n rs" and r: "r \<in> set rs" "r \<notin> set prev'"
    and img: "(\<lambda>r. hrAppId (heap' r)) ` set prev' = (\<lambda>r. hrAppId (heap r)) ` set prev'"
    and low: "\<forall>x \<in> set prev - set prev'. hrAppId (heap x) \<le> a"
    and ids: "\<forall>x \<in> set ids. a < x"
  shows "hrAppId (h r) \<notin> (\<lambda>r. hrAppId (heap r)) ` set prev"
proof -
  have "hrAppId (h r) \<notin> (\<lambda>r. hrAppId (heap r)) ` set prev'"
    using b r img by (auto simp: built_def)
  moreover have "a < hrAppId (h r)" using built_app_in [OF b r(1)] ids by auto
  ultimately show ?thesis using low by force
qed

lemma built_alloc:
  assumes b: "built gen (heap(nxt := \<lparr>hrAppId = a, hrGeneration = gen, hrResolved = 0\<rparr>)) (Suc nxt)
                tail ids h n rs"
    and sub: "set tail \<subseteq> set prev" and lt: "\<forall>r \<in> set prev. r < nxt"
    and low: "\<forall>x \<in> set prev - set tail. hrAppId (heap x) \<le> a" and ids: "\<forall>x \<in> set ids. a < x"
    and notin: "a \<notin> (\<lambda>r. hrAppId (heap r)) ` set prev"
  shows "built gen heap nxt prev (a # ids) h n (nxt # rs)"
proof -
  let ?heap1 = "heap(nxt := \<lparr>hrAppId = a, hrGeneration = gen, hrResolved = 0\<rparr>)"
  have img: "(\<lambda>r. hrAppId (?heap1 r)) ` set tail = (\<lambda>r. hrAppId (heap r)) ` set tail"
    using sub lt by (intro image_cong) auto
  have new: "hrAppId (h r) \<notin> (\<lambda>r. hrAppId (heap r)) ` set prev" if "r \<in> set rs" "r \<notin> set tail" for r
    by (rule built_fresh_above [OF b that img low ids])
  note B = b [unfolded built_def]
  have hn: "h nxt = \<lparr>hrAppId = a, hrGeneration = gen, hrResolved = 0\<rparr>" using B by simp
  have old: "h r = heap r" if "r < nxt" for r using B that by (simp add: less_Suc_eq)
  have rs: "r \<in> set prev \<or> (nxt \<le> r \<and> hrAppId (h r) \<notin> (\<lambda>r. hrAppId (heap r)) ` set prev \<and>
      hrGeneration (h r) = gen \<and> hrResolved (h r) = 0)"
    if "r \<in> set rs" for r
    using B that sub new [of r] by (meson Suc_leD subsetD)
  have above: "hrResolved (h r) = 0" if "nxt \<le> r" "r < n" for r
    using B that hn by (cases "r = nxt") auto
  have beyond: "h r = heap r" if "n \<le> r" for r using B that by auto
  have "nxt < n" "map (\<lambda>r. hrAppId (h r)) rs = ids" "\<forall>r \<in> set rs. r < n" using B by auto
  then show ?thesis
    unfolding built_def using hn old rs above beyond notin by auto
qed

lemma built_reuse:
  assumes b: "built gen heap nxt rest ids h n rs"
    and r: "r \<in> set prev" "hrAppId (heap r) = a" and sub: "set rest \<subseteq> set prev"
    and lt: "\<forall>r \<in> set prev. r < nxt"
    and low: "\<forall>x \<in> set prev - set rest. hrAppId (heap x) \<le> a" and ids: "\<forall>x \<in> set ids. a < x"
  shows "built gen heap nxt prev (a # ids) h n (r # rs)"
proof -
  have new: "hrAppId (h x) \<notin> (\<lambda>r. hrAppId (heap r)) ` set prev" if "x \<in> set rs" "x \<notin> set rest" for x
    by (rule built_fresh_above [OF b that refl low ids])
  show ?thesis using b r sub new lt unfolding built_def by fastforce
qed

lemma build_records_spec:
  assumes "build_records gen heap nxt prev ids = (h, n, rs)"
    and "sorted_wrt (<) ids" and "sorted_wrt (<) (map (\<lambda>r. hrAppId (heap r)) prev)"
    and "\<forall>r \<in> set prev. r < nxt"
  shows "built gen heap nxt prev ids h n rs"
  using assms
proof (induction gen heap nxt prev ids arbitrary: h n rs rule: build_records.induct)
  case (1 gen heap nxt prev)
  then show ?case by (auto simp: built_def)
next
  case (2 gen heap nxt prev a ids)
  let ?heap1 = "heap(nxt := \<lparr>hrAppId = a, hrGeneration = gen, hrResolved = 0\<rparr>)"
  define tail where "tail = dropWhile (\<lambda>r. hrAppId (heap r) < a) prev"
  define front where "front = takeWhile (\<lambda>r. hrAppId (heap r) < a) prev"
  have pt: "prev = front @ tail" by (simp add: front_def tail_def)
  have front: "\<forall>r \<in> set front. hrAppId (heap r) < a"
    by (auto simp: front_def dest: set_takeWhileD)
  have st: "sorted_wrt (<) (map (\<lambda>r. hrAppId (heap r)) tail)" and lt: "\<forall>r \<in> set prev. r < nxt"
    and ids: "sorted_wrt (<) ids" "\<forall>x \<in> set ids. a < x"
    using "2.prems" pt by (auto simp: sorted_wrt_append)
  have st1: "sorted_wrt (<) (map (\<lambda>r. hrAppId (?heap1 r)) tail)"
    using st lt pt by (subst map_cong [where g = "\<lambda>r. hrAppId (heap r)"]) auto
  have lt1: "\<forall>r \<in> set tail. r < Suc nxt" using lt pt by (auto intro: less_SucI)
  have low: "\<forall>x \<in> set prev - set tail. hrAppId (heap x) \<le> a" using front pt by auto
  note E = build_records.simps(2) [of gen heap nxt prev a ids, folded tail_def]
  show ?case
  proof (cases "\<exists>r rest. tail = r # rest \<and> hrAppId (heap r) = a")
    case True
    then obtain r rest where T: "tail = r # rest" "hrAppId (heap r) = a" by blast
    then obtain rs' where B: "build_records gen heap nxt rest ids = (h, n, rs')" "rs = r # rs'"
      using "2.prems"(1) by (auto simp: E simp del: build_records.simps split: prod.splits)
    have "built gen heap nxt rest ids h n rs'"
      by (rule "2.IH"(2) [OF T(1) [unfolded tail_def] T(2) B(1) ids(1)]) (use T st lt pt in auto)
    then show ?thesis unfolding B(2)
      by (rule built_reuse) (use T pt lt front ids in auto)
  next
    case False
    then obtain rs' where B: "build_records gen ?heap1 (Suc nxt) tail ids = (h, n, rs')" "rs = nxt # rs'"
      using "2.prems"(1)
      by (cases tail) (auto simp: E simp del: build_records.simps split: prod.splits)
    have "built gen ?heap1 (Suc nxt) tail ids h n rs'"
    proof (cases tail)
      case Nil
      show ?thesis unfolding Nil
        by (rule "2.IH"(1) [OF Nil [unfolded tail_def] B(1) [unfolded Nil] ids(1)]) simp_all
    next
      case (Cons r rest)
      then have ne: "hrAppId (heap r) \<noteq> a" using False by auto
      show ?thesis unfolding Cons
        by (rule "2.IH"(3) [OF Cons [unfolded tail_def] ne B(1) [unfolded Cons] ids(1)])
          (use Cons st1 lt1 in simp_all)
    qed
    moreover have "a \<notin> (\<lambda>r. hrAppId (heap r)) ` set prev"
    proof -
      have "\<forall>x \<in> set tail. a < hrAppId (heap x)"
      proof (cases tail)
        case (Cons r rest)
        have "\<not> hrAppId (heap r) < a"
          using hd_dropWhile [of "\<lambda>r. hrAppId (heap r) < a" prev] Cons unfolding tail_def by force
        moreover have "hrAppId (heap r) \<noteq> a" using False Cons by blast
        ultimately have "a < hrAppId (heap r)" by simp
        then show ?thesis using st Cons by (auto intro: less_trans)
      qed simp
      then show ?thesis using front pt by auto
    qed
    ultimately show ?thesis unfolding B(2) using pt
      by (intro built_alloc [OF _ _ lt low ids(2)]) simp_all
  qed
qed

section \<open>Publication facts\<close>

lemma reclaim_simps [simp, frame_simps]:
  "stHeap (reclaimRetired s) = stHeap s" "stNext (reclaimRetired s) = stNext s"
  "stRaw (reclaimRetired s) = stRaw s" "stOwner (reclaimRetired s) = stOwner s"
  "stReaders (reclaimRetired s) = stReaders s" "stDirty (reclaimRetired s) = stDirty s"
  by (simp_all add: reclaimRetired_def)

lemma store_inv_reclaim [simp]: "store_inv (reclaimRetired s) = store_inv s"
  by (simp add: store_inv_def)

lemma strict_sort: "distinct xs \<Longrightarrow> sorted_wrt (<) (sort xs)"
  by (simp add: strict_sorted_iff)

text \<open>The effect of a publication that changes membership.\<close>

lemma publish_changed:
  assumes inv: "store_inv s" and d: "distinct desired"
    and ne: "sort desired \<noteq> sn_ids (stHeap s) (stRaw s)"
  obtains h n rs where
    "built (snGeneration (stRaw s) + 1) (stHeap s) (stNext s) (snRecords (stRaw s)) (sort desired) h n rs"
    "stHeap (snd (publish desired s)) = h" "stNext (snd (publish desired s)) = n"
    "stRaw (snd (publish desired s)) =
       \<lparr>snGeneration = snGeneration (stRaw s) + 1, snRecords = rs\<rparr>"
    "stOwner (snd (publish desired s)) = Some (stRaw (snd (publish desired s)))"
    "stDirty (snd (publish desired s)) = stDirty s"
    "fst (publish desired s) = \<lparr>trGeneration = snGeneration (stRaw s) + 1,
       trAdded = set_difference (sort desired) (sn_ids (stHeap s) (stRaw s)),
       trRemoved = set_difference (sn_ids (stHeap s) (stRaw s)) (sort desired),
       trSnapshot = stRaw (snd (publish desired s))\<rparr>"
proof -
  let ?gen = "snGeneration (stRaw s) + 1"
  obtain h n rs where
    B: "build_records ?gen (stHeap s) (stNext s) (snRecords (stRaw s)) (sort desired) = (h, n, rs)"
    by (cases "build_records ?gen (stHeap s) (stNext s) (snRecords (stRaw s)) (sort desired)") auto
  have "built ?gen (stHeap s) (stNext s) (snRecords (stRaw s)) (sort desired) h n rs"
    using inv by (intro build_records_spec [OF B strict_sort [OF d]]) (auto simp: store_inv_def sn_ids_def)
  moreover have "publish desired s = (let nextSn = \<lparr>snGeneration = ?gen, snRecords = rs\<rparr> in
      (\<lparr>trGeneration = ?gen,
         trAdded = set_difference (sort desired) (sn_ids (stHeap s) (stRaw s)),
         trRemoved = set_difference (sn_ids (stHeap s) (stRaw s)) (sort desired),
         trSnapshot = nextSn\<rparr>,
       reclaimRetired (s\<lparr>stHeap := h, stNext := n,
         stRetired := (case stOwner s of Some o' \<Rightarrow> stRetired s @ [o'] | None \<Rightarrow> stRetired s),
         stOwner := Some nextSn, stRaw := nextSn\<rparr>)))"
    using ne by (simp add: publish_def B sn_ids_def Let_def)
  ultimately show thesis using that by (simp add: Let_def)
qed

lemma publish_unchanged:
  "sort desired = sn_ids (stHeap s) (stRaw s) \<Longrightarrow> snd (publish desired s) = s"
  by (simp add: publish_def sn_ids_def)

lemma publish_ids:
  assumes "store_inv s" "distinct desired"
  shows "sn_ids (stHeap (snd (publish desired s))) (stRaw (snd (publish desired s))) = sort desired"
proof (cases "sort desired = sn_ids (stHeap s) (stRaw s)")
  case True
  then show ?thesis by (simp add: publish_unchanged)
next
  case False
  from publish_changed [OF assms False] obtain h n rs where
    "built (snGeneration (stRaw s) + 1) (stHeap s) (stNext s) (snRecords (stRaw s)) (sort desired) h n rs"
    "stHeap (snd (publish desired s)) = h"
    "stRaw (snd (publish desired s)) = \<lparr>snGeneration = snGeneration (stRaw s) + 1, snRecords = rs\<rparr>"
    by metis
  then show ?thesis by (simp add: sn_ids_def built_def)
qed

lemma publish_inv:
  assumes inv: "store_inv s" and d: "distinct desired"
  shows "store_inv (snd (publish desired s))"
proof (cases "sort desired = sn_ids (stHeap s) (stRaw s)")
  case True
  then show ?thesis using inv by (simp add: publish_unchanged)
next
  case False
  from publish_changed [OF assms False] obtain h n rs where P:
    "built (snGeneration (stRaw s) + 1) (stHeap s) (stNext s) (snRecords (stRaw s)) (sort desired) h n rs"
    "stHeap (snd (publish desired s)) = h" "stNext (snd (publish desired s)) = n"
    "stRaw (snd (publish desired s)) = \<lparr>snGeneration = snGeneration (stRaw s) + 1, snRecords = rs\<rparr>"
    "stOwner (snd (publish desired s)) = Some (stRaw (snd (publish desired s)))" by metis
  have "hrResolved (h r) = 0 \<or> hrResolved (h r) = hrGeneration (h r)" for r
    using P(1) inv unfolding built_def store_inv_def by (metis not_le)
  moreover have "sorted_wrt (<) (sn_ids h (stRaw (snd (publish desired s))))"
    using publish_ids [OF inv d] strict_sort [OF d] P(2) by simp
  ultimately show ?thesis using P by (auto simp: store_inv_def built_def)
qed

lemma noteResolved_eq:
  assumes "store_inv s"
  shows "noteResolved a s =
    (case findRecord (stHeap s) (stRaw s) a of
       None \<Rightarrow> (False, s)
     | Some r \<Rightarrow>
         if hrResolved (stHeap s r) \<noteq> 0 then (False, s)
         else (True, s\<lparr>stHeap := (stHeap s)(r := (stHeap s r)\<lparr>hrResolved := hrGeneration (stHeap s r)\<rparr>),
                       stDirty := hrGeneration (stHeap s r)\<rparr>))"
proof -
  have "findRecord (stHeap s) (stRaw s) (hrAppId (stHeap s r)) = Some r"
    if "findRecord (stHeap s) (stRaw s) a = Some r" for r
    using that assms by (auto simp: store_inv_def findRecord_iff)
  then show ?thesis
    by (auto simp: noteResolved_def readHandle_def handle_contains_def handle_noteResolved_def
        release_handle_def Let_def split: option.splits)
qed

lemma resolve_heap_ids:
  "sn_ids (heap(x := (heap x)\<lparr>hrResolved := g\<rparr>)) sn = sn_ids heap sn"
  by (simp add: sn_ids_def)

lemma noteResolved_inv: "store_inv s \<Longrightarrow> store_inv (snd (noteResolved a s))"
proof -
  assume s: "store_inv s"
  show ?thesis
  proof (cases "findRecord (stHeap s) (stRaw s) a")
    case None
    then show ?thesis using s by (simp add: noteResolved_eq)
  next
    case (Some r)
    have "store_inv (s\<lparr>stHeap := (stHeap s)(r := (stHeap s r)\<lparr>hrResolved := hrGeneration (stHeap s r)\<rparr>),
                       stDirty := hrGeneration (stHeap s r)\<rparr>)"
      using s unfolding store_inv_def by (auto simp: resolve_heap_ids)
    with Some s show ?thesis by (simp add: noteResolved_eq)
  qed
qed

lemma takeResolvedDirty_inv: "store_inv s \<Longrightarrow> store_inv (snd (takeResolvedDirty s))"
  by (auto simp: takeResolvedDirty_def store_inv_def Let_def)

datatype store_op = Publish "u32 list" | NoteResolved u32 | TakeResolved

text \<open>The desired argument of \<open>publish\<close> is a set, so its enumeration has no repetition.\<close>

fun store_step :: "store_op \<Rightarrow> store \<Rightarrow> store" where
  "store_step (Publish desired) s = snd (publish (remdups desired) s)"
| "store_step (NoteResolved a) s = snd (noteResolved a s)"
| "store_step TakeResolved s = snd (takeResolvedDirty s)"

interpretation store_machine: invariant_machine store_step "\<lambda>s. s = new_store" store_inv
proof
  show "store_inv s" if "s = new_store" for s using that new_store_inv by simp
  show "store_inv (store_step x s)" if "store_inv s" for x s
    using that by (cases x) (auto intro: publish_inv noteResolved_inv takeResolvedDirty_inv)
qed

section \<open>Reclamation: readers against one publisher\<close>

text \<open>
  Snapshot addresses are numbers; address 0 is the store's embedded empty snapshot, which is
  never reclaimed. A reader increments the counter, loads the raw pointer, uses the snapshot and
  decrements the counter. The publisher (under its mutex) retires the owner, installs the next
  owner, stores the raw pointer, reads the counter and clears the retired list when it read zero.
  All accesses are sequentially consistent, so an execution is an interleaving of these steps.
\<close>

datatype reader = RIdle | REntered | RHolding nat
datatype publisher = PIdle | PRetired nat | POwned nat | PStored | PClearing

record reclaim =
  rcReaders :: "nat \<Rightarrow> reader"
  rcCounter :: nat
  rcRaw :: nat
  rcOwner :: "nat option"
  rcRetired :: "nat set"
  rcPublisher :: publisher

definition owner_set :: "reclaim \<Rightarrow> nat set" where
  "owner_set p = (case rcOwner p of None \<Rightarrow> {} | Some x \<Rightarrow> {x})"

text \<open>What is allocated: the embedded snapshot, the owner, the retired ones and the one under
  construction.\<close>

definition live :: "reclaim \<Rightarrow> nat set" where
  "live p = {0} \<union> owner_set p \<union> rcRetired p \<union>
     (case rcPublisher p of PRetired n \<Rightarrow> {n} | _ \<Rightarrow> {})"

definition init_reclaim :: reclaim where
  "init_reclaim = \<lparr>rcReaders = (\<lambda>_. RIdle), rcCounter = 0, rcRaw = 0, rcOwner = None,
     rcRetired = {}, rcPublisher = PIdle\<rparr>"

inductive reclaim_step :: "reclaim \<Rightarrow> reclaim \<Rightarrow> bool" where
  enter: "rcReaders p i = RIdle \<Longrightarrow>
    reclaim_step p (p\<lparr>rcReaders := (rcReaders p)(i := REntered), rcCounter := Suc (rcCounter p)\<rparr>)"
| load: "rcReaders p i = REntered \<Longrightarrow>
    reclaim_step p (p\<lparr>rcReaders := (rcReaders p)(i := RHolding (rcRaw p))\<rparr>)"
| leave: "rcReaders p i = RHolding x \<Longrightarrow>
    reclaim_step p (p\<lparr>rcReaders := (rcReaders p)(i := RIdle), rcCounter := rcCounter p - 1\<rparr>)"
| retire: "rcPublisher p = PIdle \<Longrightarrow> n \<notin> live p \<Longrightarrow>
    reclaim_step p (p\<lparr>rcRetired := rcRetired p \<union> owner_set p, rcPublisher := PRetired n\<rparr>)"
| own: "rcPublisher p = PRetired n \<Longrightarrow>
    reclaim_step p (p\<lparr>rcOwner := Some n, rcPublisher := POwned n\<rparr>)"
| store_raw: "rcPublisher p = POwned n \<Longrightarrow>
    reclaim_step p (p\<lparr>rcRaw := n, rcPublisher := PStored\<rparr>)"
| check_busy: "rcPublisher p = PStored \<Longrightarrow> rcCounter p \<noteq> 0 \<Longrightarrow>
    reclaim_step p (p\<lparr>rcPublisher := PIdle\<rparr>)"
| check_free: "rcPublisher p = PStored \<Longrightarrow> rcCounter p = 0 \<Longrightarrow>
    reclaim_step p (p\<lparr>rcPublisher := PClearing\<rparr>)"
| clear: "rcPublisher p = PClearing \<Longrightarrow>
    reclaim_step p (p\<lparr>rcRetired := {}, rcPublisher := PIdle\<rparr>)"

inductive_cases reclaim_stepE: "reclaim_step p q"

inductive reclaim_reachable :: "reclaim \<Rightarrow> bool" where
  start: "reclaim_reachable init_reclaim"
| step: "reclaim_reachable p \<Longrightarrow> reclaim_step p q \<Longrightarrow> reclaim_reachable q"

definition busy :: "(nat \<Rightarrow> reader) \<Rightarrow> nat set" where
  "busy f = {i. f i \<noteq> RIdle}"

definition reclaim_inv :: "reclaim \<Rightarrow> bool" where
  "reclaim_inv p \<longleftrightarrow>
     finite (busy (rcReaders p)) \<and> rcCounter p = card (busy (rcReaders p)) \<and>
     (\<forall>i x. rcReaders p i = RHolding x \<longrightarrow> x \<in> {0} \<union> owner_set p \<union> rcRetired p) \<and>
     (case rcPublisher p of
        PIdle \<Rightarrow> rcRaw p \<in> {0} \<union> owner_set p
      | PRetired n \<Rightarrow> rcRaw p \<in> {0} \<union> rcRetired p \<and> owner_set p \<subseteq> rcRetired p
      | POwned n \<Rightarrow> rcRaw p \<in> {0} \<union> rcRetired p \<and> rcOwner p = Some n
      | PStored \<Rightarrow> rcRaw p \<in> owner_set p
      | PClearing \<Rightarrow> rcRaw p \<in> owner_set p \<and>
          (\<forall>i x. rcReaders p i = RHolding x \<longrightarrow> x \<in> owner_set p))"

lemma busy_upd: "busy (f(i := r)) = (if r = RIdle then busy f - {i} else insert i (busy f))"
  by (auto simp: busy_def)

lemma busy_iff: "i \<in> busy f \<longleftrightarrow> f i \<noteq> RIdle"
  by (simp add: busy_def)

lemma owner_set_upd [simp]:
  "owner_set (p\<lparr>rcReaders := f\<rparr>) = owner_set p" "owner_set (p\<lparr>rcCounter := n\<rparr>) = owner_set p"
  "owner_set (p\<lparr>rcRetired := r\<rparr>) = owner_set p" "owner_set (p\<lparr>rcPublisher := b\<rparr>) = owner_set p"
  "owner_set (p\<lparr>rcRaw := x\<rparr>) = owner_set p" "owner_set (p\<lparr>rcOwner := Some x\<rparr>) = {x}"
  by (simp_all add: owner_set_def)

lemma reclaim_inv_readers:
  assumes f: "finite (busy f)" "n = card (busy f)" and inv: "reclaim_inv p"
    and holds: "\<And>j x. f j = RHolding x \<Longrightarrow> rcReaders p j = RHolding x \<or> x = rcRaw p"
  shows "reclaim_inv (p\<lparr>rcReaders := f, rcCounter := n\<rparr>)"
proof -
  have raw: "rcRaw p \<in> {0} \<union> owner_set p \<union> rcRetired p"
    using inv by (cases "rcPublisher p") (auto simp: reclaim_inv_def)
  have all: "x \<in> {0} \<union> owner_set p \<union> rcRetired p" if "f j = RHolding x" for j x
    using holds [OF that] raw inv unfolding reclaim_inv_def by metis
  have clearing: "x \<in> owner_set p" if "f j = RHolding x" "rcPublisher p = PClearing" for j x
    using holds [OF that(1)] that(2) inv by (auto simp: reclaim_inv_def)
  show ?thesis
    using f inv all clearing by (cases "rcPublisher p") (simp_all add: reclaim_inv_def)
qed

lemma reclaim_inv_init: "reclaim_inv init_reclaim"
  by (simp add: reclaim_inv_def init_reclaim_def busy_def)

lemma reclaim_inv_step: "reclaim_step p q \<Longrightarrow> reclaim_inv p \<Longrightarrow> reclaim_inv q"
proof (induction rule: reclaim_step.induct)
  case (enter p i)
  then have F: "finite (busy (rcReaders p))" "rcCounter p = card (busy (rcReaders p))"
    by (auto simp: reclaim_inv_def)
  have "i \<notin> busy (rcReaders p)" using enter by (simp add: busy_iff)
  with F enter show ?case
    by (intro reclaim_inv_readers) (auto simp: busy_upd split: if_splits)
next
  case (load p i)
  then have F: "finite (busy (rcReaders p))" "rcCounter p = card (busy (rcReaders p))"
    by (auto simp: reclaim_inv_def)
  have "insert i (busy (rcReaders p)) = busy (rcReaders p)" using load by (auto simp: busy_iff)
  with F load have "reclaim_inv (p\<lparr>rcReaders := (rcReaders p)(i := RHolding (rcRaw p)),
      rcCounter := rcCounter p\<rparr>)"
    by (intro reclaim_inv_readers) (auto simp: busy_upd split: if_splits)
  then show ?case by simp
next
  case (leave p i x)
  then have F: "finite (busy (rcReaders p))" "rcCounter p = card (busy (rcReaders p))"
    by (auto simp: reclaim_inv_def)
  have "i \<in> busy (rcReaders p)" using leave by (simp add: busy_iff)
  with F leave show ?case
    by (intro reclaim_inv_readers) (auto simp: busy_upd split: if_splits)
next
  case (retire p n)
  then show ?case by (auto simp: reclaim_inv_def owner_set_def split: option.splits)
next
  case (own p n)
  then have "x \<in> {0} \<union> rcRetired p" if "rcReaders p i = RHolding x" for i x
    using that unfolding reclaim_inv_def by simp blast
  with own show ?case by (simp add: reclaim_inv_def)
next
  case (store_raw p n)
  then have "rcOwner p = Some n" by (simp add: reclaim_inv_def)
  with store_raw show ?case by (simp add: reclaim_inv_def owner_set_def)
next
  case (check_busy p)
  then show ?case by (auto simp: reclaim_inv_def owner_set_def)
next
  case (check_free p)
  then have "\<forall>i. rcReaders p i = RIdle" by (auto simp: reclaim_inv_def busy_def)
  with check_free show ?case by (auto simp: reclaim_inv_def owner_set_def)
next
  case (clear p)
  then show ?case by (auto simp: reclaim_inv_def owner_set_def)
qed

lemma reclaim_reachable_inv: "reclaim_reachable p \<Longrightarrow> reclaim_inv p"
  by (induction rule: reclaim_reachable.induct) (auto intro: reclaim_inv_init reclaim_inv_step)

section \<open>Facts for the properties\<close>

lemma store_inv_sorted: "store_inv s \<Longrightarrow> sorted_wrt (<) (sn_ids (stHeap s) (stRaw s))"
  unfolding store_inv_def by (elim conjE)

lemma store_inv_alloc: "store_inv s \<Longrightarrow> r \<in> set (snRecords (stRaw s)) \<Longrightarrow> r < stNext s"
  unfolding store_inv_def by (elim conjE) blast

definition reached :: "store_op list \<Rightarrow> store" where
  "reached ops = run_ops store_step ops new_store"

lemma reached_inv [simp]: "store_inv (reached ops)"
  unfolding reached_def by (rule store_machine.inv_reachable) simp

lemma built_ids: "built gen heap nxt prev ids h n rs \<Longrightarrow> map (\<lambda>r. hrAppId (h r)) rs = ids"
  unfolding built_def by (elim conjE)

lemma built_old: "built gen heap nxt prev ids h n rs \<Longrightarrow> r < nxt \<Longrightarrow> h r = heap r"
  unfolding built_def by (elim conjE) blast

lemma built_next: "built gen heap nxt prev ids h n rs \<Longrightarrow> nxt \<le> n"
  unfolding built_def by (elim conjE)

lemma built_fresh_or_old:
  "built gen heap nxt prev ids h n rs \<Longrightarrow> r \<in> set rs \<Longrightarrow> r \<in> set prev \<or> nxt \<le> r"
  unfolding built_def by (elim conjE) blast

lemma built_member:
  "built gen heap nxt prev ids h n rs \<Longrightarrow> r \<in> set rs \<Longrightarrow>
     r \<in> set prev \<or> hrAppId (h r) \<notin> (\<lambda>r. hrAppId (heap r)) ` set prev"
proof -
  assume b: "built gen heap nxt prev ids h n rs" and r: "r \<in> set rs"
  from b have "\<forall>r \<in> set rs. r \<in> set prev \<or> (nxt \<le> r \<and>
      hrAppId (h r) \<notin> (\<lambda>r. hrAppId (heap r)) ` set prev \<and> hrGeneration (h r) = gen \<and> hrResolved (h r) = 0)"
    unfolding built_def by (elim conjE)
  from bspec [OF this r] show ?thesis by (elim disjE) simp_all
qed

lemma publish_keeps_record:
  assumes inv: "store_inv s" and d: "distinct desired"
    and r: "findRecord (stHeap s) (stRaw s) a = Some r" and a: "a \<in> set desired"
  shows "findRecord (stHeap (snd (publish desired s))) (stRaw (snd (publish desired s))) a = Some r \<and>
         stHeap (snd (publish desired s)) r = stHeap s r"
proof (cases "sort desired = sn_ids (stHeap s) (stRaw s)")
  case True
  then show ?thesis using r by (simp add: publish_unchanged)
next
  case False
  from publish_changed [OF inv d False] obtain h n rs where P:
    "built (snGeneration (stRaw s) + 1) (stHeap s) (stNext s) (snRecords (stRaw s)) (sort desired) h n rs"
    "stHeap (snd (publish desired s)) = h"
    "stRaw (snd (publish desired s)) = \<lparr>snGeneration = snGeneration (stRaw s) + 1, snRecords = rs\<rparr>"
    by metis
  have sorted: "sorted_wrt (<) (sn_ids (stHeap s) (stRaw s))"
    and alloc: "\<forall>r \<in> set (snRecords (stRaw s)). r < stNext s"
    using store_inv_sorted [OF inv] store_inv_alloc [OF inv] by blast+
  have r': "r \<in> set (snRecords (stRaw s))" "hrAppId (stHeap s r) = a"
    using r by (auto simp: findRecord_iff [OF sorted])
  have "a \<in> set (map (\<lambda>r. hrAppId (h r)) rs)" using a by (simp only: built_ids [OF P(1)] set_sort)
  then obtain x where x: "x \<in> set rs" "hrAppId (h x) = a" by auto
  have old: "h y = stHeap s y" if "y < stNext s" for y by (rule built_old [OF P(1) that])
  have "a \<in> (\<lambda>r. hrAppId (stHeap s r)) ` set (snRecords (stRaw s))" using r' by blast
  then have "x \<in> set (snRecords (stRaw s))" using built_member [OF P(1) x(1)] x(2) by simp
  moreover from this have "hrAppId (stHeap s x) = a" using x old alloc by auto
  ultimately have "findRecord (stHeap s) (stRaw s) a = Some x" by (simp add: findRecord_iff [OF sorted])
  then have "x = r" using r by simp
  moreover have "sorted_wrt (<) (sn_ids h (stRaw (snd (publish desired s))))"
    using store_inv_sorted [OF publish_inv [OF inv d]] P(2) by simp
  ultimately show ?thesis
    using x old r' alloc by (simp add: P findRecord_iff)
qed

lemma publish_next_le:
  assumes "store_inv s" "distinct desired"
  shows "stNext s \<le> stNext (snd (publish desired s))"
proof (cases "sort desired = sn_ids (stHeap s) (stRaw s)")
  case False
  from publish_changed [OF assms False] obtain h n rs where
    "built (snGeneration (stRaw s) + 1) (stHeap s) (stNext s) (snRecords (stRaw s)) (sort desired) h n rs"
    "stNext (snd (publish desired s)) = n" by metis
  then show ?thesis using built_next by simp
qed (simp add: publish_unchanged)

lemma publish_old_heap:
  assumes "store_inv s" "distinct desired" "r < stNext s"
  shows "stHeap (snd (publish desired s)) r = stHeap s r"
proof (cases "sort desired = sn_ids (stHeap s) (stRaw s)")
  case False
  from publish_changed [OF assms(1,2) False] obtain h n rs where
    "built (snGeneration (stRaw s) + 1) (stHeap s) (stNext s) (snRecords (stRaw s)) (sort desired) h n rs"
    "stHeap (snd (publish desired s)) = h" by metis
  then show ?thesis using built_old [OF _ assms(3)] by simp
qed (simp add: publish_unchanged)

lemma publish_fresh_record:
  assumes inv: "store_inv s" and d: "distinct desired" and a: "a \<notin> set (sn_ids (stHeap s) (stRaw s))"
    and r: "findRecord (stHeap (snd (publish desired s))) (stRaw (snd (publish desired s))) a = Some r"
  shows "stNext s \<le> r"
proof -
  let ?s = "snd (publish desired s)"
  have sorted: "sorted_wrt (<) (sn_ids (stHeap ?s) (stRaw ?s))"
    by (rule store_inv_sorted [OF publish_inv [OF inv d]])
  have mem: "r \<in> set (snRecords (stRaw ?s))" "hrAppId (stHeap ?s r) = a"
    using r by (auto simp: findRecord_iff [OF sorted])
  show ?thesis
  proof (cases "sort desired = sn_ids (stHeap s) (stRaw s)")
    case True
    with mem a show ?thesis by (auto simp: publish_unchanged sn_ids_def)
  next
    case False
    from publish_changed [OF inv d False] obtain h n rs where P:
      "built (snGeneration (stRaw s) + 1) (stHeap s) (stNext s) (snRecords (stRaw s)) (sort desired) h n rs"
      "stHeap ?s = h" "stRaw ?s = \<lparr>snGeneration = snGeneration (stRaw s) + 1, snRecords = rs\<rparr>"
      by metis
    have "r \<notin> set (snRecords (stRaw s))"
      using mem(2) a publish_old_heap [OF inv d, of r] store_inv_alloc [OF inv, of r]
      by (auto simp: sn_ids_def)
    then show ?thesis using built_fresh_or_old [OF P(1), of r] mem(1) P(3) by simp
  qed
qed

section \<open>Properties\<close>

text \<open>in every state the store reaches, the live snapshot's records are allocated and strictly
  sorted by app id, a resolved mark is the record's own generation, and the lock-free pointer is
  the owned snapshot.\<close>

theorem store_reachable_inv: "store_inv (run_ops store_step ops new_store)"
  by (rule store_machine.inv_reachable) simp

text \<open>C25: publishing a desired set makes the live snapshot list exactly that set in order, reports
  the difference in both directions, and gives a new generation exactly when membership changes.\<close>

theorem publish_functional:
  assumes "s = run_ops store_step ops new_store" "distinct desired"
  shows "sn_ids (stHeap (snd (publish desired s))) (stRaw (snd (publish desired s))) = sort desired \<and>
    trAdded (fst (publish desired s)) = filter (\<lambda>a. a \<notin> set (sn_ids (stHeap s) (stRaw s))) (sort desired) \<and>
    trRemoved (fst (publish desired s)) = filter (\<lambda>a. a \<notin> set desired) (sn_ids (stHeap s) (stRaw s)) \<and>
    snGeneration (stRaw (snd (publish desired s))) = snGeneration (stRaw s) +
      (if changed (fst (publish desired s)) then 1 else 0)"
proof -
  let ?ids = "sn_ids (stHeap s) (stRaw s)"
  have inv: "store_inv s" using assms(1) reached_inv by (simp add: reached_def)
  then have sorted: "sorted_wrt (<) ?ids" by (rule store_inv_sorted)
  show ?thesis
  proof (cases "sort desired = ?ids")
    case True
    then have eq: "set ?ids = set desired" by (metis set_sort)
    have "fst (publish desired s) = \<lparr>trGeneration = snGeneration (stRaw s), trAdded = [], trRemoved = [],
        trSnapshot = (case stOwner s of Some o' \<Rightarrow> o' | None \<Rightarrow> empty_snapshot)\<rparr>"
      using True by (simp add: publish_def sn_ids_def)
    then show ?thesis
      using True eq by (simp add: publish_unchanged changed_def filter_empty_conv)
  next
    case False
    from publish_changed [OF inv assms(2) False] obtain h n rs where P:
      "stRaw (snd (publish desired s)) = \<lparr>snGeneration = snGeneration (stRaw s) + 1, snRecords = rs\<rparr>"
      "fst (publish desired s) = \<lparr>trGeneration = snGeneration (stRaw s) + 1,
         trAdded = set_difference (sort desired) ?ids,
         trRemoved = set_difference ?ids (sort desired),
         trSnapshot = stRaw (snd (publish desired s))\<rparr>" by metis
    note D = set_difference_filter [OF strict_sort [OF assms(2)] sorted]
      set_difference_filter [OF sorted strict_sort [OF assms(2)]]
    have "set ?ids \<noteq> set desired"
      using False sorted strict_sort [OF assms(2)] strict_sorted_eqI [of "sort desired" ?ids] by auto
    then have "changed (fst (publish desired s))"
      by (auto simp: changed_def P D filter_empty_conv)
    then show ?thesis using publish_ids [OF inv assms(2)] P D by simp
  qed
qed

text \<open>an app that stays managed keeps its record (address, generation and resolved mark) across
  a publication, so a handle on it stays valid.\<close>

theorem publish_preserves_identity:
  assumes "s = run_ops store_step ops new_store" "distinct desired" "a \<in> set desired"
    and "findRecord (stHeap s) (stRaw s) a = Some r"
  shows "findRecord (stHeap (snd (publish desired s))) (stRaw (snd (publish desired s))) a = Some r \<and>
         stHeap (snd (publish desired s)) r = stHeap s r"
  using publish_keeps_record assms reached_inv [of ops] by (simp add: reached_def)


text \<open>resolving an app reports success exactly when it is managed and not yet resolved; the
  signal it raises is delivered to the next taker and resolving it again reports failure.\<close>

theorem noteResolved_once:
  assumes "s = run_ops store_step ops new_store" "findRecord (stHeap s) (stRaw s) a = Some r"
    and "hrGeneration (stHeap s r) \<noteq> 0"
  shows "(fst (noteResolved a s) \<longleftrightarrow> hrResolved (stHeap s r) = 0) \<and>
    (hrResolved (stHeap s r) = 0 \<longrightarrow>
       \<not> fst (noteResolved a (snd (noteResolved a s))) \<and>
       fst (takeResolvedDirty (snd (noteResolved a s))))"
proof -
  have inv: "store_inv s" using assms(1) reached_inv by (simp add: reached_def)
  have r: "r \<in> set (snRecords (stRaw s))" "hrAppId (stHeap s r) = a"
    using assms(2) by (auto simp: findRecord_iff [OF store_inv_sorted [OF inv]])
  show ?thesis
  proof (cases "hrResolved (stHeap s r) = 0")
    case True
    let ?s = "s\<lparr>stHeap := (stHeap s)(r := (stHeap s r)\<lparr>hrResolved := hrGeneration (stHeap s r)\<rparr>),
                stDirty := hrGeneration (stHeap s r)\<rparr>"
    have e: "noteResolved a s = (True, ?s)" using True assms(2) by (simp add: noteResolved_eq [OF inv])
    then have inv': "store_inv ?s" using noteResolved_inv [OF inv, of a] by simp
    have "findRecord (stHeap ?s) (stRaw ?s) a = Some r"
      using r findRecord_iff [OF store_inv_sorted [OF inv'], of a r] by simp
    then have "\<not> fst (noteResolved a ?s)" using assms(3) by (simp add: noteResolved_eq [OF inv'])
    moreover have "fst (takeResolvedDirty ?s)"
      using r assms(3) by (auto simp: takeResolvedDirty_def Let_def list_ex_iff)
    ultimately show ?thesis using e True by simp
  next
    case False
    then show ?thesis using assms(2) by (simp add: noteResolved_eq [OF inv])
  qed
qed

text \<open>only the last resolution is remembered: resolving an app of an earlier generation, then one
  that is removed again, loses the first app's signal although its record stays resolved.\<close>

theorem resolved_signal_lost:
  "let s = run_ops store_step [Publish [10], Publish [10, 20], NoteResolved 10, NoteResolved 20,
       Publish [10]] new_store
   in store_contains 10 s \<and> list_ex (\<lambda>r. hrAppId (stHeap s r) = 10 \<and> hrResolved (stHeap s r) = 1)
        (snRecords (stRaw s)) \<and> resolvedDirtyHint s \<and> \<not> fst (takeResolvedDirty s)"
  by code_simp

text \<open>C1: a snapshot a reader holds is never reclaimed, in any interleaving of readers with the
  publisher's retire, install, counter check and clear.\<close>

theorem no_use_after_reclaim:
  "reclaim_reachable p \<Longrightarrow> rcReaders p i = RHolding x \<Longrightarrow> x \<in> live p"
  using reclaim_reachable_inv [of p] by (auto simp: reclaim_inv_def live_def)

section \<open>Witnesses\<close>

lemma publish_functional_witness:
  "let s = run_ops store_step [Publish [10]] new_store in
   sn_ids (stHeap (snd (publish [20, 10] s))) (stRaw (snd (publish [20, 10] s))) = sort [20, 10]"
  unfolding Let_def by (rule publish_functional [OF refl, THEN conjunct1]) simp

lemma publish_preserves_identity_witness:
  "let s = run_ops store_step [Publish [10]] new_store in
   findRecord (stHeap (snd (publish [20, 10] s))) (stRaw (snd (publish [20, 10] s))) 10 = Some 0"
  unfolding Let_def
  by (rule publish_preserves_identity [OF refl, THEN conjunct1]) (simp, simp, code_simp)


lemma noteResolved_once_witness:
  "let s = run_ops store_step [Publish [10]] new_store in
   fst (noteResolved 10 s) \<longleftrightarrow> hrResolved (stHeap s 0) = 0"
  unfolding Let_def
  by (rule noteResolved_once [OF refl, THEN conjunct1]) code_simp+

lemma no_use_after_reclaim_witness:
  "0 \<in> live (init_reclaim\<lparr>rcReaders := (\<lambda>_. RIdle)(3 := RHolding 0), rcCounter := 1\<rparr>)"
proof (rule no_use_after_reclaim [where i = 3])
  let ?p = "init_reclaim\<lparr>rcReaders := (\<lambda>_. RIdle)(3 := REntered), rcCounter := 1\<rparr>"
  have "reclaim_step init_reclaim ?p"
    using reclaim_step.enter [of init_reclaim 3] by (simp add: init_reclaim_def)
  then have "reclaim_reachable ?p" by (rule reclaim_reachable.step [OF reclaim_reachable.start])
  moreover have "reclaim_step ?p (init_reclaim\<lparr>rcReaders := (\<lambda>_. RIdle)(3 := RHolding 0), rcCounter := 1\<rparr>)"
    using reclaim_step.load [of ?p 3] by (simp add: init_reclaim_def)
  ultimately show "reclaim_reachable
      (init_reclaim\<lparr>rcReaders := (\<lambda>_. RIdle)(3 := RHolding 0), rcCounter := 1\<rparr>)"
    by (rule reclaim_reachable.step)
qed simp

end
