(* ===== verification/HotReloadPackage.thy ===== *)
theory HotReloadPackage
  imports OrdMap "HOL-Library.Product_Lexorder"
begin

text \<open>
  \<open>src/feats/hotreload_types.hpp\<close>, \<open>hotreload_package.hpp\<close> and \<open>hotreload_publish_policy.hpp\<close>: what the
  hot-reload coordinator injects into Steam's package vector, which app infos it then asks Steam
  to reload, and the reservations that keep a request from being issued twice. Hash sets are
  sets; the raw \<open>uint32_t* data, size\<close> pair is a list and a length.
\<close>

section \<open>Snapshots and contributions\<close>

record package_snapshot =
  pkGeneration :: u64
  pkAppIds :: "u32 list"
  pkDepotIds :: "u32 list"
  pkMetadataComplete :: bool
  pkAddedAppIds :: "u32 list"
  pkAppInfoRequestIds :: "u32 list"

record contribution =
  ctBaseAppId :: u32
  ctAppIds :: "u32 list"
  ctDepotIds :: "u32 list"

record aggregate_ids =
  agAppIds :: "u32 set"
  agDepotIds :: "u32 set"

definition contains :: "u32 list \<Rightarrow> u32 \<Rightarrow> bool" where
  "contains values i \<longleftrightarrow> i \<in> set values"

text \<open>A null data pointer is \<open>None\<close>.\<close>

definition containsLive :: "u32 list option \<Rightarrow> nat \<Rightarrow> u32 \<Rightarrow> bool" where
  "containsLive dat n i = (case dat of None \<Rightarrow> False | Some arr \<Rightarrow> i \<in> set (take n arr))"

definition aggregate_one :: "u32 list \<Rightarrow> contribution \<Rightarrow> aggregate_ids \<Rightarrow> aggregate_ids" where
  "aggregate_one activeBases c out =
     (if \<not> contains activeBases (ctBaseAppId c) then out
      else out\<lparr>agAppIds := agAppIds out \<union> set (ctAppIds c),
               agDepotIds := agDepotIds out \<union> set (ctDepotIds c)\<rparr>)"

definition aggregate :: "u32 list \<Rightarrow> contribution list \<Rightarrow> aggregate_ids" where
  "aggregate activeBases contributions =
     fold (aggregate_one activeBases) contributions \<lparr>agAppIds = {}, agDepotIds = {}\<rparr>"

section \<open>The package vector\<close>

fun compact_injected_loop ::
  "u32 list \<Rightarrow> u32 list \<Rightarrow> nat \<Rightarrow> nat \<Rightarrow> nat \<Rightarrow> u32 list \<Rightarrow> nat \<times> u32 list" where
  "compact_injected_loop seeded desired 0 rd wr arr = (wr, arr)"
| "compact_injected_loop seeded desired (Suc n) rd wr arr =
     (let i = arr ! rd in
      if contains seeded i \<and> \<not> contains desired i
      then compact_injected_loop seeded desired n (Suc rd) wr arr
      else compact_injected_loop seeded desired n (Suc rd) (Suc wr) (arr[wr := i]))"

text \<open>Result: the new size and the array, whose cells behind the new size are left over.\<close>

definition compactInjected :: "u32 list option \<Rightarrow> nat \<Rightarrow> u32 list \<Rightarrow> u32 list \<Rightarrow> nat \<times> u32 list option"
where
  "compactInjected dat n seeded desired =
     (case dat of
        None \<Rightarrow> (n, None)
      | Some arr \<Rightarrow>
          if n = 0 then (n, dat)
          else (let (n', arr') = compact_injected_loop seeded desired n 0 0 arr in (n', Some arr')))"

definition missingFromVector :: "u32 list option \<Rightarrow> nat \<Rightarrow> u32 list \<Rightarrow> u32 list" where
  "missingFromVector dat n desired =
     sort_uniq (filter (\<lambda>i. \<not> containsLive dat n i) desired)"

definition idsToRequestAfterApply :: "bool \<Rightarrow> u32 list \<Rightarrow> u32 list" where
  "idsToRequestAfterApply applied missing = (if \<not> applied then [] else missing)"

definition snapshotAppInfoRequestIdsAfterApply :: "bool \<Rightarrow> package_snapshot \<Rightarrow> u32 list" where
  "snapshotAppInfoRequestIdsAfterApply applied sn =
     idsToRequestAfterApply applied (pkAppInfoRequestIds sn)"

definition carry_relevant :: "u32 list \<Rightarrow> u32 list \<Rightarrow> u32 list \<Rightarrow> u32 list" where
  "carry_relevant nextAppIds pending cur =
     sort_uniq (filter (\<lambda>a. a \<in> set nextAppIds) (pending @ cur))"

definition carryPendingSnapshotWork ::
  "package_snapshot \<Rightarrow> package_snapshot \<Rightarrow> bool \<Rightarrow> bool \<Rightarrow> package_snapshot" where
  "carryPendingSnapshotWork previous nxt previousOwnershipProcessed previousAppInfoRequested =
     (let n1 = (if \<not> previousOwnershipProcessed
                then nxt\<lparr>pkAddedAppIds :=
                       carry_relevant (pkAppIds nxt) (pkAddedAppIds previous) (pkAddedAppIds nxt)\<rparr>
                else nxt)
      in if \<not> previousAppInfoRequested
         then n1\<lparr>pkAppInfoRequestIds :=
                carry_relevant (pkAppIds nxt) (pkAppInfoRequestIds previous) (pkAppInfoRequestIds n1)\<rparr>
         else n1)"

section \<open>App-info request reservations\<close>

record request_state =
  rsHighest :: u64
  rsAccepted :: "(u64, u32 set) omap"
  rsInFlight :: "(u64 \<times> u32) set"

definition new_request_state :: request_state where
  "new_request_state = \<lparr>rsHighest = 0, rsAccepted = [], rsInFlight = {}\<rparr>"

definition too_old :: "u64 \<Rightarrow> u64 \<Rightarrow> bool" where
  "too_old highest g \<longleftrightarrow> g < highest \<and> highest - g > 1"

definition pruneAccepted :: "request_state \<Rightarrow> request_state" where
  "pruneAccepted s = s\<lparr>rsAccepted := filter (\<lambda>e. \<not> too_old (rsHighest s) (fst e)) (rsAccepted s)\<rparr>"

definition is_accepted :: "request_state \<Rightarrow> u64 \<Rightarrow> u32 \<Rightarrow> bool" where
  "is_accepted s g a = (case om_find (rsAccepted s) g of None \<Rightarrow> False | Some ids \<Rightarrow> a \<in> ids)"

fun reserve_loop :: "u64 \<Rightarrow> u32 list \<Rightarrow> request_state \<Rightarrow> u32 list \<times> request_state" where
  "reserve_loop g [] s = ([], s)"
| "reserve_loop g (a # ids) s =
     (if a = 0 \<or> is_accepted s g a \<or> (g, a) \<in> rsInFlight s then reserve_loop g ids s
      else (let (out, s') = reserve_loop g ids (s\<lparr>rsInFlight := insert (g, a) (rsInFlight s)\<rparr>)
            in (a # out, s')))"

definition reserve :: "u64 \<Rightarrow> u32 list \<Rightarrow> request_state \<Rightarrow> u32 list \<times> request_state" where
  "reserve g ids s = reserve_loop g ids (pruneAccepted (s\<lparr>rsHighest := max (rsHighest s) g\<rparr>))"

definition finish :: "u64 \<Rightarrow> u32 list \<Rightarrow> bool \<Rightarrow> request_state \<Rightarrow> request_state" where
  "finish g ids accepted s =
     (let s1 = s\<lparr>rsInFlight := rsInFlight s - Pair g ` set ids\<rparr> in
      if \<not> accepted \<or> too_old (rsHighest s1) g then s1
      else
        (let completed = (case om_find (rsAccepted s1) g of None \<Rightarrow> {} | Some c \<Rightarrow> c) \<union> set ids
         in pruneAccepted (s1\<lparr>rsAccepted := om_put g completed (rsAccepted s1)\<rparr>)))"

definition allAccepted :: "u64 \<Rightarrow> u32 list \<Rightarrow> request_state \<Rightarrow> bool" where
  "allAccepted g ids s =
     (if ids = [] then True
      else case om_find (rsAccepted s) g of
        None \<Rightarrow> False
      | Some acc \<Rightarrow> list_all (\<lambda>a. a \<in> acc) ids)"

definition clear_requests :: "request_state \<Rightarrow> request_state" where
  "clear_requests s = \<lparr>rsHighest = 0, rsAccepted = [], rsInFlight = {}\<rparr>"

section \<open>Publication policy\<close>

definition shouldEvaluateInputs :: "bool \<Rightarrow> bool \<Rightarrow> bool \<Rightarrow> bool" where
  "shouldEvaluateInputs initialPublication membershipChanged forceSourceRefresh \<longleftrightarrow>
     initialPublication \<or> membershipChanged \<or> forceSourceRefresh"

definition shouldPublish :: "bool \<Rightarrow> bool \<Rightarrow> bool \<Rightarrow> bool" where
  "shouldPublish initialPublication membershipChanged fingerprintsChanged \<longleftrightarrow>
     initialPublication \<or> membershipChanged \<or> fingerprintsChanged"

definition shouldAwaitDlcMetadata :: "bool \<Rightarrow> bool \<Rightarrow> bool" where
  "shouldAwaitDlcMetadata initialPublication addedBaseNeedsMetadata \<longleftrightarrow>
     \<not> initialPublication \<and> addedBaseNeedsMetadata"

definition membershipAppInfoRequestIds :: "bool \<Rightarrow> u32 list \<Rightarrow> u32 list \<Rightarrow> u32 list" where
  "membershipAppInfoRequestIds initialPublication addedBaseIds cacheMissingBaseIds =
     drop_zero (sort_uniq (if initialPublication then cacheMissingBaseIds else []))"

definition readyBaseIds :: "u32 list \<Rightarrow> u32 set \<Rightarrow> u32 list" where
  "readyBaseIds candidates ready = sort_uniq (filter (\<lambda>a. a \<noteq> 0 \<and> a \<in> ready) candidates)"

definition guardedAppInfoIds :: "u32 set \<Rightarrow> u32 list \<Rightarrow> u32 set \<Rightarrow> u32 set" where
  "guardedAppInfoIds managed planner authoritative =
     fold (\<lambda>a g. if a \<noteq> 0 then insert a g else g) planner managed \<union> {a \<in> authoritative. a \<noteq> 0}"

definition nonAuthoritativeAppInfoRequestIds :: "u32 list \<Rightarrow> u32 set \<Rightarrow> u32 list" where
  "nonAuthoritativeAppInfoRequestIds requested authoritative =
     sort_uniq (filter (\<lambda>a. \<not> (a = 0 \<or> a \<in> authoritative)) requested)"

definition newTopologyAppInfoRequestIds :: "package_snapshot \<Rightarrow> package_snapshot \<Rightarrow> u32 list" where
  "newTopologyAppInfoRequestIds previous nxt =
     drop_zero (set_difference (sort_uniq (pkAppIds nxt)) (sort_uniq (pkAppIds previous)))"

definition metadataRepairDue :: "bool \<Rightarrow> u64 \<Rightarrow> u64 \<Rightarrow> bool" where
  "metadataRepairDue hasPending nowMs retryAfterMs \<longleftrightarrow> hasPending \<and> nowMs \<ge> retryAfterMs"

definition metadataRepairDeadlineMs :: "u64 \<Rightarrow> u64 \<Rightarrow> u64" where
  "metadataRepairDeadlineMs nowMs delayMs =
     (if delayMs > -1 - nowMs then -1 else nowMs + delayMs)"

definition shouldArmMetadataRepair :: "bool \<Rightarrow> bool" where
  "shouldArmMetadataRepair postLoginOpportunitySeen = (\<not> postLoginOpportunitySeen)"

definition metadataCacheVisibleInSession :: "bool \<Rightarrow> bool \<Rightarrow> bool" where
  "metadataCacheVisibleInSession cacheReady deferredUntilRestart \<longleftrightarrow>
     cacheReady \<and> \<not> deferredUntilRestart"

definition metadataRepairDefersUntilRestart :: "bool \<Rightarrow> bool" where
  "metadataRepairDefersUntilRestart runtimePending = (\<not> runtimePending)"

record repair_candidate =
  rcAppId :: u32
  rcRuntimePending :: bool
  rcCacheMtime :: int

definition repair_before :: "repair_candidate \<Rightarrow> repair_candidate \<Rightarrow> bool" where
  "repair_before l r =
     (if rcRuntimePending l \<noteq> rcRuntimePending r then rcRuntimePending l \<and> \<not> rcRuntimePending r
      else if rcCacheMtime l \<noteq> rcCacheMtime r then rcCacheMtime l > rcCacheMtime r
      else rcAppId l < rcAppId r)"

definition prioritizeMetadataRepairs :: "repair_candidate list \<Rightarrow> u32 list" where
  "prioritizeMetadataRepairs candidates =
     map rcAppId (filter (\<lambda>c. rcAppId c \<noteq> 0) (sort_by repair_before candidates))"

definition mergeMetadataRepairIds :: "u32 list \<Rightarrow> u32 list \<Rightarrow> u32 list" where
  "mergeMetadataRepairIds missing runtimePending = drop_zero (sort_uniq (missing @ runtimePending))"

definition takeNextCacheRepairId :: "u32 list \<Rightarrow> u32 \<times> u32 list" where
  "takeNextCacheRepairId repairIds =
     (if repairIds = [] then (0, repairIds) else (hd repairIds, rotate1 repairIds))"

definition metadataSnapshotChanged :: "package_snapshot \<Rightarrow> package_snapshot \<Rightarrow> bool" where
  "metadataSnapshotChanged previous nxt \<longleftrightarrow>
     pkAppIds previous \<noteq> pkAppIds nxt \<or> pkDepotIds previous \<noteq> pkDepotIds nxt \<or>
     pkMetadataComplete previous \<noteq> pkMetadataComplete nxt"

section \<open>The compaction loop\<close>

lemma compact_injected_loop_eq:
  "compact_injected_loop seeded desired n rd wr arr =
     compact_loop (\<lambda>i. contains seeded i \<and> \<not> contains desired i) n rd wr arr"
  by (induction n arbitrary: rd wr arr) (auto simp: Let_def)

section \<open>Canonical id functions\<close>

text \<open>
  Every function of the publication policy that returns ids returns a canonical vector: the
  admissible ids of its input in ascending order, once each. The clients (fingerprints,
  snapshot comparison, Steam requests) rely on just that.
\<close>

locale canonical_ids =
  fixes canon :: "u32 list \<Rightarrow> u32 list" and admissible :: "u32 \<Rightarrow> bool"
  assumes canon_set: "set (canon xs) = {x \<in> set xs. admissible x}"
    and canon_sorted: "sorted_wrt (<) (canon xs)"
begin

lemma canon_order_independent: "set xs = set ys \<Longrightarrow> canon xs = canon ys"
  by (rule strict_sorted_eqI) (auto simp: canon_set canon_sorted)

lemma canon_idem: "canon (canon xs) = canon xs"
  by (rule strict_sorted_eqI) (auto simp: canon_set canon_sorted)

lemma canon_distinct: "distinct (canon xs)"
  using canon_sorted strict_sorted_iff by blast

lemma canon_append_canon: "canon (canon xs @ ys) = canon (xs @ ys)"
  by (rule strict_sorted_eqI) (auto simp: canon_set canon_sorted)

end

lemma sorted_drop_zero_sort_uniq: "sorted_wrt (<) (drop_zero (sort_uniq xs :: u32 list))"
  unfolding drop_zero_def by (intro strict_sorted_filter strict_sorted_sort_uniq)

interpretation repair_ids: canonical_ids "\<lambda>xs. mergeMetadataRepairIds xs []" "\<lambda>a. a \<noteq> 0"
  by unfold_locales (auto simp: mergeMetadataRepairIds_def sorted_drop_zero_sort_uniq)

interpretation ready_ids: canonical_ids "\<lambda>xs. readyBaseIds xs ready" "\<lambda>a. a \<noteq> 0 \<and> a \<in> ready"
  for ready
  by unfold_locales (auto simp: readyBaseIds_def)

interpretation request_ids:
  canonical_ids "\<lambda>xs. nonAuthoritativeAppInfoRequestIds xs auth" "\<lambda>a. a \<noteq> 0 \<and> a \<notin> auth" for auth
  by unfold_locales (auto simp: nonAuthoritativeAppInfoRequestIds_def)

interpretation membership_ids: canonical_ids "membershipAppInfoRequestIds True added" "\<lambda>a. a \<noteq> 0"
  for added
  by unfold_locales (auto simp: membershipAppInfoRequestIds_def sorted_drop_zero_sort_uniq)

section \<open>Reservations\<close>

lemma om_find_prune:
  "om_find (rsAccepted (pruneAccepted s)) g =
     (if too_old (rsHighest s) g then None else om_find (rsAccepted s) g)"
proof -
  have "map_of (filter (\<lambda>e. P (fst e)) m) g = (if P g then map_of m g else None)" for P and m :: "(u64 \<times> u32 set) list"
    by (induction m) auto
  from this [of "\<lambda>g. \<not> too_old (rsHighest s) g"] show ?thesis
    by (simp add: pruneAccepted_def om_find_def)
qed

lemma prune_frame [simp, frame_simps]:
  "rsHighest (pruneAccepted s) = rsHighest s" "rsInFlight (pruneAccepted s) = rsInFlight s"
  by (simp_all add: pruneAccepted_def)

lemma is_accepted_inflight [simp]: "is_accepted (s\<lparr>rsInFlight := f\<rparr>) g a = is_accepted s g a"
  by (simp add: is_accepted_def)

definition reservable :: "request_state \<Rightarrow> u64 \<Rightarrow> u32 \<Rightarrow> bool" where
  "reservable s g a \<longleftrightarrow> a \<noteq> 0 \<and> \<not> is_accepted s g a \<and> (g, a) \<notin> rsInFlight s"

lemma reserve_loop_spec:
  "distinct (fst (reserve_loop g ids s)) \<and>
   set (fst (reserve_loop g ids s)) = {a \<in> set ids. reservable s g a} \<and>
   snd (reserve_loop g ids s) = s\<lparr>rsInFlight := rsInFlight s \<union> Pair g ` set (fst (reserve_loop g ids s))\<rparr>"
proof (induction ids arbitrary: s)
  case (Cons a ids)
  show ?case
  proof (cases "reservable s g a")
    case False
    then have "a = 0 \<or> is_accepted s g a \<or> (g, a) \<in> rsInFlight s" by (auto simp: reservable_def)
    then show ?thesis using Cons.IH [of s] False by auto
  next
    case True
    let ?s = "s\<lparr>rsInFlight := insert (g, a) (rsInFlight s)\<rparr>"
    obtain out s' where e: "reserve_loop g ids ?s = (out, s')" by fastforce
    have step: "reserve_loop g (a # ids) s = (a # out, s')"
      using True e by (simp add: reservable_def)
    have ih: "distinct out" "set out = {x \<in> set ids. reservable ?s g x}"
      "s' = ?s\<lparr>rsInFlight := rsInFlight ?s \<union> Pair g ` set out\<rparr>"
      using Cons.IH [of ?s] by (simp_all add: e)
    have "reservable ?s g x \<longleftrightarrow> reservable s g x \<and> x \<noteq> a" for x
      by (auto simp: reservable_def)
    then have "set out = {x \<in> set ids. reservable s g x \<and> x \<noteq> a}" using ih by simp
    then have "distinct (a # out)" "set (a # out) = {x \<in> set (a # ids). reservable s g x}"
      using ih(1) True by auto
    moreover have "s' = s\<lparr>rsInFlight := rsInFlight s \<union> Pair g ` set (a # out)\<rparr>" using ih(3) by simp
    ultimately show ?thesis unfolding step fst_conv snd_conv by (intro conjI)
  qed
qed simp

lemma reserve_loop_none:
  "(\<forall>a \<in> set ids. \<not> reservable s g a) \<Longrightarrow> reserve_loop g ids s = ([], s)"
  by (induction ids) (auto simp: reservable_def)

lemma prune_idem: "rsHighest s' = rsHighest s \<Longrightarrow> rsAccepted s' = rsAccepted (pruneAccepted s) \<Longrightarrow>
   pruneAccepted s' = s'"
  by (simp add: pruneAccepted_def)

text \<open>A reservation of nothing admissible changes only the pruned history.\<close>

lemma reserve_nothing:
  assumes "\<And>a. a \<in> set ids \<Longrightarrow> \<not> reservable (pruneAccepted (s\<lparr>rsHighest := max (rsHighest s) g\<rparr>)) g a"
  shows "fst (reserve g ids s) = []"
  using reserve_loop_none [of ids _ g] assms by (simp add: reserve_def)

section \<open>Repair order\<close>

definition repair_key :: "repair_candidate \<Rightarrow> bool \<times> int \<times> u32" where
  "repair_key c = (\<not> rcRuntimePending c, - rcCacheMtime c, rcAppId c)"

lemma repair_before_key: "repair_before a b \<longleftrightarrow> repair_key a < repair_key b"
  by (auto simp: repair_before_def repair_key_def less_prod_def')

lemma inj_repair_key: "inj repair_key"
  by (rule injI) (simp add: repair_key_def)

section \<open>Rotation\<close>

fun take_many :: "nat \<Rightarrow> u32 list \<Rightarrow> u32 list \<times> u32 list" where
  "take_many 0 ids = ([], ids)"
| "take_many (Suc n) ids =
     (let (a, ids') = takeNextCacheRepairId ids; (out, rest) = take_many n ids' in (a # out, rest))"

lemma take_many_prefix:
  "n \<le> length ids \<Longrightarrow> take_many n ids = (take n ids, rotate n ids)"
proof (induction n arbitrary: ids)
  case (Suc n)
  then obtain a t where ids: "ids = a # t" by (cases ids) auto
  with Suc have "take_many n (t @ [a]) = (take n (t @ [a]), rotate n (t @ [a]))" by simp
  then show ?case using Suc.prems ids
    by (simp add: takeNextCacheRepairId_def rotate1_rotate_swap [symmetric] rotate_def funpow_swap1)
qed simp

section \<open>Properties\<close>

text \<open>compacting the injected package vector in place keeps, in order, exactly the ids that were
  not seeded by the plugin or are still desired, and touches nothing behind the given size.\<close>

theorem compactInjected_filter:
  assumes "n \<le> length arr" "compactInjected (Some arr) n seeded desired = (n', Some arr')"
  shows "take n' arr' = filter (\<lambda>i. i \<in> set seeded \<longrightarrow> i \<in> set desired) (take n arr) \<and>
         n' \<le> n \<and> drop n arr' = drop n arr \<and> length arr' = length arr"
proof -
  let ?P = "\<lambda>i. contains seeded i \<and> \<not> contains desired i"
  have "(n', arr') = compact_loop ?P n 0 0 arr"
    using assms(2) by (cases "n = 0") (auto simp: compactInjected_def compact_injected_loop_eq split: prod.splits)
  then have "n' = fst (compact_loop ?P n 0 0 arr)" "arr' = snd (compact_loop ?P n 0 0 arr)" by (metis fst_conv, metis snd_conv)
  moreover have "(Not \<circ> ?P) = (\<lambda>i. i \<in> set seeded \<longrightarrow> i \<in> set desired)"
    by (auto simp: contains_def fun_eq_iff)
  moreover have "length (filter (Not \<circ> ?P) (take n arr)) \<le> n"
    using length_filter_le [of "Not \<circ> ?P" "take n arr"] by simp
  ultimately show ?thesis using compact_loop_filter [OF assms(1), of ?P] by simp
qed

lemma compactInjected_filter_witness:
  "take 2 [5, 9, 9 :: u32] = filter (\<lambda>i. i \<in> set [7] \<longrightarrow> i \<in> set []) (take 3 [5, 7, 9]) \<and>
   (2::nat) \<le> 3 \<and> drop 3 [5, 9, 9 :: u32] = drop 3 [5, 7, 9] \<and> length [5, 9, 9 :: u32] = length [5, 7, 9 :: u32]"
  by (rule compactInjected_filter) (simp, code_simp)

text \<open>a reservation returns each requested app once, exactly those neither accepted nor in flight
  for the generation, and asking again before it finishes returns nothing.\<close>

theorem reserve_exclusive:
  assumes "reserve g ids s = (out, s')"
  shows "distinct out \<and>
    set out = {a \<in> set ids. a \<noteq> 0 \<and> (g, a) \<notin> rsInFlight s \<and>
       \<not> is_accepted (pruneAccepted (s\<lparr>rsHighest := max (rsHighest s) g\<rparr>)) g a} \<and>
    fst (reserve g ids s') = []"
proof -
  let ?s = "pruneAccepted (s\<lparr>rsHighest := max (rsHighest s) g\<rparr>)"
  have e: "out = fst (reserve_loop g ids ?s)" "s' = snd (reserve_loop g ids ?s)"
    using assms by (simp_all add: reserve_def)
  note spec = reserve_loop_spec [of g ids ?s, folded e]
  have s': "s' = ?s\<lparr>rsInFlight := rsInFlight ?s \<union> Pair g ` set out\<rparr>" using spec by simp
  have again: "pruneAccepted (s'\<lparr>rsHighest := max (rsHighest s') g\<rparr>) = s'"
    unfolding s' by (simp add: pruneAccepted_def max.commute max.left_commute)
  have "fst (reserve g ids s') = []"
  proof (rule reserve_nothing)
    fix a assume "a \<in> set ids"
    with spec show "\<not> reservable (pruneAccepted (s'\<lparr>rsHighest := max (rsHighest s') g\<rparr>)) g a"
      unfolding again by (auto simp: s' reservable_def)
  qed
  then show ?thesis using spec by (auto simp: reservable_def)
qed

text \<open>finishing a current-generation reservation as accepted makes all of it accepted and never
  reserved again in that state; finishing it as failed makes it available again.\<close>

theorem reservation_outcome:
  assumes "rsHighest s \<le> g" "reserve g ids s = (out, s')"
  shows "allAccepted g out (finish g out True s') \<and>
    fst (reserve g out (finish g out True s')) = [] \<and>
    set (fst (reserve g out (finish g out False s'))) = set out"
proof -
  let ?s = "pruneAccepted (s\<lparr>rsHighest := max (rsHighest s) g\<rparr>)"
  have e: "out = fst (reserve_loop g ids ?s)" "s' = snd (reserve_loop g ids ?s)"
    using assms by (simp_all add: reserve_def)
  note spec = reserve_loop_spec [of g ids ?s, folded e]
  have s': "s' = ?s\<lparr>rsInFlight := rsInFlight ?s \<union> Pair g ` set out\<rparr>" using spec by simp
  have high: "rsHighest s' = g" unfolding s' using assms(1) by simp
  have young: "\<not> too_old g g" by (simp add: too_old_def)
  let ?t = "finish g out True s'" and ?f = "finish g out False s'"
  have find: "om_find (rsAccepted ?t) g =
      Some ((case om_find (rsAccepted s') g of None \<Rightarrow> {} | Some c \<Rightarrow> c) \<union> set out)"
    by (simp add: finish_def Let_def high young om_find_prune)
  have high': "rsHighest ?t = g" by (simp add: finish_def Let_def high young)
  have "allAccepted g out ?t" by (auto simp: allAccepted_def find list_all_iff)
  moreover have "fst (reserve g out ?t) = []"
    by (rule reserve_nothing) (auto simp: reservable_def is_accepted_def om_find_prune high' young find)
  moreover have "set (fst (reserve g out ?f)) = set out"
  proof -
    have f: "rsHighest ?f = g" "rsAccepted ?f = rsAccepted s'"
      "rsInFlight ?f = rsInFlight s' - Pair g ` set out"
      by (simp_all add: finish_def Let_def high)
    have "is_accepted (pruneAccepted (?f\<lparr>rsHighest := max (rsHighest ?f) g\<rparr>)) g a = is_accepted s' g a" for a
      by (simp add: f is_accepted_def om_find_prune young)
    moreover have "is_accepted s' g a = is_accepted ?s g a" for a by (simp add: s')
    moreover have "a \<noteq> 0 \<and> \<not> is_accepted ?s g a" if "a \<in> set out" for a
      using that spec by (auto simp: reservable_def)
    ultimately show ?thesis
      using reserve_exclusive [of g out ?f "fst (reserve g out ?f)" "snd (reserve g out ?f)"]
      by (simp add: f(3)) auto
  qed
  ultimately show ?thesis by blast
qed

text \<open>prioritized repairs are a reordering of the candidates' app ids, runtime-pending first, then
  newest cache first, and the order in which candidates are collected does not matter.\<close>

theorem prioritize_order_independent:
  assumes "mset xs = mset ys"
  shows "prioritizeMetadataRepairs xs = prioritizeMetadataRepairs ys \<and>
    mset (prioritizeMetadataRepairs xs) = filter_mset (\<lambda>a. a \<noteq> 0) (mset (map rcAppId xs)) \<and>
    sorted (map repair_key (sort_by repair_before xs))"
proof -
  have "sort_by repair_before xs = sort_by repair_before ys"
    by (rule sort_by_unique [OF repair_before_key inj_repair_key assms])
  moreover have "mset (prioritizeMetadataRepairs xs) = filter_mset (\<lambda>a. a \<noteq> 0) (mset (map rcAppId xs))"
    by (simp add: prioritizeMetadataRepairs_def filter_mset_image_mset)
  ultimately show ?thesis
    by (simp add: prioritizeMetadataRepairs_def sort_by_sorted [OF repair_before_key])
qed

lemma prioritize_order_independent_witness:
  "let a = \<lparr>rcAppId = 10, rcRuntimePending = False, rcCacheMtime = 5\<rparr>;
       b = \<lparr>rcAppId = 20, rcRuntimePending = True, rcCacheMtime = 1\<rparr>
   in prioritizeMetadataRepairs [a, b] = prioritizeMetadataRepairs [b, a]"
  unfolding Let_def by (rule prioritize_order_independent [THEN conjunct1]) simp

lemma reserve_exclusive_witness:
  "distinct [10, 20 :: u32] \<and> set [10, 20] = {a \<in> set [10, 0, 20, 10]. a \<noteq> (0::u32) \<and>
     (3, a) \<notin> rsInFlight new_request_state \<and>
     \<not> is_accepted (pruneAccepted (new_request_state\<lparr>rsHighest := max (rsHighest new_request_state) 3\<rparr>)) 3 a} \<and>
   fst (reserve 3 [10, 0, 20, 10] (snd (reserve 3 [10, 0, 20, 10] new_request_state))) = []"
  by (rule reserve_exclusive)
    (simp add: reserve_def new_request_state_def pruneAccepted_def is_accepted_def)

lemma reservation_outcome_witness:
  "allAccepted 3 [10, 20] (finish 3 [10, 20] True (snd (reserve 3 [10, 20] new_request_state)))"
  by (rule reservation_outcome [where s = new_request_state and ids = "[10, 20]", THEN conjunct1])
    (simp_all add: reserve_def new_request_state_def pruneAccepted_def is_accepted_def)

text \<open>the repair deadline saturates instead of wrapping: it is the exact sum of the two times,
  capped at the largest 64-bit value.\<close>

theorem metadataRepairDeadline_saturates:
  "unat (metadataRepairDeadlineMs nowMs delayMs) = min (unat nowMs + unat delayMs) (2 ^ 64 - 1)"
proof -
  have m1: "unat (-1 :: u64) = 2 ^ 64 - 1"
    by (simp add: unsigned_minus_1_eq_mask mask_eq_exp_minus_1)
  have sub: "unat (-1 - nowMs) = 2 ^ 64 - 1 - unat nowMs"
    using unat_sub [of nowMs "-1"] by (simp add: m1)
  have lt: "unat nowMs < 2 ^ 64" "unat delayMs < 2 ^ 64"
    using unsigned_less [of nowMs] unsigned_less [of delayMs] by simp_all
  show ?thesis
  proof (cases "delayMs > -1 - nowMs")
    case True
    then have "unat delayMs > 2 ^ 64 - 1 - unat nowMs" by (simp add: word_less_nat_alt sub)
    with True lt show ?thesis by (simp add: metadataRepairDeadlineMs_def m1)
  next
    case False
    then have "unat delayMs \<le> 2 ^ 64 - 1 - unat nowMs" by (simp add: word_less_nat_alt sub not_less)
    then have "unat nowMs + unat delayMs < 2 ^ 64" using lt by linarith
    then have "unat (nowMs + delayMs) = unat nowMs + unat delayMs"
      using unat_add_lem [of nowMs delayMs] by simp
    with False \<open>unat nowMs + unat delayMs < 2 ^ 64\<close> show ?thesis
      by (simp add: metadataRepairDeadlineMs_def)
  qed
qed

text \<open>cache repairs are taken in turn: as many takes as there are ids visit every id once, in
  order, and leave the list as it was.\<close>

theorem cache_repair_round_robin: "take_many (length ids) ids = (ids, ids)"
  by (simp add: take_many_prefix)

text \<open>work carried over from an unprocessed snapshot is the union of both snapshots' pending ids,
  restricted to the apps of the new one, in ascending order; finished work is not carried.\<close>

theorem carry_pending_exact:
  "set (pkAddedAppIds (carryPendingSnapshotWork prev nxt processed requested)) =
     (if processed then set (pkAddedAppIds nxt)
      else (set (pkAddedAppIds prev) \<union> set (pkAddedAppIds nxt)) \<inter> set (pkAppIds nxt)) \<and>
   set (pkAppInfoRequestIds (carryPendingSnapshotWork prev nxt processed requested)) =
     (if requested then set (pkAppInfoRequestIds nxt)
      else (set (pkAppInfoRequestIds prev) \<union> set (pkAppInfoRequestIds nxt)) \<inter> set (pkAppIds nxt)) \<and>
   pkAppIds (carryPendingSnapshotWork prev nxt processed requested) = pkAppIds nxt"
  by (auto simp: carryPendingSnapshotWork_def carry_relevant_def Let_def)

end
