(* ===== verification/StatsPolicy.thy ===== *)
theory StatsPolicy
  imports Prelude
begin

text \<open>
  \<open>src/feats/stats_policy.hpp\<close>: which apps have a license of their own in the current account,
  from passively observed ownership results and package loads, with an epoch that outdates
  observations made before an account or license change. Hash maps are maps, hash sets are sets;
  the epoch is a \<open>uint64_t\<close> and wraps.
\<close>

unbundle bit_operations_syntax

section \<open>State\<close>

record stats_context =
  cxAccount :: u32
  cxEpoch :: u64

record stats_entry =
  enNative :: bool
  enLocal :: bool

record stats_store =
  ssAccount :: u32
  ssEpoch :: u64
  ssApps :: "u32 \<rightharpoonup> stats_entry"
  ssNativePackageApps :: "u32 set"
  ssPendingPackageApps :: "u32 set"

definition empty_entry :: stats_entry where
  "empty_entry = \<lparr>enNative = False, enLocal = False\<rparr>"

definition new_stats_store :: stats_store where
  "new_stats_store = \<lparr>ssAccount = 0, ssEpoch = 1, ssApps = Map.empty,
     ssNativePackageApps = {}, ssPendingPackageApps = {}\<rparr>"

section \<open>Operations\<close>

definition setAccount :: "u32 \<Rightarrow> stats_store \<Rightarrow> stats_store" where
  "setAccount account s =
     (if ssAccount s = account then s
      else
        (let adoptPending = (ssAccount s = 0 \<and> account \<noteq> 0) in
         s\<lparr>ssAccount := account, ssApps := Map.empty,
           ssNativePackageApps := (if adoptPending then ssPendingPackageApps s else {}),
           ssPendingPackageApps := {}, ssEpoch := ssEpoch s + 1\<rparr>))"

definition invalidate :: "stats_store \<Rightarrow> stats_store" where
  "invalidate s =
     s\<lparr>ssApps := Map.empty, ssNativePackageApps := {},
       ssPendingPackageApps := (if ssAccount s \<noteq> 0 then {} else ssPendingPackageApps s),
       ssEpoch := ssEpoch s + 1\<rparr>"

definition stats_context_of :: "stats_store \<Rightarrow> stats_context" where
  "stats_context_of s = \<lparr>cxAccount = ssAccount s, cxEpoch = ssEpoch s\<rparr>"

definition observe ::
  "u32 \<Rightarrow> u32 \<Rightarrow> bool \<Rightarrow> 32 word \<Rightarrow> bool \<Rightarrow> bool \<Rightarrow> u64 \<Rightarrow> stats_store \<Rightarrow> stats_store" where
  "observe account app success package owns expired expectedEpoch s =
     (if account = 0 \<or> account \<noteq> ssAccount s \<or> expectedEpoch \<noteq> ssEpoch s \<or> app = 0 then s
      else
        (let native = (success \<and> sint package > 0);
             entry = (case ssApps s app of None \<Rightarrow> empty_entry | Some e \<Rightarrow> e);
             native' = (enNative entry \<or> native)
         in s\<lparr>ssApps := (ssApps s)(app \<mapsto>
              \<lparr>enNative = native',
               enLocal = (\<not> native' \<and> success \<and> package = 0 \<and> owns \<and> \<not> expired)\<rparr>)\<rparr>))"

definition observePackage :: "u32 \<Rightarrow> u32 \<Rightarrow> stats_store \<Rightarrow> stats_store" where
  "observePackage package app s =
     (if package = 0 \<or> app = 0 then s
      else if ssAccount s = 0 then s\<lparr>ssPendingPackageApps := insert app (ssPendingPackageApps s)\<rparr>
      else s\<lparr>ssNativePackageApps := insert app (ssNativePackageApps s)\<rparr>)"

definition observePackageIn :: "stats_context \<Rightarrow> u32 \<Rightarrow> u32 \<Rightarrow> stats_store \<Rightarrow> stats_store" where
  "observePackageIn expected package app s =
     (if package = 0 \<or> app = 0 \<or> cxAccount expected = 0 \<or> cxAccount expected \<noteq> ssAccount s \<or>
         cxEpoch expected \<noteq> ssEpoch s then s
      else s\<lparr>ssNativePackageApps := insert app (ssNativePackageApps s)\<rparr>)"

definition replacePackageApps :: "stats_context \<Rightarrow> u32 list \<Rightarrow> stats_store \<Rightarrow> stats_store" where
  "replacePackageApps expected apps s =
     (if cxAccount expected \<noteq> ssAccount s \<or> cxEpoch expected \<noteq> ssEpoch s then s
      else if ssAccount s = 0
      then s\<lparr>ssPendingPackageApps := set (drop_zero apps)\<rparr>
      else s\<lparr>ssNativePackageApps := set (drop_zero apps)\<rparr>)"

definition localEpoch :: "u32 \<Rightarrow> u32 \<Rightarrow> stats_store \<Rightarrow> u64" where
  "localEpoch account app s =
     (if account = 0 \<or> account \<noteq> ssAccount s then 0
      else if app \<in> ssNativePackageApps s then 0
      else case ssApps s app of
        None \<Rightarrow> 0
      | Some e \<Rightarrow> if \<not> enLocal e then 0 else ssEpoch s)"

definition hasNativeLicense :: "u32 \<Rightarrow> u32 \<Rightarrow> stats_store \<Rightarrow> bool" where
  "hasNativeLicense account app s =
     (if account = 0 \<or> account \<noteq> ssAccount s then False
      else (case ssApps s app of None \<Rightarrow> False | Some e \<Rightarrow> enNative e) \<or> app \<in> ssNativePackageApps s)"

definition isSelf :: "u64 \<Rightarrow> u32 \<Rightarrow> bool" where
  "isSelf target account \<longleftrightarrow>
     account \<noteq> 0 \<and> (target = 0 \<or> target = (0x0110000100000000 OR ucast account))"

section \<open>Runs\<close>

datatype stats_op =
    SetAccount u32 | Invalidate
  | Observe u32 u32 bool "32 word" bool bool u64
  | ObservePackage u32 u32 | ObservePackageIn stats_context u32 u32
  | ReplacePackageApps stats_context "u32 list"

fun stats_step :: "stats_op \<Rightarrow> stats_store \<Rightarrow> stats_store" where
  "stats_step (SetAccount a) s = setAccount a s"
| "stats_step Invalidate s = invalidate s"
| "stats_step (Observe a app ok p owns ex ep) s = observe a app ok p owns ex ep s"
| "stats_step (ObservePackage p app) s = observePackage p app s"
| "stats_step (ObservePackageIn c p app) s = observePackageIn c p app s"
| "stats_step (ReplacePackageApps c apps) s = replacePackageApps c apps s"

lemmas stats_defs = setAccount_def invalidate_def observe_def observePackage_def
  observePackageIn_def replacePackageApps_def Let_def

text \<open>
  No entry is both native and local; before login nothing is known, after login nothing is
  pending; app 0 is never recorded.
\<close>

definition stats_inv :: "stats_store \<Rightarrow> bool" where
  "stats_inv s \<longleftrightarrow>
     (\<forall>app e. ssApps s app = Some e \<longrightarrow> app \<noteq> 0 \<and> \<not> (enNative e \<and> enLocal e)) \<and>
     (ssAccount s = 0 \<longrightarrow> ssApps s = Map.empty \<and> ssNativePackageApps s = {}) \<and>
     (ssAccount s \<noteq> 0 \<longrightarrow> ssPendingPackageApps s = {}) \<and>
     0 \<notin> ssNativePackageApps s \<and> 0 \<notin> ssPendingPackageApps s"

interpretation stats_machine: invariant_machine stats_step "\<lambda>s. s = new_stats_store" stats_inv
proof
  show "stats_inv s" if "s = new_stats_store" for s
    using that by (simp add: stats_inv_def new_stats_store_def)
  show "stats_inv (stats_step x s)" if "stats_inv s" for x s
    using that by (cases x) (auto simp: stats_inv_def stats_defs)
qed

text \<open>How often a run changed the epoch.\<close>

fun bumps :: "stats_op list \<Rightarrow> stats_store \<Rightarrow> nat" where
  "bumps [] s = 0"
| "bumps (x # xs) s =
     (case x of SetAccount a \<Rightarrow> if a = ssAccount s then 0 else 1 | Invalidate \<Rightarrow> 1 | _ \<Rightarrow> 0)
       + bumps xs (stats_step x s)"

lemma epoch_step:
  "ssEpoch (stats_step x s) = ssEpoch s +
     of_nat (case x of SetAccount a \<Rightarrow> if a = ssAccount s then 0 else 1 | Invalidate \<Rightarrow> 1 | _ \<Rightarrow> 0)"
  by (cases x) (auto simp: stats_defs)

lemma epoch_run: "ssEpoch (run_ops stats_step xs s) = ssEpoch s + of_nat (bumps xs s)"
  by (induction xs arbitrary: s) (auto simp: epoch_step)

section \<open>Properties\<close>

text \<open>C?: in every reachable state an app with local statistics has no native license: a non-zero
  local epoch is the current epoch and excludes \<open>hasNativeLicense\<close>.\<close>

theorem local_epoch_excludes_native:
  assumes "s = run_ops stats_step ops new_stats_store" "localEpoch account app s \<noteq> 0"
  shows "localEpoch account app s = ssEpoch s \<and> account = ssAccount s \<and> app \<noteq> 0 \<and>
     \<not> hasNativeLicense account app s"
proof -
  have "stats_inv s" using assms(1) stats_machine.inv_reachable by simp
  then show ?thesis
    using assms(2) by (auto simp: localEpoch_def hasNativeLicense_def stats_inv_def
        split: if_splits option.splits)
qed

text \<open>C?: evidence gathered in an outdated session is ignored: after any operations that changed the
  account or invalidated (fewer than \<open>2^64\<close> times), observations carrying the old context leave
  the store as it is.\<close>

theorem stale_context_ignored:
  assumes "s' = run_ops stats_step ops s" "0 < bumps ops s" "bumps ops s < 2 ^ 64"
    and "c = stats_context_of s"
  shows "observePackageIn c p app s' = s' \<and> replacePackageApps c apps s' = s' \<and>
     observe (cxAccount c) app ok pk owns ex (cxEpoch c) s' = s'"
proof -
  have "(of_nat (bumps ops s) :: u64) \<noteq> 0"
    using assms(2,3) by (simp add: word_of_nat_eq_0_iff nat_dvd_not_less)
  then have "ssEpoch s' \<noteq> ssEpoch s" using assms(1) by (simp add: epoch_run)
  then show ?thesis
    by (simp add: observePackageIn_def replacePackageApps_def observe_def stats_context_of_def assms(4))
qed

text \<open>a package loaded before login counts for the account that logs in, and a native license once
  observed survives every later observation until the session changes.\<close>

theorem pending_license_adopted:
  assumes "s = run_ops stats_step ops new_stats_store" "ssAccount s = 0"
    and "package \<noteq> 0" "app \<noteq> 0" "account \<noteq> 0"
  shows "hasNativeLicense account app (setAccount account (observePackage package app s)) \<and>
     localEpoch account app (observe account app ok pk owns ex ep
        (setAccount account (observePackage package app s))) = 0"
proof -
  let ?t = "setAccount account (observePackage package app s)"
  have t: "ssAccount ?t = account" "app \<in> ssNativePackageApps ?t"
    using assms by (simp_all add: setAccount_def observePackage_def Let_def)
  have "app \<in> ssNativePackageApps (observe account app ok pk owns ex ep ?t)"
    "ssAccount (observe account app ok pk owns ex ep ?t) = account"
    using t by (simp_all add: observe_def Let_def)
  then show ?thesis using t assms(5) by (simp add: hasNativeLicense_def localEpoch_def)
qed

section \<open>Witnesses\<close>

lemma local_epoch_excludes_native_witness:
  "let s = run_ops stats_step [SetAccount 7, Observe 7 440 True 0 True False 2] new_stats_store
   in localEpoch 7 440 s = ssEpoch s \<and> 7 = ssAccount s \<and> (440::u32) \<noteq> 0 \<and> \<not> hasNativeLicense 7 440 s"
  unfolding Let_def
  by (rule local_epoch_excludes_native [OF refl])
    (simp add: stats_defs localEpoch_def new_stats_store_def empty_entry_def)

lemma stale_context_ignored_witness:
  "let s = run_ops stats_step [SetAccount 7] new_stats_store
   in observePackageIn (stats_context_of s) 5 440 (invalidate s) = invalidate s"
  unfolding Let_def
  by (rule stale_context_ignored [OF _ _ _ refl, where ops = "[Invalidate]", THEN conjunct1]) simp_all

lemma pending_license_adopted_witness:
  "hasNativeLicense 7 440 (setAccount 7 (observePackage 5 440 new_stats_store))"
  by (rule pending_license_adopted [where ops = "[]", THEN conjunct1]) (simp_all add: new_stats_store_def)

end
