(* ===== verification/LibraryRemoval.thy ===== *)
theory LibraryRemoval
  imports Prelude
begin

text \<open>
  \<open>src/feats/libraryremoval_policy.hpp\<close>: the bounded queue that carries removals and restorations
  of library entries from any thread to Steam's UI thread. Every method runs under the queue's
  mutex, so an execution is a sequence of whole operations; the hash sets are sets, the deque is
  a list with its front first.
\<close>

section \<open>Decoding the ownership offset\<close>

definition hiddenOwnershipFlags :: "u32 \<Rightarrow> u32" where
  "hiddenOwnershipFlags flags = 0"

definition deriveOwnershipOffset :: "bytes \<Rightarrow> nat option" where
  "deriveOwnershipOffset instruction =
     (if length instruction < 3 \<or> instruction ! 0 \<noteq> 0x8B \<or>
         (instruction ! 1 \<noteq> 0x41 \<and> instruction ! 1 \<noteq> 0x42) then None
      else
        (let offset = unat (instruction ! 2) in
         if offset = 0 \<or> offset > 0x100 \<or> offset mod 4 \<noteq> 0 then None else Some offset))"

section \<open>State\<close>

datatype action = Remove | Restore

record work =
  wkAppId :: u32
  wkAction :: action

record removal_queue =
  lqCapacity :: nat
  lqClosed :: bool
  lqReassert :: bool
  lqPending :: "work list"
  lqPendingRemovals :: "u32 set"
  lqPendingRestores :: "u32 set"
  lqDesired :: "u32 set"
  lqEffective :: "u32 set"
  lqReady :: "u32 set"
  lqInFlight :: "work option"

definition new_removal_queue :: "nat \<Rightarrow> removal_queue" where
  "new_removal_queue capacity = \<lparr>lqCapacity = capacity, lqClosed = False, lqReassert = False,
     lqPending = [], lqPendingRemovals = {}, lqPendingRestores = {}, lqDesired = {},
     lqEffective = {}, lqReady = {}, lqInFlight = None\<rparr>"

section \<open>Private operations\<close>

definition pendingSet :: "action \<Rightarrow> removal_queue \<Rightarrow> u32 set" where
  "pendingSet act q = (if act = Remove then lqPendingRemovals q else lqPendingRestores q)"

definition setPendingSet :: "action \<Rightarrow> u32 set \<Rightarrow> removal_queue \<Rightarrow> removal_queue" where
  "setPendingSet act ids q =
     (if act = Remove then q\<lparr>lqPendingRemovals := ids\<rparr> else q\<lparr>lqPendingRestores := ids\<rparr>)"

definition erasePending :: "u32 \<Rightarrow> action \<Rightarrow> removal_queue \<Rightarrow> removal_queue" where
  "erasePending appId act q =
     (if appId \<notin> pendingSet act q then q
      else (setPendingSet act (pendingSet act q - {appId}) q)
             \<lparr>lqPending := filter (\<lambda>w. \<not> (wkAppId w = appId \<and> wkAction w = act)) (lqPending q)\<rparr>)"

definition enqueueWork :: "work \<Rightarrow> removal_queue \<Rightarrow> removal_queue" where
  "enqueueWork w q =
     (if wkAppId w \<in> pendingSet (wkAction w) q \<or> lqInFlight q = Some w then q
      else (setPendingSet (wkAction w) (insert (wkAppId w) (pendingSet (wkAction w) q)) q)
             \<lparr>lqPending := lqPending q @ [w]\<rparr>)"

definition reconcile :: "u32 \<Rightarrow> removal_queue \<Rightarrow> removal_queue" where
  "reconcile appId q =
     (let removeInFlight = (lqInFlight q = Some \<lparr>wkAppId = appId, wkAction = Remove\<rparr>);
          restoreInFlight = (lqInFlight q = Some \<lparr>wkAppId = appId, wkAction = Restore\<rparr>)
      in if appId \<in> lqDesired q
         then (let q1 = erasePending appId Restore (q\<lparr>lqReady := lqReady q - {appId}\<rparr>)
               in if appId \<notin> lqEffective q1 \<or> restoreInFlight
                  then enqueueWork \<lparr>wkAppId = appId, wkAction = Remove\<rparr> q1 else q1)
         else (let q1 = erasePending appId Remove q
               in if appId \<in> lqReady q1 \<and> (appId \<in> lqEffective q1 \<or> removeInFlight)
                  then enqueueWork \<lparr>wkAppId = appId, wkAction = Restore\<rparr> q1 else q1))"

section \<open>Public operations\<close>

definition push :: "u32 \<Rightarrow> removal_queue \<Rightarrow> bool \<times> removal_queue" where
  "push appId q =
     (if appId = 0 \<or> lqClosed q then (False, q)
      else
        (let newlyDesired = (appId \<notin> lqDesired q);
             q1 = q\<lparr>lqDesired := insert appId (lqDesired q)\<rparr>
         in if newlyDesired \<and> card (lqDesired q1) > lqCapacity q
            then (False, q1\<lparr>lqDesired := lqDesired q1 - {appId}\<rparr>)
            else (newlyDesired, reconcile appId q1)))"

definition cancel :: "u32 \<Rightarrow> removal_queue \<Rightarrow> removal_queue" where
  "cancel appId q = reconcile appId (q\<lparr>lqDesired := lqDesired q - {appId}\<rparr>)"

definition readyToRestore :: "u32 \<Rightarrow> removal_queue \<Rightarrow> removal_queue" where
  "readyToRestore appId q =
     (if lqClosed q \<or> appId = 0 \<or> appId \<in> lqDesired q then q
      else reconcile appId (q\<lparr>lqReady := insert appId (lqReady q)\<rparr>))"

definition work_current :: "work \<Rightarrow> removal_queue \<Rightarrow> bool" where
  "work_current w q =
     (if wkAction w = Remove then wkAppId w \<in> lqDesired q
      else wkAppId w \<notin> lqDesired q \<and> wkAppId w \<in> lqReady q)"

definition reassert :: "removal_queue \<Rightarrow> removal_queue" where
  "reassert q =
     (if \<not> lqReassert q then q
      else (fold (\<lambda>a q. if a \<in> lqDesired q
                       then enqueueWork \<lparr>wkAppId = a, wkAction = Remove\<rparr> q else q)
              (sorted_list_of_set (lqEffective q)) q)\<lparr>lqReassert := False\<rparr>)"

text \<open>The popping loop of \<open>drainOne\<close>; its first argument is the deque.\<close>

fun drain_loop :: "work list \<Rightarrow> removal_queue \<Rightarrow> work option \<times> removal_queue" where
  "drain_loop [] q = (None, q\<lparr>lqPending := []\<rparr>)"
| "drain_loop (w # rest) q =
     (let q1 = (setPendingSet (wkAction w) (pendingSet (wkAction w) q - {wkAppId w}) q)
                 \<lparr>lqPending := rest\<rparr>
      in if \<not> work_current w q1 then drain_loop rest q1
         else (Some w, q1\<lparr>lqInFlight := Some w\<rparr>))"

definition drainOne :: "removal_queue \<Rightarrow> work option \<times> removal_queue" where
  "drainOne q =
     (if lqClosed q \<or> lqInFlight q \<noteq> None then (None, q)
      else (let q1 = reassert q in drain_loop (lqPending q1) q1))"

definition begin_work :: "work \<Rightarrow> removal_queue \<Rightarrow> bool \<times> removal_queue" where
  "begin_work w q =
     (if lqClosed q \<or> lqInFlight q \<noteq> Some w then (False, q)
      else if \<not> work_current w q then (False, reconcile (wkAppId w) (q\<lparr>lqInFlight := None\<rparr>))
      else (True, q\<lparr>lqEffective := (if wkAction w = Remove then insert (wkAppId w) (lqEffective q)
                                  else lqEffective q - {wkAppId w})\<rparr>))"

definition finish_work :: "work \<Rightarrow> removal_queue \<Rightarrow> removal_queue" where
  "finish_work w q =
     (let q1 = (if lqInFlight q = Some w then q\<lparr>lqInFlight := None\<rparr> else q);
          q2 = (if wkAction w = Restore \<and> wkAppId w \<notin> lqDesired q1
                then q1\<lparr>lqReady := lqReady q1 - {wkAppId w}\<rparr> else q1)
      in reconcile (wkAppId w) q2)"

definition retry_work :: "work \<Rightarrow> removal_queue \<Rightarrow> removal_queue" where
  "retry_work w q =
     reconcile (wkAppId w) (if lqInFlight q = Some w then q\<lparr>lqInFlight := None\<rparr> else q)"

definition appliedSnapshot :: "removal_queue \<Rightarrow> u32 list" where
  "appliedSnapshot q =
     sorted_list_of_set {a \<in> lqEffective q. \<not> lqClosed q \<and> a \<in> lqDesired q}"

definition desiredRemoved :: "u32 \<Rightarrow> removal_queue \<Rightarrow> bool" where
  "desiredRemoved appId q \<longleftrightarrow> \<not> lqClosed q \<and> appId \<in> lqDesired q"

definition requestFullReassert :: "removal_queue \<Rightarrow> removal_queue" where
  "requestFullReassert q = (if \<not> lqClosed q then q\<lparr>lqReassert := True\<rparr> else q)"

definition close_queue :: "removal_queue \<Rightarrow> removal_queue" where
  "close_queue q = (new_removal_queue (lqCapacity q))\<lparr>lqClosed := True\<rparr>"

definition reopen_queue :: "removal_queue \<Rightarrow> removal_queue" where
  "reopen_queue q = new_removal_queue (lqCapacity q)"

section \<open>Invariant\<close>

definition pend :: "removal_queue \<Rightarrow> u32 \<Rightarrow> action \<Rightarrow> bool" where
  "pend q a act \<longleftrightarrow> \<lparr>wkAppId = a, wkAction = act\<rparr> \<in> set (lqPending q)"

definition in_flight :: "removal_queue \<Rightarrow> u32 \<Rightarrow> action \<Rightarrow> bool" where
  "in_flight q a act \<longleftrightarrow> lqInFlight q = Some \<lparr>wkAppId = a, wkAction = act\<rparr>"

text \<open>The index sets are exactly the deque's content, without repetition.\<close>

definition index_ok :: "removal_queue \<Rightarrow> bool" where
  "index_ok q \<longleftrightarrow> distinct (lqPending q) \<and> (\<forall>a act. a \<in> pendingSet act q \<longleftrightarrow> pend q a act)"

text \<open>What is scheduled for one app: removals only for desired apps, restorations only for others,
  and no app that still needs a change is left without one.\<close>

definition scheduled_ok :: "removal_queue \<Rightarrow> u32 \<Rightarrow> bool" where
  "scheduled_ok q a \<longleftrightarrow>
     (pend q a Remove \<longrightarrow> a \<in> lqDesired q) \<and>
     (pend q a Restore \<longrightarrow> a \<notin> lqDesired q) \<and>
     (a \<in> lqDesired q \<and> a \<notin> lqEffective q \<longrightarrow> pend q a Remove \<or> in_flight q a Remove) \<and>
     (a \<notin> lqDesired q \<and> a \<in> lqReady q \<and> a \<in> lqEffective q \<longrightarrow>
        pend q a Restore \<or> in_flight q a Restore) \<and>
     (a \<in> lqDesired q \<longrightarrow> a \<notin> lqReady q)"

definition removal_inv :: "removal_queue \<Rightarrow> bool" where
  "removal_inv q \<longleftrightarrow> index_ok q \<and> (\<forall>a. scheduled_ok q a) \<and>
     card (lqDesired q) \<le> lqCapacity q \<and> 0 \<notin> lqDesired q \<and>
     (lqClosed q \<longrightarrow> lqPending q = [] \<and> lqDesired q = {} \<and> lqEffective q = {} \<and> lqReady q = {} \<and>
        lqInFlight q = None)"

section \<open>Effect of the private operations\<close>

lemma work_eq_iff: "w = \<lparr>wkAppId = a, wkAction = act\<rparr> \<longleftrightarrow> wkAppId w = a \<and> wkAction w = act"
  by (cases w) simp

lemma setPendingSet_frame [simp, frame_simps]:
  "lqCapacity (setPendingSet act s q) = lqCapacity q" "lqClosed (setPendingSet act s q) = lqClosed q"
  "lqReassert (setPendingSet act s q) = lqReassert q" "lqPending (setPendingSet act s q) = lqPending q"
  "lqDesired (setPendingSet act s q) = lqDesired q" "lqEffective (setPendingSet act s q) = lqEffective q"
  "lqReady (setPendingSet act s q) = lqReady q" "lqInFlight (setPendingSet act s q) = lqInFlight q"
  by (simp_all add: setPendingSet_def)

lemma pendingSet_set [simp]:
  "pendingSet b (setPendingSet act s q) = (if b = act then s else pendingSet b q)"
  by (cases b; cases act) (simp_all add: pendingSet_def setPendingSet_def)

lemma pendingSet_pending [simp]:
  "pendingSet b (q\<lparr>lqPending := p\<rparr>) = pendingSet b q" "pendingSet b (q\<lparr>lqReady := r\<rparr>) = pendingSet b q"
  "pendingSet b (q\<lparr>lqDesired := r\<rparr>) = pendingSet b q" "pendingSet b (q\<lparr>lqEffective := r\<rparr>) = pendingSet b q"
  "pendingSet b (q\<lparr>lqInFlight := i\<rparr>) = pendingSet b q" "pendingSet b (q\<lparr>lqReassert := c\<rparr>) = pendingSet b q"
  by (simp_all add: pendingSet_def)

lemma pend_frame [simp]:
  "pend (q\<lparr>lqReady := r\<rparr>) = pend q" "pend (q\<lparr>lqDesired := r\<rparr>) = pend q"
  "pend (q\<lparr>lqEffective := r\<rparr>) = pend q" "pend (q\<lparr>lqInFlight := i\<rparr>) = pend q"
  "pend (q\<lparr>lqReassert := c\<rparr>) = pend q"
  by (simp_all add: pend_def fun_eq_iff)

lemma index_ok_frame [simp]:
  "index_ok (q\<lparr>lqReady := r\<rparr>) = index_ok q" "index_ok (q\<lparr>lqDesired := r\<rparr>) = index_ok q"
  "index_ok (q\<lparr>lqEffective := r\<rparr>) = index_ok q" "index_ok (q\<lparr>lqInFlight := i\<rparr>) = index_ok q"
  "index_ok (q\<lparr>lqReassert := c\<rparr>) = index_ok q"
  by (simp_all add: index_ok_def)

lemma erasePending_frame [simp, frame_simps]:
  "lqCapacity (erasePending a act q) = lqCapacity q" "lqClosed (erasePending a act q) = lqClosed q"
  "lqReassert (erasePending a act q) = lqReassert q" "lqDesired (erasePending a act q) = lqDesired q"
  "lqEffective (erasePending a act q) = lqEffective q" "lqReady (erasePending a act q) = lqReady q"
  "lqInFlight (erasePending a act q) = lqInFlight q"
  by (simp_all add: erasePending_def)

lemma enqueueWork_frame [simp, frame_simps]:
  "lqCapacity (enqueueWork w q) = lqCapacity q" "lqClosed (enqueueWork w q) = lqClosed q"
  "lqReassert (enqueueWork w q) = lqReassert q" "lqDesired (enqueueWork w q) = lqDesired q"
  "lqEffective (enqueueWork w q) = lqEffective q" "lqReady (enqueueWork w q) = lqReady q"
  "lqInFlight (enqueueWork w q) = lqInFlight q"
  by (simp_all add: enqueueWork_def)

lemma erasePending_pend:
  assumes "index_ok q"
  shows "index_ok (erasePending a act q)"
    "pend (erasePending a act q) b act' \<longleftrightarrow> pend q b act' \<and> \<not> (b = a \<and> act' = act)"
proof -
  have "pend q a act \<longleftrightarrow> a \<in> pendingSet act q" using assms by (simp add: index_ok_def)
  then show p: "pend (erasePending a act q) b act' \<longleftrightarrow> pend q b act' \<and> \<not> (b = a \<and> act' = act)" for b act'
    by (auto simp: erasePending_def pend_def)
  show "index_ok (erasePending a act q)"
    unfolding index_ok_def p using assms by (auto simp: index_ok_def erasePending_def)
qed

lemma enqueueWork_pend:
  assumes "index_ok q"
  shows "index_ok (enqueueWork \<lparr>wkAppId = a, wkAction = act\<rparr> q)"
    "pend (enqueueWork \<lparr>wkAppId = a, wkAction = act\<rparr> q) b act' \<longleftrightarrow>
       pend q b act' \<or> (b = a \<and> act' = act \<and> \<not> in_flight q a act)"
proof -
  have k: "pend q a act \<longleftrightarrow> a \<in> pendingSet act q" using assms by (simp add: index_ok_def)
  show p: "pend (enqueueWork \<lparr>wkAppId = a, wkAction = act\<rparr> q) b act' \<longleftrightarrow>
       pend q b act' \<or> (b = a \<and> act' = act \<and> \<not> in_flight q a act)" for b act'
    using k by (auto simp: enqueueWork_def pend_def in_flight_def)
  show "index_ok (enqueueWork \<lparr>wkAppId = a, wkAction = act\<rparr> q)"
    unfolding index_ok_def p using assms
    by (auto simp: index_ok_def enqueueWork_def in_flight_def pend_def)
qed

lemma reconcile_frame [simp, frame_simps]:
  "lqCapacity (reconcile a q) = lqCapacity q" "lqClosed (reconcile a q) = lqClosed q"
  "lqReassert (reconcile a q) = lqReassert q" "lqDesired (reconcile a q) = lqDesired q"
  "lqEffective (reconcile a q) = lqEffective q" "lqInFlight (reconcile a q) = lqInFlight q"
  "lqReady (reconcile a q) = (if a \<in> lqDesired q then lqReady q - {a} else lqReady q)"
  by (simp_all add: reconcile_def Let_def)

lemma in_flight_frame [simp]:
  "in_flight (erasePending a act q) = in_flight q" "in_flight (enqueueWork w q) = in_flight q"
  "in_flight (reconcile a q) = in_flight q" "in_flight (q\<lparr>lqReady := r\<rparr>) = in_flight q"
  "in_flight (q\<lparr>lqDesired := r\<rparr>) = in_flight q" "in_flight (q\<lparr>lqEffective := r\<rparr>) = in_flight q"
  by (simp_all add: in_flight_def fun_eq_iff)

lemma reconcile_index: "index_ok q \<Longrightarrow> index_ok (reconcile a q)"
  by (simp add: reconcile_def Let_def erasePending_pend enqueueWork_pend)

lemma reconcile_pend_other:
  "index_ok q \<Longrightarrow> b \<noteq> a \<Longrightarrow> pend (reconcile a q) b act = pend q b act"
  by (simp add: reconcile_def Let_def erasePending_pend enqueueWork_pend)

text \<open>Reconciling an app schedules exactly what that app needs, whatever was queued for it, and
  leaves every other app alone.\<close>

lemma reconcile_self:
  assumes "index_ok q"
  shows "scheduled_ok (reconcile a q) a"
proof (cases "a \<in> lqDesired q")
  case True
  then show ?thesis using assms
    by (auto simp: scheduled_ok_def reconcile_def Let_def erasePending_pend enqueueWork_pend)
next
  case False
  then show ?thesis using assms
    by (auto simp: scheduled_ok_def reconcile_def Let_def erasePending_pend enqueueWork_pend)
qed

lemma reconcile_other:
  "index_ok q \<Longrightarrow> b \<noteq> a \<Longrightarrow> scheduled_ok (reconcile a q) b = scheduled_ok q b"
  by (simp add: scheduled_ok_def reconcile_pend_other)

lemma reconcile_scheduled:
  assumes "index_ok q" "\<And>b. b \<noteq> a \<Longrightarrow> scheduled_ok q b"
  shows "scheduled_ok (reconcile a q) b"
  using reconcile_self [OF assms(1)] reconcile_other [OF assms(1)] assms(2) by (cases "b = a") auto

section \<open>Every operation keeps the invariant\<close>

lemma removal_invD:
  "removal_inv q \<Longrightarrow> index_ok q" "removal_inv q \<Longrightarrow> scheduled_ok q a"
  "removal_inv q \<Longrightarrow> card (lqDesired q) \<le> lqCapacity q" "removal_inv q \<Longrightarrow> 0 \<notin> lqDesired q"
  by (simp_all add: removal_inv_def)

lemma removal_inv_closed:
  "removal_inv q \<Longrightarrow> lqClosed q \<Longrightarrow> lqPending q = [] \<and> lqDesired q = {} \<and> lqEffective q = {} \<and>
     lqReady q = {} \<and> lqInFlight q = None"
  unfolding removal_inv_def by (elim conjE) (rule mp)

text \<open>On a closed queue reconciling has nothing to do.\<close>

lemma reconcile_empty:
  "lqDesired q = {} \<Longrightarrow> lqReady q = {} \<Longrightarrow> index_ok q \<Longrightarrow> lqPending q = [] \<Longrightarrow> reconcile a q = q"
  by (auto simp: reconcile_def Let_def erasePending_def index_ok_def pend_def)

text \<open>An operation that changes one app and then reconciles it keeps the invariant.\<close>

lemma reconcile_inv:
  assumes "index_ok q" "\<And>b. b \<noteq> a \<Longrightarrow> scheduled_ok q b"
    and "card (lqDesired q) \<le> lqCapacity q" "0 \<notin> lqDesired q"
    and "lqClosed q \<Longrightarrow> lqPending q = [] \<and> lqDesired q = {} \<and> lqEffective q = {} \<and> lqReady q = {} \<and>
        lqInFlight q = None"
  shows "removal_inv (reconcile a q)"
proof (cases "lqClosed q")
  case True
  with assms(5) have c: "lqPending q = []" "lqDesired q = {}" "lqEffective q = {}" "lqReady q = {}"
    "lqInFlight q = None" by auto
  have "reconcile a q = q" using c assms(1) by (simp add: reconcile_empty)
  moreover have "scheduled_ok q b" for b using c by (simp add: scheduled_ok_def pend_def)
  ultimately show ?thesis using assms c by (simp add: removal_inv_def)
next
  case False
  then show ?thesis
    using assms reconcile_scheduled [OF assms(1,2)]
    by (simp add: removal_inv_def reconcile_index)
qed

lemma scheduled_other_fields:
  assumes "scheduled_ok q b" "lqPending q' = lqPending q"
    and "b \<in> lqDesired q' \<longleftrightarrow> b \<in> lqDesired q" "b \<in> lqEffective q' \<longleftrightarrow> b \<in> lqEffective q"
    and "b \<in> lqReady q' \<longleftrightarrow> b \<in> lqReady q" "\<And>act. in_flight q b act \<Longrightarrow> in_flight q' b act"
  shows "scheduled_ok q' b"
  using assms by (auto simp: scheduled_ok_def pend_def)

lemma push_inv:
  assumes inv: "removal_inv q"
  shows "removal_inv (snd (push a q))"
proof (cases "a = 0 \<or> lqClosed q")
  case False
  let ?q1 = "q\<lparr>lqDesired := insert a (lqDesired q)\<rparr>"
  note I = removal_invD [OF inv]
  show ?thesis
  proof (cases "a \<notin> lqDesired q \<and> card (lqDesired ?q1) > lqCapacity q")
    case True
    then have "a \<notin> lqDesired q" "lqCapacity q < card (insert a (lqDesired q))" by auto
    then have "snd (push a q) = q" using False by (simp add: push_def Let_def)
    then show ?thesis using inv by simp
  next
    case over: False
    have "card (lqDesired ?q1) \<le> lqCapacity q" using over I(3) by (auto simp: insert_absorb)
    moreover have "scheduled_ok ?q1 b" if "b \<noteq> a" for b
      by (rule scheduled_other_fields [OF I(2) [of b]]) (use that in auto)
    ultimately have "removal_inv (reconcile a ?q1)"
      using False I(1,4) by (intro reconcile_inv) simp_all
    then show ?thesis using False over by (auto simp: push_def Let_def)
  qed
qed (use inv in \<open>auto simp: push_def\<close>)

lemma cancel_inv:
  assumes inv: "removal_inv q"
  shows "removal_inv (cancel a q)"
proof -
  note I = removal_invD [OF inv]
  have "card (lqDesired q - {a}) \<le> lqCapacity q"
    using I(3) card_mono [of "lqDesired q" "lqDesired q - {a}"] by fastforce
  moreover have "scheduled_ok (q\<lparr>lqDesired := lqDesired q - {a}\<rparr>) b" if "b \<noteq> a" for b
    by (rule scheduled_other_fields [OF I(2) [of b]]) (use that in auto)
  ultimately show ?thesis unfolding cancel_def
    using I(1,4) inv by (intro reconcile_inv) (auto simp: removal_inv_def)
qed

lemma ready_inv:
  assumes inv: "removal_inv q"
  shows "removal_inv (readyToRestore a q)"
proof (cases "lqClosed q \<or> a = 0 \<or> a \<in> lqDesired q")
  case False
  note I = removal_invD [OF inv]
  have "scheduled_ok (q\<lparr>lqReady := insert a (lqReady q)\<rparr>) b" if "b \<noteq> a" for b
    by (rule scheduled_other_fields [OF I(2) [of b]]) (use that in auto)
  then have "removal_inv (reconcile a (q\<lparr>lqReady := insert a (lqReady q)\<rparr>))"
    using False I(1,3,4) by (intro reconcile_inv) simp_all
  then show ?thesis using False by (simp add: readyToRestore_def)
qed (use inv in \<open>auto simp: readyToRestore_def\<close>)

lemma clear_flight_scheduled:
  assumes "removal_inv q" "b \<noteq> wkAppId w" "lqInFlight q = Some w"
  shows "scheduled_ok (q\<lparr>lqInFlight := None\<rparr>) b"
proof -
  have "\<not> in_flight q b act" for act using assms(2,3) by (auto simp: in_flight_def)
  then show ?thesis
    by (intro scheduled_other_fields [OF removal_invD(2) [OF assms(1), of b]]) simp_all
qed

lemma retry_inv:
  assumes inv: "removal_inv q"
  shows "removal_inv (retry_work w q)"
proof -
  note I = removal_invD [OF inv]
  let ?q = "if lqInFlight q = Some w then q\<lparr>lqInFlight := None\<rparr> else q"
  have "scheduled_ok ?q b" if "b \<noteq> wkAppId w" for b
    using that clear_flight_scheduled [OF inv that] I(2) by simp
  moreover have "index_ok ?q" "card (lqDesired ?q) \<le> lqCapacity ?q" "0 \<notin> lqDesired ?q"
    using I(1,3,4) by simp_all
  moreover have "lqClosed ?q \<Longrightarrow> lqPending ?q = [] \<and> lqDesired ?q = {} \<and> lqEffective ?q = {} \<and>
      lqReady ?q = {} \<and> lqInFlight ?q = None"
    using removal_inv_closed [OF inv] by (cases "lqInFlight q = Some w") simp_all
  ultimately show ?thesis unfolding retry_work_def by - (rule reconcile_inv)
qed

lemma finish_inv:
  assumes inv: "removal_inv q"
  shows "removal_inv (finish_work w q)"
proof -
  note I = removal_invD [OF inv]
  let ?q1 = "if lqInFlight q = Some w then q\<lparr>lqInFlight := None\<rparr> else q"
  let ?q2 = "if wkAction w = Restore \<and> wkAppId w \<notin> lqDesired ?q1
                then ?q1\<lparr>lqReady := lqReady ?q1 - {wkAppId w}\<rparr> else ?q1"
  have "scheduled_ok ?q2 b" if b: "b \<noteq> wkAppId w" for b
  proof -
    have "scheduled_ok ?q1 b" using b clear_flight_scheduled [OF inv b] I(2) by simp
    then show ?thesis using b by (auto simp: scheduled_ok_def)
  qed
  moreover have "index_ok ?q2" using I(1) by simp
  moreover have "card (lqDesired ?q2) \<le> lqCapacity ?q2" "0 \<notin> lqDesired ?q2" using I(3,4) by simp_all
  moreover have "lqClosed ?q2 \<Longrightarrow> lqPending ?q2 = [] \<and> lqDesired ?q2 = {} \<and> lqEffective ?q2 = {} \<and>
      lqReady ?q2 = {} \<and> lqInFlight ?q2 = None"
    using removal_inv_closed [OF inv] by (cases "lqInFlight q = Some w") (simp_all split: if_splits)
  ultimately show ?thesis unfolding finish_work_def Let_def by - (rule reconcile_inv)
qed

lemma begin_inv:
  assumes inv: "removal_inv q"
  shows "removal_inv (snd (begin_work w q))"
proof (cases "lqClosed q \<or> lqInFlight q \<noteq> Some w")
  case False
  note I = removal_invD [OF inv]
  show ?thesis
  proof (cases "work_current w q")
    case stale: False
    have "removal_inv (reconcile (wkAppId w) (q\<lparr>lqInFlight := None\<rparr>))"
      using False I(1,3,4) clear_flight_scheduled [OF inv] by (intro reconcile_inv) simp_all
    then show ?thesis using False stale by (simp add: begin_work_def)
  next
    case True
    let ?eff = "if wkAction w = Remove then insert (wkAppId w) (lqEffective q)
                else lqEffective q - {wkAppId w}"
    have "scheduled_ok (q\<lparr>lqEffective := ?eff\<rparr>) b" for b
    proof (cases "b = wkAppId w")
      case b: True
      have s: "scheduled_ok q b" by (rule I(2))
      show ?thesis
      proof (cases "wkAction w")
        case Remove
        then have "b \<in> lqDesired q" using True b by (simp add: work_current_def)
        then show ?thesis using s Remove b by (simp add: scheduled_ok_def)
      next
        case Restore
        then have "b \<notin> lqDesired q" using True b by (simp add: work_current_def)
        then show ?thesis using s Restore b by (simp add: scheduled_ok_def)
      qed
    next
      case b: False
      show ?thesis by (rule scheduled_other_fields [OF I(2) [of b]]) (use b in simp_all)
    qed
    then have "removal_inv (q\<lparr>lqEffective := ?eff\<rparr>)"
      using False I(1,3,4) by (simp add: removal_inv_def)
    then show ?thesis using False True by (simp add: begin_work_def)
  qed
qed (use inv in \<open>simp add: begin_work_def\<close>)

lemma enqueue_remove_inv:
  assumes inv: "removal_inv q" and a: "a \<in> lqDesired q"
  shows "removal_inv (enqueueWork \<lparr>wkAppId = a, wkAction = Remove\<rparr> q)"
proof -
  note I = removal_invD [OF inv]
  have open': "\<not> lqClosed q" using removal_inv_closed [OF inv] a by auto
  have "scheduled_ok (enqueueWork \<lparr>wkAppId = a, wkAction = Remove\<rparr> q) b" for b
    using I(2) [of b] a unfolding scheduled_ok_def enqueueWork_pend(2) [OF I(1)] by auto
  then show ?thesis using I(1,3,4) open' by (simp add: removal_inv_def enqueueWork_pend)
qed

definition reassert_one :: "u32 \<Rightarrow> removal_queue \<Rightarrow> removal_queue" where
  "reassert_one a q =
     (if a \<in> lqDesired q then enqueueWork \<lparr>wkAppId = a, wkAction = Remove\<rparr> q else q)"

lemma reassert_one_facts:
  "removal_inv q \<Longrightarrow> removal_inv (reassert_one a q)"
  "lqDesired (reassert_one a q) = lqDesired q" "lqEffective (reassert_one a q) = lqEffective q"
  "lqInFlight (reassert_one a q) = lqInFlight q" "lqClosed (reassert_one a q) = lqClosed q"
  "lqReady (reassert_one a q) = lqReady q"
  "length (lqPending (reassert_one a q)) \<le> Suc (length (lqPending q))"
  by (simp_all add: reassert_one_def enqueue_remove_inv) (simp add: enqueueWork_def)

lemma fold_reassert:
  "removal_inv q \<Longrightarrow> removal_inv (fold reassert_one as q)"
  "lqDesired (fold reassert_one as q) = lqDesired q" "lqEffective (fold reassert_one as q) = lqEffective q"
  "lqInFlight (fold reassert_one as q) = lqInFlight q" "lqClosed (fold reassert_one as q) = lqClosed q"
  "lqReady (fold reassert_one as q) = lqReady q"
  "length (lqPending (fold reassert_one as q)) \<le> length as + length (lqPending q)"
proof (induction as arbitrary: q)
  case (Cons a as)
  { case 7 then show ?case using Cons.IH(7) [of "reassert_one a q"] reassert_one_facts(7) [of a q] by simp }
qed (simp_all add: reassert_one_facts)

lemma reassert_eq:
  "reassert q = (if \<not> lqReassert q then q
     else (fold reassert_one (sorted_list_of_set (lqEffective q)) q)\<lparr>lqReassert := False\<rparr>)"
  by (simp add: reassert_def reassert_one_def [abs_def])

lemma removal_inv_reassert_flag [simp]: "removal_inv (q\<lparr>lqReassert := c\<rparr>) = removal_inv q"
  by (simp add: removal_inv_def scheduled_ok_def in_flight_def)

lemma reassert_facts:
  "removal_inv q \<Longrightarrow> removal_inv (reassert q)"
  "lqDesired (reassert q) = lqDesired q" "lqEffective (reassert q) = lqEffective q"
  "lqInFlight (reassert q) = lqInFlight q" "lqClosed (reassert q) = lqClosed q"
  "lqReady (reassert q) = lqReady q" "\<not> lqReassert (reassert q)"
  "length (lqPending (reassert q)) \<le>
     length (lqPending q) + (if lqReassert q then card (lqEffective q) else 0)"
  using fold_reassert(7) [of "sorted_list_of_set (lqEffective q)" q]
  by (simp_all add: reassert_eq fold_reassert)

definition popped :: "work \<Rightarrow> work list \<Rightarrow> removal_queue \<Rightarrow> removal_queue" where
  "popped w rest q = (setPendingSet (wkAction w) (pendingSet (wkAction w) q - {wkAppId w}) q)
                       \<lparr>lqPending := rest\<rparr>"

lemma popped_pend:
  assumes "index_ok q" "lqPending q = w # rest"
  shows "pend (popped w rest q) b act \<longleftrightarrow> pend q b act \<and> \<not> (b = wkAppId w \<and> act = wkAction w)"
    "index_ok (popped w rest q)"
proof -
  have d: "distinct (w # rest)" using assms by (simp add: index_ok_def)
  show p: "pend (popped w rest q) b act \<longleftrightarrow> pend q b act \<and> \<not> (b = wkAppId w \<and> act = wkAction w)" for b act
    using d assms(2) by (cases w) (auto simp: popped_def pend_def)
  show "index_ok (popped w rest q)"
    unfolding index_ok_def p using assms(1) d by (auto simp: popped_def index_ok_def)
qed

lemma popped_frame [simp]:
  "lqDesired (popped w rest q) = lqDesired q" "lqEffective (popped w rest q) = lqEffective q"
  "lqReady (popped w rest q) = lqReady q" "lqInFlight (popped w rest q) = lqInFlight q"
  "lqClosed (popped w rest q) = lqClosed q" "lqCapacity (popped w rest q) = lqCapacity q"
  "lqReassert (popped w rest q) = lqReassert q" "lqPending (popped w rest q) = rest"
  by (simp_all add: popped_def)

lemma flight_frame:
  "lqDesired (q\<lparr>lqInFlight := i\<rparr>) = lqDesired q" "lqEffective (q\<lparr>lqInFlight := i\<rparr>) = lqEffective q"
  "lqReady (q\<lparr>lqInFlight := i\<rparr>) = lqReady q"
  by simp_all

lemma popped_current:
  assumes inv: "removal_inv q" and q: "lqPending q = w # rest" "\<not> lqClosed q" "lqInFlight q = None"
  shows "removal_inv ((popped w rest q)\<lparr>lqInFlight := Some w\<rparr>)"
proof -
  note I = removal_invD [OF inv]
  have F: "in_flight ((popped w rest q)\<lparr>lqInFlight := Some w\<rparr>) b act \<longleftrightarrow>
      b = wkAppId w \<and> act = wkAction w" for b act
    by (cases w) (auto simp: in_flight_def)
  have N: "\<not> in_flight q b act" for b act using q(3) by (simp add: in_flight_def)
  have "scheduled_ok ((popped w rest q)\<lparr>lqInFlight := Some w\<rparr>) b" for b
    using I(2) [of b] N unfolding scheduled_ok_def pend_frame F popped_pend [OF I(1) q(1)]
    by (simp only: popped_frame flight_frame) blast
  then show ?thesis using I q by (simp add: removal_inv_def popped_pend [OF I(1) q(1)])
qed

lemma popped_stale:
  assumes inv: "removal_inv q" and q: "lqPending q = w # rest" "\<not> lqClosed q" "lqInFlight q = None"
    and stale: "\<not> work_current w (popped w rest q)"
  shows "removal_inv (popped w rest q)"
proof -
  note I = removal_invD [OF inv]
  have N: "\<not> in_flight q b act" "\<not> in_flight (popped w rest q) b act" for b act
    using q(3) by (simp_all add: in_flight_def)
  have "wkAction w = Remove \<Longrightarrow> wkAppId w \<notin> lqDesired q"
    "wkAction w = Restore \<Longrightarrow> wkAppId w \<in> lqDesired q \<or> wkAppId w \<notin> lqReady q"
    using stale by (auto simp: work_current_def)
  then have "scheduled_ok (popped w rest q) b" for b
    using I(2) [of b] N unfolding scheduled_ok_def popped_pend [OF I(1) q(1)]
    by (simp only: popped_frame) (cases "wkAction w"; simp only: action.distinct; blast)
  then show ?thesis using I q by (simp add: removal_inv_def popped_pend [OF I(1) q(1)])
qed

text \<open>What popping does: either a current work is taken and everything before it dropped, or the
  deque is exhausted.\<close>

lemma drain_loop_facts:
  assumes "removal_inv q" "lqPending q = ws" "\<not> lqClosed q" "lqInFlight q = None"
  shows "removal_inv (snd (drain_loop ws q)) \<and>
    lqDesired (snd (drain_loop ws q)) = lqDesired q \<and> lqEffective (snd (drain_loop ws q)) = lqEffective q \<and>
    lqReady (snd (drain_loop ws q)) = lqReady q \<and> lqClosed (snd (drain_loop ws q)) = lqClosed q \<and>
    lqReassert (snd (drain_loop ws q)) = lqReassert q \<and>
    lqInFlight (snd (drain_loop ws q)) = fst (drain_loop ws q) \<and>
    (case fst (drain_loop ws q) of
       None \<Rightarrow> lqPending (snd (drain_loop ws q)) = []
     | Some w \<Rightarrow> work_current w (snd (drain_loop ws q)) \<and>
         length (lqPending (snd (drain_loop ws q))) < length ws)"
  using assms
proof (induction ws arbitrary: q)
  case Nil
  have "drain_loop [] q = (None, q)" using Nil.prems(2) by simp
  then show ?case using Nil.prems by (simp del: drain_loop.simps)
next
  case (Cons w ws)
  have step: "drain_loop (w # ws) q =
      (if \<not> work_current w (popped w ws q) then drain_loop ws (popped w ws q)
       else (Some w, (popped w ws q)\<lparr>lqInFlight := Some w\<rparr>))"
    by (simp add: popped_def Let_def)
  show ?case
  proof (cases "work_current w (popped w ws q)")
    case True
    have "work_current w ((popped w ws q)\<lparr>lqInFlight := Some w\<rparr>)"
      using True by (auto simp: work_current_def)
    then show ?thesis using True Cons.prems popped_current [OF Cons.prems]
      by (simp add: step del: drain_loop.simps)
  next
    case False
    have inv': "removal_inv (popped w ws q)" by (rule popped_stale [OF Cons.prems False])
    have "drain_loop (w # ws) q = drain_loop ws (popped w ws q)"
      using False by (simp add: step del: drain_loop.simps)
    moreover note Cons.IH [OF inv']
    ultimately show ?thesis using Cons.prems
      by (simp del: drain_loop.simps split: option.splits)
  qed
qed

lemma drainOne_facts:
  assumes inv: "removal_inv q"
  shows "removal_inv (snd (drainOne q)) \<and>
    lqDesired (snd (drainOne q)) = lqDesired q \<and> lqEffective (snd (drainOne q)) = lqEffective q \<and>
    lqReady (snd (drainOne q)) = lqReady q \<and> lqClosed (snd (drainOne q)) = lqClosed q"
proof (cases "lqClosed q \<or> lqInFlight q \<noteq> None")
  case False
  have r: "removal_inv (reassert q)" "\<not> lqClosed (reassert q)" "lqInFlight (reassert q) = None"
    using False inv by (simp_all add: reassert_facts)
  show ?thesis
    using False drain_loop_facts [OF r(1) refl r(2,3)]
    by (simp add: drainOne_def Let_def reassert_facts)
qed (use inv in \<open>auto simp: drainOne_def\<close>)

lemma new_removal_inv: "removal_inv (new_removal_queue c)"
  by (simp add: removal_inv_def new_removal_queue_def index_ok_def scheduled_ok_def pend_def
      pendingSet_def)

lemma close_inv: "removal_inv (close_queue q)"
  by (simp add: removal_inv_def close_queue_def new_removal_queue_def index_ok_def scheduled_ok_def
      pend_def pendingSet_def)

datatype removal_op = OpPush u32 | OpCancel u32 | OpReady u32 | OpDrain | OpBegin work | OpFinishWork work
  | OpRetry work | OpReassert | OpClose | OpReopen

fun removal_step :: "removal_op \<Rightarrow> removal_queue \<Rightarrow> removal_queue" where
  "removal_step (OpPush a) q = snd (push a q)"
| "removal_step (OpCancel a) q = cancel a q"
| "removal_step (OpReady a) q = readyToRestore a q"
| "removal_step OpDrain q = snd (drainOne q)"
| "removal_step (OpBegin w) q = snd (begin_work w q)"
| "removal_step (OpFinishWork w) q = finish_work w q"
| "removal_step (OpRetry w) q = retry_work w q"
| "removal_step OpReassert q = requestFullReassert q"
| "removal_step OpClose q = close_queue q"
| "removal_step OpReopen q = reopen_queue q"

interpretation removal_machine:
  invariant_machine removal_step "\<lambda>q. q = new_removal_queue c" removal_inv for c
proof
  show "removal_inv q" if "q = new_removal_queue c" for q using that new_removal_inv by simp
  show "removal_inv (removal_step x q)" if "removal_inv q" for x q
  proof (cases x)
    case OpDrain
    then show ?thesis using drainOne_facts [OF that] by simp
  next
    case OpReassert
    then show ?thesis using that by (simp add: requestFullReassert_def)
  next
    case OpReopen
    then show ?thesis by (simp add: reopen_queue_def new_removal_inv)
  qed (use that in \<open>simp_all add: push_inv cancel_inv ready_inv begin_inv finish_inv retry_inv close_inv\<close>)
qed

section \<open>The UI thread's pump\<close>

text \<open>The owner's loop: take a work, begin it, apply it, finish it, until nothing is left.\<close>

fun pump :: "nat \<Rightarrow> removal_queue \<Rightarrow> removal_queue" where
  "pump 0 q = q"
| "pump (Suc n) q =
     (case drainOne q of
        (None, q') \<Rightarrow> q'
      | (Some w, q') \<Rightarrow> pump n (finish_work w (snd (begin_work w q'))))"

definition backlog :: "removal_queue \<Rightarrow> nat" where
  "backlog q = length (lqPending q) + (if lqReassert q then card (lqEffective q) else 0)"

lemma reconcile_shrinks:
  assumes "a \<in> lqDesired q \<Longrightarrow> a \<in> lqEffective q" "a \<notin> lqDesired q \<Longrightarrow> a \<notin> lqReady q"
    and "lqInFlight q = None"
  shows "length (lqPending (reconcile a q)) \<le> length (lqPending q)"
  using assms by (auto simp: reconcile_def Let_def erasePending_def intro: length_filter_le)

lemma pump_step:
  assumes inv: "removal_inv q" and q: "\<not> lqClosed q" "lqInFlight q = None"
    and d: "drainOne q = (Some w, q')" and q2: "q2 = finish_work w (snd (begin_work w q'))"
  shows "removal_inv q2 \<and> \<not> lqClosed q2 \<and> lqInFlight q2 = None \<and> lqDesired q2 = lqDesired q \<and>
    backlog q2 < backlog q"
proof -
  have r: "removal_inv (reassert q)" "\<not> lqClosed (reassert q)" "lqInFlight (reassert q) = None"
    using q inv by (simp_all add: reassert_facts)
  have d': "drain_loop (lqPending (reassert q)) (reassert q) = (Some w, q')"
    using q d by (simp add: drainOne_def Let_def)
  note D = drain_loop_facts [OF r(1) refl r(2,3), unfolded d', simplified]
  have cur: "work_current w q'" and fl: "lqInFlight q' = Some w" and op: "\<not> lqClosed q'"
    and len: "length (lqPending q') < length (lqPending (reassert q))" and flag: "\<not> lqReassert q'"
    and des: "lqDesired q' = lqDesired q" and inv': "removal_inv q'"
    using D r by (simp_all add: reassert_facts)
  define eff where "eff = (if wkAction w = Remove then insert (wkAppId w) (lqEffective q')
                           else lqEffective q' - {wkAppId w})"
  have b: "snd (begin_work w q') = q'\<lparr>lqEffective := eff\<rparr>"
    using cur fl op by (simp add: begin_work_def eff_def)
  define q1 where "q1 = (if wkAction w = Restore \<and> wkAppId w \<notin> lqDesired q'
      then q'\<lparr>lqEffective := eff, lqInFlight := None, lqReady := lqReady q' - {wkAppId w}\<rparr>
      else q'\<lparr>lqEffective := eff, lqInFlight := None\<rparr>)"
  have f: "q2 = reconcile (wkAppId w) q1"
    unfolding q2 b finish_work_def q1_def using fl by (simp add: Let_def)
  have act: "wkAction w = Remove \<or> wkAction w = Restore" by (cases "wkAction w") simp_all
  have "length (lqPending q2) \<le> length (lqPending q1)"
    unfolding f
    by (rule reconcile_shrinks)
      (use cur act in \<open>auto simp: q1_def eff_def work_current_def split: if_splits\<close>)
  moreover have "lqPending q1 = lqPending q'" by (simp add: q1_def)
  moreover have "removal_inv q2" unfolding q2 by (intro finish_inv begin_inv inv')
  moreover have "\<not> lqReassert q2" "\<not> lqClosed q2" "lqInFlight q2 = None" "lqDesired q2 = lqDesired q"
    using flag op des by (simp_all add: f q1_def)
  moreover have "length (lqPending (reassert q)) \<le> backlog q"
    using reassert_facts(8) [of q] by (simp add: backlog_def)
  ultimately show ?thesis using len by (simp add: backlog_def)
qed

lemma pump_idle:
  assumes inv: "removal_inv q" and q: "\<not> lqClosed q" "lqInFlight q = None"
    and d: "drainOne q = (None, q')"
  shows "removal_inv q' \<and> lqPending q' = [] \<and> lqInFlight q' = None \<and> lqDesired q' = lqDesired q"
proof -
  have r: "removal_inv (reassert q)" "\<not> lqClosed (reassert q)" "lqInFlight (reassert q) = None"
    using q inv by (simp_all add: reassert_facts)
  have d': "drain_loop (lqPending (reassert q)) (reassert q) = (None, q')"
    using q d by (simp add: drainOne_def Let_def)
  show ?thesis
    using drain_loop_facts [OF r(1) refl r(2,3), unfolded d'] by (simp add: reassert_facts)
qed

lemma pump_drains:
  "removal_inv q \<Longrightarrow> \<not> lqClosed q \<Longrightarrow> lqInFlight q = None \<Longrightarrow> backlog q < n \<Longrightarrow>
     removal_inv (pump n q) \<and> lqPending (pump n q) = [] \<and> lqInFlight (pump n q) = None \<and>
     lqDesired (pump n q) = lqDesired q"
proof (induction n arbitrary: q)
  case (Suc n)
  obtain r q' where d: "drainOne q = (r, q')" by fastforce
  show ?case
  proof (cases r)
    case None
    then show ?thesis using pump_idle [OF Suc.prems(1-3)] d by simp
  next
    case (Some w)
    then show ?thesis
      using pump_step [OF Suc.prems(1-3), of w q'] Suc.IH Suc.prems(4) d by simp
  qed
qed simp

section \<open>Properties\<close>

text \<open>in every state the queue reaches, the deque and its two index sets agree without
  repetition, the desired set stays within capacity, a removal is queued only for a desired app
  and a restoration only for another, and no app that still needs a change is left unscheduled.\<close>

theorem removal_queue_reachable_inv: "removal_inv (run_ops removal_step ops (new_removal_queue c))"
  by (rule removal_machine.inv_reachable) simp

text \<open>the owner's pump converges: from any reachable open queue with nothing in flight, as many
  rounds as the backlog plus one leave nothing queued, every desired removal effective, and no
  ready app still hidden.\<close>

theorem removal_pump_converges:
  assumes "q = run_ops removal_step ops (new_removal_queue c)" "\<not> lqClosed q" "lqInFlight q = None"
    and "q' = pump (Suc (backlog q)) q"
  shows "lqPending q' = [] \<and> lqDesired q' = lqDesired q \<and> lqDesired q \<subseteq> lqEffective q' \<and>
    lqEffective q' \<inter> lqReady q' \<subseteq> lqDesired q"
proof -
  have "removal_inv q" using assms(1) removal_machine.inv_reachable by simp
  then have p: "removal_inv q'" "lqPending q' = []" "lqInFlight q' = None" "lqDesired q' = lqDesired q"
    using pump_drains [of q "Suc (backlog q)"] assms by simp_all
  have s: "scheduled_ok q' a" for a by (rule removal_invD(2) [OF p(1)])
  have "\<not> pend q' a act" "\<not> in_flight q' a act" for a act
    using p(2,3) by (simp_all add: pend_def in_flight_def)
  then show ?thesis using s p unfolding scheduled_ok_def by blast
qed

text \<open>the applied snapshot lists, sorted, exactly the apps that are both effective and desired,
  so a cancelled removal disappears from it at once.\<close>

theorem appliedSnapshot_exact:
  assumes "q = run_ops removal_step ops (new_removal_queue c)"
  shows "set (appliedSnapshot q) = lqEffective q \<inter> lqDesired q \<and>
    sorted_wrt (<) (appliedSnapshot q) \<and> a \<notin> set (appliedSnapshot (cancel a q))"
proof -
  have inv: "removal_inv q" using assms removal_machine.inv_reachable by simp
  then have "lqClosed q \<Longrightarrow> lqEffective q = {}" using removal_inv_closed by blast
  then show ?thesis by (auto simp: appliedSnapshot_def cancel_def)
qed

section \<open>Witnesses\<close>

lemma removal_pump_converges_witness:
  "let q = run_ops removal_step [OpPush 10, OpPush 20, OpCancel 20] (new_removal_queue 4)
   in lqDesired q \<subseteq> lqEffective (pump (Suc (backlog q)) q)"
  unfolding Let_def
  by (rule removal_pump_converges [OF refl _ _ refl, THEN conjunct2, THEN conjunct2, THEN conjunct1])
    code_simp+

lemma appliedSnapshot_exact_witness:
  "10 \<notin> set (appliedSnapshot (cancel 10 (run_ops removal_step [OpPush 10] (new_removal_queue 4))))"
  by (rule appliedSnapshot_exact [OF refl, THEN conjunct2, THEN conjunct2])

end
