(* ===== verification/DepotKey.thy ===== *)
theory DepotKey
  imports OrdMap CppText
begin

unbundle bit_operations_syntax

text \<open>
  \<open>src/feats/depotkey_index.hpp\<close>, \<open>depotkey_import.hpp\<close>, \<open>depotkey_recv_policy.hpp\<close>,
  \<open>depotkey_scope.hpp\<close> and the catalog and message handlers of \<open>depotkey.cpp\<close>: the catalog of
  depot decryption keys, its secondary index by app, and what is substituted in Steam's key
  responses. The parsed key files and the outcome of a file write are arguments; \<open>added\<close> is the
  configured set of managed apps.
\<close>

section \<open>Hex keys\<close>

definition nib :: "char \<Rightarrow> int" where
  "nib c = (let n = int (char_code c) in
     if 48 \<le> n \<and> n \<le> 57 then n - 48
     else if 97 \<le> n \<and> n \<le> 102 then 10 + (n - 97)
     else if 65 \<le> n \<and> n \<le> 70 then 10 + (n - 65)
     else -1)"

fun hex_loop :: "string \<Rightarrow> bytes option" where
  "hex_loop (a # b # s) =
     (let hi = nib a; lo = nib b in
      if hi < 0 \<or> lo < 0 then None
      else (case hex_loop s of
              None \<Rightarrow> None
            | Some r \<Rightarrow> Some (word_of_int (hi * 16 + lo) # r)))"
| "hex_loop _ = Some []"

text \<open>The empty string is the failure value.\<close>

definition hexToBytes :: "string \<Rightarrow> bytes" where
  "hexToBytes hex =
     (if length hex \<noteq> 64 then [] else case hex_loop hex of None \<Rightarrow> [] | Some out \<Rightarrow> out)"

section \<open>The importer gate\<close>

text \<open>The ready test and the import body may throw (\<open>None\<close>); the result pairs \<open>run\<close>'s value with
  whether the body ran and the new flag.\<close>

definition gate_run :: "bool option \<Rightarrow> unit option \<Rightarrow> bool \<Rightarrow> bool \<times> bool \<times> bool" where
  "gate_run ready body m_done =
     (if m_done then (False, False, m_done)
      else case ready of
        None \<Rightarrow> (False, False, m_done)
      | Some False \<Rightarrow> (False, False, m_done)
      | Some True \<Rightarrow> (case body of None \<Rightarrow> (False, True, m_done) | Some _ \<Rightarrow> (True, True, True)))"

definition gate_rerun :: "bool option \<Rightarrow> unit option \<Rightarrow> bool \<Rightarrow> bool \<times> bool \<times> bool" where
  "gate_rerun ready body m_done =
     (case ready of
        None \<Rightarrow> (False, False, m_done)
      | Some False \<Rightarrow> (False, False, m_done)
      | Some True \<Rightarrow> (case body of None \<Rightarrow> (False, True, m_done) | Some _ \<Rightarrow> (True, True, m_done)))"

section \<open>The catalog and its index by app\<close>

record saved_key =
  skAppId :: u32
  skDepotId :: u32
  skKey :: bytes
  skManaged :: bool

definition empty_key :: saved_key where
  "empty_key = \<lparr>skAppId = 0, skDepotId = 0, skKey = [], skManaged = False\<rparr>"

type_synonym key_catalog = "(u32, saved_key) omap"
type_synonym app_index = "(u32, u32 set) omap"

definition index_insert :: "u32 \<Rightarrow> u32 \<Rightarrow> app_index \<Rightarrow> app_index" where
  "index_insert appId depotId idx =
     om_put appId (insert depotId (case om_find idx appId of None \<Rightarrow> {} | Some ds \<Rightarrow> ds)) idx"

definition rebuild_one :: "u32 \<times> saved_key \<Rightarrow> app_index \<Rightarrow> app_index" where
  "rebuild_one = (\<lambda>(depotId, entry) idx.
     if skManaged entry \<and> skAppId entry \<noteq> 0 \<and> depotId \<noteq> 0
     then index_insert (skAppId entry) depotId idx else idx)"

definition rebuild :: "key_catalog \<Rightarrow> app_index" where
  "rebuild entries = fold rebuild_one entries []"

definition replace :: "u32 \<Rightarrow> u32 \<Rightarrow> bool \<Rightarrow> u32 \<Rightarrow> bool \<Rightarrow> app_index \<Rightarrow> app_index" where
  "replace depotId oldAppId oldManaged newAppId newManaged idx =
     (let hadOld = (oldManaged \<and> oldAppId \<noteq> 0 \<and> depotId \<noteq> 0);
          hasNew = (newManaged \<and> newAppId \<noteq> 0 \<and> depotId \<noteq> 0)
      in if hadOld \<and> hasNew \<and> oldAppId = newAppId then index_insert newAppId depotId idx
         else
           (let idx1 = (if hasNew then index_insert newAppId depotId idx else idx)
            in if \<not> hadOld then idx1
               else case om_find idx1 oldAppId of
                 None \<Rightarrow> idx1
               | Some ds \<Rightarrow>
                   (let ds' = ds - {depotId}
                    in if ds' = {} then om_erase oldAppId idx1 else om_put oldAppId ds' idx1)))"

definition forApp :: "app_index \<Rightarrow> u32 \<Rightarrow> u32 list" where
  "forApp idx appId = (case om_find idx appId of None \<Rightarrow> [] | Some ds \<Rightarrow> sorted_list_of_set ds)"

record key_db =
  kdLoaded :: bool
  kdIndexReady :: bool
  kdEntries :: key_catalog
  kdManagedIndex :: app_index
  kdPending :: "u32 \<rightharpoonup> u32"

definition new_key_db :: key_db where
  "new_key_db = \<lparr>kdLoaded = False, kdIndexReady = False, kdEntries = [], kdManagedIndex = [],
     kdPending = Map.empty\<rparr>"

text \<open>\<open>files\<close> are the key files of the directory that parsed, in directory order; \<open>parseCachedKeyFile\<close>
  accepts only a non-zero depot.\<close>

definition loadKeyIndex :: "saved_key list \<Rightarrow> key_db \<Rightarrow> key_db" where
  "loadKeyIndex files db =
     (let db1 = (if kdLoaded db then db
                 else db\<lparr>kdLoaded := True,
                         kdEntries := fold (\<lambda>k m. om_put (skDepotId k) k m)
                           (filter (\<lambda>k. skDepotId k \<noteq> 0) files) []\<rparr>)
      in if kdIndexReady db1 then db1
         else db1\<lparr>kdManagedIndex := rebuild (kdEntries db1), kdIndexReady := True\<rparr>)"

definition getCachedKey :: "saved_key list \<Rightarrow> u32 \<Rightarrow> key_db \<Rightarrow> saved_key \<times> key_db" where
  "getCachedKey files depotId db =
     (let db1 = loadKeyIndex files db
      in (case om_find (kdEntries db1) depotId of None \<Rightarrow> empty_key | Some k \<Rightarrow> k, db1))"

definition mergeManagedFlag :: "bool \<Rightarrow> bool \<Rightarrow> bool" where
  "mergeManagedFlag existingManaged incomingManaged \<longleftrightarrow> existingManaged \<or> incomingManaged"

text \<open>\<open>wrote\<close>: the key file was opened and written.\<close>

definition saveKeyToCache ::
  "saved_key list \<Rightarrow> bool \<Rightarrow> u32 \<Rightarrow> u32 \<Rightarrow> bytes \<Rightarrow> bool \<Rightarrow> key_db \<Rightarrow> bool \<times> key_db" where
  "saveKeyToCache files wrote appId depotId key managed db =
     (if length key \<noteq> 32 then (False, db)
      else
        (let db1 = loadKeyIndex files db;
             existing = (case om_find (kdEntries db1) depotId of None \<Rightarrow> empty_key | Some k \<Rightarrow> k);
             finalAppId = (if appId \<noteq> 0 then appId else skAppId existing);
             finalManaged = mergeManagedFlag (skManaged existing) managed
         in if skDepotId existing = depotId \<and> skKey existing = key \<and>
               skAppId existing = finalAppId \<and> skManaged existing = finalManaged
            then (True, db1)
            else if \<not> wrote then (False, db1)
            else
              (let saved = \<lparr>skAppId = finalAppId, skDepotId = depotId, skKey = key,
                            skManaged = finalManaged\<rparr>
               in (True, db1\<lparr>kdManagedIndex := replace depotId (skAppId existing)
                               (skManaged existing) (skAppId saved) (skManaged saved)
                               (kdManagedIndex db1),
                             kdEntries := om_put depotId saved (kdEntries db1)\<rparr>))))"

definition isManagedDepot :: "saved_key list \<Rightarrow> u32 \<Rightarrow> key_db \<Rightarrow> bool" where
  "isManagedDepot files depotId db =
     (let k = fst (getCachedKey files depotId db) in skManaged k \<and> length (skKey k) = 32)"

definition managedDepotsForApp :: "saved_key list \<Rightarrow> u32 \<Rightarrow> key_db \<Rightarrow> u32 list \<times> key_db" where
  "managedDepotsForApp files appId db =
     (if appId = 0 then ([], db)
      else (let db1 = loadKeyIndex files db in (forApp (kdManagedIndex db1) appId, db1)))"

section \<open>Manifest scope\<close>

definition depotInManifestScope :: "bool \<Rightarrow> bool \<Rightarrow> bool \<Rightarrow> bool \<Rightarrow> bool \<Rightarrow> bool" where
  "depotInManifestScope appIsAddedApp depotIsAddedApp depotKeyIsManaged depotHasPin
     contentHasNativeLicense =
     (if contentHasNativeLicense then False
      else if depotHasPin then True
      else appIsAddedApp \<or> depotIsAddedApp \<or> depotKeyIsManaged)"

definition manifestContentAppId :: "u32 \<Rightarrow> u32 \<Rightarrow> u32 \<Rightarrow> u32 \<Rightarrow> u32" where
  "manifestContentAppId baseAppId requestedAppId catalogAppId depotDlcAppId =
     (if depotDlcAppId \<noteq> 0 then depotDlcAppId
      else if requestedAppId \<noteq> 0 \<and> requestedAppId \<noteq> baseAppId then requestedAppId
      else if baseAppId \<noteq> 0 then baseAppId else catalogAppId)"

text \<open>\<open>dlcOf\<close> is the DLC lookup in the validated cache buffer (0 without one), \<open>native\<close> the license
  evidence.\<close>

definition manifestInManagedScope ::
  "u32 set \<Rightarrow> (u32 \<Rightarrow> u32 \<Rightarrow> u32) \<Rightarrow> (u32 \<Rightarrow> bool) \<Rightarrow> saved_key list \<Rightarrow>
     u32 \<Rightarrow> u32 \<Rightarrow> bool \<Rightarrow> u32 \<Rightarrow> key_db \<Rightarrow> bool" where
  "manifestInManagedScope added dlcOf native files appId depotId depotHasPin knownContentAppId db =
     (let key = fst (getCachedKey files depotId db);
          baseAppId = (if appId \<noteq> 0 \<and> appId \<in> added then appId
                       else if skAppId key \<noteq> 0 \<and> skAppId key \<in> added then skAppId key
                       else if depotId \<noteq> 0 \<and> depotId \<in> added then depotId else 0);
          depotDlcAppId = (if knownContentAppId = 0 \<and> baseAppId \<noteq> 0
                           then dlcOf baseAppId depotId else knownContentAppId);
          contentAppId = manifestContentAppId baseAppId appId (skAppId key) depotDlcAppId;
          nativeLicense = (contentAppId \<noteq> 0 \<and> native contentAppId)
      in depotInManifestScope (baseAppId \<noteq> 0) (depotId \<noteq> 0 \<and> depotId \<in> added)
           (skManaged key \<and> length (skKey key) = 32) depotHasPin nativeLicense)"

section \<open>Messages\<close>

datatype recv_action = NoAction | CacheObserved | SubstituteCached | SynthZero

definition classifyRecv :: "bool \<Rightarrow> bool \<Rightarrow> bool \<Rightarrow> bool \<Rightarrow> recv_action" where
  "classifyRecv eresultOk okKeyIs32 haveCachedKey isAddedDepot =
     (if eresultOk then (if okKeyIs32 then CacheObserved else NoAction)
      else if haveCachedKey then SubstituteCached
      else if isAddedDepot then SynthZero
      else NoAction)"

record key_response =
  krEresult :: int
  krDepotId :: u32
  krKey :: bytes

definition eresult_ok :: int where "eresult_ok = 1"

definition recvDepotKey ::
  "u32 set \<Rightarrow> saved_key list \<Rightarrow> bool \<Rightarrow> key_response \<Rightarrow> key_db \<Rightarrow> (bool \<times> key_response) \<times> key_db"
where
  "recvDepotKey added files wrote resp db =
     (let depotId = krDepotId resp;
          appId = (case kdPending db depotId of None \<Rightarrow> 0 | Some a \<Rightarrow> a);
          db1 = db\<lparr>kdPending := (kdPending db)(depotId := None)\<rparr>;
          eresultOk = (krEresult resp = eresult_ok);
          okKeyIs32 = (length (krKey resp) = 32);
          (cached, db2) = (if \<not> eresultOk then getCachedKey files depotId db1 else (empty_key, db1));
          haveCachedKey = (\<not> eresultOk \<and> skDepotId cached \<noteq> 0 \<and> length (skKey cached) = 32);
          isAddedDepot = (\<not> eresultOk \<and> depotId \<in> added)
      in case classifyRecv eresultOk okKeyIs32 haveCachedKey isAddedDepot of
           CacheObserved \<Rightarrow>
             ((False, resp), snd (saveKeyToCache files wrote appId depotId (krKey resp) False db2))
         | SubstituteCached \<Rightarrow>
             ((True, \<lparr>krEresult = eresult_ok, krDepotId = depotId, krKey = skKey cached\<rparr>), db2)
         | SynthZero \<Rightarrow>
             ((True, \<lparr>krEresult = eresult_ok, krDepotId = depotId, krKey = replicate 32 0\<rparr>), db2)
         | NoAction \<Rightarrow> ((False, resp), db2))"

definition sendDepotKey :: "u32 \<Rightarrow> u32 \<Rightarrow> key_db \<Rightarrow> key_db" where
  "sendDepotKey appId depotId db = db\<lparr>kdPending := (kdPending db)(depotId \<mapsto> appId)\<rparr>"

section \<open>The index is a view of the catalog\<close>

definition depots_of :: "app_index \<Rightarrow> u32 \<Rightarrow> u32 set" where
  "depots_of idx appId = (case om_find idx appId of None \<Rightarrow> {} | Some ds \<Rightarrow> ds)"

definition index_wf :: "app_index \<Rightarrow> bool" where
  "index_wf idx \<longleftrightarrow> om_ok idx \<and> (\<forall>a ds. om_find idx a = Some ds \<longrightarrow> ds \<noteq> {})"

text \<open>What the index is to contain: the managed depots the catalog records for an app.\<close>

definition catalog_depots :: "key_catalog \<Rightarrow> u32 \<Rightarrow> u32 set" where
  "catalog_depots m appId =
     {d. appId \<noteq> 0 \<and> d \<noteq> 0 \<and> (\<exists>k. om_find m d = Some k \<and> skManaged k \<and> skAppId k = appId)}"

lemma index_eqI:
  assumes "index_wf i" "index_wf j" "depots_of i = depots_of j"
  shows "i = j"
proof (rule om_eqI)
  show "om_find i = om_find j"
  proof
    fix a
    have "om_find i a \<noteq> Some {}" "om_find j a \<noteq> Some {}" "depots_of i a = depots_of j a"
      using assms by (auto simp: index_wf_def)
    then show "om_find i a = om_find j a"
      by (cases "om_find i a"; cases "om_find j a") (auto simp: depots_of_def)
  qed
qed (use assms in \<open>simp_all add: index_wf_def\<close>)

lemma index_insert_facts:
  "depots_of (index_insert a d idx) = (depots_of idx)(a := insert d (depots_of idx a))"
  "index_wf idx \<Longrightarrow> index_wf (index_insert a d idx)"
  by (auto simp: index_insert_def depots_of_def index_wf_def fun_eq_iff split: if_splits)

lemma fold_rebuild:
  "index_wf idx \<Longrightarrow> index_wf (fold rebuild_one es idx) \<and>
     depots_of (fold rebuild_one es idx) a = depots_of idx a \<union>
       {d. a \<noteq> 0 \<and> d \<noteq> 0 \<and> (\<exists>k. (d, k) \<in> set es \<and> skManaged k \<and> skAppId k = a)}"
proof (induction es arbitrary: idx)
  case (Cons e es)
  obtain d k where e: "e = (d, k)" by (cases e)
  have wf: "index_wf (rebuild_one (d, k) idx)"
    using Cons.prems by (simp add: rebuild_one_def index_insert_facts)
  have dep: "depots_of (rebuild_one (d, k) idx) a = depots_of idx a \<union>
      {x. a \<noteq> 0 \<and> x \<noteq> 0 \<and> x = d \<and> skManaged k \<and> skAppId k = a}"
    by (auto simp: rebuild_one_def index_insert_facts)
  show ?case using Cons.IH [OF wf] by (simp only: e fold.simps o_apply dep) auto
qed simp

lemma rebuild_facts:
  assumes "om_ok m"
  shows "index_wf (rebuild m)" "depots_of (rebuild m) = catalog_depots m"
  using fold_rebuild [of "[]" m]
  by (auto simp: rebuild_def index_wf_def depots_of_def catalog_depots_def fun_eq_iff
      om_find_in_set [OF assms])

lemma replace_facts:
  assumes wf: "index_wf idx"
  shows "index_wf (replace d oa om na nm idx)"
    "depots_of (replace d oa om na nm idx) a =
       (depots_of idx a - (if om \<and> oa \<noteq> 0 \<and> d \<noteq> 0 \<and> a = oa then {d} else {})) \<union>
       (if nm \<and> na \<noteq> 0 \<and> d \<noteq> 0 \<and> a = na then {d} else {})"
proof -
  define hadOld where "hadOld = (om \<and> oa \<noteq> 0 \<and> d \<noteq> 0)"
  define hasNew where "hasNew = (nm \<and> na \<noteq> 0 \<and> d \<noteq> 0)"
  define idx1 where "idx1 = (if hasNew then index_insert na d idx else idx)"
  have wf1: "index_wf idx1" using wf by (simp add: idx1_def index_insert_facts)
  have d1: "depots_of idx1 a = depots_of idx a \<union> (if hasNew \<and> a = na then {d} else {})" for a
    by (auto simp: idx1_def index_insert_facts)
  have e: "replace d oa om na nm idx =
      (if hadOld \<and> hasNew \<and> oa = na then idx1
       else if \<not> hadOld then idx1
       else case om_find idx1 oa of None \<Rightarrow> idx1
         | Some ds \<Rightarrow> if ds - {d} = {} then om_erase oa idx1 else om_put oa (ds - {d}) idx1)"
    unfolding replace_def Let_def idx1_def hadOld_def hasNew_def by simp
  show "index_wf (replace d oa om na nm idx)"
    using wf1 unfolding e by (auto simp: index_wf_def split: option.splits if_splits)
  have "depots_of (replace d oa om na nm idx) a =
      (if hadOld \<and> a = oa \<and> \<not> (hasNew \<and> oa = na) then depots_of idx1 a - {d} else depots_of idx1 a)"
    unfolding e by (auto simp: depots_of_def split: option.splits)
  then show "depots_of (replace d oa om na nm idx) a =
       (depots_of idx a - (if om \<and> oa \<noteq> 0 \<and> d \<noteq> 0 \<and> a = oa then {d} else {})) \<union>
       (if nm \<and> na \<noteq> 0 \<and> d \<noteq> 0 \<and> a = na then {d} else {})"
    unfolding d1 hadOld_def hasNew_def by auto
qed

text \<open>Incremental maintenance equals a rebuild of the updated catalog.\<close>

lemma replace_rebuild:
  assumes m: "om_ok m"
    and old: "old = (case om_find m d of None \<Rightarrow> empty_key | Some k \<Rightarrow> k)"
  shows "replace d (skAppId old) (skManaged old) (skAppId new) (skManaged new) (rebuild m)
         = rebuild (om_put d new m)"
proof (rule index_eqI)
  have m': "om_ok (om_put d new m)" using m by simp
  show "index_wf (replace d (skAppId old) (skManaged old) (skAppId new) (skManaged new) (rebuild m))"
    by (rule replace_facts(1) [OF rebuild_facts(1) [OF m]])
  show "index_wf (rebuild (om_put d new m))" by (rule rebuild_facts(1) [OF m'])
  show "depots_of (replace d (skAppId old) (skManaged old) (skAppId new) (skManaged new) (rebuild m))
      = depots_of (rebuild (om_put d new m))"
  proof (intro ext set_eqI)
    fix a x
    have old0: "om_find m d = None \<Longrightarrow> \<not> skManaged old"
      "om_find m d = Some k \<Longrightarrow> old = k" for k
      using old by (simp_all add: empty_key_def)
    show "x \<in> depots_of (replace d (skAppId old) (skManaged old) (skAppId new) (skManaged new) (rebuild m)) a
      \<longleftrightarrow> x \<in> depots_of (rebuild (om_put d new m)) a"
    proof (cases "x = d")
      case True
      then show ?thesis using old0
        unfolding replace_facts(2) [OF rebuild_facts(1) [OF m]] rebuild_facts(2) [OF m] rebuild_facts(2) [OF m']
          catalog_depots_def
        by (cases "om_find m d") auto
    next
      case False
      then show ?thesis
        unfolding replace_facts(2) [OF rebuild_facts(1) [OF m]] rebuild_facts(2) [OF m] rebuild_facts(2) [OF m']
          catalog_depots_def by simp
    qed
  qed
qed

section \<open>The database invariant\<close>

text \<open>Every entry is filed under its own depot.\<close>

definition filed :: "key_catalog \<Rightarrow> bool" where
  "filed m \<longleftrightarrow> om_ok m \<and> (\<forall>d k. om_find m d = Some k \<longrightarrow> skDepotId k = d)"

definition db_inv :: "key_db \<Rightarrow> bool" where
  "db_inv db \<longleftrightarrow> filed (kdEntries db) \<and>
     (\<not> kdLoaded db \<longrightarrow> kdEntries db = [] \<and> \<not> kdIndexReady db) \<and>
     (kdIndexReady db \<longrightarrow> kdManagedIndex db = rebuild (kdEntries db))"

definition loaded_ok :: "key_db \<Rightarrow> bool" where
  "loaded_ok db \<longleftrightarrow> db_inv db \<and> kdLoaded db \<and> kdIndexReady db"

lemma filed_Nil [simp]: "filed []"
  by (simp add: filed_def)

lemma filed_put [simp]: "filed m \<Longrightarrow> skDepotId k = d \<Longrightarrow> filed (om_put d k m)"
  by (simp add: filed_def)

lemma filed_ok: "filed m \<Longrightarrow> om_ok m"
  by (simp add: filed_def)

lemma fold_catalog: "filed m \<Longrightarrow> filed (fold (\<lambda>k m. om_put (skDepotId k) k m) ks m)"
  by (induction ks arbitrary: m) auto

lemma load_ok:
  assumes "db_inv db"
  shows "loaded_ok (loadKeyIndex files db)"
proof -
  define db1 where "db1 = (if kdLoaded db then db
      else db\<lparr>kdLoaded := True, kdEntries := fold (\<lambda>k m. om_put (skDepotId k) k m)
                 (filter (\<lambda>k. skDepotId k \<noteq> 0) files) []\<rparr>)"
  have "db_inv db1 \<and> kdLoaded db1"
    using assms fold_catalog [of "[]" "filter (\<lambda>k. skDepotId k \<noteq> 0) files"]
    by (cases "kdLoaded db") (simp_all add: db1_def db_inv_def)
  moreover have "loadKeyIndex files db = (if kdIndexReady db1 then db1
      else db1\<lparr>kdManagedIndex := rebuild (kdEntries db1), kdIndexReady := True\<rparr>)"
    by (simp add: loadKeyIndex_def db1_def Let_def)
  ultimately show ?thesis by (simp add: loaded_ok_def db_inv_def)
qed

lemma load_again: "kdLoaded db \<Longrightarrow> kdIndexReady db \<Longrightarrow> loadKeyIndex files db = db"
  by (simp add: loadKeyIndex_def)

lemma loaded_inv: "loaded_ok db \<Longrightarrow> db_inv db"
  by (simp add: loaded_ok_def)

lemma db_inv_pending [simp]:
  "db_inv (db\<lparr>kdPending := p\<rparr>) = db_inv db" "loaded_ok (db\<lparr>kdPending := p\<rparr>) = loaded_ok db"
  by (simp_all add: db_inv_def loaded_ok_def)

lemma save_stores:
  assumes l: "loaded_ok db1" and old: "old = (case om_find (kdEntries db1) d of None \<Rightarrow> empty_key | Some k \<Rightarrow> k)"
    and new: "skDepotId new = d"
  shows "loaded_ok (db1\<lparr>kdManagedIndex := replace d (skAppId old) (skManaged old) (skAppId new)
           (skManaged new) (kdManagedIndex db1), kdEntries := om_put d new (kdEntries db1)\<rparr>)"
proof -
  have m: "om_ok (kdEntries db1)" and idx: "kdManagedIndex db1 = rebuild (kdEntries db1)"
    using l by (auto simp: loaded_ok_def db_inv_def filed_ok)
  show ?thesis
    using l new unfolding idx replace_rebuild [OF m old]
    by (simp add: loaded_ok_def db_inv_def)
qed

lemma save_inv: "db_inv db \<Longrightarrow> db_inv (snd (saveKeyToCache files wrote a d key managed db))"
proof -
  assume inv: "db_inv db"
  note l = load_ok [OF inv, of files]
  show ?thesis
    using inv loaded_inv [OF l] loaded_inv [OF save_stores [OF l refl, where
        new = "\<lparr>skAppId = _, skDepotId = d, skKey = key, skManaged = _\<rparr>"]]
    by (simp add: saveKeyToCache_def Let_def)
qed

lemma recv_inv: "db_inv db \<Longrightarrow> db_inv (snd (recvDepotKey added files wrote resp db))"
  by (auto simp: recvDepotKey_def getCachedKey_def Let_def intro!: save_inv loaded_inv [OF load_ok]
      split: recv_action.splits prod.splits)

datatype key_op =
    OpSave "saved_key list" bool u32 u32 bytes bool
  | OpRecv "saved_key list" bool key_response
  | OpSend u32 u32
  | OpList "saved_key list" u32

fun key_step :: "u32 set \<Rightarrow> key_op \<Rightarrow> key_db \<Rightarrow> key_db" where
  "key_step added (OpSave files wrote a d key m) db = snd (saveKeyToCache files wrote a d key m db)"
| "key_step added (OpRecv files wrote resp) db = snd (recvDepotKey added files wrote resp db)"
| "key_step added (OpSend a d) db = sendDepotKey a d db"
| "key_step added (OpList files a) db = snd (managedDepotsForApp files a db)"

interpretation key_machine:
  invariant_machine "key_step added" "\<lambda>db. db = new_key_db" db_inv for added
proof
  show "db_inv db" if "db = new_key_db" for db using that by (simp add: db_inv_def new_key_db_def)
  show "db_inv (key_step added x db)" if "db_inv db" for x db
    using that by (cases x) (auto simp: sendDepotKey_def managedDepotsForApp_def Let_def
        intro: save_inv recv_inv loaded_inv [OF load_ok])
qed

section \<open>Facts for the properties\<close>

lemma isManaged_loaded:
  "loaded_ok db \<Longrightarrow> isManagedDepot files d db \<longleftrightarrow>
     (\<exists>k. om_find (kdEntries db) d = Some k \<and> skManaged k \<and> length (skKey k) = 32)"
  by (simp add: isManagedDepot_def getCachedKey_def load_again loaded_ok_def empty_key_def Let_def
      split: option.splits)

lemma save_loaded:
  assumes l: "loaded_ok db"
  shows "loaded_ok (snd (saveKeyToCache files wrote a d key m db)) \<and>
     (isManagedDepot f x db \<longrightarrow> isManagedDepot f' x (snd (saveKeyToCache files wrote a d key m db)))"
proof -
  let ?old = "case om_find (kdEntries db) d of None \<Rightarrow> empty_key | Some k \<Rightarrow> k"
  let ?new = "\<lparr>skAppId = if a \<noteq> 0 then a else skAppId ?old, skDepotId = d, skKey = key,
      skManaged = mergeManagedFlag (skManaged ?old) m\<rparr>"
  let ?db = "db\<lparr>kdManagedIndex := replace d (skAppId ?old) (skManaged ?old) (skAppId ?new)
               (skManaged ?new) (kdManagedIndex db), kdEntries := om_put d ?new (kdEntries db)\<rparr>"
  have ld: "loadKeyIndex files db = db" using l by (simp add: load_again loaded_ok_def)
  have new: "loaded_ok ?db" by (rule save_stores [OF l refl]) simp
  have keep: "isManagedDepot f x db \<Longrightarrow> length key = 32 \<Longrightarrow> isManagedDepot f' x ?db"
    using new l by (auto simp: isManaged_loaded mergeManagedFlag_def)
  have same: "isManagedDepot f x db \<Longrightarrow> isManagedDepot f' x db"
    using l by (simp add: isManaged_loaded)
  have "snd (saveKeyToCache files wrote a d key m db) = db \<or>
      length key = 32 \<and> snd (saveKeyToCache files wrote a d key m db) = ?db"
    by (simp add: saveKeyToCache_def ld Let_def)
  then show ?thesis using new keep same l by metis
qed

lemma recv_loaded:
  assumes l: "loaded_ok db"
  shows "loaded_ok (snd (recvDepotKey added files wrote resp db)) \<and>
     (isManagedDepot f x db \<longrightarrow> isManagedDepot f' x (snd (recvDepotKey added files wrote resp db)))"
proof -
  let ?db1 = "db\<lparr>kdPending := (kdPending db)(krDepotId resp := None)\<rparr>"
  have l1: "loaded_ok ?db1" using l by simp
  have ld: "loadKeyIndex files ?db1 = ?db1" using l1 by (simp add: load_again loaded_ok_def)
  have same: "isManagedDepot f x db \<Longrightarrow> isManagedDepot f' x ?db1"
    using l l1 by (simp add: isManaged_loaded)
  have same': "isManagedDepot f x db \<Longrightarrow> isManagedDepot f x ?db1"
    using l l1 by (simp add: isManaged_loaded)
  have "snd (recvDepotKey added files wrote resp db) = ?db1 \<or>
      (\<exists>a. snd (recvDepotKey added files wrote resp db) =
         snd (saveKeyToCache files wrote a (krDepotId resp) (krKey resp) False ?db1))"
    by (auto simp: recvDepotKey_def getCachedKey_def ld Let_def split: recv_action.splits prod.splits)
  then show ?thesis using l1 same same' save_loaded [OF l1] by metis
qed

lemma key_step_sticky:
  assumes l: "loaded_ok db"
  shows "loaded_ok (key_step added x db) \<and>
     (isManagedDepot f d db \<longrightarrow> isManagedDepot f' d (key_step added x db))"
proof (cases x)
  case (OpSend a d')
  then show ?thesis using l by (simp add: sendDepotKey_def isManaged_loaded)
next
  case (OpList files a)
  have "snd (managedDepotsForApp files a db) = db"
    using l by (simp add: managedDepotsForApp_def load_again loaded_ok_def Let_def)
  then show ?thesis using l OpList by (simp add: isManaged_loaded)
qed (simp_all add: save_loaded [OF l] recv_loaded [OF l])

lemma key_run_sticky:
  "loaded_ok db \<Longrightarrow> isManagedDepot f d db \<Longrightarrow> isManagedDepot f' d (run_ops (key_step added) ops db)"
proof (induction ops arbitrary: db f)
  case Nil
  then show ?case by (simp add: isManaged_loaded)
next
  case (Cons x xs)
  then show ?case using key_step_sticky [OF Cons.prems(1), of added x f d f] by auto
qed

section \<open>Properties\<close>

text \<open>the secondary index never drifts from the catalog: whatever saves, responses and queries came
  before, the depots listed for an app are, in ascending order, exactly the managed catalog
  entries that name it.\<close>

theorem managedDepots_exact:
  assumes "db = run_ops (key_step added) ops new_key_db" "appId \<noteq> 0"
    and "managedDepotsForApp files appId db = (out, db')"
  shows "sorted_wrt (<) out \<and> set out =
     {d. d \<noteq> 0 \<and> (\<exists>k. om_find (kdEntries db') d = Some k \<and> skManaged k \<and> skAppId k = appId)}"
proof -
  have "db_inv db" using assms(1) key_machine.inv_reachable by simp
  then have l: "loaded_ok (loadKeyIndex files db)" by (rule load_ok)
  have db': "db' = loadKeyIndex files db" "out = forApp (kdManagedIndex db') appId"
    using assms(2,3) by (auto simp: managedDepotsForApp_def Let_def)
  have ok: "om_ok (kdEntries db')" "kdManagedIndex db' = rebuild (kdEntries db')"
    using l db' by (auto simp: loaded_ok_def db_inv_def filed_ok)
  have "set out = depots_of (kdManagedIndex db') appId" "sorted_wrt (<) out"
    by (auto simp: db' forApp_def depots_of_def split: option.splits)
  then show ?thesis
    using assms(2) by (simp add: ok(2) rebuild_facts(2) [OF ok(1)] catalog_depots_def)
qed

text \<open>management is sticky: a depot that holds a managed key keeps a managed 32-byte key through any
  later saves and passively observed responses.\<close>

theorem managed_depot_sticky:
  assumes "db = run_ops (key_step added) ops new_key_db" "isManagedDepot files d db"
  shows "isManagedDepot files' d (run_ops (key_step added) ops' (loadKeyIndex files db))"
proof -
  have "db_inv db" using assms(1) key_machine.inv_reachable by simp
  then have l: "loaded_ok (loadKeyIndex files db)" by (rule load_ok)
  have "isManagedDepot files d (loadKeyIndex files db)"
    using assms(2) l by (simp add: isManagedDepot_def getCachedKey_def load_again loaded_ok_def Let_def)
  with l show ?thesis by (rule key_run_sticky)
qed

text \<open>a key response is rewritten only when Steam refused it; the rewritten response is a success
  for the same depot with a 32-byte key, which is the cached one if there is one and is all zero
  only for a managed app's depot without one; every other response is untouched.\<close>

theorem recvDepotKey_substitution:
  assumes "recvDepotKey added files wrote resp db = ((rewritten, resp'), db')"
    and "cached = fst (getCachedKey files (krDepotId resp) db)"
  shows "(rewritten \<longleftrightarrow> krEresult resp \<noteq> eresult_ok \<and>
       ((skDepotId cached \<noteq> 0 \<and> length (skKey cached) = 32) \<or> krDepotId resp \<in> added)) \<and>
     (\<not> rewritten \<longrightarrow> resp' = resp) \<and>
     (rewritten \<longrightarrow> krEresult resp' = eresult_ok \<and> krDepotId resp' = krDepotId resp \<and>
        length (krKey resp') = 32 \<and>
        krKey resp' = (if skDepotId cached \<noteq> 0 \<and> length (skKey cached) = 32 then skKey cached
                       else replicate 32 0))"
proof -
  have c: "fst (getCachedKey files d (db\<lparr>kdPending := p\<rparr>)) = fst (getCachedKey files d db)" for d p
    by (simp add: getCachedKey_def loadKeyIndex_def Let_def)
  obtain db2 where g: "getCachedKey files (krDepotId resp)
      (db\<lparr>kdPending := (kdPending db)(krDepotId resp := None)\<rparr>) = (cached, db2)"
    using c [of "krDepotId resp"] assms(2) by (metis prod.collapse)
  show ?thesis
    using assms(1) unfolding recvDepotKey_def Let_def g classifyRecv_def
    by (cases "krEresult resp = eresult_ok") (auto split: if_splits)
qed

section \<open>Witnesses\<close>

definition sample_key :: bytes where "sample_key = replicate 32 7"

lemma managedDepots_exact_witness:
  "sorted_wrt (<) (fst (managedDepotsForApp [] 440 (run_ops (key_step {})
      [OpSave [] True 440 441 sample_key True] new_key_db)))"
  by (rule managedDepots_exact [OF refl _ surjective_pairing, THEN conjunct1]) simp

lemma managed_depot_sticky_witness:
  "isManagedDepot [] 441 (run_ops (key_step {}) [OpRecv [] True
      \<lparr>krEresult = 1, krDepotId = 441, krKey = replicate 32 9\<rparr>]
     (loadKeyIndex [] (run_ops (key_step {}) [OpSave [] True 440 441 sample_key True] new_key_db)))"
proof (rule managed_depot_sticky [OF refl])
  show "isManagedDepot [] 441 (run_ops (key_step {}) [OpSave [] True 440 441 sample_key True] new_key_db)"
    by code_simp
qed

lemma recvDepotKey_substitution_witness:
  "fst (fst (recvDepotKey {441} [] True \<lparr>krEresult = 2, krDepotId = 441, krKey = []\<rparr> new_key_db)) \<longleftrightarrow>
     (2::int) \<noteq> eresult_ok \<and> ((skDepotId (fst (getCachedKey [] 441 new_key_db)) \<noteq> 0 \<and>
        length (skKey (fst (getCachedKey [] 441 new_key_db))) = 32) \<or> (441::u32) \<in> {441})"
  using recvDepotKey_substitution [of "{441}" "[]" True "\<lparr>krEresult = 2, krDepotId = 441, krKey = []\<rparr>"
      new_key_db "fst (fst (recvDepotKey {441} [] True \<lparr>krEresult = 2, krDepotId = 441, krKey = []\<rparr> new_key_db))"
      "snd (fst (recvDepotKey {441} [] True \<lparr>krEresult = 2, krDepotId = 441, krKey = []\<rparr> new_key_db))"
      "snd (recvDepotKey {441} [] True \<lparr>krEresult = 2, krDepotId = 441, krKey = []\<rparr> new_key_db)", OF _ refl]
  by simp

end
