(* ===== verification/ByteCodec.thy ===== *)
theory ByteCodec
  imports Prelude
begin

text \<open>
  Little-endian integers in byte buffers, as the sources read and write them with \<open>memcpy\<close> on
  their (little-endian) targets, with the round trips in both directions.
\<close>

fun le_encode :: "nat \<Rightarrow> nat \<Rightarrow> bytes" where
  "le_encode 0 v = []"
| "le_encode (Suc n) v = of_nat (v mod 256) # le_encode n (v div 256)"

fun le_decode :: "bytes \<Rightarrow> nat" where
  "le_decode [] = 0"
| "le_decode (b # bs) = unat b + 256 * le_decode bs"

lemma length_le_encode [simp]: "length (le_encode n v) = n"
  by (induction n arbitrary: v) auto

lemma unat_byte_of_nat: "unat (of_nat (v mod 256) :: u8) = v mod 256"
  by (simp add: unat_of_nat)

lemma le_decode_encode [simp]: "le_decode (le_encode n v) = v mod 256 ^ n"
proof (induction n arbitrary: v)
  case (Suc n)
  have "v mod (256 * 256 ^ n) = v mod 256 + 256 * (v div 256 mod 256 ^ n)"
    by (simp add: mod_mult2_eq)
  then show ?case by (simp add: Suc.IH unat_byte_of_nat)
qed simp

lemma unat_byte_less: "unat (b :: u8) < 256"
  using unsigned_less [of b] by simp

lemma le_encode_decode [simp]: "le_encode (length bs) (le_decode bs) = bs"
proof (induction bs)
  case (Cons b bs)
  have "unat b < 256" by (rule unat_byte_less)
  then have "(unat b + 256 * le_decode bs) mod 256 = unat b"
    "(unat b + 256 * le_decode bs) div 256 = le_decode bs" by simp_all
  then show ?case using Cons.IH by simp
qed simp

lemma le_decode_bound: "le_decode bs < 256 ^ length bs"
proof (induction bs)
  case (Cons b bs)
  have "unat b < 256" by (rule unat_byte_less)
  then have "unat b + 256 * le_decode bs < 256 * (le_decode bs + 1)" by simp
  also have "\<dots> \<le> 256 * 256 ^ length bs" using Cons.IH by simp
  finally show ?case by simp
qed simp

definition le32 :: "u32 \<Rightarrow> bytes" where "le32 w = le_encode 4 (unat w)"
definition le64 :: "u64 \<Rightarrow> bytes" where "le64 w = le_encode 8 (unat w)"

text \<open>A read of a fixed-width integer at an offset that the caller has checked.\<close>

definition rd32 :: "bytes \<Rightarrow> nat \<Rightarrow> u32" where
  "rd32 bs off = of_nat (le_decode (take 4 (drop off bs)))"
definition rd64 :: "bytes \<Rightarrow> nat \<Rightarrow> u64" where
  "rd64 bs off = of_nat (le_decode (take 8 (drop off bs)))"

lemma length_le32 [simp]: "length (le32 w) = 4" by (simp add: le32_def)
lemma length_le64 [simp]: "length (le64 w) = 8" by (simp add: le64_def)

lemma unat32_less: "unat (w :: u32) < 2 ^ 32" using unsigned_less [of w] by simp
lemma unat64_less: "unat (w :: u64) < 2 ^ 64" using unsigned_less [of w] by simp

lemma rd32_le32 [simp]: "rd32 (le32 w @ rest) 0 = w"
proof -
  have "unat w < 256 ^ 4" using unat32_less [of w] by simp
  then show ?thesis by (simp add: rd32_def le32_def del: power_numeral)
qed

lemma rd64_le64 [simp]: "rd64 (le64 w @ rest) 0 = w"
proof -
  have "unat w < 256 ^ 8" using unat64_less [of w] by simp
  then show ?thesis by (simp add: rd64_def le64_def del: power_numeral)
qed

lemma rd32_append: "rd32 (xs @ le32 w @ rest) (length xs) = w"
  using rd32_le32 [of w rest] by (simp add: rd32_def)

lemma rd64_append: "rd64 (xs @ le64 w @ rest) (length xs) = w"
  using rd64_le64 [of w rest] by (simp add: rd64_def)

lemma le32_rd32: "off + 4 \<le> length bs \<Longrightarrow> le32 (rd32 bs off) = take 4 (drop off bs)"
proof -
  assume a: "off + 4 \<le> length bs"
  let ?t = "take 4 (drop off bs)"
  have l: "length ?t = 4" using a by simp
  have b: "le_decode ?t < 2 ^ 32" using le_decode_bound [of ?t] unfolding l by simp
  have "unat (of_nat (le_decode ?t) :: u32) = le_decode ?t" using b by (simp add: unat_of_nat)
  then show ?thesis using le_encode_decode [of ?t] unfolding le32_def rd32_def l by simp
qed

lemma rd32_shift: "rd32 bs (n + m) = rd32 (drop n bs) m"
  by (simp add: rd32_def add.commute)

lemma rd64_shift: "rd64 bs (n + m) = rd64 (drop n bs) m"
  by (simp add: rd64_def add.commute)

end
