(* ===== verification/CmWire.thy ===== *)
theory CmWire
  imports ByteCodec
begin

unbundle bit_operations_syntax

text \<open>
  \<open>src/feats/cmwire.hpp\<close>: the framing of Steam CM websocket packets and the splitting of
  decompressed multi messages. Byte strings are lists of bytes; the protobuf bodies the same file
  builds belong to the protobuf library. A \<open>std::string\<close> is shorter than \<open>2^32\<close> bytes in the 32-bit
  build, so \<open>8 + hl\<close> does not wrap where it is used as an offset.
\<close>

definition PROTO_MASK :: u32 where "PROTO_MASK = 0x80000000"

definition packPacket :: "u32 \<Rightarrow> bytes \<Rightarrow> bytes \<Rightarrow> bytes" where
  "packPacket emsg hdr body =
     (let e = emsg OR PROTO_MASK; hl = (of_nat (length hdr) :: u32)
      in le32 e @ le32 hl @ hdr @ body)"

definition parsePacket :: "bytes \<Rightarrow> (u32 \<times> bytes \<times> bytes) option" where
  "parsePacket d =
     (if length d < 8 then None
      else
        (let e = rd32 d 0; hl = unat (rd32 d 4)
         in if 8 + hl > length d then None
            else Some (e AND NOT PROTO_MASK, take hl (drop 8 d), drop (8 + hl) d)))"

text \<open>The record loop on the rest of the blob; \<open>None\<close> is the cleared result.\<close>

function expand_loop :: "bytes \<Rightarrow> bytes list option" where
  "expand_loop bs =
     (if length bs < 4 then Some []
      else
        (let sz = unat (rd32 bs 0); rest = drop 4 bs
         in if sz > length rest then None
            else (case expand_loop (drop sz rest) of
                    None \<Rightarrow> None
                  | Some out \<Rightarrow> Some (take sz rest # out))))"
  by pat_completeness auto
termination by (relation "measure length") auto

declare expand_loop.simps [simp del]

definition expandMultiBody :: "bytes \<Rightarrow> bytes list" where
  "expandMultiBody blob = (case expand_loop blob of None \<Rightarrow> [] | Some out \<Rightarrow> out)"

text \<open>The encoder on Steam's side: each packet behind its length.\<close>

definition multi_body :: "bytes list \<Rightarrow> bytes" where
  "multi_body packets = concat (map (\<lambda>p. le32 (of_nat (length p)) @ p) packets)"

lemma unat_of_length: "length p < 2 ^ 32 \<Longrightarrow> unat (of_nat (length p) :: u32) = length p"
  by (simp add: unat_of_nat)

lemma expand_loop_multi:
  "\<forall>p \<in> set packets. length p < 2 ^ 32 \<Longrightarrow> length trail < 4 \<Longrightarrow>
     expand_loop (multi_body packets @ trail) = Some packets"
proof (induction packets)
  case Nil
  then show ?case by (simp add: multi_body_def expand_loop.simps)
next
  case (Cons p ps)
  let ?rest = "multi_body ps @ trail"
  have e: "multi_body (p # ps) @ trail = le32 (of_nat (length p)) @ p @ ?rest"
    by (simp add: multi_body_def)
  have l: "unat (of_nat (length p) :: u32) = length p" using Cons.prems(1) by (intro unat_of_length) simp
  show ?case unfolding e using Cons by (subst expand_loop.simps) (simp add: Let_def l)
qed

text \<open>Everything the loop accepts is a run of framed packets and fewer than four bytes behind it.\<close>

lemma expand_loop_complete:
  "expand_loop bs = Some out \<Longrightarrow>
     \<exists>trail. bs = multi_body out @ trail \<and> length trail < 4 \<and> (\<forall>p \<in> set out. length p < 2 ^ 32)"
proof (induction bs arbitrary: out rule: expand_loop.induct)
  case (1 bs)
  show ?case
  proof (cases "length bs < 4")
    case True
    then show ?thesis using "1.prems" by (auto simp: expand_loop.simps [of bs] multi_body_def)
  next
    case False
    let ?sz = "unat (rd32 bs 0)" and ?rest = "drop 4 bs"
    have fits: "\<not> ?sz > length ?rest"
      using "1.prems" False by (auto simp: expand_loop.simps [of bs] Let_def split: if_splits)
    then obtain out' where o: "expand_loop (drop ?sz ?rest) = Some out'" "out = take ?sz ?rest # out'"
      using "1.prems" False
      by (auto simp: expand_loop.simps [of bs] Let_def split: if_splits option.splits)
    from "1.IH" [OF False refl refl fits o(1)] obtain trail where
      t: "drop ?sz ?rest = multi_body out' @ trail" "length trail < 4" "\<forall>p \<in> set out'. length p < 2 ^ 32"
      by blast
    have len: "length (take ?sz ?rest) = ?sz" using fits by simp
    have word: "le32 (rd32 bs 0) = take 4 bs" using False le32_rd32 [of 0 bs] by simp
    have "bs = take 4 bs @ take ?sz ?rest @ drop ?sz ?rest" by (metis append_take_drop_id)
    also have "\<dots> = le32 (of_nat (length (take ?sz ?rest))) @ take ?sz ?rest @ multi_body out' @ trail"
      using len t(1) word by (simp del: drop_drop)
    also have "\<dots> = multi_body out @ trail" by (simp add: o(2) multi_body_def)
    finally have "bs = multi_body out @ trail" .
    moreover have "length (take ?sz ?rest) < 2 ^ 32" unfolding len by (rule unat32_less)
    ultimately show ?thesis using t o(2) by auto
  qed
qed

lemma packet_roundtrip_aux:
  "length hdr < 2 ^ 32 \<Longrightarrow>
     parsePacket (packPacket emsg hdr body) = Some (emsg AND NOT PROTO_MASK, hdr, body)"
proof -
  assume h: "length hdr < 2 ^ 32"
  have e: "(emsg OR PROTO_MASK) AND NOT PROTO_MASK = emsg AND NOT PROTO_MASK"
    by (rule bit_eqI) (auto simp: bit_simps)
  have 4: "rd32 (le32 (emsg OR PROTO_MASK) @ le32 (of_nat (length hdr)) @ hdr @ body) 4 = of_nat (length hdr)"
    using rd32_append [of "le32 (emsg OR PROTO_MASK)"] by simp
  show ?thesis
    by (simp add: parsePacket_def packPacket_def Let_def 4 unat_of_length [OF h] e)
qed

section \<open>Properties\<close>

text \<open>a packed packet parses back to its message number without the protobuf mark, its header and
  its body.\<close>

theorem packet_roundtrip:
  "length hdr < 2 ^ 32 \<Longrightarrow>
     parsePacket (packPacket emsg hdr body) = Some (emsg AND NOT PROTO_MASK, hdr, body)"
  by (rule packet_roundtrip_aux)

lemma packet_roundtrip_witness:
  "parsePacket (packPacket 8904 [1, 2, 3] [9]) = Some (8904 AND NOT PROTO_MASK, [1, 2, 3], [9])"
  by (rule packet_roundtrip) simp

text \<open>whatever packet is accepted is its four-byte message word, a header of the announced length
  and the body, nothing lost and nothing beyond the buffer.\<close>

theorem parsePacket_sound:
  assumes "parsePacket d = Some (emsg, hdr, body)"
  shows "\<exists>e. emsg = e AND NOT PROTO_MASK \<and> d = le32 e @ le32 (of_nat (length hdr)) @ hdr @ body"
proof -
  let ?hl = "unat (rd32 d 4)"
  have a: "8 \<le> length d" "8 + ?hl \<le> length d" "emsg = rd32 d 0 AND NOT PROTO_MASK"
    "hdr = take ?hl (drop 8 d)" "body = drop (8 + ?hl) d"
    using assms by (auto simp: parsePacket_def Let_def split: if_splits)
  have len: "length hdr = ?hl" using a by simp
  have "d = take 4 d @ take 4 (drop 4 d) @ take ?hl (drop 8 d) @ drop ?hl (drop 8 d)"
    using take_add [of 4 4 d] append_take_drop_id [of 8 d] append_take_drop_id [of ?hl "drop 8 d"]
    by simp
  moreover have "le32 (rd32 d 0) = take 4 d" "le32 (rd32 d 4) = take 4 (drop 4 d)"
    using a(1) le32_rd32 [of 0 d] le32_rd32 [of 4 d] by simp_all
  ultimately have "d = le32 (rd32 d 0) @ le32 (of_nat (length hdr)) @ hdr @ body"
    using a(4,5) len by (simp add: add.commute)
  then show ?thesis using a(3) by blast
qed

lemma parsePacket_sound_witness:
  "\<exists>e. (8904 AND NOT PROTO_MASK) = e AND NOT PROTO_MASK \<and>
     packPacket 8904 [1] [9] = le32 e @ le32 (of_nat (length [1 :: u8])) @ [1] @ [9]"
proof (rule parsePacket_sound)
  show "parsePacket (packPacket 8904 [1] [9]) = Some (8904 AND NOT PROTO_MASK, [1], [9])"
    by (rule packet_roundtrip_aux) simp
qed

text \<open>splitting a multi body returns exactly its packets, in order, and rejects a stream whose last
  length prefix runs past the end instead of returning a prefix of it.\<close>

theorem expandMultiBody_exact:
  "expandMultiBody blob = packets \<and> packets \<noteq> [] \<longleftrightarrow>
     packets \<noteq> [] \<and> (\<exists>trail. blob = multi_body packets @ trail \<and> length trail < 4 \<and>
        (\<nexists>p. p \<in> set packets \<and> 2 ^ 32 \<le> length p))"
proof
  assume "expandMultiBody blob = packets \<and> packets \<noteq> []"
  then have "expand_loop blob = Some packets" "packets \<noteq> []"
    by (auto simp: expandMultiBody_def split: option.splits)
  with expand_loop_complete [OF this(1)] show "packets \<noteq> [] \<and> (\<exists>trail. blob = multi_body packets @ trail \<and>
      length trail < 4 \<and> (\<nexists>p. p \<in> set packets \<and> 2 ^ 32 \<le> length p))"
    by (auto simp: not_le)
next
  assume "packets \<noteq> [] \<and> (\<exists>trail. blob = multi_body packets @ trail \<and> length trail < 4 \<and>
        (\<nexists>p. p \<in> set packets \<and> 2 ^ 32 \<le> length p))"
  then show "expandMultiBody blob = packets \<and> packets \<noteq> []"
    using expand_loop_multi [of packets] by (auto simp: expandMultiBody_def not_le)
qed

end
