(* ===== verification/AppInfoFile.thy ===== *)
theory AppInfoFile
  imports ByteCodec CppText
begin

text \<open>
  The version-41 \<open>appinfo.vdf\<close> container of \<open>src/feats/appinfo_vdf.cpp\<close>: entries with opaque binary
  payloads and a string table the payloads index. File contents are byte lists; offsets held in a
  \<open>size_t\<close> are those of the 32-bit build, where the 64-bit table offset of the header is truncated.
\<close>

section \<open>Cache file names\<close>

definition parsePicsBufferName :: "string \<Rightarrow> u32 option" where
  "parsePicsBufferName name =
     (let prefix = ''picsbuffer_''; suffix = ''.yaml'' in
      if length name \<le> length prefix + length suffix then None
      else if \<not> starts_with prefix name then None
      else if \<not> ends_with suffix name then None
      else (case from_chars_all u32_max
                   (take (length name - length prefix - length suffix) (drop (length prefix) name)) of
              None \<Rightarrow> None
            | Some n \<Rightarrow> Some (of_nat n)))"

section \<open>The parsed file\<close>

record app_entry =
  aeAppId :: u32
  aeInfoState :: u32
  aeLastUpdated :: u32
  aePicsToken :: u64
  aeSha :: bytes
  aeChangeNumber :: u32
  aeBinaryHash :: bytes
  aeBinaryVdf :: bytes

record app_info_file =
  afUniverse :: u32
  afApps :: "app_entry list"
  afStrings :: "bytes list"
  afStringIndex :: "bytes \<rightharpoonup> u32"

definition empty_file :: app_info_file where
  "empty_file = \<lparr>afUniverse = 1, afApps = [], afStrings = [], afStringIndex = Map.empty\<rparr>"

definition internStringIndex :: "bytes \<Rightarrow> app_info_file \<Rightarrow> u32 \<times> app_info_file" where
  "internStringIndex s f =
     (case afStringIndex f s of
        Some i \<Rightarrow> (i, f)
      | None \<Rightarrow>
          (let i = of_nat (length (afStrings f)) in
           (i, f\<lparr>afStrings := afStrings f @ [s], afStringIndex := (afStringIndex f)(s \<mapsto> i)\<rparr>)))"

section \<open>Reading\<close>

datatype vdf_error =
    FileTooSmall | UnsupportedMagic | TableOffsetOutOfRange | TableTruncated | TableMissingTerminator
  | TruncatedBeforeFooter | TruncatedEntryHeader | EntrySizeExceeds | EntryHeaderTooSmall
  | EmptyWire | NoTopLevelKey | ExpectedValueOrBrace | UnterminatedObject | ExpectedKey
  | NestingTooDeep | UnexpectedNodeType | KeyIndexTruncated | KeyIndexOutside
  | StringNotTerminated | MissingEndMarker | EmptyKv | TrailingBytes | ShaSize | EmptyBuffer
  | FuelExhausted

definition MAGIC_V41 :: u32 where "MAGIC_V41 = 0x07564429"

text \<open>\<open>unordered_map::emplace\<close> keeps an existing entry.\<close>

definition emplace :: "'k \<Rightarrow> 'v \<Rightarrow> ('k \<rightharpoonup> 'v) \<Rightarrow> ('k \<rightharpoonup> 'v)" where
  "emplace k v m = (case m k of None \<Rightarrow> m(k \<mapsto> v) | Some _ \<Rightarrow> m)"

fun read_strings ::
  "nat \<Rightarrow> nat \<Rightarrow> bytes \<Rightarrow> bytes list \<Rightarrow> (bytes \<rightharpoonup> u32) \<Rightarrow> vdf_error + bytes list \<times> (bytes \<rightharpoonup> u32)"
where
  "read_strings 0 i p ss m = Inr (ss, m)"
| "read_strings (Suc n) i p ss m =
     (if 0 \<notin> set p then Inl TableMissingTerminator
      else (let s = takeWhile (\<lambda>b. b \<noteq> 0) p
            in read_strings n (Suc i) (drop (Suc (length s)) p) (ss @ [s]) (emplace s (of_nat i) m)))"

definition headerBytes :: nat where "headerBytes = 60"

definition entry_at :: "bytes \<Rightarrow> u32 \<Rightarrow> nat \<Rightarrow> nat \<Rightarrow> app_entry" where
  "entry_at buf appid pos entrySize =
     \<lparr>aeAppId = appid, aeInfoState = rd32 buf pos, aeLastUpdated = rd32 buf (pos + 4),
      aePicsToken = rd64 buf (pos + 8), aeSha = take 20 (drop (pos + 16) buf),
      aeChangeNumber = rd32 buf (pos + 36), aeBinaryHash = take 20 (drop (pos + 40) buf),
      aeBinaryVdf = take (entrySize - headerBytes) (drop (pos + headerBytes) buf)\<rparr>"

function read_apps :: "bytes \<Rightarrow> nat \<Rightarrow> nat \<Rightarrow> app_entry list \<Rightarrow> vdf_error + app_entry list" where
  "read_apps buf sto pos apps =
     (if \<not> pos < sto then Inr apps
      else if sto - pos < 4 then Inl TruncatedBeforeFooter
      else
        (let appid = rd32 buf pos in
         if appid = 0 then Inr apps
         else if sto - (pos + 4) < 4 then Inl TruncatedEntryHeader
         else
           (let entrySize = unat (rd32 buf (pos + 4)) in
            if entrySize > sto - (pos + 8) then Inl EntrySizeExceeds
            else if entrySize < headerBytes then Inl EntryHeaderTooSmall
            else read_apps buf sto (pos + 8 + entrySize)
                   (apps @ [entry_at buf appid (pos + 8) entrySize]))))"
  by pat_completeness auto
termination by (relation "measure (\<lambda>(buf, sto, pos, apps). sto - pos)") auto

declare read_apps.simps [simp del]

definition readV41 :: "bytes \<Rightarrow> vdf_error + app_info_file" where
  "readV41 buf =
     (if length buf < 16 then Inl FileTooSmall
      else if rd32 buf 0 \<noteq> MAGIC_V41 then Inl UnsupportedMagic
      else
        (let sto = unat (ucast (rd64 buf 8) :: u32) in
         if sto < 16 \<or> sto > length buf then Inl TableOffsetOutOfRange
         else
           (let p = drop sto buf in
            if length p < 4 then Inl TableTruncated
            else
              (case read_strings (unat (rd32 p 0)) 0 (drop 4 p) [] Map.empty of
                 Inl e \<Rightarrow> Inl e
               | Inr (ss, m) \<Rightarrow>
                   (case read_apps buf sto 16 [] of
                      Inl e \<Rightarrow> Inl e
                    | Inr apps \<Rightarrow>
                        Inr \<lparr>afUniverse = rd32 buf 4, afApps = apps, afStrings = ss,
                             afStringIndex = m\<rparr>)))))"

section \<open>Writing\<close>

definition entry_payload :: "app_entry \<Rightarrow> bytes" where
  "entry_payload e =
     le32 (aeInfoState e) @ le32 (aeLastUpdated e) @ le64 (aePicsToken e) @ aeSha e @
     le32 (aeChangeNumber e) @ aeBinaryHash e @ aeBinaryVdf e"

definition entry_bytes :: "app_entry \<Rightarrow> bytes" where
  "entry_bytes e =
     (let payload = entry_payload e
      in le32 (aeAppId e) @ le32 (of_nat (length payload)) @ payload)"

definition serialize_body :: "app_info_file \<Rightarrow> bytes" where
  "serialize_body f = concat (map entry_bytes (afApps f)) @ le32 0"

definition serialize_table :: "bytes list \<Rightarrow> bytes" where
  "serialize_table ss = le32 (of_nat (length ss)) @ concat (map (\<lambda>s. s @ [0]) ss)"

definition serializeV41 :: "app_info_file \<Rightarrow> bytes" where
  "serializeV41 f =
     (let body = serialize_body f
      in le32 MAGIC_V41 @ le32 (afUniverse f) @ le64 (of_nat (16 + length body)) @ body @
         serialize_table (afStrings f))"

section \<open>Well-formed files\<close>

text \<open>The index of a table: every string at its first position.\<close>

fun index_from :: "nat \<Rightarrow> bytes list \<Rightarrow> (bytes \<rightharpoonup> u32) \<Rightarrow> (bytes \<rightharpoonup> u32)" where
  "index_from i [] m = m"
| "index_from i (s # ss) m = index_from (Suc i) ss (emplace s (of_nat i) m)"

definition entry_wf :: "app_entry \<Rightarrow> bool" where
  "entry_wf e \<longleftrightarrow> aeAppId e \<noteq> 0 \<and> length (aeSha e) = 20 \<and> length (aeBinaryHash e) = 20"

definition file_wf :: "app_info_file \<Rightarrow> bool" where
  "file_wf f \<longleftrightarrow> (\<forall>e \<in> set (afApps f). entry_wf e) \<and> (\<forall>s \<in> set (afStrings f). 0 \<notin> set s) \<and>
     afStringIndex f = index_from 0 (afStrings f) Map.empty \<and>
     length (serializeV41 f) < 2 ^ 32"

section \<open>The string table\<close>

lemma takeWhile_nul: "0 \<notin> set s \<Longrightarrow> takeWhile (\<lambda>b. b \<noteq> (0::u8)) (s @ 0 # rest) = s"
  by (induction s) auto

lemma read_strings_table:
  "\<forall>s \<in> set ss. 0 \<notin> set s \<Longrightarrow>
     read_strings (length ss) i (concat (map (\<lambda>s. s @ [0]) ss) @ rest) acc m
       = Inr (acc @ ss, index_from i ss m)"
  by (induction ss arbitrary: i acc m) (simp_all add: takeWhile_nul)

lemma takeWhile_shorter: "0 \<in> set p \<Longrightarrow> length (takeWhile (\<lambda>b. b \<noteq> (0::u8)) p) < length p"
  by (induction p) auto

lemma read_strings_result:
  "read_strings n i p acc m = Inr (ss, m') \<Longrightarrow>
     \<exists>new. ss = acc @ new \<and> length new = n \<and> (\<forall>s \<in> set new. 0 \<notin> set s) \<and>
       m' = index_from i new m \<and> length (concat (map (\<lambda>s. s @ [0]) new)) \<le> length p"
proof (induction n arbitrary: i p acc m)
  case (Suc n)
  let ?s = "takeWhile (\<lambda>b. b \<noteq> 0) p"
  have nul: "0 \<in> set p" using Suc.prems by (auto split: if_splits)
  then have "read_strings n (Suc i) (drop (Suc (length ?s)) p) (acc @ [?s]) (emplace ?s (of_nat i) m)
      = Inr (ss, m')" using Suc.prems by (simp add: Let_def)
  from Suc.IH [OF this] obtain new where N: "ss = (acc @ [?s]) @ new" "length new = n"
    "\<forall>s \<in> set new. 0 \<notin> set s" "m' = index_from (Suc i) new (emplace ?s (of_nat i) m)"
    "length (concat (map (\<lambda>s. s @ [0]) new)) \<le> length (drop (Suc (length ?s)) p)" by blast
  have "0 \<notin> set ?s" by (auto dest: set_takeWhileD)
  moreover have "length ?s < length p"
    using nul by (rule takeWhile_shorter)
  ultimately show ?case using N by (intro exI [of _ "?s # new"]) simp
qed simp

section \<open>The entries\<close>

lemma rd32_at: "rd32 (xs @ ys) (length xs + k) = rd32 ys k"
  by (simp add: rd32_def)

lemma rd64_at: "rd64 (xs @ ys) (length xs + k) = rd64 ys k"
  by (simp add: rd64_def)

lemma length_entry_payload:
  "entry_wf e \<Longrightarrow> length (entry_payload e) = headerBytes + length (aeBinaryVdf e)"
  by (simp add: entry_payload_def entry_wf_def headerBytes_def)

lemma take_exact: "length xs = n \<Longrightarrow> take n (xs @ ys) = xs"
  by simp

lemma entry_at_payload:
  assumes wf: "entry_wf e"
  shows "entry_at (pre @ entry_payload e @ post) (aeAppId e) (length pre) (length (entry_payload e)) = e"
proof -
  have l: "length (aeSha e) = 20" "length (aeBinaryHash e) = 20" using wf by (simp_all add: entry_wf_def)
  note at = rd32_at [of pre "entry_payload e @ post"] rd64_at [of pre "entry_payload e @ post"]
  have "rd32 (entry_payload e @ post) 0 = aeInfoState e" by (simp add: entry_payload_def)
  moreover have "rd32 (entry_payload e @ post) 4 = aeLastUpdated e"
    using rd32_append [of "le32 (aeInfoState e)"] by (simp add: entry_payload_def)
  moreover have "rd64 (entry_payload e @ post) 8 = aePicsToken e"
    using rd64_append [of "le32 (aeInfoState e) @ le32 (aeLastUpdated e)"] by (simp add: entry_payload_def)
  moreover have "rd32 (entry_payload e @ post) 36 = aeChangeNumber e"
    using rd32_append [of "le32 (aeInfoState e) @ le32 (aeLastUpdated e) @ le64 (aePicsToken e) @ aeSha e"]
    by (simp add: entry_payload_def l)
  moreover have "take 20 (drop (length pre + 16) (pre @ entry_payload e @ post)) = aeSha e"
    "take 20 (drop (length pre + 40) (pre @ entry_payload e @ post)) = aeBinaryHash e"
    by (simp_all add: entry_payload_def l)
  moreover have "drop (length pre + headerBytes) (pre @ entry_payload e @ post) = aeBinaryVdf e @ post"
    by (simp add: entry_payload_def l headerBytes_def)
  ultimately show ?thesis
    using at(1) [of 0] at(1) [of 4] at(1) [of 36] at(2) [of 8]
    by (simp add: entry_at_def length_entry_payload [OF wf])
qed

lemma read_apps_entries:
  assumes "\<forall>e \<in> set es. entry_wf e" "length pre + length (concat (map entry_bytes es)) + 4 = sto"
    and "sto < 2 ^ 32"
  shows "read_apps (pre @ concat (map entry_bytes es) @ le32 0 @ post) sto (length pre) acc = Inr (acc @ es)"
  using assms
proof (induction es arbitrary: pre acc)
  case Nil
  have "rd32 (pre @ le32 0 @ post) (length pre) = 0" by (rule rd32_append)
  then show ?case using Nil by (subst read_apps.simps) simp
next
  case (Cons e es)
  let ?tail = "concat (map entry_bytes es) @ le32 0 @ post"
  let ?buf = "pre @ concat (map entry_bytes (e # es)) @ le32 0 @ post"
  let ?n = "length (entry_payload e)"
  have wf: "entry_wf e" using Cons.prems by simp
  have buf: "?buf = pre @ le32 (aeAppId e) @ le32 (of_nat ?n) @ entry_payload e @ ?tail"
    by (simp add: entry_bytes_def Let_def)
  have len: "length (entry_bytes e) = 8 + ?n" by (simp add: entry_bytes_def Let_def)
  have size: "unat (of_nat ?n :: u32) = ?n"
    using Cons.prems(2,3) len by (simp add: unat_of_nat)
  have r0: "rd32 ?buf (length pre) = aeAppId e" unfolding buf by (rule rd32_append)
  have r4: "rd32 ?buf (length pre + 4) = of_nat ?n"
    unfolding buf using rd32_append [of "pre @ le32 (aeAppId e)"] by simp
  have at: "entry_at ?buf (aeAppId e) (length pre + 8) ?n = e"
    unfolding buf using entry_at_payload [OF wf, of "pre @ le32 (aeAppId e) @ le32 (of_nat ?n)"] by simp
  let ?pre = "pre @ le32 (aeAppId e) @ le32 (of_nat ?n) @ entry_payload e"
  have ih: "read_apps (?pre @ ?tail) sto (length ?pre) (acc @ [e]) = Inr ((acc @ [e]) @ es)"
    using Cons.prems len by (intro Cons.IH) simp_all
  define B where "B = ?buf"
  have B: "rd32 B (length pre) = aeAppId e" "rd32 B (length pre + 4) = of_nat ?n"
    "entry_at B (aeAppId e) (length pre + 8) ?n = e"
    unfolding B_def by (fact r0, fact r4, fact at)
  have room: "length pre + 8 + ?n + 4 \<le> sto" using Cons.prems(2) len by simp
  have app: "aeAppId e \<noteq> 0" using wf by (simp add: entry_wf_def)
  have head: "headerBytes \<le> ?n" by (simp add: length_entry_payload [OF wf])
  have "read_apps B sto (length pre) acc = read_apps B sto (length pre + 8 + ?n) (acc @ [e])"
  proof -
    have "length pre < sto" "\<not> sto - length pre < 4" "\<not> sto - (length pre + 4) < 4"
      "\<not> ?n > sto - (length pre + 8)" "\<not> ?n < headerBytes"
      using room head by linarith+
    then show ?thesis using app by (subst read_apps.simps) (simp add: B size Let_def)
  qed
  then show ?case using ih unfolding B_def buf by (simp add: add.assoc)
qed

lemma entry_at_wf:
  assumes "pos + n \<le> length buf" "headerBytes \<le> n" "a \<noteq> 0"
  shows "entry_wf (entry_at buf a pos n) \<and>
    length (entry_payload (entry_at buf a pos n)) = n"
  using assms by (simp add: entry_wf_def entry_at_def entry_payload_def headerBytes_def)

lemma read_apps_result:
  "read_apps buf sto pos acc = Inr apps \<Longrightarrow> sto \<le> length buf \<Longrightarrow> pos \<le> sto \<Longrightarrow>
     \<exists>new. apps = acc @ new \<and> (\<forall>e \<in> set new. entry_wf e) \<and>
       length (concat (map entry_bytes new)) \<le> sto - pos"
proof (induction buf sto pos acc rule: read_apps.induct)
  case (1 buf sto pos acc)
  let ?n = "unat (rd32 buf (pos + 4))"
  consider (stop) "apps = acc" | (more) "pos < sto" "\<not> sto - pos < 4" "rd32 buf pos \<noteq> 0"
      "\<not> sto - (pos + 4) < 4" "\<not> ?n > sto - (pos + 8)" "\<not> ?n < headerBytes"
    using "1.prems"(1) by (subst (asm) read_apps.simps) (auto simp: Let_def split: if_splits)
  then show ?case
  proof cases
    case more
    let ?e = "entry_at buf (rd32 buf pos) (pos + 8) ?n"
    have rest: "read_apps buf sto (pos + 8 + ?n) (acc @ [?e]) = Inr apps"
      using "1.prems"(1) more by (subst (asm) read_apps.simps) (simp add: Let_def)
    have fits: "pos + 8 + ?n \<le> sto" using more by linarith
    from "1.IH" [OF _ more(2) refl more(3,4) refl more(5,6) rest "1.prems"(2) fits] more(1)
    obtain new where N: "apps = (acc @ [?e]) @ new" "\<forall>e \<in> set new. entry_wf e"
      "length (concat (map entry_bytes new)) \<le> sto - (pos + 8 + ?n)" by blast
    have e: "entry_wf ?e \<and> length (entry_payload ?e) = ?n"
      using more fits "1.prems"(2) by (intro entry_at_wf) auto
    then have "length (entry_bytes ?e) = 8 + ?n" by (simp add: entry_bytes_def Let_def)
    then show ?thesis using N e fits by (intro exI [of _ "?e # new"]) simp
  qed simp
qed

section \<open>Round trips\<close>

lemma serialize_length:
  "length (serializeV41 f) =
     24 + length (concat (map entry_bytes (afApps f))) + length (concat (map (\<lambda>s. s @ [0]) (afStrings f)))"
  by (simp add: serializeV41_def serialize_body_def serialize_table_def Let_def)

lemma strings_le_table: "length ss \<le> length (concat (map (\<lambda>s. s @ [0::u8]) ss))"
  by (induction ss) auto

lemma unat_truncated_offset: "n < 2 ^ 32 \<Longrightarrow> unat (ucast (of_nat n :: u64) :: u32) = n"
  by (simp add: unsigned_ucast_eq unat_of_nat take_bit_nat_def)

text \<open>The reader finds the entries whatever the table holds; the strings are as it splits them.\<close>

lemma readV41_serialize:
  assumes wf: "\<forall>e \<in> set (afApps f). entry_wf e" and len: "length (serializeV41 f) < 2 ^ 32"
    and strs: "read_strings (length (afStrings f)) 0 (concat (map (\<lambda>s. s @ [0]) (afStrings f))) [] Map.empty
      = Inr (ss, m)"
  shows "readV41 (serializeV41 f) = Inr (f\<lparr>afStrings := ss, afStringIndex := m\<rparr>)"
proof -
  let ?es = "concat (map entry_bytes (afApps f))"
  let ?strs = "concat (map (\<lambda>s. s @ [0]) (afStrings f))"
  let ?sto = "16 + length (serialize_body f)"
  let ?head = "le32 MAGIC_V41 @ le32 (afUniverse f) @ le64 (of_nat ?sto)"
  let ?buf = "serializeV41 f"
  have buf: "?buf = ?head @ ?es @ le32 0 @ serialize_table (afStrings f)"
    by (simp add: serializeV41_def serialize_body_def Let_def)
  have body: "length (serialize_body f) = length ?es + 4" by (simp add: serialize_body_def)
  have total: "length ?buf = ?sto + 4 + length ?strs" by (simp add: serialize_length body)
  have stolt: "?sto < 2 ^ 32" using len total by linarith
  have r0: "rd32 ?buf 0 = MAGIC_V41" unfolding buf by simp
  have r4: "rd32 ?buf 4 = afUniverse f" unfolding buf using rd32_append [of "le32 MAGIC_V41"] by simp
  have r8: "rd64 ?buf 8 = of_nat ?sto"
    unfolding buf using rd64_append [of "le32 MAGIC_V41 @ le32 (afUniverse f)"] by simp
  have sto: "unat (ucast (rd64 ?buf 8) :: u32) = ?sto"
    unfolding r8 by (rule unat_truncated_offset [OF stolt])
  have drop: "drop ?sto ?buf = serialize_table (afStrings f)" unfolding buf by (simp add: body)
  have count: "unat (rd32 (serialize_table (afStrings f)) 0) = length (afStrings f)"
    using len total strings_le_table [of "afStrings f"]
    by (simp add: serialize_table_def unat_of_nat)
  have d4: "drop 4 (serialize_table (afStrings f)) = ?strs" by (simp add: serialize_table_def)
  have apps: "read_apps ?buf ?sto 16 [] = Inr (afApps f)"
    using read_apps_entries [of "afApps f" ?head ?sto "serialize_table (afStrings f)" "[]"] wf stolt
    unfolding buf by (simp add: body)
  have "length ?buf \<ge> 16" "?sto \<le> length ?buf" "length (serialize_table (afStrings f)) \<ge> 4"
    using total by (simp_all add: serialize_table_def)
  then show ?thesis
    by (simp add: readV41_def r0 r4 sto drop count d4 strs apps Let_def)
qed

lemma serialize_read_aux:
  assumes wf: "file_wf f"
  shows "readV41 (serializeV41 f) = Inr f"
proof -
  have "read_strings (length (afStrings f)) 0 (concat (map (\<lambda>s. s @ [0]) (afStrings f))) [] Map.empty
      = Inr (afStrings f, afStringIndex f)"
    using read_strings_table [of "afStrings f" 0 "[]" "[]" Map.empty] wf by (simp add: file_wf_def)
  with wf show ?thesis using readV41_serialize [of f] by (simp add: file_wf_def)
qed

lemma read_wf:
  assumes r: "readV41 d = Inr f" and len: "length d + 4 < 2 ^ 32"
  shows "file_wf f"
proof -
  let ?sto = "unat (ucast (rd64 d 8) :: u32)"
  have sto: "16 \<le> ?sto" "?sto + 4 \<le> length d"
    using r by (auto simp: readV41_def Let_def split: if_splits)
  obtain ss m where ss: "read_strings (unat (rd32 (drop ?sto d) 0)) 0 (drop 4 (drop ?sto d)) [] Map.empty
      = Inr (ss, m)" and apps: "read_apps d ?sto 16 [] = Inr (afApps f)"
    and f: "afStrings f = ss" "afStringIndex f = m"
    using r by (auto simp: readV41_def Let_def split: if_splits sum.splits)
  from read_strings_result [OF ss] have S: "\<forall>s \<in> set ss. 0 \<notin> set s" "m = index_from 0 ss Map.empty"
    "length (concat (map (\<lambda>s. s @ [0]) ss)) \<le> length d - ?sto - 4" by auto
  from read_apps_result [OF apps] sto have A: "\<forall>e \<in> set (afApps f). entry_wf e"
    "length (concat (map entry_bytes (afApps f))) \<le> ?sto - 16" by auto
  have "length (serializeV41 f) \<le> length d + 4"
    using S(3) A(2) sto unfolding serialize_length f(1) by linarith
  then show ?thesis using A S f len by (simp add: file_wf_def)
qed

section \<open>Interning\<close>

lemma index_from_append:
  "index_from i (ss @ ts) m = index_from (i + length ss) ts (index_from i ss m)"
  by (induction ss arbitrary: i m) auto

lemma index_from_dom: "dom (index_from i ss m) = dom m \<union> set ss"
  by (induction ss arbitrary: i m) (auto simp: emplace_def split: option.splits)

lemma index_from_keep: "m s = Some v \<Longrightarrow> index_from i ss m s = Some v"
proof (induction ss arbitrary: i m)
  case (Cons a ss)
  have "emplace a (of_nat i) m s = Some v"
    using Cons.prems by (auto simp: emplace_def split: option.splits)
  then show ?case using Cons.IH by simp
qed simp

text \<open>An index names a position of the table that holds the string.\<close>

lemma index_from_sound:
  "i + length ss < 2 ^ 32 \<Longrightarrow> index_from i ss m s = Some k \<Longrightarrow> m s = None \<Longrightarrow>
     i \<le> unat k \<and> unat k < i + length ss \<and> ss ! (unat k - i) = s"
proof (induction ss arbitrary: i m)
  case (Cons t ts)
  show ?case
  proof (cases "s = t")
    case True
    have "index_from (Suc i) ts (emplace t (of_nat i) m) s = Some (of_nat i)"
      by (rule index_from_keep) (use True Cons.prems(3) in \<open>simp add: emplace_def\<close>)
    then have "k = of_nat i" using Cons.prems(2) by simp
    then show ?thesis using True Cons.prems(1) by (simp add: unat_of_nat)
  next
    case False
    then have "emplace t (of_nat i) m s = None"
      using Cons.prems(3) by (auto simp: emplace_def split: option.splits)
    then have "Suc i \<le> unat k \<and> unat k < Suc i + length ts \<and> ts ! (unat k - Suc i) = s"
      using Cons.prems(1,2) Cons.IH [of "Suc i" "emplace t (of_nat i) m"] by simp
    then show ?thesis by (auto simp: nth_Cons' Suc_diff_le)
  qed
qed simp

definition table_ok :: "app_info_file \<Rightarrow> bool" where
  "table_ok f \<longleftrightarrow> afStringIndex f = index_from 0 (afStrings f) Map.empty"

lemma intern_facts:
  assumes ok: "table_ok f" and f': "internStringIndex s f = (k, f')"
  shows "table_ok f' \<and> afApps f' = afApps f \<and> afUniverse f' = afUniverse f \<and>
    (\<exists>ext. afStrings f' = afStrings f @ ext \<and> set ext \<subseteq> {s}) \<and>
    (length (afStrings f') < 2 ^ 32 \<longrightarrow> unat k < length (afStrings f') \<and> afStrings f' ! unat k = s)"
proof (cases "afStringIndex f s")
  case None
  then have e: "k = of_nat (length (afStrings f))"
    "f' = f\<lparr>afStrings := afStrings f @ [s], afStringIndex := (afStringIndex f)(s \<mapsto> k)\<rparr>"
    using f' by (auto simp: internStringIndex_def Let_def)
  have "table_ok f'" using ok None e by (simp add: table_ok_def index_from_append emplace_def)
  then show ?thesis using e by (auto simp: unat_of_nat)
next
  case (Some i)
  then have e: "k = i" "f' = f" using f' by (auto simp: internStringIndex_def)
  have "length (afStrings f) < 2 ^ 32 \<Longrightarrow> unat i < length (afStrings f) \<and> afStrings f ! unat i = s"
    using index_from_sound [of 0 "afStrings f" Map.empty s i] Some ok by (simp add: table_ok_def)
  then show ?thesis using ok e by auto
qed

section \<open>Properties\<close>

text \<open>serializing a well-formed file and reading it back gives the file: entries with their opaque
  payloads, string table in order, and the index of its first occurrences.\<close>

theorem serialize_read: "file_wf f \<Longrightarrow> readV41 (serializeV41 f) = Inr f"
  by (rule serialize_read_aux)

text \<open>whatever the reader accepts (up to four bytes below the 32-bit limit) is well formed, so
  rewriting it loses nothing: reading the rewritten bytes gives the same file.\<close>

theorem read_serialize_stable:
  assumes "readV41 d = Inr f" "length d + 4 < 2 ^ 32"
  shows "file_wf f \<and> readV41 (serializeV41 f) = Inr f"
  using read_wf [OF assms] serialize_read_aux by blast

section \<open>Witnesses\<close>

definition sample_file :: app_info_file where
  "sample_file = \<lparr>afUniverse = 1,
     afApps = [\<lparr>aeAppId = 440, aeInfoState = 2, aeLastUpdated = 0, aePicsToken = 0,
       aeSha = replicate 20 1, aeChangeNumber = 7, aeBinaryHash = replicate 20 0, aeBinaryVdf = [8]\<rparr>],
     afStrings = [[97]], afStringIndex = [[97] \<mapsto> 0]\<rparr>"

lemma sample_file_wf: "file_wf sample_file"
  unfolding file_wf_def serialize_length
  by (simp add: sample_file_def entry_wf_def emplace_def entry_bytes_def entry_payload_def Let_def)

lemma serialize_read_witness: "readV41 (serializeV41 sample_file) = Inr sample_file"
  by (rule serialize_read [OF sample_file_wf])

lemma read_serialize_stable_witness: "file_wf sample_file \<and> readV41 (serializeV41 sample_file) = Inr sample_file"
proof (rule read_serialize_stable)
  show "readV41 (serializeV41 sample_file) = Inr sample_file"
    by (rule serialize_read_aux [OF sample_file_wf])
  show "length (serializeV41 sample_file) + 4 < 2 ^ 32"
    unfolding serialize_length
    by (simp add: sample_file_def entry_bytes_def entry_payload_def Let_def)
qed

end
