(* ===== verification/KvText.thy ===== *)
theory KvText
  imports AppInfoFile
begin

text \<open>
  Text KeyValues and their binary form, from \<open>src/feats/appinfo_vdf.cpp\<close> (lexer, translation to
  v41-indexed binary, validation, merge into the file) and \<open>src/feats/appinfo_provision.cpp\<close> (the
  text writer). The recursive emitters take fuel; \<open>Suc\<close> of the input length is enough, since every
  token consumes a byte, and running out is a separate error that never occurs then.
\<close>

section \<open>The text writer\<close>

text \<open>A YAML node by its kind, and the printing of one map.\<close>

datatype ynode = YMap "(bytes \<times> ynode) list" | YScalar bytes | YSeq "ynode list" | YNull

definition str_bytes :: "string \<Rightarrow> bytes" where
  "str_bytes s = map (\<lambda>c. of_nat (char_code c)) s"

definition escape_byte :: "u8 \<Rightarrow> bytes" where
  "escape_byte c = (if c = 92 \<or> c = 34 then [92, c] else [c])"

definition emitEscaped :: "bytes \<Rightarrow> bytes" where
  "emitEscaped s = [34] @ concat (map escape_byte s) @ [34]"

definition tabs :: "nat \<Rightarrow> bytes" where
  "tabs d = replicate d 9"

fun emitMap :: "(bytes \<times> ynode) list \<Rightarrow> nat \<Rightarrow> bytes"
  and emitSeq :: "ynode list \<Rightarrow> nat \<Rightarrow> nat \<Rightarrow> bytes" where
  "emitMap [] d = []"
| "emitMap ((k, YMap m) # es) d =
     tabs d @ emitEscaped k @ [10] @ tabs d @ [123, 10] @ emitMap m (Suc d) @ tabs d @ [125, 10] @
     emitMap es d"
| "emitMap ((k, YScalar s) # es) d =
     tabs d @ emitEscaped k @ [9, 9] @ emitEscaped s @ [10] @ emitMap es d"
| "emitMap ((k, YSeq cs) # es) d =
     tabs d @ emitEscaped k @ [10] @ tabs d @ [123, 10] @ emitSeq cs 0 d @ tabs d @ [125, 10] @
     emitMap es d"
| "emitMap ((k, YNull) # es) d =
     tabs d @ emitEscaped k @ [9, 9, 34, 34, 10] @ emitMap es d"
| "emitSeq [] idx d = []"
| "emitSeq (YMap m # cs) idx d =
     tabs (Suc d) @ emitEscaped (str_bytes (to_dec idx)) @ [10] @ tabs (Suc d) @ [123, 10] @
     emitMap m (Suc (Suc d)) @ tabs (Suc d) @ [125, 10] @ emitSeq cs (Suc idx) d"
| "emitSeq (YScalar s # cs) idx d =
     tabs (Suc d) @ emitEscaped (str_bytes (to_dec idx)) @ [9, 9] @ emitEscaped s @ [10] @
     emitSeq cs (Suc idx) d"
| "emitSeq (YSeq xs # cs) idx d =
     tabs (Suc d) @ emitEscaped (str_bytes (to_dec idx)) @ [9, 9] @ emitEscaped [] @ [10] @
     emitSeq cs (Suc idx) d"
| "emitSeq (YNull # cs) idx d =
     tabs (Suc d) @ emitEscaped (str_bytes (to_dec idx)) @ [9, 9] @ emitEscaped [] @ [10] @
     emitSeq cs (Suc idx) d"

definition emitNode :: "ynode \<Rightarrow> nat \<Rightarrow> bytes" where
  "emitNode nd d = (case nd of YMap m \<Rightarrow> emitMap m d | _ \<Rightarrow> [])"

text \<open>The document around the body: \<open>"appinfo"\<close> and braces.\<close>

definition appinfo_key :: bytes where
  "appinfo_key = [97, 112, 112, 105, 110, 102, 111]"

definition wireOut :: "ynode \<Rightarrow> bytes" where
  "wireOut body = [34] @ appinfo_key @ [34, 10, 123, 10] @ emitNode body 1 @ [125, 10]"

section \<open>The lexer\<close>

datatype tok = TString bytes | TOpen | TClose | TEnd

definition is_ws :: "u8 \<Rightarrow> bool" where
  "is_ws c \<longleftrightarrow> c = 32 \<or> c = 9 \<or> c = 13 \<or> c = 10"

function skipWs :: "bytes \<Rightarrow> bytes" where
  "skipWs p =
     (case p of
        [] \<Rightarrow> []
      | c # cs \<Rightarrow>
          if is_ws c then skipWs cs
          else if c = 47 \<and> cs \<noteq> [] \<and> hd cs = 47 then skipWs (dropWhile (\<lambda>b. b \<noteq> 10) p)
          else p)"
  by pat_completeness auto
termination
proof (relation "measure length")
  fix p c cs assume "p = (c :: u8) # cs" "c = 47 \<and> cs \<noteq> [] \<and> hd cs = 47"
  then show "(dropWhile (\<lambda>b. b \<noteq> 10) p, p) \<in> measure length"
    using length_dropWhile_le [of "\<lambda>b. b \<noteq> 10" cs] by simp
qed simp_all

declare skipWs.simps [simp del]

definition unescape :: "u8 \<Rightarrow> u8" where
  "unescape e = (if e = 110 then 10 else if e = 116 then 9 else if e = 114 then 13 else e)"

text \<open>The text after the opening quote; \<open>None\<close> is an unterminated string.\<close>

fun readQuoted :: "bytes \<Rightarrow> (bytes \<times> bytes) option" where
  "readQuoted [] = None"
| "readQuoted (c # cs) =
     (if c = 34 then Some ([], cs)
      else if c = 92 then
        (case cs of
           [] \<Rightarrow> None
         | e # es \<Rightarrow> (case readQuoted es of None \<Rightarrow> None | Some (s, r) \<Rightarrow> Some (unescape e # s, r)))
      else (case readQuoted cs of None \<Rightarrow> None | Some (s, r) \<Rightarrow> Some (c # s, r)))"

definition bare_byte :: "u8 \<Rightarrow> bool" where
  "bare_byte c \<longleftrightarrow> \<not> is_ws c \<and> c \<noteq> 123 \<and> c \<noteq> 125 \<and> c \<noteq> 34"

definition next_tok :: "bytes \<Rightarrow> tok \<times> bytes" where
  "next_tok p =
     (case skipWs p of
        [] \<Rightarrow> (TEnd, [])
      | c # cs \<Rightarrow>
          if c = 123 then (TOpen, cs)
          else if c = 125 then (TClose, cs)
          else if c = 34 then (case readQuoted cs of None \<Rightarrow> (TEnd, []) | Some (s, r) \<Rightarrow> (TString s, r))
          else (TString (takeWhile bare_byte (c # cs)), dropWhile bare_byte (c # cs)))"

section \<open>Translation to indexed binary\<close>

text \<open>Results are the error if any, the rest of the text, and the file and output as far as they were
  written: a failed translation leaves its interned strings in the file.\<close>

type_synonym emit_result = "vdf_error option \<times> bytes \<times> app_info_file \<times> bytes"

definition emitString :: "bytes \<Rightarrow> bytes \<Rightarrow> app_info_file \<Rightarrow> bytes \<Rightarrow> app_info_file \<times> bytes" where
  "emitString key val f out =
     (let (idx, f') = internStringIndex key f in (f', out @ [1] @ le32 idx @ val @ [0]))"

fun emitPair :: "nat \<Rightarrow> bytes \<Rightarrow> bytes \<Rightarrow> app_info_file \<Rightarrow> bytes \<Rightarrow> emit_result"
  and emitObject :: "nat \<Rightarrow> bytes \<Rightarrow> app_info_file \<Rightarrow> bytes \<Rightarrow> emit_result" where
  "emitPair n key p f out =
     (case next_tok p of
        (TString val, p') \<Rightarrow> (let (f', out') = emitString key val f out in (None, p', f', out'))
      | (TOpen, p') \<Rightarrow>
          (let (idx, f') = internStringIndex key f
           in emitObject n p' f' (out @ [0] @ le32 idx))
      | (_, p') \<Rightarrow> (Some ExpectedValueOrBrace, p', f, out))"
| "emitObject 0 p f out = (Some FuelExhausted, p, f, out)"
| "emitObject (Suc n) p f out =
     (case next_tok p of
        (TClose, p') \<Rightarrow> (None, p', f, out @ [8])
      | (TEnd, p') \<Rightarrow> (Some UnterminatedObject, p', f, out)
      | (TOpen, p') \<Rightarrow> (Some ExpectedKey, p', f, out)
      | (TString key, p') \<Rightarrow>
          (case emitPair n key p' f out of
             (Some e, p2, f2, out2) \<Rightarrow> (Some e, p2, f2, out2)
           | (None, p2, f2, out2) \<Rightarrow> emitObject n p2 f2 out2))"

declare emitPair.simps [simp del] emitObject.simps [simp del]

definition wire_trailing :: "u8 \<Rightarrow> bool" where
  "wire_trailing c \<longleftrightarrow> c = 0 \<or> c = 10 \<or> c = 32 \<or> c = 9 \<or> c = 13"

definition trimmed :: "bytes \<Rightarrow> bytes" where
  "trimmed wire = rev (dropWhile wire_trailing (rev wire))"

definition translateWireToIndexed ::
  "bytes \<Rightarrow> app_info_file \<Rightarrow> vdf_error option \<times> app_info_file \<times> bytes" where
  "translateWireToIndexed wire f =
     (if wire = [] then (Some EmptyWire, f, [])
      else
        (case next_tok (trimmed wire) of
           (TString topKey, p) \<Rightarrow>
             (case emitPair (Suc (length wire)) topKey p f [] of
                (Some e, _, f', out) \<Rightarrow> (Some e, f', out)
              | (None, _, f', out) \<Rightarrow> (None, f', out @ [8]))
         | _ \<Rightarrow> (Some NoTopLevelKey, f, [])))"

section \<open>Validation\<close>

fun validateGeneratedObject :: "nat \<Rightarrow> nat \<Rightarrow> nat \<Rightarrow> bytes \<Rightarrow> vdf_error option \<times> bytes"
  and validate_loop :: "nat \<Rightarrow> nat \<Rightarrow> nat \<Rightarrow> bytes \<Rightarrow> vdf_error option \<times> bytes" where
  "validateGeneratedObject n keys depth rest =
     (if depth > 128 then (Some NestingTooDeep, rest) else validate_loop n keys depth rest)"
| "validate_loop 0 keys depth rest = (Some FuelExhausted, rest)"
| "validate_loop (Suc n) keys depth rest =
     (case rest of
        [] \<Rightarrow> (Some MissingEndMarker, [])
      | ty # r \<Rightarrow>
          if ty = 8 then (None, r)
          else if ty \<noteq> 0 \<and> ty \<noteq> 1 then (Some UnexpectedNodeType, r)
          else if length r < 4 then (Some KeyIndexTruncated, r)
          else
            (let keyIndex = unat (rd32 r 0); r4 = drop 4 r in
             if keyIndex \<ge> keys then (Some KeyIndexOutside, r4)
             else if ty = 0 then
               (case validateGeneratedObject n keys (Suc depth) r4 of
                  (Some e, r') \<Rightarrow> (Some e, r')
                | (None, r') \<Rightarrow> validate_loop n keys depth r')
             else if 0 \<notin> set r4 then (Some StringNotTerminated, r4)
             else validate_loop n keys depth (drop (Suc (length (takeWhile (\<lambda>b. b \<noteq> 0) r4))) r4)))"

declare validateGeneratedObject.simps [simp del] validate_loop.simps [simp del]

definition validateGeneratedVdf :: "bytes \<Rightarrow> app_info_file \<Rightarrow> vdf_error option" where
  "validateGeneratedVdf dat f =
     (if dat = [] then Some EmptyKv
      else (case validateGeneratedObject (Suc (length dat)) (length (afStrings f)) 0 dat of
              (Some e, _) \<Rightarrow> Some e
            | (None, rest) \<Rightarrow> if rest \<noteq> [] then Some TrailingBytes else None))"

section \<open>Merging one app\<close>

fun replace_first :: "app_entry \<Rightarrow> app_entry list \<Rightarrow> app_entry list" where
  "replace_first ne [] = [ne]"
| "replace_first ne (e # es) = (if aeAppId e = aeAppId ne then ne # es else e # replace_first ne es)"

text \<open>Result: the error if any, whether the file changed, and the file.\<close>

definition mergeAppImpl ::
  "(bytes \<Rightarrow> bytes) \<Rightarrow> u32 \<Rightarrow> u32 \<Rightarrow> bytes \<Rightarrow> bytes \<Rightarrow> app_info_file \<Rightarrow>
     vdf_error option \<times> bool \<times> app_info_file" where
  "mergeAppImpl sha1 appid changeNumber sha wireBuffer f =
     (if length sha \<noteq> 20 then (Some ShaSize, False, f)
      else if wireBuffer = [] then (Some EmptyBuffer, False, f)
      else if list_ex (\<lambda>e. aeAppId e = appid \<and> aeChangeNumber e = changeNumber \<and> aeSha e = sha)
                (afApps f)
      then (None, False, f)
      else
        (case translateWireToIndexed wireBuffer f of
           (Some e, f', _) \<Rightarrow> (Some e, False, f')
         | (None, f', indexed) \<Rightarrow>
             (case validateGeneratedVdf indexed f' of
                Some e \<Rightarrow> (Some e, False, f')
              | None \<Rightarrow>
                  (let ne = \<lparr>aeAppId = appid, aeInfoState = 2, aeLastUpdated = 0, aePicsToken = 0,
                             aeSha = sha, aeChangeNumber = changeNumber,
                             aeBinaryHash = sha1 indexed, aeBinaryVdf = indexed\<rparr>
                   in (None, True, f'\<lparr>afApps := replace_first ne (afApps f')\<rparr>)))))"

end
