(* ===== verification/KvRoundTrip.thy ===== *)
theory KvRoundTrip
  imports KvText
begin

text \<open>
  What the text writer, the translation and the validator of \<open>KvText\<close> mean: a tree of key-value
  pairs, its binary form, and a reference reader of that form. The lemmas show that printing,
  translating and reading back give the tree, that the validator accepts just what the reader can
  read, and that merging an app keeps every other record.
\<close>

section \<open>Trees\<close>

datatype kv = KvLeaf bytes bytes | KvObj bytes "kv list"

fun kv_of_map :: "(bytes \<times> ynode) list \<Rightarrow> kv list"
  and kv_of_seq :: "ynode list \<Rightarrow> nat \<Rightarrow> kv list" where
  "kv_of_map [] = []"
| "kv_of_map ((k, YMap m) # es) = KvObj k (kv_of_map m) # kv_of_map es"
| "kv_of_map ((k, YScalar s) # es) = KvLeaf k s # kv_of_map es"
| "kv_of_map ((k, YSeq cs) # es) = KvObj k (kv_of_seq cs 0) # kv_of_map es"
| "kv_of_map ((k, YNull) # es) = KvLeaf k [] # kv_of_map es"
| "kv_of_seq [] i = []"
| "kv_of_seq (YMap m # cs) i = KvObj (str_bytes (to_dec i)) (kv_of_map m) # kv_of_seq cs (Suc i)"
| "kv_of_seq (YScalar s # cs) i = KvLeaf (str_bytes (to_dec i)) s # kv_of_seq cs (Suc i)"
| "kv_of_seq (c # cs) i = KvLeaf (str_bytes (to_dec i)) [] # kv_of_seq cs (Suc i)"

fun nodes :: "kv list \<Rightarrow> nat" where
  "nodes [] = 0"
| "nodes (KvLeaf k v # ts) = Suc (nodes ts)"
| "nodes (KvObj k cs # ts) = Suc (nodes cs + nodes ts)"

fun kv_depth :: "kv list \<Rightarrow> nat" where
  "kv_depth [] = 0"
| "kv_depth (KvLeaf k v # ts) = kv_depth ts"
| "kv_depth (KvObj k cs # ts) = max (Suc (kv_depth cs)) (kv_depth ts)"

fun nul_free :: "kv list \<Rightarrow> bool" where
  "nul_free [] = True"
| "nul_free (KvLeaf k v # ts) \<longleftrightarrow> 0 \<notin> set k \<and> 0 \<notin> set v \<and> nul_free ts"
| "nul_free (KvObj k cs # ts) \<longleftrightarrow> 0 \<notin> set k \<and> nul_free cs \<and> nul_free ts"

text \<open>The binary form, with keys interned in the order the emitter meets them.\<close>

fun kv_emit :: "kv list \<Rightarrow> app_info_file \<Rightarrow> bytes \<times> app_info_file" where
  "kv_emit [] f = ([], f)"
| "kv_emit (KvLeaf k v # ts) f =
     (let (i, f1) = internStringIndex k f; (bs, f2) = kv_emit ts f1
      in ([1] @ le32 i @ v @ [0] @ bs, f2))"
| "kv_emit (KvObj k cs # ts) f =
     (let (i, f1) = internStringIndex k f; (cb, f2) = kv_emit cs f1; (bs, f3) = kv_emit ts f2
      in ([0] @ le32 i @ cb @ [8] @ bs, f3))"

text \<open>The reference reader of an indexed payload.\<close>

fun kv_parse :: "nat \<Rightarrow> bytes list \<Rightarrow> bytes \<Rightarrow> (kv list \<times> bytes) option" where
  "kv_parse 0 ss r = None"
| "kv_parse (Suc n) ss [] = None"
| "kv_parse (Suc n) ss (ty # r) =
     (if ty = 8 then Some ([], r)
      else if length r < 4 \<or> unat (rd32 r 0) \<ge> length ss then None
      else if ty = 0 then
        (case kv_parse n ss (drop 4 r) of
           None \<Rightarrow> None
         | Some (cs, r') \<Rightarrow>
             (case kv_parse n ss r' of
                None \<Rightarrow> None
              | Some (ts, r'') \<Rightarrow> Some (KvObj (ss ! unat (rd32 r 0)) cs # ts, r'')))
      else if ty = 1 \<and> 0 \<in> set (drop 4 r) then
        (let v = takeWhile (\<lambda>b. b \<noteq> 0) (drop 4 r)
         in case kv_parse n ss (drop (Suc (length v)) (drop 4 r)) of
              None \<Rightarrow> None
            | Some (ts, r'') \<Rightarrow> Some (KvLeaf (ss ! unat (rd32 r 0)) v # ts, r''))
      else None)"

definition kv_read :: "bytes list \<Rightarrow> bytes \<Rightarrow> kv list option" where
  "kv_read ss dat = (case kv_parse (Suc (length dat)) ss dat of Some (ts, []) \<Rightarrow> Some ts | _ \<Rightarrow> None)"

section \<open>Lexing what the writer prints\<close>

lemma skipWs_ws: "is_ws c \<Longrightarrow> skipWs (c # p) = skipWs p"
  by (subst skipWs.simps) simp

lemma skipWs_prefix: "list_all is_ws ws \<Longrightarrow> skipWs (ws @ p) = skipWs p"
  by (induction ws) (simp_all add: skipWs_ws)

lemma next_tok_prefix: "list_all is_ws ws \<Longrightarrow> next_tok (ws @ p) = next_tok p"
  by (simp add: next_tok_def skipWs_prefix)

lemma skipWs_stop: "\<not> is_ws c \<Longrightarrow> c \<noteq> 47 \<Longrightarrow> skipWs (c # p) = c # p"
  by (subst skipWs.simps) simp

lemma ws_values: "\<not> is_ws 34" "\<not> is_ws 123" "\<not> is_ws 125" "is_ws 10" "is_ws 9"
  by (simp_all add: is_ws_def)

lemma readQuoted_escaped: "readQuoted (concat (map escape_byte s) @ 34 # rest) = Some (s, rest)"
  by (induction s) (auto simp: escape_byte_def unescape_def)

lemma next_tok_escaped [simp]: "next_tok (emitEscaped s @ rest) = (TString s, rest)"
  by (simp add: next_tok_def emitEscaped_def skipWs_stop ws_values readQuoted_escaped)

lemma next_tok_braces [simp]:
  "next_tok (123 # rest) = (TOpen, rest)" "next_tok (125 # rest) = (TClose, rest)"
  by (simp_all add: next_tok_def skipWs_stop ws_values)

lemma ws_tabs [simp]: "list_all is_ws (tabs d)"
  by (simp add: tabs_def list_all_length ws_values)

lemma ws_newline [simp]: "list_all is_ws [10]" "list_all is_ws (10 # ws) = list_all is_ws ws"
  "list_all is_ws (9 # ws) = list_all is_ws ws"
  by (simp_all add: ws_values)

lemma emitObject_prefix: "list_all is_ws ws \<Longrightarrow> emitObject (Suc n) (ws @ p) f out = emitObject (Suc n) p f out"
  by (simp add: emitObject.simps next_tok_prefix)

lemma emitObject_close: "list_all is_ws ws \<Longrightarrow> emitObject (Suc n) (ws @ 125 # p) f out = (None, p, f, out @ [8])"
  by (simp add: emitObject.simps next_tok_prefix)

lemma emitObject_leaf:
  assumes "list_all is_ws w1" "list_all is_ws w2" "list_all is_ws w3" "internStringIndex k f = (i, f1)"
  shows "emitObject (Suc (Suc n)) (w1 @ emitEscaped k @ w2 @ emitEscaped v @ w3 @ p) f out =
    emitObject (Suc n) p f1 (out @ [1] @ le32 i @ v @ [0])"
  using assms
  by (simp add: emitObject.simps(2) [of "Suc n" "w1 @ _"] emitPair.simps next_tok_prefix emitString_def
      emitObject_prefix)

lemma emitObject_object:
  assumes "list_all is_ws w1" "list_all is_ws w2" "internStringIndex k f = (i, f1)"
    and "emitObject (Suc n) p f1 (out @ [0] @ le32 i) = (None, q, f2, out2)"
  shows "emitObject (Suc (Suc n)) (w1 @ emitEscaped k @ w2 @ 123 # p) f out =
    emitObject (Suc n) q f2 out2"
  using assms
  by (simp add: emitObject.simps(2) [of "Suc n" "w1 @ _"] emitPair.simps next_tok_prefix)

lemma length_emitEscaped: "2 \<le> length (emitEscaped s)"
  by (simp add: emitEscaped_def)

text \<open>Printing never takes less than a byte per node, so the input length bounds the fuel.\<close>

lemma nodes_le_print:
  "nodes (kv_of_map m) \<le> length (emitMap m d)" "nodes (kv_of_seq cs i) \<le> length (emitSeq cs i d)"
  by (induction m d and cs i d rule: emitMap_emitSeq.induct) simp_all

lemma length_le_nodes:
  "length m \<le> nodes (kv_of_map m)" "length cs \<le> nodes (kv_of_seq cs i)"
  by (induction m and cs i rule: kv_of_map_kv_of_seq.induct) auto

section \<open>Translating what the writer prints\<close>

lemma emit_leaf:
  assumes "internStringIndex k f = (i, f1)"
  shows "emitObject (Suc (Suc n)) (tabs d @ emitEscaped k @ [9, 9] @ emitEscaped v @ [10] @ p) f out =
    emitObject (Suc n) p f1 (out @ [1] @ le32 i @ v @ [0])"
  using emitObject_leaf [of "tabs d" "[9, 9]" "[10]" k f i f1 n v p out] assms by (simp add: ws_values)

lemma emit_child:
  assumes child: "\<And>q. emitObject (Suc n) (c @ q) f1 (out @ [0] @ le32 i) = emitObject (Suc n - len) q f2 out2"
    and len: "len < Suc n" and i: "internStringIndex k f = (i, f1)"
  shows "emitObject (Suc (Suc n)) (tabs d @ emitEscaped k @ [10] @ tabs d @ [123, 10] @ c @ tabs d @
      [125, 10] @ p) f out = emitObject (Suc n) p f2 (out2 @ [8])"
proof -
  obtain j where j: "Suc n - len = Suc j" using len by (metis Suc_diff_le less_Suc_eq_le)
  have "emitObject (Suc n) (10 # c @ tabs d @ 125 # 10 # p) f1 (out @ [0] @ le32 i)
      = emitObject (Suc n) (c @ tabs d @ 125 # 10 # p) f1 (out @ [0] @ le32 i)"
    using emitObject_prefix [of "[10]" n] by (simp add: ws_values)
  also have "\<dots> = (None, 10 # p, f2, out2 @ [8])"
    using child [of "tabs d @ 125 # 10 # p"] by (simp add: j emitObject_close)
  finally have body: "emitObject (Suc n) (10 # c @ tabs d @ 125 # 10 # p) f1 (out @ [0] @ le32 i)
      = (None, 10 # p, f2, out2 @ [8])" .
  have "emitObject (Suc (Suc n)) (tabs d @ emitEscaped k @ (10 # tabs d) @ 123 # 10 # c @ tabs d @ 125 # 10 # p) f out
      = emitObject (Suc n) (10 # p) f2 (out2 @ [8])"
    by (rule emitObject_object [OF _ _ i body]) (simp_all add: ws_values)
  then show ?thesis using emitObject_prefix [of "[10]" n p] by (simp add: ws_values)
qed

lemma emit_print:
  "nodes (kv_of_map m) < n \<Longrightarrow> emitObject n (emitMap m d @ rest) f out =
     emitObject (n - length m) rest (snd (kv_emit (kv_of_map m) f)) (out @ fst (kv_emit (kv_of_map m) f))"
  "nodes (kv_of_seq cs i) < n \<Longrightarrow> emitObject n (emitSeq cs i d @ rest) f out =
     emitObject (n - length cs) rest (snd (kv_emit (kv_of_seq cs i) f)) (out @ fst (kv_emit (kv_of_seq cs i) f))"
proof (induction m d and cs i d arbitrary: n rest f out and n rest f out rule: emitMap_emitSeq.induct)
  case (2 k m es d)
  obtain j where n: "n = Suc (Suc j)" using 2(3) by (cases n; cases "n - 1") auto
  obtain x f1 where x: "internStringIndex k f = (x, f1)" by fastforce
  obtain cb f2 where cb: "kv_emit (kv_of_map m) f1 = (cb, f2)" by fastforce
  obtain bs f3 where bs: "kv_emit (kv_of_map es) f2 = (bs, f3)" by fastforce
  have b: "nodes (kv_of_map m) < Suc j" "nodes (kv_of_map es) < Suc j" using 2(3) by (simp_all add: n)
  have "length m < Suc j" using b(1) length_le_nodes(1) [of m] by simp
  note emit_child [OF 2(1) [OF b(1), where f = f1] this x]
  then show ?case using 2(2) [OF b(2), of rest f2] by (simp add: n x cb bs)
next
  case (3 k s es d)
  obtain j where n: "n = Suc (Suc j)" using 3(2) by (cases n; cases "n - 1") auto
  obtain x f1 where x: "internStringIndex k f = (x, f1)" by fastforce
  obtain bs f3 where bs: "kv_emit (kv_of_map es) f1 = (bs, f3)" by fastforce
  have b: "nodes (kv_of_map es) < Suc j" using 3(2) by (simp add: n)
  show ?case using emit_leaf [OF x, of j d s "emitMap es d @ rest" out] 3(1) [OF b, of rest f1]
    by (simp add: n x bs)
next
  case (4 k cs es d)
  obtain j where n: "n = Suc (Suc j)" using 4(3) by (cases n; cases "n - 1") auto
  obtain x f1 where x: "internStringIndex k f = (x, f1)" by fastforce
  obtain cb f2 where cb: "kv_emit (kv_of_seq cs 0) f1 = (cb, f2)" by fastforce
  obtain bs f3 where bs: "kv_emit (kv_of_map es) f2 = (bs, f3)" by fastforce
  have b: "nodes (kv_of_seq cs 0) < Suc j" "nodes (kv_of_map es) < Suc j" using 4(3) by (simp_all add: n)
  have "length cs < Suc j" using b(1) length_le_nodes(2) [of cs 0] by simp
  note emit_child [OF 4(1) [OF b(1), where f = f1] this x]
  then show ?case using 4(2) [OF b(2), of rest f2] by (simp add: n x cb bs)
next
  case (5 k es d)
  obtain j where n: "n = Suc (Suc j)" using 5(2) by (cases n; cases "n - 1") auto
  obtain x f1 where x: "internStringIndex k f = (x, f1)" by fastforce
  obtain bs f3 where bs: "kv_emit (kv_of_map es) f1 = (bs, f3)" by fastforce
  have b: "nodes (kv_of_map es) < Suc j" using 5(2) by (simp add: n)
  show ?case using emit_leaf [OF x, of j d "[]" "emitMap es d @ rest" out] 5(1) [OF b, of rest f1]
    by (simp add: n x bs emitEscaped_def)
next
  case (7 m cs i d)
  let ?k = "str_bytes (to_dec i)"
  obtain j where n: "n = Suc (Suc j)" using 7(3) by (cases n; cases "n - 1") auto
  obtain x f1 where x: "internStringIndex ?k f = (x, f1)" by fastforce
  obtain cb f2 where cb: "kv_emit (kv_of_map m) f1 = (cb, f2)" by fastforce
  obtain bs f3 where bs: "kv_emit (kv_of_seq cs (Suc i)) f2 = (bs, f3)" by fastforce
  have b: "nodes (kv_of_map m) < Suc j" "nodes (kv_of_seq cs (Suc i)) < Suc j" using 7(3) by (simp_all add: n)
  have "length m < Suc j" using b(1) length_le_nodes(1) [of m] by simp
  note emit_child [OF 7(1) [OF b(1), where f = f1] this x]
  then show ?case using 7(2) [OF b(2), of rest f2] by (simp add: n x cb bs)
next
  case (8 s cs i d)
  obtain j where n: "n = Suc (Suc j)" using 8(2) by (cases n; cases "n - 1") auto
  obtain x f1 where x: "internStringIndex (str_bytes (to_dec i)) f = (x, f1)" by fastforce
  obtain bs f3 where bs: "kv_emit (kv_of_seq cs (Suc i)) f1 = (bs, f3)" by fastforce
  have b: "nodes (kv_of_seq cs (Suc i)) < Suc j" using 8(2) by (simp add: n)
  show ?case using emit_leaf [OF x, of j "Suc d" s "emitSeq cs (Suc i) d @ rest" out] 8(1) [OF b, of rest f1]
    by (simp add: n x bs)
next
  case (9 v cs i d)
  obtain j where n: "n = Suc (Suc j)" using 9(2) by (cases n; cases "n - 1") auto
  obtain x f1 where x: "internStringIndex (str_bytes (to_dec i)) f = (x, f1)" by fastforce
  obtain bs f3 where bs: "kv_emit (kv_of_seq cs (Suc i)) f1 = (bs, f3)" by fastforce
  have b: "nodes (kv_of_seq cs (Suc i)) < Suc j" using 9(2) by (simp add: n)
  show ?case using emit_leaf [OF x, of j "Suc d" "[]" "emitSeq cs (Suc i) d @ rest" out] 9(1) [OF b, of rest f1]
    by (simp add: n x bs)
next
  case (10 cs i d)
  obtain j where n: "n = Suc (Suc j)" using 10(2) by (cases n; cases "n - 1") auto
  obtain x f1 where x: "internStringIndex (str_bytes (to_dec i)) f = (x, f1)" by fastforce
  obtain bs f3 where bs: "kv_emit (kv_of_seq cs (Suc i)) f1 = (bs, f3)" by fastforce
  have b: "nodes (kv_of_seq cs (Suc i)) < Suc j" using 10(2) by (simp add: n)
  show ?case using emit_leaf [OF x, of j "Suc d" "[]" "emitSeq cs (Suc i) d @ rest" out] 10(1) [OF b, of rest f1]
    by (simp add: n x bs)
qed simp_all

lemma trimmed_close: "trimmed (p @ [125, 10]) = p @ [125]"
  by (simp add: trimmed_def wire_trailing_def)

lemma wireOut_shape: "wireOut (YMap m) = emitEscaped appinfo_key @ [10, 123, 10] @ emitMap m 1 @ [125, 10]"
  by (simp add: wireOut_def emitNode_def emitEscaped_def appinfo_key_def escape_byte_def)

lemma translate_wireOut_aux:
  "translateWireToIndexed (wireOut (YMap m)) f =
     (None, snd (kv_emit [KvObj appinfo_key (kv_of_map m)] f),
      fst (kv_emit [KvObj appinfo_key (kv_of_map m)] f) @ [8])"
proof -
  let ?w = "wireOut (YMap m)"
  have trim: "trimmed ?w = emitEscaped appinfo_key @ [10, 123, 10] @ emitMap m 1 @ [125]"
    using trimmed_close [of "emitEscaped appinfo_key @ [10, 123, 10] @ emitMap m 1"]
    by (simp add: wireOut_shape)
  obtain i f1 where i: "internStringIndex appinfo_key f = (i, f1)" by fastforce
  have fuel: "nodes (kv_of_map m) < Suc (length ?w)"
    using nodes_le_print(1) [of m 1] by (simp add: wireOut_shape)
  then have "length m < Suc (length ?w)" using length_le_nodes(1) [of m] by linarith
  then obtain j where j: "Suc (length ?w) - length m = Suc j" by (metis Suc_diff_le less_Suc_eq_le)
  have "emitObject (Suc (length ?w)) (10 # emitMap m 1 @ [125]) f1 ([0] @ le32 i)
      = emitObject (Suc (length ?w)) (emitMap m 1 @ [125]) f1 ([0] @ le32 i)"
    using emitObject_prefix [of "[10]"] by (simp add: ws_values)
  also have "\<dots> = (None, [], snd (kv_emit (kv_of_map m) f1), ([0] @ le32 i @ fst (kv_emit (kv_of_map m) f1)) @ [8])"
    using emit_print(1) [OF fuel, of 1 "[125]" f1] emitObject_close [of "[]" j "[]"] by (simp add: j)
  finally have obj: "emitObject (Suc (length ?w)) (10 # emitMap m 1 @ [125]) f1 ([0] @ le32 i)
      = (None, [], snd (kv_emit (kv_of_map m) f1), ([0] @ le32 i @ fst (kv_emit (kv_of_map m) f1)) @ [8])" .
  have "next_tok (10 # 123 # 10 # emitMap m 1 @ [125]) = (TOpen, 10 # emitMap m 1 @ [125])"
    using next_tok_prefix [of "[10]"] by (simp add: ws_values)
  then have "emitPair (Suc (length ?w)) appinfo_key (10 # 123 # 10 # emitMap m 1 @ [125]) f []
      = (None, [], snd (kv_emit (kv_of_map m) f1), ([0] @ le32 i @ fst (kv_emit (kv_of_map m) f1)) @ [8])"
    using obj by (simp add: emitPair.simps i)
  moreover have "?w \<noteq> []" by (simp add: wireOut_def)
  ultimately show ?thesis
    unfolding translateWireToIndexed_def trim by (simp add: i split_beta)
qed

section \<open>What interning leaves\<close>

definition table_extends :: "app_info_file \<Rightarrow> app_info_file \<Rightarrow> bool" where
  "table_extends f f' \<longleftrightarrow> afApps f' = afApps f \<and> afUniverse f' = afUniverse f \<and>
     (\<exists>ext. afStrings f' = afStrings f @ ext) \<and> (table_ok f \<longrightarrow> table_ok f')"

lemma table_extends_refl [simp]: "table_extends f f"
  by (simp add: table_extends_def)

lemma table_extends_trans: "table_extends f g \<Longrightarrow> table_extends g h \<Longrightarrow> table_extends f h"
  by (auto simp: table_extends_def)

lemma intern_extends: "internStringIndex s f = (k, f') \<Longrightarrow> table_extends f f'"
proof (cases "table_ok f")
  case True
  assume "internStringIndex s f = (k, f')"
  from intern_facts [OF True this] True show ?thesis by (auto simp: table_extends_def)
qed (auto simp: table_extends_def internStringIndex_def Let_def split: option.splits)

lemma emit_extends: "table_extends f (snd (kv_emit ts f))"
proof (induction ts f rule: kv_emit.induct)
  case (2 k v ts f)
  obtain i f1 where i: "internStringIndex k f = (i, f1)" by fastforce
  show ?case using table_extends_trans [OF intern_extends [OF i] 2 [OF i [symmetric] refl]]
    by (simp add: i split_beta)
next
  case (3 k cs ts f)
  obtain i f1 where i: "internStringIndex k f = (i, f1)" by fastforce
  obtain cb f2 where cb: "kv_emit cs f1 = (cb, f2)" by fastforce
  have "table_extends f f2"
    using table_extends_trans [OF intern_extends [OF i] 3(1) [OF i [symmetric] refl]] by (simp add: cb)
  moreover have "table_extends f2 (snd (kv_emit ts f2))"
    by (rule 3(2) [OF i [symmetric] refl cb [symmetric] refl])
  ultimately have "table_extends f (snd (kv_emit ts f2))" by (rule table_extends_trans)
  then show ?case by (simp add: i cb split_beta)
qed simp

lemma emit_any_extends:
  "table_extends f (fst (snd (snd (emitPair n key p f out))))"
  "table_extends f (fst (snd (snd (emitObject n p f out))))"
proof (induction n key p f out and n p f out rule: emitPair_emitObject.induct)
  case (1 n key p f out)
  obtain t p' where t: "next_tok p = (t, p')" by fastforce
  obtain i f1 where i: "internStringIndex key f = (i, f1)" by fastforce
  note e = intern_extends [OF i]
  show ?case
  proof (cases t)
    case TOpen
    have "table_extends f1 (fst (snd (snd (emitObject n p' f1 (out @ [0] @ le32 i)))))"
      by (rule 1) (use t TOpen i in simp_all)
    then show ?thesis using e t TOpen i by (auto simp: emitPair.simps intro: table_extends_trans)
  qed (use e t i in \<open>simp_all add: emitPair.simps emitString_def\<close>)
next
  case (3 n p f out)
  obtain t p' where t: "next_tok p = (t, p')" by fastforce
  show ?case
  proof (cases t)
    case (TString key)
    obtain e p2 f2 out2 where r: "emitPair n key p' f out = (e, p2, f2, out2)" by (metis prod_cases4)
    have a: "table_extends f f2" using 3(1) [OF t [symmetric] TString] by (simp add: r)
    show ?thesis
    proof (cases e)
      case None
      have "table_extends f2 (fst (snd (snd (emitObject n p2 f2 out2))))"
        using 3(2) [OF t [symmetric] TString] by (simp add: r None)
      then show ?thesis using a t TString r None
        by (auto simp: emitObject.simps intro: table_extends_trans)
    qed (use a t TString r in \<open>simp add: emitObject.simps\<close>)
  qed (use t in \<open>simp_all add: emitObject.simps\<close>)
qed (simp add: emitObject.simps)

lemma translate_extends: "translateWireToIndexed w f = (e, f', bs) \<Longrightarrow> table_extends f f'"
  using emit_any_extends(1) [of f "Suc (length w)"]
  by (auto simp: translateWireToIndexed_def split: if_splits prod.splits tok.splits option.splits;
      metis fst_conv snd_conv)

section \<open>Reading back\<close>

lemma parse_more:
  "kv_parse n ss r = Some x \<Longrightarrow> kv_parse n (ss @ ext) r = Some x"
proof (induction n ss r arbitrary: x rule: kv_parse.induct)
  case (3 n ss ty r)
  show ?case
  proof (cases "ty = 8")
    case False
    have len: "\<not> length r < 4" "unat (rd32 r 0) < length ss"
      using 3(4) False by (auto split: if_splits)
    show ?thesis
    proof (cases "ty = 0")
      case True
      then obtain cs r' ts r'' where p: "kv_parse n ss (drop 4 r) = Some (cs, r')"
        "kv_parse n ss r' = Some (ts, r'')" "x = (KvObj (ss ! unat (rd32 r 0)) cs # ts, r'')"
        using 3(4) len by (auto split: option.splits)
      have "kv_parse n (ss @ ext) (drop 4 r) = Some (cs, r')"
        by (rule 3(1)) (use True len p(1) in simp_all)
      moreover have "kv_parse n (ss @ ext) r' = Some (ts, r'')"
        by (rule 3(2) [OF False _ True p(1) refl]) (use len p(2) in simp_all)
      ultimately show ?thesis using True len p(3) by (simp add: nth_append)
    next
      case nz: False
      let ?v = "takeWhile (\<lambda>b. b \<noteq> 0) (drop 4 r)"
      obtain ts r'' where p: "ty = 1" "0 \<in> set (drop 4 r)"
        "kv_parse n ss (drop (Suc (length ?v)) (drop 4 r)) = Some (ts, r'')"
        "x = (KvLeaf (ss ! unat (rd32 r 0)) ?v # ts, r'')"
        using 3(4) len False nz by (auto simp: Let_def split: option.splits if_splits)
      have "kv_parse n (ss @ ext) (drop (Suc (length ?v)) (drop 4 r)) = Some (ts, r'')"
        by (rule 3(3)) (use False nz len p in simp_all)
      then show ?thesis using len p nz by (simp add: nth_append Let_def)
    qed
  qed (use 3(4) in simp)
qed simp_all

text \<open>What the emitter writes reads back as the tree, from any table that extends the one it left.\<close>

lemma emit_parse:
  "table_ok f \<Longrightarrow> kv_emit ts f = (bs, f') \<Longrightarrow> ss = afStrings f' @ ext \<Longrightarrow> length (afStrings f') < 2 ^ 32 \<Longrightarrow>
     nul_free ts \<Longrightarrow> nodes ts < n \<Longrightarrow> kv_parse n ss (bs @ 8 # r) = Some (ts, r)"
proof (induction ts f arbitrary: bs f' ext n r rule: kv_emit.induct)
  case (1 f)
  then show ?case by (cases n) simp_all
next
  case (2 k v ts f)
  obtain j where n: "n = Suc j" using 2(7) by (cases n) auto
  obtain i f1 where i: "internStringIndex k f = (i, f1)" by fastforce
  obtain cb where cb: "kv_emit ts f1 = (cb, f')" and bs: "bs = [1] @ le32 i @ v @ [0] @ cb"
    using 2(3) by (auto simp: i split: prod.splits)
  obtain e1 where e1: "afStrings f' = afStrings f1 @ e1"
    using emit_extends [of f1 ts] by (auto simp: cb table_extends_def)
  have k: "unat i < length (afStrings f1)" "afStrings f1 ! unat i = k" "table_ok f1"
    using intern_facts [OF 2(2) i] 2(5) e1 by auto
  have "kv_parse j ss (cb @ 8 # r) = Some (ts, r)"
    by (rule 2(1) [OF i [symmetric] refl k(3) cb 2(4) 2(5)]) (use 2(6,7) n in simp_all)
  moreover have "unat i < length ss" "ss ! unat i = k" using k 2(4) e1 by (simp_all add: nth_append)
  moreover have "takeWhile (\<lambda>b. b \<noteq> 0) (v @ 0 # cb @ 8 # r) = v"
    using 2(6) by (intro takeWhile_nul) simp
  ultimately show ?case by (simp add: n bs)
next
  case (3 k cs ts f)
  obtain j where n: "n = Suc j" using 3(8) by (cases n) auto
  obtain i f1 where i: "internStringIndex k f = (i, f1)" by fastforce
  obtain cb f2 where cb: "kv_emit cs f1 = (cb, f2)" by fastforce
  obtain db where db: "kv_emit ts f2 = (db, f')" and bs: "bs = [0] @ le32 i @ cb @ [8] @ db"
    using 3(4) by (auto simp: i cb split: prod.splits)
  obtain e1 where e1: "afStrings f2 = afStrings f1 @ e1" "table_ok f1 \<longrightarrow> table_ok f2"
    using emit_extends [of f1 cs] by (auto simp: cb table_extends_def)
  obtain e2 where e2: "afStrings f' = afStrings f2 @ e2"
    using emit_extends [of f2 ts] by (auto simp: db table_extends_def)
  have k: "unat i < length (afStrings f1)" "afStrings f1 ! unat i = k" "table_ok f1"
    using intern_facts [OF 3(3) i] 3(6) e1 e2 by auto
  have "kv_parse j ss (cb @ 8 # db @ 8 # r) = Some (cs, db @ 8 # r)"
    by (rule 3(1) [OF i [symmetric] refl k(3) cb, of "e2 @ ext"]) (use 3(5-8) e2 n in simp_all)
  moreover have "kv_parse j ss (db @ 8 # r) = Some (ts, r)"
    by (rule 3(2) [OF i [symmetric] refl cb [symmetric] refl _ db 3(5) 3(6)]) (use k e1 3(7,8) n in simp_all)
  moreover have "unat i < length ss" "ss ! unat i = k" using k 3(5) e1 e2 by (simp_all add: nth_append)
  ultimately show ?case by (simp add: n bs)
qed

lemma nodes_le_emit: "nodes ts \<le> length (fst (kv_emit ts f))"
proof (induction ts f rule: kv_emit.induct)
  case (2 k v ts f)
  obtain i f1 where i: "internStringIndex k f = (i, f1)" by fastforce
  show ?case using 2 [OF i [symmetric] refl] by (simp add: i split_beta)
next
  case (3 k cs ts f)
  obtain i f1 where i: "internStringIndex k f = (i, f1)" by fastforce
  obtain cb f2 where cb: "kv_emit cs f1 = (cb, f2)" by fastforce
  show ?case using 3(1) [OF i [symmetric] refl] 3(2) [OF i [symmetric] refl cb [symmetric] refl]
    by (simp add: i cb split_beta)
qed simp

lemma emit_read:
  assumes "table_ok f" "kv_emit ts f = (bs, f')" "length (afStrings f') < 2 ^ 32" "nul_free ts"
  shows "kv_read (afStrings f' @ ext) (bs @ [8]) = Some ts"
proof -
  have "nodes ts < Suc (length (bs @ [8]))" using nodes_le_emit [of ts f] assms(2) by simp
  from emit_parse [OF assms(1,2) refl assms(3,4) this, of ext "[]"] show ?thesis by (simp add: kv_read_def)
qed

lemma read_more: "kv_read ss bs = Some ts \<Longrightarrow> kv_read (ss @ ext) bs = Some ts"
  using parse_more [of "Suc (length bs)" ss bs "(ts, [])" ext]
  by (auto simp: kv_read_def split: option.splits prod.splits list.splits)

section \<open>The validator\<close>

definition shallow :: "nat \<Rightarrow> (kv list \<times> bytes) option \<Rightarrow> bytes \<Rightarrow> bool" where
  "shallow d p r' \<longleftrightarrow> (\<exists>ts. p = Some (ts, r') \<and> d + kv_depth ts \<le> 128)"

lemma validate_parse:
  "d \<le> 128 \<Longrightarrow>
     validate_loop n (length ss) d r = (None, r') \<longleftrightarrow> shallow d (kv_parse n ss r) r'"
proof (induction n arbitrary: d r r')
  case 0
  then show ?case by (simp add: validate_loop.simps shallow_def)
next
  case (Suc n)
  show ?case
  proof (cases r)
    case Nil
    then show ?thesis by (simp add: validate_loop.simps shallow_def)
  next
    case (Cons ty r1)
    let ?k = "unat (rd32 r1 0)"
    let ?v = "takeWhile (\<lambda>b. b \<noteq> 0) (drop 4 r1)"
    consider (close) "ty = 8" | (bad) "ty \<noteq> 8" "ty \<noteq> 0 \<and> ty \<noteq> 1 \<or> length r1 < 4 \<or> ?k \<ge> length ss \<or>
        ty = 1 \<and> 0 \<notin> set (drop 4 r1)"
      | (obj) "ty = 0" "\<not> length r1 < 4" "\<not> ?k \<ge> length ss"
      | (leaf) "ty = 1" "\<not> length r1 < 4" "\<not> ?k \<ge> length ss" "0 \<in> set (drop 4 r1)"
      by blast
    then show ?thesis
    proof cases
      case close
      then show ?thesis using Suc.prems by (auto simp: Cons validate_loop.simps shallow_def)
    next
      case bad
      then show ?thesis by (auto simp: Cons validate_loop.simps shallow_def Let_def)
    next
      case leaf
      have "validate_loop (Suc n) (length ss) d r
          = validate_loop n (length ss) d (drop (Suc (length ?v)) (drop 4 r1))"
        using leaf by (simp add: Cons validate_loop.simps Let_def)
      moreover have "shallow d (kv_parse (Suc n) ss r) r'
          \<longleftrightarrow> shallow d (kv_parse n ss (drop (Suc (length ?v)) (drop 4 r1))) r'"
        using leaf by (auto simp: Cons shallow_def Let_def split: option.splits)
      ultimately show ?thesis using Suc by simp
    next
      case obj
      let ?V = "validateGeneratedObject n (length ss) (Suc d) (drop 4 r1)"
      have V: "validate_loop (Suc n) (length ss) d r
          = (case ?V of (Some e, q) \<Rightarrow> (Some e, q) | (None, q) \<Rightarrow> validate_loop n (length ss) d q)"
        using obj by (simp add: Cons validate_loop.simps Let_def)
      have P: "shallow d (kv_parse (Suc n) ss r) r' \<longleftrightarrow>
          (\<exists>q. shallow (Suc d) (kv_parse n ss (drop 4 r1)) q \<and> shallow d (kv_parse n ss q) r')"
        using obj by (auto simp: Cons shallow_def split: option.splits)
      have inner: "?V = (None, q) \<longleftrightarrow> shallow (Suc d) (kv_parse n ss (drop 4 r1)) q" for q
        using Suc.IH [of "Suc d"] by (cases "Suc d \<le> 128") (auto simp: validateGeneratedObject.simps shallow_def)
      have "validate_loop (Suc n) (length ss) d r = (None, r')
          \<longleftrightarrow> (\<exists>q. ?V = (None, q) \<and> validate_loop n (length ss) d q = (None, r'))"
        unfolding V by (auto split: prod.splits option.splits)
      then show ?thesis unfolding P inner using Suc.IH [OF Suc.prems] by simp
    qed
  qed
qed

lemma validate_exact_aux:
  "validateGeneratedVdf bs f = None \<longleftrightarrow> (\<exists>ts. kv_read (afStrings f) bs = Some ts \<and> kv_depth ts \<le> 128)"
proof (cases "bs = []")
  case True
  then show ?thesis by (simp add: validateGeneratedVdf_def kv_read_def)
next
  case False
  let ?V = "validate_loop (Suc (length bs)) (length (afStrings f)) 0 bs"
  have "validateGeneratedVdf bs f = None \<longleftrightarrow> ?V = (None, [])"
    using False by (auto simp: validateGeneratedVdf_def validateGeneratedObject.simps split: prod.splits option.splits)
  then show ?thesis
    by (auto simp: validate_parse shallow_def kv_read_def split: option.splits prod.splits list.splits)
qed

text \<open>The fuel is enough: every call consumes a byte.\<close>

lemma validate_fuel:
  "length r < n \<Longrightarrow> fst (validate_loop n keys d r) \<noteq> Some FuelExhausted \<and>
     length (snd (validate_loop n keys d r)) \<le> length r"
proof (induction n arbitrary: d r)
  case (Suc n)
  show ?case
  proof (cases r)
    case (Cons ty r1)
    let ?r4 = "drop 4 r1"
    let ?V = "validateGeneratedObject n keys (Suc d) ?r4"
    have V: "fst ?V \<noteq> Some FuelExhausted \<and> length (snd ?V) \<le> length ?r4"
      using Suc.IH [of ?r4] Suc.prems Cons by (simp add: validateGeneratedObject.simps)
    have L: "length q \<le> length ?r4 \<Longrightarrow> fst (validate_loop n keys d q) \<noteq> Some FuelExhausted \<and>
        length (snd (validate_loop n keys d q)) \<le> length r" for q
      using Suc.IH [of q d] Suc.prems Cons le_trans [of _ "length q" "Suc (length r1)"] by fastforce
    show ?thesis using V L
      by (auto simp: Cons validate_loop.simps Let_def split: prod.splits option.splits)
  qed (simp add: validate_loop.simps)
qed simp

lemma skipWs_shorter: "length (skipWs p) \<le> length p"
proof (induction p rule: skipWs.induct)
  case (1 p)
  show ?case
  proof (cases p)
    case (Cons c cs)
    have "length (dropWhile (\<lambda>b. b \<noteq> 10) p) \<le> length p" by (rule length_dropWhile_le)
    then show ?thesis using 1 Cons by (subst skipWs.simps) (auto intro: le_trans)
  qed (simp add: skipWs.simps)
qed

lemma skipWs_stops: "skipWs p = c # cs \<Longrightarrow> \<not> is_ws c"
proof (induction p rule: skipWs.induct)
  case (1 p)
  then show ?case by (subst (asm) (3) skipWs.simps) (auto split: list.splits if_splits)
qed

lemma readQuoted_shorter: "readQuoted p = Some (s, r) \<Longrightarrow> length r < length p"
  by (induction p arbitrary: s r rule: readQuoted.induct)
    (auto split: if_splits list.splits option.splits prod.splits, fastforce+)

lemma next_tok_shorter: "next_tok p = (t, p') \<Longrightarrow> t \<noteq> TEnd \<Longrightarrow> length p' < length p"
proof -
  assume n: "next_tok p = (t, p')" "t \<noteq> TEnd"
  then obtain c cs where c: "skipWs p = c # cs" by (cases "skipWs p") (auto simp: next_tok_def)
  have "length cs < length p" using skipWs_shorter [of p] c by simp
  moreover have "length p' \<le> length cs"
    using n c readQuoted_shorter [of cs] length_dropWhile_le [of bare_byte cs] skipWs_stops [OF c]
    by (auto simp: next_tok_def bare_byte_def split: if_splits option.splits prod.splits dest: less_imp_le)
  ultimately show ?thesis by simp
qed

lemma emit_fuel:
  "length p < n \<Longrightarrow> fst (emitPair n key p f out) \<noteq> Some FuelExhausted \<and>
     length (fst (snd (emitPair n key p f out))) \<le> length p"
  "length p < n \<Longrightarrow> fst (emitObject n p f out) \<noteq> Some FuelExhausted \<and>
     length (fst (snd (emitObject n p f out))) \<le> length p"
proof (induction n key p f out and n p f out rule: emitPair_emitObject.induct)
  case (1 n key p f out)
  obtain t p' where t: "next_tok p = (t, p')" by fastforce
  obtain i f1 where i: "internStringIndex key f = (i, f1)" by fastforce
  have s: "t = TEnd \<or> length p' < length p" using next_tok_shorter [OF t] by blast
  have e: "t = TEnd \<Longrightarrow> p' = []"
    using t by (auto simp: next_tok_def split: list.splits if_splits option.splits prod.splits)
  show ?case
  proof (cases t)
    case TOpen
    have "fst (emitObject n p' f1 (out @ [0] @ le32 i)) \<noteq> Some FuelExhausted \<and>
        length (fst (snd (emitObject n p' f1 (out @ [0] @ le32 i)))) \<le> length p'"
      by (rule 1(1)) (use t TOpen i s 1(2) in simp_all)
    then show ?thesis using t TOpen i s by (simp add: emitPair.simps)
  qed (use t i s e in \<open>simp_all add: emitPair.simps emitString_def\<close>)
next
  case (3 n p f out)
  obtain t p' where t: "next_tok p = (t, p')" by fastforce
  have s: "t = TEnd \<or> length p' < length p" using next_tok_shorter [OF t] by blast
  have e: "t = TEnd \<Longrightarrow> p' = []"
    using t by (auto simp: next_tok_def split: list.splits if_splits option.splits prod.splits)
  show ?case
  proof (cases t)
    case (TString key)
    then have l: "length p' < n" "length p' < length p" using s 3(3) by auto
    obtain er p2 f2 out2 where r: "emitPair n key p' f out = (er, p2, f2, out2)" by (metis prod_cases4)
    have a: "er \<noteq> Some FuelExhausted" "length p2 \<le> length p'"
      using 3(1) [OF t [symmetric] TString l(1)] by (simp_all add: r)
    show ?thesis
    proof (cases er)
      case None
      have "fst (emitObject n p2 f2 out2) \<noteq> Some FuelExhausted \<and>
          length (fst (snd (emitObject n p2 f2 out2))) \<le> length p2"
        using 3(2) [OF t [symmetric] TString r [symmetric] None] a(2) l(1) by (simp add: None)
      then show ?thesis using a l t TString r None by (simp add: emitObject.simps)
    qed (use a l t TString r in \<open>simp add: emitObject.simps\<close>)
  qed (use t s e in \<open>simp_all add: emitObject.simps\<close>)
qed simp

lemma translate_fuel: "fst (translateWireToIndexed w f) \<noteq> Some FuelExhausted"
proof -
  have trim: "length (trimmed w) \<le> length w"
    using length_dropWhile_le [of wire_trailing "rev w"] by (simp add: trimmed_def)
  have "fst (emitPair (Suc (length w)) k p f []) \<noteq> Some FuelExhausted"
    if "next_tok (trimmed w) = (TString k, p)" for k p
    using emit_fuel(1) [of p "Suc (length w)"] next_tok_shorter [OF that] trim by simp
  then show ?thesis
    by (auto simp: translateWireToIndexed_def split: prod.splits tok.splits option.splits)
qed

lemma validator_fuel: "validateGeneratedVdf bs f \<noteq> Some FuelExhausted"
  using validate_fuel [of bs "Suc (length bs)" "length (afStrings f)" 0]
  by (auto simp: validateGeneratedVdf_def validateGeneratedObject.simps split: prod.splits option.splits)

section \<open>Merging\<close>

lemma replace_first_self: "ne \<in> set (replace_first ne es)"
  by (induction es) auto

lemma replace_first_other:
  "filter (\<lambda>e. aeAppId e \<noteq> aeAppId ne) (replace_first ne es) = filter (\<lambda>e. aeAppId e \<noteq> aeAppId ne) es"
  by (induction es) auto

lemma replace_first_ids:
  "map aeAppId (replace_first ne es) =
   (if aeAppId ne \<in> aeAppId ` set es then map aeAppId es else map aeAppId es @ [aeAppId ne])"
  by (induction es) auto

lemma replace_first_wf: "\<forall>e \<in> set es. entry_wf e \<Longrightarrow> entry_wf ne \<Longrightarrow> \<forall>e \<in> set (replace_first ne es). entry_wf e"
  by (induction es) auto

lemma merge_cases:
  assumes "mergeAppImpl h a c sha w f = (None, True, f')"
  obtains f1 bs ts where "translateWireToIndexed w f = (None, f1, bs)" "kv_read (afStrings f1) bs = Some ts"
    "kv_depth ts \<le> 128" "length sha = 20"
    "f' = f1\<lparr>afApps := replace_first \<lparr>aeAppId = a, aeInfoState = 2, aeLastUpdated = 0, aePicsToken = 0,
       aeSha = sha, aeChangeNumber = c, aeBinaryHash = h bs, aeBinaryVdf = bs\<rparr> (afApps f1)\<rparr>"
proof -
  from assms obtain f1 bs where T: "translateWireToIndexed w f = (None, f1, bs)"
    and V: "validateGeneratedVdf bs f1 = None" "length sha = 20"
    and F: "f' = f1\<lparr>afApps := replace_first \<lparr>aeAppId = a, aeInfoState = 2, aeLastUpdated = 0, aePicsToken = 0,
       aeSha = sha, aeChangeNumber = c, aeBinaryHash = h bs, aeBinaryVdf = bs\<rparr> (afApps f1)\<rparr>"
    by (auto simp: mergeAppImpl_def split: if_splits prod.splits option.splits)
  from V obtain ts where "kv_read (afStrings f1) bs = Some ts" "kv_depth ts \<le> 128"
    by (auto simp: validate_exact_aux)
  then show ?thesis using that T V F by blast
qed

definition merged_entry :: "u32 \<Rightarrow> u32 \<Rightarrow> bytes \<Rightarrow> (bytes \<Rightarrow> bytes) \<Rightarrow> bytes \<Rightarrow> app_entry" where
  "merged_entry a c sha h bs = \<lparr>aeAppId = a, aeInfoState = 2, aeLastUpdated = 0, aePicsToken = 0,
     aeSha = sha, aeChangeNumber = c, aeBinaryHash = h bs, aeBinaryVdf = bs\<rparr>"

lemma merge_result:
  assumes "mergeAppImpl h a c sha w f = (None, True, f')"
  shows "\<exists>f1 bs ts. table_extends f f1 \<and> kv_read (afStrings f1) bs = Some ts \<and> kv_depth ts \<le> 128 \<and>
    f' = f1\<lparr>afApps := replace_first (merged_entry a c sha h bs) (afApps f)\<rparr>"
proof (rule merge_cases [OF assms])
  fix f1 bs ts
  assume T: "translateWireToIndexed w f = (None, f1, bs)" "kv_read (afStrings f1) bs = Some ts" "kv_depth ts \<le> 128"
    and F: "f' = f1\<lparr>afApps := replace_first \<lparr>aeAppId = a, aeInfoState = 2, aeLastUpdated = 0, aePicsToken = 0,
       aeSha = sha, aeChangeNumber = c, aeBinaryHash = h bs, aeBinaryVdf = bs\<rparr> (afApps f1)\<rparr>"
  have "table_extends f f1" by (rule translate_extends [OF T(1)])
  moreover from this have "afApps f1 = afApps f" by (simp add: table_extends_def)
  ultimately show ?thesis using T(2,3) F by (intro exI [of _ f1] exI [of _ bs] exI [of _ ts]) (simp add: merged_entry_def)
qed

lemma extends_read: "table_extends f f' \<Longrightarrow> kv_read (afStrings f) bs = Some ts \<Longrightarrow> kv_read (afStrings f') bs = Some ts"
  by (auto simp: table_extends_def read_more)

lemma emit_strings_nul:
  "nul_free ts \<Longrightarrow> \<forall>s \<in> set (afStrings f). 0 \<notin> set s \<Longrightarrow> \<forall>s \<in> set (afStrings (snd (kv_emit ts f))). 0 \<notin> set s"
proof (induction ts f rule: kv_emit.induct)
  case (2 k v ts f)
  obtain i f1 where i: "internStringIndex k f = (i, f1)" by fastforce
  have "\<forall>s \<in> set (afStrings f1). 0 \<notin> set s"
    using i 2(2,3) by (auto simp: internStringIndex_def Let_def split: option.splits)
  then show ?case using 2(1) [OF i [symmetric] refl] 2(2) by (simp add: i split_beta)
next
  case (3 k cs ts f)
  obtain i f1 where i: "internStringIndex k f = (i, f1)" by fastforce
  obtain cb f2 where cb: "kv_emit cs f1 = (cb, f2)" by fastforce
  have "\<forall>s \<in> set (afStrings f1). 0 \<notin> set s"
    using i 3(3,4) by (auto simp: internStringIndex_def Let_def split: option.splits)
  then have "\<forall>s \<in> set (afStrings f2). 0 \<notin> set s" using 3(1) [OF i [symmetric] refl] 3(3) by (simp add: cb)
  then show ?case using 3(2) [OF i [symmetric] refl cb [symmetric] refl] 3(3) by (simp add: i cb split_beta)
qed simp

lemma wire_read:
  assumes "table_ok f" "nul_free (kv_of_map m)" "translateWireToIndexed (wireOut (YMap m)) f = (e, f1, bs)"
    and "length (afStrings f1) < 2 ^ 32"
  shows "e = None \<and> kv_read (afStrings f1) bs = Some [KvObj appinfo_key (kv_of_map m)]"
proof -
  obtain cb where cb: "kv_emit [KvObj appinfo_key (kv_of_map m)] f = (cb, f1)" "e = None" "bs = cb @ [8]"
    using assms(3) unfolding translate_wireOut_aux by (metis fst_conv snd_conv surj_pair)
  have "nul_free [KvObj appinfo_key (kv_of_map m)]" using assms(2) by (simp add: appinfo_key_def)
  from emit_read [OF assms(1) cb(1) assms(4) this, of "[]"] cb show ?thesis by simp
qed

text \<open>A printed document merges unless the same record is already there.\<close>

lemma merge_printed:
  assumes wf: "file_wf f" and tree: "nul_free (kv_of_map m)" "kv_depth (kv_of_map m) \<le> 127"
    and new: "\<not> list_ex (\<lambda>e. aeAppId e = a \<and> aeChangeNumber e = c \<and> aeSha e = sha) (afApps f)"
    and sha: "length sha = 20" and a: "a \<noteq> 0" and h: "\<And>bs. length (h bs) = 20"
    and f': "f' = snd (snd (mergeAppImpl h a c sha (wireOut (YMap m)) f))"
    and size: "length (serializeV41 f') < 2 ^ 32"
  shows "\<exists>bs. mergeAppImpl h a c sha (wireOut (YMap m)) f = (None, True, f') \<and> file_wf f' \<and>
    merged_entry a c sha h bs \<in> set (afApps f') \<and>
    kv_read (afStrings f') bs = Some [KvObj appinfo_key (kv_of_map m)]"
proof -
  let ?w = "wireOut (YMap m)"
  obtain e f1 bs where T: "translateWireToIndexed ?w f = (e, f1, bs)" by (metis prod_cases3)
  have ok: "table_ok f" using wf by (simp add: file_wf_def table_ok_def)
  have w: "?w \<noteq> []" by (simp add: wireOut_def)
  have "afStrings f' = afStrings f1"
    using sha new w by (auto simp: f' mergeAppImpl_def T Let_def split: option.splits)
  then have few: "length (afStrings f1) < 2 ^ 32"
    using size strings_le_table [of "afStrings f'"] unfolding serialize_length by simp
  have R: "e = None" "kv_read (afStrings f1) bs = Some [KvObj appinfo_key (kv_of_map m)]"
    using wire_read [OF ok tree(1) T few] by simp_all
  have ext: "table_extends f f1" by (rule translate_extends [OF T])
  then have apps: "afApps f1 = afApps f" and ok1: "table_ok f1" using ok by (simp_all add: table_extends_def)
  have V: "validateGeneratedVdf bs f1 = None" using R tree by (simp add: validate_exact_aux)
  have M: "mergeAppImpl h a c sha ?w f
      = (None, True, f1\<lparr>afApps := replace_first (merged_entry a c sha h bs) (afApps f)\<rparr>)"
    using sha new w by (simp add: mergeAppImpl_def T R V apps merged_entry_def)
  then have F: "f' = f1\<lparr>afApps := replace_first (merged_entry a c sha h bs) (afApps f)\<rparr>" by (simp add: f')
  have "\<forall>s \<in> set (afStrings f1). 0 \<notin> set s"
  proof -
    have "f1 = snd (kv_emit [KvObj appinfo_key (kv_of_map m)] f)"
      using T unfolding translate_wireOut_aux by simp
    moreover have "nul_free [KvObj appinfo_key (kv_of_map m)]" using tree by (simp add: appinfo_key_def)
    moreover have "\<forall>s \<in> set (afStrings f). 0 \<notin> set s" using wf by (simp add: file_wf_def)
    ultimately show ?thesis using emit_strings_nul by blast
  qed
  moreover have "\<forall>e \<in> set (afApps f'). entry_wf e"
    unfolding F using wf a sha h
    by (simp add: file_wf_def) (rule replace_first_wf, simp_all add: entry_wf_def merged_entry_def)
  ultimately have "file_wf f'" using ok1 size by (simp add: file_wf_def F table_ok_def)
  then show ?thesis using M F R replace_first_self by auto
qed

section \<open>Properties\<close>

text \<open>a document printed by the text writer and merged by the provisioner survives the file: the
  merged file is well formed, reading back its serialization gives it, and the new app's payload
  decodes to the printed tree.\<close>

theorem merged_app_survives:
  assumes "file_wf f" "nul_free (kv_of_map m)" "kv_depth (kv_of_map m) \<le> 127"
    and "\<not> list_ex (\<lambda>e. aeAppId e = a \<and> aeChangeNumber e = c \<and> aeSha e = sha) (afApps f)"
    and "length sha = 20" "a \<noteq> 0" "\<And>bs. length (h bs) = 20"
    and f': "f' = snd (snd (mergeAppImpl h a c sha (wireOut (YMap m)) f))"
    and "length (serializeV41 f') < 2 ^ 32"
  shows "mergeAppImpl h a c sha (wireOut (YMap m)) f = (None, True, f') \<and>
    readV41 (serializeV41 f') = Inr f' \<and>
    (\<exists>e \<in> set (afApps f'). aeAppId e = a \<and> aeSha e = sha \<and> aeChangeNumber e = c \<and>
       kv_read (afStrings f') (aeBinaryVdf e) = Some [KvObj appinfo_key (kv_of_map m)])"
proof -
  from merge_printed [OF assms] obtain bs where
    M: "mergeAppImpl h a c sha (wireOut (YMap m)) f = (None, True, f')" "file_wf f'"
    and E: "merged_entry a c sha h bs \<in> set (afApps f')"
    "kv_read (afStrings f') bs = Some [KvObj appinfo_key (kv_of_map m)]" by blast
  have "\<exists>e \<in> set (afApps f'). aeAppId e = a \<and> aeSha e = sha \<and> aeChangeNumber e = c \<and>
       kv_read (afStrings f') (aeBinaryVdf e) = Some [KvObj appinfo_key (kv_of_map m)]"
    by (rule bexI [OF _ E(1)]) (simp add: merged_entry_def E(2))
  then show ?thesis using M(1) serialize_read_aux [OF M(2)] by blast
qed

text \<open>a successful merge puts the record in the place of the app's first one or at the end,
  leaves every other app's record as it was, keeps every payload that
  decoded decoding to the same tree, publishes a payload the indexed reader accepts, and a second
  merge of the same record changes nothing.\<close>

theorem merge_preserves:
  assumes M: "mergeAppImpl h a c sha w f = (None, True, f')"
  shows "map aeAppId (afApps f') =
      (if a \<in> aeAppId ` set (afApps f) then map aeAppId (afApps f) else map aeAppId (afApps f) @ [a]) \<and>
    filter (\<lambda>e. aeAppId e \<noteq> a) (afApps f') = filter (\<lambda>e. aeAppId e \<noteq> a) (afApps f) \<and>
    (\<forall>bs ts. kv_read (afStrings f) bs = Some ts \<longrightarrow> kv_read (afStrings f') bs = Some ts) \<and>
    (\<exists>e \<in> set (afApps f'). aeAppId e = a \<and> aeSha e = sha \<and> aeChangeNumber e = c \<and>
       aeBinaryHash e = h (aeBinaryVdf e) \<and> kv_read (afStrings f') (aeBinaryVdf e) \<noteq> None) \<and>
    mergeAppImpl h a c sha w f' = (None, False, f')"
proof -
  obtain f1 bs ts where R: "table_extends f f1" "kv_read (afStrings f1) bs = Some ts"
    "f' = f1\<lparr>afApps := replace_first (merged_entry a c sha h bs) (afApps f)\<rparr>"
    using merge_result [OF M] by blast
  let ?e = "merged_entry a c sha h bs"
  have self: "?e \<in> set (afApps f')" using R(3) replace_first_self by simp
  have "list_ex (\<lambda>e. aeAppId e = a \<and> aeChangeNumber e = c \<and> aeSha e = sha) (afApps f')"
    unfolding list_ex_iff by (rule bexI [OF _ self]) (simp add: merged_entry_def)
  moreover have "length sha = 20" "w \<noteq> []" using M by (auto simp: mergeAppImpl_def split: if_splits)
  ultimately have again: "mergeAppImpl h a c sha w f' = (None, False, f')" by (simp add: mergeAppImpl_def)
  have others: "filter (\<lambda>e. aeAppId e \<noteq> a) (afApps f') = filter (\<lambda>e. aeAppId e \<noteq> a) (afApps f)"
    using replace_first_other [of ?e "afApps f"] R(3) by (simp add: merged_entry_def)
  have keep: "kv_read (afStrings f) b = Some t \<longrightarrow> kv_read (afStrings f') b = Some t" for b t
    using extends_read [OF R(1)] R(3) by simp
  have "\<exists>e \<in> set (afApps f'). aeAppId e = a \<and> aeSha e = sha \<and> aeChangeNumber e = c \<and>
       aeBinaryHash e = h (aeBinaryVdf e) \<and> kv_read (afStrings f') (aeBinaryVdf e) \<noteq> None"
    by (rule bexI [OF _ self]) (use R(2,3) in \<open>simp add: merged_entry_def\<close>)
  moreover have "map aeAppId (afApps f') =
      (if a \<in> aeAppId ` set (afApps f) then map aeAppId (afApps f) else map aeAppId (afApps f) @ [a])"
    using replace_first_ids [of ?e "afApps f"] R(3) by (simp add: merged_entry_def)
  ultimately show ?thesis using again others keep by blast
qed

text \<open>a merge that fails reports no change and leaves the apps and every decodable payload as they
  were; strings it interned before failing stay in the table.\<close>

theorem merge_failure_safe:
  assumes "mergeAppImpl h a c sha w f = (Some err, ch, f')"
  shows "\<not> ch \<and> afApps f' = afApps f \<and> afUniverse f' = afUniverse f \<and>
    (\<forall>bs ts. kv_read (afStrings f) bs = Some ts \<longrightarrow> kv_read (afStrings f') bs = Some ts)"
proof -
  have "\<not> ch \<and> table_extends f f'"
    using assms translate_extends [of w f]
    by (auto simp: mergeAppImpl_def Let_def split: if_splits prod.splits option.splits)
  then show ?thesis by (auto simp: table_extends_def read_more)
qed

text \<open>the post-generation validator accepts a payload exactly when it decodes completely against the
  file's string table and nests at most 128 deep.\<close>

theorem validateGeneratedVdf_exact:
  "validateGeneratedVdf bs f = None \<longleftrightarrow> (\<exists>ts. kv_read (afStrings f) bs = Some ts \<and> kv_depth ts \<le> 128)"
  by (rule validate_exact_aux)

text \<open>translating any text and validating any payload ends within the fuel the model gives it, one
  more than the length of its input.\<close>

theorem translate_validate_terminate:
  "fst (translateWireToIndexed w f) \<noteq> Some FuelExhausted \<and>
   validateGeneratedVdf bs g \<noteq> Some FuelExhausted"
  by (simp add: translate_fuel validator_fuel)

section \<open>Witnesses\<close>

definition sample_map :: "(bytes \<times> ynode) list" where
  "sample_map = [([97], YMap [([98], YScalar [99])])]"

definition zero_hash :: "bytes \<Rightarrow> bytes" where
  "zero_hash bs = replicate 20 0"

definition sample_merge :: "vdf_error option \<times> bool \<times> app_info_file" where
  "sample_merge = mergeAppImpl zero_hash 440 7 (zero_hash []) (wireOut (YMap sample_map)) empty_file"

lemma empty_file_wf: "file_wf empty_file"
  unfolding file_wf_def serialize_length by (simp add: empty_file_def)

lemma sample_translate: "translateWireToIndexed (wireOut (YMap sample_map)) empty_file =
    (None, snd (kv_emit [KvObj appinfo_key (kv_of_map sample_map)] empty_file),
     fst (kv_emit [KvObj appinfo_key (kv_of_map sample_map)] empty_file) @ [8])"
  by (rule translate_wireOut_aux)

lemma sample_merge_small: "length (serializeV41 (snd (snd sample_merge))) < 2 ^ 32"
proof -
  have small: "length (serializeV41 f) < 2 ^ 32"
    if "afStrings f = [appinfo_key, [97], [98]]" "afApps f = [] \<or> afApps f = [merged_entry 440 7 (zero_hash []) zero_hash bs]"
      "length bs < 1000" for f bs
    using that unfolding serialize_length
    by (auto simp: entry_bytes_def entry_payload_def merged_entry_def zero_hash_def appinfo_key_def Let_def)
  let ?T = "kv_emit [KvObj appinfo_key (kv_of_map sample_map)] empty_file"
  have K: "afStrings (snd ?T) = [appinfo_key, [97], [98]]" "afApps (snd ?T) = []" "length (fst ?T @ [8]) < 1000"
    by (simp_all add: sample_map_def empty_file_def internStringIndex_def appinfo_key_def)
  obtain f1 bs where T: "translateWireToIndexed (wireOut (YMap sample_map)) empty_file = (None, f1, bs)"
    and F: "afStrings f1 = [appinfo_key, [97], [98]]" "afApps f1 = []" "length bs < 1000"
    using K unfolding sample_translate by blast
  have w: "wireOut (YMap sample_map) \<noteq> []" "afApps empty_file = []"
    by (simp_all add: wireOut_def empty_file_def)
  show ?thesis
  proof (rule small [OF _ _ F(3)])
    show "afStrings (snd (snd sample_merge)) = [appinfo_key, [97], [98]]"
      using F(1) w by (simp add: sample_merge_def mergeAppImpl_def T zero_hash_def Let_def split: option.split)
    show "afApps (snd (snd sample_merge)) = [] \<or>
        afApps (snd (snd sample_merge)) = [merged_entry 440 7 (zero_hash []) zero_hash bs]"
      using F(2) w by (simp add: sample_merge_def mergeAppImpl_def T merged_entry_def zero_hash_def Let_def
          split: option.split)
  qed
qed

lemma sample_merge_ok: "sample_merge = (None, True, snd (snd sample_merge))"
  using merge_printed [OF empty_file_wf, of sample_map 440 7 "zero_hash []" zero_hash "snd (snd sample_merge)"]
    sample_merge_small
  by (simp add: sample_merge_def sample_map_def zero_hash_def empty_file_def)

lemma merged_app_survives_witness:
  "sample_merge = (None, True, snd (snd sample_merge)) \<and>
   readV41 (serializeV41 (snd (snd sample_merge))) = Inr (snd (snd sample_merge))"
  using merged_app_survives [OF empty_file_wf, of sample_map 440 7 "zero_hash []" zero_hash "snd (snd sample_merge)"]
    sample_merge_small
  by (simp add: sample_merge_def sample_map_def zero_hash_def empty_file_def)

lemma merge_preserves_witness:
  "mergeAppImpl zero_hash 440 7 (zero_hash []) (wireOut (YMap sample_map)) (snd (snd sample_merge))
    = (None, False, snd (snd sample_merge))"
  using merge_preserves [OF sample_merge_ok [unfolded sample_merge_def]] by (simp add: sample_merge_def)

definition broken_wire :: bytes where
  "broken_wire = [34, 97, 34, 123, 34, 98, 34]"

lemma merge_failure_safe_witness:
  "fst (mergeAppImpl zero_hash 440 7 (zero_hash []) broken_wire empty_file) = Some ExpectedValueOrBrace \<and>
   afApps (snd (snd (mergeAppImpl zero_hash 440 7 (zero_hash []) broken_wire empty_file))) = afApps empty_file"
proof -
  obtain err ch f' where r: "mergeAppImpl zero_hash 440 7 (zero_hash []) broken_wire empty_file = (err, ch, f')"
    by (metis prod_cases3)
  have "fst (mergeAppImpl zero_hash 440 7 (zero_hash []) broken_wire empty_file) = Some ExpectedValueOrBrace"
    by code_simp
  moreover from this have "err = Some ExpectedValueOrBrace" by (simp add: r)
  ultimately show ?thesis using merge_failure_safe [of zero_hash 440 7 "zero_hash []" broken_wire empty_file] r by simp
qed

section \<open>A key with a NUL byte\<close>

definition nul_wire :: bytes where
  "nul_wire = [34, 114, 34, 123, 34, 97, 0, 98, 34, 34, 118, 34, 34, 99, 34, 34, 119, 34, 125]"

definition nul_merge :: "vdf_error option \<times> bool \<times> app_info_file" where
  "nul_merge = mergeAppImpl zero_hash 440 7 (zero_hash []) nul_wire empty_file"

lemma nul_merge_strings:
  "fst nul_merge = None \<and> afStrings (snd (snd nul_merge)) = [[114], [97, 0, 98], [99]]"
  by code_simp

lemma nul_merge_small:
  assumes s: "afStrings f = [[114], [97, 0, 98], [99]]" and a: "length (afApps f) \<le> 1"
    and b: "\<forall>e \<in> set (afApps f). entry_wf e \<and> length (aeBinaryVdf e) < 1000"
  shows "readV41 (serializeV41 f) = Inr (f\<lparr>afStrings := [[114], [97], [98]],
    afStringIndex := index_from 0 [[114], [97], [98]] Map.empty\<rparr>)"
proof (rule readV41_serialize)
  have "afApps f = [] \<or> (\<exists>e. afApps f = [e])" using a by (cases "afApps f") auto
  then show "length (serializeV41 f) < 2 ^ 32"
    using b by (auto simp: serialize_length s entry_bytes_def length_entry_payload headerBytes_def Let_def)
qed (use b s in \<open>simp_all add: Let_def\<close>)

definition nul_payload :: bytes where
  "nul_payload = [0, 0, 0, 0, 0, 1, 1, 0, 0, 0, 118, 0, 1, 2, 0, 0, 0, 119, 0, 8, 8]"

lemma nul_merge_apps: "afApps (snd (snd nul_merge)) = [merged_entry 440 7 (zero_hash []) zero_hash nul_payload]"
  by code_simp

lemma nul_payload_reads:
  "kv_read [[114], [97, 0, 98], [99]] nul_payload = Some [KvObj [114] [KvLeaf [97, 0, 98] [118], KvLeaf [99] [119]]]"
  "kv_read [[114], [97], [98]] nul_payload = Some [KvObj [114] [KvLeaf [97] [118], KvLeaf [98] [119]]]"
  by code_simp+

text \<open>C?: a quoted key that contains a NUL byte passes the validator and is interned, but the string
  table is written NUL-terminated: after a write and a read the table has shifted, and a later key of
  the same payload, here \<open>c\<close>, decodes as a different string, without an error.\<close>

theorem nul_key_shifts_table:
  "fst nul_merge = None \<and>
   kv_read (afStrings (snd (snd nul_merge))) nul_payload
     = Some [KvObj [114] [KvLeaf [97, 0, 98] [118], KvLeaf [99] [119]]] \<and>
   (\<exists>g. readV41 (serializeV41 (snd (snd nul_merge))) = Inr g \<and>
      map aeBinaryVdf (afApps g) = [nul_payload] \<and>
      kv_read (afStrings g) nul_payload = Some [KvObj [114] [KvLeaf [97] [118], KvLeaf [98] [119]]])"
proof -
  have "readV41 (serializeV41 (snd (snd nul_merge))) = Inr ((snd (snd nul_merge))\<lparr>afStrings := [[114], [97], [98]],
      afStringIndex := index_from 0 [[114], [97], [98]] Map.empty\<rparr>)"
    by (rule nul_merge_small)
      (simp_all add: nul_merge_strings nul_merge_apps merged_entry_def entry_wf_def zero_hash_def nul_payload_def)
  then show ?thesis
    using nul_merge_strings nul_payload_reads by (simp add: nul_merge_apps merged_entry_def)
qed

end
