(* ===== verification/DlcIds.thy ===== *)
theory DlcIds
  imports Prelude CppText
begin

text \<open>
  DLC app ids of a provisioned app info text (\<open>src/feats/dlcids.hpp\<close>): the scanner for quoted
  values, the two sources of DLC ids, the selection for package 0, the depot classifier and the
  filter of advertised lists. Texts are lists of characters and positions are indexes into them;
  \<open>std::stoul\<close> is that of the 32-bit build, where a value past the word throws.
\<close>

section \<open>Tokens and ids\<close>

text \<open>A list of ids and the set of ids seen.\<close>

type_synonym id_acc = "u32 list \<times> u32 set"

definition insert_new :: "u32 \<Rightarrow> id_acc \<Rightarrow> id_acc" where
  "insert_new i acc = (if i \<in> snd acc then acc else (fst acc @ [i], insert i (snd acc)))"

definition stoul :: "string \<Rightarrow> u32 option" where
  "stoul tok = (if dec_value tok \<le> u32_max then Some (of_nat (dec_value tok)) else None)"

definition addDlcId :: "string \<Rightarrow> u32 \<Rightarrow> id_acc \<Rightarrow> id_acc" where
  "addDlcId tok base acc =
     (if tok = [] \<or> \<not> list_all is_digit tok then acc
      else (case stoul tok of
              None \<Rightarrow> acc
            | Some i \<Rightarrow> if i = 0 \<or> i = base then acc else insert_new i acc))"

definition appendUnique :: "u32 \<Rightarrow> id_acc \<Rightarrow> id_acc" where
  "appendUnique i acc = (if i \<noteq> 0 then insert_new i acc else acc)"

section \<open>Scanning for quoted values\<close>

definition quote :: char where "quote = CHR 0x22"

text \<open>The value behind the first key at or after a position, and the position behind it.\<close>

definition nextQuotedValueFor :: "string \<Rightarrow> string \<Rightarrow> nat \<Rightarrow> (string \<times> nat) option" where
  "nextQuotedValueFor s key pos =
     (let needle = quote # key @ [quote] in
      case find_from needle s pos of
        None \<Rightarrow> None
      | Some k \<Rightarrow>
          (case find_from [quote] s (k + length needle) of
             None \<Rightarrow> None
           | Some opn \<Rightarrow>
               (case find_from [quote] s (opn + 1) of
                  None \<Rightarrow> None
                | Some close \<Rightarrow> Some (take (close - (opn + 1)) (drop (opn + 1) s), close + 1))))"

lemma find_from_bounds: "find_from p s i = Some k \<Longrightarrow> i \<le> k \<and> k + length p \<le> length s"
  using find_from_SomeD(1,2) [of p s i k] by simp

lemma next_value_bounds:
  assumes "nextQuotedValueFor s key pos = Some (v, nx)"
  shows "pos < nx" and "nx \<le> length s"
  using assms
  by (auto simp: nextQuotedValueFor_def Let_def split: option.splits dest!: find_from_bounds)

text \<open>The loop over every value of a key.\<close>

function quoted_values :: "string \<Rightarrow> string \<Rightarrow> nat \<Rightarrow> string list" where
  "quoted_values s key pos =
     (case nextQuotedValueFor s key pos of
        None \<Rightarrow> []
      | Some (v, nx) \<Rightarrow> v # quoted_values s key nx)"
  by pat_completeness auto
termination
proof (relation "measure (\<lambda>(s, key, pos). length s - pos)")
  fix s key pos x v nx
  assume "nextQuotedValueFor s key pos = Some x" "(v, nx) = x"
  then have "pos < nx" "nx \<le> length s" using next_value_bounds by auto
  then show "((s, key, nx), s, key, pos) \<in> measure (\<lambda>(s, key, pos). length s - pos)" by auto
qed simp

declare quoted_values.simps [simp del]

text \<open>The loop over the comma-separated tokens of a value.\<close>

definition comma_from :: "string \<Rightarrow> nat \<Rightarrow> nat" where
  "comma_from v i = (case find_from [CHR 0x2C] v i of None \<Rightarrow> length v | Some j \<Rightarrow> j)"

lemma comma_from_bounds: "i \<le> length v \<Longrightarrow> i \<le> comma_from v i \<and> comma_from v i \<le> length v"
  by (auto simp: comma_from_def split: option.split dest!: find_from_bounds)

function list_tokens_loop :: "string \<Rightarrow> u32 \<Rightarrow> nat \<Rightarrow> id_acc \<Rightarrow> id_acc" where
  "list_tokens_loop v base i acc =
     (if i < length v then
        (let j = comma_from v i
         in list_tokens_loop v base (j + 1) (addDlcId (take (j - i) (drop i v)) base acc))
      else acc)"
  by pat_completeness auto
termination
proof (relation "measure (\<lambda>(v, base, i, acc). length v - i)")
  fix v base i acc j
  assume "i < length v" "j = comma_from v i"
  then show "((v, base, j + 1, addDlcId (take (j - i) (drop i v)) base acc), v, base, i, acc)
      \<in> measure (\<lambda>(v, base, i, acc). length v - i)"
    using comma_from_bounds [of i v] by auto
qed simp

declare list_tokens_loop.simps [simp del]

section \<open>The two sources\<close>

record dlc_app_ids =
  depotTagged :: "u32 list"
  advertised :: "u32 list"

definition listofdlc :: string where "listofdlc = ''listofdlc''"
definition dlcappid :: string where "dlcappid = ''dlcappid''"

definition extractDlcAppIdsBySource :: "string \<Rightarrow> u32 \<Rightarrow> dlc_app_ids" where
  "extractDlcAppIdsBySource wire base =
     (if wire = [] then \<lparr>depotTagged = [], advertised = []\<rparr>
      else
        (let adv = fold (\<lambda>v. list_tokens_loop v base 0) (quoted_values wire listofdlc 0) ([], {});
             dep = fold (\<lambda>v. addDlcId v base) (quoted_values wire dlcappid 0) ([], {})
         in \<lparr>depotTagged = fst dep, advertised = fst adv\<rparr>))"

definition extractDlcAppIds :: "string \<Rightarrow> u32 \<Rightarrow> u32 list" where
  "extractDlcAppIds wire base =
     (let grouped = extractDlcAppIdsBySource wire base
      in fst (fold insert_new (depotTagged grouped) (fold insert_new (advertised grouped) ([], {}))))"

section \<open>Metadata candidates\<close>

record dlc_metadata_facts =
  requestedBaseAppId :: u32
  requestedDlcAppId :: u32
  wireAppId :: u32
  parentAppId :: u32
  hasCommon :: bool
  typeIsDlc :: bool

definition isValidDlcMetadata :: "dlc_metadata_facts \<Rightarrow> bool" where
  "isValidDlcMetadata facts \<longleftrightarrow>
     requestedBaseAppId facts \<noteq> 0 \<and> requestedDlcAppId facts \<noteq> 0 \<and>
     requestedDlcAppId facts \<noteq> requestedBaseAppId facts \<and>
     wireAppId facts = requestedDlcAppId facts \<and> parentAppId facts = requestedBaseAppId facts \<and>
     hasCommon facts \<and> typeIsDlc facts"

definition candidate :: "u32 \<Rightarrow> u32 \<Rightarrow> id_acc \<Rightarrow> id_acc" where
  "candidate base i acc = (if i \<noteq> 0 \<and> i \<noteq> base then insert_new i acc else acc)"

definition selectDlcMetadataCandidates :: "u32 \<Rightarrow> dlc_app_ids \<Rightarrow> u32 list" where
  "selectDlcMetadataCandidates base sources =
     sort (fst (fold (candidate base) (depotTagged sources)
       (fold (candidate base) (advertised sources) ([], {}))))"

section \<open>Package 0\<close>

record dlc_injection_ids =
  package0 :: "u32 list"
  appDlc :: "u32 list"

definition hasDepotsInDlc :: "string \<Rightarrow> bool" where
  "hasDepotsInDlc wire =
     (case nextQuotedValueFor wire ''hasdepotsindlc'' 0 of
        None \<Rightarrow> False
      | Some (v, _) \<Rightarrow> v = ''1'' \<or> v = ''yes'' \<or> v = ''true'')"

text \<open>The base ids come in the iteration order of an unordered set, given as a list.\<close>

definition mergePackage0AppIds :: "u32 list \<Rightarrow> u32 list \<Rightarrow> u32 list" where
  "mergePackage0AppIds baseAppIds extraAppIds =
     fst (fold appendUnique extraAppIds (fold appendUnique baseAppIds ([], {})))"

definition inject_tagged :: "u32 \<Rightarrow> id_acc \<times> id_acc \<Rightarrow> id_acc \<times> id_acc" where
  "inject_tagged i s = (appendUnique i (fst s), appendUnique i (snd s))"

definition inject_advertised :: "u32 set \<Rightarrow> bool \<Rightarrow> u32 \<Rightarrow> id_acc \<times> id_acc \<Rightarrow> id_acc \<times> id_acc" where
  "inject_advertised withContent injectAll i s =
     (if injectAll \<or> i \<in> withContent then appendUnique i (fst s) else fst s, appendUnique i (snd s))"

definition selectDlcInjectionIds :: "dlc_app_ids \<Rightarrow> u32 set \<Rightarrow> bool \<Rightarrow> dlc_injection_ids" where
  "selectDlcInjectionIds sources withContent injectAll =
     (let s = fold (inject_advertised withContent injectAll) (advertised sources)
                (fold inject_tagged (depotTagged sources) (([], {}), ([], {})))
      in \<lparr>package0 = fst (fst s), appDlc = fst (snd s)\<rparr>)"

section \<open>Manifest names\<close>

definition manifest_suffix :: string where "manifest_suffix = ''.manifest''"

definition depotIdFromManifestName :: "string \<Rightarrow> u32 option" where
  "depotIdFromManifestName name =
     (case find_from ''_'' name 0 of
        None \<Rightarrow> None
      | Some us \<Rightarrow>
          if us = 0 \<or> length name \<le> us + 1 + length manifest_suffix \<or> \<not> ends_with manifest_suffix name
          then None
          else
            (case from_chars_all u32_max (take us name) of
               None \<Rightarrow> None
             | Some d \<Rightarrow>
                 if d = 0 then None
                 else
                   (case from_chars_all u64_max
                           (take (length name - length manifest_suffix - (us + 1)) (drop (us + 1) name)) of
                      None \<Rightarrow> None
                    | Some g \<Rightarrow> if g = 0 then None else Some (of_nat d))))"

section \<open>Depot classification\<close>

text \<open>The scan state is the depth, whether a string is open and whether its last character was a
  backslash; the brace that closes the first one is found at its index.\<close>

fun brace_loop :: "string \<Rightarrow> nat \<Rightarrow> u32 \<Rightarrow> bool \<Rightarrow> bool \<Rightarrow> nat option" where
  "brace_loop [] i depth quoted escaped = None"
| "brace_loop (c # s) i depth quoted escaped =
     (if quoted then
        (if escaped then brace_loop s (Suc i) depth quoted False
         else if c = CHR 0x5C then brace_loop s (Suc i) depth quoted True
         else if c = quote then brace_loop s (Suc i) depth False escaped
         else brace_loop s (Suc i) depth quoted escaped)
      else if c = quote then brace_loop s (Suc i) depth True escaped
      else if c = CHR ''{'' then brace_loop s (Suc i) (depth + 1) quoted escaped
      else if c = CHR ''}'' then
        (if depth - 1 = 0 then Some i else brace_loop s (Suc i) (depth - 1) quoted escaped)
      else brace_loop s (Suc i) depth quoted escaped)"

definition matchingBrace :: "string \<Rightarrow> nat \<Rightarrow> nat option" where
  "matchingBrace s opn =
     (if opn \<ge> length s \<or> s ! opn \<noteq> CHR ''{'' then None
      else brace_loop (drop opn s) opn 0 False False)"

lemma brace_loop_bounds: "brace_loop s i d q e = Some k \<Longrightarrow> i \<le> k \<and> k < i + length s"
  by (induction s i d q e rule: brace_loop.induct) (auto split: if_splits)

lemma matchingBrace_bounds: "matchingBrace s opn = Some k \<Longrightarrow> opn \<le> k \<and> k < length s"
  using brace_loop_bounds [of "drop opn s" opn 0 False False k]
  by (auto simp: matchingBrace_def split: if_splits)

definition depot_key :: "u32 \<Rightarrow> string" where
  "depot_key depot = quote # to_dec (unat depot) @ [quote]"

definition dlcappid_key :: string where
  "dlcappid_key = quote # dlcappid @ [quote]"

function depot_tag_loop :: "string \<Rightarrow> u32 \<Rightarrow> u32 \<Rightarrow> nat \<Rightarrow> u32 option" where
  "depot_tag_loop wire base depot pos =
     (case find_from (depot_key depot) wire pos of
        None \<Rightarrow> None
      | Some k \<Rightarrow>
          (let p = k + length (depot_key depot); nextQuote = find_from [quote] wire p in
           case find_from ''{'' wire p of
             None \<Rightarrow> None
           | Some opn \<Rightarrow>
               if (case nextQuote of None \<Rightarrow> False | Some q \<Rightarrow> q < opn)
               then depot_tag_loop wire base depot p
               else
                 (case matchingBrace wire opn of
                    None \<Rightarrow> None
                  | Some close \<Rightarrow>
                      (case find_from dlcappid_key wire (opn + 1) of
                         None \<Rightarrow> depot_tag_loop wire base depot (close + 1)
                       | Some tag \<Rightarrow>
                           if tag \<ge> close then depot_tag_loop wire base depot (close + 1)
                           else
                             (case nextQuotedValueFor wire dlcappid tag of
                                None \<Rightarrow> None
                              | Some (v, nx) \<Rightarrow>
                                  if nx \<le> close
                                  then (case fst (addDlcId v base ([], {})) of [] \<Rightarrow> None | i # _ \<Rightarrow> Some i)
                                  else None)))))"
  by pat_completeness auto
termination
  by (relation "measure (\<lambda>(wire, base, depot, pos). Suc (length wire) - pos)")
    (auto simp: depot_key_def dest!: find_from_bounds matchingBrace_bounds)

declare depot_tag_loop.simps [simp del]

definition dlcAppIdForDepot :: "string \<Rightarrow> u32 \<Rightarrow> u32 \<Rightarrow> u32" where
  "dlcAppIdForDepot wire base depot =
     (if wire = [] \<or> depot = 0 \<or> depot = base then 0
      else (case depot_tag_loop wire base depot 0 of
              Some i \<Rightarrow> i
            | None \<Rightarrow> if depot \<in> set (extractDlcAppIds wire base) then depot else 0))"

section \<open>Filtering an advertised list\<close>

definition unsupported_token :: "u32 set \<Rightarrow> string \<Rightarrow> bool" where
  "unsupported_token uns tok \<longleftrightarrow>
     tok \<noteq> [] \<and> list_all is_digit tok \<and> (case stoul tok of None \<Rightarrow> False | Some i \<Rightarrow> i \<in> uns)"

text \<open>The output, the number of removed tokens, and whether the next kept token is the first.\<close>

function filter_tokens_loop :: "string \<Rightarrow> u32 set \<Rightarrow> nat \<Rightarrow> string \<Rightarrow> nat \<Rightarrow> bool \<Rightarrow> string \<times> nat" where
  "filter_tokens_loop v uns i out removed firstKept =
     (if i \<le> length v then
        (let j = comma_from v i; tok = take (j - i) (drop i v);
             drp = unsupported_token uns tok;
             out' = (if drp then out else (if firstKept then out else out @ [CHR 0x2C]) @ tok);
             removed' = (if drp then Suc removed else removed);
             firstKept' = (if drp then firstKept else False)
         in if j = length v then (out', removed')
            else filter_tokens_loop v uns (j + 1) out' removed' firstKept')
      else (out, removed))"
  by pat_completeness auto
termination
proof (relation "measure (\<lambda>(v, uns, i, out, removed, firstKept). Suc (length v) - i)")
  fix v :: string and uns :: "u32 set" and i j and out out' :: string and removed removed' :: nat
    and firstKept firstKept'
  assume "i \<le> length v" "j = comma_from v i" "j \<noteq> length v"
  then show "((v, uns, j + 1, out', removed', firstKept'), v, uns, i, out, removed, firstKept)
      \<in> measure (\<lambda>(v, uns, i, out, removed, firstKept). Suc (length v) - i)"
    using comma_from_bounds [of i v] by auto
qed simp

declare filter_tokens_loop.simps [simp del]

definition filterUnsupportedDlcAppIds :: "string \<Rightarrow> u32 set \<Rightarrow> string \<times> nat" where
  "filterUnsupportedDlcAppIds v uns = filter_tokens_loop v uns 0 [] 0 True"

section \<open>First occurrences\<close>

definition firsts :: "'a list \<Rightarrow> 'a list" where
  "firsts xs = rev (remdups (rev xs))"

lemma firsts_snoc [simp]: "firsts (xs @ [x]) = (if x \<in> set xs then firsts xs else firsts xs @ [x])"
  by (simp add: firsts_def)

lemma firsts_Nil [simp]: "firsts [] = []"
  by (simp add: firsts_def)

lemma set_firsts [simp]: "set (firsts xs) = set xs"
  by (simp add: firsts_def)

lemma distinct_firsts [simp]: "distinct (firsts xs)"
  by (simp add: firsts_def)

lemma fold_insert_new:
  "fold insert_new xs (firsts ys, set ys) = (firsts (ys @ xs), set (ys @ xs))"
proof (induction xs rule: rev_induct)
  case (snoc x xs)
  have "firsts (ys @ xs @ [x]) = firsts ((ys @ xs) @ [x])" by simp
  also have "\<dots> = (if x \<in> set (ys @ xs) then firsts (ys @ xs) else firsts (ys @ xs) @ [x])"
    by (rule firsts_snoc)
  finally show ?case using snoc by (auto simp: insert_new_def)
qed simp

lemma fold_insert_new_empty: "fold insert_new xs ([], {}) = (firsts xs, set xs)"
  using fold_insert_new [of xs "[]"] by simp

lemma fold_insert_two:
  "fst (fold insert_new ys (fold insert_new xs ([], {}))) = firsts (xs @ ys)"
  by (simp add: fold_insert_new_empty fold_insert_new)

lemma fold_option:
  "(\<And>x acc. f x acc = (case g x of None \<Rightarrow> acc | Some i \<Rightarrow> insert_new i acc)) \<Longrightarrow>
     fold f xs acc = fold insert_new (List.map_filter g xs) acc"
  by (induction xs arbitrary: acc) (simp_all add: map_filter_simps split: option.splits)

lemma fold_filter:
  "(\<And>x acc. f x acc = (if P x then insert_new x acc else acc)) \<Longrightarrow>
     fold f xs acc = fold insert_new (filter P xs) acc"
  by (induction xs arbitrary: acc) simp_all

section \<open>Tokens\<close>

definition dlc_token :: "u32 \<Rightarrow> string \<Rightarrow> u32 option" where
  "dlc_token base tok =
     (if tok \<noteq> [] \<and> list_all is_digit tok \<and> dec_value tok \<le> u32_max \<and> dec_value tok \<noteq> 0 \<and>
          dec_value tok \<noteq> unat base
      then Some (of_nat (dec_value tok)) else None)"

lemma of_nat_u32: "n \<le> u32_max \<Longrightarrow> unat (of_nat n :: u32) = n"
  by (simp add: u32_max_def unat_of_nat)

lemma of_nat_u32_eq: "n \<le> u32_max \<Longrightarrow> (of_nat n :: u32) = w \<longleftrightarrow> n = unat w"
  using of_nat_u32 by fastforce

lemma addDlcId_token:
  "addDlcId tok base acc = (case dlc_token base tok of None \<Rightarrow> acc | Some i \<Rightarrow> insert_new i acc)"
  using of_nat_u32_eq [of "dec_value tok" 0] of_nat_u32_eq [of "dec_value tok" base]
  by (auto simp: addDlcId_def dlc_token_def stoul_def)

fun split_commas :: "string \<Rightarrow> string list" where
  "split_commas [] = [[]]"
| "split_commas (c # s) =
     (if c = CHR 0x2C then [] # split_commas s
      else (case split_commas s of [] \<Rightarrow> [[c]] | t # ts \<Rightarrow> (c # t) # ts))"

definition join_commas :: "string list \<Rightarrow> string" where
  "join_commas ts = (case ts of [] \<Rightarrow> [] | t # ts \<Rightarrow> t @ concat (map (\<lambda>u. CHR 0x2C # u) ts))"

lemma split_not_Nil [simp]: "split_commas s \<noteq> []"
  by (cases s) (auto split: list.split)

lemma split_rec:
  "split_commas s = takeWhile (\<lambda>c. c \<noteq> CHR 0x2C) s #
     (case dropWhile (\<lambda>c. c \<noteq> CHR 0x2C) s of [] \<Rightarrow> [] | _ # r \<Rightarrow> split_commas r)"
  by (induction s) (auto split: list.split)

lemma split_no_comma: "t \<in> set (split_commas s) \<Longrightarrow> CHR 0x2C \<notin> set t"
proof (induction s arbitrary: t)
  case (Cons c s)
  then show ?case by (cases "split_commas s") (auto split: if_splits)
qed simp

lemma join_split [simp]: "join_commas (split_commas s) = s"
proof (induction s)
  case (Cons c s)
  then show ?case by (cases "split_commas s") (auto simp: join_commas_def)
qed (simp add: join_commas_def)

lemma split_append: "CHR 0x2C \<notin> set t \<Longrightarrow>
    split_commas (t @ s) = (case split_commas s of [] \<Rightarrow> [t] | u # us \<Rightarrow> (t @ u) # us)"
  by (induction t) (auto split: list.splits)

lemma split_join:
  "\<forall>t \<in> set ts. CHR 0x2C \<notin> set t \<Longrightarrow> ts \<noteq> [] \<Longrightarrow> split_commas (join_commas ts) = ts"
proof (induction ts)
  case (Cons t ts)
  show ?case
  proof (cases ts)
    case Nil
    then show ?thesis using Cons.prems split_append [of t "[]"] by (simp add: join_commas_def)
  next
    case (Cons u us)
    then have "join_commas (t # ts) = t @ CHR 0x2C # join_commas ts" by (simp add: join_commas_def)
    then show ?thesis using Cons.IH Cons.prems Cons split_append [of t] by simp
  qed
qed simp

lemma length_takeWhile_all: "c \<notin> set s \<Longrightarrow> length (takeWhile (\<lambda>d. d \<noteq> c) s) = length s"
  by (metis (full_types) takeWhile_eq_all_conv)

lemma comma_from_tokens:
  assumes "i \<le> length v"
  shows "take (comma_from v i - i) (drop i v) = takeWhile (\<lambda>c. c \<noteq> CHR 0x2C) (drop i v)"
    and "comma_from v i = i + length (takeWhile (\<lambda>c. c \<noteq> CHR 0x2C) (drop i v))"
proof -
  show c: "comma_from v i = i + length (takeWhile (\<lambda>c. c \<noteq> CHR 0x2C) (drop i v))"
    using assms length_takeWhile_all [of "CHR 0x2C" "drop i v"]
    by (simp add: comma_from_def find_from_def find_at_single)
  show "take (comma_from v i - i) (drop i v) = takeWhile (\<lambda>c. c \<noteq> CHR 0x2C) (drop i v)"
    unfolding c by (simp add: takeWhile_eq_take [symmetric])
qed

lemma split_from:
  assumes "i \<le> length v"
  shows "split_commas (drop i v) = take (comma_from v i - i) (drop i v) #
    (if comma_from v i = length v then [] else split_commas (drop (comma_from v i + 1) v))"
proof -
  let ?t = "takeWhile (\<lambda>c. c \<noteq> CHR 0x2C) (drop i v)"
  have d: "dropWhile (\<lambda>c. c \<noteq> CHR 0x2C) (drop i v) = drop (comma_from v i) v"
    using comma_from_tokens(2) [OF assms] by (simp add: dropWhile_eq_drop add.commute)
  have "(case drop (comma_from v i) v of [] \<Rightarrow> [] | _ # r \<Rightarrow> split_commas r)
      = (if comma_from v i = length v then [] else split_commas (drop (comma_from v i + 1) v))"
    using comma_from_bounds [OF assms] by (auto simp: drop_Suc tl_drop split: list.split)
      (metis drop_Suc list.sel(3) tl_drop)
  then show ?thesis using split_rec [of "drop i v"] d comma_from_tokens(1) [OF assms] by simp
qed

section \<open>Exactness of the loops\<close>

lemma list_tokens_loop_split:
  "i \<le> length v \<Longrightarrow>
     list_tokens_loop v base i acc = fold (\<lambda>t. addDlcId t base) (split_commas (drop i v)) acc"
proof (induction v base i acc rule: list_tokens_loop.induct)
  case (1 v base i acc)
  show ?case
  proof (cases "i < length v")
    case True
    let ?j = "comma_from v i"
    let ?acc = "addDlcId (take (?j - i) (drop i v)) base acc"
    have b: "i \<le> ?j" "?j \<le> length v" using comma_from_bounds "1.prems" by blast+
    have "list_tokens_loop v base i acc = list_tokens_loop v base (?j + 1) ?acc"
      using True by (subst list_tokens_loop.simps) (simp add: Let_def)
    also have "\<dots> = fold (\<lambda>t. addDlcId t base)
        (if ?j = length v then [] else split_commas (drop (?j + 1) v)) ?acc"
      using "1.IH" [OF True refl] b by (auto simp: list_tokens_loop.simps [of _ _ "Suc (length v)"])
    finally show ?thesis by (simp add: split_from [OF "1.prems"])
  next
    case False
    then have "drop i v = []" by simp
    then show ?thesis using False by (subst list_tokens_loop.simps) (simp add: addDlcId_def)
  qed
qed

lemma filter_tokens_loop_split:
  "i \<le> length v \<Longrightarrow>
     filter_tokens_loop v uns i out removed firstKept =
       (let kept = filter (\<lambda>t. \<not> unsupported_token uns t) (split_commas (drop i v))
        in (out @ (if firstKept then join_commas kept else concat (map (\<lambda>u. CHR 0x2C # u) kept)),
            removed + length (filter (unsupported_token uns) (split_commas (drop i v)))))"
proof (induction v uns i out removed firstKept rule: filter_tokens_loop.induct)
  case (1 v uns i out removed firstKept)
  let ?j = "comma_from v i"
  let ?tok = "take (?j - i) (drop i v)"
  let ?drp = "unsupported_token uns ?tok"
  let ?out = "if ?drp then out else (if firstKept then out else out @ [CHR 0x2C]) @ ?tok"
  let ?rem = "if ?drp then Suc removed else removed"
  let ?fst = "if ?drp then firstKept else False"
  have b: "i \<le> ?j" "?j \<le> length v" using comma_from_bounds "1.prems" by blast+
  have S: "split_commas (drop i v) = ?tok # (if ?j = length v then [] else split_commas (drop (?j + 1) v))"
    by (rule split_from [OF "1.prems"])
  have U: "filter_tokens_loop v uns i out removed firstKept
      = (if ?j = length v then (?out, ?rem) else filter_tokens_loop v uns (?j + 1) ?out ?rem ?fst)"
    using "1.prems" by (subst filter_tokens_loop.simps) (simp add: Let_def)
  show ?case
  proof (cases "?j = length v")
    case True
    then show ?thesis unfolding U S by (simp add: join_commas_def)
  next
    case False
    let ?rest = "split_commas (drop (?j + 1) v)"
    have ih: "filter_tokens_loop v uns (?j + 1) ?out ?rem ?fst =
       (let kept = filter (\<lambda>t. \<not> unsupported_token uns t) ?rest
        in (?out @ (if ?fst then join_commas kept else concat (map (\<lambda>u. CHR 0x2C # u) kept)),
            ?rem + length (filter (unsupported_token uns) ?rest)))"
      by (rule "1.IH" [OF "1.prems" refl refl refl refl refl refl False]) (use b False in simp)
    show ?thesis unfolding U S using False ih by (auto simp: join_commas_def Let_def)
  qed
qed

lemma filter_exact_aux:
  "filterUnsupportedDlcAppIds v uns =
     (join_commas (filter (\<lambda>t. \<not> unsupported_token uns t) (split_commas v)),
      length (filter (unsupported_token uns) (split_commas v)))"
  using filter_tokens_loop_split [of 0 v uns "[]" 0 True]
  by (simp add: filterUnsupportedDlcAppIds_def Let_def)

lemma extract_exact_aux:
  "extractDlcAppIdsBySource wire base =
     \<lparr>depotTagged = firsts (List.map_filter (dlc_token base) (quoted_values wire dlcappid 0)),
      advertised = firsts (List.map_filter (dlc_token base)
        (concat (map split_commas (quoted_values wire listofdlc 0))))\<rparr>"
proof (cases "wire = []")
  case True
  then show ?thesis
    by (simp add: extractDlcAppIdsBySource_def quoted_values.simps nextQuotedValueFor_def find_from_def
        map_filter_simps)
next
  case False
  have tokens: "fold (\<lambda>t. addDlcId t base) ts acc = fold insert_new (List.map_filter (dlc_token base) ts) acc"
    for ts acc by (rule fold_option) (rule addDlcId_token)
  have lists: "fold (\<lambda>v. list_tokens_loop v base 0) vs acc
      = fold (\<lambda>t. addDlcId t base) (concat (map split_commas vs)) acc" for vs acc
    by (induction vs arbitrary: acc) (simp_all add: list_tokens_loop_split)
  show ?thesis
    using False by (simp add: extractDlcAppIdsBySource_def lists tokens fold_insert_new_empty Let_def)
qed

section \<open>Properties\<close>

text \<open>the two sources give exactly the ids of the comma-separated tokens of every advertised list,
  and of every depot tag, that are decimal, fit a 32-bit word, and are neither zero nor the base
  app: each once, in the order of first appearance.\<close>

theorem extract_exact:
  "extractDlcAppIdsBySource wire base =
     \<lparr>depotTagged = firsts (List.map_filter (dlc_token base) (quoted_values wire dlcappid 0)),
      advertised = firsts (List.map_filter (dlc_token base)
        (concat (map split_commas (quoted_values wire listofdlc 0))))\<rparr>"
  by (rule extract_exact_aux)

text \<open>filtering an advertised list keeps exactly the supported tokens in order, counts the others,
  counts none exactly when it returns the list as it was, and finds nothing more to remove in its result.\<close>

theorem filterUnsupported_exact:
  "filterUnsupportedDlcAppIds v uns =
     (join_commas (filter (\<lambda>t. \<not> unsupported_token uns t) (split_commas v)),
      length (filter (unsupported_token uns) (split_commas v))) \<and>
   (snd (filterUnsupportedDlcAppIds v uns) = 0 \<longleftrightarrow> fst (filterUnsupportedDlcAppIds v uns) = v) \<and>
   filterUnsupportedDlcAppIds (fst (filterUnsupportedDlcAppIds v uns)) uns
     = (fst (filterUnsupportedDlcAppIds v uns), 0)"
proof -
  let ?kept = "filter (\<lambda>t. \<not> unsupported_token uns t) (split_commas v)"
  have all: "filter (unsupported_token uns) (split_commas v) = [] \<Longrightarrow> ?kept = split_commas v"
    by (auto simp: filter_empty_conv intro: filter_True)
  have again: "filterUnsupportedDlcAppIds (join_commas ?kept) uns = (join_commas ?kept, 0)"
  proof (cases "?kept = []")
    case True
    then show ?thesis by (simp only: filter_exact_aux) (simp add: join_commas_def unsupported_token_def)
  next
    case False
    have "split_commas (join_commas ?kept) = ?kept"
      using split_no_comma by (intro split_join) (auto simp: False)
    then show ?thesis by (simp add: filter_exact_aux)
  qed
  have none: "length (filter (unsupported_token uns) (split_commas v)) = 0 \<longleftrightarrow> join_commas ?kept = v"
  proof
    assume same: "join_commas ?kept = v"
    have "?kept \<noteq> []"
    proof
      assume e: "?kept = []"
      then have "v = []" using same by (simp add: join_commas_def)
      then show False using e by (simp add: unsupported_token_def)
    qed
    then have "split_commas (join_commas ?kept) = ?kept"
      using split_no_comma by (intro split_join) auto
    then have "?kept = split_commas v" unfolding same by simp
    then show "length (filter (unsupported_token uns) (split_commas v)) = 0"
      by (simp add: filter_id_conv filter_empty_conv)
  qed (simp add: all)
  show ?thesis using none again by (simp add: filter_exact_aux)
qed

text \<open>package 0 gets the depot-tagged ids and the advertised ids with content (all of them with
  the compatibility switch), the launch-time list all ids, each non-zero id once and in order; what
  enters package 0 is always in the launch-time list.\<close>

theorem selectDlcInjectionIds_exact:
  "package0 (selectDlcInjectionIds sources withContent injectAll) =
     firsts (filter (\<lambda>i. i \<noteq> 0)
       (depotTagged sources @ filter (\<lambda>i. injectAll \<or> i \<in> withContent) (advertised sources))) \<and>
   appDlc (selectDlcInjectionIds sources withContent injectAll) =
     firsts (filter (\<lambda>i. i \<noteq> 0) (depotTagged sources @ advertised sources)) \<and>
   set (package0 (selectDlcInjectionIds sources withContent injectAll))
     \<subseteq> set (appDlc (selectDlcInjectionIds sources withContent injectAll))"
proof -
  have app: "fold appendUnique xs acc = fold insert_new (filter (\<lambda>i. i \<noteq> 0) xs) acc" for xs acc
    by (rule fold_filter) (simp add: appendUnique_def)
  have tagged: "fold inject_tagged xs (a, b) = (fold appendUnique xs a, fold appendUnique xs b)" for xs a b
    by (induction xs arbitrary: a b) (simp_all add: inject_tagged_def)
  have adv: "fold (inject_advertised withContent injectAll) xs (a, b) =
      (fold appendUnique (filter (\<lambda>i. injectAll \<or> i \<in> withContent) xs) a, fold appendUnique xs b)" for xs a b
    by (induction xs arbitrary: a b) (simp_all add: inject_advertised_def)
  have p: "package0 (selectDlcInjectionIds sources withContent injectAll) =
     firsts (filter (\<lambda>i. i \<noteq> 0)
       (depotTagged sources @ filter (\<lambda>i. injectAll \<or> i \<in> withContent) (advertised sources)))"
    by (simp add: selectDlcInjectionIds_def tagged adv app Let_def fold_insert_two)
  have a: "appDlc (selectDlcInjectionIds sources withContent injectAll) =
     firsts (filter (\<lambda>i. i \<noteq> 0) (depotTagged sources @ advertised sources))"
    by (simp add: selectDlcInjectionIds_def tagged adv app Let_def fold_insert_two)
  show ?thesis unfolding p a by auto
qed

text \<open>The candidates and the merged package list are canonical: they do not depend on the order in
  which an unordered set lists its ids.\<close>

lemma selectDlcMetadataCandidates_exact:
  "selectDlcMetadataCandidates base sources =
     sorted_list_of_set ((set (advertised sources) \<union> set (depotTagged sources)) - {0, base})"
proof -
  have c: "fold (candidate base) xs acc = fold insert_new (filter (\<lambda>i. i \<noteq> 0 \<and> i \<noteq> base) xs) acc" for xs acc
    by (rule fold_filter) (simp add: candidate_def)
  have "selectDlcMetadataCandidates base sources
      = sort (firsts (filter (\<lambda>i. i \<noteq> 0 \<and> i \<noteq> base) (advertised sources @ depotTagged sources)))"
    by (simp add: selectDlcMetadataCandidates_def c fold_insert_two)
  also have "\<dots> = sorted_list_of_set (set (firsts (filter (\<lambda>i. i \<noteq> 0 \<and> i \<noteq> base)
      (advertised sources @ depotTagged sources))))"
    by (simp only: sorted_list_of_set_sort_remdups distinct_remdups_id [OF distinct_firsts])
  finally show ?thesis by (simp add: Collect_disj_eq [symmetric] set_eq_iff)
     (rule arg_cong [of _ _ sorted_list_of_set], auto)
qed

lemma mergePackage0AppIds_exact:
  "mergePackage0AppIds xs extra = firsts (filter (\<lambda>i. i \<noteq> 0) (xs @ extra))"
proof -
  have "fold appendUnique ys acc = fold insert_new (filter (\<lambda>i. i \<noteq> 0) ys) acc" for ys acc
    by (rule fold_filter) (simp add: appendUnique_def)
  then show ?thesis by (simp add: mergePackage0AppIds_def fold_insert_two)
qed

lemma extractDlcAppIds_exact:
  "extractDlcAppIds wire base =
     firsts (advertised (extractDlcAppIdsBySource wire base) @ depotTagged (extractDlcAppIdsBySource wire base))"
  by (simp add: extractDlcAppIds_def fold_insert_two Let_def)

lemma extracted_not_base: "i \<in> set (extractDlcAppIds wire base) \<Longrightarrow> i \<noteq> 0 \<and> i \<noteq> base"
  by (auto simp: extractDlcAppIds_exact extract_exact_aux map_filter_def dlc_token_def of_nat_u32 of_nat_u32_eq
      split: if_splits)

section \<open>Manifest names\<close>

lemma ends_with_iff: "ends_with p s \<longleftrightarrow> (\<exists>a. s = a @ p)"
  by (auto simp: ends_with_def) (metis append_take_drop_id)

lemma find_underscore: "find_from ''_'' name 0 = Some k \<longleftrightarrow>
    (\<exists>a b. name = a @ ''_'' @ b \<and> k = length a \<and> CHR ''_'' \<notin> set a)"
  by (auto simp: find_char)

lemma digits_no_underscore: "list_all is_digit s \<Longrightarrow> CHR ''_'' \<notin> set s"
  by (auto simp: list_all_iff is_digit_def char_code_def)

text \<open>a manifest file name gives a depot id exactly when it is two non-zero decimal numbers, a
  32-bit and a 64-bit one, around an underscore, and the manifest suffix; the id is the first.\<close>

theorem depotIdFromManifestName_exact:
  "depotIdFromManifestName name = Some d \<longleftrightarrow>
     (\<exists>ds gs. name = ds @ ''_'' @ gs @ manifest_suffix \<and>
        from_chars_all u32_max ds = Some (unat d) \<and> d \<noteq> 0 \<and>
        (\<exists>g. from_chars_all u64_max gs = Some g \<and> 0 < g))"
proof
  assume L: "depotIdFromManifestName name = Some d"
  obtain us where us: "find_from ''_'' name 0 = Some us"
    and len: "\<not> length name \<le> us + 1 + length manifest_suffix" and suf: "ends_with manifest_suffix name"
    using L by (auto simp: depotIdFromManifestName_def split: option.splits if_splits)
  obtain a b where ab: "name = a @ ''_'' @ b" "us = length a" using us by (auto simp: find_underscore)
  let ?gs = "take (length b - length manifest_suffix) b"
  have "length manifest_suffix < length b" using len ab by simp
  moreover have "drop (length name - length manifest_suffix) name = manifest_suffix"
    using suf by (simp add: ends_with_def)
  ultimately have "drop (length b - length manifest_suffix) b = manifest_suffix"
    using ab by (simp add: Suc_diff_le)
  then have b: "b = ?gs @ manifest_suffix" by (metis append_take_drop_id)
  have gs: "take (length name - length manifest_suffix - (us + 1)) (drop (us + 1) name) = ?gs"
    using ab by (simp add: diff_diff_add add.commute)
  have "take us name = a" using ab by simp
  then obtain n g where n: "from_chars_all u32_max a = Some n" "n \<noteq> 0" "d = of_nat n"
    "from_chars_all u64_max ?gs = Some g" "g \<noteq> 0"
    using L us len suf unfolding depotIdFromManifestName_def gs [symmetric]
    by (auto split: option.splits if_splits)
  moreover have "n \<le> u32_max" using n(1) by (simp add: from_chars_all_iff)
  ultimately have "unat d = n" by (simp add: of_nat_u32)
  then show "\<exists>ds gs. name = ds @ ''_'' @ gs @ manifest_suffix \<and>
        from_chars_all u32_max ds = Some (unat d) \<and> d \<noteq> 0 \<and>
        (\<exists>g. from_chars_all u64_max gs = Some g \<and> 0 < g)"
    using ab b n by (intro exI [of _ a] exI [of _ ?gs]) auto
next
  assume "\<exists>ds gs. name = ds @ ''_'' @ gs @ manifest_suffix \<and>
        from_chars_all u32_max ds = Some (unat d) \<and> d \<noteq> 0 \<and>
        (\<exists>g. from_chars_all u64_max gs = Some g \<and> 0 < g)"
  then obtain ds gs g where R: "name = ds @ ''_'' @ gs @ manifest_suffix"
    "from_chars_all u32_max ds = Some (unat d)" "d \<noteq> 0" "from_chars_all u64_max gs = Some g" "0 < g" by blast
  have ds: "ds \<noteq> []" "CHR ''_'' \<notin> set ds" "gs \<noteq> []"
    using R(2,4) digits_no_underscore by (auto simp: from_chars_all_iff)
  have "find_from ''_'' name 0 = Some (length ds)" using R(1) ds find_underscore by auto
  moreover have "ends_with manifest_suffix name" using R(1) by (auto simp: ends_with_iff)
  moreover have "unat d \<noteq> 0" using R(3) by (simp add: unat_eq_0)
  ultimately show "depotIdFromManifestName name = Some d"
    using R ds by (simp add: depotIdFromManifestName_def)
qed

section \<open>Depot classification\<close>

lemma depot_tag_loop_token:
  "depot_tag_loop wire base depot pos = Some i \<Longrightarrow>
     \<exists>p v nx. nextQuotedValueFor wire dlcappid p = Some (v, nx) \<and> dlc_token base v = Some i"
proof (induction wire base depot pos rule: depot_tag_loop.induct)
  case (1 wire base depot pos)
  obtain k where k: "find_from (depot_key depot) wire pos = Some k"
    using "1.prems" by (subst (asm) depot_tag_loop.simps) (auto split: option.splits)
  let ?p = "k + length (depot_key depot)"
  obtain opn where o: "find_from ''{'' wire ?p = Some opn"
    using "1.prems" k by (subst (asm) depot_tag_loop.simps) (auto simp: Let_def split: option.splits)
  show ?case
  proof (cases "case find_from [quote] wire ?p of None \<Rightarrow> False | Some q \<Rightarrow> q < opn")
    case True
    then have "depot_tag_loop wire base depot ?p = Some i"
      using "1.prems" k o by (subst (asm) depot_tag_loop.simps) (simp add: Let_def)
    then show ?thesis by (rule "1.IH"(1) [OF k refl refl o True])
  next
    case False
    obtain close where c: "matchingBrace wire opn = Some close"
      using "1.prems" k o False
      by (subst (asm) depot_tag_loop.simps) (simp add: Let_def split: option.splits)
    show ?thesis
    proof (cases "find_from dlcappid_key wire (opn + 1)")
      case None
      then have "depot_tag_loop wire base depot (close + 1) = Some i"
        using "1.prems" k o c False by (subst (asm) depot_tag_loop.simps) (simp add: Let_def)
      then show ?thesis by (rule "1.IH"(2) [OF k refl refl o False c None])
    next
      case (Some tag)
      show ?thesis
      proof (cases "tag \<ge> close")
        case True
        then have "depot_tag_loop wire base depot (close + 1) = Some i"
          using "1.prems" k o c False Some by (subst (asm) depot_tag_loop.simps) (simp add: Let_def)
        then show ?thesis by (rule "1.IH"(3) [OF k refl refl o False c Some True])
      next
        case small: False
        then obtain v nx where v: "nextQuotedValueFor wire dlcappid tag = Some (v, nx)"
          "(case fst (addDlcId v base ([], {})) of [] \<Rightarrow> None | i # _ \<Rightarrow> Some i) = Some i"
          using "1.prems" k o c False Some
          by (subst (asm) depot_tag_loop.simps) (auto simp: Let_def split: option.splits if_splits)
        then have "dlc_token base v = Some i"
          by (auto simp: addDlcId_token insert_new_def split: option.splits)
        then show ?thesis using v(1) by blast
      qed
    qed
  qed
qed

text \<open>C?: the classifier never names the base app: its result is zero, the depot itself when the base
  app advertises it, or the non-zero id of a \<open>dlcappid\<close> value of the text that is not the base app.\<close>

theorem dlcAppIdForDepot_sound:
  assumes "dlcAppIdForDepot wire base depot = i" "i \<noteq> 0"
  shows "i \<noteq> base \<and> depot \<noteq> base \<and>
    (i = depot \<and> depot \<in> set (extractDlcAppIds wire base) \<or>
     (\<exists>p v nx. nextQuotedValueFor wire dlcappid p = Some (v, nx) \<and> dlc_token base v = Some i))"
proof -
  have d: "depot \<noteq> base" using assms by (auto simp: dlcAppIdForDepot_def)
  have r: "i = depot \<and> depot \<in> set (extractDlcAppIds wire base) \<or>
      (\<exists>p v nx. nextQuotedValueFor wire dlcappid p = Some (v, nx) \<and> dlc_token base v = Some i)"
    using assms depot_tag_loop_token [of wire base depot 0]
    by (auto simp: dlcAppIdForDepot_def split: if_splits option.splits)
  moreover have "i \<noteq> base"
    using r extracted_not_base by (auto simp: dlc_token_def of_nat_u32 split: if_splits)
  ultimately show ?thesis using d by blast
qed

section \<open>Witnesses\<close>

definition sample_wire :: string where
  "sample_wire = ''{'' @ [quote] @ ''1'' @ [quote] @ ''{'' @ [quote] @ ''dlcappid'' @ [quote, quote] @ ''7'' @
     [quote] @ ''}}''"

lemma sample_key: "depot_key 1 = [quote, CHR ''1'', quote]"
  by (simp add: depot_key_def to_dec.simps digit_char_def char_of_def bit_0)

lemmas sample_defs = sample_wire_def sample_key dlcappid_key_def dlcappid_def quote_def

lemma sample_scan:
  "find_from (depot_key 1) sample_wire 0 = Some 1" "find_from ''{'' sample_wire 4 = Some 4"
  "find_from [quote] sample_wire 4 = Some 5" "matchingBrace sample_wire 4 = Some 18"
  "find_from dlcappid_key sample_wire 5 = Some 5"
  "nextQuotedValueFor sample_wire dlcappid 5 = Some (''7'', 18)"
  by (simp_all add: sample_defs find_from_def starts_with_def matchingBrace_def nextQuotedValueFor_def)

lemma sample_id: "addDlcId ''7'' 3 ([], {}) = ([7], {7})"
  by (simp add: addDlcId_def stoul_def insert_new_def dec_value_def is_digit_def char_code_def digit_val_def
      u32_max_def)

lemma dlcAppIdForDepot_sound_witness:
  "dlcAppIdForDepot sample_wire 3 1 = 7 \<and> (7::u32) \<noteq> 3 \<and> (1::u32) \<noteq> 3"
proof -
  have "length (depot_key 1) = 3" by (simp add: sample_key)
  then have "depot_tag_loop sample_wire 3 1 0 = Some 7"
    by (subst depot_tag_loop.simps) (simp add: sample_scan sample_id)
  moreover have "sample_wire \<noteq> []" by (simp add: sample_wire_def)
  ultimately have "dlcAppIdForDepot sample_wire 3 1 = 7" by (simp add: dlcAppIdForDepot_def)
  then show ?thesis using dlcAppIdForDepot_sound [of sample_wire 3 1 7] by simp
qed

end
