(* ===== verification/ManifestPlan.thy ===== *)
theory ManifestPlan
  imports Prelude CppText
begin

text \<open>
  Which manifest a depot gets: the configured pins (\<open>src/feats/manifestpins.hpp\<close>), the choice between
  planned, preferred and archived manifests and the checks on Steam's depot vector
  (\<open>src/feats/manifestselection.hpp\<close>), and the donor policy (\<open>src/feats/manifestdonor_policy.hpp\<close>).
  An unordered map is the association list of one of its enumerations.
\<close>

section \<open>Pins\<close>

record app_pins =
  locked :: bool
  buildId :: u32
  depots :: "(u32 \<times> u64) list"

type_synonym pin_map = "(u32 \<times> app_pins) list"

text \<open>The index under construction: the depots with one gid so far, and the conflicting ones.\<close>

type_synonym flat_state = "(u32 \<rightharpoonup> u64) \<times> u32 set"

definition flatten_step :: "u32 \<times> u64 \<Rightarrow> flat_state \<Rightarrow> flat_state" where
  "flatten_step e s =
     (let d = fst e; g = snd e; flat = fst s; amb = snd s in
      if d = 0 \<or> g = 0 then s
      else if d \<in> amb then s
      else (case flat d of
              None \<Rightarrow> (flat(d \<mapsto> g), amb)
            | Some g' \<Rightarrow> if g' \<noteq> g then (flat(d := None), insert d amb) else s))"

definition flatten_app :: "u32 \<times> app_pins \<Rightarrow> flat_state \<Rightarrow> flat_state" where
  "flatten_app p s = (if fst p = 0 then s else fold flatten_step (depots (snd p)) s)"

definition flattenDepots :: "pin_map \<Rightarrow> u32 \<rightharpoonup> u64" where
  "flattenDepots pins = fst (fold flatten_app pins (Map.empty, {}))"

definition lockedAppSet :: "pin_map \<Rightarrow> u32 set" where
  "lockedAppSet pins = fst ` set (filter (\<lambda>p. fst p \<noteq> 0 \<and> locked (snd p) \<and>
     list_ex (\<lambda>e. fst e \<noteq> 0 \<and> snd e \<noteq> 0) (depots (snd p))) pins)"

definition getPin :: "pin_map \<Rightarrow> u32 \<Rightarrow> u32 \<Rightarrow> u64" where
  "getPin pins app d =
     (if app = 0 \<or> d = 0 then 0
      else (case map_of pins app of
              None \<Rightarrow> 0
            | Some p \<Rightarrow> (case map_of (depots p) d of None \<Rightarrow> 0 | Some g \<Rightarrow> g)))"

definition getPinForContext :: "pin_map \<Rightarrow> u32 \<Rightarrow> u32 \<Rightarrow> u64" where
  "getPinForContext pins app d = (if app = 0 \<or> d = 0 then 0 else getPin pins app d)"

fun unique_owner_loop :: "pin_map \<Rightarrow> u32 \<Rightarrow> bool \<Rightarrow> u64 \<Rightarrow> u64" where
  "unique_owner_loop [] d found pin = (if found then pin else 0)"
| "unique_owner_loop ((app, p) # ps) d found pin =
     (if app = 0 then unique_owner_loop ps d found pin
      else (case map_of (depots p) d of
              None \<Rightarrow> unique_owner_loop ps d found pin
            | Some g \<Rightarrow>
                if g = 0 then unique_owner_loop ps d found pin
                else if found then 0
                else unique_owner_loop ps d True g))"

definition getPinForUniqueOwner :: "pin_map \<Rightarrow> u32 \<Rightarrow> u64" where
  "getPinForUniqueOwner pins d = (if d = 0 then 0 else unique_owner_loop pins d False 0)"

definition getPinForPlannerEntry :: "pin_map \<Rightarrow> u32 \<Rightarrow> u32 \<Rightarrow> u64" where
  "getPinForPlannerEntry pins app d =
     (if app \<noteq> 0 then getPinForContext pins app d else getPinForUniqueOwner pins d)"

definition getFlatPin :: "(u32 \<rightharpoonup> u64) \<Rightarrow> u32 \<Rightarrow> u64" where
  "getFlatPin flat d = (if d = 0 then 0 else (case flat d of None \<Rightarrow> 0 | Some g \<Rightarrow> g))"

definition isLocked :: "u32 set \<Rightarrow> u32 \<Rightarrow> bool" where
  "isLocked lck app \<longleftrightarrow> app \<in> lck"

definition purgeApps :: "pin_map \<Rightarrow> u32 list \<Rightarrow> pin_map" where
  "purgeApps pins dropApps = fold (\<lambda>a ps. filter (\<lambda>p. fst p \<noteq> a) ps) dropApps pins"

definition purgeOrphans :: "pin_map \<Rightarrow> u32 set \<Rightarrow> pin_map" where
  "purgeOrphans pins keepApps = filter (\<lambda>p. fst p \<in> keepApps) pins"

section \<open>Selection\<close>

datatype exact_state = Ready | Pending | Unavailable
datatype choice_source = Exact | PreferredLocal | LegacyLocal | ExactUnavailable

record decision =
  decGid :: u64
  decSource :: choice_source
  decFinal :: bool

record depot_pair =
  pairGid :: u64
  pairSize :: u64
  pairPinned :: bool

text \<open>The size lookup is asked at most twice, before and after the wait; its answers are the two
  arguments, and \<open>awaitPinned\<close> gives the outcome of a wait.\<close>

definition resolvePinnedPair ::
  "u64 \<Rightarrow> u64 \<Rightarrow> u64 \<Rightarrow> int \<Rightarrow> u64 option \<Rightarrow> (int \<Rightarrow> bool) \<Rightarrow> u64 option \<Rightarrow> depot_pair" where
  "resolvePinnedPair publicGid publicSize pinnedGid budget size1 awaitPinned size2 =
     (let keep = \<lparr>pairGid = publicGid, pairSize = publicSize, pairPinned = False\<rparr> in
      if pinnedGid = 0 then keep
      else
        (let pinnedSize = (if size1 = None \<and> budget > 0 \<and> awaitPinned budget then size2 else size1)
         in case pinnedSize of
              None \<Rightarrow> keep
            | Some sz \<Rightarrow> \<lparr>pairGid = pinnedGid, pairSize = sz, pairPinned = True\<rparr>))"

definition chooseManifest :: "u64 \<Rightarrow> exact_state \<Rightarrow> u64 \<Rightarrow> u64 \<Rightarrow> decision" where
  "chooseManifest planned exactState preferred legacy =
     (if exactState = Ready then \<lparr>decGid = planned, decSource = Exact, decFinal = True\<rparr>
      else if exactState = Pending then \<lparr>decGid = planned, decSource = Exact, decFinal = False\<rparr>
      else if preferred \<noteq> 0 \<and> preferred \<noteq> planned
      then \<lparr>decGid = preferred, decSource = PreferredLocal, decFinal = True\<rparr>
      else if legacy \<noteq> 0 \<and> legacy \<noteq> planned
      then \<lparr>decGid = legacy, decSource = LegacyLocal, decFinal = True\<rparr>
      else \<lparr>decGid = planned, decSource = ExactUnavailable, decFinal = True\<rparr>)"

definition remainingBudgetMs :: "int \<Rightarrow> int \<Rightarrow> int" where
  "remainingBudgetMs totalBudget elapsed =
     (if totalBudget \<le> 0 \<or> elapsed \<ge> totalBudget then 0
      else if elapsed \<le> 0 then totalBudget
      else totalBudget - elapsed)"

text \<open>\<open>int32_t\<close> values as integers; \<open>size_t\<close> is 32 bits wide.\<close>

definition validVectorBounds :: "int \<Rightarrow> int \<Rightarrow> nat \<Rightarrow> bool" where
  "validVectorBounds cnt capacity stride \<longleftrightarrow>
     cnt > 0 \<and> capacity \<ge> cnt \<and> stride > 0 \<and> nat cnt \<le> (2 ^ 32 - 1) div stride"

section \<open>Donor policy\<close>

record package_record =
  pkgApps :: "u32 list"
  pkgDepots :: "u32 list"

record licensed_packages =
  ownedDepots :: "u32 set"
  licensedApps :: "(u32 \<times> u32) list"
  resolvedPackages :: nat

definition license_step :: "(u32 \<rightharpoonup> package_record) \<Rightarrow> u32 \<Rightarrow> licensed_packages \<Rightarrow> licensed_packages" where
  "license_step packages i r =
     (case packages i of
        None \<Rightarrow> r
      | Some p \<Rightarrow>
          r\<lparr>resolvedPackages := Suc (resolvedPackages r), ownedDepots := ownedDepots r \<union> set (pkgDepots p),
            licensedApps := licensedApps r @ map (\<lambda>a. (i, a)) (filter (\<lambda>a. a \<noteq> 0) (pkgApps p))\<rparr>)"

definition deriveLicensedPackages :: "u32 list \<Rightarrow> (u32 \<rightharpoonup> package_record) \<Rightarrow> licensed_packages" where
  "deriveLicensedPackages licenses packages =
     fold (license_step packages) licenses
       \<lparr>ownedDepots = {}, licensedApps = [], resolvedPackages = 0\<rparr>"

definition shouldObserveLicensedPackage :: "bool \<Rightarrow> bool \<Rightarrow> bool" where
  "shouldObserveLicensedPackage licenseReady packageInLicenseSet \<longleftrightarrow> licenseReady \<and> packageInLicenseSet"

definition shouldSubmitCapturedCode :: "bool \<Rightarrow> bool \<Rightarrow> bool \<Rightarrow> bool \<Rightarrow> bool \<Rightarrow> bool" where
  "shouldSubmitCapturedCode enabled currentGeneration licensedDepot wantedManifest fresh \<longleftrightarrow>
     enabled \<and> currentGeneration \<and> licensedDepot \<and> wantedManifest \<and> fresh"

definition shouldRetainCapturedCode :: "bool \<Rightarrow> bool \<Rightarrow> bool \<Rightarrow> bool \<Rightarrow> bool \<Rightarrow> bool" where
  "shouldRetainCapturedCode currentGeneration wantedManifest ownershipComplete licensedDepot expired \<longleftrightarrow>
     currentGeneration \<and> wantedManifest \<and> \<not> ownershipComplete \<and> \<not> licensedDepot \<and> \<not> expired"

definition shouldFlushMintBatch :: "nat \<Rightarrow> int \<Rightarrow> bool" where
  "shouldFlushMintBatch pendingCodes ageMs \<longleftrightarrow> pendingCodes \<noteq> 0 \<and> ageMs \<ge> 30000"

definition shouldForceWantedRefresh :: "int \<Rightarrow> int \<Rightarrow> int \<Rightarrow> bool" where
  "shouldForceWantedRefresh nowMs lastAttemptMs refreshIntervalMs \<longleftrightarrow>
     lastAttemptMs = 0 \<or> nowMs - lastAttemptMs \<ge> refreshIntervalMs"

definition https_prefix :: string where "https_prefix = ''https://''"

definition loopback_prefixes :: "string list" where
  "loopback_prefixes = [''http://127.0.0.1'', ''http://localhost'', ''http://[::1]'']"

fun loopback_loop :: "string list \<Rightarrow> string \<Rightarrow> bool" where
  "loopback_loop [] url = False"
| "loopback_loop (p # ps) url =
     (if \<not> starts_with p url then loopback_loop ps url
      else if length url = length p then True
      else if url ! length p = CHR '':'' \<or> url ! length p = CHR ''/'' then True
      else loopback_loop ps url)"

definition isBaseUrlAllowed :: "string \<Rightarrow> bool" where
  "isBaseUrlAllowed url =
     (if starts_with https_prefix url then length url > 8 else loopback_loop loopback_prefixes url)"

record wanted =
  wantedApp :: u32
  wantedDepot :: u32
  wantedGid :: u64

definition parseWantedLine :: "string \<Rightarrow> wanted option" where
  "parseWantedLine line =
     (case find_from '':'' line 0 of
        None \<Rightarrow> None
      | Some i \<Rightarrow>
          (case find_from '':'' line (i + 1) of
             None \<Rightarrow> None
           | Some j \<Rightarrow>
               if find_from '':'' line (j + 1) \<noteq> None then None
               else
                 (case (from_chars_all u64_max (take i line),
                        from_chars_all u64_max (take (j - i - 1) (drop (i + 1) line)),
                        from_chars_all u64_max (drop (j + 1) line)) of
                    (Some app, Some depot, Some gid) \<Rightarrow>
                      if app > u32_max \<or> depot = 0 \<or> depot > u32_max \<or> gid = 0 then None
                      else Some \<lparr>wantedApp = of_nat app, wantedDepot = of_nat depot, wantedGid = of_nat gid\<rparr>
                  | _ \<Rightarrow> None)))"

section \<open>The flattened index\<close>

definition pin_entries :: "pin_map \<Rightarrow> (u32 \<times> u64) list" where
  "pin_entries pins = concat (map (\<lambda>p. if fst p = 0 then [] else depots (snd p)) pins)"

definition gids_of :: "(u32 \<times> u64) list \<Rightarrow> u32 \<Rightarrow> u64 set" where
  "gids_of es d = {g. g \<noteq> 0 \<and> (d, g) \<in> set es}"

lemma gids_of_simps [simp]:
  "gids_of [] d = {}"
  "gids_of (es @ [e]) d = (if fst e = d \<and> snd e \<noteq> 0 then insert (snd e) (gids_of es d) else gids_of es d)"
  by (cases e; auto simp: gids_of_def)+

lemma fold_flatten_app: "fold flatten_app pins s = fold flatten_step (pin_entries pins) s"
  by (induction pins arbitrary: s) (simp_all add: pin_entries_def flatten_app_def)

definition flat_inv :: "(u32 \<times> u64) list \<Rightarrow> flat_state \<Rightarrow> bool" where
  "flat_inv es s \<longleftrightarrow>
     (\<forall>d. if d = 0 \<or> gids_of es d = {} then fst s d = None \<and> d \<notin> snd s
          else if \<exists>g. gids_of es d = {g} then fst s d = Some (the_elem (gids_of es d)) \<and> d \<notin> snd s
          else fst s d = None \<and> d \<in> snd s)"

lemma flat_invD:
  assumes "flat_inv es s"
  shows "d = 0 \<or> gids_of es d = {} \<Longrightarrow> fst s d = None \<and> d \<notin> snd s"
    and "d \<noteq> 0 \<Longrightarrow> gids_of es d = {g} \<Longrightarrow> fst s d = Some g \<and> d \<notin> snd s"
    and "d \<noteq> 0 \<Longrightarrow> g \<in> gids_of es d \<Longrightarrow> h \<in> gids_of es d \<Longrightarrow> g \<noteq> h \<Longrightarrow> fst s d = None \<and> d \<in> snd s"
  using assms unfolding flat_inv_def by (auto split: if_splits) (metis empty_iff insert_iff the_elem_eq)+

lemma flat_inv_step:
  assumes inv: "flat_inv es s"
  shows "flat_inv (es @ [e]) (flatten_step e s)"
proof -
  obtain d g where e: "e = (d, g)" by fastforce
  show ?thesis
  proof (cases "d = 0 \<or> g = 0")
    case True
    then have "flatten_step e s = s" by (auto simp: flatten_step_def e)
    moreover have "k \<noteq> 0 \<Longrightarrow> gids_of (es @ [e]) k = gids_of es k" for k using True e by auto
    ultimately show ?thesis using inv unfolding flat_inv_def by metis
  next
    case False
    then have dg: "d \<noteq> 0" "g \<noteq> 0" by auto
    consider (none) "gids_of es d = {}" | (same) "gids_of es d = {g}"
      | (other) h where "gids_of es d = {h}" "h \<noteq> g" | (many) h k where "h \<in> gids_of es d" "k \<in> gids_of es d" "h \<noteq> k"
      by (cases "gids_of es d = {}") auto
    then show ?thesis
    proof cases
      case none
      have s: "fst s d = None" "d \<notin> snd s" using flat_invD(1) [OF inv] none by auto
      then have "flatten_step e s = ((fst s)(d \<mapsto> g), snd s)" using dg by (simp add: flatten_step_def e)
      then show ?thesis using inv s dg none unfolding flat_inv_def by (auto simp: e)
    next
      case same
      then have "fst s d = Some g" "d \<notin> snd s" using flat_invD(2) [OF inv dg(1) same] by auto
      then have "flatten_step e s = s" using dg by (simp add: flatten_step_def e)
      moreover have "gids_of (es @ [e]) k = gids_of es k" for k using same e by auto
      ultimately show ?thesis using inv unfolding flat_inv_def by metis
    next
      case (other h)
      then have s: "fst s d = Some h" "d \<notin> snd s" using flat_invD(2) [OF inv dg(1) other(1)] by auto
      then have "flatten_step e s = ((fst s)(d := None), insert d (snd s))"
        using dg other by (simp add: flatten_step_def e)
      moreover have "\<nexists>x. insert g {h} = {x}" using other by auto
      ultimately show ?thesis using inv dg other unfolding flat_inv_def by (auto simp: e)
    next
      case (many h k)
      then have s: "fst s d = None" "d \<in> snd s" using flat_invD(3) [OF inv dg(1) many] by auto
      then have "flatten_step e s = s" using dg by (simp add: flatten_step_def e)
      moreover have "\<nexists>x. insert g (gids_of es d) = {x}" using many by auto
      moreover have "\<nexists>x. gids_of es d = {x}" "gids_of es d \<noteq> {}" using many by auto
      ultimately show ?thesis using inv s dg unfolding flat_inv_def by (auto simp: e)
    qed
  qed
qed

lemma flat_inv_fold: "flat_inv es (fold flatten_step es (Map.empty, {}))"
proof (induction es rule: rev_induct)
  case Nil
  show ?case by (simp add: flat_inv_def)
next
  case (snoc e es)
  then show ?case using flat_inv_step by simp
qed

lemma flattenDepots_iff: "flattenDepots pins d = Some g \<longleftrightarrow> d \<noteq> 0 \<and> gids_of (pin_entries pins) d = {g}"
proof -
  have "flat_inv (pin_entries pins) (fold flatten_app pins (Map.empty, {}))"
    unfolding fold_flatten_app by (rule flat_inv_fold)
  note inv = flat_invD [OF this, of d]
  consider "d = 0 \<or> gids_of (pin_entries pins) d = {}" | h where "d \<noteq> 0" "gids_of (pin_entries pins) d = {h}"
    | h k where "d \<noteq> 0" "h \<in> gids_of (pin_entries pins) d" "k \<in> gids_of (pin_entries pins) d" "h \<noteq> k"
    by (cases "gids_of (pin_entries pins) d = {}") auto
  then show ?thesis
    by cases (use inv in \<open>auto simp: flattenDepots_def\<close>)
qed

lemma gids_of_entries:
  "gids_of (pin_entries pins) d = {g. g \<noteq> 0 \<and> (\<exists>a p. (a, p) \<in> set pins \<and> a \<noteq> 0 \<and> (d, g) \<in> set (depots p))}"
proof (rule set_eqI)
  fix g
  have "(d, g) \<in> set (pin_entries pins) \<longleftrightarrow> (\<exists>a p. (a, p) \<in> set pins \<and> a \<noteq> 0 \<and> (d, g) \<in> set (depots p))"
    (is "_ \<longleftrightarrow> ?r")
  proof -
    have "(d, g) \<in> set (pin_entries pins) \<longleftrightarrow> (\<exists>x \<in> set pins. fst x \<noteq> 0 \<and> (d, g) \<in> set (depots (snd x)))"
      by (auto simp: pin_entries_def split: if_splits)
    also have "\<dots> \<longleftrightarrow> ?r" by force
    finally show ?thesis .
  qed
  then show "g \<in> gids_of (pin_entries pins) d \<longleftrightarrow>
      g \<in> {g. g \<noteq> 0 \<and> (\<exists>a p. (a, p) \<in> set pins \<and> a \<noteq> 0 \<and> (d, g) \<in> set (depots p))}"
    by (simp add: gids_of_def)
qed

section \<open>The owner of a depot\<close>

definition owns :: "u32 \<Rightarrow> u32 \<times> app_pins \<Rightarrow> bool" where
  "owns d p \<longleftrightarrow> fst p \<noteq> 0 \<and> (case map_of (depots (snd p)) d of None \<Rightarrow> False | Some g \<Rightarrow> g \<noteq> 0)"

lemma unique_owner_loop_found:
  "unique_owner_loop ps d True pin = (if filter (owns d) ps = [] then pin else 0)"
  by (induction ps d True pin rule: unique_owner_loop.induct) (auto simp: owns_def split: option.split)

lemma unique_owner_loop_filter:
  "unique_owner_loop ps d False pin =
     (case filter (owns d) ps of [p] \<Rightarrow> the (map_of (depots (snd p)) d) | _ \<Rightarrow> 0)"
proof (induction ps)
  case (Cons a ps)
  obtain app p where a: "a = (app, p)" by fastforce
  have o: "owns d (app, p) \<longleftrightarrow> app \<noteq> 0 \<and> (\<exists>g. map_of (depots p) d = Some g \<and> g \<noteq> 0)"
    by (auto simp: owns_def split: option.split)
  show ?case
  proof (cases "owns d (app, p)")
    case True
    then obtain g where "app \<noteq> 0" "map_of (depots p) d = Some g" "g \<noteq> 0" using o by blast
    then show ?thesis using True by (simp add: a unique_owner_loop_found split: list.split)
  next
    case False
    then show ?thesis using o Cons.IH by (auto simp: a split: option.split)
  qed
qed simp

section \<open>Properties\<close>

text \<open>the flattened index holds exactly the depots to which all pins of real apps give one and the
  same non-zero gid; so no enumeration order of the unordered maps picks a winner.\<close>

theorem flattenDepots_exact:
  "flattenDepots pins d = Some g \<longleftrightarrow>
     d \<noteq> 0 \<and> {h. h \<noteq> 0 \<and> (\<exists>a p. (a, p) \<in> set pins \<and> a \<noteq> 0 \<and> (d, h) \<in> set (depots p))} = {g}"
  by (simp add: flattenDepots_iff gids_of_entries)

text \<open>a planner entry without an app id falls back to a pin only when exactly one app configures the
  depot, and then the flattened index holds the same pin.\<close>

theorem unique_owner_agrees:
  assumes keys: "\<forall>p \<in> set pins. distinct (map fst (depots (snd p)))"
    and pin: "getPinForPlannerEntry pins 0 d = g" "g \<noteq> 0"
  shows "flattenDepots pins d = Some g \<and> (\<exists>p. filter (owns d) pins = [p])"
proof -
  have d: "d \<noteq> 0" and l: "unique_owner_loop pins d False 0 = g"
    using pin by (auto simp: getPinForPlannerEntry_def getPinForUniqueOwner_def split: if_splits)
  then obtain p where p: "filter (owns d) pins = [p]" "g = the (map_of (depots (snd p)) d)"
    using pin(2) by (auto simp: unique_owner_loop_filter split: list.splits)
  have "p \<in> set (filter (owns d) pins)" by (simp add: p(1))
  then have mem: "p \<in> set pins" "owns d p" by simp_all
  then have val: "map_of (depots (snd p)) d = Some g" "fst p \<noteq> 0"
    using p(2) by (auto simp: owns_def split: option.splits)
  have only: "q = p" if "q \<in> set pins" "owns d q" for q
  proof -
    have "q \<in> set (filter (owns d) pins)" using that by simp
    then show ?thesis by (simp add: p(1))
  qed
  have "gids_of (pin_entries pins) d = {g}"
  proof (rule set_eqI)
    fix h
    show "h \<in> gids_of (pin_entries pins) d \<longleftrightarrow> h \<in> {g}"
    proof
      assume "h \<in> gids_of (pin_entries pins) d"
      then obtain a q where q: "(a, q) \<in> set pins" "a \<noteq> 0" "(d, h) \<in> set (depots q)" "h \<noteq> 0"
        by (auto simp: gids_of_entries)
      then have m: "map_of (depots q) d = Some h" using keys by (auto intro: map_of_is_SomeI)
      then have "owns d (a, q)" using q by (simp add: owns_def)
      then have "p = (a, q)" using only q(1) by auto
      then show "h \<in> {g}" using m val by simp
    next
      assume "h \<in> {g}"
      then show "h \<in> gids_of (pin_entries pins) d"
        using val mem(1) pin(2) by (cases p) (auto simp: gids_of_entries dest!: map_of_SomeD)
    qed
  qed
  then show ?thesis using d p(1) by (simp add: flattenDepots_iff)
qed

section \<open>Lines and URLs\<close>

text \<open>A wanted line as the donor service prints it.\<close>

definition wanted_line :: "wanted \<Rightarrow> string" where
  "wanted_line w = to_dec (unat (wantedApp w)) @ '':'' @ to_dec (unat (wantedDepot w)) @ '':'' @
     to_dec (unat (wantedGid w))"

lemma digits_no_colon: "list_all is_digit s \<Longrightarrow> CHR '':'' \<notin> set s"
  by (auto simp: list_all_iff is_digit_def char_code_def)

lemma parse_fields:
  assumes "CHR '':'' \<notin> set a" "CHR '':'' \<notin> set b" "CHR '':'' \<notin> set c"
  shows "parseWantedLine (a @ '':'' @ b @ '':'' @ c) =
    (case (from_chars_all u64_max a, from_chars_all u64_max b, from_chars_all u64_max c) of
       (Some app, Some depot, Some gid) \<Rightarrow>
         if app > u32_max \<or> depot = 0 \<or> depot > u32_max \<or> gid = 0 then None
         else Some \<lparr>wantedApp = of_nat app, wantedDepot = of_nat depot, wantedGid = of_nat gid\<rparr>
     | _ \<Rightarrow> None)"
proof -
  let ?line = "a @ '':'' @ b @ '':'' @ c"
  have i: "find_from '':'' ?line 0 = Some (length a)" using assms(1) by (auto simp: find_char)
  have j: "find_from '':'' ?line (length a + 1) = Some (length a + 1 + length b)"
    using assms(2) by (auto simp: find_char)
  have k: "find_from '':'' ?line (length a + 1 + length b + 1) = None"
    using assms(3) by (simp add: find_char_none)
  show ?thesis unfolding parseWantedLine_def i option.case j k by simp
qed

text \<open>a line is accepted exactly when it is three colon-separated decimal numbers, a 32-bit app, a
  non-zero 32-bit depot and a non-zero 64-bit gid, and then gives those; so a printed line parses
  back to what was printed.\<close>

theorem parseWantedLine_exact:
  "parseWantedLine line = Some w \<longleftrightarrow>
     (\<exists>a b c. line = a @ '':'' @ b @ '':'' @ c \<and> from_chars_all u32_max a = Some (unat (wantedApp w)) \<and>
        from_chars_all u32_max b = Some (unat (wantedDepot w)) \<and> wantedDepot w \<noteq> 0 \<and>
        from_chars_all u64_max c = Some (unat (wantedGid w)) \<and> wantedGid w \<noteq> 0)"
  (is "_ \<longleftrightarrow> ?fields")
proof
  assume L: "parseWantedLine line = Some w"
  obtain i where i: "find_from '':'' line 0 = Some i"
    using L by (auto simp: parseWantedLine_def split: option.splits)
  obtain j where j: "find_from '':'' line (i + 1) = Some j" and k: "find_from '':'' line (j + 1) = None"
    using L i by (auto simp: parseWantedLine_def split: option.splits if_splits)
  obtain a r where a: "line = a @ CHR '':'' # r" "CHR '':'' \<notin> set a" "i = length a"
    using i by (auto simp: find_char)
  obtain b c where b: "r = b @ CHR '':'' # c" "CHR '':'' \<notin> set b" "j = i + 1 + length b"
    using j a by (auto simp: find_char)
  have c: "CHR '':'' \<notin> set c" using k a b by (simp add: find_char_none)
  have line: "line = a @ '':'' @ b @ '':'' @ c" using a b by simp
  from L parse_fields [OF a(2) b(2) c] obtain x y z where
    xyz: "from_chars_all u64_max a = Some x" "from_chars_all u64_max b = Some y" "from_chars_all u64_max c = Some z"
    "x \<le> u32_max" "y \<noteq> 0" "y \<le> u32_max" "z \<noteq> 0"
    and w: "w = \<lparr>wantedApp = of_nat x, wantedDepot = of_nat y, wantedGid = of_nat z\<rparr>"
    unfolding line by (auto split: option.splits if_splits)
  have z: "z \<le> u64_max" using xyz(3) by (simp add: from_chars_all_iff)
  have u: "unat (of_nat x :: u32) = x" "unat (of_nat y :: u32) = y" "unat (of_nat z :: u64) = z"
    using xyz z by (simp_all add: u32_max_def u64_max_def unat_of_nat)
  then have "wantedDepot w \<noteq> 0" "wantedGid w \<noteq> 0" using xyz w by (auto simp: unat_eq_0 [symmetric])
  then show ?fields using line xyz w u
    by (intro exI [of _ a] exI [of _ b] exI [of _ c]) (simp add: from_chars_all_iff)
next
  assume ?fields
  then obtain a b c where F: "line = a @ '':'' @ b @ '':'' @ c"
    "from_chars_all u32_max a = Some (unat (wantedApp w))"
    "from_chars_all u32_max b = Some (unat (wantedDepot w))" "wantedDepot w \<noteq> 0"
    "from_chars_all u64_max c = Some (unat (wantedGid w))" "wantedGid w \<noteq> 0" by blast
  have colons: "CHR '':'' \<notin> set a" "CHR '':'' \<notin> set b" "CHR '':'' \<notin> set c"
    using F(2,3,5) digits_no_colon by (simp_all add: from_chars_all_iff)
  have wide: "u32_max \<le> u64_max" by (simp add: u32_max_def u64_max_def)
  have "from_chars_all u64_max a = Some (unat (wantedApp w))" "from_chars_all u64_max b = Some (unat (wantedDepot w))"
    "unat (wantedApp w) \<le> u32_max" "unat (wantedDepot w) \<le> u32_max"
    using F(2,3) wide by (auto simp: from_chars_all_iff)
  then show "parseWantedLine line = Some w"
    unfolding F(1) parse_fields [OF colons] using F(4-6) by (simp add: unat_eq_0)
qed

section \<open>Base URLs\<close>

lemma starts_with_iff: "starts_with p s \<longleftrightarrow> (\<exists>r. s = p @ r)"
  by (auto simp: starts_with_def) (metis append_take_drop_id)

lemma loopback_loop_iff:
  "loopback_loop ps url \<longleftrightarrow>
     (\<exists>p \<in> set ps. \<exists>r. url = p @ r \<and> (r = [] \<or> hd r = CHR '':'' \<or> hd r = CHR ''/''))"
proof (induction ps)
  case (Cons p ps)
  show ?case
  proof (cases "starts_with p url")
    case True
    then obtain r where "url = p @ r" by (auto simp: starts_with_iff)
    then show ?thesis using Cons.IH True by (cases r) (auto simp: nth_append)
  next
    case False
    then show ?thesis using Cons.IH by (auto simp: starts_with_iff)
  qed
qed simp

text \<open>the donor service is reached over HTTPS, or over plain HTTP at a loopback name that the URL's
  next character, if any, ends with a colon or a slash. The last conjunct is what this test admits
  beyond loopback: behind the colon may stand a password, and then the host is the text after it.\<close>

theorem isBaseUrlAllowed_exact:
  "(isBaseUrlAllowed url \<longleftrightarrow>
     (\<exists>r. url = https_prefix @ r \<and> r \<noteq> []) \<or>
     (\<exists>p \<in> set loopback_prefixes. \<exists>r. url = p @ r \<and> (r = [] \<or> hd r = CHR '':'' \<or> hd r = CHR ''/''))) \<and>
   isBaseUrlAllowed ''http://localhost:x@example.com/''"
proof -
  have no: "\<not> starts_with https_prefix (p @ r)" if "p \<in> set loopback_prefixes" for p r
    using that by (auto simp: loopback_prefixes_def https_prefix_def starts_with_def)
  have "isBaseUrlAllowed url \<longleftrightarrow>
     (\<exists>r. url = https_prefix @ r \<and> r \<noteq> []) \<or>
     (\<exists>p \<in> set loopback_prefixes. \<exists>r. url = p @ r \<and> (r = [] \<or> hd r = CHR '':'' \<or> hd r = CHR ''/''))"
  proof (cases "starts_with https_prefix url")
    case True
    then obtain r where r: "url = https_prefix @ r" by (auto simp: starts_with_iff)
    have "length https_prefix = 8" by (simp add: https_prefix_def)
    then have "isBaseUrlAllowed url \<longleftrightarrow> r \<noteq> []" using True by (simp add: isBaseUrlAllowed_def r)
    moreover have "\<nexists>p. p \<in> set loopback_prefixes \<and> (\<exists>q. url = p @ q)" using no True by blast
    ultimately show ?thesis using r by blast
  next
    case False
    then show ?thesis by (auto simp: isBaseUrlAllowed_def loopback_loop_iff starts_with_iff)
  qed
  moreover have "isBaseUrlAllowed ''http://localhost:x@example.com/''"
    by (simp add: isBaseUrlAllowed_def https_prefix_def loopback_prefixes_def starts_with_def)
  ultimately show ?thesis by blast
qed

section \<open>Selection\<close>

text \<open>Steam never sees a pinned gid with the public size or the other way round.\<close>

lemma resolvePinnedPair_whole:
  "resolvePinnedPair pg ps pin budget size1 await size2 = p \<Longrightarrow>
     (if pairPinned p then pin \<noteq> 0 \<and> pairGid p = pin \<and> Some (pairSize p) \<in> {size1, size2}
      else pairGid p = pg \<and> pairSize p = ps)"
  by (auto simp: resolvePinnedPair_def Let_def split: if_splits option.splits)

lemma choose_final:
  "decFinal (chooseManifest planned st preferred legacy) \<longleftrightarrow> st \<noteq> Pending"
  "st \<noteq> Unavailable \<Longrightarrow> decGid (chooseManifest planned st preferred legacy) = planned"
  by (cases st; simp add: chooseManifest_def)+

lemma remainingBudgetMs_bounds:
  "0 \<le> remainingBudgetMs t e \<and> remainingBudgetMs t e \<le> max 0 t \<and>
   (0 \<le> e \<longrightarrow> e + remainingBudgetMs t e \<le> max e t)"
  by (auto simp: remainingBudgetMs_def)

text \<open>An accepted vector's byte size fits the 32-bit address space.\<close>

lemma validVectorBounds_fits:
  assumes "validVectorBounds cnt capacity stride"
  shows "nat cnt * stride < 2 ^ 32"
proof -
  have "nat cnt * stride \<le> (2 ^ 32 - 1) div stride * stride"
    using assms by (simp add: validVectorBounds_def)
  also have "\<dots> \<le> 2 ^ 32 - 1" by (rule div_times_less_eq_dividend)
  finally show ?thesis by simp
qed

lemma purgeOrphans_pin:
  "app \<in> keep \<Longrightarrow> getPin (purgeOrphans pins keep) app d = getPin pins app d"
  "app \<notin> keep \<Longrightarrow> getPin (purgeOrphans pins keep) app d = 0"
proof -
  have m: "map_of (filter (\<lambda>p. fst p \<in> keep) pins) app = (if app \<in> keep then map_of pins app else None)"
    by (induction pins) auto
  show "app \<in> keep \<Longrightarrow> getPin (purgeOrphans pins keep) app d = getPin pins app d"
    "app \<notin> keep \<Longrightarrow> getPin (purgeOrphans pins keep) app d = 0"
    by (simp_all add: getPin_def purgeOrphans_def m)
qed

section \<open>Witnesses\<close>

definition sample_pins :: pin_map where
  "sample_pins = [(5, \<lparr>locked = True, buildId = 0, depots = [(6, 9), (7, 1)]\<rparr>),
     (8, \<lparr>locked = False, buildId = 0, depots = [(7, 2)]\<rparr>)]"

lemma unique_owner_agrees_witness:
  "flattenDepots sample_pins 6 = Some 9 \<and> (\<exists>p. filter (owns 6) sample_pins = [p])"
proof (rule unique_owner_agrees)
  show "\<forall>p \<in> set sample_pins. distinct (map fst (depots (snd p)))" by (simp add: sample_pins_def)
  show "getPinForPlannerEntry sample_pins 0 6 = 9"
    by (simp add: sample_pins_def getPinForPlannerEntry_def getPinForUniqueOwner_def)
qed simp

end
