(* ===== verification/Quarantine.thy ===== *)
theory Quarantine
  imports Prelude CppText
begin

unbundle bit_operations_syntax

text \<open>
  Depots whose key cannot unpack their chunks: the in-memory registry of
  \<open>src/feats/depotquarantine.hpp\<close> and the persistent records of \<open>src/feats/depotquarantine_store.hpp\<close>.
  Every registry operation holds the registry's mutex, so an interleaving of threads is a sequence
  of operations. A key is its list of bytes.
\<close>

section \<open>The registry\<close>

definition kUnpackFailed :: u32 where "kUnpackFailed = 4"
definition kDownloadedChunkLocation :: u32 where "kDownloadedChunkLocation = 4"
definition kDistinctFailureThreshold :: nat where "kDistinctFailureThreshold = 3"

definition isTargetFailure :: "u32 \<Rightarrow> u32 \<Rightarrow> bool" where
  "isTargetFailure location unpackResult \<longleftrightarrow>
     location = kDownloadedChunkLocation \<and> unpackResult = kUnpackFailed"

record failure_record =
  frAppId :: u32
  frKey :: "u8 list"
  frFailedChunks :: "u64 set"
  frQuarantined :: bool

type_synonym registry = "u32 \<rightharpoonup> failure_record"

definition new_record :: "u32 \<Rightarrow> u8 list \<Rightarrow> bool \<Rightarrow> failure_record" where
  "new_record app key q = \<lparr>frAppId = app, frKey = key, frFailedChunks = {}, frQuarantined = q\<rparr>"

definition markFailure ::
  "u32 \<Rightarrow> u32 \<Rightarrow> bool \<Rightarrow> u8 list \<Rightarrow> u32 \<Rightarrow> u64 \<Rightarrow> registry \<Rightarrow> bool \<times> registry" where
  "markFailure depot app inScope key unpackResult chunk reg =
     (if depot = 0 \<or> app = 0 \<or> \<not> inScope \<or> length key \<noteq> 32 \<or> unpackResult \<noteq> kUnpackFailed \<or> chunk = 0
      then (False, reg)
      else
        (let r = (case reg depot of
                    None \<Rightarrow> new_record app key False
                  | Some r \<Rightarrow> if frAppId r \<noteq> app \<or> frKey r \<noteq> key then new_record app key False else r)
         in if frQuarantined r then (False, reg(depot \<mapsto> r))
            else
              (let r' = r\<lparr>frFailedChunks := insert chunk (frFailedChunks r)\<rparr>
               in if card (frFailedChunks r') < kDistinctFailureThreshold then (False, reg(depot \<mapsto> r'))
                  else (True, reg(depot \<mapsto> r'\<lparr>frQuarantined := True\<rparr>)))))"

definition adopt :: "u32 \<Rightarrow> u32 \<Rightarrow> u8 list \<Rightarrow> registry \<Rightarrow> bool \<times> registry" where
  "adopt depot app key reg =
     (if depot = 0 \<or> app = 0 \<or> length key \<noteq> 32 then (False, reg)
      else
        (case reg depot of
           None \<Rightarrow> (True, reg(depot \<mapsto> new_record app key True))
         | Some r \<Rightarrow>
             if frQuarantined r \<and> frAppId r = app \<and> frKey r = key then (False, reg)
             else (True, reg(depot \<mapsto> new_record app key True))))"

definition registryContains :: "u32 \<Rightarrow> registry \<Rightarrow> bool" where
  "registryContains depot reg = (case reg depot of None \<Rightarrow> False | Some r \<Rightarrow> frQuarantined r)"

definition shouldDrop :: "u32 \<Rightarrow> u32 \<Rightarrow> bool \<Rightarrow> u8 list \<Rightarrow> registry \<Rightarrow> bool \<times> registry" where
  "shouldDrop depot dlc inScope currentKey reg =
     (case reg depot of
        None \<Rightarrow> (False, reg)
      | Some r \<Rightarrow>
          if \<not> frQuarantined r then (False, reg)
          else if \<not> inScope \<or> length currentKey \<noteq> 32 \<or> currentKey \<noteq> frKey r
          then (False, reg(depot := None))
          else (dlc \<noteq> 0, reg))"

text \<open>The calls a thread can make.\<close>

datatype reg_op =
    MarkFailure u32 u32 bool "u8 list" u32 u64
  | Adopt u32 u32 "u8 list"
  | Contains u32
  | ShouldDrop u32 u32 bool "u8 list"

fun reg_step :: "reg_op \<Rightarrow> registry \<Rightarrow> bool \<times> registry" where
  "reg_step (MarkFailure depot app inScope key res chunk) reg = markFailure depot app inScope key res chunk reg"
| "reg_step (Adopt depot app key) reg = adopt depot app key reg"
| "reg_step (Contains depot) reg = (registryContains depot reg, reg)"
| "reg_step (ShouldDrop depot dlc inScope key) reg = shouldDrop depot dlc inScope key reg"

text \<open>Results of a sequence of calls, and the registry behind it.\<close>

fun reg_run :: "reg_op list \<Rightarrow> registry \<Rightarrow> bool list \<times> registry" where
  "reg_run [] reg = ([], reg)"
| "reg_run (x # xs) reg =
     (let (b, reg') = reg_step x reg; (bs, reg'') = reg_run xs reg' in (b # bs, reg''))"

section \<open>The abstract registry\<close>

text \<open>What the registry promises of one depot: nothing is known, some distinct chunks failed with a key,
  or the key is confirmed unusable.\<close>

datatype depot_state = Clear | Candidate u32 "u8 list" "u64 set" | Confirmed u32 "u8 list"

definition spec_failure :: "u32 \<Rightarrow> u8 list \<Rightarrow> u64 \<Rightarrow> depot_state \<Rightarrow> bool \<times> depot_state" where
  "spec_failure app key chunk st =
     (if st = Confirmed app key then (False, st)
      else
        (let chunks = (case st of Candidate a k cs \<Rightarrow> if a = app \<and> k = key then insert chunk cs else {chunk}
                                | _ \<Rightarrow> {chunk})
         in if card chunks \<ge> 3 then (True, Confirmed app key) else (False, Candidate app key chunks)))"

fun spec_step :: "reg_op \<Rightarrow> (u32 \<Rightarrow> depot_state) \<Rightarrow> bool \<times> (u32 \<Rightarrow> depot_state)" where
  "spec_step (MarkFailure depot app inScope key res chunk) s =
     (if depot \<noteq> 0 \<and> app \<noteq> 0 \<and> inScope \<and> length key = 32 \<and> res = 4 \<and> chunk \<noteq> 0
      then (let (b, st) = spec_failure app key chunk (s depot) in (b, s(depot := st)))
      else (False, s))"
| "spec_step (Adopt depot app key) s =
     (if depot \<noteq> 0 \<and> app \<noteq> 0 \<and> length key = 32
      then (s depot \<noteq> Confirmed app key, s(depot := Confirmed app key))
      else (False, s))"
| "spec_step (Contains depot) s = ((\<exists>a k. s depot = Confirmed a k), s)"
| "spec_step (ShouldDrop depot dlc inScope key) s =
     (case s depot of
        Confirmed a k \<Rightarrow>
          if inScope \<and> length key = 32 \<and> key = k then (dlc \<noteq> 0, s) else (False, s(depot := Clear))
      | _ \<Rightarrow> (False, s))"

fun spec_run :: "reg_op list \<Rightarrow> (u32 \<Rightarrow> depot_state) \<Rightarrow> bool list \<times> (u32 \<Rightarrow> depot_state)" where
  "spec_run [] s = ([], s)"
| "spec_run (x # xs) s = (let (b, s') = spec_step x s; (bs, s'') = spec_run xs s' in (b # bs, s''))"

definition abs_record :: "failure_record option \<Rightarrow> depot_state" where
  "abs_record r =
     (case r of
        None \<Rightarrow> Clear
      | Some r \<Rightarrow> if frQuarantined r then Confirmed (frAppId r) (frKey r)
                  else Candidate (frAppId r) (frKey r) (frFailedChunks r))"

definition abs_reg :: "registry \<Rightarrow> u32 \<Rightarrow> depot_state" where
  "abs_reg reg depot = abs_record (reg depot)"

lemma abs_reg_upd [simp]: "abs_reg (reg(d := r)) = (abs_reg reg)(d := abs_record r)"
  by (auto simp: abs_reg_def)

lemma abs_reg_same: "abs_record (reg d) = st \<Longrightarrow> (abs_reg reg)(d := st) = abs_reg reg"
  by (auto simp: abs_reg_def)

lemma abs_reg_at: "abs_reg reg d = abs_record (reg d)"
  by (simp add: abs_reg_def)

lemma mark_refines:
  "fst (markFailure d a sc k res c reg) = fst (spec_step (MarkFailure d a sc k res c) (abs_reg reg)) \<and>
   abs_reg (snd (markFailure d a sc k res c reg)) = snd (spec_step (MarkFailure d a sc k res c) (abs_reg reg))"
  by (cases "reg d")
    (auto simp: markFailure_def spec_failure_def abs_reg_at abs_record_def new_record_def Let_def kUnpackFailed_def
      kDistinctFailureThreshold_def)

lemma adopt_refines:
  "fst (adopt d a k reg) = fst (spec_step (Adopt d a k) (abs_reg reg)) \<and>
   abs_reg (snd (adopt d a k reg)) = snd (spec_step (Adopt d a k) (abs_reg reg))"
  by (cases "reg d") (auto simp: adopt_def abs_reg_at abs_record_def new_record_def intro!: ext)

lemma drop_refines:
  "fst (shouldDrop d x sc k reg) = fst (spec_step (ShouldDrop d x sc k) (abs_reg reg)) \<and>
   abs_reg (snd (shouldDrop d x sc k reg)) = snd (spec_step (ShouldDrop d x sc k) (abs_reg reg))"
  by (cases "reg d") (auto simp: shouldDrop_def abs_reg_at abs_record_def intro!: ext)

lemma contains_refines: "registryContains d reg = fst (spec_step (Contains d) (abs_reg reg))"
  by (cases "reg d") (auto simp: registryContains_def abs_reg_at abs_record_def)

lemma step_refines:
  "fst (reg_step x reg) = fst (spec_step x (abs_reg reg)) \<and>
   abs_reg (snd (reg_step x reg)) = snd (spec_step x (abs_reg reg))"
  using mark_refines adopt_refines drop_refines contains_refines by (cases x) simp_all

lemma run_refines:
  "fst (reg_run xs reg) = fst (spec_run xs (abs_reg reg)) \<and>
   abs_reg (snd (reg_run xs reg)) = snd (spec_run xs (abs_reg reg))"
proof (induction xs arbitrary: reg)
  case (Cons x xs)
  obtain b reg' where r: "reg_step x reg = (b, reg')" by fastforce
  obtain c s where s: "spec_step x (abs_reg reg) = (c, s)" by fastforce
  have "c = b" "s = abs_reg reg'" using step_refines [of x reg] r s by simp_all
  then show ?case using Cons.IH [of reg'] by (simp add: r s split_beta)
qed simp

section \<open>Why a depot is quarantined\<close>

text \<open>The machine that remembers the calls made so far.\<close>

definition traced_step :: "reg_op \<Rightarrow> reg_op list \<times> (u32 \<Rightarrow> depot_state) \<Rightarrow> reg_op list \<times> (u32 \<Rightarrow> depot_state)" where
  "traced_step x s = (fst s @ [x], snd (spec_step x (snd s)))"

definition evidence :: "reg_op list \<Rightarrow> u32 \<Rightarrow> u32 \<Rightarrow> u8 list \<Rightarrow> u64 set \<Rightarrow> bool" where
  "evidence xs d a k cs \<longleftrightarrow> (\<forall>c \<in> cs. MarkFailure d a True k 4 c \<in> set xs)"

definition justified :: "reg_op list \<Rightarrow> u32 \<Rightarrow> depot_state \<Rightarrow> bool" where
  "justified xs d st =
     (case st of
        Clear \<Rightarrow> True
      | Candidate a k cs \<Rightarrow> evidence xs d a k cs
      | Confirmed a k \<Rightarrow> Adopt d a k \<in> set xs \<or> (\<exists>cs. card cs \<ge> 3 \<and> evidence xs d a k cs))"

lemma justified_more: "justified xs d st \<Longrightarrow> justified (xs @ [x]) d st"
  by (auto simp: justified_def evidence_def split: depot_state.splits)

lemma justified_failure:
  assumes "justified xs d st"
  shows "justified (xs @ [MarkFailure d a True k 4 c]) d (snd (spec_failure a k c st))"
proof -
  let ?chunks = "case st of Candidate a' k' cs \<Rightarrow> if a' = a \<and> k' = k then insert c cs else {c} | _ \<Rightarrow> {c}"
  have e: "evidence (xs @ [MarkFailure d a True k 4 c]) d a k ?chunks"
    using assms by (auto simp: justified_def evidence_def split: depot_state.splits)
  show ?thesis
  proof (cases "st = Confirmed a k")
    case True
    then show ?thesis using justified_more [OF assms] by (simp add: spec_failure_def)
  next
    case False
    then have "snd (spec_failure a k c st) = (if card ?chunks \<ge> 3 then Confirmed a k else Candidate a k ?chunks)"
      by (simp add: spec_failure_def Let_def)
    then show ?thesis using e by (auto simp: justified_def)
  qed
qed

lemma justified_step:
  assumes all: "\<And>d. justified xs d (s d)"
  shows "justified (xs @ [x]) d (snd (spec_step x s) d)"
proof (cases x)
  case (MarkFailure e a sc k res c)
  then show ?thesis using justified_more [OF all] justified_failure [OF all, of e a k c]
    by (auto simp: split_beta)
next
  case (Adopt e a k)
  then show ?thesis using justified_more [OF all] by (auto simp: justified_def [of _ _ "Confirmed a k"])
next
  case (Contains e)
  then show ?thesis using justified_more [OF all] by simp
next
  case (ShouldDrop e y sc k)
  then show ?thesis using justified_more [OF all] justified_def [of _ _ Clear]
    by (auto split: depot_state.split)
qed

interpretation traced: invariant_machine traced_step "\<lambda>s. s = ([], \<lambda>_. Clear)"
  "\<lambda>s. \<forall>d. justified (fst s) d (snd s d)"
  by unfold_locales (auto simp: traced_step_def justified_step justified_def [of _ _ Clear])

lemma traced_run: "run_ops traced_step xs (tr, s) = (tr @ xs, snd (spec_run xs s))"
  by (induction xs arbitrary: tr s) (simp_all add: traced_step_def split_beta)

section \<open>Properties of the registry\<close>

text \<open>over every sequence of calls the registry answers as its abstract specification does: three
  distinct failed chunks with one key confirm a depot, once; a changed key starts over; a lookup
  with another key, or out of scope, releases it.\<close>

theorem registry_refines_spec:
  "fst (reg_run xs Map.empty) = fst (spec_run xs (\<lambda>_. Clear)) \<and>
   abs_reg (snd (reg_run xs Map.empty)) = snd (spec_run xs (\<lambda>_. Clear))"
proof -
  have "abs_reg Map.empty = (\<lambda>_. Clear)" by (auto simp: abs_reg_def abs_record_def)
  then show ?thesis using run_refines [of xs Map.empty] by simp
qed

text \<open>a depot is dropped from a plan only for a DLC, in scope, and when the key in use is one that was
  adopted from an earlier session or failed on at least three distinct chunks in this one.\<close>

theorem quarantine_justified:
  assumes run: "snd (reg_run xs Map.empty) = reg" and drp: "fst (shouldDrop d dlc sc k reg)"
  shows "dlc \<noteq> 0 \<and> sc \<and> length k = 32 \<and>
    (\<exists>a. Adopt d a k \<in> set xs \<or> (\<exists>cs. card cs \<ge> 3 \<and> (\<forall>c \<in> cs. MarkFailure d a True k 4 c \<in> set xs)))"
proof -
  have e: "abs_reg Map.empty = (\<lambda>_. Clear)" by (auto simp: abs_reg_def abs_record_def)
  have abs: "abs_reg reg = snd (spec_run xs (\<lambda>_. Clear))"
    using run_refines [of xs Map.empty] by (simp add: run [symmetric] e)
  have j: "justified xs d (abs_reg reg d)"
    using traced.inv_reachable [of "([], \<lambda>_. Clear)" xs] by (simp add: traced_run abs)
  obtain r where r: "reg d = Some r" "frQuarantined r" "k = frKey r" "dlc \<noteq> 0" "sc" "length k = 32"
    using drp by (auto simp: shouldDrop_def split: option.splits if_splits)
  then have "abs_reg reg d = Confirmed (frAppId r) k" by (simp add: abs_reg_at abs_record_def)
  then show ?thesis using j r(4-6) by (auto simp: justified_def evidence_def)
qed

section \<open>Persistent records\<close>

record quarantine_record =
  qrAppId :: u32
  qrDepotId :: u32
  qrDlcAppId :: u32
  qrKeyFingerprint :: u64

definition fnv_basis :: u64 where "fnv_basis = 14695981039346656037"
definition fnv_prime :: u64 where "fnv_prime = 1099511628211"

definition fingerprintKey :: "u8 list \<Rightarrow> u64" where
  "fingerprintKey key =
     (if length key \<noteq> 32 then 0
      else (let h = fold (\<lambda>b h. (h XOR ucast b) * fnv_prime) key fnv_basis in if h \<noteq> 0 then h else 1))"

definition isUsable :: "quarantine_record \<Rightarrow> bool" where
  "isUsable r \<longleftrightarrow> qrAppId r \<noteq> 0 \<and> qrDepotId r \<noteq> 0 \<and> qrDlcAppId r \<noteq> 0 \<and> qrKeyFingerprint r \<noteq> 0"

fun upsert_loop :: "quarantine_record list \<Rightarrow> quarantine_record \<Rightarrow> bool \<times> quarantine_record list" where
  "upsert_loop [] r = (True, [r])"
| "upsert_loop (e # es) r =
     (if qrDepotId e \<noteq> qrDepotId r then (let (b, es') = upsert_loop es r in (b, e # es'))
      else if qrAppId e = qrAppId r \<and> qrDlcAppId e = qrDlcAppId r \<and> qrKeyFingerprint e = qrKeyFingerprint r
      then (False, e # es)
      else (True, r # es))"

definition upsert :: "quarantine_record list \<Rightarrow> quarantine_record \<Rightarrow> bool \<times> quarantine_record list" where
  "upsert records r = (if \<not> isUsable r then (False, records) else upsert_loop records r)"

definition isQuarantined :: "quarantine_record list \<Rightarrow> u32 \<Rightarrow> u64 \<Rightarrow> bool" where
  "isQuarantined records depot fp \<longleftrightarrow>
     depot \<noteq> 0 \<and> fp \<noteq> 0 \<and> list_ex (\<lambda>r. qrDepotId r = depot \<and> qrKeyFingerprint r = fp) records"

definition record_line :: "quarantine_record \<Rightarrow> string" where
  "record_line r = to_dec (unat (qrAppId r)) @ '' '' @ to_dec (unat (qrDepotId r)) @ '' '' @
     to_dec (unat (qrDlcAppId r)) @ '' '' @ to_dec (unat (qrKeyFingerprint r)) @ [CHR 0x0A]"

definition serialize_records :: "quarantine_record list \<Rightarrow> string" where
  "serialize_records records = concat (map record_line (filter isUsable records))"

text \<open>\<open>std::getline\<close>: the lines of a text; a last line without its newline counts when not empty.\<close>

fun text_lines :: "string \<Rightarrow> string list" where
  "text_lines [] = []"
| "text_lines (c # s) =
     (if c = CHR 0x0A then [] # text_lines s
      else (case text_lines s of [] \<Rightarrow> [[c]] | l # ls \<Rightarrow> (c # l) # ls))"

text \<open>\<open>operator>>\<close> for an unsigned type with largest value \<open>lim\<close>: leading white space is skipped, a sign is
  read (a negated value wraps), and at least one digit must follow; a value out of range fails.\<close>

definition is_space :: "char \<Rightarrow> bool" where
  "is_space c \<longleftrightarrow> char_code c = 32 \<or> (9 \<le> char_code c \<and> char_code c \<le> 13)"

definition read_unsigned :: "nat \<Rightarrow> string \<Rightarrow> (nat \<times> string) option" where
  "read_unsigned lim s =
     (let t = dropWhile is_space s in
      case t of
        [] \<Rightarrow> None
      | c # u \<Rightarrow>
          if c = CHR ''-'' then
            (case from_chars lim u of None \<Rightarrow> None | Some (n, r) \<Rightarrow> Some (if n = 0 then 0 else lim + 1 - n, r))
          else if c = CHR ''+'' then from_chars lim u
          else from_chars lim t)"

definition parse_record :: "string \<Rightarrow> quarantine_record option" where
  "parse_record line =
     (case read_unsigned u32_max line of
        None \<Rightarrow> None
      | Some (a, r1) \<Rightarrow>
          (case read_unsigned u32_max r1 of
             None \<Rightarrow> None
           | Some (d, r2) \<Rightarrow>
               (case read_unsigned u32_max r2 of
                  None \<Rightarrow> None
                | Some (x, r3) \<Rightarrow>
                    (case read_unsigned u64_max r3 of
                       None \<Rightarrow> None
                     | Some (k, _) \<Rightarrow>
                         Some \<lparr>qrAppId = of_nat a, qrDepotId = of_nat d, qrDlcAppId = of_nat x,
                               qrKeyFingerprint = of_nat k\<rparr>))))"

definition load_line :: "string \<Rightarrow> quarantine_record list \<Rightarrow> quarantine_record list" where
  "load_line line records =
     (case parse_record line of None \<Rightarrow> records | Some r \<Rightarrow> snd (upsert records r))"

definition parse_records :: "string \<Rightarrow> quarantine_record list" where
  "parse_records txt = fold load_line (text_lines txt) []"

definition withoutIds :: "u32 list \<Rightarrow> u32 set \<Rightarrow> u32 list" where
  "withoutIds ids dropped = (if dropped = {} then ids else filter (\<lambda>i. i \<notin> dropped) ids)"

section \<open>Reading back the records\<close>

lemma text_lines_line: "CHR 0x0A \<notin> set l \<Longrightarrow> text_lines (l @ CHR 0x0A # rest) = l # text_lines rest"
  by (induction l) auto

lemma digit_not_space: "is_digit c \<Longrightarrow> \<not> is_space c \<and> c \<noteq> CHR ''-'' \<and> c \<noteq> CHR ''+'' \<and> c \<noteq> CHR 0x0A"
  by (auto simp: is_digit_def is_space_def char_code_def)

lemma from_chars_dec:
  assumes "n \<le> lim" "\<forall>c s. rest = c # s \<longrightarrow> \<not> is_digit c"
  shows "from_chars lim (to_dec n @ rest) = Some (n, rest)"
proof -
  have "takeWhile is_digit (to_dec n @ rest) = to_dec n" "dropWhile is_digit (to_dec n @ rest) = rest"
    using assms(2) all_digits_to_dec [of n] by (cases rest; auto simp: list_all_iff)+
  then show ?thesis using assms(1) by (simp add: from_chars_def)
qed

lemma read_dec:
  assumes "n \<le> lim" "\<forall>c s. rest = c # s \<longrightarrow> \<not> is_digit c"
  shows "read_unsigned lim (to_dec n @ rest) = Some (n, rest)"
proof -
  obtain c u where t: "to_dec n = c # u" by (cases "to_dec n") auto
  have "is_digit c" using digits_to_dec [of c n] by (simp add: t)
  then show ?thesis using from_chars_dec [OF assms] digit_not_space [of c]
    by (simp add: read_unsigned_def t)
qed

lemma read_space: "read_unsigned lim (CHR 0x20 # s) = read_unsigned lim s"
  by (simp add: read_unsigned_def is_space_def char_code_def)

lemma space_not_digit: "\<not> is_digit (CHR 0x20)"
  by (simp add: is_digit_def char_code_def)

lemma word_dec_bounds: "unat (w :: u32) \<le> u32_max" "unat (v :: u64) \<le> u64_max"
proof -
  have "unat w < 2 ^ 32" "unat v < 2 ^ 64" using unsigned_less [of w] unsigned_less [of v] by simp_all
  then show "unat w \<le> u32_max" "unat v \<le> u64_max" by (simp_all add: u32_max_def u64_max_def)
qed

definition record_text :: "quarantine_record \<Rightarrow> string" where
  "record_text r = to_dec (unat (qrAppId r)) @ '' '' @ to_dec (unat (qrDepotId r)) @ '' '' @
     to_dec (unat (qrDlcAppId r)) @ '' '' @ to_dec (unat (qrKeyFingerprint r))"

lemma parse_record_text: "parse_record (record_text r) = Some r"
  using read_dec [OF word_dec_bounds(2), of "[]"]
  by (simp add: parse_record_def record_text_def read_dec [OF word_dec_bounds(1)] read_space space_not_digit)

lemma record_text_no_newline: "CHR 0x0A \<notin> set (record_text r)"
  using digits_to_dec digit_not_space by (fastforce simp: record_text_def)

lemma text_lines_records: "text_lines (concat (map record_line rs)) = map record_text rs"
proof (induction rs)
  case (Cons r rs)
  have "concat (map record_line (r # rs)) = record_text r @ CHR 0x0A # concat (map record_line rs)"
    by (simp add: record_line_def record_text_def)
  then show ?case using Cons by (simp add: text_lines_line record_text_no_newline)
qed simp

section \<open>The stored set\<close>

definition store_wf :: "quarantine_record list \<Rightarrow> bool" where
  "store_wf rs \<longleftrightarrow> (\<forall>r \<in> set rs. isUsable r) \<and> distinct (map qrDepotId rs)"

lemma upsert_loop_depots:
  "map qrDepotId (snd (upsert_loop rs r)) =
     (if qrDepotId r \<in> set (map qrDepotId rs) then map qrDepotId rs else map qrDepotId rs @ [qrDepotId r])"
  by (induction rs) (auto simp: split_beta)

lemma upsert_loop_set: "set (snd (upsert_loop rs r)) \<subseteq> insert r (set rs)"
  by (induction rs) (auto simp: split_beta)

lemma upsert_wf: "store_wf rs \<Longrightarrow> store_wf (snd (upsert rs r))"
  using upsert_loop_set [of rs r] by (auto simp: store_wf_def upsert_def upsert_loop_depots)

lemma upsert_new: "qrDepotId r \<notin> set (map qrDepotId rs) \<Longrightarrow> upsert_loop rs r = (True, rs @ [r])"
  by (induction rs) auto

lemma load_line_wf: "store_wf rs \<Longrightarrow> store_wf (load_line l rs)"
  by (simp add: load_line_def upsert_wf split: option.split)

lemma parse_records_wf: "store_wf (parse_records txt)"
proof -
  have "store_wf rs \<Longrightarrow> store_wf (fold load_line ls rs)" for ls rs
    by (induction ls arbitrary: rs) (simp_all add: load_line_wf)
  from this [of "[]"] have "store_wf (fold load_line (text_lines txt) [])" by (simp add: store_wf_def)
  then show ?thesis by (simp add: parse_records_def)
qed

lemma parse_serialize_aux:
  assumes wf: "store_wf rs"
  shows "parse_records (serialize_records rs) = rs"
proof -
  have "fold load_line (map record_text rs) acc = acc @ rs" if "store_wf (acc @ rs)" for acc
    using that
  proof (induction rs arbitrary: acc)
    case (Cons r rs)
    then have "load_line (record_text r) acc = acc @ [r]"
      by (auto simp: load_line_def parse_record_text upsert_def upsert_new store_wf_def)
    then show ?case using Cons by simp
  qed simp
  moreover have "filter isUsable rs = rs" using wf by (simp add: store_wf_def)
  ultimately show ?thesis using wf by (simp add: parse_records_def serialize_records_def text_lines_records)
qed

section \<open>Properties of the stored set\<close>

text \<open>whatever text the store holds, the parsed set is well formed, every record usable and every depot
  at most once, and storing the set and loading it again gives the same set.\<close>

theorem quarantine_store_roundtrip:
  "store_wf (parse_records txt) \<and>
   parse_records (serialize_records (parse_records txt)) = parse_records txt"
  using parse_records_wf parse_serialize_aux by blast

text \<open>recording a usable failure keeps the set well formed, makes exactly that fingerprint quarantine
  the depot, leaves the answer for every other depot, and reports a change exactly when the set
  changed.\<close>

theorem upsert_effect:
  assumes wf: "store_wf rs" and r: "isUsable r" and u: "upsert rs r = (b, rs')"
  shows "store_wf rs' \<and> b = (rs' \<noteq> rs) \<and>
    isQuarantined rs' d fp = (if d = qrDepotId r then fp = qrKeyFingerprint r else isQuarantined rs d fp)"
proof -
  have l: "upsert_loop rs r = (b, rs')" using u r by (simp add: upsert_def)
  have "b = (rs' \<noteq> rs)"
    using l by (induction rs arbitrary: rs') (auto split: if_splits prod.splits)
  moreover have "list_ex (\<lambda>x. qrDepotId x = d \<and> qrKeyFingerprint x = fp) rs' =
      (if d = qrDepotId r then fp = qrKeyFingerprint r
       else list_ex (\<lambda>x. qrDepotId x = d \<and> qrKeyFingerprint x = fp) rs)"
    using l wf
  proof (induction rs arbitrary: rs')
    case (Cons e es)
    show ?case
    proof (cases "qrDepotId e = qrDepotId r")
      case True
      then have "qrDepotId r \<notin> qrDepotId ` set es" using Cons.prems(2) by (simp add: store_wf_def)
      then have "\<not> list_ex (\<lambda>x. qrDepotId x = d \<and> qrKeyFingerprint x = fp) es" if "d = qrDepotId r"
        using that unfolding list_ex_iff by (metis imageI)
      then show ?thesis using Cons.prems(1) True by (auto split: if_splits)
    next
      case False
      then obtain es' where "upsert_loop es r = (b, es')" "rs' = e # es'"
        using Cons.prems(1) by (auto split: prod.splits)
      then show ?thesis using Cons.IH [of es'] Cons.prems(2) False by (auto simp: store_wf_def)
    qed
  qed auto
  ultimately show ?thesis using upsert_wf [OF wf, of r] r u by (auto simp: isQuarantined_def isUsable_def)
qed

text \<open>A well-formed key, and nothing else, has a fingerprint.\<close>

lemma fingerprint_zero_iff: "fingerprintKey key = 0 \<longleftrightarrow> length key \<noteq> 32"
  by (simp add: fingerprintKey_def Let_def)

section \<open>Witnesses\<close>

definition sample_key :: "u8 list" where "sample_key = replicate 32 1"

lemma quarantine_justified_witness:
  "(1::u32) \<noteq> 0 \<and> length sample_key = 32 \<and>
   (\<exists>a. Adopt 5 a sample_key \<in> set [Adopt 5 7 sample_key] \<or>
     (\<exists>cs. card cs \<ge> 3 \<and> (\<forall>c \<in> cs. MarkFailure 5 a True sample_key 4 c \<in> set [Adopt 5 7 sample_key])))"
proof -
  have "fst (shouldDrop 5 1 True sample_key (snd (reg_run [Adopt 5 7 sample_key] Map.empty)))"
    by (simp add: adopt_def new_record_def shouldDrop_def sample_key_def)
  from quarantine_justified [OF refl this] show ?thesis by simp
qed

definition sample_record :: quarantine_record where
  "sample_record = \<lparr>qrAppId = 1, qrDepotId = 2, qrDlcAppId = 3, qrKeyFingerprint = 4\<rparr>"

lemma upsert_effect_witness: "isQuarantined [sample_record] 2 4"
proof -
  have "store_wf []" "isUsable sample_record" "upsert [] sample_record = (True, [sample_record])"
    by (simp_all add: store_wf_def isUsable_def sample_record_def upsert_def)
  from upsert_effect [OF this, of 2 4] show ?thesis by (simp add: sample_record_def)
qed

end
