(* ===== verification/CachePair.thy ===== *)
theory CachePair
  imports CachePolicy
begin

text \<open>
  The publication of a cache pair and its provenance marker as one transaction
  (\<open>src/feats/cache_pair.hpp\<close>), over the atomic file write of \<open>src/utils/atomic_file.hpp\<close>. The file
  system is a map from paths to contents; each call of it takes the next outcome of a given list,
  so that every call may fail in every run (past the end of the list calls succeed). A failed copy
  may leave any bytes at its target. The state also keeps the maps it went through, which is what a
  process that dies would leave. Setting and reading the marker are parameters, as in the code.
\<close>

section \<open>The file system\<close>

type_synonym path = string
type_synonym contents = "u8 list"

text \<open>\<open>path / name\<close> for a relative name.\<close>

definition path_join :: "path \<Rightarrow> string \<Rightarrow> path" where
  "path_join d f = (if d = [] \<or> last d = CHR ''/'' then d @ f else d @ ''/'' @ f)"

lemma path_join_inject [simp]: "path_join d m = path_join d n \<longleftrightarrow> m = n"
  by (simp add: path_join_def)

lemma path_join_nonempty: "n \<noteq> [] \<Longrightarrow> path_join d n \<noteq> []"
  by (simp add: path_join_def)

datatype outcome = Works | Fails "contents option"

record file_system =
  fsFiles :: "path \<rightharpoonup> contents"
  fsOutcomes :: "outcome list"
  fsPast :: "(path \<rightharpoonup> contents) list"

definition outcome_of :: "file_system \<Rightarrow> outcome" where
  "outcome_of s = (case fsOutcomes s of [] \<Rightarrow> Works | x # _ \<Rightarrow> x)"

definition call_done :: "file_system \<Rightarrow> file_system" where
  "call_done s = s\<lparr>fsOutcomes := (case fsOutcomes s of [] \<Rightarrow> [] | _ # xs \<Rightarrow> xs)\<rparr>"

definition set_file :: "path \<Rightarrow> contents option \<Rightarrow> file_system \<Rightarrow> file_system" where
  "set_file p c s = s\<lparr>fsFiles := (fsFiles s)(p := c), fsPast := fsFiles s # fsPast s\<rparr>"

text \<open>\<open>exists(path, ec)\<close>: \<open>None\<close> sets the error code.\<close>

definition fs_exists :: "path \<Rightarrow> file_system \<Rightarrow> bool option \<times> file_system" where
  "fs_exists p s =
     (case outcome_of s of
        Works \<Rightarrow> (Some (fsFiles s p \<noteq> None), call_done s)
      | Fails _ \<Rightarrow> (None, call_done s))"

text \<open>\<open>remove(path, ec)\<close>: whether a file was removed; an error removes nothing.\<close>

definition fs_remove :: "path \<Rightarrow> file_system \<Rightarrow> bool option \<times> file_system" where
  "fs_remove p s =
     (case outcome_of s of
        Works \<Rightarrow> (Some (fsFiles s p \<noteq> None), set_file p None (call_done s))
      | Fails _ \<Rightarrow> (None, call_done s))"

definition fs_copy :: "path \<Rightarrow> path \<Rightarrow> file_system \<Rightarrow> bool \<times> file_system" where
  "fs_copy src dst s =
     (case outcome_of s of
        Works \<Rightarrow> (fsFiles s src \<noteq> None,
                  if fsFiles s src \<noteq> None then set_file dst (fsFiles s src) (call_done s) else call_done s)
      | Fails None \<Rightarrow> (False, call_done s)
      | Fails (Some junk) \<Rightarrow> (False, set_file dst (Some junk) (call_done s)))"

definition fs_rename :: "path \<Rightarrow> path \<Rightarrow> file_system \<Rightarrow> bool \<times> file_system" where
  "fs_rename src dst s =
     (if outcome_of s = Works \<and> fsFiles s src \<noteq> None
      then (True, let s' = call_done s in
              s'\<lparr>fsFiles := (fsFiles s)(dst := fsFiles s src, src := None), fsPast := fsFiles s # fsPast s\<rparr>)
      else (False, call_done s))"

text \<open>\<open>AtomicFile::write\<close>: the temporary file is complete and synced before the rename publishes it.\<close>

definition atomic_write :: "path \<Rightarrow> contents \<Rightarrow> file_system \<Rightarrow> bool \<times> file_system" where
  "atomic_write p data s =
     (case outcome_of s of
        Works \<Rightarrow> (True, set_file p (Some data) (call_done s))
      | Fails _ \<Rightarrow> (False, call_done s))"

section \<open>Members\<close>

definition backupPath :: "path \<Rightarrow> path" where
  "backupPath p = p @ ''.slssteam-pair-backup''"

text \<open>The result and \<open>staged\<close>.\<close>

definition stageMember :: "path \<Rightarrow> file_system \<Rightarrow> bool \<times> bool \<times> file_system" where
  "stageMember p s =
     (case fs_exists p s of
        (None, s1) \<Rightarrow> (False, False, s1)
      | (Some False, s1) \<Rightarrow> (True, False, snd (fs_remove (backupPath p) s1))
      | (Some True, s1) \<Rightarrow>
          (case fs_copy p (backupPath p) s1 of
             (False, s2) \<Rightarrow> (False, False, s2)
           | (True, s2) \<Rightarrow> (True, True, s2)))"

definition restoreMember :: "path \<Rightarrow> bool \<Rightarrow> file_system \<Rightarrow> bool \<times> file_system" where
  "restoreMember p staged s =
     (if \<not> staged then
        (case fs_exists p s of
           (None, s1) \<Rightarrow> (False, s1)
         | (Some False, s1) \<Rightarrow> (True, s1)
         | (Some True, s1) \<Rightarrow>
             (case fs_remove p s1 of
                (Some True, s2) \<Rightarrow> (True, s2)
              | (_, s2) \<Rightarrow> (False, s2)))
      else fs_rename (backupPath p) p s)"

definition discardBackup :: "path \<Rightarrow> bool \<Rightarrow> file_system \<Rightarrow> file_system" where
  "discardBackup p staged s = (if \<not> staged then s else snd (fs_remove (backupPath p) s))"

section \<open>Publication\<close>

definition rollback :: "path \<Rightarrow> bool \<Rightarrow> path \<Rightarrow> bool \<Rightarrow> file_system \<Rightarrow> bool \<times> file_system" where
  "rollback bufferPath bufferStaged metadataPath metadataStaged s =
     (case restoreMember bufferPath bufferStaged s of
        (b, s1) \<Rightarrow> (case restoreMember metadataPath metadataStaged s1 of (m, s2) \<Rightarrow> (b \<and> m, s2)))"

text \<open>The result, whether the error text reports a member that could not be restored (\<open>restored\<close> is
  its absence), the file system and the marker.\<close>

definition publish_pair ::
  "(bool \<Rightarrow> 'm \<Rightarrow> bool \<times> 'm) \<Rightarrow> ('m \<Rightarrow> bool) \<Rightarrow> path \<Rightarrow> path \<Rightarrow> contents \<Rightarrow> contents \<Rightarrow> bool \<Rightarrow> bool \<Rightarrow>
     file_system \<Rightarrow> 'm \<Rightarrow> bool \<times> bool \<times> file_system \<times> 'm" where
  "publish_pair setMarker markerIsPresent bufferPath metadataPath buffer metadata synthetic markerBefore s mk =
     (case stageMember bufferPath s of
        (False, _, s1) \<Rightarrow> (False, True, s1, mk)
      | (True, bst, s1) \<Rightarrow>
          (case stageMember metadataPath s1 of
             (False, _, s2) \<Rightarrow>
               (case restoreMember bufferPath bst s2 of (r, s3) \<Rightarrow> (False, r, s3, mk))
           | (True, mst, s2) \<Rightarrow>
               (case atomic_write bufferPath buffer s2 of
                  (False, s3) \<Rightarrow>
                    (case rollback bufferPath bst metadataPath mst s3 of (r, s4) \<Rightarrow> (False, r, s4, mk))
                | (True, s3) \<Rightarrow>
                    (case atomic_write metadataPath metadata s3 of
                       (False, s4) \<Rightarrow>
                         (case rollback bufferPath bst metadataPath mst s4 of (r, s5) \<Rightarrow> (False, r, s5, mk))
                     | (True, s4) \<Rightarrow>
                         (case setMarker synthetic mk of
                            (okm, mk1) \<Rightarrow>
                              if \<not> syntheticMarkerPublicationConsistent synthetic okm (markerIsPresent mk1)
                              then
                                (case setMarker markerBefore mk1 of
                                   (_, mk2) \<Rightarrow>
                                     (case rollback bufferPath bst metadataPath mst s4 of
                                        (r, s5) \<Rightarrow> (False, r, s5, mk2)))
                              else (True, True,
                                    discardBackup metadataPath mst (discardBackup bufferPath bst s4), mk1))))))"

section \<open>What the calls change\<close>

text \<open>Every map a run has gone through, the current one included.\<close>

definition history :: "file_system \<Rightarrow> (path \<rightharpoonup> contents) set" where
  "history s = insert (fsFiles s) (set (fsPast s))"

lemma call_done_simps [simp]:
  "fsFiles (call_done s) = fsFiles s" "fsPast (call_done s) = fsPast s" "history (call_done s) = history s"
  by (simp_all add: call_done_def history_def)

lemma current_in_history [simp]: "fsFiles s \<in> history s" "insert (fsFiles s) (history s) = history s"
  by (simp_all add: history_def)

lemma set_file_simps [simp]:
  "fsFiles (set_file p c s) = (fsFiles s)(p := c)"
  "history (set_file p c s) = insert ((fsFiles s)(p := c)) (history s)"
  by (simp_all add: set_file_def history_def)

lemma fs_exists_files [simp]:
  "fsFiles (snd (fs_exists p s)) = fsFiles s" "history (snd (fs_exists p s)) = history s"
  by (simp_all add: fs_exists_def split: outcome.split)

lemma fs_existsD: "fs_exists p s = (Some b, s') \<Longrightarrow> b = (fsFiles s p \<noteq> None)"
  by (auto simp: fs_exists_def split: outcome.splits)

lemma fs_remove_files:
  "fs_remove p s = (r, s') \<Longrightarrow>
     fsFiles s' = (if r = None then fsFiles s else (fsFiles s)(p := None)) \<and>
     history s' = insert (fsFiles s') (history s)"
  by (auto simp: fs_remove_def split: outcome.splits)

lemma fs_copy_files:
  "fs_copy a b s = (r, s') \<Longrightarrow>
     (\<exists>c. fsFiles s' = (fsFiles s)(b := c) \<and> (r \<longrightarrow> c = fsFiles s a \<and> c \<noteq> None)) \<and>
     history s' = insert (fsFiles s') (history s)"
  by (auto simp: fs_copy_def split: outcome.splits option.splits if_splits
      intro: exI [of _ "fsFiles s b"])

lemma fs_rename_files:
  "fs_rename a b s = (r, s') \<Longrightarrow>
     (if r then fsFiles s a \<noteq> None \<and> fsFiles s' = (fsFiles s)(b := fsFiles s a, a := None) else fsFiles s' = fsFiles s) \<and>
     history s' = insert (fsFiles s') (history s)"
  by (auto simp: fs_rename_def history_def Let_def split: if_splits)

lemma atomic_write_files:
  "atomic_write p d s = (r, s') \<Longrightarrow>
     fsFiles s' = (if r then (fsFiles s)(p := Some d) else fsFiles s) \<and>
     history s' = insert (fsFiles s') (history s)"
  by (auto simp: atomic_write_def split: outcome.splits)

lemma backup_differs [simp]: "backupPath p \<noteq> p" "p \<noteq> backupPath p"
  by (simp_all add: backupPath_def)

lemma backup_inj [simp]: "backupPath p = backupPath q \<longleftrightarrow> p = q"
  by (simp add: backupPath_def)

text \<open>Staging touches only the backup; when it succeeds the backup, or its absence, is the member.\<close>

lemma stage_files:
  assumes "stageMember p s = (ok, st, s')"
  shows "(\<forall>q. q \<noteq> backupPath p \<longrightarrow> fsFiles s' q = fsFiles s q) \<and>
    (ok \<longrightarrow> (if st then fsFiles s' (backupPath p) = fsFiles s p \<and> fsFiles s p \<noteq> None else fsFiles s p = None)) \<and>
    (\<forall>h \<in> history s'. h \<in> history s \<or> (\<forall>q. q \<noteq> backupPath p \<longrightarrow> h q = fsFiles s q))"
proof -
  obtain e s1 where e: "fs_exists p s = (e, s1)" by fastforce
  have s1: "fsFiles s1 = fsFiles s" "history s1 = history s" using fs_exists_files [of p s] by (simp_all add: e)
  show ?thesis
  proof (cases e)
    case None
    then show ?thesis using assms s1 by (auto simp: stageMember_def e)
  next
    case (Some b)
    note there = fs_existsD [OF e [unfolded Some]]
    show ?thesis
    proof (cases b)
      case True
      obtain r s2 where c: "fs_copy p (backupPath p) s1 = (r, s2)" by fastforce
      from fs_copy_files [OF c] show ?thesis using assms s1 there Some True c
        by (cases r) (auto simp: stageMember_def e)
    next
      case False
      obtain r s2 where c: "fs_remove (backupPath p) s1 = (r, s2)" by fastforce
      from fs_remove_files [OF c] show ?thesis using assms s1 there Some False c
        by (auto simp: stageMember_def e)
    qed
  qed
qed

text \<open>Restoring touches only the member and its backup, and a member is only ever what it was or what is
  restored.\<close>

lemma restore_files:
  assumes "restoreMember p st s = (ok, s')"
  shows "(\<forall>q. q \<noteq> p \<longrightarrow> q \<noteq> backupPath p \<longrightarrow> fsFiles s' q = fsFiles s q) \<and>
    (if ok then fsFiles s' p = (if st then fsFiles s (backupPath p) else None) else fsFiles s' p = fsFiles s p) \<and>
    history s' = insert (fsFiles s') (history s)"
proof (cases st)
  case True
  then show ?thesis using assms fs_rename_files [of "backupPath p" p s ok s']
    by (auto simp: restoreMember_def split: if_splits)
next
  case False
  obtain e s1 where e: "fs_exists p s = (e, s1)" by fastforce
  have s1: "fsFiles s1 = fsFiles s" "history s1 = history s" using fs_exists_files [of p s] by (simp_all add: e)
  have self: "fsFiles s \<in> history s" by (simp add: history_def)
  show ?thesis
  proof (cases "e = Some True")
    case True
    obtain r s2 where c: "fs_remove p s1 = (r, s2)" by fastforce
    have "r \<noteq> Some False" using c fs_existsD [OF e [unfolded True]] s1
      by (auto simp: fs_remove_def split: outcome.splits)
    then show ?thesis using assms fs_remove_files [OF c] s1 True False c
      by (auto simp: restoreMember_def e split: option.splits)
  next
    case no: False
    then show ?thesis using assms s1 self False fs_existsD [of p s "False" s1] e
      by (auto simp: restoreMember_def insert_absorb split: option.splits bool.splits)
  qed
qed

section \<open>The transaction\<close>

text \<open>Two members whose paths and backups are four different files; the old and the new contents.\<close>

definition separate :: "path \<Rightarrow> path \<Rightarrow> bool" where
  "separate bp mp \<longleftrightarrow> distinct [bp, mp, backupPath bp, backupPath mp]"

text \<open>Every member is, complete, what it was or what is published.\<close>

definition whole :: "path \<Rightarrow> path \<Rightarrow> contents \<Rightarrow> contents \<Rightarrow> (path \<rightharpoonup> contents) \<Rightarrow> (path \<rightharpoonup> contents) \<Rightarrow> bool" where
  "whole bp mp b m old h \<longleftrightarrow>
     (h bp = old bp \<or> h bp = Some b) \<and> (h mp = old mp \<or> h mp = Some m) \<and>
     (\<forall>q. q \<notin> {bp, mp, backupPath bp, backupPath mp} \<longrightarrow> h q = old q)"

text \<open>The staged state: members as before, backups as \<open>stageMember\<close> leaves them.\<close>

definition backed_up :: "path \<Rightarrow> bool \<Rightarrow> (path \<rightharpoonup> contents) \<Rightarrow> (path \<rightharpoonup> contents) \<Rightarrow> bool" where
  "backed_up p st old h \<longleftrightarrow> (if st then h (backupPath p) = old p else old p = None)"

definition trans_inv ::
  "path \<Rightarrow> path \<Rightarrow> contents \<Rightarrow> contents \<Rightarrow> (path \<rightharpoonup> contents) \<Rightarrow> file_system \<Rightarrow> bool" where
  "trans_inv bp mp b m old s \<longleftrightarrow> (\<forall>h \<in> history s. whole bp mp b m old h)"

lemma rollback_files:
  assumes sep: "separate bp mp" and inv: "trans_inv bp mp b m old s"
    and bk: "backed_up bp bst old (fsFiles s)" "backed_up mp mst old (fsFiles s)"
    and r: "rollback bp bst mp mst s = (ok, s')"
  shows "trans_inv bp mp b m old s' \<and> (ok \<longrightarrow> fsFiles s' bp = old bp \<and> fsFiles s' mp = old mp)"
proof -
  obtain o1 s1 where r1: "restoreMember bp bst s = (o1, s1)" by fastforce
  obtain o2 s2 where r2: "restoreMember mp mst s1 = (o2, s2)" by fastforce
  have e: "ok = (o1 \<and> o2)" "s' = s2" using r by (simp_all add: rollback_def r1 r2)
  note f1 = restore_files [OF r1] and f2 = restore_files [OF r2]
  note d = sep [unfolded separate_def, simplified]
  have w: "whole bp mp b m old (fsFiles s)" using inv by (simp add: trans_inv_def)
  have b1: "fsFiles s1 bp = (if o1 then old bp else fsFiles s bp)"
    using f1 bk(1) by (auto simp: backed_up_def)
  have m1: "fsFiles s1 mp = fsFiles s mp" "fsFiles s1 (backupPath mp) = fsFiles s (backupPath mp)"
    using f1 d by auto
  have w1: "whole bp mp b m old (fsFiles s1)"
    using w b1 m1 f1 d unfolding whole_def by (auto split: if_splits)
  have b2: "fsFiles s2 bp = fsFiles s1 bp" using f2 d by auto
  have m2: "fsFiles s2 mp = (if o2 then old mp else fsFiles s1 mp)"
    using f2 bk(2) m1 by (auto simp: backed_up_def)
  have w2: "whole bp mp b m old (fsFiles s2)"
    using w1 b2 m2 f2 d unfolding whole_def by (auto split: if_splits)
  have "history s2 = insert (fsFiles s2) (insert (fsFiles s1) (history s))" using f1 f2 by auto
  then show ?thesis using inv w1 w2 b1 b2 m2 by (auto simp: trans_inv_def e)
qed

lemma stage_step:
  assumes sep: "separate bp mp" and inv: "trans_inv bp mp b m old s" and p: "p = bp \<or> p = mp"
    and st: "stageMember p s = (ok, st, s')"
  shows "trans_inv bp mp b m old s' \<and> (\<forall>q. q \<noteq> backupPath p \<longrightarrow> fsFiles s' q = fsFiles s q) \<and>
    (ok \<and> fsFiles s p = old p \<longrightarrow> backed_up p st old (fsFiles s'))"
proof -
  note f = stage_files [OF st]
  note d = sep [unfolded separate_def, simplified]
  have w: "whole bp mp b m old (fsFiles s)" using inv by (simp add: trans_inv_def)
  have "whole bp mp b m old h" if h: "\<forall>q. q \<noteq> backupPath p \<longrightarrow> h q = fsFiles s q" for h
    using w h p d unfolding whole_def by auto
  then have "trans_inv bp mp b m old s'" using f inv by (auto simp: trans_inv_def)
  then show ?thesis using f by (auto simp: backed_up_def)
qed

lemma write_step:
  assumes sep: "separate bp mp" and inv: "trans_inv bp mp b m old s"
    and p: "p = bp \<and> c = b \<or> p = mp \<and> c = m" and w: "atomic_write p c s = (ok, s')"
  shows "trans_inv bp mp b m old s' \<and> (\<forall>q. q \<noteq> p \<longrightarrow> fsFiles s' q = fsFiles s q) \<and>
    (ok \<longrightarrow> fsFiles s' p = Some c)"
proof -
  note f = atomic_write_files [OF w]
  note d = sep [unfolded separate_def, simplified]
  have "whole bp mp b m old (fsFiles s)" using inv by (simp add: trans_inv_def)
  then have "whole bp mp b m old (fsFiles s')" using f p d unfolding whole_def by (auto split: if_splits)
  then show ?thesis using f inv by (auto simp: trans_inv_def split: if_splits)
qed

lemma discard_step:
  assumes sep: "separate bp mp" and inv: "trans_inv bp mp b m old s" and p: "p = bp \<or> p = mp"
  shows "trans_inv bp mp b m old (discardBackup p st s) \<and>
    (\<forall>q. q \<noteq> backupPath p \<longrightarrow> fsFiles (discardBackup p st s) q = fsFiles s q)"
proof (cases st)
  case True
  obtain r s' where r: "fs_remove (backupPath p) s = (r, s')" by fastforce
  note f = fs_remove_files [OF r] and d = sep [unfolded separate_def, simplified]
  have "whole bp mp b m old (fsFiles s)" using inv by (simp add: trans_inv_def)
  then have "whole bp mp b m old (fsFiles s')" using f p d unfolding whole_def by (auto split: if_splits)
  then show ?thesis using f inv True by (auto simp: trans_inv_def discardBackup_def r split: if_splits)
qed (use inv in \<open>simp add: discardBackup_def\<close>)

lemma publish_pair_aux:
  assumes sep: "separate bp mp" and start: "fsPast s = []"
    and run: "publish_pair setM present bp mp b m syn before s mk = (ok, restored, s', mk')"
  shows "trans_inv bp mp b m (fsFiles s) s' \<and>
    (ok \<longrightarrow> fsFiles s' bp = Some b \<and> fsFiles s' mp = Some m \<and> present mk' = syn) \<and>
    (\<not> ok \<and> restored \<longrightarrow> fsFiles s' bp = fsFiles s bp \<and> fsFiles s' mp = fsFiles s mp)"
proof -
  define old where "old = fsFiles s"
  note d = sep [unfolded separate_def, simplified]
  have d': "backupPath mp \<noteq> bp" "backupPath bp \<noteq> mp" "mp \<noteq> bp" using d by metis+
  have i0: "trans_inv bp mp b m old s" using start by (simp add: trans_inv_def history_def whole_def old_def)
  obtain ok1 bst s1 where s1: "stageMember bp s = (ok1, bst, s1)" by (metis prod_cases3)
  have i1: "trans_inv bp mp b m old s1" and f1: "\<And>q. q \<noteq> backupPath bp \<Longrightarrow> fsFiles s1 q = old q"
    and b1: "ok1 \<Longrightarrow> backed_up bp bst old (fsFiles s1)"
    using stage_step [OF sep i0 _ s1] by (auto simp: old_def)
  obtain ok2 mst s2 where s2: "stageMember mp s1 = (ok2, mst, s2)" by (metis prod_cases3)
  have i2: "trans_inv bp mp b m old s2" and f2: "\<And>q. q \<noteq> backupPath mp \<Longrightarrow> fsFiles s2 q = fsFiles s1 q"
    and b2: "ok2 \<Longrightarrow> backed_up mp mst old (fsFiles s2)"
    using stage_step [OF sep i1 _ s2] f1 d by auto
  have c2: "ok1 \<Longrightarrow> backed_up bp bst old (fsFiles s2)" using b1 f2 d by (simp add: backed_up_def)
  have o2: "fsFiles s2 bp = old bp" "fsFiles s2 mp = old mp" using f1 f2 d by auto
  obtain w1 s3 where s3: "atomic_write bp b s2 = (w1, s3)" by fastforce
  note W1 = write_step [OF sep i2 _ s3]
  have i3: "trans_inv bp mp b m old s3" and f3: "\<And>q. q \<noteq> bp \<Longrightarrow> fsFiles s3 q = fsFiles s2 q"
    and v3: "w1 \<Longrightarrow> fsFiles s3 bp = Some b" using W1 by auto
  obtain w2 s4 where s4: "atomic_write mp m s3 = (w2, s4)" by fastforce
  note W2 = write_step [OF sep i3 _ s4]
  have i4: "trans_inv bp mp b m old s4" and f4: "\<And>q. q \<noteq> mp \<Longrightarrow> fsFiles s4 q = fsFiles s3 q"
    and v4: "w2 \<Longrightarrow> fsFiles s4 mp = Some m" using W2 by auto
  have k3: "backed_up bp bst old (fsFiles s3)" "backed_up mp mst old (fsFiles s3)" if "ok1" "ok2"
    using c2 b2 that f3 [of "backupPath bp"] f3 [of "backupPath mp"] d d' by (simp_all add: backed_up_def)
  have k4: "backed_up bp bst old (fsFiles s4)" "backed_up mp mst old (fsFiles s4)" if "ok1" "ok2"
    using k3 that f4 [of "backupPath bp"] f4 [of "backupPath mp"] d d' by (simp_all add: backed_up_def)
  note roll3 = rollback_files [OF sep i3 k3] and roll4 = rollback_files [OF sep i4 k4]
  note steps = publish_pair_def s1 s2 s3 s4
  show ?thesis
  proof (cases "ok1 \<and> ok2 \<and> w1 \<and> w2")
    case True
    obtain okm mk1 where mk1: "setM syn mk = (okm, mk1)" by fastforce
    show ?thesis
    proof (cases "syntheticMarkerPublicationConsistent syn okm (present mk1)")
      case con: True
      let ?x = "discardBackup bp bst s4"
      have x: "trans_inv bp mp b m old ?x" "\<And>q. q \<noteq> backupPath bp \<Longrightarrow> fsFiles ?x q = fsFiles s4 q"
        using discard_step [OF sep i4] by auto
      have y: "trans_inv bp mp b m old (discardBackup mp mst ?x)"
        "\<And>q. q \<noteq> backupPath mp \<Longrightarrow> fsFiles (discardBackup mp mst ?x) q = fsFiles ?x q"
        using discard_step [OF sep x(1)] by auto
      have e: "ok" "s' = discardBackup mp mst ?x" "mk' = mk1" using run True con by (simp_all add: steps mk1)
      have "present mk1 = syn"
        using con by (simp add: syntheticMarkerPublicationConsistent_def syntheticMarkerConsistent_def)
      then show ?thesis using e x y v3 v4 f4 True d by (simp add: old_def [symmetric])
    next
      case con: False
      obtain z mk2 where mk2: "setM before mk1 = (z, mk2)" by fastforce
      obtain r s5 where r: "rollback bp bst mp mst s4 = (r, s5)" by fastforce
      have "\<not> ok" "restored = r" "s' = s5" using run True con by (simp_all add: steps mk1 mk2 r)
      then show ?thesis using roll4 [OF _ _ _ _ r] True by (simp add: old_def)
    qed
  next
    case False
    then consider "\<not> ok1" | "ok1" "\<not> ok2" | "ok1" "ok2" "\<not> w1" | "ok1" "ok2" "w1" "\<not> w2" by blast
    then show ?thesis
    proof cases
      case 1
      then have "\<not> ok" "s' = s1" using run by (simp_all add: steps)
      then show ?thesis using i1 f1 d by (simp add: old_def)
    next
      case 2
      obtain r s3' where r: "restoreMember bp bst s2 = (r, s3')" by fastforce
      have e: "\<not> ok" "restored = r" "s' = s3'" using run 2 by (simp_all add: steps r)
      note f = restore_files [OF r]
      have v: "fsFiles s3' bp = old bp" using f c2 2 o2 by (auto simp: backed_up_def split: if_splits)
      have w: "fsFiles s3' mp = old mp" using f o2 d by auto
      have "whole bp mp b m old (fsFiles s2)" using i2 by (simp add: trans_inv_def)
      then have "whole bp mp b m old (fsFiles s3')" using v w f unfolding whole_def by auto
      then have "trans_inv bp mp b m old s3'" using f i2 by (auto simp: trans_inv_def)
      then show ?thesis using e v w by (simp add: old_def)
    next
      case 3
      obtain r s4' where r: "rollback bp bst mp mst s3 = (r, s4')" by fastforce
      have "\<not> ok" "restored = r" "s' = s4'" using run 3 by (simp_all add: steps r)
      then show ?thesis using roll3 [OF _ _ _ _ r] 3 by (simp add: old_def)
    next
      case 4
      obtain r s5 where r: "rollback bp bst mp mst s4 = (r, s5)" by fastforce
      have "\<not> ok" "restored = r" "s' = s5" using run 4 by (simp_all add: steps r)
      then show ?thesis using roll4 [OF _ _ _ _ r] 4 by (simp add: old_def)
    qed
  qed
qed

section \<open>Properties\<close>

text \<open>publication is all or nothing whatever calls fail: success leaves both new members and the
  marker in the published state, and a failure whose error does not report an unrestored member
  leaves both members exactly as they were.\<close>

theorem publish_all_or_nothing:
  assumes "separate bp mp" "fsPast s = []"
    and "publish_pair setM present bp mp b m syn before s mk = (ok, restored, s', mk')"
  shows "if ok then fsFiles s' bp = Some b \<and> fsFiles s' mp = Some m \<and> present mk' = syn
    else fsFiles s' bp = fsFiles s bp \<and> fsFiles s' mp = fsFiles s mp \<or> \<not> restored"
  using publish_pair_aux [OF assms] by auto

text \<open>in every map the file system goes through, and so in what a process that dies at any point
  leaves, each member is complete: its old content or the published one, never missing or torn, and
  no file but the members and their backups is touched.\<close>

theorem publish_crash_safe:
  assumes "separate bp mp" "fsPast s = []"
    and "publish_pair setM present bp mp b m syn before s mk = (ok, restored, s', mk')"
    and "h = fsFiles s' \<or> h \<in> set (fsPast s')"
  shows "(h bp = fsFiles s bp \<or> h bp = Some b) \<and> (h mp = fsFiles s mp \<or> h mp = Some m) \<and>
    (q \<notin> {bp, mp, backupPath bp, backupPath mp} \<longrightarrow> h q = fsFiles s q)"
  using publish_pair_aux [OF assms(1-3)] assms(4) unfolding trans_inv_def history_def whole_def by blast

section \<open>Witnesses\<close>

definition sample_fs :: "outcome list \<Rightarrow> file_system" where
  "sample_fs xs = \<lparr>fsFiles = [''b'' \<mapsto> [1], ''m'' \<mapsto> [2]], fsOutcomes = xs, fsPast = []\<rparr>"

definition set_flag :: "bool \<Rightarrow> bool \<Rightarrow> bool \<times> bool" where
  "set_flag d m = (True, d)"

lemma sample_separate: "separate ''b'' ''m''"
  by (simp add: separate_def backupPath_def)

lemma sample_success:
  "fst (publish_pair set_flag (\<lambda>m. m) ''b'' ''m'' [3] [4] True False (sample_fs []) False)"
  by code_simp

text \<open>The second write, the sixth call, fails.\<close>

lemma sample_failure:
  "fst (snd (publish_pair set_flag (\<lambda>m. m) ''b'' ''m'' [3] [4] True False
     (sample_fs [Works, Works, Works, Works, Works, Fails None]) False)) \<and>
   \<not> fst (publish_pair set_flag (\<lambda>m. m) ''b'' ''m'' [3] [4] True False
     (sample_fs [Works, Works, Works, Works, Works, Fails None]) False)"
  by code_simp

lemma publish_all_or_nothing_witness:
  "fsFiles (fst (snd (snd (publish_pair set_flag (\<lambda>m. m) ''b'' ''m'' [3] [4] True False
     (sample_fs [Works, Works, Works, Works, Works, Fails None]) False)))) ''b'' = Some [1]"
proof -
  let ?s = "sample_fs [Works, Works, Works, Works, Works, Fails None]"
  obtain ok restored s' mk' where r: "publish_pair set_flag (\<lambda>m. m) ''b'' ''m'' [3] [4] True False ?s False
      = (ok, restored, s', mk')" by (metis prod_cases4)
  have "fsPast ?s = []" by (simp add: sample_fs_def)
  note all = publish_all_or_nothing [OF sample_separate this r]
  have "restored \<and> \<not> ok" using sample_failure by (simp add: r)
  with all have "fsFiles s' ''b'' = fsFiles ?s ''b''" by simp
  also have "\<dots> = Some [1]" by (simp add: sample_fs_def)
  finally show ?thesis by (simp add: r)
qed

lemma publish_crash_safe_witness:
  "fsFiles (fst (snd (snd (publish_pair set_flag (\<lambda>m. m) ''b'' ''m'' [3] [4] True False (sample_fs []) False)))) ''c''
     = fsFiles (sample_fs []) ''c''"
proof -
  let ?s = "sample_fs []"
  obtain ok restored s' mk' where r: "publish_pair set_flag (\<lambda>m. m) ''b'' ''m'' [3] [4] True False ?s False
      = (ok, restored, s', mk')" by (metis prod_cases4)
  have "fsPast ?s = []" by (simp add: sample_fs_def)
  from publish_crash_safe [OF sample_separate this r, of "fsFiles s'" "''c''"]
  show ?thesis by (simp add: r backupPath_def)
qed

end
