(* ===== verification/CodeScan.thy ===== *)
theory CodeScan
  imports ByteCodec CppText
begin

unbundle bit_operations_syntax

text \<open>
  Finding things in Steam's machine code: the dispatch tails of the IPC frames
  (\<open>src/feats/ipcframe.hpp\<close>), the field offsets of an app's data (\<open>src/feats/appdata_layout.hpp\<close>),
  and the call and vector offsets of the reconcile function (\<open>src/feats/reconcilepin.hpp\<close>). Code is a
  list of bytes; offsets are positions in it.
\<close>

section \<open>Dispatch tails\<close>

text \<open>\<open>scanWhenCatalogIncomplete\<close>: whether the scan is run.\<close>

definition scanWhenCatalogIncomplete :: "bool list \<Rightarrow> bool" where
  "scanWhenCatalogIncomplete catalogResolved = list_ex (\<lambda>r. \<not> r) catalogResolved"

record cand =
  candOffset :: nat
  candRoot :: u32
  candAvailable :: nat

definition kRootByteOffset :: nat where "kRootByteOffset = 15"
definition kMatchSpan :: nat where "kMatchSpan = 19"

text \<open>\<open>None\<close> is the wildcard.\<close>

definition tail_mask :: "u8 option list" where
  "tail_mask = [Some 0xE8, None, None, None, None, Some 0x8B, Some 0x85, None, None, None, None,
     Some 0x83, Some 0xC4, Some 0x10, Some 0x3D]"

fun mask_loop :: "u8 option list \<Rightarrow> bytes \<Rightarrow> bool" where
  "mask_loop [] code = True"
| "mask_loop (m # ms) code =
     (case m of None \<Rightarrow> mask_loop ms (tl code)
      | Some b \<Rightarrow> if hd code \<noteq> b then False else mask_loop ms (tl code))"

text \<open>The position of the next call opcode from \<open>i\<close> on, in the first \<open>n\<close> bytes.\<close>

fun memchr_from :: "bytes \<Rightarrow> nat \<Rightarrow> nat \<Rightarrow> nat option" where
  "memchr_from code i 0 = None"
| "memchr_from code i (Suc n) = (if code ! i = 0xE8 then Some i else memchr_from code (Suc i) n)"

definition tail_matches :: "bytes \<Rightarrow> nat \<Rightarrow> bool" where
  "tail_matches code i = mask_loop (tl tail_mask) (drop (Suc i) code)"

lemma memchr_from_bounds: "memchr_from code i n = Some h \<Longrightarrow> i \<le> h \<and> h < i + n \<and> code ! h = 0xE8"
  by (induction code i n rule: memchr_from.induct) (auto split: if_splits)

function scan_loop :: "bytes \<Rightarrow> nat \<Rightarrow> nat \<Rightarrow> cand list \<Rightarrow> cand list" where
  "scan_loop code last_start i out =
     (if i \<le> last_start then
        (case memchr_from code i (last_start - i + 1) of
           None \<Rightarrow> out
         | Some h \<Rightarrow>
             scan_loop code last_start (Suc h)
               (if tail_matches code h
                then out @ [\<lparr>candOffset = h, candRoot = rd32 code (h + kRootByteOffset),
                             candAvailable = length code - h\<rparr>]
                else out))
      else out)"
  by pat_completeness auto
termination
  by (relation "measure (\<lambda>(code, l, i, out). Suc l - i)") (auto dest: memchr_from_bounds simp del: memchr_from.simps)

declare scan_loop.simps [simp del]

definition scan :: "bytes \<Rightarrow> cand list" where
  "scan code = (if length code < kMatchSpan then [] else scan_loop code (length code - kMatchSpan) 0 [])"

definition kMaxRootDrift :: u32 where "kMaxRootDrift = 0x10000"

definition root_distance :: "u32 \<Rightarrow> u32 \<Rightarrow> nat" where
  "root_distance r seedRoot = (if r > seedRoot then unat r - unat seedRoot else unat seedRoot - unat r)"

fun confident_loop :: "cand list \<Rightarrow> nat \<Rightarrow> u32 \<Rightarrow> u32 \<Rightarrow> nat \<Rightarrow> nat \<Rightarrow> nat \<times> nat" where
  "confident_loop [] i seedRoot maxDrift hit inBand = (hit, inBand)"
| "confident_loop (c # cs) i seedRoot maxDrift hit inBand =
     (if root_distance (candRoot c) seedRoot \<le> unat maxDrift
      then confident_loop cs (Suc i) seedRoot maxDrift i (Suc inBand)
      else confident_loop cs (Suc i) seedRoot maxDrift hit inBand)"

text \<open>\<open>None\<close> is \<open>SIZE_MAX\<close>.\<close>

definition resolveConfident :: "cand list \<Rightarrow> u32 \<Rightarrow> u32 \<Rightarrow> nat option" where
  "resolveConfident cands seedRoot maxDrift =
     (let (hit, inBand) = confident_loop cands 0 seedRoot maxDrift 0 0
      in if inBand = 1 then Some hit else None)"

text \<open>The inner loop over positions and the outer over pivots.\<close>

function pivot_at :: "bytes \<Rightarrow> nat \<Rightarrow> nat \<Rightarrow> u32 \<Rightarrow> bool" where
  "pivot_at code end_pos i pivot =
     (if i + 5 \<le> end_pos then
        (if code ! i = 0x3D \<and> drop_bit 8 (rd32 code (i + 1)) = pivot then True
         else pivot_at code end_pos (Suc i) pivot)
      else False)"
  by pat_completeness auto
termination by (relation "measure (\<lambda>(code, e, i, p). Suc e - i)") auto

declare pivot_at.simps [simp del]

definition countHighPivots :: "bytes \<Rightarrow> u32 list \<Rightarrow> nat \<Rightarrow> nat" where
  "countHighPivots code pivots scanSpan =
     (if pivots = [] then 0
      else
        (let end_pos = (if length code < scanSpan then length code else scanSpan)
         in if end_pos < 5 then 0 else length (filter (pivot_at code end_pos 0) pivots)))"

section \<open>Roots in pattern strings\<close>

definition is_hex :: "char \<Rightarrow> bool" where
  "is_hex c \<longleftrightarrow> is_digit c \<or> (65 \<le> char_code c \<and> char_code c \<le> 70) \<or> (97 \<le> char_code c \<and> char_code c \<le> 102)"

definition hex_val :: "char \<Rightarrow> nat" where
  "hex_val c = (if is_digit c then char_code c - 48
     else if char_code c \<le> 70 then char_code c - 55 else char_code c - 87)"

text \<open>\<open>strtoul(token, nullptr, 16)\<close> of a token without white space, on a 32-bit \<open>unsigned long\<close>: an
  optional sign, an optional prefix, the longest run of digits, and the largest value on overflow.\<close>

definition strtoul16 :: "string \<Rightarrow> nat" where
  "strtoul16 tok =
     (let neg = (tok \<noteq> [] \<and> hd tok = CHR ''-'');
          t = (if tok \<noteq> [] \<and> (hd tok = CHR ''-'' \<or> hd tok = CHR ''+'') then tl tok else tok);
          u = (if length t > 2 \<and> t ! 0 = CHR ''0'' \<and> (t ! 1 = CHR ''x'' \<or> t ! 1 = CHR ''X'') \<and> is_hex (t ! 2)
               then drop 2 t else t);
          v = foldl (\<lambda>n c. 16 * n + hex_val c) 0 (takeWhile is_hex u)
      in if v \<ge> 2 ^ 32 then 2 ^ 32 - 1 else if neg \<and> v \<noteq> 0 then 2 ^ 32 - v else v)"

definition is_blank :: "char \<Rightarrow> bool" where
  "is_blank c \<longleftrightarrow> c = CHR 0x20"

text \<open>The last token of a string, its start and what is before the blank in front of it; \<open>None\<close> when
  only blanks are left.\<close>

definition last_token :: "string \<Rightarrow> (string \<times> nat \<times> string) option" where
  "last_token s =
     (let t = dropWhile is_blank (rev s) in
      if t = [] then None
      else
        (let tok = rev (takeWhile (\<lambda>c. \<not> is_blank c) t); start = length t - length tok
         in Some (tok, start, take (start - 1) s)))"

text \<open>The bytes collected, last token first.\<close>

fun trailing_bytes :: "nat \<Rightarrow> string \<Rightarrow> u8 list" where
  "trailing_bytes 0 s = []"
| "trailing_bytes (Suc n) s =
     (if s = [] then []
      else (case last_token s of
              None \<Rightarrow> []
            | Some (tok, start, before) \<Rightarrow>
                of_nat (strtoul16 tok) # (if start = 0 then [] else trailing_bytes n before)))"

definition parseTrailingRoot :: "string \<Rightarrow> u32" where
  "parseTrailingRoot pattern =
     (let b = trailing_bytes 4 pattern
      in if length b < 4 then 0
         else ucast (b ! 3) OR push_bit 8 (ucast (b ! 2)) OR push_bit 16 (ucast (b ! 1)) OR
              push_bit 24 (ucast (b ! 0)))"

text \<open>Where the fourth token from the end starts, or the first one when there are fewer.\<close>

fun trailing_cut :: "nat \<Rightarrow> string \<Rightarrow> nat option \<Rightarrow> nat option" where
  "trailing_cut 0 s at_pos = at_pos"
| "trailing_cut (Suc n) s at_pos =
     (if s = [] then at_pos
      else (case last_token s of
              None \<Rightarrow> at_pos
            | Some (tok, start, before) \<Rightarrow>
                if start = 0 then Some 0 else trailing_cut n before (Some start)))"

definition hex_digit :: "nat \<Rightarrow> char" where
  "hex_digit d = char_of (if d < 10 then 48 + d else 55 + d)"

definition hex2 :: "u8 \<Rightarrow> string" where
  "hex2 b = [hex_digit (unat b div 16), hex_digit (unat b mod 16)]"

definition root_text :: "u32 \<Rightarrow> string" where
  "root_text root = hex2 (ucast root) @ [CHR 0x20] @ hex2 (ucast (drop_bit 8 root)) @ [CHR 0x20] @
     hex2 (ucast (drop_bit 16 root)) @ [CHR 0x20] @ hex2 (ucast (drop_bit 24 root))"

definition setTrailingRoot :: "string \<Rightarrow> u32 \<Rightarrow> string" where
  "setTrailingRoot pattern root =
     (case trailing_cut 4 pattern None of None \<Rightarrow> pattern | Some at_pos \<Rightarrow> take at_pos pattern @ root_text root)"

section \<open>Field offsets of an app's data\<close>

record layout =
  skipOffset :: u32
  shaOffset :: u32

definition kShaBytes :: nat where "kShaBytes = 20"
definition kMaximumFieldEnd :: nat where "kMaximumFieldEnd = 0x1000"

definition readDisplacement :: "bytes \<Rightarrow> nat \<Rightarrow> nat \<Rightarrow> int option" where
  "readDisplacement ins offs width =
     (if offs > length ins \<or> width > length ins - offs then None
      else if width = 1 then
        (let raw = ins ! offs in Some (if raw < 0x80 then uint raw else uint raw - 0x100))
      else if width \<noteq> 4 then None
      else
        (let raw = rd32 ins offs
         in Some (if raw AND 0x80000000 \<noteq> 0 then uint raw - 0x100000000 else uint raw)))"

definition directDisplacement :: "bytes \<Rightarrow> u8 \<Rightarrow> u8 option \<Rightarrow> bool \<Rightarrow> int option" where
  "directDisplacement ins opcode requiredReg requiresZeroImmediate =
     (if length ins < 2 \<or> ins ! 0 \<noteq> opcode then None
      else
        (let modrm = ins ! 1; md = drop_bit 6 modrm; reg = drop_bit 3 modrm AND 7; rm = modrm AND 7 in
         if (md \<noteq> 1 \<and> md \<noteq> 2) \<or> rm = 4 \<or> (case requiredReg of None \<Rightarrow> False | Some q \<Rightarrow> reg \<noteq> q)
         then None
         else
           (let width = (if md = 1 then 1 else 4) in
            case readDisplacement ins 2 width of
              None \<Rightarrow> None
            | Some disp \<Rightarrow>
                if requiresZeroImmediate \<and> (2 + width \<ge> length ins \<or> ins ! (2 + width) \<noteq> 0)
                then None else Some disp)))"

definition inBounds :: "int \<Rightarrow> nat \<Rightarrow> bool" where
  "inBounds offs width =
     (if offs < 0 \<or> width > kMaximumFieldEnd then False
      else nat offs < kMaximumFieldEnd \<and> nat offs \<le> kMaximumFieldEnd - width)"

definition overlaps :: "int \<Rightarrow> nat \<Rightarrow> int \<Rightarrow> nat \<Rightarrow> bool" where
  "overlaps firstOffset firstWidth secondOffset secondWidth =
     (if \<not> inBounds firstOffset firstWidth \<or> \<not> inBounds secondOffset secondWidth then True
      else nat firstOffset < nat secondOffset + secondWidth \<and> nat secondOffset < nat firstOffset + firstWidth)"

definition derive_layout :: "bytes \<Rightarrow> bytes \<Rightarrow> layout option" where
  "derive_layout skipInstruction shaInstruction =
     (case (directDisplacement skipInstruction 0x80 (Some 7) True,
            directDisplacement shaInstruction 0x8D None False) of
        (Some skip, Some sha) \<Rightarrow>
          if \<not> inBounds skip 1 \<or> \<not> inBounds sha kShaBytes \<or> overlaps skip 1 sha kShaBytes then None
          else Some \<lparr>skipOffset = of_int skip, shaOffset = of_int sha\<rparr>
      | _ \<Rightarrow> None)"

section \<open>The reconcile function\<close>

definition call_target_ok :: "bytes \<Rightarrow> u32 \<Rightarrow> (u32 \<Rightarrow> bool) \<Rightarrow> nat \<Rightarrow> bool" where
  "call_target_ok code codeAddr targetExecutable off =
     (if off + 8 > length code then False
      else if code ! off \<noteq> 0xE8 then False
      else if code ! (off + 5) \<noteq> 0x83 \<or> code ! (off + 6) \<noteq> 0xC4 \<or> code ! (off + 7) \<noteq> 0x20 then False
      else targetExecutable (codeAddr + of_nat off + 5 + rd32 code (off + 1)))"

text \<open>The window loop; the outer \<open>None\<close> is the early return of the ambiguous case.\<close>

fun window_loop :: "nat list \<Rightarrow> nat \<Rightarrow> (nat \<Rightarrow> bool) \<Rightarrow> nat option \<Rightarrow> nat option" where
  "window_loop [] expectedOff ok found = found"
| "window_loop (off # offs) expectedOff ok found =
     (if off = expectedOff then window_loop offs expectedOff ok found
      else if \<not> ok off then window_loop offs expectedOff ok found
      else if found \<noteq> None then None
      else window_loop offs expectedOff ok (Some off))"

definition findBuilderCallRel32 :: "bytes \<Rightarrow> u32 \<Rightarrow> nat \<Rightarrow> nat \<Rightarrow> (u32 \<Rightarrow> bool) \<Rightarrow> nat option" where
  "findBuilderCallRel32 code codeAddr expectedOff window targetExecutable =
     (let ok = call_target_ok code codeAddr targetExecutable in
      if ok expectedOff then Some expectedOff
      else
        (let lo = (if expectedOff > window then expectedOff - window else 0); hi = expectedOff + window
         in window_loop [lo ..< Suc hi] expectedOff ok None))"

definition kMaxCtxDepotVectorOff :: u32 where "kMaxCtxDepotVectorOff = 0x1000"

definition ctx_head :: bytes where
  "ctx_head = [0x8B, 0x7D, 0x08, 0x89, 0xF0, 0xC1, 0xE0, 0x05, 0x03]"

text \<open>The displacement the load at an offset encodes, if it is one.\<close>

definition ctx_disp :: "bytes \<Rightarrow> nat \<Rightarrow> u32 option" where
  "ctx_disp code off =
     (if take (length ctx_head) (drop off code) \<noteq> ctx_head then None
      else
        (let modrm = off + length ctx_head in
         if code ! modrm = 0x47 then Some (ucast (code ! (modrm + 1)))
         else if code ! modrm = 0x87 \<and> modrm + 5 \<le> length code then Some (rd32 code (modrm + 1))
         else None))"

function ctx_loop :: "bytes \<Rightarrow> nat \<Rightarrow> u32 option \<Rightarrow> u32 option" where
  "ctx_loop code off found =
     (if off + length ctx_head + 2 \<le> length code then
        (case ctx_disp code off of
           None \<Rightarrow> ctx_loop code (Suc off) found
         | Some disp \<Rightarrow>
             if found \<noteq> None then None
             else if disp = 0 \<or> disp mod 4 \<noteq> 0 \<or> disp > kMaxCtxDepotVectorOff then None
             else ctx_loop code (Suc off) (Some disp))
      else found)"
  by pat_completeness auto
termination by (relation "measure (\<lambda>(code, off, found). Suc (length code) - off)") auto

declare ctx_loop.simps [simp del]

definition findCtxDepotVectorOffset :: "bytes \<Rightarrow> u32 option" where
  "findCtxDepotVectorOffset code = ctx_loop code 0 None"

section \<open>Scanning finds exactly the tails\<close>

definition tail_shape :: "bytes \<Rightarrow> nat \<Rightarrow> bool" where
  "tail_shape code i \<longleftrightarrow> code ! i = 0xE8 \<and> code ! (i + 5) = 0x8B \<and> code ! (i + 6) = 0x85 \<and>
     code ! (i + 11) = 0x83 \<and> code ! (i + 12) = 0xC4 \<and> code ! (i + 13) = 0x10 \<and> code ! (i + 14) = 0x3D"

definition cand_at :: "bytes \<Rightarrow> nat \<Rightarrow> cand" where
  "cand_at code i = \<lparr>candOffset = i, candRoot = rd32 code (i + 15), candAvailable = length code - i\<rparr>"

lemma tail_matches_shape:
  assumes "i + 19 \<le> length code" "code ! i = 0xE8"
  shows "tail_matches code i \<longleftrightarrow> tail_shape code i"
proof -
  have step: "mask_loop (m # ms) (drop j code) \<longleftrightarrow>
      (case m of None \<Rightarrow> True | Some b \<Rightarrow> code ! j = b) \<and> mask_loop ms (drop (Suc j) code)"
    if "j < length code" for m ms j
    using that by (auto simp: hd_drop_conv_nth tl_drop drop_Suc split: option.split)
  show ?thesis
    using assms
    by (simp add: tail_matches_def tail_shape_def tail_mask_def step del: mask_loop.simps(2)) (simp add: numeral_eq_Suc)
qed

lemma memchr_from_skips: "memchr_from code i n = Some h \<Longrightarrow> i \<le> j \<Longrightarrow> j < h \<Longrightarrow> code ! j \<noteq> 0xE8"
proof (induction code i n rule: memchr_from.induct)
  case (2 code i n)
  then show ?case by (cases "j = i") (auto split: if_splits)
qed simp

lemma memchr_from_none: "memchr_from code i n = None \<Longrightarrow> i \<le> j \<Longrightarrow> j < i + n \<Longrightarrow> code ! j \<noteq> 0xE8"
proof (induction code i n rule: memchr_from.induct)
  case (2 code i n)
  then show ?case by (cases "j = i") (auto split: if_splits)
qed simp

lemma scan_loop_exact:
  "l + 19 = length code \<Longrightarrow>
     scan_loop code l i out = out @ map (cand_at code) (filter (tail_shape code) [i ..< Suc l])"
proof (induction code l i out rule: scan_loop.induct)
  case (1 code l i out)
  show ?case
  proof (cases "i \<le> l")
    case True
    show ?thesis
    proof (cases "memchr_from code i (l - i + 1)")
      case None
      then have "filter (tail_shape code) [i ..< Suc l] = []"
        using memchr_from_none [OF None] True by (auto simp: filter_empty_conv tail_shape_def)
      then show ?thesis using True None by (subst scan_loop.simps) simp
    next
      case (Some h)
      note b = memchr_from_bounds [OF Some]
      have h: "i \<le> h" "h < Suc l" "code ! h = 0xE8" using b True by auto
      have split: "[i ..< Suc l] = [i ..< h] @ h # [Suc h ..< Suc l]"
        using h upt_add_eq_append [of i h "Suc l - h"] by (simp add: upt_conv_Cons)
      have none: "filter (tail_shape code) [i ..< h] = []"
        using memchr_from_skips [OF Some] by (auto simp: filter_empty_conv tail_shape_def)
      let ?out = "if tail_matches code h then out @ [cand_at code h] else out"
      have "scan_loop code l i out = scan_loop code l (Suc h) ?out"
        using True Some by (subst scan_loop.simps) (simp add: cand_at_def kRootByteOffset_def)
      also have "\<dots> = ?out @ map (cand_at code) (filter (tail_shape code) [Suc h ..< Suc l])"
        using "1.IH" [OF True Some "1.prems"] unfolding kRootByteOffset_def cand_at_def [symmetric] .
      finally show ?thesis
        unfolding split using none tail_matches_shape [of h code] h "1.prems" by simp
    qed
  next
    case False
    then show ?thesis by (subst scan_loop.simps) simp
  qed
qed

section \<open>A confident root is the only one in its band\<close>

definition in_band :: "u32 \<Rightarrow> u32 \<Rightarrow> cand \<Rightarrow> bool" where
  "in_band seedRoot maxDrift c \<longleftrightarrow>
     unat (candRoot c) \<le> unat seedRoot + unat maxDrift \<and> unat seedRoot \<le> unat (candRoot c) + unat maxDrift"

lemma root_distance_band: "root_distance (candRoot c) s \<le> unat d \<longleftrightarrow> in_band s d c"
  by (auto simp: root_distance_def in_band_def word_less_nat_alt)

lemma confident_loop_count:
  "confident_loop cs i seedRoot d hit n = (hit', n') \<Longrightarrow>
     n' = n + length (filter (in_band seedRoot d) cs) \<and>
     (filter (in_band seedRoot d) cs = [] \<longrightarrow> hit' = hit) \<and>
     (length (filter (in_band seedRoot d) cs) = 1 \<longrightarrow> i \<le> hit' \<and>
        {j. j < length cs \<and> in_band seedRoot d (cs ! j)} = {hit' - i})"
proof (induction cs i seedRoot d hit n rule: confident_loop.induct)
  case (2 c cs i seedRoot d hit n)
  have band: "root_distance (candRoot c) seedRoot \<le> unat d \<longleftrightarrow> in_band seedRoot d c"
    by (rule root_distance_band)
  have idx: "{j. j < length (c # cs) \<and> in_band seedRoot d ((c # cs) ! j)} =
      (if in_band seedRoot d c then {0} else {}) \<union> Suc ` {j. j < length cs \<and> in_band seedRoot d (cs ! j)}"
    by (auto simp: less_Suc_eq_0_disj)
  show ?case
  proof (cases "in_band seedRoot d c")
    case True
    then have run: "confident_loop cs (Suc i) seedRoot d i (Suc n) = (hit', n')" using 2(3) band by simp
    have ih: "n' = Suc n + length (filter (in_band seedRoot d) cs)"
      "filter (in_band seedRoot d) cs = [] \<Longrightarrow> hit' = i"
      using 2(1) [OF _ run] band True by simp_all
    show ?thesis
    proof (cases "filter (in_band seedRoot d) cs = []")
      case none: True
      then have "{j. j < length cs \<and> in_band seedRoot d (cs ! j)} = {}" by (auto simp: filter_empty_conv)
      then show ?thesis using ih none True unfolding idx by (simp del: Collect_empty_eq)
    next
      case some: False
      then show ?thesis using ih True by simp
    qed
  next
    case False
    then have run: "confident_loop cs (Suc i) seedRoot d hit n = (hit', n')" using 2(3) band by simp
    have ih: "n' = n + length (filter (in_band seedRoot d) cs)"
      "filter (in_band seedRoot d) cs = [] \<Longrightarrow> hit' = hit"
      "length (filter (in_band seedRoot d) cs) = 1 \<Longrightarrow> Suc i \<le> hit' \<and>
        {j. j < length cs \<and> in_band seedRoot d (cs ! j)} = {hit' - Suc i}"
      using 2(2) [OF _ run] band False by simp_all
    show ?thesis
    proof (cases "length (filter (in_band seedRoot d) cs) = 1")
      case True
      then have h: "Suc i \<le> hit'" "{j. j < length cs \<and> in_band seedRoot d (cs ! j)} = {hit' - Suc i}"
        using ih(3) by auto
      then show ?thesis using ih(1,2) True False unfolding idx h(2) by (simp add: Suc_diff_Suc)
    next
      case other: False
      then show ?thesis using ih(1,2) False by simp
    qed
  qed
qed simp

section \<open>The reconcile function is found unambiguously\<close>

lemma window_loop_Some:
  "window_loop offs e ok (Some f) = Some k \<longleftrightarrow> k = f \<and> filter (\<lambda>x. x \<noteq> e \<and> ok x) offs = []"
  by (induction offs) auto

lemma window_loop_None:
  "window_loop offs e ok None = Some k \<longleftrightarrow> filter (\<lambda>x. x \<noteq> e \<and> ok x) offs = [k]"
  by (induction offs) (auto simp: window_loop_Some)

lemma filter_upt_singleton: "filter P [a ..< b] = [k] \<longleftrightarrow> {x. a \<le> x \<and> x < b \<and> P x} = {k}"
proof
  assume "filter P [a ..< b] = [k]"
  then have "set (filter P [a ..< b]) = {k}" by simp
  then show "{x. a \<le> x \<and> x < b \<and> P x} = {k}" by auto
next
  assume s: "{x. a \<le> x \<and> x < b \<and> P x} = {k}"
  have "set (filter P [a ..< b]) = {x. a \<le> x \<and> x < b \<and> P x}" by auto
  then have "set (filter P [a ..< b]) = {k}" using s by simp
  moreover have "distinct (filter P [a ..< b])" by simp
  ultimately show "filter P [a ..< b] = [k]"
  proof (cases "filter P [a ..< b]")
    case (Cons x xs)
    assume sd: "set (filter P [a ..< b]) = {k}" "distinct (filter P [a ..< b])"
    then have "x = k" "xs = []" unfolding Cons by (cases xs; auto)+
    then show ?thesis using Cons by simp
  qed simp
qed

definition ctx_offsets :: "bytes \<Rightarrow> nat \<Rightarrow> nat set" where
  "ctx_offsets code off = {i. off \<le> i \<and> i + 11 \<le> length code \<and> ctx_disp code i \<noteq> None}"

definition plausible :: "u32 \<Rightarrow> bool" where
  "plausible d \<longleftrightarrow> d \<noteq> 0 \<and> d mod 4 = 0 \<and> d \<le> kMaxCtxDepotVectorOff"

lemma ctx_offsets_step:
  "off + 11 \<le> length code \<Longrightarrow>
     ctx_offsets code off = (if ctx_disp code off \<noteq> None then {off} else {}) \<union> ctx_offsets code (Suc off)"
proof (rule set_eqI)
  fix i
  assume "off + 11 \<le> length code"
  moreover have "off \<le> i \<longleftrightarrow> i = off \<or> Suc off \<le> i" by auto
  ultimately show "i \<in> ctx_offsets code off \<longleftrightarrow>
      i \<in> (if ctx_disp code off \<noteq> None then {off} else {}) \<union> ctx_offsets code (Suc off)"
    by (auto simp: ctx_offsets_def)
qed

lemma ctx_loop_exact:
  "ctx_loop code off found = Some d \<longleftrightarrow>
     (case found of
        Some f \<Rightarrow> d = f \<and> ctx_offsets code off = {}
      | None \<Rightarrow> (\<exists>k. ctx_offsets code off = {k} \<and> ctx_disp code k = Some d \<and> plausible d))"
proof (induction code off found rule: ctx_loop.induct)
  case (1 code off found)
  have l: "length ctx_head + 2 = 11" by (simp add: ctx_head_def)
  show ?case
  proof (cases "off + 11 \<le> length code")
    case True
    then have c: "off + length ctx_head + 2 \<le> length code" using l by simp
    note step = ctx_offsets_step [OF True]
    show ?thesis
    proof (cases "ctx_disp code off")
      case None
      then have "ctx_loop code off found = ctx_loop code (Suc off) found"
        using c by (subst ctx_loop.simps) simp
      moreover have "ctx_offsets code off = ctx_offsets code (Suc off)" using step None by simp
      ultimately show ?thesis using "1.IH"(1) [OF c None] by (simp only:)
    next
      case (Some e)
      have fresh: "off \<notin> ctx_offsets code (Suc off)" by (simp add: ctx_offsets_def)
      show ?thesis
      proof (cases found)
        case found: (Some f)
        then have "ctx_loop code off found = None" using c Some by (subst ctx_loop.simps) simp
        then show ?thesis using step Some found by simp
      next
        case none: None
        show ?thesis
        proof (cases "plausible e")
          case True
          then have e: "e \<noteq> 0" "e mod 4 = 0" "\<not> e > kMaxCtxDepotVectorOff" by (simp_all add: plausible_def not_less)
          have run: "ctx_loop code off found = ctx_loop code (Suc off) (Some e)"
            using c Some none e by (subst ctx_loop.simps) simp
          have "ctx_loop code (Suc off) (Some e) = Some d \<longleftrightarrow> d = e \<and> ctx_offsets code (Suc off) = {}"
            using "1.IH"(2) [OF c Some] none e by simp
          then show ?thesis using run step Some none True fresh by auto
        next
          case False
          then have e: "e = 0 \<or> e mod 4 \<noteq> 0 \<or> e > kMaxCtxDepotVectorOff" by (auto simp: plausible_def not_le)
          have "ctx_loop code off found = None"
            using c Some none e by (subst ctx_loop.simps) simp
          then show ?thesis using step Some none False by auto
        qed
      qed
    qed
  next
    case False
    then have "ctx_loop code off found = found" using l by (subst ctx_loop.simps) simp
    moreover have "ctx_offsets code off = {}" using False by (auto simp: ctx_offsets_def)
    ultimately show ?thesis by (auto split: option.split)
  qed
qed

section \<open>Writing a root into a pattern\<close>

lemma last_token_split:
  assumes "last_token s = Some (tok, start, before)"
  shows "\<exists>q bl. s = q @ tok @ bl \<and> length q = start \<and> (q = [] \<or> is_blank (last q)) \<and>
    before = take (start - 1) s"
proof -
  let ?t = "dropWhile is_blank (rev s)"
  let ?u = "takeWhile (\<lambda>c. \<not> is_blank c) ?t" and ?v = "dropWhile (\<lambda>c. \<not> is_blank c) ?t"
  have r: "tok = rev ?u" "start = length ?t - length ?u" "before = take (start - 1) s"
    using assms by (auto simp: last_token_def Let_def split: if_splits)
  have "rev s = takeWhile is_blank (rev s) @ ?u @ ?v" by simp
  then have "s = rev ?v @ tok @ rev (takeWhile is_blank (rev s))"
    unfolding r by (metis append.assoc rev_append rev_rev_ident)
  moreover have "length (rev ?v) = start"
    unfolding r using arg_cong [OF takeWhile_dropWhile_id [of "\<lambda>c. \<not> is_blank c" ?t], of length]
    by (simp del: takeWhile_dropWhile_id)
  moreover have "rev ?v = [] \<or> is_blank (last (rev ?v))"
    using hd_dropWhile [of "\<lambda>c. \<not> is_blank c" ?t] by (auto simp: last_rev)
  ultimately show ?thesis using r(3) by blast
qed

lemma last_token_append:
  assumes "x \<noteq> []" "\<forall>c \<in> set x. \<not> is_blank c" "q = [] \<or> is_blank (last q)"
  shows "last_token (q @ x) = Some (x, length q, take (length q - 1) q)"
proof -
  obtain y c where y: "x = y @ [c]" using assms(1) by (cases x rule: rev_cases) auto
  have "dropWhile is_blank (rev (q @ x)) = rev x @ rev q" using assms(2) by (simp add: y)
  moreover have "takeWhile (\<lambda>c. \<not> is_blank c) (rev x @ rev q) = rev x"
    using assms(2,3) by (cases q rule: rev_cases) (auto simp: takeWhile_append)
  ultimately show ?thesis using assms(1) by (simp add: last_token_def Let_def)
qed

definition cut_ok :: "string \<Rightarrow> nat \<Rightarrow> bool" where
  "cut_ok p c \<longleftrightarrow> c \<le> length p \<and> (take c p = [] \<or> is_blank (last (take c p)))"

lemma trailing_cut_ok:
  "s = take m p \<Longrightarrow> (\<And>c. acc = Some c \<Longrightarrow> cut_ok p c) \<Longrightarrow> trailing_cut n s acc = Some c \<Longrightarrow> cut_ok p c"
proof (induction n s acc arbitrary: m rule: trailing_cut.induct)
  case (2 n s acc)
  show ?case
  proof (cases "s = [] \<or> last_token s = None")
    case True
    then show ?thesis using 2(3,4) by (auto split: if_splits)
  next
    case False
    then obtain tok start before where l: "last_token s = Some (tok, start, before)" by auto
    obtain q bl where q: "s = q @ tok @ bl" "length q = start" "q = [] \<or> is_blank (last q)"
      "before = take (start - 1) s" using last_token_split [OF l] by blast
    have "take start p = q" "start \<le> length p"
    proof -
      have "start \<le> length s" using q by simp
      then have "start \<le> m" "start \<le> length p" using 2(2) by simp_all
      then have "take start s = take start p" using 2(2) by (simp add: min_absorb1)
      then show "take start p = q" "start \<le> length p" using q \<open>start \<le> length p\<close> by auto
    qed
    then have ok: "cut_ok p start" using q(3) by (simp add: cut_ok_def)
    show ?thesis
    proof (cases "start = 0")
      case True
      then show ?thesis using 2(4) False l ok by simp
    next
      case pos: False
      have b: "before = take (min (start - 1) m) p" using q(4) 2(2) by (simp add: min.commute)
      have run: "trailing_cut n before (Some start) = Some c" using 2(4) False l pos by simp
      show ?thesis
        by (rule 2(1) [OF _ l refl refl pos b _ run]) (use False ok in auto)
    qed
  qed
qed simp

lemma trailing_cut_some: "trailing_cut n s (Some c) \<noteq> None"
  by (induction n s "Some c" arbitrary: c rule: trailing_cut.induct)
    (auto split: option.split)

lemma hex_digit_facts:
  "d < 16 \<Longrightarrow> is_hex (hex_digit d) \<and> hex_val (hex_digit d) = d \<and> \<not> is_blank (hex_digit d) \<and>
     hex_digit d \<noteq> CHR ''-'' \<and> hex_digit d \<noteq> CHR ''+''"
proof -
  assume d: "d < 16"
  have c: "char_code (hex_digit d) = (if d < 10 then 48 + d else 55 + d)"
    using d by (simp add: hex_digit_def char_code_def)
  have n: "char_code (CHR 0x20) = 32" "char_code (CHR ''-'') = 45" "char_code (CHR ''+'') = 43"
    by (simp_all add: char_code_def)
  have "hex_digit d \<noteq> CHR 0x20" "hex_digit d \<noteq> CHR ''-''" "hex_digit d \<noteq> CHR ''+''"
    using c n d by (auto split: if_splits)
  then show ?thesis using d c by (auto simp: is_hex_def is_digit_def hex_val_def is_blank_def)
qed

lemma strtoul16_hex2: "strtoul16 (hex2 b) = unat b"
proof -
  have b: "unat b < 256" by (rule unat_byte_less)
  then have d: "unat b div 16 < 16" "unat b mod 16 < 16" by auto
  note h = hex_digit_facts [OF d(1)] hex_digit_facts [OF d(2)]
  have "foldl (\<lambda>n c. 16 * n + hex_val c) 0 (takeWhile is_hex (hex2 b)) = unat b"
    using h by (simp add: hex2_def)
  then show ?thesis using h b by (simp add: strtoul16_def hex2_def Let_def)
qed

lemma hex2_token: "hex2 b \<noteq> []" "\<forall>c \<in> set (hex2 b). \<not> is_blank c"
  using unat_byte_less [of b] hex_digit_facts [of "unat b div 16"] hex_digit_facts [of "unat b mod 16"]
  by (auto simp: hex2_def)

lemma root_bytes:
  "ucast (ucast r :: u8) OR push_bit 8 (ucast (ucast (drop_bit 8 r) :: u8)) OR
   push_bit 16 (ucast (ucast (drop_bit 16 r) :: u8)) OR push_bit 24 (ucast (ucast (drop_bit 24 r) :: u8)) = (r :: u32)"
  (is "?w = r")
proof (rule bit_word_eqI)
  fix n
  assume "n < LENGTH(32)"
  then consider "n < 8" | "8 \<le> n" "n < 16" | "16 \<le> n" "n < 24" | "24 \<le> n" "n < 32" by fastforce
  then show "bit ?w n = bit r n" by cases (auto simp: bit_simps)
qed

lemma parse_root_text:
  assumes q: "q = [] \<or> is_blank (last q)"
  shows "parseTrailingRoot (q @ root_text r) = r"
proof -
  define b0 b1 b2 b3 :: u8 where b: "b0 = ucast r" "b1 = ucast (drop_bit 8 r)" "b2 = ucast (drop_bit 16 r)"
    "b3 = ucast (drop_bit 24 r)"
  let ?s2 = "q @ hex2 b0 @ [CHR 0x20] @ hex2 b1 @ [CHR 0x20] @ hex2 b2"
  let ?s1 = "q @ hex2 b0 @ [CHR 0x20] @ hex2 b1"
  let ?s0 = "q @ hex2 b0"
  have blank: "is_blank (CHR 0x20)" by (simp add: is_blank_def)
  have t3: "last_token (q @ root_text r) = Some (hex2 b3, length ?s2 + 1, ?s2)"
    using last_token_append [OF hex2_token, of "?s2 @ [CHR 0x20]" b3] blank by (simp add: root_text_def b)
  have t2: "last_token ?s2 = Some (hex2 b2, length ?s1 + 1, ?s1)"
    using last_token_append [OF hex2_token, of "?s1 @ [CHR 0x20]" b2] blank by simp
  have t1: "last_token ?s1 = Some (hex2 b1, length ?s0 + 1, ?s0)"
    using last_token_append [OF hex2_token, of "?s0 @ [CHR 0x20]" b1] blank by simp
  have t0: "last_token ?s0 = Some (hex2 b0, length q, take (length q - 1) q)"
    by (rule last_token_append [OF hex2_token q])
  have ne: "q @ root_text r \<noteq> []" "?s2 \<noteq> []" "?s1 \<noteq> []" "?s0 \<noteq> []"
    by (simp_all add: root_text_def hex2_def)
  have four: "(4::nat) = Suc (Suc (Suc (Suc 0)))" by simp
  have "trailing_bytes 4 (q @ root_text r) = [b3, b2, b1, b0]"
    unfolding four by (simp only: trailing_bytes.simps ne t3 t2 t1 t0 option.case prod.case if_False)
      (simp add: strtoul16_hex2)
  then show ?thesis using root_bytes [of r] by (simp add: parseTrailingRoot_def Let_def b numeral_3_eq_3 numeral_2_eq_2)
qed

section \<open>Properties\<close>

text \<open>the scan finds, in order, exactly the positions of the buffer at which a whole dispatch tail
  lies, and reads each root from inside the buffer.\<close>

theorem scan_exact:
  "scan code = map (cand_at code) (filter (tail_shape code) [0 ..< Suc (length code) - 19])"
proof (cases "length code < 19")
  case True
  then show ?thesis by (simp add: scan_def kMatchSpan_def)
next
  case False
  then have "length code - 19 + 19 = length code" "Suc (length code - 19) = Suc (length code) - 19" by simp_all
  then show ?thesis using False scan_loop_exact [of "length code - 19" code 0 "[]"]
    by (simp add: scan_def kMatchSpan_def)
qed

text \<open>a seed resolves to a candidate exactly when that candidate is the only one within the drift.\<close>

theorem resolveConfident_exact:
  "resolveConfident cands seedRoot maxDrift = Some k \<longleftrightarrow>
     {j. j < length cands \<and> in_band seedRoot maxDrift (cands ! j)} = {k}"
proof -
  obtain hit n where r: "confident_loop cands 0 seedRoot maxDrift 0 0 = (hit, n)" by fastforce
  let ?f = "filter (in_band seedRoot maxDrift) cands"
  let ?S = "{j. j < length cands \<and> in_band seedRoot maxDrift (cands ! j)}"
  have n: "n = length ?f" "length ?f = 1 \<Longrightarrow> ?S = {hit}"
    using confident_loop_count [OF r] by auto
  have "card ?S = length ?f" by (simp add: length_filter_conv_card)
  then have "?S = {k} \<Longrightarrow> n = 1" using n(1) by simp
  then show ?thesis using n by (auto simp: resolveConfident_def r)
qed

text \<open>writing a root into a pattern with at least one token and reading it back gives the root.\<close>

theorem trailing_root_roundtrip:
  assumes "c \<in> set pattern" "\<not> is_blank c"
  shows "parseTrailingRoot (setTrailingRoot pattern root) = root"
proof -
  have "dropWhile is_blank (rev pattern) \<noteq> []" using assms by (auto simp: dropWhile_eq_Nil_conv)
  then obtain tok start before where l: "last_token pattern = Some (tok, start, before)"
    by (auto simp: last_token_def Let_def)
  have "trailing_cut (Suc 3) pattern None \<noteq> None"
    using assms(1) trailing_cut_some [of 3 before start] by (cases "pattern = []") (simp_all only: trailing_cut.simps
      l option.case prod.case if_False, simp_all)
  then have "trailing_cut 4 pattern None \<noteq> None" by (simp add: numeral_eq_Suc)
  then obtain k where k: "trailing_cut 4 pattern None = Some k" by blast
  have "cut_ok pattern k" by (rule trailing_cut_ok [of pattern "length pattern", OF _ _ k]) simp_all
  then show ?thesis using k parse_root_text [of "take k pattern"]
    by (simp add: setTrailingRoot_def cut_ok_def)
qed

text \<open>the layout derived from two instructions has both fields inside the first 4096 bytes and apart,
  and none is derived from other opcodes.\<close>

theorem derive_layout_sound:
  assumes "derive_layout skipIns shaIns = Some l"
  shows "unat (skipOffset l) + 1 \<le> 4096 \<and> unat (shaOffset l) + 20 \<le> 4096 \<and>
    (unat (skipOffset l) + 1 \<le> unat (shaOffset l) \<or> unat (shaOffset l) + 20 \<le> unat (skipOffset l)) \<and>
    skipIns ! 0 = 0x80 \<and> shaIns ! 0 = 0x8D"
proof -
  obtain a b where d: "directDisplacement skipIns 0x80 (Some 7) True = Some a"
    "directDisplacement shaIns 0x8D None False = Some b"
    and c: "inBounds a 1" "inBounds b kShaBytes" "\<not> overlaps a 1 b kShaBytes"
    and l: "l = \<lparr>skipOffset = of_int a, shaOffset = of_int b\<rparr>"
    using assms by (auto simp: derive_layout_def split: option.splits if_splits)
  have bnd: "0 \<le> a" "0 \<le> b" "nat a + 1 \<le> 4096" "nat b + 20 \<le> 4096"
    using c by (auto simp: inBounds_def kMaximumFieldEnd_def kShaBytes_def split: if_splits)
  have small: "unat (of_int x :: u32) = nat x" if "0 \<le> x" "x < 4096" for x
  proof -
    have "x mod 2 ^ 32 = x" using that by simp
    then show ?thesis by (simp add: unat_eq_nat_uint uint_word_of_int)
  qed
  have "unat (skipOffset l) = nat a" "unat (shaOffset l) = nat b" using bnd by (simp_all add: l small)
  moreover have "nat a + 1 \<le> nat b \<or> nat b + 20 \<le> nat a"
    using c by (auto simp: overlaps_def kShaBytes_def)
  moreover have "skipIns ! 0 = 0x80" "shaIns ! 0 = 0x8D"
    using d by (auto simp: directDisplacement_def split: if_splits)
  ultimately show ?thesis using bnd by auto
qed

text \<open>the vector offset is decoded exactly when the function holds one single load, with a plausible
  displacement; and the builder call found is a valid call, the expected one or the only other one in
  the window.\<close>

theorem reconcile_offsets_unambiguous:
  "(findCtxDepotVectorOffset code = Some d \<longleftrightarrow>
      (\<exists>k. {i. i + 11 \<le> length code \<and> ctx_disp code i \<noteq> None} = {k} \<and> ctx_disp code k = Some d \<and>
         d \<noteq> 0 \<and> d mod 4 = 0 \<and> d \<le> 0x1000)) \<and>
   (findBuilderCallRel32 code addr e w exec = Some k \<longleftrightarrow>
      (if call_target_ok code addr exec e then k = e
       else {x. e - w \<le> x \<and> x \<le> e + w \<and> call_target_ok code addr exec x} = {k}))"
proof
  show "findCtxDepotVectorOffset code = Some d \<longleftrightarrow>
      (\<exists>k. {i. i + 11 \<le> length code \<and> ctx_disp code i \<noteq> None} = {k} \<and> ctx_disp code k = Some d \<and>
         d \<noteq> 0 \<and> d mod 4 = 0 \<and> d \<le> 0x1000)"
    by (simp add: findCtxDepotVectorOffset_def ctx_loop_exact ctx_offsets_def plausible_def kMaxCtxDepotVectorOff_def)
  have lo: "(if e > w then e - w else 0) = e - w" by simp
  show "findBuilderCallRel32 code addr e w exec = Some k \<longleftrightarrow>
      (if call_target_ok code addr exec e then k = e
       else {x. e - w \<le> x \<and> x \<le> e + w \<and> call_target_ok code addr exec x} = {k})"
  proof (cases "call_target_ok code addr exec e")
    case False
    have "{x. e - w \<le> x \<and> x < Suc (e + w) \<and> x \<noteq> e \<and> call_target_ok code addr exec x}
        = {x. e - w \<le> x \<and> x \<le> e + w \<and> call_target_ok code addr exec x}"
      using False by auto
    then show ?thesis using False
      by (simp only: findBuilderCallRel32_def Let_def lo window_loop_None filter_upt_singleton if_False)
  qed (auto simp: findBuilderCallRel32_def)
qed

text \<open>The one-byte displacement is read without its sign: the load below addresses 112 bytes below the
  context, as the layout decoder of the same program reads the byte, and is taken for offset 144.\<close>

lemma ctx_disp8_unsigned:
  "findCtxDepotVectorOffset (ctx_head @ [0x47, 0x90]) = Some 144 \<and> readDisplacement [0x90] 0 1 = Some (- 112)"
proof
  have "ctx_disp (ctx_head @ [0x47, 0x90]) 0 = Some 144" by (simp add: ctx_disp_def ctx_head_def)
  then show "findCtxDepotVectorOffset (ctx_head @ [0x47, 0x90]) = Some 144"
    unfolding findCtxDepotVectorOffset_def
    by (subst ctx_loop.simps, simp add: kMaxCtxDepotVectorOff_def)
      (subst ctx_loop.simps, simp add: ctx_head_def)
qed (simp add: readDisplacement_def)

section \<open>Witnesses\<close>

lemma trailing_root_roundtrip_witness:
  "parseTrailingRoot (setTrailingRoot ''3D 01 02 03 04'' 0x12345678) = 0x12345678"
  by (rule trailing_root_roundtrip [of "CHR ''3''"]) (simp_all add: is_blank_def)

lemma sample_layout: "derive_layout [0x80, 0x78, 0x10, 0] [0x8D, 0x40, 0x20] = Some \<lparr>skipOffset = 16, shaOffset = 32\<rparr>"
  by code_simp

lemma derive_layout_sound_witness: "unat (16::u32) + 1 \<le> 4096 \<and> unat (32::u32) + 20 \<le> 4096"
  using derive_layout_sound [OF sample_layout] by simp

end
