(* ===== verification/OwnerQueue.thy ===== *)
theory OwnerQueue
  imports HotReloadPackage
begin

text \<open>
  \<open>src/utils/ownerqueue.hpp\<close>: the bounded queue that hands Steam-owned calls from watcher threads
  to the owner thread. A command is a record, a pending entry a command with its time of enqueue,
  the queue a record of the class's fields; every method is a state transformer. A runner is a
  function on commands that may change an outer state and may throw (\<open>True\<close>). Sizes are natural
  numbers, counters keep their 64 bits.
\<close>

section \<open>Commands\<close>

datatype kind = InjectPackage0 | ReconcileLicenses | InstallApp | SyncPackage0 | EnsureCompat

record command =
  cmKind :: kind
  cmAppIds :: "u32 list"
  cmSnapshot :: package_snapshot
  cmAppId :: u32
  cmLibrary :: u32
  cmGeneration :: u64
  cmAttempt :: u32

definition no_snapshot :: package_snapshot where
  "no_snapshot = \<lparr>pkGeneration = 0, pkAppIds = [], pkDepotIds = [], pkMetadataComplete = False,
     pkAddedAppIds = [], pkAppInfoRequestIds = []\<rparr>"

definition new_command ::
  "kind \<Rightarrow> u32 list \<Rightarrow> u32 \<Rightarrow> u32 \<Rightarrow> package_snapshot \<Rightarrow> u64 \<Rightarrow> u32 \<Rightarrow> command" where
  "new_command k ids app lib snap gen att =
     \<lparr>cmKind = k, cmAppIds = ids, cmSnapshot = snap, cmAppId = app, cmLibrary = lib,
      cmGeneration = gen, cmAttempt = att\<rparr>"

definition injectPackage0 :: "u32 list \<Rightarrow> command" where
  "injectPackage0 ids = new_command InjectPackage0 ids 0 0 no_snapshot 0 0"

definition reconcileLicenses :: command where
  "reconcileLicenses = new_command ReconcileLicenses [] 0 0 no_snapshot 0 0"

definition installApp :: "u32 \<Rightarrow> u32 \<Rightarrow> command" where
  "installApp app lib = new_command InstallApp [] app lib no_snapshot 0 0"

definition syncPackage0 :: "package_snapshot \<Rightarrow> command" where
  "syncPackage0 snap = new_command SyncPackage0 [] 0 0 snap 0 0"

definition ensureCompat :: "u32 \<Rightarrow> u64 \<Rightarrow> u32 \<Rightarrow> command" where
  "ensureCompat app gen att = new_command EnsureCompat [] app 0 no_snapshot gen att"

definition sameWork :: "command \<Rightarrow> command \<Rightarrow> bool" where
  "sameWork a b =
     (cmKind a = cmKind b \<and>
      (case cmKind a of
         InjectPackage0 \<Rightarrow> cmAppIds a = cmAppIds b
       | ReconcileLicenses \<Rightarrow> True
       | InstallApp \<Rightarrow> cmAppId a = cmAppId b \<and> cmLibrary a = cmLibrary b
       | SyncPackage0 \<Rightarrow> cmSnapshot a = cmSnapshot b
       | EnsureCompat \<Rightarrow> cmAppId a = cmAppId b \<and> cmGeneration a = cmGeneration b))"

datatype push_result = Queued | Coalesced | Duplicate | Full | ShuttingDown

record entry =
  enCmd :: command
  enTime :: u64

record queue_stats =
  qsPushed :: u64
  qsCoalesced :: u64
  qsDuplicates :: u64
  qsRejectedFull :: u64
  qsRejectedShutdown :: u64
  qsDrained :: u64
  qsFlushedStale :: u64
  qsRanInline :: u64
  qsExecuted :: u64
  qsFailed :: u64
  qsAbandoned :: u64

definition no_stats :: queue_stats where
  "no_stats = \<lparr>qsPushed = 0, qsCoalesced = 0, qsDuplicates = 0, qsRejectedFull = 0,
     qsRejectedShutdown = 0, qsDrained = 0, qsFlushedStale = 0, qsRanInline = 0, qsExecuted = 0,
     qsFailed = 0, qsAbandoned = 0\<rparr>"

record owner_queue =
  oqPending :: "entry list"
  oqStats :: queue_stats
  oqCapacity :: nat
  oqMaxIds :: nat
  oqExecuting :: bool
  oqShuttingDown :: bool
  oqHint :: nat

definition kDefaultCapacity :: nat where "kDefaultCapacity = 32"

definition kMaxIdsPerCommand :: nat where "kMaxIdsPerCommand = 4096"

definition new_owner_queue :: "nat \<Rightarrow> nat \<Rightarrow> owner_queue" where
  "new_owner_queue capacity maxIds =
     \<lparr>oqPending = [], oqStats = no_stats, oqCapacity = (if capacity \<noteq> 0 then capacity else 1),
      oqMaxIds = (if maxIds \<noteq> 0 then maxIds else 1), oqExecuting = False, oqShuttingDown = False,
      oqHint = 0\<rparr>"

section \<open>Decisions\<close>

text \<open>Thread ids are \<open>long\<close>, 32 bits wide in the shipped build; 0 is no thread.\<close>

definition shouldDrain :: "u32 \<Rightarrow> u32 \<Rightarrow> bool \<Rightarrow> nat \<Rightarrow> bool" where
  "shouldDrain selfTid ownerTid alreadyDraining depthHint \<longleftrightarrow>
     depthHint \<noteq> 0 \<and> \<not> alreadyDraining \<and> ownerTid \<noteq> 0 \<and> selfTid = ownerTid"

definition isStale :: "u64 \<Rightarrow> u64 \<Rightarrow> u64 \<Rightarrow> bool" where
  "isStale oldestUs nowUs maxStaleUs =
     (if maxStaleUs = 0 \<or> oldestUs = 0 \<or> nowUs \<le> oldestUs then False
      else nowUs - oldestUs \<ge> maxStaleUs)"

section \<open>Enqueueing\<close>

definition syncHint :: "owner_queue \<Rightarrow> owner_queue" where
  "syncHint q = q\<lparr>oqHint := length (oqPending q)\<rparr>"

definition mergeIds :: "u32 list \<Rightarrow> u32 list \<Rightarrow> u32 list" where
  "mergeIds base extra = fold (\<lambda>i out. if i \<in> set out then out else out @ [i]) extra base"

definition oversized :: "nat \<Rightarrow> command \<Rightarrow> bool" where
  "oversized maxIds c \<longleftrightarrow>
     length (cmAppIds c) > maxIds \<or>
     cmKind c = SyncPackage0 \<and>
       (length (pkAppIds (cmSnapshot c)) > maxIds \<or> length (pkDepotIds (cmSnapshot c)) > maxIds \<or>
        length (pkAddedAppIds (cmSnapshot c)) > maxIds \<or>
        length (pkAppInfoRequestIds (cmSnapshot c)) > maxIds)"

text \<open>The result of the scan of the pending entries: rejected, settled, or through to its end.\<close>

datatype scan_result = Rejected | Settled push_result "entry list" | Through

definition behind :: "entry \<Rightarrow> scan_result \<Rightarrow> scan_result" where
  "behind e s = (case s of Settled r es \<Rightarrow> Settled r (e # es) | _ \<Rightarrow> s)"

fun coalesce :: "nat \<Rightarrow> command \<Rightarrow> entry list \<Rightarrow> scan_result" where
  "coalesce maxIds c [] = Through"
| "coalesce maxIds c (e # es) =
     (if cmKind (enCmd e) \<noteq> cmKind c then behind e (coalesce maxIds c es)
      else if sameWork (enCmd e) c then Settled Duplicate (e # es)
      else if cmKind c = InjectPackage0 then
        (let merged = mergeIds (cmAppIds (enCmd e)) (cmAppIds c) in
         if length merged > maxIds then Rejected
         else if length merged = length (cmAppIds (enCmd e)) then Settled Duplicate (e # es)
         else Settled Coalesced (\<lparr>enCmd = injectPackage0 merged, enTime = enTime e\<rparr> # es))
      else if cmKind c = SyncPackage0 then
        (if pkGeneration (cmSnapshot c) \<le> pkGeneration (cmSnapshot (enCmd e))
         then Settled Duplicate (e # es)
         else
           (let replacement = carryPendingSnapshotWork (cmSnapshot (enCmd e)) (cmSnapshot c) False False in
            if length (pkAddedAppIds replacement) > maxIds \<or>
               length (pkAppInfoRequestIds replacement) > maxIds then Rejected
            else Settled Coalesced (\<lparr>enCmd = syncPackage0 replacement, enTime = enTime e\<rparr> # es)))
      else behind e (coalesce maxIds c es))"

definition applyPush ::
  "nat \<Rightarrow> nat \<Rightarrow> entry list \<Rightarrow> command \<Rightarrow> u64 \<Rightarrow> (push_result \<times> entry list) option" where
  "applyPush maxIds capacity into c now =
     (if oversized maxIds c then None
      else (case coalesce maxIds c into of
              Rejected \<Rightarrow> None
            | Settled r es \<Rightarrow> Some (r, es)
            | Through \<Rightarrow>
                if length into \<ge> capacity then None
                else Some (Queued, into @ [\<lparr>enCmd = c, enTime = now\<rparr>])))"

definition count_push :: "push_result \<Rightarrow> queue_stats \<Rightarrow> queue_stats" where
  "count_push r s =
     (case r of
        Queued \<Rightarrow> s\<lparr>qsPushed := qsPushed s + 1\<rparr>
      | Coalesced \<Rightarrow> s\<lparr>qsCoalesced := qsCoalesced s + 1\<rparr>
      | Duplicate \<Rightarrow> s\<lparr>qsDuplicates := qsDuplicates s + 1\<rparr>
      | _ \<Rightarrow> s)"

definition pushLocked :: "command \<Rightarrow> u64 \<Rightarrow> owner_queue \<Rightarrow> push_result \<times> owner_queue" where
  "pushLocked c now q =
     (if oqShuttingDown q
      then (ShuttingDown,
            q\<lparr>oqStats := (oqStats q)\<lparr>qsRejectedShutdown := qsRejectedShutdown (oqStats q) + 1\<rparr>\<rparr>)
      else (case applyPush (oqMaxIds q) (oqCapacity q) (oqPending q) c now of
              None \<Rightarrow>
                (Full, q\<lparr>oqStats := (oqStats q)\<lparr>qsRejectedFull := qsRejectedFull (oqStats q) + 1\<rparr>\<rparr>)
            | Some (r, es) \<Rightarrow> (r, q\<lparr>oqPending := es, oqStats := count_push r (oqStats q)\<rparr>)))"

definition queue_push :: "command \<Rightarrow> u64 \<Rightarrow> owner_queue \<Rightarrow> push_result \<times> owner_queue" where
  "queue_push c now q = (case pushLocked c now q of (r, q') \<Rightarrow> (r, syncHint q'))"

text \<open>The dry run on a scratch copy, and the pushes themselves with their results.\<close>

fun dry_run :: "nat \<Rightarrow> nat \<Rightarrow> command list \<Rightarrow> u64 \<Rightarrow> entry list \<Rightarrow> bool" where
  "dry_run maxIds capacity [] now scratch = True"
| "dry_run maxIds capacity (c # cs) now scratch =
     (case applyPush maxIds capacity scratch c now of
        None \<Rightarrow> False
      | Some (r, es) \<Rightarrow> dry_run maxIds capacity cs now es)"

fun push_all :: "command list \<Rightarrow> u64 \<Rightarrow> owner_queue \<Rightarrow> push_result list \<times> owner_queue" where
  "push_all [] now q = ([], q)"
| "push_all (c # cs) now q =
     (case pushLocked c now q of
        (r, q1) \<Rightarrow> (case push_all cs now q1 of (rs, q2) \<Rightarrow> (r # rs, q2)))"

definition pushBatch :: "command list \<Rightarrow> u64 \<Rightarrow> owner_queue \<Rightarrow> bool \<times> push_result list \<times> owner_queue" where
  "pushBatch batch now q =
     (if oqShuttingDown q
      then (False, replicate (length batch) ShuttingDown,
            q\<lparr>oqStats := (oqStats q)\<lparr>qsRejectedShutdown :=
                qsRejectedShutdown (oqStats q) + of_nat (length batch)\<rparr>\<rparr>)
      else if \<not> dry_run (oqMaxIds q) (oqCapacity q) batch now (oqPending q)
      then (False, replicate (length batch) Full,
            q\<lparr>oqStats := (oqStats q)\<lparr>qsRejectedFull :=
                qsRejectedFull (oqStats q) + of_nat (length batch)\<rparr>\<rparr>)
      else (case push_all batch now q of (rs, q') \<Rightarrow> (True, rs, syncHint q')))"

section \<open>Claiming and running\<close>

datatype claim_kind = Drain | Stale | Inline

definition claim ::
  "claim_kind \<Rightarrow> u64 \<Rightarrow> u64 \<Rightarrow> owner_queue \<Rightarrow> bool \<times> entry list \<times> owner_queue" where
  "claim k now maxStale q =
     (if oqExecuting q then (False, [], q)
      else if k = Stale \<and> oqShuttingDown q then (False, [], q)
      else (case oqPending q of
              [] \<Rightarrow> if k \<noteq> Inline then (False, [], q) else (True, [], q\<lparr>oqExecuting := True\<rparr>)
            | e # es \<Rightarrow>
                if k = Stale \<and> \<not> isStale (enTime e) now maxStale then (False, [], q)
                else (True, e # es,
                      syncHint (q\<lparr>oqPending := [], oqExecuting := True,
                        oqStats := (case k of
                            Drain \<Rightarrow> (oqStats q)\<lparr>qsDrained :=
                              qsDrained (oqStats q) + of_nat (length (e # es))\<rparr>
                          | Stale \<Rightarrow> (oqStats q)\<lparr>qsFlushedStale :=
                              qsFlushedStale (oqStats q) + of_nat (length (e # es))\<rparr>
                          | Inline \<Rightarrow> oqStats q)\<rparr>))))"

definition count_run :: "bool \<Rightarrow> owner_queue \<Rightarrow> owner_queue" where
  "count_run threw q =
     (if threw then q\<lparr>oqStats := (oqStats q)\<lparr>qsFailed := qsFailed (oqStats q) + 1\<rparr>\<rparr>
      else q\<lparr>oqStats := (oqStats q)\<lparr>qsExecuted := qsExecuted (oqStats q) + 1\<rparr>\<rparr>)"

text \<open>A runner reaches the queue too: a command may push its own retry.\<close>

type_synonym 'w runner = "command \<Rightarrow> owner_queue \<times> 'w \<Rightarrow> bool \<times> owner_queue \<times> 'w"

fun runBatch :: "'w runner \<Rightarrow> entry list \<Rightarrow> owner_queue \<times> 'w \<Rightarrow> owner_queue \<times> 'w" where
  "runBatch run [] qw = qw"
| "runBatch run (e # es) qw =
     (case run (enCmd e) qw of (threw, q, w) \<Rightarrow> runBatch run es (count_run threw q, w))"

definition releaseExecuting :: "owner_queue \<Rightarrow> owner_queue" where
  "releaseExecuting q = q\<lparr>oqExecuting := False\<rparr>"

definition runClaimed :: "'w runner \<Rightarrow> entry list \<Rightarrow> owner_queue \<times> 'w \<Rightarrow> owner_queue \<times> 'w" where
  "runClaimed run batch qw = (case runBatch run batch qw of (q, w) \<Rightarrow> (releaseExecuting q, w))"

definition drain :: "'w runner \<Rightarrow> owner_queue \<times> 'w \<Rightarrow> nat \<times> owner_queue \<times> 'w" where
  "drain run qw =
     (case claim Drain 0 0 (fst qw) of
        (False, _, q) \<Rightarrow> (0, q, snd qw)
      | (True, batch, q) \<Rightarrow> (length batch, runClaimed run batch (q, snd qw)))"

definition flushStale :: "u64 \<Rightarrow> u64 \<Rightarrow> 'w runner \<Rightarrow> owner_queue \<times> 'w \<Rightarrow> nat \<times> owner_queue \<times> 'w" where
  "flushStale now maxStale run qw =
     (case claim Stale now maxStale (fst qw) of
        (False, _, q) \<Rightarrow> (0, q, snd qw)
      | (True, batch, q) \<Rightarrow> (length batch, runClaimed run batch (q, snd qw)))"

definition release_if :: "bool \<Rightarrow> owner_queue \<Rightarrow> owner_queue" where
  "release_if claimed q = (if claimed then releaseExecuting q else q)"

definition runPendingThen ::
  "command list \<Rightarrow> 'w runner \<Rightarrow> owner_queue \<times> 'w \<Rightarrow> nat \<times> owner_queue \<times> 'w" where
  "runPendingThen extra run qw =
     (case claim Inline 0 0 (fst qw) of
        (claimed, out, q) \<Rightarrow>
          (let batch = out @ map (\<lambda>c. \<lparr>enCmd = c, enTime = 0\<rparr>) extra in
           if batch = [] then (0, release_if claimed q, snd qw)
           else
             (let q1 = q\<lparr>oqStats := (oqStats q)\<lparr>qsRanInline :=
                          qsRanInline (oqStats q) + of_nat (length batch)\<rparr>\<rparr>
              in case runBatch run batch (q1, snd qw) of
                   (q2, w) \<Rightarrow> (length batch, release_if claimed q2, w))))"

definition shutdown :: "owner_queue \<Rightarrow> owner_queue" where
  "shutdown q =
     (if oqShuttingDown q then q
      else syncHint (q\<lparr>oqShuttingDown := True,
             oqStats := (oqStats q)\<lparr>qsAbandoned :=
               qsAbandoned (oqStats q) + of_nat (length (oqPending q))\<rparr>,
             oqPending := []\<rparr>))"

definition oldestAgeUs :: "u64 \<Rightarrow> owner_queue \<Rightarrow> u64" where
  "oldestAgeUs now q =
     (case oqPending q of [] \<Rightarrow> 0 | e # _ \<Rightarrow> if now > enTime e then now - enTime e else 0)"

text \<open>The placement gate is one flag: whether a placement pass was entered since the last teardown.\<close>

definition claimTeardown :: "bool \<Rightarrow> bool \<times> bool" where
  "claimTeardown placed = (placed, False)"

definition applyTeardown :: "bool \<Rightarrow> owner_queue \<Rightarrow> bool \<times> bool \<times> owner_queue" where
  "applyTeardown gate q =
     (case claimTeardown gate of
        (False, g) \<Rightarrow> (False, g, q)
      | (True, g) \<Rightarrow> (True, g, shutdown q))"

section \<open>What a push leaves pending\<close>

text \<open>A pending command covers another when running it does at least the other's work.\<close>

definition covers :: "command \<Rightarrow> command \<Rightarrow> bool" where
  "covers p c \<longleftrightarrow> cmKind p = cmKind c \<and>
     (case cmKind c of
        InjectPackage0 \<Rightarrow> set (cmAppIds c) \<subseteq> set (cmAppIds p)
      | ReconcileLicenses \<Rightarrow> True
      | InstallApp \<Rightarrow> cmAppId p = cmAppId c \<and> cmLibrary p = cmLibrary c
      | SyncPackage0 \<Rightarrow> pkGeneration (cmSnapshot c) \<le> pkGeneration (cmSnapshot p)
      | EnsureCompat \<Rightarrow> cmAppId p = cmAppId c \<and> cmGeneration p = cmGeneration c)"

definition covered :: "entry list \<Rightarrow> command \<Rightarrow> bool" where
  "covered es c \<longleftrightarrow> (\<exists>e \<in> set es. covers (enCmd e) c)"

lemma covered_simps [simp]:
  "covered [] c = False" "covered (e # es) c \<longleftrightarrow> covers (enCmd e) c \<or> covered es c"
  "covered (xs @ ys) c \<longleftrightarrow> covered xs c \<or> covered ys c"
  by (auto simp: covered_def)

lemma command_covers_refl [simp]: "covers c c"
  by (simp add: covers_def split: kind.splits)

lemma sameWork_covers: "sameWork p c \<Longrightarrow> covers p c"
  by (auto simp: sameWork_def covers_def split: kind.splits)

lemma mergeIds_set [simp]: "set (mergeIds xs ys) = set xs \<union> set ys"
  by (induction ys arbitrary: xs) (auto simp: mergeIds_def insert_absorb)

lemma mergeIds_Cons: "mergeIds xs (y # ys) = mergeIds (if y \<in> set xs then xs else xs @ [y]) ys"
  by (simp add: mergeIds_def)

lemma mergeIds_Nil [simp]: "mergeIds xs [] = xs"
  by (simp add: mergeIds_def)

lemma mergeIds_append: "mergeIds xs (ys @ zs) = mergeIds (mergeIds xs ys) zs"
  by (simp add: mergeIds_def)

text \<open>Each id is appended at most once, so merging two lists first is the same as merging them in
  turn: this is what allows two pending injections to be merged.\<close>

lemma mergeIds_assoc: "mergeIds v (mergeIds a b) = mergeIds (mergeIds v a) b"
proof (induction b arbitrary: a)
  case (Cons y b)
  show ?case
  proof (cases "y \<in> set a")
    case True
    then show ?thesis by (simp add: mergeIds_Cons Cons.IH)
  next
    case False
    then show ?thesis by (simp add: mergeIds_Cons [of a] Cons.IH mergeIds_append mergeIds_Cons)
  qed
qed simp

lemma mergeIds_grows: "length xs \<le> length (mergeIds xs ys)"
proof (induction ys arbitrary: xs)
  case (Cons y ys)
  show ?case using Cons.IH [of xs] Cons.IH [of "xs @ [y]"] by (simp add: mergeIds_Cons)
qed simp

lemma mergeIds_same_length:
  assumes "length (mergeIds xs ys) = length xs"
  shows "set ys \<subseteq> set xs"
  using assms
proof (induction ys arbitrary: xs)
  case (Cons y ys)
  show ?case
  proof (cases "y \<in> set xs")
    case False
    then have "length (mergeIds (xs @ [y]) ys) = length xs" using Cons.prems by (simp add: mergeIds_Cons)
    with mergeIds_grows [of "xs @ [y]" ys] show ?thesis by simp
  qed (use Cons in \<open>simp add: mergeIds_Cons\<close>)
qed simp

lemma command_selectors [simp]:
  "cmKind (injectPackage0 ids) = InjectPackage0" "cmAppIds (injectPackage0 ids) = ids"
  "cmKind (syncPackage0 sn) = SyncPackage0" "cmSnapshot (syncPackage0 sn) = sn" "cmAppIds (syncPackage0 sn) = []"
  "cmKind (installApp a l) = InstallApp" "cmAppId (installApp a l) = a" "cmLibrary (installApp a l) = l"
  "cmAppIds (installApp a l) = []" "cmKind reconcileLicenses = ReconcileLicenses" "cmAppIds reconcileLicenses = []"
  "cmKind (ensureCompat a g n) = EnsureCompat" "cmAppIds (ensureCompat a g n) = []"
  by (simp_all add: injectPackage0_def syncPackage0_def installApp_def reconcileLicenses_def
      ensureCompat_def new_command_def)

lemma carry_selectors [simp]:
  "pkGeneration (carryPendingSnapshotWork a b p r) = pkGeneration b"
  "pkAppIds (carryPendingSnapshotWork a b p r) = pkAppIds b"
  "pkDepotIds (carryPendingSnapshotWork a b p r) = pkDepotIds b"
  by (simp_all add: carryPendingSnapshotWork_def Let_def)

lemma behind_settled: "behind e s = Settled r es \<longleftrightarrow> (\<exists>es'. s = Settled r es' \<and> es = e # es')"
  by (cases s) (auto simp: behind_def)

lemma behind_through: "behind e s = Through \<longleftrightarrow> s = Through"
  by (cases s) (auto simp: behind_def)

text \<open>Where a settled scan stopped, and what it made of the entry there.\<close>

definition absorbs :: "nat \<Rightarrow> command \<Rightarrow> push_result \<Rightarrow> entry \<Rightarrow> entry \<Rightarrow> bool" where
  "absorbs maxIds c r e e' \<longleftrightarrow>
     cmKind (enCmd e) = cmKind c \<and> enTime e' = enTime e \<and> covers (enCmd e') c \<and>
     (r = Duplicate \<and> e' = e \<or>
      r = Coalesced \<and> \<not> oversized maxIds (enCmd e') \<and> (\<forall>d. covers (enCmd e) d \<longrightarrow> covers (enCmd e') d) \<and>
      (e' = \<lparr>enCmd = injectPackage0 (mergeIds (cmAppIds (enCmd e)) (cmAppIds c)), enTime = enTime e\<rparr> \<and>
             cmKind c = InjectPackage0 \<or>
             e' = \<lparr>enCmd = syncPackage0 (carryPendingSnapshotWork (cmSnapshot (enCmd e)) (cmSnapshot c) False False),
                   enTime = enTime e\<rparr> \<and> cmKind c = SyncPackage0))"

lemma coalesce_settled:
  assumes "coalesce maxIds c es = Settled r es'" "\<not> oversized maxIds c"
  shows "\<exists>xs e e' ys. es = xs @ e # ys \<and> es' = xs @ e' # ys \<and> absorbs maxIds c r e e'"
  using assms
proof (induction es arbitrary: es')
  case (Cons e es)
  have hd: "\<exists>xs a a' ys. e # es = xs @ a # ys \<and> es' = xs @ a' # ys \<and> absorbs maxIds c r a a'"
    if "es' = e' # es" "absorbs maxIds c r e e'" for e'
    by (rule exI [of _ "[]"]) (use that in auto)
  have tl: "\<exists>xs a a' ys. e # es = xs @ a # ys \<and> es' = xs @ a' # ys \<and> absorbs maxIds c r a a'"
    if b: "behind e (coalesce maxIds c es) = Settled r es'"
  proof -
    from b obtain es1 where "coalesce maxIds c es = Settled r es1" "es' = e # es1" by (auto simp: behind_settled)
    with Cons.IH [of es1] Cons.prems(2) obtain xs a a' ys
      where "es = xs @ a # ys" "es1 = xs @ a' # ys" "absorbs maxIds c r a a'" by blast
    then show ?thesis using \<open>es' = e # es1\<close> by (intro exI [of _ "e # xs"]) auto
  qed
  let ?m = "mergeIds (cmAppIds (enCmd e)) (cmAppIds c)"
  let ?y = "carryPendingSnapshotWork (cmSnapshot (enCmd e)) (cmSnapshot c) False False"
  consider (skip) "behind e (coalesce maxIds c es) = Settled r es'"
    | (same) "cmKind (enCmd e) = cmKind c" "sameWork (enCmd e) c" "r = Duplicate" "es' = e # es"
    | (dup) "cmKind (enCmd e) = cmKind c" "cmKind c = InjectPackage0"
        "length ?m = length (cmAppIds (enCmd e))" "r = Duplicate" "es' = e # es"
    | (inj) "cmKind (enCmd e) = cmKind c" "cmKind c = InjectPackage0" "\<not> length ?m > maxIds"
        "r = Coalesced" "es' = \<lparr>enCmd = injectPackage0 ?m, enTime = enTime e\<rparr> # es"
    | (old) "cmKind (enCmd e) = cmKind c" "cmKind c = SyncPackage0"
        "pkGeneration (cmSnapshot c) \<le> pkGeneration (cmSnapshot (enCmd e))" "r = Duplicate" "es' = e # es"
    | (syn) "cmKind (enCmd e) = cmKind c" "cmKind c = SyncPackage0"
        "\<not> pkGeneration (cmSnapshot c) \<le> pkGeneration (cmSnapshot (enCmd e))"
        "\<not> (length (pkAddedAppIds ?y) > maxIds \<or> length (pkAppInfoRequestIds ?y) > maxIds)"
        "r = Coalesced" "es' = \<lparr>enCmd = syncPackage0 ?y, enTime = enTime e\<rparr> # es"
    using Cons.prems(1) unfolding coalesce.simps Let_def by (metis scan_result.distinct(1) scan_result.inject)
  then show ?case
  proof cases
    case skip
    then show ?thesis by (rule tl)
  next
    case same
    then show ?thesis by (intro hd [of e]) (auto simp: absorbs_def sameWork_covers)
  next
    case dup
    then show ?thesis using mergeIds_same_length [OF dup(3)]
      by (intro hd [of e]) (auto simp: absorbs_def covers_def)
  next
    case inj
    then show ?thesis by (intro hd [OF inj(5)]) (auto simp: absorbs_def covers_def oversized_def split: kind.splits)
  next
    case old
    then show ?thesis by (intro hd [of e]) (auto simp: absorbs_def covers_def)
  next
    case syn
    then show ?thesis using Cons.prems(2)
      by (intro hd [OF syn(6)]) (auto simp: absorbs_def covers_def oversized_def split: kind.splits)
  qed
qed simp

lemma coalesce_through:
  "coalesce maxIds c es = Through \<Longrightarrow> e \<in> set es \<Longrightarrow>
     \<not> sameWork (enCmd e) c \<and> (cmKind c \<in> {InjectPackage0, SyncPackage0} \<longrightarrow> cmKind (enCmd e) \<noteq> cmKind c)"
  by (induction es) (auto simp: behind_through sameWork_def Let_def split: if_splits)

section \<open>The state of the queue\<close>

text \<open>
  \<open>apart\<close>: two pending commands are different work, and at most one is an injection or a snapshot.
  The hint is exact, the pending times do not decrease and are not in the future, a closed queue is
  empty.
\<close>

definition apart :: "entry \<Rightarrow> entry \<Rightarrow> bool" where
  "apart a b \<longleftrightarrow> \<not> sameWork (enCmd a) (enCmd b) \<and>
     (cmKind (enCmd b) \<in> {InjectPackage0, SyncPackage0} \<longrightarrow> cmKind (enCmd a) \<noteq> cmKind (enCmd b))"

definition pending_ok :: "nat \<Rightarrow> nat \<Rightarrow> u64 \<Rightarrow> entry list \<Rightarrow> bool" where
  "pending_ok maxIds capacity now es \<longleftrightarrow>
     length es \<le> capacity \<and> (\<forall>e \<in> set es. \<not> oversized maxIds (enCmd e) \<and> enTime e \<le> now) \<and>
     sorted_wrt apart es \<and> sorted_wrt (\<lambda>a b. enTime a \<le> enTime b) es"

definition queue_ok :: "u64 \<Rightarrow> owner_queue \<Rightarrow> bool" where
  "queue_ok now q \<longleftrightarrow> pending_ok (oqMaxIds q) (oqCapacity q) now (oqPending q) \<and>
     oqHint q = length (oqPending q) \<and> (oqShuttingDown q \<longrightarrow> oqPending q = [])"

lemma apart_kinds: "cmKind (enCmd a) \<noteq> cmKind (enCmd b) \<Longrightarrow> apart a b"
  by (auto simp: apart_def sameWork_def)

text \<open>An absorbing entry stays apart from every other one.\<close>

lemma absorbs_apart:
  assumes "absorbs maxIds c r e e'"
  shows "apart x e \<Longrightarrow> apart x e'" "apart e x \<Longrightarrow> apart e' x"
proof -
  have k: "e' = e \<or> cmKind (enCmd e') = cmKind (enCmd e) \<and> cmKind (enCmd e) \<in> {InjectPackage0, SyncPackage0}"
    using assms by (auto simp: absorbs_def)
  then show "apart x e \<Longrightarrow> apart x e'" by (auto simp: apart_def sameWork_def)
  from k show "apart e x \<Longrightarrow> apart e' x" by (auto simp: apart_def sameWork_def)
qed

lemma absorbs_ok:
  assumes "absorbs maxIds c r e e'" "\<not> oversized maxIds (enCmd e)"
  shows "\<not> oversized maxIds (enCmd e')" "enTime e' = enTime e" "covers (enCmd e') c"
    "covers (enCmd e) d \<Longrightarrow> covers (enCmd e') d" "r \<noteq> Full" "r \<noteq> ShuttingDown" "r \<noteq> Queued"
  using assms by (auto simp: absorbs_def)

text \<open>The cases of a push.\<close>

lemma applyPush_cases:
  assumes "applyPush maxIds capacity es c now = Some (r, es')"
  obtains (absorbed) xs e e' ys where "es = xs @ e # ys" "es' = xs @ e' # ys" "absorbs maxIds c r e e'"
  | (appended) "r = Queued" "es' = es @ [\<lparr>enCmd = c, enTime = now\<rparr>]" "length es < capacity"
      "coalesce maxIds c es = Through" "\<not> oversized maxIds c"
proof -
  have o: "\<not> oversized maxIds c" using assms by (auto simp: applyPush_def split: if_splits)
  show ?thesis
  proof (cases "coalesce maxIds c es")
    case (Settled r1 es1)
    then have "r1 = r" "es1 = es'" using assms o by (auto simp: applyPush_def)
    with coalesce_settled [OF Settled o] absorbed show ?thesis by blast
  next
    case Through
    then show ?thesis using assms o appended by (auto simp: applyPush_def split: if_splits)
  qed (use assms o in \<open>auto simp: applyPush_def\<close>)
qed

lemma applyPush_ok:
  assumes A: "applyPush maxIds capacity es c now = Some (r, es')" and O: "pending_ok maxIds capacity now es"
  shows "pending_ok maxIds capacity now es'"
  using A
proof (cases rule: applyPush_cases)
  case (absorbed xs e e' ys)
  have "\<not> oversized maxIds (enCmd e)" using O absorbed(1) by (simp add: pending_ok_def)
  note ab = absorbs_ok [OF absorbed(3) this] and ap = absorbs_apart [OF absorbed(3)]
  show ?thesis using O ab(1,2) ap
    by (auto simp: pending_ok_def absorbed(1,2) sorted_wrt_append)
next
  case appended
  have "apart e \<lparr>enCmd = c, enTime = now\<rparr>" if "e \<in> set es" for e
    using coalesce_through [OF appended(4) that] by (auto simp: apart_def)
  then show ?thesis using O appended
    by (auto simp: pending_ok_def sorted_wrt_append)
qed

lemma applyPush_covered:
  assumes A: "applyPush maxIds capacity es c now = Some (r, es')" and O: "pending_ok maxIds capacity now es"
  shows "covered es' c" "covered es d \<Longrightarrow> covered es' d" "r \<in> {Queued, Coalesced, Duplicate}"
    "length es' = length es + (if r = Queued then 1 else 0)"
proof -
  have "covered es' c \<and> (covered es d \<longrightarrow> covered es' d) \<and> r \<in> {Queued, Coalesced, Duplicate} \<and>
    length es' = length es + (if r = Queued then 1 else 0)"
    using A
  proof (cases rule: applyPush_cases)
    case (absorbed xs e e' ys)
    have "\<not> oversized maxIds (enCmd e)" using O absorbed(1) by (simp add: pending_ok_def)
    note ab = absorbs_ok [OF absorbed(3) this]
    show ?thesis using ab(3-7) by (cases r) (auto simp: absorbed(1,2))
  next
    case appended
    then show ?thesis by simp
  qed
  then show "covered es' c" "covered es d \<Longrightarrow> covered es' d" "r \<in> {Queued, Coalesced, Duplicate}"
    "length es' = length es + (if r = Queued then 1 else 0)" by blast+
qed

lemma applyPush_length:
  assumes "applyPush maxIds capacity es c now = Some (r, es')"
  shows "length es' = length es + (if r = Queued then 1 else 0)" "r \<noteq> Full" "r \<noteq> ShuttingDown"
  using assms by (cases rule: applyPush_cases; auto simp: absorbs_def)+

lemma queue_ok_pushLocked:
  assumes "queue_ok now q" "pushLocked c now q = (r, q')"
  shows "queue_ok now (syncHint q')" "oqCapacity q' = oqCapacity q" "oqMaxIds q' = oqMaxIds q"
    "oqExecuting q' = oqExecuting q" "oqShuttingDown q' = oqShuttingDown q"
  using assms by (auto simp: pushLocked_def queue_ok_def syncHint_def count_push_def
      split: if_splits option.splits dest: applyPush_ok)

lemma push_all_length: "length (fst (push_all batch now q)) = length batch"
  by (induction batch arbitrary: q) (auto split: prod.splits simp: fst_conv, metis fst_conv)

lemma pushLocked_split:
  assumes "pending_ok (oqMaxIds q) (oqCapacity q) now (oqPending q)" "\<not> oqShuttingDown q"
    "pushLocked c now q = (r, q1)"
  shows "pending_ok (oqMaxIds q1) (oqCapacity q1) now (oqPending q1)" "\<not> oqShuttingDown q1"
    "oqMaxIds q1 = oqMaxIds q" "oqCapacity q1 = oqCapacity q" "oqExecuting q1 = oqExecuting q"
    "r \<noteq> ShuttingDown"
    "applyPush (oqMaxIds q) (oqCapacity q) (oqPending q) c now = (if r = Full then None else Some (r, oqPending q1))"
  using assms applyPush_covered(3) by (fastforce simp: pushLocked_def split: option.splits dest: applyPush_ok)+

lemma push_all_no_shutdown:
  "pending_ok (oqMaxIds q) (oqCapacity q) now (oqPending q) \<Longrightarrow> \<not> oqShuttingDown q \<Longrightarrow>
     ShuttingDown \<notin> set (fst (push_all batch now q))"
proof (induction batch arbitrary: q)
  case (Cons c batch)
  obtain r q1 where P: "pushLocked c now q = (r, q1)" by force
  note S = pushLocked_split [OF Cons.prems P]
  show ?case using Cons.IH [OF S(1,2)] S(6) by (auto simp: P split: prod.splits)
qed simp

lemma dry_run_push_all:
  "pending_ok (oqMaxIds q) (oqCapacity q) now (oqPending q) \<Longrightarrow> \<not> oqShuttingDown q \<Longrightarrow>
     dry_run (oqMaxIds q) (oqCapacity q) batch now (oqPending q) \<longleftrightarrow> Full \<notin> set (fst (push_all batch now q))"
proof (induction batch arbitrary: q)
  case (Cons c batch)
  obtain r q1 where P: "pushLocked c now q = (r, q1)" by force
  note S = pushLocked_split [OF Cons.prems P]
  show ?case using Cons.IH [OF S(1,2)] S(3,4,7) by (auto simp: P split: prod.splits)
qed simp

lemma push_all_effect:
  assumes "pending_ok (oqMaxIds q) (oqCapacity q) now (oqPending q)" "\<not> oqShuttingDown q"
    "push_all batch now q = (rs, q')" "Full \<notin> set rs"
  shows "pending_ok (oqMaxIds q') (oqCapacity q') now (oqPending q')" "\<not> oqShuttingDown q'"
    "covered (oqPending q) d \<Longrightarrow> covered (oqPending q') d"
    "\<forall>c \<in> set batch. covered (oqPending q') c"
    "length (oqPending q') = length (oqPending q) + length (filter (\<lambda>r. r = Queued) rs)"
    "oqMaxIds q' = oqMaxIds q" "oqCapacity q' = oqCapacity q" "oqExecuting q' = oqExecuting q"
proof -
  have "pending_ok (oqMaxIds q') (oqCapacity q') now (oqPending q') \<and> \<not> oqShuttingDown q' \<and>
    (\<forall>d. covered (oqPending q) d \<longrightarrow> covered (oqPending q') d) \<and>
    (\<forall>c \<in> set batch. covered (oqPending q') c) \<and>
    length (oqPending q') = length (oqPending q) + length (filter (\<lambda>r. r = Queued) rs) \<and>
    oqMaxIds q' = oqMaxIds q \<and> oqCapacity q' = oqCapacity q \<and> oqExecuting q' = oqExecuting q"
    using assms
  proof (induction batch arbitrary: q rs)
    case (Cons c batch)
    obtain r q1 where P: "pushLocked c now q = (r, q1)" by force
    note S = pushLocked_split [OF Cons.prems(1,2) P]
    obtain rs1 where rs: "push_all batch now q1 = (rs1, q')" "rs = r # rs1"
      using Cons.prems(3) by (auto simp: P split: prod.splits)
    have A: "applyPush (oqMaxIds q) (oqCapacity q) (oqPending q) c now = Some (r, oqPending q1)"
      using S(7) Cons.prems(4) rs(2) by (auto split: if_splits)
    note eff = applyPush_covered [OF A Cons.prems(1)]
    have "Full \<notin> set rs1" using Cons.prems(4) rs(2) by simp
    from Cons.IH [OF S(1,2) rs(1) this] show ?case using eff(1,2,4) rs(2) S(3,4,5) by auto
  qed auto
  then show "pending_ok (oqMaxIds q') (oqCapacity q') now (oqPending q')" "\<not> oqShuttingDown q'"
    "covered (oqPending q) d \<Longrightarrow> covered (oqPending q') d" "\<forall>c \<in> set batch. covered (oqPending q') c"
    "length (oqPending q') = length (oqPending q) + length (filter (\<lambda>r. r = Queued) rs)"
    "oqMaxIds q' = oqMaxIds q" "oqCapacity q' = oqCapacity q" "oqExecuting q' = oqExecuting q" by blast+
qed

lemma pushBatch_effect:
  assumes "queue_ok now q" "pushBatch batch now q = (ok, rs, q')" "\<not> oqShuttingDown q"
  shows "(ok \<longleftrightarrow> Full \<notin> set (fst (push_all batch now q))) \<and> queue_ok now q' \<and>
    (if ok
     then set rs \<subseteq> {Queued, Coalesced, Duplicate} \<and> length rs = length batch \<and>
       (\<forall>c \<in> set batch. covered (oqPending q') c) \<and>
       (\<forall>d. covered (oqPending q) d \<longrightarrow> covered (oqPending q') d) \<and>
       length (oqPending q') = length (oqPending q) + length (filter (\<lambda>r. r = Queued) rs)
     else oqPending q' = oqPending q)"
proof -
  obtain rs1 q1 where P: "push_all batch now q = (rs1, q1)" by force
  have O: "pending_ok (oqMaxIds q) (oqCapacity q) now (oqPending q)" using assms(1) by (simp add: queue_ok_def)
  note D = dry_run_push_all [OF O assms(3), of batch, unfolded P] push_all_length [of batch now q, unfolded P]
    push_all_no_shutdown [OF O assms(3), of batch, unfolded P]
  show ?thesis
  proof (cases "Full \<in> set rs1")
    case True
    then show ?thesis using assms D P by (auto simp: pushBatch_def queue_ok_def)
  next
    case False
    note E = push_all_effect [OF O assms(3) P False]
    have all: "set rs1 \<subseteq> {Queued, Coalesced, Duplicate}"
    proof
      fix x assume "x \<in> set rs1"
      then have "x \<noteq> Full" "x \<noteq> ShuttingDown" using False D(3) by auto
      then show "x \<in> {Queued, Coalesced, Duplicate}" by (simp, cases x, simp_all)
    qed
    have "ok" "rs = rs1" "q' = syncHint q1" using assms D P False by (auto simp: pushBatch_def)
    then show ?thesis using E all D P False by (simp add: queue_ok_def syncHint_def)
  qed
qed

text \<open>a batch is accepted exactly when pushing its commands one after the other would accept each;
  then every command is covered by a pending one, nothing covered before is lost and one entry is
  new per \<open>Queued\<close>; a refused batch leaves the pending commands as they were.\<close>

theorem pushBatch_all_or_nothing:
  assumes "queue_ok now q" "pushBatch batch now q = (ok, rs, q')" "\<not> oqShuttingDown q"
  shows "(ok \<longleftrightarrow> Full \<notin> set (fst (push_all batch now q))) \<and> queue_ok now q' \<and>
    (if ok
     then set rs \<subseteq> {Queued, Coalesced, Duplicate} \<and> length rs = length batch \<and>
       (\<forall>c \<in> set batch. covered (oqPending q') c) \<and>
       (\<forall>d. covered (oqPending q) d \<longrightarrow> covered (oqPending q') d) \<and>
       length (oqPending q') = length (oqPending q) + length (filter (\<lambda>r. r = Queued) rs)
     else oqPending q' = oqPending q)"
  using pushBatch_effect [OF assms] .

lemma pushBatch_all_or_nothing_witness:
  "fst (pushBatch [installApp 5 0, reconcileLicenses] 7 (new_owner_queue 2 4)) \<and>
   queue_ok 7 (snd (snd (pushBatch [installApp 5 0, reconcileLicenses] 7 (new_owner_queue 2 4))))"
proof -
  let ?q = "new_owner_queue 2 4" and ?b = "[installApp 5 0, reconcileLicenses]"
  have "queue_ok 7 ?q" "\<not> oqShuttingDown ?q" by (simp_all add: new_owner_queue_def queue_ok_def pending_ok_def)
  from pushBatch_all_or_nothing [OF this(1) _ this(2), of ?b "fst (pushBatch ?b 7 ?q)"
      "fst (snd (pushBatch ?b 7 ?q))" "snd (snd (pushBatch ?b 7 ?q))"]
  have "queue_ok 7 (snd (snd (pushBatch ?b 7 ?q)))" by simp
  moreover have "fst (pushBatch ?b 7 ?q)"
    by (simp add: pushBatch_def new_owner_queue_def applyPush_def oversized_def behind_def split: prod.splits)
  ultimately show ?thesis by blast
qed

section \<open>Staleness and draining\<close>

lemma isStale_mono: "isStale t now m \<Longrightarrow> 0 < t0 \<Longrightarrow> t0 \<le> t \<Longrightarrow> isStale t0 now m"
  by (auto simp: isStale_def word_le_nat_alt word_less_nat_alt unat_sub_if' split: if_splits)

text \<open>the escape hatch takes the whole queue exactly when some pending command is stale: later
  pushes, merged or not, cannot postpone it.\<close>

theorem flushStale_exact:
  assumes "queue_ok now q" "\<forall>e \<in> set (oqPending q). 0 < enTime e"
  shows "fst (flushStale now m run (q, w)) =
    (if \<not> oqExecuting q \<and> \<not> oqShuttingDown q \<and> (\<exists>e \<in> set (oqPending q). isStale (enTime e) now m)
     then length (oqPending q) else 0)"
proof (cases "oqPending q")
  case Nil
  then show ?thesis by (simp add: flushStale_def claim_def)
next
  case (Cons e es)
  have "isStale (enTime e) now m" if "isStale (enTime x) now m" "x \<in> set es" for x
    using assms that isStale_mono [of "enTime x" now m "enTime e"]
    by (auto simp: queue_ok_def pending_ok_def Cons)
  then show ?thesis by (auto simp: flushStale_def claim_def Cons)
qed

lemma flushStale_exact_witness:
  "fst (flushStale 40 30 (\<lambda>c qw. (False, qw)) (snd (queue_push reconcileLicenses 5 (new_owner_queue 2 4)), ())) = 1"
proof -
  let ?q = "snd (queue_push reconcileLicenses 5 (new_owner_queue 2 4))"
  have q: "oqPending ?q = [\<lparr>enCmd = reconcileLicenses, enTime = 5\<rparr>]" "oqHint ?q = 1" "\<not> oqShuttingDown ?q"
    "\<not> oqExecuting ?q" "oqCapacity ?q = 2" "oqMaxIds ?q = 4"
    by (simp_all add: queue_push_def pushLocked_def applyPush_def oversized_def new_owner_queue_def syncHint_def)
  have "queue_ok 40 ?q" using q by (simp add: queue_ok_def pending_ok_def oversized_def)
  from flushStale_exact [OF this, of 30 "\<lambda>c qw. (False, qw)" "()"] show ?thesis using q by (simp add: isStale_def)
qed

lemma runBatch_pure:
  "\<exists>q'. runBatch (\<lambda>c (q, w). (thr c w, q, f c w)) es (q, w) = (q', fold f (map enCmd es) w) \<and>
     q' = q\<lparr>oqStats := oqStats q'\<rparr> \<and> oqPending q' = oqPending q \<and> oqHint q' = oqHint q \<and>
     oqExecuting q' = oqExecuting q \<and> qsDrained (oqStats q') = qsDrained (oqStats q) \<and>
     qsExecuted (oqStats q') + qsFailed (oqStats q') =
       qsExecuted (oqStats q) + qsFailed (oqStats q) + of_nat (length es)"
proof (induction es arbitrary: q w)
  case (Cons e es)
  show ?case using Cons.IH [of "count_run (thr (enCmd e) w) q" "f (enCmd e) w"]
    by (auto simp: count_run_def algebra_simps)
qed simp

text \<open>an idle queue is drained completely: every pending command runs once, in order, whichever of
  them throw, and the counters account for all of them.\<close>

theorem drain_runs_all:
  assumes "\<not> oqExecuting q"
  shows "\<exists>q'. drain (\<lambda>c (q, w). (thr c w, q, f c w)) (q, w) =
      (length (oqPending q), q', fold f (map enCmd (oqPending q)) w) \<and>
    oqPending q' = [] \<and> (oqPending q \<noteq> [] \<longrightarrow> oqHint q' = 0) \<and> \<not> oqExecuting q' \<and>
    qsDrained (oqStats q') = qsDrained (oqStats q) + of_nat (length (oqPending q)) \<and>
    qsExecuted (oqStats q') + qsFailed (oqStats q') =
      qsExecuted (oqStats q) + qsFailed (oqStats q) + of_nat (length (oqPending q))"
proof (cases "oqPending q")
  case Nil
  then show ?thesis using assms by (simp add: drain_def claim_def)
next
  case (Cons e es)
  let ?q = "syncHint (q\<lparr>oqPending := [], oqExecuting := True, oqStats := (oqStats q)\<lparr>qsDrained :=
      qsDrained (oqStats q) + of_nat (length (e # es))\<rparr>\<rparr>)"
  from runBatch_pure [of thr f "e # es" ?q w] obtain q' where
    "runBatch (\<lambda>c (q, w). (thr c w, q, f c w)) (e # es) (?q, w) = (q', fold f (map enCmd (e # es)) w)"
    "oqPending q' = []" "oqHint q' = 0"
    "qsDrained (oqStats q') = qsDrained (oqStats q) + of_nat (length (e # es))"
    "qsExecuted (oqStats q') + qsFailed (oqStats q') =
       qsExecuted (oqStats q) + qsFailed (oqStats q) + of_nat (length (e # es))"
    by (auto simp: syncHint_def)
  then show ?thesis using assms
    by (simp del: runBatch.simps add: drain_def claim_def Cons runClaimed_def releaseExecuting_def)
qed

lemma drain_runs_all_witness:
  "snd (snd (drain (\<lambda>c (q, w). (True, q, w @ [cmAppId c]))
      (snd (snd (pushBatch [installApp 5 0, installApp 6 0] 7 (new_owner_queue 2 4))), []))) = [5, 6]"
proof -
  let ?q = "snd (snd (pushBatch [installApp 5 0, installApp 6 0] 7 (new_owner_queue 2 4)))"
  have q: "\<not> oqExecuting ?q" "map enCmd (oqPending ?q) = [installApp 5 0, installApp 6 0]"
    by (simp_all add: pushBatch_def pushLocked_def applyPush_def oversized_def new_owner_queue_def syncHint_def
        behind_def sameWork_def split: prod.splits)
  show ?thesis using drain_runs_all [OF q(1), of "\<lambda>_ _. True" "\<lambda>c w. w @ [cmAppId c]" "[]"] q(2) by auto
qed

end
