(* ===== verification/OwnerThreads.thy ===== *)
theory OwnerThreads
  imports OwnerQueue
begin

text \<open>
  The threads around the owner queue: \<open>submitBatch\<close>, \<open>runInline\<close>, \<open>idleTick\<close> and
  \<open>drainOnOwnerFrame\<close> of \<open>src/ownerwork.cpp\<close> and the bodies of \<open>drain\<close>, \<open>flushStale\<close>,
  \<open>runPendingThen\<close>, \<open>runBatch\<close> of \<open>src/utils/ownerqueue.hpp\<close>, cut at their lock operations.
  A step of the system is what one thread does under one lock. Every entry that \<open>Queued\<close> appends
  gets a ticket, in order; the log lists the commands run with their tickets, a command run straight
  from a submitted batch has none.
\<close>

section \<open>Threads\<close>

type_synonym item = "command \<times> nat option"

text \<open>
  Where a thread stands: outside, in \<open>submitBatch\<close> behind the shutdown check, in \<open>runInline\<close>, with
  a batch behind \<open>claim\<close>, in \<open>runBatch\<close> holding the execution mutex, and before
  \<open>releaseExecuting\<close>. The flag tells whether the claim was granted, the last list is the batch still
  to be submitted after a flush.
\<close>

datatype thread =
    Idle
  | Checked "command list"
  | Fallback "command list"
  | Claimed "item list" bool "command list"
  | Running "item list" bool "command list"
  | Releasing "command list"

record sys =
  syQueue :: owner_queue
  syTickets :: "nat list"
  syNext :: nat
  syThreads :: "nat \<Rightarrow> thread"
  syExec :: "nat option"
  syLog :: "item list"
  syDropped :: "nat list"

definition init_sys :: sys where
  "init_sys = \<lparr>syQueue = new_owner_queue kDefaultCapacity kMaxIdsPerCommand, syTickets = [], syNext = 0,
     syThreads = (\<lambda>_. Idle), syExec = None, syLog = [], syDropped = []\<rparr>"

definition goto :: "nat \<Rightarrow> thread \<Rightarrow> sys \<Rightarrow> sys" where
  "goto t th s = s\<lparr>syThreads := (syThreads s)(t := th)\<rparr>"

definition after_flush :: "command list \<Rightarrow> thread" where
  "after_flush cont = (if cont = [] then Idle else Checked cont)"

definition ticketed :: "entry list \<Rightarrow> nat list \<Rightarrow> item list" where
  "ticketed es tks = zip (map enCmd es) (map Some tks)"

definition direct_items :: "command list \<Rightarrow> item list" where
  "direct_items cs = map (\<lambda>c. (c, None)) cs"

definition queued :: "push_result list \<Rightarrow> nat" where
  "queued rs = length (filter (\<lambda>r. r = Queued) rs)"

definition enter_pending :: "push_result list \<Rightarrow> owner_queue \<Rightarrow> sys \<Rightarrow> sys" where
  "enter_pending rs q s = s\<lparr>syQueue := q, syTickets := syTickets s @ [syNext s ..< syNext s + queued rs],
     syNext := syNext s + queued rs\<rparr>"

section \<open>Steps\<close>

inductive sys_step :: "sys \<Rightarrow> sys \<Rightarrow> bool" where
  retry: "queue_push c now (syQueue s) = (r, q) \<Longrightarrow> sys_step s (enter_pending [r] q s)"
| check: "syThreads s t = Idle \<Longrightarrow> batch \<noteq> [] \<Longrightarrow> \<not> oqShuttingDown (syQueue s) \<Longrightarrow>
    sys_step s (goto t (Checked batch) s)"
| accept: "syThreads s t = Checked batch \<Longrightarrow> pushBatch batch now (syQueue s) = (True, rs, q) \<Longrightarrow>
    sys_step s (goto t Idle (enter_pending rs q s))"
| reject: "syThreads s t = Checked batch \<Longrightarrow> pushBatch batch now (syQueue s) = (False, rs, q) \<Longrightarrow>
    sys_step s (goto t (Fallback batch) (s\<lparr>syQueue := q\<rparr>))"
| direct: "syThreads s t = Checked batch \<Longrightarrow> sys_step s (goto t (Fallback batch) s)"
| owner_claim: "syThreads s t = Idle \<Longrightarrow> claim Drain 0 0 (syQueue s) = (True, out, q) \<Longrightarrow>
    sys_step s (goto t (Claimed (ticketed out (syTickets s)) True []) (s\<lparr>syQueue := q, syTickets := []\<rparr>))"
| stale_claim: "syThreads s t = Idle \<and> cont = [] \<or> syThreads s t = Checked cont \<Longrightarrow>
    claim Stale now m (syQueue s) = (True, out, q) \<Longrightarrow>
    sys_step s (goto t (Claimed (ticketed out (syTickets s)) True cont) (s\<lparr>syQueue := q, syTickets := []\<rparr>))"
| inline_granted: "syThreads s t = Fallback extra \<Longrightarrow> claim Inline 0 0 (syQueue s) = (True, out, q) \<Longrightarrow>
    sys_step s (goto t (Claimed (ticketed out (syTickets s) @ direct_items extra) True [])
      (s\<lparr>syQueue := q, syTickets := []\<rparr>))"
| inline_refused: "syThreads s t = Fallback extra \<Longrightarrow> claim Inline 0 0 (syQueue s) = (False, out, q) \<Longrightarrow>
    sys_step s (goto t (Claimed (direct_items extra) False []) (s\<lparr>syQueue := q\<rparr>))"
| acquire: "syThreads s t = Claimed items granted cont \<Longrightarrow> syExec s = None \<Longrightarrow>
    sys_step s (goto t (Running items granted cont) (s\<lparr>syExec := Some t\<rparr>))"
| run_one: "syThreads s t = Running (i # items) granted cont \<Longrightarrow>
    sys_step s (goto t (Running items granted cont)
      (s\<lparr>syLog := syLog s @ [i], syQueue := count_run threw (syQueue s)\<rparr>))"
| finish_claimed: "syThreads s t = Running [] True cont \<Longrightarrow>
    sys_step s (goto t (Releasing cont) (s\<lparr>syExec := None\<rparr>))"
| finish_unclaimed: "syThreads s t = Running [] False cont \<Longrightarrow>
    sys_step s (goto t (after_flush cont) (s\<lparr>syExec := None\<rparr>))"
| release: "syThreads s t = Releasing cont \<Longrightarrow>
    sys_step s (goto t (after_flush cont) (s\<lparr>syQueue := releaseExecuting (syQueue s)\<rparr>))"
| close: "sys_step s (s\<lparr>syQueue := shutdown (syQueue s), syDropped := syDropped s @ syTickets s,
      syTickets := []\<rparr>)"

inductive reachable :: "sys \<Rightarrow> bool" where
  start: "reachable init_sys"
| step: "reachable s \<Longrightarrow> sys_step s s' \<Longrightarrow> reachable s'"

section \<open>The invariant\<close>

definition tickets_of :: "item list \<Rightarrow> nat list" where
  "tickets_of items = map the (filter (\<lambda>x. x \<noteq> None) (map snd items))"

fun held :: "thread \<Rightarrow> nat list" where
  "held (Claimed items granted cont) = tickets_of items"
| "held (Running items granted cont) = tickets_of items"
| "held _ = []"

fun granted :: "thread \<Rightarrow> bool" where
  "granted (Claimed items g cont) = g"
| "granted (Running items g cont) = g"
| "granted (Releasing cont) = True"
| "granted _ = False"

fun running :: "thread \<Rightarrow> bool" where
  "running (Running items g cont) = True"
| "running _ = False"

text \<open>
  \<open>sys_ok\<close>: pending entries and tickets match one to one, a closed queue has none; the queue is marked executing exactly while
  one thread holds a granted claim, and only that thread holds tickets; the execution mutex is held
  by the one thread in \<open>runBatch\<close>; run, held and pending tickets form an increasing sequence, and
  together with the dropped ones they are all tickets given out.
\<close>

definition matched :: "owner_queue \<Rightarrow> nat list \<Rightarrow> bool" where
  "matched q tks \<longleftrightarrow> length tks = length (oqPending q) \<and> (oqShuttingDown q \<longrightarrow> oqPending q = [])"

definition claims_ok :: "(nat \<Rightarrow> thread) \<Rightarrow> bool \<Rightarrow> bool" where
  "claims_ok th executing \<longleftrightarrow>
     (\<forall>t u. granted (th t) \<longrightarrow> granted (th u) \<longrightarrow> t = u) \<and> (executing \<longleftrightarrow> (\<exists>t. granted (th t))) \<and>
     (\<forall>t. \<not> granted (th t) \<longrightarrow> held (th t) = [])"

definition exec_ok :: "(nat \<Rightarrow> thread) \<Rightarrow> nat option \<Rightarrow> bool" where
  "exec_ok th ex \<longleftrightarrow> (\<forall>t. running (th t) \<longleftrightarrow> ex = Some t)"

definition tickets_ok :: "nat list \<Rightarrow> (nat \<Rightarrow> nat list) \<Rightarrow> nat list \<Rightarrow> nat list \<Rightarrow> nat \<Rightarrow> bool" where
  "tickets_ok lg hf pend drp n \<longleftrightarrow>
     (\<forall>t. sorted_wrt (<) (lg @ hf t @ pend)) \<and>
     (set lg \<union> (\<Union>t. set (hf t)) \<union> set pend) \<inter> set drp = {} \<and>
     set lg \<union> (\<Union>t. set (hf t)) \<union> set pend \<union> set drp = {..<n}"

definition sys_ok :: "sys \<Rightarrow> bool" where
  "sys_ok s \<longleftrightarrow> matched (syQueue s) (syTickets s) \<and>
     claims_ok (syThreads s) (oqExecuting (syQueue s)) \<and> exec_ok (syThreads s) (syExec s) \<and>
     tickets_ok (tickets_of (syLog s)) (held \<circ> syThreads s) (syTickets s) (syDropped s) (syNext s)"

lemma tickets_of_simps [simp]:
  "tickets_of [] = []" "tickets_of (xs @ ys) = tickets_of xs @ tickets_of ys"
  "tickets_of ((c, None) # xs) = tickets_of xs" "tickets_of ((c, Some n) # xs) = n # tickets_of xs"
  by (simp_all add: tickets_of_def)

lemma tickets_of_Cons: "tickets_of (i # xs) = (case snd i of None \<Rightarrow> [] | Some n \<Rightarrow> [n]) @ tickets_of xs"
  by (cases i) (auto split: option.splits)

lemma tickets_of_ticketed [simp]: "length tks = length es \<Longrightarrow> tickets_of (ticketed es tks) = tks"
  by (induction es arbitrary: tks) (auto simp: ticketed_def length_Suc_conv)

lemma tickets_of_direct [simp]: "tickets_of (direct_items cs) = []"
  by (induction cs) (auto simp: direct_items_def)

lemma after_flush_simps [simp]:
  "held (after_flush cont) = []" "\<not> granted (after_flush cont)" "\<not> running (after_flush cont)"
  by (simp_all add: after_flush_def)

lemma goto_simps [simp]:
  "syThreads (goto t th s) = (syThreads s)(t := th)" "syQueue (goto t th s) = syQueue s"
  "syTickets (goto t th s) = syTickets s" "syNext (goto t th s) = syNext s" "syExec (goto t th s) = syExec s"
  "syLog (goto t th s) = syLog s" "syDropped (goto t th s) = syDropped s"
  by (simp_all add: goto_def)

text \<open>What the queue operations do to the fields the system looks at.\<close>

lemma pushLocked_frame:
  assumes "pushLocked c now q = (r, q')"
  shows "length (oqPending q') = length (oqPending q) + queued [r]" "oqExecuting q' = oqExecuting q"
    "oqShuttingDown q' = oqShuttingDown q" "oqShuttingDown q \<Longrightarrow> oqPending q' = oqPending q"
proof -
  have "length (oqPending q') = length (oqPending q) + queued [r] \<and> oqExecuting q' = oqExecuting q \<and>
    oqShuttingDown q' = oqShuttingDown q \<and> (oqShuttingDown q \<longrightarrow> oqPending q' = oqPending q)"
  proof (cases "oqShuttingDown q")
    case False
    show ?thesis
    proof (cases "applyPush (oqMaxIds q) (oqCapacity q) (oqPending q) c now")
      case None
      with False assms have "q' = q\<lparr>oqStats := (oqStats q)\<lparr>qsRejectedFull := qsRejectedFull (oqStats q) + 1\<rparr>\<rparr>"
        "r = Full" by (auto simp: pushLocked_def)
      then show ?thesis by (simp add: queued_def)
    next
      case (Some res)
      obtain r1 es where "res = (r1, es)" by force
      with Some False assms have "applyPush (oqMaxIds q) (oqCapacity q) (oqPending q) c now = Some (r, es)"
        "q' = q\<lparr>oqPending := es, oqStats := count_push r (oqStats q)\<rparr>" by (auto simp: pushLocked_def)
      with applyPush_length [OF this(1)] False show ?thesis by (simp add: queued_def)
    qed
  qed (use assms in \<open>auto simp: pushLocked_def queued_def\<close>)
  then show "length (oqPending q') = length (oqPending q) + queued [r]" "oqExecuting q' = oqExecuting q"
    "oqShuttingDown q' = oqShuttingDown q" "oqShuttingDown q \<Longrightarrow> oqPending q' = oqPending q" by blast+
qed

lemma queue_push_frame:
  assumes "queue_push c now q = (r, q')"
  shows "length (oqPending q') = length (oqPending q) + queued [r]" "oqExecuting q' = oqExecuting q"
    "oqShuttingDown q' = oqShuttingDown q" "oqShuttingDown q \<Longrightarrow> oqPending q' = oqPending q"
proof -
  obtain q1 where P: "pushLocked c now q = (r, q1)" "q' = syncHint q1"
    using assms by (auto simp: queue_push_def split: prod.splits)
  show "length (oqPending q') = length (oqPending q) + queued [r]" "oqExecuting q' = oqExecuting q"
    "oqShuttingDown q' = oqShuttingDown q" "oqShuttingDown q \<Longrightarrow> oqPending q' = oqPending q"
    using pushLocked_frame [OF P(1)] by (simp_all add: P(2) syncHint_def)
qed

lemma push_all_frame:
  assumes "push_all batch now q = (rs, q')"
  shows "length (oqPending q') = length (oqPending q) + queued rs \<and> oqExecuting q' = oqExecuting q \<and>
    oqShuttingDown q' = oqShuttingDown q"
  using assms
proof (induction batch arbitrary: q rs)
  case (Cons c batch)
  obtain r q1 rs1 where P: "pushLocked c now q = (r, q1)" "push_all batch now q1 = (rs1, q')" "rs = r # rs1"
    using Cons.prems by (auto split: prod.splits)
  show ?case using pushLocked_frame [OF P(1)] Cons.IH [OF P(2)] by (simp add: P(3) queued_def)
qed (simp add: queued_def)

lemma pushBatch_frame:
  assumes "pushBatch batch now q = (ok, rs, q')"
  shows "oqExecuting q' = oqExecuting q" "oqShuttingDown q' = oqShuttingDown q"
    "ok \<Longrightarrow> length (oqPending q') = length (oqPending q) + queued rs" "ok \<Longrightarrow> \<not> oqShuttingDown q"
    "\<not> ok \<Longrightarrow> oqPending q' = oqPending q"
  using assms by (auto simp: pushBatch_def syncHint_def split: if_splits prod.splits dest!: push_all_frame)

lemma claim_granted:
  assumes "claim k now m q = (True, out, q')"
  shows "\<not> oqExecuting q" "out = oqPending q" "oqPending q' = []" "oqExecuting q'"
    "oqShuttingDown q' = oqShuttingDown q"
  using assms by (auto simp: claim_def syncHint_def split: if_splits list.splits claim_kind.splits)

lemma claim_refused:
  "claim k now m q = (False, out, q') \<Longrightarrow> q' = q"
  by (auto simp: claim_def split: if_splits list.splits)

lemma other_frames [simp]:
  "oqPending (count_run b q) = oqPending q" "oqExecuting (count_run b q) = oqExecuting q"
  "oqShuttingDown (count_run b q) = oqShuttingDown q" "oqPending (releaseExecuting q) = oqPending q"
  "\<not> oqExecuting (releaseExecuting q)" "oqShuttingDown (releaseExecuting q) = oqShuttingDown q"
  "oqPending (shutdown q) = (if oqShuttingDown q then oqPending q else [])"
  "oqExecuting (shutdown q) = oqExecuting q" "oqShuttingDown (shutdown q)"
  by (simp_all add: count_run_def releaseExecuting_def shutdown_def syncHint_def)

lemma sys_ok_init: "sys_ok init_sys"
  by (simp add: sys_ok_def matched_def claims_ok_def exec_ok_def tickets_ok_def init_sys_def new_owner_queue_def)

section \<open>Tickets\<close>

lemma tickets_ok_enter:
  assumes "tickets_ok lg hf pend drp n"
  shows "tickets_ok lg hf (pend @ [n ..< n + k]) drp (n + k)"
proof -
  from assms have u: "set lg \<union> (\<Union>t. set (hf t)) \<union> set pend \<union> set drp = {..<n}" by (simp add: tickets_ok_def)
  then have lt: "\<forall>x \<in> set lg. x < n" "\<forall>t. \<forall>x \<in> set (hf t). x < n" "\<forall>x \<in> set pend. x < n"
    "\<forall>x \<in> set drp. x < n" by blast+
  have "sorted_wrt (<) (lg @ hf t @ pend @ [n ..< n + k])" for t
    using assms lt unfolding tickets_ok_def by (fastforce simp: sorted_wrt_append)
  moreover have "(set lg \<union> (\<Union>t. set (hf t)) \<union> set (pend @ [n ..< n + k])) \<inter> set drp = {}"
    using assms lt(4) unfolding tickets_ok_def by fastforce
  moreover have "set lg \<union> (\<Union>t. set (hf t)) \<union> set (pend @ [n ..< n + k]) \<union> set drp = {..<n + k}"
  proof -
    have "set lg \<union> (\<Union>t. set (hf t)) \<union> set (pend @ [n ..< n + k]) \<union> set drp =
      (set lg \<union> (\<Union>t. set (hf t)) \<union> set pend \<union> set drp) \<union> {n ..< n + k}" by auto
    also have "\<dots> = {..<n + k}" unfolding u by auto
    finally show ?thesis .
  qed
  ultimately show ?thesis by (simp add: tickets_ok_def)
qed

lemma UN_only: "\<forall>u. u \<noteq> t \<longrightarrow> hf u = [] \<Longrightarrow> (\<Union>u. set ((hf(t := y)) u)) = set y"
proof -
  assume "\<forall>u. u \<noteq> t \<longrightarrow> hf u = []"
  then have "(hf(t := y)) u = (if u = t then y else [])" for u by simp
  then show ?thesis by auto
qed

text \<open>A claim moves the pending tickets to a thread, running moves one to the log, closing drops
  the pending ones.\<close>

lemma tickets_ok_claim:
  assumes "tickets_ok lg hf pend drp n" "\<forall>t. hf t = []"
  shows "tickets_ok lg (hf(t := pend)) [] drp n"
proof -
  have "(\<Union>u. set ((hf(t := pend)) u)) = set pend" using assms(2) by (intro UN_only) simp
  then show ?thesis using assms by (auto simp: tickets_ok_def sorted_wrt_append)
qed

lemma tickets_ok_run:
  assumes "tickets_ok lg hf pend drp n" "hf t = x @ xs" "\<forall>u. u \<noteq> t \<longrightarrow> hf u = []"
  shows "tickets_ok (lg @ x) (hf(t := xs)) pend drp n"
proof -
  have "(\<Union>u. set ((hf(t := xs)) u)) = set xs" "(\<Union>u. set (hf u)) = set x \<union> set xs"
    using UN_only [OF assms(3), of xs] UN_only [OF assms(3), of "hf t", unfolded fun_upd_triv] assms(2) by simp_all
  moreover have "sorted_wrt (<) (lg @ x @ xs @ pend)" using assms(1,2) unfolding tickets_ok_def by (metis append_assoc)
  ultimately show ?thesis using assms by (auto simp: tickets_ok_def sorted_wrt_append)
qed

lemma tickets_ok_drop:
  assumes "tickets_ok lg hf pend drp n"
  shows "tickets_ok lg hf [] (drp @ pend) n"
proof -
  have s: "sorted_wrt (<) (lg @ hf t @ pend)" for t using assms by (simp add: tickets_ok_def)
  have "(set lg \<union> (\<Union>t. set (hf t))) \<inter> set pend = {}" using s by (fastforce simp: sorted_wrt_append)
  moreover have "sorted_wrt (<) (lg @ hf t @ [])" for t
    using s [of t] unfolding append_assoc [symmetric] sorted_wrt_append by simp
  moreover from assms have "(set lg \<union> (\<Union>t. set (hf t)) \<union> set pend) \<inter> set drp = {}"
    "set lg \<union> (\<Union>t. set (hf t)) \<union> set pend \<union> set drp = {..<n}" by (simp_all only: tickets_ok_def)
  ultimately show ?thesis unfolding tickets_ok_def set_append list.set(1) Un_empty_right
    by (simp only: Int_Un_distrib Int_Un_distrib2 Un_empty) (simp add: Un_ac)
qed

lemma tickets_ok_same: "tickets_ok lg hf pend drp n \<Longrightarrow> hf' = hf \<Longrightarrow> tickets_ok lg hf' pend drp n"
  by simp

section \<open>Preservation\<close>

lemmas held_upd = fun_upd_comp [of held]

lemma claims_ok_upd:
  assumes "claims_ok th ex" "granted x = granted (th t)" "\<not> granted x \<longrightarrow> held x = []"
  shows "claims_ok (th(t := x)) ex"
proof -
  have "granted ((th(t := x)) u) = granted (th u)" for u using assms by simp
  then show ?thesis using assms by (simp add: claims_ok_def)
qed

lemma exec_ok_upd: "exec_ok th ex \<Longrightarrow> running x = running (th t) \<Longrightarrow> exec_ok (th(t := x)) ex"
  by (simp add: exec_ok_def)

lemma claims_held: "claims_ok th ex \<Longrightarrow> \<not> granted (th t) \<Longrightarrow> held (th t) = []"
  by (simp add: claims_ok_def)

lemma claims_ok_take:
  assumes "claims_ok th False" "granted x"
  shows "claims_ok (th(t := x)) True"
  using assms by (auto simp: claims_ok_def)

lemma claims_ok_give:
  assumes "claims_ok th ex" "granted (th t)" "\<not> granted x" "held x = []"
  shows "claims_ok (th(t := x)) False"
  using assms by (auto simp: claims_ok_def)

lemma sys_ok_step:
  assumes "sys_ok s" "sys_step s s'"
  shows "sys_ok s'"
proof -
  note I = assms(1) [unfolded sys_ok_def]
  have others: "held (syThreads s u) = []" if "\<not> oqExecuting (syQueue s)" for u
    using I that by (simp add: claims_ok_def)
  have single: "held (syThreads s u) = []" if "held (syThreads s t) \<noteq> []" "u \<noteq> t" for t u
    using I that unfolding claims_ok_def by metis
  have claimed: "sys_ok (goto t th (s\<lparr>syQueue := q, syTickets := []\<rparr>))"
    if c: "claim k now m (syQueue s) = (True, out, q)" and th: "granted th" "\<not> running th" "\<not> running (syThreads s t)"
      "held th = syTickets s" for t th k now m out q
  proof -
    note g = claim_granted [OF c]
    have "tickets_ok (tickets_of (syLog s)) ((held \<circ> syThreads s)(t := syTickets s)) [] (syDropped s) (syNext s)"
      using I others [OF g(1)] by (intro tickets_ok_claim) simp_all
    then show ?thesis using I g th claims_ok_take [of "syThreads s" th t]
      by (simp add: sys_ok_def held_upd matched_def exec_ok_upd)
  qed
  have tk: "length (syTickets s) = length out" if "claim k now m (syQueue s) = (True, out, q)" for k now m out q
    using I claim_granted(2) [OF that] by (simp add: matched_def)
  from assms(2) show ?thesis
  proof cases
    case (retry c now r q)
    note f = queue_push_frame [OF retry(2)]
    have "matched q (syTickets s @ [syNext s ..< syNext s + queued [r]])" using I f by (auto simp: matched_def)
    then show ?thesis using I f tickets_ok_enter [of _ _ _ _ _ "queued [r]"]
      by (simp add: retry(1) sys_ok_def enter_pending_def)
  next
    case (check t batch)
    then show ?thesis using I
      by (simp add: sys_ok_def held_upd claims_ok_upd exec_ok_upd fun_upd_idem)
  next
    case (accept t batch now rs q)
    note f = pushBatch_frame [OF accept(3)]
    have "matched q (syTickets s @ [syNext s ..< syNext s + queued rs])" using I f by (auto simp: matched_def)
    then show ?thesis using I f accept(2) tickets_ok_enter [of _ _ _ _ _ "queued rs"]
      by (simp add: accept(1) sys_ok_def enter_pending_def held_upd claims_ok_upd exec_ok_upd fun_upd_idem)
  next
    case (reject t batch now rs q)
    note f = pushBatch_frame [OF reject(3)]
    have "matched q (syTickets s)" using I f by (auto simp: matched_def)
    then show ?thesis using I f reject(2)
      by (simp add: reject(1) sys_ok_def held_upd claims_ok_upd exec_ok_upd fun_upd_idem)
  next
    case (direct t batch)
    then show ?thesis using I
      by (simp add: sys_ok_def held_upd claims_ok_upd exec_ok_upd fun_upd_idem)
  next
    case (owner_claim t out q)
    then show ?thesis using tk [OF owner_claim(3)] by (auto intro!: claimed)
  next
    case (stale_claim t cont now m out q)
    then show ?thesis using tk [OF stale_claim(3)] by (auto intro!: claimed)
  next
    case (inline_granted t extra out q)
    then show ?thesis using tk [OF inline_granted(3)] by (auto intro!: claimed)
  next
    case (inline_refused t extra out q)
    then show ?thesis using I claim_refused [OF inline_refused(3)]
      by (simp add: sys_ok_def held_upd claims_ok_upd exec_ok_upd fun_upd_idem)
  next
    case (acquire t items g cont)
    then have "exec_ok ((syThreads s)(t := Running items g cont)) (Some t)" using I by (auto simp: exec_ok_def)
    moreover have "claims_ok ((syThreads s)(t := Running items g cont)) (oqExecuting (syQueue s))"
      using I acquire(2) claims_held [of "syThreads s" _ t] by (intro claims_ok_upd) auto
    ultimately show ?thesis using I acquire by (simp add: sys_ok_def held_upd fun_upd_idem)
  next
    case (run_one t i items g cont threw)
    let ?x = "case snd i of None \<Rightarrow> [] | Some n \<Rightarrow> [n]"
    have h: "held (syThreads s t) = ?x @ tickets_of items" using run_one(2) by (simp add: tickets_of_Cons)
    have o: "\<forall>u. u \<noteq> t \<longrightarrow> held (syThreads s u) = []" if "held (syThreads s t) \<noteq> []" using single [OF that] by blast
    have "tickets_ok (tickets_of (syLog s) @ ?x) ((held \<circ> syThreads s)(t := tickets_of items))
        (syTickets s) (syDropped s) (syNext s)"
    proof (cases "held (syThreads s t) = []")
      case True
      then have "?x = []" "tickets_of items = []" using h by (auto split: option.splits)
      then show ?thesis using I True by (simp add: fun_upd_idem)
    next
      case False
      show ?thesis using I h o [OF False] by (intro tickets_ok_run) simp_all
    qed
    moreover have "claims_ok ((syThreads s)(t := Running items g cont)) (oqExecuting (syQueue s))"
      using I run_one(2) h claims_held [of "syThreads s" _ t] by (intro claims_ok_upd) auto
    ultimately show ?thesis using I run_one(2)
      by (simp add: run_one(1) sys_ok_def held_upd exec_ok_upd matched_def tickets_of_Cons)
  next
    case (finish_claimed t cont)
    then have "exec_ok ((syThreads s)(t := Releasing cont)) None" using I by (auto simp: exec_ok_def)
    then show ?thesis using I finish_claimed by (simp add: sys_ok_def held_upd claims_ok_upd fun_upd_idem)
  next
    case (finish_unclaimed t cont)
    then have "exec_ok ((syThreads s)(t := after_flush cont)) None" using I by (auto simp: exec_ok_def)
    then show ?thesis using I finish_unclaimed by (simp add: sys_ok_def held_upd claims_ok_upd fun_upd_idem)
  next
    case (release t cont)
    then have "claims_ok ((syThreads s)(t := after_flush cont)) False" using I by (intro claims_ok_give) auto
    then show ?thesis using I release by (simp add: sys_ok_def held_upd matched_def exec_ok_upd fun_upd_idem)
  next
    case close
    then show ?thesis using I tickets_ok_drop by (auto simp: sys_ok_def matched_def)
  qed
qed

lemma reachable_ok: "reachable s \<Longrightarrow> sys_ok s"
  by (induction rule: reachable.induct) (auto intro: sys_ok_init sys_ok_step)

section \<open>Exactly once, in order, one at a time\<close>


section \<open>Two runs the comments exclude\<close>

text \<open>The queue with its defaults after single pushes, and the runs step by step.\<close>

lemma one_push:
  "oqPending q = [] \<Longrightarrow> \<not> oqShuttingDown q \<Longrightarrow> oqMaxIds q = kMaxIdsPerCommand \<Longrightarrow> oqCapacity q = kDefaultCapacity \<Longrightarrow>
   pushBatch [installApp a l] now q =
     (True, [Queued], q\<lparr>oqPending := [\<lparr>enCmd = installApp a l, enTime = now\<rparr>],
        oqStats := count_push Queued (oqStats q), oqHint := 1\<rparr>)"
  by (simp add: pushBatch_def pushLocked_def applyPush_def oversized_def syncHint_def kDefaultCapacity_def)

lemma reachable_via: "reachable s \<Longrightarrow> sys_step s s' \<Longrightarrow> s' = s'' \<Longrightarrow> reachable s''"
  by (auto intro: reachable.step)

text \<open>Thread 1 has a command accepted, thread 2 claims it; thread 1 has a second one accepted and
  submits a third to run itself. The claim is refused, the third command takes the execution mutex
  first and runs before both.\<close>

definition busy_queue :: "entry list \<Rightarrow> queue_stats \<Rightarrow> bool \<Rightarrow> owner_queue" where
  "busy_queue es st ex = \<lparr>oqPending = es, oqStats = st, oqCapacity = kDefaultCapacity,
     oqMaxIds = kMaxIdsPerCommand, oqExecuting = ex, oqShuttingDown = False, oqHint = length es\<rparr>"

definition sys_at :: "owner_queue \<Rightarrow> nat list \<Rightarrow> nat \<Rightarrow> thread \<Rightarrow> thread \<Rightarrow> nat option \<Rightarrow> item list \<Rightarrow> sys" where
  "sys_at q tks n t1 t2 ex lg = \<lparr>syQueue = q, syTickets = tks, syNext = n,
     syThreads = (\<lambda>_. Idle)(1 := t1, 2 := t2), syExec = ex, syLog = lg, syDropped = []\<rparr>"

lemma sys_at_simps [simp]:
  "syQueue (sys_at q tks n t1 t2 ex lg) = q" "syTickets (sys_at q tks n t1 t2 ex lg) = tks"
  "syThreads (sys_at q tks n t1 t2 ex lg) 1 = t1" "syThreads (sys_at q tks n t1 t2 ex lg) (Suc 0) = t1"
  "syThreads (sys_at q tks n t1 t2 ex lg) 2 = t2" "syExec (sys_at q tks n t1 t2 ex lg) = ex"
  "syLog (sys_at q tks n t1 t2 ex lg) = lg"
  "goto (Suc 0) t (sys_at q tks n t1 t2 ex lg) = sys_at q tks n t t2 ex lg"
  "goto 1 t (sys_at q tks n t1 t2 ex lg) = sys_at q tks n t t2 ex lg"
  "goto 2 t (sys_at q tks n t1 t2 ex lg) = sys_at q tks n t1 t ex lg"
  "enter_pending rs q' (sys_at q tks n t1 t2 ex lg) =
     sys_at q' (tks @ [n ..< n + queued rs]) (n + queued rs) t1 t2 ex lg"
  "(sys_at q tks n t1 t2 ex lg)\<lparr>syQueue := q'\<rparr> = sys_at q' tks n t1 t2 ex lg"
  "(sys_at q tks n t1 t2 ex lg)\<lparr>syTickets := tks'\<rparr> = sys_at q tks' n t1 t2 ex lg"
  "(sys_at q tks n t1 t2 ex lg)\<lparr>syExec := ex'\<rparr> = sys_at q tks n t1 t2 ex' lg"
  "(sys_at q tks n t1 t2 ex lg)\<lparr>syLog := lg'\<rparr> = sys_at q tks n t1 t2 ex lg'"
  by (simp_all add: sys_at_def goto_def enter_pending_def fun_upd_twist)

definition first_entry :: entry where "first_entry = \<lparr>enCmd = installApp 10 0, enTime = 1\<rparr>"

definition second_entry :: entry where "second_entry = \<lparr>enCmd = installApp 20 0, enTime = 2\<rparr>"

lemma run_accept:
  assumes "reachable (sys_at (busy_queue [] st ex) [] n Idle t2 None lg)"
  shows "\<exists>st'. reachable (sys_at (busy_queue [\<lparr>enCmd = installApp a l, enTime = now\<rparr>] st' ex) [n] (Suc n) Idle t2 None lg)"
proof -
  from assms have "reachable (sys_at (busy_queue [] st ex) [] n (Checked [installApp a l]) t2 None lg)"
    by (rule reachable_via) (rule check [of _ 1 "[installApp a l]"], simp_all add: busy_queue_def)
  from reachable_via [OF this accept [of _ 1 "[installApp a l]" now "[Queued]"
      "busy_queue [\<lparr>enCmd = installApp a l, enTime = now\<rparr>] (count_push Queued st) ex"]]
  have "reachable (sys_at (busy_queue [\<lparr>enCmd = installApp a l, enTime = now\<rparr>] (count_push Queued st) ex)
      [n] (Suc n) Idle t2 None lg)"
    if "pushBatch [installApp a l] now (busy_queue [] st ex) = (True, [Queued],
      busy_queue [\<lparr>enCmd = installApp a l, enTime = now\<rparr>] (count_push Queued st) ex)"
    using that by (simp add: queued_def)
  moreover have "pushBatch [installApp a l] now (busy_queue [] st ex) =
    (True, [Queued], busy_queue [\<lparr>enCmd = installApp a l, enTime = now\<rparr>] (count_push Queued st) ex)"
    using one_push [of "busy_queue [] st ex" a l now] by (simp add: busy_queue_def)
  ultimately show ?thesis by blast
qed

lemma overtake_run:
  "\<exists>st. reachable (sys_at (busy_queue [second_entry] st True) [1] 2 (Running [] False [])
     (Claimed [(installApp 10 0, Some 0)] True []) (Some 1) [(installApp 30 0, None)])"
proof -
  have "reachable (sys_at (busy_queue [] no_stats False) [] 0 Idle Idle None [])"
    using start by (simp add: init_sys_def sys_at_def busy_queue_def new_owner_queue_def kDefaultCapacity_def
        kMaxIdsPerCommand_def fun_upd_idem)
  from run_accept [OF this, of 10 0 1] obtain st1 where
    r1: "reachable (sys_at (busy_queue [first_entry] st1 False) [0] 1 Idle Idle None [])"
    by (auto simp: first_entry_def)
  obtain st2 where "claim Drain 0 0 (busy_queue [first_entry] st1 False) = (True, [first_entry], busy_queue [] st2 True)"
    by (simp add: claim_def busy_queue_def syncHint_def)
  with reachable_via [OF r1 owner_claim [of _ 2 "[first_entry]" "busy_queue [] st2 True"]]
  have "reachable (sys_at (busy_queue [] st2 True) [] 1 Idle (Claimed [(installApp 10 0, Some 0)] True []) None [])"
    by (simp add: ticketed_def first_entry_def)
  from run_accept [OF this, of 20 0 2] obtain st3 where r3:
    "reachable (sys_at (busy_queue [second_entry] st3 True) [1] 2 Idle (Claimed [(installApp 10 0, Some 0)] True []) None [])"
    by (auto simp: second_entry_def numeral_2_eq_2)
  let ?s = "sys_at (busy_queue [second_entry] st3 True) [1] 2"
  let ?t2 = "Claimed [(installApp 10 0, Some 0)] True []"
  have "reachable (?s (Checked [installApp 30 0]) ?t2 None [])"
    by (rule reachable_via [OF r3 check [of _ 1 "[installApp 30 0]"]]) (simp_all add: busy_queue_def)
  from reachable_via [OF this direct [of _ 1 "[installApp 30 0]"]]
  have "reachable (?s (Fallback [installApp 30 0]) ?t2 None [])" by simp
  from reachable_via [OF this inline_refused [of _ 1 "[installApp 30 0]" "[]" "busy_queue [second_entry] st3 True"]]
  have "reachable (?s (Claimed [(installApp 30 0, None)] False []) ?t2 None [])"
    by (simp add: claim_def busy_queue_def direct_items_def)
  from reachable_via [OF this acquire [of _ 1 "[(installApp 30 0, None)]" False "[]"]]
  have "reachable (?s (Running [(installApp 30 0, None)] False []) ?t2 (Some 1) [])" by simp
  from reachable_via [OF this run_one [of _ 1 "(installApp 30 0, None)" "[]" False "[]" False]]
  have "reachable (sys_at (count_run False (busy_queue [second_entry] st3 True)) [1] 2 (Running [] False []) ?t2
      (Some 1) [(installApp 30 0, None)])" by simp
  then show ?thesis by (auto simp: busy_queue_def count_run_def)
qed


text \<open>a command submitted after two accepted ones runs before both, although its submitter had them
  accepted first: the inline fallback does not wait for a claim another thread holds, and does not
  run what has become pending since.\<close>

theorem inline_overtakes:
  "\<exists>s. reachable s \<and> syLog s = [(installApp 30 0, None)] \<and>
     syThreads s 2 = Claimed [(installApp 10 0, Some 0)] True [] \<and>
     map enCmd (oqPending (syQueue s)) = [installApp 20 0]"
proof -
  obtain st where r: "reachable (sys_at (busy_queue [second_entry] st True) [1] 2 (Running [] False [])
     (Claimed [(installApp 10 0, Some 0)] True []) (Some 1) [(installApp 30 0, None)])"
    using overtake_run by blast
  show ?thesis by (rule exI, intro conjI, rule r) (simp_all add: busy_queue_def second_entry_def)
qed

text \<open>a batch checked before the queue is closed and submitted after is refused by the queue and
  then run by its submitter: the first command to run runs after shutdown.\<close>

theorem runs_after_shutdown:
  "\<exists>s s'. reachable s \<and> oqShuttingDown (syQueue s) \<and> syLog s = [] \<and> sys_step\<^sup>*\<^sup>* s s' \<and>
     syLog s' = [(installApp 30 0, None)]"
proof -
  let ?b = "[installApp 30 0]" and ?i = "[(installApp 30 0, None)]"
  let ?q0 = "busy_queue [] no_stats False"
  let ?at = "\<lambda>q t ex. sys_at q [] 0 t Idle ex"
  have r0: "reachable (?at ?q0 Idle None [])"
    using start by (simp add: init_sys_def sys_at_def busy_queue_def new_owner_queue_def kDefaultCapacity_def
        kMaxIdsPerCommand_def fun_upd_idem)
  have r1: "reachable (?at ?q0 (Checked ?b) None [])"
    by (rule reachable_via [OF r0 check [of _ 1 ?b]]) (simp_all add: busy_queue_def)
  let ?q1 = "shutdown ?q0"
  have r2: "reachable (?at ?q1 (Checked ?b) None [])"
    by (rule reachable_via [OF r1 close]) (simp add: sys_at_def)
  have down: "oqShuttingDown ?q1" "\<not> oqExecuting ?q1" "oqPending ?q1 = []" by (simp_all add: busy_queue_def)
  obtain q2 where q2: "pushBatch ?b 5 ?q1 = (False, [ShuttingDown], q2)" "\<not> oqExecuting q2" "oqPending q2 = []"
    using down by (simp add: pushBatch_def)
  obtain q3 where q3: "claim Inline 0 0 q2 = (True, [], q3)" using q2 by (simp add: claim_def)
  have "sys_step (?at ?q1 (Checked ?b) None []) (?at q2 (Fallback ?b) None [])"
    using reject [of "?at ?q1 (Checked ?b) None []" 1 ?b 5] q2(1) by simp
  moreover have "sys_step (?at q2 (Fallback ?b) None []) (?at q3 (Claimed ?i True []) None [])"
    using inline_granted [of "?at q2 (Fallback ?b) None []" 1 ?b] q3 by (simp add: ticketed_def direct_items_def)
  moreover have "sys_step (?at q3 (Claimed ?i True []) None []) (?at q3 (Running ?i True []) (Some 1) [])"
    using acquire [of "?at q3 (Claimed ?i True []) None []" 1 ?i True "[]"] by simp
  moreover have "sys_step (?at q3 (Running ?i True []) (Some 1) []) (?at (count_run False q3) (Running [] True []) (Some 1) ?i)"
    using run_one [of "?at q3 (Running ?i True []) (Some 1) []" 1 "(installApp 30 0, None)" "[]" True "[]" False] by simp
  ultimately have "sys_step\<^sup>*\<^sup>* (?at ?q1 (Checked ?b) None []) (?at (count_run False q3) (Running [] True []) (Some 1) ?i)"
    by (meson converse_rtranclp_into_rtranclp rtranclp.rtrancl_refl)
  then show ?thesis using r2 down(1) by (intro exI conjI) (assumption | simp)+
qed

end
