(* ===== verification/OwnerWork.thy ===== *)
theory OwnerWork
  imports OwnerQueue CppText
begin

text \<open>
  \<open>src/ownerwork.hpp\<close> and \<open>ownerwork.cpp\<close>: which thread runs a submitted batch of Steam-owned
  calls. The owner's thread id, the switches read from the environment and the clock are arguments;
  Steam's calls are the runner. The state is the queue and the runner's state. \<open>unsigned long\<close> is 32
  bits wide in the shipped build.
\<close>

section \<open>Settings\<close>

fun parse_ms_loop :: "u32 \<Rightarrow> string \<Rightarrow> u32 \<Rightarrow> u32 option" where
  "parse_ms_loop maxMs [] parsed = (if parsed > maxMs then None else Some parsed)"
| "parse_ms_loop maxMs (c # cs) parsed =
     (if \<not> is_digit c \<or> parsed > maxMs then None
      else parse_ms_loop maxMs cs (parsed * 10 + of_nat (digit_val c)))"

text \<open>The value and the \<open>rejected\<close> flag; an unset variable is \<open>None\<close>.\<close>

definition parseBoundedMs :: "string option \<Rightarrow> u32 \<Rightarrow> u32 \<Rightarrow> u32 \<times> bool" where
  "parseBoundedMs value fallback maxMs =
     (case value of
        None \<Rightarrow> (fallback, False)
      | Some s \<Rightarrow>
          if s = [] then (fallback, False)
          else (case parse_ms_loop maxMs s 0 of None \<Rightarrow> (fallback, True) | Some v \<Rightarrow> (v, False)))"

definition parseQueueEnabled :: "string option \<Rightarrow> bool \<Rightarrow> bool \<times> bool" where
  "parseQueueEnabled value fallback =
     (case value of
        None \<Rightarrow> (fallback, False)
      | Some s \<Rightarrow>
          if s = [] then (fallback, False)
          else (let v = map to_lower s in
            if v \<in> {''0'', ''off'', ''no'', ''false'', ''disable'', ''disabled'', ''n''} then (False, False)
            else if v \<in> {''1'', ''on'', ''yes'', ''true'', ''enable'', ''enabled'', ''y''} then (True, False)
            else (fallback, True)))"

definition kDefaultMaxStaleMs :: u32 where "kDefaultMaxStaleMs = 30000"

definition kMaxMaxStaleMs :: u32 where "kMaxMaxStaleMs = 600000"

definition compatReadinessRequestValid :: "u32 \<Rightarrow> bool" where
  "compatReadinessRequestValid appId \<longleftrightarrow> appId \<noteq> 0"

section \<open>Dispatch\<close>

datatype mode = ModeQueued | OnOwner | NoOwner | Overflow | Disabled | Abandoned

record settings =
  owEnabled :: bool
  owMaxStaleMs :: u32
  owOwnerTid :: u32

text \<open>\<open>latchOwnerThread\<close>: the first caller becomes the owner.\<close>

definition latchOwnerThread :: "u32 \<Rightarrow> settings \<Rightarrow> settings" where
  "latchOwnerThread self g = (if owOwnerTid g \<noteq> 0 then g else g\<lparr>owOwnerTid := self\<rparr>)"

definition onOwnerThread :: "u32 \<Rightarrow> settings \<Rightarrow> bool" where
  "onOwnerThread self g \<longleftrightarrow> owOwnerTid g \<noteq> 0 \<and> owOwnerTid g = self"

definition runInline :: "'w runner \<Rightarrow> command list \<Rightarrow> owner_queue \<times> 'w \<Rightarrow> owner_queue \<times> 'w" where
  "runInline run batch qw = snd (runPendingThen batch run qw)"

definition idleTick :: "settings \<Rightarrow> u64 \<Rightarrow> 'w runner \<Rightarrow> owner_queue \<times> 'w \<Rightarrow> owner_queue \<times> 'w" where
  "idleTick g now run qw =
     (if \<not> owEnabled g then qw
      else if owMaxStaleMs g = 0 then qw
      else if oqHint (fst qw) = 0 then qw
      else snd (flushStale now (ucast (owMaxStaleMs g) * 1000) run qw))"

text \<open>\<open>tickNow\<close> and \<open>pushNow\<close> are the two clock readings of one call.\<close>

definition submitBatch ::
  "settings \<Rightarrow> u32 \<Rightarrow> u64 \<Rightarrow> u64 \<Rightarrow> 'w runner \<Rightarrow> command list \<Rightarrow> owner_queue \<times> 'w \<Rightarrow>
     mode \<times> owner_queue \<times> 'w" where
  "submitBatch g self tickNow pushNow run batch qw =
     (if batch = [] then (Abandoned, qw)
      else if oqShuttingDown (fst qw) then (Abandoned, qw)
      else if \<not> owEnabled g then (Disabled, runInline run batch qw)
      else
        (let qw1 = idleTick g tickNow run qw in
         if owOwnerTid g = 0 then (NoOwner, runInline run batch qw1)
         else if onOwnerThread self g then (OnOwner, runInline run batch qw1)
         else (case pushBatch batch pushNow (fst qw1) of
                 (False, _, q2) \<Rightarrow> (Overflow, runInline run batch (q2, snd qw1))
               | (True, _, q2) \<Rightarrow> (ModeQueued, q2, snd qw1))))"

definition submitHotAdd ::
  "settings \<Rightarrow> u32 \<Rightarrow> u64 \<Rightarrow> u64 \<Rightarrow> 'w runner \<Rightarrow> u32 list \<Rightarrow> owner_queue \<times> 'w \<Rightarrow> mode \<times> owner_queue \<times> 'w" where
  "submitHotAdd g self t1 t2 run ids qw =
     submitBatch g self t1 t2 run
       (if ids = [] then [reconcileLicenses] else [injectPackage0 ids, reconcileLicenses]) qw"

definition submitManagedState ::
  "settings \<Rightarrow> u32 \<Rightarrow> u64 \<Rightarrow> u64 \<Rightarrow> 'w runner \<Rightarrow> package_snapshot \<Rightarrow> owner_queue \<times> 'w \<Rightarrow>
     mode \<times> owner_queue \<times> 'w" where
  "submitManagedState g self t1 t2 run snap qw = submitBatch g self t1 t2 run [syncPackage0 snap] qw"

definition submitCompatReadiness ::
  "settings \<Rightarrow> u32 \<Rightarrow> u64 \<Rightarrow> u64 \<Rightarrow> 'w runner \<Rightarrow> u32 \<Rightarrow> u64 \<Rightarrow> owner_queue \<times> 'w \<Rightarrow>
     mode \<times> owner_queue \<times> 'w" where
  "submitCompatReadiness g self t1 t2 run app gen qw =
     (if \<not> compatReadinessRequestValid app then (Abandoned, qw)
      else submitBatch g self t1 t2 run [ensureCompat app gen 0] qw)"

definition submitInstallApp ::
  "settings \<Rightarrow> u32 \<Rightarrow> u64 \<Rightarrow> u64 \<Rightarrow> 'w runner \<Rightarrow> u32 \<Rightarrow> u32 \<Rightarrow> owner_queue \<times> 'w \<Rightarrow>
     mode \<times> owner_queue \<times> 'w" where
  "submitInstallApp g self t1 t2 run app lib qw = submitBatch g self t1 t2 run [installApp app lib] qw"

text \<open>
  The drain point of the owner's frame. The metadata store's dirty flag (its hint and its exchange),
  the runtime's pending refresh and the reprocessing are the other components' operations on the
  outer state.
\<close>

definition drainOnOwnerFrame ::
  "settings \<Rightarrow> u32 \<Rightarrow> bool \<Rightarrow> ('w \<Rightarrow> bool) \<Rightarrow> ('w \<Rightarrow> bool \<times> 'w) \<Rightarrow> ('w \<Rightarrow> bool) \<Rightarrow> ('w \<Rightarrow> 'w) \<Rightarrow> 'w runner \<Rightarrow>
     owner_queue \<times> 'w \<Rightarrow> nat \<times> owner_queue \<times> 'w" where
  "drainOnOwnerFrame g self draining dirtyHint takeDirty refreshPending reprocess run qw =
     (let hint = oqHint (fst qw) in
      if hint = 0 \<and> \<not> dirtyHint (snd qw) \<and> \<not> refreshPending (snd qw) then (0, qw)
      else if \<not> shouldDrain self (owOwnerTid g) draining (if hint = 0 then 1 else hint) then (0, qw)
      else
        (case (if hint = 0 then (0, qw) else drain run qw) of
           (taken, q1, w1) \<Rightarrow>
             (case takeDirty w1 of
                (dirty, w2) \<Rightarrow>
                  (taken, q1, if dirty \<or> refreshPending w2 then reprocess w2 else w2))))"

section \<open>Order of execution\<close>

lemma runPendingThen_pure:
  assumes "\<not> oqExecuting q"
  shows "\<exists>q'. runPendingThen batch (\<lambda>c (q, w). (thr c w, q, f c w)) (q, w) =
      (length (oqPending q) + length batch, q', fold f (map enCmd (oqPending q) @ batch) w) \<and>
    oqPending q' = [] \<and> \<not> oqExecuting q'"
proof -
  obtain q1 where C: "claim Inline 0 0 q = (True, oqPending q, q1)" "oqPending q1 = []" "oqExecuting q1"
    using assms by (cases "oqPending q") (auto simp: claim_def syncHint_def)
  let ?es = "oqPending q @ map (\<lambda>c. \<lparr>enCmd = c, enTime = 0\<rparr>) batch"
  let ?q2 = "q1\<lparr>oqStats := (oqStats q1)\<lparr>qsRanInline := qsRanInline (oqStats q1) + of_nat (length ?es)\<rparr>\<rparr>"
  have m: "map enCmd ?es = map enCmd (oqPending q) @ batch" by (simp add: comp_def)
  from runBatch_pure [of thr f ?es ?q2 w] obtain q3 where R:
    "runBatch (\<lambda>c (q, w). (thr c w, q, f c w)) ?es (?q2, w) = (q3, fold f (map enCmd (oqPending q) @ batch) w)"
    "oqPending q3 = []" using C unfolding m by auto
  show ?thesis
  proof (cases "?es = []")
    case True
    then show ?thesis using C by (auto simp: runPendingThen_def release_if_def releaseExecuting_def)
  next
    case False
    then show ?thesis using C R
      by (simp del: append_is_Nil_conv add: runPendingThen_def release_if_def releaseExecuting_def)
  qed
qed

lemma flushStale_pure:
  assumes "\<not> oqExecuting q"
  shows "\<exists>q' n. flushStale now m (\<lambda>c (q, w). (thr c w, q, f c w)) (q, w) =
      (n, q', if n = 0 then w else fold f (map enCmd (oqPending q)) w) \<and> \<not> oqExecuting q' \<and>
    (if n = 0 then q' = q else oqPending q' = [] \<and> oqHint q' = 0 \<and> oqMaxIds q' = oqMaxIds q \<and>
       oqCapacity q' = oqCapacity q \<and> oqShuttingDown q' = oqShuttingDown q)"
proof (cases "claim Stale now m q")
  case (fields ok es q1)
  show ?thesis
  proof (cases ok)
    case False
    then show ?thesis using fields assms by (auto simp: flushStale_def claim_def split: if_splits list.splits)
  next
    case True
    then have C: "es = oqPending q" "es \<noteq> []" "oqPending q1 = []" "oqHint q1 = 0" "oqMaxIds q1 = oqMaxIds q"
      "oqCapacity q1 = oqCapacity q" "oqShuttingDown q1 = oqShuttingDown q"
      using fields by (auto simp: claim_def syncHint_def split: if_splits list.splits)
    from runBatch_pure [of thr f es q1 w] obtain q3 where
      R: "runBatch (\<lambda>c (q, w). (thr c w, q, f c w)) es (q1, w) = (q3, fold f (map enCmd es) w)"
        "q3 = q1\<lparr>oqStats := oqStats q3\<rparr>" by auto
    from R(2) C have "oqPending q3 = []" "oqHint q3 = 0" "oqMaxIds q3 = oqMaxIds q" "oqCapacity q3 = oqCapacity q"
      "oqShuttingDown q3 = oqShuttingDown q"
      by (metis (no_types, lifting) owner_queue.ext_inject owner_queue.surjective owner_queue.update_convs(2))+
    then show ?thesis using True fields C R(1)
      by (auto simp: flushStale_def runClaimed_def releaseExecuting_def)
  qed
qed

lemma idleTick_pure:
  assumes "\<not> oqExecuting q"
  shows "\<exists>q' b. idleTick g now (\<lambda>c (q, w). (thr c w, q, f c w)) (q, w) =
      (q', if b then fold f (map enCmd (oqPending q)) w else w) \<and> \<not> oqExecuting q' \<and>
    (if b then oqPending q' = [] \<and> oqHint q' = 0 \<and> oqMaxIds q' = oqMaxIds q \<and>
       oqCapacity q' = oqCapacity q \<and> oqShuttingDown q' = oqShuttingDown q else q' = q)"
proof (cases "owEnabled g \<and> owMaxStaleMs g \<noteq> 0 \<and> oqHint q \<noteq> 0")
  case True
  from flushStale_pure [OF assms, of now "ucast (owMaxStaleMs g) * 1000" thr f w] obtain q' n where
    F: "flushStale now (ucast (owMaxStaleMs g) * 1000) (\<lambda>c (q, w). (thr c w, q, f c w)) (q, w) =
      (n, q', if n = 0 then w else fold f (map enCmd (oqPending q)) w)" "\<not> oqExecuting q'"
    "if n = 0 then q' = q else oqPending q' = [] \<and> oqHint q' = 0 \<and> oqMaxIds q' = oqMaxIds q \<and>
       oqCapacity q' = oqCapacity q \<and> oqShuttingDown q' = oqShuttingDown q" by blast
  then show ?thesis using True by (intro exI [of _ q'] exI [of _ "n \<noteq> 0"]) (auto simp: idleTick_def)
next
  case False
  then show ?thesis using assms by (intro exI [of _ q] exI [of _ False]) (auto simp: idleTick_def)
qed

text \<open>a batch submitted to an idle open queue is either handed over, and then only by a thread other
  than the latched owner with the queue on, covered in full, and with the older work still pending or
  just run; or it is run by its submitter after everything that was pending, in order.\<close>

theorem submit_in_order:
  assumes Q: "queue_ok now q" "\<not> oqExecuting q" and B: "batch \<noteq> []" "\<not> oqShuttingDown q"
    and R: "submitBatch g self now now (\<lambda>c (q, w). (thr c w, q, f c w)) batch (q, w) = (m, q', w')"
  shows "if m = ModeQueued
    then owEnabled g \<and> owOwnerTid g \<notin> {0, self} \<and> (\<forall>c \<in> set batch. covered (oqPending q') c) \<and>
      (w' = w \<and> (\<forall>d. covered (oqPending q) d \<longrightarrow> covered (oqPending q') d) \<or>
       w' = fold f (map enCmd (oqPending q)) w)
    else m \<noteq> Abandoned \<and> oqPending q' = [] \<and> w' = fold f (map enCmd (oqPending q) @ batch) w"
proof -
  let ?run = "\<lambda>c (q, w). (thr c w, q, f c w)"
  show ?thesis
  proof (cases "owEnabled g")
    case False
    obtain q2 where "runPendingThen batch ?run (q, w) =
        (length (oqPending q) + length batch, q2, fold f (map enCmd (oqPending q) @ batch) w)" "oqPending q2 = []"
      using runPendingThen_pure [OF Q(2), of batch thr f w] by blast
    then show ?thesis using R B False by (auto simp: submitBatch_def runInline_def)
  next
    case True
    obtain q1 b where I: "idleTick g now ?run (q, w) = (q1, if b then fold f (map enCmd (oqPending q)) w else w)"
      "\<not> oqExecuting q1"
      "if b then oqPending q1 = [] \<and> oqHint q1 = 0 \<and> oqMaxIds q1 = oqMaxIds q \<and>
         oqCapacity q1 = oqCapacity q \<and> oqShuttingDown q1 = oqShuttingDown q else q1 = q"
      using idleTick_pure [OF Q(2), of g now thr f w] by blast
    let ?w1 = "if b then fold f (map enCmd (oqPending q)) w else w"
    have ok: "queue_ok now q1" "\<not> oqShuttingDown q1"
      using I(3) Q(1) B(2) by (auto simp: queue_ok_def pending_ok_def split: if_splits)
    have inline: "snd (runPendingThen batch ?run (q2, ?w1)) = (q', w') \<Longrightarrow>
        oqPending q' = [] \<and> w' = fold f (map enCmd (oqPending q) @ batch) w"
      if "oqPending q2 = oqPending q1" "\<not> oqExecuting q2" for q2
      using runPendingThen_pure [OF that(2), of batch thr f ?w1] that(1) I(3) by (auto split: if_splits)
    show ?thesis
    proof (cases "owOwnerTid g \<in> {0, self}")
      case o: True
      then have "snd (runPendingThen batch ?run (q1, ?w1)) = (q', w')" "m \<in> {NoOwner, OnOwner}"
        using R B True I(1) by (auto simp: submitBatch_def runInline_def onOwnerThread_def Let_def split: if_splits)
      with inline [of q1] I(2) show ?thesis by auto
    next
      case o: False
      obtain ok2 rs q2 where P: "pushBatch batch now q1 = (ok2, rs, q2)" by (cases "pushBatch batch now q1")
      note E = pushBatch_effect [OF ok(1) P ok(2)]
      have ex: "oqExecuting q2 = oqExecuting q1"
        using P push_all_effect(8) dry_run_push_all ok
        by (auto simp: pushBatch_def syncHint_def queue_ok_def split: if_splits prod.splits)
      show ?thesis
      proof (cases ok2)
        case True
        then have "m = ModeQueued" "q' = q2" "w' = ?w1"
          using R B o I(1) P \<open>owEnabled g\<close> by (auto simp: submitBatch_def onOwnerThread_def Let_def)
        then show ?thesis using E True o I(3) \<open>owEnabled g\<close> by (auto split: if_splits)
      next
        case False
        then have "m = Overflow" "snd (runPendingThen batch ?run (q2, ?w1)) = (q', w')"
          using R B o I(1) P \<open>owEnabled g\<close> by (auto simp: submitBatch_def onOwnerThread_def runInline_def Let_def)
        then show ?thesis using inline [of q2] E False ex I(2) by auto
      qed
    qed
  qed
qed

lemma submit_in_order_witness:
  "snd (snd (submitBatch \<lparr>owEnabled = True, owMaxStaleMs = 0, owOwnerTid = 0\<rparr> 9 5 5
      (\<lambda>c (q, w). (False, q, w @ [cmAppId c])) [installApp 6 0]
      (snd (queue_push (installApp 5 0) 5 (new_owner_queue 2 4)), []))) = [5, 6]"
proof -
  let ?q = "snd (queue_push (installApp 5 0) 5 (new_owner_queue 2 4))"
  let ?g = "\<lparr>owEnabled = True, owMaxStaleMs = 0, owOwnerTid = 0\<rparr> :: settings"
  let ?r = "submitBatch ?g 9 5 5 (\<lambda>c (q, w). (False, q, w @ [cmAppId c])) [installApp 6 0] (?q, [])"
  have p: "oqPending ?q = [\<lparr>enCmd = installApp 5 0, enTime = 5\<rparr>]" "oqHint ?q = 1" "\<not> oqShuttingDown ?q"
    "\<not> oqExecuting ?q" "oqCapacity ?q = 2" "oqMaxIds ?q = 4"
    by (simp_all add: queue_push_def pushLocked_def applyPush_def oversized_def new_owner_queue_def syncHint_def)
  have q: "queue_ok 5 ?q" using p by (simp add: queue_ok_def pending_ok_def oversized_def)
  have m: "fst ?r \<noteq> ModeQueued" by (simp add: submitBatch_def Let_def split: prod.splits)
  show ?thesis
    using submit_in_order [OF q p(4) _ p(3), of "[installApp 6 0]" ?g 9 "\<lambda>_ _. False"
        "\<lambda>c w. w @ [cmAppId c]" "[]" "fst ?r" "fst (snd ?r)" "snd (snd ?r)"] m p(1) by simp
qed

section \<open>The settings parser\<close>

lemma parse_ms_loop_exact:
  assumes "10 * unat maxMs + 9 < 2 ^ 32" "parsed \<le> maxMs \<or> unat parsed \<le> 10 * unat maxMs + 9"
  shows "parse_ms_loop maxMs s parsed =
    (let v = foldl (\<lambda>n c. 10 * n + digit_val c) (unat parsed) s in
     if list_all is_digit s \<and> v \<le> unat maxMs then Some (of_nat v) else None)"
  using assms(2)
proof (induction s arbitrary: parsed)
  case Nil
  show ?case by (auto simp: word_le_nat_alt word_less_nat_alt)
next
  case (Cons c s)
  have grow: "n \<le> foldl (\<lambda>n c. 10 * n + digit_val c) n s" for n s
  proof (induction s arbitrary: n)
    case (Cons c s)
    have "n \<le> 10 * n + digit_val c" by simp
    also have "\<dots> \<le> foldl (\<lambda>n c. 10 * n + digit_val c) (10 * n + digit_val c) s" by (rule Cons)
    finally show ?case by simp
  qed simp
  show ?case
  proof (cases "is_digit c \<and> parsed \<le> maxMs")
    case False
    then show ?thesis
    proof (cases "is_digit c")
      case True
      with False have "unat maxMs < unat parsed" by (simp add: word_le_nat_alt)
      with grow [of "10 * unat parsed + digit_val c" s] have "\<not> foldl (\<lambda>n c. 10 * n + digit_val c) (10 * unat parsed + digit_val c) s \<le> unat maxMs" by simp
      with True False show ?thesis by (simp add: Let_def word_less_nat_alt word_le_nat_alt)
    qed simp
  next
    case True
    then have d: "digit_val c < 10" "unat parsed \<le> unat maxMs" using digit_val_less by (auto simp: word_le_nat_alt)
    have "unat (parsed * 10 + of_nat (digit_val c)) = unat parsed * 10 + digit_val c"
      using d assms(1) by (subst unat_word_ariths) (simp add: unat_word_ariths unat_of_nat)
    with Cons.IH [of "parsed * 10 + of_nat (digit_val c)"] d True show ?thesis
      by (simp add: Let_def mult.commute word_less_nat_alt word_le_nat_alt)
  qed
qed

text \<open>a setting is taken exactly when it is a decimal number within its bound, for every bound below
  a tenth of the 32-bit range; everything else keeps the fallback and is reported.\<close>

theorem parseBoundedMs_exact:
  assumes "10 * unat maxMs + 9 < 2 ^ 32"
  shows "parseBoundedMs (Some s) fallback maxMs =
    (if s = [] then (fallback, False)
     else if list_all is_digit s \<and> dec_value s \<le> unat maxMs then (of_nat (dec_value s), False)
     else (fallback, True))"
  using parse_ms_loop_exact [OF assms, of 0 s] by (simp add: parseBoundedMs_def dec_value_def Let_def)

lemma parseBoundedMs_exact_witness:
  "parseBoundedMs (Some ''600000'') kDefaultMaxStaleMs kMaxMaxStaleMs = (600000, False)"
  using parseBoundedMs_exact [of kMaxMaxStaleMs "''600000''"]
  by (simp add: kMaxMaxStaleMs_def is_digit_def char_code_def dec_value_def digit_val_def)

end
