(* ===== verification/AppInfoHook.thy ===== *)
theory AppInfoHook
  imports HotReloadStore CodeScan
begin

text \<open>
  \<open>src/feats/appinfostate.hpp\<close>, \<open>appinfostate_policy.hpp\<close>, \<open>appinforeload.hpp\<close> and the install and
  removal paths of \<open>appinfostate.cpp\<close>: five bytes of Steam's code are redirected to a hook and put
  back. The process memory is an outer state \<open>'e\<close>; reading and writing it, and what the disassembler
  says of it, are arguments. The metadata guard runs on the hot-reload store.
\<close>

section \<open>Checked patching\<close>

text \<open>A protection baseline is its flags and whether it is valid.\<close>

record baseline =
  blValue :: u32
  blValid :: bool

record write_outcome =
  woAttempted :: bool
  woReportedComplete :: bool
  woDesiredVerified :: bool
  woProtectionVerified :: bool

definition no_outcome :: write_outcome where
  "no_outcome = \<lparr>woAttempted = False, woReportedComplete = False, woDesiredVerified = False,
     woProtectionVerified = False\<rparr>"

text \<open>\<open>ByteAccess\<close>: a read gives the bytes or fails. Null functions are \<open>None\<close>.\<close>

type_synonym 'e reader_fn = "'e \<Rightarrow> bytes option \<times> 'e"
type_synonym 'e writer_fn = "bytes \<Rightarrow> baseline \<Rightarrow> 'e \<Rightarrow> write_outcome \<times> 'e"
type_synonym 'e byte_access = "('e reader_fn \<times> 'e writer_fn) option"

datatype patch_result = Applied | Untouched | Restored | Retained | Catastrophic

record patch_state =
  psOriginal :: bytes
  psHook :: bytes
  psBaseline :: baseline
  psConfigured :: bool
  psInstalled :: bool
  psFreeEligible :: bool
  psCatastrophic :: bool
  psWriteAttempted :: bool
  psProtectionVerified :: bool

definition kDetourBytes :: nat where "kDetourBytes = 5"

definition cleared :: patch_state where
  "cleared = \<lparr>psOriginal = replicate kDetourBytes 0, psHook = replicate kDetourBytes 0,
     psBaseline = \<lparr>blValue = 0, blValid = False\<rparr>, psConfigured = False, psInstalled = False,
     psFreeEligible = False, psCatastrophic = False, psWriteAttempted = False,
     psProtectionVerified = False\<rparr>"

definition configure :: "bytes \<Rightarrow> bytes \<Rightarrow> baseline \<Rightarrow> patch_state" where
  "configure original hook bl = cleared\<lparr>psOriginal := original, psHook := hook, psBaseline := bl,
     psConfigured := True\<rparr>"

definition freeEligible :: "patch_state \<Rightarrow> bool" where
  "freeEligible ps \<longleftrightarrow> psFreeEligible ps \<and> \<not> psCatastrophic ps"

definition usable :: "patch_state \<Rightarrow> bool" where
  "usable ps \<longleftrightarrow> psConfigured ps \<and> blValid (psBaseline ps)"

definition untouched :: "patch_state \<Rightarrow> patch_result \<times> patch_state" where
  "untouched ps = (Untouched, ps\<lparr>psInstalled := False, psFreeEligible := True\<rparr>)"

definition retained :: "patch_state \<Rightarrow> patch_result \<times> patch_state" where
  "retained ps = (Retained, ps\<lparr>psInstalled := True, psFreeEligible := False\<rparr>)"

definition restored :: "patch_state \<Rightarrow> patch_result \<times> patch_state" where
  "restored ps =
     (if psWriteAttempted ps \<and> \<not> psProtectionVerified ps then retained ps
      else (Restored, ps\<lparr>psInstalled := False, psFreeEligible := True\<rparr>))"

definition markCatastrophic :: "patch_state \<Rightarrow> patch_result \<times> patch_state" where
  "markCatastrophic ps =
     (Catastrophic, ps\<lparr>psCatastrophic := True, psInstalled := True, psFreeEligible := False\<rparr>)"

definition classifyOriginal :: "patch_state \<Rightarrow> patch_result \<times> patch_state" where
  "classifyOriginal ps =
     (if \<not> psWriteAttempted ps then untouched ps
      else if psProtectionVerified ps then restored ps else retained ps)"

definition write_target ::
  "'e writer_fn \<Rightarrow> bytes \<Rightarrow> patch_state \<times> 'e \<Rightarrow> write_outcome \<times> patch_state \<times> 'e" where
  "write_target wr bs pe =
     (case wr bs (psBaseline (fst pe)) (snd pe) of
        (oc, e) \<Rightarrow>
          (oc, if woAttempted oc
               then (fst pe)\<lparr>psWriteAttempted := True, psProtectionVerified := woProtectionVerified oc\<rparr>
               else fst pe, e))"

definition with_env :: "'e \<Rightarrow> patch_result \<times> patch_state \<Rightarrow> patch_result \<times> patch_state \<times> 'e" where
  "with_env e rp = (fst rp, snd rp, e)"

definition patch_rollback ::
  "'e reader_fn \<Rightarrow> 'e writer_fn \<Rightarrow> patch_state \<Rightarrow> 'e \<Rightarrow> patch_result \<times> patch_state \<times> 'e" where
  "patch_rollback rd wr ps e =
     (case write_target wr (psOriginal ps) (ps, e) of
        (_, ps1, e1) \<Rightarrow>
          (case rd e1 of
             (r1, e2) \<Rightarrow>
               if r1 = Some (psOriginal ps1) then with_env e2 (classifyOriginal ps1)
               else (case rd e2 of
                       (r2, e3) \<Rightarrow>
                         if r2 = Some (psHook ps1) then with_env e3 (retained ps1)
                         else with_env e3 (markCatastrophic ps1))))"

definition patch :: "'e byte_access \<Rightarrow> patch_state \<Rightarrow> 'e \<Rightarrow> patch_result \<times> patch_state \<times> 'e" where
  "patch access ps e =
     (case access of
        None \<Rightarrow> (Catastrophic, ps, e)
      | Some (rd, wr) \<Rightarrow>
          if \<not> usable ps \<or> psCatastrophic ps then (Catastrophic, ps, e)
          else
            (case rd e of
               (None, e1) \<Rightarrow> with_env e1 (markCatastrophic ps)
             | (Some current, e1) \<Rightarrow>
                 if current = psHook ps
                 then (Applied, ps\<lparr>psInstalled := True, psFreeEligible := False\<rparr>, e1)
                 else if current \<noteq> psOriginal ps then with_env e1 (markCatastrophic ps)
                 else
                   (case write_target wr (psHook ps) (ps, e1) of
                      (oc, ps1, e2) \<Rightarrow>
                        (case rd e2 of
                           (r, e3) \<Rightarrow>
                             if r = Some (psHook ps1)
                             then (if woReportedComplete oc \<and> woDesiredVerified oc \<and> woProtectionVerified oc
                                   then Applied else Retained,
                                   ps1\<lparr>psInstalled := True, psFreeEligible := False\<rparr>, e3)
                             else if r = Some (psOriginal ps1) then with_env e3 (classifyOriginal ps1)
                             else patch_rollback rd wr ps1 e3))))"

text \<open>\<open>restore\<close>: at most three attempts.\<close>

fun restore_loop ::
  "nat \<Rightarrow> 'e reader_fn \<Rightarrow> 'e writer_fn \<Rightarrow> patch_state \<Rightarrow> 'e \<Rightarrow> patch_result \<times> patch_state \<times> 'e" where
  "restore_loop 0 rd wr ps e = with_env e (retained ps)"
| "restore_loop (Suc n) rd wr ps e =
     (case rd e of
        (None, e1) \<Rightarrow> with_env e1 (markCatastrophic ps)
      | (Some current, e1) \<Rightarrow>
          if current = psOriginal ps \<and> (\<not> psWriteAttempted ps \<or> psProtectionVerified ps)
          then with_env e1 (if psWriteAttempted ps then restored ps else untouched ps)
          else if current \<noteq> psOriginal ps \<and> current \<noteq> psHook ps then with_env e1 (markCatastrophic ps)
          else
            (case write_target wr (psOriginal ps) (ps, e1) of
               (_, ps1, e2) \<Rightarrow>
                 (case rd e2 of
                    (None, e3) \<Rightarrow> with_env e3 (markCatastrophic ps1)
                  | (Some current2, e3) \<Rightarrow>
                      if current2 = psOriginal ps1
                      then (if \<not> psWriteAttempted ps1 \<or> psProtectionVerified ps1
                            then with_env e3 (if psWriteAttempted ps1 then restored ps1 else untouched ps1)
                            else restore_loop n rd wr ps1 e3)
                      else if current2 \<noteq> psHook ps1 then with_env e3 (markCatastrophic ps1)
                      else restore_loop n rd wr ps1 e3)))"

definition restore :: "'e byte_access \<Rightarrow> patch_state \<Rightarrow> 'e \<Rightarrow> patch_result \<times> patch_state \<times> 'e" where
  "restore access ps e =
     (case access of
        None \<Rightarrow> (Catastrophic, ps, e)
      | Some (rd, wr) \<Rightarrow>
          if \<not> usable ps \<or> psCatastrophic ps then (Catastrophic, ps, e)
          else restore_loop 3 rd wr ps e)"

text \<open>\<open>writeWithRetainedBaseline\<close>: the four callbacks, and at most \<open>retryCount\<close> attempts.\<close>

record 'e write_callbacks =
  cbMakeWritable :: "'e \<Rightarrow> bool \<times> 'e"
  cbWrite :: "bytes \<Rightarrow> 'e \<Rightarrow> nat \<times> 'e"
  cbRead :: "'e reader_fn"
  cbRestoreBaseline :: "baseline \<Rightarrow> 'e \<Rightarrow> bool \<times> 'e"

fun write_retry_loop ::
  "nat \<Rightarrow> 'e write_callbacks \<Rightarrow> bytes \<Rightarrow> baseline \<Rightarrow> write_outcome \<Rightarrow> 'e \<Rightarrow> write_outcome \<times> 'e" where
  "write_retry_loop 0 cb bs bl oc e = (oc, e)"
| "write_retry_loop (Suc n) cb bs bl oc e =
     (case cbMakeWritable cb e of
        (False, e1) \<Rightarrow> if woAttempted oc then (oc, e1) else write_retry_loop n cb bs bl oc e1
      | (True, e1) \<Rightarrow>
          (case cbWrite cb bs e1 of
             (written, e2) \<Rightarrow>
               (case cbRead cb e2 of
                  (observed, e3) \<Rightarrow>
                    (case cbRestoreBaseline cb bl e3 of
                       (ok, e4) \<Rightarrow>
                         (let oc' = \<lparr>woAttempted = True, woReportedComplete = (written = length bs),
                                     woDesiredVerified = (observed = Some bs), woProtectionVerified = ok\<rparr>
                          in if ok then (oc', e4) else write_retry_loop n cb bs bl oc' e4)))))"

definition writeWithRetainedBaseline ::
  "'e write_callbacks option \<Rightarrow> nat \<Rightarrow> bytes \<Rightarrow> baseline \<Rightarrow> 'e \<Rightarrow> write_outcome \<times> 'e" where
  "writeWithRetainedBaseline callbacks retryCount bs bl e =
     (case callbacks of
        None \<Rightarrow> (no_outcome, e)
      | Some cb \<Rightarrow>
          if length bs \<noteq> kDetourBytes \<or> \<not> blValid bl \<or> retryCount = 0 then (no_outcome, e)
          else write_retry_loop retryCount cb bs bl no_outcome e)"

section \<open>What a patch result tells\<close>

text \<open>A read gives the bytes that are there and changes none of them.\<close>

definition honest :: "('e \<Rightarrow> bytes) \<Rightarrow> 'e reader_fn \<Rightarrow> bool" where
  "honest mem rd \<longleftrightarrow> (\<forall>e. mem (snd (rd e)) = mem e \<and> (\<forall>b. fst (rd e) = Some b \<longrightarrow> b = mem e))"

lemma honestD: "honest mem rd \<Longrightarrow> rd e = (r, e') \<Longrightarrow> mem e' = mem e \<and> (\<forall>b. r = Some b \<longrightarrow> b = mem e)"
  unfolding honest_def by (metis fst_conv snd_conv)

text \<open>What every answer of the patch state guarantees: the flags agree with the answer, and the
  target's bytes with the flags.\<close>

definition result_sound :: "('e \<Rightarrow> bytes) \<Rightarrow> patch_state \<Rightarrow> patch_result \<times> patch_state \<times> 'e \<Rightarrow> bool" where
  "result_sound mem ps out = (case out of (res, ps', e') \<Rightarrow>
     psOriginal ps' = psOriginal ps \<and> psHook ps' = psHook ps \<and> usable ps' = usable ps \<and>
     (res = Applied \<longrightarrow> mem e' = psHook ps \<and> psInstalled ps') \<and>
     (res \<in> {Untouched, Restored} \<longleftrightarrow> freeEligible ps') \<and>
     (freeEligible ps' \<longrightarrow> mem e' = psOriginal ps \<and> \<not> psInstalled ps' \<and>
        (psWriteAttempted ps' \<longrightarrow> psProtectionVerified ps')) \<and>
     (res = Retained \<longrightarrow> mem e' \<in> {psOriginal ps, psHook ps} \<and> psInstalled ps') \<and>
     (res = Catastrophic \<longleftrightarrow> psCatastrophic ps'))"

definition same_patch :: "patch_state \<Rightarrow> patch_state \<Rightarrow> bool" where
  "same_patch ps ps' \<longleftrightarrow> psOriginal ps' = psOriginal ps \<and> psHook ps' = psHook ps \<and>
     psConfigured ps' = psConfigured ps \<and> psBaseline ps' = psBaseline ps \<and> psCatastrophic ps' = psCatastrophic ps"

lemma write_target_same: "write_target wr bs (ps, e) = (oc, ps', e') \<Longrightarrow> same_patch ps ps'"
  by (auto simp: write_target_def same_patch_def split: prod.splits if_splits)

lemma result_sound_trans: "same_patch ps ps' \<Longrightarrow> result_sound mem ps' out \<Longrightarrow> result_sound mem ps out"
  by (auto simp: result_sound_def same_patch_def usable_def)

lemmas answer_defs = with_env_def untouched_def retained_def restored_def markCatastrophic_def
  classifyOriginal_def result_sound_def freeEligible_def usable_def

lemma answers_sound:
  assumes "\<not> psCatastrophic ps"
  shows "result_sound mem ps (with_env e (markCatastrophic ps))"
    "mem e = psHook ps \<Longrightarrow> result_sound mem ps (with_env e (retained ps))"
    "mem e = psOriginal ps \<Longrightarrow> result_sound mem ps (with_env e (retained ps))"
    "mem e = psOriginal ps \<Longrightarrow> result_sound mem ps (with_env e (classifyOriginal ps))"
    "mem e = psOriginal ps \<Longrightarrow> \<not> psWriteAttempted ps \<Longrightarrow> result_sound mem ps (with_env e (untouched ps))"
    "mem e = psOriginal ps \<Longrightarrow> psProtectionVerified ps \<Longrightarrow> result_sound mem ps (with_env e (restored ps))"
    "mem e = psHook ps \<Longrightarrow> res \<in> {Applied, Retained} \<Longrightarrow>
       result_sound mem ps (res, ps\<lparr>psInstalled := True, psFreeEligible := False\<rparr>, e)"
  using assms by (auto simp: answer_defs)

lemma patch_rollback_sound:
  assumes H: "honest mem rd" and C: "\<not> psCatastrophic ps"
  shows "result_sound mem ps (patch_rollback rd wr ps e)"
proof -
  obtain oc ps1 e1 where W: "write_target wr (psOriginal ps) (ps, e) = (oc, ps1, e1)" by (metis prod_cases3)
  obtain r1 e2 where R1: "rd e1 = (r1, e2)" by force
  obtain r2 e3 where R2: "rd e2 = (r2, e3)" by force
  note same = write_target_same [OF W]
  have C1: "\<not> psCatastrophic ps1" using C same by (simp add: same_patch_def)
  note h = honestD [OF H R1] honestD [OF H R2]
  have "result_sound mem ps1 (patch_rollback rd wr ps e)"
    using h by (auto simp: patch_rollback_def W R1 R2 intro!: answers_sound(1,2,4) [OF C1])
  with same show ?thesis by (rule result_sound_trans)
qed

lemma patch_sound:
  assumes H: "honest mem rd" and U: "usable ps" "\<not> psCatastrophic ps"
  shows "result_sound mem ps (patch (Some (rd, wr)) ps e)"
proof -
  obtain r e1 where R: "rd e = (r, e1)" by force
  note h = honestD [OF H R]
  show ?thesis
  proof (cases "r = Some (psOriginal ps) \<and> psOriginal ps \<noteq> psHook ps")
    case False
    show ?thesis
    proof (cases "r = Some (psHook ps)")
      case True
      then show ?thesis using answers_sound(7) [OF U(2), of mem e1 Applied] h U by (simp add: patch_def R)
    next
      case hook: False
      with False have "patch (Some (rd, wr)) ps e = with_env e1 (markCatastrophic ps)"
        using U by (cases r) (auto simp: patch_def R)
      then show ?thesis using answers_sound(1) [OF U(2)] by simp
    qed
  next
    case True
    obtain oc ps1 e2 where W: "write_target wr (psHook ps) (ps, e1) = (oc, ps1, e2)" by (metis prod_cases3)
    obtain r1 e3 where R1: "rd e2 = (r1, e3)" by force
    note same = write_target_same [OF W] and h1 = honestD [OF H R1]
    have C1: "\<not> psCatastrophic ps1" using U same by (simp add: same_patch_def)
    have eq: "patch (Some (rd, wr)) ps e =
      (if r1 = Some (psHook ps1)
       then (if woReportedComplete oc \<and> woDesiredVerified oc \<and> woProtectionVerified oc then Applied else Retained,
             ps1\<lparr>psInstalled := True, psFreeEligible := False\<rparr>, e3)
       else if r1 = Some (psOriginal ps1) then with_env e3 (classifyOriginal ps1)
       else patch_rollback rd wr ps1 e3)"
      using True U by (simp add: patch_def R W R1 cong: if_cong)
    have "result_sound mem ps1 (patch (Some (rd, wr)) ps e)"
    proof (cases "r1 = Some (psHook ps1)")
      case True
      then have "mem e3 = psHook ps1" using h1 by simp
      then show ?thesis unfolding eq using True answers_sound(7) [OF C1, of mem e3] by simp
    next
      case False
      then show ?thesis unfolding eq using h1 answers_sound(4) [OF C1, of mem e3] patch_rollback_sound [OF H C1, of wr e3]
        by simp
    qed
    with same show ?thesis by (rule result_sound_trans)
  qed
qed

lemma restore_loop_sound:
  assumes "honest mem rd" "\<not> psCatastrophic ps" "n = 0 \<Longrightarrow> mem e \<in> {psOriginal ps, psHook ps}"
  shows "result_sound mem ps (restore_loop n rd wr ps e)"
  using assms(2,3)
proof (induction n arbitrary: ps e)
  case 0
  then show ?case using answers_sound(2,3) by auto
next
  case (Suc n)
  note H = assms(1) and C = Suc.prems(1)
  obtain r e1 where R: "rd e = (r, e1)" by force
  note h = honestD [OF H R]
  show ?case
  proof (cases r)
    case None
    then show ?thesis using answers_sound(1) [OF C] by (simp add: R)
  next
    case (Some cur)
    then have cur: "mem e1 = cur" using h by auto
    consider (fin) "cur = psOriginal ps" "\<not> psWriteAttempted ps \<or> psProtectionVerified ps"
      | (bad) "cur \<noteq> psOriginal ps" "cur \<noteq> psHook ps"
      | (go) "\<not> (cur = psOriginal ps \<and> (\<not> psWriteAttempted ps \<or> psProtectionVerified ps))"
          "\<not> (cur \<noteq> psOriginal ps \<and> cur \<noteq> psHook ps)" by blast
    then show ?thesis
    proof cases
      case fin
      then show ?thesis using cur by (auto simp: R Some intro!: answers_sound(5,6) [OF C])
    next
      case bad
      then show ?thesis using answers_sound(1) [OF C] by (simp add: R Some)
    next
      case go
      obtain oc ps1 e2 where W: "write_target wr (psOriginal ps) (ps, e1) = (oc, ps1, e2)" by (metis prod_cases3)
      obtain r2 e3 where R2: "rd e2 = (r2, e3)" by force
      note same = write_target_same [OF W] and h2 = honestD [OF H R2]
      have C1: "\<not> psCatastrophic ps1" using C same by (simp add: same_patch_def)
      have eq: "restore_loop (Suc n) rd wr ps e =
        (case r2 of None \<Rightarrow> with_env e3 (markCatastrophic ps1)
         | Some c2 \<Rightarrow> if c2 = psOriginal ps1
            then (if \<not> psWriteAttempted ps1 \<or> psProtectionVerified ps1
                  then with_env e3 (if psWriteAttempted ps1 then restored ps1 else untouched ps1)
                  else restore_loop n rd wr ps1 e3)
            else if c2 \<noteq> psHook ps1 then with_env e3 (markCatastrophic ps1)
            else restore_loop n rd wr ps1 e3)"
        by (simp only: restore_loop.simps R Some W R2 prod.case option.case if_not_P [OF go(1)] if_not_P [OF go(2)])
      have "result_sound mem ps1 (restore_loop (Suc n) rd wr ps e)"
        unfolding eq using h2 by (auto split: option.splits intro!: answers_sound(1,5,6) [OF C1] Suc.IH [OF C1])
      with same show ?thesis by (rule result_sound_trans)
    qed
  qed
qed

lemma restore_sound:
  assumes "honest mem rd" "usable ps" "\<not> psCatastrophic ps"
  shows "result_sound mem ps (restore (Some (rd, wr)) ps e)"
  using restore_loop_sound [OF assms(1,3), of 3] assms by (simp add: restore_def)

end
