(* ===== verification/AppInfoLifecycle.thy ===== *)
theory AppInfoLifecycle
  imports AppInfoHook
begin

text \<open>
  The life of the hook: \<open>Lifecycle\<close> of \<open>src/feats/appinfostate.hpp\<close>, \<open>installLocked\<close>,
  \<open>setup\<close>, \<open>remove\<close> of \<open>appinfostate.cpp\<close>, and the hook's readers. What precedes the first
  write to Steam's code (patterns, disassembly, the trampoline's bytes) only decides where the
  installation fails and is one argument; the memory is that of the patching theory.
\<close>

section \<open>Relative jumps\<close>

text \<open>\<open>lm_address_t\<close> has 32 bits in the shipped build, the arithmetic is on 64-bit signed numbers.\<close>

definition rel32Target :: "u32 \<Rightarrow> bytes \<Rightarrow> u32 option" where
  "rel32Target instruction bs =
     (let displacement = sint (rd32 bs 1);
          nxt = uint (instruction + of_nat kDetourBytes);
          resolved = nxt + displacement
      in if resolved < 0 \<or> resolved > 2 ^ 32 - 1 then None else Some (of_int resolved))"

definition buildRel32Jump :: "u32 \<Rightarrow> u32 \<Rightarrow> bytes option" where
  "buildRel32Jump src dst =
     (let nxt = uint (src + of_nat kDetourBytes);
          delta = uint dst - nxt
      in if delta < - (2 ^ 31) \<or> delta > 2 ^ 31 - 1 then None
         else Some (0xE9 # le32 (of_int delta)))"

lemma rd32_Cons [simp]: "rd32 (x # le32 w) (Suc 0) = w"
  using rd32_append [of "[x]" w "[]"] by simp

text \<open>a jump that can be built leads where it was built to.\<close>

theorem jump_roundtrip:
  assumes "buildRel32Jump src dst = Some bs"
  shows "rel32Target src bs = Some dst \<and> length bs = kDetourBytes"
proof -
  let ?n = "uint (src + of_nat kDetourBytes)" and ?d = "uint dst - uint (src + of_nat kDetourBytes)"
  have r: "- (2 ^ 31) \<le> ?d" "?d < 2 ^ 31" and bs: "bs = 0xE9 # le32 (of_int ?d)"
    using assms by (auto simp: buildRel32Jump_def Let_def split: if_splits)
  have "sint (word_of_int ?d :: u32) = ?d"
    using r by (subst sint_sbintrunc') (simp add: signed_take_bit_int_eq_self)
  then have "?n + sint (rd32 bs 1) = uint dst" by (simp add: bs)
  moreover have "uint dst < 2 ^ 32" "0 \<le> uint dst" using uint_lt2p [of dst] by simp_all
  ultimately show ?thesis
    by (simp add: rel32Target_def Let_def bs length_le32 kDetourBytes_def)
qed

lemma jump_roundtrip_witness: "rel32Target 0x1000 (the (buildRel32Jump 0x1000 0x2000)) = Some 0x2000"
proof -
  obtain bs where "buildRel32Jump 0x1000 0x2000 = Some bs"
    by (simp add: buildRel32Jump_def kDetourBytes_def)
  from jump_roundtrip [OF this] this show ?thesis by simp
qed

section \<open>The lifecycle\<close>

datatype phase = Fresh | Installing | Provisional | Active | PhaseDisabled | DisabledHooked | PhaseCatastrophic

record lifecycle =
  lcPhase :: phase
  lcInstallAttempted :: bool
  lcHookInstalled :: bool
  lcOriginalCallable :: bool
  lcManaged :: bool
  lcReaders :: u32

definition new_lifecycle :: lifecycle where
  "new_lifecycle = \<lparr>lcPhase = Fresh, lcInstallAttempted = False, lcHookInstalled = False,
     lcOriginalCallable = False, lcManaged = False, lcReaders = 0\<rparr>"

definition beginInstall :: "lifecycle \<Rightarrow> bool \<times> lifecycle" where
  "beginInstall l =
     (if lcInstallAttempted l then (False, l)
      else (True, l\<lparr>lcInstallAttempted := True, lcPhase := Installing\<rparr>))"

definition failBeforeHook :: "lifecycle \<Rightarrow> lifecycle" where
  "failBeforeHook l =
     (let l1 = l\<lparr>lcManaged := False\<rparr> in
      if \<not> lcHookInstalled l then l1\<lparr>lcPhase := PhaseDisabled\<rparr> else l1)"

definition markProvisional :: "bool \<Rightarrow> lifecycle \<Rightarrow> lifecycle" where
  "markProvisional callable l =
     l\<lparr>lcPhase := Provisional, lcHookInstalled := True, lcOriginalCallable := callable, lcManaged := False\<rparr>"

definition activate :: "lifecycle \<Rightarrow> bool \<times> lifecycle" where
  "activate l =
     (if lcPhase l \<noteq> Provisional \<or> \<not> lcHookInstalled l \<or> \<not> lcOriginalCallable l then (False, l)
      else (True, l\<lparr>lcPhase := Active, lcManaged := True\<rparr>))"

definition disableManaged :: "lifecycle \<Rightarrow> lifecycle" where
  "disableManaged l = l\<lparr>lcManaged := False\<rparr>"

definition canRebind :: "lifecycle \<Rightarrow> bool" where
  "canRebind l \<longleftrightarrow> lcPhase l = Active \<and> lcManaged l"

definition finishUnhook :: "bool \<Rightarrow> lifecycle \<Rightarrow> bool \<times> lifecycle" where
  "finishUnhook success l =
     (let l1 = l\<lparr>lcManaged := False\<rparr> in
      if \<not> lcHookInstalled l then (True, l1)
      else if lcPhase l = PhaseCatastrophic then (False, l1)
      else if \<not> success then (False, l1\<lparr>lcPhase := DisabledHooked\<rparr>)
      else (True, l1\<lparr>lcPhase := PhaseDisabled, lcHookInstalled := False, lcOriginalCallable := False\<rparr>))"

definition markLifecycleCatastrophic :: "lifecycle \<Rightarrow> lifecycle" where
  "markLifecycleCatastrophic l = l\<lparr>lcManaged := False, lcPhase := PhaseCatastrophic, lcHookInstalled := True\<rparr>"

definition enterReader :: "lifecycle \<Rightarrow> lifecycle" where
  "enterReader l = l\<lparr>lcReaders := lcReaders l + 1\<rparr>"

definition leaveReader :: "lifecycle \<Rightarrow> lifecycle" where
  "leaveReader l = l\<lparr>lcReaders := lcReaders l - 1\<rparr>"

definition readersDrained :: "lifecycle \<Rightarrow> bool" where
  "readersDrained l \<longleftrightarrow> lcReaders l = 0"

definition quiescentForUnhook :: "lifecycle \<Rightarrow> bool" where
  "quiescentForUnhook l \<longleftrightarrow> lcHookInstalled l \<and> \<not> lcManaged l \<and> readersDrained l"

section \<open>Installation and removal\<close>

text \<open>
  The file's globals: the lifecycle, the patch state, whether \<open>g_store\<close> is bound, whether
  \<open>g_original\<close> is published, whether the baseline protection is retained, and whether the
  trampoline page is allocated.
\<close>

record hook_state =
  hkLifecycle :: lifecycle
  hkPatch :: patch_state
  hkStore :: bool
  hkOriginal :: bool
  hkBaseline :: bool
  hkTrampoline :: bool

definition init_hook :: hook_state where
  "init_hook = \<lparr>hkLifecycle = new_lifecycle, hkPatch = cleared, hkStore = False, hkOriginal = False,
     hkBaseline = False, hkTrampoline = False\<rparr>"

text \<open>How far the preparation gets: a check fails before a page is allocated, the page is refused or
  unusable, a write, a check or an exception fails with the page in hand, or all is ready.\<close>

datatype preparation = NotReady | PageRefused | PageDropped | PageWasted | Ready bytes bytes baseline

definition targetAccess :: "'e reader_fn \<Rightarrow> 'e writer_fn \<Rightarrow> hook_state \<Rightarrow> 'e byte_access" where
  "targetAccess rd wr s = (if \<not> hkBaseline s then None else Some (rd, wr))"

text \<open>The page's free may fail; it is forgotten either way.\<close>

definition releaseTrampoline :: "hook_state \<Rightarrow> hook_state" where
  "releaseTrampoline s = s\<lparr>hkTrampoline := False\<rparr>"

definition discard :: "hook_state \<Rightarrow> hook_state" where
  "discard s = releaseTrampoline (s\<lparr>hkStore := False, hkOriginal := False, hkBaseline := False, hkPatch := cleared\<rparr>)"

definition discardBeforePatch :: "hook_state \<Rightarrow> hook_state" where
  "discardBeforePatch s = (discard s)\<lparr>hkLifecycle := failBeforeHook (hkLifecycle s)\<rparr>"

definition after_unhook :: "bool \<Rightarrow> hook_state \<Rightarrow> hook_state" where
  "after_unhook ok s = s\<lparr>hkLifecycle := snd (finishUnhook ok (hkLifecycle s))\<rparr>"

text \<open>The three ways \<open>installLocked\<close> and \<open>remove\<close> settle a patch result.\<close>

definition settle :: "patch_result \<Rightarrow> hook_state \<Rightarrow> hook_state" where
  "settle res s =
     (if res = Restored \<or> res = Untouched then discard (after_unhook True s)
      else if res = Catastrophic then s\<lparr>hkLifecycle := markLifecycleCatastrophic (hkLifecycle s)\<rparr>
      else after_unhook False s)"

definition installLocked ::
  "preparation \<Rightarrow> 'e reader_fn \<Rightarrow> 'e writer_fn \<Rightarrow> hook_state \<times> 'e \<Rightarrow> bool \<times> hook_state \<times> 'e" where
  "installLocked prep rd wr se =
     (case se of (s, e) \<Rightarrow>
       (case prep of
          Ready original hook bl \<Rightarrow>
            (let s1 = s\<lparr>hkTrampoline := True, hkBaseline := True, hkStore := True, hkOriginal := True,
                        hkPatch := configure original hook bl,
                        hkLifecycle := markProvisional True (hkLifecycle s)\<rparr>
             in case patch (targetAccess rd wr s1) (hkPatch s1) e of
                  (res, ps, e1) \<Rightarrow>
                    (let s2 = s1\<lparr>hkPatch := ps\<rparr> in
                     if res = Applied then
                       (case activate (hkLifecycle s2) of
                          (True, l) \<Rightarrow> (True, s2\<lparr>hkLifecycle := l\<rparr>, e1)
                        | (False, l) \<Rightarrow>
                            (case restore (targetAccess rd wr s2) (hkPatch s2) e1 of
                               (rollback, ps2, e2) \<Rightarrow>
                                 (False, settle rollback (s2\<lparr>hkPatch := ps2, hkStore := False\<rparr>), e2)))
                     else (False, settle res (s2\<lparr>hkStore := False\<rparr>), e1)))
        | NotReady \<Rightarrow> (False, discardBeforePatch s, e)
        | PageRefused \<Rightarrow> (False, discardBeforePatch s, e)
        | PageDropped \<Rightarrow> (False, discardBeforePatch (releaseTrampoline (s\<lparr>hkTrampoline := True\<rparr>)), e)
        | PageWasted \<Rightarrow> (False, discardBeforePatch (s\<lparr>hkTrampoline := True, hkBaseline := True\<rparr>), e)))"

definition setup_hook ::
  "preparation \<Rightarrow> 'e reader_fn \<Rightarrow> 'e writer_fn \<Rightarrow> hook_state \<times> 'e \<Rightarrow> bool \<times> hook_state \<times> 'e" where
  "setup_hook prep rd wr se =
     (case se of (s, e) \<Rightarrow>
       (if canRebind (hkLifecycle s) then (True, s\<lparr>hkStore := True\<rparr>, e)
        else if lcInstallAttempted (hkLifecycle s) then (False, s, e)
        else (case beginInstall (hkLifecycle s) of
                (False, l) \<Rightarrow> (False, s\<lparr>hkLifecycle := l\<rparr>, e)
              | (True, l) \<Rightarrow> installLocked prep rd wr (s\<lparr>hkLifecycle := l\<rparr>, e))))"

text \<open>\<open>remove\<close> in two steps: disable, then, once no reader is inside, restore.\<close>

definition remove_begin :: "hook_state \<Rightarrow> hook_state" where
  "remove_begin s = s\<lparr>hkLifecycle := disableManaged (hkLifecycle s), hkStore := False\<rparr>"

definition remove_finish ::
  "'e reader_fn \<Rightarrow> 'e writer_fn \<Rightarrow> hook_state \<times> 'e \<Rightarrow> hook_state \<times> 'e" where
  "remove_finish rd wr se =
     (case se of (s, e) \<Rightarrow>
       (if \<not> lcHookInstalled (hkLifecycle s) then (s, e)
        else (case restore (targetAccess rd wr s) (hkPatch s) e of
                (res, ps, e1) \<Rightarrow> (settle res (s\<lparr>hkPatch := ps\<rparr>), e1))))"

text \<open>The transitions of the whole: calls of \<open>setup\<close> and \<open>remove\<close> under the lifecycle mutex, a
  thread entering and leaving the hook. Reads and writes behave differently at every call.\<close>

inductive hook_step ::
  "('e \<Rightarrow> bytes) \<Rightarrow> bytes \<Rightarrow> hook_state \<times> 'e \<Rightarrow> hook_state \<times> 'e \<Rightarrow> bool"
  for mem :: "'e \<Rightarrow> bytes" and orig :: bytes where
  hs_setup: "honest mem rd \<Longrightarrow> prep \<in> {NotReady, PageRefused, PageDropped, PageWasted} \<or>
      (\<exists>hook bl. prep = Ready orig hook bl \<and> blValid bl) \<Longrightarrow>
    hook_step mem orig se (snd (setup_hook prep rd wr se))"
| hs_disable: "hook_step mem orig (s, e) (remove_begin s, e)"
| hs_finish: "honest mem rd \<Longrightarrow> readersDrained (hkLifecycle s) \<Longrightarrow>
    hook_step mem orig (s, e) (remove_finish rd wr (s, e))"
| hs_enter: "hook_step mem orig (s, e) (s\<lparr>hkLifecycle := enterReader (hkLifecycle s)\<rparr>, e)"
| hs_leave: "lcReaders (hkLifecycle s) \<noteq> 0 \<Longrightarrow>
    hook_step mem orig (s, e) (s\<lparr>hkLifecycle := leaveReader (hkLifecycle s)\<rparr>, e)"

inductive hook_reachable :: "('e \<Rightarrow> bytes) \<Rightarrow> bytes \<Rightarrow> hook_state \<times> 'e \<Rightarrow> bool"
  for mem :: "'e \<Rightarrow> bytes" and orig :: bytes where
  hr_start: "mem e = orig \<Longrightarrow> hook_reachable mem orig (init_hook, e)"
| hr_step: "hook_reachable mem orig se \<Longrightarrow> hook_step mem orig se se' \<Longrightarrow> hook_reachable mem orig se'"

section \<open>The hook never leads nowhere\<close>

text \<open>
  While the lifecycle says a hook is installed, the trampoline and its pointer are live, and unless
  the patch was given up it can still be restored; otherwise Steam's own bytes are in place.
\<close>

definition hook_ok :: "('e \<Rightarrow> bytes) \<Rightarrow> bytes \<Rightarrow> hook_state \<times> 'e \<Rightarrow> bool" where
  "hook_ok mem orig se \<longleftrightarrow> (case se of (s, e) \<Rightarrow>
     (let l = hkLifecycle s in
      (lcManaged l \<longrightarrow> lcPhase l = Active \<and> hkStore s) \<and>
      (lcPhase l = Active \<longrightarrow> lcHookInstalled l \<and> lcOriginalCallable l \<and> mem e = psHook (hkPatch s)) \<and>
      (if lcHookInstalled l
       then hkTrampoline s \<and> hkOriginal s \<and>
         (if lcPhase l = PhaseCatastrophic then psCatastrophic (hkPatch s) else
            hkBaseline s \<and> usable (hkPatch s) \<and> \<not> psCatastrophic (hkPatch s) \<and> psOriginal (hkPatch s) = orig)
       else mem e = orig \<and> \<not> lcOriginalCallable l) \<and>
      (\<not> lcInstallAttempted l \<longrightarrow> \<not> lcHookInstalled l \<and> lcPhase l = Fresh)))"

lemmas lifecycle_defs = beginInstall_def failBeforeHook_def markProvisional_def activate_def disableManaged_def
  canRebind_def finishUnhook_def markLifecycleCatastrophic_def enterReader_def leaveReader_def readersDrained_def

lemmas hook_defs = discard_def discardBeforePatch_def releaseTrampoline_def after_unhook_def settle_def
  targetAccess_def Let_def

lemma hook_ok_init: "mem e = orig \<Longrightarrow> hook_ok mem orig (init_hook, e)"
  by (simp add: hook_ok_def init_hook_def new_lifecycle_def)

lemma settle_ok:
  assumes "result_sound mem p (res, hkPatch s, e)" "usable p" "psOriginal p = orig"
    "lcHookInstalled (hkLifecycle s)" "lcPhase (hkLifecycle s) \<noteq> PhaseCatastrophic" "hkTrampoline s" "hkOriginal s"
    "hkBaseline s" "lcInstallAttempted (hkLifecycle s)"
  shows "hook_ok mem orig (settle res s, e)"
proof (cases "res = Restored \<or> res = Untouched")
  case True
  then have "mem e = orig" using assms(1,3) by (auto simp: result_sound_def)
  then show ?thesis using True assms(4,5,9)
    by (simp add: hook_ok_def settle_def discard_def releaseTrampoline_def after_unhook_def finishUnhook_def Let_def)
next
  case False
  show ?thesis
  proof (cases "res = Catastrophic")
    case True
    then have "psCatastrophic (hkPatch s)" using assms(1) by (simp add: result_sound_def)
    then show ?thesis using True assms(4-)
      by (simp add: hook_ok_def settle_def markLifecycleCatastrophic_def Let_def)
  next
    case no: False
    then have "\<not> psCatastrophic (hkPatch s)" "usable (hkPatch s)" "psOriginal (hkPatch s) = orig"
      using assms(1-3) by (simp_all add: result_sound_def)
    moreover have "settle res s = s\<lparr>hkLifecycle := (hkLifecycle s)\<lparr>lcManaged := False, lcPhase := DisabledHooked\<rparr>\<rparr>"
      using False no assms(4,5) by (simp add: settle_def after_unhook_def finishUnhook_def Let_def)
    ultimately show ?thesis using assms(4-) by (simp add: hook_ok_def Let_def)
  qed
qed

lemma discardBeforePatch_ok:
  assumes "\<not> lcHookInstalled (hkLifecycle s)" "\<not> lcOriginalCallable (hkLifecycle s)" "mem e = orig"
    "lcInstallAttempted (hkLifecycle s)"
  shows "hook_ok mem orig (discardBeforePatch s, e)"
  using assms by (simp add: hook_ok_def discardBeforePatch_def discard_def releaseTrampoline_def
      failBeforeHook_def Let_def)

lemma setup_ok:
  assumes "hook_ok mem orig (s, e)" "honest mem rd"
    "prep \<in> {NotReady, PageRefused, PageDropped, PageWasted} \<or> (\<exists>hook bl. prep = Ready orig hook bl \<and> blValid bl)"
  shows "hook_ok mem orig (snd (setup_hook prep rd wr (s, e)))"
proof (cases "canRebind (hkLifecycle s) \<or> lcInstallAttempted (hkLifecycle s)")
  case True
  then show ?thesis using assms(1) by (auto simp: setup_hook_def hook_ok_def canRebind_def Let_def)
next
  case False
  then have fresh: "\<not> lcHookInstalled (hkLifecycle s)" "\<not> lcOriginalCallable (hkLifecycle s)" "mem e = orig"
    using assms(1) by (simp_all add: hook_ok_def Let_def)
  let ?s1 = "s\<lparr>hkLifecycle := (hkLifecycle s)\<lparr>lcInstallAttempted := True, lcPhase := Installing\<rparr>\<rparr>"
  have S: "setup_hook prep rd wr (s, e) = installLocked prep rd wr (?s1, e)"
    using False by (simp add: setup_hook_def beginInstall_def)
  show ?thesis
  proof (cases "\<exists>hook bl. prep = Ready orig hook bl \<and> blValid bl")
    case False
    then have "prep \<in> {NotReady, PageRefused, PageDropped, PageWasted}" using assms(3) by blast
    then show ?thesis using fresh unfolding S
      by (elim insertE) (simp_all add: installLocked_def releaseTrampoline_def discardBeforePatch_ok)
  next
    case True
    then obtain hook bl where prep: "prep = Ready orig hook bl" "blValid bl" by blast
    let ?p = "configure orig hook bl"
    have U: "usable ?p" "\<not> psCatastrophic ?p" "psOriginal ?p = orig" "psHook ?p = hook"
      using prep(2) by (simp_all add: configure_def usable_def cleared_def)
    obtain res ps e1 where P: "patch (Some (rd, wr)) ?p e = (res, ps, e1)" by (metis prod_cases3)
    note R = patch_sound [OF assms(2) U(1,2), of wr e, unfolded P]
    show ?thesis
    proof (cases "res = Applied")
      case True
      then show ?thesis using R U P unfolding S
        by (auto simp: prep installLocked_def hook_ok_def targetAccess_def lifecycle_defs result_sound_def)
    next
      case False
      let ?s2 = "?s1\<lparr>hkTrampoline := True, hkBaseline := True, hkOriginal := True,
        hkLifecycle := markProvisional True (hkLifecycle ?s1), hkPatch := ps, hkStore := False\<rparr>"
      have "snd (installLocked prep rd wr (?s1, e)) = (settle res ?s2, e1)"
        using False P by (simp add: prep installLocked_def targetAccess_def Let_def)
      moreover have "hook_ok mem orig (settle res ?s2, e1)"
        using R U by (intro settle_ok [where p = ?p]) (simp_all add: markProvisional_def)
      ultimately show ?thesis by (simp add: S)
    qed
  qed
qed

lemma remove_finish_ok:
  assumes "hook_ok mem orig (s, e)" "honest mem rd"
  shows "hook_ok mem orig (remove_finish rd wr (s, e))"
proof (cases "lcHookInstalled (hkLifecycle s)")
  case True
  obtain res ps e1 where P: "restore (targetAccess rd wr s) (hkPatch s) e = (res, ps, e1)" by (metis prod_cases3)
  have RF: "remove_finish rd wr (s, e) = (settle res (s\<lparr>hkPatch := ps\<rparr>), e1)"
    using True P by (simp add: remove_finish_def)
  show ?thesis
  proof (cases "lcPhase (hkLifecycle s) = PhaseCatastrophic")
    case cat: True
    then have "psCatastrophic (hkPatch s)" using assms(1) True by (simp add: hook_ok_def Let_def)
    then have "res = Catastrophic" "ps = hkPatch s" "e1 = e"
      using P by (auto simp: restore_def targetAccess_def split: if_splits)
    then show ?thesis unfolding RF using assms(1) True cat
      by (simp add: hook_ok_def settle_def markLifecycleCatastrophic_def Let_def)
  next
    case False
    then have U: "usable (hkPatch s)" "\<not> psCatastrophic (hkPatch s)" "psOriginal (hkPatch s) = orig" "hkBaseline s"
      "hkTrampoline s" "hkOriginal s" "lcInstallAttempted (hkLifecycle s)"
      using assms(1) True by (auto simp: hook_ok_def Let_def)
    have "result_sound mem (hkPatch s) (res, ps, e1)"
      using restore_sound [OF assms(2) U(1,2), of wr e] P U(4) by (simp add: targetAccess_def)
    then show ?thesis unfolding RF using U True False by (intro settle_ok) simp_all
  qed
qed (use assms in \<open>simp add: remove_finish_def\<close>)

lemma hook_reachable_ok: "hook_reachable mem orig se \<Longrightarrow> hook_ok mem orig se"
proof (induction rule: hook_reachable.induct)
  case (hr_start e)
  then show ?case by (rule hook_ok_init)
next
  case (hr_step se se')
  from hr_step.hyps(2) hr_step.IH show ?case
  proof cases
    case (hs_setup rd prep wr)
    then show ?thesis using hr_step.IH by (cases se) (simp add: setup_ok)
  next
    case (hs_disable s e)
    then show ?thesis using hr_step.IH
      by (simp add: hook_ok_def remove_begin_def disableManaged_def Let_def)
  next
    case (hs_finish rd s e wr)
    then show ?thesis using hr_step.IH by (simp add: remove_finish_ok)
  next
    case (hs_enter s e)
    then show ?thesis using hr_step.IH by (simp add: hook_ok_def enterReader_def Let_def)
  next
    case (hs_leave s e)
    then show ?thesis using hr_step.IH by (simp add: hook_ok_def leaveReader_def Let_def)
  qed
qed

text \<open>C31: as long as reads of the process memory are truthful, whatever its writes do: in every state of
  installations and removals, if Steam's entry is not byte for byte its own, the trampoline and the
  pointer the hook calls are live, and the lifecycle knows of the hook; the managed path is on only
  with the exact hook bytes in place and the store bound.\<close>

theorem hook_never_dangles:
  assumes "hook_reachable mem orig (s, e)"
  shows "(mem e \<noteq> orig \<longrightarrow> hkTrampoline s \<and> hkOriginal s \<and> lcHookInstalled (hkLifecycle s)) \<and>
    (lcManaged (hkLifecycle s) \<longrightarrow> mem e = psHook (hkPatch s) \<and> hkStore s \<and> lcPhase (hkLifecycle s) = Active)"
proof -
  note I = hook_reachable_ok [OF assms, unfolded hook_ok_def, simplified Let_def prod.case]
  show ?thesis using I by (auto split: if_splits)
qed

text \<open>A memory of five bytes whose writes always succeed.\<close>

definition plain_read :: "bytes reader_fn" where
  "plain_read e = (Some e, e)"

definition plain_write :: "bytes writer_fn" where
  "plain_write bs bl e =
     (\<lparr>woAttempted = True, woReportedComplete = True, woDesiredVerified = True, woProtectionVerified = True\<rparr>, bs)"

lemma plain_honest: "honest (\<lambda>e. e) plain_read"
  by (simp add: honest_def plain_read_def)

lemma plain_installed:
  "setup_hook (Ready [1, 2, 3, 4, 5] [9, 9, 9, 9, 9] \<lparr>blValue = 5, blValid = True\<rparr>) plain_read plain_write
     (init_hook, [1, 2, 3, 4, 5]) =
   (True, \<lparr>hkLifecycle = \<lparr>lcPhase = Active, lcInstallAttempted = True, lcHookInstalled = True,
        lcOriginalCallable = True, lcManaged = True, lcReaders = 0\<rparr>,
      hkPatch = (configure [1, 2, 3, 4, 5] [9, 9, 9, 9, 9] \<lparr>blValue = 5, blValid = True\<rparr>)\<lparr>psInstalled := True,
        psFreeEligible := False, psWriteAttempted := True, psProtectionVerified := True\<rparr>,
      hkStore = True, hkOriginal = True, hkBaseline = True, hkTrampoline = True\<rparr>, [9, 9, 9, 9, 9])"
  by (simp add: setup_hook_def init_hook_def new_lifecycle_def lifecycle_defs installLocked_def targetAccess_def
      patch_def plain_read_def plain_write_def usable_def configure_def cleared_def write_target_def)

lemma hook_never_dangles_witness:
  "\<exists>s. hook_reachable (\<lambda>e. e) [1, 2, 3, 4, 5] (s, [9, 9, 9, 9, 9]) \<and> hkTrampoline s \<and> lcManaged (hkLifecycle s)"
proof -
  let ?prep = "Ready [1, 2, 3, 4, 5] [9, 9, 9, 9, 9] \<lparr>blValue = 5, blValid = True\<rparr>"
  have s: "hook_reachable (\<lambda>e. e) [1, 2, 3, 4, 5] (init_hook, [1, 2, 3, 4, 5])" by (rule hr_start) simp
  have st: "hook_step (\<lambda>e. e) [1, 2, 3, 4, 5] (init_hook, [1, 2, 3, 4, 5])
    (snd (setup_hook ?prep plain_read plain_write (init_hook, [1, 2, 3, 4, 5])))"
    by (rule hs_setup [OF plain_honest]) simp
  from hr_step [OF s st] have r: "hook_reachable (\<lambda>e. e) [1, 2, 3, 4, 5]
    (fst (snd (setup_hook ?prep plain_read plain_write (init_hook, [1, 2, 3, 4, 5]))), [9, 9, 9, 9, 9])"
    unfolding plain_installed by simp
  from hook_never_dangles [OF r] r show ?thesis unfolding plain_installed by auto
qed

end
