(* ===== verification/AppInfoGuard.thy ===== *)
theory AppInfoGuard
  imports HotReloadStore CodeScan
begin

text \<open>
  \<open>src/feats/appinfostate_policy.hpp\<close>, \<open>guard\<close> of \<open>appinfostate.hpp\<close> and \<open>appinforeload.hpp\<close>:
  what the hook does to one app's metadata object, seen as its bytes, and to the store of managed
  apps. A null object is \<open>None\<close>; Steam's disk reader and lookup are arguments, a reader that throws
  gives no answer.
\<close>

datatype guard_action = NoAction | MarkSkip | SignalResolved | ClearSkipAndSignalResolved

definition decide :: "bool \<Rightarrow> bool \<Rightarrow> bool \<Rightarrow> bool \<Rightarrow> bool \<Rightarrow> guard_action" where
  "decide managed authoritative create shaEmpty skipSet =
     (if \<not> managed \<or> create then NoAction
      else if \<not> shaEmpty then (if skipSet then ClearSkipAndSignalResolved else SignalResolved)
      else if skipSet then NoAction else MarkSkip)"

definition sha_empty :: "layout \<Rightarrow> bytes \<Rightarrow> bool" where
  "sha_empty lay bs \<longleftrightarrow> list_all (\<lambda>i. bs ! (unat (shaOffset lay) + i) = 0) [0 ..< kShaBytes]"

text \<open>Results: the object, the two handles, and the store behind the first handle.\<close>

definition guard ::
  "bytes option \<Rightarrow> u32 \<Rightarrow> bool \<Rightarrow> read_handle \<Rightarrow> read_handle \<Rightarrow> layout \<Rightarrow> (nat \<Rightarrow> hr_record) \<Rightarrow> store \<Rightarrow>
     bytes option \<times> read_handle \<times> read_handle \<times> store" where
  "guard dat appId create rd auth lay authHeap s =
     (case dat of
        None \<Rightarrow> (None, rd, auth, s)
      | Some bs \<Rightarrow>
          if create then (Some bs, rd, auth, s)
          else
            (case handle_contains (stHeap s) appId rd of
               (False, rd1) \<Rightarrow> (Some bs, rd1, auth, s)
             | (True, rd1) \<Rightarrow>
                 (case handle_contains authHeap appId auth of
                    (authoritative, auth1) \<Rightarrow>
                      (let skip = unat (skipOffset lay) in
                       case decide True authoritative False (sha_empty lay bs) (bs ! skip \<noteq> 0) of
                         MarkSkip \<Rightarrow> (Some (bs[skip := 1]), rd1, auth1, s)
                       | SignalResolved \<Rightarrow> (Some bs, rd1, auth1, snd (handle_noteResolved rd1 s))
                       | ClearSkipAndSignalResolved \<Rightarrow>
                           (Some (bs[skip := 0]), rd1, auth1, snd (handle_noteResolved rd1 s))
                       | NoAction \<Rightarrow> (Some bs, rd1, auth1, s)))))"

section \<open>Reloading from disk\<close>

datatype reload_status = Unavailable | ReadFailed | Loaded

record reload_result =
  rrStatus :: reload_status
  rrResolved :: nat
  rrPresent :: nat

definition allRequestedPresent :: "reload_result \<Rightarrow> nat \<Rightarrow> bool" where
  "allRequestedPresent r requested \<longleftrightarrow> rrStatus r = Loaded \<and> rrPresent r = requested"

definition hasSha :: "bytes option \<Rightarrow> layout \<Rightarrow> bool" where
  "hasSha dat lay =
     (case dat of
        None \<Rightarrow> False
      | Some bs \<Rightarrow> list_ex (\<lambda>i. bs ! (unat (shaOffset lay) + i) \<noteq> 0) [0 ..< kShaBytes])"

text \<open>Steam's side: the cache's presence, the disk reader and the lookup, each of which may throw.\<close>

record 'e runtime =
  rtDisk :: "('e \<Rightarrow> bool option \<times> 'e) option"
  rtLookup :: "(u32 \<Rightarrow> 'e \<Rightarrow> bytes option option \<times> 'e) option"
  rtCache :: bool

fun reload_loop ::
  "(u32 \<Rightarrow> 'e \<Rightarrow> bytes option option \<times> 'e) \<Rightarrow> layout \<Rightarrow> u32 list \<Rightarrow> reload_result \<Rightarrow> store \<Rightarrow> 'e \<Rightarrow>
     reload_result \<times> store \<times> 'e" where
  "reload_loop lookup lay [] r s e = (r, s, e)"
| "reload_loop lookup lay (a # ids) r s e =
     (case lookup a e of
        (None, e1) \<Rightarrow> (\<lparr>rrStatus = ReadFailed, rrResolved = 0, rrPresent = 0\<rparr>, s, e1)
      | (Some dat, e1) \<Rightarrow>
          if \<not> hasSha dat lay then reload_loop lookup lay ids r s e1
          else
            (case noteResolved a s of
               (ok, s1) \<Rightarrow>
                 reload_loop lookup lay ids
                   (r\<lparr>rrPresent := rrPresent r + 1,
                      rrResolved := (if ok then rrResolved r + 1 else rrResolved r)\<rparr>) s1 e1))"

definition reload ::
  "'e runtime \<Rightarrow> u32 list \<Rightarrow> layout \<Rightarrow> store \<Rightarrow> 'e \<Rightarrow> reload_result \<times> store \<times> 'e" where
  "reload rt ids lay s e =
     (case (rtDisk rt, rtLookup rt) of
        (Some readFromDisk, Some lookup) \<Rightarrow>
          if \<not> rtCache rt then (\<lparr>rrStatus = Unavailable, rrResolved = 0, rrPresent = 0\<rparr>, s, e)
          else
            (case readFromDisk e of
               (Some True, e1) \<Rightarrow>
                 reload_loop lookup lay ids \<lparr>rrStatus = Loaded, rrResolved = 0, rrPresent = 0\<rparr> s e1
             | (_, e1) \<Rightarrow> (\<lparr>rrStatus = ReadFailed, rrResolved = 0, rrPresent = 0\<rparr>, s, e1))
      | _ \<Rightarrow> (\<lparr>rrStatus = Unavailable, rrResolved = 0, rrPresent = 0\<rparr>, s, e))"

section \<open>What the guard leaves behind\<close>

lemma hasSha_empty: "hasSha (Some bs) lay \<longleftrightarrow> \<not> sha_empty lay bs"
  by (simp add: hasSha_def sha_empty_def list_all_iff list_ex_iff)

text \<open>the guard touches an object only when its app is managed and the call does not create it; then
  the skip byte is set exactly while the digest is missing, nothing else of the object changes, and
  the store is told of a resolved app exactly when a digest is there.\<close>

theorem guard_exact:
  assumes "guard (Some bs) appId create (fst (readHandle s)) auth lay authHeap (snd (readHandle s)) = (out, rd', auth', s')"
    "unat (skipOffset lay) < length bs"
    "\<not> (unat (shaOffset lay) \<le> unat (skipOffset lay) \<and> unat (skipOffset lay) < unat (shaOffset lay) + kShaBytes)"
  shows "if create \<or> \<not> store_contains appId s
    then out = Some bs \<and> release_handle s' = s
    else \<exists>bs'. out = Some bs' \<and> (bs' ! unat (skipOffset lay) \<noteq> 0 \<longleftrightarrow> sha_empty lay bs) \<and>
      (\<forall>i. i \<noteq> unat (skipOffset lay) \<longrightarrow> bs' ! i = bs ! i) \<and> length bs' = length bs \<and>
      sha_empty lay bs' = sha_empty lay bs \<and>
      release_handle s' = (if sha_empty lay bs then s else snd (noteResolved appId s))"
proof -
  let ?k = "unat (skipOffset lay)"
  have sha: "sha_empty lay (bs[?k := v]) = sha_empty lay bs" for v
  proof -
    have "(bs[?k := v]) ! (unat (shaOffset lay) + i) = bs ! (unat (shaOffset lay) + i)" if "i < kShaBytes" for i
      using assms(3) that by (subst nth_list_update_neq) auto
    then show ?thesis by (simp add: sha_empty_def list_all_iff)
  qed
  have rel: "release_handle (snd (readHandle s)) = s" by (simp add: release_handle_def readHandle_def)
  show ?thesis
  proof (cases "create \<or> \<not> store_contains appId s")
    case True
    obtain b rd1 where C: "handle_contains (stHeap (snd (readHandle s))) appId (fst (readHandle s)) = (b, rd1)" by force
    have b: "b = store_contains appId s" using C by (simp add: store_contains_def readHandle_def)
    show ?thesis
    proof (cases create)
      case False
      then have "handle_contains (stHeap (snd (readHandle s))) appId (fst (readHandle s)) = (False, rd1)"
        using True C b by simp
      then show ?thesis using True False assms(1) rel by (auto simp: guard_def)
    qed (use True assms(1) rel in \<open>auto simp: guard_def\<close>)
  next
    case False
    obtain rd1 where C: "handle_contains (stHeap (snd (readHandle s))) appId (fst (readHandle s)) = (True, rd1)"
      using False by (cases "handle_contains (stHeap (snd (readHandle s))) appId (fst (readHandle s))")
        (auto simp: store_contains_def readHandle_def)
    obtain v auth1 where A: "handle_contains authHeap appId auth = (v, auth1)" by force
    have n: "release_handle (snd (handle_noteResolved rd1 (snd (readHandle s)))) = snd (noteResolved appId s)"
      using C by (simp add: noteResolved_def readHandle_def split: prod.splits)
    show ?thesis using False assms(1,2) rel n sha
      by (auto simp: guard_def C A decide_def Let_def split: if_splits)
  qed
qed

text \<open>The store of one managed app, published from the empty store.\<close>

lemma guard_exact_witness:
  "\<exists>bs' rd' auth' s'. guard (Some (replicate 40 0)) 5 False (fst (readHandle (snd (publish [5] new_store))))
     (fst (readHandle new_store)) \<lparr>skipOffset = 2, shaOffset = 8\<rparr> (stHeap new_store)
     (snd (readHandle (snd (publish [5] new_store)))) = (Some bs', rd', auth', s') \<and> bs' ! 2 \<noteq> 0"
proof -
  let ?s = "snd (publish [5] new_store)" and ?lay = "\<lparr>skipOffset = 2, shaOffset = 8\<rparr>"
  let ?g = "guard (Some (replicate 40 0)) 5 False (fst (readHandle ?s)) (fst (readHandle new_store)) ?lay
      (stHeap new_store) (snd (readHandle ?s))"
  have g: "?g = (fst ?g, fst (snd ?g), fst (snd (snd ?g)), snd (snd (snd ?g)))" by simp
  have "store_contains 5 ?s"
    by (simp add: publish_def new_store_def empty_snapshot_def reclaimRetired_def store_contains_def readHandle_def
        handle_contains_def findRecord_def Let_def)
  moreover have "sha_empty ?lay (replicate 40 0)" by (simp add: sha_empty_def list_all_iff kShaBytes_def)
  ultimately obtain bs' where "fst ?g = Some bs'" "bs' ! 2 \<noteq> 0"
    using guard_exact [OF g] by (auto simp: kShaBytes_def)
  with g show ?thesis by metis
qed

text \<open>A reload whose calls do not throw marks exactly the requested apps whose object has a digest, in
  order, and counts them.\<close>

fun note_all :: "u32 list \<Rightarrow> store \<Rightarrow> nat \<times> store" where
  "note_all [] s = (0, s)"
| "note_all (a # ids) s =
     (case noteResolved a s of (ok, s1) \<Rightarrow> (case note_all ids s1 of (n, s2) \<Rightarrow> ((if ok then 1 else 0) + n, s2)))"

lemma reload_loop_exact:
  assumes "\<forall>a e. lookup a e = (Some (obj a), e)"
  shows "reload_loop lookup lay ids r s e =
    (let present = filter (\<lambda>a. hasSha (obj a) lay) ids in
     (r\<lparr>rrPresent := rrPresent r + length present, rrResolved := rrResolved r + fst (note_all present s)\<rparr>,
      snd (note_all present s), e))"
  using assms
proof (induction ids arbitrary: r s)
  case (Cons a ids)
  then show ?case by (cases "noteResolved a s") (auto simp: Let_def split: prod.splits)
qed simp

lemma reload_exact:
  assumes "\<forall>a e. lookup a e = (Some (obj a), e)" "readFromDisk e = (Some True, e1)"
  shows "reload \<lparr>rtDisk = Some readFromDisk, rtLookup = Some lookup, rtCache = True\<rparr> ids lay s e =
    (let present = filter (\<lambda>a. hasSha (obj a) lay) ids in
     (\<lparr>rrStatus = Loaded, rrResolved = fst (note_all present s), rrPresent = length present\<rparr>,
      snd (note_all present s), e1))"
  using reload_loop_exact [OF assms(1), of lay ids _ s e1] by (simp add: reload_def assms(2) Let_def)

lemma reload_all_present:
  assumes "\<forall>a e. lookup a e = (Some (obj a), e)" "readFromDisk e = (Some True, e1)"
  shows "allRequestedPresent (fst (reload \<lparr>rtDisk = Some readFromDisk, rtLookup = Some lookup, rtCache = True\<rparr> ids lay s e))
      (length ids) \<longleftrightarrow> (\<forall>a \<in> set ids. hasSha (obj a) lay)"
  using reload_exact [of lookup obj readFromDisk e e1 ids lay s] assms
  by (simp add: allRequestedPresent_def Let_def) (metis filter_id_conv length_filter_less nat_neq_iff)

end
