(* ===== verification/ManifestBytes.thy ===== *)
theory ManifestBytes
  imports ByteCodec
begin

unbundle bit_operations_syntax

text \<open>
  The depot manifest readers of \<open>src/feats/manifestsynth.hpp\<close>: sections framed by a magic and a
  length, protobuf fields inside. \<open>size_t\<close> has 32 bits in the shipped build and positions wrap
  accordingly; lengths read from the file have 64 bits. A loop that may not end is a partial
  function, whose value \<open>None\<close> means that it does not return.
\<close>

section \<open>Sections and variable-length integers\<close>

definition kMetadataMagic :: u32 where "kMetadataMagic = 0x1F4812BE"

definition kPayloadMagic :: u32 where "kPayloadMagic = 0x71F617D0"

definition size_wrap :: "nat \<Rightarrow> nat" where
  "size_wrap n = n mod 2 ^ 32"

text \<open>The first section with the wanted magic: its position and length.\<close>

function find_section :: "bytes \<Rightarrow> u32 \<Rightarrow> nat \<Rightarrow> (nat \<times> nat) option" where
  "find_section m wanted i =
     (if i + 8 \<le> length m then
        (let magic = rd32 m i; len = unat (rd32 m (i + 4)) in
         if i + 8 + len > length m then None
         else if magic = wanted then Some (i + 8, len)
         else find_section m wanted (i + 8 + len))
      else None)"
  by pat_completeness auto
termination by (relation "measure (\<lambda>(m, w, i). length m - i)") auto

declare find_section.simps [simp del]

function varint_loop :: "bytes \<Rightarrow> nat \<Rightarrow> nat \<Rightarrow> nat \<Rightarrow> u64 \<Rightarrow> (nat \<times> u64) option" where
  "varint_loop m endp p shift r =
     (if p < endp then
        (let b = m ! p;
             r' = (if shift \<le> 63 then r OR push_bit shift (ucast (b AND 0x7F)) else r);
             shift' = shift + 7
         in if b AND 0x80 = 0 then Some (p + 1, r')
            else if shift' > 70 then None
            else varint_loop m endp (p + 1) shift' r')
      else None)"
  by pat_completeness auto
termination by (relation "measure (\<lambda>(m, e, p, s, r). e - p)") auto

declare varint_loop.simps [simp del]

text \<open>The position behind the integer, and its value.\<close>

definition readVarint :: "bytes \<Rightarrow> nat \<Rightarrow> nat \<Rightarrow> (nat \<times> u64) option" where
  "readVarint m endp p = varint_loop m endp p 0 0"

text \<open>A length-delimited field's bound, \<open>p + len > end\<close>, is a 64-bit comparison.\<close>

definition over_end :: "nat \<Rightarrow> u64 \<Rightarrow> nat \<Rightarrow> bool" where
  "over_end p len endp \<longleftrightarrow> of_nat p + len > of_nat endp"

definition advance :: "nat \<Rightarrow> u64 \<Rightarrow> nat" where
  "advance p len = size_wrap (p + unat len)"

section \<open>Sizes and file names\<close>

partial_function (option) sizes_loop ::
  "bytes \<Rightarrow> nat \<Rightarrow> nat \<Rightarrow> u64 option \<Rightarrow> u64 option \<Rightarrow> (u64 option \<times> u64 option) option" where
  "sizes_loop m endp p sz download =
     (if p < endp then
        (case readVarint m endp p of
           None \<Rightarrow> Some (sz, download)
         | Some (p1, tag) \<Rightarrow>
             (let field = (ucast (drop_bit 3 tag) :: u32); wire = (ucast (tag AND 7) :: u32) in
              if wire = 0 then
                (case readVarint m endp p1 of
                   None \<Rightarrow> Some (sz, download)
                 | Some (p2, v) \<Rightarrow>
                     if field = 5 then sizes_loop m endp p2 (Some v) download
                     else if field = 6 then sizes_loop m endp p2 sz (Some v)
                     else sizes_loop m endp p2 sz download)
              else if wire = 2 then
                (case readVarint m endp p1 of
                   None \<Rightarrow> Some (sz, download)
                 | Some (p2, len) \<Rightarrow>
                     if over_end p2 len endp then Some (sz, download)
                     else sizes_loop m endp (advance p2 len) sz download)
              else if wire = 5 then sizes_loop m endp (advance p1 4) sz download
              else if wire = 1 then sizes_loop m endp (advance p1 8) sz download
              else Some (sz, download)))
      else Some (sz, download))"

text \<open>Whether it returns; the result, and the two outputs where they were assigned.\<close>

definition parseManifestSizes :: "bytes \<Rightarrow> (bool \<times> u64 option \<times> u64 option) option" where
  "parseManifestSizes m =
     (case find_section m kMetadataMagic 0 of
        None \<Rightarrow> Some (False, None, None)
      | Some (meta, metaLen) \<Rightarrow>
          map_option (\<lambda>(s, d). (s \<noteq> None \<or> d \<noteq> None, s, d)) (sizes_loop m (meta + metaLen) meta None None))"

text \<open>\<open>m.substr(q, flen)\<close> takes a \<open>size_t\<close> count and stops at the end of the string.\<close>

definition mapping_name :: "bytes \<Rightarrow> nat \<Rightarrow> u64 \<Rightarrow> bytes option" where
  "mapping_name m p len =
     (let qEnd = advance p len in
      case readVarint m qEnd p of
        None \<Rightarrow> None
      | Some (q, ftag) \<Rightarrow>
          if drop_bit 3 ftag = 1 \<and> ftag AND 7 = 2 then
            (case readVarint m qEnd q of
               None \<Rightarrow> None
             | Some (q1, flen) \<Rightarrow>
                 if over_end q1 flen qEnd then None
                 else Some (take (size_wrap (unat flen)) (drop q1 m)))
          else None)"

partial_function (option) names_loop :: "bytes \<Rightarrow> nat \<Rightarrow> nat \<Rightarrow> bytes list \<Rightarrow> bytes list option" where
  "names_loop m endp p out =
     (if p < endp then
        (case readVarint m endp p of
           None \<Rightarrow> Some out
         | Some (p1, tag) \<Rightarrow>
             (let field = (ucast (drop_bit 3 tag) :: u32); wire = (ucast (tag AND 7) :: u32) in
              if wire = 2 then
                (case readVarint m endp p1 of
                   None \<Rightarrow> Some out
                 | Some (p2, len) \<Rightarrow>
                     if over_end p2 len endp then Some out
                     else names_loop m endp (advance p2 len)
                       (if field = 1
                        then (case mapping_name m p2 len of None \<Rightarrow> out | Some n \<Rightarrow> out @ [n])
                        else out))
              else if wire = 0 then
                (case readVarint m endp p1 of
                   None \<Rightarrow> Some out
                 | Some (p2, v) \<Rightarrow> names_loop m endp p2 out)
              else if wire = 5 then names_loop m endp (advance p1 4) out
              else if wire = 1 then names_loop m endp (advance p1 8) out
              else Some out))
      else Some out)"

definition extractManifestFilenames :: "bytes \<Rightarrow> bytes list option" where
  "extractManifestFilenames m =
     (case find_section m kPayloadMagic 0 of
        None \<Rightarrow> Some []
      | Some (pl, plLen) \<Rightarrow> names_loop m (pl + plLen) pl [])"

section \<open>A length that leads back\<close>

text \<open>One field whose length is \<open>2 ^ 64 - 11\<close>.\<close>

definition looping_field :: bytes where
  "looping_field = [0x0A, 0xF5, 0xFF, 0xFF, 0xFF, 0xFF, 0xFF, 0xFF, 0xFF, 0xFF, 0x01]"

definition framed :: "u32 \<Rightarrow> bytes \<Rightarrow> bytes" where
  "framed magic payload = le32 magic @ le32 (of_nat (length payload)) @ payload"

definition looping_manifest :: bytes where
  "looping_manifest = [0xBE, 0x12, 0x48, 0x1F, 11, 0, 0, 0,
     0x0A, 0xF5, 0xFF, 0xFF, 0xFF, 0xFF, 0xFF, 0xFF, 0xFF, 0xFF, 0x01]"

lemma le_encode_4: "le_encode 4 v = [of_nat (v mod 256), of_nat (v div 256 mod 256),
    of_nat (v div 256 div 256 mod 256), of_nat (v div 256 div 256 div 256 mod 256)]"
proof -
  have "(4 :: nat) = Suc (Suc (Suc (Suc 0)))" by simp
  then show ?thesis by (simp only: le_encode.simps)
qed

lemma looping_framed: "framed kMetadataMagic looping_field = looping_manifest"
  by (simp add: framed_def kMetadataMagic_def looping_field_def looping_manifest_def le32_def le_encode_4)

lemma looping_section: "find_section looping_manifest kMetadataMagic 0 = Some (8, 11)"
  by (subst find_section.simps) (simp add: looping_manifest_def kMetadataMagic_def rd32_def)

definition varint_acc :: "u64 \<Rightarrow> nat \<Rightarrow> u8 \<Rightarrow> u64" where
  "varint_acc r shift b = (if shift \<le> 63 then r OR push_bit shift (ucast (b AND 0x7F)) else r)"

lemma varint_stop:
  "p < endp \<Longrightarrow> m ! p AND 0x80 = 0 \<Longrightarrow> varint_loop m endp p shift r = Some (p + 1, varint_acc r shift (m ! p))"
  by (subst varint_loop.simps) (simp add: varint_acc_def Let_def)

lemma varint_more:
  "p < endp \<Longrightarrow> m ! p AND 0x80 \<noteq> 0 \<Longrightarrow> shift + 7 \<le> 70 \<Longrightarrow>
     varint_loop m endp p shift r = varint_loop m endp (p + 1) (shift + 7) (varint_acc r shift (m ! p))"
  by (subst varint_loop.simps) (simp add: varint_acc_def Let_def)

lemma looping_tag: "readVarint looping_manifest 19 8 = Some (9, 10)"
  by (simp add: readVarint_def looping_manifest_def varint_stop varint_acc_def)

lemma looping_len: "readVarint looping_manifest 19 9 = Some (19, 0xFFFFFFFFFFFFFFF5)"
  by (simp add: readVarint_def looping_manifest_def varint_more varint_stop varint_acc_def)

lemma looping_bound: "\<not> over_end 19 0xFFFFFFFFFFFFFFF5 19" "advance 19 0xFFFFFFFFFFFFFFF5 = 8"
  by (simp_all add: over_end_def advance_def size_wrap_def)

lemma sizes_loop_stuck:
  "sizes_loop m endp p sz download = Some y \<Longrightarrow> \<not> (m = looping_manifest \<and> endp = 19 \<and> p = 8)"
proof (rule sizes_loop.raw_induct
    [where P = "\<lambda>m endp p sz d y. \<not> (m = looping_manifest \<and> endp = 19 \<and> p = 8)"], goal_cases)
  case (1 f m endp p sz download y)
  show ?case
  proof
    assume a: "m = looping_manifest \<and> endp = 19 \<and> p = 8"
    have "f looping_manifest 19 8 sz download = Some y"
      using 1(3) unfolding conjunct1 [OF a] conjunct1 [OF conjunct2 [OF a]] conjunct2 [OF conjunct2 [OF a]]
      by (simp add: looping_tag looping_len looping_bound)
    from 1(2) [OF this] show False by simp
  qed
qed

lemma looping_sizes: "parseManifestSizes looping_manifest = None"
proof -
  have "sizes_loop looping_manifest 19 8 None None = None"
    using sizes_loop_stuck [of looping_manifest 19 8 None None]
    by (cases "sizes_loop looping_manifest 19 8 None None") auto
  then show ?thesis by (simp add: parseManifestSizes_def looping_section)
qed

lemma looping_names: "extractManifestFilenames looping_manifest = Some []"
proof -
  have "find_section looping_manifest kPayloadMagic 0 = None"
    by (subst find_section.simps) (simp add: looping_manifest_def kPayloadMagic_def rd32_def find_section.simps)
  then show ?thesis by (simp add: extractManifestFilenames_def)
qed

text \<open>the size reader does not return on this 19-byte manifest: the field's length passes the bound
  test because the 64-bit sum wraps, and leads the position back to the field.\<close>

theorem parse_sizes_diverges: "parseManifestSizes looping_manifest = None"
  by (rule looping_sizes)

section \<open>Encoded messages\<close>

text \<open>The wire format the readers expect: fields with their numbers, integers seven bits at a time.\<close>

fun enc_varint :: "nat \<Rightarrow> bytes" where
  "enc_varint n = (if n < 128 then [of_nat n] else of_nat (n mod 128 + 128) # enc_varint (n div 128))"

declare enc_varint.simps [simp del]

datatype field = Varint u32 u64 | Delimited u32 bytes | Fixed32 u32 bytes | Fixed64 u32 bytes

definition enc_tag :: "u32 \<Rightarrow> nat \<Rightarrow> bytes" where
  "enc_tag f wire = enc_varint (unat f * 8 + wire)"

fun enc_field :: "field \<Rightarrow> bytes" where
  "enc_field (Varint f v) = enc_tag f 0 @ enc_varint (unat v)"
| "enc_field (Delimited f bs) = enc_tag f 2 @ enc_varint (length bs) @ bs"
| "enc_field (Fixed32 f bs) = enc_tag f 5 @ bs"
| "enc_field (Fixed64 f bs) = enc_tag f 1 @ bs"

fun field_wf :: "field \<Rightarrow> bool" where
  "field_wf (Fixed32 f bs) \<longleftrightarrow> length bs = 4"
| "field_wf (Fixed64 f bs) \<longleftrightarrow> length bs = 8"
| "field_wf _ \<longleftrightarrow> True"

definition enc_message :: "field list \<Rightarrow> bytes" where
  "enc_message fs = concat (map enc_field fs)"

lemma enc_varint_not_Nil [simp]: "enc_varint n \<noteq> []"
  by (subst enc_varint.simps) simp

lemma or_push_bit:
  fixes r x :: u64
  assumes "unat r < 2 ^ s" "unat r + unat x * 2 ^ s < 2 ^ 64"
  shows "unat (r OR push_bit s x) = unat r + unat x * 2 ^ s"
proof -
  have px: "unat (push_bit s x) = unat x * 2 ^ s"
    using assms(2) unfolding unsigned_push_bit_eq by (simp add: take_bit_nat_def push_bit_eq_mult)
  have "\<not> bit r n" if "s \<le> n" for n
  proof -
    have "take_bit s (unat r) = unat r" using assms(1) by (simp add: take_bit_nat_eq_self)
    then have "\<not> bit (unat r) n" using that by (metis bit_take_bit_iff not_less)
    then show ?thesis by (simp add: bit_unsigned_iff) 
  qed
  then have "r AND push_bit s x = 0"
    by (intro bit_word_eqI) (auto simp: bit_and_iff bit_push_bit_iff)
  then have "r OR push_bit s x = r + push_bit s x" using disjunctive_add_eq_or by metis
  then show ?thesis using assms(2) px by (simp add: unat_word_ariths)
qed

text \<open>A list of bytes stands at a position.\<close>

definition starts_at :: "bytes \<Rightarrow> bytes \<Rightarrow> nat \<Rightarrow> bool" where
  "starts_at bs m p \<longleftrightarrow> p + length bs \<le> length m \<and> (\<forall>i < length bs. m ! (p + i) = bs ! i)"

lemma byte_bits:
  fixes b :: u8
  shows "b AND 0x80 = 0 \<longleftrightarrow> unat b < 128" "unat (b AND 0x7F) = unat b mod 128"
proof -
  have lt: "unat b < 256" using unsigned_less [of b] by simp
  have "b AND 0x80 = 0 \<longleftrightarrow> \<not> bit b 7" using and_exp_eq_0_iff_not_bit [of b 7] by simp
  also have "bit b 7 \<longleftrightarrow> bit (unat b) 7" by (simp add: bit_unsigned_iff)
  also have "\<dots> \<longleftrightarrow> odd (unat b div 128)" by (simp add: bit_iff_odd)
  also have "\<dots> \<longleftrightarrow> \<not> unat b < 128"
  proof (cases "unat b < 128")
    case False
    with lt have "unat b div 128 = 1" by simp
    with False show ?thesis by simp
  qed simp
  finally show "b AND 0x80 = 0 \<longleftrightarrow> unat b < 128" by simp
  have "b AND 0x7F = take_bit 7 b" by (simp add: take_bit_eq_mask mask_eq_exp_minus_1)
  then show "unat (b AND 0x7F) = unat b mod 128" by (simp add: unsigned_take_bit_eq take_bit_nat_def)
qed

lemma varint_acc_unat:
  fixes b :: u8
  assumes "unat r < 2 ^ s" "unat r + (unat b mod 128) * 2 ^ s < 2 ^ 64" "s \<le> 63"
  shows "unat (varint_acc r s b) = unat r + (unat b mod 128) * 2 ^ s"
proof -
  have u: "unat (ucast (b AND 0x7F) :: u64) = unat b mod 128"
    using byte_bits(2) [of b] by (simp add: unsigned_ucast_eq take_bit_nat_def)
  show ?thesis using or_push_bit [of r s "ucast (b AND 0x7F)"] assms by (simp add: varint_acc_def u)
qed

lemma varint_last:
  assumes "n < 128" "b = of_nat n" "unat r + n * 2 ^ s < 2 ^ 64" "unat r < 2 ^ s" "s \<le> 63"
  shows "varint_acc r s b = of_nat (unat r + n * 2 ^ s)" "b AND 0x80 = 0"
proof -
  have b: "unat b = n" using assms(1) by (simp add: assms(2) unat_of_nat)
  have "unat (varint_acc r s b) = unat r + n * 2 ^ s"
    using varint_acc_unat [of r s b] assms(1,3-5) b by simp
  then show "varint_acc r s b = of_nat (unat r + n * 2 ^ s)" by (metis of_nat_unat ucast_id)
  show "b AND 0x80 = 0" using byte_bits(1) [of b] b assms(1) by simp
qed

lemma varint_next:
  assumes "\<not> n < 128" "b = of_nat (n mod 128 + 128)" "unat r + n * 2 ^ s < 2 ^ 64" "unat r < 2 ^ s" "s \<le> 63"
  shows "s + 7 < 64" "b AND 0x80 \<noteq> 0" "unat (varint_acc r s b) < 2 ^ (s + 7)"
    "unat (varint_acc r s b) + n div 128 * 2 ^ (s + 7) = unat r + n * 2 ^ s"
proof -
  have b: "unat b = n mod 128 + 128" unfolding assms(2) unat_of_nat by simp
  have "128 * 2 ^ s \<le> n * 2 ^ s" using assms(1) by (intro mult_right_mono) simp_all
  also have "n * 2 ^ s < 2 ^ 64" by (rule le_less_trans [OF _ assms(3)]) simp
  finally have "(2::nat) ^ (s + 7) < 2 ^ 64" by (simp add: power_add)
  from power_less_imp_less_exp [OF _ this] show "s + 7 < 64" by simp
  show "b AND 0x80 \<noteq> 0" using byte_bits(1) [of b] b by simp
  have "n * 2 ^ s = (n mod 128 + n div 128 * 128) * 2 ^ s" by simp
  also have "\<dots> = (n mod 128) * 2 ^ s + (n div 128) * 2 ^ (s + 7)"
    by (simp only: add_mult_distrib power_add) simp
  finally have split: "n * 2 ^ s = (n mod 128) * 2 ^ s + (n div 128) * 2 ^ (s + 7)" .
  have acc: "unat (varint_acc r s b) = unat r + (n mod 128) * 2 ^ s"
    using varint_acc_unat [of r s b] assms(3-5) b split by simp
  then show "unat (varint_acc r s b) + n div 128 * 2 ^ (s + 7) = unat r + n * 2 ^ s" using split by simp
  have "(n mod 128) * 2 ^ s \<le> 127 * 2 ^ s" by (intro mult_right_mono) simp_all
  from add_less_le_mono [OF assms(4) this] show "unat (varint_acc r s b) < 2 ^ (s + 7)"
    unfolding acc by (simp add: power_add)
qed

lemma starts_at_varint:
  assumes "starts_at (enc_varint n) m p"
  shows "n < 128 \<Longrightarrow> m ! p = of_nat n \<and> length (enc_varint n) = 1"
    "\<not> n < 128 \<Longrightarrow> m ! p = of_nat (n mod 128 + 128) \<and> starts_at (enc_varint (n div 128)) m (p + 1) \<and>
      length (enc_varint n) = 1 + length (enc_varint (n div 128))"
proof -
  assume "n < 128"
  then have "enc_varint n = [of_nat n]" by (simp add: enc_varint.simps)
  with assms show "m ! p = of_nat n \<and> length (enc_varint n) = 1" by (simp add: starts_at_def)
next
  assume "\<not> n < 128"
  then have e: "enc_varint n = of_nat (n mod 128 + 128) # enc_varint (n div 128)" by (subst enc_varint.simps) simp
  with assms show "m ! p = of_nat (n mod 128 + 128) \<and> starts_at (enc_varint (n div 128)) m (p + 1) \<and>
      length (enc_varint n) = 1 + length (enc_varint (n div 128))"
    by (auto simp: starts_at_def nth_Cons split: nat.splits)
qed

lemma varint_loop_enc:
  assumes "starts_at (enc_varint n) m p" "p + length (enc_varint n) \<le> endp"
    "unat r + n * 2 ^ s < 2 ^ 64" "unat r < 2 ^ s" "s \<le> 63"
  shows "varint_loop m endp p s r = Some (p + length (enc_varint n), of_nat (unat r + n * 2 ^ s))"
  using assms
proof (induction n arbitrary: p s r rule: enc_varint.induct)
  case (1 n)
  show ?case
  proof (cases "n < 128")
    case True
    note b = starts_at_varint(1) [OF 1(2) True]
    show ?thesis using varint_stop [of p endp m s r] varint_last [OF True _ 1(4-6)] b 1(3) by simp
  next
    case False
    note b = starts_at_varint(2) [OF 1(2) False]
    note v = varint_next [OF False conjunct1 [OF b] 1(4-6)]
    have "varint_loop m endp p s r = varint_loop m endp (p + 1) (s + 7) (varint_acc r s (m ! p))"
      using varint_more [of p endp m s r] 1(3) b v(1,2) by simp
    also have "\<dots> = Some (p + 1 + length (enc_varint (n div 128)),
        of_nat (unat (varint_acc r s (m ! p)) + n div 128 * 2 ^ (s + 7)))"
      using 1(3,4) b v by (intro 1(1) [OF False]) auto
    finally show ?thesis unfolding v(4) using b by simp
  qed
qed

lemma starts_at_append:
  "starts_at (xs @ ys) m p \<longleftrightarrow> starts_at xs m p \<and> starts_at ys m (p + length xs)"
proof
  assume a: "starts_at (xs @ ys) m p"
  then have n: "m ! (p + i) = (xs @ ys) ! i" if "i < length xs + length ys" for i
    using that by (simp add: starts_at_def)
  have "m ! (p + i) = xs ! i" if "i < length xs" for i using n [of i] that by (simp add: nth_append)
  moreover have "m ! (p + length xs + i) = ys ! i" if "i < length ys" for i
    using n [of "length xs + i"] that by (simp add: nth_append add.assoc)
  ultimately show "starts_at xs m p \<and> starts_at ys m (p + length xs)"
    using a by (simp add: starts_at_def)
next
  assume a: "starts_at xs m p \<and> starts_at ys m (p + length xs)"
  have x: "m ! (p + i) = xs ! i" if "i < length xs" for i using a that by (simp add: starts_at_def)
  have y: "m ! (p + length xs + i) = ys ! i" if "i < length ys" for i using a that by (simp add: starts_at_def)
  have l: "p + length xs + length ys \<le> length m" using a by (simp add: starts_at_def)
  have "m ! (p + i) = (xs @ ys) ! i" if "i < length xs + length ys" for i
    using x [of i] y [of "i - length xs"] that by (auto simp: nth_append)
  then show "starts_at (xs @ ys) m p" using l by (simp add: starts_at_def)
qed

lemma starts_at_self: "starts_at ys (xs @ ys @ zs) (length xs)"
  by (simp add: starts_at_def nth_append)

lemma readVarint_enc:
  assumes "starts_at (enc_varint n) m p" "p + length (enc_varint n) \<le> endp" "n < 2 ^ 64"
  shows "readVarint m endp p = Some (p + length (enc_varint n), of_nat n)"
  using varint_loop_enc [OF assms(1,2), of 0 0] assms(3) by (simp add: readVarint_def)

lemma tag_parts:
  assumes "w < 8"
  shows "(ucast (drop_bit 3 (of_nat (unat (f :: u32) * 8 + w) :: u64)) :: u32) = f"
    "(ucast ((of_nat (unat f * 8 + w) :: u64) AND 7) :: u32) = of_nat w"
    "unat f * 8 + w < 2 ^ 64"
    "drop_bit 3 (of_nat (unat f * 8 + w) :: u64) = ucast f" "(of_nat (unat f * 8 + w) :: u64) AND 7 = of_nat w"
proof -
  have f: "unat f < 2 ^ 32" using unsigned_less [of f] by simp
  then show lt: "unat f * 8 + w < 2 ^ 64" using assms by simp
  let ?t = "of_nat (unat f * 8 + w) :: u64"
  have t: "unat ?t = unat f * 8 + w" unfolding unat_of_nat using lt by simp
  have "unat (drop_bit 3 ?t) = unat f"
    unfolding unsigned_drop_bit_eq t using assms lt by (simp add: drop_bit_eq_div take_bit_nat_def)
  then show d: "drop_bit 3 ?t = ucast f"
    using f by (simp add: word_unat_eq_iff unsigned_ucast_eq take_bit_nat_def)
  show "(ucast (drop_bit 3 ?t) :: u32) = f" unfolding d by (simp add: ucast_up_ucast_id is_up)
  have "?t AND 7 = take_bit 3 ?t" by (simp add: take_bit_eq_mask mask_eq_exp_minus_1)
  then have "unat (?t AND 7) = w" unfolding \<open>?t AND 7 = take_bit 3 ?t\<close> unsigned_take_bit_eq t
    using assms by (simp add: take_bit_nat_def)
  then show a: "?t AND 7 = of_nat w" by (metis of_nat_unat ucast_id)
  show "(ucast (?t AND 7) :: u32) = of_nat w" unfolding a
    using assms by (simp add: word_unat_eq_iff unsigned_ucast_eq take_bit_nat_def unat_of_nat)
qed

lemma enc_field_pos: "0 < length (enc_field fl)"
  by (cases fl) (simp_all add: enc_tag_def)

lemma readTag:
  assumes "starts_at (enc_tag f w) m p" "p + length (enc_tag f w) \<le> endp" "w < 8"
  shows "\<exists>tag. readVarint m endp p = Some (p + length (enc_tag f w), tag) \<and>
    ucast (drop_bit 3 tag) = f \<and> (ucast (tag AND 7) :: u32) = of_nat w \<and>
    drop_bit 3 tag = ucast f \<and> tag AND 7 = of_nat w"
  using readVarint_enc [OF assms(1) [unfolded enc_tag_def], of endp] assms(2) tag_parts [OF assms(3), of f]
  by (simp add: enc_tag_def)

lemma not_over_end: "p + n \<le> endp \<Longrightarrow> endp < 2 ^ 32 \<Longrightarrow> \<not> over_end p (of_nat n) endp"
proof -
  assume a: "p + n \<le> endp" "endp < 2 ^ 32"
  have "unat (of_nat (p + n) :: u64) = p + n" "unat (of_nat endp :: u64) = endp"
    unfolding unat_of_nat using a by simp_all
  then show ?thesis using a by (simp add: over_end_def word_less_nat_alt flip: of_nat_add)
qed

lemma advance_exact: "p + n < 2 ^ 32 \<Longrightarrow> advance p (of_nat n) = p + n"
proof -
  assume a: "p + n < 2 ^ 32"
  have "unat (of_nat n :: u64) = n" unfolding unat_of_nat using a by simp
  then show ?thesis using a by (simp add: advance_def size_wrap_def)
qed

lemma advance_numeral: "p + 8 < 2 ^ 32 \<Longrightarrow> advance p 4 = p + 4" "p + 8 < 2 ^ 32 \<Longrightarrow> advance p 8 = p + 8"
  by (simp_all add: advance_def size_wrap_def)

text \<open>The last value of fields 5 and 6.\<close>

fun sizes_of :: "field list \<Rightarrow> u64 option \<Rightarrow> u64 option \<Rightarrow> u64 option \<times> u64 option" where
  "sizes_of [] s d = (s, d)"
| "sizes_of (Varint f v # fs) s d =
     (if f = 5 then sizes_of fs (Some v) d else if f = 6 then sizes_of fs s (Some v) else sizes_of fs s d)"
| "sizes_of (_ # fs) s d = sizes_of fs s d"

lemma sizes_loop_enc:
  assumes "starts_at (enc_message fs) m p" "p + length (enc_message fs) = endp" "endp + 8 < 2 ^ 32" "list_all field_wf fs"
  shows "sizes_loop m endp p s d = Some (sizes_of fs s d)"
  using assms(1,2,4)
proof (induction fs arbitrary: p s d)
  case Nil
  then show ?case by (subst sizes_loop.simps) (simp add: enc_message_def)
next
  case (Cons fl fs)
  have at: "starts_at (enc_field fl) m p" "starts_at (enc_message fs) m (p + length (enc_field fl))"
    using Cons.prems(1) by (simp_all add: enc_message_def starts_at_append)
  have le: "p + length (enc_field fl) + length (enc_message fs) = endp"
    using Cons.prems(2) by (simp add: enc_message_def)
  have wf: "field_wf fl" "list_all field_wf fs" using Cons.prems(3) by simp_all
  note IH = Cons.IH [OF at(2) le wf(2)]
  have p: "p < endp" using le enc_field_pos [of fl] by linarith
  show ?case
  proof (cases fl)
    case (Varint f v)
    let ?p1 = "p + length (enc_tag f 0)"
    obtain tag where T: "readVarint m endp p = Some (?p1, tag)" "ucast (drop_bit 3 tag) = f" "(ucast (tag AND 7) :: u32) = 0"
      using readTag [of f 0 m p endp] at(1) le by (auto simp: Varint starts_at_append)
    have V: "readVarint m endp ?p1 = Some (?p1 + length (enc_varint (unat v)), v)"
      using readVarint_enc [of "unat v" m ?p1 endp] at(1) le unsigned_less [of v]
      by (simp add: Varint starts_at_append)
    show ?thesis using p T V IH by (subst sizes_loop.simps) (auto simp: Varint add.assoc)
  next
    case (Delimited f bs)
    let ?p1 = "p + length (enc_tag f 2)"
    obtain tag where T: "readVarint m endp p = Some (?p1, tag)" "ucast (drop_bit 3 tag) = f" "(ucast (tag AND 7) :: u32) = 2"
      using readTag [of f 2 m p endp] at(1) le by (auto simp: Delimited starts_at_append)
    let ?p2 = "?p1 + length (enc_varint (length bs))"
    have V: "readVarint m endp ?p1 = Some (?p2, of_nat (length bs))"
      using readVarint_enc [of "length bs" m ?p1 endp] at(1) le assms(3) by (simp add: Delimited starts_at_append)
    have "\<not> over_end ?p2 (of_nat (length bs)) endp" "advance ?p2 (of_nat (length bs)) = ?p2 + length bs"
      using not_over_end [of ?p2 "length bs" endp] advance_exact [of ?p2 "length bs"] le assms(3)
      by (simp_all add: Delimited)
    with p show ?thesis using T V IH by (subst sizes_loop.simps) (simp add: Delimited add.assoc)
  next
    case (Fixed32 f bs)
    let ?p1 = "p + length (enc_tag f 5)"
    obtain tag where T: "readVarint m endp p = Some (?p1, tag)" "ucast (drop_bit 3 tag) = f" "(ucast (tag AND 7) :: u32) = 5"
      using readTag [of f 5 m p endp] at(1) le by (auto simp: Fixed32 starts_at_append)
    have "advance ?p1 4 = ?p1 + 4" using le assms(3) advance_numeral(1) [of ?p1] by (simp_all add: Fixed32)
    then show ?thesis using p T IH wf(1) by (subst sizes_loop.simps) (simp add: Fixed32 add.assoc)
  next
    case (Fixed64 f bs)
    let ?p1 = "p + length (enc_tag f 1)"
    obtain tag where T: "readVarint m endp p = Some (?p1, tag)" "ucast (drop_bit 3 tag) = f" "(ucast (tag AND 7) :: u32) = 1"
      using readTag [of f 1 m p endp] at(1) le by (auto simp: Fixed64 starts_at_append)
    have "advance ?p1 8 = ?p1 + 8" using le assms(3) advance_numeral(2) [of ?p1] wf(1)
      by (simp_all add: Fixed64)
    then show ?thesis using p T IH wf(1) by (subst sizes_loop.simps) (simp add: Fixed64 add.assoc)
  qed
qed

section \<open>Whole manifests\<close>

lemma rd32_after: "rd32 (a @ le32 x @ b) (length a) = x"
  by (rule rd32_append)

lemma find_section_at:
  assumes "length pl < 2 ^ 32"
  shows "find_section (a @ framed g pl @ t) wanted (length a) =
    (if g = wanted then Some (length a + 8, length pl)
     else find_section (a @ framed g pl @ t) wanted (length a + 8 + length pl))"
proof -
  let ?m = "a @ framed g pl @ t"
  have 1: "rd32 ?m (length a) = g" using rd32_after [of a g] by (simp add: framed_def)
  have 2: "rd32 ?m (length a + 4) = of_nat (length pl)"
    using rd32_after [of "a @ le32 g" "of_nat (length pl)" "pl @ t"] by (simp add: framed_def)
  have 3: "unat (of_nat (length pl) :: u32) = length pl" unfolding unat_of_nat using assms by simp
  have 4: "length ?m = length a + 8 + length pl + length t" by (simp add: framed_def)
  show ?thesis by (subst find_section.simps) (simp add: 1 2 3 4 Let_def del: append_assoc length_append)
qed

definition enc_sections :: "(u32 \<times> bytes) list \<Rightarrow> bytes" where
  "enc_sections pre = concat (map (\<lambda>s. framed (fst s) (snd s)) pre)"

lemma enc_sections_simps [simp]:
  "enc_sections [] = []" "enc_sections ((g, pl) # pre) = framed g pl @ enc_sections pre"
  by (simp_all add: enc_sections_def)

lemma enc_sections_member: "(g, pl) \<in> set pre \<Longrightarrow> length pl \<le> length (enc_sections pre)"
  by (induction pre) (auto simp: framed_def trans_le_add2)

lemma find_section_framed:
  assumes "\<forall>(g, pl) \<in> set pre. g \<noteq> wanted \<and> length pl < 2 ^ 32" "length payload < 2 ^ 32"
  shows "find_section (a @ enc_sections pre @ framed wanted payload @ rest) wanted (length a) =
    Some (length a + length (enc_sections pre) + 8, length payload)"
  using assms(1)
proof (induction pre arbitrary: a)
  case Nil
  then show ?case using find_section_at [OF assms(2), of a wanted rest wanted] by simp
next
  case (Cons gp pre)
  obtain g pl where gp: "gp = (g, pl)" by force
  have ne: "g \<noteq> wanted" "length pl < 2 ^ 32" using Cons.prems gp by auto
  let ?t = "enc_sections pre @ framed wanted payload @ rest"
  have "find_section (a @ framed g pl @ ?t) wanted (length a) =
      find_section (a @ framed g pl @ ?t) wanted (length a + 8 + length pl)"
    using find_section_at [OF ne(2), of a g ?t wanted] ne(1) by simp
  also have "\<dots> = find_section ((a @ framed g pl) @ ?t) wanted (length (a @ framed g pl))"
    by (simp add: framed_def add.assoc)
  also have "\<dots> = Some (length (a @ framed g pl) + length (enc_sections pre) + 8, length payload)"
    using Cons.prems by (intro Cons.IH) auto
  finally show ?case by (simp add: gp framed_def)
qed

text \<open>from every manifest whose sections before the metadata have other magics and whose metadata is
  an encoded message, the reader returns the last values of fields 5 and 6.\<close>

theorem parse_sizes_exact:
  assumes "\<forall>(g, pl) \<in> set pre. g \<noteq> kMetadataMagic" "list_all field_wf fs"
    "m = enc_sections pre @ framed kMetadataMagic (enc_message fs) @ rest"
    "length m + 8 < 2 ^ 32"
  shows "parseManifestSizes m =
    (let (s, d) = sizes_of fs None None in Some (s \<noteq> None \<or> d \<noteq> None, s, d))"
proof -
  let ?pre = "enc_sections pre"
  have len: "length pl < 2 ^ 32" if "(g, pl) \<in> set pre" for g pl
    using enc_sections_member [OF that] assms(3,4) by simp
  have small: "length (enc_message fs) < 2 ^ 32" using assms(3,4) by (simp add: framed_def)
  have F: "find_section m kMetadataMagic 0 = Some (length ?pre + 8, length (enc_message fs))"
    using find_section_framed [of pre kMetadataMagic "enc_message fs" "[]" rest] assms(1) len small
    by (auto simp: assms(3))
  have "starts_at (enc_message fs) m (length ?pre + 8)"
    using starts_at_self [of "enc_message fs" "?pre @ le32 kMetadataMagic @ le32 (of_nat (length (enc_message fs)))" rest]
    by (simp add: assms(3) framed_def)
  then have "sizes_loop m (length ?pre + 8 + length (enc_message fs)) (length ?pre + 8) None None =
      Some (sizes_of fs None None)"
    using assms(2-4) by (intro sizes_loop_enc) (simp_all add: framed_def)
  then show ?thesis by (simp add: parseManifestSizes_def F Let_def split: prod.splits)
qed

lemma parse_sizes_exact_witness:
  "parseManifestSizes (framed kMetadataMagic (enc_message [Varint 5 100, Delimited 9 [1, 2], Varint 6 70])) =
     Some (True, Some 100, Some 70)"
  using parse_sizes_exact [of "[]" "[Varint 5 100, Delimited 9 [1, 2], Varint 6 70]" _ "[]", OF _ _ refl]
  by (simp add: framed_def enc_message_def enc_tag_def enc_varint.simps)

text \<open>The file list: mappings, each starting with its name, and other fields.\<close>

datatype mapping_entry = Mapping bytes "field list" | Other field

fun entry_field :: "mapping_entry \<Rightarrow> field" where
  "entry_field (Mapping name more) = Delimited 1 (enc_message (Delimited 1 name # more))"
| "entry_field (Other f) = f"

fun entry_ok :: "mapping_entry \<Rightarrow> bool" where
  "entry_ok (Mapping name more) \<longleftrightarrow> True"
| "entry_ok (Other (Delimited f bs)) \<longleftrightarrow> f \<noteq> 1"
| "entry_ok (Other f) \<longleftrightarrow> field_wf f"

fun entry_names :: "mapping_entry \<Rightarrow> bytes list" where
  "entry_names (Mapping name more) = [name]"
| "entry_names (Other f) = []"

lemma mapping_name_enc:
  assumes "starts_at (enc_message (Delimited 1 name # more)) m p"
    "p + length (enc_message (Delimited 1 name # more)) + 8 < 2 ^ 32"
  shows "mapping_name m p (of_nat (length (enc_message (Delimited 1 name # more)))) = Some name"
proof -
  let ?l = "length (enc_message (Delimited 1 name # more))"
  let ?p1 = "p + length (enc_tag 1 2)"
  let ?p2 = "?p1 + length (enc_varint (length name))"
  have l: "?l = length (enc_tag 1 2) + length (enc_varint (length name)) + length name + length (enc_message more)"
    by (simp add: enc_message_def)
  have at: "starts_at (enc_tag 1 2) m p" "starts_at (enc_varint (length name)) m ?p1" "starts_at name m ?p2"
    using assms(1) by (simp_all add: enc_message_def starts_at_append add.assoc)
  have adv: "advance p (of_nat ?l) = p + ?l" using assms(2) by (intro advance_exact) simp
  obtain tag where T: "readVarint m (p + ?l) p = Some (?p1, tag)" "drop_bit 3 tag = 1" "tag AND 7 = 2"
    using readTag [of 1 2 m p "p + ?l"] at(1) l by auto
  have V: "readVarint m (p + ?l) ?p1 = Some (?p2, of_nat (length name))"
    using at(2) l assms(2) by (intro readVarint_enc) simp_all
  have N: "\<not> over_end ?p2 (of_nat (length name)) (p + ?l)" using l assms(2) by (intro not_over_end) simp_all
  have "unat (of_nat (length name) :: u64) = length name" unfolding unat_of_nat using l assms(2) by simp
  then have "size_wrap (unat (of_nat (length name) :: u64)) = length name" using l assms(2) by (simp add: size_wrap_def)
  moreover have "take (length name) (drop ?p2 m) = name"
    using at(3) by (intro nth_equalityI) (auto simp: starts_at_def)
  ultimately show ?thesis by (simp add: mapping_name_def adv T V N Let_def)
qed

definition enc_entries :: "mapping_entry list \<Rightarrow> bytes" where
  "enc_entries es = enc_message (map entry_field es)"

lemma names_loop_enc:
  assumes "starts_at (enc_entries es) m p" "p + length (enc_entries es) = endp" "endp + 8 < 2 ^ 32" "list_all entry_ok es"
  shows "names_loop m endp p out = Some (out @ concat (map entry_names es))"
  using assms(1,2,4)
proof (induction es arbitrary: p out)
  case Nil
  then show ?case by (subst names_loop.simps) (simp add: enc_entries_def enc_message_def)
next
  case (Cons en es)
  let ?fl = "entry_field en"
  have at: "starts_at (enc_field ?fl) m p" "starts_at (enc_entries es) m (p + length (enc_field ?fl))"
    using Cons.prems(1) by (simp_all add: enc_entries_def enc_message_def starts_at_append)
  have le: "p + length (enc_field ?fl) + length (enc_entries es) = endp"
    using Cons.prems(2) by (simp add: enc_entries_def enc_message_def)
  have ok: "entry_ok en" "list_all entry_ok es" using Cons.prems(3) by simp_all
  note IH = Cons.IH [OF at(2) le ok(2)]
  have p: "p < endp" using le enc_field_pos [of ?fl] by linarith
  have delim: "\<exists>tag. readVarint m endp p = Some (p + length (enc_tag f 2), tag) \<and> ucast (drop_bit 3 tag) = f \<and>
      (ucast (tag AND 7) :: u32) = 2 \<and>
      readVarint m endp (p + length (enc_tag f 2)) =
        Some (p + length (enc_tag f 2) + length (enc_varint (length bs)), of_nat (length bs)) \<and>
      \<not> over_end (p + length (enc_tag f 2) + length (enc_varint (length bs))) (of_nat (length bs)) endp \<and>
      advance (p + length (enc_tag f 2) + length (enc_varint (length bs))) (of_nat (length bs)) = p + length (enc_field ?fl) \<and>
      starts_at bs m (p + length (enc_tag f 2) + length (enc_varint (length bs)))"
    if fl: "?fl = Delimited f bs" for f bs
  proof -
    let ?p1 = "p + length (enc_tag f 2)"
    let ?p2 = "?p1 + length (enc_varint (length bs))"
    obtain tag where T: "readVarint m endp p = Some (?p1, tag)" "ucast (drop_bit 3 tag) = f" "(ucast (tag AND 7) :: u32) = 2"
      using readTag [of f 2 m p endp] at(1) le by (auto simp: fl starts_at_append)
    have V: "readVarint m endp ?p1 = Some (?p2, of_nat (length bs))"
      using at(1) le assms(3) by (intro readVarint_enc) (simp_all add: fl starts_at_append)
    have "\<not> over_end ?p2 (of_nat (length bs)) endp" using le assms(3) by (intro not_over_end) (simp_all add: fl)
    moreover have "advance ?p2 (of_nat (length bs)) = ?p2 + length bs"
      using le assms(3) by (intro advance_exact) (simp add: fl)
    moreover have "starts_at bs m ?p2" using at(1) by (simp add: fl starts_at_append add.assoc)
    ultimately show ?thesis using T V by (simp add: fl add.assoc)
  qed
  show ?case
  proof (cases en)
    case (Mapping name more)
    let ?bs = "enc_message (Delimited 1 name # more)"
    have fl: "?fl = Delimited 1 ?bs" by (simp add: Mapping)
    from delim [OF fl] obtain tag where D: "readVarint m endp p = Some (p + length (enc_tag 1 2), tag)"
      "(ucast (drop_bit 3 tag) :: u32) = 1" "(ucast (tag AND 7) :: u32) = 2"
      "readVarint m endp (p + length (enc_tag 1 2)) =
        Some (p + length (enc_tag 1 2) + length (enc_varint (length ?bs)), of_nat (length ?bs))"
      "\<not> over_end (p + length (enc_tag 1 2) + length (enc_varint (length ?bs))) (of_nat (length ?bs)) endp"
      "advance (p + length (enc_tag 1 2) + length (enc_varint (length ?bs))) (of_nat (length ?bs)) = p + length (enc_field ?fl)"
      "starts_at ?bs m (p + length (enc_tag 1 2) + length (enc_varint (length ?bs)))" by blast
    have N: "mapping_name m (p + length (enc_tag 1 2) + length (enc_varint (length ?bs))) (of_nat (length ?bs)) = Some name"
      using D(7) le assms(3) by (intro mapping_name_enc) (simp_all add: fl)
    have "names_loop m endp p out = names_loop m endp (p + length (enc_field ?fl)) (out @ [name])"
      using p D N by (subst names_loop.simps) simp
    then show ?thesis using IH by (simp add: Mapping)
  next
    case (Other fd)
    show ?thesis
    proof (cases fd)
      case (Delimited f bs)
      then have fl: "?fl = Delimited f bs" "f \<noteq> 1" using ok(1) by (simp_all add: Other)
      from delim [OF fl(1)] p fl have "names_loop m endp p out = names_loop m endp (p + length (enc_field ?fl)) out"
        by (subst names_loop.simps) auto
      then show ?thesis using IH by (simp add: Other)
    next
      case (Varint f v)
      let ?p1 = "p + length (enc_tag f 0)"
      obtain tag where T: "readVarint m endp p = Some (?p1, tag)" "(ucast (tag AND 7) :: u32) = 0"
        using readTag [of f 0 m p endp] at(1) le by (auto simp: Other Varint starts_at_append)
      have "readVarint m endp ?p1 = Some (?p1 + length (enc_varint (unat v)), of_nat (unat v))"
        using at(1) le unsigned_less [of v] by (intro readVarint_enc) (simp_all add: Other Varint starts_at_append)
      then have "names_loop m endp p out = names_loop m endp (p + length (enc_field ?fl)) out"
        using p T by (subst names_loop.simps) (simp add: Other Varint add.assoc)
      then show ?thesis using IH by (simp add: Other)
    next
      case (Fixed32 f bs)
      let ?p1 = "p + length (enc_tag f 5)"
      obtain tag where T: "readVarint m endp p = Some (?p1, tag)" "(ucast (tag AND 7) :: u32) = 5"
        using readTag [of f 5 m p endp] at(1) le by (auto simp: Other Fixed32 starts_at_append)
      have "advance ?p1 4 = ?p1 + 4" using le assms(3) advance_numeral(1) [of ?p1] by (simp add: Other Fixed32)
      then have "names_loop m endp p out = names_loop m endp (p + length (enc_field ?fl)) out"
        using p T ok(1) by (subst names_loop.simps) (simp add: Other Fixed32 add.assoc)
      then show ?thesis using IH by (simp add: Other)
    next
      case (Fixed64 f bs)
      let ?p1 = "p + length (enc_tag f 1)"
      obtain tag where T: "readVarint m endp p = Some (?p1, tag)" "(ucast (tag AND 7) :: u32) = 1"
        using readTag [of f 1 m p endp] at(1) le by (auto simp: Other Fixed64 starts_at_append)
      have "advance ?p1 8 = ?p1 + 8" using le assms(3) ok(1) advance_numeral(2) [of ?p1] by (simp add: Other Fixed64)
      then have "names_loop m endp p out = names_loop m endp (p + length (enc_field ?fl)) out"
        using p T ok(1) by (subst names_loop.simps) (simp add: Other Fixed64 add.assoc)
      then show ?thesis using IH by (simp add: Other)
    qed
  qed
qed

text \<open>from every manifest whose payload is an encoded file list the reader returns exactly the names,
  in order, byte for byte.\<close>

theorem extract_names_exact:
  assumes "\<forall>(g, pl) \<in> set pre. g \<noteq> kPayloadMagic" "list_all entry_ok es"
    "m = enc_sections pre @ framed kPayloadMagic (enc_entries es) @ rest" "length m + 8 < 2 ^ 32"
  shows "extractManifestFilenames m = Some (concat (map entry_names es))"
proof -
  let ?pre = "enc_sections pre"
  have len: "length pl < 2 ^ 32" if "(g, pl) \<in> set pre" for g pl
    using enc_sections_member [OF that] assms(3,4) by simp
  have small: "length (enc_entries es) < 2 ^ 32" using assms(3,4) by (simp add: framed_def)
  have F: "find_section m kPayloadMagic 0 = Some (length ?pre + 8, length (enc_entries es))"
    using find_section_framed [of pre kPayloadMagic "enc_entries es" "[]" rest] assms(1) len small
    by (auto simp: assms(3))
  have "starts_at (enc_entries es) m (length ?pre + 8)"
    using starts_at_self [of "enc_entries es" "?pre @ le32 kPayloadMagic @ le32 (of_nat (length (enc_entries es)))" rest]
    by (simp add: assms(3) framed_def)
  then have "names_loop m (length ?pre + 8 + length (enc_entries es)) (length ?pre + 8) [] =
      Some ([] @ concat (map entry_names es))"
    using assms(2-4) by (intro names_loop_enc) (simp_all add: framed_def)
  then show ?thesis by (simp add: extractManifestFilenames_def F)
qed

lemma extract_names_exact_witness:
  "extractManifestFilenames (framed kPayloadMagic (enc_entries [Mapping [97, 98] [Varint 2 5], Other (Varint 3 1)])) =
     Some [[97, 98]]"
  using extract_names_exact [of "[]" "[Mapping [97, 98] [Varint 2 5], Other (Varint 3 1)]" _ "[]", OF _ _ refl]
  by (simp add: framed_def enc_entries_def enc_message_def enc_tag_def enc_varint.simps)

end
