(* ===== verification/CmReader.thy ===== *)
theory CmReader
  imports KvRoundTrip
begin

text \<open>
  The reader of text KeyValues in \<open>src/feats/appinfo_provision.cpp\<close> (\<open>CmVdfReader\<close>), which turns
  a connection-manager buffer, or a cached one, into a YAML tree, and the map operations of YAML
  trees it needs. Its lexer is the lexer of \<open>KvText\<close>. The recursive reader takes fuel; \<open>Suc\<close> of
  the input length is enough.
\<close>

section \<open>Maps of a tree\<close>

text \<open>\<open>node[key]\<close> on a map: the first entry with the key. Assignment replaces it or appends.\<close>

fun yget :: "(bytes \<times> ynode) list \<Rightarrow> bytes \<Rightarrow> ynode option" where
  "yget [] k = None"
| "yget ((k', v) # m) k = (if k' = k then Some v else yget m k)"

fun yset :: "(bytes \<times> ynode) list \<Rightarrow> bytes \<Rightarrow> ynode \<Rightarrow> (bytes \<times> ynode) list" where
  "yset [] k v = [(k, v)]"
| "yset ((k', v') # m) k v = (if k' = k then (k', v) # m else (k', v') # yset m k v)"

lemma yget_yset [simp]: "yget (yset m k v) k' = (if k' = k then Some v else yget m k')"
  by (induction m k v rule: yset.induct) auto

lemma keys_yset: "map fst (yset m k v) = (if k \<in> fst ` set m then map fst m else map fst m @ [k])"
  by (induction m k v rule: yset.induct) auto

lemma yset_new: "k \<notin> fst ` set m \<Longrightarrow> yset m k v = m @ [(k, v)]"
  by (induction m k v rule: yset.induct) auto

lemma distinct_yset: "distinct (map fst m) \<Longrightarrow> distinct (map fst (yset m k v))"
  by (simp add: keys_yset)

lemma yset_yset [simp]: "yset (yset m k v) k w = yset m k w"
  by (induction m k v rule: yset.induct) auto

lemma yget_None: "yget m k = None \<longleftrightarrow> k \<notin> fst ` set m"
  by (induction m k rule: yget.induct) auto

lemma yget_append: "yget (m @ m') k = (case yget m k of None \<Rightarrow> yget m' k | Some v \<Rightarrow> Some v)"
  by (induction m k rule: yget.induct) auto

lemma yget_mem: "distinct (map fst m) \<Longrightarrow> yget m k = Some v \<longleftrightarrow> (k, v) \<in> set m"
  by (induction m k rule: yget.induct) (auto simp: rev_image_eqI)

lemma yget_SomeD: "yget m k = Some v \<Longrightarrow> (k, v) \<in> set m"
  by (induction m k rule: yget.induct) (auto split: if_splits)

section \<open>The reader\<close>

text \<open>\<open>parseObject\<close> after the opening brace, with the entries set so far: the entries and the unread
  text. \<open>None\<close> is a lack of fuel.\<close>

fun parse_object :: "nat \<Rightarrow> bytes \<Rightarrow> (bytes \<times> ynode) list \<Rightarrow> ((bytes \<times> ynode) list \<times> bytes) option" where
  "parse_object 0 p nd = None"
| "parse_object (Suc n) p nd =
     (case next_tok p of
        (TString key, p1) \<Rightarrow>
          (case next_tok p1 of
             (TOpen, p2) \<Rightarrow>
               (case parse_object n p2 [] of
                  None \<Rightarrow> None
                | Some (child, p3) \<Rightarrow> parse_object n p3 (yset nd key (YMap child)))
           | (TString val, p2) \<Rightarrow> parse_object n p2 (yset nd key (YScalar val))
           | (_, p2) \<Rightarrow> Some (nd, p2))
      | (_, p1) \<Rightarrow> Some (nd, p1))"

declare parse_object.simps [simp del]

text \<open>\<open>parseAppinfo\<close>: \<open>None\<close> is the undefined node.\<close>

definition parseAppinfo :: "bytes \<Rightarrow> ynode option" where
  "parseAppinfo p =
     (case next_tok p of
        (TString key, p1) \<Rightarrow>
          (case next_tok p1 of
             (TOpen, p2) \<Rightarrow> map_option (\<lambda>(nd, r). YMap nd) (parse_object (Suc (length p)) p2 [])
           | _ \<Rightarrow> None)
      | _ \<Rightarrow> None)"

lemma next_tok_rest: "next_tok p = (t, p') \<Longrightarrow> length p' \<le> length p"
  using next_tok_shorter [of p t p'] by (cases "t = TEnd")
    (auto simp: next_tok_def split: list.splits if_splits option.splits prod.splits)

lemma parse_object_total:
  "length p < n \<Longrightarrow> \<exists>nd' r. parse_object n p nd = Some (nd', r) \<and> length r \<le> length p"
proof (induction n arbitrary: p nd)
  case (Suc n)
  obtain t p1 where t: "next_tok p = (t, p1)" by fastforce
  show ?case
  proof (cases t)
    case (TString key)
    have l1: "length p1 < length p" using next_tok_shorter [OF t] TString by simp
    obtain u p2 where u: "next_tok p1 = (u, p2)" by fastforce
    show ?thesis
    proof (cases u)
      case (TString val)
      have l2: "length p2 < length p1" using next_tok_shorter [OF u] TString by simp
      then show ?thesis using Suc.IH [of p2 "yset nd key (YScalar val)"] Suc.prems l1 t u \<open>t = TString key\<close> TString
        by (fastforce simp: parse_object.simps)
    next
      case TOpen
      have l2: "length p2 < length p1" using next_tok_shorter [OF u] TOpen by simp
      then obtain c p3 where c: "parse_object n p2 [] = Some (c, p3)" "length p3 \<le> length p2"
        using Suc.IH [of p2 "[]"] Suc.prems l1 by auto
      then show ?thesis using Suc.IH [of p3 "yset nd key (YMap c)"] Suc.prems l1 l2 t u \<open>t = TString key\<close> TOpen
        by (fastforce simp: parse_object.simps)
    qed (use l1 t u TString next_tok_rest [OF u] in \<open>auto simp: parse_object.simps\<close>)
  qed (use t next_tok_rest [OF t] in \<open>auto simp: parse_object.simps\<close>)
qed simp

section \<open>Reading what the writer prints\<close>

text \<open>The tree of a list of printed pairs: a repeated key keeps its place and its last value.\<close>

fun kv_entries :: "kv list \<Rightarrow> (bytes \<times> ynode) list \<Rightarrow> (bytes \<times> ynode) list" where
  "kv_entries [] nd = nd"
| "kv_entries (KvLeaf k v # ts) nd = kv_entries ts (yset nd k (YScalar v))"
| "kv_entries (KvObj k cs # ts) nd = kv_entries ts (yset nd k (YMap (kv_entries cs [])))"

definition reread :: "(bytes \<times> ynode) list \<Rightarrow> (bytes \<times> ynode) list" where
  "reread m = kv_entries (kv_of_map m) []"

lemma parse_prefix: "list_all is_ws ws \<Longrightarrow> parse_object (Suc n) (ws @ p) nd = parse_object (Suc n) p nd"
  by (simp add: parse_object.simps next_tok_prefix)

lemma parse_close: "list_all is_ws ws \<Longrightarrow> parse_object (Suc n) (ws @ 125 # p) nd = Some (nd, p)"
  by (simp add: parse_object.simps next_tok_prefix)

lemma parse_leaf:
  "parse_object (Suc (Suc n)) (tabs d @ emitEscaped k @ [9, 9] @ emitEscaped v @ [10] @ p) nd =
     parse_object (Suc n) p (yset nd k (YScalar v))"
proof -
  have 1: "next_tok ([9, 9] @ emitEscaped v @ 10 # p) = (TString v, 10 # p)"
    using next_tok_prefix [of "[9, 9]" "emitEscaped v @ 10 # p"] by (simp add: ws_values)
  show ?thesis using 1 parse_prefix [of "[10]" n p]
    by (simp add: parse_object.simps(2) [of "Suc n" "tabs d @ _"] next_tok_prefix ws_values)
qed

lemma parse_child:
  assumes child: "\<And>q. parse_object (Suc n) (c @ q) [] = parse_object (Suc n - len) q cs" and len: "len < Suc n"
  shows "parse_object (Suc (Suc n)) (tabs d @ emitEscaped k @ [10] @ tabs d @ [123, 10] @ c @ tabs d @
      [125, 10] @ p) nd = parse_object (Suc n) p (yset nd k (YMap cs))"
proof -
  obtain j where j: "Suc n - len = Suc j" using len by (metis Suc_diff_le less_Suc_eq_le)
  have "parse_object (Suc n) (10 # c @ tabs d @ 125 # 10 # p) [] = parse_object (Suc n) (c @ tabs d @ 125 # 10 # p) []"
    using parse_prefix [of "[10]" n] by (simp add: ws_values)
  also have "\<dots> = Some (cs, 10 # p)" using child [of "tabs d @ 125 # 10 # p"] by (simp add: j parse_close)
  finally have body: "parse_object (Suc n) (10 # c @ tabs d @ 125 # 10 # p) [] = Some (cs, 10 # p)" .
  have brace: "next_tok ((10 # tabs d) @ 123 # 10 # c @ tabs d @ 125 # 10 # p) = (TOpen, 10 # c @ tabs d @ 125 # 10 # p)"
    by (subst next_tok_prefix) (simp_all add: ws_values)
  then show ?thesis using body parse_prefix [of "[10]" n p]
    by (simp add: parse_object.simps(2) [of "Suc n" "tabs d @ _"] next_tok_prefix ws_values)
qed

lemma parse_print:
  "nodes (kv_of_map m) < n \<Longrightarrow> parse_object n (emitMap m d @ rest) nd =
     parse_object (n - length m) rest (kv_entries (kv_of_map m) nd)"
  "nodes (kv_of_seq cs i) < n \<Longrightarrow> parse_object n (emitSeq cs i d @ rest) nd =
     parse_object (n - length cs) rest (kv_entries (kv_of_seq cs i) nd)"
proof (induction m d and cs i d arbitrary: n rest nd and n rest nd rule: emitMap_emitSeq.induct)
  case (2 k m es d)
  obtain j where n: "n = Suc (Suc j)" using 2(3) by (cases n; cases "n - 1") auto
  have b: "nodes (kv_of_map m) < Suc j" "nodes (kv_of_map es) < Suc j" using 2(3) by (simp_all add: n)
  have "length m < Suc j" using b(1) length_le_nodes(1) [of m] by simp
  note parse_child [OF 2(1) [OF b(1)] this]
  then show ?case using 2(2) [OF b(2), of rest] by (simp add: n)
next
  case (3 k s es d)
  obtain j where n: "n = Suc (Suc j)" using 3(2) by (cases n; cases "n - 1") auto
  have b: "nodes (kv_of_map es) < Suc j" using 3(2) by (simp add: n)
  show ?case using parse_leaf [of j d k s "emitMap es d @ rest"] 3(1) [OF b, of rest] by (simp add: n)
next
  case (4 k cs es d)
  obtain j where n: "n = Suc (Suc j)" using 4(3) by (cases n; cases "n - 1") auto
  have b: "nodes (kv_of_seq cs 0) < Suc j" "nodes (kv_of_map es) < Suc j" using 4(3) by (simp_all add: n)
  have "length cs < Suc j" using b(1) length_le_nodes(2) [of cs 0] by simp
  note parse_child [OF 4(1) [OF b(1)] this]
  then show ?case using 4(2) [OF b(2), of rest] by (simp add: n)
next
  case (5 k es d)
  obtain j where n: "n = Suc (Suc j)" using 5(2) by (cases n; cases "n - 1") auto
  have b: "nodes (kv_of_map es) < Suc j" using 5(2) by (simp add: n)
  show ?case using parse_leaf [of j d k "[]" "emitMap es d @ rest"] 5(1) [OF b, of rest]
    by (simp add: n emitEscaped_def)
next
  case (7 m cs i d)
  obtain j where n: "n = Suc (Suc j)" using 7(3) by (cases n; cases "n - 1") auto
  have b: "nodes (kv_of_map m) < Suc j" "nodes (kv_of_seq cs (Suc i)) < Suc j" using 7(3) by (simp_all add: n)
  have "length m < Suc j" using b(1) length_le_nodes(1) [of m] by simp
  note parse_child [OF 7(1) [OF b(1)] this]
  then show ?case using 7(2) [OF b(2), of rest] by (simp add: n)
next
  case (8 s cs i d)
  obtain j where n: "n = Suc (Suc j)" using 8(2) by (cases n; cases "n - 1") auto
  have b: "nodes (kv_of_seq cs (Suc i)) < Suc j" using 8(2) by (simp add: n)
  show ?case using parse_leaf [of j "Suc d" "str_bytes (to_dec i)" s "emitSeq cs (Suc i) d @ rest"] 8(1) [OF b, of rest]
    by (simp add: n)
next
  case (9 v cs i d)
  obtain j where n: "n = Suc (Suc j)" using 9(2) by (cases n; cases "n - 1") auto
  have b: "nodes (kv_of_seq cs (Suc i)) < Suc j" using 9(2) by (simp add: n)
  show ?case using parse_leaf [of j "Suc d" "str_bytes (to_dec i)" "[]" "emitSeq cs (Suc i) d @ rest"] 9(1) [OF b, of rest]
    by (simp add: n)
next
  case (10 cs i d)
  obtain j where n: "n = Suc (Suc j)" using 10(2) by (cases n; cases "n - 1") auto
  have b: "nodes (kv_of_seq cs (Suc i)) < Suc j" using 10(2) by (simp add: n)
  show ?case using parse_leaf [of j "Suc d" "str_bytes (to_dec i)" "[]" "emitSeq cs (Suc i) d @ rest"] 10(1) [OF b, of rest]
    by (simp add: n)
qed simp_all

lemma reread_wireOut: "parseAppinfo (wireOut (YMap m)) = Some (YMap (reread m))"
proof -
  let ?w = "wireOut (YMap m)"
  have fuel: "nodes (kv_of_map m) < Suc (length ?w)"
    using nodes_le_print(1) [of m 1] by (simp add: wireOut_shape)
  then have "length m < Suc (length ?w)" using length_le_nodes(1) [of m] by linarith
  then obtain j where j: "Suc (length ?w) - length m = Suc j" by (metis Suc_diff_le less_Suc_eq_le)
  have "parse_object (Suc (length ?w)) (10 # emitMap m 1 @ [125, 10]) []
      = parse_object (Suc (length ?w)) (emitMap m 1 @ [125, 10]) []"
    using parse_prefix [of "[10]"] by (simp add: ws_values)
  also have "\<dots> = Some (reread m, [10])"
    using parse_print(1) [OF fuel, of 1 "[125, 10]" "[]"] parse_close [of "[]" j "[10]"] by (simp add: j reread_def)
  finally have obj: "parse_object (Suc (length ?w)) (10 # emitMap m 1 @ [125, 10]) [] = Some (reread m, [10])" .
  have "next_tok (10 # 123 # 10 # emitMap m 1 @ [125, 10]) = (TOpen, 10 # emitMap m 1 @ [125, 10])"
    using next_tok_prefix [of "[10]"] by (simp add: ws_values)
  then show ?thesis using obj
    unfolding parseAppinfo_def by (subst wireOut_shape) simp
qed

text \<open>Trees of maps and scalars in which no map repeats a key are read back as they were.\<close>

fun plain_map :: "(bytes \<times> ynode) list \<Rightarrow> bool" where
  "plain_map [] = True"
| "plain_map ((k, YScalar s) # m) \<longleftrightarrow> k \<notin> fst ` set m \<and> plain_map m"
| "plain_map ((k, YMap c) # m) \<longleftrightarrow> k \<notin> fst ` set m \<and> plain_map c \<and> plain_map m"
| "plain_map _ = False"

lemma plain_entries:
  "plain_map m \<Longrightarrow> fst ` set m \<inter> fst ` set nd = {} \<Longrightarrow> kv_entries (kv_of_map m) nd = nd @ m"
proof (induction m arbitrary: nd rule: plain_map.induct)
  case (2 k s m)
  then show ?case using 2(1) [of "nd @ [(k, YScalar s)]"] by (auto simp: yset_new)
next
  case (3 k c m)
  then show ?case using 3(2) [of "nd @ [(k, YMap c)]"] 3(1) [of "[]"] by (auto simp: yset_new)
qed simp_all

lemma plain_reread: "plain_map m \<Longrightarrow> reread m = m"
  using plain_entries [of m "[]"] by (simp add: reread_def)

text \<open>What is read is such a tree again, so that reading and writing once normalises a document.\<close>

lemma plain_yset:
  "plain_map nd \<Longrightarrow> plain_map (yset nd k (YScalar s))"
  "plain_map nd \<Longrightarrow> plain_map c \<Longrightarrow> plain_map (yset nd k (YMap c))"
proof -
  have keys: "fst ` set (yset m k v) \<subseteq> insert k (fst ` set m)" for m and v
    by (induction m k v rule: yset.induct) auto
  show "plain_map nd \<Longrightarrow> plain_map (yset nd k (YScalar s))"
  proof (induction nd rule: plain_map.induct)
    case (2 k' s' m) then show ?case using keys [of m "YScalar s"] by auto
  next
    case (3 k' c' m) then show ?case using keys [of m "YScalar s"] by auto
  qed simp_all
  show "plain_map nd \<Longrightarrow> plain_map c \<Longrightarrow> plain_map (yset nd k (YMap c))"
  proof (induction nd rule: plain_map.induct)
    case (2 k' s' m) then show ?case using keys [of m "YMap c"] by auto
  next
    case (3 k' c' m) then show ?case using keys [of m "YMap c"] by auto
  qed simp_all
qed

lemma parse_plain:
  "parse_object n p nd = Some (nd', r) \<Longrightarrow> plain_map nd \<Longrightarrow> plain_map nd'"
  by (induction n p nd arbitrary: nd' r rule: parse_object.induct)
    (auto simp: parse_object.simps plain_yset split: prod.splits tok.splits option.splits)

text \<open>The reader always returns, and gives up only on a text that does not open with a key and a
  brace.\<close>

theorem reader_returns:
  "parseAppinfo p = None \<longleftrightarrow>
     \<not> (\<exists>key p1 p2. next_tok p = (TString key, p1) \<and> next_tok p1 = (TOpen, p2))"
proof -
  have "\<exists>nd r. parse_object (Suc (length p)) p2 [] = Some (nd, r)"
    if "next_tok p = (TString key, p1)" "next_tok p1 = (TOpen, p2)" for key p1 p2
    using parse_object_total [of p2 "Suc (length p)" "[]"] next_tok_rest [OF that(1)] next_tok_rest [OF that(2)]
    by fastforce
  then show ?thesis by (fastforce simp: parseAppinfo_def split: prod.splits tok.splits)
qed

lemma parseAppinfo_plain: "parseAppinfo p = Some nd \<Longrightarrow> \<exists>m. nd = YMap m \<and> plain_map m"
  by (auto simp: parseAppinfo_def dest: parse_plain split: prod.splits tok.splits)

text \<open>C21: A document of maps and scalars without repeated keys, printed for the cache, is read back as it
  was, whatever bytes its keys and values hold.\<close>

theorem reader_inverts_writer: "plain_map m \<Longrightarrow> parseAppinfo (wireOut (YMap m)) = Some (YMap m)"
  by (simp add: reread_wireOut plain_reread)

text \<open>Every text the reader accepts is such a document, so that writing and reading it again changes
  nothing.\<close>

theorem reader_normalises:
  assumes "parseAppinfo p = Some nd"
  shows "\<exists>m. nd = YMap m \<and> plain_map m \<and> parseAppinfo (wireOut nd) = Some nd"
proof -
  obtain m where m: "nd = YMap m" "plain_map m" using parseAppinfo_plain [OF assms] by blast
  then show ?thesis by (simp add: reread_wireOut plain_reread)
qed

definition sample_doc :: "(bytes \<times> ynode) list" where
  "sample_doc = [([97], YMap [([98, 34], YScalar [92, 10])]), ([99], YScalar [])]"

lemma reader_inverts_writer_witness: "parseAppinfo (wireOut (YMap sample_doc)) = Some (YMap sample_doc)"
  by (rule reader_inverts_writer) (simp add: sample_doc_def)

text \<open>\<open>"a" \<open>{\<close> "k" 1 "k" 2\<close>, without a closing brace.\<close>

definition sample_text :: bytes where
  "sample_text = emitEscaped [97] @ [123] @ emitEscaped [107] @ [49, 32] @ emitEscaped [107] @ [50]"

lemma sample_text_read: "parseAppinfo sample_text = Some (YMap [([107], YScalar [50])])"
proof -
  have t1: "next_tok (emitEscaped [97] @ 123 # emitEscaped [107] @ [49, 32] @ emitEscaped [107] @ [50]) =
      (TString [97], 123 # emitEscaped [107] @ [49, 32] @ emitEscaped [107] @ [50])"
    by (rule next_tok_escaped)
  have v1: "next_tok ([49, 32] @ emitEscaped [107] @ [50]) = (TString [49], [32] @ emitEscaped [107] @ [50])"
    and v2: "next_tok [50] = (TString [50], [])" and e: "next_tok [] = (TEnd, [])"
    by (simp_all add: next_tok_def skipWs_stop is_ws_def bare_byte_def skipWs.simps)
  have sp: "next_tok ([32] @ emitEscaped [107] @ [50]) = (TString [107], [50])"
    using next_tok_prefix [of "[32]" "emitEscaped [107] @ [50]"] by (simp add: is_ws_def)
  have "2 \<le> length sample_text" by (simp add: sample_text_def emitEscaped_def)
  then obtain n where fuel: "Suc (length sample_text) = Suc (Suc (Suc n))" by (metis add_2_eq_Suc le_Suc_ex)
  have "parse_object (Suc (Suc (Suc n))) (emitEscaped [107] @ [49, 32] @ emitEscaped [107] @ [50]) [] =
      Some ([([107], YScalar [50])], [])"
    using v1 v2 e sp by (simp add: parse_object.simps)
  then show ?thesis unfolding parseAppinfo_def fuel using t1
    by (simp add: sample_text_def)
qed

lemma reader_normalises_witness:
  "parseAppinfo (wireOut (YMap [([107], YScalar [50])])) = Some (YMap [([107], YScalar [50])])"
  using reader_normalises [OF sample_text_read] by blast

end
