(* ===== verification/ManifestNames.thy ===== *)
theory ManifestNames
  imports CppText
begin

text \<open>
  The file-name heuristics of \<open>src/feats/manifestsynth.hpp\<close> for an app whose metadata is denied:
  the platform of a depot, the executable to launch, and the install directory made from the
  app's name. Strings are lists of bytes.
\<close>

section \<open>The platform of a file list\<close>

definition lowered :: "string \<Rightarrow> string" where
  "lowered s = map to_lower s"

definition windows_file :: "string \<Rightarrow> bool" where
  "windows_file f \<longleftrightarrow> ends_with ''.exe'' f"

definition macos_file :: "string \<Rightarrow> bool" where
  "macos_file f \<longleftrightarrow>
     contains_sub ''.app/'' f \<or> contains_sub (''.app'' @ [CHR 0x5C]) f \<or>
     contains_sub ''contents/macos'' f \<or> contains_sub (''contents'' @ [CHR 0x5C] @ ''macos'') f \<or>
     ends_with ''.dylib'' f"

definition linux_file :: "string \<Rightarrow> bool" where
  "linux_file f \<longleftrightarrow>
     ends_with ''.so'' f \<or> contains_sub ''.so.'' f \<or> contains_sub ''-linux-gnu'' f \<or>
     contains_sub ''-linux/'' f \<or> ends_with ''.x86_64'' f \<or> ends_with ''.x86'' f"

fun os_loop :: "string list \<Rightarrow> bool \<Rightarrow> bool \<Rightarrow> bool \<Rightarrow> bool \<times> bool \<times> bool" where
  "os_loop [] win mac lin = (win, mac, lin)"
| "os_loop (raw # fs) win mac lin =
     (let f = lowered raw
      in os_loop fs (win \<or> windows_file f) (mac \<or> macos_file f) (lin \<or> linux_file f))"

definition detectOsFromFiles :: "string list \<Rightarrow> string" where
  "detectOsFromFiles files =
     (let (win, mac, lin) = os_loop files False False False in
      if win then ''windows'' else if mac then ''macos'' else if lin then ''linux'' else [])"

section \<open>The launch executable\<close>

definition is_root :: "string \<Rightarrow> bool" where
  "is_root f \<longleftrightarrow> CHR 0x5C \<notin> set f \<and> CHR 0x2F \<notin> set f"

definition is_helper :: "string \<Rightarrow> bool" where
  "is_helper f \<longleftrightarrow>
     (let l = lowered f in
      list_ex (\<lambda>w. contains_sub w l)
        [''crashhandler'', ''crashpad'', ''unitycrash'', ''vc_redist'', ''vcredist'', ''dxsetup'',
         ''uninstall''])"

text \<open>\<open>f.substr(0, f.rfind('.'))\<close>, lower case.\<close>

definition upto_last_dot :: "string \<Rightarrow> string" where
  "upto_last_dot f =
     (if CHR 0x2E \<in> set f then rev (tl (dropWhile (\<lambda>c. c \<noteq> CHR 0x2E) (rev f))) else f)"

definition stem :: "string \<Rightarrow> string" where
  "stem f = lowered (upto_last_dot f)"

definition ends_lower :: "string \<Rightarrow> string \<Rightarrow> bool" where
  "ends_lower suf s \<longleftrightarrow> ends_with (lowered suf) (lowered s)"

definition squash :: "string \<Rightarrow> string" where
  "squash s = filter (\<lambda>c. c \<noteq> CHR '' '') (lowered s)"

text \<open>The \<open>.app\<close> directory a file lies in.\<close>

definition mac_bundle :: "string \<Rightarrow> string option" where
  "mac_bundle f =
     (let lf = lowered f;
          pos = (case find_at ''.app/'' lf of Some i \<Rightarrow> Some i | None \<Rightarrow> find_at (''.app'' @ [CHR 0x5C]) lf)
      in case pos of
           None \<Rightarrow> None
         | Some i \<Rightarrow> (let bundle = take (i + 4) f in if is_root bundle then Some bundle else None))"

definition launch_candidate :: "string \<Rightarrow> string \<Rightarrow> bool" where
  "launch_candidate os f \<longleftrightarrow>
     is_root f \<and> \<not> is_helper f \<and>
     (if os = ''windows'' then ends_lower ''.exe'' f
      else \<not> (ends_lower ''.so'' f \<or> contains_sub ''.so.'' f \<or> ends_lower ''.dll'' f) \<and>
        (ends_lower ''.sh'' f \<or> ends_lower ''.x86_64'' f \<or> ends_lower ''.x86'' f \<or> ends_lower ''.run'' f \<or>
         CHR 0x2E \<notin> set f))"

text \<open>The empty string means that there is none.\<close>

definition pickLauncher :: "string list \<Rightarrow> string \<Rightarrow> string \<Rightarrow> string" where
  "pickLauncher files installdir os =
     (let want = lowered installdir in
      if os = ''macos'' then
        (case List.map_filter mac_bundle files of
           [] \<Rightarrow> []
         | b # bs \<Rightarrow> (case find (\<lambda>x. stem x = want) (b # bs) of Some x \<Rightarrow> x | None \<Rightarrow> b))
      else
        (case filter (launch_candidate os) files of
           [] \<Rightarrow> []
         | c # cs \<Rightarrow>
             (case find (\<lambda>f. stem f = ''steamshim'') (c # cs) of
                Some f \<Rightarrow> f
              | None \<Rightarrow>
                  (case find (\<lambda>f. stem f = want) (c # cs) of
                     Some f \<Rightarrow> f
                   | None \<Rightarrow>
                       (case find (\<lambda>f. squash (stem f) = squash installdir) (c # cs) of
                          Some f \<Rightarrow> f
                        | None \<Rightarrow> c)))))"

section \<open>The install directory\<close>

definition bad_path_char :: "char \<Rightarrow> bool" where
  "bad_path_char c \<longleftrightarrow>
     char_code c < 0x20 \<or> c \<in> {CHR 0x2F, CHR 0x5C, CHR 0x3A, CHR 0x2A, CHR 0x3F, CHR 0x22, CHR 0x3C, CHR 0x3E, CHR 0x7C}"

fun sanitize_loop :: "string \<Rightarrow> string \<Rightarrow> bool \<Rightarrow> string" where
  "sanitize_loop [] out pendingSpace = out"
| "sanitize_loop (c # raw) out pendingSpace =
     (if bad_path_char c \<or> c = CHR '' '' then sanitize_loop raw out (pendingSpace \<or> out \<noteq> [])
      else sanitize_loop raw ((if pendingSpace then out @ '' '' else out) @ [c]) False)"

definition sanitize_name :: "string \<Rightarrow> string" where
  "sanitize_name raw = sanitize_loop raw [] False"

section \<open>The platform depends on the files only\<close>

lemma os_loop_exists:
  "os_loop fs win mac lin =
     (win \<or> (\<exists>f \<in> set fs. windows_file (lowered f)), mac \<or> (\<exists>f \<in> set fs. macos_file (lowered f)),
      lin \<or> (\<exists>f \<in> set fs. linux_file (lowered f)))"
  by (induction fs win mac lin rule: os_loop.induct) (auto simp: Let_def)

lemma detect_cong: "set fs = set gs \<Longrightarrow> detectOsFromFiles fs = detectOsFromFiles gs"
  by (simp add: detectOsFromFiles_def os_loop_exists)

lemma detect_values: "detectOsFromFiles fs \<in> {''windows'', ''macos'', ''linux'', []}"
  by (simp add: detectOsFromFiles_def split_beta)

section \<open>The launcher by rank\<close>

text \<open>How well a candidate fits: the shim, then the install directory's name, then that name without
  spaces, then any. The launcher is the first candidate of least rank.\<close>

definition launch_rank :: "string \<Rightarrow> string \<Rightarrow> nat" where
  "launch_rank installdir f =
     (if stem f = ''steamshim'' then 0 else if stem f = lowered installdir then 1
      else if squash (stem f) = squash installdir then 2 else 3)"

definition first_least :: "('a \<Rightarrow> nat) \<Rightarrow> 'a list \<Rightarrow> 'a option" where
  "first_least r xs = find (\<lambda>x. \<forall>y \<in> set xs. r x \<le> r y) xs"

lemma find_SomeD: "find P xs = Some x \<Longrightarrow> x \<in> set xs \<and> P x"
  by (auto simp: find_Some_iff)

lemma find_NoneD: "find P xs = None \<Longrightarrow> \<forall>x \<in> set xs. \<not> P x"
  by (auto simp: find_None_iff)

lemma find_cong_set: "(\<And>x. x \<in> set xs \<Longrightarrow> P x = Q x) \<Longrightarrow> find P xs = find Q xs"
  by (induction xs) auto

text \<open>When some element has rank \<open>k\<close> and none a lower one, the first of least rank is the first of
  rank \<open>k\<close>.\<close>

lemma first_least_find:
  assumes "find (\<lambda>x. r x = k) xs = Some x" "\<forall>y \<in> set xs. k \<le> r y"
  shows "first_least r xs = Some x"
proof -
  have "(\<forall>z \<in> set xs. r y \<le> r z) \<longleftrightarrow> r y = k" if "y \<in> set xs" for y
    using assms that find_SomeD [OF assms(1)] by (auto intro: le_antisym)
  then have "first_least r xs = find (\<lambda>x. r x = k) xs"
    unfolding first_least_def by (rule find_cong_set)
  with assms(1) show ?thesis by simp
qed

lemma first_least_some: "xs \<noteq> [] \<Longrightarrow> \<exists>x. first_least r xs = Some x"
proof -
  assume "xs \<noteq> []"
  then have "Min (r ` set xs) \<in> r ` set xs" by simp
  then obtain x where "x \<in> set xs" "r x = Min (r ` set xs)" by auto
  then have "x \<in> set xs \<and> (\<forall>y \<in> set xs. r x \<le> r y)" by simp
  then show ?thesis unfolding first_least_def
    using find_NoneD [of "\<lambda>x. \<forall>y \<in> set xs. r x \<le> r y" xs]
    by (cases "find (\<lambda>x. \<forall>y \<in> set xs. r x \<le> r y) xs") blast+
qed

lemma first_least_head:
  "\<forall>y \<in> set (x # xs). r y = k \<Longrightarrow> first_least r (x # xs) = Some x"
  by (simp add: first_least_def)

lemma launch_rank_le: "launch_rank dir f \<le> 3"
  by (simp add: launch_rank_def)

lemma pick_by_rank:
  "(case find (\<lambda>f. stem f = ''steamshim'') (c # cs) of
      Some f \<Rightarrow> f
    | None \<Rightarrow>
        (case find (\<lambda>f. stem f = lowered dir) (c # cs) of
           Some f \<Rightarrow> f
         | None \<Rightarrow>
             (case find (\<lambda>f. squash (stem f) = squash dir) (c # cs) of
                Some f \<Rightarrow> f
              | None \<Rightarrow> c))) = the (first_least (launch_rank dir) (c # cs))"
  (is "?pick = the (first_least ?r ?xs)")
proof -
  have shim: "find (\<lambda>f. stem f = ''steamshim'') ?xs = find (\<lambda>f. ?r f = 0) ?xs"
    by (rule find_cong_set) (simp add: launch_rank_def)
  show ?thesis
  proof (cases "find (\<lambda>f. ?r f = 0) ?xs")
    case (Some f)
    then show ?thesis unfolding shim using first_least_find [OF Some] by simp
  next
    case no_shim: None
    have want: "find (\<lambda>f. stem f = lowered dir) ?xs = find (\<lambda>f. ?r f = 1) ?xs"
      by (rule find_cong_set) (use find_NoneD [OF no_shim] in \<open>auto simp: launch_rank_def split: if_splits\<close>)
    show ?thesis
    proof (cases "find (\<lambda>f. ?r f = 1) ?xs")
      case (Some f)
      have "\<forall>y \<in> set ?xs. 1 \<le> ?r y" using find_NoneD [OF no_shim] by (simp add: Suc_le_eq)
      then show ?thesis unfolding shim want no_shim using first_least_find [OF Some] Some by simp
    next
      case no_want: None
      have near: "find (\<lambda>f. squash (stem f) = squash dir) ?xs = find (\<lambda>f. ?r f = 2) ?xs"
        by (rule find_cong_set)
          (use find_NoneD [OF no_shim] find_NoneD [OF no_want] in \<open>auto simp: launch_rank_def split: if_splits\<close>)
      have two: "\<forall>y \<in> set ?xs. 2 \<le> ?r y"
        using find_NoneD [OF no_shim] find_NoneD [OF no_want] by (metis One_nat_def Suc_1 leI less_Suc_eq less_one)
      show ?thesis
      proof (cases "find (\<lambda>f. ?r f = 2) ?xs")
        case (Some f)
        then show ?thesis unfolding shim want near no_shim no_want using first_least_find [OF Some two] by simp
      next
        case no_near: None
        have "?r y = 3" if "y \<in> set ?xs" for y
          using find_NoneD [OF no_near] two that launch_rank_le [of dir y]
          by (metis One_nat_def Suc_1 le_Suc_eq le_antisym numeral_3_eq_3)
        then have "first_least ?r ?xs = Some c" by (intro first_least_head) blast
        then show ?thesis unfolding shim want near no_shim no_want no_near by simp
      qed
    qed
  qed
qed

lemma pick_bundle:
  "(case find (\<lambda>x. stem x = want) (b # bs) of Some x \<Rightarrow> x | None \<Rightarrow> b) =
     the (first_least (\<lambda>x. if stem x = want then 0 else 1) (b # bs))"
  (is "_ = the (first_least ?r ?xs)")
proof -
  have eq: "find (\<lambda>x. stem x = want) ?xs = find (\<lambda>x. ?r x = 0) ?xs"
    by (rule find_cong_set) simp
  show ?thesis
  proof (cases "find (\<lambda>x. ?r x = 0) ?xs")
    case (Some x)
    then show ?thesis unfolding eq using first_least_find [OF Some] by simp
  next
    case None
    then have "\<forall>x \<in> set ?xs. ?r x = 1" using find_NoneD [OF None] by auto
    then have "first_least ?r ?xs = Some b" by (rule first_least_head)
    then show ?thesis unfolding eq None by simp
  qed
qed

text \<open>The executable chosen is the first, in the order of the file list, that fits best: among the
  bundles on macOS, among the root-level executables otherwise; the empty string only when there
  are none.\<close>

theorem pickLauncher_best:
  "pickLauncher files installdir os =
     (case (if os = ''macos''
            then first_least (\<lambda>b. if stem b = lowered installdir then 0 else 1) (List.map_filter mac_bundle files)
            else first_least (launch_rank installdir) (filter (launch_candidate os) files)) of
        None \<Rightarrow> [] | Some f \<Rightarrow> f)"
proof -
  have some: "(case first_least r (x # xs) of None \<Rightarrow> [] | Some f \<Rightarrow> f) = the (first_least r (x # xs))"
    for r :: "string \<Rightarrow> nat" and x xs
    using first_least_some [of "x # xs" r] by auto
  have none: "first_least r [] = None" for r :: "string \<Rightarrow> nat" by (simp add: first_least_def)
  show ?thesis
  proof (cases "os = ''macos''")
    case True
    then show ?thesis unfolding pickLauncher_def Let_def
      by (cases "List.map_filter mac_bundle files") (simp_all only: some none pick_bundle if_True refl list.case option.case)
  next
    case False
    then show ?thesis unfolding pickLauncher_def Let_def
      by (cases "filter (launch_candidate os) files") (simp_all only: some none pick_by_rank if_False list.case option.case)
  qed
qed

section \<open>The install directory by words\<close>

definition path_sep :: "char \<Rightarrow> bool" where
  "path_sep c \<longleftrightarrow> bad_path_char c \<or> c = CHR '' ''"

function path_words :: "string \<Rightarrow> string list" where
  "path_words [] = []"
| "path_words (c # s) =
     (if path_sep c then path_words s
      else (c # takeWhile (\<lambda>c. \<not> path_sep c) s) # path_words (dropWhile (\<lambda>c. \<not> path_sep c) s))"
  by pat_completeness auto
termination by (relation "measure length") (auto simp: length_dropWhile_le less_Suc_eq_le)

lemmas path_words_simps [simp del] = path_words.simps

definition spaced :: "string list \<Rightarrow> string" where
  "spaced ws = concat (map (\<lambda>w. CHR '' '' # w) ws)"

definition unwords :: "string list \<Rightarrow> string" where
  "unwords ws = tl (spaced ws)"

lemma spaced_simps [simp]: "spaced [] = []" "spaced (w # ws) = CHR '' '' # w @ spaced ws"
  by (simp_all add: spaced_def)

lemma sanitize_step:
  "sanitize_loop (c # raw) out pendingSpace =
     (if path_sep c then sanitize_loop raw out (pendingSpace \<or> out \<noteq> [])
      else sanitize_loop raw ((if pendingSpace then out @ '' '' else out) @ [c]) False)"
  by (simp add: path_sep_def)

declare sanitize_loop.simps(2) [simp del]

lemma sanitize_after:
  assumes "out \<noteq> []"
  shows "sanitize_loop raw out True = out @ spaced (path_words raw) \<and>
    sanitize_loop raw out False =
      out @ takeWhile (\<lambda>c. \<not> path_sep c) raw @ spaced (path_words (dropWhile (\<lambda>c. \<not> path_sep c) raw))"
  using assms
proof (induction raw arbitrary: out)
  case Nil
  then show ?case by (simp add: path_words_simps)
next
  case (Cons c raw)
  show ?case
  proof (cases "path_sep c")
    case True
    then show ?thesis using Cons.IH [of out] Cons.prems by (simp add: path_words_simps sanitize_step)
  next
    case False
    then show ?thesis using Cons.IH [of "out @ '' '' @ [c]"] Cons.IH [of "out @ [c]"] Cons.prems
      by (simp add: path_words_simps sanitize_step)
  qed
qed

lemma sanitize_unwords: "sanitize_name raw = unwords (path_words raw)"
  unfolding sanitize_name_def
proof (induction raw)
  case Nil
  then show ?case by (simp add: unwords_def path_words_simps)
next
  case (Cons c raw)
  then show ?case using sanitize_after [of "[c]" raw]
    by (cases "path_sep c") (simp_all add: path_words_simps sanitize_step unwords_def)
qed

definition word_ok :: "string \<Rightarrow> bool" where
  "word_ok w \<longleftrightarrow> w \<noteq> [] \<and> list_all (\<lambda>c. \<not> path_sep c) w"

lemma words_ok: "list_all word_ok (path_words s)"
proof (induction s rule: path_words.induct)
  case (2 c s)
  have "list_all (\<lambda>c. \<not> path_sep c) (takeWhile (\<lambda>c. \<not> path_sep c) s)"
    by (auto simp: list_all_iff dest: set_takeWhileD)
  then show ?case using 2 by (cases "path_sep c") (simp_all add: path_words_simps word_ok_def)
qed (simp add: path_words_simps)

lemma path_sep_blank [simp]: "path_sep (CHR '' '')"
  by (simp add: path_sep_def)

lemma words_of_word: "list_all (\<lambda>c. \<not> path_sep c) w \<Longrightarrow>
    takeWhile (\<lambda>c. \<not> path_sep c) (w @ spaced ws) = w \<and> dropWhile (\<lambda>c. \<not> path_sep c) (w @ spaced ws) = spaced ws"
  by (induction w) (cases ws, simp_all add: path_sep_blank)

lemma words_spaced: "list_all word_ok ws \<Longrightarrow> path_words (spaced ws) = ws"
proof (induction ws)
  case (Cons w ws)
  then obtain c v where w: "w = c # v" "\<not> path_sep c" "list_all (\<lambda>c. \<not> path_sep c) v"
    by (cases w) (auto simp: word_ok_def)
  then show ?case using Cons w words_of_word [OF w(3), of ws] by (simp add: path_words_simps)
qed (simp add: path_words_simps)

lemma words_unwords: "list_all word_ok ws \<Longrightarrow> path_words (unwords ws) = ws"
proof (cases ws)
  case (Cons w vs)
  assume "list_all word_ok ws"
  then show ?thesis using words_spaced [of ws] Cons by (simp add: unwords_def path_words_simps)
qed (simp add: unwords_def path_words_simps)

lemma spaced_clean: "list_all word_ok ws \<Longrightarrow> list_all (\<lambda>c. \<not> bad_path_char c) (spaced ws)"
proof (induction ws)
  case (Cons w ws)
  have "\<not> bad_path_char (CHR '' '')" by (simp add: bad_path_char_def char_code_def)
  then show ?case using Cons by (auto simp: word_ok_def path_sep_def list_all_iff)
qed simp

text \<open>The directory name made from an app's name is its words, cut at every blank or path-hostile
  character and joined by single blanks: no hostile character is left, and a name made this way is
  made into itself.\<close>

theorem sanitize_exact:
  "sanitize_name raw = unwords (path_words raw) \<and>
   list_all (\<lambda>c. \<not> bad_path_char c) (sanitize_name raw) \<and>
   sanitize_name (sanitize_name raw) = sanitize_name raw \<and>
   (sanitize_name raw = [] \<longleftrightarrow> list_all path_sep raw)"
proof (intro conjI)
  show eq: "sanitize_name raw = unwords (path_words raw)" by (rule sanitize_unwords)
  show "list_all (\<lambda>c. \<not> bad_path_char c) (sanitize_name raw)"
    using spaced_clean [OF words_ok [of raw]] unfolding eq unwords_def
    by (cases "spaced (path_words raw)") simp_all
  show "sanitize_name (sanitize_name raw) = sanitize_name raw"
    unfolding sanitize_unwords [of "sanitize_name raw"] unfolding eq by (simp add: words_unwords words_ok)
  have "path_words raw = [] \<longleftrightarrow> list_all path_sep raw"
    by (induction raw) (simp_all add: path_words_simps)
  moreover have "unwords ws = [] \<longleftrightarrow> ws = []" if "list_all word_ok ws" for ws
    using that by (cases ws) (auto simp: unwords_def word_ok_def)
  ultimately show "sanitize_name raw = [] \<longleftrightarrow> list_all path_sep raw"
    using words_ok [of raw] eq by simp
qed

end
