(* ===== verification/ProtonMapping.thy ===== *)
theory ProtonMapping
  imports CachePolicy DlcIds
begin

text \<open>
  Which apps run through Proton, and how Steam is told: \<open>src/feats/pending_proton.hpp\<close> (platform
  lists, the pending record), \<open>compattool.hpp\<close> (the user's default tool), and from
  \<open>appinfo_provision.cpp\<close> the pending set with its sidecar file and the edit of \<open>config.vdf\<close>.
  File contents, locks and the outcome of a write are arguments.
\<close>

section \<open>Platform lists\<close>

definition blank :: "char \<Rightarrow> bool" where
  "blank c \<longleftrightarrow> c = CHR '' '' \<or> c = CHR 0x09"

function skip_blanks :: "string \<Rightarrow> nat \<Rightarrow> nat \<Rightarrow> nat" where
  "skip_blanks t pos e = (if pos < e \<and> blank (t ! pos) then skip_blanks t (Suc pos) e else pos)"
  by pat_completeness auto
termination by (relation "measure (\<lambda>(t, pos, e). e - pos)") auto

function trim_end :: "string \<Rightarrow> nat \<Rightarrow> nat \<Rightarrow> nat" where
  "trim_end t pos e = (if pos < e \<and> blank (t ! (e - 1)) then trim_end t pos (e - 1) else e)"
  by pat_completeness auto
termination by (relation "measure (\<lambda>(t, pos, e). e)") auto

declare skip_blanks.simps [simp del] trim_end.simps [simp del]

lemma skip_blanks_bounds: "pos \<le> e \<Longrightarrow> pos \<le> skip_blanks t pos e \<and> skip_blanks t pos e \<le> e"
proof (induction t pos e rule: skip_blanks.induct)
  case (1 t pos e)
  then show ?case by (subst (1 2) skip_blanks.simps) auto
qed

lemma trim_end_bounds: "pos \<le> e \<Longrightarrow> pos \<le> trim_end t pos e \<and> trim_end t pos e \<le> e"
proof (induction t pos e rule: trim_end.induct)
  case (1 t pos e)
  show ?case
  proof (cases "pos < e \<and> blank (t ! (e - 1))")
    case True
    then have "pos \<le> e - 1" by linarith
    then have "pos \<le> trim_end t pos (e - 1) \<and> trim_end t pos (e - 1) \<le> e - 1" by (rule 1(1) [OF True])
    moreover have "trim_end t pos e = trim_end t pos (e - 1)" using True by (subst trim_end.simps) simp
    ultimately show ?thesis by linarith
  qed (use 1(2) in \<open>subst (1 2) trim_end.simps, auto\<close>)
qed

text \<open>The next search starts behind the trimmed end, so blanks before a comma are visited again.\<close>

function platforms_loop :: "string \<Rightarrow> nat \<Rightarrow> string set \<Rightarrow> string set" where
  "platforms_loop t pos out =
     (if pos < length t then
        (let e = comma_from t pos; p = skip_blanks t pos e; e' = trim_end t p e
         in platforms_loop t (Suc e') (if p < e' then insert (take (e' - p) (drop p t)) out else out))
      else out)"
  by pat_completeness auto
termination
proof (relation "measure (\<lambda>(t, pos, out). length t - pos)")
  fix t :: string and pos e p e' :: nat and out :: "string set"
  assume "pos < length t" "e = comma_from t pos" "p = skip_blanks t pos e" "e' = trim_end t p e"
  then have "pos \<le> e'"
    using comma_from_bounds [of pos t] skip_blanks_bounds [of pos e t] trim_end_bounds [of p e t] by auto
  then show "((t, Suc e', if p < e' then insert (take (e' - p) (drop p t)) out else out), (t, pos, out))
      \<in> measure (\<lambda>(t, pos, out). length t - pos)"
    using \<open>pos < length t\<close> by simp
qed simp

declare platforms_loop.simps [simp del]

definition parsePlatformOsList :: "string \<Rightarrow> string set" where
  "parsePlatformOsList t = platforms_loop t 0 {}"

definition kAnyPlatform :: string where "kAnyPlatform = ''*''"

definition addDepotPlatforms :: "string set \<Rightarrow> string \<Rightarrow> string set" where
  "addDepotPlatforms out oslist =
     (if oslist = [] then insert kAnyPlatform out else out \<union> parsePlatformOsList oslist)"

definition requiresProtonMapping :: "nat \<Rightarrow> string set \<Rightarrow> string \<Rightarrow> bool" where
  "requiresProtonMapping keptContentDepots depotOs commonOsList =
     (if keptContentDepots = 0 then False
      else
        (let commonOs = parsePlatformOsList commonOsList;
             anyPlatform = kAnyPlatform \<in> depotOs;
             commonHasLinux = ''linux'' \<in> commonOs
         in if card depotOs = (if anyPlatform then 1 else 0) then commonOs \<noteq> {} \<and> \<not> commonHasLinux
            else
              (let depotTargetsLinux = (''linux'' \<in> depotOs \<or> anyPlatform \<and> commonHasLinux);
                   nativeLinuxAvailable =
                     (if commonOs = {} then depotTargetsLinux else depotTargetsLinux \<and> ''linux'' \<in> commonOs)
               in \<not> nativeLinuxAvailable)))"

section \<open>The pending record\<close>

definition record_space :: "char \<Rightarrow> bool" where
  "record_space c \<longleftrightarrow> c \<in> {CHR '' '', CHR 0x09, CHR 0x0A, CHR 0x0D, CHR 0x0C, CHR 0x0B}"

text \<open>\<open>None\<close> is the invalid status.\<close>

function pending_loop :: "string \<Rightarrow> u32 set \<Rightarrow> u32 set option" where
  "pending_loop t ids =
     (let s = dropWhile record_space t in
      if s = [] then Some ids
      else case from_chars_all u32_max (takeWhile (\<lambda>c. \<not> record_space c) s) of
        None \<Rightarrow> None
      | Some n \<Rightarrow>
          if n = 0 then None
          else pending_loop (dropWhile (\<lambda>c. \<not> record_space c) s) (insert (of_nat n) ids))"
  by pat_completeness auto
termination
proof (relation "measure (\<lambda>(t, ids). length t)")
  fix t :: string and ids :: "u32 set" and s x
  assume s: "s = dropWhile record_space t" "s \<noteq> []"
  then have "\<not> record_space (hd s)" using hd_dropWhile by blast
  then have "length (dropWhile (\<lambda>c. \<not> record_space c) s) < length s"
    using s(2) length_dropWhile_le [of "\<lambda>c. \<not> record_space c" "tl s"] by (cases s) auto
  also have "\<dots> \<le> length t" using s(1) length_dropWhile_le by simp
  finally show "((dropWhile (\<lambda>c. \<not> record_space c) s, insert (of_nat x) ids), (t, ids)) \<in> measure (\<lambda>(t, ids). length t)"
    by simp
qed simp

declare pending_loop.simps [simp del]

definition parsePendingProtonText :: "string \<Rightarrow> u32 set option" where
  "parsePendingProtonText t = pending_loop t {}"

text \<open>The sidecar file as it can be met, and what reading it under the lock gives. A stream splits the
  text at the same six characters.\<close>

datatype sidecar = NoSidecar | BadSidecar | Sidecar string

datatype pending_file = PendingMissing | PendingInvalid | PendingValid "u32 set"

fun read_tokens :: "string list \<Rightarrow> u32 set \<Rightarrow> u32 set option" where
  "read_tokens [] ids = Some ids"
| "read_tokens (tok # toks) ids =
     (case parsePendingProtonText tok of
        None \<Rightarrow> None
      | Some one \<Rightarrow> if card one \<noteq> 1 then None else read_tokens toks (insert (the_elem one) ids))"

function stream_tokens :: "string \<Rightarrow> string list" where
  "stream_tokens t =
     (let s = dropWhile record_space t in
      if s = [] then []
      else takeWhile (\<lambda>c. \<not> record_space c) s # stream_tokens (dropWhile (\<lambda>c. \<not> record_space c) s))"
  by pat_completeness auto
termination
proof (relation "measure length")
  fix t :: string and s
  assume s: "s = dropWhile record_space t" "s \<noteq> []"
  then have "\<not> record_space (hd s)" using hd_dropWhile by blast
  then have "length (dropWhile (\<lambda>c. \<not> record_space c) s) < length s"
    using s(2) length_dropWhile_le [of "\<lambda>c. \<not> record_space c" "tl s"] by (cases s) auto
  also have "\<dots> \<le> length t" using s(1) length_dropWhile_le by simp
  finally show "(dropWhile (\<lambda>c. \<not> record_space c) s, t) \<in> measure length" by simp
qed simp

declare stream_tokens.simps [simp del]

definition readPendingProtonFileLocked :: "sidecar \<Rightarrow> pending_file" where
  "readPendingProtonFileLocked f =
     (case f of
        NoSidecar \<Rightarrow> PendingMissing
      | BadSidecar \<Rightarrow> PendingInvalid
      | Sidecar t \<Rightarrow>
          (case read_tokens (stream_tokens t) {} of None \<Rightarrow> PendingInvalid | Some ids \<Rightarrow> PendingValid ids))"

definition pending_text :: "u32 set \<Rightarrow> string" where
  "pending_text ids = concat (map (\<lambda>i. to_dec (unat i) @ [CHR 0x0A]) (sorted_list_of_set ids))"

section \<open>The pending set\<close>

record proton_state =
  g_needProton :: "u32 set"
  g_pendingProtonRemovals :: "u32 set"

definition markProtonNeeded ::
  "bool \<Rightarrow> u64 \<Rightarrow> u64 \<Rightarrow> u32 set \<Rightarrow> u32 \<Rightarrow> proton_state \<Rightarrow> proton_state" where
  "markProtonNeeded pubManaged pubGeneration currentGeneration managed appId s =
     (if \<not> pubManaged \<or> appId \<notin> managed then s
      else if \<not> protonPublicationAllowed pubManaged pubGeneration currentGeneration then s
      else s\<lparr>g_needProton := insert appId (g_needProton s),
             g_pendingProtonRemovals := g_pendingProtonRemovals s - {appId}\<rparr>)"

definition requiresProton :: "u32 \<Rightarrow> proton_state \<Rightarrow> bool" where
  "requiresProton appId s \<longleftrightarrow> appId \<noteq> 0 \<and> appId \<in> g_needProton s"

text \<open>\<open>written\<close> tells whether the atomic write, or the removal, succeeds.\<close>

definition store_pending :: "bool \<Rightarrow> u32 set \<Rightarrow> sidecar \<Rightarrow> bool \<times> sidecar" where
  "store_pending written pending f =
     (if written then (True, if pending = {} then NoSidecar else Sidecar (pending_text pending)) else (False, f))"

definition pending_ids :: "pending_file \<Rightarrow> u32 set" where
  "pending_ids p = (case p of PendingValid ids \<Rightarrow> ids | _ \<Rightarrow> {})"

definition persistPendingProtonMappings ::
  "bool \<Rightarrow> bool \<Rightarrow> u32 set \<Rightarrow> proton_state \<Rightarrow> sidecar \<Rightarrow> proton_state \<times> sidecar" where
  "persistPendingProtonMappings locked written managed s f =
     (if g_needProton s = {} \<and> g_pendingProtonRemovals s = {} then (s, f)
      else if \<not> locked then (s, f)
      else
        (let existing = readPendingProtonFileLocked f in
         if existing = PendingInvalid then (s, f)
         else
           (let pending = (pending_ids existing \<inter> managed \<union> g_needProton s \<inter> managed) - g_pendingProtonRemovals s;
                (persisted, f') = store_pending written pending f
            in (if persisted then s\<lparr>g_pendingProtonRemovals := {}\<rparr> else s, f'))))"

record pending_load =
  lockAcquired :: bool
  loadStatus :: pending_file
  loadedIds :: "u32 set"

definition loadPendingProtonMappings :: "bool \<Rightarrow> u32 set \<Rightarrow> sidecar \<Rightarrow> pending_load" where
  "loadPendingProtonMappings locked managed f =
     (if \<not> locked then \<lparr>lockAcquired = False, loadStatus = PendingInvalid, loadedIds = {}\<rparr>
      else \<lparr>lockAcquired = True, loadStatus = readPendingProtonFileLocked f,
             loadedIds = pending_ids (readPendingProtonFileLocked f) \<inter> managed\<rparr>)"

definition removePendingProtonMappingLocked :: "bool \<Rightarrow> u32 \<Rightarrow> sidecar \<Rightarrow> bool \<times> sidecar" where
  "removePendingProtonMappingLocked written appId f =
     (case readPendingProtonFileLocked f of
        PendingMissing \<Rightarrow> (True, f)
      | PendingInvalid \<Rightarrow> (False, f)
      | PendingValid ids \<Rightarrow>
          if appId \<notin> ids then (True, f) else store_pending written (ids - {appId}) f)"

definition clearPendingProtonMappingsIfUnchanged :: "bool \<Rightarrow> bool \<Rightarrow> u32 set \<Rightarrow> sidecar \<Rightarrow> bool \<times> sidecar" where
  "clearPendingProtonMappingsIfUnchanged locked written expected f =
     (if \<not> locked then (False, f)
      else if readPendingProtonFileLocked f \<noteq> PendingValid expected then (False, f)
      else if written then (True, NoSidecar) else (False, f))"

text \<open>At start: the apps whose valid cache needs Proton, then the record; \<open>inject\<close> is the outcome of
  the edit of \<open>config.vdf\<close>, \<open>f2\<close> the sidecar as it is found after it.\<close>

definition flushPendingProtonMappings ::
  "bool \<Rightarrow> bool \<Rightarrow> bool \<Rightarrow> u32 set \<Rightarrow> u32 set \<Rightarrow> (u32 set \<Rightarrow> bool) \<Rightarrow> sidecar \<Rightarrow> sidecar \<Rightarrow> proton_state \<Rightarrow>
   proton_state \<times> sidecar" where
  "flushPendingProtonMappings locked locked2 written managed cached inject f f2 s =
     (let s1 = s\<lparr>g_needProton := g_needProton s \<union> (managed \<inter> cached)\<rparr>;
          loaded = loadPendingProtonMappings locked managed f
      in case loadStatus loaded of
           PendingValid fileIds \<Rightarrow>
             (let s2 = s1\<lparr>g_needProton := g_needProton s1 \<union> loadedIds loaded\<rparr> in
              if g_needProton s2 = {} \<or> inject (g_needProton s2)
              then (s2, snd (clearPendingProtonMappingsIfUnchanged locked2 written fileIds f2))
              else (s2, f2))
         | _ \<Rightarrow> (s1, f2))"

text \<open>Removing an app: the mark becomes a tombstone, which goes when the record is known to be
  rid of the app.\<close>

definition forget_mark :: "u32 \<Rightarrow> proton_state \<Rightarrow> proton_state" where
  "forget_mark appId s =
     s\<lparr>g_needProton := g_needProton s - {appId},
       g_pendingProtonRemovals := insert appId (g_pendingProtonRemovals s)\<rparr>"

definition forget_record :: "bool \<Rightarrow> bool \<Rightarrow> u32 \<Rightarrow> proton_state \<Rightarrow> sidecar \<Rightarrow> proton_state \<times> sidecar" where
  "forget_record locked written appId s f =
     (if \<not> locked then (s, f)
      else
        (let (removed, f') = removePendingProtonMappingLocked written appId f
         in (if removed then s\<lparr>g_pendingProtonRemovals := g_pendingProtonRemovals s - {appId}\<rparr> else s, f')))"

section \<open>Platform lists by their tokens\<close>

definition trim_word :: "string \<Rightarrow> string" where
  "trim_word w = rev (dropWhile blank (rev (dropWhile blank w)))"

definition platform_tokens :: "string \<Rightarrow> string set" where
  "platform_tokens t = trim_word ` set (split_commas t) - {[]}"

lemma skip_blanks_piece:
  "skip_blanks (a @ w @ b) (length a) (length a + length w) = length a + length (takeWhile blank w)"
proof (induction w arbitrary: a)
  case Nil
  then show ?case by (subst skip_blanks.simps) simp
next
  case (Cons c w)
  show ?case using Cons.IH [of "a @ [c]"] by (subst skip_blanks.simps) (simp add: nth_append)
qed

lemma trim_end_piece:
  "trim_end (a @ w @ b) (length a) (length a + length w) = length a + length (dropWhile blank (rev w))"
proof (induction w arbitrary: b rule: rev_induct)
  case Nil
  then show ?case by (subst trim_end.simps) simp
next
  case (snoc c w)
  show ?case using snoc.IH [of "c # b"] by (subst trim_end.simps) (simp add: nth_append)
qed

lemma trim_word_blanks: "list_all blank w \<Longrightarrow> trim_word w = []"
  by (simp add: trim_word_def dropWhile_all_eq)

lemma tail_blanks: "w = rev (dropWhile blank (rev w)) @ rev (takeWhile blank (rev w))"
  by (metis rev_append rev_rev_ident takeWhile_dropWhile_id)

text \<open>What the loop reads of one token, and that going back into its trailing blanks adds nothing.\<close>

lemma piece_word:
  fixes a w b :: string
  defines "v \<equiv> dropWhile blank w" and "p \<equiv> skip_blanks (a @ w @ b) (length a) (length a + length w)"
  shows "p = length a + (length w - length v)"
    and "trim_end (a @ w @ b) p (length a + length w) = length a + (length w - length v) + length (trim_word w)"
    and "take (length (trim_word w)) (drop p (a @ w @ b)) = trim_word w"
    and "drop (length a + (length w - length v) + length (trim_word w)) (a @ w @ b) =
      rev (takeWhile blank (rev v)) @ b"
proof -
  have w: "w = takeWhile blank w @ v" unfolding v_def by simp
  have len: "length w = length (takeWhile blank w) + length v" using w by (metis length_append)
  have v: "v = trim_word w @ rev (takeWhile blank (rev v))"
    using tail_blanks [of v] by (simp add: trim_word_def v_def)
  show p: "p = length a + (length w - length v)" using skip_blanks_piece [of a w b] len by (simp add: p_def)
  have split: "a @ w @ b = (a @ takeWhile blank w) @ v @ b" using w by (metis append.assoc)
  have at: "p = length (a @ takeWhile blank w)" using p len by simp
  show "trim_end (a @ w @ b) p (length a + length w) = length a + (length w - length v) + length (trim_word w)"
    using trim_end_piece [of "a @ takeWhile blank w" v b] len unfolding at split
    by (simp add: trim_word_def v_def add.assoc)
  have tk: "drop p (a @ w @ b) = trim_word w @ rev (takeWhile blank (rev v)) @ b"
    unfolding at split using v by (metis append.assoc append_eq_conv_conj)
  then show "take (length (trim_word w)) (drop p (a @ w @ b)) = trim_word w" by simp
  show "drop (length a + (length w - length v) + length (trim_word w)) (a @ w @ b) = rev (takeWhile blank (rev v)) @ b"
    using tk unfolding p by (metis add.commute append_eq_conv_conj drop_drop)
qed

lemma token_at:
  assumes "t = a @ w @ b" "pos = length a" "e = pos + length w" "p = skip_blanks t pos e" "e' = trim_end t p e"
  shows "e' = p + length (trim_word w)" and "take (e' - p) (drop p t) = trim_word w"
    and "drop e' t = rev (takeWhile blank (rev (dropWhile blank w))) @ b"
proof -
  note piece = piece_word [where a = a and w = w and b = b]
  have p: "p = length a + (length w - length (dropWhile blank w))" using piece(1) assms by simp
  have e: "e' = length a + (length w - length (dropWhile blank w)) + length (trim_word w)"
    using piece(2) assms by simp
  show e': "e' = p + length (trim_word w)" using e p by simp
  show "take (e' - p) (drop p t) = trim_word w" using piece(3) assms(1-4) unfolding e' by simp
  show "drop e' t = rev (takeWhile blank (rev (dropWhile blank w))) @ b" using piece(4) assms(1) unfolding e by simp
qed

lemma comma_not_blank: "\<not> blank (CHR 0x2C)"
  by (simp add: blank_def)

lemma tokens_blanks:
  assumes "list_all blank u"
  shows "platform_tokens (u @ CHR 0x2C # r) = platform_tokens r" "platform_tokens u = {}"
proof -
  have nc: "CHR 0x2C \<notin> set u" using assms comma_not_blank unfolding list_all_iff by blast
  have 1: "split_commas (u @ CHR 0x2C # r) = u # split_commas r"
  proof -
    have "takeWhile (\<lambda>c. c \<noteq> CHR 0x2C) (u @ CHR 0x2C # r) = u" "dropWhile (\<lambda>c. c \<noteq> CHR 0x2C) (u @ CHR 0x2C # r) = CHR 0x2C # r"
      using nc by (induction u) auto
    then show ?thesis by (subst split_rec) simp
  qed
  show "platform_tokens (u @ CHR 0x2C # r) = platform_tokens r"
    unfolding platform_tokens_def 1 using trim_word_blanks [OF assms] by auto
  have "takeWhile (\<lambda>c. c \<noteq> CHR 0x2C) u = u" "dropWhile (\<lambda>c. c \<noteq> CHR 0x2C) u = []"
    using nc by (induction u) auto
  then have "split_commas u = [u]" by (subst split_rec) (simp only: list.case)
  then show "platform_tokens u = {}" using trim_word_blanks [OF assms] by (simp add: platform_tokens_def)
qed

lemma drop_Suc_tail: "drop (Suc n) xs = tl (drop n xs)"
  by (simp add: drop_Suc tl_drop)

lemma platforms_loop_tokens:
  "pos \<le> length t \<Longrightarrow> platforms_loop t pos out = out \<union> platform_tokens (drop pos t)"
proof (induction t pos out rule: platforms_loop.induct)
  case (1 t pos out)
  show ?case
  proof (cases "pos < length t")
    case False
    then show ?thesis using "1.prems" tokens_blanks(2) [of "[]"] by (subst platforms_loop.simps) simp
  next
    case True
    let ?w = "takeWhile (\<lambda>c. c \<noteq> CHR 0x2C) (drop pos t)"
    define rst where "rst = dropWhile (\<lambda>c. c \<noteq> CHR 0x2C) (drop pos t)"
    let ?v = "dropWhile blank ?w" let ?u = "rev (takeWhile blank (rev ?v))"
    let ?e = "comma_from t pos"
    define p where "p = skip_blanks t pos ?e"
    define e' where "e' = trim_end t p ?e"
    have t: "t = take pos t @ ?w @ rst" by (simp add: rst_def)
    have len: "pos = length (take pos t)" using True by simp
    have e: "?e = pos + length ?w" using comma_from_tokens(2) [of pos t] True by simp
    note piece = token_at [OF t len e p_def e'_def]
    have e': "e' = p + length (trim_word ?w)" by (rule piece(1))
    have word: "take (e' - p) (drop p t) = trim_word ?w" by (rule piece(2))
    have rest: "drop e' t = ?u @ rst" by (rule piece(3))
    have bl: "list_all blank ?u" unfolding list_all_iff set_rev using set_takeWhileD by fast
    have nxt: "platform_tokens (drop (Suc e') t) = (case rst of [] \<Rightarrow> {} | _ # r \<Rightarrow> platform_tokens r) \<and> (e' < length t \<or> rst = [])"
    proof (cases ?u)
      case Nil
      then have d: "drop e' t = rst" using rest by simp
      then have "drop (Suc e') t = tl rst" by (simp add: drop_Suc_tail)
      moreover have "rst \<noteq> [] \<Longrightarrow> e' < length t" using d by (metis drop_eq_Nil not_le)
      ultimately show ?thesis using tokens_blanks(2) [of "[]"]
        by (cases rst) simp_all
    next
      case (Cons c us)
      then have d: "drop (Suc e') t = us @ rst" using rest by (simp add: drop_Suc_tail)
      have bs: "list_all blank us" using bl Cons by simp
      have "e' < length t" using rest Cons by (metis append_Cons drop_eq_Nil list.distinct(1) not_le)
      moreover have "platform_tokens (us @ rst) = (case rst of [] \<Rightarrow> {} | _ # r \<Rightarrow> platform_tokens r)"
      proof (cases rst)
        case Nil
        then show ?thesis using tokens_blanks(2) [OF bs] by simp
      next
        case c: (Cons x r)
        then have "x = CHR 0x2C" using hd_dropWhile [of "\<lambda>c. c \<noteq> CHR 0x2C" "drop pos t"] by (simp add: rst_def)
        then show ?thesis using tokens_blanks(1) [OF bs] c by simp
      qed
      ultimately show ?thesis using d by simp
    qed
    have sp: "split_commas (drop pos t) = ?w # (case rst of [] \<Rightarrow> [] | _ # r \<Rightarrow> split_commas r)"
      unfolding rst_def by (rule split_rec)
    have tok: "platform_tokens (drop pos t) = {trim_word ?w} - {[]} \<union> (case rst of [] \<Rightarrow> {} | _ # r \<Rightarrow> platform_tokens r)"
      unfolding platform_tokens_def sp by (cases rst) (simp_all add: insert_Diff_if)
    let ?out = "if p < e' then insert (take (e' - p) (drop p t)) out else out"
    have out: "?out = out \<union> ({trim_word ?w} - {[]})"
      using word e' by (cases "trim_word ?w") auto
    have "platforms_loop t pos out = platforms_loop t (Suc e') ?out"
      using True by (subst platforms_loop.simps) (simp add: Let_def p_def e'_def)
    also have "\<dots> = ?out \<union> platform_tokens (drop (Suc e') t)"
    proof (cases "Suc e' \<le> length t")
      case True
      then show ?thesis using 1(1) [OF \<open>pos < length t\<close> refl p_def e'_def] by simp
    next
      case False
      then show ?thesis using tokens_blanks(2) [of "[]"] by (subst platforms_loop.simps) simp
    qed
    finally show ?thesis unfolding out tok using nxt by (simp add: Un_assoc)
  qed
qed

text \<open>The platform list of a text is the set of its comma-separated tokens without the blanks around
  them; empty tokens do not count.\<close>

theorem parsePlatformOsList_exact: "parsePlatformOsList t = platform_tokens t"
  unfolding parsePlatformOsList_def by (simp add: platforms_loop_tokens)

section \<open>What the pending record says\<close>

lemma digit_not_record_space: "is_digit c \<Longrightarrow> \<not> record_space c"
  by (auto simp: is_digit_def record_space_def char_code_def)

lemma newline_space [simp]: "record_space (CHR 0x0A)"
  by (simp add: record_space_def)

lemma to_dec_word:
  "dropWhile record_space (to_dec n @ r) = to_dec n @ r"
  "takeWhile (\<lambda>c. \<not> record_space c) (to_dec n @ CHR 0x0A # r) = to_dec n"
  "dropWhile (\<lambda>c. \<not> record_space c) (to_dec n @ CHR 0x0A # r) = CHR 0x0A # r"
proof -
  have ns: "\<not> record_space c" if "c \<in> set (to_dec n)" for c
    using digit_not_record_space [OF digits_to_dec [OF that]] .
  obtain c cs where c: "to_dec n = c # cs" by (cases "to_dec n") auto
  then show "dropWhile record_space (to_dec n @ r) = to_dec n @ r" using ns [of c] by simp
  show "takeWhile (\<lambda>c. \<not> record_space c) (to_dec n @ CHR 0x0A # r) = to_dec n"
    using ns by (simp add: takeWhile_append)
  show "dropWhile (\<lambda>c. \<not> record_space c) (to_dec n @ CHR 0x0A # r) = CHR 0x0A # r"
    using ns by (simp add: dropWhile_append)
qed

lemma stream_tokens_space: "record_space c \<Longrightarrow> stream_tokens (c # t) = stream_tokens t"
  by (subst (1 2) stream_tokens.simps) simp

lemma stream_tokens_line: "stream_tokens (to_dec n @ CHR 0x0A # r) = to_dec n # stream_tokens r"
  by (subst stream_tokens.simps) (simp add: to_dec_word Let_def stream_tokens_space)

lemma stream_tokens_lines:
  "stream_tokens (concat (map (\<lambda>i. to_dec (unat i) @ [CHR 0x0A]) is)) = map (\<lambda>i. to_dec (unat i)) is"
proof (induction "is")
  case Nil
  then show ?case by (simp add: stream_tokens.simps)
next
  case (Cons i js)
  then show ?case using stream_tokens_line [of "unat i"] by simp
qed

lemma unat_u32: "unat (i :: u32) \<le> u32_max"
  using unsigned_less [where ?'b = 32 and ?'a = nat, of i] by (simp add: u32_max_def)

lemma pending_loop_end: "dropWhile record_space t = [] \<Longrightarrow> pending_loop t ids = Some ids"
  by (subst pending_loop.simps) simp

lemma dropWhile_space_digits: "dropWhile record_space (to_dec n) = to_dec n"
  using to_dec_word(1) [of n "[]"] by simp

lemma parse_one: "(i :: u32) \<noteq> 0 \<Longrightarrow> parsePendingProtonText (to_dec (unat i)) = Some {i}"
proof -
  assume i: "i \<noteq> 0"
  let ?t = "to_dec (unat i)"
  have "list_all (\<lambda>c. \<not> record_space c) ?t" by (auto simp: list_all_iff digit_not_record_space digits_to_dec)
  then have w: "takeWhile (\<lambda>c. \<not> record_space c) ?t = ?t" "dropWhile (\<lambda>c. \<not> record_space c) ?t = []"
    by (simp_all add: takeWhile_all_eq dropWhile_all_eq)
  have n: "from_chars_all u32_max ?t = Some (unat i)" "unat i \<noteq> 0"
    using i unat_u32 [of i] by (simp_all add: unat_eq_zero)
  have e: "pending_loop [] {i} = Some {i}" by (rule pending_loop_end) simp
  show ?thesis unfolding parsePendingProtonText_def
    by (subst pending_loop.simps)
      (simp only: Let_def dropWhile_space_digits w n option.case to_dec_not_Nil if_False of_nat_unat ucast_id e)
qed

lemma read_tokens_ids:
  "0 \<notin> set is \<Longrightarrow> read_tokens (map (\<lambda>i. to_dec (unat i)) is) ids = Some (ids \<union> set is)"
  by (induction "is" arbitrary: ids) (simp_all add: parse_one)

lemma finite_u32 [simp]: "finite (X :: u32 set)"
  by (rule finite_subset [OF subset_UNIV]) (rule finite)

text \<open>A record of nonzero ids that was written is read back as it was.\<close>

lemma read_written:
  "0 \<notin> ids \<Longrightarrow> readPendingProtonFileLocked (Sidecar (pending_text ids)) = PendingValid ids"
  by (simp add: readPendingProtonFileLocked_def pending_text_def stream_tokens_lines read_tokens_ids)

lemma pending_loop_nonzero: "pending_loop t ids = Some ids' \<Longrightarrow> 0 \<notin> ids \<Longrightarrow> 0 \<notin> ids'"
proof (induction t ids rule: pending_loop.induct)
  case (1 t ids)
  have nz: "(of_nat n :: u32) \<noteq> 0" if "n \<le> u32_max" "n \<noteq> 0" for n
    using that by (simp add: word_of_nat_eq_0_iff u32_max_def dvd_imp_le leD nat_dvd_not_less)
  let ?s = "dropWhile record_space t"
  show ?case
  proof (cases "?s = []")
    case True
    then show ?thesis using 1(2,3) by (simp add: pending_loop_end)
  next
    case False
    have eq: "pending_loop t ids =
        (case from_chars_all u32_max (takeWhile (\<lambda>c. \<not> record_space c) ?s) of
           None \<Rightarrow> None
         | Some n \<Rightarrow> if n = 0 then None
             else pending_loop (dropWhile (\<lambda>c. \<not> record_space c) ?s) (insert (of_nat n) ids))"
      by (subst pending_loop.simps) (simp only: Let_def False if_False)
    obtain n where n: "from_chars_all u32_max (takeWhile (\<lambda>c. \<not> record_space c) ?s) = Some n" "n \<noteq> 0"
      using 1(2) unfolding eq by (auto split: option.splits if_splits)
    moreover have "(of_nat n :: u32) \<noteq> 0" using n nz by (simp add: from_chars_all_iff)
    ultimately show ?thesis using 1(1) [OF refl False n] 1(2,3) unfolding eq by simp
  qed
qed

lemma read_tokens_nonzero: "read_tokens toks ids = Some ids' \<Longrightarrow> 0 \<notin> ids \<Longrightarrow> 0 \<notin> ids'"
proof (induction toks arbitrary: ids)
  case (Cons tok toks)
  then obtain one where one: "parsePendingProtonText tok = Some one" "card one = 1"
    by (auto split: option.splits if_splits)
  then have "0 \<notin> one" using pending_loop_nonzero [of tok "{}" one] by (simp add: parsePendingProtonText_def)
  moreover have "the_elem one \<in> one" using one(2) by (metis card_1_singletonE singletonI the_elem_eq)
  ultimately have "the_elem one \<noteq> 0" by metis
  then show ?case using Cons one by simp
qed simp

lemma pending_ids_nonzero: "0 \<notin> pending_ids (readPendingProtonFileLocked f)"
  by (auto simp: readPendingProtonFileLocked_def pending_ids_def dest: read_tokens_nonzero
      split: sidecar.splits option.splits)

lemma persist_effect:
  assumes "g_needProton s \<noteq> {} \<or> g_pendingProtonRemovals s \<noteq> {}" "0 \<notin> g_needProton s"
    and "persistPendingProtonMappings locked written managed s f = (s', f')"
  shows "if locked \<and> written \<and> readPendingProtonFileLocked f \<noteq> PendingInvalid
    then readPendingProtonFileLocked f' \<noteq> PendingInvalid \<and>
      pending_ids (readPendingProtonFileLocked f') =
        (pending_ids (readPendingProtonFileLocked f) \<union> g_needProton s) \<inter> managed - g_pendingProtonRemovals s \<and>
      g_needProton s' = g_needProton s \<and> g_pendingProtonRemovals s' = {}
    else s' = s \<and> f' = f"
proof (cases "locked \<and> written \<and> readPendingProtonFileLocked f \<noteq> PendingInvalid")
  case True
  let ?p = "(pending_ids (readPendingProtonFileLocked f) \<union> g_needProton s) \<inter> managed - g_pendingProtonRemovals s"
  have p: "pending_ids (readPendingProtonFileLocked f) \<inter> managed \<union> g_needProton s \<inter> managed - g_pendingProtonRemovals s = ?p"
    by auto
  have "s' = s\<lparr>g_pendingProtonRemovals := {}\<rparr>" "f' = (if ?p = {} then NoSidecar else Sidecar (pending_text ?p))"
    using assms(1,3) True
    by (simp_all only: persistPendingProtonMappings_def store_pending_def Let_def p split: if_splits) auto
  moreover have "0 \<notin> ?p" using assms(2) pending_ids_nonzero by blast
  ultimately show ?thesis using True read_written [of ?p]
    by (cases "?p = {}") (auto simp: readPendingProtonFileLocked_def pending_ids_def)
next
  case False
  then show ?thesis using assms
    by (auto simp: persistPendingProtonMappings_def store_pending_def Let_def split: if_splits)
qed

lemma persist_aux:
  assumes "g_needProton s \<noteq> {}" "0 \<notin> g_needProton s" "readPendingProtonFileLocked f \<noteq> PendingInvalid"
    and "persistPendingProtonMappings True True managed s f = (s', f')"
    and "app \<in> g_needProton s \<inter> managed - g_pendingProtonRemovals s"
  shows "app \<in> pending_ids (readPendingProtonFileLocked f')"
  using persist_effect [of s True True managed f s' f'] assms by auto

text \<open>When the cache lock is free, the record readable and the write succeeds, the sidecar afterwards
  holds just the managed apps that were recorded or marked and not removed, and the tombstones are
  gone; in every other case record and state stay as they were.\<close>

theorem persist_exact:
  assumes "g_needProton s \<noteq> {} \<or> g_pendingProtonRemovals s \<noteq> {}" "0 \<notin> g_needProton s"
    and "persistPendingProtonMappings locked written managed s f = (s', f')"
  shows "if locked \<and> written \<and> readPendingProtonFileLocked f \<noteq> PendingInvalid
    then readPendingProtonFileLocked f' \<noteq> PendingInvalid \<and>
      pending_ids (readPendingProtonFileLocked f') =
        (pending_ids (readPendingProtonFileLocked f) \<union> g_needProton s) \<inter> managed - g_pendingProtonRemovals s \<and>
      g_needProton s' = g_needProton s \<and> g_pendingProtonRemovals s' = {}
    else s' = s \<and> f' = f"
  using assms by (rule persist_effect)

text \<open>A managed app marked in one run is marked again in the next, whatever else was recorded; and as
  long as \<open>config.vdf\<close> could not be edited the record stays.\<close>

theorem proton_survives_restart:
  assumes "app \<in> g_needProton s \<inter> managed - g_pendingProtonRemovals s" "0 \<notin> g_needProton s"
    and "readPendingProtonFileLocked f \<noteq> PendingInvalid"
    and "persistPendingProtonMappings True True managed s f = (s', f')"
    and "flushPendingProtonMappings True locked2 written managed cached inject f' f2
           \<lparr>g_needProton = {}, g_pendingProtonRemovals = {}\<rparr> = (s2, f3)"
  shows "app \<in> g_needProton s2 \<and> (if inject (g_needProton s2) then True else f3 = f2)"
proof -
  have ne: "g_needProton s \<noteq> {}" using assms(1) by blast
  have app: "app \<in> pending_ids (readPendingProtonFileLocked f')"
    by (rule persist_aux [OF ne assms(2-4,1)])
  then obtain ids where ids: "readPendingProtonFileLocked f' = PendingValid ids" "app \<in> ids"
    by (auto simp: pending_ids_def split: pending_file.splits)
  then show ?thesis using assms(1,5)
    by (auto simp: flushPendingProtonMappings_def loadPendingProtonMappings_def Let_def pending_ids_def
        split: if_splits)
qed

definition sample_need :: proton_state where
  "sample_need = \<lparr>g_needProton = {440}, g_pendingProtonRemovals = {}\<rparr>"

lemma sample_persist:
  "persistPendingProtonMappings True True {440, 730} sample_need NoSidecar =
     (sample_need, Sidecar (pending_text {440}))"
  by (simp add: persistPendingProtonMappings_def sample_need_def readPendingProtonFileLocked_def
      pending_ids_def store_pending_def Let_def)

lemma persist_exact_witness:
  "persistPendingProtonMappings True True {440, 730} sample_need NoSidecar =
     (sample_need, Sidecar (pending_text {440})) \<and>
   pending_ids (readPendingProtonFileLocked (Sidecar (pending_text {440}))) = {440}"
proof -
  note eq = sample_persist
  show ?thesis using persist_exact [OF _ _ eq] eq
    by (simp add: sample_need_def readPendingProtonFileLocked_def [of NoSidecar] pending_ids_def [of PendingMissing])
qed

lemma proton_survives_restart_witness:
  "440 \<in> g_needProton (fst (flushPendingProtonMappings True True True {440, 730} {} (\<lambda>ids. False)
     (Sidecar (pending_text {440})) NoSidecar \<lparr>g_needProton = {}, g_pendingProtonRemovals = {}\<rparr>))"
proof -
  note eq = sample_persist
  obtain s2 f3 where fl: "flushPendingProtonMappings True True True {440, 730} {} (\<lambda>ids. False)
     (Sidecar (pending_text {440})) NoSidecar \<lparr>g_needProton = {}, g_pendingProtonRemovals = {}\<rparr> = (s2, f3)"
    by fastforce
  show ?thesis using proton_survives_restart [OF _ _ _ eq fl, of 440] fl
    by (simp add: sample_need_def readPendingProtonFileLocked_def [of NoSidecar])
qed

end
