(* ===== verification/ConfigEdit.thy ===== *)
theory ConfigEdit
  imports CppText "HOL-Library.Sublist"
begin

text \<open>
  The text edit of Steam's \<open>config.vdf\<close>: the user's default tool (\<open>src/feats/compattool.hpp\<close>) and
  the insertion of one mapping entry per app (\<open>injectProtonMappings\<close> of
  \<open>src/feats/appinfo_provision.cpp\<close>). Positions are indices into the text; \<open>None\<close> is \<open>npos\<close>.
\<close>

section \<open>The default tool\<close>

definition quoted :: "string \<Rightarrow> string" where
  "quoted s = CHR 0x22 # s @ [CHR 0x22]"

function match_loop :: "string \<Rightarrow> nat \<Rightarrow> int \<Rightarrow> nat option" where
  "match_loop s i depth =
     (if i < length s then
        (if s ! i = CHR 0x7B then match_loop s (Suc i) (depth + 1)
         else if s ! i = CHR 0x7D then
           (if depth - 1 = 0 then Some i else match_loop s (Suc i) (depth - 1))
         else match_loop s (Suc i) depth)
      else None)"
  by pat_completeness auto
termination by (relation "measure (\<lambda>(s, i, depth). length s - i)") auto

declare match_loop.simps [simp del]

definition matchBrace :: "string \<Rightarrow> nat \<Rightarrow> nat option" where
  "matchBrace s open_at =
     (if length s \<le> open_at \<or> s ! open_at \<noteq> CHR 0x7B then None else match_loop s open_at 0)"

text \<open>The positions found must lie before the closing brace.\<close>

definition below :: "nat \<Rightarrow> nat option \<Rightarrow> nat option" where
  "below limit pos = (case pos of None \<Rightarrow> None | Some i \<Rightarrow> if limit \<le> i then None else Some i)"

definition readName :: "string \<Rightarrow> nat \<Rightarrow> nat \<Rightarrow> string" where
  "readName s open_at close_at =
     (case below close_at (find_from (quoted ''name'') s open_at) of
        None \<Rightarrow> []
      | Some namePos \<Rightarrow>
          (case below close_at (find_from [CHR 0x22] s (namePos + 6)) of
             None \<Rightarrow> []
           | Some q1 \<Rightarrow>
               (case below close_at (find_from [CHR 0x22] s (q1 + 1)) of
                  None \<Rightarrow> []
                | Some q2 \<Rightarrow> take (q2 - q1 - 1) (drop (q1 + 1) s))))"

definition vdf_space :: "char \<Rightarrow> bool" where
  "vdf_space c \<longleftrightarrow> c \<in> {CHR '' '', CHR 0x09, CHR 0x0D, CHR 0x0A}"

text \<open>\<open>find_first_not_of(" \t\r\n", from)\<close>.\<close>

definition find_not_space :: "string \<Rightarrow> nat \<Rightarrow> nat option" where
  "find_not_space s i =
     (let r = dropWhile vdf_space (drop i s) in if r = [] then None else Some (length s - length r))"

function zero_key_loop :: "string \<Rightarrow> nat \<Rightarrow> nat \<Rightarrow> string" where
  "zero_key_loop s k mapEnd =
     (case find_from (quoted ''0'') s k of
        None \<Rightarrow> []
      | Some k' \<Rightarrow>
          if mapEnd \<le> k' then []
          else
            (case find_not_space s (k' + 3) of
               Some b \<Rightarrow>
                 if b < mapEnd \<and> s ! b = CHR 0x7B
                 then readName s b (case matchBrace s b of None \<Rightarrow> mapEnd | Some e \<Rightarrow> e)
                 else zero_key_loop s (k' + 3) mapEnd
             | None \<Rightarrow> zero_key_loop s (k' + 3) mapEnd))"
  by pat_completeness auto
termination
proof (relation "measure (\<lambda>(s, k, mapEnd). Suc (length s) - k)")
  fix s :: string and k mapEnd k' b :: nat
  assume f: "find_from (quoted ''0'') s k = Some k'"
  have "k \<le> k'" "k' + 3 \<le> length s"
    using find_from_SomeD(1,2) [OF f] by (simp_all add: quoted_def)
  then show "((s, k' + 3, mapEnd), s, k, mapEnd) \<in> measure (\<lambda>(s, k, mapEnd). Suc (length s) - k)"
    "((s, k' + 3, mapEnd), s, k, mapEnd) \<in> measure (\<lambda>(s, k, mapEnd). Suc (length s) - k)"
    by simp_all
qed simp

declare zero_key_loop.simps [simp del]

definition map_key :: string where "map_key = quoted ''CompatToolMapping''"

definition parseDefaultTool :: "string \<Rightarrow> string" where
  "parseDefaultTool content =
     (case find_at map_key content of
        None \<Rightarrow> []
      | Some mapPos \<Rightarrow>
          (case find_from [CHR 0x7B] content mapPos of
             None \<Rightarrow> []
           | Some mapBrace \<Rightarrow>
               (case matchBrace content mapBrace of
                  None \<Rightarrow> []
                | Some mapEnd \<Rightarrow> zero_key_loop content mapBrace mapEnd)))"

section \<open>Inserting the mappings\<close>

definition insert_at :: "nat \<Rightarrow> 'a list \<Rightarrow> 'a list \<Rightarrow> 'a list" where
  "insert_at i new xs = take i xs @ new @ drop i xs"

definition nl_tabs :: "nat \<Rightarrow> string" where
  "nl_tabs n = CHR 0x0A # replicate n (CHR 0x09)"

definition empty_mapping :: string where
  "empty_mapping = nl_tabs 5 @ map_key @ nl_tabs 5 @ [CHR 0x7B] @ nl_tabs 5 @ [CHR 0x7D]"

definition app_key :: "nat \<Rightarrow> string" where
  "app_key appId = quoted (to_dec appId)"

definition compat_entry :: "string \<Rightarrow> string \<Rightarrow> string" where
  "compat_entry key toolName =
     nl_tabs 6 @ key @ nl_tabs 6 @ [CHR 0x7B] @
     nl_tabs 7 @ quoted ''name'' @ [CHR 0x09, CHR 0x09] @ quoted toolName @
     nl_tabs 7 @ quoted ''config'' @ [CHR 0x09, CHR 0x09] @ quoted [] @
     nl_tabs 7 @ quoted ''priority'' @ [CHR 0x09, CHR 0x09] @ quoted ''250'' @
     nl_tabs 6 @ [CHR 0x7D]"

text \<open>The text with a mapping block, made if need be, and the block's opening brace.\<close>

definition locate_mapping :: "string \<Rightarrow> (string \<times> nat) option" where
  "locate_mapping content =
     (case find_at map_key content of
        Some mapPos \<Rightarrow> map_option (Pair content) (find_from [CHR 0x7B] content mapPos)
      | None \<Rightarrow>
          (case find_at (quoted ''Steam'') content of
             None \<Rightarrow> None
           | Some steamPos \<Rightarrow>
               (case find_from [CHR 0x7B] content steamPos of
                  None \<Rightarrow> None
                | Some steamBrace \<Rightarrow>
                    (let content' = insert_at (steamBrace + 1) empty_mapping content in
                     case find_at map_key content' of
                       None \<Rightarrow> None
                     | Some mapPos \<Rightarrow> map_option (Pair content') (find_from [CHR 0x7B] content' mapPos)))))"

fun inject_loop :: "nat list \<Rightarrow> nat \<Rightarrow> string \<Rightarrow> string \<Rightarrow> nat \<Rightarrow> string \<times> nat" where
  "inject_loop [] mapBrace toolName content added = (content, added)"
| "inject_loop (appId # apps) mapBrace toolName content added =
     (if find_from (app_key appId) content mapBrace \<noteq> None
      then inject_loop apps mapBrace toolName content added
      else inject_loop apps mapBrace toolName
        (insert_at (mapBrace + 1) (compat_entry (app_key appId) toolName) content) (Suc added))"

text \<open>The text to write, if anything was added; \<open>None\<close> is the failure before any edit.\<close>

definition inject_text :: "nat list \<Rightarrow> string \<Rightarrow> (string \<times> nat) option" where
  "inject_text apps content =
     (case locate_mapping content of
        None \<Rightarrow> None
      | Some (content', mapBrace) \<Rightarrow>
          (let found = parseDefaultTool content';
               toolName = (if found = [] then ''proton_experimental'' else found)
           in Some (inject_loop apps mapBrace toolName content' 0)))"

text \<open>\<open>locked\<close>: the writer lock and the identity and contents of the file were had; \<open>published\<close>: the
  conditional write goes through. The result and the file's text afterwards.\<close>

definition injectProtonMappings :: "bool \<Rightarrow> bool \<Rightarrow> nat list \<Rightarrow> string option \<Rightarrow> bool \<times> string option" where
  "injectProtonMappings locked published apps file =
     (if apps = [] then (True, file)
      else case file of
        None \<Rightarrow> (False, file)
      | Some content \<Rightarrow>
          if \<not> locked then (False, file)
          else
            (case inject_text apps content of
               None \<Rightarrow> (False, file)
             | Some (content', added) \<Rightarrow>
                 if added = 0 then (True, file)
                 else if published then (True, Some content') else (False, file)))"

section \<open>Searching in an edited text\<close>

lemma starts_with_append: "length p \<le> length a \<Longrightarrow> starts_with p (a @ b) = starts_with p a"
  by (simp add: starts_with_def)

lemma starts_with_take: "starts_with p s \<Longrightarrow> length p \<le> length s"
  unfolding starts_with_def by (metis length_take min.cobounded1)

lemma find_at_iff:
  "find_at p s = Some i \<longleftrightarrow> i \<le> length s \<and> starts_with p (drop i s) \<and> (\<forall>j < i. \<not> starts_with p (drop j s))"
proof
  assume "find_at p s = Some i"
  from find_at_SomeD [OF this] show "i \<le> length s \<and> starts_with p (drop i s) \<and> (\<forall>j < i. \<not> starts_with p (drop j s))"
    by simp
next
  assume R: "i \<le> length s \<and> starts_with p (drop i s) \<and> (\<forall>j < i. \<not> starts_with p (drop j s))"
  then obtain k where k: "find_at p s = Some k" using find_at_None [of p s i] by (cases "find_at p s") auto
  from find_at_SomeD [OF k] R have "k = i" by (metis linorder_neqE_nat)
  with k show "find_at p s = Some i" by simp
qed

text \<open>A text inserted behind an occurrence does not move the first one.\<close>

lemma find_at_keeps:
  assumes f: "find_at p s = Some i" and n: "i + length p \<le> n" "n \<le> length s"
  shows "find_at p (insert_at n new s) = Some i"
proof -
  have same: "starts_with p (drop j (insert_at n new s)) = starts_with p (drop j s)" if "j \<le> i" for j
  proof -
    have "drop j (insert_at n new s) = drop j (take n s) @ new @ drop n s"
      using that n by (simp add: insert_at_def)
    moreover have "drop j s = drop j (take n s) @ drop n s"
      using that n by (metis append_take_drop_id drop_append diff_is_0_eq' drop0 length_take min.absorb2 le_add1 le_trans)
    moreover have "length p \<le> length (drop j (take n s))" using that n by simp
    ultimately show ?thesis by (simp add: starts_with_append)
  qed
  have "i \<le> length (insert_at n new s)" using n by (simp add: insert_at_def)
  then show ?thesis using find_at_SomeD [OF f] unfolding find_at_iff by (simp add: same)
qed

lemma find_from_eq: "find_from p s k = Some i \<longleftrightarrow> k \<le> i \<and> k \<le> length s \<and> find_at p (drop k s) = Some (i - k)"
  by (auto simp: find_from_def)

lemma drop_insert: "k \<le> n \<Longrightarrow> n \<le> length s \<Longrightarrow> drop k (insert_at n new s) = insert_at (n - k) new (drop k s)"
  by (simp add: insert_at_def drop_take)

lemma find_from_keeps:
  assumes "find_from p s k = Some i" "i + length p \<le> n" "n \<le> length s"
  shows "find_from p (insert_at n new s) k = Some i"
proof -
  have k: "k \<le> i" "k \<le> length s" "find_at p (drop k s) = Some (i - k)"
    using assms(1) by (simp_all add: find_from_eq)
  have "find_at p (insert_at (n - k) new (drop k s)) = Some (i - k)"
    by (rule find_at_keeps [OF k(3)]) (use k assms in simp_all)
  then show ?thesis using k assms by (simp add: find_from_eq drop_insert) (simp add: insert_at_def)
qed

text \<open>What occurs from a brace on still does after an insertion right behind it, unless it starts with
  the brace.\<close>

lemma find_from_exists:
  "find_from p s k \<noteq> None \<longleftrightarrow> (\<exists>a b. k \<le> length s \<and> drop k s = a @ p @ b)"
proof
  assume "find_from p s k \<noteq> None"
  then obtain i where i: "find_from p s k = Some i" by auto
  then have k: "k \<le> i" "k \<le> length s" "find_at p (drop k s) = Some (i - k)" by (simp_all add: find_from_eq)
  then have "starts_with p (drop (i - k) (drop k s))" using find_at_SomeD by blast
  then have "drop (i - k) (drop k s) = p @ drop (length p) (drop (i - k) (drop k s))"
    unfolding starts_with_def by (metis append_take_drop_id)
  then show "\<exists>a b. k \<le> length s \<and> drop k s = a @ p @ b" using k(2) by (metis append_take_drop_id)
next
  assume "\<exists>a b. k \<le> length s \<and> drop k s = a @ p @ b"
  then obtain a b where a: "k \<le> length s" "drop k s = a @ p @ b" by blast
  then have "starts_with p (drop (length a) (drop k s))" by (simp add: starts_with_def)
  moreover have "length a \<le> length (drop k s)" using a(2) by simp
  ultimately have "find_at p (drop k s) \<noteq> None" using find_at_None [of p "drop k s" "length a"] by auto
  then show "find_from p s k \<noteq> None" using a(1) by (auto simp: find_from_def)
qed

lemma found_after_insert:
  assumes f: "find_from p s k \<noteq> None" and k: "k < length s" "p \<noteq> []" "s ! k \<noteq> hd p"
  shows "find_from p (insert_at (Suc k) new s) k \<noteq> None"
proof -
  obtain a b where a: "drop k s = a @ p @ b" using f unfolding find_from_exists by blast
  have d: "drop k s = s ! k # drop (Suc k) s" using k(1) by (simp add: Cons_nth_drop_Suc)
  have "a \<noteq> []"
  proof
    assume "a = []"
    then have "hd p = s ! k" using a d k(2) by (metis append_Nil hd_append2 list.sel(1))
    with k(3) show False by simp
  qed
  then obtain a' where a': "drop (Suc k) s = a' @ p @ b" using a d by (metis append_Cons list.exhaust list.inject)
  have "insert_at (Suc k) new s = take k s @ s ! k # new @ a' @ p @ b"
    using k(1) a' by (simp add: insert_at_def take_Suc_conv_app_nth)
  then have "drop k (insert_at (Suc k) new s) = (s ! k # new @ a') @ p @ b" "k \<le> length (insert_at (Suc k) new s)"
    using k(1) by simp_all
  then show ?thesis unfolding find_from_exists by blast
qed

lemma insert_at_twice:
  "n \<le> length s \<Longrightarrow> insert_at n new (insert_at n old s) = insert_at n (new @ old) s"
  by (simp add: insert_at_def)

lemma insert_at_Nil [simp]: "insert_at n [] s = s"
  by (simp add: insert_at_def)

lemma subseq_insert: "subseq s (insert_at n new s)"
  unfolding insert_at_def by (metis append_take_drop_id list_emb_append2 list_emb_append_mono subseq_order.refl)

lemma app_key_shape: "app_key a \<noteq> []" "hd (app_key a) = CHR 0x22"
  by (simp_all add: app_key_def quoted_def)

lemma inject_loop_result:
  assumes "b < length s" "s ! b = CHR 0x7B" "inject_loop apps b tool s n = (s', n')"
  shows "\<exists>ins. s' = insert_at (Suc b) ins s \<and> (\<forall>a \<in> set apps. find_from (app_key a) s' b \<noteq> None) \<and>
    (\<forall>a. find_from (app_key a) s b \<noteq> None \<longrightarrow> find_from (app_key a) s' b \<noteq> None)"
  using assms
proof (induction apps arbitrary: s n)
  case Nil
  then show ?case by (intro exI [of _ "[]"]) simp
next
  case (Cons x apps)
  have keep: "find_from (app_key a) (insert_at (Suc b) new s) b \<noteq> None"
    if "find_from (app_key a) s b \<noteq> None" for a new
    by (rule found_after_insert [OF that Cons.prems(1)]) (use app_key_shape Cons.prems(2) in simp_all)
  show ?case
  proof (cases "find_from (app_key x) s b = None")
    case False
    then have step: "inject_loop apps b tool s n = (s', n')" using Cons.prems(3) by simp
    from Cons.IH [OF Cons.prems(1,2) step] False show ?thesis by auto
  next
    case True
    let ?e = "compat_entry (app_key x) tool" let ?s = "insert_at (Suc b) ?e s"
    have step: "inject_loop apps b tool ?s (Suc n) = (s', n')" using True Cons.prems(3) by simp
    have b: "b < length ?s" "?s ! b = CHR 0x7B" using Cons.prems(1,2) by (simp_all add: insert_at_def nth_append)
    have "drop b ?s = s ! b # ?e @ drop (Suc b) s"
      using Cons.prems(1) by (simp add: drop_insert insert_at_def Cons_nth_drop_Suc [symmetric])
    also have "\<dots> = (s ! b # nl_tabs 6) @ app_key x @ drop (length (nl_tabs 6 @ app_key x)) ?e @ drop (Suc b) s"
      by (simp add: compat_entry_def)
    finally have "find_from (app_key x) ?s b \<noteq> None" unfolding find_from_exists using b(1) by (metis less_imp_le_nat)
    moreover from Cons.IH [OF b step] obtain ins where ins: "s' = insert_at (Suc b) ins ?s"
      "\<forall>a \<in> set apps. find_from (app_key a) s' b \<noteq> None"
      "\<forall>a. find_from (app_key a) ?s b \<noteq> None \<longrightarrow> find_from (app_key a) s' b \<noteq> None" by blast
    moreover have "s' = insert_at (Suc b) (ins @ ?e) s" using ins(1) Cons.prems(1) by (simp add: insert_at_twice)
    ultimately show ?thesis using keep by (metis set_ConsD)
  qed
qed

lemma locate_result:
  assumes "locate_mapping content = Some (s, b)"
  shows "subseq content s \<and> b < length s \<and> s ! b = CHR 0x7B \<and>
    (\<forall>ins. locate_mapping (insert_at (Suc b) ins s) = Some (insert_at (Suc b) ins s, b))"
proof -
  obtain mp where mp: "find_at map_key s = Some mp" "find_from [CHR 0x7B] s mp = Some b"
    using assms by (auto simp: locate_mapping_def Let_def split: option.splits)
  have sub: "subseq content s"
    using assms subseq_insert by (auto simp: locate_mapping_def Let_def split: option.splits)
  obtain u v where u: "mp \<le> length s" "drop mp s = u @ CHR 0x7B # v" "b = mp + length u"
    using mp(2) unfolding find_char by blast
  have "length (drop mp s) = length u + Suc (length v)" by (simp add: u(2))
  then have b: "b < length s" using u(1,3) by simp
  have "s ! b = drop mp s ! length u" using u(1,3) by simp
  then have brace: "s ! b = CHR 0x7B" by (simp add: u(2))
  have "starts_with map_key (drop mp s)" using find_at_SomeD [OF mp(1)] by blast
  then have key: "drop mp s = map_key @ drop (length map_key) (drop mp s)"
    unfolding starts_with_def by (metis append_take_drop_id)
  have "length map_key \<le> length u"
  proof (rule ccontr)
    assume "\<not> length map_key \<le> length u"
    then have "map_key ! length u = CHR 0x7B" "length u < length map_key"
      using u(2) key by (metis leI nth_append nth_append_length, simp)
    then have "CHR 0x7B \<in> set map_key" by (metis nth_mem)
    then show False by (simp add: map_key_def quoted_def)
  qed
  then have "mp + length map_key \<le> b" using u(3) by simp
  then have "locate_mapping (insert_at (Suc b) ins s) = Some (insert_at (Suc b) ins s, b)" for ins
    using find_at_keeps [OF mp(1), of "Suc b" ins] find_from_keeps [OF mp(2), of "Suc b" ins] b
    by (simp add: locate_mapping_def)
  with sub b brace show ?thesis by blast
qed

lemma inject_loop_none:
  "\<forall>a \<in> set apps. find_from (app_key a) s b \<noteq> None \<Longrightarrow> inject_loop apps b tool s n = (s, n)"
  by (induction apps) auto

text \<open>The edit only inserts text, and leaves every app mapped: done again, it finds nothing to add.\<close>

theorem inject_idempotent:
  assumes "inject_text apps content = Some (content', added)"
  shows "subseq content content' \<and> inject_text apps content' = Some (content', 0)"
proof -
  obtain s b where loc: "locate_mapping content = Some (s, b)"
    and run: "\<exists>tool. inject_loop apps b tool s 0 = (content', added)"
    using assms by (auto simp: inject_text_def Let_def split: option.splits)
  note at = locate_result [OF loc]
  from run at obtain ins where ins: "content' = insert_at (Suc b) ins s"
    "\<forall>a \<in> set apps. find_from (app_key a) content' b \<noteq> None"
    using inject_loop_result by blast
  have "subseq content content'" unfolding ins(1) using at subseq_insert subseq_order.trans by blast
  moreover have "locate_mapping content' = Some (content', b)" using at ins(1) by simp
  ultimately show ?thesis using inject_loop_none [OF ins(2)] by (simp add: inject_text_def Let_def)
qed

text \<open>A file in which an app's number occurs as a key behind the mapping block only, here among the
  depots: the app is taken to be mapped.\<close>

definition depot_after_mapping :: string where
  "depot_after_mapping = map_key @ ''{}'' @ quoted ''depots'' @ ''{'' @ quoted ''440'' @ ''{}}''"

theorem mapping_skipped:
  "injectProtonMappings True True [440] (Some depot_after_mapping) = (True, Some depot_after_mapping)"
  by code_simp

definition fresh_config :: string where
  "fresh_config = quoted ''Steam'' @ ''{}''"

lemma inject_idempotent_witness:
  "inject_text [440] (fst (the (inject_text [440] fresh_config))) =
     Some (fst (the (inject_text [440] fresh_config)), 0)"
proof -
  have "inject_text [440] fresh_config = Some (fst (the (inject_text [440] fresh_config)), 1)" by code_simp
  from inject_idempotent [OF this] show ?thesis by blast
qed

end
