(* ===== verification/DepotPrune.thy ===== *)
theory DepotPrune
  imports CmReader ProtonMapping ProvisionPolicy
begin

text \<open>
  What is done to an app's \<open>depots\<close> before it is cached: \<open>src/feats/usabledepot.hpp\<close>,
  \<open>emptydepot.hpp\<close> and the pruning and Proton decisions of \<open>appinfo_provision.cpp\<close>, on YAML trees.
  A conversion or subscript that throws is \<open>None\<close>; whether a depot's key is known is an argument.
\<close>

section \<open>Values of a YAML tree\<close>

definition bytes_str :: "bytes \<Rightarrow> string" where
  "bytes_str b = map (\<lambda>x. char_of (unat x)) b"

text \<open>\<open>as<std::string>()\<close>.\<close>

fun as_string :: "ynode \<Rightarrow> bytes option" where
  "as_string (YScalar s) = Some s"
| "as_string YNull = Some (str_bytes ''null'')"
| "as_string _ = None"

definition stream_space :: "char \<Rightarrow> bool" where
  "stream_space c \<longleftrightarrow> c = CHR '' '' \<or> 9 \<le> char_code c \<and> char_code c \<le> 13"

definition digit_of :: "nat \<Rightarrow> char \<Rightarrow> nat option" where
  "digit_of base c =
     (let n = char_code c;
          v = (if 48 \<le> n \<and> n \<le> 57 then n - 48 else if 97 \<le> n \<and> n \<le> 102 then n - 87
               else if 65 \<le> n \<and> n \<le> 70 then n - 55 else 16)
      in if v < base then Some v else None)"

definition number_value :: "nat \<Rightarrow> string \<Rightarrow> nat" where
  "number_value base s = foldl (\<lambda>a c. base * a + the (digit_of base c)) 0 s"

text \<open>An unsigned number read from a stream without a fixed base, as the library converts a scalar: a
  leading \<open>0x\<close> means hexadecimal, a leading zero octal, and only white space may follow.\<close>

definition number_base :: "string \<Rightarrow> nat \<times> string" where
  "number_base u =
     (case u of
        c # r \<Rightarrow>
          if c = CHR ''0'' then
            (case r of
               d # r' \<Rightarrow> if d = CHR ''x'' \<or> d = CHR ''X'' then (16, r') else (8, u)
             | [] \<Rightarrow> (8, u))
          else (10, u)
      | [] \<Rightarrow> (10, u))"

definition stream_unsigned :: "nat \<Rightarrow> bytes \<Rightarrow> nat option" where
  "stream_unsigned lim s =
     (let t = bytes_str s in
      if t = [] \<or> hd t = CHR ''-'' then None
      else
        (let (base, ds) = number_base (if hd t = CHR ''+'' then tl t else t);
             run = takeWhile (\<lambda>c. digit_of base c \<noteq> None) ds;
             rest = dropWhile (\<lambda>c. digit_of base c \<noteq> None) ds
         in if run = [] \<or> lim < number_value base run \<or> \<not> list_all stream_space rest then None
            else Some (number_value base run)))"

fun as_unsigned :: "nat \<Rightarrow> ynode \<Rightarrow> nat option" where
  "as_unsigned lim (YScalar s) = stream_unsigned lim s"
| "as_unsigned lim _ = None"

text \<open>A subscript with a string key of a constant node, and what a mutable node becomes under one: a
  sequence turns into the map of its indices. A scalar throws.\<close>

fun const_at :: "ynode \<Rightarrow> bytes \<Rightarrow> ynode option option" where
  "const_at (YMap m) k = Some (yget m k)"
| "const_at (YScalar s) k = None"
| "const_at _ k = Some None"

fun indexed :: "nat \<Rightarrow> ynode list \<Rightarrow> (bytes \<times> ynode) list" where
  "indexed i [] = []"
| "indexed i (x # xs) = (str_bytes (to_dec i), x) # indexed (Suc i) xs"

fun mutable_map :: "ynode \<Rightarrow> (bytes \<times> ynode) list option" where
  "mutable_map (YMap m) = Some m"
| "mutable_map YNull = Some []"
| "mutable_map (YSeq xs) = Some (indexed 0 xs)"
| "mutable_map (YScalar s) = None"

definition map_of_node :: "ynode \<Rightarrow> (bytes \<times> ynode) list" where
  "map_of_node n = (case n of YMap m \<Rightarrow> m | _ \<Rightarrow> [])"

abbreviation ykey :: "string \<Rightarrow> bytes" where "ykey \<equiv> str_bytes"

section \<open>Usable and empty depots\<close>

definition numeric_key :: "bytes \<Rightarrow> bool" where
  "numeric_key k \<longleftrightarrow> k \<noteq> [] \<and> list_all is_digit (bytes_str k)"

definition branch_has_gid :: "bytes \<times> ynode \<Rightarrow> bool" where
  "branch_has_gid e =
     (case snd e of
        YMap b \<Rightarrow>
          (case yget b (ykey ''gid'') of
             None \<Rightarrow> False
           | Some g \<Rightarrow> (case as_unsigned u64_max g of None \<Rightarrow> False | Some n \<Rightarrow> n \<noteq> 0))
      | _ \<Rightarrow> False)"

definition usable_depot :: "bytes \<times> ynode \<Rightarrow> bool" where
  "usable_depot e \<longleftrightarrow> numeric_key (fst e) \<and>
     (case snd e of
        YMap d \<Rightarrow> (case yget d (ykey ''manifests'') of Some (YMap ms) \<Rightarrow> list_ex branch_has_gid ms | _ \<Rightarrow> False)
      | _ \<Rightarrow> False)"

definition hasUsableContentDepot :: "ynode \<Rightarrow> bool" where
  "hasUsableContentDepot body =
     (case body of
        YMap b \<Rightarrow> (case yget b (ykey ''depots'') of Some (YMap ds) \<Rightarrow> list_ex usable_depot ds | _ \<Rightarrow> False)
      | _ \<Rightarrow> False)"

definition edge_space :: "u8 \<Rightarrow> bool" where
  "edge_space b \<longleftrightarrow> b = 32 \<or> b = 9 \<or> b = 13 \<or> b = 10"

definition depotPublicManifestIsEmpty :: "ynode \<Rightarrow> bool" where
  "depotPublicManifestIsEmpty depot =
     (case depot of
        YMap d \<Rightarrow>
          (case yget d (ykey ''manifests'') of
             Some (YMap ms) \<Rightarrow>
               (case yget ms (ykey ''public'') of
                  Some (YMap pub) \<Rightarrow>
                    (case yget pub (ykey ''size'') of
                       Some (YScalar s) \<Rightarrow>
                         rev (dropWhile edge_space (rev (dropWhile edge_space s))) = ykey ''0''
                     | _ \<Rightarrow> False)
                | _ \<Rightarrow> False)
           | _ \<Rightarrow> False)
      | _ \<Rightarrow> False)"

section \<open>Pruning\<close>

record prune_state =
  newDepots :: "(bytes \<times> ynode) list"
  survivingOs :: "string set"
  keptDepots :: nat
  keptContent :: nat
  droppedDepots :: nat
  totalNumeric :: nat
  contentDlcAppIds :: "u32 set"
  usableDlcAppIds :: "u32 set"

definition prune_init :: prune_state where
  "prune_init = \<lparr>newDepots = [], survivingOs = {}, keptDepots = 0, keptContent = 0, droppedDepots = 0,
     totalNumeric = 0, contentDlcAppIds = {}, usableDlcAppIds = {}\<rparr>"

text \<open>\<open>std::stoul\<close>: \<open>unsigned long\<close> has 32 bits in the shipped build.\<close>

definition depot_number :: "bytes \<Rightarrow> u32 option" where
  "depot_number k =
     (let n = dec_value (bytes_str k) in if n \<le> u32_max then Some (of_nat n) else None)"

definition has_child :: "ynode \<Rightarrow> string \<Rightarrow> bool" where
  "has_child depot k \<longleftrightarrow> yget (map_of_node depot) (ykey k) \<noteq> None"

definition is_virtual_dlc :: "ynode \<Rightarrow> bool" where
  "is_virtual_dlc depot \<longleftrightarrow> has_child depot ''dlcappid'' \<and> \<not> has_child depot ''manifests''"

definition dlc_app_of :: "ynode \<Rightarrow> u32" where
  "dlc_app_of depot =
     (case yget (map_of_node depot) (ykey ''dlcappid'') of
        None \<Rightarrow> 0
      | Some d \<Rightarrow> (case as_unsigned u32_max d of None \<Rightarrow> 0 | Some n \<Rightarrow> of_nat n))"

text \<open>The platform text of a content depot; a scalar where the configuration is expected throws.\<close>

definition depot_oslist :: "ynode \<Rightarrow> string option" where
  "depot_oslist depot =
     (case yget (map_of_node depot) (ykey ''config'') of
        None \<Rightarrow> Some []
      | Some c \<Rightarrow>
          (case const_at c (ykey ''oslist'') of
             None \<Rightarrow> None
           | Some None \<Rightarrow> Some []
           | Some (Some os) \<Rightarrow> Some (case as_string os of None \<Rightarrow> [] | Some s \<Rightarrow> bytes_str s)))"

definition prune_depot :: "(u32 \<Rightarrow> bool) \<Rightarrow> bytes \<times> ynode \<Rightarrow> prune_state \<Rightarrow> prune_state option" where
  "prune_depot has_key e st =
     (let key = fst e; depot = snd e in
      if \<not> numeric_key key then Some (st\<lparr>newDepots := yset (newDepots st) key depot\<rparr>)
      else
        (let st1 = st\<lparr>totalNumeric := Suc (totalNumeric st)\<rparr> in
         case depot_number key of
           None \<Rightarrow> Some (st1\<lparr>newDepots := yset (newDepots st) key depot\<rparr>)
         | Some depotId \<Rightarrow>
             (let isVirtualDlc = is_virtual_dlc depot; dlcAppId = dlc_app_of depot;
                  st2 = (if dlcAppId \<noteq> 0 \<and> has_child depot ''manifests''
                         then st1\<lparr>contentDlcAppIds := insert dlcAppId (contentDlcAppIds st1)\<rparr> else st1)
              in if depotPublicManifestIsEmpty depot then Some (st2\<lparr>droppedDepots := Suc (droppedDepots st2)\<rparr>)
                 else if \<not> has_key depotId \<and> \<not> isVirtualDlc
                 then Some (st2\<lparr>droppedDepots := Suc (droppedDepots st2)\<rparr>)
                 else
                   (let st3 = st2\<lparr>keptDepots := Suc (keptDepots st2),
                          keptContent := (if isVirtualDlc then keptContent st2 else Suc (keptContent st2)),
                          newDepots := yset (newDepots st2) key depot,
                          usableDlcAppIds := (if dlcAppId \<noteq> 0 then insert dlcAppId (usableDlcAppIds st2)
                                              else usableDlcAppIds st2)\<rparr>
                    in case depot of
                         YMap d \<Rightarrow>
                           if isVirtualDlc then Some st3
                           else map_option (\<lambda>os. st3\<lparr>survivingOs := addDepotPlatforms (survivingOs st3) os\<rparr>)
                             (depot_oslist depot)
                       | _ \<Rightarrow> Some st3))))"

fun prune_loop :: "(u32 \<Rightarrow> bool) \<Rightarrow> (bytes \<times> ynode) list \<Rightarrow> prune_state \<Rightarrow> prune_state option" where
  "prune_loop has_key [] st = Some st"
| "prune_loop has_key (e # es) st =
     (case prune_depot has_key e st of None \<Rightarrow> None | Some st' \<Rightarrow> prune_loop has_key es st')"

text \<open>The app's own platform list, with the body as the look-up leaves it; a throw is caught.\<close>

definition common_oslist :: "(bytes \<times> ynode) list \<Rightarrow> (bytes \<times> ynode) list \<times> string" where
  "common_oslist b =
     (case yget b (ykey ''common'') of
        None \<Rightarrow> (b, [])
      | Some c \<Rightarrow>
          (case mutable_map c of
             None \<Rightarrow> (b, [])
           | Some cm \<Rightarrow>
               (yset b (ykey ''common'') (YMap cm),
                case yget cm (ykey ''oslist'') of
                  None \<Rightarrow> []
                | Some os \<Rightarrow> (case as_string os of None \<Rightarrow> [] | Some s \<Rightarrow> bytes_str s))))"

definition narrow_dlc_list :: "u32 set \<Rightarrow> (bytes \<times> ynode) list \<Rightarrow> (bytes \<times> ynode) list" where
  "narrow_dlc_list unsupported b =
     (if unsupported = {} then b
      else case yget b (ykey ''extended'') of
        Some (YMap e) \<Rightarrow>
          (case yget e (ykey ''listofdlc'') of
             Some (YScalar l) \<Rightarrow>
               (let (newList, removed) = filterUnsupportedDlcAppIds (bytes_str l) unsupported in
                if removed = 0 then b
                else yset b (ykey ''extended'') (YMap (yset e (ykey ''listofdlc'') (YScalar (str_bytes newList)))))
           | _ \<Rightarrow> b)
      | _ \<Rightarrow> b)"

text \<open>The body afterwards and whether the app is marked for Proton; \<open>None\<close> when an exception leaves.\<close>

definition pruneUnsupportedDepots :: "(u32 \<Rightarrow> bool) \<Rightarrow> ynode \<Rightarrow> (ynode \<times> bool) option" where
  "pruneUnsupportedDepots has_key body =
     (case body of
        YMap b \<Rightarrow>
          (case yget b (ykey ''depots'') of
             Some (YMap depots) \<Rightarrow>
               (case prune_loop has_key depots prune_init of
                  None \<Rightarrow> None
                | Some st \<Rightarrow>
                    (let (b1, commonOsList) = common_oslist b;
                         protonNeeded = requiresProtonMapping (keptContent st) (survivingOs st) commonOsList;
                         b2 = narrow_dlc_list (contentDlcAppIds st - usableDlcAppIds st) b1
                     in if droppedDepots st = 0 then Some (YMap b2, protonNeeded)
                        else Some (YMap (yset b2 (ykey ''depots'') (YMap (newDepots st))), protonNeeded)))
           | _ \<Rightarrow> Some (body, False))
      | _ \<Rightarrow> Some (body, False))"

section \<open>Proton from a cached document\<close>

fun cached_depots :: "(bytes \<times> ynode) list \<Rightarrow> nat \<Rightarrow> string set \<Rightarrow> (nat \<times> string set) option" where
  "cached_depots [] n os = Some (n, os)"
| "cached_depots (e # es) n os =
     (case snd e of
        YMap d \<Rightarrow>
          if \<not> numeric_key (fst e) \<or> is_virtual_dlc (snd e) then cached_depots es n os
          else
            (case depot_oslist (snd e) of
               None \<Rightarrow> None
             | Some l \<Rightarrow> cached_depots es (Suc n) (addDepotPlatforms os l))
      | _ \<Rightarrow> cached_depots es n os)"

definition cachedWireRequiresProton :: "bytes \<Rightarrow> bool" where
  "cachedWireRequiresProton wire =
     (if wire = [] then False
      else case parseAppinfo wire of
        Some (YMap b) \<Rightarrow>
          (case yget b (ykey ''depots'') of
             Some (YMap depots) \<Rightarrow>
               (case cached_depots depots 0 {} of
                  None \<Rightarrow> False
                | Some (contentDepots, depotOs) \<Rightarrow>
                    (case yget b (ykey ''common'') of
                       None \<Rightarrow> requiresProtonMapping contentDepots depotOs []
                     | Some c \<Rightarrow>
                         (case const_at c (ykey ''oslist'') of
                            None \<Rightarrow> False
                          | Some None \<Rightarrow> requiresProtonMapping contentDepots depotOs []
                          | Some (Some os) \<Rightarrow>
                              requiresProtonMapping contentDepots depotOs
                                (case as_string os of None \<Rightarrow> [] | Some s \<Rightarrow> bytes_str s))))
           | _ \<Rightarrow> False)
      | _ \<Rightarrow> False)"

section \<open>Keys and strings\<close>

lemma bytes_str_bytes [simp]: "bytes_str (str_bytes s) = s"
proof (induction s)
  case (Cons c s)
  have "char_of (unat (of_nat (char_code c) :: u8)) = c"
    using char_code_less [of c] by (simp add: unat_of_nat char_code_def)
  then show ?case using Cons by (simp add: bytes_str_def str_bytes_def)
qed (simp add: bytes_str_def str_bytes_def)

lemma str_bytes_str [simp]: "str_bytes (bytes_str b) = b"
proof (induction b)
  case (Cons x b)
  have "unat x < 256" using unsigned_less [where ?'b = 8 and ?'a = nat, of x] by simp
  then have "of_nat (char_code (char_of (unat x))) = x"
    by (simp add: char_code_def of_char_of)
  then show ?case using Cons by (simp add: bytes_str_def str_bytes_def)
qed (simp add: bytes_str_def str_bytes_def)

lemma str_bytes_inject [simp]: "str_bytes s = str_bytes t \<longleftrightarrow> s = t"
  by (metis bytes_str_bytes)

lemma str_bytes_Nil [simp]: "str_bytes s = [] \<longleftrightarrow> s = []"
  by (simp add: str_bytes_def)

lemma yset_same: "yget m k = Some v \<Longrightarrow> yset m k v = m"
  by (induction m k v rule: yset.induct) (auto split: if_splits)

section \<open>What survives\<close>

definition decryptable :: "(u32 \<Rightarrow> bool) \<Rightarrow> bytes \<Rightarrow> bool" where
  "decryptable has_key k = (case depot_number k of None \<Rightarrow> False | Some i \<Rightarrow> has_key i)"

text \<open>An entry stays if it is metadata, a number too large to be a depot, or a depot that is not empty and
  is either virtual or has a key.\<close>

definition survives :: "(u32 \<Rightarrow> bool) \<Rightarrow> bytes \<times> ynode \<Rightarrow> bool" where
  "survives has_key e \<longleftrightarrow>
     \<not> numeric_key (fst e) \<or> depot_number (fst e) = None \<or>
     \<not> depotPublicManifestIsEmpty (snd e) \<and> (decryptable has_key (fst e) \<or> is_virtual_dlc (snd e))"

definition content_depot :: "bytes \<times> ynode \<Rightarrow> bool" where
  "content_depot e \<longleftrightarrow> numeric_key (fst e) \<and> depot_number (fst e) \<noteq> None \<and> \<not> is_virtual_dlc (snd e)"

text \<open>The depots of a list as the pruning loop counts them: the content depots and their platforms.\<close>

fun platforms_of :: "(bytes \<times> ynode) list \<Rightarrow> string set \<Rightarrow> string set" where
  "platforms_of [] os = os"
| "platforms_of (e # es) os =
     (case snd e of
        YMap d \<Rightarrow>
          if content_depot e then platforms_of es (addDepotPlatforms os (the (depot_oslist (snd e))))
          else platforms_of es os
      | _ \<Rightarrow> platforms_of es os)"

lemma prune_depot_step:
  assumes "prune_depot has_key e st = Some st'"
  shows "newDepots st' = (if survives has_key e then yset (newDepots st) (fst e) (snd e) else newDepots st)"
    and "droppedDepots st' = (if survives has_key e then droppedDepots st else Suc (droppedDepots st))"
    and "keptContent st' = (if survives has_key e \<and> content_depot e then Suc (keptContent st) else keptContent st)"
    and "survivingOs st' = (if survives has_key e then platforms_of [e] (survivingOs st) else survivingOs st)"
  using assms
  by (cases "depot_number (fst e)"; cases "snd e";
      auto simp: prune_depot_def survives_def content_depot_def decryptable_def Let_def
      split: if_splits)+

lemma platforms_of_Cons: "platforms_of (e # es) os = platforms_of es (platforms_of [e] os)"
  by (cases "snd e") simp_all

lemma prune_loop_result:
  assumes "prune_loop has_key es st = Some st'" "distinct (map fst es)" "fst ` set es \<inter> fst ` set (newDepots st) = {}"
  shows "newDepots st' = newDepots st @ filter (survives has_key) es \<and>
    droppedDepots st' = droppedDepots st + length (filter (Not \<circ> survives has_key) es) \<and>
    keptContent st' = keptContent st + length (filter content_depot (filter (survives has_key) es)) \<and>
    survivingOs st' = platforms_of (filter (survives has_key) es) (survivingOs st)"
  using assms
proof (induction es arbitrary: st)
  case (Cons e es)
  then obtain st1 where st1: "prune_depot has_key e st = Some st1" "prune_loop has_key es st1 = Some st'"
    by (auto split: option.splits)
  note step = prune_depot_step [OF st1(1)]
  have nd: "newDepots st1 = newDepots st @ filter (survives has_key) [e]"
    using step(1) Cons.prems(3) yset_new [of "fst e" "newDepots st" "snd e"] by auto
  have dis: "distinct (map fst es)" "fst ` set es \<inter> fst ` set (newDepots st1) = {}"
    using Cons.prems(2,3) nd by auto
  have os: "survivingOs st' = platforms_of (filter (survives has_key) (e # es)) (survivingOs st)"
    using Cons.IH [OF st1(2) dis] step(4) platforms_of_Cons [of e "filter (survives has_key) es" "survivingOs st"]
    by (cases "survives has_key e") (simp_all del: platforms_of.simps)
  then show ?case using Cons.IH [OF st1(2) dis] nd step(2,3) by simp
qed simp

lemma prune_loop_init:
  assumes "prune_loop has_key ds prune_init = Some st" "distinct (map fst ds)"
  shows "newDepots st = filter (survives has_key) ds"
    and "droppedDepots st = length (filter (Not \<circ> survives has_key) ds)"
    and "keptContent st = length (filter content_depot (newDepots st))"
    and "survivingOs st = platforms_of (newDepots st) {}"
  using prune_loop_result [OF assms] by (simp_all add: prune_init_def)

lemma dropped_none: "length (filter (Not \<circ> P) xs) = 0 \<Longrightarrow> filter P xs = xs"
  by (simp add: filter_empty_conv filter_id_conv)

lemma literal_keys [simp]:
  "ykey ''common'' \<noteq> ykey ''depots''" "ykey ''extended'' \<noteq> ykey ''depots''" "ykey ''extended'' \<noteq> ykey ''common''"
  "ykey ''depots'' \<noteq> ykey ''common''" "ykey ''depots'' \<noteq> ykey ''extended''" "ykey ''common'' \<noteq> ykey ''extended''"
  by simp_all

lemma common_keeps:
  "k \<noteq> ykey ''common'' \<Longrightarrow> yget (fst (common_oslist b)) k = yget b k"
  by (auto simp: common_oslist_def split: option.splits)

lemma narrow_keeps: "k \<noteq> ykey ''extended'' \<Longrightarrow> yget (narrow_dlc_list uns b) k = yget b k"
  by (auto simp: narrow_dlc_list_def split_beta split: option.splits ynode.splits)

text \<open>A prune that returns, taken apart.\<close>

lemma prune_parts:
  assumes "pruneUnsupportedDepots has_key (YMap b) = Some (body', proton)"
    and "yget b (ykey ''depots'') = Some (YMap ds)" "distinct (map fst ds)"
  obtains st b2 where "prune_loop has_key ds prune_init = Some st"
    and "b2 = narrow_dlc_list (contentDlcAppIds st - usableDlcAppIds st) (fst (common_oslist b))"
    and "body' = YMap (yset b2 (ykey ''depots'') (YMap (filter (survives has_key) ds)))"
    and "proton = requiresProtonMapping (keptContent st) (survivingOs st) (snd (common_oslist b))"
proof -
  obtain st where st: "prune_loop has_key ds prune_init = Some st"
    using assms(1,2) by (auto simp: pruneUnsupportedDepots_def split: option.splits)
  let ?b2 = "narrow_dlc_list (contentDlcAppIds st - usableDlcAppIds st) (fst (common_oslist b))"
  have get: "yget ?b2 (ykey ''depots'') = Some (YMap ds)" using assms(2) by (simp add: narrow_keeps common_keeps)
  note parts = prune_loop_init [OF st assms(3)]
  have "body' = YMap (yset ?b2 (ykey ''depots'') (YMap (filter (survives has_key) ds)))"
  proof (cases "droppedDepots st = 0")
    case True
    then have "filter (survives has_key) ds = ds" using parts(2) dropped_none by metis
    then show ?thesis using True assms(1,2) st yset_same [OF get]
      by (simp add: pruneUnsupportedDepots_def split_beta Let_def)
  next
    case False
    then show ?thesis using assms(1,2) st parts(1)
      by (simp add: pruneUnsupportedDepots_def split_beta Let_def)
  qed
  moreover have "proton = requiresProtonMapping (keptContent st) (survivingOs st) (snd (common_oslist b))"
    using assms(1,2) st by (simp add: pruneUnsupportedDepots_def split_beta Let_def split: if_splits)
  ultimately show thesis using that st by blast
qed

lemma usable_after:
  "hasUsableContentDepot (YMap (yset b (ykey ''depots'') (YMap ds))) \<longleftrightarrow> list_ex usable_depot ds"
  by (simp add: hasUsableContentDepot_def)

definition safe_depot :: "(u32 \<Rightarrow> bool) \<Rightarrow> bytes \<times> ynode \<Rightarrow> bool" where
  "safe_depot has_key e \<longleftrightarrow>
     (if content_depot e then decryptable has_key (fst e) \<and> \<not> depotPublicManifestIsEmpty (snd e) else True)"

lemma survives_safe: "survives has_key e \<Longrightarrow> safe_depot has_key e"
  by (auto simp: survives_def safe_depot_def content_depot_def)

lemma prune_effect:
  assumes "pruneUnsupportedDepots has_key (YMap b) = Some (body', proton)"
    and "yget b (ykey ''depots'') = Some (YMap ds)" "distinct (map fst ds)"
  shows "\<exists>b'. body' = YMap b' \<and> yget b' (ykey ''depots'') = Some (YMap (filter (survives has_key) ds)) \<and>
    list_all (safe_depot has_key) (filter (survives has_key) ds) \<and>
    (hasUsableContentDepot body' \<longleftrightarrow> list_ex usable_depot (filter (survives has_key) ds)) \<and>
    (\<forall>k. k = ykey ''depots'' \<or> k = ykey ''common'' \<or> k = ykey ''extended'' \<or> yget b' k = yget b k)"
proof -
  obtain st b2 where "prune_loop has_key ds prune_init = Some st"
    and parts: "b2 = narrow_dlc_list (contentDlcAppIds st - usableDlcAppIds st) (fst (common_oslist b))"
      "body' = YMap (yset b2 (ykey ''depots'') (YMap (filter (survives has_key) ds)))"
    and "proton = requiresProtonMapping (keptContent st) (survivingOs st) (snd (common_oslist b))"
    by (rule prune_parts [OF assms])
  have "list_all (safe_depot has_key) (filter (survives has_key) ds)"
    by (auto simp: list_all_iff survives_safe)
  moreover have "yget b2 k = yget b k" if "k \<noteq> ykey ''common''" "k \<noteq> ykey ''extended''" for k
    using that parts(1) by (simp add: narrow_keeps common_keeps)
  ultimately show ?thesis unfolding parts(2) usable_after
    by (intro exI [of _ "yset b2 (ykey ''depots'') (YMap (filter (survives has_key) ds))"]) auto
qed

text \<open>C9: After pruning, the depots are those that survive, in their order: every content depot among them has
  a key and is not empty, the app is usable just when a usable one survived, and what is not depots,
  platform list or DLC list is as before.\<close>

theorem prune_exact:
  assumes "pruneUnsupportedDepots has_key (YMap b) = Some (body', proton)"
    and "yget b (ykey ''depots'') = Some (YMap ds)" "distinct (map fst ds)"
  shows "\<exists>b'. body' = YMap b' \<and> yget b' (ykey ''depots'') = Some (YMap (filter (survives has_key) ds)) \<and>
    list_all (safe_depot has_key) (filter (survives has_key) ds) \<and>
    (hasUsableContentDepot body' \<longleftrightarrow> list_ex usable_depot (filter (survives has_key) ds)) \<and>
    (\<forall>k. k = ykey ''depots'' \<or> k = ykey ''common'' \<or> k = ykey ''extended'' \<or> yget b' k = yget b k)"
  using assms by (rule prune_effect)

section \<open>When it throws\<close>

definition throwing_depot :: "(u32 \<Rightarrow> bool) \<Rightarrow> bytes \<times> ynode \<Rightarrow> bool" where
  "throwing_depot has_key e \<longleftrightarrow>
     survives has_key e \<and> content_depot e \<and> (\<exists>d s. snd e = YMap d \<and> yget d (ykey ''config'') = Some (YScalar s))"

lemma depot_oslist_throws:
  "depot_oslist (YMap d) = None \<longleftrightarrow> (\<exists>s. yget d (ykey ''config'') = Some (YScalar s))"
  by (auto simp: depot_oslist_def map_of_node_def split: option.splits elim: const_at.elims)

lemma prune_depot_throws: "prune_depot has_key e st = None \<longleftrightarrow> throwing_depot has_key e"
  by (cases "depot_number (fst e)"; cases "snd e")
    (auto simp: prune_depot_def throwing_depot_def survives_def content_depot_def decryptable_def Let_def
      depot_oslist_throws)

lemma prune_loop_throws: "prune_loop has_key ds st = None \<longleftrightarrow> list_ex (throwing_depot has_key) ds"
proof (induction ds arbitrary: st)
  case (Cons e ds)
  show ?case using Cons prune_depot_throws [of has_key e st] by (cases "prune_depot has_key e st") auto
qed simp

text \<open>The pruning of a document with depots ends in an exception exactly when a surviving content depot has
  a scalar where its configuration is expected.\<close>

theorem prune_throws:
  "pruneUnsupportedDepots has_key (YMap b) = None \<longleftrightarrow>
     list_ex (throwing_depot has_key) (case yget b (ykey ''depots'') of Some n \<Rightarrow> map_of_node n | None \<Rightarrow> [])"
proof -
  have "pruneUnsupportedDepots has_key (YMap b) = None \<longleftrightarrow> prune_loop has_key ds prune_init = None"
    if "yget b (ykey ''depots'') = Some (YMap ds)" for ds
    using that by (simp add: pruneUnsupportedDepots_def Let_def split_beta split: option.splits)
  moreover have "pruneUnsupportedDepots has_key (YMap b) = Some (YMap b, False)"
    if "\<nexists>ds. yget b (ykey ''depots'') = Some (YMap ds)"
    using that by (auto simp: pruneUnsupportedDepots_def split: option.split ynode.split)
  ultimately show ?thesis
    by (auto simp: map_of_node_def prune_loop_throws split: option.splits ynode.splits)
qed

section \<open>The cache asks for Proton when the prune did\<close>

lemma plain_distinct: "plain_map m \<Longrightarrow> distinct (map fst m)"
  by (induction m rule: plain_map.induct) auto

lemma plain_child: "plain_map m \<Longrightarrow> yget m k = Some (YMap c) \<Longrightarrow> plain_map c"
  by (induction m rule: plain_map.induct) (auto split: if_splits)

lemma plain_filter: "plain_map m \<Longrightarrow> plain_map (filter P m)"
  by (induction m rule: plain_map.induct) auto

lemma plain_kinds: "plain_map m \<Longrightarrow> yget m k = Some v \<Longrightarrow> (\<exists>s. v = YScalar s) \<or> (\<exists>c. v = YMap c)"
  by (induction m rule: plain_map.induct) (auto split: if_splits)

lemma plain_common: "plain_map b \<Longrightarrow> fst (common_oslist b) = b"
  by (auto simp: common_oslist_def yset_same split: option.splits elim!: mutable_map.elims dest!: plain_kinds)

lemma plain_narrow: "plain_map b \<Longrightarrow> plain_map (narrow_dlc_list uns b)"
  by (auto simp: narrow_dlc_list_def split_beta intro!: plain_yset dest: plain_child split: option.splits ynode.splits)

definition well_numbered :: "(bytes \<times> ynode) list \<Rightarrow> bool" where
  "well_numbered ds \<longleftrightarrow>
     list_all (\<lambda>e. if numeric_key (fst e) then depot_number (fst e) \<noteq> None \<and> (\<exists>d. snd e = YMap d) else True) ds"

lemma cached_depots_platforms:
  "well_numbered ds \<Longrightarrow> list_all (\<lambda>e. content_depot e \<longrightarrow> depot_oslist (snd e) \<noteq> None) ds \<Longrightarrow>
     cached_depots ds n os = Some (n + length (filter content_depot ds), platforms_of ds os)"
proof (induction ds arbitrary: n os)
  case (Cons e ds)
  then have IH: "cached_depots ds n os = Some (n + length (filter content_depot ds), platforms_of ds os)" for n os
    by (simp add: well_numbered_def)
  show ?case
  proof (cases "numeric_key (fst e)")
    case True
    then obtain d where "depot_number (fst e) \<noteq> None" and d: "snd e = YMap d" using Cons.prems(1) by (auto simp: well_numbered_def)
    then have c: "content_depot e \<longleftrightarrow> \<not> is_virtual_dlc (YMap d)" using True by (simp add: content_depot_def)
    show ?thesis
    proof (cases "is_virtual_dlc (YMap d)")
      case False
      then obtain l where "depot_oslist (YMap d) = Some l" using Cons.prems(2) c d by auto
      then show ?thesis using IH True c d False by simp
    qed (use IH True c d in simp)
  next
    case False
    then have "\<not> content_depot e" by (simp add: content_depot_def)
    then show ?thesis using IH False by (cases "snd e") simp_all
  qed
qed simp

lemma prune_no_throw:
  assumes "prune_loop has_key ds st = Some st'" "well_numbered ds"
  shows "list_all (\<lambda>e. content_depot e \<longrightarrow> depot_oslist (snd e) \<noteq> None) (filter (survives has_key) ds)"
proof -
  have no: "\<not> throwing_depot has_key e" if "e \<in> set ds" for e
    using prune_loop_throws [of has_key ds st] assms(1) that by (auto simp: list_ex_iff)
  have "\<exists>d. snd e = YMap d" if "e \<in> set ds" "content_depot e" for e
    using assms(2) that by (auto simp: well_numbered_def list_all_iff content_depot_def)
  moreover have "throwing_depot has_key e" if "survives has_key e" "content_depot e" "snd e = YMap d" "depot_oslist (YMap d) = None"
    for e d
    unfolding throwing_depot_def using that depot_oslist_throws [of d] by simp
  ultimately show ?thesis using no unfolding list_all_iff by (metis mem_Collect_eq set_filter)
qed

lemma proton_agrees_aux:
  assumes "pruneUnsupportedDepots has_key (YMap b) = Some (body', proton)" "plain_map b"
    and "yget b (ykey ''depots'') = Some (YMap ds)" "well_numbered ds"
    and "\<And>s. yget b (ykey ''common'') \<noteq> Some (YScalar s)"
  shows "cachedWireRequiresProton (wireOut body') = proton \<and> parseAppinfo (wireOut body') = Some body'"
proof -
  have pds: "plain_map ds" by (rule plain_child [OF assms(2,3)])
  obtain st b2 where st: "prune_loop has_key ds prune_init = Some st"
    and b2: "b2 = narrow_dlc_list (contentDlcAppIds st - usableDlcAppIds st) (fst (common_oslist b))"
    and body: "body' = YMap (yset b2 (ykey ''depots'') (YMap (filter (survives has_key) ds)))"
    and proton: "proton = requiresProtonMapping (keptContent st) (survivingOs st) (snd (common_oslist b))"
    by (rule prune_parts [OF assms(1,3) plain_distinct [OF pds]])
  let ?ds = "filter (survives has_key) ds" let ?b = "yset b2 (ykey ''depots'') (YMap ?ds)"
  have "plain_map b2" using b2 assms(2) by (simp add: plain_common plain_narrow)
  then have "plain_map ?b" using plain_yset(2) plain_filter [OF pds] by blast
  then have read: "parseAppinfo (wireOut body') = Some body'" unfolding body by (simp add: reread_wireOut plain_reread)
  have wn: "well_numbered ?ds" using assms(4) by (auto simp: well_numbered_def list_all_iff)
  have cached: "cached_depots ?ds 0 {} = Some (keptContent st, survivingOs st)"
    using cached_depots_platforms [OF wn prune_no_throw [OF st assms(4)]] prune_loop_init [OF st plain_distinct [OF pds]]
    by simp
  have common: "yget b2 (ykey ''common'') = yget b (ykey ''common'')"
    by (simp add: b2 narrow_keeps plain_common [OF assms(2)])
  have "wireOut body' \<noteq> []" by (simp add: wireOut_def)
  then have "cachedWireRequiresProton (wireOut body') =
    (case yget b (ykey ''common'') of
       None \<Rightarrow> requiresProtonMapping (keptContent st) (survivingOs st) []
     | Some c \<Rightarrow> (case const_at c (ykey ''oslist'') of
         None \<Rightarrow> False
       | Some None \<Rightarrow> requiresProtonMapping (keptContent st) (survivingOs st) []
       | Some (Some os) \<Rightarrow> requiresProtonMapping (keptContent st) (survivingOs st)
           (case as_string os of None \<Rightarrow> [] | Some s \<Rightarrow> bytes_str s)))"
    unfolding cachedWireRequiresProton_def read by (simp add: body cached common)
  also have "\<dots> = proton"
    using assms(5) plain_kinds [OF assms(2), of "ykey ''common''"]
    by (auto simp: proton common_oslist_def split: option.splits)
  finally show ?thesis using read by blast
qed


section \<open>The advertised DLC\<close>

definition numbered :: "bytes \<times> ynode \<Rightarrow> bool" where
  "numbered e \<longleftrightarrow> numeric_key (fst e) \<and> depot_number (fst e) \<noteq> None"

text \<open>The DLC with a content depot, and those with an entry that survived.\<close>

definition content_dlc :: "(bytes \<times> ynode) list \<Rightarrow> u32 set" where
  "content_dlc ds = (\<lambda>e. dlc_app_of (snd e)) ` {e \<in> set ds. numbered e \<and> has_child (snd e) ''manifests''} - {0}"

definition surviving_dlc :: "(u32 \<Rightarrow> bool) \<Rightarrow> (bytes \<times> ynode) list \<Rightarrow> u32 set" where
  "surviving_dlc has_key ds = (\<lambda>e. dlc_app_of (snd e)) ` {e \<in> set ds. numbered e \<and> survives has_key e} - {0}"

lemma prune_depot_dlc:
  assumes "prune_depot has_key e st = Some st'"
  shows "contentDlcAppIds st' = contentDlcAppIds st \<union> content_dlc [e] \<and>
    usableDlcAppIds st' = usableDlcAppIds st \<union> surviving_dlc has_key [e]"
proof (cases "numbered e")
  case False
  have c: "content_dlc [e] = {}" "surviving_dlc has_key [e] = {}"
    using False by (auto simp: content_dlc_def surviving_dlc_def)
  show ?thesis using assms False unfolding c
    by (cases "numeric_key (fst e)"; cases "depot_number (fst e)") (auto simp: numbered_def prune_depot_def Let_def)
next
  case True
  then obtain i where i: "numeric_key (fst e)" "depot_number (fst e) = Some i" by (auto simp: numbered_def)
  have c: "content_dlc [e] = (if dlc_app_of (snd e) \<noteq> 0 \<and> has_child (snd e) ''manifests'' then {dlc_app_of (snd e)} else {})"
    and u: "surviving_dlc has_key [e] = (if dlc_app_of (snd e) \<noteq> 0 \<and> survives has_key e then {dlc_app_of (snd e)} else {})"
    using True by (auto simp: content_dlc_def surviving_dlc_def)
  have sv: "survives has_key e \<longleftrightarrow> \<not> depotPublicManifestIsEmpty (snd e) \<and> (has_key i \<or> is_virtual_dlc (snd e))"
    using i by (simp add: survives_def decryptable_def)
  show ?thesis using assms i unfolding c u sv
    by (cases "snd e") (auto simp: prune_depot_def Let_def split: if_splits)
qed

lemma dlc_Cons:
  "content_dlc (e # es) = content_dlc [e] \<union> content_dlc es"
  "surviving_dlc has_key (e # es) = surviving_dlc has_key [e] \<union> surviving_dlc has_key es"
  by (auto simp: content_dlc_def surviving_dlc_def)

lemma prune_loop_dlc:
  "prune_loop has_key es st = Some st' \<Longrightarrow>
     contentDlcAppIds st' = contentDlcAppIds st \<union> content_dlc es \<and>
     usableDlcAppIds st' = usableDlcAppIds st \<union> surviving_dlc has_key es"
proof (induction es arbitrary: st)
  case Nil
  then show ?case by (simp add: content_dlc_def surviving_dlc_def)
next
  case (Cons e es)
  then obtain st1 where st1: "prune_depot has_key e st = Some st1" "prune_loop has_key es st1 = Some st'"
    by (auto split: option.splits)
  show ?case using Cons.IH [OF st1(2)] prune_depot_dlc [OF st1(1)] dlc_Cons(1) [of e es] dlc_Cons(2) [of has_key e es]
    by (simp add: Un_assoc)
qed

definition without_dlc :: "u32 set \<Rightarrow> bytes \<Rightarrow> bytes" where
  "without_dlc uns l = str_bytes (join_commas (filter (\<lambda>t. \<not> unsupported_token uns t) (split_commas (bytes_str l))))"

lemma unsupported_none: "\<not> unsupported_token {} t"
  by (simp add: unsupported_token_def Let_def split: option.splits)

lemma narrow_list:
  assumes "yget b (ykey ''extended'') = Some (YMap e)" "yget e (ykey ''listofdlc'') = Some (YScalar l)"
  shows "\<exists>e'. yget (narrow_dlc_list uns b) (ykey ''extended'') = Some (YMap e') \<and>
    yget e' (ykey ''listofdlc'') = Some (YScalar (without_dlc uns l))"
proof -
  let ?ts = "split_commas (bytes_str l)"
  have same: "without_dlc uns l = l" if "filter (unsupported_token uns) ?ts = []"
  proof -
    have "filter (\<lambda>t. \<not> unsupported_token uns t) ?ts = ?ts"
      using that by (simp add: filter_empty_conv filter_id_conv)
    then show ?thesis by (simp add: without_dlc_def)
  qed
  have "filter (unsupported_token {}) ?ts = []" by (simp add: unsupported_none)
  then show ?thesis using assms same
    by (cases "uns = {}") (auto simp: narrow_dlc_list_def filter_exact_aux without_dlc_def [symmetric])
qed

text \<open>The advertised DLC list loses exactly the DLC that had content depots of which none survived, and
  keeps every other token in its place.\<close>

theorem dlc_list_exact:
  assumes "pruneUnsupportedDepots has_key (YMap b) = Some (YMap b', proton)"
    and "yget b (ykey ''depots'') = Some (YMap ds)" "distinct (map fst ds)"
    and "yget b (ykey ''extended'') = Some (YMap e)" "yget e (ykey ''listofdlc'') = Some (YScalar l)"
  shows "\<exists>e'. yget b' (ykey ''extended'') = Some (YMap e') \<and>
    yget e' (ykey ''listofdlc'') = Some (YScalar (without_dlc (content_dlc ds - surviving_dlc has_key ds) l))"
proof -
  obtain st b2 where st: "prune_loop has_key ds prune_init = Some st"
    and b2: "b2 = narrow_dlc_list (contentDlcAppIds st - usableDlcAppIds st) (fst (common_oslist b))"
    and body: "YMap b' = YMap (yset b2 (ykey ''depots'') (YMap (filter (survives has_key) ds)))"
    and "proton = requiresProtonMapping (keptContent st) (survivingOs st) (snd (common_oslist b))"
    by (rule prune_parts [OF assms(1-3)])
  have uns: "contentDlcAppIds st - usableDlcAppIds st = content_dlc ds - surviving_dlc has_key ds"
    using prune_loop_dlc [OF st] by (simp add: prune_init_def)
  have ext: "yget (fst (common_oslist b)) (ykey ''extended'') = Some (YMap e)"
    using assms(4) by (simp add: common_keeps)
  show ?thesis using narrow_list [OF ext assms(5), of "content_dlc ds - surviving_dlc has_key ds"] body b2 uns
    by simp
qed

section \<open>A document\<close>

text \<open>A game with a Windows depot that has a key, a Linux depot that has none, and an empty one, and a DLC
  whose only depot has no key.\<close>

definition sample_branch :: "string \<Rightarrow> ynode" where
  "sample_branch sz = YMap [(ykey ''public'', YMap [(ykey ''gid'', YScalar (ykey ''77'')), (ykey ''size'', YScalar (ykey sz))])]"

definition sample_depot :: "string \<Rightarrow> string \<Rightarrow> (bytes \<times> ynode) list" where
  "sample_depot os sz =
     [(ykey ''config'', YMap [(ykey ''oslist'', YScalar (ykey os))]), (ykey ''manifests'', sample_branch sz)]"

definition sample_depots :: "(bytes \<times> ynode) list" where
  "sample_depots =
     [(ykey ''441'', YMap (sample_depot ''windows'' ''9'')), (ykey ''442'', YMap (sample_depot ''linux'' ''9'')),
      (ykey ''443'', YMap (sample_depot ''windows'' ''0'')),
      (ykey ''500'', YMap [(ykey ''dlcappid'', YScalar (ykey ''500'')), (ykey ''manifests'', sample_branch ''9'')]),
      (ykey ''branches'', YMap [])]"

definition sample_body :: "(bytes \<times> ynode) list" where
  "sample_body =
     [(ykey ''common'', YMap [(ykey ''oslist'', YScalar (ykey ''windows,linux''))]),
      (ykey ''depots'', YMap sample_depots),
      (ykey ''extended'', YMap [(ykey ''listofdlc'', YScalar (ykey ''500,501''))])]"

definition sample_keys :: "u32 \<Rightarrow> bool" where
  "sample_keys i \<longleftrightarrow> i = 441 \<or> i = 443"

definition sample_pruned :: "(bytes \<times> ynode) list" where
  "sample_pruned =
     [(ykey ''common'', YMap [(ykey ''oslist'', YScalar (ykey ''windows,linux''))]),
      (ykey ''depots'', YMap [(ykey ''441'', YMap (sample_depot ''windows'' ''9'')), (ykey ''branches'', YMap [])]),
      (ykey ''extended'', YMap [(ykey ''listofdlc'', YScalar (ykey ''501''))])]"

lemma sample_prune: "pruneUnsupportedDepots sample_keys (YMap sample_body) = Some (YMap sample_pruned, True)"
proof -
  note digits = numeric_key_def is_digit_def char_code_def
  note numbers = depot_number_def dec_value_def digit_val_def char_code_def u32_max_def
  have keys: "numeric_key (ykey ''441'')" "numeric_key (ykey ''442'')" "numeric_key (ykey ''443'')"
    "numeric_key (ykey ''500'')" "\<not> numeric_key (ykey ''branches'')"
    by (simp_all add: digits)
  have nums: "depot_number (ykey ''441'') = Some 441" "depot_number (ykey ''442'') = Some 442"
    "depot_number (ykey ''443'') = Some 443" "depot_number (ykey ''500'') = Some 500"
    by (simp_all add: numbers)
  have dlc: "stream_unsigned u32_max (ykey ''500'') = Some 500"
    by (simp add: stream_unsigned_def number_base_def digit_of_def number_value_def char_code_def u32_max_def Let_def)
  have size: "\<not> depotPublicManifestIsEmpty (YMap (sample_depot os ''9''))" "depotPublicManifestIsEmpty (YMap (sample_depot os ''0''))" for os
    by (simp_all add: depotPublicManifestIsEmpty_def sample_depot_def sample_branch_def edge_space_def str_bytes_def char_code_def)
  have dlc_size: "\<not> depotPublicManifestIsEmpty (YMap [(ykey ''dlcappid'', d), (ykey ''manifests'', sample_branch ''9'')])" for d
    by (simp add: depotPublicManifestIsEmpty_def sample_branch_def edge_space_def str_bytes_def char_code_def)
  note shape = is_virtual_dlc_def has_child_def dlc_app_of_def map_of_node_def
  have virt: "\<not> is_virtual_dlc (YMap (sample_depot os n))" "dlc_app_of (YMap (sample_depot os n)) = 0"
    "depot_oslist (YMap (sample_depot os n)) = Some os" for os n
    by (simp_all add: shape sample_depot_def depot_oslist_def)
  let ?d = "YMap [(ykey ''dlcappid'', YScalar (ykey ''500'')), (ykey ''manifests'', sample_branch ''9'')]"
  have dlc_depot: "\<not> is_virtual_dlc ?d" "dlc_app_of ?d = 500" "has_child ?d ''manifests''"
    by (simp_all add: shape dlc)
  have loop: "prune_loop sample_keys sample_depots prune_init = Some
      \<lparr>newDepots = [(ykey ''441'', YMap (sample_depot ''windows'' ''9'')), (ykey ''branches'', YMap [])],
       survivingOs = addDepotPlatforms {} ''windows'', keptDepots = 1, keptContent = 1, droppedDepots = 3,
       totalNumeric = 4, contentDlcAppIds = {500}, usableDlcAppIds = {}\<rparr>"
    by (simp add: sample_depots_def prune_depot_def Let_def keys nums size dlc_size virt dlc_depot prune_init_def
        sample_keys_def)
  have tokens: "parsePlatformOsList ''windows'' = {''windows''}" "parsePlatformOsList ''windows,linux'' = {''windows'', ''linux''}"
    by (simp_all add: parsePlatformOsList_def platforms_loop_tokens platform_tokens_def trim_word_def blank_def)
  have need: "requiresProtonMapping 1 (addDepotPlatforms {} ''windows'') ''windows,linux''"
    by (simp add: requiresProtonMapping_def addDepotPlatforms_def tokens kAnyPlatform_def)
  have list: "filterUnsupportedDlcAppIds ''500,501'' {500} = (''501'', 1)"
    by (simp add: filter_exact_aux unsupported_token_def stoul_def is_digit_def char_code_def dec_value_def digit_val_def
        u32_max_def join_commas_def)
  show ?thesis
    by (simp add: pruneUnsupportedDepots_def sample_body_def common_oslist_def narrow_dlc_list_def loop need [unfolded One_nat_def] list
        sample_pruned_def Let_def)
qed

lemma sample_plain: "plain_map sample_body" "well_numbered sample_depots"
proof -
  show "plain_map sample_body" by (simp add: sample_body_def sample_depots_def sample_depot_def sample_branch_def)
  have nums: "depot_number (ykey ''441'') \<noteq> None" "depot_number (ykey ''442'') \<noteq> None"
    "depot_number (ykey ''443'') \<noteq> None" "depot_number (ykey ''500'') \<noteq> None" "\<not> numeric_key (ykey ''branches'')"
    by (simp_all add: depot_number_def dec_value_def digit_val_def char_code_def u32_max_def numeric_key_def is_digit_def)
  then show "well_numbered sample_depots" by (simp add: well_numbered_def sample_depots_def)
qed

lemma sample_parts:
  "yget sample_body (ykey ''depots'') = Some (YMap sample_depots)" "distinct (map fst sample_depots)"
  "yget sample_body (ykey ''extended'') = Some (YMap [(ykey ''listofdlc'', YScalar (ykey ''500,501''))])"
  "yget sample_body (ykey ''common'') \<noteq> Some (YScalar s)"
  by (simp_all add: sample_body_def sample_depots_def)

lemma prune_exact_witness:
  "filter (survives sample_keys) sample_depots =
     [(ykey ''441'', YMap (sample_depot ''windows'' ''9'')), (ykey ''branches'', YMap [])]"
  using prune_exact [OF sample_prune sample_parts(1,2)] by (simp add: sample_pruned_def)

lemma dlc_list_exact_witness:
  "without_dlc (content_dlc sample_depots - surviving_dlc sample_keys sample_depots) (ykey ''500,501'') = ykey ''501''"
  using dlc_list_exact [OF sample_prune sample_parts(1-3), of "ykey ''500,501''"] by (simp add: sample_pruned_def)


end
