(* ===== verification/AppRender.thy ===== *)
theory AppRender
  imports DepotPrune ManifestNames ManifestBytes
begin

text \<open>
  From a provider's document to the cached text: the synthesis of a missing depots block
  (\<open>src/feats/manifestsynth.hpp\<close> and \<open>synthesizeDepotsFromStore\<close>), the legacy key field, the DLC
  test and \<open>renderAppinfoBuffer\<close> of \<open>appinfo_provision.cpp\<close>. What the stores hold for an app (its
  managed depots, each with its best archived manifest and that file's bytes) is an argument.
\<close>

section \<open>Outcomes\<close>

text \<open>A call may run for ever, leave with an exception, or return.\<close>

datatype 'a outcome = Loops | Throws | Returns 'a

definition returning :: "'a option \<Rightarrow> 'a outcome" where
  "returning r = (case r of None \<Rightarrow> Throws | Some x \<Rightarrow> Returns x)"

fun and_then :: "'a outcome \<Rightarrow> ('a \<Rightarrow> 'b outcome) \<Rightarrow> 'b outcome" where
  "and_then Loops f = Loops"
| "and_then Throws f = Throws"
| "and_then (Returns x) f = f x"

lemma and_then_Returns: "and_then r f = Returns y \<longleftrightarrow> (\<exists>x. r = Returns x \<and> f x = Returns y)"
  by (cases r) simp_all

section \<open>Mutable subscripts\<close>

text \<open>\<open>body[k][k2]\<close> of a mutable body: the body as the access leaves it, and the value; then the
  assignment to it.\<close>

definition read_in :: "(bytes \<times> ynode) list \<Rightarrow> string \<Rightarrow> string \<Rightarrow> ((bytes \<times> ynode) list \<times> ynode option) option" where
  "read_in b k k2 =
     (case yget b (ykey k) of
        None \<Rightarrow> Some (b, None)
      | Some c \<Rightarrow> map_option (\<lambda>m. (yset b (ykey k) (YMap m), yget m (ykey k2))) (mutable_map c))"

definition set_in :: "(bytes \<times> ynode) list \<Rightarrow> string \<Rightarrow> string \<Rightarrow> ynode \<Rightarrow> (bytes \<times> ynode) list option" where
  "set_in b k k2 v =
     (case yget b (ykey k) of
        None \<Rightarrow> Some (yset b (ykey k) (YMap [(ykey k2, v)]))
      | Some c \<Rightarrow> map_option (\<lambda>m. yset b (ykey k) (YMap (yset m (ykey k2) v))) (mutable_map c))"

definition set_in2 ::
  "(bytes \<times> ynode) list \<Rightarrow> string \<Rightarrow> string \<Rightarrow> bytes \<Rightarrow> ynode \<Rightarrow> (bytes \<times> ynode) list option" where
  "set_in2 b k k2 k3 v =
     (case yget b (ykey k) of
        None \<Rightarrow> Some (yset b (ykey k) (YMap [(ykey k2, YMap [(k3, v)])]))
      | Some c \<Rightarrow>
          (case mutable_map c of
             None \<Rightarrow> None
           | Some m \<Rightarrow>
               (case yget m (ykey k2) of
                  None \<Rightarrow> Some (yset b (ykey k) (YMap (yset m (ykey k2) (YMap [(k3, v)]))))
                | Some d \<Rightarrow> map_option (\<lambda>e. yset b (ykey k) (YMap (yset m (ykey k2) (YMap (yset e k3 v))))) (mutable_map d))))"

section \<open>Synthesized depots\<close>

record synth_depot =
  sdDepotId :: u32
  sdGid :: u64
  sdOslist :: string
  sdSize :: u64
  sdDownload :: u64

definition number_node :: "nat \<Rightarrow> ynode" where
  "number_node n = YScalar (ykey (to_dec n))"

definition synth_entry :: "synth_depot \<Rightarrow> ynode" where
  "synth_entry d =
     YMap ([(ykey ''manifests'', YMap [(ykey ''public'',
              YMap ([(ykey ''gid'', number_node (unat (sdGid d)))] @
                    (if sdSize d > 0 then [(ykey ''size'', number_node (unat (sdSize d)))] else []) @
                    (if sdDownload d > 0 then [(ykey ''download'', number_node (unat (sdDownload d)))] else [])))])] @
           (if sdOslist d \<noteq> [] then [(ykey ''config'', YMap [(ykey ''oslist'', YScalar (ykey (sdOslist d)))])] else []))"

fun synth_loop :: "synth_depot list \<Rightarrow> (bytes \<times> ynode) list \<Rightarrow> nat \<Rightarrow> (bytes \<times> ynode) list \<times> nat" where
  "synth_loop [] nd added = (nd, added)"
| "synth_loop (d # ds) nd added =
     (if sdGid d = 0 then synth_loop ds nd added
      else synth_loop ds (yset nd (ykey (to_dec (unat (sdDepotId d)))) (synth_entry d)) (Suc added))"

definition nonempty_map :: "ynode option \<Rightarrow> bool" where
  "nonempty_map n \<longleftrightarrow> (case n of Some (YMap m) \<Rightarrow> m \<noteq> [] | _ \<Rightarrow> False)"

definition injectSynthesizedDepots :: "(bytes \<times> ynode) list \<Rightarrow> synth_depot list \<Rightarrow> (bytes \<times> ynode) list \<times> nat" where
  "injectSynthesizedDepots b depots =
     (if nonempty_map (yget b (ykey ''depots'')) then (b, 0)
      else
        (let (nd, added) = synth_loop depots [] 0
         in (if added > 0 then yset b (ykey ''depots'') (YMap nd) else b, added)))"

definition ensureInstallDir :: "(bytes \<times> ynode) list \<Rightarrow> ((bytes \<times> ynode) list \<times> bool) option" where
  "ensureInstallDir b =
     (if (case yget b (ykey ''config'') of
            Some (YMap c) \<Rightarrow> (case yget c (ykey ''installdir'') of Some (YScalar d) \<Rightarrow> d \<noteq> [] | _ \<Rightarrow> False)
          | _ \<Rightarrow> False)
      then Some (b, False)
      else case yget b (ykey ''common'') of
        Some (YMap c) \<Rightarrow>
          (case yget c (ykey ''name'') of
             Some (YScalar raw) \<Rightarrow>
               (let out = sanitize_name (bytes_str raw) in
                if out = [] then Some (b, False)
                else map_option (\<lambda>b'. (b', True)) (set_in b ''config'' ''installdir'' (YScalar (ykey out))))
           | _ \<Rightarrow> Some (b, False))
      | _ \<Rightarrow> Some (b, False))"

definition launch_entry :: "string \<Rightarrow> string \<Rightarrow> bytes \<Rightarrow> ynode" where
  "launch_entry executable oslist desc =
     YMap ([(ykey ''executable'', YScalar (ykey executable))] @
           (if desc \<noteq> [] then [(ykey ''description'', YScalar desc)] else []) @
           (if oslist \<noteq> [] then [(ykey ''config'', YMap [(ykey ''oslist'', YScalar (ykey oslist))])] else []))"

fun launch_loop ::
  "(string \<times> string) list \<Rightarrow> bytes \<Rightarrow> (bytes \<times> ynode) list \<Rightarrow> nat \<Rightarrow> ((bytes \<times> ynode) list \<times> nat) option" where
  "launch_loop [] desc b added = Some (b, added)"
| "launch_loop ((executable, oslist) # es) desc b added =
     (if executable = [] then launch_loop es desc b added
      else case set_in2 b ''config'' ''launch'' (ykey (to_dec added)) (launch_entry executable oslist desc) of
        None \<Rightarrow> None
      | Some b' \<Rightarrow> launch_loop es desc b' (Suc added))"

definition ensureLaunchEntries ::
  "(bytes \<times> ynode) list \<Rightarrow> (string \<times> string) list \<Rightarrow> ((bytes \<times> ynode) list \<times> nat) option" where
  "ensureLaunchEntries b entries =
     (if (case yget b (ykey ''config'') of Some (YMap c) \<Rightarrow> nonempty_map (yget c (ykey ''launch'')) | _ \<Rightarrow> False)
      then Some (b, 0)
      else case read_in b ''common'' ''name'' of
        None \<Rightarrow> None
      | Some (b', n) \<Rightarrow> launch_loop entries (case n of Some (YScalar s) \<Rightarrow> s | _ \<Rightarrow> []) b' 0)"

section \<open>Gathering from the stores\<close>

text \<open>One managed depot: its id, its best archived manifest (0 if none) and the bytes of that file if it
  opens.\<close>

type_synonym stored_depot = "u32 \<times> u64 \<times> bytes option"

record gathered =
  gDepots :: "synth_depot list"
  winFiles :: "string list"
  linFiles :: "string list"
  macFiles :: "string list"
  installedSizes :: "(u32 \<times> u64 \<times> u64) list"

definition gather_depot :: "stored_depot \<Rightarrow> gathered \<Rightarrow> gathered outcome" where
  "gather_depot d g =
     (case d of (depotId, gid, file) \<Rightarrow>
        if gid = 0 then Returns g
        else case file of
          None \<Rightarrow> Returns (g\<lparr>gDepots := gDepots g @
              [\<lparr>sdDepotId = depotId, sdGid = gid, sdOslist = [], sdSize = 0, sdDownload = 0\<rparr>]\<rparr>)
        | Some m \<Rightarrow>
            (case extractManifestFilenames m of
               None \<Rightarrow> Loops
             | Some names \<Rightarrow>
                 (let files = map bytes_str names; oslist = detectOsFromFiles files;
                      g1 = g\<lparr>winFiles := winFiles g @ (if oslist = ''windows'' then files else []),
                             linFiles := linFiles g @ (if oslist = ''linux'' then files else []),
                             macFiles := macFiles g @ (if oslist = ''macos'' then files else [])\<rparr>
                  in case parseManifestSizes m of
                       None \<Rightarrow> Loops
                     | Some (found, s, dl) \<Rightarrow>
                         (let size' = (case s of None \<Rightarrow> 0 | Some v \<Rightarrow> v);
                              download = (case dl of None \<Rightarrow> 0 | Some v \<Rightarrow> v)
                          in Returns (g1\<lparr>gDepots := gDepots g1 @
                                [\<lparr>sdDepotId = depotId, sdGid = gid, sdOslist = oslist, sdSize = size', sdDownload = download\<rparr>],
                              installedSizes := installedSizes g1 @ (if found then [(depotId, gid, size')] else [])\<rparr>)))))"

fun gather :: "stored_depot list \<Rightarrow> gathered \<Rightarrow> gathered outcome" where
  "gather [] g = Returns g"
| "gather (d # ds) g = and_then (gather_depot d g) (gather ds)"

definition gather_init :: gathered where
  "gather_init = \<lparr>gDepots = [], winFiles = [], linFiles = [], macFiles = [], installedSizes = []\<rparr>"

definition launchers :: "gathered \<Rightarrow> string \<Rightarrow> (string \<times> string) list" where
  "launchers g installdir =
     (if linFiles g \<noteq> [] then [(pickLauncher (linFiles g) installdir ''linux'', ''linux'')] else []) @
     (if winFiles g \<noteq> [] then [(pickLauncher (winFiles g) installdir ''windows'', ''windows'')] else []) @
     (if macFiles g \<noteq> [] then [(pickLauncher (macFiles g) installdir ''macos'', ''macos'')] else [])"

text \<open>The body and the number of depots added.\<close>

definition synthesizeDepotsFromStore ::
  "stored_depot list \<Rightarrow> (bytes \<times> ynode) list \<Rightarrow> ((bytes \<times> ynode) list \<times> nat) outcome" where
  "synthesizeDepotsFromStore stored b =
     and_then (gather stored gather_init) (\<lambda>g.
       (let (b1, n) = injectSynthesizedDepots b (gDepots g) in
        if n = 0 then Returns (b1, 0)
        else
          and_then (returning (ensureInstallDir b1)) (\<lambda>(b2, _).
          and_then (returning (read_in b2 ''config'' ''installdir'')) (\<lambda>(b3, d).
            (let installdir = (case d of Some (YScalar s) \<Rightarrow> bytes_str s | _ \<Rightarrow> []) in
             and_then (returning (ensureLaunchEntries b3 (launchers g installdir))) (\<lambda>(b4, _).
             Returns (b4, n)))))))"

section \<open>Rendering\<close>

definition neutralizeLegacyCdKey :: "(bytes \<times> ynode) list \<Rightarrow> (bytes \<times> ynode) list" where
  "neutralizeLegacyCdKey b =
     (case yget b (ykey ''extended'') of
        Some (YMap e) \<Rightarrow>
          (case yget e (ykey ''hadthirdpartycdkey'') of
             Some (YScalar cur) \<Rightarrow>
               if cur = ykey ''0'' then b
               else yset b (ykey ''extended'') (YMap (yset e (ykey ''hadthirdpartycdkey'') (YScalar (ykey ''0''))))
           | _ \<Rightarrow> b)
      | _ \<Rightarrow> b)"

definition isDlcApp :: "(bytes \<times> ynode) list \<Rightarrow> bool" where
  "isDlcApp b =
     (case yget b (ykey ''common'') of
        Some (YMap c) \<Rightarrow>
          (case yget c (ykey ''type'') of
             Some (YScalar v) \<Rightarrow> lowered (bytes_str v) = ''dlc''
           | _ \<Rightarrow> False)
      | _ \<Rightarrow> False)"

text \<open>The document without the envelope fields.\<close>

fun strip_envelope :: "(bytes \<times> ynode) list \<Rightarrow> (bytes \<times> ynode) list \<Rightarrow> (bytes \<times> ynode) list" where
  "strip_envelope [] body = body"
| "strip_envelope ((k, v) # es) body =
     (if k \<noteq> [] \<and> hd k = 95 then strip_envelope es body else strip_envelope es (yset body k v))"

text \<open>The result, the text when it is a success, whether depots were synthesized, and whether the app was
  marked for Proton: first from the pruning on.\<close>

type_synonym rendered = "source_result \<times> bytes \<times> bool \<times> bool"

definition finish_render :: "(u32 \<Rightarrow> bool) \<Rightarrow> bool \<Rightarrow> bool \<Rightarrow> (bytes \<times> ynode) list \<Rightarrow> rendered outcome" where
  "finish_render has_key hadConcreteContent synthesized b =
     and_then (returning (pruneUnsupportedDepots has_key (YMap b))) (\<lambda>(pruned, proton).
       (let contentResult = classifyDlcContentResult hadConcreteContent (hasUsableContentDepot pruned)
              (isDlcApp (map_of_node pruned))
        in if contentResult \<noteq> SrcSuccess then Returns (contentResult, [], synthesized, proton)
           else Returns (SrcSuccess, wireOut (YMap (neutralizeLegacyCdKey (map_of_node pruned))), synthesized, proton)))"

definition renderAppinfoBuffer :: "(u32 \<Rightarrow> bool) \<Rightarrow> stored_depot list \<Rightarrow> ynode \<Rightarrow> rendered outcome" where
  "renderAppinfoBuffer has_key stored appNode =
     (case appNode of
        YMap doc \<Rightarrow>
          (let body = strip_envelope doc [] in
           if body = [] then Returns (SrcInvalidResponse, [], False, False)
           else
             and_then
               (if nonempty_map (yget body (ykey ''depots''))
                then Returns (body, 0) else synthesizeDepotsFromStore stored body) (\<lambda>(b1, n).
             finish_render has_key
               (hasUsableContentDepot (YMap (if n > 0 then b1 else body))) (n > 0) b1))
      | _ \<Rightarrow> Returns (SrcInvalidResponse, [], False, False))"

text \<open>From a connection-manager buffer to the text to persist.\<close>

definition provisionAppFromCmBuffer ::
  "(u32 \<Rightarrow> bool) \<Rightarrow> stored_depot list \<Rightarrow> bytes \<Rightarrow> rendered outcome" where
  "provisionAppFromCmBuffer has_key stored cmWire =
     (if cmWire = [] then Returns (SrcInvalidResponse, [], False, False)
      else case parseAppinfo cmWire of
        Some (YMap doc) \<Rightarrow>
          if doc = [] then Returns (SrcInvalidResponse, [], False, False)
          else
            and_then (renderAppinfoBuffer has_key stored (YMap doc)) (\<lambda>(r, wire, synthesized, proton).
              if r \<noteq> SrcSuccess then Returns (r, wire, synthesized, proton)
              else if \<not> contains_sub (ykey ([CHR 0x22] @ ''depots'' @ [CHR 0x22])) wire
              then Returns (SrcIncompleteContent, [], synthesized, proton)
              else Returns (SrcSuccess, wire, synthesized, proton))
      | _ \<Rightarrow> Returns (SrcInvalidResponse, [], False, False))"

section \<open>Numbers that are printed and read\<close>

lemma digit_of_digit: "d < 10 \<Longrightarrow> digit_of 10 (digit_char d) = Some d"
  by (simp add: digit_of_def)

lemma number_value_snoc: "number_value base (s @ [c]) = base * number_value base s + the (digit_of base c)"
  by (simp add: number_value_def)

lemma number_value_to_dec: "number_value 10 (to_dec n) = n"
proof (induction n rule: to_dec.induct)
  case (1 n)
  show ?case
  proof (cases "n < 10")
    case True
    then show ?thesis by (subst to_dec.simps) (simp add: number_value_def digit_of_digit)
  next
    case False
    then show ?thesis using 1 by (subst to_dec.simps) (simp add: number_value_snoc digit_of_digit)
  qed
qed

lemma digit_10: "is_digit c \<longleftrightarrow> digit_of 10 c \<noteq> None"
  by (auto simp: is_digit_def digit_of_def Let_def)

lemma to_dec_head: "0 < n \<Longrightarrow> hd (to_dec n) \<noteq> CHR ''0''"
proof (induction n rule: to_dec.induct)
  case (1 n)
  show ?case
  proof (cases "n < 10")
    case True
    have "char_code (digit_char n) \<noteq> char_code (CHR ''0'')" using True 1(2) by (simp add: char_code_def [of "CHR ''0''"])
    then have "digit_char n \<noteq> CHR ''0''" by metis
    then show ?thesis using True by (subst to_dec.simps) simp
  next
    case False
    have "hd (to_dec n) = hd (to_dec (n div 10))" using False by (subst to_dec.simps) simp
    moreover have "0 < n div 10" using False by simp
    ultimately show ?thesis using 1(1) [OF False] by simp
  qed
qed

text \<open>A printed number is read back, whatever follows it in the tree.\<close>

lemma stream_to_dec: "0 < n \<Longrightarrow> n \<le> lim \<Longrightarrow> stream_unsigned lim (ykey (to_dec n)) = Some n"
proof -
  assume n: "0 < n" "n \<le> lim"
  obtain c cs where c: "to_dec n = c # cs" by (cases "to_dec n") auto
  have d: "list_all (\<lambda>c. digit_of 10 c \<noteq> None) (to_dec n)"
    using all_digits_to_dec [of n] unfolding list_all_iff digit_10 .
  have "is_digit c" using digits_to_dec [of c n] c by simp
  then have "c \<noteq> CHR ''-''" "c \<noteq> CHR ''+''" by (auto simp: is_digit_def char_code_def)
  moreover have "c \<noteq> CHR ''0''" using to_dec_head [OF n(1)] c by simp
  ultimately have base: "number_base (if hd (to_dec n) = CHR ''+'' then tl (to_dec n) else to_dec n) = (10, to_dec n)"
    "hd (to_dec n) \<noteq> CHR ''-''"
    by (simp_all add: c number_base_def)
  have "lim < n \<longleftrightarrow> False" "to_dec n = [] \<longleftrightarrow> False" using n(2) by simp_all
  then show ?thesis
    unfolding stream_unsigned_def Let_def bytes_str_bytes base(1) prod.case takeWhile_all_eq [OF d] dropWhile_all_eq [OF d]
      number_value_to_dec
    using base(2) by simp
qed

section \<open>Synthesized depots are usable\<close>

lemma unat_u64: "unat (g :: u64) \<le> u64_max"
  using unsigned_less [where ?'b = 64 and ?'a = nat, of g] by (simp add: u64_max_def)

lemma numeric_to_dec: "numeric_key (ykey (to_dec n))"
  by (simp add: numeric_key_def)

lemma synth_usable_entry: "sdGid d \<noteq> 0 \<Longrightarrow> usable_depot (ykey (to_dec n), synth_entry d)"
  using stream_to_dec [of "unat (sdGid d)" u64_max] unat_u64 [of "sdGid d"]
  by (auto simp: usable_depot_def numeric_to_dec synth_entry_def branch_has_gid_def number_node_def unat_gt_0)

lemma list_all_yset: "list_all P m \<Longrightarrow> P (k, v) \<Longrightarrow> list_all P (yset m k v)"
  by (induction m k v rule: yset.induct) (auto split: if_splits)

lemma synth_loop_result:
  assumes "synth_loop ds nd n = (nd', n')" "list_all usable_depot nd"
  shows "list_all usable_depot nd' \<and> n' = n + length (filter (\<lambda>d. sdGid d \<noteq> 0) ds) \<and>
    (\<forall>d \<in> set ds. sdGid d \<noteq> 0 \<longrightarrow> yget nd' (ykey (to_dec (unat (sdDepotId d)))) \<noteq> None) \<and>
    (\<forall>k. yget nd k \<noteq> None \<longrightarrow> yget nd' k \<noteq> None)"
  using assms
proof (induction ds nd n rule: synth_loop.induct)
  case (2 d ds nd added)
  show ?case
  proof (cases "sdGid d = 0")
    case True
    then show ?thesis using 2 by simp
  next
    case False
    let ?nd = "yset nd (ykey (to_dec (unat (sdDepotId d)))) (synth_entry d)"
    have "list_all usable_depot ?nd" using 2(4) synth_usable_entry [OF False] by (rule list_all_yset)
    then show ?thesis using 2(2) [OF False] 2(3) False by auto
  qed
qed simp

text \<open>A synthesis that adds depots makes the app usable and gives an entry to every depot with an archived
  manifest; it never touches an app that has depots, nor anything else.\<close>

theorem synth_exact:
  assumes "injectSynthesizedDepots b depots = (b', n)"
  shows "if nonempty_map (yget b (ykey ''depots'')) then b' = b \<and> n = 0
    else n = length (filter (\<lambda>d. sdGid d \<noteq> 0) depots) \<and>
      (n > 0 \<longrightarrow> hasUsableContentDepot (YMap b') \<and>
        (\<exists>ds. yget b' (ykey ''depots'') = Some (YMap ds) \<and> list_all usable_depot ds \<and>
          (\<forall>d \<in> set depots. sdGid d \<noteq> 0 \<longrightarrow> yget ds (ykey (to_dec (unat (sdDepotId d)))) \<noteq> None))) \<and>
      (\<forall>k. k \<noteq> ykey ''depots'' \<longrightarrow> yget b' k = yget b k)"
proof (cases "nonempty_map (yget b (ykey ''depots''))")
  case True
  then show ?thesis using assms by (simp add: injectSynthesizedDepots_def)
next
  case False
  obtain nd m where l: "synth_loop depots [] 0 = (nd, m)" by fastforce
  note r = synth_loop_result [OF l]
  have eq: "b' = (if m > 0 then yset b (ykey ''depots'') (YMap nd) else b)" "n = m"
    using assms False l by (simp_all add: injectSynthesizedDepots_def split: if_splits)
  have "list_ex usable_depot nd" if "m > 0"
  proof -
    have "filter (\<lambda>d. sdGid d \<noteq> 0) depots \<noteq> []" using r that by auto
    then obtain d where "d \<in> set depots" "sdGid d \<noteq> 0" by (auto simp: filter_empty_conv)
    then have "yget nd (ykey (to_dec (unat (sdDepotId d)))) \<noteq> None" using r by simp
    then show ?thesis using r by (cases nd) auto
  qed
  then show ?thesis using r eq False by (auto simp: usable_after)
qed

section \<open>Trees of maps and scalars stay such\<close>

fun plain_node :: "ynode \<Rightarrow> bool" where
  "plain_node (YScalar s) = True"
| "plain_node (YMap m) = plain_map m"
| "plain_node _ = False"

lemma plain_set: "plain_map b \<Longrightarrow> plain_node v \<Longrightarrow> plain_map (yset b k v)"
  by (cases v) (simp_all add: plain_yset)

lemma plain_get: "plain_map b \<Longrightarrow> yget b k = Some v \<Longrightarrow> plain_node v"
  using plain_kinds [of b k v] plain_child [of b k] by auto

lemma plain_mutable: "plain_node v \<Longrightarrow> mutable_map v = Some m \<Longrightarrow> v = YMap m \<and> plain_map m"
  by (cases v) auto

lemma plain_Cons: "plain_map ((k, v) # m) \<Longrightarrow> plain_node v \<and> plain_map m"
  by (cases v) auto

lemma plain_strip: "plain_map doc \<Longrightarrow> plain_map body \<Longrightarrow> plain_map (strip_envelope doc body)"
  by (induction doc body rule: strip_envelope.induct) (auto dest: plain_Cons intro: plain_set)

lemma plain_synth_entry: "plain_node (synth_entry d)"
  by (simp add: synth_entry_def number_node_def)

lemma plain_synth_loop: "synth_loop ds nd n = (nd', n') \<Longrightarrow> plain_map nd \<Longrightarrow> plain_map nd'"
  by (induction ds nd n rule: synth_loop.induct) (auto intro: plain_set plain_synth_entry split: if_splits)

lemma plain_inject: "injectSynthesizedDepots b ds = (b', n) \<Longrightarrow> plain_map b \<Longrightarrow> plain_map b'"
  using plain_synth_loop [of ds "[]" 0]
  by (auto simp: injectSynthesizedDepots_def split: if_splits prod.splits intro!: plain_set)

lemma plain_set_in:
  assumes "set_in b k k2 v = Some b'" "plain_map b" "plain_node v"
  shows "plain_map b'"
proof (cases "yget b (ykey k)")
  case None
  then show ?thesis using assms by (auto simp: set_in_def intro!: plain_set) (cases v; simp)
next
  case (Some c)
  then obtain m where "mutable_map c = Some m" "b' = yset b (ykey k) (YMap (yset m (ykey k2) v))"
    using assms(1) by (auto simp: set_in_def)
  then show ?thesis using plain_mutable [OF plain_get [OF assms(2) Some]] assms by (auto intro!: plain_set)
qed

lemma plain_set_in2:
  assumes "set_in2 b k k2 k3 v = Some b'" "plain_map b" "plain_node v"
  shows "plain_map b'"
proof (cases "yget b (ykey k)")
  case None
  then show ?thesis using assms by (auto simp: set_in2_def intro!: plain_set) (cases v; simp)
next
  case c: (Some c)
  then obtain m where m: "mutable_map c = Some m" using assms(1) by (auto simp: set_in2_def split: option.splits)
  have pm: "plain_map m" using plain_mutable [OF plain_get [OF assms(2) c] m] by simp
  have pv: "plain_map [(k3, v)]" using assms(3) by (cases v) simp_all
  show ?thesis
  proof (cases "yget m (ykey k2)")
    case None
    then show ?thesis using assms(1,2) c m pm pv by (auto simp: set_in2_def intro!: plain_set)
  next
    case d: (Some d)
    then obtain e where e: "mutable_map d = Some e" using assms(1) c m by (auto simp: set_in2_def)
    have "plain_map e" using plain_mutable [OF plain_get [OF pm d] e] by simp
    then show ?thesis using assms c m pm d e by (auto simp: set_in2_def intro!: plain_set)
  qed
qed

lemma plain_read_in: "read_in b k k2 = Some (b', d) \<Longrightarrow> plain_map b \<Longrightarrow> b' = b"
  using plain_get [of b "ykey k"]
  by (auto simp: read_in_def split: option.splits dest!: plain_mutable intro!: yset_same)

lemma plain_launch_entry: "plain_node (launch_entry x os desc)"
  by (simp add: launch_entry_def)

lemma plain_launch_loop: "launch_loop es desc b n = Some (b', m) \<Longrightarrow> plain_map b \<Longrightarrow> plain_map b'"
  by (induction es desc b n arbitrary: b' m rule: launch_loop.induct)
    (auto split: if_splits option.splits dest: plain_set_in2 [OF _ _ plain_launch_entry])

lemma plain_ensure_launch: "ensureLaunchEntries b es = Some (b', n) \<Longrightarrow> plain_map b \<Longrightarrow> plain_map b'"
  by (auto simp: ensureLaunchEntries_def split: if_splits option.splits prod.splits
      dest!: plain_read_in plain_launch_loop)

lemma plain_install_dir: "ensureInstallDir b = Some (b', t) \<Longrightarrow> plain_map b \<Longrightarrow> plain_map b'"
  by (auto simp: ensureInstallDir_def Let_def split: if_splits option.splits ynode.splits dest: plain_set_in)

lemma returning_iff: "returning r = Returns x \<longleftrightarrow> r = Some x"
  by (auto simp: returning_def split: option.splits)

lemma plain_synthesize:
  assumes "synthesizeDepotsFromStore stored b = Returns (b', n)" "plain_map b"
  shows "plain_map b'"
proof -
  obtain g where rest: "(let (b1, n) = injectSynthesizedDepots b (gDepots g) in
        if n = 0 then Returns (b1, 0)
        else and_then (returning (ensureInstallDir b1)) (\<lambda>(b2, _).
          and_then (returning (read_in b2 ''config'' ''installdir'')) (\<lambda>(b3, d).
            (let installdir = (case d of Some (YScalar s) \<Rightarrow> bytes_str s | _ \<Rightarrow> []) in
             and_then (returning (ensureLaunchEntries b3 (launchers g installdir))) (\<lambda>(b4, _).
             Returns (b4, n)))))) = Returns (b', n)"
    using assms(1) unfolding synthesizeDepotsFromStore_def and_then_Returns by blast
  obtain b1 m where b1: "injectSynthesizedDepots b (gDepots g) = (b1, m)" by fastforce
  have p1: "plain_map b1" by (rule plain_inject [OF b1 assms(2)])
  show ?thesis
  proof (cases "m = 0")
    case True
    then show ?thesis using rest b1 p1 by simp
  next
    case False
    then obtain b2 t b3 d b4 k dir where "ensureInstallDir b1 = Some (b2, t)"
      "read_in b2 ''config'' ''installdir'' = Some (b3, d)"
      "ensureLaunchEntries b3 (launchers g dir) = Some (b4, k)" "b' = b4"
      using rest b1 by (auto simp: and_then_Returns returning_iff Let_def)
    then show ?thesis using p1 plain_install_dir plain_read_in plain_ensure_launch by metis
  qed
qed

lemma plain_neutralize: "plain_map b \<Longrightarrow> plain_map (neutralizeLegacyCdKey b)"
  by (auto simp: neutralizeLegacyCdKey_def split: option.splits ynode.splits intro!: plain_set dest: plain_child)

section \<open>What is cached\<close>

definition legacy_key_off :: "(bytes \<times> ynode) list \<Rightarrow> bool" where
  "legacy_key_off b =
     (case yget b (ykey ''extended'') of
        Some (YMap e) \<Rightarrow> (case yget e (ykey ''hadthirdpartycdkey'') of Some (YScalar c) \<Rightarrow> c = ykey ''0'' | _ \<Rightarrow> True)
      | _ \<Rightarrow> True)"

lemma neutralized: "legacy_key_off (neutralizeLegacyCdKey b)"
  by (auto simp: legacy_key_off_def neutralizeLegacyCdKey_def split: option.splits ynode.splits if_splits)

lemma neutralize_keeps: "k \<noteq> ykey ''extended'' \<Longrightarrow> yget (neutralizeLegacyCdKey b) k = yget b k"
  by (auto simp: neutralizeLegacyCdKey_def split: option.splits ynode.splits if_splits)

lemma plain_prune:
  assumes "pruneUnsupportedDepots has_key (YMap b) = Some (body', proton)" "plain_map b"
    and "yget b (ykey ''depots'') = Some (YMap ds)"
  shows "\<exists>b'. body' = YMap b' \<and> plain_map b' \<and> yget b' (ykey ''depots'') = Some (YMap (filter (survives has_key) ds))"
proof -
  have pds: "plain_map ds" by (rule plain_child [OF assms(2,3)])
  obtain st b2 where "prune_loop has_key ds prune_init = Some st"
    and b2: "b2 = narrow_dlc_list (contentDlcAppIds st - usableDlcAppIds st) (fst (common_oslist b))"
    and body: "body' = YMap (yset b2 (ykey ''depots'') (YMap (filter (survives has_key) ds)))"
    and "proton = requiresProtonMapping (keptContent st) (survivingOs st) (snd (common_oslist b))"
    by (rule prune_parts [OF assms(1,3) plain_distinct [OF pds]])
  have "plain_map b2" using b2 assms(2) by (simp add: plain_common plain_narrow)
  then show ?thesis unfolding body using plain_filter [OF pds] by (auto intro!: plain_set)
qed

lemma render_success:
  assumes "renderAppinfoBuffer has_key stored (YMap doc) = Returns (SrcSuccess, wire, syn, proton)" "plain_map doc"
  shows "\<exists>b ds. wire = wireOut (YMap b) \<and> plain_map b \<and> yget b (ykey ''depots'') = Some (YMap ds) \<and>
    list_all (safe_depot has_key) ds \<and> list_ex usable_depot ds \<and> legacy_key_off b"
proof -
  let ?body = "strip_envelope doc []"
  have body: "plain_map ?body" "?body \<noteq> []"
    using assms plain_strip [of doc "[]"] by (auto simp: renderAppinfoBuffer_def Let_def split: if_splits)
  obtain b1 n where syn: "(if nonempty_map (yget ?body (ykey ''depots'')) then Returns (?body, 0)
        else synthesizeDepotsFromStore stored ?body) = Returns (b1, n)"
    and rest: "finish_render has_key (hasUsableContentDepot (YMap (if n > 0 then b1 else ?body))) (n > 0) b1
      = Returns (SrcSuccess, wire, syn, proton)"
    using assms(1) body(2) by (auto simp: renderAppinfoBuffer_def Let_def and_then_Returns)
  have p1: "plain_map b1" using syn body(1) plain_synthesize by (auto split: if_splits)
  obtain pruned pr where pr: "pruneUnsupportedDepots has_key (YMap b1) = Some (pruned, pr)"
    using rest by (auto simp: finish_render_def and_then_Returns returning_iff)
  then have usable: "hasUsableContentDepot pruned"
    and wire: "wire = wireOut (YMap (neutralizeLegacyCdKey (map_of_node pruned)))"
    using rest by (auto simp: finish_render_def and_then_Returns returning_iff Let_def classifyDlcContentResult_def
        classifyContentResult_def split: if_splits)
  have "\<exists>ds. yget b1 (ykey ''depots'') = Some (YMap ds)"
  proof (rule ccontr)
    assume no: "\<nexists>ds. yget b1 (ykey ''depots'') = Some (YMap ds)"
    then have "pruned = YMap b1" using pr by (auto simp: pruneUnsupportedDepots_def split: option.splits ynode.splits)
    then show False using usable no by (auto simp: hasUsableContentDepot_def split: option.splits ynode.splits)
  qed
  then obtain ds where ds: "yget b1 (ykey ''depots'') = Some (YMap ds)" by blast
  obtain b' where b': "pruned = YMap b'" "plain_map b'" "yget b' (ykey ''depots'') = Some (YMap (filter (survives has_key) ds))"
    using plain_prune [OF pr p1 ds] by blast
  have "list_ex usable_depot (filter (survives has_key) ds)" using usable b' by (simp add: hasUsableContentDepot_def)
  moreover have "list_all (safe_depot has_key) (filter (survives has_key) ds)" by (auto simp: list_all_iff survives_safe)
  ultimately show ?thesis using wire b' plain_neutralize neutralized
    by (intro exI [of _ "neutralizeLegacyCdKey b'"] exI [of _ "filter (survives has_key) ds"])
      (simp add: map_of_node_def neutralize_keeps)
qed

lemma provision_success:
  assumes "provisionAppFromCmBuffer has_key stored p = Returns (SrcSuccess, wire, syn, proton)"
  shows "\<exists>b ds. wire = wireOut (YMap b) \<and> plain_map b \<and> yget b (ykey ''depots'') = Some (YMap ds) \<and>
    list_all (safe_depot has_key) ds \<and> list_ex usable_depot ds \<and> legacy_key_off b"
proof -
  obtain doc where doc: "parseAppinfo p = Some (YMap doc)"
    "renderAppinfoBuffer has_key stored (YMap doc) = Returns (SrcSuccess, wire, syn, proton)"
    using assms by (auto simp: provisionAppFromCmBuffer_def and_then_Returns split: option.splits ynode.splits if_splits)
  have "plain_map doc" using parseAppinfo_plain [OF doc(1)] by simp
  then show ?thesis by (rule render_success [OF doc(2)])
qed

text \<open>C2: Whatever text a connection manager sends and whatever the stores hold: a document that is cached is
  read back as it was written, has a usable depot, has only content depots with a key and with
  content, and does not ask for the legacy key.\<close>

theorem cached_document_safe:
  assumes "provisionAppFromCmBuffer has_key stored p = Returns (SrcSuccess, wire, syn, proton)"
  shows "\<exists>b ds. parseAppinfo wire = Some (YMap b) \<and> wire = wireOut (YMap b) \<and>
    yget b (ykey ''depots'') = Some (YMap ds) \<and> list_all (safe_depot has_key) ds \<and> list_ex usable_depot ds \<and>
    legacy_key_off b"
proof -
  obtain b ds where b: "wire = wireOut (YMap b)" "plain_map b" "yget b (ykey ''depots'') = Some (YMap ds)"
    "list_all (safe_depot has_key) ds" "list_ex usable_depot ds" "legacy_key_off b"
    using provision_success [OF assms] by blast
  have "parseAppinfo wire = Some (YMap b)" using b(1,2) by (simp add: reread_wireOut plain_reread)
  then show ?thesis using b by blast
qed

text \<open>The text of a document with depots names them, so the last test of the text never fails.\<close>

lemma emitMap_key: "k \<in> fst ` set m \<Longrightarrow> \<exists>a c. emitMap m d = a @ emitEscaped k @ c"
proof (induction m)
  case (Cons e m)
  obtain k' v where e: "e = (k', v)" by fastforce
  have split: "\<exists>c. emitMap (e # m) d = tabs d @ emitEscaped k' @ c \<and> (\<exists>c'. c = c' @ emitMap m d)"
    unfolding e by (cases v) (auto simp del: append_assoc simp: append_assoc [symmetric])
  then obtain c c' where c: "emitMap (e # m) d = tabs d @ emitEscaped k' @ c" "c = c' @ emitMap m d" by blast
  show ?case
  proof (cases "k = k'")
    case True
    then show ?thesis using c by blast
  next
    case False
    then obtain a r where "emitMap m d = a @ emitEscaped k @ r" using Cons e by auto
    then show ?thesis using c by (intro exI [of _ "tabs d @ emitEscaped k' @ c' @ a"] exI [of _ r]) simp
  qed
qed simp

lemma contains_sub_middle: "contains_sub p (a @ p @ b)"
proof -
  have "starts_with p (drop (length a) (a @ p @ b))" by (simp add: starts_with_def)
  then show ?thesis unfolding contains_sub_def using find_at_None [of p "a @ p @ b" "length a"] by auto
qed

lemma wire_names_depots:
  assumes "yget b (ykey ''depots'') \<noteq> None"
  shows "contains_sub (ykey ([CHR 0x22] @ ''depots'' @ [CHR 0x22])) (wireOut (YMap b))"
proof -
  have key: "emitEscaped (ykey ''depots'') = ykey ([CHR 0x22] @ ''depots'' @ [CHR 0x22])"
    by (simp add: emitEscaped_def escape_byte_def str_bytes_def char_code_def)
  have "ykey ''depots'' \<in> fst ` set b" using assms by (metis yget_None)
  then obtain a c where m: "emitMap b 1 = a @ emitEscaped (ykey ''depots'') @ c" using emitMap_key by blast
  have "wireOut (YMap b) = (emitEscaped appinfo_key @ [10, 123, 10] @ a) @ emitEscaped (ykey ''depots'') @ c @ [125, 10]"
    unfolding wireOut_shape m by simp
  then show ?thesis unfolding key by (metis contains_sub_middle)
qed

section \<open>A manifest that stops provisioning\<close>

text \<open>With the manifest on which the size reader loops as the archived manifest of its depot, provisioning an
  app whose document has no depots does not return.\<close>

theorem provisioning_hangs:
  assumes "parseAppinfo p = Some (YMap doc)" "strip_envelope doc [] \<noteq> []"
    and "\<not> nonempty_map (yget (strip_envelope doc []) (ykey ''depots''))" "gid \<noteq> 0"
  shows "provisionAppFromCmBuffer has_key [(depotId, gid, Some looping_manifest)] p = Loops"
proof -
  have "doc \<noteq> []" using assms(2) by auto
  moreover have "p \<noteq> []" using assms(1) by (auto simp: parseAppinfo_def next_tok_def skipWs.simps)
  moreover have "gather [(depotId, gid, Some looping_manifest)] gather_init = Loops"
    using assms(4) by (simp add: gather_depot_def looping_names looping_sizes Let_def)
  ultimately show ?thesis using assms
    by (simp add: provisionAppFromCmBuffer_def renderAppinfoBuffer_def Let_def synthesizeDepotsFromStore_def)
qed

section \<open>Instances\<close>

definition denied_doc :: "(bytes \<times> ynode) list" where
  "denied_doc = [(ykey ''common'', YMap [(ykey ''name'', YScalar (ykey ''Game''))])]"

lemma denied_read: "parseAppinfo (wireOut (YMap denied_doc)) = Some (YMap denied_doc)"
  by (simp add: reread_wireOut plain_reread denied_doc_def)

lemma denied_body: "strip_envelope denied_doc [] = denied_doc"
  by (simp add: denied_doc_def str_bytes_def char_code_def)

lemma denied_depots: "\<not> nonempty_map (yget denied_doc (ykey ''depots''))"
  by (simp add: denied_doc_def nonempty_map_def)

lemma provisioning_hangs_witness:
  "provisionAppFromCmBuffer (\<lambda>i. True) [(441, 7, Some looping_manifest)] (wireOut (YMap denied_doc)) = Loops"
proof (rule provisioning_hangs [OF denied_read])
  show "strip_envelope denied_doc [] \<noteq> []" unfolding denied_body by (simp add: denied_doc_def)
  show "\<not> nonempty_map (yget (strip_envelope denied_doc []) (ykey ''depots''))"
    unfolding denied_body by (rule denied_depots)
qed simp

definition sample_synth :: synth_depot where
  "sample_synth = \<lparr>sdDepotId = 441, sdGid = 77, sdOslist = ''windows'', sdSize = 9, sdDownload = 0\<rparr>"

lemma synth_exact_witness:
  "hasUsableContentDepot (YMap (fst (injectSynthesizedDepots denied_doc [sample_synth])))"
proof -
  obtain b n where i: "injectSynthesizedDepots denied_doc [sample_synth] = (b, n)" by fastforce
  then show ?thesis using synth_exact [OF i] denied_depots by (simp add: sample_synth_def)
qed

lemma sample_usable: "hasUsableContentDepot (YMap sample_pruned)"
proof -
  have "stream_unsigned u64_max (ykey ''77'') = Some 77"
    by (simp add: stream_unsigned_def number_base_def digit_of_def number_value_def char_code_def u64_max_def Let_def)
  moreover have "numeric_key (ykey ''441'')" by (simp add: numeric_key_def is_digit_def char_code_def)
  ultimately show ?thesis
    by (simp add: hasUsableContentDepot_def sample_pruned_def usable_depot_def sample_depot_def sample_branch_def branch_has_gid_def)
qed

lemma cached_sample:
  "provisionAppFromCmBuffer sample_keys [] (wireOut (YMap sample_body)) =
     Returns (SrcSuccess, wireOut (YMap (neutralizeLegacyCdKey sample_pruned)), False, True)"
proof -
  have read: "parseAppinfo (wireOut (YMap sample_body)) = Some (YMap sample_body)"
    using sample_plain(1) by (simp add: reread_wireOut plain_reread)
  have strip: "strip_envelope sample_body [] = sample_body"
    by (simp add: sample_body_def str_bytes_def char_code_def)
  have ne: "sample_body \<noteq> []" "wireOut (YMap sample_body) \<noteq> []" by (simp_all add: sample_body_def wireOut_def)
  have depots: "nonempty_map (yget sample_body (ykey ''depots''))"
    using sample_parts(1) by (simp add: nonempty_map_def sample_depots_def)
  have named: "yget (neutralizeLegacyCdKey sample_pruned) (ykey ''depots'') \<noteq> None"
    by (simp add: neutralize_keeps) (simp add: sample_pruned_def)
  have "finish_render sample_keys had syn sample_body =
      Returns (SrcSuccess, wireOut (YMap (neutralizeLegacyCdKey sample_pruned)), syn, True)" for had syn
    by (simp add: finish_render_def sample_prune returning_def sample_usable Let_def map_of_node_def
        classifyDlcContentResult_def classifyContentResult_def)
  then show ?thesis using wire_names_depots [OF named]
    by (simp add: provisionAppFromCmBuffer_def renderAppinfoBuffer_def read ne strip depots Let_def)
qed

lemma cached_document_safe_witness:
  "\<exists>b. parseAppinfo (wireOut (YMap (neutralizeLegacyCdKey sample_pruned))) = Some (YMap b) \<and> legacy_key_off b"
  using cached_document_safe [OF cached_sample] by blast

end
