(* ===== verification/WireWalk.thy ===== *)
theory WireWalk
  imports ManifestBytes
begin

text \<open>
  Walking over the top-level fields of a protobuf message, as the rewriters of the parental settings
  and of the player statistics do: where a field lies, the pieces a message consists of, and the
  contract a reader of one field keeps, from which it follows that messages can be cut at their
  fields and put together again.
\<close>

section \<open>Fields and pieces\<close>

record wire_field =
  wf_number :: u32
  wf_type :: u8
  wf_start :: nat
  wf_end :: nat
  wf_valueOff :: nat
  wf_valueLen :: nat

text \<open>\<open>data[start, end)\<close>.\<close>

definition range_of :: "bytes \<Rightarrow> nat \<Rightarrow> nat \<Rightarrow> bytes" where
  "range_of data a b = take (b - a) (drop a data)"

text \<open>The reference reading of a message: what stands at its head, then the rest.\<close>

record piece =
  pc_number :: u32
  pc_type :: u8
  pc_value :: bytes
  pc_bytes :: bytes

definition piece_of :: "bytes \<Rightarrow> wire_field \<Rightarrow> piece" where
  "piece_of data f = \<lparr>pc_number = wf_number f, pc_type = wf_type f,
     pc_value = range_of data (wf_valueOff f) (wf_valueOff f + wf_valueLen f),
     pc_bytes = range_of data (wf_start f) (wf_end f)\<rparr>"

text \<open>All pieces, \<open>None\<close> when a field cannot be read; and the pieces in front of such a field.\<close>

function pieces_with :: "(bytes \<Rightarrow> nat \<Rightarrow> wire_field option) \<Rightarrow> bytes \<Rightarrow> piece list option" where
  "pieces_with fld data =
     (if data = [] then Some []
      else (case fld data 0 of
              None \<Rightarrow> None
            | Some f \<Rightarrow>
                if wf_end f = 0 then None
                else map_option ((#) (piece_of data f)) (pieces_with fld (drop (wf_end f) data))))"
  by pat_completeness auto
termination by (relation "measure (\<lambda>(fld, d). length d)") auto

declare pieces_with.simps [simp del]

function prefix_with :: "(bytes \<Rightarrow> nat \<Rightarrow> wire_field option) \<Rightarrow> bytes \<Rightarrow> piece list" where
  "prefix_with fld data =
     (if data = [] then []
      else (case fld data 0 of
              None \<Rightarrow> []
            | Some f \<Rightarrow>
                if wf_end f = 0 then []
                else piece_of data f # prefix_with fld (drop (wf_end f) data)))"
  by pat_completeness auto
termination by (relation "measure (\<lambda>(fld, d). length d)") auto

declare prefix_with.simps [simp del]

abbreviation message_of :: "piece list \<Rightarrow> bytes" where
  "message_of ps \<equiv> concat (map pc_bytes ps)"

definition rebase :: "nat \<Rightarrow> wire_field \<Rightarrow> wire_field" where
  "rebase k f = f\<lparr>wf_start := k + wf_start f, wf_end := k + wf_end f, wf_valueOff := k + wf_valueOff f\<rparr>"


text \<open>The loop over the fields, with the state of its callback; it stops at a field it cannot read.\<close>

function walk_with ::
  "(bytes \<Rightarrow> nat \<Rightarrow> wire_field option) \<Rightarrow> (wire_field \<Rightarrow> 's \<Rightarrow> 's) \<Rightarrow> bytes \<Rightarrow> nat \<Rightarrow> 's \<Rightarrow> bool \<times> 's" where
  "walk_with fld fn data pos st =
     (if pos < length data then
        (case fld data pos of
           None \<Rightarrow> (False, st)
         | Some f \<Rightarrow> if wf_end f \<le> pos then (False, st) else walk_with fld fn data (wf_end f) (fn f st))
      else (True, st))"
  by pat_completeness auto
termination by (relation "measure (\<lambda>(fld, fn, d, p, st). length d - p)") auto

declare walk_with.simps [simp del]

lemma pieces_with_Nil [simp]: "pieces_with fld [] = Some []"
  by (subst pieces_with.simps) simp

lemma prefix_with_Nil [simp]: "prefix_with fld [] = []"
  by (subst prefix_with.simps) simp

lemma piece_of_rebase: "length pre = k \<Longrightarrow> piece_of (pre @ bs) (rebase k f) = piece_of bs f"
  by (simp add: piece_of_def rebase_def range_of_def)

lemma range_of_0 [simp]: "range_of data 0 n = take n data"
  by (simp add: range_of_def)

section \<open>The contract of a field reader\<close>

text \<open>A field starts where it is read and ends behind it, inside the message; reading moves with the
  bytes, and depends only on the bytes of the field.\<close>

locale wire_reader =
  fixes fld :: "bytes \<Rightarrow> nat \<Rightarrow> wire_field option"
  assumes bounds: "fld data 0 = Some f \<Longrightarrow> wf_start f = 0 \<and> 0 < wf_end f \<and> wf_end f \<le> length data \<and>
      wf_end f = wf_valueOff f + wf_valueLen f"
    and shift: "length pre = k \<Longrightarrow> fld (pre @ bs) k = map_option (rebase k) (fld bs 0)"
    and locality: "fld bs 0 = Some f \<Longrightarrow> wf_end f \<le> length cs \<Longrightarrow> take (wf_end f) cs = take (wf_end f) bs \<Longrightarrow>
      fld cs 0 = Some f"
begin

lemma piece_of_local:
  assumes "fld data 0 = Some f" "take (wf_end f) cs = take (wf_end f) data"
  shows "piece_of cs f = piece_of data f"
proof -
  have e: "wf_end f = wf_valueOff f + wf_valueLen f" "wf_start f = 0" using bounds [OF assms(1)] by simp_all
  have "take (wf_valueLen f) (drop (wf_valueOff f) cs) = take (wf_valueLen f) (drop (wf_valueOff f) data)"
    using assms(2) unfolding e(1) by (metis take_drop add.commute)
  then show ?thesis using assms(2) by (simp add: piece_of_def range_of_def e)
qed

lemma pieces_cases:
  assumes "pieces_with fld data = Some ps" "data \<noteq> []"
  obtains f qs where "fld data 0 = Some f" "0 < wf_end f" "pieces_with fld (drop (wf_end f) data) = Some qs"
    "ps = piece_of data f # qs"
  using assms by (subst (asm) pieces_with.simps) (auto split: option.splits if_splits)

lemma pieces_Cons:
  "fld data 0 = Some f \<Longrightarrow> pieces_with fld data = map_option ((#) (piece_of data f)) (pieces_with fld (drop (wf_end f) data))"
  using bounds [of data f] by (subst pieces_with.simps) auto

text \<open>A message followed by a message is a message.\<close>

lemma pieces_append:
  "pieces_with fld xs = Some ps \<Longrightarrow> pieces_with fld (xs @ ys) = map_option ((@) ps) (pieces_with fld ys)"
proof (induction xs arbitrary: ps rule: length_induct)
  case (1 xs)
  show ?case
  proof (cases "xs = []")
    case True
    with 1 show ?thesis by (cases "pieces_with fld ys") auto
  next
    case False
    obtain f qs where f: "fld xs 0 = Some f" "0 < wf_end f" and q: "pieces_with fld (drop (wf_end f) xs) = Some qs"
      and ps: "ps = piece_of xs f # qs"
      using pieces_cases [OF 1(2) False] by blast
    have e: "wf_end f \<le> length xs" using bounds [OF f(1)] by simp
    have r: "fld (xs @ ys) 0 = Some f" "piece_of (xs @ ys) f = piece_of xs f"
      using e by (auto intro!: locality [OF f(1)] piece_of_local [OF f(1)])
    have "pieces_with fld (drop (wf_end f) xs @ ys) = map_option ((@) qs) (pieces_with fld ys)"
      using 1(1) q f(2) False by auto
    then show ?thesis unfolding pieces_Cons [OF r(1)] using e r(2)
      by (cases "pieces_with fld ys") (simp_all add: ps)
  qed
qed

text \<open>The pieces are the message.\<close>

lemma message_of_pieces: "pieces_with fld data = Some ps \<Longrightarrow> message_of ps = data"
proof (induction data arbitrary: ps rule: length_induct)
  case (1 data)
  show ?case
  proof (cases "data = []")
    case True
    with 1(2) show ?thesis by simp
  next
    case False
    obtain f qs where f: "fld data 0 = Some f" "0 < wf_end f" and q: "pieces_with fld (drop (wf_end f) data) = Some qs"
      and ps: "ps = piece_of data f # qs"
      using pieces_cases [OF 1(2) False] by blast
    have "message_of qs = drop (wf_end f) data" using 1(1) q f(2) False by auto
    then show ?thesis using bounds [OF f(1)] by (simp add: ps piece_of_def)
  qed
qed

text \<open>Each piece is a message of its own.\<close>

lemma head_alone:
  assumes "fld data 0 = Some f"
  shows "pieces_with fld (pc_bytes (piece_of data f)) = Some [piece_of data f]"
proof -
  note b = bounds [OF assms]
  have p: "pc_bytes (piece_of data f) = take (wf_end f) data" using b by (simp add: piece_of_def)
  have "fld (take (wf_end f) data) 0 = Some f" using b by (intro locality [OF assms]) simp_all
  moreover have "piece_of (take (wf_end f) data) f = piece_of data f" by (intro piece_of_local [OF assms]) simp
  ultimately show ?thesis using b pieces_Cons [of "take (wf_end f) data" f] by (simp add: p)
qed

lemma piece_alone: "pieces_with fld data = Some ps \<Longrightarrow> p \<in> set ps \<Longrightarrow> pieces_with fld (pc_bytes p) = Some [p]"
proof (induction data arbitrary: ps rule: length_induct)
  case (1 data)
  show ?case
  proof (cases "data = []")
    case True
    with 1 show ?thesis by simp
  next
    case False
    obtain f qs where f: "fld data 0 = Some f" "0 < wf_end f" and q: "pieces_with fld (drop (wf_end f) data) = Some qs"
      and ps: "ps = piece_of data f # qs"
      using pieces_cases [OF 1(2) False] by blast
    show ?thesis
    proof (cases "p \<in> set qs")
      case True
      have "length (drop (wf_end f) data) < length data" using f(2) False by simp
      with 1(1) q True show ?thesis by blast
    next
      case other: False
      with 1(3) ps head_alone [OF f(1)] show ?thesis by auto
    qed
  qed
qed

lemma pieces_of_message: "\<forall>p \<in> set ps. pieces_with fld (pc_bytes p) = Some [p] \<Longrightarrow> pieces_with fld (message_of ps) = Some ps"
  by (induction ps) (simp_all add: pieces_append)

lemma kept_alone: "pieces_with fld data = Some ps \<Longrightarrow> pieces_with fld (message_of (filter P ps)) = Some (filter P ps)"
  by (intro pieces_of_message) (auto dest: piece_alone)

text \<open>What stands in front of the first unreadable field is a message.\<close>

lemma prefix_alone: "p \<in> set (prefix_with fld data) \<Longrightarrow> pieces_with fld (pc_bytes p) = Some [p]"
proof (induction data rule: length_induct)
  case (1 data)
  then obtain f where f: "fld data 0 = Some f" "0 < wf_end f" "data \<noteq> []"
    "p = piece_of data f \<or> p \<in> set (prefix_with fld (drop (wf_end f) data))"
    by (subst (asm) prefix_with.simps) (auto split: option.splits if_splits)
  from f(4) show ?case
  proof
    assume "p = piece_of data f"
    with head_alone [OF f(1)] show ?thesis by simp
  next
    assume "p \<in> set (prefix_with fld (drop (wf_end f) data))"
    moreover have "length (drop (wf_end f) data) < length data" using f(2,3) by simp
    ultimately show ?thesis using 1(1) by blast
  qed
qed

lemma pieces_of_prefix: "pieces_with fld (message_of (filter P (prefix_with fld data))) = Some (filter P (prefix_with fld data))"
  by (intro pieces_of_message) (auto dest: prefix_alone)

lemma prefix_of_pieces: "pieces_with fld data = Some ps \<Longrightarrow> prefix_with fld data = ps"
proof (induction data arbitrary: ps rule: length_induct)
  case (1 data)
  show ?case
  proof (cases "data = []")
    case True
    with 1(2) show ?thesis by simp
  next
    case False
    obtain f qs where f: "fld data 0 = Some f" "0 < wf_end f" and q: "pieces_with fld (drop (wf_end f) data) = Some qs"
      and ps: "ps = piece_of data f # qs"
      using pieces_cases [OF 1(2) False] by blast
    have "prefix_with fld (drop (wf_end f) data) = qs" using 1(1) q f(2) False by auto
    then show ?thesis using f False by (subst prefix_with.simps) (simp add: ps)
  qed
qed

text \<open>A callback that treats a field by the piece it is runs over the pieces in front of the first
  unreadable field, in order.\<close>

lemma walk_fold:
  assumes cb: "\<And>pre bs f st. fld bs 0 = Some f \<Longrightarrow> cb (pre @ bs) (rebase (length pre) f) st = step (piece_of bs f) st"
  shows "walk_with fld (cb (pre @ bs)) (pre @ bs) (length pre) st =
    (pieces_with fld bs \<noteq> None, fold step (prefix_with fld bs) st)"
proof (induction bs arbitrary: pre st rule: length_induct)
  case (1 bs)
  show ?case
  proof (cases "bs = []")
    case True
    then show ?thesis by (subst walk_with.simps) simp
  next
    case False
    show ?thesis
    proof (cases "fld bs 0")
      case None
      with False show ?thesis using shift [of pre "length pre" bs]
        by (subst walk_with.simps, subst pieces_with.simps, subst prefix_with.simps) simp
    next
      case (Some f)
      have b: "0 < wf_end f" "wf_end f \<le> length bs" using bounds [OF Some] by metis+
      let ?pre = "pre @ take (wf_end f) bs" and ?bs = "drop (wf_end f) bs"
      have l: "length ?pre = length pre + wf_end f" "?pre @ ?bs = pre @ bs" using b by simp_all
      have ih: "walk_with fld (cb (pre @ bs)) (pre @ bs) (length pre + wf_end f) st =
          (pieces_with fld ?bs \<noteq> None, fold step (prefix_with fld ?bs) st)" for st
      proof -
        have "length ?bs < length bs" using b False by simp
        then have "walk_with fld (cb (?pre @ ?bs)) (?pre @ ?bs) (length ?pre) st =
            (pieces_with fld ?bs \<noteq> None, fold step (prefix_with fld ?bs) st)"
          using 1 by blast
        then show ?thesis by (simp only: l)
      qed
      have "fld (pre @ bs) (length pre) = Some (rebase (length pre) f)"
        using shift [of pre "length pre" bs] Some by simp
      then have "walk_with fld (cb (pre @ bs)) (pre @ bs) (length pre) st =
          walk_with fld (cb (pre @ bs)) (pre @ bs) (length pre + wf_end f) (step (piece_of bs f) st)"
        using False b cb [OF Some, of pre st] by (subst walk_with.simps) (simp add: rebase_def)
      then show ?thesis using ih Some False b
        by (subst pieces_with.simps, subst prefix_with.simps) simp
    qed
  qed
qed

lemma walk_whole:
  assumes "\<And>pre bs f st. fld bs 0 = Some f \<Longrightarrow> cb (pre @ bs) (rebase (length pre) f) st = step (piece_of bs f) st"
  shows "walk_with fld (cb data) data 0 st = (pieces_with fld data \<noteq> None, fold step (prefix_with fld data) st)"
  using walk_fold [where cb = cb and step = step and pre = "[]" and bs = data and st = st, OF assms] by simp

end

end
