(* ===== verification/Parental.thy ===== *)
theory Parental
  imports WireWalk
begin

unbundle bit_operations_syntax

text \<open>
  The parental settings rewriter, \<open>src/feats/parental.hpp\<close> and \<open>src/feats/parental.cpp\<close>: the
  protobuf walk over a settings message, the rewriting of its feature masks, the callback that
  hands the message on, and the patch of the signature check with its restoration. The outcomes of
  libmem's calls are arguments.
\<close>

section \<open>The receiver's code\<close>

definition settings_receiver_code :: "u8 option list" where
  "settings_receiver_code =
     [Some 0x55, Some 0x89, Some 0xE5, Some 0x57, Some 0x56,
      Some 0xE8, None, None, None, None,
      Some 0x81, Some 0xC6, None, None, None, None,
      Some 0x53, Some 0x81, Some 0xEC, Some 0x00, Some 0x02, Some 0x00, Some 0x00,
      Some 0x8B, Some 0x45, Some 0x08, Some 0x8B, Some 0x55, Some 0x1C,
      Some 0x8B, Some 0x7D, Some 0x0C]"

definition looksLikeSettingsReceiver :: "bytes option \<Rightarrow> nat \<Rightarrow> bool" where
  "looksLikeSettingsReceiver code len =
     (case code of
        None \<Rightarrow> False
      | Some cs \<Rightarrow>
          \<not> len < length settings_receiver_code \<and>
          list_all (\<lambda>i. case settings_receiver_code ! i of None \<Rightarrow> True | Some b \<Rightarrow> cs ! i = b)
            [0..<length settings_receiver_code])"

section \<open>The walk over a message\<close>

function wire_varint :: "bytes \<Rightarrow> nat \<Rightarrow> nat \<Rightarrow> u64 \<Rightarrow> (nat \<times> u64) option" where
  "wire_varint data pos shift value =
     (if pos < length data \<and> shift \<le> 63 then
        (let byte = data ! pos in
         if shift = 63 \<and> byte AND 0xFE \<noteq> 0 then None
         else (let value' = value OR push_bit shift (ucast (byte AND 0x7F)) in
               if byte AND 0x80 = 0 then Some (pos + 1, value')
               else wire_varint data (pos + 1) (shift + 7) value'))
      else None)"
  by pat_completeness auto
termination by (relation "measure (\<lambda>(d, p, s, v). length d - p)") auto

declare wire_varint.simps [simp del]

definition wire_readVarint :: "bytes \<Rightarrow> nat \<Rightarrow> (nat \<times> u64) option" where
  "wire_readVarint data pos = wire_varint data pos 0 0"

text \<open>The value of a field behind its tag: where it starts and how long it is. A length is compared
  with what is left before it is narrowed, so no position wraps.\<close>

definition wire_value :: "bytes \<Rightarrow> nat \<Rightarrow> u8 \<Rightarrow> (nat \<times> nat) option" where
  "wire_value data pos wireType =
     (if wireType = 0 then
        (case wire_readVarint data pos of None \<Rightarrow> None | Some (pos', ignored) \<Rightarrow> Some (pos, pos' - pos))
      else if wireType = 1 then (if length data - pos < 8 then None else Some (pos, 8))
      else if wireType = 2 then
        (case wire_readVarint data pos of
           None \<Rightarrow> None
         | Some (pos', sz) \<Rightarrow> if unat sz > length data - pos' then None else Some (pos', unat sz))
      else if wireType = 5 then (if length data - pos < 4 then None else Some (pos, 4))
      else None)"

text \<open>One turn of the loop.\<close>

definition field_at :: "bytes \<Rightarrow> nat \<Rightarrow> wire_field option" where
  "field_at data start =
     (case wire_readVarint data start of
        None \<Rightarrow> None
      | Some (pos, tag) \<Rightarrow>
          (let number64 = drop_bit 3 tag; wireType = (ucast (tag AND 7) :: u8) in
           if number64 = 0 \<or> number64 > 0x1FFFFFFF then None
           else (case wire_value data pos wireType of
                   None \<Rightarrow> None
                 | Some (off, len) \<Rightarrow>
                     Some \<lparr>wf_number = ucast number64, wf_type = wireType, wf_start = start,
                           wf_end = off + len, wf_valueOff = off, wf_valueLen = len\<rparr>)))"

lemma wire_varint_bounds:
  "wire_varint data pos s v = Some (n, x) \<Longrightarrow> pos < n \<and> n \<le> length data"
proof (induction data pos s v rule: wire_varint.induct)
  case (1 data pos s v)
  show ?case
    using 1(2) 1(1) [of "data ! pos" "v OR push_bit s (ucast (data ! pos AND 0x7F))"]
    by (subst (asm) wire_varint.simps) (auto simp: Let_def split: if_splits)
qed

lemma wire_value_bounds:
  "wire_value data pos w = Some (off, len) \<Longrightarrow> pos \<le> length data \<Longrightarrow> pos \<le> off \<and> off + len \<le> length data"
  by (auto simp: wire_value_def wire_readVarint_def split: if_splits option.splits dest!: wire_varint_bounds)

lemma field_at_bounds:
  "field_at data pos = Some f \<Longrightarrow> wf_start f = pos \<and> pos < wf_end f \<and> wf_end f \<le> length data"
  by (fastforce simp: field_at_def wire_readVarint_def Let_def split: if_splits option.splits
      dest: wire_varint_bounds wire_value_bounds)

text \<open>The loop, with the state of its callback.\<close>

function walk :: "(wire_field \<Rightarrow> 's \<Rightarrow> 's) \<Rightarrow> bytes \<Rightarrow> nat \<Rightarrow> 's \<Rightarrow> bool \<times> 's" where
  "walk fn data pos st =
     (if pos < length data then
        (case field_at data pos of
           None \<Rightarrow> (False, st)
         | Some f \<Rightarrow> walk fn data (wf_end f) (fn f st))
      else (True, st))"
  by pat_completeness auto
termination by (relation "measure (\<lambda>(fn, d, p, st). length d - p)") (auto dest: field_at_bounds)

declare walk.simps [simp del]

section \<open>Rewriting the settings\<close>

function putVarint :: "bytes \<Rightarrow> u64 \<Rightarrow> bytes" where
  "putVarint out value =
     (if value \<ge> 0x80 then putVarint (out @ [ucast value OR 0x80]) (drop_bit 7 value)
      else out @ [ucast value])"
  by pat_completeness auto
termination
proof (relation "measure (\<lambda>(out, v). unat v)")
  fix v :: u64 and acc :: bytes
  assume "0x80 \<le> v"
  then have "0x80 \<le> unat v" by (simp add: word_le_nat_alt)
  then show "((acc @ [ucast v OR 0x80], drop_bit 7 v), acc, v) \<in> measure (\<lambda>(out, v). unat v)"
    by (simp add: drop_bit_eq_div unat_div_distrib)
qed simp

declare putVarint.simps [simp del]

text \<open>What is written is read back.\<close>

lemma putVarint_onto: "putVarint (ys @ out) v = ys @ putVarint out v"
proof (induction out v arbitrary: ys rule: putVarint.induct)
  case (1 out v)
  then show ?case by (subst (1 2) putVarint.simps) simp
qed

lemma putVarint_append: "putVarint out v = out @ putVarint [] v"
  using putVarint_onto [of out "[]" v] by simp

lemma putVarint_Nil:
  "putVarint [] v = (if v \<ge> 0x80 then (ucast v OR 0x80) # putVarint [] (drop_bit 7 v) else [ucast v])"
  by (subst putVarint.simps) (use putVarint_append [of "[ucast v OR 0x80]" "drop_bit 7 v"] in auto)

lemma byte_or_80: "unat (b OR 0x80 :: u8) = unat b mod 128 + 128"
proof -
  have "list_all (\<lambda>n. unat ((of_nat n :: u8) OR 0x80) = n mod 128 + 128) [0..<256]" by code_simp
  moreover have "unat b < 256" using unsigned_less [of b] by simp
  ultimately have "unat ((of_nat (unat b) :: u8) OR 0x80) = unat b mod 128 + 128"
    unfolding list_all_iff set_upt by (elim ballE [of _ _ "unat b"]) simp_all
  then show ?thesis by simp
qed

text \<open>The writer produces the standard encoding, and the reader reads it back.\<close>

lemma putVarint_enc: "putVarint [] v = enc_varint (unat v)"
proof (induction "unat v" arbitrary: v rule: less_induct)
  case less
  show ?case
  proof (cases "v \<ge> 0x80")
    case True
    have u: "unat (ucast v :: u8) mod 128 = unat v mod 128"
      by (simp add: unsigned_ucast_eq take_bit_nat_def mod_mod_cancel)
    have "ucast v OR 0x80 = (of_nat (unat v mod 128 + 128) :: u8)"
      using byte_or_80 [of "ucast v"] u by (metis of_nat_unat ucast_id)
    moreover have d: "unat (drop_bit 7 v) = unat v div 128" by (simp add: drop_bit_eq_div unat_div_distrib)
    moreover have ge: "128 \<le> unat v" using True by (simp add: word_le_nat_alt)
    moreover have "putVarint [] (drop_bit 7 v) = enc_varint (unat v div 128)"
      using less [of "drop_bit 7 v"] ge unfolding d by simp
    moreover have "enc_varint (unat v) = of_nat (unat v mod 128 + 128) # enc_varint (unat v div 128)"
      using ge by (subst enc_varint.simps) simp
    ultimately show ?thesis using True putVarint_Nil [of v] by simp
  next
    case False
    then have "unat v < 128" by (simp add: word_le_nat_alt)
    then have "enc_varint (unat v) = [of_nat (unat v)]" by (subst enc_varint.simps) simp
    moreover have "(ucast v :: u8) = of_nat (unat v)" by simp
    ultimately show ?thesis using False putVarint_Nil [of v] by (simp only: if_False)
  qed
qed

lemma wire_stop:
  "p < length m \<Longrightarrow> s \<le> 63 \<Longrightarrow> (s = 63 \<Longrightarrow> m ! p AND 0xFE = 0) \<Longrightarrow> m ! p AND 0x80 = 0 \<Longrightarrow>
     wire_varint m p s r = Some (p + 1, varint_acc r s (m ! p))"
  by (subst wire_varint.simps) (auto simp: varint_acc_def Let_def)

lemma wire_more:
  "p < length m \<Longrightarrow> s + 7 < 64 \<Longrightarrow> m ! p AND 0x80 \<noteq> 0 \<Longrightarrow>
     wire_varint m p s r = wire_varint m (p + 1) (s + 7) (varint_acc r s (m ! p))"
  by (subst wire_varint.simps) (auto simp: varint_acc_def Let_def)

lemma wire_varint_enc:
  assumes "starts_at (enc_varint n) m p" "unat r + n * 2 ^ s < 2 ^ 64" "unat r < 2 ^ s" "s \<le> 63"
  shows "wire_varint m p s r = Some (p + length (enc_varint n), of_nat (unat r + n * 2 ^ s))"
  using assms
proof (induction n arbitrary: p s r rule: enc_varint.induct)
  case (1 n)
  have "0 < length (enc_varint n)" by simp
  then have pm: "p < length m" using 1(2) unfolding starts_at_def by linarith
  show ?case
  proof (cases "n < 128")
    case True
    note b = starts_at_varint(1) [OF 1(2) True]
    have "m ! p AND 0xFE = 0" if "s = 63"
    proof -
      have "n < 2" using 1(3) that by simp
      then show ?thesis using b by (cases n) (auto simp: less_Suc_eq)
    qed
    then show ?thesis using wire_stop [of p m s r] varint_last [OF True _ 1(3-5)] b pm 1(5) by simp
  next
    case False
    note b = starts_at_varint(2) [OF 1(2) False]
    note v = varint_next [OF False conjunct1 [OF b] 1(3-5)]
    have "wire_varint m p s r = wire_varint m (p + 1) (s + 7) (varint_acc r s (m ! p))"
      using wire_more [OF pm] v(1,2) by simp
    also have "\<dots> = Some (p + 1 + length (enc_varint (n div 128)),
        of_nat (unat (varint_acc r s (m ! p)) + n div 128 * 2 ^ (s + 7)))"
      using 1(3) b v by (intro 1(1) [OF False]) auto
    finally show ?thesis unfolding v(4) using b by simp
  qed
qed

lemma put_read: "wire_readVarint (pre @ putVarint [] v @ post) (length pre) = Some (length pre + length (putVarint [] v), v)"
proof -
  have "starts_at (enc_varint (unat v)) (pre @ putVarint [] v @ post) (length pre)"
    by (simp add: putVarint_enc starts_at_def nth_append)
  from wire_varint_enc [OF this, of 0 0] show ?thesis
    using unsigned_less [of v] by (simp add: wire_readVarint_def putVarint_enc)
qed

definition putVarintField :: "bytes \<Rightarrow> u32 \<Rightarrow> u64 \<Rightarrow> bytes" where
  "putVarintField out number value = putVarint (putVarint out (push_bit 3 (ucast number))) value"

definition settings_callback :: "bytes \<Rightarrow> wire_field \<Rightarrow> bytes \<times> bool \<Rightarrow> bytes \<times> bool" where
  "settings_callback data f = (\<lambda>(out, parentalEnabled).
     if wf_number f = 9 then
       (if wf_type f = 0 then
          (case wire_readVarint data (wf_valueOff f) of
             None \<Rightarrow> (out, parentalEnabled)
           | Some (pos, value) \<Rightarrow> (out, value \<noteq> 0))
        else (out, parentalEnabled))
     else if wf_number f = 10 \<or> wf_number f = 13 \<or> wf_number f = 15 \<or> wf_number f = 16
     then (out, parentalEnabled)
     else (out @ range_of data (wf_start f) (wf_end f), parentalEnabled))"

definition unlockableFeatures :: u64 where "unlockableFeatures = 0x7FFF"

definition rewriteSettings :: "bytes \<Rightarrow> bytes option" where
  "rewriteSettings data =
     (case walk (settings_callback data) data 0 ([], False) of
        (valid, out, parentalEnabled) \<Rightarrow>
          if \<not> valid then None
          else if \<not> parentalEnabled then Some data
          else Some (putVarintField (putVarintField (putVarintField out 9 1) 10 unlockableFeatures)
                       13 unlockableFeatures))"

section \<open>Pieces of a message\<close>

text \<open>The pieces of a settings message.\<close>

definition pieces :: "bytes \<Rightarrow> piece list option" where
  "pieces data = pieces_with field_at data"

definition turns_on :: "piece \<Rightarrow> bool" where
  "turns_on p \<longleftrightarrow> (case wire_readVarint (pc_value p) 0 of None \<Rightarrow> False | Some (n, v) \<Rightarrow> v \<noteq> 0)"

definition is_switch :: "piece \<Rightarrow> bool" where
  "is_switch p \<longleftrightarrow> pc_number p = 9 \<and> pc_type p = 0"

text \<open>The last \<open>is_enabled\<close> of the message decides.\<close>

definition parental_enabled :: "piece list \<Rightarrow> bool" where
  "parental_enabled ps = (case rev (filter is_switch ps) of [] \<Rightarrow> False | p # _ \<Rightarrow> turns_on p)"

definition kept_piece :: "piece \<Rightarrow> bool" where
  "kept_piece p \<longleftrightarrow> pc_number p \<notin> {9, 10, 13, 15, 16}"

definition forced_pieces :: "piece list" where
  "forced_pieces =
     [\<lparr>pc_number = 9, pc_type = 0, pc_value = [1], pc_bytes = [0x48, 1]\<rparr>,
      \<lparr>pc_number = 10, pc_type = 0, pc_value = [0xFF, 0xFF, 1], pc_bytes = [0x50, 0xFF, 0xFF, 1]\<rparr>,
      \<lparr>pc_number = 13, pc_type = 0, pc_value = [0xFF, 0xFF, 1], pc_bytes = [0x68, 0xFF, 0xFF, 1]\<rparr>]"

subsection \<open>Reading depends on the bytes read\<close>

lemma wire_varint_shift:
  "length pre = k \<Longrightarrow> wire_varint (pre @ bs) (k + q) s v = map_option (\<lambda>(n, x). (k + n, x)) (wire_varint bs q s v)"
proof (induction bs q s v rule: wire_varint.induct)
  case (1 bs q s v)
  show ?case
    by (subst (1 2) wire_varint.simps) (use 1 in \<open>auto simp: Let_def nth_append\<close>)
qed

lemma wire_varint_local:
  "wire_varint bs q s v = Some (n, x) \<Longrightarrow> n \<le> length cs \<Longrightarrow> take n cs = take n bs \<Longrightarrow> wire_varint cs q s v = Some (n, x)"
proof (induction bs q s v rule: wire_varint.induct)
  case (1 bs q s v)
  have b: "q < n" "n \<le> length bs" using wire_varint_bounds [OF 1(2)] by simp_all
  have e: "cs ! q = bs ! q" using b 1(4) by (metis nth_take)
  from 1(2) b 1(3) show ?case
    by (subst (asm) wire_varint.simps, subst wire_varint.simps)
       (use 1(1) [of "bs ! q" "v OR push_bit s (ucast (bs ! q AND 0x7F))"] 1(3,4) in \<open>auto simp: Let_def e split: if_splits\<close>)
qed

lemma wire_readVarint_shift:
  "length pre = k \<Longrightarrow> wire_readVarint (pre @ bs) (k + q) = map_option (\<lambda>(n, x). (k + n, x)) (wire_readVarint bs q)"
  by (simp add: wire_readVarint_def wire_varint_shift)

lemma wire_value_shift:
  "length pre = k \<Longrightarrow> wire_value (pre @ bs) (k + q) w = map_option (\<lambda>(off, len). (k + off, len)) (wire_value bs q w)"
  by (auto simp: wire_value_def wire_readVarint_shift split: option.splits)

lemma wire_value_local:
  assumes "wire_value bs q w = Some (off, len)" "q \<le> length bs" "off + len \<le> length cs"
    "take (off + len) cs = take (off + len) bs"
  shows "wire_value cs q w = Some (off, len)"
proof -
  have lb: "off + len \<le> length bs" using wire_value_bounds [OF assms(1,2)] by simp
  have rd: "wire_readVarint cs q = Some (n, x)" if "wire_readVarint bs q = Some (n, x)" "n \<le> off + len" for n x
  proof -
    have "take n cs = take n bs"
      using arg_cong [OF assms(4), of "take n"] that(2) by (simp add: min_absorb1)
    then show ?thesis using that assms(3) wire_varint_local [of bs q 0 0 n x cs] by (simp add: wire_readVarint_def)
  qed
  consider "w = 0" | "w = 1" | "w = 2" | "w = 5" | "w \<notin> {0, 1, 2, 5}" by blast
  then show ?thesis
  proof cases
    case 1
    with assms(1) obtain n x where r: "wire_readVarint bs q = Some (n, x)" "off = q" "len = n - q"
      by (auto simp: wire_value_def split: option.splits)
    then have "q < n" using wire_varint_bounds by (auto simp: wire_readVarint_def)
    with r rd [OF r(1)] show ?thesis by (simp add: 1 wire_value_def)
  next
    case 2
    with assms(1,3) show ?thesis by (auto simp: wire_value_def split: if_splits)
  next
    case 3
    with assms(1) obtain x where r: "wire_readVarint bs q = Some (off, x)" "len = unat x"
      by (auto simp: wire_value_def split: option.splits if_splits)
    with rd [OF r(1)] assms(3) show ?thesis by (simp add: 3 wire_value_def)
  next
    case 4
    with assms(1,3) show ?thesis by (auto simp: wire_value_def split: if_splits)
  next
    case 5
    with assms(1) show ?thesis by (simp add: wire_value_def)
  qed
qed

text \<open>A field read as a tag and a value keeps the contract, whatever tags its reader accepts.\<close>

definition tagged_field :: "(u64 \<Rightarrow> u32 option) \<Rightarrow> bytes \<Rightarrow> nat \<Rightarrow> wire_field option" where
  "tagged_field g data start =
     (case wire_readVarint data start of
        None \<Rightarrow> None
      | Some (pos, tag) \<Rightarrow>
          (case g tag of
             None \<Rightarrow> None
           | Some number \<Rightarrow>
               (case wire_value data pos (ucast (tag AND 7)) of
                  None \<Rightarrow> None
                | Some (off, len) \<Rightarrow>
                    Some \<lparr>wf_number = number, wf_type = ucast (tag AND 7), wf_start = start,
                          wf_end = off + len, wf_valueOff = off, wf_valueLen = len\<rparr>)))"

lemma tagged_parts:
  assumes "tagged_field g data start = Some f"
  shows "wf_start f = start" "start < wf_end f" "wf_end f \<le> length data" "wf_end f = wf_valueOff f + wf_valueLen f"
    "\<exists>pos tag. start < pos \<and> pos \<le> length data \<and> wire_readVarint data start = Some (pos, tag) \<and>
      wire_value data pos (wf_type f) = Some (wf_valueOff f, wf_valueLen f)"
proof -
  from assms obtain pos tag where r: "wire_readVarint data start = Some (pos, tag)"
    and v: "wire_value data pos (wf_type f) = Some (wf_valueOff f, wf_valueLen f)"
    and e: "wf_start f = start" "wf_end f = wf_valueOff f + wf_valueLen f"
    by (auto simp: tagged_field_def split: option.splits)
  have p: "start < pos" "pos \<le> length data" using r wire_varint_bounds by (auto simp: wire_readVarint_def)
  from wire_value_bounds [OF v p(2)] p e r v
  show "wf_start f = start" "start < wf_end f" "wf_end f \<le> length data" "wf_end f = wf_valueOff f + wf_valueLen f"
    "\<exists>pos tag. start < pos \<and> pos \<le> length data \<and> wire_readVarint data start = Some (pos, tag) \<and>
      wire_value data pos (wf_type f) = Some (wf_valueOff f, wf_valueLen f)" by auto
qed

lemma tagged_shift:
  "length pre = k \<Longrightarrow> tagged_field g (pre @ bs) k = map_option (rebase k) (tagged_field g bs 0)"
  using wire_readVarint_shift [of pre k bs 0]
  by (auto simp: tagged_field_def wire_value_shift rebase_def split: option.splits)

lemma tagged_local:
  assumes "tagged_field g bs 0 = Some f" "wf_end f \<le> length cs" "take (wf_end f) cs = take (wf_end f) bs"
  shows "tagged_field g cs 0 = Some f"
proof -
  from assms(1) obtain pos tag off len where
    T: "wire_readVarint bs 0 = Some (pos, tag)" and V: "wire_value bs pos (ucast (tag AND 7)) = Some (off, len)"
    and f: "wf_end f = off + len"
    by (auto simp: tagged_field_def split: option.splits)
  have b: "0 < pos" "pos \<le> length bs" using T wire_varint_bounds by (auto simp: wire_readVarint_def)
  have o: "pos \<le> off" using wire_value_bounds [OF V b(2)] by simp
  have "take pos cs = take pos bs" using o f assms(3) by (metis min.absorb1 take_take trans_le_add1)
  then have "wire_readVarint cs 0 = Some (pos, tag)"
    using T o f assms(2) wire_varint_local [of bs 0 0 0 pos tag cs] by (simp add: wire_readVarint_def)
  moreover have "wire_value cs pos (ucast (tag AND 7)) = Some (off, len)"
    by (rule wire_value_local [OF V b(2) assms(2,3) [unfolded f]])
  ultimately show ?thesis using assms(1) T V by (auto simp: tagged_field_def split: option.splits)
qed

lemma tagged_reader: "wire_reader (tagged_field g)"
proof (unfold_locales, goal_cases)
  case (1 data f)
  then show ?case using tagged_parts(1-4) [OF 1] by blast
next
  case (2 pre k bs)
  then show ?case by (rule tagged_shift)
next
  case (3 bs f cs)
  then show ?case by (rule tagged_local)
qed

text \<open>The settings reader is such a reader.\<close>

lemma field_at_tagged:
  "field_at = tagged_field (\<lambda>tag. let number64 = drop_bit 3 tag in
     if number64 = 0 \<or> number64 > 0x1FFFFFFF then None else Some (ucast number64))"
  by (intro ext) (auto simp: field_at_def tagged_field_def Let_def split: option.splits)

lemma field_at_parts:
  assumes "field_at data 0 = Some f"
  shows "wf_start f = 0" "0 < wf_end f" "wf_end f \<le> length data" "wf_end f = wf_valueOff f + wf_valueLen f"
  using tagged_parts(1-4) [OF assms [unfolded field_at_tagged]] by simp_all

interpretation settings: wire_reader field_at
  unfolding field_at_tagged by (rule tagged_reader)

lemma pieces_rec:
  "pieces data =
     (if data = [] then Some []
      else (case field_at data 0 of
              None \<Rightarrow> None
            | Some f \<Rightarrow> map_option ((#) (piece_of data f)) (pieces (drop (wf_end f) data))))"
  using field_at_parts(2) [of data] unfolding pieces_def
  by (subst pieces_with.simps) (auto split: option.splits)

section \<open>What the rewriting does\<close>

lemma varint_at_value:
  assumes "wire_value bs pos 0 = Some (off, len)" "off + len \<le> length bs"
  obtains x where "wire_readVarint bs off = Some (off + len, x)"
    "wire_readVarint (range_of bs off (off + len)) 0 = Some (len, x)"
proof -
  from assms(1) obtain n x where r: "wire_readVarint bs off = Some (n, x)" "len = n - off"
    by (auto simp: wire_value_def split: option.splits)
  then have n: "n = off + len" using wire_varint_bounds by (fastforce simp: wire_readVarint_def)
  let ?pre = "take off bs" and ?post = "drop off bs"
  have "length ?pre = off" using assms(2) by simp
  from wire_readVarint_shift [OF this, of ?post 0] r(1)
  have "wire_varint ?post 0 0 0 = Some (len, x)" using n by (auto simp: wire_readVarint_def)
  then have "wire_readVarint (take len ?post) 0 = Some (len, x)"
    using assms(2) unfolding wire_readVarint_def by (elim wire_varint_local) simp_all
  with r(1) n that show thesis by (simp add: range_of_def)
qed

lemma varint_of_value:
  assumes "tagged_field g bs 0 = Some f" "wf_type f = 0"
  obtains n x where "wire_readVarint bs (wf_valueOff f) = Some (n, x)"
    "wire_readVarint (pc_value (piece_of bs f)) 0 = Some (wf_valueLen f, x)"
proof -
  from tagged_parts(5) [OF assms(1)] assms(2) obtain pos where
    "wire_value bs pos 0 = Some (wf_valueOff f, wf_valueLen f)" by auto
  then show thesis
    using varint_at_value [of bs pos "wf_valueOff f" "wf_valueLen f"] tagged_parts(3,4) [OF assms(1)] that
    by (auto simp: piece_of_def)
qed

lemma callback_range:
  assumes "length pre = k" "field_at bs 0 = Some f"
  shows "settings_callback (pre @ bs) (rebase k f) (out, en) =
       (out @ (if kept_piece (piece_of bs f) then pc_bytes (piece_of bs f) else []),
        if is_switch (piece_of bs f) then turns_on (piece_of bs f) else en)"
proof -
  have b: "range_of (pre @ bs) (k + wf_start f) (k + wf_end f) = pc_bytes (piece_of bs f)"
    using assms(1) by (simp add: piece_of_def range_of_def)
  have r: "wire_readVarint (pre @ bs) (k + wf_valueOff f) =
      map_option (\<lambda>(n, x). (k + n, x)) (wire_readVarint bs (wf_valueOff f))"
    by (rule wire_readVarint_shift [OF assms(1)])
  show ?thesis
  proof (cases "wf_number f = 9 \<and> wf_type f = 0")
    case True
    obtain n x where "wire_readVarint bs (wf_valueOff f) = Some (n, x)"
      "wire_readVarint (pc_value (piece_of bs f)) 0 = Some (wf_valueLen f, x)"
      using varint_of_value [OF assms(2) [unfolded field_at_tagged]] True by blast
    then show ?thesis using True r
      by (simp add: settings_callback_def rebase_def kept_piece_def is_switch_def turns_on_def)
         (simp add: piece_of_def)
  next
    case False
    then show ?thesis using b
      by (auto simp: settings_callback_def rebase_def kept_piece_def is_switch_def)
         (simp_all add: piece_of_def)
  qed
qed

definition settings_step :: "piece \<Rightarrow> bytes \<times> bool \<Rightarrow> bytes \<times> bool" where
  "settings_step p = (\<lambda>(out, en).
     (out @ (if kept_piece p then pc_bytes p else []), if is_switch p then turns_on p else en))"

definition last_switch :: "bool \<Rightarrow> piece list \<Rightarrow> bool" where
  "last_switch en ps = fold (\<lambda>p e. if is_switch p then turns_on p else e) ps en"

lemma last_switch_enabled: "last_switch False ps = parental_enabled ps"
  by (induction ps rule: rev_induct) (simp_all add: last_switch_def parental_enabled_def)

lemma fold_settings: "fold settings_step ps (out, en) = (out @ message_of (filter kept_piece ps), last_switch en ps)"
  by (induction ps arbitrary: out en) (simp_all add: settings_step_def last_switch_def)

lemma walk_is: "walk fn data pos st = walk_with field_at fn data pos st"
proof (induction fn data pos st rule: walk.induct)
  case (1 fn data pos st)
  then show ?case
    by (subst walk.simps, subst walk_with.simps) (auto dest: field_at_bounds split: option.splits)
qed

lemma walk_settings:
  "walk (settings_callback data) data 0 ([], False) =
     (pieces data \<noteq> None, message_of (filter kept_piece (prefix_with field_at data)), parental_enabled (prefix_with field_at data))"
proof -
  have "settings_callback (pre @ bs) (rebase (length pre) f) st = settings_step (piece_of bs f) st"
    if "field_at bs 0 = Some f" for pre bs f st
    by (cases st) (simp add: callback_range [OF refl that] settings_step_def)
  from settings.walk_whole [where cb = settings_callback and step = settings_step, OF this]
  show ?thesis by (simp add: walk_is pieces_def fold_settings last_switch_enabled)
qed

lemma forced_bytes:
  "putVarintField (putVarintField (putVarintField out 9 1) 10 unlockableFeatures) 13 unlockableFeatures =
     out @ message_of forced_pieces"
  by (simp add: putVarintField_def unlockableFeatures_def forced_pieces_def putVarint.simps word_le_nat_alt)

text \<open>The rewriting, as a function of the pieces.\<close>

lemma rewriteSettings_pieces:
  "rewriteSettings data =
     (case pieces data of
        None \<Rightarrow> None
      | Some ps \<Rightarrow> Some (if parental_enabled ps then message_of (filter kept_piece ps @ forced_pieces) else data))"
  using settings.prefix_of_pieces [of data]
  by (auto simp: rewriteSettings_def walk_settings forced_bytes pieces_def split: option.splits)

lemma forced_read: "pieces (message_of forced_pieces) = Some forced_pieces"
  unfolding pieces_def
  by (intro settings.pieces_of_message)
     (simp add: forced_pieces_def pieces_with.simps field_at_def wire_readVarint_def wire_varint.simps
       wire_value_def piece_of_def range_of_def)

lemma forced_enabled: "parental_enabled (ps @ forced_pieces)"
  by (simp add: parental_enabled_def forced_pieces_def is_switch_def turns_on_def wire_readVarint_def wire_varint.simps)

lemma rewritten_pieces:
  "pieces data = Some ps \<Longrightarrow>
     pieces (message_of (filter kept_piece ps @ forced_pieces)) = Some (filter kept_piece ps @ forced_pieces)"
  using settings.kept_alone [of data ps kept_piece] forced_read by (simp add: pieces_def settings.pieces_append)

lemma filter_kept_forced: "filter kept_piece (ps @ forced_pieces) = filter kept_piece ps"
  by (simp add: forced_pieces_def kept_piece_def)



text \<open>rewriting what was rewritten changes nothing.\<close>

theorem rewrite_idempotent:
  assumes "rewriteSettings data = Some out"
  shows "rewriteSettings out = Some out"
  using assms rewritten_pieces forced_enabled filter_kept_forced
  by (auto simp: rewriteSettings_pieces split: option.splits if_splits)

lemma rewrite_idempotent_witness:
  "rewriteSettings [0x48, 0, 0x20, 7] = Some [0x48, 0, 0x20, 7] \<and>
   rewriteSettings [0x48, 0, 0x20, (7 :: u8)] = Some [0x48, 0, 0x20, 7]"
proof -
  have "rewriteSettings [0x48, 0, 0x20, 7] = Some [0x48, 0, 0x20, 7]"
    by (simp add: rewriteSettings_def walk.simps field_at_def wire_readVarint_def wire_varint.simps
        wire_value_def settings_callback_def range_of_def)
  then show ?thesis using rewrite_idempotent [of "[0x48, 0, 0x20, 7]"] by blast
qed

section \<open>The callback\<close>

text \<open>What Steam's receiver is called with, if it is called: a null pointer, or a message. \<open>locked\<close> is
  whether the lifecycle lock was acquired, \<open>enough\<close> whether the rewriting found the memory it needs;
  an exception of either ends the callback with \<open>false\<close>.\<close>

datatype delivery = Refused | Delivered "bytes option"

definition hkSettingsReceived ::
  "bool \<Rightarrow> bool \<Rightarrow> bool \<Rightarrow> bool \<Rightarrow> bytes option \<Rightarrow> delivery \<times> bool" where
  "hkSettingsReceived locked enough hasTrampoline warned settings =
     (if \<not> locked then (Refused, True)
      else if \<not> hasTrampoline then (Refused, warned)
      else (case settings of
              None \<Rightarrow> (Delivered None, warned)
            | Some data \<Rightarrow>
                if data = [] then (Delivered (Some data), warned)
                else if \<not> enough then (Refused, True)
                else (case rewriteSettings data of
                        None \<Rightarrow> (Delivered (Some data), True)
                      | Some out \<Rightarrow>
                          if length out > 2 ^ 32 - 1 then (Delivered (Some data), True)
                          else (Delivered (Some out), warned))))"

section \<open>Patching and restoring the signature check\<close>

definition bad_address :: u32 where "bad_address = - 1"

text \<open>The outcomes of one write: whether the page was made writable, whether libmem wrote the byte,
  whether either of two attempts restored the protection.\<close>

record byte_outcome =
  wo_unlocked :: bool
  wo_written :: bool
  wo_restored :: bool
  wo_restoredAgain :: bool

definition writeByte :: "byte_outcome \<Rightarrow> u32 \<Rightarrow> u8 \<Rightarrow> (u32 \<Rightarrow> u8) \<Rightarrow> (bool \<times> bool) \<times> (u32 \<Rightarrow> u8)" where
  "writeByte w address value mem =
     (if \<not> wo_unlocked w then ((False, False), mem)
      else (let mem' = (if wo_written w then mem(address := value) else mem)
            in ((wo_written w \<and> mem' address = value, wo_restored w \<or> wo_restoredAgain w), mem')))"

text \<open>The globals, and the process's code bytes.\<close>

record parental =
  g_receiver :: u32
  g_trampoline :: u32
  g_hookSize :: nat
  g_signatureCheck :: u32
  g_originalSignatureBranch :: u8
  g_signaturePatched :: bool
  g_warnedMalformed :: bool
  p_code :: "u32 \<Rightarrow> u8"

text \<open>What one call of \<open>setup\<close> finds: the switch in the configuration, the two resolved patterns,
  whether the receiver's bytes are the expected ones, the outcomes of both writes, and what
  installing the hook returned.\<close>

record setup_env =
  se_enabled :: bool
  se_receiver :: u32
  se_receiverCode :: "bytes option"
  se_check :: u32
  se_patch :: byte_outcome
  se_hook :: "nat \<times> u32"
  se_undo :: byte_outcome

definition restore_branch :: "byte_outcome \<Rightarrow> parental \<Rightarrow> parental \<times> bool" where
  "restore_branch w s =
     (case writeByte w (g_signatureCheck s + 2) (g_originalSignatureBranch s) (p_code s) of
        ((valueWritten, restored), mem) \<Rightarrow>
          (s\<lparr>p_code := mem, g_signaturePatched := g_signaturePatched s \<and> \<not> valueWritten\<rparr>, valueWritten \<and> restored))"

definition install_hook :: "setup_env \<Rightarrow> parental \<Rightarrow> parental" where
  "install_hook e s =
     (let s = s\<lparr>g_receiver := se_receiver e, g_hookSize := fst (se_hook e), g_trampoline := snd (se_hook e)\<rparr> in
      if g_hookSize s = 0 \<or> g_trampoline s = 0 \<or> g_trampoline s = bad_address then
        (let s = (if g_signaturePatched s then fst (restore_branch (se_undo e) s) else s)
         in s\<lparr>g_receiver := bad_address, g_trampoline := bad_address\<rparr>)
      else s)"

definition setup_parental :: "setup_env \<Rightarrow> parental \<Rightarrow> parental" where
  "setup_parental e s0 =
     (let s = s0\<lparr>g_warnedMalformed := False\<rparr>; b = se_check e in
      if \<not> se_enabled e then s
      else if g_hookSize s \<noteq> 0 then s
      else if se_receiver e = 0 \<or> se_receiver e = bad_address \<or> \<not> looksLikeSettingsReceiver (se_receiverCode e) 32 then s
      else if b = 0 \<or> b = bad_address then s
      else if p_code s b \<noteq> 0x84 \<or> p_code s (b + 1) \<noteq> 0xC0 \<or>
        (p_code s (b + 2) \<noteq> 0x75 \<and> p_code s (b + 2) \<noteq> 0xEB) then s
      else if g_signaturePatched s then
        (if g_signatureCheck s \<noteq> b \<or> p_code s (b + 2) \<noteq> 0xEB then s else install_hook e s)
      else
        (let s = s\<lparr>g_signatureCheck := b, g_originalSignatureBranch := p_code s (b + 2)\<rparr> in
         if p_code s (b + 2) = 0x75 then
           (case writeByte (se_patch e) (b + 2) 0xEB (p_code s) of
              ((valueWritten, restored), mem) \<Rightarrow>
                (let s = s\<lparr>p_code := mem, g_signaturePatched := valueWritten\<rparr> in
                 if \<not> (valueWritten \<and> restored) then s else install_hook e s))
         else install_hook e s))"

text \<open>\<open>remove\<close>: \<open>unhooked\<close> is what removing the hook returned.\<close>

definition remove_parental :: "bool \<Rightarrow> byte_outcome \<Rightarrow> parental \<Rightarrow> parental" where
  "remove_parental unhooked w s =
     (if g_hookSize s \<noteq> 0 \<and> g_receiver s \<noteq> bad_address \<and> g_trampoline s \<noteq> bad_address \<and> \<not> unhooked then s
      else
        (let s = s\<lparr>g_hookSize := 0, g_receiver := bad_address, g_trampoline := bad_address\<rparr> in
         if g_signaturePatched s \<and> g_signatureCheck s \<noteq> bad_address then
           (case restore_branch w s of
              (s', ok) \<Rightarrow> if \<not> ok then s' else s'\<lparr>g_signaturePatched := False, g_signatureCheck := bad_address\<rparr>)
         else s\<lparr>g_signaturePatched := False, g_signatureCheck := bad_address\<rparr>))"

text \<open>Every sequence of the two calls, whatever libmem answers.\<close>

datatype parental_call = SetupCall setup_env | RemoveCall bool byte_outcome

fun parental_step :: "parental_call \<Rightarrow> parental \<Rightarrow> parental" where
  "parental_step (SetupCall e) s = setup_parental e s"
| "parental_step (RemoveCall u w) s = remove_parental u w s"

text \<open>The code is the original one except for a recorded patch.\<close>

definition branch_recorded :: "(u32 \<Rightarrow> u8) \<Rightarrow> parental \<Rightarrow> bool" where
  "branch_recorded code s \<longleftrightarrow>
     (if g_signaturePatched s
      then g_signatureCheck s \<noteq> bad_address \<and> g_originalSignatureBranch s = 0x75 \<and>
        code (g_signatureCheck s + 2) = 0x75 \<and> p_code s = code(g_signatureCheck s + 2 := 0xEB)
      else p_code s = code)"

lemma restore_keeps: "branch_recorded code s \<Longrightarrow> g_signaturePatched s \<Longrightarrow> branch_recorded code (fst (restore_branch w s))"
  by (auto simp: branch_recorded_def restore_branch_def writeByte_def Let_def split: prod.splits)

lemma install_keeps: "branch_recorded code s \<Longrightarrow> branch_recorded code (install_hook e s)"
  using restore_keeps [of code "s\<lparr>g_receiver := se_receiver e, g_hookSize := fst (se_hook e), g_trampoline := snd (se_hook e)\<rparr>" "se_undo e"]
  by (auto simp: install_hook_def Let_def) (auto simp: branch_recorded_def)

lemma patch_keeps:
  assumes "branch_recorded code s" "\<not> g_signaturePatched s" "b \<noteq> bad_address" "p_code s (b + 2) = 0x75"
    "writeByte w (b + 2) 0xEB (p_code s) = ((v, r), mem)"
  shows "branch_recorded code (s\<lparr>g_signatureCheck := b, g_originalSignatureBranch := 0x75, p_code := mem, g_signaturePatched := v\<rparr>)"
  using assms by (auto simp: branch_recorded_def writeByte_def Let_def split: if_splits)

lemma setup_keeps:
  assumes "branch_recorded code s"
  shows "branch_recorded code (setup_parental e s)"
proof -
  have warn: "branch_recorded code (s\<lparr>g_warnedMalformed := False\<rparr>)"
    using assms by (simp add: branch_recorded_def)
  have note_check: "branch_recorded code (s\<lparr>g_warnedMalformed := False, g_signatureCheck := b, g_originalSignatureBranch := v\<rparr>)"
    if "\<not> g_signaturePatched s" for b v
    using assms that by (simp add: branch_recorded_def)
  show ?thesis
    using warn note_check patch_keeps [OF warn, of "se_check e"]
    by (auto simp: setup_parental_def Let_def intro!: install_keeps split: prod.splits)
qed

lemma remove_keeps:
  assumes "branch_recorded code s"
  shows "branch_recorded code (remove_parental u w s)"
proof -
  let ?s = "s\<lparr>g_hookSize := 0, g_receiver := bad_address, g_trampoline := bad_address\<rparr>"
  have s: "branch_recorded code ?s" using assms by (simp add: branch_recorded_def)
  have r: "branch_recorded code (fst (restore_branch w ?s))" if "g_signaturePatched s"
    using restore_keeps [OF s] that by simp
  have c: "branch_recorded code (s'\<lparr>g_signaturePatched := False, g_signatureCheck := bad_address\<rparr>)"
    if "restore_branch w ?s = (s', True)" "g_signaturePatched s" for s'
    using s that by (auto simp: restore_branch_def branch_recorded_def writeByte_def Let_def split: if_splits)
  show ?thesis
    using assms s r c by (fastforce simp: remove_parental_def Let_def branch_recorded_def [of code s] 
      branch_recorded_def [of code "?s\<lparr>g_signaturePatched := False, g_signatureCheck := bad_address\<rparr>"] split: prod.splits)
qed

lemma steps_keep: "branch_recorded code s \<Longrightarrow> branch_recorded code (fold parental_step cs s)"
proof (induction cs arbitrary: s)
  case (Cons c cs)
  then show ?case using setup_keeps remove_keeps by (cases c) simp_all
qed simp

text \<open>A call of \<open>remove\<close> whose calls into libmem succeed.\<close>

definition clean_remove :: "byte_outcome \<Rightarrow> bool" where
  "clean_remove w \<longleftrightarrow> wo_unlocked w \<and> wo_written w \<and> (wo_restored w \<or> wo_restoredAgain w)"

lemma remove_restores:
  assumes "branch_recorded code s" "clean_remove w"
  shows "p_code (remove_parental True w s) = code"
  using assms by (auto simp: remove_parental_def restore_branch_def branch_recorded_def clean_remove_def writeByte_def Let_def)

text \<open>whatever sequence of set-ups and removals ran, and whichever of their writes failed, one removal
  that succeeds leaves the code of the process as it was at first.\<close>

theorem code_restored:
  assumes "\<not> g_signaturePatched s" "clean_remove w"
  shows "p_code (remove_parental True w (fold parental_step cs s)) = p_code s"
  using assms remove_restores [OF steps_keep] by (simp add: branch_recorded_def)

definition unhooked_parental :: parental where
  "unhooked_parental = \<lparr>g_receiver = bad_address, g_trampoline = bad_address, g_hookSize = 0,
     g_signatureCheck = bad_address, g_originalSignatureBranch = 0, g_signaturePatched = False,
     g_warnedMalformed = False, p_code = (\<lambda>a. if a = 100 then 0x84 else if a = 101 then 0xC0 else 0x75)\<rparr>"

definition good_write :: byte_outcome where
  "good_write = \<lparr>wo_unlocked = True, wo_written = True, wo_restored = True, wo_restoredAgain = False\<rparr>"

definition patching_setup :: setup_env where
  "patching_setup = \<lparr>se_enabled = True, se_receiver = 50,
     se_receiverCode = Some (map (\<lambda>b. case b of None \<Rightarrow> 0 | Some v \<Rightarrow> v) settings_receiver_code),
     se_check = 100, se_patch = good_write, se_hook = (5, 60), se_undo = good_write\<rparr>"

lemma code_restored_witness:
  "p_code (setup_parental patching_setup unhooked_parental) 102 = 0xEB \<and>
   p_code (remove_parental True good_write (fold parental_step [SetupCall patching_setup] unhooked_parental)) 102 = 0x75"
proof
  have "looksLikeSettingsReceiver (se_receiverCode patching_setup) 32"
    by code_simp
  moreover have "se_enabled patching_setup" "se_receiver patching_setup = 50" "se_check patching_setup = 100"
    "se_patch patching_setup = good_write" "se_hook patching_setup = (5, 60)"
    by (simp_all add: patching_setup_def)
  moreover have "\<not> g_signaturePatched unhooked_parental" "g_hookSize unhooked_parental = 0"
    "p_code unhooked_parental 100 = 0x84" "p_code unhooked_parental 101 = 0xC0" "p_code unhooked_parental 102 = 0x75"
    by (simp_all add: unhooked_parental_def)
  moreover have "writeByte good_write 102 0xEB (p_code unhooked_parental) = ((True, True), (p_code unhooked_parental)(102 := 0xEB))"
    by (simp add: writeByte_def good_write_def)
  ultimately show "p_code (setup_parental patching_setup unhooked_parental) 102 = 0xEB"
    by (simp add: setup_parental_def install_hook_def bad_address_def)
  show "p_code (remove_parental True good_write (fold parental_step [SetupCall patching_setup] unhooked_parental)) 102 = 0x75"
    by (subst code_restored) (simp_all add: unhooked_parental_def good_write_def clean_remove_def)
qed

end
