(* ===== verification/ProvisionTerminal.thy ===== *)
theory ProvisionTerminal
  imports CachePair KvText
begin

unbundle bit_operations_syntax

text \<open>
  The persistent terminal results of provisioning, \<open>src/feats/provision_terminal.cpp\<close>: the record of
  one app with its text form, the fingerprint of the local inputs it was reached with, when it still
  applies, and the store of one file per app over the file system of the cache pair.
\<close>

section \<open>Records\<close>

datatype terminal_kind = VirtualDlc | NoUsableContent

record terminal_record =
  trSchema :: u32
  trAppId :: u32
  trKind :: terminal_kind
  trChangeNumber :: u32
  trFingerprint :: string

definition kSchema :: u32 where "kSchema = 1"

definition kMaxStateBytes :: nat where "kMaxStateBytes = 4096"

text \<open>\<open>std::to_string(value) != text\<close> refuses leading zeros.\<close>

definition parseUnsigned32 :: "string \<Rightarrow> u32 option" where
  "parseUnsigned32 t =
     (if t = [] then None
      else (case from_chars_all u32_max t of
              None \<Rightarrow> None
            | Some n \<Rightarrow> if to_dec n \<noteq> t then None else Some (of_nat n)))"

definition fingerprint_char :: "char \<Rightarrow> bool" where
  "fingerprint_char c \<longleftrightarrow>
     (48 \<le> char_code c \<and> char_code c \<le> 57) \<or> (97 \<le> char_code c \<and> char_code c \<le> 102)"

definition isFingerprint :: "string \<Rightarrow> bool" where
  "isFingerprint v \<longleftrightarrow> length v = 16 \<and> list_all fingerprint_char v"

definition isValid :: "terminal_record \<Rightarrow> bool" where
  "isValid r \<longleftrightarrow>
     \<not> (trSchema r \<noteq> kSchema \<or> trAppId r = 0 \<or> trChangeNumber r = 0) \<and>
     (case trKind r of
        VirtualDlc \<Rightarrow> trFingerprint r = ''-''
      | NoUsableContent \<Rightarrow> isFingerprint (trFingerprint r))"

definition record_prefixes :: "string list" where
  "record_prefixes = [''schema: '', ''appid: '', ''kind: '', ''change_number: '', ''input_fingerprint: '']"

text \<open>The lines: the values behind the prefixes, and the position behind the last line.\<close>

fun record_values :: "string list \<Rightarrow> string \<Rightarrow> nat \<Rightarrow> (string list \<times> nat) option" where
  "record_values [] t position = Some ([], position)"
| "record_values (p # ps) t position =
     (case find_from [CHR 0x0A] t position of
        None \<Rightarrow> None
      | Some newline \<Rightarrow>
          (let line = take (newline - position) (drop position t); v = drop (length p) line in
           if \<not> starts_with p line then None
           else if v = [] then None
           else map_option (\<lambda>(vs, q). (v # vs, q)) (record_values ps t (newline + 1))))"

definition record_of :: "string list \<Rightarrow> terminal_record option" where
  "record_of vs =
     (case (parseUnsigned32 (vs ! 0), parseUnsigned32 (vs ! 1), parseUnsigned32 (vs ! 3)) of
        (Some schema, Some app, Some change) \<Rightarrow>
          (case (if vs ! 2 = ''virtual_dlc'' then Some VirtualDlc
                 else if vs ! 2 = ''no_usable_content'' then Some NoUsableContent else None) of
             None \<Rightarrow> None
           | Some kd \<Rightarrow>
               (let r = \<lparr>trSchema = schema, trAppId = app, trKind = kd, trChangeNumber = change, trFingerprint = vs ! 4\<rparr>
                in if isValid r then Some r else None))
      | _ \<Rightarrow> None)"

definition parse_terminal :: "string \<Rightarrow> terminal_record option" where
  "parse_terminal t =
     (if length t > kMaxStateBytes \<or> CHR 0x0D \<in> set t then None
      else (case record_values record_prefixes t 0 of
              None \<Rightarrow> None
            | Some (vs, position) \<Rightarrow> if position \<noteq> length t then None else record_of vs))"

definition kind_text :: "terminal_kind \<Rightarrow> string" where
  "kind_text k = (if k = VirtualDlc then ''virtual_dlc'' else ''no_usable_content'')"

definition render_terminal :: "terminal_record \<Rightarrow> string" where
  "render_terminal r =
     (if \<not> isValid r then []
      else ''schema: '' @ to_dec (unat (trSchema r)) @ [CHR 0x0A] @
           ''appid: '' @ to_dec (unat (trAppId r)) @ [CHR 0x0A] @
           ''kind: '' @ kind_text (trKind r) @ [CHR 0x0A] @
           ''change_number: '' @ to_dec (unat (trChangeNumber r)) @ [CHR 0x0A] @
           ''input_fingerprint: '' @ trFingerprint r @ [CHR 0x0A])"

section \<open>The fingerprint of the inputs\<close>

record local_input =
  liDepotId :: u32
  liKey :: bytes
  liManifestGid :: u64

text \<open>The comparison of the sort: depot, then key by its bytes, then manifest.\<close>

fun bytes_less :: "bytes \<Rightarrow> bytes \<Rightarrow> bool" where
  "bytes_less [] ys \<longleftrightarrow> ys \<noteq> []"
| "bytes_less (x # xs) [] \<longleftrightarrow> False"
| "bytes_less (x # xs) (y # ys) \<longleftrightarrow> x < y \<or> (x = y \<and> bytes_less xs ys)"

definition input_less :: "local_input \<Rightarrow> local_input \<Rightarrow> bool" where
  "input_less l r =
     (if liDepotId l \<noteq> liDepotId r then liDepotId l < liDepotId r
      else if liKey l \<noteq> liKey r then bytes_less (liKey l) (liKey r)
      else liManifestGid l < liManifestGid r)"

text \<open>\<open>std::sort\<close> by that comparison.\<close>

fun insert_input :: "local_input \<Rightarrow> local_input list \<Rightarrow> local_input list" where
  "insert_input x [] = [x]"
| "insert_input x (y # ys) = (if input_less y x then y # insert_input x ys else x # y # ys)"

definition sort_inputs :: "local_input list \<Rightarrow> local_input list" where
  "sort_inputs xs = foldr insert_input xs []"

definition fnvByte :: "u64 \<Rightarrow> u8 \<Rightarrow> u64" where
  "fnvByte hash b = (hash XOR ucast b) * 1099511628211"

text \<open>\<open>fnvUnsigned\<close> of an \<open>n\<close>-byte value, most significant byte first.\<close>

primrec fnvUnsigned :: "nat \<Rightarrow> u64 \<Rightarrow> u64 \<Rightarrow> u64" where
  "fnvUnsigned 0 v hash = hash"
| "fnvUnsigned (Suc n) v hash = fnvUnsigned n v (fnvByte hash (ucast (drop_bit (n * 8) v)))"

definition fnv_input :: "local_input \<Rightarrow> u64 \<Rightarrow> u64" where
  "fnv_input i hash =
     fnvUnsigned 8 (liManifestGid i)
       (fold (\<lambda>b h. fnvByte h b) (liKey i)
          (fnvUnsigned 8 (of_nat (length (liKey i))) (fnvUnsigned 4 (ucast (liDepotId i)) hash)))"

definition lower_hex :: "nat \<Rightarrow> char" where
  "lower_hex d = ''0123456789abcdef'' ! d"

definition terminal_fingerprint :: "local_input list \<Rightarrow> string" where
  "terminal_fingerprint inputs =
     (let hash = fold fnv_input (sort_inputs inputs) 14695981039346656037
      in map (\<lambda>index. lower_hex (unat (drop_bit ((16 - 1 - index) * 4) hash AND 0xF))) [0..<16])"

definition terminal_applies :: "terminal_record \<Rightarrow> u32 \<Rightarrow> u32 \<Rightarrow> string \<Rightarrow> bool" where
  "terminal_applies r app observedChange currentFingerprint =
     (if \<not> isValid r \<or> trAppId r \<noteq> app \<or> trChangeNumber r \<noteq> observedChange then False
      else trKind r = VirtualDlc \<or> trFingerprint r = currentFingerprint)"

section \<open>The store\<close>

definition terminal_path :: "path \<Rightarrow> u32 \<Rightarrow> path" where
  "terminal_path cacheDir app = path_join cacheDir (''terminal_'' @ to_dec (unat app) @ ''.state'')"

datatype load_status = LsMissing | LsValid terminal_record | LsInvalid | LsIoError

definition text_of :: "bytes \<Rightarrow> string" where
  "text_of bs = map (\<lambda>b. char_of (unat b)) bs"

text \<open>Opening and reading a file: at most \<open>n\<close> bytes, \<open>None\<close> on an error of either call.\<close>

definition fs_read :: "path \<Rightarrow> nat \<Rightarrow> file_system \<Rightarrow> contents option \<times> file_system" where
  "fs_read p n s =
     (case outcome_of s of
        Works \<Rightarrow> (map_option (take n) (fsFiles s p), call_done s)
      | Fails _ \<Rightarrow> (None, call_done s))"

definition load_terminal :: "path \<Rightarrow> u32 \<Rightarrow> file_system \<Rightarrow> load_status \<times> file_system" where
  "load_terminal cacheDir app s =
     (if app = 0 then (LsInvalid, s)
      else (case fs_exists (terminal_path cacheDir app) s of
              (None, s1) \<Rightarrow> (LsIoError, s1)
            | (Some False, s1) \<Rightarrow> (LsMissing, s1)
            | (Some True, s1) \<Rightarrow>
                (case fs_read (terminal_path cacheDir app) (kMaxStateBytes + 1) s1 of
                   (None, s2) \<Rightarrow> (LsIoError, s2)
                 | (Some bs, s2) \<Rightarrow>
                     if length bs > kMaxStateBytes then (LsInvalid, s2)
                     else (case parse_terminal (text_of bs) of
                             None \<Rightarrow> (LsInvalid, s2)
                           | Some r \<Rightarrow> if trAppId r \<noteq> app then (LsInvalid, s2) else (LsValid r, s2)))))"

definition publish_terminal :: "path \<Rightarrow> terminal_record \<Rightarrow> file_system \<Rightarrow> bool \<times> file_system" where
  "publish_terminal cacheDir r s =
     (if \<not> isValid r then (False, s)
      else if render_terminal r = [] then (False, s)
      else atomic_write (terminal_path cacheDir (trAppId r)) (str_bytes (render_terminal r)) s)"

definition erase_terminal :: "path \<Rightarrow> u32 \<Rightarrow> file_system \<Rightarrow> bool \<times> file_system" where
  "erase_terminal cacheDir app s =
     (if app = 0 then (False, s)
      else (case fs_remove (terminal_path cacheDir app) s of
              (None, s1) \<Rightarrow> (False, s1)
            | (Some True, s1) \<Rightarrow> (True, s1)
            | (Some False, s1) \<Rightarrow>
                (case fs_exists (terminal_path cacheDir app) s1 of
                   (None, s2) \<Rightarrow> (True, s2)
                 | (Some e, s2) \<Rightarrow> (\<not> e, s2))))"

section \<open>The text form is exact\<close>

definition terminal_line :: "string \<Rightarrow> string \<Rightarrow> string" where
  "terminal_line p v = p @ v @ [CHR 0x0A]"

definition terminal_lines :: "string list \<Rightarrow> string list \<Rightarrow> string" where
  "terminal_lines ps vs = concat (map2 terminal_line ps vs)"

abbreviation no_newline :: "string \<Rightarrow> bool" where
  "no_newline v \<equiv> CHR 0x0A \<notin> set v"

lemma record_values_sound:
  "record_values ps t position = Some (vs, q) \<Longrightarrow>
     length vs = length ps \<and> position \<le> q \<and> list_all (\<lambda>v. v \<noteq> []) vs \<and>
     (position \<le> length t \<longrightarrow> q \<le> length t \<and> drop position t = terminal_lines ps vs @ drop q t)"
proof (induction ps arbitrary: position vs)
  case Nil
  then show ?case by (simp add: terminal_lines_def)
next
  case (Cons p ps)
  let ?nl = "CHR 0x0A"
  from Cons.prems obtain n ws where n: "find_from [?nl] t position = Some n"
    and w: "record_values ps t (n + 1) = Some (ws, q)"
    and st: "starts_with p (take (n - position) (drop position t))"
    and v: "vs = drop (length p) (take (n - position) (drop position t)) # ws" "hd vs \<noteq> []"
    by (auto simp: Let_def split: option.splits if_splits)
  from n obtain a b where ab: "position \<le> length t" "drop position t = a @ ?nl # b" "n = position + length a"
    by (auto simp: find_char)
  have a: "take (n - position) (drop position t) = a" using ab by simp
  then obtain v' where v': "a = p @ v'" using st by (metis append_take_drop_id starts_with_def)
  have "length t - position = length a + 1 + length b" using arg_cong [OF ab(2), of length] by simp
  then have len: "n + 1 \<le> length t" using ab(1,3) by linarith
  have d: "drop (n + 1) t = b"
  proof -
    have "drop (n + 1) t = drop (Suc (length a)) (drop position t)" using ab(3) by (simp add: add.commute)
    then show ?thesis by (simp add: ab(2))
  qed
  show ?case using Cons.IH [OF w] len d ab(2,3) v v' a
    by (auto simp: terminal_lines_def terminal_line_def)
qed

lemma record_values_complete:
  "length vs = length ps \<Longrightarrow> list_all (\<lambda>v. v \<noteq> [] \<and> no_newline v) vs \<Longrightarrow> list_all no_newline ps \<Longrightarrow>
     record_values ps (pre @ terminal_lines ps vs) (length pre) =
       Some (vs, length pre + length (terminal_lines ps vs))"
proof (induction ps arbitrary: vs pre)
  case Nil
  then show ?case by (simp add: terminal_lines_def)
next
  case (Cons p ps)
  from Cons.prems(1) obtain v ws where vs: "vs = v # ws" by (cases vs) auto
  let ?nl = "CHR 0x0A"
  have "find_from [?nl] (pre @ terminal_lines (p # ps) vs) (length pre) = Some (length pre + length (p @ v))"
    unfolding find_char using Cons.prems(2,3)
    by (intro conjI exI [of _ "p @ v"] exI [of _ "terminal_lines ps ws"]) (simp_all add: vs terminal_lines_def terminal_line_def)
  moreover have "record_values ps ((pre @ terminal_line p v) @ terminal_lines ps ws) (length (pre @ terminal_line p v)) =
      Some (ws, length (pre @ terminal_line p v) + length (terminal_lines ps ws))"
    using Cons.prems by (intro Cons.IH) (simp_all add: vs)
  ultimately show ?case using Cons.prems(2)
    by (simp add: vs terminal_lines_def terminal_line_def starts_with_def Let_def add.assoc)
qed

lemma parseUnsigned32_iff: "parseUnsigned32 t = Some w \<longleftrightarrow> t = to_dec (unat w)"
proof
  assume "parseUnsigned32 t = Some w"
  then obtain n where n: "from_chars_all u32_max t = Some n" "to_dec n = t" "w = of_nat n"
    by (auto simp: parseUnsigned32_def split: if_splits option.splits)
  then have "n < 2 ^ 32" by (simp add: from_chars_all_iff u32_max_def)
  then show "t = to_dec (unat w)" using n(2,3) by (simp add: unsigned_of_nat take_bit_nat_eq_self)
next
  assume t: "t = to_dec (unat w)"
  have "unat w \<le> u32_max" using unat32_less [of w] by (simp add: u32_max_def)
  then show "parseUnsigned32 t = Some w" by (simp add: t parseUnsigned32_def)
qed

definition values_of :: "terminal_record \<Rightarrow> string list" where
  "values_of r = [to_dec (unat (trSchema r)), to_dec (unat (trAppId r)), kind_text (trKind r),
     to_dec (unat (trChangeNumber r)), trFingerprint r]"

lemma render_lines: "isValid r \<Longrightarrow> render_terminal r = terminal_lines record_prefixes (values_of r)"
  by (simp add: render_terminal_def terminal_lines_def terminal_line_def record_prefixes_def values_of_def)

lemma record_of_values: "isValid r \<Longrightarrow> record_of (values_of r) = Some r"
  by (cases "trKind r"; cases r) (auto simp: record_of_def values_of_def kind_text_def parseUnsigned32_iff [THEN iffD2] Let_def)

lemma record_of_sound:
  assumes "record_of vs = Some r" "length vs = 5"
  shows "isValid r \<and> vs = values_of r"
proof -
  obtain a b c d e where vs: "vs = [a, b, c, d, e]"
    using assms(2) by (auto simp: length_Suc_conv numeral_eq_Suc)
  from assms(1) obtain x y z where w: "parseUnsigned32 a = Some x" "parseUnsigned32 b = Some y" "parseUnsigned32 d = Some z"
    by (auto simp: record_of_def vs split: option.splits)
  show ?thesis using assms(1) w
    by (auto simp: record_of_def vs Let_def values_of_def kind_text_def parseUnsigned32_iff split: if_splits option.splits)
qed

lemma length_to_dec: "n < 10 ^ k \<Longrightarrow> 0 < k \<Longrightarrow> length (to_dec n) \<le> k"
proof (induction k arbitrary: n)
  case (Suc k)
  show ?case
  proof (cases "n < 10")
    case True
    then show ?thesis by (subst to_dec.simps) simp
  next
    case False
    then have "0 < k" using Suc.prems(1) by (cases k) auto
    with Suc False have "length (to_dec (n div 10)) \<le> k" by (intro Suc.IH) (auto simp: div_less_iff_less_mult)
    then show ?thesis using False by (subst to_dec.simps) simp
  qed
qed simp

lemma char_not_dec: "\<not> is_digit c \<Longrightarrow> c \<notin> set (to_dec n)"
  using digits_to_dec by blast

lemma fingerprint_chars: "isFingerprint v \<Longrightarrow> c \<in> set v \<Longrightarrow> fingerprint_char c"
  by (auto simp: isFingerprint_def list_all_iff)

lemma valid_fingerprint:
  assumes "isValid r"
  shows "trFingerprint r \<noteq> []" "length (trFingerprint r) \<le> 16"
    "CHR 0x0A \<notin> set (trFingerprint r)" "CHR 0x0D \<notin> set (trFingerprint r)"
  using assms fingerprint_chars [of "trFingerprint r" "CHR 0x0A"] fingerprint_chars [of "trFingerprint r" "CHR 0x0D"]
  by (auto simp: isValid_def isFingerprint_def fingerprint_char_def char_code_def split: terminal_kind.splits)

lemma not_digits: "\<not> is_digit (CHR 0x0A)" "\<not> is_digit (CHR 0x0D)"
  by (simp_all add: is_digit_def char_code_def)

lemma dec_word_short: "length (to_dec (unat (w :: u32))) \<le> 10"
  using unat32_less [of w] by (intro length_to_dec) simp_all

lemma render_short: "length (render_terminal r) \<le> kMaxStateBytes"
proof (cases "isValid r")
  case True
  then show ?thesis
    using dec_word_short [of "trSchema r"] dec_word_short [of "trAppId r"] dec_word_short [of "trChangeNumber r"]
      valid_fingerprint(2) [OF True]
    by (simp add: render_terminal_def kMaxStateBytes_def kind_text_def)
qed (simp add: render_terminal_def)

lemma render_no_return: "CHR 0x0D \<notin> set (render_terminal r)"
  using char_not_dec not_digits valid_fingerprint(4) [of r]
  by (auto simp: render_terminal_def kind_text_def)

lemma parse_render:
  assumes "isValid r"
  shows "parse_terminal (render_terminal r) = Some r"
proof -
  have v: "list_all (\<lambda>v. v \<noteq> [] \<and> no_newline v) (values_of r)"
    using char_not_dec not_digits valid_fingerprint [OF assms]
    by (auto simp: values_of_def kind_text_def)
  have p: "list_all no_newline record_prefixes" by (simp add: record_prefixes_def)
  have l: "length (values_of r) = length record_prefixes" by (simp add: values_of_def record_prefixes_def)
  show ?thesis
    using record_values_complete [OF l v p, of "[]"] render_short [of r] render_no_return [of r]
    by (simp add: parse_terminal_def render_lines [OF assms, symmetric] record_of_values [OF assms])
qed

lemma terminal_text_valid: "parse_terminal t = Some r \<Longrightarrow> isValid r"
  by (auto simp: parse_terminal_def record_of_def Let_def split: option.splits if_splits)

text \<open>the parser accepts exactly the texts the writer produces: a record is read from a text just
  when the text is its rendering, and each valid record has one.\<close>

theorem terminal_text_exact: "parse_terminal t = Some r \<longleftrightarrow> isValid r \<and> t = render_terminal r"
proof
  assume p: "parse_terminal t = Some r"
  then obtain vs where v: "record_values record_prefixes t 0 = Some (vs, length t)" "record_of vs = Some r"
    by (auto simp: parse_terminal_def split: if_splits option.splits)
  from record_values_sound [OF v(1)] have s: "length vs = 5" "t = terminal_lines record_prefixes vs"
    by (simp_all add: record_prefixes_def)
  from record_of_sound [OF v(2) s(1)] s(2) show "isValid r \<and> t = render_terminal r"
    by (simp add: render_lines)
qed (simp add: parse_render)

section \<open>The fingerprint depends on the set of inputs\<close>

definition input_key :: "local_input \<Rightarrow> u32 \<times> bytes \<times> u64" where
  "input_key i = (liDepotId i, liKey i, liManifestGid i)"

lemma input_key_inj: "input_key a = input_key b \<longleftrightarrow> a = b"
  by (cases a; cases b) (simp add: input_key_def)

lemma bytes_less_irrefl: "\<not> bytes_less xs xs"
  by (induction xs) auto

lemma bytes_less_trans: "bytes_less xs ys \<Longrightarrow> bytes_less ys zs \<Longrightarrow> bytes_less xs zs"
proof (induction xs ys arbitrary: zs rule: bytes_less.induct)
  case (1 ys)
  then show ?case by (cases ys; cases zs) auto
next
  case (3 x xs y ys)
  then show ?case by (cases zs) auto
qed auto

lemma bytes_less_total: "xs \<noteq> ys \<Longrightarrow> bytes_less xs ys \<or> bytes_less ys xs"
  by (induction xs ys rule: bytes_less.induct) auto

lemma input_less_irrefl: "\<not> input_less a a"
  by (simp add: input_less_def)

lemma input_less_trans: "input_less a b \<Longrightarrow> input_less b c \<Longrightarrow> input_less a c"
  by (auto simp: input_less_def split: if_splits dest: bytes_less_trans)
     (use bytes_less_irrefl bytes_less_trans in blast)

lemma input_less_total: "a \<noteq> b \<Longrightarrow> input_less a b \<or> input_less b a"
  using bytes_less_total [of "liKey a" "liKey b"] by (cases a; cases b) (auto simp: input_less_def)

lemma insert_input_commute: "insert_input a (insert_input b zs) = insert_input b (insert_input a zs)"
proof (induction zs)
  case Nil
  then show ?case using input_less_total [of a b] input_less_trans [of a b a] input_less_irrefl
    by (cases "a = b") auto
next
  case (Cons z zs)
  have le: "input_less x y" if "\<not> input_less z x" "input_less z y" for x y
    using that input_less_total [of x z] input_less_trans [of x z y] by (cases "x = z") auto
  show ?case
    using Cons le [of a b] le [of b a] input_less_total [of a b] input_less_trans [of a b a] input_less_irrefl
    by (cases "a = b") auto
qed

lemma sort_inputs_perm: "mset xs = mset ys \<Longrightarrow> sort_inputs xs = sort_inputs ys"
proof -
  assume "mset xs = mset ys"
  then have "fold insert_input (rev xs) = fold insert_input (rev ys)"
    by (intro fold_multiset_equiv) (auto simp: fun_eq_iff insert_input_commute)
  then show ?thesis by (simp add: sort_inputs_def foldr_conv_fold)
qed

lemma mset_sort_inputs [simp]: "mset (sort_inputs xs) = mset xs"
proof -
  have "mset (insert_input x ys) = add_mset x (mset ys)" for x ys
    by (induction ys) auto
  then show ?thesis by (induction xs) (simp_all add: sort_inputs_def)
qed

text \<open>The bytes hashed: fixed-width numbers, most significant byte first, and keys behind their length.\<close>

primrec be_bytes :: "nat \<Rightarrow> u64 \<Rightarrow> bytes" where
  "be_bytes 0 v = []"
| "be_bytes (Suc n) v = ucast (drop_bit (n * 8) v) # be_bytes n v"

definition input_bytes :: "local_input \<Rightarrow> bytes" where
  "input_bytes i = be_bytes 4 (ucast (liDepotId i)) @ be_bytes 8 (of_nat (length (liKey i))) @ liKey i @
     be_bytes 8 (liManifestGid i)"

definition input_stream :: "local_input list \<Rightarrow> bytes" where
  "input_stream is = concat (map input_bytes is)"

definition fnv1a :: "bytes \<Rightarrow> u64" where
  "fnv1a bs = fold (\<lambda>b h. fnvByte h b) bs 14695981039346656037"

definition hex16 :: "u64 \<Rightarrow> string" where
  "hex16 hash = map (\<lambda>index. lower_hex (unat (drop_bit ((16 - 1 - index) * 4) hash AND 0xF))) [0..<16]"

lemma length_be_bytes [simp]: "length (be_bytes n v) = n"
  by (induction n) simp_all

lemma be_bytes_eq_Nil [simp]: "be_bytes n v = [] \<longleftrightarrow> n = 0"
  by (cases n) simp_all

lemma fnvUnsigned_fold: "fnvUnsigned n v hash = fold (\<lambda>b h. fnvByte h b) (be_bytes n v) hash"
  by (induction n arbitrary: hash) simp_all

lemma fnv_input_fold: "fnv_input i hash = fold (\<lambda>b h. fnvByte h b) (input_bytes i) hash"
  by (simp add: fnv_input_def input_bytes_def fnvUnsigned_fold)

lemma fingerprint_stream: "terminal_fingerprint xs = hex16 (fnv1a (input_stream (sort_inputs xs)))"
proof -
  have "fold fnv_input ys h = fold (\<lambda>b h. fnvByte h b) (input_stream ys) h" for ys h
    by (induction ys arbitrary: h) (simp_all add: input_stream_def fnv_input_fold)
  then show ?thesis by (simp add: terminal_fingerprint_def fnv1a_def hex16_def Let_def)
qed

lemma be_bytes_inj: "be_bytes n v = be_bytes n w \<Longrightarrow> take_bit (n * 8) v = take_bit (n * 8) w"
proof (induction n)
  case (Suc n)
  have h: "ucast (drop_bit (n * 8) v) = (ucast (drop_bit (n * 8) w) :: u8)"
    and t: "take_bit (n * 8) v = take_bit (n * 8) w" using Suc by simp_all
  show ?case
  proof (rule bit_word_eqI)
    fix k
    have lo: "bit v k = bit w k" if "k < n * 8"
      using arg_cong [OF t, of "\<lambda>x. bit x k"] that by (simp add: bit_take_bit_iff)
    have hi: "bit v k = bit w k" if "n * 8 \<le> k" "k < n * 8 + 8"
    proof -
      obtain j where j: "k = n * 8 + j" "j < 8" using \<open>n * 8 \<le> k\<close> \<open>k < n * 8 + 8\<close> by (metis add_less_cancel_left le_Suc_ex)
      show ?thesis using arg_cong [OF h, of "\<lambda>x. bit x j"] j by (simp add: bit_ucast_iff bit_drop_bit_eq)
    qed
    have "bit v k = bit w k" if "k < Suc n * 8"
      using that lo hi by (cases "k < n * 8") simp_all
    then show "bit (take_bit (Suc n * 8) v) k = bit (take_bit (Suc n * 8) w) k"
      by (auto simp: bit_take_bit_iff)
  qed
qed simp

lemma be_bytes_8: "be_bytes 8 v = be_bytes 8 w \<longleftrightarrow> v = w"
  using be_bytes_inj [of 8 v w] by (auto simp: take_bit_length_eq [where 'a = 64, simplified])

lemma be_bytes_4: "be_bytes 4 (ucast (v :: u32)) = be_bytes 4 (ucast w) \<longleftrightarrow> v = w"
proof
  assume "be_bytes 4 (ucast v) = be_bytes 4 (ucast w)"
  then have "take_bit 32 (ucast v :: u64) = take_bit 32 (ucast w)" using be_bytes_inj by fastforce
  then have b: "bit (take_bit 32 (ucast v :: u64)) k = bit (take_bit 32 (ucast w :: u64)) k" for k by simp
  show "v = w"
  proof (rule bit_word_eqI)
    fix k assume "k < LENGTH(32)"
    then show "bit v k = bit w k" using b [of k] by (simp add: bit_take_bit_iff bit_ucast_iff)
  qed
qed simp

definition key_fits :: "local_input \<Rightarrow> bool" where
  "key_fits i \<longleftrightarrow> length (liKey i) < 2 ^ 64"

lemma word_of_length: "n < 2 ^ 64 \<Longrightarrow> unat (of_nat n :: u64) = n"
  by (simp add: unsigned_of_nat take_bit_nat_eq_self)

lemma input_bytes_not_Nil [simp]: "input_bytes i \<noteq> []"
  by (simp add: input_bytes_def)

lemma input_bytes_prefix:
  assumes "input_bytes a @ x = input_bytes b @ y" "key_fits a" "key_fits b"
  shows "a = b \<and> x = y"
proof -
  from assms(1) have d: "liDepotId a = liDepotId b"
    and l: "be_bytes 8 (of_nat (length (liKey a))) = be_bytes 8 (of_nat (length (liKey b)))"
    and r: "liKey a @ be_bytes 8 (liManifestGid a) @ x = liKey b @ be_bytes 8 (liManifestGid b) @ y"
    by (simp_all add: input_bytes_def append_eq_append_conv be_bytes_4)
  have "of_nat (length (liKey a)) = (of_nat (length (liKey b)) :: u64)" using l be_bytes_8 by blast
  then have "length (liKey a) = length (liKey b)"
    using assms(2,3) word_of_length unfolding key_fits_def by metis
  with r have "liKey a = liKey b" "liManifestGid a = liManifestGid b" "x = y"
    by (simp_all add: append_eq_append_conv be_bytes_8)
  with d show ?thesis by (cases a; cases b) simp
qed

lemma input_stream_inj:
  "input_stream xs = input_stream ys \<Longrightarrow> list_all key_fits xs \<Longrightarrow> list_all key_fits ys \<Longrightarrow> xs = ys"
proof (induction xs arbitrary: ys)
  case Nil
  then show ?case by (cases ys) (simp_all add: input_stream_def)
next
  case (Cons a xs)
  show ?case
  proof (cases ys)
    case Nil
    with Cons.prems(1) show ?thesis by (simp add: input_stream_def)
  next
    case (Cons b zs)
    with Cons.prems Cons.IH [of zs] show ?thesis
      using input_bytes_prefix [of a "input_stream xs" b "input_stream zs"] by (simp add: input_stream_def)
  qed
qed

text \<open>two lists of inputs are hashed as the same bytes exactly when they hold the same inputs, in
  whatever order; so the fingerprints of equal inputs agree, and those of different ones differ
  unless FNV-1a collides.\<close>

theorem fingerprint_exact:
  assumes "list_all key_fits xs" "list_all key_fits ys"
  shows "(mset xs = mset ys \<longleftrightarrow> input_stream (sort_inputs xs) = input_stream (sort_inputs ys)) \<and>
    terminal_fingerprint xs = hex16 (fnv1a (input_stream (sort_inputs xs)))"
proof -
  have fit: "list_all key_fits (sort_inputs zs)" if "list_all key_fits zs" for zs
    using that by (metis list_all_iff mset_sort_inputs set_mset_mset)
  have "mset xs = mset ys" if "input_stream (sort_inputs xs) = input_stream (sort_inputs ys)"
    using input_stream_inj [OF that fit fit] assms by (metis mset_sort_inputs)
  then show ?thesis using sort_inputs_perm [of xs ys] fingerprint_stream by auto
qed

lemma fingerprint_exact_witness:
  "terminal_fingerprint [] = ''cbf29ce484222325'' \<and>
   (mset [] = mset [\<lparr>liDepotId = 1, liKey = [7], liManifestGid = 2\<rparr>] \<longleftrightarrow>
     input_stream (sort_inputs []) = input_stream (sort_inputs [\<lparr>liDepotId = 1, liKey = [7], liManifestGid = 2\<rparr>])) \<and>
   terminal_fingerprint [] = hex16 (fnv1a (input_stream (sort_inputs [])))"
proof
  show "terminal_fingerprint [] = ''cbf29ce484222325''" by code_simp
  show "(mset [] = mset [\<lparr>liDepotId = 1, liKey = [7], liManifestGid = 2\<rparr>] \<longleftrightarrow>
     input_stream (sort_inputs []) = input_stream (sort_inputs [\<lparr>liDepotId = 1, liKey = [7], liManifestGid = 2\<rparr>])) \<and>
   terminal_fingerprint [] = hex16 (fnv1a (input_stream (sort_inputs [])))"
    by (rule fingerprint_exact) (simp_all add: key_fits_def)
qed

lemma lower_hex_char: "d < 16 \<Longrightarrow> fingerprint_char (lower_hex d)"
proof -
  have "list_all (\<lambda>d. fingerprint_char (lower_hex d)) [0..<16]" by code_simp
  then show "d < 16 \<Longrightarrow> fingerprint_char (lower_hex d)" by (simp add: list_all_iff)
qed

lemma nibble_less: "unat (w AND 0xF :: u64) < 16"
proof -
  have "w AND 0xF = take_bit 4 w" by (simp add: take_bit_eq_mask mask_eq_exp_minus_1)
  then show ?thesis by (simp add: unsigned_take_bit_eq take_bit_nat_def)
qed

text \<open>A result can always be recorded with the fingerprint of the inputs it was reached with.\<close>

lemma fingerprint_valid: "isFingerprint (terminal_fingerprint xs)"
  by (auto simp: isFingerprint_def terminal_fingerprint_def Let_def list_all_iff
      intro!: lower_hex_char nibble_less)

section \<open>The store is a map\<close>

text \<open>The record of an app, as the files hold it.\<close>

definition stored :: "path \<Rightarrow> file_system \<Rightarrow> u32 \<rightharpoonup> terminal_record" where
  "stored dir s app =
     (case fsFiles s (terminal_path dir app) of
        None \<Rightarrow> None
      | Some bs \<Rightarrow>
          if length bs > kMaxStateBytes then None
          else (case parse_terminal (text_of bs) of
                  None \<Rightarrow> None
                | Some r \<Rightarrow> if trAppId r = app then Some r else None))"

fun valid_of :: "load_status \<Rightarrow> terminal_record option" where
  "valid_of (LsValid r) = Some r"
| "valid_of _ = None"

lemma terminal_path_inj [simp]: "terminal_path d a = terminal_path d b \<longleftrightarrow> a = b"
  by (simp add: terminal_path_def path_join_def word_unat_eq_iff)

lemma text_of_str_bytes [simp]: "text_of (str_bytes t) = t"
proof -
  have "char_of (unat (of_nat (char_code c) :: u8)) = c" for c
    by (simp add: char_code_def unsigned_of_nat char_of_take_bit_eq)
  then show ?thesis by (simp add: text_of_def str_bytes_def comp_def)
qed

lemma render_nonempty: "isValid r \<Longrightarrow> render_terminal r \<noteq> []"
  by (simp add: render_terminal_def)

lemma publish_stored:
  "publish_terminal dir r s = (ok, s') \<Longrightarrow> stored dir s' = (if ok then (stored dir s)(trAppId r \<mapsto> r) else stored dir s)"
proof -
  assume p: "publish_terminal dir r s = (ok, s')"
  show ?thesis
  proof (cases "isValid r")
    case True
    then have "fsFiles s' = (if ok then (fsFiles s)(terminal_path dir (trAppId r) \<mapsto> str_bytes (render_terminal r)) else fsFiles s)"
      using p atomic_write_files by (fastforce simp: publish_terminal_def render_nonempty)
    moreover have "length (str_bytes (render_terminal r)) \<le> kMaxStateBytes"
      using render_short [of r] by (simp add: str_bytes_def)
    ultimately show ?thesis
      by (auto simp: stored_def fun_eq_iff parse_render [OF True])
  qed (use p in \<open>simp add: publish_terminal_def\<close>)
qed

lemma stored_cong: "fsFiles s = fsFiles t \<Longrightarrow> stored dir s = stored dir t"
  by (simp add: stored_def fun_eq_iff)

lemma stored_clear:
  "fsFiles s' = (fsFiles s)(terminal_path dir app := None) \<Longrightarrow> stored dir s' = (stored dir s)(app := None)"
  by (simp add: stored_def fun_eq_iff)

lemma stored_absent: "fsFiles s (terminal_path dir app) = None \<Longrightarrow> stored dir s app = None"
  by (simp add: stored_def)

lemma fs_remove_sound:
  "fs_remove p s = (r, s') \<Longrightarrow>
     (case r of None \<Rightarrow> fsFiles s' = fsFiles s
      | Some b \<Rightarrow> fsFiles s' = (fsFiles s)(p := None) \<and> b = (fsFiles s p \<noteq> None))"
  by (auto simp: fs_remove_def set_file_def call_done_def split: outcome.splits)

lemma fs_exists_sound:
  "fs_exists p s = (r, s') \<Longrightarrow> fsFiles s' = fsFiles s \<and> (r = None \<or> r = Some (fsFiles s p \<noteq> None))"
  by (auto simp: fs_exists_def call_done_def split: outcome.splits)

lemma erase_stored:
  assumes "erase_terminal dir app s = (ok, s')"
  shows "stored dir s' = (if ok then (stored dir s)(app := None) else stored dir s)"
proof (cases "app = 0")
  case True
  with assms show ?thesis by (simp add: erase_terminal_def)
next
  case False
  obtain r s1 where r: "fs_remove (terminal_path dir app) s = (r, s1)" by fastforce
  note f = fs_remove_sound [OF r]
  show ?thesis
  proof (cases r)
    case None
    with f have "stored dir s1 = stored dir s" by (intro stored_cong) simp
    with assms r None False show ?thesis by (simp add: erase_terminal_def)
  next
    case (Some b)
    with f have c: "stored dir s1 = (stored dir s)(app := None)" by (intro stored_clear) simp
    obtain e s2 where e: "fs_exists (terminal_path dir app) s1 = (e, s2)" by fastforce
    have e': "stored dir s2 = stored dir s1" "e = None \<or> e = Some False"
      using fs_exists_sound [OF e] f Some by (auto intro: stored_cong)
    show ?thesis using assms r Some False e e' c by (cases b) (auto simp: erase_terminal_def)
  qed
qed

lemma stored_sound:
  "stored dir s app = Some r \<Longrightarrow> trAppId r = app \<and> isValid r \<and> fsFiles s (terminal_path dir app) \<noteq> None"
  by (auto simp: stored_def terminal_text_valid split: option.splits if_splits)

lemma call_done_Nil: "fsOutcomes s = [] \<Longrightarrow> fsOutcomes (call_done s) = []"
  by (simp add: call_done_def)

lemma fs_exists_outcome:
  "fs_exists p s = (r, s') \<Longrightarrow> fsOutcomes s = [] \<Longrightarrow> r \<noteq> None \<and> fsOutcomes s' = []"
  by (auto simp: fs_exists_def outcome_of_def call_done_Nil)

lemma fs_read_sound:
  assumes "fs_read p n s = (r, s')"
  shows "fsFiles s' = fsFiles s \<and> (r = None \<or> r = map_option (take n) (fsFiles s p)) \<and>
    (fsOutcomes s = [] \<longrightarrow> r = map_option (take n) (fsFiles s p))"
  using assms by (auto simp: fs_read_def call_done_def outcome_of_def split: outcome.splits list.splits)

lemma load_stored:
  assumes "load_terminal dir app s = (res, s')"
  shows "fsFiles s' = fsFiles s \<and> (valid_of res = stored dir s app \<or> (res = LsIoError \<and> fsOutcomes s \<noteq> []))"
proof (cases "app = 0")
  case True
  have "stored dir s 0 = None" using stored_sound [of dir s 0] by (cases "stored dir s 0") (auto simp: isValid_def)
  with True assms show ?thesis by (simp add: load_terminal_def)
next
  case False
  let ?p = "terminal_path dir app"
  obtain e s1 where e: "fs_exists ?p s = (e, s1)" by fastforce
  note es = fs_exists_sound [OF e] and eo = fs_exists_outcome [OF e]
  consider "e = None" | "e = Some False" | "e = Some True" by (cases e) auto
  then show ?thesis
  proof cases
    case 1
    with assms e es eo False show ?thesis by (auto simp: load_terminal_def)
  next
    case 2
    with es have "stored dir s app = None" by (simp add: stored_absent)
    with 2 assms e es False show ?thesis by (auto simp: load_terminal_def)
  next
    case 3
    with es obtain bs where bs: "fsFiles s ?p = Some bs" by auto
    obtain r s2 where r: "fs_read ?p (kMaxStateBytes + 1) s1 = (r, s2)" by fastforce
    note rs = fs_read_sound [OF r]
    show ?thesis
    proof (cases r)
      case None
      with assms e es eo rs r 3 bs False show ?thesis by (auto simp: load_terminal_def)
    next
      case (Some cs)
      with rs es bs have cs: "cs = take (kMaxStateBytes + 1) bs" by auto
      have "valid_of res = stored dir s app"
      proof (cases "length bs > kMaxStateBytes")
        case True
        with assms e r 3 Some cs bs False show ?thesis by (simp add: load_terminal_def stored_def)
      next
        case short: False
        then have "cs = bs" using cs by simp
        with short assms e r 3 Some bs False show ?thesis
          by (auto simp: load_terminal_def stored_def split: option.splits if_splits)
      qed
      moreover have "s' = s2"
        using assms e r 3 Some False by (auto simp: load_terminal_def split: option.splits if_splits)
      ultimately show ?thesis using rs es by simp
    qed
  qed
qed

text \<open>C32: whatever calls of the file system fail, the store is a map from apps to records: a
  publication that succeeds enters its record, an erasure that succeeds removes it, one that fails
  changes nothing, and a load answers the record of its app or none, an I/O error only when a call
  failed.\<close>

theorem terminal_store_is_map:
  "(case publish_terminal dir r s of (ok, s') \<Rightarrow>
      stored dir s' = (if ok then (stored dir s)(trAppId r \<mapsto> r) else stored dir s)) \<and>
   (case erase_terminal dir app s of (ok, s') \<Rightarrow>
      stored dir s' = (if ok then (stored dir s)(app := None) else stored dir s)) \<and>
   (case load_terminal dir app s of (res, s') \<Rightarrow>
      stored dir s' = stored dir s \<and>
      (valid_of res = stored dir s app \<or> (\<exists>x xs. fsOutcomes s = x # xs \<and> res = LsIoError)))"
proof (intro conjI)
  show "case publish_terminal dir r s of (ok, s') \<Rightarrow>
      stored dir s' = (if ok then (stored dir s)(trAppId r \<mapsto> r) else stored dir s)"
    using publish_stored by (simp split: prod.splits)
  show "case erase_terminal dir app s of (ok, s') \<Rightarrow>
      stored dir s' = (if ok then (stored dir s)(app := None) else stored dir s)"
    using erase_stored by (simp split: prod.splits)
  show "case load_terminal dir app s of (res, s') \<Rightarrow>
      stored dir s' = stored dir s \<and>
      (valid_of res = stored dir s app \<or> (\<exists>x xs. fsOutcomes s = x # xs \<and> res = LsIoError))"
    using load_stored [of dir app s] by (auto simp: neq_Nil_conv intro: stored_cong split: prod.splits)
qed

section \<open>When a result applies\<close>

text \<open>A recorded absence of content is dropped as soon as the inputs it was reached with change: the
  bytes hashed differ, and unless the hash collides the record no longer applies.\<close>

lemma stale_result_dropped:
  assumes "trKind r = NoUsableContent" "trFingerprint r = terminal_fingerprint xs"
    "terminal_fingerprint ys \<noteq> terminal_fingerprint xs"
  shows "\<not> terminal_applies r app change (terminal_fingerprint ys)"
  using assms by (simp add: terminal_applies_def)

lemma fresh_result_applies:
  assumes "isValid r" "trFingerprint r = terminal_fingerprint xs" "mset ys = mset xs"
  shows "terminal_applies r (trAppId r) (trChangeNumber r) (terminal_fingerprint ys)"
  using assms sort_inputs_perm [of ys xs] by (simp add: terminal_applies_def fingerprint_stream)

end
