(* ===== verification/AtomicFile.thy ===== *)
theory AtomicFile
  imports CppText
begin

text \<open>
  Publication of a whole file, \<open>src/utils/atomic_file.hpp\<close>: a private temporary file is written and
  renamed over the target, or exchanged with it and kept only if the file it displaced is the one
  that was expected. A disk is a map from names to inodes. Before each system call another process
  may change the disk (\<open>wMoves\<close>), and each call may fail (\<open>wFaults\<close>); past the end of these lists
  nothing interferes and calls succeed. \<open>wPast\<close>, \<open>wUnlinked\<close>, \<open>wSwaps\<close> and \<open>wCreated\<close> record what the
  program did and have no counterpart in the code. \<open>syncParent\<close>, whose results are ignored, has no
  effect on a disk, and others act between the calls on names, not between two writes to the open
  file. The build is the one with \<open>renameat2\<close>.
\<close>

section \<open>Disks\<close>

type_synonym fs_path = string

record inode =
  inDevice :: u64
  inMode :: nat
  inTime :: "int \<times> int"
  inData :: bytes

record disk =
  dkNames :: "fs_path \<rightharpoonup> nat"
  dkInodes :: "nat \<Rightarrow> inode"
  dkNext :: nat

datatype write_call = Wrote nat | Interrupted | WriteError

record world =
  wDisk :: disk
  wMoves :: "(disk \<Rightarrow> disk) list"
  wFaults :: "bool list"
  wWrites :: "write_call list"
  wSerial :: nat
  wPid :: nat
  wDevice :: u64
  wClock :: "int \<times> int"
  wPast :: "disk list"
  wCreated :: "nat list"
  wUnlinked :: "(nat \<times> inode) list"
  wSwaps :: "((nat \<times> inode) \<times> (nat \<times> inode)) list"

record file_identity =
  fiDevice :: u64
  fiInode :: nat
  fiSize :: nat
  fiTime :: "int \<times> int"

definition identity_of :: "nat \<times> inode \<Rightarrow> file_identity" where
  "identity_of n = \<lparr>fiDevice = inDevice (snd n), fiInode = fst n, fiSize = length (inData (snd n)), fiTime = inTime (snd n)\<rparr>"

text \<open>What a name stands for.\<close>

definition at_name :: "fs_path \<Rightarrow> disk \<Rightarrow> (nat \<times> inode) option" where
  "at_name p d = map_option (\<lambda>i. (i, dkInodes d i)) (dkNames d p)"

text \<open>A system call begins: others act, and it may be bound to fail.\<close>

definition enter :: "world \<Rightarrow> bool \<times> world" where
  "enter w =
     (case wFaults w of [] \<Rightarrow> True | ok # _ \<Rightarrow> ok,
      w\<lparr>wDisk := (case wMoves w of [] \<Rightarrow> wDisk w | m # _ \<Rightarrow> m (wDisk w)),
        wMoves := drop 1 (wMoves w), wFaults := drop 1 (wFaults w)\<rparr>)"

definition set_disk :: "disk \<Rightarrow> world \<Rightarrow> world" where
  "set_disk d w = w\<lparr>wDisk := d, wPast := wDisk w # wPast w\<rparr>"

section \<open>System calls\<close>

text \<open>\<open>stat\<close>.\<close>

definition stat_call :: "fs_path \<Rightarrow> world \<Rightarrow> (nat \<times> inode) option \<times> world" where
  "stat_call p w = (case enter w of (ok, w) \<Rightarrow> (if ok then at_name p (wDisk w) else None, w))"

definition readIdentity :: "fs_path \<Rightarrow> world \<Rightarrow> file_identity option \<times> world" where
  "readIdentity p w = (case stat_call p w of (r, w) \<Rightarrow> (map_option identity_of r, w))"

text \<open>\<open>open\<close> with \<open>O_CREAT | O_EXCL\<close>.\<close>

definition open_new :: "fs_path \<Rightarrow> nat \<Rightarrow> world \<Rightarrow> nat option \<times> world" where
  "open_new p mode w =
     (case enter w of (ok, w) \<Rightarrow>
        (let d = wDisk w; i = dkNext d in
         if \<not> ok \<or> dkNames d p \<noteq> None then (None, w)
         else (Some i, set_disk (d\<lparr>dkNames := (dkNames d)(p \<mapsto> i), dkNext := i + 1,
                 dkInodes := (dkInodes d)(i := \<lparr>inDevice = wDevice w, inMode = mode, inTime = wClock w, inData = []\<rparr>)\<rparr>)
                 (w\<lparr>wCreated := i # wCreated w\<rparr>))))"

definition change_inode :: "nat \<Rightarrow> (inode \<Rightarrow> inode) \<Rightarrow> world \<Rightarrow> world" where
  "change_inode i f w = (let d = wDisk w in set_disk (d\<lparr>dkInodes := (dkInodes d)(i := f (dkInodes d i))\<rparr>) w)"

fun writeAll :: "nat \<Rightarrow> bytes \<Rightarrow> write_call list \<Rightarrow> world \<Rightarrow> bool \<times> world" where
  "writeAll i data rs w =
     (if data = [] then (True, w\<lparr>wWrites := rs\<rparr>)
      else (case rs of
              [] \<Rightarrow> (True, change_inode i (\<lambda>n. n\<lparr>inData := inData n @ data\<rparr>) (w\<lparr>wWrites := []\<rparr>))
            | Wrote n # rs' \<Rightarrow>
                if n > 0 then
                  writeAll i (drop n data) rs' (change_inode i (\<lambda>x. x\<lparr>inData := inData x @ take n data\<rparr>) w)
                else (False, w\<lparr>wWrites := rs'\<rparr>)
            | Interrupted # rs' \<Rightarrow> writeAll i data rs' w
            | WriteError # rs' \<Rightarrow> (False, w\<lparr>wWrites := rs'\<rparr>)))"

declare writeAll.simps [simp del]

text \<open>\<open>fsync\<close> and \<open>close\<close>; \<open>fchmod\<close>.\<close>

definition fd_call :: "world \<Rightarrow> bool \<times> world" where
  "fd_call w = enter w"

definition fchmod_call :: "nat \<Rightarrow> nat \<Rightarrow> world \<Rightarrow> bool \<times> world" where
  "fchmod_call i mode w =
     (case enter w of (ok, w) \<Rightarrow> if ok then (True, change_inode i (\<lambda>n. n\<lparr>inMode := mode\<rparr>) w) else (False, w))"

definition unlink_call :: "fs_path \<Rightarrow> world \<Rightarrow> world" where
  "unlink_call p w =
     (case enter w of (ok, w) \<Rightarrow>
        (case at_name p (wDisk w) of
           None \<Rightarrow> w
         | Some n \<Rightarrow>
             if ok then set_disk ((wDisk w)\<lparr>dkNames := (dkNames (wDisk w))(p := None)\<rparr>)
                          (w\<lparr>wUnlinked := n # wUnlinked w\<rparr>)
             else w))"

definition rename_call :: "fs_path \<Rightarrow> fs_path \<Rightarrow> world \<Rightarrow> bool \<times> world" where
  "rename_call a b w =
     (case enter w of (ok, w) \<Rightarrow>
        (let d = wDisk w in
         if ok \<and> dkNames d a \<noteq> None
         then (True, set_disk (d\<lparr>dkNames := (dkNames d)(b := dkNames d a, a := None)\<rparr>) w)
         else (False, w)))"

definition renameExchange :: "fs_path \<Rightarrow> fs_path \<Rightarrow> world \<Rightarrow> bool \<times> world" where
  "renameExchange a b w =
     (case enter w of (ok, w) \<Rightarrow>
        (let d = wDisk w in
         case (at_name a d, at_name b d) of
           (Some x, Some y) \<Rightarrow>
             if ok then (True, set_disk (d\<lparr>dkNames := (dkNames d)(a := dkNames d b, b := dkNames d a)\<rparr>)
                                 (w\<lparr>wSwaps := (y, x) # wSwaps w\<rparr>))
             else (False, w)
         | _ \<Rightarrow> (False, w)))"

text \<open>The result, and whether the target existed.\<close>

definition renameNoReplace :: "fs_path \<Rightarrow> fs_path \<Rightarrow> world \<Rightarrow> (bool \<times> bool) \<times> world" where
  "renameNoReplace a b w =
     (case enter w of (ok, w) \<Rightarrow>
        (let d = wDisk w in
         if \<not> ok \<or> dkNames d a = None then ((False, False), w)
         else if dkNames d b \<noteq> None then ((False, True), w)
         else ((True, False), set_disk (d\<lparr>dkNames := (dkNames d)(b := dkNames d a, a := None)\<rparr>) w)))"

section \<open>The functions\<close>

text \<open>The number behind the next temporary or conflict name.\<close>

definition next_serial :: "world \<Rightarrow> nat \<times> world" where
  "next_serial w = (wSerial w, w\<lparr>wSerial := (wSerial w + 1) mod 2 ^ 32\<rparr>)"

definition temp_name :: "fs_path \<Rightarrow> nat \<Rightarrow> nat \<Rightarrow> fs_path" where
  "temp_name p pid serial = p @ ''.tmp.'' @ to_dec pid @ ''.'' @ to_dec serial"

definition conflict_name :: "fs_path \<Rightarrow> nat \<Rightarrow> nat \<Rightarrow> fs_path" where
  "conflict_name p pid serial = p @ ''.slssteam-conditional-conflict.'' @ to_dec pid @ ''.'' @ to_dec serial"

primrec preserve_loop :: "nat \<Rightarrow> fs_path \<Rightarrow> fs_path \<Rightarrow> world \<Rightarrow> bool \<times> world" where
  "preserve_loop 0 src base w = (False, w)"
| "preserve_loop (Suc n) src base w =
     (case next_serial w of (serial, w) \<Rightarrow>
        (case renameNoReplace src (conflict_name base (wPid w) serial) w of
           ((True, _), w) \<Rightarrow> (True, w)
         | ((False, exists), w) \<Rightarrow> if \<not> exists then (False, w) else preserve_loop n src base w))"

definition preserveConflict :: "fs_path \<Rightarrow> fs_path \<Rightarrow> world \<Rightarrow> bool \<times> world" where
  "preserveConflict src base w = preserve_loop 16 src base w"

text \<open>The temporary file's name, when it was prepared. The first step ends with the open descriptor.\<close>

definition open_temp :: "fs_path \<Rightarrow> world \<Rightarrow> (fs_path \<times> nat \<times> nat) option \<times> world" where
  "open_temp p w =
     (case stat_call p w of (st, w) \<Rightarrow>
        (let mode = (case st of None \<Rightarrow> 420 | Some n \<Rightarrow> inMode (snd n) mod 4096) in
         case next_serial w of (serial, w) \<Rightarrow>
           (let t = temp_name p (wPid w) serial in
            case open_new t mode w of
              (None, w) \<Rightarrow> (None, w)
            | (Some i, w) \<Rightarrow> (Some (t, i, mode), w))))"

definition fill_temp :: "nat \<Rightarrow> nat \<Rightarrow> bytes \<Rightarrow> world \<Rightarrow> bool \<times> world" where
  "fill_temp i mode data w =
     (case writeAll i data (wWrites w) w of (ok1, w) \<Rightarrow>
        (case (if ok1 then fchmod_call i mode w else (False, w)) of (ok2, w) \<Rightarrow>
           (case (if ok2 then fd_call w else (False, w)) of (ok3, w) \<Rightarrow>
              (case fd_call w of (closed, w) \<Rightarrow> (ok3 \<and> closed, w)))))"

definition prepareTemp :: "fs_path \<Rightarrow> bytes \<Rightarrow> world \<Rightarrow> fs_path option \<times> world" where
  "prepareTemp p data w =
     (if p = [] then (None, w)
      else (case open_temp p w of
              (None, w) \<Rightarrow> (None, w)
            | (Some (t, i, mode), w) \<Rightarrow>
                (case fill_temp i mode data w of
                   (True, w) \<Rightarrow> (Some t, w)
                 | (False, w) \<Rightarrow> (None, unlink_call t w))))"

definition atomic_write_file :: "fs_path \<Rightarrow> bytes \<Rightarrow> world \<Rightarrow> bool \<times> world" where
  "atomic_write_file p data w =
     (case prepareTemp p data w of
        (None, w) \<Rightarrow> (False, w)
      | (Some t, w) \<Rightarrow>
          (case rename_call t p w of
             (True, w) \<Rightarrow> (True, w)
           | (False, w) \<Rightarrow> (False, unlink_call t w)))"

datatype publish_error =
    Disappeared | Changed | NotPrepared | TempDisappeared | Unavailable
  | ChangedBeforeRollback bool | RollbackFailed bool | ChangedDuringPublish
  | RollbackTargetChanged bool | RestoreFailed bool

text \<open>After the exchange. The arguments of the errors tell whether the external file was preserved.\<close>

definition settle_publish ::
  "fs_path \<Rightarrow> fs_path \<Rightarrow> file_identity \<Rightarrow> file_identity \<Rightarrow> world \<Rightarrow> publish_error option \<times> world" where
  "settle_publish t p expected prepared w =
     (case readIdentity t w of (displaced, w) \<Rightarrow>
        (let displacedMatches = (displaced = Some expected) in
         case readIdentity p w of (visible, w) \<Rightarrow>
           (let preparedVisible = (visible = Some prepared) in
            if displacedMatches \<and> preparedVisible then (None, unlink_call t w)
            else if \<not> preparedVisible then
              (case preserveConflict t p w of (ok, w) \<Rightarrow> (Some (ChangedBeforeRollback ok), w))
            else (case renameExchange t p w of
                    (False, w) \<Rightarrow>
                      (case preserveConflict t p w of (ok, w) \<Rightarrow> (Some (RollbackFailed ok), w))
                  | (True, w) \<Rightarrow>
                      (case readIdentity t w of (rolled, w) \<Rightarrow>
                         if rolled = Some prepared then (Some ChangedDuringPublish, unlink_call t w)
                         else (case renameExchange t p w of
                                 (True, w) \<Rightarrow>
                                   (case preserveConflict t p w of (ok, w) \<Rightarrow> (Some (RollbackTargetChanged ok), w))
                               | (False, w) \<Rightarrow>
                                   (case preserveConflict t p w of (ok, w) \<Rightarrow> (Some (RestoreFailed ok), w))))))))"

text \<open>The result is the error, \<open>None\<close> when the file was published.\<close>

definition writeIfUnchanged ::
  "fs_path \<Rightarrow> file_identity \<Rightarrow> bytes \<Rightarrow> world \<Rightarrow> publish_error option \<times> world" where
  "writeIfUnchanged p expected data w =
     (case readIdentity p w of
        (None, w) \<Rightarrow> (Some Disappeared, w)
      | (Some current, w) \<Rightarrow>
          if current \<noteq> expected then (Some Changed, w)
          else (case prepareTemp p data w of
                  (None, w) \<Rightarrow> (Some NotPrepared, w)
                | (Some t, w) \<Rightarrow>
                    (case readIdentity t w of
                       (None, w) \<Rightarrow> (Some TempDisappeared, unlink_call t w)
                     | (Some prepared, w) \<Rightarrow>
                         (case renameExchange t p w of
                            (False, w) \<Rightarrow> (Some Unavailable, unlink_call t w)
                          | (True, w) \<Rightarrow> settle_publish t p expected prepared w))))"

section \<open>The temporary name is private\<close>

definition leaves :: "fs_path \<Rightarrow> (disk \<Rightarrow> disk) \<Rightarrow> bool" where
  "leaves t m \<longleftrightarrow> (\<forall>d. at_name t (m d) = at_name t d)"

definition quiet :: "fs_path \<Rightarrow> world \<Rightarrow> bool" where
  "quiet t w \<longleftrightarrow> (\<forall>m \<in> set (wMoves w). leaves t m)"

abbreviation temp_at :: "fs_path \<Rightarrow> world \<Rightarrow> (nat \<times> inode) option" where
  "temp_at t w \<equiv> at_name t (wDisk w)"

definition ghosts :: "world \<Rightarrow> (nat \<times> inode) list \<times> ((nat \<times> inode) \<times> (nat \<times> inode)) list \<times> nat list" where
  "ghosts w = (wUnlinked w, wSwaps w, wCreated w)"

definition kept :: "fs_path \<Rightarrow> world \<Rightarrow> world \<Rightarrow> bool" where
  "kept t w w' \<longleftrightarrow> (quiet t w \<longrightarrow> quiet t w' \<and> temp_at t w' = temp_at t w \<and> ghosts w' = ghosts w)"

lemma keptD: "kept t w w' \<Longrightarrow> quiet t w \<Longrightarrow> quiet t w' \<and> temp_at t w' = temp_at t w \<and> ghosts w' = ghosts w"
  by (simp add: kept_def)

lemma ghosts_enter: "enter w = (ok, w') \<Longrightarrow> ghosts w' = ghosts w \<and> wPid w' = wPid w \<and> wSerial w' = wSerial w"
  by (auto simp: enter_def ghosts_def)

lemma kept_enter: "enter w = (ok, w') \<Longrightarrow> kept t w w'"
proof -
  assume e: "enter w = (ok, w')"
  have q: "quiet t w \<Longrightarrow> temp_at t w' = temp_at t w"
    using e by (auto simp: enter_def quiet_def leaves_def split: list.splits)
  have "quiet t w \<Longrightarrow> quiet t w'"
    using e set_drop_subset [of 1 "wMoves w"] by (auto simp: enter_def quiet_def)
  with q ghosts_enter [OF e] show ?thesis by (simp add: kept_def)
qed

lemma kept_stat: "stat_call q w = (r, w') \<Longrightarrow> kept t w w'"
  by (auto simp: stat_call_def intro: kept_enter split: prod.splits)

lemma kept_read: "readIdentity q w = (r, w') \<Longrightarrow> kept t w w'"
  by (auto simp: readIdentity_def intro: kept_stat split: prod.splits)

lemma read_temp:
  assumes "readIdentity t w = (Some d, w')" "quiet t w"
  obtains n where "temp_at t w = Some n" "identity_of n = d"
proof -
  obtain ok w1 where e: "enter w = (ok, w1)" by fastforce
  with assms(1) obtain n where n: "temp_at t w1 = Some n" "d = identity_of n"
    by (auto simp: readIdentity_def stat_call_def split: if_splits)
  moreover have "temp_at t w = temp_at t w1" using keptD [OF kept_enter [OF e, of t] assms(2)] by simp
  ultimately show thesis using that by simp
qed

lemma exchange_fails: "renameExchange a b w = (False, w') \<Longrightarrow> kept t w w'"
  by (auto simp: renameExchange_def Let_def intro: kept_enter split: prod.splits option.splits if_splits)

lemma exchange_works:
  assumes "renameExchange t p w = (True, w')" "t \<noteq> p" "quiet t w"
  obtains x y where "temp_at t w = Some x" "temp_at t w' = Some y" "at_name p (wDisk w') = Some x" "quiet t w'"
    "ghosts w' = (wUnlinked w, (y, x) # wSwaps w, wCreated w)"
proof -
  obtain ok w1 where e: "enter w = (ok, w1)" by fastforce
  note k = keptD [OF kept_enter [OF e, of t] assms(3)]
  from assms(1) e obtain x y where xy: "temp_at t w1 = Some x" "at_name p (wDisk w1) = Some y"
    and w': "w' = set_disk ((wDisk w1)\<lparr>dkNames := (dkNames (wDisk w1))(t := dkNames (wDisk w1) p, p := dkNames (wDisk w1) t)\<rparr>)
      (w1\<lparr>wSwaps := (y, x) # wSwaps w1\<rparr>)"
    by (auto simp: renameExchange_def Let_def split: option.splits if_splits)
  show thesis
  proof (rule that)
    show "temp_at t w = Some x" using xy(1) k by simp
    show "temp_at t w' = Some y" "at_name p (wDisk w') = Some x" using xy assms(2)
      by (auto simp: w' set_disk_def at_name_def)
    show "quiet t w'" using k by (simp add: w' set_disk_def quiet_def)
    show "ghosts w' = (wUnlinked w, (y, x) # wSwaps w, wCreated w)" using k by (simp add: w' set_disk_def ghosts_def)
  qed
qed

lemma exchange_ghosts:
  assumes "renameExchange t p w = (ok, w')" "t \<noteq> p" "quiet t w"
  shows "quiet t w' \<and> wUnlinked w' = wUnlinked w \<and> wCreated w' = wCreated w"
proof (cases ok)
  case True
  then have "renameExchange t p w = (True, w')" using assms(1) by simp
  from exchange_works [OF this assms(2,3)] show ?thesis by (auto simp: ghosts_def)
next
  case False
  then have "renameExchange t p w = (False, w')" using assms(1) by simp
  from keptD [OF exchange_fails [OF this, of t] assms(3)] show ?thesis by (simp add: ghosts_def)
qed

lemma unlink_ghosts:
  assumes "quiet t w"
  shows "wSwaps (unlink_call t w) = wSwaps w \<and> wCreated (unlink_call t w) = wCreated w \<and>
    (wUnlinked (unlink_call t w) = wUnlinked w \<or> (\<exists>n. temp_at t w = Some n \<and> wUnlinked (unlink_call t w) = n # wUnlinked w))"
proof -
  obtain ok w1 where e: "enter w = (ok, w1)" by fastforce
  note k = keptD [OF kept_enter [OF e, of t] assms]
  show ?thesis using k by (auto simp: unlink_call_def e set_disk_def ghosts_def split: option.splits)
qed

lemma preserve_ghosts: "preserve_loop n src base w = (ok, w') \<Longrightarrow> ghosts w' = ghosts w"
proof (induction n arbitrary: w)
  case (Suc n)
  let ?w1 = "snd (next_serial w)"
  obtain r w2 where r: "renameNoReplace src (conflict_name base (wPid ?w1) (fst (next_serial w))) ?w1 = (r, w2)" by fastforce
  have g1: "ghosts ?w1 = ghosts w" by (simp add: next_serial_def ghosts_def)
  have "ghosts w2 = ghosts ?w1"
    using r ghosts_enter [of ?w1]
    by (auto simp: renameNoReplace_def Let_def set_disk_def ghosts_def split: prod.splits if_splits)
  with g1 Suc r show ?case by (cases r) (auto simp: next_serial_def split: bool.splits if_splits)
qed simp

section \<open>What a publication drops\<close>

text \<open>The files the program unlinked on the way from one state to another are of a given kind.\<close>

definition drops :: "(nat \<times> inode \<Rightarrow> bool) \<Rightarrow> world \<Rightarrow> world \<Rightarrow> bool" where
  "drops P w w' \<longleftrightarrow> (\<forall>x \<in> set (wUnlinked w'). x \<in> set (wUnlinked w) \<or> P x)"

lemma settle_drops:
  assumes "settle_publish t p expected prepared w = (e, w')" "t \<noteq> p" "quiet t w"
  shows "drops (\<lambda>x. identity_of x = expected \<or> identity_of x = prepared) w w' \<and> wCreated w' = wCreated w \<and>
    (e = None \<longrightarrow> wSwaps w' = wSwaps w \<and> (\<exists>n. temp_at t w = Some n \<and> identity_of n = expected))"
proof -
  obtain a w1 where a: "readIdentity t w = (a, w1)" by fastforce
  obtain b w2 where b: "readIdentity p w1 = (b, w2)" by fastforce
  have k1: "quiet t w1" "temp_at t w1 = temp_at t w" "ghosts w1 = ghosts w"
    using keptD [OF kept_read [OF a, of t] assms(3)] by simp_all
  have k2: "quiet t w2" "temp_at t w2 = temp_at t w" "ghosts w2 = ghosts w"
    using keptD [OF kept_read [OF b, of t] k1(1)] k1 by simp_all
  have pres: "drops P w v \<and> wCreated v = wCreated w"
    if "preserveConflict t p u = (ok, v)" "wUnlinked u = wUnlinked w" "wCreated u = wCreated w" for P ok u v
    using preserve_ghosts [of 16 t p u ok v] that by (simp add: preserveConflict_def ghosts_def drops_def)
  show ?thesis
  proof (cases "a = Some expected \<and> b = Some prepared")
    case True
    from True a assms(3) obtain n where n: "temp_at t w = Some n" "identity_of n = expected" using read_temp by blast
    have "e = None" "w' = unlink_call t w2" using assms(1) a b True by (simp_all add: settle_publish_def)
    then show ?thesis using unlink_ghosts [OF k2(1)] k2 n by (auto simp: drops_def ghosts_def)
  next
    case False
    show ?thesis
    proof (cases "b = Some prepared")
      case invisible: False
      obtain ok v where v: "preserveConflict t p w2 = (ok, v)" by fastforce
      with assms(1) a b False invisible have "e \<noteq> None" "w' = v" by (auto simp: settle_publish_def)
      then show ?thesis using pres [OF v] k2 by (auto simp: ghosts_def)
    next
      case visible: True
      then have m: "a \<noteq> Some expected" using False by simp
      obtain x w3 where x: "renameExchange t p w2 = (x, w3)" by fastforce
      show ?thesis
      proof (cases x)
        case False
        obtain ok v where v: "preserveConflict t p w3 = (ok, v)" by fastforce
        have "e \<noteq> None" "w' = v" using assms(1) a b m visible x v False by (auto simp: settle_publish_def)
        moreover have "wUnlinked w3 = wUnlinked w" "wCreated w3 = wCreated w"
          using exchange_ghosts [OF x assms(2) k2(1)] k2 by (simp_all add: ghosts_def)
        ultimately show ?thesis using pres [OF v] by auto
      next
        case True
        have k3: "quiet t w3" "wUnlinked w3 = wUnlinked w" "wCreated w3 = wCreated w"
          using exchange_ghosts [OF x assms(2) k2(1)] k2 by (simp_all add: ghosts_def)
        obtain c w4 where c: "readIdentity t w3 = (c, w4)" by fastforce
        have k4: "quiet t w4" "temp_at t w4 = temp_at t w3" "wUnlinked w4 = wUnlinked w" "wCreated w4 = wCreated w"
          using keptD [OF kept_read [OF c, of t] k3(1)] k3 by (simp_all add: ghosts_def)
        show ?thesis
        proof (cases "c = Some prepared")
          case True
          then obtain n where n: "temp_at t w3 = Some n" "identity_of n = prepared"
            using read_temp c k3(1) by blast
          have "e \<noteq> None" "w' = unlink_call t w4"
            using assms(1) a b m visible x c \<open>x\<close> True by (auto simp: settle_publish_def)
          then show ?thesis using unlink_ghosts [OF k4(1)] k4 n by (auto simp: drops_def)
        next
          case False
          obtain y' w5 where y': "renameExchange t p w4 = (y', w5)" by fastforce
          obtain ok v where v: "preserveConflict t p w5 = (ok, v)" by fastforce
          have e: "e \<noteq> None" "w' = v"
            using assms(1) a b m visible x c \<open>x\<close> False y' v by (cases y'; auto simp: settle_publish_def)+
          have "wUnlinked w5 = wUnlinked w" "wCreated w5 = wCreated w"
            using exchange_ghosts [OF y' assms(2) k4(1)] k4 by simp_all
          then show ?thesis using pres [OF v] e by auto
        qed
      qed
    qed
  qed
qed

subsection \<open>Preparing the file\<close>

abbreviation own_name :: "fs_path \<Rightarrow> world \<Rightarrow> fs_path" where
  "own_name p w \<equiv> temp_name p (wPid w) (wSerial w)"

lemma own_name_differs: "own_name p w \<noteq> p"
  by (simp add: temp_name_def)

lemma open_temp_fails: "open_temp p w = (None, w') \<Longrightarrow> ghosts w' = ghosts w"
  using ghosts_enter
  by (fastforce simp: open_temp_def stat_call_def next_serial_def open_new_def Let_def ghosts_def
      split: prod.splits if_splits option.splits)

lemma open_temp_works:
  assumes "open_temp p w = (Some (t, i, mode), w')" "quiet (own_name p w) w"
  shows "t = own_name p w \<and> quiet t w' \<and> wUnlinked w' = wUnlinked w \<and> wSwaps w' = wSwaps w \<and>
    wCreated w' = i # wCreated w \<and> (\<exists>n. temp_at t w' = Some (i, n) \<and> inData n = [])"
proof -
  obtain st w1 where st: "stat_call p w = (st, w1)" by fastforce
  have same: "wPid w1 = wPid w" "wSerial w1 = wSerial w"
    using st ghosts_enter by (fastforce simp: stat_call_def split: prod.splits)+
  let ?t = "own_name p w" and ?w2 = "snd (next_serial w1)"
  have k1: "quiet ?t w1" "ghosts w1 = ghosts w" using keptD [OF kept_stat [OF st, of ?t] assms(2)] by simp_all
  have n: "next_serial w1 = (wSerial w1, ?w2)" by (simp add: next_serial_def)
  have k2: "quiet ?t ?w2" "ghosts ?w2 = ghosts w" "wPid ?w2 = wPid w"
    using k1 same by (simp_all add: next_serial_def quiet_def ghosts_def)
  obtain ok w3 where e: "enter ?w2 = (ok, w3)" by fastforce
  have k3: "quiet ?t w3" "ghosts w3 = ghosts w" using keptD [OF kept_enter [OF e, of ?t] k2(1)] k2 by simp_all
  from assms(1) have o: "t = ?t" "open_new ?t mode ?w2 = (Some i, w')"
    using st n k2(3) same by (auto simp: open_temp_def Let_def split: option.splits prod.splits)
  from o(2) e have "w' = set_disk ((wDisk w3)\<lparr>dkNames := (dkNames (wDisk w3))(?t \<mapsto> i), dkNext := i + 1,
                 dkInodes := (dkInodes (wDisk w3))(i := \<lparr>inDevice = wDevice w3, inMode = mode, inTime = wClock w3, inData = []\<rparr>)\<rparr>)
                 (w3\<lparr>wCreated := i # wCreated w3\<rparr>)"
    by (auto simp: open_new_def Let_def split: if_splits)
  with o(1) k3 show ?thesis by (simp add: set_disk_def quiet_def ghosts_def at_name_def)
qed

lemma change_inode_temp:
  "temp_at t w = Some (i, n) \<Longrightarrow> temp_at t (change_inode i f w) = Some (i, f n)"
  by (auto simp: change_inode_def set_disk_def at_name_def Let_def)

lemma change_inode_rest: "ghosts (change_inode i f w) = ghosts w \<and> wMoves (change_inode i f w) = wMoves w"
  by (simp add: change_inode_def set_disk_def ghosts_def Let_def)

lemma writeAll_effect:
  "writeAll i data rs w = (ok, w') \<Longrightarrow> temp_at t w = Some (i, n) \<Longrightarrow>
     ghosts w' = ghosts w \<and> wMoves w' = wMoves w \<and>
     (\<exists>n'. temp_at t w' = Some (i, n') \<and> (ok \<longrightarrow> inData n' = inData n @ data))"
proof (induction i data rs w arbitrary: n rule: writeAll.induct)
  case (1 i data rs w)
  show ?case
  proof (cases "data = []")
    case True
    with 1(3,4) show ?thesis by (subst (asm) writeAll.simps) (auto simp: ghosts_def)
  next
    case False
    show ?thesis
    proof (cases rs)
      case Nil
      with 1(3) False have "ok" "w' = change_inode i (\<lambda>n. n\<lparr>inData := inData n @ data\<rparr>) (w\<lparr>wWrites := []\<rparr>)"
        by (subst (asm) writeAll.simps, simp)+
      then show ?thesis
        using change_inode_temp [of t "w\<lparr>wWrites := []\<rparr>" i n "\<lambda>n. n\<lparr>inData := inData n @ data\<rparr>"] 1(4)
          change_inode_rest [of i "\<lambda>n. n\<lparr>inData := inData n @ data\<rparr>" "w\<lparr>wWrites := []\<rparr>"]
        by (auto simp: ghosts_def)
    next
      case (Cons r rs')
      show ?thesis
      proof (cases r)
        case (Wrote k)
        let ?w = "change_inode i (\<lambda>x. x\<lparr>inData := inData x @ take k data\<rparr>) w"
        show ?thesis
        proof (cases "k > 0")
          case True
          with 1(3) False Cons Wrote have "writeAll i (drop k data) rs' ?w = (ok, w')"
            by (subst (asm) writeAll.simps) simp
          from 1(1) [OF False Cons Wrote True this change_inode_temp [OF 1(4)]]
          show ?thesis using change_inode_rest [of i _ w] by auto
        next
          case kz: False
          with 1(3) False Cons Wrote have "\<not> ok" "w' = w\<lparr>wWrites := rs'\<rparr>" by (subst (asm) writeAll.simps, simp)+
          with 1(4) show ?thesis by (simp add: ghosts_def)
        qed
      next
        case Interrupted
        with 1(3) False Cons have "writeAll i data rs' w = (ok, w')" by (subst (asm) writeAll.simps) simp
        from 1(2) [OF False Cons Interrupted this 1(4)] show ?thesis .
      next
        case WriteError
        with 1(3) False Cons have "\<not> ok" "w' = w\<lparr>wWrites := rs'\<rparr>" by (subst (asm) writeAll.simps, simp)+
        with 1(4) show ?thesis by (simp add: ghosts_def)
      qed
    qed
  qed
qed

lemma fill_temp_effect:
  assumes "fill_temp i mode data w = (ok, w')" "quiet t w" "temp_at t w = Some (i, n)" "inData n = []"
  shows "quiet t w' \<and> ghosts w' = ghosts w \<and> (\<exists>n'. temp_at t w' = Some (i, n') \<and> (ok \<longrightarrow> inData n' = data))"
proof -
  obtain ok1 w1 where 1: "writeAll i data (wWrites w) w = (ok1, w1)" by fastforce
  from writeAll_effect [OF 1 assms(3)] assms(2,4) obtain n1 where
    k1: "quiet t w1" "ghosts w1 = ghosts w" "temp_at t w1 = Some (i, n1)" "ok1 \<longrightarrow> inData n1 = data"
    by (auto simp: quiet_def)
  obtain ok2 w2 where 2: "(if ok1 then fchmod_call i mode w1 else (False, w1)) = (ok2, w2)" by fastforce
  have "\<exists>n2. quiet t w2 \<and> ghosts w2 = ghosts w \<and> temp_at t w2 = Some (i, n2) \<and> (ok2 \<longrightarrow> inData n2 = data)"
  proof (cases ok1)
    case False
    with 2 k1 show ?thesis by auto
  next
    case True
    obtain oke we where e: "enter w1 = (oke, we)" by fastforce
    note ke = keptD [OF kept_enter [OF e, of t] k1(1)]
    show ?thesis
    proof (cases oke)
      case True
      with 2 e \<open>ok1\<close> have "w2 = change_inode i (\<lambda>n. n\<lparr>inMode := mode\<rparr>) we" by (auto simp: fchmod_call_def)
      then show ?thesis using ke k1 \<open>ok1\<close> change_inode_temp [of t we i n1] change_inode_rest [of i _ we]
        by (auto simp: quiet_def)
    next
      case False
      with 2 e \<open>ok1\<close> ke k1 show ?thesis by (auto simp: fchmod_call_def)
    qed
  qed
  then obtain n2 where k2: "quiet t w2" "ghosts w2 = ghosts w" "temp_at t w2 = Some (i, n2)" "ok2 \<longrightarrow> inData n2 = data"
    by blast
  obtain ok3 w3 where 3: "(if ok2 then fd_call w2 else (False, w2)) = (ok3, w3)" by fastforce
  have k3: "quiet t w3 \<and> ghosts w3 = ghosts w \<and> temp_at t w3 = Some (i, n2) \<and> (ok3 \<longrightarrow> ok2)"
    using 3 k2 keptD [OF kept_enter [of w2 ok3 w3 t] k2(1)] by (auto simp: fd_call_def split: if_splits)
  obtain c w4 where 4: "fd_call w3 = (c, w4)" by fastforce
  have k4: "quiet t w4 \<and> ghosts w4 = ghosts w3 \<and> temp_at t w4 = temp_at t w3"
    using keptD [OF kept_enter [of w3 c w4 t]] 4 k3 by (auto simp: fd_call_def)
  have "ok = (ok3 \<and> c)" "w' = w4" using assms(1) 1 2 3 4 by (simp_all add: fill_temp_def)
  then show ?thesis using k4 k3 k2(4) by auto
qed

lemma prepareTemp_works:
  assumes "prepareTemp p data w = (Some t, w')" "quiet (own_name p w) w"
  obtains i n where "t = own_name p w" "quiet t w'" "temp_at t w' = Some (i, n)" "inData n = data"
    "ghosts w' = (wUnlinked w, wSwaps w, i # wCreated w)"
proof -
  from assms(1) obtain i mode w1 where o: "open_temp p w = (Some (t, i, mode), w1)"
    and f: "fill_temp i mode data w1 = (True, w')"
    by (auto simp: prepareTemp_def split: if_splits option.splits prod.splits bool.splits)
  note a = open_temp_works [OF o assms(2)]
  then obtain n where n: "temp_at t w1 = Some (i, n)" "inData n = []" by blast
  from fill_temp_effect [OF f _ n] a obtain n' where
    "quiet t w'" "ghosts w' = ghosts w1" "temp_at t w' = Some (i, n')" "inData n' = data" by auto
  with that a show thesis by (simp add: ghosts_def)
qed

lemma prepareTemp_fails:
  assumes "prepareTemp p data w = (None, w')" "quiet (own_name p w) w"
  shows "drops (\<lambda>x. fst x \<in> set (wCreated w')) w w'"
proof (cases "p = []")
  case True
  with assms(1) show ?thesis by (simp add: prepareTemp_def drops_def)
next
  case False
  obtain o1 w1 where o1: "open_temp p w = (o1, w1)" by fastforce
  show ?thesis
  proof (cases o1)
    case None
    with assms(1) o1 False open_temp_fails [of p w w1] show ?thesis by (simp add: prepareTemp_def drops_def ghosts_def)
  next
    case (Some tim)
    then obtain t i mode where o: "open_temp p w = (Some (t, i, mode), w1)" using o1 by (cases tim) auto
    note a = open_temp_works [OF o assms(2)]
    then obtain n where n: "temp_at t w1 = Some (i, n)" "inData n = []" by blast
    obtain ok w2 where f: "fill_temp i mode data w1 = (ok, w2)" by fastforce
    from fill_temp_effect [OF f _ n] a obtain n' where
      k: "quiet t w2" "ghosts w2 = ghosts w1" "temp_at t w2 = Some (i, n')" by auto
    have "w' = unlink_call t w2" using assms(1) False o f by (auto simp: prepareTemp_def split: bool.splits)
    then show ?thesis using unlink_ghosts [OF k(1)] k a by (auto simp: drops_def ghosts_def)
  qed
qed

lemma drops_trans: "drops P w w1 \<Longrightarrow> drops Q w1 w2 \<Longrightarrow> (\<And>x. P x \<or> Q x \<Longrightarrow> R x) \<Longrightarrow> drops R w w2"
  by (auto simp: drops_def)

lemma drops_same: "wUnlinked w = wUnlinked w' \<Longrightarrow> drops P w w'"
  by (simp add: drops_def)

lemma publish_effect:
  assumes "writeIfUnchanged p expected data w = (e, w')" "quiet (own_name p w) w"
  shows "drops (\<lambda>x. identity_of x = expected \<or> fst x \<in> set (wCreated w')) w w' \<and>
    (e = None \<longrightarrow> (\<exists>old i n. wSwaps w' = (old, (i, n)) # wSwaps w \<and> identity_of old = expected \<and>
      inData n = data \<and> i \<in> set (wCreated w')))"
proof -
  let ?t = "own_name p w"
  obtain c w1 where c: "readIdentity p w = (c, w1)" by fastforce
  note k1 = keptD [OF kept_read [OF c, of ?t] assms(2)]
  have same: "own_name p w1 = ?t"
    using c ghosts_enter by (fastforce simp: readIdentity_def stat_call_def split: prod.splits)
  show ?thesis
  proof (cases "c = Some expected")
    case False
    with assms(1) c have "e \<noteq> None" "w' = w1" by (auto simp: writeIfUnchanged_def split: option.splits)
    with k1 show ?thesis by (simp add: drops_def ghosts_def)
  next
    case True
    obtain q w2 where q: "prepareTemp p data w1 = (q, w2)" by fastforce
    show ?thesis
    proof (cases q)
      case None
      with assms(1) c True q have "e \<noteq> None" "w' = w2" by (auto simp: writeIfUnchanged_def)
      moreover have "drops (\<lambda>x. fst x \<in> set (wCreated w2)) w1 w2"
        using prepareTemp_fails [OF q [unfolded None]] k1 same by simp
      ultimately show ?thesis using k1 by (auto simp: drops_def ghosts_def)
    next
      case (Some t)
      obtain i n where k2: "t = ?t" "quiet ?t w2" "temp_at ?t w2 = Some (i, n)" "inData n = data"
        "ghosts w2 = (wUnlinked w, wSwaps w, i # wCreated w)"
      proof (rule prepareTemp_works [OF q [unfolded Some]])
        show "quiet (own_name p w1) w1" using k1 same by simp
        fix i n assume "t = own_name p w1" "quiet t w2" "temp_at t w2 = Some (i, n)" "inData n = data"
          "ghosts w2 = (wUnlinked w1, wSwaps w1, i # wCreated w1)"
        with k1 same show thesis by (intro that [of i n]) (simp_all add: ghosts_def)
      qed
      obtain r w3 where r: "readIdentity ?t w2 = (r, w3)" by fastforce
      have k3: "quiet ?t w3" "temp_at ?t w3 = Some (i, n)" "ghosts w3 = (wUnlinked w, wSwaps w, i # wCreated w)"
        using keptD [OF kept_read [OF r, of ?t] k2(2)] k2 by simp_all
      show ?thesis
      proof (cases r)
        case None
        then have "e \<noteq> None" "w' = unlink_call ?t w3" using assms(1) c True q Some k2(1) r by (auto simp: writeIfUnchanged_def)
        then show ?thesis using unlink_ghosts [OF k3(1)] k3 by (auto simp: drops_def ghosts_def)
      next
        case prep: (Some prepared)
        then have id: "prepared = identity_of (i, n)" using read_temp [of ?t w2 prepared w3] r k2 by auto
        obtain x w4 where x: "renameExchange ?t p w3 = (x, w4)" by fastforce
        show ?thesis
        proof (cases x)
          case False
          then have "e \<noteq> None" "w' = unlink_call ?t w4"
            using assms(1) c True q Some k2(1) r prep x by (auto simp: writeIfUnchanged_def)
          moreover have k4: "quiet ?t w4" "temp_at ?t w4 = Some (i, n)" "ghosts w4 = ghosts w3"
            using keptD [OF exchange_fails [of ?t p w3 w4 ?t] k3(1)] x False k3 by auto
          ultimately show ?thesis using unlink_ghosts [OF k4(1)] k3 by (auto simp: drops_def ghosts_def)
        next
          case True
          then have x': "renameExchange ?t p w3 = (True, w4)" using x by simp
          obtain new old where y: "temp_at ?t w3 = Some new" "temp_at ?t w4 = Some old"
            "at_name p (wDisk w4) = Some new" "quiet ?t w4" "ghosts w4 = (wUnlinked w3, (old, new) # wSwaps w3, wCreated w3)"
            by (rule exchange_works [OF x' own_name_differs k3(1)])
          have k4: "quiet ?t w4" "temp_at ?t w4 = Some old" "ghosts w4 = (wUnlinked w, (old, (i, n)) # wSwaps w, i # wCreated w)"
            using y k3 by (simp_all add: ghosts_def)
          have s: "settle_publish ?t p expected prepared w4 = (e, w')"
            using assms(1) c \<open>c = Some expected\<close> q Some k2(1) r prep x' by (simp add: writeIfUnchanged_def)
          note f = settle_drops [OF s own_name_differs k4(1)]
          have "fst y = i" if "identity_of y = prepared" for y
            using that id by (simp add: identity_of_def)
          then show ?thesis using f k4 k2(4) by (auto simp: drops_def ghosts_def)
        qed
      qed
    qed
  qed
qed


text \<open>C16: when it reports success, there was one instant at which the target was the expected file and
  was replaced by a file with the given contents.\<close>

theorem publish_is_compare_and_swap:
  assumes "quiet (own_name p w) w" "writeIfUnchanged p expected data w = (None, w')"
  shows "\<exists>old i n. wSwaps w' = (old, (i, n)) # wSwaps w \<and> identity_of old = expected \<and>
    inData n = data \<and> i \<in> set (wCreated w')"
  using publish_effect [OF assms(2,1)] by blast

text \<open>A disk with one file, and another process that puts a second file in its place.\<close>

definition demo_inode :: "u8 \<Rightarrow> inode" where
  "demo_inode b = \<lparr>inDevice = 1, inMode = 420, inTime = (5, 0), inData = [b]\<rparr>"

definition demo_disk :: disk where
  "demo_disk = \<lparr>dkNames = [''a'' \<mapsto> 0, ''b'' \<mapsto> 1], dkInodes = (\<lambda>i. demo_inode (of_nat i)), dkNext = 2\<rparr>"

definition other_writer :: "disk \<Rightarrow> disk" where
  "other_writer d = d\<lparr>dkNames := (dkNames d)(''a'' \<mapsto> 1)\<rparr>"

definition demo_world :: "(disk \<Rightarrow> disk) list \<Rightarrow> world" where
  "demo_world ms = \<lparr>wDisk = demo_disk, wMoves = ms, wFaults = [], wWrites = [Interrupted, Wrote 1], wSerial = 0, wPid = 9,
     wDevice = 1, wClock = (6, 0), wPast = [], wCreated = [], wUnlinked = [], wSwaps = []\<rparr>"

definition demo_moves :: "(disk \<Rightarrow> disk) list" where
  "demo_moves = [id, id, id, id, id, id, id, other_writer]"

definition demo_expected :: file_identity where
  "demo_expected = \<lparr>fiDevice = 1, fiInode = 0, fiSize = 1, fiTime = (5, 0)\<rparr>"

lemma quiet_demo: "set ms \<subseteq> {id, other_writer} \<Longrightarrow> quiet (own_name ''a'' (demo_world ms)) (demo_world ms)"
  using own_name_differs [of "''a''" "demo_world ms"]
  by (auto simp: quiet_def leaves_def at_name_def other_writer_def demo_world_def)

lemma demo_name: "temp_name ''a'' 9 0 \<noteq> ''a''" "temp_name ''a'' 9 0 \<noteq> ''b''" "''a'' \<noteq> temp_name ''a'' 9 0" "''b'' \<noteq> temp_name ''a'' 9 0"
  by (simp_all add: temp_name_def)

lemmas run_simps = writeIfUnchanged_def settle_publish_def readIdentity_def stat_call_def enter_def prepareTemp_def open_temp_def
  next_serial_def open_new_def fill_temp_def writeAll.simps fchmod_call_def fd_call_def change_inode_def set_disk_def
  renameExchange_def unlink_call_def at_name_def identity_of_def demo_world_def demo_disk_def demo_inode_def demo_expected_def
  demo_moves_def other_writer_def demo_name Let_def

lemma demo_published: "fst (writeIfUnchanged ''a'' demo_expected [8, 9] (demo_world [])) = None"
  by (simp add: run_simps)


lemma publish_is_compare_and_swap_witness:
  "\<exists>old i n. wSwaps (snd (writeIfUnchanged ''a'' demo_expected [8, 9] (demo_world []))) =
       (old, (i, n)) # wSwaps (demo_world []) \<and> identity_of old = demo_expected \<and>
     inData n = [8, 9] \<and> i \<in> set (wCreated (snd (writeIfUnchanged ''a'' demo_expected [8, 9] (demo_world []))))"
proof (rule publish_is_compare_and_swap)
  show "quiet (own_name ''a'' (demo_world [])) (demo_world [])" by (rule quiet_demo) simp
  show "writeIfUnchanged ''a'' demo_expected [8, 9] (demo_world []) =
      (None, snd (writeIfUnchanged ''a'' demo_expected [8, 9] (demo_world [])))"
    using demo_published by (simp add: prod_eq_iff)
qed

section \<open>Readers see whole files\<close>

definition file_at :: "fs_path \<Rightarrow> disk \<Rightarrow> bytes option" where
  "file_at p d = map_option (\<lambda>n. inData (snd n)) (at_name p d)"

text \<open>The kernel gives a new file a number that no name has.\<close>

definition numbers_fresh :: "disk \<Rightarrow> bool" where
  "numbers_fresh d \<longleftrightarrow> (\<forall>q i. dkNames d q = Some i \<longrightarrow> i < dkNext d)"

text \<open>Nobody interferes, and at every moment since \<open>ds\<close> the name stands for \<open>x\<close>.\<close>

definition still :: "fs_path \<Rightarrow> (nat \<times> inode) option \<Rightarrow> disk list \<Rightarrow> world \<Rightarrow> bool" where
  "still p x ds w \<longleftrightarrow> wMoves w = [] \<and> at_name p (wDisk w) = x \<and>
     (\<exists>ps. wPast w = ps @ ds \<and> (\<forall>d \<in> set ps. at_name p d = x))"

lemma still_quiet: "still p x ds w \<Longrightarrow> quiet t w"
  by (simp add: still_def quiet_def)

lemma still_set_disk:
  "still p x ds w \<Longrightarrow> at_name p d = x \<Longrightarrow> still p x ds (set_disk d w)"
  by (auto simp: still_def set_disk_def intro: exI [of _ "wDisk w # _"])

lemma still_enter: "enter w = (ok, w') \<Longrightarrow> still p x ds w \<Longrightarrow> still p x ds w' \<and> wDisk w' = wDisk w"
  by (auto simp: still_def enter_def)

lemma still_fields:
  "still p x ds (w\<lparr>wWrites := a\<rparr>) = still p x ds w" "still p x ds (w\<lparr>wCreated := b\<rparr>) = still p x ds w"
  "still p x ds (w\<lparr>wUnlinked := c\<rparr>) = still p x ds w" "still p x ds (w\<lparr>wSerial := n\<rparr>) = still p x ds w"
  by (simp_all add: still_def)

lemma still_change:
  "still p x ds w \<Longrightarrow> dkNames (wDisk w) p \<noteq> Some i \<Longrightarrow> still p x ds (change_inode i f w)"
  unfolding change_inode_def Let_def
  by (intro still_set_disk) (cases "dkNames (wDisk w) p"; auto simp: at_name_def still_def)+

lemma still_at: "still p x ds w \<Longrightarrow> at_name p (wDisk w) = x"
  by (simp add: still_def)

lemma still_unlink:
  assumes "still p x ds w" "t \<noteq> p"
  shows "still p x ds (unlink_call t w)"
proof -
  obtain ok w1 where e: "enter w = (ok, w1)" by fastforce
  have s: "still p x ds w1" using still_enter [OF e assms(1)] by simp
  have "still p x ds (set_disk ((wDisk w1)\<lparr>dkNames := (dkNames (wDisk w1))(t := None)\<rparr>) (w1\<lparr>wUnlinked := u\<rparr>))" for u
    using s still_at [OF s] assms(2) by (intro still_set_disk) (simp_all add: still_fields at_name_def)
  with s show ?thesis by (auto simp: unlink_call_def e split: option.splits)
qed

lemma still_name: "still p x ds w \<Longrightarrow> dkNames (wDisk w) p = map_option fst x"
  by (cases "dkNames (wDisk w) p") (auto simp: still_def at_name_def)

lemma still_open_temp:
  assumes "open_temp p w = (r, w')" "still p x ds w" "numbers_fresh (wDisk w)"
  shows "still p x ds w' \<and> (\<forall>t i m. r = Some (t, i, m) \<longrightarrow> map_option fst x \<noteq> Some i)"
proof -
  obtain st w1 where st: "stat_call p w = (st, w1)" by fastforce
  then obtain ok1 where e1: "enter w = (ok1, w1)" by (auto simp: stat_call_def split: prod.splits)
  let ?t = "temp_name p (wPid w1) (wSerial w1)"
  obtain w2 where n: "next_serial w1 = (wSerial w1, w2)" by (simp add: next_serial_def)
  then have s2: "still p x ds w2" "wDisk w2 = wDisk w" and pid: "wPid w2 = wPid w1"
    using still_enter [OF e1 assms(2)] by (auto simp: next_serial_def still_fields)
  obtain ok w3 where e: "enter w2 = (ok, w3)" by fastforce
  have s3: "still p x ds w3" "wDisk w3 = wDisk w" using still_enter [OF e s2(1)] s2 by simp_all
  let ?i = "dkNext (wDisk w)"
  have fresh: "map_option fst x \<noteq> Some ?i"
    using assms(3) still_name [OF assms(2)] unfolding numbers_fresh_def by (metis less_irrefl)
  show ?thesis
  proof (cases "ok \<and> dkNames (wDisk w) ?t = None")
    case False
    have "r = None" "w' = w3"
      using assms(1) st n pid e s3(2) False by (auto simp: open_temp_def open_new_def Let_def)
    with s3 show ?thesis by simp
  next
    case True
    define mode where "mode = (case st of None \<Rightarrow> 420 | Some k \<Rightarrow> inMode (snd k) mod 4096)"
    define d where "d = (wDisk w)\<lparr>dkNames := (dkNames (wDisk w))(?t \<mapsto> ?i), dkNext := ?i + 1,
        dkInodes := (dkInodes (wDisk w))(?i := \<lparr>inDevice = wDevice w3, inMode = mode, inTime = wClock w3, inData = []\<rparr>)\<rparr>"
    have "r = Some (?t, ?i, mode)" "w' = set_disk d (w3\<lparr>wCreated := ?i # wCreated w3\<rparr>)"
      using assms(1) st n pid e s3(2) True by (auto simp: open_temp_def open_new_def Let_def mode_def d_def)
    moreover have "at_name p d = x"
      using own_name_differs [of p w1] fresh still_name [OF assms(2)] still_at [OF assms(2)]
      by (cases x) (auto simp: d_def at_name_def)
    ultimately show ?thesis using s3 fresh by (auto simp: still_fields intro: still_set_disk)
  qed
qed

lemma still_writeAll:
  "writeAll i data rs w = (ok, w') \<Longrightarrow> still p x ds w \<Longrightarrow> map_option fst x \<noteq> Some i \<Longrightarrow> still p x ds w'"
proof (induction i data rs w rule: writeAll.induct)
  case (1 i data rs w)
  note ch = still_change [of p x ds _ i]
  show ?case
  proof (cases "data = [] \<or> rs = []")
    case True
    with 1(3,4,5) show ?thesis
      using ch [of "w\<lparr>wWrites := []\<rparr>"] still_name [OF 1(4)]
      by (subst (asm) writeAll.simps) (auto simp: still_fields split: if_splits)
  next
    case False
    then obtain r rs' where rs: "rs = r # rs'" by (cases rs) auto
    show ?thesis
    proof (cases r)
      case (Wrote k)
      show ?thesis
      proof (cases "k > 0")
        case True
        with 1(3) False rs Wrote have "writeAll i (drop k data) rs' (change_inode i (\<lambda>x. x\<lparr>inData := inData x @ take k data\<rparr>) w) = (ok, w')"
          by (subst (asm) writeAll.simps) simp
        then show ?thesis using 1(1) [OF _ rs Wrote True] False ch [OF 1(4)] still_name [OF 1(4)] 1(5) by simp
      next
        case kz: False
        with 1(3) False rs Wrote have "w' = w\<lparr>wWrites := rs'\<rparr>" by (subst (asm) writeAll.simps) simp
        with 1(4) show ?thesis by (simp add: still_fields)
      qed
    next
      case Interrupted
      with 1(3) False rs have "writeAll i data rs' w = (ok, w')" by (subst (asm) writeAll.simps) simp
      then show ?thesis using 1(2) [OF _ rs Interrupted] False 1(4,5) by simp
    next
      case WriteError
      with 1(3) False rs have "w' = w\<lparr>wWrites := rs'\<rparr>" by (subst (asm) writeAll.simps) simp
      with 1(4) show ?thesis by (simp add: still_fields)
    qed
  qed
qed

lemma still_fill_temp:
  assumes "fill_temp i mode data w = (ok, w')" "still p x ds w" "map_option fst x \<noteq> Some i"
  shows "still p x ds w'"
proof -
  obtain ok1 w1 where 1: "writeAll i data (wWrites w) w = (ok1, w1)" by fastforce
  have s1: "still p x ds w1" using still_writeAll [OF 1 assms(2,3)] .
  obtain ok2 w2 where 2: "(if ok1 then fchmod_call i mode w1 else (False, w1)) = (ok2, w2)" by fastforce
  obtain oke we where e: "enter w1 = (oke, we)" by fastforce
  have se: "still p x ds we" using still_enter [OF e s1] by simp
  have "still p x ds (change_inode i f we)" for f
    using still_change [OF se] still_name [OF se] assms(3) by simp
  then have s2: "still p x ds w2" using 2 s1 se e by (auto simp: fchmod_call_def split: if_splits)
  obtain ok3 w3 where 3: "(if ok2 then fd_call w2 else (False, w2)) = (ok3, w3)" by fastforce
  have s3: "still p x ds w3" using 3 s2 still_enter [of w2 ok3 w3 p x ds] by (auto simp: fd_call_def split: if_splits)
  obtain c w4 where 4: "fd_call w3 = (c, w4)" by fastforce
  have "still p x ds w4" using still_enter [of w3 c w4, OF _ s3] 4 by (simp add: fd_call_def)
  then show ?thesis using assms(1) 1 2 3 4 by (simp add: fill_temp_def)
qed

lemma still_prepareTemp:
  assumes "prepareTemp p data w = (r, w')" "still p x ds w" "numbers_fresh (wDisk w)"
  shows "still p x ds w'"
proof (cases "p = []")
  case True
  with assms show ?thesis by (simp add: prepareTemp_def)
next
  case False
  obtain o1 w1 where o1: "open_temp p w = (o1, w1)" by fastforce
  note s1 = still_open_temp [OF o1 assms(2,3)]
  show ?thesis
  proof (cases o1)
    case None
    with assms(1) o1 False s1 show ?thesis by (simp add: prepareTemp_def)
  next
    case (Some tim)
    then obtain t i mode where o: "o1 = Some (t, i, mode)" by (cases tim) auto
    have t: "t = own_name p w" using open_temp_works [OF o1 [unfolded o] still_quiet [OF assms(2)]] by simp
    obtain ok w2 where f: "fill_temp i mode data w1 = (ok, w2)" by fastforce
    have s2: "still p x ds w2" using still_fill_temp [OF f] s1 o by simp
    show ?thesis using assms(1) False o1 o f s2 still_unlink [OF s2 own_name_differs] t
      by (auto simp: prepareTemp_def split: bool.splits)
  qed
qed

text \<open>C28: whichever system calls fail, at every moment of a write a reader of the name finds the old
  file or the complete new one, and the new one at the end exactly when success is reported.\<close>

theorem write_all_or_nothing:
  assumes "wMoves w = []" "numbers_fresh (wDisk w)" "atomic_write_file p data w = (ok, w')"
  shows "file_at p (wDisk w') = (if ok then Some data else file_at p (wDisk w)) \<and>
    (\<exists>ps. wPast w' = ps @ wPast w \<and> (\<forall>d \<in> set ps. file_at p d \<in> {file_at p (wDisk w), Some data}))"
proof -
  let ?x = "at_name p (wDisk w)" and ?ds = "wPast w"
  have s: "still p ?x ?ds w" using assms(1) by (simp add: still_def)
  have done_: ?thesis if "\<not> ok" "still p ?x ?ds w'"
    using that by (auto simp: still_def file_at_def)
  obtain q w1 where q: "prepareTemp p data w = (q, w1)" by fastforce
  have s1: "still p ?x ?ds w1" using still_prepareTemp [OF q s assms(2)] .
  show ?thesis
  proof (cases q)
    case None
    with assms(3) q s1 show ?thesis by (intro done_) (simp_all add: atomic_write_file_def)
  next
    case (Some t)
    obtain i n where t: "t = own_name p w" "temp_at t w1 = Some (i, n)" "inData n = data"
      by (rule prepareTemp_works [OF q [unfolded Some] still_quiet [OF s]])
    obtain oke we where e: "enter w1 = (oke, we)" by fastforce
    note se = still_enter [OF e s1]
    show ?thesis
    proof (cases oke)
      case False
      with assms(3) q Some e have "\<not> ok" "w' = unlink_call t we" by (auto simp: atomic_write_file_def rename_call_def)
      moreover have "still p ?x ?ds (unlink_call t we)"
        using still_unlink [OF conjunct1 [OF se], of t] own_name_differs [of p w] by (simp add: t(1))
      ultimately show ?thesis by (intro done_) simp_all
    next
      case True
      let ?d = "wDisk w1"
      have w': "ok" "w' = set_disk (?d\<lparr>dkNames := (dkNames ?d)(p := dkNames ?d t, t := None)\<rparr>) we"
        using assms(3) q Some e True t(2) se by (auto simp: atomic_write_file_def rename_call_def Let_def at_name_def)
      have "at_name p (wDisk w') = Some (i, n)"
        using t own_name_differs [of p w] by (auto simp: w' set_disk_def at_name_def)
      moreover have "\<exists>ps. wPast w' = ps @ ?ds \<and> (\<forall>d \<in> set ps. at_name p d = ?x)"
        using se by (auto simp: w' set_disk_def still_def intro: exI [of _ "?d # _"])
      ultimately show ?thesis using w'(1) t(3) by (auto simp: file_at_def)
    qed
  qed
qed

lemma write_all_or_nothing_witness:
  "fst (atomic_write_file ''a'' [8, 9] (demo_world [])) \<and>
   file_at ''a'' (wDisk (snd (atomic_write_file ''a'' [8, 9] (demo_world [])))) =
     (if fst (atomic_write_file ''a'' [8, 9] (demo_world [])) then Some [8, 9] else file_at ''a'' (wDisk (demo_world []))) \<and>
   (\<exists>ps. wPast (snd (atomic_write_file ''a'' [8, 9] (demo_world []))) = ps @ wPast (demo_world []) \<and>
     (\<forall>d \<in> set ps. file_at ''a'' d \<in> {file_at ''a'' (wDisk (demo_world [])), Some [8, 9]}))"
proof
  show "fst (atomic_write_file ''a'' [8, 9] (demo_world []))"
    by (simp add: run_simps atomic_write_file_def rename_call_def)
  show "file_at ''a'' (wDisk (snd (atomic_write_file ''a'' [8, 9] (demo_world [])))) =
     (if fst (atomic_write_file ''a'' [8, 9] (demo_world [])) then Some [8, 9] else file_at ''a'' (wDisk (demo_world []))) \<and>
   (\<exists>ps. wPast (snd (atomic_write_file ''a'' [8, 9] (demo_world []))) = ps @ wPast (demo_world []) \<and>
     (\<forall>d \<in> set ps. file_at ''a'' d \<in> {file_at ''a'' (wDisk (demo_world [])), Some [8, 9]}))"
    by (rule write_all_or_nothing)
       (auto simp: demo_world_def demo_disk_def numbers_fresh_def split: if_splits)
qed

end
