(* ===== verification/PlayerStats.thy ===== *)
theory PlayerStats
  imports Parental
begin

unbundle bit_operations_syntax

text \<open>
  The player statistics messages, \<open>src/feats/playerstats.hpp\<close>: reading a request, building the
  request sent in its place, and the copy of a response without the owner's statistics. Offsets do
  not wrap: a message is an object in memory, so its length leaves room for eight more.
\<close>

section \<open>Reading\<close>

function stat_varint :: "bytes \<Rightarrow> nat \<Rightarrow> nat \<Rightarrow> u64 \<Rightarrow> (nat \<times> u64) option" where
  "stat_varint d pos shift r =
     (if pos < length d \<and> shift \<le> 63 then
        (let b = d ! pos in
         if shift = 63 \<and> b > 1 then None
         else (let r' = r OR push_bit shift (ucast (b AND 0x7F)) in
               if b AND 0x80 = 0 then Some (pos + 1, r')
               else stat_varint d (pos + 1) (shift + 7) r'))
      else None)"
  by pat_completeness auto
termination by (relation "measure (\<lambda>(d, p, s, r). length d - p)") auto

declare stat_varint.simps [simp del]

definition stat_readVarint :: "bytes \<Rightarrow> nat \<Rightarrow> (nat \<times> u64) option" where
  "stat_readVarint d pos = stat_varint d pos 0 0"

definition stat_value :: "bytes \<Rightarrow> nat \<Rightarrow> u8 \<Rightarrow> (nat \<times> nat) option" where
  "stat_value d pos wireType =
     (if wireType = 0 then
        (case stat_readVarint d pos of None \<Rightarrow> None | Some (pos', tmp) \<Rightarrow> Some (pos, pos' - pos))
      else if wireType = 1 then (if pos + 8 > length d then None else Some (pos, 8))
      else if wireType = 5 then (if pos + 4 > length d then None else Some (pos, 4))
      else if wireType = 2 then
        (case stat_readVarint d pos of
           None \<Rightarrow> None
         | Some (pos', l) \<Rightarrow> if unat l > length d - pos' then None else Some (pos', unat l))
      else None)"

text \<open>The number of a field is the tag's, cut to 32 bits.\<close>

definition stat_field :: "bytes \<Rightarrow> nat \<Rightarrow> wire_field option" where
  "stat_field d tagStart =
     (case stat_readVarint d tagStart of
        None \<Rightarrow> None
      | Some (pos, tag) \<Rightarrow>
          (let number = (ucast (drop_bit 3 tag) :: u32); wireType = (ucast (tag AND 7) :: u8) in
           if number = 0 then None
           else (case stat_value d pos wireType of
                   None \<Rightarrow> None
                 | Some (off, len) \<Rightarrow>
                     Some \<lparr>wf_number = number, wf_type = wireType, wf_start = tagStart,
                           wf_end = off + len, wf_valueOff = off, wf_valueLen = len\<rparr>)))"

lemma stat_varint_is: "stat_varint d pos s r = wire_varint d pos s r"
proof (induction d pos s r rule: stat_varint.induct)
  case (1 d pos s r)
  have "b > 1 \<longleftrightarrow> b AND 0xFE \<noteq> 0" for b :: u8
  proof -
    have "list_all (\<lambda>n. ((of_nat n :: u8) > 1) = ((of_nat n :: u8) AND 0xFE \<noteq> 0)) [0..<256]" by code_simp
    moreover have "unat b < 256" using unsigned_less [of b] by simp
    ultimately have "((of_nat (unat b) :: u8) > 1) = ((of_nat (unat b) :: u8) AND 0xFE \<noteq> 0)"
      unfolding list_all_iff set_upt by (elim ballE [of _ _ "unat b"]) simp_all
    then show ?thesis by simp
  qed
  with 1 show ?case by (subst stat_varint.simps, subst wire_varint.simps) (simp add: Let_def)
qed

lemma stat_readVarint_is: "stat_readVarint = wire_readVarint"
  by (intro ext) (simp add: stat_readVarint_def wire_readVarint_def stat_varint_is)

lemma stat_value_is: "pos \<le> length d \<Longrightarrow> stat_value d pos w = wire_value d pos w"
  by (auto simp: stat_value_def wire_value_def stat_readVarint_is)

lemma stat_field_tagged:
  "stat_field = tagged_field (\<lambda>tag. let number = ucast (drop_bit 3 tag) in if number = 0 then None else Some number)"
proof (intro ext)
  fix d t
  have v: "stat_value d pos w = wire_value d pos w" if "wire_readVarint d t = Some (pos, tag)" for pos tag w
    using that wire_varint_bounds [of d t 0 0 pos tag] by (intro stat_value_is) (simp add: wire_readVarint_def)
  show "stat_field d t = tagged_field (\<lambda>tag. let number = ucast (drop_bit 3 tag) in if number = 0 then None else Some number) d t"
    by (auto simp: stat_field_def tagged_field_def stat_readVarint_is Let_def v split: option.splits)
qed

lemma stat_field_parts:
  assumes "stat_field d t = Some f"
  shows "wf_start f = t" "t < wf_end f" "wf_end f \<le> length d" "wf_end f = wf_valueOff f + wf_valueLen f"
  using tagged_parts(1-4) [OF assms [unfolded stat_field_tagged]] by simp_all

interpretation stats: wire_reader stat_field
  unfolding stat_field_tagged by (rule tagged_reader)

text \<open>\<open>walk\<close>.\<close>

function stat_walk :: "(wire_field \<Rightarrow> 's \<Rightarrow> 's) \<Rightarrow> bytes \<Rightarrow> nat \<Rightarrow> 's \<Rightarrow> bool \<times> 's" where
  "stat_walk fn d pos st =
     (if pos < length d then
        (case stat_field d pos of
           None \<Rightarrow> (False, st)
         | Some f \<Rightarrow> stat_walk fn d (wf_end f) (fn f st))
      else (True, st))"
  by pat_completeness auto
termination by (relation "measure (\<lambda>(fn, d, p, st). length d - p)") (auto dest: stat_field_parts)

declare stat_walk.simps [simp del]

section \<open>Requests and responses\<close>

function stat_putVarint :: "bytes \<Rightarrow> u64 \<Rightarrow> bytes" where
  "stat_putVarint out v =
     (if v \<ge> 0x80 then stat_putVarint (out @ [ucast v OR 0x80]) (drop_bit 7 v) else out @ [ucast v])"
  by pat_completeness auto
termination
proof (relation "measure (\<lambda>(out, v). unat v)")
  fix v :: u64 and acc :: bytes
  assume "0x80 \<le> v"
  then have "0x80 \<le> unat v" by (simp add: word_le_nat_alt)
  then show "((acc @ [ucast v OR 0x80], drop_bit 7 v), acc, v) \<in> measure (\<lambda>(out, v). unat v)"
    by (simp add: drop_bit_eq_div unat_div_distrib)
qed simp

declare stat_putVarint.simps [simp del]

text \<open>The last varint field of a number.\<close>

definition varint_callback :: "u32 \<Rightarrow> bytes \<Rightarrow> wire_field \<Rightarrow> u64 option \<Rightarrow> u64 option" where
  "varint_callback number d f found =
     (if wf_number f = number \<and> wf_type f = 0 then
        (case stat_readVarint d (wf_valueOff f) of None \<Rightarrow> found | Some (p, v) \<Rightarrow> Some v)
      else found)"

definition parseRequestAppId :: "bytes \<Rightarrow> u32 option" where
  "parseRequestAppId d = map_option ucast (snd (stat_walk (varint_callback 2 d) d 0 None))"

definition parseRequestSteamId :: "bytes \<Rightarrow> u64 option" where
  "parseRequestSteamId d = snd (stat_walk (varint_callback 1 d) d 0 None)"

definition hasField :: "bytes \<Rightarrow> u32 \<Rightarrow> bool" where
  "hasField d number = snd (stat_walk (\<lambda>f present. if wf_number f = number then True else present) d 0 False)"

definition fieldBytes :: "bytes \<Rightarrow> u32 \<Rightarrow> bytes" where
  "fieldBytes d number =
     fst (snd (stat_walk (\<lambda>f (out, found).
        if \<not> found \<and> wf_number f = number \<and> wf_type f = 2
        then (range_of d (wf_valueOff f) (wf_valueOff f + wf_valueLen f), True) else (out, found)) d 0 ([], False)))"

definition buildSpoofedRequest :: "u64 \<Rightarrow> u32 \<Rightarrow> bytes" where
  "buildSpoofedRequest steamid appid =
     stat_putVarint (stat_putVarint [0x08] steamid @ [0x10]) (ucast appid)"

definition stripResponseStats :: "bytes \<Rightarrow> bytes" where
  "stripResponseStats d =
     snd (stat_walk (\<lambda>f out. if wf_number f = 4 then out else out @ range_of d (wf_start f) (wf_end f)) d 0 [])"

section \<open>In terms of the pieces in front of the first unreadable field\<close>

abbreviation stat_pieces :: "bytes \<Rightarrow> piece list" where
  "stat_pieces d \<equiv> prefix_with stat_field d"

lemma stat_walk_is: "stat_walk fn d pos st = walk_with stat_field fn d pos st"
proof (induction fn d pos st rule: stat_walk.induct)
  case (1 fn d pos st)
  then show ?case
    by (subst stat_walk.simps, subst walk_with.simps) (auto dest: stat_field_parts split: option.splits)
qed

lemma stat_walk_fold:
  assumes "\<And>pre bs f st. stat_field bs 0 = Some f \<Longrightarrow> cb (pre @ bs) (rebase (length pre) f) st = step (piece_of bs f) st"
  shows "snd (stat_walk (cb d) d 0 st) = fold step (stat_pieces d) st"
  using stats.walk_whole [where cb = cb and step = step, OF assms] by (simp add: stat_walk_is)

lemma stat_putVarint_is: "stat_putVarint out v = putVarint out v"
proof (induction out v rule: stat_putVarint.induct)
  case (1 out v)
  then show ?case by (subst stat_putVarint.simps, subst putVarint.simps) simp
qed

definition varint_step :: "u32 \<Rightarrow> piece \<Rightarrow> u64 option \<Rightarrow> u64 option" where
  "varint_step number p found =
     (if pc_number p = number \<and> pc_type p = 0 then map_option snd (wire_readVarint (pc_value p) 0) else found)"

lemma varint_callback_step:
  assumes "stat_field bs 0 = Some f"
  shows "varint_callback number (pre @ bs) (rebase (length pre) f) st = varint_step number (piece_of bs f) st"
proof (cases "wf_number f = number \<and> wf_type f = 0")
  case True
  from varint_of_value [OF assms [unfolded stat_field_tagged]] True obtain n x where
    "wire_readVarint bs (wf_valueOff f) = Some (n, x)"
    "wire_readVarint (pc_value (piece_of bs f)) 0 = Some (wf_valueLen f, x)" by blast
  then show ?thesis using True wire_readVarint_shift [OF refl, of pre bs "wf_valueOff f"]
    by (simp add: varint_callback_def varint_step_def rebase_def stat_readVarint_is piece_of_def)
next
  case False
  then show ?thesis by (auto simp: varint_callback_def varint_step_def rebase_def piece_of_def)
qed

lemma parseSteamId_fold: "parseRequestSteamId d = fold (varint_step 1) (stat_pieces d) None"
  unfolding parseRequestSteamId_def
  by (rule stat_walk_fold [where cb = "varint_callback 1"]) (rule varint_callback_step)

lemma parseAppId_fold: "parseRequestAppId d = map_option ucast (fold (varint_step 2) (stat_pieces d) None)"
  unfolding parseRequestAppId_def
  by (rule arg_cong [where f = "map_option ucast"])
     (rule stat_walk_fold [where cb = "varint_callback 2"], rule varint_callback_step)

lemma hasField_pieces: "hasField d n \<longleftrightarrow> n \<in> pc_number ` set (stat_pieces d)"
proof -
  have "hasField d n = fold (\<lambda>p present. if pc_number p = n then True else present) (stat_pieces d) False"
    unfolding hasField_def
    by (rule stat_walk_fold [where cb = "\<lambda>d f present. if wf_number f = n then True else present"])
       (simp add: rebase_def piece_of_def)
  moreover have "fold (\<lambda>p present. if pc_number p = n then True else present) ps b = (b \<or> n \<in> pc_number ` set ps)" for ps :: "piece list" and b
    by (induction ps arbitrary: b) auto
  ultimately show ?thesis by (simp only: simp_thms)
qed

text \<open>The value of the first length-delimited piece of a number.\<close>

definition first_bytes :: "u32 \<Rightarrow> piece list \<Rightarrow> bytes" where
  "first_bytes n ps = (case filter (\<lambda>p. pc_number p = n \<and> pc_type p = 2) ps of [] \<Rightarrow> [] | p # _ \<Rightarrow> pc_value p)"

lemma fieldBytes_pieces: "fieldBytes d n = first_bytes n (stat_pieces d)"
proof -
  define step where "step = (\<lambda>(p :: piece) (out :: bytes, found). if \<not> found \<and> pc_number p = n \<and> pc_type p = 2
        then (pc_value p, True) else (out, found))"
  have "snd (stat_walk ((\<lambda>d f (out, found).
        if \<not> found \<and> wf_number f = n \<and> wf_type f = 2
        then (range_of d (wf_valueOff f) (wf_valueOff f + wf_valueLen f), True) else (out, found)) d) d 0 ([], False)) =
      fold step (stat_pieces d) ([], False)"
    by (rule stat_walk_fold) (auto simp: rebase_def piece_of_def step_def range_of_def split: prod.splits)
  then have "fieldBytes d n = fst (fold step (stat_pieces d) ([], False))" by (simp add: fieldBytes_def)
  moreover have t: "fold step ps (out, True) = (out, True)" for ps out
    by (induction ps) (simp_all add: step_def)
  moreover have "fst (fold step ps ([], False)) = first_bytes n ps" for ps
    by (induction ps) (auto simp: first_bytes_def step_def t [unfolded step_def] split: list.splits)
  ultimately show ?thesis by simp
qed

lemma strip_pieces: "stripResponseStats d = message_of (filter (\<lambda>p. pc_number p \<noteq> 4) (stat_pieces d))"
proof -
  have "stripResponseStats d = fold (\<lambda>p out. if pc_number p = 4 then out else out @ pc_bytes p) (stat_pieces d) []"
    unfolding stripResponseStats_def
    by (rule stat_walk_fold [where cb = "\<lambda>d f out. if wf_number f = 4 then out else out @ range_of d (wf_start f) (wf_end f)"])
       (simp add: rebase_def piece_of_def range_of_def)
  moreover have "fold (\<lambda>p out. if pc_number p = 4 then out else out @ pc_bytes p) ps out =
      out @ message_of (filter (\<lambda>p. pc_number p \<noteq> 4) ps)" for ps out
    by (induction ps arbitrary: out) auto
  ultimately show ?thesis by simp
qed

lemma strip_read: "stat_pieces (stripResponseStats d) = filter (\<lambda>p. pc_number p \<noteq> 4) (stat_pieces d)"
  unfolding strip_pieces by (rule stats.prefix_of_pieces, rule stats.pieces_of_prefix)

lemma first_bytes_filter: "n \<noteq> 4 \<Longrightarrow> first_bytes n (filter (\<lambda>p. pc_number p \<noteq> 4) ps) = first_bytes n ps"
  unfolding first_bytes_def by (rule arg_cong [where f = "case_list _ _"]) (induction ps, auto)

text \<open>C33: whatever bytes a response consists of, its copy is a well-formed message without statistics
  that holds every other field in front of the first unreadable one, in order and byte for byte; so
  every other field reads as before, and copying it again changes nothing.\<close>

theorem strip_exact:
  "pieces_with stat_field (stripResponseStats d) = Some (filter (\<lambda>p. pc_number p \<noteq> 4) (stat_pieces d)) \<and>
   \<not> hasField (stripResponseStats d) 4 \<and>
   (n = 4 \<or> fieldBytes (stripResponseStats d) n = fieldBytes d n) \<and>
   stripResponseStats (stripResponseStats d) = stripResponseStats d"
proof (intro conjI)
  show "pieces_with stat_field (stripResponseStats d) = Some (filter (\<lambda>p. pc_number p \<noteq> 4) (stat_pieces d))"
    unfolding strip_pieces by (rule stats.pieces_of_prefix)
  show "\<not> hasField (stripResponseStats d) 4" by (auto simp: hasField_pieces strip_read)
  show "n = 4 \<or> fieldBytes (stripResponseStats d) n = fieldBytes d n"
    using first_bytes_filter [of n "stat_pieces d"] by (auto simp: fieldBytes_pieces strip_read)
  show "stripResponseStats (stripResponseStats d) = stripResponseStats d"
    by (simp add: strip_pieces [of "stripResponseStats d"] strip_read) (simp add: strip_pieces)
qed

section \<open>The spoofed request\<close>

definition id_piece :: "u32 \<Rightarrow> u64 \<Rightarrow> piece" where
  "id_piece n v = \<lparr>pc_number = n, pc_type = 0, pc_value = putVarint [] v, pc_bytes = ucast (n * 8) # putVarint [] v\<rparr>"

lemma read_id_piece:
  assumes "n = 1 \<or> n = 2"
  shows "pieces_with stat_field (pc_bytes (id_piece n v)) = Some [id_piece n v]"
proof -
  let ?b = "ucast (n * 8) :: u8" and ?l = "length (putVarint [] v)"
  have t: "stat_readVarint (?b # putVarint [] v) 0 = Some (1, ucast (n * 8))"
    using assms by (auto simp: stat_readVarint_def stat_varint.simps)
  have r: "wire_readVarint (?b # putVarint [] v) 1 = Some (1 + ?l, v)"
    using put_read [of "[?b]" v "[]"] by simp
  have f: "stat_field (?b # putVarint [] v) 0 = Some \<lparr>wf_number = n, wf_type = 0, wf_start = 0, wf_end = 1 + ?l,
      wf_valueOff = 1, wf_valueLen = ?l\<rparr>"
    using assms t r by (auto simp: stat_field_def stat_value_def stat_readVarint_is Let_def)
  have "pieces_with stat_field (?b # putVarint [] v) =
      map_option ((#) (piece_of (?b # putVarint [] v) \<lparr>wf_number = n, wf_type = 0, wf_start = 0, wf_end = 1 + ?l,
        wf_valueOff = 1, wf_valueLen = ?l\<rparr>)) (pieces_with stat_field [])"
    using stats.pieces_Cons [OF f] by simp
  then show ?thesis by (simp add: id_piece_def piece_of_def range_of_def)
qed

lemma spoofed_pieces: "stat_pieces (buildSpoofedRequest steamid appid) = [id_piece 1 steamid, id_piece 2 (ucast appid)]"
proof -
  have "buildSpoofedRequest steamid appid = message_of [id_piece 1 steamid, id_piece 2 (ucast appid)]"
    using putVarint_append [of "[0x08]" steamid] putVarint_append [of "0x08 # putVarint [] steamid @ [0x10]" "ucast appid"]
    by (simp add: buildSpoofedRequest_def stat_putVarint_is id_piece_def)
  moreover have "stat_pieces (message_of [id_piece 1 steamid, id_piece 2 (ucast appid)]) =
      [id_piece 1 steamid, id_piece 2 (ucast appid)]"
    by (rule stats.prefix_of_pieces [OF stats.pieces_of_message]) (simp add: read_id_piece)
  ultimately show ?thesis by simp
qed

text \<open>the request sent in place of the client's is read as the owner's id and the app's, and has
  no other field.\<close>

theorem spoofed_request_exact:
  "parseRequestSteamId (buildSpoofedRequest steamid appid) = Some steamid \<and>
   parseRequestAppId (buildSpoofedRequest steamid appid) = Some appid \<and>
   (hasField (buildSpoofedRequest steamid appid) n \<longleftrightarrow> n \<in> {1, 2})"
proof -
  have r: "wire_readVarint (putVarint [] v) 0 = Some (length (putVarint [] v), v)" for v
    using put_read [of "[]" v "[]"] by simp
  have "ucast (ucast appid :: u64) = appid" by (intro bit_word_eqI) (simp add: bit_ucast_iff)
  then show ?thesis
    by (auto simp: parseSteamId_fold parseAppId_fold hasField_pieces spoofed_pieces varint_step_def id_piece_def r)
qed

end
