(* ===== verification/AppTicket.thy ===== *)
theory AppTicket
  imports ManifestBytes
begin

text \<open>
  App ownership tickets, \<open>src/feats/appticket.hpp\<close>: the shape of a signed ticket, the ticket of an app
  as it was saved, the one derived from the client's own ticket, and the copy into Steam's buffer.
  Sizes have 32 bits and their sums wrap.
\<close>

definition kSteamIdOffset :: u32 where "kSteamIdOffset = 8"
definition kExplicitAppIdOffset :: u32 where "kExplicitAppIdOffset = 16"
definition kSignatureSize :: u32 where "kSignatureSize = 128"
definition kLocalSourceAppId :: u32 where "kLocalSourceAppId = 7"

datatype ticket_source = NoTicket | ExplicitTicket | LocalDerived

record ownership_ticket =
  otSource :: ticket_source
  otData :: bytes
  otTotalSize :: u32
  otAppIdOffset :: u32
  otSteamIdOffset :: u32
  otSignatureOffset :: u32
  otSignatureSize :: u32

definition no_ticket :: ownership_ticket where
  "no_ticket = \<lparr>otSource = NoTicket, otData = [], otTotalSize = 0, otAppIdOffset = 0, otSteamIdOffset = 0,
     otSignatureOffset = 0, otSignatureSize = 0\<rparr>"

definition usable_ticket :: "ownership_ticket \<Rightarrow> bool" where
  "usable_ticket t \<longleftrightarrow> otSource t \<noteq> NoTicket \<and> otData t \<noteq> []"

text \<open>The signature's offset, when the bytes have the shape of a signed ticket.\<close>

definition signedTicketShape :: "bytes \<Rightarrow> u32 option" where
  "signedTicketShape bs =
     (if length bs < unat (kSignatureSize + kExplicitAppIdOffset) + 4 then None
      else (let signatureOffset = rd32 bs 0 in
            if signatureOffset < kExplicitAppIdOffset + 4 then None
            else if size_wrap (unat signatureOffset + unat kSignatureSize) = length bs
            then Some signatureOffset else None))"

definition explicitOwnershipTicket :: "bytes \<Rightarrow> ownership_ticket" where
  "explicitOwnershipTicket bs =
     (case signedTicketShape bs of
        None \<Rightarrow> no_ticket
      | Some signatureOffset \<Rightarrow>
          \<lparr>otSource = ExplicitTicket, otData = bs, otTotalSize = of_nat (length bs),
           otAppIdOffset = kExplicitAppIdOffset, otSteamIdOffset = kSteamIdOffset,
           otSignatureOffset = signatureOffset, otSignatureSize = kSignatureSize\<rparr>)"

definition isLocalSourceTicket :: "bytes \<Rightarrow> bool" where
  "isLocalSourceTicket bs \<longleftrightarrow>
     signedTicketShape bs \<noteq> None \<and> rd32 bs (unat kExplicitAppIdOffset) = kLocalSourceAppId"

definition deriveLocalOwnershipTicket :: "bytes \<Rightarrow> u32 \<Rightarrow> ownership_ticket" where
  "deriveLocalOwnershipTicket src app =
     (if app = 0 then no_ticket
      else (case signedTicketShape src of
              None \<Rightarrow> no_ticket
            | Some sourceSignatureOffset \<Rightarrow>
                if rd32 src (unat kExplicitAppIdOffset) \<noteq> kLocalSourceAppId then no_ticket
                else \<lparr>otSource = LocalDerived,
                      otData = take (unat sourceSignatureOffset) src @ le32 app @ drop (unat sourceSignatureOffset) src,
                      otTotalSize = of_nat (length src), otAppIdOffset = sourceSignatureOffset,
                      otSteamIdOffset = kSteamIdOffset, otSignatureOffset = sourceSignatureOffset + 4,
                      otSignatureSize = kSignatureSize\<rparr>))"

definition prepareOwnershipTicket :: "bytes \<Rightarrow> bytes \<Rightarrow> u32 \<Rightarrow> ownership_ticket" where
  "prepareOwnershipTicket explicitBytes localSource app =
     (let explicitTicket = explicitOwnershipTicket explicitBytes in
      if usable_ticket explicitTicket \<and> rd32 explicitBytes (unat kExplicitAppIdOffset) = app then explicitTicket
      else deriveLocalOwnershipTicket localSource app)"

text \<open>What the copy writes: the bytes at the destination and the four outputs. \<open>present\<close> tells that none
  of the five pointers is null.\<close>

definition copyOwnershipTicket ::
  "ownership_ticket \<Rightarrow> bool \<Rightarrow> nat \<Rightarrow> (bytes \<times> u32 \<times> u32 \<times> u32 \<times> u32) option" where
  "copyOwnershipTicket t present capacity =
     (if \<not> usable_ticket t \<or> \<not> present \<or> capacity < length (otData t) then None
      else Some (otData t, otAppIdOffset t, otSteamIdOffset t, otSignatureOffset t, otSignatureSize t))"

section \<open>What a prepared ticket is\<close>

lemma shape_exact:
  assumes "length bs < 2 ^ 32"
  shows "signedTicketShape bs = Some so \<longleftrightarrow> 148 \<le> length bs \<and> so = rd32 bs 0 \<and> unat so + 128 = length bs"
proof -
  have u: "unat so < 2 ^ 32" for so :: u32 by (rule unat32_less)
  have w: "size_wrap (unat x + 128) = length bs \<longleftrightarrow> unat x + 128 = length bs" if "148 \<le> length bs" for x :: u32
    using u [of x] assms that unfolding size_wrap_def by (cases "unat x + 128 < 2 ^ 32") (auto simp: mod_if)
  have l: "x < 20 \<longleftrightarrow> unat x < 20" for x :: u32 by (simp add: word_less_nat_alt)
  show ?thesis using w [of "rd32 bs 0"]
    by (auto simp: signedTicketShape_def kSignatureSize_def kExplicitAppIdOffset_def Let_def l split: if_splits)
qed

text \<open>The ticket names its app in front of the signature, which is the last 128 bytes of the ticket it
  was made from.\<close>

definition ticket_ok :: "ownership_ticket \<Rightarrow> bytes \<Rightarrow> u32 \<Rightarrow> bool" where
  "ticket_ok t src app \<longleftrightarrow>
     rd32 (otData t) (unat (otAppIdOffset t)) = app \<and>
     unat (otAppIdOffset t) + 4 \<le> unat (otSignatureOffset t) \<and>
     unat (otSteamIdOffset t) + 8 \<le> unat (otAppIdOffset t) \<and>
     unat (otSignatureOffset t) + unat (otSignatureSize t) = length (otData t) \<and>
     drop (unat (otSignatureOffset t)) (otData t) = drop (length src - 128) src \<and>
     unat (otTotalSize t) \<le> length (otData t) \<and>
     take (unat (otSteamIdOffset t) + 8) (otData t) = take 16 src"

lemma explicit_ok:
  assumes "usable_ticket (explicitOwnershipTicket bs)" "length bs < 2 ^ 32"
  shows "ticket_ok (explicitOwnershipTicket bs) bs (rd32 bs 16) \<and> otSource (explicitOwnershipTicket bs) = ExplicitTicket"
proof -
  from assms(1) obtain so where so: "signedTicketShape bs = Some so"
    by (auto simp: explicitOwnershipTicket_def usable_ticket_def no_ticket_def split: option.splits)
  have sh: "148 \<le> length bs" "unat so + 128 = length bs" using shape_exact [OF assms(2), of so] so by blast+
  have "unat (of_nat (length bs) :: u32) = length bs"
    using assms(2) by (simp add: unsigned_of_nat take_bit_nat_eq_self)
  moreover have "unat so = length bs - 128" using sh by linarith
  ultimately show ?thesis using sh
    by (simp add: explicitOwnershipTicket_def so ticket_ok_def kExplicitAppIdOffset_def kSteamIdOffset_def kSignatureSize_def)
qed

lemma derived_ok:
  assumes "usable_ticket (deriveLocalOwnershipTicket src app)" "length src + 4 < 2 ^ 32"
  shows "ticket_ok (deriveLocalOwnershipTicket src app) src app \<and> otSource (deriveLocalOwnershipTicket src app) = LocalDerived"
proof -
  let ?t = "deriveLocalOwnershipTicket src app"
  from assms(1) obtain so where so: "signedTicketShape src = Some so" and a: "app \<noteq> 0" "rd32 src 16 = 7"
    by (auto simp: deriveLocalOwnershipTicket_def usable_ticket_def no_ticket_def kExplicitAppIdOffset_def
        kLocalSourceAppId_def split: option.splits if_splits)
  have l: "length src < 2 ^ 32" using assms(2) by simp
  have sh: "148 \<le> length src" "unat so + 128 = length src" using shape_exact [OF l, of so] so by blast+
  have n: "unat so = length src - 128" using sh by linarith
  have t: "?t = \<lparr>otSource = LocalDerived, otData = take (unat so) src @ le32 app @ drop (unat so) src,
      otTotalSize = of_nat (length src), otAppIdOffset = so, otSteamIdOffset = 8, otSignatureOffset = so + 4, otSignatureSize = 128\<rparr>"
    using so a by (simp add: deriveLocalOwnershipTicket_def kExplicitAppIdOffset_def kLocalSourceAppId_def
        kSteamIdOffset_def kSignatureSize_def)
  have p: "unat (so + 4) = unat so + 4" using sh assms(2) by (simp add: unat_word_ariths)
  have len: "length (take (unat so) src) = unat so" using sh by simp
  have "rd32 (take (unat so) src @ le32 app @ drop (unat so) src) (unat so) = app"
    using rd32_append [of "take (unat so) src" app "drop (unat so) src"] len by simp
  moreover have "unat (of_nat (length src) :: u32) = length src"
    using l by (simp add: unsigned_of_nat take_bit_nat_eq_self)
  ultimately show ?thesis using sh p by (simp add: t ticket_ok_def n)
qed

text \<open>C19: whatever the saved and the client's ticket are, a prepared ticket names the app and the user at
  offsets inside the part in front of the signature; the signature is that of the ticket it was made
  from and ends the data; and it is copied only into a buffer that holds all of it.\<close>

theorem prepared_ticket_in_bounds:
  assumes "length e < 2 ^ 32" "length l + 4 < 2 ^ 32" "t = prepareOwnershipTicket e l app"
    "copyOwnershipTicket t present capacity = Some (written, outs)"
  shows "ticket_ok t (if otSource t = ExplicitTicket then e else l) app \<and> written = otData t \<and> length written \<le> capacity"
proof -
  from assms(4) have u: "usable_ticket t" "written = otData t" "length written \<le> capacity"
    by (auto simp: copyOwnershipTicket_def split: if_splits)
  show ?thesis
  proof (cases "usable_ticket (explicitOwnershipTicket e) \<and> rd32 e 16 = app")
    case True
    then have "t = explicitOwnershipTicket e"
      by (simp add: assms(3) prepareOwnershipTicket_def kExplicitAppIdOffset_def)
    with explicit_ok [OF _ assms(1)] True u show ?thesis by simp
  next
    case False
    then have t: "t = deriveLocalOwnershipTicket l app"
      by (auto simp: assms(3) prepareOwnershipTicket_def kExplicitAppIdOffset_def Let_def)
    from derived_ok [OF u(1) [unfolded t] assms(2)] u show ?thesis by (simp add: t)
  qed
qed

definition local_ticket :: bytes where
  "local_ticket = le32 20 @ replicate 12 1 @ le32 7 @ replicate 128 9"

lemma prepared_ticket_in_bounds_witness:
  "copyOwnershipTicket (prepareOwnershipTicket [] local_ticket 480) True 152 =
     Some (le32 20 @ replicate 12 1 @ le32 7 @ le32 480 @ replicate 128 9, 20, 8, 24, 128) \<and>
   ticket_ok (prepareOwnershipTicket [] local_ticket 480) local_ticket 480"
proof -
  have r: "rd32 local_ticket 0 = 20" by (simp add: local_ticket_def)
  have "rd32 ((le32 20 @ replicate 12 1) @ le32 7 @ replicate 128 9) (length (le32 20 @ replicate 12 1)) = 7"
    by (rule rd32_append)
  then have a: "rd32 local_ticket 16 = 7" by (simp add: local_ticket_def)
  have l: "length local_ticket = 148" by (simp add: local_ticket_def)
  have sh: "signedTicketShape local_ticket = Some 20" using r l by (simp add: shape_exact)
  have "prepareOwnershipTicket [] local_ticket 480 = deriveLocalOwnershipTicket local_ticket 480"
    by (simp add: prepareOwnershipTicket_def explicitOwnershipTicket_def signedTicketShape_def usable_ticket_def no_ticket_def)
  then have p: "prepareOwnershipTicket [] local_ticket 480 = \<lparr>otSource = LocalDerived,
      otData = le32 20 @ replicate 12 1 @ le32 7 @ le32 480 @ replicate 128 9,
      otTotalSize = 148, otAppIdOffset = 20, otSteamIdOffset = 8, otSignatureOffset = 24, otSignatureSize = 128\<rparr>"
    using sh a l by (simp add: deriveLocalOwnershipTicket_def kExplicitAppIdOffset_def kLocalSourceAppId_def
        kSteamIdOffset_def kSignatureSize_def) (simp add: local_ticket_def)
  have c: "copyOwnershipTicket (prepareOwnershipTicket [] local_ticket 480) True 152 =
      Some (le32 20 @ replicate 12 1 @ le32 7 @ le32 480 @ replicate 128 9, 20, 8, 24, 128)"
    by (simp add: copyOwnershipTicket_def usable_ticket_def p)
  from prepared_ticket_in_bounds [OF _ _ refl c] l have
    "ticket_ok (prepareOwnershipTicket [] local_ticket 480)
       (if otSource (prepareOwnershipTicket [] local_ticket 480) = ExplicitTicket then [] else local_ticket) 480" by simp
  then show ?thesis using c by (simp add: p)
qed

end
