(* ===== verification/ManifestZip.thy ===== *)
theory ManifestZip
  imports ManifestBytes "HOL-Library.Monad_Syntax"
begin

unbundle bit_operations_syntax

text \<open>
  Reading the one file of a downloaded manifest archive, \<open>src/utils/manifest_zip.cpp\<close>. A read outside
  the archive is undefined behaviour in C++; here it makes the whole result \<open>None\<close>, so that a result
  other than \<open>None\<close> means that no such read happened. The functions of zlib are parameters.
\<close>

section \<open>Checked reads\<close>

definition kLocalHeader :: u32 where "kLocalHeader = 0x04034B50"
definition kCentralHeader :: u32 where "kCentralHeader = 0x02014B50"
definition kEndOfCentralDirectory :: u32 where "kEndOfCentralDirectory = 0x06054B50"
definition kMaximumPayloadSize :: nat where "kMaximumPayloadSize = 64 * 1024 * 1024"
definition kMaximumEocdSearch :: nat where "kMaximumEocdSearch = 65535 + 22"

definition rangeFits :: "nat \<Rightarrow> nat \<Rightarrow> nat \<Rightarrow> bool" where
  "rangeFits offset len available \<longleftrightarrow> offset \<le> available \<and> len \<le> available - offset"

definition zip_read16 :: "bytes \<Rightarrow> nat \<Rightarrow> u16 option" where
  "zip_read16 a offset =
     (if offset + 2 \<le> length a
      then Some (ucast (a ! offset) OR push_bit 8 (ucast (a ! (offset + 1)))) else None)"

definition zip_read32 :: "bytes \<Rightarrow> nat \<Rightarrow> u32 option" where
  "zip_read32 a offset =
     (if offset + 4 \<le> length a
      then Some (ucast (a ! offset) OR push_bit 8 (ucast (a ! (offset + 1))) OR
                 push_bit 16 (ucast (a ! (offset + 2))) OR push_bit 24 (ucast (a ! (offset + 3)))) else None)"

text \<open>\<open>size_t\<close> of what was read.\<close>

definition size16 :: "bytes \<Rightarrow> nat \<Rightarrow> nat option" where
  "size16 a offset = map_option unat (zip_read16 a offset)"

definition size32 :: "bytes \<Rightarrow> nat \<Rightarrow> nat option" where
  "size32 a offset = map_option unat (zip_read32 a offset)"

text \<open>The last offset at which the end record can start, searched downwards.\<close>

primrec eocd_loop :: "bytes \<Rightarrow> nat \<Rightarrow> nat \<Rightarrow> nat option option" where
  "eocd_loop a begin_pos 0 = do { v \<leftarrow> zip_read32 a 0; Some (if v = kEndOfCentralDirectory then Some 0 else None) }"
| "eocd_loop a begin_pos (Suc n) =
     do { v \<leftarrow> zip_read32 a (Suc n);
          if v = kEndOfCentralDirectory then Some (Some (Suc n))
          else if Suc n = begin_pos then Some None
          else eocd_loop a begin_pos n }"

definition findEndOfCentralDirectory :: "bytes \<Rightarrow> nat option option" where
  "findEndOfCentralDirectory a =
     (if length a < 22 then Some None
      else eocd_loop a (if length a > kMaximumEocdSearch then length a - kMaximumEocdSearch else 0) (length a - 22))"

section \<open>Extraction\<close>

text \<open>The functions of zlib, when the library was found: the result of initialising, what inflating a
  stream into a buffer of a size gives (the result, how much was read and written, and the bytes
  written), and the checksum.\<close>

record zlib_api =
  zInitialize :: int
  zInflate :: "bytes \<Rightarrow> nat \<Rightarrow> int \<times> nat \<times> nat \<times> bytes"
  zCrc32 :: "bytes \<Rightarrow> u32"

definition inflatePayload :: "zlib_api \<Rightarrow> bytes \<Rightarrow> nat \<Rightarrow> bytes option" where
  "inflatePayload api compressed expectedSize =
     (if zInitialize api \<noteq> 0 then None
      else (case zInflate api compressed expectedSize of
              (res, totalIn, totalOut, written) \<Rightarrow>
                if res = 1 \<and> totalIn = length compressed \<and> totalOut = expectedSize
                then Some (take expectedSize (written @ replicate expectedSize 0)) else None))"

datatype zip_error =
    EocdMissing | EocdTruncated | NotSingleEntry | CentralInvalid | EntryRefused | MetadataDisagrees
  | PayloadTruncated | ZlibUnavailable | StoredInconsistent | DeflateInvalid | CrcMismatch

record central_entry =
  ceOffset :: nat
  ceFlags :: u16
  ceMethod :: u16
  ceCrc :: u32
  ceCompressed :: nat
  cePayload :: nat
  ceName :: nat
  ceLocal :: nat

text \<open>The end record and the only entry of the central directory.\<close>

definition read_central :: "bytes \<Rightarrow> (zip_error + central_entry) option" where
  "read_central a =
     do { found \<leftarrow> findEndOfCentralDirectory a;
          case found of
            None \<Rightarrow> Some (Inl EocdMissing)
          | Some eocd \<Rightarrow>
              if \<not> rangeFits eocd 22 (length a) then Some (Inl EocdMissing)
              else do {
                commentSize \<leftarrow> size16 a (eocd + 20);
                if \<not> rangeFits (eocd + 22) commentSize (length a) \<or> eocd + 22 + commentSize \<noteq> length a
                then Some (Inl EocdTruncated)
                else do {
                  d \<leftarrow> zip_read16 a (eocd + 4); c \<leftarrow> zip_read16 a (eocd + 6);
                  n \<leftarrow> zip_read16 a (eocd + 8); t \<leftarrow> zip_read16 a (eocd + 10);
                  if d \<noteq> 0 \<or> c \<noteq> 0 \<or> n \<noteq> 1 \<or> t \<noteq> 1 then Some (Inl NotSingleEntry)
                  else do {
                    centralSize \<leftarrow> size32 a (eocd + 12);
                    centralOffset \<leftarrow> size32 a (eocd + 16);
                    if \<not> rangeFits centralOffset centralSize eocd \<or> centralOffset + centralSize \<noteq> eocd \<or> centralSize < 46
                    then Some (Inl CentralInvalid)
                    else do {
                      magic \<leftarrow> zip_read32 a centralOffset;
                      if magic \<noteq> kCentralHeader then Some (Inl CentralInvalid)
                      else do {
                        flags \<leftarrow> zip_read16 a (centralOffset + 8);
                        compression \<leftarrow> zip_read16 a (centralOffset + 10);
                        crc \<leftarrow> zip_read32 a (centralOffset + 16);
                        compressedSize \<leftarrow> size32 a (centralOffset + 20);
                        payloadSize \<leftarrow> size32 a (centralOffset + 24);
                        nameSize \<leftarrow> size16 a (centralOffset + 28);
                        extraSize \<leftarrow> size16 a (centralOffset + 30);
                        entryComment \<leftarrow> size16 a (centralOffset + 32);
                        localOffset \<leftarrow> size32 a (centralOffset + 42);
                        if 46 + nameSize + extraSize + entryComment \<noteq> centralSize \<or> flags AND 9 \<noteq> 0 \<or>
                           (compression \<noteq> 0 \<and> compression \<noteq> 8) \<or> payloadSize = 0 \<or> payloadSize > kMaximumPayloadSize \<or>
                           compressedSize > kMaximumPayloadSize \<or> \<not> rangeFits localOffset 30 centralOffset
                        then Some (Inl EntryRefused)
                        else do {
                          localMagic \<leftarrow> zip_read32 a localOffset;
                          if localMagic \<noteq> kLocalHeader then Some (Inl EntryRefused)
                          else Some (Inr \<lparr>ceOffset = centralOffset, ceFlags = flags, ceMethod = compression, ceCrc = crc,
                                 ceCompressed = compressedSize, cePayload = payloadSize, ceName = nameSize,
                                 ceLocal = localOffset\<rparr>) } } } } } } }"

text \<open>The local header must repeat the entry; the compressed bytes behind it.\<close>

definition read_local :: "bytes \<Rightarrow> central_entry \<Rightarrow> (zip_error + bytes) option" where
  "read_local a e =
     (let l = ceLocal e in
      do { flags \<leftarrow> zip_read16 a (l + 6);
           compression \<leftarrow> zip_read16 a (l + 8);
           crc \<leftarrow> zip_read32 a (l + 14);
           compressedSize \<leftarrow> size32 a (l + 18);
           payloadSize \<leftarrow> size32 a (l + 22);
           nameSize \<leftarrow> size16 a (l + 26);
           extraSize \<leftarrow> size16 a (l + 28);
           if flags \<noteq> ceFlags e \<or> compression \<noteq> ceMethod e \<or> crc \<noteq> ceCrc e \<or> compressedSize \<noteq> ceCompressed e \<or>
              payloadSize \<noteq> cePayload e \<or> nameSize \<noteq> ceName e \<or>
              \<not> rangeFits (l + 30) (nameSize + extraSize) (ceOffset e) \<or>
              take nameSize (drop (l + 30) a) \<noteq> take (ceName e) (drop (ceOffset e + 46) a)
           then Some (Inl MetadataDisagrees)
           else (let dataOffset = l + 30 + (nameSize + extraSize) in
                 if \<not> rangeFits dataOffset (ceCompressed e) (ceOffset e) then Some (Inl PayloadTruncated)
                 else Some (Inr (take (ceCompressed e) (drop dataOffset a)))) })"

definition unpack :: "zlib_api option \<Rightarrow> central_entry \<Rightarrow> bytes \<Rightarrow> zip_error + bytes" where
  "unpack zlib e compressed =
     (case zlib of
        None \<Rightarrow> Inl ZlibUnavailable
      | Some api \<Rightarrow>
          (let out = (if ceMethod e = 0 then
                        (if ceCompressed e \<noteq> cePayload e then Inl StoredInconsistent else Inr compressed)
                      else (case inflatePayload api compressed (cePayload e) of
                              None \<Rightarrow> Inl DeflateInvalid | Some out \<Rightarrow> Inr out))
           in case out of
                Inl err \<Rightarrow> Inl err
              | Inr bs \<Rightarrow> if zCrc32 api bs \<noteq> ceCrc e then Inl CrcMismatch else Inr bs))"

definition extractSingleFile :: "zlib_api option \<Rightarrow> bytes \<Rightarrow> (zip_error + bytes) option" where
  "extractSingleFile zlib a =
     do { c \<leftarrow> read_central a;
          case c of
            Inl err \<Rightarrow> Some (Inl err)
          | Inr e \<Rightarrow>
              do { l \<leftarrow> read_local a e;
                   case l of Inl err \<Rightarrow> Some (Inl err) | Inr compressed \<Rightarrow> Some (unpack zlib e compressed) } }"

section \<open>No read outside the archive\<close>

definition runs :: "('a \<Rightarrow> bool) \<Rightarrow> 'a option \<Rightarrow> bool" where
  "runs P r \<longleftrightarrow> (case r of None \<Rightarrow> False | Some x \<Rightarrow> P x)"

named_theorems run_rules \<open>what a step of a checked reader needs\<close>

lemma runs_Some [run_rules]: "P x \<Longrightarrow> runs P (Some x)"
  by (simp add: runs_def)

lemma runs_bind [run_rules]: "runs (\<lambda>x. runs P (f x)) m \<Longrightarrow> runs P (Option.bind m f)"
  by (cases m) (simp_all add: runs_def)

lemma runs_if [run_rules]: "(c \<Longrightarrow> runs P x) \<Longrightarrow> (\<not> c \<Longrightarrow> runs P y) \<Longrightarrow> runs P (if c then x else y)"
  by simp

lemma runs_read16 [run_rules]: "offset + 2 \<le> length a \<Longrightarrow> (\<And>v. P v) \<Longrightarrow> runs P (zip_read16 a offset)"
  by (simp add: zip_read16_def runs_def)

lemma runs_read32 [run_rules]: "offset + 4 \<le> length a \<Longrightarrow> (\<And>v. P v) \<Longrightarrow> runs P (zip_read32 a offset)"
  by (simp add: zip_read32_def runs_def)

lemma runs_size16 [run_rules]: "offset + 2 \<le> length a \<Longrightarrow> (\<And>v. P v) \<Longrightarrow> runs P (size16 a offset)"
  by (simp add: size16_def zip_read16_def runs_def)

lemma runs_size32 [run_rules]: "offset + 4 \<le> length a \<Longrightarrow> (\<And>v. P v) \<Longrightarrow> runs P (size32 a offset)"
  by (simp add: size32_def zip_read32_def runs_def)

lemma runs_mono: "runs P r \<Longrightarrow> (\<And>x. P x \<Longrightarrow> Q x) \<Longrightarrow> runs Q r"
  by (cases r) (auto simp: runs_def)

lemma eocd_loop_runs:
  "n + 4 \<le> length a \<Longrightarrow> runs (\<lambda>r. case r of None \<Rightarrow> True | Some k \<Rightarrow> k \<le> n) (eocd_loop a b n)"
proof (induction n)
  case 0
  then show ?case by (auto intro!: run_rules)
next
  case (Suc n)
  have "runs (\<lambda>r. case r of None \<Rightarrow> True | Some k \<Rightarrow> k \<le> n) (eocd_loop a b n)" using Suc by simp
  then have "runs (\<lambda>r. case r of None \<Rightarrow> True | Some k \<Rightarrow> k \<le> Suc n) (eocd_loop a b n)"
    by (rule runs_mono) (auto split: option.splits)
  with Suc.prems show ?case by (auto intro!: run_rules)
qed

lemma find_eocd_runs:
  "runs (\<lambda>r. case r of None \<Rightarrow> True | Some k \<Rightarrow> k + 22 \<le> length a) (findEndOfCentralDirectory a)"
proof (cases "length a < 22")
  case False
  then have "runs (\<lambda>r. case r of None \<Rightarrow> True | Some k \<Rightarrow> k \<le> length a - 22) (eocd_loop a b (length a - 22))" for b
    by (intro eocd_loop_runs) simp
  then have "runs (\<lambda>r. case r of None \<Rightarrow> True | Some k \<Rightarrow> k + 22 \<le> length a) (eocd_loop a b (length a - 22))" for b
    by (rule runs_mono) (use False in \<open>auto split: option.splits\<close>)
  with False show ?thesis by (simp add: findEndOfCentralDirectory_def)
qed (simp add: findEndOfCentralDirectory_def runs_def)

definition entry_fits :: "bytes \<Rightarrow> central_entry \<Rightarrow> bool" where
  "entry_fits a e \<longleftrightarrow> ceLocal e + 30 \<le> ceOffset e \<and> ceOffset e + 46 \<le> length a \<and>
     0 < cePayload e \<and> cePayload e \<le> kMaximumPayloadSize \<and> (ceMethod e = 0 \<or> ceMethod e = 8)"

lemma read_central_runs: "runs (\<lambda>r. case r of Inl err \<Rightarrow> True | Inr e \<Rightarrow> entry_fits a e) (read_central a)"
  unfolding read_central_def
proof (rule runs_bind, rule runs_mono [OF find_eocd_runs], goal_cases)
  case (1 found)
  show ?case
  proof (cases found)
    case (Some eocd)
    with 1 have e: "eocd + 22 \<le> length a" by simp
    show ?thesis using e unfolding Some
      by (auto simp: rangeFits_def entry_fits_def intro!: run_rules)
  qed (simp add: runs_def)
qed

lemma read_local_runs:
  "entry_fits a e \<Longrightarrow> runs (\<lambda>r. case r of Inl err \<Rightarrow> True | Inr c \<Rightarrow> length c = ceCompressed e) (read_local a e)"
  unfolding read_local_def Let_def
  by (auto simp: rangeFits_def entry_fits_def intro!: run_rules)

lemma inflate_length: "inflatePayload api c n = Some out \<Longrightarrow> length out = n"
  by (auto simp: inflatePayload_def split: prod.splits if_splits)

lemma unpack_length:
  assumes "entry_fits a e" "length c = ceCompressed e" "unpack z e c = Inr out"
  shows "length out = cePayload e"
  using assms by (auto simp: unpack_def Let_def inflate_length split: option.splits sum.splits if_splits)

text \<open>C11: on no archive does the extraction read outside of it, and a file it returns is not empty and at
  most 64 MiB long.\<close>

theorem zip_stays_in_bounds:
  "\<exists>r. extractSingleFile z a = Some r \<and>
     (case r of Inl err \<Rightarrow> True | Inr out \<Rightarrow> 1 \<le> length out \<and> length out \<le> 64 * 1024 * 1024)"
proof -
  have "runs (\<lambda>r. case r of Inl err \<Rightarrow> True | Inr out \<Rightarrow> 1 \<le> length out \<and> length out \<le> 64 * 1024 * 1024) (extractSingleFile z a)"
    unfolding extractSingleFile_def
  proof (rule runs_bind, rule runs_mono [OF read_central_runs], goal_cases)
    case (1 c)
    show ?case
    proof (cases c)
      case (Inr e)
      with 1 have e: "entry_fits a e" by simp
      have "runs (\<lambda>l. runs (\<lambda>r. case r of Inl err \<Rightarrow> True | Inr out \<Rightarrow> 1 \<le> length out \<and> length out \<le> 64 * 1024 * 1024)
          (case l of Inl err \<Rightarrow> Some (Inl err) | Inr compressed \<Rightarrow> Some (unpack z e compressed))) (read_local a e)"
      proof (rule runs_mono [OF read_local_runs [OF e]], goal_cases)
        case (1 l)
        have "1 \<le> length out \<and> length out \<le> 64 * 1024 * 1024" if "l = Inr d" "unpack z e d = Inr out" for d out
          using unpack_length [OF e _ that(2)] 1 that(1) e by (simp add: entry_fits_def kMaximumPayloadSize_def)
        then show ?case by (auto simp: runs_def split: sum.splits)
      qed
      then show ?thesis unfolding Inr by (auto intro: runs_bind)
    qed (simp add: runs_def)
  qed
  then show ?thesis by (auto simp: runs_def split: option.splits)
qed

section \<open>A stored archive is read back\<close>

text \<open>An archive with one entry, stored or deflated, without comments.\<close>

definition le16 :: "u16 \<Rightarrow> bytes" where "le16 w = le_encode 2 (unat w)"

definition entry_head :: "u16 \<Rightarrow> u32 \<Rightarrow> nat \<Rightarrow> nat \<Rightarrow> nat \<Rightarrow> nat \<Rightarrow> bytes" where
  "entry_head compression crc compressedSize payloadSize nameSize extraSize =
     le16 0 @ le16 compression @ le32 0 @ le32 crc @ le32 (of_nat compressedSize) @ le32 (of_nat payloadSize) @
     le16 (of_nat nameSize) @ le16 (of_nat extraSize)"

lemma length_le16 [simp]: "length (le16 w) = 2"
  by (simp add: le16_def)

lemma byte_of_word:
  fixes w :: "'a::len word"
  shows "(of_nat (unat w div 2 ^ k mod 256) :: u8) = ucast (drop_bit k w)"
proof -
  have "unat (drop_bit k w) = unat w div 2 ^ k"
    using unsigned_less [of w] by (simp add: unsigned_drop_bit_eq drop_bit_eq_div [where 'a = nat] take_bit_nat_eq_self
        del: drop_bit_eq_div)
  then show ?thesis
    by (intro word_unat_eq_iff [THEN iffD2]) (simp add: unsigned_of_nat unsigned_ucast_eq take_bit_nat_def)
qed

lemma le32_bytes: "le32 w = [ucast w, ucast (drop_bit 8 w), ucast (drop_bit 16 w), ucast (drop_bit 24 w)]"
  using byte_of_word [of w 0] byte_of_word [of w 8] byte_of_word [of w 16] byte_of_word [of w 24]
  by (simp add: le32_def le_encode_4 div_mult2_eq [symmetric])

lemma le16_bytes: "le16 w = [ucast w, ucast (drop_bit 8 w)]"
proof -
  have "(2 :: nat) = Suc (Suc 0)" by simp
  then have "le_encode 2 v = [of_nat (v mod 256), of_nat (v div 256 mod 256)]" for v by (simp only: le_encode.simps)
  then show ?thesis using byte_of_word [of w 0] byte_of_word [of w 8] by (simp add: le16_def)
qed

lemma nth_after: "length pre = k \<Longrightarrow> (pre @ bs) ! (k + i) = bs ! i" "length pre = k \<Longrightarrow> (pre @ bs) ! k = bs ! 0"
  by (auto simp: nth_append)

lemma read16_le16: "length pre = k \<Longrightarrow> zip_read16 (pre @ le16 w @ post) k = Some w"
proof -
  assume k: "length pre = k"
  have "ucast (ucast w :: u8) OR push_bit 8 (ucast (ucast (drop_bit 8 w) :: u8)) = w"
    by (rule bit_word_eqI) (auto simp: bit_or_iff bit_ucast_iff bit_push_bit_iff bit_drop_bit_eq)
  then show ?thesis by (simp add: zip_read16_def le16_bytes k [symmetric] nth_append)
qed

lemma read32_le32: "length pre = k \<Longrightarrow> zip_read32 (pre @ le32 w @ post) k = Some w"
proof -
  assume k: "length pre = k"
  have "ucast (ucast w :: u8) OR push_bit 8 (ucast (ucast (drop_bit 8 w) :: u8)) OR
      push_bit 16 (ucast (ucast (drop_bit 16 w) :: u8)) OR push_bit 24 (ucast (ucast (drop_bit 24 w) :: u8)) = w"
  proof (rule bit_word_eqI)
    fix n
    assume "n < LENGTH(32)"
    then consider "n < 8" | "8 \<le> n" "n < 16" | "16 \<le> n" "n < 24" | "24 \<le> n" "n < 32" by fastforce
    then show "bit (ucast (ucast w :: u8) OR push_bit 8 (ucast (ucast (drop_bit 8 w) :: u8)) OR
      push_bit 16 (ucast (ucast (drop_bit 16 w) :: u8)) OR push_bit 24 (ucast (ucast (drop_bit 24 w) :: u8)) :: u32) n = bit w n"
      by cases (auto simp: bit_or_iff bit_ucast_iff bit_push_bit_iff bit_drop_bit_eq)
  qed
  then show ?thesis by (simp add: zip_read32_def le32_bytes k [symmetric] nth_append)
qed

lemma read16_at: "drop k a = le16 w @ post \<Longrightarrow> zip_read16 a k = Some w"
proof -
  assume d: "drop k a = le16 w @ post"
  then have "k \<le> length a" by (metis append_is_Nil_conv drop_all le16_bytes linorder_le_cases list.discI)
  then show ?thesis using read16_le16 [of "take k a" k w post] d by (metis append_take_drop_id length_take min.absorb2)
qed

lemma read32_at: "drop k a = le32 w @ post \<Longrightarrow> zip_read32 a k = Some w"
proof -
  assume d: "drop k a = le32 w @ post"
  then have "k \<le> length a" by (metis append_is_Nil_conv drop_all le32_bytes linorder_le_cases list.discI)
  then show ?thesis using read32_le32 [of "take k a" k w post] d by (metis append_take_drop_id length_take min.absorb2)
qed

definition zip_local :: "bytes \<Rightarrow> u16 \<Rightarrow> u32 \<Rightarrow> bytes \<Rightarrow> bytes \<Rightarrow> nat \<Rightarrow> bytes" where
  "zip_local name compression crc extra data payloadSize =
     le32 kLocalHeader @ le16 20 @ entry_head compression crc (length data) payloadSize (length name) (length extra) @ name @ extra @ data"

definition zip_central :: "bytes \<Rightarrow> u16 \<Rightarrow> u32 \<Rightarrow> bytes \<Rightarrow> nat \<Rightarrow> bytes" where
  "zip_central name compression crc data payloadSize =
     le32 kCentralHeader @ le16 20 @ le16 20 @ entry_head compression crc (length data) payloadSize (length name) 0 @
     le16 0 @ le16 0 @ le16 0 @ le32 0 @ le32 0 @ name"

definition zip_end :: "nat \<Rightarrow> nat \<Rightarrow> bytes" where
  "zip_end centralSize centralOffset = le32 kEndOfCentralDirectory @ le16 0 @ le16 0 @ le16 1 @ le16 1 @
     le32 (of_nat centralSize) @ le32 (of_nat centralOffset) @ le16 0"

definition zip_archive :: "bytes \<Rightarrow> u16 \<Rightarrow> u32 \<Rightarrow> bytes \<Rightarrow> bytes \<Rightarrow> nat \<Rightarrow> bytes" where
  "zip_archive name compression crc extra data payloadSize =
     (let b = zip_local name compression crc extra data payloadSize; c = zip_central name compression crc data payloadSize
      in b @ c @ zip_end (length c) (length b))"

lemma length_parts [simp]:
  "length (entry_head m c d p n x) = 24" "length (zip_end i j) = 22"
  "length (zip_local name compression crc extra data n) = 30 + length name + length extra + length data"
  "length (zip_central name compression crc data n) = 46 + length name"
  by (simp_all add: entry_head_def zip_end_def zip_local_def zip_central_def)

lemma read_end:
  assumes "length pre = e"
  shows "zip_read32 (pre @ zip_end i j) e = Some kEndOfCentralDirectory"
    "zip_read16 (pre @ zip_end i j) (e + 4) = Some 0" "zip_read16 (pre @ zip_end i j) (e + 6) = Some 0"
    "zip_read16 (pre @ zip_end i j) (e + 8) = Some 1" "zip_read16 (pre @ zip_end i j) (e + 10) = Some 1"
    "zip_read32 (pre @ zip_end i j) (e + 12) = Some (of_nat i)" "zip_read32 (pre @ zip_end i j) (e + 16) = Some (of_nat j)"
    "zip_read16 (pre @ zip_end i j) (e + 20) = Some 0"
  by (rule read32_at read16_at, simp add: zip_end_def assms)+

lemma read_entry:
  assumes "length pre = e"
  shows "zip_read32 (pre @ zip_central name compression crc data p @ post) e = Some kCentralHeader"
    "zip_read16 (pre @ zip_central name compression crc data p @ post) (e + 8) = Some 0"
    "zip_read16 (pre @ zip_central name compression crc data p @ post) (e + 10) = Some compression"
    "zip_read32 (pre @ zip_central name compression crc data p @ post) (e + 16) = Some crc"
    "zip_read32 (pre @ zip_central name compression crc data p @ post) (e + 20) = Some (of_nat (length data))"
    "zip_read32 (pre @ zip_central name compression crc data p @ post) (e + 24) = Some (of_nat p)"
    "zip_read16 (pre @ zip_central name compression crc data p @ post) (e + 28) = Some (of_nat (length name))"
    "zip_read16 (pre @ zip_central name compression crc data p @ post) (e + 30) = Some 0"
    "zip_read16 (pre @ zip_central name compression crc data p @ post) (e + 32) = Some 0"
    "zip_read32 (pre @ zip_central name compression crc data p @ post) (e + 42) = Some 0"
  by (rule read32_at read16_at, simp add: zip_central_def entry_head_def assms)+

lemma read_header:
  shows "zip_read32 (zip_local name compression crc extra data p @ post) 0 = Some kLocalHeader"
    "zip_read16 (zip_local name compression crc extra data p @ post) 6 = Some 0"
    "zip_read16 (zip_local name compression crc extra data p @ post) 8 = Some compression"
    "zip_read32 (zip_local name compression crc extra data p @ post) 14 = Some crc"
    "zip_read32 (zip_local name compression crc extra data p @ post) 18 = Some (of_nat (length data))"
    "zip_read32 (zip_local name compression crc extra data p @ post) 22 = Some (of_nat p)"
    "zip_read16 (zip_local name compression crc extra data p @ post) 26 = Some (of_nat (length name))"
    "zip_read16 (zip_local name compression crc extra data p @ post) 28 = Some (of_nat (length extra))"
  by (rule read32_at read16_at, simp add: zip_local_def entry_head_def)+

lemma word_nat16: "n < 2 ^ 16 \<Longrightarrow> unat (of_nat n :: u16) = n"
  by (simp add: unsigned_of_nat take_bit_nat_eq_self)

lemma word_nat32: "n < 2 ^ 32 \<Longrightarrow> unat (of_nat n :: u32) = n"
  by (simp add: unsigned_of_nat take_bit_nat_eq_self)

lemma find_end:
  assumes "a = pre @ zip_end i j"
  shows "findEndOfCentralDirectory a = Some (Some (length pre))"
proof -
  have r: "zip_read32 a (length pre) = Some kEndOfCentralDirectory" using read_end(1) [OF refl] by (simp add: assms)
  have "eocd_loop a b (length pre) = Some (Some (length pre))" for b
    using r by (cases "length pre") (simp_all add: numeral_2_eq_2)
  then show ?thesis by (simp add: findEndOfCentralDirectory_def) (simp add: assms)
qed

lemma central_of_archive:
  assumes "length name < 2 ^ 16" "length extra < 2 ^ 16" "length data \<le> kMaximumPayloadSize"
    "0 < p" "p \<le> kMaximumPayloadSize" "compression = 0 \<or> compression = 8"
  shows "read_central (zip_archive name compression crc extra data p) =
    Some (Inr \<lparr>ceOffset = 30 + length name + length extra + length data, ceFlags = 0, ceMethod = compression, ceCrc = crc,
      ceCompressed = length data, cePayload = p, ceName = length name, ceLocal = 0\<rparr>)"
proof -
  let ?b = "zip_local name compression crc extra data p" and ?c = "zip_central name compression crc data p"
  define o1 where "o1 = length ?b"
  define s1 where "s1 = length ?c"
  define a where "a = ?b @ ?c @ zip_end s1 o1"
  have a1: "a = (?b @ ?c) @ zip_end s1 o1" by (simp add: a_def)
  have small: "o1 < 2 ^ 32" "s1 < 2 ^ 32" using assms(1-3) by (simp_all add: o1_def s1_def kMaximumPayloadSize_def)
  have e: "length (?b @ ?c) = o1 + s1" by (simp add: o1_def s1_def)
  note re = read_end [OF e, of s1 o1, folded a1]
  note rc = read_entry [OF o1_def [symmetric], of name compression crc data p "zip_end s1 o1", folded a_def]
  have rl: "zip_read32 a 0 = Some kLocalHeader" unfolding a_def by (rule read_header)
  have l: "length a = o1 + s1 + 22" by (simp add: a_def o1_def s1_def)
  have ss: "s1 = 46 + length name" "o1 = 30 + length name + length extra + length data" by (simp_all add: s1_def o1_def)
  have z: "zip_archive name compression crc extra data p = a" by (simp add: zip_archive_def a_def s1_def o1_def Let_def)
  have sz: "size16 a (o1 + s1 + 20) = Some 0" "size32 a (o1 + s1 + 12) = Some s1" "size32 a (o1 + s1 + 16) = Some o1"
    "size32 a (o1 + 20) = Some (length data)" "size32 a (o1 + 24) = Some p" "size16 a (o1 + 28) = Some (length name)"
    "size16 a (o1 + 30) = Some 0" "size16 a (o1 + 32) = Some 0" "size32 a (o1 + 42) = Some 0"
    using re rc small assms by (simp_all add: size16_def size32_def word_nat16 word_nat32 kMaximumPayloadSize_def)
  have "30 \<le> o1" by (simp add: ss(2))
  then show ?thesis unfolding z read_central_def find_end [OF a1] e
    using re rc rl sz assms(3-6) l by (simp add: rangeFits_def ss(2) [symmetric]) (simp add: ss(1))
qed

lemma local_of_archive:
  assumes "length name < 2 ^ 16" "length extra < 2 ^ 16" "length data \<le> kMaximumPayloadSize" "p \<le> kMaximumPayloadSize"
  shows "read_local (zip_archive name compression crc extra data p)
    \<lparr>ceOffset = 30 + length name + length extra + length data, ceFlags = 0, ceMethod = compression, ceCrc = crc,
      ceCompressed = length data, cePayload = p, ceName = length name, ceLocal = 0\<rparr> = Some (Inr data)"
proof -
  let ?b = "zip_local name compression crc extra data p" and ?c = "zip_central name compression crc data p"
  define post where "post = ?c @ zip_end (length ?c) (length ?b)"
  have z: "zip_archive name compression crc extra data p = ?b @ post" by (simp add: zip_archive_def post_def Let_def)
  note rh = read_header [of name compression crc extra data p post]
  have sz: "size32 (?b @ post) 18 = Some (length data)" "size32 (?b @ post) 22 = Some p"
    "size16 (?b @ post) 26 = Some (length name)" "size16 (?b @ post) 28 = Some (length extra)"
    using rh assms by (simp_all add: size16_def size32_def word_nat16 word_nat32 kMaximumPayloadSize_def)
  have h: "drop 30 (?b @ post) = name @ extra @ data @ post" by (simp add: zip_local_def)
  have h2: "drop 30 ?b = name @ extra @ data" by (simp add: zip_local_def)
  have n: "drop (30 + length name + length extra + length data + 46) (?b @ post) = name @ zip_end (length ?c) (length ?b)"
    by (simp add: post_def zip_central_def)
  have d: "drop (30 + (length name + length extra)) (?b @ post) = data @ post"
    using h by (metis drop_drop add.commute append_assoc append_eq_conv_conj length_append)
  show ?thesis unfolding z read_local_def Let_def
    using rh sz n d h2 by (simp add: rangeFits_def)
qed

text \<open>C17: from an archive that stores or deflates one file, with a checksum that agrees, exactly that file
  is extracted.\<close>

theorem zip_roundtrip:
  assumes "length name < 2 ^ 16" "length extra < 2 ^ 16" "length data \<le> kMaximumPayloadSize"
    "0 < length payload" "length payload \<le> kMaximumPayloadSize" "zCrc32 api payload = crc"
    "compression = 0 \<and> data = payload \<or>
     compression = 8 \<and> zInitialize api = 0 \<and>
     zInflate api data (length payload) = (1, length data, length payload, payload)"
  shows "extractSingleFile (Some api) (zip_archive name compression crc extra data (length payload)) = Some (Inr payload)"
proof -
  have m: "compression = 0 \<or> compression = 8" using assms(7) by blast
  show ?thesis
    using central_of_archive [OF assms(1-5) m] local_of_archive [OF assms(1-3,5), of compression crc] assms(6,7)
    by (auto simp: extractSingleFile_def unpack_def inflatePayload_def)
qed

definition sum_api :: zlib_api where
  "sum_api = \<lparr>zInitialize = 0, zInflate = (\<lambda>c n. (1, length c, n, replicate n (hd c))), zCrc32 = (\<lambda>bs. of_nat (sum_list (map unat bs)))\<rparr>"

lemma zip_roundtrip_witness:
  "extractSingleFile (Some sum_api) (zip_archive [97] 8 21 [] [7] 3) = Some (Inr [7, 7, 7])"
  using zip_roundtrip [of "[97]" "[]" "[7]" "[7, 7, 7]" sum_api 21 8]
  by (simp add: sum_api_def kMaximumPayloadSize_def numeral_3_eq_3)

end
