(* ===== verification/SynthMark.thy ===== *)
theory SynthMark
  imports ProvisionTerminal
begin

text \<open>
  Synthetic app info markers and the artifacts of an app in the cache directory,
  \<open>src/feats/synthmark.hpp\<close>: the marker files, the filter of outgoing requests with its budget, the
  names that belong to an app, and their quarantine, over the file system of the cache pair. The
  entries of a directory come in an order, and at moments, that the standard leaves open; they are
  an argument. A path is a regular file when the file system maps it. Clock values are unbounded.
\<close>

section \<open>Markers\<close>

definition markerPath :: "path \<Rightarrow> u32 \<Rightarrow> path" where
  "markerPath dir app = dir @ ''/synthetic_'' @ to_dec (unat app)"

text \<open>\<open>exists(path, ec)\<close> is false on an error.\<close>

definition exists_or_false :: "path \<Rightarrow> file_system \<Rightarrow> bool \<times> file_system" where
  "exists_or_false p s = (case fs_exists p s of (r, s') \<Rightarrow> (r = Some True, s'))"

definition fs_create :: "path \<Rightarrow> file_system \<Rightarrow> bool \<times> file_system" where
  "fs_create p s =
     (case outcome_of s of
        Works \<Rightarrow> (True, set_file p (Some []) (call_done s))
      | Fails _ \<Rightarrow> (False, call_done s))"

definition mark_app :: "path \<Rightarrow> u32 \<Rightarrow> file_system \<Rightarrow> bool \<times> file_system" where
  "mark_app dir app s =
     (case exists_or_false (markerPath dir app) s of
        (True, s) \<Rightarrow> (True, s)
      | (False, s) \<Rightarrow> fs_create (markerPath dir app) s)"

definition unmark_app :: "path \<Rightarrow> u32 \<Rightarrow> file_system \<Rightarrow> bool \<times> file_system" where
  "unmark_app dir app s =
     (case fs_remove (markerPath dir app) s of
        (_, s) \<Rightarrow> (case exists_or_false (markerPath dir app) s of (e, s) \<Rightarrow> (\<not> e, s)))"

definition isMarked :: "path \<Rightarrow> u32 \<Rightarrow> file_system \<Rightarrow> bool \<times> file_system" where
  "isMarked dir app s = exists_or_false (markerPath dir app) s"

text \<open>
  \<open>std::stoul\<close> where \<open>unsigned long\<close> has 32 bits, with every character consumed: blanks, a sign, digits; a
  negative number is taken modulo the word size. \<open>None\<close> is an exception or a character left.
\<close>

definition isspace_char :: "char \<Rightarrow> bool" where
  "isspace_char c \<longleftrightarrow> char_code c = 32 \<or> (9 \<le> char_code c \<and> char_code c \<le> 13)"

definition stoul_all :: "string \<Rightarrow> u32 option" where
  "stoul_all t =
     (let t = dropWhile isspace_char t;
          negative = (t \<noteq> [] \<and> hd t = CHR ''-'');
          digits = (if t \<noteq> [] \<and> (hd t = CHR ''-'' \<or> hd t = CHR ''+'') then tl t else t)
      in case from_chars_all u32_max digits of
           None \<Rightarrow> None
         | Some v \<Rightarrow> Some (if negative then - of_nat v else of_nat v))"

definition marked_id :: "string \<Rightarrow> u32 option" where
  "marked_id name =
     (if \<not> starts_with ''synthetic_'' name then None
      else (let idStr = drop 10 name in
            if idStr = [] then None
            else (case stoul_all idStr of None \<Rightarrow> None | Some v \<Rightarrow> if v \<noteq> 0 then Some v else None)))"

text \<open>\<open>loadAll\<close>: the entries of the directory, \<open>None\<close> when it is missing or not readable.\<close>

definition loadAll_marked :: "string list option \<Rightarrow> u32 set" where
  "loadAll_marked entries =
     (case entries of
        None \<Rightarrow> {}
      | Some names \<Rightarrow> fold (\<lambda>n out. case marked_id n of None \<Rightarrow> out | Some v \<Rightarrow> insert v out) names {})"

section \<open>The budget of the request filter\<close>

record strip_limits =
  slMaxStrips :: nat
  slMaxSeconds :: nat

definition default_limits :: strip_limits where
  "default_limits = \<lparr>slMaxStrips = 8, slMaxSeconds = 60\<rparr>"

record strip_state =
  ssCount :: nat
  ssFirstStripAt :: int

definition no_strips :: strip_state where
  "no_strips = \<lparr>ssCount = 0, ssFirstStripAt = 0\<rparr>"

datatype strip_decision = StripAllow | StripDisabled | StripCountLimit | StripTimeLimit

text \<open>A null pointer is \<open>None\<close>.\<close>

definition strip_number :: "string option \<Rightarrow> nat option" where
  "strip_number t = (case t of None \<Rightarrow> None | Some s \<Rightarrow> if s = [] then None else from_chars_all u64_max s)"

definition parseStripLimits :: "string option \<Rightarrow> string option \<Rightarrow> strip_limits" where
  "parseStripLimits maxStrips maxSeconds =
     (let out = default_limits;
          out = (case strip_number maxStrips of None \<Rightarrow> out | Some n \<Rightarrow> out\<lparr>slMaxStrips := n\<rparr>)
      in case strip_number maxSeconds of None \<Rightarrow> out | Some n \<Rightarrow> out\<lparr>slMaxSeconds := n\<rparr>)"

definition evaluateStrip :: "strip_state \<Rightarrow> strip_limits \<Rightarrow> int \<Rightarrow> strip_decision \<times> strip_state" where
  "evaluateStrip st limits now =
     (if slMaxStrips limits = 0 then (StripDisabled, st)
      else if ssCount st \<ge> slMaxStrips limits then (StripCountLimit, st)
      else if ssCount st \<noteq> 0 \<and> now \<ge> ssFirstStripAt st \<and> nat (now - ssFirstStripAt st) \<ge> slMaxSeconds limits
      then (StripTimeLimit, st)
      else (let st = (if ssCount st = 0 then st\<lparr>ssFirstStripAt := now\<rparr> else st)
            in (StripAllow, st\<lparr>ssCount := ssCount st + 1\<rparr>)))"

type_synonym strip_budget = "u32 \<rightharpoonup> strip_state"

definition reserve_strip :: "u32 \<Rightarrow> strip_limits \<Rightarrow> int \<Rightarrow> strip_budget \<Rightarrow> strip_decision \<times> strip_budget" where
  "reserve_strip app limits now states =
     (let st = (case states app of None \<Rightarrow> no_strips | Some st \<Rightarrow> st) in
      case evaluateStrip st limits now of
        (d, st') \<Rightarrow> (d, if d = StripAllow then states(app \<mapsto> st') else states))"

definition isManagedSynthetic :: "u32 \<Rightarrow> (u32 \<Rightarrow> bool) option \<Rightarrow> (u32 \<Rightarrow> bool) option \<Rightarrow> bool" where
  "isManagedSynthetic app isSynthetic isManaged =
     (case (isManaged, isSynthetic) of (Some m, Some s) \<Rightarrow> m app \<and> s app | _ \<Rightarrow> False)"

definition installStateAllowsStrip :: "bool \<Rightarrow> bool \<Rightarrow> bool \<Rightarrow> bool \<Rightarrow> bool" where
  "installStateAllowsStrip authoritative managed appManagerResolved fullyInstalled =
     (if \<not> authoritative \<or> \<not> managed then False else \<not> appManagerResolved \<or> \<not> fullyInstalled)"

definition localAppInfoAuthority :: "bool \<Rightarrow> bool \<Rightarrow> bool" where
  "localAppInfoAuthority published pairPresent \<longleftrightarrow> published \<or> pairPresent"

text \<open>The indices to delete, highest first.\<close>

definition stripIndices :: "u32 list \<Rightarrow> (u32 \<Rightarrow> bool) \<Rightarrow> nat list" where
  "stripIndices requested isSynthetic = filter (\<lambda>i. isSynthetic (requested ! i)) (rev [0..<length requested])"

text \<open>The request without them: \<open>DeleteSubrange(idx, 1)\<close> for each.\<close>

definition delete_at :: "nat \<Rightarrow> 'a list \<Rightarrow> 'a list" where
  "delete_at i xs = take i xs @ drop (Suc i) xs"

definition strip_request :: "u32 list \<Rightarrow> (u32 \<Rightarrow> bool) \<Rightarrow> u32 list" where
  "strip_request requested permit = fold delete_at (stripIndices requested permit) requested"

section \<open>Names that belong to an app\<close>

definition parseCacheAppId :: "string \<Rightarrow> string \<Rightarrow> string \<Rightarrow> u32 option" where
  "parseCacheAppId name prefix suffix =
     (if length name < length prefix + length suffix \<or> take (length prefix) name \<noteq> prefix then None
      else (let idSize = length name - length prefix - length suffix in
            if idSize = 0 \<or> take (length suffix) (drop (length prefix + idSize) name) \<noteq> suffix then None
            else (case from_chars_all u64_max (take idSize (drop (length prefix) name)) of
                    None \<Rightarrow> None
                  | Some value \<Rightarrow> if value = 0 \<or> value > u32_max then None else Some (of_nat value))))"

definition or_else :: "'a option \<Rightarrow> 'a option \<Rightarrow> 'a option" where
  "or_else x y = (case x of None \<Rightarrow> y | Some v \<Rightarrow> Some v)"

definition cacheAppId :: "string \<Rightarrow> u32 option" where
  "cacheAppId name =
     or_else (parseCacheAppId name ''synthetic_'' '''')
     (or_else (parseCacheAppId name ''picsbuffer_'' ''.bin'')
     (or_else (parseCacheAppId name ''picsbuffer_'' ''.yaml'')
     (or_else (parseCacheAppId name ''dlcmetadata_'' ''.yaml'')
       (parseCacheAppId name ''terminal_'' ''.state''))))"

text \<open>Each name once, in the order of first insertion.\<close>

definition add_name :: "string \<Rightarrow> string list \<Rightarrow> string list" where
  "add_name n names = (if n \<in> set names then names else names @ [n])"

definition appArtifactNames :: "u32 \<Rightarrow> u32 list \<Rightarrow> bool \<Rightarrow> bool \<Rightarrow> string list" where
  "appArtifactNames app depots tickets marker =
     (if app = 0 then []
      else (let d = to_dec (unat app);
                names = fold add_name [''picsbuffer_'' @ d @ ''.bin'', ''picsbuffer_'' @ d @ ''.yaml'',
                  ''terminal_'' @ d @ ''.state'', ''dlcmetadata_'' @ d @ ''.yaml''] [];
                names = (if marker then add_name (''synthetic_'' @ d) names else names);
                names = (if tickets then fold add_name [''ticket_'' @ d @ ''.yaml'', ''encryptedTicket_'' @ d @ ''.yaml''] names
                         else names)
            in fold (\<lambda>dep ns. if dep \<noteq> 0 then add_name (''manifestid_'' @ to_dec (unat dep) @ ''.yaml'') ns else ns) depots names))"

section \<open>Quarantine\<close>

datatype quarantine_result = Renamed | TargetExists | RenameFailed

definition fs_link :: "path \<Rightarrow> path \<Rightarrow> file_system \<Rightarrow> bool \<times> file_system" where
  "fs_link src dst s =
     (if outcome_of s = Works \<and> fsFiles s src \<noteq> None \<and> fsFiles s dst = None
      then (True, set_file dst (fsFiles s src) (call_done s)) else (False, call_done s))"

text \<open>\<open>atomicRename\<close> tells whether the system call exists; without it a link is made and the source removed.\<close>

definition quarantine_rename :: "bool \<Rightarrow> path \<Rightarrow> path \<Rightarrow> file_system \<Rightarrow> quarantine_result \<times> file_system" where
  "quarantine_rename atomicRename original target s =
     (if atomicRename then
        (if outcome_of s \<noteq> Works \<or> fsFiles s original = None then (RenameFailed, call_done s)
         else if fsFiles s target \<noteq> None then (TargetExists, call_done s)
         else (Renamed, set_file original None (set_file target (fsFiles s original) (call_done s))))
      else
        (case fs_exists target s of
           (Some True, s) \<Rightarrow> (TargetExists, s)
         | (None, s) \<Rightarrow> (RenameFailed, s)
         | (Some False, s) \<Rightarrow>
             (case fs_link original target s of
                (False, s) \<Rightarrow> (RenameFailed, s)
              | (True, s) \<Rightarrow>
                  (case fs_remove original s of
                     (Some _, s) \<Rightarrow> (Renamed, s)
                   | (None, s) \<Rightarrow> (RenameFailed, snd (fs_remove target s))))))"

definition quarantine_name :: "path \<Rightarrow> string \<Rightarrow> nat \<Rightarrow> path" where
  "quarantine_name original suffix attempt =
     original @ suffix @ (if attempt \<noteq> 0 then ''.'' @ to_dec attempt else [])"

text \<open>\<open>n\<close> attempts are left.\<close>

primrec quarantine_loop :: "nat \<Rightarrow> bool \<Rightarrow> path \<Rightarrow> string \<Rightarrow> nat \<Rightarrow> file_system \<Rightarrow> path option \<times> file_system" where
  "quarantine_loop 0 atomicRename original suffix attempt s = (None, s)"
| "quarantine_loop (Suc n) atomicRename original suffix attempt s =
     (case quarantine_rename atomicRename original (quarantine_name original suffix attempt) s of
        (Renamed, s) \<Rightarrow> (Some (quarantine_name original suffix attempt), s)
      | (RenameFailed, s) \<Rightarrow> (None, s)
      | (TargetExists, s) \<Rightarrow> quarantine_loop n atomicRename original suffix (Suc attempt) s)"

definition quarantineFile :: "bool \<Rightarrow> path \<Rightarrow> string \<Rightarrow> file_system \<Rightarrow> path option \<times> file_system" where
  "quarantineFile atomicRename original suffix s =
     (if suffix = [] then (None, s) else quarantine_loop 1024 atomicRename original suffix 0 s)"

text \<open>\<open>is_regular_file(path, ec)\<close>; an error is \<open>None\<close>.\<close>

definition fs_regular :: "path \<Rightarrow> file_system \<Rightarrow> bool option \<times> file_system" where
  "fs_regular p s = fs_exists p s"

definition quarantine_one ::
  "bool \<Rightarrow> string \<Rightarrow> path \<Rightarrow> (path \<times> path) list \<times> file_system \<Rightarrow> (path \<times> path) list \<times> file_system" where
  "quarantine_one atomicRename suffix original = (\<lambda>(out, s).
     (case quarantineFile atomicRename original suffix s of
        (None, s) \<Rightarrow> (out, s)
      | (Some q, s) \<Rightarrow> (out @ [(original, q)], s)))"

definition orphan_step ::
  "bool \<Rightarrow> path \<Rightarrow> u32 set \<Rightarrow> string \<Rightarrow> string \<Rightarrow> (path \<times> path) list \<times> file_system \<Rightarrow> (path \<times> path) list \<times> file_system" where
  "orphan_step atomicRename dir managed suffix name = (\<lambda>(out, s).
     (case fs_regular (path_join dir name) s of
        (r, s) \<Rightarrow>
          if r \<noteq> Some True then (out, s)
          else (case cacheAppId name of
                  None \<Rightarrow> (out, s)
                | Some app \<Rightarrow>
                    if app \<in> managed then (out, s)
                    else quarantine_one atomicRename suffix (path_join dir name) (out, s))))"

definition quarantineOrphans ::
  "bool \<Rightarrow> path \<Rightarrow> u32 set \<Rightarrow> string \<Rightarrow> string list \<Rightarrow> file_system \<Rightarrow> (path \<times> path) list \<times> file_system" where
  "quarantineOrphans atomicRename dir managed suffix entries s =
     (if suffix = [] then ([], s) else fold (orphan_step atomicRename dir managed suffix) entries ([], s))"

definition artifact_step ::
  "bool \<Rightarrow> path \<Rightarrow> string \<Rightarrow> string \<Rightarrow> (path \<times> path) list \<times> file_system \<Rightarrow> (path \<times> path) list \<times> file_system" where
  "artifact_step atomicRename dir suffix name = (\<lambda>(out, s).
     (case fs_regular (path_join dir name) s of
        (r, s) \<Rightarrow> if r \<noteq> Some True then (out, s) else quarantine_one atomicRename suffix (path_join dir name) (out, s)))"

definition quarantineAppArtifacts ::
  "bool \<Rightarrow> path \<Rightarrow> u32 \<Rightarrow> u32 list \<Rightarrow> string \<Rightarrow> bool \<Rightarrow> bool \<Rightarrow> file_system \<Rightarrow> (path \<times> path) list \<times> file_system" where
  "quarantineAppArtifacts atomicRename dir app depots suffix tickets marker s =
     (if app = 0 \<or> suffix = [] then ([], s)
      else fold (artifact_step atomicRename dir suffix) (appArtifactNames app depots tickets marker) ([], s))"

primrec any_artifact :: "path \<Rightarrow> string list \<Rightarrow> file_system \<Rightarrow> bool \<times> file_system" where
  "any_artifact dir [] s = (False, s)"
| "any_artifact dir (n # ns) s =
     (case fs_regular (path_join dir n) s of
        (Some False, s) \<Rightarrow> any_artifact dir ns s
      | (_, s) \<Rightarrow> (True, s))"

definition hasAppArtifacts :: "path \<Rightarrow> u32 \<Rightarrow> u32 list \<Rightarrow> bool \<Rightarrow> bool \<Rightarrow> file_system \<Rightarrow> bool \<times> file_system" where
  "hasAppArtifacts dir app depots tickets marker s =
     (if app = 0 then (False, s) else any_artifact dir (appArtifactNames app depots tickets marker) s)"

definition restoreQuarantined :: "path \<times> path \<Rightarrow> file_system \<Rightarrow> bool \<times> file_system" where
  "restoreQuarantined r s =
     (if fst r = [] \<or> snd r = [] then (False, s)
      else (case fs_exists (snd r) s of
              (Some True, s) \<Rightarrow>
                (case fs_exists (fst r) s of
                   (Some False, s) \<Rightarrow>
                     (case fs_rename (snd r) (fst r) s of
                        (True, s) \<Rightarrow> (case fs_exists (fst r) s of (e, s) \<Rightarrow> (e = Some True, s))
                      | (False, s) \<Rightarrow> (False, s))
                 | (_, s) \<Rightarrow> (False, s))
            | (_, s) \<Rightarrow> (False, s)))"

section \<open>Stripping a request\<close>

lemma delete_upto:
  "n \<le> length xs \<Longrightarrow>
     fold delete_at (filter (\<lambda>i. P (xs ! i)) (rev [0..<n])) xs = filter (\<lambda>x. \<not> P x) (take n xs) @ drop n xs"
proof (induction n arbitrary: xs)
  case (Suc n)
  then have n: "n < length xs" by simp
  let ?ys = "delete_at n xs"
  have same: "filter (\<lambda>i. P (xs ! i)) (rev [0..<n]) = filter (\<lambda>i. P (?ys ! i)) (rev [0..<n])"
    using n by (intro filter_cong) (simp_all add: delete_at_def nth_append)
  have ys: "take n ?ys = take n xs" "drop n ?ys = drop (Suc n) xs" "n \<le> length ?ys"
    using n by (simp_all add: delete_at_def)
  have tk: "take (Suc n) xs = take n xs @ [xs ! n]" using n by (rule take_Suc_conv_app_nth)
  have dr: "drop n xs = xs ! n # drop (Suc n) xs" using n by (rule Cons_nth_drop_Suc [symmetric])
  show ?case
  proof (cases "P (xs ! n)")
    case True
    then show ?thesis using Suc.IH [OF ys(3)] by (simp add: same ys tk)
  next
    case False
    then show ?thesis using Suc.IH [of xs] n by (simp add: tk dr)
  qed
qed simp

text \<open>Every requested id that the filter does not permit to strip stays, in order, and no other.\<close>

theorem strip_request_exact: "strip_request requested permit = filter (\<lambda>a. \<not> permit a) requested"
  using delete_upto [of "length requested" requested permit] by (simp add: strip_request_def stripIndices_def)

section \<open>The budget is a bound\<close>

text \<open>A run of reservations for one or many apps at given times, and those that were allowed.\<close>

fun reserve_all :: "strip_limits \<Rightarrow> (u32 \<times> int) list \<Rightarrow> strip_budget \<Rightarrow> (u32 \<times> int) list \<times> strip_budget" where
  "reserve_all limits [] b = ([], b)"
| "reserve_all limits ((app, now) # rs) b =
     (case reserve_strip app limits now b of
        (d, b1) \<Rightarrow> (case reserve_all limits rs b1 of
           (out, b2) \<Rightarrow> (if d = StripAllow then (app, now) # out else out, b2)))"

definition allowed_for :: "u32 \<Rightarrow> (u32 \<times> int) list \<Rightarrow> int list" where
  "allowed_for a out = map snd (filter (\<lambda>r. fst r = a) out)"

lemma reserve_cases:
  "reserve_strip app limits now b = (d, b') \<Longrightarrow> st = (case b app of None \<Rightarrow> no_strips | Some st \<Rightarrow> st) \<Longrightarrow>
     (if d = StripAllow
      then ssCount st < slMaxStrips limits \<and> (ssCount st \<noteq> 0 \<longrightarrow> now < ssFirstStripAt st + int (slMaxSeconds limits)) \<and>
           b' = b(app \<mapsto> \<lparr>ssCount = ssCount st + 1, ssFirstStripAt = if ssCount st = 0 then now else ssFirstStripAt st\<rparr>)
      else b' = b)"
  by (cases st) (auto simp: reserve_strip_def evaluateStrip_def Let_def split: if_splits)

lemma budget_used:
  "reserve_all limits rs b = (out, b') \<Longrightarrow> b a = Some st \<Longrightarrow> ssCount st \<noteq> 0 \<Longrightarrow> ssCount st \<le> slMaxStrips limits \<Longrightarrow>
     ssCount st + length (allowed_for a out) \<le> slMaxStrips limits \<and>
     (\<forall>t \<in> set (allowed_for a out). t < ssFirstStripAt st + int (slMaxSeconds limits))"
proof (induction rs arbitrary: b st out)
  case (Cons r rs)
  obtain app now where r: "r = (app, now)" by fastforce
  obtain d b1 where d: "reserve_strip app limits now b = (d, b1)" by fastforce
  obtain out1 b2 where o: "reserve_all limits rs b1 = (out1, b2)" by fastforce
  have out: "out = (if d = StripAllow then r # out1 else out1)" and b2: "b2 = b'" using Cons.prems(1) by (auto simp: r d o)
  note o = o [unfolded b2]
  show ?case
  proof (cases "app = a \<and> d = StripAllow")
    case True
    let ?st = "\<lparr>ssCount = ssCount st + 1, ssFirstStripAt = ssFirstStripAt st\<rparr>"
    have "b1 a = Some ?st" "ssCount st < slMaxStrips limits" "now < ssFirstStripAt st + int (slMaxSeconds limits)"
      using reserve_cases [OF d refl] True Cons.prems(2,3) by (auto split: if_splits)
    with Cons.IH [OF o, of ?st] True show ?thesis by (auto simp: out r allowed_for_def)
  next
    case False
    then have "b1 a = Some st" using reserve_cases [OF d refl] Cons.prems(2) by (auto split: if_splits)
    with Cons.IH [OF o _ Cons.prems(3,4)] False show ?thesis by (auto simp: out r allowed_for_def)
  qed
qed (simp add: allowed_for_def)

text \<open>C37: However often it is asked, an app gets at most the allowed number of strips, and each but the first of them
  within the allowed time of the first.\<close>

theorem strips_bounded:
  assumes "reserve_all limits rs Map.empty = (out, b')"
  shows "length (allowed_for a out) \<le> slMaxStrips limits \<and>
    (\<forall>t \<in> set (tl (allowed_for a out)). t < hd (allowed_for a out) + int (slMaxSeconds limits))"
proof -
  have "b a = None \<Longrightarrow> reserve_all limits rs b = (out, b') \<Longrightarrow> ?thesis" for b
  proof (induction rs arbitrary: b out)
    case (Cons r rs)
    obtain app now where r: "r = (app, now)" by fastforce
    obtain d b1 where d: "reserve_strip app limits now b = (d, b1)" by fastforce
    obtain out1 b2 where o: "reserve_all limits rs b1 = (out1, b2)" by fastforce
    have out: "out = (if d = StripAllow then r # out1 else out1)" and b2: "b2 = b'" using Cons.prems(2) by (auto simp: r d o)
    note o = o [unfolded b2]
    show ?case
    proof (cases "app = a \<and> d = StripAllow")
      case True
      let ?st = "\<lparr>ssCount = 1, ssFirstStripAt = now\<rparr>"
      have "b1 a = Some ?st" "0 < slMaxStrips limits"
        using reserve_cases [OF d refl] True Cons.prems(1) by (auto simp: no_strips_def)
      with budget_used [OF o, of a ?st] True show ?thesis by (auto simp: out r allowed_for_def)
    next
      case False
      then have "b1 a = None" using reserve_cases [OF d refl] Cons.prems(1) by (auto split: if_splits)
      with Cons.IH [OF _ o] False show ?thesis by (auto simp: out r allowed_for_def)
    qed
  qed (simp add: allowed_for_def)
  with assms show ?thesis by simp
qed

section \<open>Names and apps\<close>

lemma parseCacheAppId_sound:
  assumes "parseCacheAppId name prefix suffix = Some a"
  shows "\<exists>ds. name = prefix @ ds @ suffix \<and> list_all is_digit ds \<and> dec_value ds = unat a \<and> a \<noteq> 0"
proof -
  define k where "k = length name - length prefix - length suffix"
  have len: "length prefix + length suffix \<le> length name" "take (length prefix) name = prefix"
    "take (length suffix) (drop (length prefix + k) name) = suffix"
    and v: "from_chars_all u64_max (take k (drop (length prefix) name)) = Some (unat a)" "a \<noteq> 0"
    using assms unfolding parseCacheAppId_def k_def
    by (auto simp: Let_def unsigned_of_nat take_bit_nat_eq_self u32_max_def not_less word_of_nat_eq_0_iff nat_dvd_not_less
        split: if_splits option.splits)
  have "drop (length prefix + k) name = suffix" using len(1,3) by (simp add: k_def)
  then have "name = prefix @ take k (drop (length prefix) name) @ suffix"
    by (metis append_take_drop_id drop_drop add.commute len(2))
  then show ?thesis using v by (auto simp: from_chars_all_iff)
qed

lemma parseCacheAppId_made: "a \<noteq> 0 \<Longrightarrow> parseCacheAppId (prefix @ to_dec (unat a) @ suffix) prefix suffix = Some a"
  using unat32_less [of a] by (simp add: parseCacheAppId_def Let_def u64_max_def u32_max_def unat_gt_0)

lemma cacheAppId_sound:
  assumes "cacheAppId name = Some a"
  shows "\<exists>ds. list_all is_digit ds \<and> dec_value ds = unat a \<and> a \<noteq> 0 \<and>
    name \<in> {''synthetic_'' @ ds, ''picsbuffer_'' @ ds @ ''.bin'', ''picsbuffer_'' @ ds @ ''.yaml'',
      ''dlcmetadata_'' @ ds @ ''.yaml'', ''terminal_'' @ ds @ ''.state''}"
proof -
  have or_elseE: "or_else x y = Some v \<Longrightarrow> x = Some v \<or> y = Some v" for x y :: "u32 option" and v
    by (cases x) (simp_all add: or_else_def)
  from assms have "parseCacheAppId name ''synthetic_'' '''' = Some a \<or> parseCacheAppId name ''picsbuffer_'' ''.bin'' = Some a \<or>
      parseCacheAppId name ''picsbuffer_'' ''.yaml'' = Some a \<or> parseCacheAppId name ''dlcmetadata_'' ''.yaml'' = Some a \<or>
      parseCacheAppId name ''terminal_'' ''.state'' = Some a"
    unfolding cacheAppId_def by (blast dest: or_elseE)
  then show ?thesis by (elim disjE; drule_tac parseCacheAppId_sound; simp only: append_Nil2 insert_iff; blast)
qed

lemma set_add_name [simp]: "set (add_name n ns) = insert n (set ns)"
  by (auto simp: add_name_def)

lemma set_fold_names [simp]: "set (fold add_name ms ns) = set ms \<union> set ns"
  by (induction ms arbitrary: ns) auto

lemma set_depot_names:
  "set (fold (\<lambda>dep ns. if dep \<noteq> 0 then add_name (f dep) ns else ns) ds ns) = f ` {d \<in> set ds. d \<noteq> 0} \<union> set ns"
  by (induction ds arbitrary: ns) auto

lemma set_artifacts:
  "a \<noteq> 0 \<Longrightarrow> set (appArtifactNames a depots tickets marker) =
     {''picsbuffer_'' @ to_dec (unat a) @ ''.bin'', ''picsbuffer_'' @ to_dec (unat a) @ ''.yaml'',
      ''terminal_'' @ to_dec (unat a) @ ''.state'', ''dlcmetadata_'' @ to_dec (unat a) @ ''.yaml''} \<union>
     (if marker then {''synthetic_'' @ to_dec (unat a)} else {}) \<union>
     (if tickets then {''ticket_'' @ to_dec (unat a) @ ''.yaml'', ''encryptedTicket_'' @ to_dec (unat a) @ ''.yaml''} else {}) \<union>
     (\<lambda>d. ''manifestid_'' @ to_dec (unat d) @ ''.yaml'') ` {d \<in> set depots. d \<noteq> 0}"
  unfolding appArtifactNames_def Let_def by (auto simp: set_depot_names)

lemma last_differs: "xs @ ''.bin'' = ys @ ''.yaml'' \<longleftrightarrow> False" "ys @ ''.yaml'' = xs @ ''.bin'' \<longleftrightarrow> False"
  by (auto dest: arg_cong [of _ _ last])

lemma artifact_owner:
  assumes n: "n \<in> set (appArtifactNames a depots tickets marker)" and b: "cacheAppId n = Some b"
  shows "b = a"
proof -
  have a: "a \<noteq> 0" using n by (auto simp: appArtifactNames_def)
  obtain ds where ds: "dec_value ds = unat b"
    "n \<in> {''synthetic_'' @ ds, ''picsbuffer_'' @ ds @ ''.bin'', ''picsbuffer_'' @ ds @ ''.yaml'',
      ''dlcmetadata_'' @ ds @ ''.yaml'', ''terminal_'' @ ds @ ''.state''}"
    using cacheAppId_sound [OF b] by blast
  have "ds = to_dec (unat a)" using n ds(2) unfolding set_artifacts [OF a]
    by (auto simp: last_differs split: if_splits)
  then show ?thesis using ds(1) by (simp add: word_unat_eq_iff)
qed

section \<open>Nothing is lost\<close>

text \<open>
  What a quarantine does to the map of files: an allowed file moves to a free name, and, where the kernel
  cannot rename without replacing, a second link may be left at a free name.
\<close>

inductive shifted ::
  "(path \<Rightarrow> bool) \<Rightarrow> bool \<Rightarrow> (path \<rightharpoonup> contents) \<Rightarrow> (path \<times> path) list \<Rightarrow> (path \<rightharpoonup> contents) \<Rightarrow> bool"
  for allowed atomicRename F where
  stays [intro]: "shifted allowed atomicRename F [] F"
| moves: "shifted allowed atomicRename F R G \<Longrightarrow> allowed p \<Longrightarrow> p \<noteq> [] \<Longrightarrow> q \<noteq> [] \<Longrightarrow> G p = Some c \<Longrightarrow> G q = None \<Longrightarrow>
    shifted allowed atomicRename F (R @ [(p, q)]) (G(q \<mapsto> c, p := None))"
| copies: "shifted allowed atomicRename F R G \<Longrightarrow> \<not> atomicRename \<Longrightarrow> G p = Some c \<Longrightarrow> G q = None \<Longrightarrow>
    shifted allowed atomicRename F R (G(q \<mapsto> c))"

text \<open>Where the records say that a file is now.\<close>

definition moved :: "(path \<times> path) list \<Rightarrow> path \<Rightarrow> path" where
  "moved R p = fold (\<lambda>(a, b) x. if x = a then b else x) R p"

lemma shifted_keeps: "shifted allowed atomicRename F R G \<Longrightarrow> F p = Some c \<Longrightarrow> G (moved R p) = Some c"
  by (induction rule: shifted.induct) (auto simp: moved_def)

lemma shifted_forbidden: "shifted allowed atomicRename F R G \<Longrightarrow> F p = Some c \<Longrightarrow> \<not> allowed p \<Longrightarrow> G p = Some c"
  by (induction rule: shifted.induct) auto

lemma shifted_allowed: "shifted allowed atomicRename F R G \<Longrightarrow> r \<in> set R \<Longrightarrow> allowed (fst r)"
  by (induction rule: shifted.induct) auto

lemma fs_link_files:
  "fs_link a b s = (r, s') \<Longrightarrow>
     (if r then fsFiles s b = None \<and> (\<exists>c. fsFiles s a = Some c \<and> fsFiles s' = (fsFiles s)(b \<mapsto> c)) else fsFiles s' = fsFiles s)"
  by (auto simp: fs_link_def split: if_splits)

lemma quarantine_rename_files:
  assumes "quarantine_rename atomicRename p q s = (r, s')"
  shows "if r = Renamed then fsFiles s q = None \<and> (\<exists>c. fsFiles s p = Some c \<and> fsFiles s' = (fsFiles s)(q \<mapsto> c, p := None))
    else fsFiles s' = fsFiles s \<or>
      \<not> atomicRename \<and> fsFiles s q = None \<and> (\<exists>c. fsFiles s p = Some c \<and> fsFiles s' = (fsFiles s)(q \<mapsto> c))"
proof (cases atomicRename)
  case True
  with assms show ?thesis by (auto simp: quarantine_rename_def split: if_splits)
next
  case False
  obtain e s1 where e: "fs_exists q s = (e, s1)" by fastforce
  have s1: "fsFiles s1 = fsFiles s" using fs_exists_files(1) [of q s] e by simp
  obtain l s2 where l: "fs_link p q s1 = (l, s2)" by fastforce
  obtain x s3 where x: "fs_remove p s2 = (x, s3)" by fastforce
  obtain y s4 where y: "fs_remove q s3 = (y, s4)" by fastforce
  show ?thesis using assms False s1 fs_link_files [OF l] fs_remove_files [OF x] fs_remove_files [OF y]
    by (auto simp: quarantine_rename_def e l x y split: option.splits bool.splits if_splits)
qed

definition record_of_move :: "path \<Rightarrow> path option \<Rightarrow> (path \<times> path) list" where
  "record_of_move p r = (case r of None \<Rightarrow> [] | Some q \<Rightarrow> [(p, q)])"

lemma quarantine_loop_shifted:
  "quarantine_loop n atomicRename p suffix k s = (r, s') \<Longrightarrow> shifted allowed atomicRename F R (fsFiles s) \<Longrightarrow>
     allowed p \<Longrightarrow> p \<noteq> [] \<Longrightarrow> shifted allowed atomicRename F (R @ record_of_move p r) (fsFiles s')"
proof (induction n arbitrary: k s)
  case (Suc n)
  obtain x s1 where x: "quarantine_rename atomicRename p (quarantine_name p suffix k) s = (x, s1)" by fastforce
  have q: "quarantine_name p suffix k \<noteq> []" using Suc.prems(4) by (simp add: quarantine_name_def)
  note f = quarantine_rename_files [OF x] and m = shifted.moves [OF Suc.prems(2,3,4) q]
  have c: "x \<noteq> Renamed \<Longrightarrow> shifted allowed atomicRename F R (fsFiles s1)"
    using f shifted.copies [OF Suc.prems(2)] Suc.prems(2) by auto
  show ?case
  proof (cases x)
    case Renamed
    with f obtain c where "fsFiles s (quarantine_name p suffix k) = None" "fsFiles s p = Some c"
      "fsFiles s1 = (fsFiles s)(quarantine_name p suffix k \<mapsto> c, p := None)" by auto
    with m Renamed Suc.prems(1) show ?thesis by (simp only: x record_of_move_def quarantine_loop.simps prod.case
        quarantine_result.case prod.inject option.case simp_thms) (metis option.simps(5) prod.inject)
  next
    case TargetExists
    then show ?thesis using Suc.prems(1) Suc.IH [OF _ c Suc.prems(3,4)] by (simp add: x)
  next
    case RenameFailed
    then show ?thesis using Suc.prems(1) c by (auto simp: x record_of_move_def)
  qed
qed (simp add: record_of_move_def)

lemma quarantine_one_shifted:
  assumes "quarantine_one atomicRename suffix p (R, s) = (R', s')" "shifted allowed atomicRename F R (fsFiles s)"
    "allowed p" "p \<noteq> []"
  shows "shifted allowed atomicRename F R' (fsFiles s')"
proof -
  obtain r s1 where r: "quarantineFile atomicRename p suffix s = (r, s1)" by fastforce
  then have "shifted allowed atomicRename F (R @ record_of_move p r) (fsFiles s1)"
    using quarantine_loop_shifted [OF _ assms(2,3,4)] assms(2)
    by (auto simp: quarantineFile_def record_of_move_def split: if_splits)
  then show ?thesis using assms(1) r by (auto simp: quarantine_one_def record_of_move_def split: option.splits)
qed

lemma fs_regular_files: "fs_regular p s = (r, s') \<Longrightarrow> fsFiles s' = fsFiles s"
  using fs_exists_files(1) [of p s] by (simp add: fs_regular_def)

lemma fold_shifted:
  assumes "\<And>n R s R' s'. n \<in> set ns \<Longrightarrow> step n (R, s) = (R', s') \<Longrightarrow> shifted allowed atomicRename F R (fsFiles s) \<Longrightarrow>
    shifted allowed atomicRename F R' (fsFiles s')"
  shows "fold step ns (R, s) = (R', s') \<Longrightarrow> shifted allowed atomicRename F R (fsFiles s) \<Longrightarrow>
    shifted allowed atomicRename F R' (fsFiles s')"
  using assms
proof (induction ns arbitrary: R s)
  case (Cons n ns)
  obtain R1 s1 where "step n (R, s) = (R1, s1)" by fastforce
  with Cons show ?case by simp blast
qed simp

definition orphan_path :: "path \<Rightarrow> u32 set \<Rightarrow> path \<Rightarrow> bool" where
  "orphan_path dir managed p \<longleftrightarrow> (\<exists>n a. p = path_join dir n \<and> cacheAppId n = Some a \<and> a \<notin> managed)"

lemma orphans_shifted:
  assumes "quarantineOrphans atomicRename dir managed suffix entries s = (R, s')"
  shows "shifted (orphan_path dir managed) atomicRename (fsFiles s) R (fsFiles s')"
proof -
  have "shifted (orphan_path dir managed) atomicRename F R' (fsFiles s')"
    if st: "orphan_step atomicRename dir managed suffix n (R, s) = (R', s')"
      and sh: "shifted (orphan_path dir managed) atomicRename F R (fsFiles s)" for n R s R' s' F
  proof -
    obtain r s1 where r: "fs_regular (path_join dir n) s = (r, s1)" by fastforce
    note sh1 = sh [folded fs_regular_files [OF r]]
    show ?thesis
    proof (cases "r = Some True \<and> (\<exists>a. cacheAppId n = Some a \<and> a \<notin> managed)")
      case True
      then have "orphan_path dir managed (path_join dir n)" by (auto simp: orphan_path_def)
      moreover have "n \<noteq> []" using True cacheAppId_sound by fastforce
      ultimately show ?thesis using True st quarantine_one_shifted [OF _ sh1] path_join_nonempty
        by (auto simp: orphan_step_def r)
    next
      case False
      then show ?thesis using st sh1 by (auto simp: orphan_step_def r split: option.splits if_splits)
    qed
  qed
  note step = this
  show ?thesis
  proof (cases "suffix = []")
    case False
    then have "fold (orphan_step atomicRename dir managed suffix) entries ([], s) = (R, s')"
      using assms by (simp add: quarantineOrphans_def)
    from fold_shifted [OF step this shifted.stays] show ?thesis .
  qed (use assms in \<open>auto simp: quarantineOrphans_def\<close>)
qed

definition artifact_path :: "path \<Rightarrow> string list \<Rightarrow> path \<Rightarrow> bool" where
  "artifact_path dir names p \<longleftrightarrow> p \<in> path_join dir ` set names"

lemma artifact_nonempty: "n \<in> set (appArtifactNames a depots tickets marker) \<Longrightarrow> n \<noteq> []"
  by (cases "a = 0") (simp add: appArtifactNames_def, auto simp: set_artifacts split: if_splits)

lemma artifacts_shifted:
  assumes "quarantineAppArtifacts atomicRename dir app depots suffix tickets marker s = (R, s')"
  shows "shifted (artifact_path dir (appArtifactNames app depots tickets marker)) atomicRename (fsFiles s) R (fsFiles s')"
proof -
  let ?A = "artifact_path dir (appArtifactNames app depots tickets marker)"
  have "shifted ?A atomicRename F R' (fsFiles s')"
    if n: "n \<in> set (appArtifactNames app depots tickets marker)"
      and st: "artifact_step atomicRename dir suffix n (R, s) = (R', s')"
      and sh: "shifted ?A atomicRename F R (fsFiles s)" for n R s R' s' F
  proof -
    obtain r s1 where r: "fs_regular (path_join dir n) s = (r, s1)" by fastforce
    note sh1 = sh [folded fs_regular_files [OF r]]
    have "?A (path_join dir n)" "path_join dir n \<noteq> []"
      using n path_join_nonempty [OF artifact_nonempty [OF n]] by (auto simp: artifact_path_def)
    then show ?thesis using st sh1 quarantine_one_shifted [OF _ sh1] by (auto simp: artifact_step_def r split: if_splits)
  qed
  note step = this
  show ?thesis
  proof (cases "app = 0 \<or> suffix = []")
    case False
    then have "fold (artifact_step atomicRename dir suffix) (appArtifactNames app depots tickets marker) ([], s) = (R, s')"
      using assms by (simp add: quarantineAppArtifacts_def)
    from fold_shifted [OF step this shifted.stays] show ?thesis .
  qed (use assms in \<open>auto simp: quarantineAppArtifacts_def\<close>)
qed

text \<open>C7: Whatever calls fail, after a quarantine of orphans every file is found where the records say, and no
  artifact of an app that is still managed has moved.\<close>

theorem quarantine_loses_nothing:
  assumes "quarantineOrphans atomicRename dir managed suffix entries s = (R, s')" "fsFiles s p = Some c"
  shows "fsFiles s' (moved R p) = Some c \<and>
    (\<forall>app n depots tickets marker. app \<in> managed \<and> n \<in> set (appArtifactNames app depots tickets marker) \<and> p = path_join dir n \<longrightarrow>
       fsFiles s' p = Some c)"
proof -
  note sh = orphans_shifted [OF assms(1)]
  have "\<not> orphan_path dir managed (path_join dir n)"
    if "app \<in> managed" "n \<in> set (appArtifactNames app depots tickets marker)" for app n depots tickets marker
    using that artifact_owner [OF that(2)] by (auto simp: orphan_path_def)
  with shifted_keeps [OF sh assms(2)] shifted_forbidden [OF sh assms(2)] show ?thesis by blast
qed

lemma quarantineFile_free:
  assumes "fsOutcomes s = []" "fsFiles s p = Some c" "fsFiles s (p @ suffix) = None" "suffix \<noteq> []"
  shows "quarantineFile True p suffix s = (Some (p @ suffix), set_file p None (set_file (p @ suffix) (Some c) s))"
proof -
  have "(1024::nat) = Suc 1023" by simp
  then show ?thesis using assms unfolding quarantineFile_def
    by (simp only: quarantine_loop.simps) (cases s; simp add: quarantine_name_def quarantine_rename_def outcome_of_def call_done_def)
qed

definition sample_cache :: file_system where
  "sample_cache = \<lparr>fsFiles = [''c/picsbuffer_7.bin'' \<mapsto> [1], ''c/picsbuffer_8.bin'' \<mapsto> [2], ''c/ticket_8.yaml'' \<mapsto> [3]],
     fsOutcomes = [], fsPast = []\<rparr>"

lemma quarantine_loses_nothing_witness:
  "let r = quarantineOrphans True ''c'' {7} ''.o'' [''picsbuffer_7.bin'', ''picsbuffer_8.bin'', ''ticket_8.yaml''] sample_cache
   in fst r = [(''c/picsbuffer_8.bin'', ''c/picsbuffer_8.bin.o'')] \<and> fsFiles (snd r) (moved (fst r) ''c/picsbuffer_8.bin'') = Some [2]"
proof -
  let ?r = "quarantineOrphans True ''c'' {7} ''.o'' [''picsbuffer_7.bin'', ''picsbuffer_8.bin'', ''ticket_8.yaml''] sample_cache"
  have "cacheAppId ''picsbuffer_7.bin'' = Some 7" "cacheAppId ''picsbuffer_8.bin'' = Some 8" "cacheAppId ''ticket_8.yaml'' = None"
    by (simp_all add: cacheAppId_def or_else_def parseCacheAppId_def from_chars_all_def from_chars_def Let_def is_digit_def
        char_code_def dec_value_def digit_val_def u64_max_def u32_max_def)
  then have "fst ?r = [(''c/picsbuffer_8.bin'', ''c/picsbuffer_8.bin.o'')]"
    by (simp add: quarantineOrphans_def orphan_step_def fs_regular_def fs_exists_def path_join_def outcome_of_def call_done_def
        sample_cache_def quarantine_one_def quarantineFile_free set_file_def)
  moreover have "fsFiles sample_cache ''c/picsbuffer_8.bin'' = Some [2]" by (simp add: sample_cache_def)
  moreover obtain R s' where r: "?r = (R, s')" by fastforce
  ultimately show ?thesis using quarantine_loses_nothing [OF r] by (simp add: r)
qed

primrec restore_all :: "(path \<times> path) list \<Rightarrow> file_system \<Rightarrow> bool \<times> file_system" where
  "restore_all [] s = (True, s)"
| "restore_all (r # rs) s =
     (case restoreQuarantined r s of
        (ok, s) \<Rightarrow> (case restore_all rs s of (oks, s) \<Rightarrow> (ok \<and> oks, s)))"

lemma restore_back:
  assumes "fsOutcomes s = []" "fsFiles s = G(q \<mapsto> c, p := None)" "G p = Some c" "G q = None" "p \<noteq> []" "q \<noteq> []"
  shows "\<exists>s'. restoreQuarantined (p, q) s = (True, s') \<and> fsFiles s' = G \<and> fsOutcomes s' = []"
proof -
  have "p \<noteq> q" using assms(3,4) by auto
  moreover from this have "G(q \<mapsto> c, p := None, p \<mapsto> c, q := None) = G" using assms(3,4) by (intro ext) auto
  ultimately show ?thesis using assms
    by (simp add: restoreQuarantined_def fs_exists_def fs_rename_def outcome_of_def call_done_def Let_def)
qed

lemma shifted_undone:
  "shifted allowed True F R G \<Longrightarrow> fsFiles s = G \<Longrightarrow> fsOutcomes s = [] \<Longrightarrow>
     \<exists>s'. restore_all (rev R) s = (True, s') \<and> fsFiles s' = F"
proof (induction R G arbitrary: s rule: shifted.induct)
  case (moves R G p q c)
  from restore_back [OF moves.prems(2,1) moves.hyps(5,6,3,4)]
  obtain s1 where s1: "restoreQuarantined (p, q) s = (True, s1)" "fsFiles s1 = G" "fsOutcomes s1 = []" by blast
  from moves.IH [OF this(2,3)] show ?case by (auto simp: s1(1))
qed auto

text \<open>C36: With a kernel that renames without replacing, the quarantine of a removed app's artifacts can be undone
  whatever calls of it failed: restoring the records, last one first, gives every file back.\<close>

theorem quarantine_undone:
  assumes "quarantineAppArtifacts True dir app depots suffix tickets marker s = (R, s')"
  shows "\<exists>s''. restore_all (rev R) (s'\<lparr>fsOutcomes := []\<rparr>) = (True, s'') \<and> fsFiles s'' = fsFiles s"
  using shifted_undone [OF artifacts_shifted [OF assms], of "s'\<lparr>fsOutcomes := []\<rparr>"] by simp

lemma quarantine_undone_witness:
  "let r = quarantineAppArtifacts True ''c'' 8 [] ''.o'' True True sample_cache
   in length (fst r) = 2 \<and> (\<exists>s''. restore_all (rev (fst r)) ((snd r)\<lparr>fsOutcomes := []\<rparr>) = (True, s'') \<and> fsFiles s'' = fsFiles sample_cache)"
proof -
  let ?r = "quarantineAppArtifacts True ''c'' 8 [] ''.o'' True True sample_cache"
  have names: "appArtifactNames 8 [] True True = [''picsbuffer_8.bin'', ''picsbuffer_8.yaml'', ''terminal_8.state'',
      ''dlcmetadata_8.yaml'', ''synthetic_8'', ''ticket_8.yaml'', ''encryptedTicket_8.yaml'']"
    by code_simp
  have "length (fst ?r) = 2"
    by (simp add: quarantineAppArtifacts_def names artifact_step_def fs_regular_def fs_exists_def path_join_def outcome_of_def
        call_done_def sample_cache_def quarantine_one_def quarantineFile_free set_file_def)
  moreover obtain R s' where r: "?r = (R, s')" by fastforce
  ultimately show ?thesis using quarantine_undone [OF r] by (simp add: r)
qed

lemma strips_bounded_witness:
  "let r = reserve_all (parseStripLimits (Some ''2'') None) [(5, 0), (5, 10), (6, 11), (5, 12)] Map.empty
   in fst r = [(5, 0), (5, 10), (6, 11)] \<and> length (allowed_for 5 (fst r)) \<le> 2"
proof -
  let ?l = "parseStripLimits (Some ''2'') None"
  let ?r = "reserve_all ?l [(5, 0), (5, 10), (6, 11), (5, 12)] Map.empty"
  have l: "?l = \<lparr>slMaxStrips = 2, slMaxSeconds = 60\<rparr>"
    by (simp add: parseStripLimits_def strip_number_def default_limits_def from_chars_all_def from_chars_def is_digit_def
        char_code_def dec_value_def digit_val_def u64_max_def)
  have f: "fst ?r = [(5, 0), (5, 10), (6, 11)]"
    by (simp add: l reserve_strip_def evaluateStrip_def no_strips_def Let_def)
  obtain out b' where r: "?r = (out, b')" by fastforce
  have out: "out = [(5, 0), (5, 10), (6, 11)]" using f unfolding r by simp
  have "length (allowed_for 5 out) \<le> 2" using strips_bounded [OF r, of 5] by (simp add: l)
  then show ?thesis unfolding r Let_def fst_conv out by simp
qed

end
