(* ===== verification/DepotIndex.thy ===== *)
theory DepotIndex
  imports Prelude
begin

text \<open>
  Which apps' scripts name which depots, \<open>AppDepotIndex\<close> of \<open>src/feats/manifestid.hpp\<close>: two maps, from apps to
  depots and back. A \<open>std::map\<close> is a partial map and a \<open>std::set\<close> a finite set that is iterated in ascending
  order. The specification is the relation of apps and depots.
\<close>

section \<open>The index\<close>

record depot_index =
  diAppDepots :: "u32 \<rightharpoonup> u32 set"
  diDepotApps :: "u32 \<rightharpoonup> u32 set"

definition empty_index :: depot_index where
  "empty_index = \<lparr>diAppDepots = Map.empty, diDepotApps = Map.empty\<rparr>"

text \<open>\<open>map[key].insert(x)\<close>, and erasing from an entry that is dropped when it becomes empty.\<close>

definition put_owner :: "u32 \<Rightarrow> u32 \<Rightarrow> (u32 \<rightharpoonup> u32 set) \<Rightarrow> (u32 \<rightharpoonup> u32 set)" where
  "put_owner k x m = m(k \<mapsto> insert x (case m k of None \<Rightarrow> {} | Some S \<Rightarrow> S))"

definition erase_owner :: "u32 \<Rightarrow> u32 \<Rightarrow> u32 set \<Rightarrow> (u32 \<rightharpoonup> u32 set) \<Rightarrow> (u32 \<rightharpoonup> u32 set)" where
  "erase_owner dep a owners m = m(dep := (let S = owners - {a} in if S = {} then None else Some S))"

definition index_add :: "u32 \<Rightarrow> u32 \<Rightarrow> depot_index \<Rightarrow> depot_index" where
  "index_add a dep i =
     (if a = 0 \<or> dep = 0 then i
      else i\<lparr>diAppDepots := put_owner a dep (diAppDepots i), diDepotApps := put_owner dep a (diDepotApps i)\<rparr>)"

text \<open>The loop over the current depots of an app that gets new ones.\<close>

definition replace_step :: "u32 \<Rightarrow> u32 set \<Rightarrow> u32 \<Rightarrow> u32 list \<times> (u32 \<rightharpoonup> u32 set) \<Rightarrow> u32 list \<times> (u32 \<rightharpoonup> u32 set)" where
  "replace_step a desired dep = (\<lambda>(released, m).
     (if dep \<in> desired then (released, m)
      else (case m dep of
              None \<Rightarrow> (released @ [dep], m)
            | Some owners \<Rightarrow>
                (if card owners = 1 then released @ [dep] else released, erase_owner dep a owners m))))"

definition index_replace :: "u32 \<Rightarrow> u32 list \<Rightarrow> depot_index \<Rightarrow> u32 list \<times> depot_index" where
  "index_replace a depots i =
     (if a = 0 then ([], i)
      else (let desired = set (filter (\<lambda>d. d \<noteq> 0) depots);
                (released, m) = (case diAppDepots i a of
                   None \<Rightarrow> ([], diDepotApps i)
                 | Some cur \<Rightarrow> fold (replace_step a desired) (sorted_list_of_set cur) ([], diDepotApps i))
            in if desired = {} then (released, i\<lparr>diAppDepots := (diAppDepots i)(a := None), diDepotApps := m\<rparr>)
               else (released, i\<lparr>diAppDepots := (diAppDepots i)(a \<mapsto> desired),
                       diDepotApps := fold (\<lambda>d. put_owner d a) (sorted_list_of_set desired) m\<rparr>)))"

definition depotsForApp :: "u32 \<Rightarrow> depot_index \<Rightarrow> u32 list" where
  "depotsForApp a i = (case diAppDepots i a of None \<Rightarrow> [] | Some S \<Rightarrow> sorted_list_of_set S)"

definition exclusiveDepotsForApp :: "u32 \<Rightarrow> depot_index \<Rightarrow> u32 list" where
  "exclusiveDepotsForApp a i =
     (case diAppDepots i a of
        None \<Rightarrow> []
      | Some S \<Rightarrow> filter (\<lambda>d. case diDepotApps i d of None \<Rightarrow> False | Some owners \<Rightarrow> card owners = 1) (sorted_list_of_set S))"

definition release_step :: "u32 \<Rightarrow> u32 \<Rightarrow> (u32 \<rightharpoonup> u32 set) \<Rightarrow> (u32 \<rightharpoonup> u32 set)" where
  "release_step a dep m = (case m dep of None \<Rightarrow> m | Some owners \<Rightarrow> erase_owner dep a owners m)"

definition index_release :: "u32 \<Rightarrow> depot_index \<Rightarrow> u32 list \<times> depot_index" where
  "index_release a i =
     (case diAppDepots i a of
        None \<Rightarrow> ([], i)
      | Some S \<Rightarrow> (exclusiveDepotsForApp a i,
          \<lparr>diAppDepots = (diAppDepots i)(a := None), diDepotApps = fold (release_step a) (sorted_list_of_set S) (diDepotApps i)\<rparr>))"

section \<open>The relation it stands for\<close>

definition names :: "depot_index \<Rightarrow> (u32 \<times> u32) set" where
  "names i = {(a, d). \<exists>S. diAppDepots i a = Some S \<and> d \<in> S}"

text \<open>Both maps hold the same relation, without empty entries and without the id zero.\<close>

definition index_ok :: "depot_index \<Rightarrow> bool" where
  "index_ok i \<longleftrightarrow>
     (\<forall>a S. diAppDepots i a = Some S \<longrightarrow> S \<noteq> {}) \<and> (\<forall>d Q. diDepotApps i d = Some Q \<longrightarrow> Q \<noteq> {}) \<and>
     (\<forall>a d. (\<exists>S. diAppDepots i a = Some S \<and> d \<in> S) \<longleftrightarrow> (\<exists>Q. diDepotApps i d = Some Q \<and> a \<in> Q)) \<and>
     (\<forall>a d. (a, d) \<in> names i \<longrightarrow> a \<noteq> 0 \<and> d \<noteq> 0)"

lemma finite_ids [simp]: "finite (S :: u32 set)"
  by simp

definition owners_of :: "depot_index \<Rightarrow> u32 \<Rightarrow> u32 set" where
  "owners_of i d = {a. (a, d) \<in> names i}"

lemma index_ok_owners:
  assumes "index_ok i"
  shows "diDepotApps i d = (if owners_of i d = {} then None else Some (owners_of i d))"
    and "diAppDepots i a = (if {d. (a, d) \<in> names i} = {} then None else Some {d. (a, d) \<in> names i})"
proof -
  have eq: "(a, d) \<in> names i \<longleftrightarrow> (\<exists>Q. diDepotApps i d = Some Q \<and> a \<in> Q)" for a d
    using assms by (auto simp: index_ok_def names_def)
  show "diDepotApps i d = (if owners_of i d = {} then None else Some (owners_of i d))"
    using assms by (cases "diDepotApps i d") (auto simp: owners_of_def eq index_ok_def)
  show "diAppDepots i a = (if {d. (a, d) \<in> names i} = {} then None else Some {d. (a, d) \<in> names i})"
  proof (cases "diAppDepots i a")
    case (Some S)
    have "S = {d. (a, d) \<in> names i}" by (simp add: names_def Some)
    moreover have "S \<noteq> {}" using assms Some unfolding index_ok_def by blast
    ultimately show ?thesis by (simp add: Some)
  qed (simp add: names_def)
qed

lemma index_okI:
  assumes "\<And>a. diAppDepots i a = (let S = {d. (a, d) \<in> R} in if S = {} then None else Some S)"
    and "\<And>d. diDepotApps i d = (let Q = {a. (a, d) \<in> R} in if Q = {} then None else Some Q)"
    and "\<And>a d. (a, d) \<in> R \<Longrightarrow> a \<noteq> 0 \<and> d \<noteq> 0"
  shows "index_ok i \<and> names i = R"
proof -
  have n: "names i = R" by (auto simp: names_def assms(1) Let_def split: if_splits)
  have "index_ok i" unfolding index_ok_def n
    by (auto simp: assms(1,2) Let_def dest: assms(3) split: if_splits)
  with n show ?thesis by simp
qed

lemma index_empty: "index_ok empty_index \<and> names empty_index = {}"
  by (rule index_okI) (simp_all add: empty_index_def)

lemma fold_put_owner:
  "fold (\<lambda>d. put_owner d a) ds m d = (if d \<in> set ds then Some (insert a (case m d of None \<Rightarrow> {} | Some S \<Rightarrow> S)) else m d)"
  by (induction ds arbitrary: m) (auto simp: put_owner_def)

lemma fold_release:
  "distinct ds \<Longrightarrow> fold (release_step a) ds m d = (if d \<in> set ds then release_step a d m d else m d)"
  by (induction ds arbitrary: m) (auto simp: release_step_def erase_owner_def split: option.splits)

lemma fold_replace:
  "distinct ds \<Longrightarrow> fold (replace_step a desired) ds (rel, m) =
     (rel @ filter (\<lambda>d. d \<notin> desired \<and> (case m d of None \<Rightarrow> True | Some S \<Rightarrow> card S = 1)) ds,
      \<lambda>d. if d \<in> set ds \<and> d \<notin> desired then release_step a d m d else m d)"
proof (induction ds arbitrary: rel m)
  case (Cons x ds)
  obtain rel' m' where st: "replace_step a desired x (rel, m) = (rel', m')" by fastforce
  have rel': "rel' = rel @ filter (\<lambda>d. d \<notin> desired \<and> (case m d of None \<Rightarrow> True | Some S \<Rightarrow> card S = 1)) [x]"
    and m': "m' = (\<lambda>d. if d = x \<and> x \<notin> desired then release_step a x m x else m d)"
    using st by (auto simp: replace_step_def release_step_def erase_owner_def fun_eq_iff split: if_splits option.splits)
  have same: "filter (\<lambda>d. d \<notin> desired \<and> (case m' d of None \<Rightarrow> True | Some S \<Rightarrow> card S = 1)) ds =
      filter (\<lambda>d. d \<notin> desired \<and> (case m d of None \<Rightarrow> True | Some S \<Rightarrow> card S = 1)) ds"
    using Cons.prems by (intro filter_cong) (auto simp: m')
  have "release_step a d m' d = release_step a d m d" if "d \<noteq> x" for d
    using that by (simp add: m' release_step_def erase_owner_def split: option.split)
  then have "(\<lambda>d. if d \<in> set ds \<and> d \<notin> desired then release_step a d m' d else m' d) =
      (\<lambda>d. if d \<in> set (x # ds) \<and> d \<notin> desired then release_step a d m d else m d)"
    using Cons.prems by (intro ext) (auto simp: m')
  then show ?case using Cons.IH [of rel' m'] Cons.prems unfolding fold.simps comp_def st
    by (simp only: same rel' filter.simps append_assoc append_Cons append_Nil distinct.simps) (simp split: if_split)
qed simp

section \<open>The operations on the relation\<close>

lemma card_one_owner: "a \<in> Q \<Longrightarrow> card Q = 1 \<longleftrightarrow> Q = {a}"
  by (auto simp: card_1_singleton_iff)

definition sole :: "u32 \<Rightarrow> depot_index \<Rightarrow> u32 set" where
  "sole a i = {d. owners_of i d = {a}}"

lemma exclusive_sole:
  assumes "index_ok i"
  shows "exclusiveDepotsForApp a i = sorted_list_of_set (sole a i)"
proof -
  let ?S = "{d. (a, d) \<in> names i}"
  have f: "(case diDepotApps i d of None \<Rightarrow> False | Some Q \<Rightarrow> card Q = 1) = (owners_of i d = {a})" if "d \<in> ?S" for d
    using that card_one_owner [of a "owners_of i d"]
    by (auto simp: index_ok_owners(1) [OF assms]) (auto simp: owners_of_def)
  have "exclusiveDepotsForApp a i = filter (\<lambda>d. owners_of i d = {a}) (sorted_list_of_set ?S)"
    unfolding exclusiveDepotsForApp_def index_ok_owners(2) [OF assms]
    using f by (auto intro!: filter_cong)
  also have "\<dots> = sorted_list_of_set (sole a i)"
    by (rule strict_sorted_eqI) (auto intro: strict_sorted_filter simp: sole_def owners_of_def)
  finally show ?thesis .
qed

lemma release_owner:
  assumes "index_ok i"
  shows "release_step a d (diDepotApps i) d =
    (if owners_of i d - {a} = {} then None else Some (owners_of i d - {a}))"
  by (auto simp: release_step_def erase_owner_def Let_def index_ok_owners(1) [OF assms] split: option.split)

lemma index_add_ok:
  assumes "index_ok i"
  shows "index_ok (index_add a d i) \<and> names (index_add a d i) = (if a = 0 \<or> d = 0 then names i else insert (a, d) (names i))"
proof (cases "a = 0 \<or> d = 0")
  case False
  have nz: "(b, e) \<in> names i \<Longrightarrow> b \<noteq> 0 \<and> e \<noteq> 0" for b e using assms by (auto simp: index_ok_def)
  have "index_ok (index_add a d i) \<and> names (index_add a d i) = insert (a, d) (names i)"
    by (rule index_okI)
      (use False nz in \<open>auto simp: index_add_def put_owner_def index_ok_owners [OF assms] owners_of_def\<close>)
  with False show ?thesis by simp
qed (use assms in \<open>auto simp: index_add_def\<close>)

lemma index_release_ok:
  assumes "index_ok i" "index_release a i = (released, i')"
  shows "index_ok i' \<and> names i' = names i - {a} \<times> UNIV \<and> released = sorted_list_of_set (sole a i)"
proof -
  let ?S = "{d. (a, d) \<in> names i}"
  show ?thesis
  proof (cases "?S = {}")
    case True
    then have "diAppDepots i a = None" by (simp add: index_ok_owners(2) [OF assms(1)])
    moreover have "sole a i = {}" using True by (auto simp: sole_def owners_of_def)
    ultimately show ?thesis using assms True by (auto simp: index_release_def)
  next
    case False
    then have S: "diAppDepots i a = Some ?S" by (simp add: index_ok_owners(2) [OF assms(1)])
    have i': "i' = \<lparr>diAppDepots = (diAppDepots i)(a := None),
        diDepotApps = fold (release_step a) (sorted_list_of_set ?S) (diDepotApps i)\<rparr>"
      and r: "released = exclusiveDepotsForApp a i" using assms(2) S by (auto simp: index_release_def)
    have "index_ok i' \<and> names i' = names i - {a} \<times> UNIV"
    proof (rule index_okI)
      show "diDepotApps i' d = (let Q = {b. (b, d) \<in> names i - {a} \<times> UNIV} in if Q = {} then None else Some Q)" for d
      proof -
        have "{b. (b, d) \<in> names i - {a} \<times> UNIV} = owners_of i d - {a}" by (auto simp: owners_of_def)
        moreover have "d \<notin> ?S \<Longrightarrow> owners_of i d - {a} = owners_of i d" by (auto simp: owners_of_def)
        ultimately show ?thesis
          unfolding i' by (cases "d \<in> ?S") (simp_all add: fold_release release_owner [OF assms(1)] Let_def index_ok_owners(1) [OF assms(1)])
      qed
      show "diAppDepots i' b = (let S = {d. (b, d) \<in> names i - {a} \<times> UNIV} in if S = {} then None else Some S)" for b
        by (auto simp: i' index_ok_owners(2) [OF assms(1)])
      show "(b, d) \<in> names i - {a} \<times> UNIV \<Longrightarrow> b \<noteq> 0 \<and> d \<noteq> 0" for b d using assms(1) by (auto simp: index_ok_def)
    qed
    with r exclusive_sole [OF assms(1)] show ?thesis by simp
  qed
qed

lemma index_replace_ok:
  assumes "index_ok i" "a \<noteq> 0" "index_replace a depots i = (released, i')"
  shows "index_ok i' \<and> names i' = names i - {a} \<times> UNIV \<union> {a} \<times> (set depots - {0}) \<and>
    released = sorted_list_of_set (sole a i - set depots)"
proof -
  let ?S = "{d. (a, d) \<in> names i}" and ?D = "set depots - {0}"
  let ?R = "names i - {a} \<times> UNIV \<union> {a} \<times> ?D"
  have nz: "(b, e) \<in> names i \<Longrightarrow> b \<noteq> 0 \<and> e \<noteq> 0" for b e using assms(1) by (auto simp: index_ok_def)
  define m where "m = (\<lambda>d. if d \<in> ?S \<and> d \<notin> ?D then release_step a d (diDepotApps i) d else diDepotApps i d)"
  define rel where "rel = filter (\<lambda>d. d \<notin> ?D \<and> (case diDepotApps i d of None \<Rightarrow> True | Some S \<Rightarrow> card S = 1)) (sorted_list_of_set ?S)"
  have des: "set (filter (\<lambda>d. d \<noteq> 0) depots) = ?D" by auto
  have loop: "(case diAppDepots i a of None \<Rightarrow> ([], diDepotApps i)
      | Some cur \<Rightarrow> fold (replace_step a ?D) (sorted_list_of_set cur) ([], diDepotApps i)) = (rel, m)"
    by (auto simp: index_ok_owners(2) [OF assms(1)] fold_replace rel_def m_def fun_eq_iff)
  have rel: "released = rel" using assms(2,3) loop unfolding index_replace_def des by (auto simp: Let_def split: if_splits)
  have f: "(case diDepotApps i d of None \<Rightarrow> True | Some Q \<Rightarrow> card Q = 1) = (owners_of i d = {a})" if "d \<in> ?S" for d
    using that card_one_owner [of a "owners_of i d"]
    by (auto simp: index_ok_owners(1) [OF assms(1)]) (auto simp: owners_of_def)
  have "rel = sorted_list_of_set (sole a i - set depots)"
    by (rule strict_sorted_eqI)
      (use f nz in \<open>auto intro: strict_sorted_filter simp: rel_def sole_def owners_of_def\<close>)
  moreover have "index_ok i' \<and> names i' = ?R"
  proof (rule index_okI)
    have md: "m d = (if owners_of i d - (if d \<in> ?D then {} else {a}) = {} then None
        else Some (owners_of i d - (if d \<in> ?D then {} else {a})))" for d
      unfolding m_def release_owner [OF assms(1)] using index_ok_owners(1) [OF assms(1), of d] by (auto simp: owners_of_def)
    have dep: "diDepotApps i' d = (if d \<in> ?D then Some (insert a (case m d of None \<Rightarrow> {} | Some S \<Rightarrow> S)) else m d)" for d
      using assms(2,3) loop unfolding index_replace_def des by (auto simp: Let_def fold_put_owner split: if_splits)
    show "diDepotApps i' d = (let Q = {b. (b, d) \<in> ?R} in if Q = {} then None else Some Q)" for d
      unfolding dep md by (auto simp: owners_of_def Let_def)
    have "diAppDepots i' = (diAppDepots i)(a := if ?D = {} then None else Some ?D)"
      using assms(2,3) loop unfolding index_replace_def des by (auto simp: Let_def split: if_splits)
    then show "diAppDepots i' b = (let S = {d. (b, d) \<in> ?R} in if S = {} then None else Some S)" for b
      by (auto simp: index_ok_owners(2) [OF assms(1)])
    show "(b, d) \<in> ?R \<Longrightarrow> b \<noteq> 0 \<and> d \<noteq> 0" for b d using nz assms(2) by auto
  qed
  ultimately show ?thesis using rel by simp
qed

text \<open>C14: The index is the relation of apps and depots: it adds to it, replaces or drops the depots of an app, and
  reports a depot as released just when that app was its only owner and it is not wanted any more.\<close>

theorem index_refines_relation:
  assumes "index_ok i" "a \<noteq> 0"
  shows "index_ok (index_add a d i) \<and> names (index_add a d i) = names i \<union> (if d = 0 then {} else {(a, d)}) \<and>
    (case index_replace a depots i of (released, i') \<Rightarrow>
       index_ok i' \<and> names i' = names i - {a} \<times> UNIV \<union> {a} \<times> (set depots - {0}) \<and>
       released = sorted_list_of_set {d. {b. (b, d) \<in> names i} = {a} \<and> d \<notin> set depots}) \<and>
    (case index_release a i of (released, i') \<Rightarrow>
       index_ok i' \<and> names i' = names i - {a} \<times> UNIV \<and>
       released = sorted_list_of_set {d. {b. (b, d) \<in> names i} = {a}}) \<and>
    exclusiveDepotsForApp a i = sorted_list_of_set {d. {b. (b, d) \<in> names i} = {a}}"
proof -
  obtain r1 i1 where r1: "index_replace a depots i = (r1, i1)" by fastforce
  obtain r2 i2 where r2: "index_release a i = (r2, i2)" by fastforce
  have "sole a i - set depots = {d. {b. (b, d) \<in> names i} = {a} \<and> d \<notin> set depots}" "sole a i = {d. {b. (b, d) \<in> names i} = {a}}"
    by (auto simp: sole_def owners_of_def)
  with index_add_ok [OF assms(1), of a d] index_replace_ok [OF assms r1] index_release_ok [OF assms(1) r2]
    exclusive_sole [OF assms(1), of a] assms(2) show ?thesis by (simp add: r1 r2)
qed

lemma index_refines_relation_witness:
  "fst (index_release 1 (snd (index_replace 2 [8] (snd (index_replace 1 [8, 7] empty_index))))) = [7]"
proof -
  let ?i = "snd (index_replace 1 [8, 7] empty_index)"
  let ?j = "snd (index_replace 2 [8] ?i)"
  have i: "index_ok ?i \<and> names ?i = {1} \<times> {7, 8}"
    using index_refines_relation [OF conjunct1 [OF index_empty], of 1 0 "[8, 7]"] index_empty
    by (auto split: prod.splits)
  have j: "index_ok ?j \<and> names ?j = {(1, 7), (1, 8), (2, 8)}"
    using index_refines_relation [OF conjunct1 [OF i], of 2 0 "[8]"] i by (auto split: prod.splits)
  have owners: "{b. (b, d) \<in> names ?j} = (if d = 7 then {1} else if d = 8 then {1, 2} else {})" for d
    unfolding conjunct2 [OF j] by auto
  have "{1, 2} \<noteq> {1::u32}" by (simp add: doubleton_eq_iff)
  then have "{d. {b. (b, d) \<in> names ?j} = {1}} = {7}" unfolding owners by (auto split: if_splits)
  with index_refines_relation [OF conjunct1 [OF j], of 1 0 "[]"] show ?thesis by (auto split: prod.splits)
qed

end
