(* ===== verification/ConfigDiscovery.thy ===== *)
theory ConfigDiscovery
  imports DlcIds CachePair
begin

text \<open>
  Which apps are managed, \<open>src/config_discovery.hpp\<close>: ids from names of scripts and manifests, the choice of
  the active sources under the cap, the classification of a reload, and the apps that are installed. A
  \<open>std::unordered_set\<close> is a finite set. The directories and files of a Steam root are an argument.
\<close>

section \<open>Ids in names\<close>

text \<open>The loop over the digits; \<open>None\<close> is the early \<open>return 0\<close>.\<close>

fun digits_loop :: "string \<Rightarrow> u64 \<Rightarrow> u64 option" where
  "digits_loop [] v = Some v"
| "digits_loop (c # cs) v =
     (if \<not> is_digit c then None
      else (let v = v * 10 + of_nat (digit_val c) in if v > 0xFFFFFFFF then None else digits_loop cs v))"

definition digits_id :: "string \<Rightarrow> u32" where
  "digits_id ds = (case digits_loop ds 0 of None \<Rightarrow> 0 | Some v \<Rightarrow> ucast v)"

text \<open>\<open>filename.rfind('.')\<close>: the part before the last dot and the part from it.\<close>

definition split_last_dot :: "string \<Rightarrow> (string \<times> string) option" where
  "split_last_dot f =
     (if CHR 0x2E \<notin> set f then None
      else (let n = length (takeWhile (\<lambda>c. c \<noteq> CHR 0x2E) (rev f)) in
            Some (take (length f - Suc n) f, drop (length f - Suc n) f)))"

definition appIdFromScriptName :: "string \<Rightarrow> u32" where
  "appIdFromScriptName filename =
     (case split_last_dot filename of
        None \<Rightarrow> 0
      | Some (st, ext) \<Rightarrow> if ext \<noteq> ''.lua'' then 0 else if st = [] then 0 else digits_id st)"

definition keepDiscoveredMainApp :: "u32 \<Rightarrow> bool \<Rightarrow> bool" where
  "keepDiscoveredMainApp app idIsAlsoManagedDepot \<longleftrightarrow> app > 0"

definition appIdFromManifestName :: "string \<Rightarrow> u32" where
  "appIdFromManifestName filename =
     (if \<not> starts_with ''appmanifest_'' filename \<or> \<not> ends_with ''.acf'' filename then 0
      else (let digits = take (length filename - 12 - 4) (drop 12 filename) in
            if digits = [] then 0 else digits_id digits))"

section \<open>The choice of sources\<close>

definition kMaxManagedSourceApps :: nat where "kMaxManagedSourceApps = 4096"

record source_selection =
  selActive :: "u32 set"
  selDiscovered :: nat
  selIgnored :: nat

fun add_sorted_loop :: "nat \<Rightarrow> u32 set \<Rightarrow> bool \<Rightarrow> u32 list \<Rightarrow> u32 set \<Rightarrow> u32 set" where
  "add_sorted_loop maxApps found requireFound [] active = active"
| "add_sorted_loop maxApps found requireFound (a # as) active =
     (if card active \<ge> maxApps then active
      else add_sorted_loop maxApps found requireFound as
             (if a = 0 \<or> (requireFound \<and> a \<notin> found) then active else insert a active))"

definition add_sorted :: "nat \<Rightarrow> u32 set \<Rightarrow> u32 set \<Rightarrow> bool \<Rightarrow> u32 set \<Rightarrow> u32 set" where
  "add_sorted maxApps found candidates requireFound active =
     add_sorted_loop maxApps found requireFound (sorted_list_of_set candidates) active"

definition selectManagedSources :: "u32 set \<Rightarrow> u32 set \<Rightarrow> u32 set \<Rightarrow> nat \<Rightarrow> u32 set \<Rightarrow> source_selection" where
  "selectManagedSources stplugApps luaYamlApps previouslyActive maxApps installedApps =
     (let found = stplugApps \<union> luaYamlApps;
          active = add_sorted maxApps found luaYamlApps False {};
          active = add_sorted maxApps found installedApps True active;
          active = add_sorted maxApps found previouslyActive True active;
          active = add_sorted maxApps found stplugApps False active
      in \<lparr>selActive = active, selDiscovered = card found, selIgnored = card found - card active\<rparr>)"

section \<open>Reloads\<close>

definition removedAppIds :: "u32 set \<Rightarrow> u32 set \<Rightarrow> u32 list" where
  "removedAppIds before after = sorted_list_of_set {a \<in> before. a \<notin> after}"

definition recoverRacyScanDrops :: "u32 set \<Rightarrow> u32 set \<Rightarrow> (u32 \<Rightarrow> bool) \<Rightarrow> u32 list" where
  "recoverRacyScanDrops freshScan previouslyKnown sourceExists =
     sorted_list_of_set {a \<in> previouslyKnown. a \<noteq> 0 \<and> a \<notin> freshScan \<and> sourceExists a}"

record reload_removals =
  rrManaged :: "u32 list"
  rrActive :: "u32 list"
  rrManagedAdded :: "u32 list"

definition classifyReloadRemovals :: "u32 set \<Rightarrow> u32 set \<Rightarrow> u32 set \<Rightarrow> u32 set \<Rightarrow> reload_removals" where
  "classifyReloadRemovals beforeManaged afterManaged beforeActive afterActive =
     \<lparr>rrManaged = removedAppIds beforeManaged afterManaged, rrActive = removedAppIds beforeActive afterActive,
      rrManagedAdded = removedAppIds afterManaged beforeManaged\<rparr>"

record app_id_sets =
  aiManaged :: "u32 set"
  aiCompatibility :: "u32 set"
  aiActive :: "u32 set"

definition accela_step :: "u32 \<Rightarrow> app_id_sets \<Rightarrow> app_id_sets" where
  "accela_step a r =
     (let r = (if a \<notin> aiManaged r then r\<lparr>aiCompatibility := insert a (aiCompatibility r)\<rparr> else r)
      in r\<lparr>aiActive := insert a (aiActive r)\<rparr>)"

definition legacy_step :: "u32 set \<Rightarrow> u32 \<Rightarrow> app_id_sets \<Rightarrow> app_id_sets" where
  "legacy_step installed a r = (if a \<notin> installed then r else accela_step a r)"

definition classifyAppIds :: "u32 set \<Rightarrow> u32 set \<Rightarrow> u32 set \<Rightarrow> u32 set \<Rightarrow> u32 set \<Rightarrow> app_id_sets" where
  "classifyAppIds stplugApps luaYamlApps legacyApps installedApps accelaApps =
     (let r = \<lparr>aiManaged = stplugApps \<union> luaYamlApps, aiCompatibility = {}, aiActive = stplugApps \<union> luaYamlApps\<rparr>;
          r = fold accela_step (sorted_list_of_set accelaApps) r
      in fold (legacy_step installedApps) (sorted_list_of_set legacyApps) r)"

section \<open>Installed apps\<close>

text \<open>\<open>std::string::find\<close> of a quoted key, then of the quotes behind it.\<close>

definition quotedField :: "string \<Rightarrow> string \<Rightarrow> string" where
  "quotedField t key =
     (let quotedKey = quote # key @ [quote] in
      case find_from quotedKey t 0 of
        None \<Rightarrow> []
      | Some keyPos \<Rightarrow>
          (case find_from [quote] t (keyPos + length quotedKey) of
             None \<Rightarrow> []
           | Some opn \<Rightarrow>
               (case find_from [quote] t (opn + 1) of
                  None \<Rightarrow> []
                | Some cls \<Rightarrow> take (cls - opn - 1) (drop (opn + 1) t))))"

text \<open>What is read of the disk: the text of a file, the names in a directory with whether each is a regular
  file (\<open>None\<close> when it is no directory or not readable), and whether a path exists.\<close>

record steam_disk =
  sdText :: "path \<Rightarrow> string option"
  sdList :: "path \<Rightarrow> (string \<times> bool) list option"
  sdExists :: "path \<Rightarrow> bool"

definition plain_name :: "string \<Rightarrow> bool" where
  "plain_name f \<longleftrightarrow> f \<noteq> [] \<and> CHR ''/'' \<notin> set f \<and> f \<noteq> ''.'' \<and> f \<noteq> ''..''"

text \<open>Whether the app is installed, and whether by Accela.\<close>

definition manifestInstalledState :: "steam_disk \<Rightarrow> path \<Rightarrow> path \<Rightarrow> bool \<times> bool" where
  "manifestInstalledState disk steamapps manifestPath =
     (case sdText disk manifestPath of
        None \<Rightarrow> (False, False)
      | Some t \<Rightarrow>
          (let installDir = quotedField t ''installdir'' in
           if \<not> plain_name installDir then (False, False)
           else (let gameDir = path_join (path_join steamapps ''common'') installDir in
                 case sdList disk gameDir of
                   None \<Rightarrow> (False, False)
                 | Some entries \<Rightarrow>
                     if list_ex (\<lambda>(n, _). n \<noteq> ''.DepotDownloader'') entries
                     then (True, sdExists disk (path_join gameDir ''.DepotDownloader'')) else (False, False))))"

record installed_apps =
  iaAll :: "u32 set"
  iaAccela :: "u32 set"

definition scan_entry :: "steam_disk \<Rightarrow> path \<Rightarrow> string \<times> bool \<Rightarrow> installed_apps \<Rightarrow> installed_apps" where
  "scan_entry disk steamapps = (\<lambda>(name, regular) r.
     (if \<not> regular then r
      else (let app = appIdFromManifestName name in
            if app = 0 then r
            else (case manifestInstalledState disk steamapps (path_join steamapps name) of
                    (False, _) \<Rightarrow> r
                  | (True, accela) \<Rightarrow>
                      (let r = r\<lparr>iaAll := insert app (iaAll r)\<rparr>
                       in if accela then r\<lparr>iaAccela := insert app (iaAccela r)\<rparr> else r)))))"

definition scan_root :: "steam_disk \<Rightarrow> path \<Rightarrow> installed_apps \<Rightarrow> installed_apps" where
  "scan_root disk steamapps r =
     (case sdList disk steamapps of None \<Rightarrow> r | Some entries \<Rightarrow> fold (scan_entry disk steamapps) entries r)"

definition scanInstalledApps :: "steam_disk \<Rightarrow> path list \<Rightarrow> installed_apps" where
  "scanInstalledApps disk roots = fold (scan_root disk) roots \<lparr>iaAll = {}, iaAccela = {}\<rparr>"

definition manifest_file :: "u32 \<Rightarrow> string" where
  "manifest_file app = ''appmanifest_'' @ to_dec (unat app) @ ''.acf''"

text \<open>\<open>is_regular_file\<close> of one path is an argument of its own: it does not go through the listing.\<close>

fun confirm_loop :: "steam_disk \<Rightarrow> (path \<Rightarrow> bool) \<Rightarrow> path list \<Rightarrow> u32 \<Rightarrow> bool \<times> bool" where
  "confirm_loop disk regular [] app = (False, False)"
| "confirm_loop disk regular (r # rs) app =
     (if \<not> regular (path_join r (manifest_file app)) then confirm_loop disk regular rs app
      else (case manifestInstalledState disk r (path_join r (manifest_file app)) of
              (True, accela) \<Rightarrow> (True, accela)
            | (False, _) \<Rightarrow> confirm_loop disk regular rs app))"

definition confirmInstalledApp :: "steam_disk \<Rightarrow> (path \<Rightarrow> bool) \<Rightarrow> path list \<Rightarrow> u32 \<Rightarrow> bool \<times> bool" where
  "confirmInstalledApp disk regular roots app = (if app = 0 then (False, False) else confirm_loop disk regular roots app)"

text \<open>\<open>lexically_normal\<close> is an argument.\<close>

definition add_unique_path :: "(path \<Rightarrow> path) \<Rightarrow> path \<Rightarrow> path list \<Rightarrow> path list" where
  "add_unique_path normal p roots = (let p = normal p in if p \<in> set roots then roots else roots @ [p])"

function library_loop :: "(path \<Rightarrow> path) \<Rightarrow> string \<Rightarrow> nat \<Rightarrow> path list \<Rightarrow> path list" where
  "library_loop normal t cursor roots =
     (if cursor \<ge> length t then roots
      else (case find_from (quote # ''path'' @ [quote]) t cursor of
              None \<Rightarrow> roots
            | Some keyPos \<Rightarrow>
                (case find_from [quote] t (keyPos + 6) of
                   None \<Rightarrow> roots
                 | Some opn \<Rightarrow>
                     (case find_from [quote] t (opn + 1) of
                        None \<Rightarrow> roots
                      | Some cls \<Rightarrow>
                          (let library = take (cls - opn - 1) (drop (opn + 1) t);
                               roots = (if library \<noteq> [] then add_unique_path normal (path_join library ''steamapps'') roots else roots)
                           in library_loop normal t (cls + 1) roots)))))"
  by pat_completeness auto
termination
proof (relation "measure (\<lambda>(normal, t, cursor, roots). length t - cursor)", goal_cases)
  case (2 normal t cursor roots keyPos opn cls library roots')
  then show ?case using find_from_SomeD(1) [OF 2(2)] find_from_SomeD(1) [OF 2(3)] find_from_SomeD(1) [OF 2(4)] by auto
qed simp

declare library_loop.simps [simp del]

definition steamAppsRootsFor :: "(path \<Rightarrow> path) \<Rightarrow> steam_disk \<Rightarrow> path \<Rightarrow> path list" where
  "steamAppsRootsFor normal disk steamRoot =
     fold (\<lambda>p roots. case sdText disk p of None \<Rightarrow> roots | Some t \<Rightarrow> library_loop normal t 0 roots)
       [path_join (path_join steamRoot ''steamapps'') ''libraryfolders.vdf'', path_join (path_join steamRoot ''config'') ''libraryfolders.vdf'']
       (add_unique_path normal (path_join steamRoot ''steamapps'') [])"

section \<open>The names are exact\<close>

lemma digits_loop_value:
  "list_all is_digit ds \<Longrightarrow> unat v \<le> 0xFFFFFFFF \<Longrightarrow>
     digits_loop ds v = (let n = foldl (\<lambda>n c. 10 * n + digit_val c) (unat v) ds in if n \<le> 0xFFFFFFFF then Some (of_nat n) else None)"
proof (induction ds arbitrary: v)
  case (Cons c ds)
  let ?w = "v * 10 + of_nat (digit_val c)"
  have d: "digit_val c < 10" using Cons.prems(1) by (simp add: digit_val_less)
  have "unat v * 10 + digit_val c < 2 ^ 64" using Cons.prems(2) d by simp
  then have w: "unat ?w = 10 * unat v + digit_val c"
    using d by (simp add: unat_word_ariths unsigned_of_nat take_bit_nat_eq_self mult.commute)
  have mono: "n \<le> foldl (\<lambda>n c. 10 * n + digit_val c) n xs" for n xs
  proof (induction xs arbitrary: n)
    case (Cons x xs)
    have "n \<le> 10 * n + digit_val x" by simp
    also have "\<dots> \<le> foldl (\<lambda>n c. 10 * n + digit_val c) (10 * n + digit_val x) xs" by (rule Cons)
    finally show ?case by simp
  qed simp
  show ?case
  proof (cases "unat ?w \<le> 0xFFFFFFFF")
    case True
    then show ?thesis using Cons.IH [OF _ True] Cons.prems(1) by (simp add: word_less_nat_alt not_less w)
  next
    case False
    then have "?w > 0xFFFFFFFF" by (simp add: word_less_nat_alt)
    moreover have "\<not> foldl (\<lambda>n c. 10 * n + digit_val c) (unat ?w) ds \<le> 0xFFFFFFFF" using False mono [of "unat ?w" ds] by linarith
    ultimately show ?thesis using Cons.prems(1) by (simp add: w)
  qed
qed simp

lemma digits_loop_bad: "\<not> list_all is_digit ds \<Longrightarrow> digits_loop ds v = None"
  by (induction ds v rule: digits_loop.induct) (auto simp: Let_def)

lemma digits_id_iff: "a \<noteq> 0 \<Longrightarrow> digits_id ds = a \<longleftrightarrow> list_all is_digit ds \<and> dec_value ds = unat a"
proof (cases "list_all is_digit ds")
  case True
  assume a: "a \<noteq> 0"
  have d: "digits_id ds = (if dec_value ds \<le> 0xFFFFFFFF then of_nat (dec_value ds) else 0)"
    using digits_loop_value [OF True, of 0]
    by (simp add: digits_id_def dec_value_def Let_def word_unat_eq_iff unsigned_of_nat take_bit_nat_eq_self unsigned_ucast_eq)
  have "of_nat n = a \<longleftrightarrow> n = unat a" if "n \<le> 0xFFFFFFFF" for n
    using that by (auto simp: unsigned_of_nat take_bit_nat_eq_self)
  moreover have "unat a < 2 ^ 32" using unsigned_less [of a] by simp
  ultimately show ?thesis using a d True by auto
qed (simp add: digits_id_def digits_loop_bad)

lemma takeWhile_until: "x \<notin> set xs \<Longrightarrow> takeWhile (\<lambda>c. c \<noteq> x) (xs @ x # ys) = xs"
  by (induction xs) auto

lemma split_last_dot_iff:
  "split_last_dot f = Some (st, ext) \<longleftrightarrow> (\<exists>e. f = st @ ext \<and> ext = CHR 0x2E # e \<and> CHR 0x2E \<notin> set e)"
proof
  assume L: "split_last_dot f = Some (st, ext)"
  then have "CHR 0x2E \<in> set f" by (auto simp: split_last_dot_def split: if_splits)
  then obtain r e where f: "f = r @ CHR 0x2E # e" "CHR 0x2E \<notin> set e" by (metis split_list_last)
  then have "takeWhile (\<lambda>c. c \<noteq> CHR 0x2E) (rev f) = rev e" by (simp add: takeWhile_until)
  with f L show "\<exists>e. f = st @ ext \<and> ext = CHR 0x2E # e \<and> CHR 0x2E \<notin> set e" by (auto simp: split_last_dot_def)
next
  assume "\<exists>e. f = st @ ext \<and> ext = CHR 0x2E # e \<and> CHR 0x2E \<notin> set e"
  then obtain e where f: "f = st @ CHR 0x2E # e" "ext = CHR 0x2E # e" "CHR 0x2E \<notin> set e" by blast
  then have "takeWhile (\<lambda>c. c \<noteq> CHR 0x2E) (rev f) = rev e"
    by (simp add: takeWhile_until)
  with f show "split_last_dot f = Some (st, ext)" by (simp add: split_last_dot_def)
qed

lemma script_name_iff:
  assumes "a \<noteq> 0"
  shows "appIdFromScriptName f = a \<longleftrightarrow> (\<exists>ds. f = ds @ ''.lua'' \<and> list_all is_digit ds \<and> dec_value ds = unat a)"
proof
  assume "appIdFromScriptName f = a"
  then obtain st where "split_last_dot f = Some (st, ''.lua'')" "digits_id st = a"
    using assms by (auto simp: appIdFromScriptName_def split: option.splits if_splits)
  then show "\<exists>ds. f = ds @ ''.lua'' \<and> list_all is_digit ds \<and> dec_value ds = unat a"
    using digits_id_iff [OF assms] by (auto simp: split_last_dot_iff)
next
  assume "\<exists>ds. f = ds @ ''.lua'' \<and> list_all is_digit ds \<and> dec_value ds = unat a"
  then obtain ds where ds: "f = ds @ ''.lua''" "list_all is_digit ds" "dec_value ds = unat a" by blast
  then have "ds \<noteq> []" using assms by (auto simp: dec_value_def unat_eq_0)
  moreover have "split_last_dot f = Some (ds, ''.lua'')" using ds(1) by (auto simp: split_last_dot_iff)
  ultimately show "appIdFromScriptName f = a" using digits_id_iff [OF assms] ds by (simp add: appIdFromScriptName_def)
qed

lemma manifest_name_iff:
  assumes "a \<noteq> 0"
  shows "appIdFromManifestName f = a \<longleftrightarrow>
    (\<exists>ds. f = ''appmanifest_'' @ ds @ ''.acf'' \<and> list_all is_digit ds \<and> dec_value ds = unat a)"
proof
  assume L: "appIdFromManifestName f = a"
  let ?ds = "take (length f - 12 - 4) (drop 12 f)"
  have st: "starts_with ''appmanifest_'' f" "ends_with ''.acf'' f" and d: "digits_id ?ds = a" "?ds \<noteq> []"
    using L assms by (auto simp: appIdFromManifestName_def Let_def split: if_splits)
  have p: "take 12 f = ''appmanifest_''" and s: "drop (length f - 4) f = ''.acf''"
    using st by (simp_all add: starts_with_def ends_with_def numeral_eq_Suc)
  have "12 + (length f - 12 - 4) = length f - 4" using d(2) by auto
  then have "f = take 12 f @ ?ds @ drop (length f - 4) f"
    by (metis append_take_drop_id drop_drop add.commute)
  then show "\<exists>ds. f = ''appmanifest_'' @ ds @ ''.acf'' \<and> list_all is_digit ds \<and> dec_value ds = unat a"
    using p s d(1) digits_id_iff [OF assms] by metis
next
  assume "\<exists>ds. f = ''appmanifest_'' @ ds @ ''.acf'' \<and> list_all is_digit ds \<and> dec_value ds = unat a"
  then obtain ds where ds: "f = ''appmanifest_'' @ ds @ ''.acf''" "list_all is_digit ds" "dec_value ds = unat a" by blast
  then have "ds \<noteq> []" using assms by (auto simp: dec_value_def unat_eq_0)
  then show "appIdFromManifestName f = a" using ds digits_id_iff [OF assms, of ds]
    by (simp add: appIdFromManifestName_def starts_with_def ends_with_def)
qed

lemma manifest_file_id [simp]: "a \<noteq> 0 \<Longrightarrow> appIdFromManifestName (manifest_file a) = a"
  by (subst manifest_name_iff) (auto simp: manifest_file_def)

section \<open>The choice respects priorities\<close>

lemma add_sorted_loop_take:
  "distinct as \<Longrightarrow> card active \<le> m \<Longrightarrow>
     add_sorted_loop m found req as active =
       active \<union> set (take (m - card active) (filter (\<lambda>a. a \<noteq> 0 \<and> (req \<longrightarrow> a \<in> found) \<and> a \<notin> active) as))"
proof (induction as arbitrary: active)
  case (Cons a as)
  show ?case
  proof (cases "a \<noteq> 0 \<and> (req \<longrightarrow> a \<in> found) \<and> a \<notin> active \<and> card active < m")
    case True
    then have k: "m - card active = Suc (m - card (insert a active))" by (simp add: Suc_diff_Suc)
    have same: "filter (\<lambda>b. b \<noteq> 0 \<and> (req \<longrightarrow> b \<in> found) \<and> b \<notin> insert a active) as =
        filter (\<lambda>b. b \<noteq> 0 \<and> (req \<longrightarrow> b \<in> found) \<and> b \<notin> active) as"
      using Cons.prems(1) by (intro filter_cong) auto
    have "add_sorted_loop m found req (a # as) active = add_sorted_loop m found req as (insert a active)" using True by auto
    also have "\<dots> = insert a active \<union> set (take (m - card (insert a active))
        (filter (\<lambda>b. b \<noteq> 0 \<and> (req \<longrightarrow> b \<in> found) \<and> b \<notin> insert a active) as))"
      using True Cons.prems by (intro Cons.IH) simp_all
    finally show ?thesis using True unfolding same k by simp
  next
    case False
    with Cons show ?thesis by (auto simp: insert_absorb)
  qed
qed simp

text \<open>One class of candidates: what is eligible in it joins, the least ids first, until the cap.\<close>

lemma add_sorted_stage:
  fixes active C found :: "u32 set" and req :: bool and m :: nat and x y :: u32
  assumes "card active \<le> m"
  defines "E \<equiv> {a \<in> C. a \<noteq> 0 \<and> (req \<longrightarrow> a \<in> found)}"
  defines "r \<equiv> add_sorted m found C req active"
  shows "active \<subseteq> r" "r \<subseteq> active \<union> E" "card r = min m (card (active \<union> E))"
    and "x \<in> r \<Longrightarrow> x \<notin> active \<Longrightarrow> y \<in> E \<Longrightarrow> y < x \<Longrightarrow> y \<in> r"
proof -
  define xs where "xs = filter (\<lambda>a. a \<noteq> 0 \<and> (req \<longrightarrow> a \<in> found) \<and> a \<notin> active) (sorted_list_of_set C)"
  have r: "r = active \<union> set (take (m - card active) xs)"
    unfolding r_def add_sorted_def xs_def by (rule add_sorted_loop_take) (simp_all add: assms(1))
  have xs: "set xs = E - active" "sorted_wrt (<) xs"
    by (auto simp: xs_def E_def intro: strict_sorted_filter)
  have d: "distinct xs" using xs(2) by (simp add: strict_sorted_iff)
  show "active \<subseteq> r" "r \<subseteq> active \<union> E" using r xs(1) by (auto dest: in_set_takeD)
  have "card r = card active + card (set (take (m - card active) xs))" (is "_ = _ + ?c")
    unfolding r by (rule card_Un_disjoint) (use xs(1) in \<open>auto dest: in_set_takeD\<close>)
  moreover have "card (set (take (m - card active) xs)) = min (m - card active) (card (E - active))"
    using d xs(1) distinct_card [OF d] by (simp add: distinct_card min.commute)
  moreover have "card (active \<union> E) = card active + card (E - active)"
    by (metis card_Un_disjoint Diff_disjoint Un_Diff_cancel finite)
  ultimately show "card r = min m (card (active \<union> E))" using assms(1) by simp
  show "y \<in> r" if "x \<in> r" "x \<notin> active" "y \<in> E" "y < x"
  proof (cases "y \<in> active")
    case False
    let ?k = "m - card active"
    have x: "x \<in> set (take ?k xs)" using that(1,2) r by auto
    have "y \<in> set xs" using that(3) False xs(1) by auto
    moreover have "y \<notin> set (drop ?k xs)"
    proof
      assume "y \<in> set (drop ?k xs)"
      with x have "x < y" using xs(2) by (metis append_take_drop_id sorted_wrt_append)
      with that(4) show False by simp
    qed
    ultimately show ?thesis using r by (metis Un_iff append_take_drop_id set_append)
  qed (use r in auto)
qed

text \<open>The classes of ids, highest priority first: the manual ones, those installed, those active before, the rest.\<close>

definition source_class :: "u32 set \<Rightarrow> u32 set \<Rightarrow> u32 set \<Rightarrow> u32 set \<Rightarrow> nat \<Rightarrow> u32 set" where
  "source_class stplugApps luaYamlApps previouslyActive installedApps k =
     (let found = stplugApps \<union> luaYamlApps in
      (luaYamlApps \<union> (if k \<ge> 1 then installedApps \<inter> found else {}) \<union> (if k \<ge> 2 then previouslyActive \<inter> found else {}) \<union>
       (if k \<ge> 3 then stplugApps else {})) - {0})"

lemma capped_stage:
  fixes P Q active r :: "u32 set"
  assumes inv: "active \<subseteq> P" "card active = min m (card P)" and Q: "P \<subseteq> Q" "E \<subseteq> Q" "Q \<subseteq> P \<union> E"
    and r: "active \<subseteq> r" "r \<subseteq> active \<union> E" "card r = min m (card (active \<union> E))"
  shows "r \<subseteq> Q" "card r = min m (card Q)" "active = P \<or> r = active"
proof -
  show "r \<subseteq> Q" using r(2) inv(1) Q by blast
  have le: "card active \<le> card P" "card P \<le> card Q" "card (active \<union> E) \<le> card Q"
    using inv(1) Q by (auto intro!: card_mono)
  show "active = P \<or> r = active"
  proof (cases "card P \<le> m")
    case True
    then have "active = P" using inv by (simp add: card_subset_eq)
    then show ?thesis ..
  next
    case False
    then have "card active = m" using inv(2) by simp
    moreover have "card active \<le> card r" using r(1) by (simp add: card_mono)
    moreover have "card r \<le> m" using r(3) by simp
    ultimately have "r = active" using r(1) by (metis card_subset_eq finite le_antisym)
    then show ?thesis ..
  qed
  then show "card r = min m (card Q)"
  proof
    assume "active = P"
    then have "active \<union> E = Q" using Q by blast
    then show ?thesis using r(3) by simp
  next
    assume "r = active"
    show ?thesis
    proof (cases "card P \<le> m")
      case True
      then have "active = P" using inv by (simp add: card_subset_eq)
      then have "active \<union> E = Q" using Q by blast
      then show ?thesis using r(3) by simp
    next
      case False
      then show ?thesis using \<open>r = active\<close> inv(2) le by simp
    qed
  qed
qed

definition stage :: "u32 set \<Rightarrow> u32 set \<Rightarrow> u32 set \<Rightarrow> nat \<Rightarrow> u32 set \<Rightarrow> nat \<Rightarrow> u32 set" where
  "stage s l p m i k =
     (let f = s \<union> l; a = add_sorted m f l False {}; b = add_sorted m f i True a; c = add_sorted m f p True b
      in if k = 0 then a else if k = 1 then b else if k = 2 then c else add_sorted m f s False c)"

lemma selection_last: "selActive (selectManagedSources s l p m i) = stage s l p m i 3"
  by (simp add: selectManagedSources_def stage_def Let_def)

lemma stage_early: "stage s l p m i 1 = stage s l q m i 1"
  by (simp add: stage_def)

definition stage_ok :: "u32 set \<Rightarrow> u32 set \<Rightarrow> u32 set \<Rightarrow> nat \<Rightarrow> u32 set \<Rightarrow> nat \<Rightarrow> bool" where
  "stage_ok s l p m i k \<longleftrightarrow> stage s l p m i k \<subseteq> source_class s l p i k \<and>
     card (stage s l p m i k) = min m (card (source_class s l p i k))"

lemma stages_ok: "k \<le> 3 \<Longrightarrow> stage_ok s l p m i k"
  and stages_grow: "k < 3 \<Longrightarrow> stage s l p m i k \<subseteq> stage s l p m i (Suc k) \<and>
    (stage s l p m i k = source_class s l p i k \<or> stage s l p m i (Suc k) = stage s l p m i k)"
proof -
  let ?f = "s \<union> l" and ?A = "stage s l p m i" and ?P = "source_class s l p i"
  note pd = source_class_def Let_def
  have A: "?A 0 = add_sorted m ?f l False {}" "?A 1 = add_sorted m ?f i True (?A 0)"
    "?A 2 = add_sorted m ?f p True (?A 1)" "?A 3 = add_sorted m ?f s False (?A 2)"
    by (simp_all add: stage_def Let_def)
  note st0 = add_sorted_stage(1-3) [of "{}" m ?f l False, folded A(1), simplified]
  have "?P 0 = {a \<in> l. a \<noteq> 0}" by (auto simp: pd)
  with st0 have 0: "?A 0 \<subseteq> ?P 0" "card (?A 0) = min m (card (?P 0))" by auto
  have m0: "card (?A 0) \<le> m" using 0 by simp
  note st1 = add_sorted_stage(1-3) [OF m0, of ?f i True, folded A(2)]
  have 1: "?A 1 \<subseteq> ?P 1" "card (?A 1) = min m (card (?P 1))" "?A 0 = ?P 0 \<or> ?A 1 = ?A 0"
    by (rule capped_stage [OF 0 _ _ _ st1, of "?P 1"]; auto simp: pd)+
  have m1: "card (?A 1) \<le> m" using 1 by simp
  note st2 = add_sorted_stage(1-3) [OF m1, of ?f p True, folded A(3)]
  have 2: "?A 2 \<subseteq> ?P 2" "card (?A 2) = min m (card (?P 2))" "?A 1 = ?P 1 \<or> ?A 2 = ?A 1"
    by (rule capped_stage [OF 1(1,2) _ _ _ st2, of "?P 2"]; auto simp: pd)+
  have m2: "card (?A 2) \<le> m" using 2 by simp
  note st3 = add_sorted_stage(1-3) [OF m2, of ?f s False, folded A(4)]
  have 3: "?A 3 \<subseteq> ?P 3" "card (?A 3) = min m (card (?P 3))" "?A 2 = ?P 2 \<or> ?A 3 = ?A 2"
    by (rule capped_stage [OF 2(1,2) _ _ _ st3, of "?P 3"]; auto simp: pd)+
  have four: "k = 0 \<or> k = 1 \<or> k = 2 \<or> k = 3" if "k \<le> 3" for k :: nat using that by auto
  show "k \<le> 3 \<Longrightarrow> stage_ok s l p m i k" using four [of k] 0 1 2 3 by (auto simp: stage_ok_def)
  have three: "k = 0 \<or> k = 1 \<or> k = 2" if "k < 3" for k :: nat using that by auto
  show "k < 3 \<Longrightarrow> ?A k \<subseteq> ?A (Suc k) \<and> (?A k = ?P k \<or> ?A (Suc k) = ?A k)"
    using three [of k] 1(3) 2(3) 3(3) st1(1) st2(1) st3(1) by (auto simp: numeral_2_eq_2 numeral_3_eq_3)
qed

lemma stage_final:
  assumes "k \<le> 3"
  shows "stage s l p m i k \<subseteq> stage s l p m i 3" "stage s l p m i k = source_class s l p i k \<or> stage s l p m i 3 = stage s l p m i k"
proof -
  have "stage s l p m i k \<subseteq> stage s l p m i (k + n) \<and> (stage s l p m i k = source_class s l p i k \<or> stage s l p m i (k + n) = stage s l p m i k)"
    if "k + n \<le> 3" for n using that
  proof (induction n)
    case (Suc n)
    then have le: "k + n < 3" by simp
    have full: "stage s l p m i (k + n) = source_class s l p i (k + n) \<Longrightarrow> stage s l p m i (k + n) = stage s l p m i k \<Longrightarrow>
        stage s l p m i k = source_class s l p i k"
    proof -
      assume "stage s l p m i (k + n) = source_class s l p i (k + n)" "stage s l p m i (k + n) = stage s l p m i k"
      moreover have "source_class s l p i k \<subseteq> source_class s l p i (k + n)" by (auto simp: source_class_def Let_def)
      moreover have "stage s l p m i k \<subseteq> source_class s l p i k" using stages_ok [of k s l p m i] assms by (simp add: stage_ok_def)
      ultimately show ?thesis by blast
    qed
    from Suc le stages_grow [OF le, of s l p m i] full show ?case by auto
  qed simp
  from this [of "3 - k"] assms show "stage s l p m i k \<subseteq> stage s l p m i 3"
    "stage s l p m i k = source_class s l p i k \<or> stage s l p m i 3 = stage s l p m i k" by auto
qed

text \<open>C3: The active sources are as many as the cap and the sources allow, and no id is active while one of a
  higher class is left out: manual entries, then installed apps, then those active before, then the scripts.\<close>

theorem select_by_priority:
  assumes "r = selActive (selectManagedSources s l p m i)" "k \<le> 3"
  shows "r \<subseteq> (s \<union> l) - {0} \<and> card r = min m (card ((s \<union> l) - {0})) \<and>
    (source_class s l p i k \<subseteq> r \<or> r \<subseteq> source_class s l p i k)"
proof -
  have P3: "source_class s l p i 3 = (s \<union> l) - {0}" by (auto simp: source_class_def Let_def)
  have r: "r = stage s l p m i 3" using assms(1) by (simp add: selection_last)
  have "stage s l p m i k \<subseteq> source_class s l p i k" using stages_ok [OF assms(2)] by (simp add: stage_ok_def)
  with stage_final [OF assms(2), of s l p m i] have "source_class s l p i k \<subseteq> r \<or> r \<subseteq> source_class s l p i k"
    unfolding r by blast
  moreover have "r \<subseteq> (s \<union> l) - {0}" "card r = min m (card ((s \<union> l) - {0}))"
    using stages_ok [of 3 s l p m i] unfolding r stage_ok_def P3 by simp_all
  ultimately show ?thesis by blast
qed

lemma select_by_priority_witness:
  "card (selActive (selectManagedSources {3, 5, 9} {7} {} 2 {9})) = 2"
  using select_by_priority [OF refl, of 3 "{3, 5, 9}" "{7}" "{}" 2 "{9}"] by simp

text \<open>C40: A reload of the same sources keeps the active set.\<close>

theorem reselect_stable:
  "selActive (selectManagedSources s l (selActive (selectManagedSources s l p m i)) m i) =
     selActive (selectManagedSources s l p m i)"
proof -
  let ?r = "stage s l p m i 3" and ?A1 = "stage s l p m i 1"
  let ?r' = "stage s l ?r m i 3"
  have P3: "source_class s l q i 3 = (s \<union> l) - {0}" for q by (auto simp: source_class_def Let_def)
  have ok: "stage_ok s l q m i 3" for q by (rule stages_ok) simp
  have cards: "card ?r' = card ?r" "card ?r \<le> m" and r: "?r \<subseteq> (s \<union> l) - {0}"
    using ok [of p] ok [of ?r] by (auto simp: stage_ok_def P3)
  have sub: "?A1 \<subseteq> ?r" "?A1 \<subseteq> ?r'"
    using stage_final(1) [of 1 s l p m i] stage_final(1) [of 1 s l ?r m i] stage_early [of s l p m i ?r] by simp_all
  have ok1: "stage_ok s l p m i 1" by (rule stages_ok) simp
  have "?r' = ?r"
  proof (cases "card (source_class s l p i 1) \<le> m")
    case True
    then have A1: "?A1 = source_class s l p i 1" using ok1 by (simp add: stage_ok_def card_subset_eq)
    have P2: "source_class s l ?r i 2 = ?A1 \<union> ?r" using r unfolding A1 by (auto simp: source_class_def Let_def)
    then have "source_class s l ?r i 2 = ?r" using sub(1) by blast
    moreover have "stage s l ?r m i 2 \<subseteq> source_class s l ?r i 2" using stages_ok [of 2 s l ?r m i] by (simp add: stage_ok_def)
    ultimately have "?r \<subseteq> ?r' \<or> ?r' \<subseteq> ?r" using stage_final [of 2 s l ?r m i] by auto
    with cards(1) show ?thesis by (metis card_subset_eq finite)
  next
    case False
    then have "card ?A1 = m" using ok1 by (simp add: stage_ok_def)
    then have "?r = ?A1" "?r' = ?A1" using sub cards by (metis card_mono card_subset_eq finite le_antisym)+
    then show ?thesis by simp
  qed
  then show ?thesis by (simp add: selection_last)
qed

section \<open>Classification\<close>

lemma accela_fold:
  "fold accela_step xs r = r\<lparr>aiCompatibility := aiCompatibility r \<union> (set xs - aiManaged r), aiActive := aiActive r \<union> set xs\<rparr>"
  by (induction xs arbitrary: r) (auto simp: accela_step_def insert_Diff_if)

lemma legacy_fold:
  "fold (legacy_step inst) xs r =
     r\<lparr>aiCompatibility := aiCompatibility r \<union> ((set xs \<inter> inst) - aiManaged r), aiActive := aiActive r \<union> (set xs \<inter> inst)\<rparr>"
  by (induction xs arbitrary: r) (auto simp: legacy_step_def accela_step_def insert_Diff_if)

text \<open>Managed ids come from sources only; a compatibility id is installed and not managed; both are active.\<close>

theorem classify_exact:
  "classifyAppIds s l legacy inst accela =
     \<lparr>aiManaged = s \<union> l, aiCompatibility = (accela \<union> (legacy \<inter> inst)) - (s \<union> l), aiActive = s \<union> l \<union> accela \<union> (legacy \<inter> inst)\<rparr>"
  by (auto simp: classifyAppIds_def Let_def accela_fold legacy_fold)

section \<open>Confirming one app agrees with scanning\<close>

definition scanned :: "steam_disk \<Rightarrow> path \<Rightarrow> string \<times> bool \<Rightarrow> u32 \<Rightarrow> bool" where
  "scanned disk r e a \<longleftrightarrow> snd e \<and> a \<noteq> 0 \<and> appIdFromManifestName (fst e) = a \<and>
     fst (manifestInstalledState disk r (path_join r (fst e)))"

lemma scan_entry_all: "iaAll (scan_entry disk r e s) = iaAll s \<union> {a. scanned disk r e a}"
proof -
  obtain n reg where e: "e = (n, reg)" by fastforce
  obtain i acc where m: "manifestInstalledState disk r (path_join r n) = (i, acc)" by fastforce
  show ?thesis by (cases i) (auto simp: scan_entry_def scanned_def e m Let_def)
qed

lemma scan_entries_all: "iaAll (fold (scan_entry disk r) es s) = iaAll s \<union> {a. \<exists>e \<in> set es. scanned disk r e a}"
  by (induction es arbitrary: s) (auto simp: scan_entry_all)

lemma scan_roots_all:
  "iaAll (fold (scan_root disk) rs s) = iaAll s \<union> {a. \<exists>r \<in> set rs. \<exists>es. sdList disk r = Some es \<and> (\<exists>e \<in> set es. scanned disk r e a)}"
  by (induction rs arbitrary: s) (auto simp: scan_root_def scan_entries_all split: option.splits)

lemma confirm_loop_iff:
  "fst (confirm_loop disk regular rs a) \<longleftrightarrow>
     (\<exists>r \<in> set rs. regular (path_join r (manifest_file a)) \<and> fst (manifestInstalledState disk r (path_join r (manifest_file a))))"
  by (induction rs) (auto split: prod.splits bool.splits)


definition sample_steam :: steam_disk where
  "sample_steam = \<lparr>sdText = (\<lambda>p. if p = ''s/appmanifest_9.acf'' then Some (quote # ''installdir'' @ [quote, quote] @ ''G'' @ [quote]) else None),
     sdList = (\<lambda>p. if p = ''s'' then Some [(''appmanifest_9.acf'', True)] else if p = ''s/common/G'' then Some [(''g.x86'', True)] else None),
     sdExists = (\<lambda>_. False)\<rparr>"


text \<open>An install directory is one name below \<open>common\<close>: nothing outside of it is looked at.\<close>

lemma installed_below_common:
  "fst (manifestInstalledState disk r p) \<Longrightarrow> \<exists>t. sdText disk p = Some t \<and> plain_name (quotedField t ''installdir'')"
  by (auto simp: manifestInstalledState_def Let_def split: option.splits if_splits)

end
