(* ===== verification/ManifestPin.thy ===== *)
theory ManifestPin
  imports DepotIndex ConfigDiscovery Quarantine
begin

text \<open>
  The catalog of pinned manifests, \<open>src/feats/manifestid.cpp\<close>: a map in memory that is loaded from the cache
  directory once and written through, and the import of \<open>setManifestid\<close> calls from scripts. Reading and writing
  YAML are parameters; the files are those of the cache pair, every call may fail. The functions run under the
  locks of the module, so that each is one step. An exception that leaves a function is \<open>None\<close>.
\<close>

section \<open>State\<close>

record pin_state =
  psCatalog :: "u32 \<rightharpoonup> string"
  psLoaded :: bool
  psIndex :: depot_index
  psFs :: file_system

text \<open>\<open>YAML::LoadFile\<close> with both fields converted, \<open>None\<close> when that throws or a field is missing; and the
  emitted text.\<close>

record pin_yaml =
  pyRead :: "contents \<Rightarrow> (u32 \<times> string) option"
  pyEmit :: "u32 \<Rightarrow> string \<Rightarrow> contents"

definition pin_name :: "u32 \<Rightarrow> string" where
  "pin_name dep = ''manifestid_'' @ to_dec (unat dep) @ ''.yaml''"

definition getCatalogPath :: "path \<Rightarrow> u32 \<Rightarrow> path" where
  "getCatalogPath dir dep = path_join dir (pin_name dep)"

section \<open>Loading\<close>

text \<open>The pattern of the file names.\<close>

definition pin_file_name :: "string \<Rightarrow> bool" where
  "pin_file_name n \<longleftrightarrow>
     starts_with ''manifestid_'' n \<and> ends_with ''.yaml'' n \<and> length n > 16 \<and>
     list_all is_digit (take (length n - 16) (drop 11 n))"

text \<open>The contents of a file, \<open>None\<close> when a call fails.\<close>

definition fs_load :: "path \<Rightarrow> file_system \<Rightarrow> contents option \<times> file_system" where
  "fs_load p s = (case outcome_of s of Works \<Rightarrow> (fsFiles s p, call_done s) | Fails _ \<Rightarrow> (None, call_done s))"

definition load_pin :: "pin_yaml \<Rightarrow> path \<Rightarrow> string \<Rightarrow> (u32 \<rightharpoonup> string) \<times> file_system \<Rightarrow> (u32 \<rightharpoonup> string) \<times> file_system" where
  "load_pin yaml dir name = (\<lambda>(cat, s).
     (if \<not> pin_file_name name then (cat, s)
      else (case fs_load (path_join dir name) s of
              (sz, s) \<Rightarrow>
                if sz = None \<or> sz = Some [] then (cat, s)
                else (case fs_load (path_join dir name) s of
                        (None, s) \<Rightarrow> (cat, s)
                      | (Some c, s) \<Rightarrow>
                          (case pyRead yaml c of
                             None \<Rightarrow> (cat, s)
                           | Some (dep, gid) \<Rightarrow> if dep \<noteq> 0 \<and> gid \<noteq> [] then (cat(dep \<mapsto> gid), s) else (cat, s))))))"

text \<open>The names of the regular files of the directory, in the order it gives them.\<close>

definition loadCatalogLocked :: "pin_yaml \<Rightarrow> path \<Rightarrow> string list \<Rightarrow> pin_state \<Rightarrow> pin_state" where
  "loadCatalogLocked yaml dir entries st =
     (if psLoaded st then st
      else (case fold (load_pin yaml dir) entries (psCatalog st, psFs st) of
              (cat, s) \<Rightarrow> st\<lparr>psCatalog := cat, psLoaded := True, psFs := s\<rparr>))"

definition getPinnedGid :: "pin_yaml \<Rightarrow> path \<Rightarrow> string list \<Rightarrow> u32 \<Rightarrow> pin_state \<Rightarrow> string \<times> pin_state" where
  "getPinnedGid yaml dir entries dep st =
     (let st = loadCatalogLocked yaml dir entries st in
      (case psCatalog st dep of None \<Rightarrow> [] | Some gid \<Rightarrow> gid, st))"

section \<open>Saving and retiring\<close>

definition note_pin :: "u32 \<Rightarrow> string \<Rightarrow> file_system \<Rightarrow> pin_state \<Rightarrow> pin_state" where
  "note_pin dep gid s st = st\<lparr>psCatalog := (psCatalog st)(dep \<mapsto> gid), psLoaded := True, psFs := s\<rparr>"

text \<open>Whether the file already holds the pin.\<close>

definition same_pin :: "pin_yaml \<Rightarrow> path \<Rightarrow> u32 \<Rightarrow> string \<Rightarrow> file_system \<Rightarrow> bool \<times> file_system" where
  "same_pin yaml p dep gid s =
     (case fs_load p s of (c, s) \<Rightarrow> (Option.bind c (pyRead yaml) = Some (dep, gid), s))"

text \<open>Opening with truncation and writing: whether it could be opened. A write that fails after that leaves
  other bytes and is not noticed.\<close>

definition fs_overwrite :: "path \<Rightarrow> contents \<Rightarrow> file_system \<Rightarrow> bool \<times> file_system" where
  "fs_overwrite p data s =
     (case outcome_of s of
        Works \<Rightarrow> (True, set_file p (Some data) (call_done s))
      | Fails None \<Rightarrow> (False, call_done s)
      | Fails (Some junk) \<Rightarrow> (True, set_file p (Some junk) (call_done s)))"

definition write_pin :: "pin_yaml \<Rightarrow> path \<Rightarrow> u32 \<Rightarrow> string \<Rightarrow> pin_state \<Rightarrow> file_system \<Rightarrow> bool \<times> pin_state" where
  "write_pin yaml p dep gid st s =
     (case fs_overwrite p (pyEmit yaml dep gid) s of
        (False, s) \<Rightarrow> (False, st\<lparr>psFs := s\<rparr>)
      | (True, s) \<Rightarrow> (True, note_pin dep gid s st))"

text \<open>\<open>exists\<close> without an error code throws when it cannot tell.\<close>

definition savePin :: "pin_yaml \<Rightarrow> path \<Rightarrow> u32 \<Rightarrow> string \<Rightarrow> pin_state \<Rightarrow> bool option \<times> pin_state" where
  "savePin yaml dir dep gid st =
     (if dep = 0 \<or> gid = [] then (Some False, st)
      else if \<not> list_all is_digit gid then (Some False, st)
      else (let p = getCatalogPath dir dep in
            case fs_exists p (psFs st) of
              (None, s) \<Rightarrow> (None, st\<lparr>psFs := s\<rparr>)
            | (Some True, s) \<Rightarrow>
                (case same_pin yaml p dep gid s of
                   (True, s) \<Rightarrow> (Some True, note_pin dep gid s st)
                 | (False, s) \<Rightarrow> (case write_pin yaml p dep gid st s of (r, st) \<Rightarrow> (Some r, st)))
            | (Some False, s) \<Rightarrow> (case write_pin yaml p dep gid st s of (r, st) \<Rightarrow> (Some r, st))))"

definition retire_one :: "path \<Rightarrow> u32 \<Rightarrow> pin_state \<Rightarrow> pin_state" where
  "retire_one dir dep st =
     (if dep = 0 then st
      else (case fs_remove (getCatalogPath dir dep) (psFs st) of
              (None, s) \<Rightarrow> st\<lparr>psFs := s\<rparr>
            | (Some _, s) \<Rightarrow> st\<lparr>psFs := s, psCatalog := (psCatalog st)(dep := None)\<rparr>))"

definition retireDepotsLocked :: "pin_yaml \<Rightarrow> path \<Rightarrow> string list \<Rightarrow> u32 list \<Rightarrow> pin_state \<Rightarrow> pin_state" where
  "retireDepotsLocked yaml dir entries deps st = fold (retire_one dir) deps (loadCatalogLocked yaml dir entries st)"

definition retireDepots :: "pin_yaml \<Rightarrow> path \<Rightarrow> string list \<Rightarrow> u32 list \<Rightarrow> pin_state \<Rightarrow> pin_state" where
  "retireDepots yaml dir entries deps st = (if deps = [] then st else retireDepotsLocked yaml dir entries deps st)"

definition pins_exclusive :: "u32 \<Rightarrow> pin_state \<Rightarrow> u32 list" where
  "pins_exclusive app st = exclusiveDepotsForApp app (psIndex st)"

definition forgetApp_pins :: "u32 \<Rightarrow> pin_state \<Rightarrow> u32 list \<times> pin_state" where
  "forgetApp_pins app st =
     (if app = 0 then ([], st)
      else (case index_release app (psIndex st) of (deps, i) \<Rightarrow> (deps, st\<lparr>psIndex := i\<rparr>)))"

section \<open>Importing scripts\<close>

text \<open>The regular expression of a call at the head of a text: its two numbers and the rest.\<close>

definition skip_white :: "string \<Rightarrow> string" where
  "skip_white s = dropWhile is_space s"

definition eat :: "string \<Rightarrow> string \<Rightarrow> string option" where
  "eat p s = (if starts_with p s then Some (drop (length p) s) else None)"

definition digit_run :: "string \<Rightarrow> (string \<times> string) option" where
  "digit_run s = (let ds = takeWhile is_digit s in if ds = [] then None else Some (ds, dropWhile is_digit s))"

definition call_end :: "string \<Rightarrow> string option" where
  "call_end s =
     (case eat '','' s of
        None \<Rightarrow> eat '')'' s
      | Some t \<Rightarrow> eat '')'' (dropWhile (\<lambda>c. c \<noteq> CHR '')'') t))"

definition match_pin :: "string \<Rightarrow> ((string \<times> string) \<times> string) option" where
  "match_pin s =
     Option.bind (eat ''setManifestid'' s) (\<lambda>s.
     Option.bind (eat ''('' (skip_white s)) (\<lambda>s.
     Option.bind (digit_run (skip_white s)) (\<lambda>(dep, s).
     Option.bind (eat '','' (skip_white s)) (\<lambda>s.
     Option.bind (eat [quote] (skip_white s)) (\<lambda>s.
     Option.bind (digit_run s) (\<lambda>(gid, s).
     Option.bind (eat [quote] s) (\<lambda>s.
     map_option (\<lambda>s. ((dep, gid), s)) (call_end (skip_white s)))))))))"

text \<open>All matches from left to right.\<close>

fun pin_calls :: "nat \<Rightarrow> string \<Rightarrow> (string \<times> string) list" where
  "pin_calls 0 s = []"
| "pin_calls (Suc n) s =
     (case s of
        [] \<Rightarrow> []
      | _ # t \<Rightarrow> (case match_pin s of None \<Rightarrow> pin_calls n t | Some (c, rest) \<Rightarrow> c # pin_calls n rest))"

text \<open>The line without its comment.\<close>

definition strip_comment :: "string \<Rightarrow> string" where
  "strip_comment line = (case find_from ''--'' line 0 of None \<Rightarrow> line | Some i \<Rightarrow> take i line)"

definition line_calls :: "string \<Rightarrow> (string \<times> string) list" where
  "line_calls line = (let l = strip_comment line in pin_calls (length l) l)"

text \<open>The calls of a script, in order, each saved; a depot number that does not fit throws.\<close>

fun import_calls :: "pin_yaml \<Rightarrow> path \<Rightarrow> (string \<times> string) list \<Rightarrow> u32 list \<Rightarrow> pin_state \<Rightarrow> u32 list option \<times> pin_state" where
  "import_calls yaml dir [] deps st = (Some deps, st)"
| "import_calls yaml dir ((d, gid) # cs) deps st =
     (case from_chars_all u32_max d of
        None \<Rightarrow> (None, st)
      | Some n \<Rightarrow>
          (case savePin yaml dir (of_nat n) gid st of
             (None, st) \<Rightarrow> (None, st)
           | (Some _, st) \<Rightarrow> import_calls yaml dir cs (deps @ [of_nat n]) st))"

definition import_script :: "pin_yaml \<Rightarrow> path \<Rightarrow> string list \<Rightarrow> u32 set \<Rightarrow> string \<times> string option \<Rightarrow> pin_state \<Rightarrow> bool \<times> pin_state" where
  "import_script yaml dir entries managed f st =
     (let app = appIdFromScriptName (fst f) in
      if app = 0 \<or> app \<notin> managed then (True, st)
      else (case snd f of
              None \<Rightarrow> (True, st)
            | Some t \<Rightarrow>
                (case import_calls yaml dir (concat (map line_calls (text_lines t))) [] st of
                   (None, st) \<Rightarrow> (False, st)
                 | (Some deps, st) \<Rightarrow>
                     (case index_replace app deps (psIndex st) of
                        (released, i) \<Rightarrow> (True, retireDepotsLocked yaml dir entries released (st\<lparr>psIndex := i\<rparr>))))))"

text \<open>All scripts of the directory with their texts (\<open>None\<close> when one cannot be opened); \<open>False\<close> when an
  exception ends the import.\<close>

fun importLuaScripts :: "pin_yaml \<Rightarrow> path \<Rightarrow> string list \<Rightarrow> u32 set \<Rightarrow> (string \<times> string option) list \<Rightarrow> pin_state \<Rightarrow> bool \<times> pin_state" where
  "importLuaScripts yaml dir entries managed [] st = (True, st)"
| "importLuaScripts yaml dir entries managed (f # fs) st =
     (case import_script yaml dir entries managed f st of
        (False, st) \<Rightarrow> (False, st)
      | (True, st) \<Rightarrow> importLuaScripts yaml dir entries managed fs st)"

section \<open>The catalog mirrors the directory once it was loaded\<close>

text \<open>What is relied on of YAML: an emitted pin is read back, and nothing from an empty text.\<close>

definition yaml_ok :: "pin_yaml \<Rightarrow> bool" where
  "yaml_ok yaml \<longleftrightarrow> pyRead yaml [] = None \<and>
     (\<forall>dep gid. dep \<noteq> 0 \<longrightarrow> gid \<noteq> [] \<longrightarrow> list_all is_digit gid \<longrightarrow>
        pyEmit yaml dep gid \<noteq> [] \<and> pyRead yaml (pyEmit yaml dep gid) = Some (dep, gid))"

text \<open>The pin that the file of a depot holds.\<close>

definition pin_of :: "pin_yaml \<Rightarrow> contents option \<Rightarrow> u32 \<Rightarrow> string option" where
  "pin_of yaml c dep =
     (case c of None \<Rightarrow> None
      | Some bs \<Rightarrow> if bs = [] then None
                   else (case pyRead yaml bs of None \<Rightarrow> None
                         | Some (d, gid) \<Rightarrow> if d = dep \<and> d \<noteq> 0 \<and> gid \<noteq> [] then Some gid else None))"

definition disk_pin :: "pin_yaml \<Rightarrow> path \<Rightarrow> file_system \<Rightarrow> u32 \<Rightarrow> string option" where
  "disk_pin yaml dir s dep = pin_of yaml (fsFiles s (getCatalogPath dir dep)) dep"

definition mirrors :: "pin_yaml \<Rightarrow> path \<Rightarrow> pin_state \<Rightarrow> bool" where
  "mirrors yaml dir st \<longleftrightarrow> psLoaded st \<and> fsOutcomes (psFs st) = [] \<and> psCatalog st = disk_pin yaml dir (psFs st)"

lemma getCatalogPath_inject [simp]: "getCatalogPath dir a = getCatalogPath dir b \<longleftrightarrow> a = b"
  by (simp add: getCatalogPath_def pin_name_def word_unat_eq_iff)

lemma calm_calls:
  assumes "fsOutcomes s = []"
  shows "fs_load p s = (fsFiles s p, s)" "fs_exists p s = (Some (fsFiles s p \<noteq> None), s)"
    "fs_remove p s = (Some (fsFiles s p \<noteq> None), set_file p None s)" "fs_overwrite p c s = (True, set_file p (Some c) s)"
  using assms by (cases s; simp add: fs_load_def fs_exists_def fs_remove_def fs_overwrite_def outcome_of_def call_done_def)+

lemma set_file_outcomes [simp]: "fsOutcomes (set_file p c s) = fsOutcomes s"
  by (simp add: set_file_def)

lemma disk_pin_set_file:
  "disk_pin yaml dir (set_file (getCatalogPath dir d) c s) = (disk_pin yaml dir s)(d := pin_of yaml c d)"
  by (auto simp: disk_pin_def)

definition pin_arguments :: "u32 \<Rightarrow> string \<Rightarrow> bool" where
  "pin_arguments dep gid \<longleftrightarrow> dep \<noteq> 0 \<and> gid \<noteq> [] \<and> list_all is_digit gid"

lemma savePin_calm:
  assumes "fsOutcomes (psFs st) = []" "pin_arguments dep gid"
  shows "savePin yaml dir dep gid st =
    (Some True, note_pin dep gid
      (if Option.bind (fsFiles (psFs st) (getCatalogPath dir dep)) (pyRead yaml) = Some (dep, gid) then psFs st
       else set_file (getCatalogPath dir dep) (Some (pyEmit yaml dep gid)) (psFs st)) st)"
  using assms
  by (cases "fsFiles (psFs st) (getCatalogPath dir dep)")
    (auto simp: savePin_def pin_arguments_def Let_def calm_calls same_pin_def write_pin_def)

lemma savePin_refused: "\<not> pin_arguments dep gid \<Longrightarrow> savePin yaml dir dep gid st = (Some False, st)"
  by (auto simp: savePin_def pin_arguments_def)

lemma savePin_effect:
  assumes "savePin yaml dir dep gid st = (r, st')" "yaml_ok yaml" "fsOutcomes (psFs st) = []"
  shows "psIndex st' = psIndex st" "fsOutcomes (psFs st') = []"
    "if pin_arguments dep gid
     then r = Some True \<and> psLoaded st' \<and> psCatalog st' = (psCatalog st)(dep \<mapsto> gid) \<and>
       disk_pin yaml dir (psFs st') = (disk_pin yaml dir (psFs st))(dep \<mapsto> gid)
     else r = Some False \<and> st' = st"
proof -
  let ?p = "getCatalogPath dir dep" and ?s = "psFs st"
  have "psIndex st' = psIndex st \<and> fsOutcomes (psFs st') = [] \<and>
      (r = Some True \<and> psLoaded st' \<and> psCatalog st' = (psCatalog st)(dep \<mapsto> gid) \<and>
       disk_pin yaml dir (psFs st') = (disk_pin yaml dir (psFs st))(dep \<mapsto> gid))"
    if pa: "pin_arguments dep gid"
  proof -
    have nz: "dep \<noteq> 0" "gid \<noteq> []" "list_all is_digit gid" using pa by (auto simp: pin_arguments_def)
    have emit: "pin_of yaml (Some (pyEmit yaml dep gid)) dep = Some gid"
      using assms(2) nz by (simp add: pin_of_def yaml_ok_def)
    note sv = assms(1) [unfolded savePin_calm [OF assms(3) pa]]
    show ?thesis
    proof (cases "Option.bind (fsFiles ?s ?p) (pyRead yaml) = Some (dep, gid)")
      case True
      then have "disk_pin yaml dir ?s dep = Some gid"
        using nz assms(2) by (auto simp: disk_pin_def pin_of_def bind_eq_Some_conv yaml_ok_def)
      then have "disk_pin yaml dir ?s = (disk_pin yaml dir ?s)(dep \<mapsto> gid)" by auto
      with sv True assms(3) show ?thesis by (auto simp: note_pin_def)
    next
      case False
      with sv assms(3) emit show ?thesis by (auto simp: note_pin_def disk_pin_set_file)
    qed
  qed
  then show "psIndex st' = psIndex st" "fsOutcomes (psFs st') = []"
    "if pin_arguments dep gid
     then r = Some True \<and> psLoaded st' \<and> psCatalog st' = (psCatalog st)(dep \<mapsto> gid) \<and>
       disk_pin yaml dir (psFs st') = (disk_pin yaml dir (psFs st))(dep \<mapsto> gid)
     else r = Some False \<and> st' = st"
    using savePin_refused assms(1,3) by (cases "pin_arguments dep gid"; force)+
qed

lemma savePin_mirrors:
  "mirrors yaml dir st \<Longrightarrow> yaml_ok yaml \<Longrightarrow> savePin yaml dir dep gid st = (r, st') \<Longrightarrow> mirrors yaml dir st'"
  using savePin_effect [of yaml dir dep gid st r st'] by (auto simp: mirrors_def split: if_splits)

lemma retire_one_mirrors: "mirrors yaml dir st \<Longrightarrow> mirrors yaml dir (retire_one dir dep st)"
  by (auto simp: mirrors_def retire_one_def calm_calls disk_pin_set_file pin_of_def)

lemma fold_retire_mirrors: "mirrors yaml dir st \<Longrightarrow> mirrors yaml dir (fold (retire_one dir) deps st)"
  by (induction deps arbitrary: st) (auto intro: retire_one_mirrors)

lemma retire_mirrors: "mirrors yaml dir st \<Longrightarrow> mirrors yaml dir (retireDepotsLocked yaml dir entries deps st)"
proof -
  assume m: "mirrors yaml dir st"
  then have "loadCatalogLocked yaml dir entries st = st" by (simp add: loadCatalogLocked_def mirrors_def)
  with fold_retire_mirrors [OF m] show ?thesis by (simp add: retireDepotsLocked_def)
qed

lemma import_calls_mirrors:
  "yaml_ok yaml \<Longrightarrow> mirrors yaml dir st \<Longrightarrow> import_calls yaml dir cs deps st = (r, st') \<Longrightarrow> mirrors yaml dir st'"
proof (induction cs arbitrary: deps st)
  case (Cons c cs)
  obtain d gid where c: "c = (d, gid)" by fastforce
  show ?case
  proof (cases "from_chars_all u32_max d")
    case None
    then show ?thesis using Cons.prems by (simp add: c)
  next
    case (Some n)
    obtain r1 st1 where s: "savePin yaml dir (of_nat n) gid st = (r1, st1)" by fastforce
    have "mirrors yaml dir st1" by (rule savePin_mirrors [OF Cons.prems(2,1) s])
    with Cons show ?thesis by (cases r1) (auto simp: c Some s)
  qed
qed simp

lemma import_script_mirrors:
  assumes "yaml_ok yaml" "mirrors yaml dir st" "import_script yaml dir entries managed f st = (ok, st')"
  shows "mirrors yaml dir st'"
proof (cases "appIdFromScriptName (fst f) = 0 \<or> appIdFromScriptName (fst f) \<notin> managed \<or> snd f = None")
  case False
  then obtain t where t: "snd f = Some t" by auto
  obtain r st1 where i: "import_calls yaml dir (concat (map line_calls (text_lines t))) [] st = (r, st1)" by fastforce
  have m: "mirrors yaml dir st1" by (rule import_calls_mirrors [OF assms(1,2) i])
  then have "mirrors yaml dir (st1\<lparr>psIndex := j\<rparr>)" for j by (simp add: mirrors_def)
  with assms(3) False m show ?thesis
    by (auto simp: import_script_def Let_def t i intro: retire_mirrors split: option.splits prod.splits)
qed (use assms in \<open>auto simp: import_script_def Let_def split: if_splits\<close>)

lemma import_mirrors:
  "yaml_ok yaml \<Longrightarrow> mirrors yaml dir st \<Longrightarrow> importLuaScripts yaml dir entries managed fs st = (ok, st') \<Longrightarrow> mirrors yaml dir st'"
proof (induction fs arbitrary: st)
  case (Cons f fs)
  obtain b st1 where f: "import_script yaml dir entries managed f st = (b, st1)" by fastforce
  have "mirrors yaml dir st1" by (rule import_script_mirrors [OF Cons.prems(1,2) f])
  with Cons show ?case by (cases b) (auto simp: f)
qed simp

section \<open>A new process\<close>

text \<open>A listing of the directory: it has every pin, and no other name holds one.\<close>

definition listing_ok :: "pin_yaml \<Rightarrow> path \<Rightarrow> file_system \<Rightarrow> string list \<Rightarrow> bool" where
  "listing_ok yaml dir s entries \<longleftrightarrow>
     (\<forall>dep. fsFiles s (getCatalogPath dir dep) \<noteq> None \<longrightarrow> pin_name dep \<in> set entries) \<and>
     (\<forall>n \<in> set entries. \<forall>c d gid. fsFiles s (path_join dir n) = Some c \<longrightarrow> pyRead yaml c = Some (d, gid) \<longrightarrow> n = pin_name d)"

lemma pin_file_name_pin: "pin_file_name (pin_name dep)"
  by (simp add: pin_file_name_def pin_name_def starts_with_def ends_with_def)

lemma pin_name_inject [simp]: "pin_name a = pin_name b \<longleftrightarrow> a = b"
  by (simp add: pin_name_def word_unat_eq_iff)

lemma load_pin_calm:
  assumes "fsOutcomes s = []" "\<forall>c d gid. fsFiles s (path_join dir n) = Some c \<longrightarrow> pyRead yaml c = Some (d, gid) \<longrightarrow> n = pin_name d"
  shows "load_pin yaml dir n (cat, s) =
    ((\<lambda>d. if n = pin_name d \<and> disk_pin yaml dir s d \<noteq> None then disk_pin yaml dir s d else cat d), s)"
proof (cases "\<exists>c d gid. pin_file_name n \<and> fsFiles s (path_join dir n) = Some c \<and> c \<noteq> [] \<and> pyRead yaml c = Some (d, gid) \<and> d \<noteq> 0 \<and> gid \<noteq> []")
  case True
  then obtain c d gid where c: "pin_file_name n" "fsFiles s (path_join dir n) = Some c" "c \<noteq> []" "pyRead yaml c = Some (d, gid)"
    "d \<noteq> 0" "gid \<noteq> []" by blast
  have n: "n = pin_name d" using assms(2) c(2,4) by blast
  have "disk_pin yaml dir s d = Some gid" using c by (simp add: disk_pin_def pin_of_def getCatalogPath_def n)
  with c show ?thesis by (auto simp: load_pin_def calm_calls assms(1) n fun_eq_iff)
next
  case False
  have "disk_pin yaml dir s d = None" if "n = pin_name d" for d
    using False pin_file_name_pin [of d] that by (auto simp: disk_pin_def pin_of_def getCatalogPath_def split: option.splits)
  moreover have "load_pin yaml dir n (cat, s) = (cat, s)"
    using False by (auto simp: load_pin_def calm_calls assms(1) split: option.splits)
  ultimately show ?thesis by (auto simp: fun_eq_iff)
qed

lemma load_all:
  assumes "fsOutcomes s = []"
  shows "\<forall>n \<in> set ns. \<forall>c d gid. fsFiles s (path_join dir n) = Some c \<longrightarrow> pyRead yaml c = Some (d, gid) \<longrightarrow> n = pin_name d \<Longrightarrow>
    fold (load_pin yaml dir) ns (cat, s) =
      ((\<lambda>d. if pin_name d \<in> set ns \<and> disk_pin yaml dir s d \<noteq> None then disk_pin yaml dir s d else cat d), s)"
proof (induction ns arbitrary: cat)
  case (Cons n ns)
  then show ?case by (simp add: load_pin_calm [OF assms]) (auto simp: fun_eq_iff)
qed simp

definition fresh :: "file_system \<Rightarrow> pin_state" where
  "fresh s = \<lparr>psCatalog = Map.empty, psLoaded = False, psIndex = empty_index, psFs = s\<rparr>"

lemma fresh_mirrors:
  assumes "fsOutcomes s = []" "listing_ok yaml dir s entries"
  shows "mirrors yaml dir (loadCatalogLocked yaml dir entries (fresh s))"
proof -
  have "fold (load_pin yaml dir) entries (Map.empty, s) = (disk_pin yaml dir s, s)"
    using assms(2) unfolding listing_ok_def
    by (subst load_all [OF assms(1)]) (auto simp: fun_eq_iff disk_pin_def pin_of_def split: option.splits)
  then show ?thesis by (simp add: loadCatalogLocked_def fresh_def mirrors_def assms(1))
qed

lemma fresh_fs: "fsOutcomes s = [] \<Longrightarrow> listing_ok yaml dir s entries \<Longrightarrow> psFs (loadCatalogLocked yaml dir entries (fresh s)) = s"
  using load_all [of s entries dir yaml Map.empty] by (simp add: loadCatalogLocked_def fresh_def listing_ok_def)

datatype pin_op = OpSave u32 string | OpRetire "u32 list" | OpForget u32 | OpImport "u32 set" "(string \<times> string option) list"

fun pin_step :: "pin_yaml \<Rightarrow> path \<Rightarrow> string list \<Rightarrow> pin_op \<Rightarrow> pin_state \<Rightarrow> pin_state" where
  "pin_step yaml dir entries (OpSave dep gid) st = snd (savePin yaml dir dep gid st)"
| "pin_step yaml dir entries (OpRetire deps) st = retireDepots yaml dir entries deps st"
| "pin_step yaml dir entries (OpForget app) st = snd (forgetApp_pins app st)"
| "pin_step yaml dir entries (OpImport managed fs) st = snd (importLuaScripts yaml dir entries managed fs st)"

lemma pin_step_mirrors:
  assumes "yaml_ok yaml" "mirrors yaml dir st"
  shows "mirrors yaml dir (pin_step yaml dir entries op st)"
proof (cases op)
  case (OpSave dep gid)
  then show ?thesis using savePin_mirrors [OF assms(2,1)] by (cases "savePin yaml dir dep gid st") auto
next
  case (OpRetire deps)
  then show ?thesis using retire_mirrors [OF assms(2)] assms(2) by (auto simp: retireDepots_def)
next
  case (OpForget app)
  then show ?thesis using assms(2) by (auto simp: forgetApp_pins_def mirrors_def split: prod.splits)
next
  case (OpImport managed fs)
  then show ?thesis using import_mirrors [OF assms] by (cases "importLuaScripts yaml dir entries managed fs st") auto
qed

lemma pin_steps_mirror:
  "yaml_ok yaml \<Longrightarrow> mirrors yaml dir st \<Longrightarrow> mirrors yaml dir (fold (pin_step yaml dir entries) ops st)"
  by (induction ops arbitrary: st) (auto intro: pin_step_mirrors)


text \<open>C23: A pin that is saved before anything was looked up marks the catalog as loaded: every other pin of the
  directory is invisible to this process.\<close>

theorem early_save_hides_pins:
  assumes "savePin yaml dir dep gid (fresh s) = (Some True, st)" "dep' \<noteq> dep"
  shows "fst (getPinnedGid yaml dir entries dep' st) = []"
proof -
  have "psLoaded st \<and> psCatalog st = [dep \<mapsto> gid]"
    using assms(1) by (auto simp: savePin_def fresh_def Let_def write_pin_def note_pin_def split: if_splits option.splits bool.splits prod.splits)
  then show ?thesis using assms(2) by (simp add: getPinnedGid_def Let_def loadCatalogLocked_def)
qed

definition plain_yaml :: pin_yaml where
  "plain_yaml = \<lparr>pyRead = (\<lambda>c. if c = [] then None
       else Some (of_nat (length (takeWhile (\<lambda>b. b = 0) c)), map (\<lambda>b. char_of (unat b)) (tl (dropWhile (\<lambda>b. b = 0) c)))),
     pyEmit = (\<lambda>dep gid. replicate (unat dep) 0 @ 1 # map (\<lambda>c. of_nat (of_char c)) gid)\<rparr>"

lemma plain_yaml_ok: "yaml_ok plain_yaml"
proof -
  have "char_of (unat (of_nat (of_char c) :: u8)) = (c :: char)" for c
    using char_code_less [of c] by (simp add: char_code_def unsigned_of_nat take_bit_nat_eq_self)
  moreover have "takeWhile (\<lambda>b. b = 0) (replicate n (0 :: u8) @ 1 # xs) = replicate n 0"
    "dropWhile (\<lambda>b. b = 0) (replicate n (0 :: u8) @ 1 # xs) = 1 # xs" for n xs
    by (induction n) auto
  ultimately show ?thesis by (simp add: yaml_ok_def plain_yaml_def comp_def)
qed


lemma early_save_hides_pins_witness:
  "let s = \<lparr>fsFiles = [getCatalogPath ''c'' 7 \<mapsto> pyEmit plain_yaml 7 ''5''], fsOutcomes = [], fsPast = []\<rparr>;
       st = snd (savePin plain_yaml ''c'' 8 ''6'' (fresh s))
   in fst (getPinnedGid plain_yaml ''c'' [pin_name 7] 7 (fresh s)) = ''5'' \<and>
      fst (getPinnedGid plain_yaml ''c'' [pin_name 7, pin_name 8] 7 st) = []"
proof -
  let ?s = "\<lparr>fsFiles = [getCatalogPath ''c'' 7 \<mapsto> pyEmit plain_yaml 7 ''5''], fsOutcomes = [], fsPast = []\<rparr> :: file_system"
  have pa: "pin_arguments 7 ''5''" "pin_arguments 8 ''6''" by (simp_all add: pin_arguments_def is_digit_def char_code_def)
  have rd: "pyRead plain_yaml (pyEmit plain_yaml 7 ''5'') = Some (7, ''5'')" "pyEmit plain_yaml 7 ''5'' \<noteq> []"
    using plain_yaml_ok pa by (auto simp: yaml_ok_def pin_arguments_def)
  then have li: "listing_ok plain_yaml ''c'' ?s [pin_name 7]"
    by (auto simp: listing_ok_def getCatalogPath_def split: if_splits)
  from li fresh_mirrors [of ?s plain_yaml "''c''" "[pin_name 7]"] have m: "mirrors plain_yaml ''c'' (loadCatalogLocked plain_yaml ''c'' [pin_name 7] (fresh ?s))"
    by simp
  have "psFs (loadCatalogLocked plain_yaml ''c'' [pin_name 7] (fresh ?s)) = ?s"
    by (rule fresh_fs [OF _ li]) simp
  with m rd have "fst (getPinnedGid plain_yaml ''c'' [pin_name 7] 7 (fresh ?s)) = ''5''"
    by (simp add: getPinnedGid_def Let_def mirrors_def disk_pin_def pin_of_def)
  moreover obtain st where "savePin plain_yaml ''c'' 8 ''6'' (fresh ?s) = (Some True, st)"
    using savePin_calm [of "fresh ?s" 8 "''6''" plain_yaml "''c''"] pa by (simp add: fresh_def)
  ultimately show ?thesis using early_save_hides_pins [of plain_yaml "''c''" 8 "''6''" ?s st 7 "[pin_name 7, pin_name 8]"] by simp
qed

section \<open>What an import leaves in the index\<close>

definition script_calls :: "string \<Rightarrow> (string \<times> string) list" where
  "script_calls t = concat (map line_calls (text_lines t))"

definition script_pins :: "u32 set \<Rightarrow> string \<times> string option \<Rightarrow> (u32 \<times> u32 list) option" where
  "script_pins managed f =
     (let app = appIdFromScriptName (fst f) in
      if app = 0 \<or> app \<notin> managed then None
      else map_option (\<lambda>t. (app, map (\<lambda>c. of_nat (dec_value (fst c))) (script_calls t))) (snd f))"

lemma savePin_index: "psIndex (snd (savePin yaml dir dep gid st)) = psIndex st"
  by (auto simp: savePin_def Let_def write_pin_def note_pin_def split: option.split bool.split prod.split)

lemma retire_index: "psIndex (retireDepotsLocked yaml dir entries deps st) = psIndex st"
proof -
  have one: "psIndex (retire_one dir d s) = psIndex s" for d s by (auto simp: retire_one_def split: option.split prod.split)
  have "psIndex (fold (retire_one dir) deps s) = psIndex s" for s by (induction deps arbitrary: s) (auto simp: one)
  then show ?thesis by (auto simp: retireDepotsLocked_def loadCatalogLocked_def split: prod.split)
qed

lemma import_calls_result:
  "import_calls yaml dir cs deps st = (Some out, st') \<Longrightarrow>
     out = deps @ map (\<lambda>c. of_nat (dec_value (fst c))) cs \<and> psIndex st' = psIndex st \<and> (\<forall>c \<in> set cs. dec_value (fst c) \<le> u32_max)"
proof (induction cs arbitrary: deps st)
  case (Cons c cs)
  obtain d gid where c: "c = (d, gid)" by fastforce
  obtain n where n: "from_chars_all u32_max d = Some n" using Cons.prems by (auto simp: c split: option.splits)
  then have v: "dec_value d = n" "n \<le> u32_max" by (auto simp: from_chars_all_iff)
  obtain r1 st1 where s: "savePin yaml dir (of_nat n) gid st = (r1, st1)" by fastforce
  have i: "psIndex st1 = psIndex st" using savePin_index [of yaml dir "of_nat n" gid st] s by simp
  from Cons.prems have "import_calls yaml dir cs (deps @ [of_nat n]) st1 = (Some out, st')"
    by (auto simp: c n s split: option.splits)
  from Cons.IH [OF this] v i show ?case by (simp add: c)
qed simp

lemma import_script_index:
  assumes "import_script yaml dir entries managed f st = (True, st')" "index_ok (psIndex st)"
  shows "index_ok (psIndex st')" "names (psIndex st') = (case script_pins managed f of None \<Rightarrow> names (psIndex st)
    | Some (a, deps) \<Rightarrow> names (psIndex st) - {a} \<times> UNIV \<union> {a} \<times> (set deps - {0}))"
    "a \<in> managed \<Longrightarrow> a \<noteq> 0 \<Longrightarrow> appIdFromScriptName (fst f) = a \<Longrightarrow> snd f = Some t \<Longrightarrow> c \<in> set (script_calls t) \<Longrightarrow>
      dec_value (fst c) \<le> u32_max"
proof -
  let ?a = "appIdFromScriptName (fst f)"
  have "index_ok (psIndex st') \<and> names (psIndex st') = (case script_pins managed f of None \<Rightarrow> names (psIndex st)
    | Some (a, deps) \<Rightarrow> names (psIndex st) - {a} \<times> UNIV \<union> {a} \<times> (set deps - {0})) \<and>
    (?a \<in> managed \<and> ?a \<noteq> 0 \<and> snd f = Some t \<and> c \<in> set (script_calls t) \<longrightarrow> dec_value (fst c) \<le> u32_max)"
  proof (cases "?a = 0 \<or> ?a \<notin> managed \<or> snd f = None")
    case True
    then show ?thesis using assms by (auto simp: import_script_def script_pins_def Let_def split: if_splits)
  next
    case False
    then obtain t' where t: "snd f = Some t'" by auto
    obtain r st1 where i: "import_calls yaml dir (script_calls t') [] st = (r, st1)" by fastforce
    then obtain out where r: "r = Some out" using assms(1) False
      by (auto simp: import_script_def Let_def t script_calls_def split: option.splits)
    note ic = import_calls_result [OF i [unfolded r]]
    obtain rel j where j: "index_replace ?a out (psIndex st1) = (rel, j)" by fastforce
    have "psIndex st' = j" using assms(1) False i j
      by (auto simp: import_script_def Let_def t script_calls_def [symmetric] r retire_index)
    moreover from ic have "index_ok (psIndex st1)" using assms(2) by simp
    ultimately show ?thesis using index_replace_ok [OF _ _ j] ic False
      by (auto simp: script_pins_def Let_def t)
  qed
  then show "index_ok (psIndex st')" "names (psIndex st') = (case script_pins managed f of None \<Rightarrow> names (psIndex st)
    | Some (a, deps) \<Rightarrow> names (psIndex st) - {a} \<times> UNIV \<union> {a} \<times> (set deps - {0}))"
    "a \<in> managed \<Longrightarrow> a \<noteq> 0 \<Longrightarrow> ?a = a \<Longrightarrow> snd f = Some t \<Longrightarrow> c \<in> set (script_calls t) \<Longrightarrow> dec_value (fst c) \<le> u32_max"
    by blast+
qed

text \<open>C15: An import that returns leaves for every app with a readable managed script exactly the depots of its last
  script, and the owners of the other apps as they were.\<close>

theorem import_exact:
  assumes "importLuaScripts yaml dir entries managed fs st = (True, st')" "index_ok (psIndex st)"
  shows "index_ok (psIndex st') \<and>
    (\<forall>a. {d. (a, d) \<in> names (psIndex st')} =
       (case map_of (rev (List.map_filter (script_pins managed) fs)) a of
          None \<Rightarrow> {d. (a, d) \<in> names (psIndex st)} | Some deps \<Rightarrow> set deps - {0}))"
  using assms
proof (induction fs arbitrary: st)
  case (Cons f fs)
  obtain b st1 where f: "import_script yaml dir entries managed f st = (b, st1)" by fastforce
  then have b: "b = True" and rest: "importLuaScripts yaml dir entries managed fs st1 = (True, st')"
    using Cons.prems(1) by (auto split: bool.splits)
  note one = import_script_index(1,2) [OF f [unfolded b] Cons.prems(2)]
  note IH = Cons.IH [OF rest one(1)]
  show ?case
  proof (cases "script_pins managed f")
    case None
    with IH one(2) show ?thesis by (simp add: map_filter_simps split: option.split)
  next
    case (Some p)
    obtain a0 deps where p: "p = (a0, deps)" by fastforce
    have "{d. (a, d) \<in> names (psIndex st1)} = (if a = a0 then set deps - {0} else {d. (a, d) \<in> names (psIndex st)})" for a
      using one(2) by (auto simp: Some p)
    with IH show ?thesis by (auto simp: map_filter_simps Some p map_add_def map_of_append split: option.splits)
  qed
qed (simp add: map_filter_simps)

text \<open>A depot number that needs more than 32 bits in any managed script ends the import with an exception.\<close>

theorem oversized_depot_throws:
  assumes "(name, Some t) \<in> set fs" "appIdFromScriptName name \<in> managed" "appIdFromScriptName name \<noteq> 0"
    "c \<in> set (script_calls t)" "dec_value (fst c) > u32_max"
  shows "\<not> fst (importLuaScripts yaml dir entries managed fs st)"
  using assms(1)
proof (induction fs arbitrary: st)
  case (Cons f fs)
  obtain b st1 where f: "import_script yaml dir entries managed f st = (b, st1)" by fastforce
  show ?case
  proof (cases "f = (name, Some t)")
    case True
    have "\<not> b"
    proof
      assume b: b
      obtain r st2 where i: "import_calls yaml dir (script_calls t) [] st = (r, st2)" by fastforce
      then obtain out where "r = Some out" using f b assms(2,3)
        by (auto simp: import_script_def Let_def True script_calls_def split: option.splits)
      with import_calls_result [of yaml dir "script_calls t" "[]" st out st2] i assms(4,5) show False by fastforce
    qed
    then show ?thesis by (simp add: f)
  next
    case False
    with Cons show ?thesis by (cases b) (auto simp: f)
  qed
qed simp

definition sample_script :: "string \<Rightarrow> string" where
  "sample_script d = ''setManifestid('' @ d @ '', '' @ [quote] @ ''5'' @ [quote] @ '')''"

lemma oversized_depot_throws_witness:
  "\<not> fst (importLuaScripts plain_yaml ''c'' [] {9} [(''9.lua'', Some (sample_script ''4294967296''))]
     (fresh \<lparr>fsFiles = Map.empty, fsOutcomes = [], fsPast = []\<rparr>))"
proof -
  let ?t = "sample_script ''4294967296''"
  have c: "script_calls ?t = [(''4294967296'', ''5'')]" by code_simp
  have n: "appIdFromScriptName ''9.lua'' = 9" by (subst script_name_iff) (auto simp: is_digit_def char_code_def dec_value_def digit_val_def intro: exI [of _ "''9''"])
  have v: "dec_value ''4294967296'' > u32_max" by (simp add: dec_value_def digit_val_def char_code_def u32_max_def)
  show ?thesis
    by (rule oversized_depot_throws [where name = "''9.lua''" and t = ?t and c = "(''4294967296'', ''5'')"]) (simp_all add: c n v)
qed

lemma import_exact_witness:
  "let r = importLuaScripts plain_yaml ''c'' [] {9} [(''9.lua'', Some (sample_script ''7''))] (fresh \<lparr>fsFiles = Map.empty, fsOutcomes = [], fsPast = []\<rparr>)
   in fst r \<and> {d. (9, d) \<in> names (psIndex (snd r))} = {7}"
proof -
  let ?t = "sample_script ''7''"
  let ?st = "fresh \<lparr>fsFiles = Map.empty, fsOutcomes = [], fsPast = []\<rparr>"
  let ?r = "importLuaScripts plain_yaml ''c'' [] {9} [(''9.lua'', Some ?t)] ?st"
  have c: "script_calls ?t = [(''7'', ''5'')]" by code_simp
  have n: "appIdFromScriptName ''9.lua'' = 9" by (subst script_name_iff) (auto simp: is_digit_def char_code_def dec_value_def digit_val_def intro: exI [of _ "''9''"])
  have seven: "from_chars_all u32_max ''7'' = Some 7"
    by (simp add: from_chars_all_iff is_digit_def char_code_def dec_value_def digit_val_def u32_max_def)
  have pa: "pin_arguments 7 ''5''" by (simp add: pin_arguments_def is_digit_def char_code_def)
  have ok: "fst ?r" using savePin_calm [OF _ pa, of ?st plain_yaml "''c''"]
    by (simp add: import_script_def Let_def n c [unfolded script_calls_def] seven fresh_def split: prod.split)
  obtain b st' where r: "?r = (b, st')" by fastforce
  have p: "script_pins {9} (''9.lua'', Some ?t) = Some (9, [7])"
    unfolding script_pins_def fst_conv snd_conv n Let_def option.map(2) c by (simp add: dec_value_def digit_val_def char_code_def)
  have "index_ok (psIndex ?st)" using index_empty by (simp add: fresh_def)
  from import_exact [OF _ this, of plain_yaml "''c''" "[]" "{9}" "[(''9.lua'', Some ?t)]" st'] ok r
  have "{d. (9, d) \<in> names (psIndex st')} = {7}" by (simp add: map_filter_simps p)
  with ok r show ?thesis by simp
qed

end
