(* ===== verification/ManifestStore.thy ===== *)
theory ManifestStore
  imports ManifestBytes Quarantine ConfigDiscovery
begin

text \<open>
  The durable store of depot manifests, \<open>src/feats/manifeststore_io.hpp\<close>, \<open>src/feats/manifeststore.cpp\<close> and
  the name parser of \<open>src/manifest_index.hpp\<close>, over the file system of the cache pair: every call may fail in
  every run. Directory listings with modification times, the process id and the two directories are arguments.
  Creating a directory is a call that only succeeds or fails.
\<close>

section \<open>Names\<close>

text \<open>\<open>ManifestIndex::parseManifestName\<close>.\<close>

definition manifest_ext :: string where "manifest_ext = ''.manifest''"

definition parse_manifest_index :: "string \<Rightarrow> (u32 \<times> u64) option" where
  "parse_manifest_index name =
     (if length name \<le> length manifest_ext \<or> drop (length name - length manifest_ext) name \<noteq> manifest_ext then None
      else (let st = take (length name - length manifest_ext) name in
            case find_from ''_'' st 0 of
              None \<Rightarrow> None
            | Some sep \<Rightarrow>
                if find_from ''_'' st (sep + 1) \<noteq> None then None
                else (let depotText = take sep st; gidText = drop (sep + 1) st in
                      if depotText = [] \<or> gidText = [] then None
                      else (case (from_chars_all u32_max depotText, from_chars_all u64_max gidText) of
                              (Some d, Some g) \<Rightarrow> if d = 0 \<or> g = 0 then None else Some (of_nat d, of_nat g)
                            | _ \<Rightarrow> None))))"

text \<open>\<open>ManifestStoreIO::parseManifestName\<close>.\<close>

definition parse_manifest_io :: "string \<Rightarrow> (u32 \<times> u64) option" where
  "parse_manifest_io name =
     (if \<not> ends_with manifest_ext name then None
      else (let st = take (length name - length manifest_ext) name in
            case find_from ''_'' st 0 of
              None \<Rightarrow> None
            | Some sep \<Rightarrow>
                if sep = 0 \<or> sep + 1 \<ge> length st \<or> find_from ''_'' st (sep + 1) \<noteq> None then None
                else (case from_chars_all u64_max (take sep st) of
                        None \<Rightarrow> None
                      | Some d \<Rightarrow>
                          if d = 0 \<or> d > u32_max then None
                          else (case from_chars_all u64_max (drop (sep + 1) st) of
                                  None \<Rightarrow> None
                                | Some g \<Rightarrow> if g = 0 then None else Some (of_nat d, of_nat g)))))"

definition manifestName :: "u32 \<Rightarrow> u64 \<Rightarrow> string" where
  "manifestName dep gid = to_dec (unat dep) @ ''_'' @ to_dec (unat gid) @ manifest_ext"

text \<open>\<open>name.rfind(s)\<close>: the last index at which \<open>s\<close> starts.\<close>

definition rfind :: "string \<Rightarrow> string \<Rightarrow> nat option" where
  "rfind p s = (case filter (\<lambda>i. starts_with p (drop i s)) (rev [0..<Suc (length s)]) of [] \<Rightarrow> None | i # _ \<Rightarrow> Some i)"

text \<open>\<open>std::stoull\<close>: the value of the longest number at the head, \<open>None\<close> when it throws.\<close>

definition gidFromName :: "string \<Rightarrow> string \<Rightarrow> u64" where
  "gidFromName name prefix =
     (if \<not> starts_with prefix name then 0
      else (case rfind manifest_ext name of
              None \<Rightarrow> 0
            | Some dot \<Rightarrow>
                if dot + 9 \<noteq> length name then 0
                else (let gidStr = take (dot - length prefix) (drop (length prefix) name) in
                      if gidStr = [] then 0
                      else (case read_unsigned u64_max gidStr of None \<Rightarrow> 0 | Some (v, _) \<Rightarrow> of_nat v))))"

section \<open>Files\<close>

record store_state =
  msFs :: file_system
  msCounter :: nat
  msSizes :: "u32 \<times> u64 \<rightharpoonup> u64"

definition on_fs :: "(file_system \<Rightarrow> 'a \<times> file_system) \<Rightarrow> store_state \<Rightarrow> 'a \<times> store_state" where
  "on_fs f st = (case f (msFs st) of (r, s) \<Rightarrow> (r, st\<lparr>msFs := s\<rparr>))"

definition uniqueTempPath :: "nat \<Rightarrow> path \<Rightarrow> store_state \<Rightarrow> path \<times> store_state" where
  "uniqueTempPath pid target st =
     (target @ ''.slsteam_tmp.'' @ to_dec pid @ ''.'' @ to_dec (msCounter st), st\<lparr>msCounter := msCounter st + 1\<rparr>)"

text \<open>A call that answers from the contents of a file, \<open>None\<close> when it fails or there is none.\<close>

definition fs_contents :: "path \<Rightarrow> file_system \<Rightarrow> contents option \<times> file_system" where
  "fs_contents p s = (case outcome_of s of Works \<Rightarrow> (fsFiles s p, call_done s) | Fails _ \<Rightarrow> (None, call_done s))"

definition read_magic :: "contents \<Rightarrow> u32" where
  "read_magic c = of_nat (le_decode (take 4 c))"

definition isValidManifest :: "path \<Rightarrow> file_system \<Rightarrow> bool \<times> file_system" where
  "isValidManifest p s =
     (case fs_exists p s of
        (Some True, s) \<Rightarrow>
          (case fs_contents p s of
             (None, s) \<Rightarrow> (False, s)
           | (Some c, s) \<Rightarrow>
               if length c < 4 then (False, s)
               else (case fs_contents p s of
                       (None, s) \<Rightarrow> (False, s)
                     | (Some c, s) \<Rightarrow> if length c < 4 then (False, s) else (read_magic c = kPayloadMagic, s)))
      | (_, s) \<Rightarrow> (False, s))"

definition fs_mkdirs :: "file_system \<Rightarrow> bool \<times> file_system" where
  "fs_mkdirs s = (outcome_of s = Works, call_done s)"

definition atomicCopy :: "nat \<Rightarrow> path \<Rightarrow> path \<Rightarrow> store_state \<Rightarrow> bool \<times> store_state" where
  "atomicCopy pid source target st =
     (case on_fs fs_mkdirs st of
        (False, st) \<Rightarrow> (False, st)
      | (True, st) \<Rightarrow>
          (case uniqueTempPath pid target st of
             (tmp, st) \<Rightarrow>
               (case on_fs (fs_copy source tmp) st of
                  (False, st) \<Rightarrow> (False, snd (on_fs (fs_remove tmp) st))
                | (True, st) \<Rightarrow>
                    (case on_fs (fs_rename tmp target) st of
                       (False, st) \<Rightarrow> (False, snd (on_fs (fs_remove tmp) st))
                     | (True, st) \<Rightarrow> (True, st)))))"

definition restore_manifest :: "nat \<Rightarrow> path \<Rightarrow> path \<Rightarrow> store_state \<Rightarrow> bool \<times> store_state" where
  "restore_manifest pid stored staged st =
     (case on_fs (isValidManifest stored) st of
        (False, st) \<Rightarrow> (False, st)
      | (True, st) \<Rightarrow>
          (case on_fs (isValidManifest staged) st of
             (True, st) \<Rightarrow> (True, st)
           | (False, st) \<Rightarrow>
               (case on_fs (fs_remove staged) st of
                  (_, st) \<Rightarrow>
                    (case atomicCopy pid stored staged st of
                       (False, st) \<Rightarrow> (False, st)
                     | (True, st) \<Rightarrow> on_fs (isValidManifest staged) st))))"

text \<open>The copy that must be valid afterwards.\<close>

definition copy_valid :: "nat \<Rightarrow> path \<Rightarrow> path \<Rightarrow> store_state \<Rightarrow> bool \<times> store_state" where
  "copy_valid pid source target st =
     (case atomicCopy pid source target st of (False, st) \<Rightarrow> (False, st) | (True, st) \<Rightarrow> on_fs (isValidManifest target) st)"

definition publish_manifest :: "nat \<Rightarrow> path \<Rightarrow> path \<Rightarrow> path \<Rightarrow> store_state \<Rightarrow> bool \<times> store_state" where
  "publish_manifest pid source stored staged st =
     (case on_fs (isValidManifest source) st of
        (False, st) \<Rightarrow> (False, st)
      | (True, st) \<Rightarrow>
          (case copy_valid pid source stored st of
             (False, st) \<Rightarrow> (False, st)
           | (True, st) \<Rightarrow> restore_manifest pid stored staged st))"

record publish_result =
  prStaged :: bool
  prArchived :: bool

definition publishBestEffort :: "nat \<Rightarrow> path \<Rightarrow> path \<Rightarrow> path \<Rightarrow> store_state \<Rightarrow> publish_result \<times> store_state" where
  "publishBestEffort pid source stored staged st =
     (case on_fs (isValidManifest source) st of
        (False, st) \<Rightarrow> (\<lparr>prStaged = False, prArchived = False\<rparr>, st)
      | (True, st) \<Rightarrow>
          (case copy_valid pid source stored st of
             (True, st) \<Rightarrow> (case restore_manifest pid stored staged st of (r, st) \<Rightarrow> (\<lparr>prStaged = r, prArchived = True\<rparr>, st))
           | (False, st) \<Rightarrow>
               (case on_fs (fs_remove staged) st of
                  (_, st) \<Rightarrow> (case copy_valid pid source staged st of (r, st) \<Rightarrow> (\<lparr>prStaged = r, prArchived = False\<rparr>, st)))))"

section \<open>The newest manifest of every depot\<close>

text \<open>The entries in the order of the directory, with the modification time or \<open>None\<close> when it cannot be read.\<close>

definition observe_manifest :: "path \<Rightarrow> string \<times> int option \<Rightarrow> (u32 \<rightharpoonup> u64 \<times> int) \<times> file_system \<Rightarrow> (u32 \<rightharpoonup> u64 \<times> int) \<times> file_system" where
  "observe_manifest dir = (\<lambda>(name, mtime) (obs, s).
     (case parse_manifest_io name of
        None \<Rightarrow> (obs, s)
      | Some (dep, gid) \<Rightarrow>
          (case isValidManifest (path_join dir name) s of
             (False, s) \<Rightarrow> (obs, s)
           | (True, s) \<Rightarrow>
               (case mtime of
                  None \<Rightarrow> (obs, s)
                | Some t \<Rightarrow>
                    (case obs dep of
                       None \<Rightarrow> (obs(dep \<mapsto> (gid, t)), s)
                     | Some (_, t0) \<Rightarrow> if t > t0 then (obs(dep \<mapsto> (gid, t)), s) else (obs, s))))))"

definition newestValidManifestGids :: "path \<Rightarrow> (string \<times> int option) list \<Rightarrow> file_system \<Rightarrow> (u32 \<rightharpoonup> u64) \<times> file_system" where
  "newestValidManifestGids dir entries s =
     (case fold (observe_manifest dir) entries (Map.empty, s) of (obs, s) \<Rightarrow> (map_option fst \<circ> obs, s))"

section \<open>The preferred manifest\<close>

definition preferredPath :: "path \<Rightarrow> u32 \<Rightarrow> path" where
  "preferredPath dir dep = path_join dir (''.preferred_'' @ to_dec (unat dep))"

definition char_bytes :: "string \<Rightarrow> bytes" where
  "char_bytes s = map (\<lambda>c. of_nat (char_code c)) s"

definition bytes_text :: "bytes \<Rightarrow> string" where
  "bytes_text bs = map (\<lambda>b. char_of (unat b)) bs"

text \<open>Writing a new file: a failure may come before or after it was created, and leaves any bytes.\<close>

definition fs_write_new :: "path \<Rightarrow> contents \<Rightarrow> file_system \<Rightarrow> bool option \<times> file_system" where
  "fs_write_new p data s =
     (case outcome_of s of
        Works \<Rightarrow> (Some True, set_file p (Some data) (call_done s))
      | Fails None \<Rightarrow> (None, call_done s)
      | Fails (Some junk) \<Rightarrow> (Some False, set_file p (Some junk) (call_done s)))"

definition writePreferred :: "nat \<Rightarrow> path \<Rightarrow> u32 \<Rightarrow> u64 \<Rightarrow> store_state \<Rightarrow> bool \<times> store_state" where
  "writePreferred pid dir dep gid st =
     (if dep = 0 \<or> gid = 0 then (False, st)
      else (case on_fs fs_mkdirs st of
              (False, st) \<Rightarrow> (False, st)
            | (True, st) \<Rightarrow>
                (case uniqueTempPath pid (preferredPath dir dep) st of
                   (tmp, st) \<Rightarrow>
                     (case on_fs (fs_write_new tmp (char_bytes (to_dec (unat gid) @ [CHR 0x0A]))) st of
                        (None, st) \<Rightarrow> (False, st)
                      | (Some False, st) \<Rightarrow> (False, snd (on_fs (fs_remove tmp) st))
                      | (Some True, st) \<Rightarrow>
                          (case on_fs (fs_rename tmp (preferredPath dir dep)) st of
                             (False, st) \<Rightarrow> (False, snd (on_fs (fs_remove tmp) st))
                           | (True, st) \<Rightarrow> (True, st))))))"

definition readPreferred :: "path \<Rightarrow> u32 \<Rightarrow> u64 \<Rightarrow> file_system \<Rightarrow> u64 \<times> file_system" where
  "readPreferred dir dep excludeGid s =
     (if dep = 0 then (0, s)
      else (case fs_contents (preferredPath dir dep) s of
              (None, s) \<Rightarrow> (0, s)
            | (Some c, s) \<Rightarrow>
                (case text_lines (bytes_text c) of
                   [] \<Rightarrow> (0, s)
                 | t # _ \<Rightarrow>
                     if t = [] then (0, s)
                     else (case read_unsigned u64_max t of
                             Some (v, []) \<Rightarrow> ((if of_nat v \<noteq> (0::u64) \<and> of_nat v \<noteq> excludeGid then of_nat v else 0), s)
                           | _ \<Rightarrow> (0, s)))))"

section \<open>The store\<close>

record store_dirs =
  stRoot :: path
  stStore :: path
  stPid :: nat

definition cache_file :: "store_dirs \<Rightarrow> string \<Rightarrow> path" where
  "cache_file d name = path_join (path_join (stRoot d) ''depotcache'') name"

definition store_file :: "store_dirs \<Rightarrow> string \<Rightarrow> path" where
  "store_file d name = path_join (stStore d) name"

definition depot_prefix :: "u32 \<Rightarrow> string" where
  "depot_prefix dep = to_dec (unat dep) @ ''_''"

definition archive_one :: "store_dirs \<Rightarrow> u32 \<Rightarrow> string \<Rightarrow> store_state \<Rightarrow> store_state" where
  "archive_one d dep name st =
     (if gidFromName name (depot_prefix dep) = 0 then st
      else (case on_fs (isValidManifest (cache_file d name)) st of
              (False, st) \<Rightarrow> st
            | (True, st) \<Rightarrow>
                (case on_fs (isValidManifest (store_file d name)) st of
                   (True, st) \<Rightarrow> st
                 | (False, st) \<Rightarrow> snd (atomicCopy (stPid d) (cache_file d name) (store_file d name) st))))"

text \<open>Entries with whether each is a regular file; \<open>None\<close> is an error, which stays set and ends the loop.\<close>

fun archive_loop :: "store_dirs \<Rightarrow> u32 \<Rightarrow> (string \<times> bool option) list \<Rightarrow> store_state \<Rightarrow> store_state" where
  "archive_loop d dep [] st = st"
| "archive_loop d dep ((name, regular) # es) st =
     (case regular of
        None \<Rightarrow> st
      | Some False \<Rightarrow> archive_loop d dep es st
      | Some True \<Rightarrow> archive_loop d dep es (archive_one d dep name st))"

text \<open>The entries of \<open>depotcache\<close>, \<open>None\<close> when it is no directory.\<close>

definition archiveDepot :: "store_dirs \<Rightarrow> (string \<times> bool option) list option \<Rightarrow> u32 \<Rightarrow> store_state \<Rightarrow> store_state" where
  "archiveDepot d entries dep st =
     (if stRoot d = [] \<or> stStore d = [] then st
      else (case entries of None \<Rightarrow> st | Some es \<Rightarrow> archive_loop d dep es st))"

definition archiveDepots :: "store_dirs \<Rightarrow> (string \<times> bool option) list option \<Rightarrow> u32 list \<Rightarrow> store_state \<Rightarrow> store_state" where
  "archiveDepots d entries deps st = fold (archiveDepot d entries) deps st"

definition archiveManifest :: "store_dirs \<Rightarrow> u32 \<Rightarrow> u64 \<Rightarrow> store_state \<Rightarrow> bool \<times> store_state" where
  "archiveManifest d dep gid st =
     (if dep = 0 \<or> gid = 0 \<or> stRoot d = [] \<or> stStore d = [] then (False, st)
      else (let name = manifestName dep gid in
            case on_fs (isValidManifest (cache_file d name)) st of
              (False, st) \<Rightarrow> (False, st)
            | (True, st) \<Rightarrow>
                (case on_fs (isValidManifest (store_file d name)) st of
                   (True, st) \<Rightarrow> (True, st)
                 | (False, st) \<Rightarrow> atomicCopy (stPid d) (cache_file d name) (store_file d name) st)))"

definition publishDownloadedManifest :: "store_dirs \<Rightarrow> u32 \<Rightarrow> u64 \<Rightarrow> path \<Rightarrow> store_state \<Rightarrow> bool \<times> store_state" where
  "publishDownloadedManifest d dep gid sourcePath st =
     (if dep = 0 \<or> gid = 0 \<or> sourcePath = [] \<or> stRoot d = [] \<or> stStore d = [] then (False, st)
      else (let name = manifestName dep gid in
            case publishBestEffort (stPid d) sourcePath (store_file d name) (cache_file d name) st of
              (r, st) \<Rightarrow> (prStaged r, st)))"

definition isInDepotcache :: "store_dirs \<Rightarrow> u32 \<Rightarrow> u64 \<Rightarrow> store_state \<Rightarrow> bool \<times> store_state" where
  "isInDepotcache d dep gid st =
     (if gid = 0 \<or> stRoot d = [] then (False, st) else on_fs (isValidManifest (cache_file d (manifestName dep gid))) st)"

definition isArchived :: "store_dirs \<Rightarrow> u32 \<Rightarrow> u64 \<Rightarrow> store_state \<Rightarrow> bool \<times> store_state" where
  "isArchived d dep gid st =
     (if dep = 0 \<or> gid = 0 \<or> stStore d = [] then (False, st) else on_fs (isValidManifest (store_file d (manifestName dep gid))) st)"

definition cacheInstalledSize :: "u32 \<Rightarrow> u64 \<Rightarrow> u64 \<Rightarrow> store_state \<Rightarrow> store_state" where
  "cacheInstalledSize dep gid sz st =
     (if dep = 0 \<or> gid = 0 \<or> sz = 0 then st else st\<lparr>msSizes := (msSizes st)((dep, gid) \<mapsto> sz)\<rparr>)"

text \<open>The outer \<open>None\<close> is a parser that does not return.\<close>

definition parseInstalledSize :: "path \<Rightarrow> file_system \<Rightarrow> u64 option option \<times> file_system" where
  "parseInstalledSize p s =
     (case isValidManifest p s of
        (False, s) \<Rightarrow> (Some None, s)
      | (True, s) \<Rightarrow>
          (case fs_contents p s of
             (None, s) \<Rightarrow> (Some None, s)
           | (Some c, s) \<Rightarrow>
               (case parseManifestSizes c of
                  None \<Rightarrow> (None, s)
                | Some (ok, installed, _) \<Rightarrow>
                    (case installed of
                       None \<Rightarrow> (Some None, s)
                     | Some v \<Rightarrow> if \<not> ok \<or> v = 0 then (Some None, s) else (Some (Some v), s)))))"

definition installedSize :: "store_dirs \<Rightarrow> u32 \<Rightarrow> u64 \<Rightarrow> store_state \<Rightarrow> u64 option option \<times> store_state" where
  "installedSize d dep gid st =
     (if dep = 0 \<or> gid = 0 then (Some None, st)
      else (case msSizes st (dep, gid) of
              Some v \<Rightarrow> (Some (Some v), st)
            | None \<Rightarrow>
                (case (if stStore d = [] then (Some None, st) else on_fs (parseInstalledSize (store_file d (manifestName dep gid))) st) of
                   (None, st) \<Rightarrow> (None, st)
                 | (Some (Some v), st) \<Rightarrow> (Some (Some v), cacheInstalledSize dep gid v st)
                 | (Some None, st) \<Rightarrow>
                     (case (if stRoot d = [] then (Some None, st) else on_fs (parseInstalledSize (cache_file d (manifestName dep gid))) st) of
                        (Some (Some v), st) \<Rightarrow> (Some (Some v), cacheInstalledSize dep gid v st)
                      | (r, st) \<Rightarrow> (r, st)))))"

definition restoreToDepotcache :: "store_dirs \<Rightarrow> u32 \<Rightarrow> u64 \<Rightarrow> store_state \<Rightarrow> bool \<times> store_state" where
  "restoreToDepotcache d dep gid st =
     (if gid = 0 \<or> stRoot d = [] \<or> stStore d = [] then (False, st)
      else (let name = manifestName dep gid in restore_manifest (stPid d) (store_file d name) (cache_file d name) st))"

definition markPreferredGid :: "store_dirs \<Rightarrow> u32 \<Rightarrow> u64 \<Rightarrow> store_state \<Rightarrow> bool \<times> store_state" where
  "markPreferredGid d dep gid st =
     (if stStore d = [] then (False, st)
      else (case isArchived d dep gid st of
              (False, st) \<Rightarrow> (False, st)
            | (True, st) \<Rightarrow> writePreferred (stPid d) (stStore d) dep gid st))"

definition preferredArchivedGid :: "store_dirs \<Rightarrow> u32 \<Rightarrow> u64 \<Rightarrow> store_state \<Rightarrow> u64 \<times> store_state" where
  "preferredArchivedGid d dep excludeGid st =
     (if stStore d = [] then (0, st)
      else (case on_fs (readPreferred (stStore d) dep excludeGid) st of
              (gid, st) \<Rightarrow> (case isArchived d dep gid st of (a, st) \<Rightarrow> (if a then gid else 0, st))))"

text \<open>Entries with whether each is a regular file and its modification time; an error of either call stays
  set and ends the loop.\<close>

fun best_loop :: "store_dirs \<Rightarrow> u32 \<Rightarrow> u64 \<Rightarrow> (string \<times> bool option \<times> int option) list \<Rightarrow> u64 \<Rightarrow> int \<Rightarrow> store_state \<Rightarrow> u64 \<times> store_state" where
  "best_loop d dep excludeGid [] best bestTime st = (best, st)"
| "best_loop d dep excludeGid ((name, regular, mtime) # es) best bestTime st =
     (case regular of
        None \<Rightarrow> (best, st)
      | Some False \<Rightarrow> best_loop d dep excludeGid es best bestTime st
      | Some True \<Rightarrow>
          (let gid = gidFromName name (depot_prefix dep) in
           if gid = 0 \<or> gid = excludeGid then best_loop d dep excludeGid es best bestTime st
           else (case on_fs (isValidManifest (store_file d name)) st of
                   (False, st) \<Rightarrow> best_loop d dep excludeGid es best bestTime st
                 | (True, st) \<Rightarrow>
                     (case mtime of
                        None \<Rightarrow> (best, st)
                      | Some t \<Rightarrow>
                          if best = 0 \<or> t > bestTime then best_loop d dep excludeGid es gid t st
                          else best_loop d dep excludeGid es best bestTime st))))"

definition bestArchivedGid :: "store_dirs \<Rightarrow> (string \<times> bool option \<times> int option) list option \<Rightarrow> u32 \<Rightarrow> u64 \<Rightarrow> store_state \<Rightarrow> u64 \<times> store_state" where
  "bestArchivedGid d entries dep excludeGid st =
     (if stStore d = [] then (0, st)
      else (case entries of None \<Rightarrow> (0, st) | Some es \<Rightarrow> best_loop d dep excludeGid es 0 0 st))"

text \<open>The error of a removal stays set and ends the loop.\<close>

fun purge_loop :: "store_dirs \<Rightarrow> u32 \<Rightarrow> string list \<Rightarrow> file_system \<Rightarrow> file_system" where
  "purge_loop d dep [] s = s"
| "purge_loop d dep (name # names) s =
     (if gidFromName name (depot_prefix dep) = 0 then purge_loop d dep names s
      else (case fs_remove (store_file d name) s of
              (None, s) \<Rightarrow> s
            | (Some _, s) \<Rightarrow> purge_loop d dep names s))"

text \<open>The names in the store, \<open>None\<close> when it is no directory.\<close>

definition purgeDepots :: "store_dirs \<Rightarrow> string list option \<Rightarrow> u32 list \<Rightarrow> store_state \<Rightarrow> store_state" where
  "purgeDepots d names deps st =
     (if stStore d = [] then st
      else (case names of
              None \<Rightarrow> st
            | Some ns \<Rightarrow>
                st\<lparr>msFs := fold (\<lambda>dep s. snd (fs_remove (preferredPath (stStore d) dep) (purge_loop d dep ns s))) deps (msFs st)\<rparr>))"

section \<open>The two name parsers agree\<close>

lemma find_char_None: "i \<le> length s \<Longrightarrow> find_from [c] s i = None \<longleftrightarrow> c \<notin> set (drop i s)"
proof
  assume i: "i \<le> length s" and n: "find_from [c] s i = None"
  show "c \<notin> set (drop i s)"
  proof
    assume "c \<in> set (drop i s)"
    then obtain a b where "drop i s = a @ c # b" "c \<notin> set a" by (metis split_list_first)
    then have "find_from [c] s i = Some (i + length a)" using i by (auto simp: find_char)
    with n show False by simp
  qed
next
  assume "i \<le> length s" "c \<notin> set (drop i s)"
  then show "find_from [c] s i = None"
    by (metis find_char in_set_conv_decomp not_None_eq)
qed

lemma one_separator:
  "(find_from [c] st 0 = Some k \<and> find_from [c] st (k + 1) = None) \<longleftrightarrow>
     (\<exists>a b. st = a @ c # b \<and> c \<notin> set a \<and> c \<notin> set b \<and> k = length a)"
proof
  assume L: "find_from [c] st 0 = Some k \<and> find_from [c] st (k + 1) = None"
  then obtain a b where st: "st = a @ c # b" "c \<notin> set a" "k = length a" by (auto simp: find_char)
  then have "c \<notin> set (drop (k + 1) st)" using L find_char_None [of "k + 1" st c] by simp
  then have "c \<notin> set b" using st by simp
  with st show "\<exists>a b. st = a @ c # b \<and> c \<notin> set a \<and> c \<notin> set b \<and> k = length a" by blast
next
  assume "\<exists>a b. st = a @ c # b \<and> c \<notin> set a \<and> c \<notin> set b \<and> k = length a"
  then obtain a b where st: "st = a @ c # b" "c \<notin> set a" "c \<notin> set b" "k = length a" by blast
  then have "find_from [c] st 0 = Some k" by (auto simp: find_char)
  moreover have "find_from [c] st (k + 1) = None" using st by (subst find_char_None) simp_all
  ultimately show "find_from [c] st 0 = Some k \<and> find_from [c] st (k + 1) = None" by blast
qed

definition manifest_text :: "string \<Rightarrow> u32 \<Rightarrow> u64 \<Rightarrow> bool" where
  "manifest_text st d g \<longleftrightarrow> d \<noteq> 0 \<and> g \<noteq> 0 \<and>
     (\<exists>ds gs. st = ds @ CHR ''_'' # gs \<and> list_all is_digit ds \<and> list_all is_digit gs \<and> dec_value ds = unat d \<and> dec_value gs = unat g)"

lemma digits_no_char: "list_all is_digit ds \<Longrightarrow> \<not> is_digit c \<Longrightarrow> c \<notin> set ds"
  by (auto simp: list_all_iff)

lemma underscore_no_digit: "\<not> is_digit (CHR ''_'')"
  by (simp add: is_digit_def char_code_def)

lemma chars32: "from_chars_all u32_max t = Some n \<Longrightarrow> n \<noteq> 0 \<Longrightarrow> (of_nat n :: u32) \<noteq> 0 \<and> unat (of_nat n :: u32) = n"
  by (auto simp: from_chars_all_iff u32_max_def word_of_nat_eq_0_iff nat_dvd_not_less unsigned_of_nat take_bit_nat_eq_self dest!: dvd_imp_le)

lemma chars64: "from_chars_all u64_max t = Some n \<Longrightarrow> n \<noteq> 0 \<Longrightarrow> (of_nat n :: u64) \<noteq> 0 \<and> unat (of_nat n :: u64) = n"
  by (auto simp: from_chars_all_iff u64_max_def word_of_nat_eq_0_iff nat_dvd_not_less unsigned_of_nat take_bit_nat_eq_self dest!: dvd_imp_le)

lemma manifest_text_split:
  assumes "find_from ''_'' st 0 = Some k" "find_from ''_'' st (k + 1) = None"
  shows "manifest_text st d g \<longleftrightarrow>
    from_chars_all u32_max (take k st) = Some (unat d) \<and> from_chars_all u64_max (drop (k + 1) st) = Some (unat g) \<and> d \<noteq> 0 \<and> g \<noteq> 0"
proof -
  obtain a b where st: "st = a @ CHR ''_'' # b" "CHR ''_'' \<notin> set a" "CHR ''_'' \<notin> set b" "k = length a"
    using assms one_separator [of "CHR ''_''" st k] by blast
  have "unat d < 2 ^ 32" "unat g < 2 ^ 64" by (rule order.strict_trans2 [OF unsigned_less], simp)+
  then have bounds: "unat d \<le> u32_max" "unat g \<le> u64_max" by (simp_all add: u32_max_def u64_max_def)
  have "ds = a \<and> gs = b" if "st = ds @ CHR ''_'' # gs" "list_all is_digit ds" for ds gs
    using that st(1) append_Cons_eq_iff [OF st(2,3), of ds gs] by simp
  then have "manifest_text st d g \<longleftrightarrow> d \<noteq> 0 \<and> g \<noteq> 0 \<and> list_all is_digit a \<and> list_all is_digit b \<and> dec_value a = unat d \<and> dec_value b = unat g"
    unfolding manifest_text_def using st(1) by blast
  moreover have "dec_value [] = 0" by (simp add: dec_value_def)
  ultimately show ?thesis using bounds by (auto simp: st(1,4) from_chars_all_iff unat_eq_0)
qed

lemma manifest_text_needs:
  assumes "manifest_text st d g"
  shows "\<exists>k. find_from ''_'' st 0 = Some k \<and> find_from ''_'' st (k + 1) = None \<and> k \<noteq> 0 \<and> k + 1 < length st"
proof -
  obtain ds gs where st: "st = ds @ CHR ''_'' # gs" "list_all is_digit ds" "list_all is_digit gs" "dec_value ds = unat d" "dec_value gs = unat g"
    "d \<noteq> 0" "g \<noteq> 0" using assms by (auto simp: manifest_text_def)
  have "ds \<noteq> []" "gs \<noteq> []" using st(4-7) by (auto simp: dec_value_def unat_eq_0)
  moreover have "find_from ''_'' st 0 = Some (length ds) \<and> find_from ''_'' st (length ds + 1) = None"
    using one_separator [of "CHR ''_''" st "length ds"] st(1) digits_no_char [OF _ underscore_no_digit] st(2,3) by blast
  ultimately show ?thesis using st(1) by (intro exI [of _ "length ds"]) simp
qed

definition manifest_stem :: "string \<Rightarrow> string" where
  "manifest_stem name = take (length name - length manifest_ext) name"

lemma empty_no_number: "from_chars_all lim [] = None"
  by (simp add: from_chars_all_def from_chars_def)

lemma parse_index_iff:
  "parse_manifest_index name = Some (d, g) \<longleftrightarrow> ends_with manifest_ext name \<and> manifest_text (manifest_stem name) d g"
proof (cases "ends_with manifest_ext name")
  case True
  show ?thesis
  proof (cases "\<exists>k. find_from ''_'' (manifest_stem name) 0 = Some k \<and> find_from ''_'' (manifest_stem name) (k + 1) = None")
    case sep: True
    then obtain k where k: "find_from ''_'' (manifest_stem name) 0 = Some k" "find_from ''_'' (manifest_stem name) (k + 1) = None" by blast
    then have "manifest_stem name \<noteq> []" by (auto simp: find_char)
    then have len: "length name > length manifest_ext" by (simp add: manifest_stem_def)
    show ?thesis unfolding manifest_text_split [OF k] parse_manifest_index_def Let_def manifest_stem_def [symmetric] k(1) option.case
      using True len k(2) chars32 [of "take k (manifest_stem name)"] chars64 [of "drop (k + 1) (manifest_stem name)"]
      by (auto simp: ends_with_def empty_no_number unat_eq_0 unat_gt_0 split: option.splits)
  next
    case False
    then have "parse_manifest_index name = None"
      by (auto simp: parse_manifest_index_def Let_def manifest_stem_def split: option.splits)
    with False manifest_text_needs show ?thesis by fastforce
  qed
next
  case False
  then show ?thesis by (auto simp: parse_manifest_index_def ends_with_def)
qed

lemma parse_io_iff:
  "parse_manifest_io name = Some (d, g) \<longleftrightarrow> ends_with manifest_ext name \<and> manifest_text (manifest_stem name) d g"
proof (cases "ends_with manifest_ext name")
  case True
  show ?thesis
  proof (cases "\<exists>k. find_from ''_'' (manifest_stem name) 0 = Some k \<and> find_from ''_'' (manifest_stem name) (k + 1) = None \<and>
      k \<noteq> 0 \<and> k + 1 < length (manifest_stem name)")
    case sep: True
    then obtain k where k: "find_from ''_'' (manifest_stem name) 0 = Some k" "find_from ''_'' (manifest_stem name) (k + 1) = None"
      "k \<noteq> 0" "k + 1 < length (manifest_stem name)" by blast
    have u: "from_chars_all u32_max t = Some n \<longleftrightarrow> from_chars_all u64_max t = Some n \<and> n \<le> u32_max" for t n
      by (auto simp: from_chars_all_iff u32_max_def u64_max_def)
    show ?thesis unfolding manifest_text_split [OF k(1,2)] parse_manifest_io_def Let_def manifest_stem_def [symmetric] k(1) option.case
      using True k(2-) chars32 [of "take k (manifest_stem name)"] chars64 [of "drop (k + 1) (manifest_stem name)"]
      by (auto simp: u unat_eq_0 unat_gt_0 split: option.splits)
  next
    case False
    then have "parse_manifest_io name = None"
      by (auto simp: parse_manifest_io_def Let_def manifest_stem_def split: option.splits)
    with False manifest_text_needs show ?thesis by fastforce
  qed
next
  case False
  then show ?thesis by (simp add: parse_manifest_io_def)
qed

lemma parse_manifestName: "parse_manifest_io (manifestName d g) = (if d = 0 \<or> g = 0 then None else Some (d, g))"
proof -
  have name: "ends_with manifest_ext (manifestName d g)" "manifest_stem (manifestName d g) = to_dec (unat d) @ CHR ''_'' # to_dec (unat g)"
    by (simp_all add: ends_with_def manifestName_def manifest_stem_def)
  have made: "manifest_text (to_dec (unat d) @ CHR ''_'' # to_dec (unat g)) d' g' \<longleftrightarrow> d' = d \<and> g' = g \<and> d \<noteq> 0 \<and> g \<noteq> 0" for d' g'
  proof
    assume "manifest_text (to_dec (unat d) @ CHR ''_'' # to_dec (unat g)) d' g'"
    then obtain ds gs where s: "to_dec (unat d) @ CHR ''_'' # to_dec (unat g) = ds @ CHR ''_'' # gs" "list_all is_digit ds"
      "dec_value ds = unat d'" "dec_value gs = unat g'" "d' \<noteq> 0" "g' \<noteq> 0" by (auto simp: manifest_text_def)
    have "to_dec (unat d) = ds \<and> to_dec (unat g) = gs"
      using s(1) digits_no_char [OF s(2) underscore_no_digit] digits_no_char [OF all_digits_to_dec underscore_no_digit]
      by (metis append_Cons_eq_iff)
    with s show "d' = d \<and> g' = g \<and> d \<noteq> 0 \<and> g \<noteq> 0" by (metis dec_value_to_dec word_unat_eq_iff)
  next
    assume "d' = d \<and> g' = g \<and> d \<noteq> 0 \<and> g \<noteq> 0"
    then show "manifest_text (to_dec (unat d) @ CHR ''_'' # to_dec (unat g)) d' g'"
      unfolding manifest_text_def by (intro conjI exI [of _ "to_dec (unat d)"] exI [of _ "to_dec (unat g)"]) auto
  qed
  show ?thesis
    using parse_io_iff [of "manifestName d g"] name made
    by (cases "parse_manifest_io (manifestName d g)") auto
qed

text \<open>C29: The two parsers of manifest names accept the same names with the same result, and read back the name that
  the store gives to a manifest.\<close>

theorem manifest_names_agree:
  "parse_manifest_index = parse_manifest_io \<and>
   parse_manifest_io (manifestName d g) = (if d = 0 \<or> g = 0 then None else Some (d, g))"
proof
  have "parse_manifest_index name = Some p \<longleftrightarrow> parse_manifest_io name = Some p" for name p
    by (cases p) (simp only: parse_index_iff parse_io_iff)
  then have "parse_manifest_index name = parse_manifest_io name" for name by (metis option.exhaust)
  then show "parse_manifest_index = parse_manifest_io" by blast
  show "parse_manifest_io (manifestName d g) = (if d = 0 \<or> g = 0 then None else Some (d, g))" by (rule parse_manifestName)
qed

section \<open>A copy is complete or does not happen\<close>

definition temp_mark :: string where "temp_mark = ''.slsteam_tmp.''"

definition is_temp :: "path \<Rightarrow> bool" where "is_temp p \<longleftrightarrow> contains_sub temp_mark p"

lemma contains_middle: "contains_sub x (a @ x @ b)"
  using find_at_None [of x "a @ x @ b" "length a"] by (auto simp: contains_sub_def starts_with_def)

lemma temp_is_temp: "is_temp (fst (uniqueTempPath pid target st))"
  unfolding uniqueTempPath_def fst_conv is_temp_def temp_mark_def by (rule contains_middle)

abbreviation files :: "store_state \<Rightarrow> path \<Rightarrow> contents option" where
  "files st \<equiv> fsFiles (msFs st)"

text \<open>The file system of a later state has the names that are no temporary ones as \<open>F\<close> has them.\<close>

definition same_names :: "(path \<Rightarrow> contents option) \<Rightarrow> (path \<Rightarrow> contents option) \<Rightarrow> bool" where
  "same_names F G \<longleftrightarrow> (\<forall>p. \<not> is_temp p \<longrightarrow> F p = G p)"

lemma same_names_refl [simp]: "same_names F F"
  by (simp add: same_names_def)

lemma fs_mkdirs_files: "fs_mkdirs s = (r, s') \<Longrightarrow> fsFiles s' = fsFiles s \<and> history s' = history s"
  by (auto simp: fs_mkdirs_def)

lemma fs_contents_files: "fs_contents p s = (r, s') \<Longrightarrow> fsFiles s' = fsFiles s \<and> history s' = history s \<and> (\<forall>c. r = Some c \<longrightarrow> fsFiles s p = Some c)"
  by (auto simp: fs_contents_def split: outcome.splits)

lemma remove_temp:
  assumes "on_fs (fs_remove t) st = (r, st')" "is_temp t"
  shows "same_names (files st') (files st)" "history (msFs st') = insert (files st') (history (msFs st))"
  using assms fs_remove_files by (auto simp: on_fs_def same_names_def split: prod.splits if_splits)

lemma copy_all_or_nothing:
  assumes "atomicCopy pid source target st = (r, st')" "\<not> is_temp source" "\<not> is_temp target"
  shows "same_names (files st') (if r then (files st)(target := files st source) else files st) \<and>
    (r \<longrightarrow> files st source \<noteq> None) \<and>
    (\<forall>F \<in> history (msFs st') - history (msFs st). same_names F (files st) \<or> same_names F ((files st)(target := files st source)))"
proof -
  obtain b st1 where b: "on_fs fs_mkdirs st = (b, st1)" by fastforce
  then have f1: "files st1 = files st" "history (msFs st1) = history (msFs st)"
    using fs_mkdirs_files by (auto simp: on_fs_def split: prod.splits)
  show ?thesis
  proof (cases b)
    case False
    then show ?thesis using assms(1) f1 by (auto simp: atomicCopy_def b)
  next
    case True
    obtain tmp st2 where t: "uniqueTempPath pid target st1 = (tmp, st2)" by fastforce
    have tmp: "is_temp tmp" using temp_is_temp [of pid target st1] t by simp
    have f2: "msFs st2 = msFs st1" using t by (auto simp: uniqueTempPath_def)
    obtain c st3 where c: "on_fs (fs_copy source tmp) st2 = (c, st3)" by fastforce
    then obtain x where x: "files st3 = (files st2)(tmp := x)" "c \<longrightarrow> x = files st2 source \<and> x \<noteq> None"
      "history (msFs st3) = insert (files st3) (history (msFs st2))"
      using fs_copy_files by (fastforce simp: on_fs_def split: prod.splits)
    have s3: "same_names (files st3) (files st)" using x(1) f1 f2 tmp by (auto simp: same_names_def)
    obtain r4 st4 where r4: "on_fs (fs_remove tmp) st3 = (r4, st4)" by fastforce
    obtain d st5 where d: "on_fs (fs_rename tmp target) st3 = (d, st5)" by fastforce
    then have f5: "if d then files st5 = (files st3)(target := files st3 tmp, tmp := None) else files st5 = files st3"
      "history (msFs st5) = insert (files st5) (history (msFs st3))"
      using fs_rename_files by (auto simp: on_fs_def split: prod.splits if_splits)
    obtain r6 st6 where r6: "on_fs (fs_remove tmp) st5 = (r6, st6)" by fastforce
    note g4 = remove_temp [OF r4 tmp] and g6 = remove_temp [OF r6 tmp]
    show ?thesis
    proof (cases c)
      case False
      then have "r = False" "st' = st4" using assms(1) True by (auto simp: atomicCopy_def b t c r4)
      moreover have "same_names (files st4) (files st)" using g4(1) s3 by (simp add: same_names_def)
      ultimately show ?thesis using g4(2) x(3) f1 f2 s3 by auto
    next
      case cc: True
      have tt: "files st3 tmp = files st source" using x cc f1 f2 by simp
      show ?thesis
      proof (cases d)
        case True
        then have "r = True" "st' = st5" using assms(1) \<open>b\<close> cc by (auto simp: atomicCopy_def b t c d)
        moreover have "same_names (files st5) ((files st)(target := files st source))"
          using f5(1) True s3 tt tmp assms(3) by (auto simp: same_names_def)
        ultimately show ?thesis using f5(2) x f1 f2 s3 cc by auto
      next
        case False
        then have "r = False" "st' = st6" using assms(1) \<open>b\<close> cc by (auto simp: atomicCopy_def b t c d r6)
        moreover have "same_names (files st6) (files st)" "same_names (files st5) (files st)"
          using g6(1) f5(1) False s3 by (auto simp: same_names_def)
        ultimately show ?thesis using g6(2) f5(2) x(3) f1 f2 s3 by auto
      qed
    qed
  qed
qed


section \<open>Publishing a download\<close>

definition valid_contents :: "contents \<Rightarrow> bool" where
  "valid_contents c \<longleftrightarrow> length c \<ge> 4 \<and> read_magic c = kPayloadMagic"

lemma valid_fs_files:
  "isValidManifest p s = (r, s') \<Longrightarrow>
     fsFiles s' = fsFiles s \<and> history s' = history s \<and> (r \<longrightarrow> (\<exists>c. fsFiles s p = Some c \<and> valid_contents c))"
  unfolding isValidManifest_def fs_exists_def fs_contents_def valid_contents_def
  by (cases "outcome_of s"; cases "outcome_of (call_done s)"; cases "outcome_of (call_done (call_done s))"; cases "fsFiles s p")
    (auto split: if_splits)

lemma valid_files:
  assumes "on_fs (isValidManifest p) st = (r, st')"
  shows "files st' = files st" "history (msFs st') = history (msFs st)"
    "r \<Longrightarrow> \<exists>c. files st p = Some c \<and> valid_contents c"
proof -
  obtain s' where "isValidManifest p (msFs st) = (r, s')" "msFs st' = s'"
    using assms by (auto simp: on_fs_def split: prod.splits)
  note f = valid_fs_files [OF this(1)] this(2)
  show "files st' = files st" "history (msFs st') = history (msFs st)" "r \<Longrightarrow> \<exists>c. files st p = Some c \<and> valid_contents c"
    using f by simp_all
qed

text \<open>What a copy that must be valid afterwards does: all names but the target's and the temporary ones are kept,
  and the target has its old contents or the source's at every moment.\<close>

definition target_only :: "path \<Rightarrow> contents option \<Rightarrow> (path \<Rightarrow> contents option) \<Rightarrow> (path \<Rightarrow> contents option) \<Rightarrow> bool" where
  "target_only t c F G \<longleftrightarrow> same_names G F \<or> same_names G (F(t := c))"

lemma copy_valid_files:
  assumes "copy_valid pid source target st = (r, st')" "\<not> is_temp source" "\<not> is_temp target"
  shows "target_only target (files st source) (files st) (files st')"
    "r \<Longrightarrow> files st' target = files st source \<and> (\<exists>c. files st source = Some c \<and> valid_contents c)"
    "\<forall>F \<in> history (msFs st') - history (msFs st). target_only target (files st source) (files st) F"
proof -
  obtain b st1 where b: "atomicCopy pid source target st = (b, st1)" by fastforce
  note a = copy_all_or_nothing [OF b assms(2,3)]
  have f: "files st' = files st1" "history (msFs st') = history (msFs st1)" "r \<Longrightarrow> b \<and> (\<exists>c. files st1 target = Some c \<and> valid_contents c)"
    using assms(1) valid_files [of target st1 r st'] by (auto simp: copy_valid_def b split: bool.splits)
  show "target_only target (files st source) (files st) (files st')"
    "\<forall>F \<in> history (msFs st') - history (msFs st). target_only target (files st source) (files st) F"
    using a f(1,2) by (auto simp: target_only_def split: if_splits)
  show "files st' target = files st source \<and> (\<exists>c. files st source = Some c \<and> valid_contents c)" if r
    using a f(1) f(3) [OF that] assms(3) by (auto simp: same_names_def)
qed


definition kept_but :: "path set \<Rightarrow> (path \<Rightarrow> contents option) \<Rightarrow> (path \<Rightarrow> contents option) \<Rightarrow> bool" where
  "kept_but S F G \<longleftrightarrow> (\<forall>p. \<not> is_temp p \<and> p \<notin> S \<longrightarrow> G p = F p)"

definition valid_at :: "path \<Rightarrow> (path \<Rightarrow> contents option) \<Rightarrow> bool" where
  "valid_at p F \<longleftrightarrow> (\<exists>c. F p = Some c \<and> valid_contents c)"

lemma kept_but_refl: "kept_but S F F"
  by (simp add: kept_but_def)

lemma kept_but_trans: "kept_but S F G \<Longrightarrow> kept_but S G H \<Longrightarrow> kept_but S F H"
  by (simp add: kept_but_def)

lemma kept_but_mono: "kept_but S F G \<Longrightarrow> S \<subseteq> T \<Longrightarrow> kept_but T F G"
  by (auto simp: kept_but_def)

text \<open>A run: the state it ends in and all it went through keep the names outside \<open>S\<close>.\<close>

definition run_keeps :: "path set \<Rightarrow> store_state \<Rightarrow> store_state \<Rightarrow> bool" where
  "run_keeps S st st' \<longleftrightarrow>
     kept_but S (files st) (files st') \<and> (\<forall>F \<in> history (msFs st') - history (msFs st). kept_but S (files st) F)"

lemma run_keeps_trans: "run_keeps S a b \<Longrightarrow> run_keeps S b c \<Longrightarrow> run_keeps S a c"
  unfolding run_keeps_def by (meson DiffI DiffD1 DiffD2 kept_but_trans)

lemma run_keeps_mono: "run_keeps S a b \<Longrightarrow> S \<subseteq> T \<Longrightarrow> run_keeps T a b"
  unfolding run_keeps_def by (meson kept_but_mono)

lemma run_keepsD: "run_keeps S a b \<Longrightarrow> \<not> is_temp p \<Longrightarrow> p \<notin> S \<Longrightarrow> files b p = files a p"
  by (simp add: run_keeps_def kept_but_def)

lemma run_keeps_at: "run_keeps S a b \<Longrightarrow> \<not> is_temp p \<Longrightarrow> p \<notin> S \<Longrightarrow> F \<in> history (msFs b) - history (msFs a) \<Longrightarrow> F p = files a p"
  by (auto simp: run_keeps_def kept_but_def)

lemma valid_keeps: "on_fs (isValidManifest p) st = (r, st') \<Longrightarrow> run_keeps S st st'"
  using valid_files(1,2) [of p st r st'] by (simp add: run_keeps_def kept_but_refl)

lemma fsremove_keeps: "on_fs (fs_remove p) st = (r, st') \<Longrightarrow> run_keeps {p} st st'"
  using fs_remove_files [of p "msFs st" r "msFs st'"] by (auto simp: on_fs_def run_keeps_def kept_but_def split: prod.splits)

lemma copy_keeps:
  assumes "atomicCopy pid source target st = (r, st')" "\<not> is_temp source" "\<not> is_temp target"
  shows "run_keeps {target} st st'"
  using copy_all_or_nothing [OF assms] by (auto simp: run_keeps_def kept_but_def same_names_def split: if_splits)

lemma restore_manifest_keeps:
  assumes "restore_manifest pid stored staged st = (r, st')" "\<not> is_temp stored" "\<not> is_temp staged"
  shows "run_keeps {staged} st st'" "r \<Longrightarrow> valid_at staged (files st')"
proof -
  obtain a st1 where a: "on_fs (isValidManifest stored) st = (a, st1)" by fastforce
  obtain b st2 where b: "on_fs (isValidManifest staged) st1 = (b, st2)" by fastforce
  obtain c st3 where c: "on_fs (fs_remove staged) st2 = (c, st3)" by fastforce
  obtain d st4 where d: "atomicCopy pid stored staged st3 = (d, st4)" by fastforce
  obtain e st5 where e: "on_fs (isValidManifest staged) st4 = (e, st5)" by fastforce
  note k = valid_keeps [OF a, of "{staged}"] valid_keeps [OF b, of "{staged}"] fsremove_keeps [OF c] copy_keeps [OF d assms(2,3)]
    valid_keeps [OF e, of "{staged}"]
  have "st' \<in> {st1, st2, st4, st5}"
    using assms(1) by (auto simp: restore_manifest_def a b c d e split: bool.splits)
  then show "run_keeps {staged} st st'" using k run_keeps_trans by blast
  have r: "r \<Longrightarrow> (b \<and> st' = st2) \<or> (e \<and> st' = st5)"
    using assms(1) by (auto simp: restore_manifest_def a b c d e split: bool.splits)
  show "valid_at staged (files st')" if r
    using r [OF that] valid_files [OF b] valid_files [OF e] by (auto simp: valid_at_def)
qed

lemma copy_valid_keeps:
  assumes "copy_valid pid source target st = (r, st')" "\<not> is_temp source" "\<not> is_temp target"
  shows "run_keeps {target} st st'" "r \<Longrightarrow> valid_at target (files st')"
  using copy_valid_files [OF assms] by (auto simp: run_keeps_def kept_but_def target_only_def same_names_def valid_at_def)


text \<open>C5: What is published: the archive has the download's bytes and what is staged is a manifest; on every way, and at
  every moment of it, the archive's entry is the old one or the download, and no other name changes.\<close>

theorem publish_keeps_manifests:
  assumes "publishBestEffort pid source stored staged st = (r, st')"
    "\<not> is_temp source" "\<not> is_temp stored" "\<not> is_temp staged" "distinct [source, stored, staged]"
  shows "(prStaged r \<longrightarrow> valid_at staged (files st')) \<and>
    (prArchived r \<longrightarrow> files st' stored = files st source \<and> valid_at source (files st)) \<and>
    run_keeps {stored, staged} st st' \<and>
    (\<forall>F \<in> history (msFs st') - history (msFs st). F stored = files st stored \<or> F stored = files st source)"
proof -
  obtain a st1 where a: "on_fs (isValidManifest source) st = (a, st1)" by fastforce
  obtain b st2 where b: "copy_valid pid source stored st1 = (b, st2)" by fastforce
  obtain c st3 where c: "restore_manifest pid stored staged st2 = (c, st3)" by fastforce
  obtain d st4 where d: "on_fs (fs_remove staged) st2 = (d, st4)" by fastforce
  obtain e st5 where e: "copy_valid pid source staged st4 = (e, st5)" by fastforce
  have f1: "files st1 = files st" "history (msFs st1) = history (msFs st)" using valid_files [OF a] by simp_all
  note kb = copy_valid_files [OF b assms(2,3)]
  have k2: "run_keeps {stored, staged} st st2"
    using valid_keeps [OF a, of "{stored, staged}"] run_keeps_mono [OF copy_valid_keeps(1) [OF b assms(2,3)], of "{stored, staged}"]
    by (auto intro: run_keeps_trans)
  have at2: "\<forall>F \<in> history (msFs st2) - history (msFs st). F stored \<in> {files st stored, files st source}"
    "files st2 stored \<in> {files st stored, files st source}"
    using kb(1,3) f1 assms(3) by (auto simp: target_only_def same_names_def)
  have later: "(\<forall>F \<in> history (msFs st6) - history (msFs st). F stored \<in> {files st stored, files st source}) \<and>
      files st6 stored = files st2 stored \<and> run_keeps {stored, staged} st st6"
    if "run_keeps {staged} st2 st6" for st6
  proof (intro conjI ballI)
    show "F stored \<in> {files st stored, files st source}" if F: "F \<in> history (msFs st6) - history (msFs st)" for F
      using F at2 run_keeps_at [OF \<open>run_keeps {staged} st2 st6\<close> assms(3), of F] assms(5) by (cases "F \<in> history (msFs st2)") auto
    show "files st6 stored = files st2 stored" using run_keepsD [OF that assms(3)] assms(5) by simp
    show "run_keeps {stored, staged} st st6" using run_keeps_trans [OF k2 run_keeps_mono [OF that]] by blast
  qed
  note k3 = restore_manifest_keeps [OF c assms(3,4)]
  have k5: "run_keeps {staged} st2 st5"
    using run_keeps_trans [OF fsremove_keeps [OF d] copy_valid_keeps(1) [OF e assms(2,4)]] .
  show ?thesis
  proof (cases a)
    case False
    then have "r = \<lparr>prStaged = False, prArchived = False\<rparr>" "st' = st1" using assms(1) by (auto simp: publishBestEffort_def a)
    then show ?thesis using valid_keeps [OF a, of "{stored, staged}"] f1 by simp
  next
    case av: True
    show ?thesis
    proof (cases b)
      case True
      then have r: "r = \<lparr>prStaged = c, prArchived = True\<rparr>" "st' = st3" using assms(1) av by (auto simp: publishBestEffort_def a b c)
      have "files st2 stored = files st source" "valid_at source (files st)"
        using kb(2) [OF True] f1 by (auto simp: valid_at_def)
      with r later [OF k3(1)] k3(2) show ?thesis by simp
    next
      case False
      then have r: "r = \<lparr>prStaged = e, prArchived = False\<rparr>" "st' = st5" using assms(1) av by (auto simp: publishBestEffort_def a b d e)
      with later [OF k5] copy_valid_keeps(2) [OF e assms(2,4)] show ?thesis by simp
    qed
  qed
qed

definition sample_manifest :: contents where "sample_manifest = [0xD0, 0x17, 0xF6, 0x71, 0, 0, 0, 0]"

definition sample_store :: "outcome list \<Rightarrow> store_state" where
  "sample_store os = \<lparr>msFs = \<lparr>fsFiles = [''s'' \<mapsto> sample_manifest, ''d'' \<mapsto> sample_manifest @ [1]], fsOutcomes = os, fsPast = []\<rparr>,
     msCounter = 0, msSizes = Map.empty\<rparr>"

lemma sample_valid: "\<not> length sample_manifest < 4" "read_magic sample_manifest = kPayloadMagic"
  "\<not> length (sample_manifest @ [1]) < 4" "read_magic (sample_manifest @ [1]) = kPayloadMagic"
  by (simp_all add: sample_manifest_def read_magic_def kPayloadMagic_def)

lemma source_valid: "on_fs (isValidManifest ''s'') (sample_store (Works # Works # Works # os)) = (True, sample_store os)"
  by (simp add: on_fs_def isValidManifest_def fs_exists_def fs_contents_def outcome_of_def call_done_def sample_store_def sample_valid)

lemma mkdirs_fails: "on_fs fs_mkdirs (sample_store (Fails None # os)) = (False, sample_store os)"
  by (simp add: on_fs_def fs_mkdirs_def outcome_of_def call_done_def sample_store_def)


text \<open>When the archive cannot be written the staged manifest is removed before its replacement is made: if the copy
  fails too, a valid manifest is gone and nothing has been stored.\<close>

theorem staged_manifest_lost:
  "let st = sample_store [Works, Works, Works, Fails None, Works, Fails None]; (r, st') = publishBestEffort pid ''s'' ''a'' ''d'' st in
     valid_at ''d'' (files st) \<and> \<not> prStaged r \<and> \<not> prArchived r \<and> files st' ''d'' = None \<and> files st' ''a'' = None"
proof -
  have 1: "copy_valid pid ''s'' ''a'' (sample_store [Fails None, Works, Fails None]) = (False, sample_store [Works, Fails None])"
    by (simp add: copy_valid_def atomicCopy_def mkdirs_fails)
  obtain x st2 where 2: "on_fs (fs_remove ''d'') (sample_store [Works, Fails None]) = (x, st2)" by fastforce
  then have f2: "files st2 ''d'' = None" "files st2 ''a'' = None" "fsOutcomes (msFs st2) = [Fails None]"
    by (auto simp: on_fs_def fs_remove_def sample_store_def outcome_of_def call_done_def set_file_def)
  obtain st3 where 3: "copy_valid pid ''s'' ''d'' st2 = (False, st3)" "files st3 = files st2"
    using f2(3) by (auto simp: copy_valid_def atomicCopy_def on_fs_def fs_mkdirs_def outcome_of_def)
  have "valid_at ''d'' (files (sample_store os))" for os
    using sample_valid by (simp add: valid_at_def valid_contents_def sample_store_def)
  then show ?thesis using f2 3(2) by (simp add: publishBestEffort_def source_valid 1 2 3(1))
qed

lemma publish_keeps_manifests_witness:
  "case publishBestEffort 7 ''s'' ''a'' ''d'' (sample_store []) of
     (r, st') \<Rightarrow> prArchived r \<and> files st' ''a'' = Some sample_manifest \<and> files st' ''s'' = Some sample_manifest"
proof -
  have s: "on_fs (isValidManifest ''s'') (sample_store []) = (True, sample_store [])"
    by (simp add: on_fs_def isValidManifest_def fs_exists_def fs_contents_def outcome_of_def call_done_def sample_store_def sample_valid)
  obtain st2 where c: "copy_valid 7 ''s'' ''a'' (sample_store []) = (True, st2)"
    by (simp add: copy_valid_def atomicCopy_def on_fs_def fs_mkdirs_def uniqueTempPath_def fs_copy_def fs_rename_def set_file_def
        outcome_of_def call_done_def isValidManifest_def fs_exists_def fs_contents_def sample_store_def sample_valid)
  obtain r st' where run: "publishBestEffort 7 ''s'' ''a'' ''d'' (sample_store []) = (r, st')" by fastforce
  then have "prArchived r" by (auto simp: publishBestEffort_def s c split: prod.splits)
  moreover have t: "\<not> is_temp ''s''" "\<not> is_temp ''a''" "\<not> is_temp ''d''" by code_simp+
  moreover have "distinct [''s'', ''a'', ''d'']" "files (sample_store []) ''s'' = Some sample_manifest" by (simp_all add: sample_store_def)
  ultimately show ?thesis using publish_keeps_manifests [OF run] run run_keepsD [of "{''a'', ''d''}" "sample_store []" st' "''s''"] by auto
qed


section \<open>The preferred manifest survives\<close>

lemma bytes_text_char_bytes [simp]: "bytes_text (char_bytes s) = s"
  by (induction s) (simp_all add: bytes_text_def char_bytes_def char_code_def unat_of_nat)

lemma marker_lines: "text_lines (to_dec n @ [CHR 0x0A]) = [to_dec n]"
  using text_lines_line [of "to_dec n" "[]"] digits_no_char [OF all_digits_to_dec, of "CHR 0x0A" n]
  by (simp add: is_digit_def char_code_def)

text \<open>What is read when every call works.\<close>

definition marker :: "u32 \<Rightarrow> u64 \<Rightarrow> contents option \<Rightarrow> u64" where
  "marker dep excludeGid c = fst (readPreferred [] dep excludeGid \<lparr>fsFiles = (\<lambda>_. c), fsOutcomes = [], fsPast = []\<rparr>)"

lemma read_marker: "fsOutcomes s = [] \<Longrightarrow> fst (readPreferred dir dep ex s) = marker dep ex (fsFiles s (preferredPath dir dep))"
  by (auto simp: marker_def readPreferred_def fs_contents_def outcome_of_def split: option.splits list.splits)

lemma marker_written: "dep \<noteq> 0 \<Longrightarrow> gid \<noteq> 0 \<Longrightarrow> marker dep ex (Some (char_bytes (to_dec (unat gid) @ [CHR 0x0A]))) = (if gid = ex then 0 else gid)"
proof -
  assume "dep \<noteq> 0" "gid \<noteq> 0"
  moreover have "unat gid \<le> u64_max" by (rule unat_u64_max)
  then have "read_unsigned u64_max (to_dec (unat gid)) = Some (unat gid, [])"
    using read_dec [of "unat gid" u64_max "[]"] by simp
  ultimately show ?thesis
    by (simp add: marker_def readPreferred_def fs_contents_def outcome_of_def marker_lines)
qed

lemma writePreferred_file:
  assumes "writePreferred pid dir dep gid st = (ok, st')" "\<not> is_temp (preferredPath dir dep)"
  shows "files st' (preferredPath dir dep) =
      (if ok then Some (char_bytes (to_dec (unat gid) @ [CHR 0x0A])) else files st (preferredPath dir dep))"
    "ok \<Longrightarrow> dep \<noteq> 0 \<and> gid \<noteq> 0"
proof -
  let ?p = "preferredPath dir dep" and ?c = "char_bytes (to_dec (unat gid) @ [CHR 0x0A])"
  obtain b st1 where b: "on_fs fs_mkdirs st = (b, st1)" by fastforce
  then have f1: "files st1 = files st" using fs_mkdirs_files by (auto simp: on_fs_def split: prod.splits)
  obtain tmp st2 where t: "uniqueTempPath pid ?p st1 = (tmp, st2)" by fastforce
  have tmp: "is_temp tmp" using temp_is_temp [of pid ?p st1] t by simp
  have f2: "msFs st2 = msFs st1" using t by (auto simp: uniqueTempPath_def)
  obtain w st3 where w: "on_fs (fs_write_new tmp ?c) st2 = (w, st3)" by fastforce
  have f3: "same_names (files st3) (files st)" "w = Some True \<Longrightarrow> files st3 tmp = Some ?c"
    using w f1 f2 tmp by (auto simp: on_fs_def fs_write_new_def same_names_def split: outcome.splits option.splits)
  obtain r4 st4 where r4: "on_fs (fs_remove tmp) st3 = (r4, st4)" by fastforce
  obtain d st5 where d: "on_fs (fs_rename tmp ?p) st3 = (d, st5)" by fastforce
  then have f5: "if d then files st5 = (files st3)(?p := files st3 tmp, tmp := None) else files st5 = files st3"
    using fs_rename_files by (auto simp: on_fs_def split: prod.splits if_splits)
  obtain r6 st6 where r6: "on_fs (fs_remove tmp) st5 = (r6, st6)" by fastforce
  note k = remove_temp(1) [OF r4 tmp] remove_temp(1) [OF r6 tmp]
  have all: "(ok \<and> st' = st5 \<and> d \<and> w = Some True \<and> dep \<noteq> 0 \<and> gid \<noteq> 0) \<or>
      (\<not> ok \<and> (st' = st \<or> st' = st1 \<or> st' = st3 \<and> \<not> d \<or> st' = st3 \<or> st' = st4 \<or> st' = st6 \<and> \<not> d))"
    using assms(1) by (auto simp: writePreferred_def b t w d r4 r6 split: if_splits option.splits bool.splits)
  then show "ok \<Longrightarrow> dep \<noteq> 0 \<and> gid \<noteq> 0" by blast
  have "tmp \<noteq> ?p" using tmp assms(2) by blast
  then show "files st' ?p = (if ok then Some ?c else files st ?p)"
    using all f1 f3 f5 k assms(2) by (auto simp: same_names_def)
qed




section \<open>The newest manifest of a depot\<close>

text \<open>What an entry says of a depot: a manifest with a time that can be read.\<close>

definition offers :: "path \<Rightarrow> (path \<Rightarrow> contents option) \<Rightarrow> string \<times> int option \<Rightarrow> u32 \<Rightarrow> u64 \<Rightarrow> int \<Rightarrow> bool" where
  "offers dir F e dep gid t \<longleftrightarrow>
     parse_manifest_io (fst e) = Some (dep, gid) \<and> valid_at (path_join dir (fst e)) F \<and> snd e = Some t"

lemma calm_valid:
  assumes "fsOutcomes s = []"
  shows "isValidManifest p s = (valid_at p (fsFiles s), s)"
proof -
  have "outcome_of s = Works" "call_done s = s" using assms by (simp_all add: outcome_of_def call_done_def)
  then show ?thesis
    by (cases "fsFiles s p") (simp_all add: isValidManifest_def fs_exists_def fs_contents_def valid_at_def valid_contents_def not_less)
qed

lemma observe_calm:
  "fsOutcomes s = [] \<Longrightarrow> observe_manifest dir e (obs, s) =
     ((case parse_manifest_io (fst e) of
         Some (dep, gid) \<Rightarrow>
           (if valid_at (path_join dir (fst e)) (fsFiles s)
            then (case snd e of
                    Some t \<Rightarrow> (if (case obs dep of None \<Rightarrow> True | Some (_, t0) \<Rightarrow> t > t0) then obs(dep \<mapsto> (gid, t)) else obs)
                  | None \<Rightarrow> obs) else obs)
       | None \<Rightarrow> obs), s)"
  by (cases e) (auto simp: observe_manifest_def calm_valid split: option.splits)

definition newest_so_far :: "path \<Rightarrow> (path \<Rightarrow> contents option) \<Rightarrow> (string \<times> int option) list \<Rightarrow> u32 \<Rightarrow> (u64 \<times> int) option \<Rightarrow> bool" where
  "newest_so_far dir F es dep r \<longleftrightarrow>
     (case r of
        None \<Rightarrow> \<forall>e \<in> set es. \<forall>g t. \<not> offers dir F e dep g t
      | Some (gid, t) \<Rightarrow> (\<exists>e \<in> set es. offers dir F e dep gid t) \<and> (\<forall>e \<in> set es. \<forall>g' t'. offers dir F e dep g' t' \<longrightarrow> t' \<le> t))"

lemma newest_step:
  assumes "fsOutcomes s = []" "newest_so_far dir (fsFiles s) es dep (obs dep)"
  shows "newest_so_far dir (fsFiles s) (es @ [e]) dep (fst (observe_manifest dir e (obs, s)) dep)"
proof (cases "\<exists>g t. offers dir (fsFiles s) e dep g t")
  case False
  then have "fst (observe_manifest dir e (obs, s)) dep = obs dep"
    by (auto simp: observe_calm [OF assms(1)] offers_def split: option.splits)
  then show ?thesis using assms(2) False by (auto simp: newest_so_far_def split: option.splits)
next
  case True
  then obtain g t where o: "offers dir (fsFiles s) e dep g t" by blast
  then have u: "offers dir (fsFiles s) e dep g' t' \<longleftrightarrow> g' = g \<and> t' = t" for g' t' by (auto simp: offers_def)
  have "fst (observe_manifest dir e (obs, s)) dep = (if (case obs dep of None \<Rightarrow> True | Some (_, t0) \<Rightarrow> t > t0) then Some (g, t) else obs dep)"
    using o by (auto simp: observe_calm [OF assms(1)] offers_def)
  then show ?thesis using assms(2) by (fastforce simp: newest_so_far_def u split: option.splits if_splits)
qed

lemma newest_fold:
  assumes "fsOutcomes s = []"
  shows "snd (fold (observe_manifest dir) es (Map.empty, s)) = s \<and>
    newest_so_far dir (fsFiles s) es dep (fst (fold (observe_manifest dir) es (Map.empty, s)) dep)"
proof (induction es rule: rev_induct)
  case (snoc e es)
  obtain obs where obs: "fold (observe_manifest dir) es (Map.empty, s) = (obs, s)" using snoc by (metis prod.collapse)
  with snoc newest_step [OF assms, of dir es dep obs e] show ?case by (simp add: observe_calm [OF assms])
qed (simp add: newest_so_far_def)

text \<open>C35: The index names, for every depot the store has a manifest of, one of the newest, and no other depot.\<close>

theorem newest_index_exact:
  assumes "fsOutcomes s = []"
  shows "case fst (newestValidManifestGids dir es s) dep of
      None \<Rightarrow> \<forall>e \<in> set es. \<forall>g t. \<not> offers dir (fsFiles s) e dep g t
    | Some gid \<Rightarrow> \<exists>e \<in> set es. \<exists>t. offers dir (fsFiles s) e dep gid t \<and>
        (\<forall>e' \<in> set es. \<forall>g' t'. offers dir (fsFiles s) e' dep g' t' \<longrightarrow> t' \<le> t)"
proof -
  obtain obs where f: "fold (observe_manifest dir) es (Map.empty, s) = (obs, s)" using newest_fold [OF assms, of dir es] by (metis prod.collapse)
  then have n: "newest_so_far dir (fsFiles s) es dep (obs dep)" using newest_fold [OF assms, of dir es dep] by simp
  show ?thesis
  proof (cases "obs dep")
    case None
    then show ?thesis using n by (simp add: newestValidManifestGids_def newest_so_far_def f)
  next
    case (Some gt)
    obtain g t where gt: "gt = (g, t)" by (cases gt)
    have "\<exists>e \<in> set es. offers dir (fsFiles s) e dep g t" "\<forall>e \<in> set es. \<forall>g' t'. offers dir (fsFiles s) e dep g' t' \<longrightarrow> t' \<le> t"
      using n by (simp_all add: Some gt newest_so_far_def)
    then show ?thesis unfolding newestValidManifestGids_def f by (simp add: Some gt) blast
  qed
qed

lemma newest_index_exact_witness:
  "fst (newestValidManifestGids ''d'' [(manifestName 1 2, Some 5)]
     \<lparr>fsFiles = [path_join ''d'' (manifestName 1 2) \<mapsto> sample_manifest], fsOutcomes = [], fsPast = []\<rparr>) 1 = Some 2"
proof -
  let ?s = "\<lparr>fsFiles = [path_join ''d'' (manifestName 1 2) \<mapsto> sample_manifest], fsOutcomes = [], fsPast = []\<rparr>"
  have o: "offers ''d'' (fsFiles ?s) (manifestName 1 2, Some 5) 1 g t \<longleftrightarrow> g = 2 \<and> t = 5" for g t
    using sample_valid by (auto simp: offers_def parse_manifestName valid_at_def valid_contents_def)
  have "fsOutcomes ?s = []" by simp
  note e = newest_index_exact [OF this, where dir = "''d''" and es = "[(manifestName 1 2, Some 5)]" and dep = 1]
  show ?thesis
  proof (cases "fst (newestValidManifestGids ''d'' [(manifestName 1 2, Some 5)] ?s) 1")
    case None
    then show ?thesis using e o [THEN iffD2, of 2 5] by simp
  next
    case (Some g)
    then show ?thesis using e by (simp only: option.case list.set bex_simps o) blast
  qed
qed

text \<open>The older parser, that the store's scans use, takes a name whose number has anything behind it.\<close>

theorem foreign_name_taken:
  "gidFromName ''5_12abc.manifest'' ''5_'' = 12 \<and> parse_manifest_io ''5_12abc.manifest'' = None"
proof
  have twelve: "to_dec 12 = ''12''" by code_simp
  have "rfind manifest_ext ''5_12abc.manifest'' = Some 7" "starts_with ''5_'' ''5_12abc.manifest''" by code_simp+
  moreover have "read_unsigned u64_max ''12abc'' = Some (12, ''abc'')"
    using read_dec [of 12 u64_max "''abc''"] twelve by (simp add: u64_max_def is_digit_def char_code_def)
  ultimately show "gidFromName ''5_12abc.manifest'' ''5_'' = 12" by (simp add: gidFromName_def)
  have "parse_manifest_io ''5_12abc.manifest'' \<noteq> Some (d, g)" for d g
  proof
    assume "parse_manifest_io ''5_12abc.manifest'' = Some (d, g)"
    then obtain ds gs where "''5_12abc'' = ds @ CHR ''_'' # gs" "list_all is_digit ds" "list_all is_digit gs"
      by (auto simp: parse_io_iff manifest_text_def manifest_stem_def manifest_ext_def)
    then show False by (auto simp: Cons_eq_append_conv is_digit_def char_code_def)
  qed
  then show "parse_manifest_io ''5_12abc.manifest'' = None" by (cases "parse_manifest_io ''5_12abc.manifest''") auto
qed

end
