(* ===== verification/PatternScan.thy ===== *)
theory PatternScan
  imports CodeScan Quarantine OrdMap
begin

text \<open>
  Finding code by byte patterns, \<open>src/pattern_scan.hpp\<close>, and the signature search of \<open>src/memhlp.cpp\<close> and
  \<open>src/memhlp.hpp\<close>. Addresses are natural numbers below \<open>2 ^ 32\<close>; memory, the segments of the process and the
  disassembler are arguments.
\<close>

section \<open>Patterns\<close>

text \<open>\<open>std::strtoul(start, &start, 16)\<close>: the value and what is behind it; without digits nothing is consumed.\<close>

definition after_sign :: "string \<Rightarrow> string" where
  "after_sign t = (case t of c # u \<Rightarrow> if c = CHR ''-'' \<or> c = CHR ''+'' then u else t | [] \<Rightarrow> [])"

definition after_prefix :: "string \<Rightarrow> string" where
  "after_prefix t = (if length t > 2 \<and> t ! 0 = CHR ''0'' \<and> (t ! 1 = CHR ''x'' \<or> t ! 1 = CHR ''X'') \<and> is_hex (t ! 2) then drop 2 t else t)"

definition strtoul_hex :: "string \<Rightarrow> nat \<times> string" where
  "strtoul_hex s =
     (let t = dropWhile is_space s; p = after_prefix (after_sign t) in
      if takeWhile is_hex p = [] then (0, s) else (strtoul16 t, dropWhile is_hex p))"

lemma strtoul_hex_shorter: "length (snd (strtoul_hex s)) \<le> length s"
proof -
  have "length (after_prefix (after_sign (dropWhile is_space s))) \<le> length s"
    using length_dropWhile_le [of is_space s] by (auto simp: after_prefix_def after_sign_def split: list.splits)
  then show ?thesis using length_dropWhile_le [of is_hex] le_trans by (fastforce simp: strtoul_hex_def Let_def)
qed

text \<open>An \<open>unsigned long\<close> stored as \<open>int16_t\<close>.\<close>

definition int16 :: "nat \<Rightarrow> int" where
  "int16 v = sint (of_nat v :: 16 word)"

function patternToBytes :: "string \<Rightarrow> int list" where
  "patternToBytes [] = []"
| "patternToBytes (c # s) =
     (if c = CHR ''?'' then -1 # patternToBytes s
      else if c = CHR 0x20 then patternToBytes s
      else int16 (fst (strtoul_hex (c # s))) # patternToBytes (tl (snd (strtoul_hex (c # s)))))"
  by pat_completeness auto
termination
proof (relation "measure length")
  fix c :: char and s :: string
  show "(tl (snd (strtoul_hex (c # s))), c # s) \<in> measure length"
    using strtoul_hex_shorter [of "c # s"] by (cases "snd (strtoul_hex (c # s))") auto
qed auto

section \<open>One range\<close>

definition kBadAddress :: nat where "kBadAddress = 2 ^ 32 - 1"
definition kMaxConvergenceCandidates :: nat where "kMaxConvergenceCandidates = 256"

record range_result =
  rrAddress :: nat
  rrMatches :: nat

definition no_match :: range_result where "no_match = \<lparr>rrAddress = kBadAddress, rrMatches = 0\<rparr>"

text \<open>\<open>matchesAt\<close>.\<close>

fun matches_at :: "(nat \<Rightarrow> u8) \<Rightarrow> int list \<Rightarrow> nat \<Rightarrow> bool" where
  "matches_at mem [] a = True"
| "matches_at mem (b # bs) a = (if b \<ge> 0 \<and> mem a \<noteq> of_int b then False else matches_at mem bs (a + 1))"

text \<open>\<open>record\<close>: the list of addresses may be absent.\<close>

definition record_match :: "bool \<Rightarrow> nat \<Rightarrow> nat \<Rightarrow> range_result \<times> nat list option \<Rightarrow> range_result \<times> nat list option" where
  "record_match dup cap a = (\<lambda>(r, addrs).
     (let r = r\<lparr>rrMatches := rrMatches r + 1\<rparr>;
          r = (if rrMatches r = 1 \<or> dup then r\<lparr>rrAddress := a\<rparr> else r) in
      (r, case addrs of None \<Rightarrow> None | Some xs \<Rightarrow> if length xs < cap then Some (xs @ [a]) else Some xs)))"

text \<open>The loop over all candidates, for patterns of wildcards only.\<close>

fun every_loop :: "(nat \<Rightarrow> u8) \<Rightarrow> int list \<Rightarrow> bool \<Rightarrow> nat \<Rightarrow> nat \<Rightarrow> nat \<Rightarrow> range_result \<times> nat list option \<Rightarrow> range_result \<times> nat list option" where
  "every_loop mem bytes dup cap a 0 st = st"
| "every_loop mem bytes dup cap a (Suc n) st =
     (if matches_at mem bytes a
      then (if \<not> dup then record_match dup cap a st else every_loop mem bytes dup cap (a + 1) n (record_match dup cap a st))
      else every_loop mem bytes dup cap (a + 1) n st)"

fun memchr :: "(nat \<Rightarrow> u8) \<Rightarrow> u8 \<Rightarrow> nat \<Rightarrow> nat \<Rightarrow> nat option" where
  "memchr mem needle p 0 = None"
| "memchr mem needle p (Suc n) = (if mem p = needle then Some p else memchr mem needle (p + 1) n)"

lemma memchr_bounds: "memchr mem needle p n = Some q \<Longrightarrow> p \<le> q \<and> q < p + n"
  by (induction mem needle p n rule: memchr.induct) (auto split: if_splits)

function literal_loop :: "(nat \<Rightarrow> u8) \<Rightarrow> int list \<Rightarrow> bool \<Rightarrow> nat \<Rightarrow> nat \<Rightarrow> u8 \<Rightarrow> nat \<Rightarrow> nat \<Rightarrow>
    range_result \<times> nat list option \<Rightarrow> range_result \<times> nat list option" where
  "literal_loop mem bytes dup cap first needle search literalEnd st =
     (if search < literalEnd
      then (case memchr mem needle search (literalEnd - search) of
              None \<Rightarrow> st
            | Some literal \<Rightarrow>
                if matches_at mem bytes (literal - first)
                then (if \<not> dup then record_match dup cap (literal - first) st
                      else literal_loop mem bytes dup cap first needle (literal + 1) literalEnd (record_match dup cap (literal - first) st))
                else literal_loop mem bytes dup cap first needle (literal + 1) literalEnd st)
      else st)"
  by pat_completeness auto
termination
  by (relation "measure (\<lambda>(mem, bytes, dup, cap, first, needle, search, literalEnd, st). literalEnd - search)")
    (auto dest!: memchr_bounds)

declare literal_loop.simps [simp del]

fun first_literal :: "int list \<Rightarrow> nat" where
  "first_literal [] = 0"
| "first_literal (b # bs) = (if b < 0 then first_literal bs + 1 else 0)"

definition scanPatternRange :: "(nat \<Rightarrow> u8) \<Rightarrow> int list \<Rightarrow> nat \<Rightarrow> nat \<Rightarrow> bool \<Rightarrow> nat list option \<Rightarrow> nat \<Rightarrow> range_result \<times> nat list option" where
  "scanPatternRange mem bytes start stop dup addrs cap =
     (let patternSize = length bytes in
      if patternSize = 0 \<or> stop < start \<or> stop - start < patternSize then (no_match, addrs)
      else (let candidateCount = stop - start - patternSize + 1;
                fl = first_literal bytes in
            if fl = patternSize then every_loop mem bytes dup cap start candidateCount (no_match, addrs)
            else literal_loop mem bytes dup cap fl (of_int (bytes ! fl)) (start + fl) (start + fl + candidateCount) (no_match, addrs)))"

section \<open>The whole module\<close>

text \<open>\<open>PatternScanTotal\<close>.\<close>

definition total_resolved :: "range_result \<Rightarrow> bool" where
  "total_resolved t \<longleftrightarrow> rrMatches t = 1 \<and> rrAddress t \<noteq> kBadAddress"

definition accumulateScan :: "range_result \<Rightarrow> range_result \<Rightarrow> range_result" where
  "accumulateScan tot rng =
     (if rrMatches rng = 0 then tot
      else (let tot = tot\<lparr>rrMatches := rrMatches tot + rrMatches rng\<rparr> in
            if rrAddress tot = kBadAddress then tot\<lparr>rrAddress := rrAddress rng\<rparr> else tot))"

fun all_equal_to :: "nat \<Rightarrow> nat list \<Rightarrow> bool" where
  "all_equal_to t [] = True"
| "all_equal_to t (u # us) = (if u \<noteq> t then False else all_equal_to t us)"

definition convergedTarget :: "nat list \<Rightarrow> nat option" where
  "convergedTarget targets = (case targets of [] \<Rightarrow> None | t # _ \<Rightarrow> if all_equal_to t targets then Some t else None)"

record mem_segment =
  sgBase :: nat
  sgSize :: nat
  sgExec :: bool

record mem_module =
  mdBase :: nat
  mdSize :: nat

text \<open>\<open>enumSegments\<close>: readable and executable segments, by their base.\<close>

definition code_segments :: "mem_segment list \<Rightarrow> (nat, nat) omap" where
  "code_segments segs = fold (\<lambda>sg m. if sgExec sg then om_put (sgBase sg) ((sgBase sg + sgSize sg) mod 2 ^ 32) m else m) segs []"

definition scan_step :: "(nat \<Rightarrow> u8) \<Rightarrow> int list \<Rightarrow> mem_module \<Rightarrow> nat \<times> nat \<Rightarrow> range_result \<times> nat list option \<Rightarrow> range_result \<times> nat list option" where
  "scan_step mem bytes md = (\<lambda>(base, stop) (tot, addrs).
     (if mdBase md > stop then (tot, addrs)
      else if (mdBase md + mdSize md) mod 2 ^ 32 < base then (tot, addrs)
      else (case scanPatternRange mem bytes base stop True addrs kMaxConvergenceCandidates of
              (r, addrs) \<Rightarrow> (accumulateScan tot r, addrs))))"

text \<open>The address, the number of matches (\<open>None\<close> when it is left as it was) and the list of matches.\<close>

definition patternScan :: "(nat \<Rightarrow> u8) \<Rightarrow> mem_segment list \<Rightarrow> string \<Rightarrow> mem_module \<Rightarrow> nat list option \<Rightarrow> nat \<times> nat option \<times> nat list option" where
  "patternScan mem segs pattern md addrs =
     (let bytes = patternToBytes pattern in
      if bytes = [] then (kBadAddress, None, addrs)
      else (case fold (scan_step mem bytes md) (code_segments segs) (no_match, addrs) of
              (tot, addrs) \<Rightarrow> (if total_resolved tot then rrAddress tot else kBadAddress, Some (rrMatches tot), addrs)))"


section \<open>Following a match\<close>

text \<open>\<open>parseJumpTargetOperand\<close>; \<open>None\<close> is a null pointer.\<close>

definition operand_space :: "char \<Rightarrow> bool" where
  "operand_space c \<longleftrightarrow> c = CHR 0x20 \<or> c = CHR 0x09 \<or> c = CHR 0x0D \<or> c = CHR 0x0A"

definition parseJumpTargetOperand :: "string option \<Rightarrow> nat" where
  "parseJumpTargetOperand operand =
     (case operand of
        None \<Rightarrow> kBadAddress
      | Some s \<Rightarrow>
          (let t = rev (dropWhile operand_space (rev (dropWhile operand_space s))) in
           if t = [] then kBadAddress
           else (let u = (if length t \<ge> 2 \<and> t ! 0 = CHR ''0'' \<and> (t ! 1 = CHR ''x'' \<or> t ! 1 = CHR ''X'') then drop 2 t else t) in
                 if u = [] \<or> \<not> list_all is_hex u then kBadAddress
                 else (let v = foldl (\<lambda>n c. 16 * n + hex_val c) 0 u in if v < 2 ^ 32 then v else kBadAddress))))"

text \<open>The disassembler answers with mnemonic and operand.\<close>

type_synonym disassembler = "nat \<Rightarrow> (string \<times> string) option"

definition getJmpTarget :: "disassembler \<Rightarrow> nat \<Rightarrow> nat" where
  "getJmpTarget disasm a =
     (case disasm a of
        None \<Rightarrow> kBadAddress
      | Some (mnemonic, op) \<Rightarrow> if mnemonic \<noteq> ''jmp'' \<and> mnemonic \<noteq> ''call'' then kBadAddress else parseJumpTargetOperand (Some op))"

definition prologueWindowWithin :: "nat \<Rightarrow> nat \<Rightarrow> nat \<Rightarrow> nat \<Rightarrow> bool" where
  "prologueWindowWithin a lowerBound i prologueSize =
     (if prologueSize = 0 \<or> a < lowerBound then False
      else i \<le> a - lowerBound \<and> prologueSize - 1 \<le> a - lowerBound - i)"

definition prologueLowerBound :: "nat \<Rightarrow> nat \<Rightarrow> nat" where
  "prologueLowerBound moduleBase segmentBase =
     (if segmentBase = kBadAddress \<or> segmentBase < moduleBase then moduleBase else segmentBase)"

definition prologueByteMatches :: "int \<Rightarrow> u8 \<Rightarrow> bool" where
  "prologueByteMatches expected actual \<longleftrightarrow> expected = -1 \<or> expected = uint actual"

text \<open>Reading an address that is not mapped is a fault, \<open>None\<close>.\<close>

fun prologue_at :: "(nat \<Rightarrow> u8 option) \<Rightarrow> int list \<Rightarrow> nat \<Rightarrow> nat \<Rightarrow> bool option" where
  "prologue_at mem [] a j = Some True"
| "prologue_at mem (b # bs) a j =
     (case mem (a - j) of
        None \<Rightarrow> None
      | Some c \<Rightarrow> if prologueByteMatches b c then prologue_at mem bs a (j + 1) else Some False)"

fun prologue_loop :: "(nat \<Rightarrow> u8 option) \<Rightarrow> int list \<Rightarrow> nat \<Rightarrow> nat \<Rightarrow> nat \<Rightarrow> nat \<Rightarrow> nat option" where
  "prologue_loop mem pro a lowerBound i 0 = Some kBadAddress"
| "prologue_loop mem pro a lowerBound i (Suc n) =
     (if \<not> prologueWindowWithin a lowerBound i (length pro) then Some kBadAddress
      else (case prologue_at mem pro (a - i) 0 of
              None \<Rightarrow> None
            | Some True \<Rightarrow> Some (a - i - length pro + 1)
            | Some False \<Rightarrow> prologue_loop mem pro a lowerBound (i + 1) n))"

definition kPrologueScan :: nat where "kPrologueScan = 0x10000"

definition findPrologue :: "(nat \<Rightarrow> u8 option) \<Rightarrow> nat \<Rightarrow> nat \<Rightarrow> int list \<Rightarrow> nat option" where
  "findPrologue mem a lowerBound pro = prologue_loop mem pro a lowerBound 0 kPrologueScan"

section \<open>The signature search\<close>

datatype follow_mode = NoFollow | Relative | PrologueUpwards

record search_result =
  seMatch :: nat
  seTarget :: nat
  seMatches :: nat

text \<open>The targets of the matches; one that cannot be followed leaves none.\<close>

fun follow_all :: "disassembler \<Rightarrow> nat list \<Rightarrow> nat list \<Rightarrow> nat list" where
  "follow_all disasm [] targets = targets"
| "follow_all disasm (c # cs) targets =
     (let followed = getJmpTarget disasm c in
      if followed = kBadAddress then [] else follow_all disasm cs (targets @ [followed]))"

text \<open>The base of the segment of a match is an argument, \<open>None\<close> when it is not found. \<open>None\<close> is a fault.\<close>

text \<open>The bytes of segments that are scanned; they are taken to be mapped.\<close>

definition scan_bytes :: "(nat \<Rightarrow> u8 option) \<Rightarrow> nat \<Rightarrow> u8" where
  "scan_bytes mem a = (case mem a of None \<Rightarrow> 0 | Some b \<Rightarrow> b)"

definition searchSignatureDetailed :: "(nat \<Rightarrow> u8 option) \<Rightarrow> mem_segment list \<Rightarrow> disassembler \<Rightarrow> (nat \<Rightarrow> nat option) \<Rightarrow>
    string \<Rightarrow> mem_module \<Rightarrow> follow_mode \<Rightarrow> int list \<Rightarrow> search_result option" where
  "searchSignatureDetailed mem segs disasm segment_of signature md fmode extra =
     (case patternScan (scan_bytes mem) segs signature md (Some []) of
        (found, counted, addrs) \<Rightarrow>
          (let matches = (case counted of None \<Rightarrow> 0 | Some n \<Rightarrow> n); allMatches = (case addrs of None \<Rightarrow> [] | Some xs \<Rightarrow> xs) in
           if matches > 1 then
             (let converged = (if fmode = Relative \<and> matches \<le> kMaxConvergenceCandidates \<and> length allMatches = matches
                               then convergedTarget (follow_all disasm allMatches []) else None) in
              case converged of
                Some t \<Rightarrow> Some \<lparr>seMatch = hd allMatches, seTarget = t, seMatches = matches\<rparr>
              | None \<Rightarrow> Some \<lparr>seMatch = kBadAddress, seTarget = kBadAddress, seMatches = matches\<rparr>)
           else if found = kBadAddress then Some \<lparr>seMatch = found, seTarget = found, seMatches = matches\<rparr>
           else (case fmode of
                   Relative \<Rightarrow> Some \<lparr>seMatch = found, seTarget = getJmpTarget disasm found, seMatches = matches\<rparr>
                 | PrologueUpwards \<Rightarrow>
                     (case segment_of found of
                        None \<Rightarrow> Some \<lparr>seMatch = found, seTarget = kBadAddress, seMatches = matches\<rparr>
                      | Some base \<Rightarrow>
                          map_option (\<lambda>t. \<lparr>seMatch = found, seTarget = t, seMatches = matches\<rparr>)
                            (findPrologue mem found (prologueLowerBound (mdBase md) base) extra))
                 | NoFollow \<Rightarrow> Some \<lparr>seMatch = found, seTarget = found, seMatches = matches\<rparr>)))"


section \<open>The scan finds every match\<close>

definition range_matches :: "(nat \<Rightarrow> u8) \<Rightarrow> int list \<Rightarrow> nat \<Rightarrow> nat \<Rightarrow> nat list" where
  "range_matches mem bytes start stop =
     (if bytes = [] \<or> stop - start < length bytes then [] else filter (matches_at mem bytes) [start..<stop - length bytes + 1])"

definition taken :: "bool \<Rightarrow> nat list \<Rightarrow> nat list" where
  "taken dup ms = (if dup then ms else take 1 ms)"

lemma taken_simps [simp]: "taken dup [] = []" "taken True ms = ms" "taken False (a # ms) = [a]" "taken dup (a # ms) = a # (if dup then ms else [])"
  by (simp_all add: taken_def)

lemma every_loop_fold:
  "every_loop mem bytes dup cap a n st = fold (record_match dup cap) (taken dup (filter (matches_at mem bytes) [a..<a + n])) st"
proof (induction n arbitrary: a st)
  case (Suc n)
  have e: "[a..<a + Suc n] = a # [a + 1..<a + 1 + n]" by (subst upt_conv_Cons) simp_all
  show ?case unfolding e by (simp only: every_loop.simps Suc.IH) (auto simp del: upt_Suc)
qed simp

lemma memchr_Some: "memchr mem x p n = Some q \<Longrightarrow> p \<le> r \<Longrightarrow> r < q \<Longrightarrow> mem r \<noteq> x"
proof (induction mem x p n rule: memchr.induct)
  case (2 mem x p n)
  then show ?case by (cases "r = p") (auto split: if_splits)
qed simp

lemma memchr_None: "memchr mem x p n = None \<Longrightarrow> p \<le> r \<Longrightarrow> r < p + n \<Longrightarrow> mem r \<noteq> x"
proof (induction mem x p n rule: memchr.induct)
  case (2 mem x p n)
  then show ?case by (cases "r = p") (auto split: if_splits)
qed simp

lemma matches_literal:
  "matches_at mem bytes a \<Longrightarrow> first_literal bytes < length bytes \<Longrightarrow> mem (a + first_literal bytes) = of_int (bytes ! first_literal bytes)"
proof (induction bytes arbitrary: a)
  case (Cons b bs)
  then show ?case using Cons.IH [of "a + 1"] by (auto split: if_splits)
qed simp

lemma first_literal_le: "first_literal bytes \<le> length bytes"
  by (induction bytes) auto

lemma filter_gap:
  assumes "\<And>r. a \<le> r \<Longrightarrow> r < b \<Longrightarrow> \<not> P r" "a \<le> b" "b \<le> c"
  shows "filter P [a..<c] = filter P [b..<c]"
proof -
  have "[a..<c] = [a..<b] @ [b..<c]" using assms(2,3) upt_add_eq_append [of a b "c - b"] by simp
  moreover have "filter P [a..<b] = []" using assms(1) by (simp add: filter_empty_conv)
  ultimately show ?thesis by simp
qed

lemma literal_loop_fold:
  assumes "fl = first_literal bytes" "fl < length bytes" "needle = of_int (bytes ! fl)" "fl \<le> search"
  shows "literal_loop mem bytes dup cap fl needle search literalEnd st =
    fold (record_match dup cap) (taken dup (filter (matches_at mem bytes) [search - fl..<literalEnd - fl])) st"
  using assms
proof (induction mem bytes dup cap fl needle search literalEnd st rule: literal_loop.induct)
  case (1 mem bytes dup cap fl needle search literalEnd st)
  let ?P = "matches_at mem bytes"
  have no: "\<not> ?P r" if "mem (r + fl) \<noteq> needle" for r
    using that matches_literal [of mem bytes r] 1(3-5) by auto
  show ?case
  proof (cases "search < literalEnd")
    case False
    then show ?thesis by (subst literal_loop.simps) simp
  next
    case True
    show ?thesis
    proof (cases "memchr mem needle search (literalEnd - search)")
      case None
      have "\<not> ?P r" if "search - fl \<le> r" "r < literalEnd - fl" for r
        using memchr_None [OF None, of "r + fl"] that True 1(6) by (intro no) auto
      then have "filter ?P [search - fl..<literalEnd - fl] = []" by (simp add: filter_empty_conv)
      with None True show ?thesis by (subst literal_loop.simps) simp
    next
      case (Some q)
      have q: "search \<le> q" "q < literalEnd" using memchr_bounds [OF Some] True by auto
      have skip: "\<not> ?P r" if "search - fl \<le> r" "r < q - fl" for r
        using memchr_Some [OF Some, of "r + fl"] that 1(6) by (intro no) auto
      have "filter ?P [search - fl..<literalEnd - fl] = filter ?P [q - fl..<literalEnd - fl]"
        by (rule filter_gap [OF skip]) (use q in auto)
      also have "[q - fl..<literalEnd - fl] = (q - fl) # [q + 1 - fl..<literalEnd - fl]"
        using q 1(6) by (subst upt_conv_Cons) (auto simp: Suc_diff_le)
      finally have all: "filter ?P [search - fl..<literalEnd - fl] =
          (if ?P (q - fl) then [q - fl] else []) @ filter ?P [q + 1 - fl..<literalEnd - fl]" by simp
      show ?thesis
      proof (cases "?P (q - fl)")
        case hit: True
        show ?thesis
          using 1(1) [OF True Some hit] 1(3-6) q all hit True Some
          by (subst literal_loop.simps) simp
      next
        case False
        then show ?thesis
          using 1(2) [OF True Some False] 1(3-6) q all True Some
          by (subst literal_loop.simps) simp
      qed
    qed
  qed
qed

lemma scan_fold:
  "scanPatternRange mem bytes start stop dup addrs cap =
     fold (record_match dup cap) (taken dup (range_matches mem bytes start stop)) (no_match, addrs)"
proof (cases "bytes = [] \<or> stop - start < length bytes")
  case True
  then show ?thesis by (auto simp: scanPatternRange_def range_matches_def)
next
  case False
  then have ok: "bytes \<noteq> []" "\<not> stop < start" "\<not> stop - start < length bytes" by auto
  have e: "start + (stop - start - length bytes + 1) = stop - length bytes + 1" using ok by simp
  show ?thesis
  proof (cases "first_literal bytes = length bytes")
    case True
    then show ?thesis using ok unfolding scanPatternRange_def Let_def range_matches_def every_loop_fold e by auto
  next
    case False
    then have fl: "first_literal bytes < length bytes" using first_literal_le [of bytes] by simp
    have "start + first_literal bytes + (stop - start - length bytes + 1) - first_literal bytes = stop - length bytes + 1"
      using e by simp
    then show ?thesis
      using literal_loop_fold [OF refl fl refl, where search = "start + first_literal bytes" and
          literalEnd = "start + first_literal bytes + (stop - start - length bytes + 1)"] ok False
      unfolding scanPatternRange_def Let_def range_matches_def by auto
  qed
qed

section \<open>The verdict over the module\<close>

lemma record_dup:
  "record_match True cap m (r, addrs) =
     (\<lparr>rrAddress = m, rrMatches = rrMatches r + 1\<rparr>, map_option (\<lambda>xs. if length xs < cap then xs @ [m] else xs) addrs)"
  by (cases r) (auto simp: record_match_def Let_def split: option.split)

lemma fold_record_dup:
  "fold (record_match True cap) ms (r, addrs) =
     (\<lparr>rrAddress = (if ms = [] then rrAddress r else last ms), rrMatches = rrMatches r + length ms\<rparr>,
      map_option (\<lambda>xs. if length xs < cap then take cap (xs @ ms) else xs) addrs)"
proof (induction ms arbitrary: r addrs)
  case Nil
  then show ?case by (cases r; cases addrs) auto
next
  case (Cons m ms)
  show ?case by (cases addrs) (auto simp: record_dup Cons.IH not_less take_Cons')
qed

text \<open>The ranges of the executable segments that touch the module, and all matches in them.\<close>

definition scanned_ranges :: "mem_segment list \<Rightarrow> mem_module \<Rightarrow> (nat \<times> nat) list" where
  "scanned_ranges segs md = filter (\<lambda>(base, stop). mdBase md \<le> stop \<and> base \<le> (mdBase md + mdSize md) mod 2 ^ 32) (code_segments segs)"

definition all_matches :: "(nat \<Rightarrow> u8) \<Rightarrow> mem_segment list \<Rightarrow> string \<Rightarrow> mem_module \<Rightarrow> nat list" where
  "all_matches mem segs pattern md =
     concat (map (\<lambda>(base, stop). range_matches mem (patternToBytes pattern) base stop) (scanned_ranges segs md))"

definition total_of :: "nat list \<Rightarrow> range_result \<Rightarrow> bool" where
  "total_of ms t \<longleftrightarrow> rrMatches t = length ms \<and>
     (if ms = [] then rrAddress t = kBadAddress else rrAddress t \<in> set ms \<and> rrAddress t \<noteq> kBadAddress)"

lemma range_below:
  assumes "a \<in> set (range_matches mem bytes start stop)"
  shows "start \<le> a \<and> a + length bytes \<le> stop \<and> bytes \<noteq> [] \<and> matches_at mem bytes a"
  using assms by (auto simp: range_matches_def split: if_splits)

lemma total_step:
  assumes "total_of ms t" "\<forall>m \<in> set ms'. m \<noteq> kBadAddress"
  shows "total_of (ms @ ms') (accumulateScan t (fst (fold (record_match True cap) ms' (no_match, addrs))))"
proof -
  have f: "fst (fold (record_match True cap) ms' (no_match, addrs)) = \<lparr>rrAddress = (if ms' = [] then kBadAddress else last ms'), rrMatches = length ms'\<rparr>"
    by (simp only: fold_record_dup fst_conv) (simp add: no_match_def)
  show ?thesis
  proof (cases "ms' = []")
    case False
    then have "last ms' \<in> set ms'" by simp
    then show ?thesis unfolding f using assms False by (cases "ms = []") (simp_all add: total_of_def accumulateScan_def Let_def)
  next
    case True
    then show ?thesis using assms(1) by (simp add: accumulateScan_def no_match_def)
  qed
qed

lemma scan_ranges:
  assumes "total_of ms t" "\<forall>(base, stop) \<in> set rs. stop < 2 ^ 32"
  shows "\<exists>t'. fold (scan_step mem bytes md) rs (t, Some (take kMaxConvergenceCandidates ms)) =
      (t', Some (take kMaxConvergenceCandidates
        (ms @ concat (map (\<lambda>(base, stop). range_matches mem bytes base stop)
           (filter (\<lambda>(base, stop). mdBase md \<le> stop \<and> base \<le> (mdBase md + mdSize md) mod 2 ^ 32) rs))))) \<and>
    total_of (ms @ concat (map (\<lambda>(base, stop). range_matches mem bytes base stop)
           (filter (\<lambda>(base, stop). mdBase md \<le> stop \<and> base \<le> (mdBase md + mdSize md) mod 2 ^ 32) rs))) t'"
  using assms
proof (induction rs arbitrary: ms t)
  case (Cons r rs)
  obtain base stop where r: "r = (base, stop)" by fastforce
  show ?case
  proof (cases "mdBase md \<le> stop \<and> base \<le> (mdBase md + mdSize md) mod 2 ^ 32")
    case False
    then show ?thesis using Cons.IH [OF Cons.prems(1)] Cons.prems(2) by (auto simp: r scan_step_def)
  next
    case True
    let ?ms = "range_matches mem bytes base stop" and ?xs = "take kMaxConvergenceCandidates ms"
    obtain q addrs where q: "scanPatternRange mem bytes base stop True (Some ?xs) kMaxConvergenceCandidates = (q, addrs)" by fastforce
    have f: "fold (record_match True kMaxConvergenceCandidates) ?ms (no_match, Some ?xs) = (q, addrs)"
      using q by (simp add: scan_fold)
    have "stop \<le> kBadAddress" using Cons.prems(2) by (simp add: r kBadAddress_def)
    moreover have "m + length bytes \<le> stop \<and> bytes \<noteq> []" if "m \<in> set ?ms" for m using range_below [OF that] by blast
    ultimately have "\<forall>m \<in> set ?ms. m \<noteq> kBadAddress" by (metis add_leD1 add_le_same_cancel1 le_antisym le_trans length_0_conv le_zero_eq)
    then have t: "total_of (ms @ ?ms) (accumulateScan t q)"
      using total_step [OF Cons.prems(1), of ?ms kMaxConvergenceCandidates "Some ?xs"] f by simp
    have "addrs = Some (take kMaxConvergenceCandidates (ms @ ?ms))"
      using f by (auto simp: fold_record_dup)
    then show ?thesis
      using Cons.IH [OF t] Cons.prems(2) True by (simp add: r scan_step_def q)
  qed
qed simp

lemma segments_below: "\<forall>(base, stop) \<in> set (code_segments segs). stop < 2 ^ 32"
proof -
  have put: "set (om_put k v m) \<subseteq> insert (k, v) (set m)" for k v and m :: "(nat, nat) omap"
    by (induction k v m rule: om_put.induct) auto
  have "\<forall>(base, stop) \<in> set (fold (\<lambda>sg m. if sgExec sg then om_put (sgBase sg) ((sgBase sg + sgSize sg) mod 2 ^ 32) m else m) segs m). stop < 2 ^ 32"
    if "\<forall>(base, stop) \<in> set m. stop < (2 ^ 32 :: nat)" for m :: "(nat, nat) omap"
    using that
  proof (induction segs arbitrary: m)
    case (Cons sg segs)
    let ?m = "if sgExec sg then om_put (sgBase sg) ((sgBase sg + sgSize sg) mod 2 ^ 32) m else m"
    have "set ?m \<subseteq> insert (sgBase sg, (sgBase sg + sgSize sg) mod 2 ^ 32) (set m)" using put by auto
    then have "\<forall>(base, stop) \<in> set ?m. stop < 2 ^ 32" using Cons.prems by auto
    then show ?case using Cons.IH [of ?m] by simp
  qed simp
  from this [of "[]"] show ?thesis by (simp add: code_segments_def)
qed

lemma patternScan_matches:
  assumes "patternToBytes pattern \<noteq> []"
  shows "\<exists>t. patternScan mem segs pattern md (Some []) =
      (if total_resolved t then rrAddress t else kBadAddress, Some (length (all_matches mem segs pattern md)),
       Some (take kMaxConvergenceCandidates (all_matches mem segs pattern md))) \<and> total_of (all_matches mem segs pattern md) t"
proof -
  have "total_of [] no_match" by (simp add: total_of_def no_match_def)
  from scan_ranges [OF this segments_below [of segs], of mem "patternToBytes pattern" md]
  obtain t where t: "fold (scan_step mem (patternToBytes pattern) md) (code_segments segs) (no_match, Some []) =
      (t, Some (take kMaxConvergenceCandidates (all_matches mem segs pattern md)))" "total_of (all_matches mem segs pattern md) t"
    unfolding all_matches_def scanned_ranges_def by auto
  moreover have "rrMatches t = length (all_matches mem segs pattern md)" using t(2) by (simp add: total_of_def)
  ultimately show ?thesis using assms by (intro exI [of _ t]) (simp add: patternScan_def)
qed


section \<open>Following\<close>

lemma all_equal_to_iff: "all_equal_to t us \<longleftrightarrow> (\<forall>u \<in> set us. u = t)"
  by (induction us) auto

lemma follow_all_eq:
  "follow_all disasm cs ts = (if \<exists>c \<in> set cs. getJmpTarget disasm c = kBadAddress then [] else ts @ map (getJmpTarget disasm) cs)"
  by (induction cs arbitrary: ts) (auto simp: Let_def)

definition same_target :: "disassembler \<Rightarrow> nat list \<Rightarrow> bool" where
  "same_target disasm ms \<longleftrightarrow> ms \<noteq> [] \<and> (\<exists>t. t \<noteq> kBadAddress \<and> (\<forall>m \<in> set ms. getJmpTarget disasm m = t))"

lemma converged_follow:
  "convergedTarget (follow_all disasm ms []) = (if same_target disasm ms then Some (getJmpTarget disasm (hd ms)) else None)"
proof (cases ms)
  case (Cons m ms')
  show ?thesis
  proof (cases "\<exists>c \<in> set ms. getJmpTarget disasm c = kBadAddress")
    case True
    then have "\<not> same_target disasm ms" unfolding same_target_def by metis
    with True show ?thesis by (simp add: follow_all_eq convergedTarget_def)
  next
    case False
    have "same_target disasm ms \<longleftrightarrow> (\<forall>c \<in> set ms'. getJmpTarget disasm c = getJmpTarget disasm m)"
      using False unfolding same_target_def Cons by (metis list.distinct(1) list.set_intros(1) set_ConsD list.set_intros(2))
    then show ?thesis
      using False unfolding follow_all_eq by (simp add: convergedTarget_def Cons all_equal_to_iff)
  qed
qed (simp add: convergedTarget_def same_target_def)

lemma empty_pattern: "patternToBytes pattern = [] \<Longrightarrow> all_matches mem segs pattern md = []"
  by (auto simp: all_matches_def range_matches_def)

lemma single_resolved:
  assumes "total_of ms t"
  shows "(if total_resolved t then rrAddress t else kBadAddress) = (if length ms = 1 then hd ms else kBadAddress)"
    "length ms = 1 \<Longrightarrow> hd ms \<noteq> kBadAddress"
proof -
  have m: "rrAddress t = m \<and> m \<noteq> kBadAddress" if "ms = [m]" for m using assms that by (simp add: total_of_def)
  then show "length ms = 1 \<Longrightarrow> hd ms \<noteq> kBadAddress" by (cases ms) auto
  have "rrMatches t = length ms" using assms by (simp add: total_of_def)
  moreover have "ms = [hd ms]" if "length ms = 1" using that by (cases ms) auto
  ultimately show "(if total_resolved t then rrAddress t else kBadAddress) = (if length ms = 1 then hd ms else kBadAddress)"
    using m [of "hd ms"] unfolding total_resolved_def by metis
qed

text \<open>C13: A signature resolves just when it has one match in all scanned segments, or, when relative jumps are
  followed, when all its matches, few enough, lead to the same place.\<close>

theorem signature_exact:
  "let ms = all_matches (scan_bytes mem) segs signature md in
     map_option seTarget (searchSignatureDetailed mem segs disasm segment_of signature md NoFollow extra) =
       Some (if length ms = 1 then hd ms else kBadAddress) \<and>
     map_option seTarget (searchSignatureDetailed mem segs disasm segment_of signature md Relative extra) =
       Some (if length ms = 1 \<or> (length ms \<le> kMaxConvergenceCandidates \<and> same_target disasm ms) then getJmpTarget disasm (hd ms) else kBadAddress)"
proof (cases "patternToBytes signature = []")
  case True
  then show ?thesis by (simp add: searchSignatureDetailed_def patternScan_def empty_pattern same_target_def)
next
  case False
  let ?ms = "all_matches (scan_bytes mem) segs signature md"
  obtain t where "patternScan (scan_bytes mem) segs signature md (Some []) =
      (if total_resolved t then rrAddress t else kBadAddress, Some (length ?ms), Some (take kMaxConvergenceCandidates ?ms))" "total_of ?ms t"
    using patternScan_matches [OF False] by blast
  note ps = this(1) [unfolded single_resolved(1) [OF this(2)]] and ne = single_resolved(2) [OF this(2)]
  consider "length ?ms = 0" | "length ?ms = 1" | "length ?ms > 1" by linarith
  then show ?thesis
  proof cases
    case 3
    then have "?ms \<noteq> []" by auto
    with 3 show ?thesis
      by (auto simp: searchSignatureDetailed_def ps Let_def converged_follow split: option.splits)
  qed (use ne in \<open>auto simp: searchSignatureDetailed_def ps Let_def same_target_def\<close>)
qed

section \<open>Reads stay where they may\<close>

lemma matches_at_cong:
  "(\<And>i. i < length bytes \<Longrightarrow> mem (a + i) = mem' (a + i)) \<Longrightarrow> matches_at mem bytes a = matches_at mem' bytes a"
proof (induction bytes arbitrary: a)
  case (Cons b bs)
  have "mem a = mem' a" using Cons.prems [of 0] by simp
  moreover have "matches_at mem bs (a + 1) = matches_at mem' bs (a + 1)"
    using Cons.prems [of "Suc _"] by (intro Cons.IH) simp
  ultimately show ?case by simp
qed simp

text \<open>The result of a scan depends on the bytes of the range only.\<close>

theorem scan_reads_range:
  assumes "\<And>a. start \<le> a \<Longrightarrow> a < stop \<Longrightarrow> mem a = mem' a"
  shows "scanPatternRange mem bytes start stop dup addrs cap = scanPatternRange mem' bytes start stop dup addrs cap"
proof -
  have "matches_at mem bytes a = matches_at mem' bytes a" if "a \<in> set [start..<stop - length bytes + 1]" "length bytes \<le> stop - start" for a
    using that by (intro matches_at_cong assms) auto
  then have "range_matches mem bytes start stop = range_matches mem' bytes start stop"
    unfolding range_matches_def by (auto intro!: filter_cong simp del: upt_Suc)
  then show ?thesis by (simp only: scan_fold)
qed

lemma scan_reads_range_witness:
  "scanPatternRange (\<lambda>_. 0) [0, -1] 3 5 True (Some []) 4 = scanPatternRange (\<lambda>a. if a < 5 then 0 else 1) [0, -1] 3 5 True (Some []) 4"
  by (rule scan_reads_range) simp


text \<open>The bytes upwards from \<open>a\<close> are those of the prologue, last one first in the list.\<close>

definition prologue_here :: "(nat \<Rightarrow> u8 option) \<Rightarrow> int list \<Rightarrow> nat \<Rightarrow> bool" where
  "prologue_here mem pro a \<longleftrightarrow> (\<forall>k < length pro. \<exists>c. mem (a - k) = Some c \<and> prologueByteMatches (pro ! k) c)"

lemma prologue_at_eq:
  assumes "\<And>k. k < length pro \<Longrightarrow> mem (a - (j + k)) \<noteq> None"
  shows "prologue_at mem pro a j = Some (\<forall>k < length pro. \<exists>c. mem (a - (j + k)) = Some c \<and> prologueByteMatches (pro ! k) c)"
  using assms
proof (induction pro arbitrary: j)
  case (Cons b bs)
  obtain c where c: "mem (a - j) = Some c" using Cons.prems [of 0] by auto
  have "prologue_at mem bs a (j + 1) = Some (\<forall>k < length bs. \<exists>c. mem (a - (j + 1 + k)) = Some c \<and> prologueByteMatches (bs ! k) c)"
    using Cons.prems [of "Suc _"] by (intro Cons.IH) simp
  then show ?case using c by (auto simp: All_less_Suc2)
qed simp

definition prologue_windows :: "nat \<Rightarrow> nat \<Rightarrow> int list \<Rightarrow> nat" where
  "prologue_windows a lowerBound pro = (if pro = [] \<or> a < lowerBound then 0 else a - lowerBound + 2 - length pro)"

lemma window_iff: "prologueWindowWithin a lowerBound i (length pro) \<longleftrightarrow> i < prologue_windows a lowerBound pro"
  by (cases pro) (auto simp: prologueWindowWithin_def prologue_windows_def)

lemma prologue_loop_eq:
  assumes "\<And>x. lowerBound \<le> x \<Longrightarrow> x \<le> a \<Longrightarrow> mem x \<noteq> None"
  shows "prologue_loop mem pro a lowerBound i n =
    Some (case find (\<lambda>i. prologue_here mem pro (a - i)) [i..<min (i + n) (prologue_windows a lowerBound pro)] of
            None \<Rightarrow> kBadAddress | Some i \<Rightarrow> a - i - length pro + 1)"
proof (induction n arbitrary: i)
  case (Suc n)
  show ?case
  proof (cases "i < prologue_windows a lowerBound pro")
    case False
    then show ?thesis by (simp add: window_iff)
  next
    case True
    then have w: "pro \<noteq> []" "lowerBound \<le> a" "i + length pro \<le> a - lowerBound + 1"
      by (auto simp: prologue_windows_def split: if_splits)
    then have "mem (a - i - (0 + k)) \<noteq> None" if "k < length pro" for k using that by (intro assms) auto
    then have p: "prologue_at mem pro (a - i) 0 = Some (prologue_here mem pro (a - i))"
      using prologue_at_eq [of pro mem "a - i" 0] by (simp add: prologue_here_def)
    have "[i..<min (i + Suc n) (prologue_windows a lowerBound pro)] = i # [i + 1..<min (i + 1 + n) (prologue_windows a lowerBound pro)]"
      using True by (subst upt_conv_Cons) auto
    then show ?thesis using True p Suc.IH [of "i + 1"] by (simp add: window_iff)
  qed
qed simp

text \<open>C34: Between the match and the lower bound, when all of it is mapped, the search for a prologue never faults and
  gives the nearest place.\<close>

theorem findPrologue_nearest:
  assumes "\<And>x. lowerBound \<le> x \<Longrightarrow> x \<le> a \<Longrightarrow> mem x \<noteq> None"
  shows "findPrologue mem a lowerBound pro =
    Some (case find (\<lambda>i. prologue_here mem pro (a - i)) [0..<min kPrologueScan (prologue_windows a lowerBound pro)] of
            None \<Rightarrow> kBadAddress | Some i \<Rightarrow> a - i - length pro + 1)"
  using prologue_loop_eq [of lowerBound a mem pro 0 kPrologueScan] assms by (simp add: findPrologue_def)

definition sample_memory :: "nat \<Rightarrow> u8 option" where
  "sample_memory a = (if 10 \<le> a \<and> a < 14 then Some (of_nat a) else None)"

lemma findPrologue_nearest_witness:
  "findPrologue sample_memory 13 10 [12, 11] = Some 11"
proof -
  have m: "sample_memory x \<noteq> None" if "10 \<le> x" "x \<le> 13" for x using that by (simp add: sample_memory_def)
  have "min kPrologueScan (prologue_windows 13 10 [12, 11]) = 3" by (simp add: prologue_windows_def kPrologueScan_def)
  moreover have "[0..<3] = [0, 1, 2::nat]" by (simp add: upt_rec)
  moreover have "\<not> prologue_here sample_memory [12, 11] 13" "prologue_here sample_memory [12, 11] 12"
    by (auto simp: prologue_here_def sample_memory_def prologueByteMatches_def All_less_Suc2)
  ultimately show ?thesis using findPrologue_nearest [where lowerBound = 10 and a = 13 and mem = sample_memory and pro = "[12, 11]"] m by simp
qed

section \<open>Patterns are read as written\<close>

definition token_text :: "u8 option \<Rightarrow> string" where
  "token_text t = (case t of None \<Rightarrow> ''?'' | Some b \<Rightarrow> hex2 b)"

definition token_value :: "u8 option \<Rightarrow> int" where
  "token_value t = (case t of None \<Rightarrow> -1 | Some b \<Rightarrow> uint b)"

definition pattern_text :: "u8 option list \<Rightarrow> string" where
  "pattern_text ts = concat (map (\<lambda>t. token_text t @ '' '') ts)"

lemma hex_no_space: "is_hex c \<Longrightarrow> \<not> is_space c \<and> c \<noteq> CHR ''?'' \<and> c \<noteq> CHR 0x20 \<and> c \<noteq> CHR ''-'' \<and> c \<noteq> CHR ''+''"
  by (auto simp: is_hex_def is_digit_def is_space_def char_code_def)

lemma strtoul_hex2: "strtoul_hex (hex2 b @ CHR 0x20 # s) = (unat b, CHR 0x20 # s)"
proof -
  obtain c d where cd: "hex2 b = [c, d]" "is_hex c" "is_hex d"
    using unat_byte_less [of b] hex_digit_facts [of "unat b div 16"] hex_digit_facts [of "unat b mod 16"] by (auto simp: hex2_def)
  have sp: "\<not> is_hex (CHR 0x20)" "\<not> is_hex (CHR ''x'')" "\<not> is_hex (CHR ''X'')" by code_simp+
  note n = hex_no_space [OF cd(2)]
  have "d \<noteq> CHR ''x''" "d \<noteq> CHR ''X''" using cd(3) sp by auto
  then have a: "dropWhile is_space (hex2 b @ CHR 0x20 # s) = hex2 b @ CHR 0x20 # s" "after_sign (hex2 b @ CHR 0x20 # s) = hex2 b @ CHR 0x20 # s"
    "after_prefix (hex2 b @ CHR 0x20 # s) = hex2 b @ CHR 0x20 # s"
    using n by (auto simp: cd after_sign_def after_prefix_def)
  have "strtoul16 (hex2 b @ CHR 0x20 # s) = strtoul16 (hex2 b)"
    using n cd sp \<open>d \<noteq> CHR ''x''\<close> \<open>d \<noteq> CHR ''X''\<close> by (simp add: strtoul16_def)
  then show ?thesis using a n cd sp strtoul16_hex2 [of b] by (simp add: strtoul_hex_def)
qed

lemma int16_byte: "int16 (unat (b :: u8)) = uint b"
proof -
  have "unat b < 256" by (rule unat_byte_less)
  then have "unat (of_nat (unat b) :: 16 word) = unat b" by (subst unsigned_of_nat) (simp add: take_bit_nat_eq_self)
  then have "uint (of_nat (unat b) :: 16 word) = uint b" by (metis uint_nat)
  moreover have "uint b < 2 ^ LENGTH(8)" by (rule unsigned_less)
  moreover have "0 \<le> uint b" by simp
  ultimately have "- (2 ^ 15) \<le> uint b \<and> uint b < 2 ^ 15" "uint (of_nat (unat b) :: 16 word) = uint b" by (simp_all, linarith)
  then show ?thesis using signed_take_bit_int_eq_self [of 15 "uint b"] by (simp add: int16_def sint_uint)
qed

text \<open>A pattern written as bytes and wildcards, each followed by a blank, is read as that.\<close>

theorem pattern_roundtrip:
  "patternToBytes (pattern_text ts) = map token_value ts"
proof (induction ts)
  case (Cons t ts)
  show ?case
  proof (cases t)
    case None
    then show ?thesis using Cons by (simp add: pattern_text_def token_text_def token_value_def)
  next
    case (Some b)
    obtain c d where cd: "hex2 b = [c, d]" by (auto simp: hex2_def)
    have "is_hex c" using unat_byte_less [of b] hex_digit_facts [of "unat b div 16"] cd by (auto simp: hex2_def)
    note n = hex_no_space [OF this]
    have "patternToBytes (pattern_text (t # ts)) = patternToBytes (hex2 b @ CHR 0x20 # pattern_text ts)"
      by (simp add: pattern_text_def token_text_def Some)
    also have "\<dots> = int16 (unat b) # patternToBytes (pattern_text ts)"
      using strtoul_hex2 [of b "pattern_text ts"] n by (simp add: cd)
    finally show ?thesis using Cons by (simp add: token_value_def Some int16_byte)
  qed
qed (simp add: pattern_text_def)

end
