(* ===== verification/RawCache.thy ===== *)
theory RawCache
  imports CachePolicy RefreshQueue
begin

text \<open>
  The queue of raw product-info buffers in \<open>src/feats/pics.cpp\<close>: enqueuing under a lock, one worker that takes what
  is pending as a batch, stores or repairs its items and puts back those it could do nothing for, and the start of
  the worker, which may fail. Threads interleave as steps of one relation; an operation under the lock is one step.
  An allocation failure inside the worker and a failing \<open>std::thread::detach\<close> are left out.
\<close>

section \<open>Items\<close>

record raw_item =
  riApp :: u32
  riChange :: u32
  riSha :: string
  riBuffer :: bytes
  riVdfPath :: string
  riManaged :: bool
  riGeneration :: u64

type_synonym raw_map = "(u32, raw_item) omap"

definition rawCacheItemShouldReplace :: "u64 \<Rightarrow> u32 \<Rightarrow> u64 \<Rightarrow> u32 \<Rightarrow> bool" where
  "rawCacheItemShouldReplace pendingGeneration pendingChange incomingGeneration incomingChange =
     (if incomingGeneration \<noteq> pendingGeneration then incomingGeneration > pendingGeneration
      else incomingChange \<ge> pendingChange)"

definition rawCacheWorkerShouldContinueAfterDeferral :: "bool \<Rightarrow> bool" where
  "rawCacheWorkerShouldContinueAfterDeferral hadConcurrentPending = hadConcurrentPending"

definition raw_put :: "u32 \<Rightarrow> raw_item \<Rightarrow> raw_map \<Rightarrow> raw_map" where
  "raw_put app item m =
     (case om_find m app of
        None \<Rightarrow> om_put app item m
      | Some p \<Rightarrow>
          if rawCacheItemShouldReplace (riGeneration p) (riChange p) (riGeneration item) (riChange item)
          then om_put app item m else m)"

text \<open>What becomes of one item: \<open>persist\<close> and \<open>probe\<close> may throw, as may the call that asks for a refresh.\<close>

datatype item_outcome = Persisted | Recovered | Deferred

definition item_result :: "bool option \<Rightarrow> cache_readiness option \<Rightarrow> bool \<Rightarrow> item_outcome" where
  "item_result persist probe refreshed =
     (if persist = Some True then Persisted
      else (case probe of
              None \<Rightarrow> Deferred
            | Some r \<Rightarrow> if r = Fresh \<or> r = ValidStale then Recovered else if refreshed then Recovered else Deferred))"

definition repair_request :: "raw_item \<Rightarrow> refresh_request" where
  "repair_request item =
     \<lparr>rqAppId = riApp item, rqMinimumChange = riChange item, rqGeneration = riGeneration item,
      rqReasons = reasonMask CacheRepair, rqForceRefresh = True, rqPublishRuntime = False\<rparr>"

section \<open>The threads\<close>

text \<open>A worker: being started, in front of the queue, or in a batch with what is left of it and what is deferred.\<close>

datatype worker = Starting | AtQueue | InBatch raw_map raw_map

record raw_queue =
  rqpPending :: raw_map
  rqpActive :: bool
  rqpWorkers :: "worker list"

definition raw_idle :: raw_queue where
  "raw_idle = \<lparr>rqpPending = [], rqpActive = False, rqpWorkers = []\<rparr>"

text \<open>\<open>enqueueRawCacheItems\<close>: the queue, and whether this call has to start the worker.\<close>

definition enqueue_items :: "raw_item list \<Rightarrow> raw_queue \<Rightarrow> bool \<times> raw_queue" where
  "enqueue_items items q =
     (if items = [] then (False, q)
      else (let q = q\<lparr>rqpPending := fold (\<lambda>item. raw_put (riApp item) item) items (rqpPending q)\<rparr> in
            if rqpActive q then (False, q)
            else (True, q\<lparr>rqpActive := True, rqpWorkers := rqpWorkers q @ [Starting]\<rparr>)))"

text \<open>The answer of the call: the start's result when it starts the worker, else whether there were items.\<close>

definition enqueue_answer :: "raw_item list \<Rightarrow> raw_queue \<Rightarrow> bool \<Rightarrow> bool" where
  "enqueue_answer items q started = (if items = [] then False else if rqpActive q then True else started)"

definition start_failed :: "nat \<Rightarrow> raw_queue \<Rightarrow> raw_queue" where
  "start_failed i q = q\<lparr>rqpActive := False, rqpWorkers := take i (rqpWorkers q) @ drop (i + 1) (rqpWorkers q)\<rparr>"

definition worker_leaves :: "nat \<Rightarrow> raw_queue \<Rightarrow> raw_queue" where
  "worker_leaves i q = q\<lparr>rqpActive := False, rqpWorkers := take i (rqpWorkers q) @ drop (i + 1) (rqpWorkers q)\<rparr>"

definition set_worker :: "nat \<Rightarrow> worker \<Rightarrow> raw_queue \<Rightarrow> raw_queue" where
  "set_worker i w q = q\<lparr>rqpWorkers := (rqpWorkers q)[i := w]\<rparr>"

definition take_batch :: "nat \<Rightarrow> raw_queue \<Rightarrow> raw_queue" where
  "take_batch i q =
     (if rqpPending q = [] then worker_leaves i q
      else set_worker i (InBatch (rqpPending q) []) (q\<lparr>rqpPending := []\<rparr>))"

definition merge_deferred :: "raw_map \<Rightarrow> raw_map \<Rightarrow> raw_map" where
  "merge_deferred deferred pending = fold (\<lambda>(app, item). raw_put app item) deferred pending"

definition finish_batch :: "nat \<Rightarrow> raw_map \<Rightarrow> raw_queue \<Rightarrow> raw_queue" where
  "finish_batch i deferred q =
     (if deferred = [] then set_worker i AtQueue q
      else (let hadConcurrentPending = (rqpPending q \<noteq> []);
                q = q\<lparr>rqpPending := merge_deferred deferred (rqpPending q)\<rparr> in
            if rawCacheWorkerShouldContinueAfterDeferral hadConcurrentPending then set_worker i AtQueue q
            else worker_leaves i q))"

text \<open>A history beside the queue: the items that came, those that were stored or left to a repair, and those that
  were deferred or whose worker did not start.\<close>

record raw_history =
  rhSeen :: "raw_item set"
  rhSettled :: "raw_item set"
  rhGivenUp :: "raw_item set"

inductive worker_step :: "raw_queue \<times> raw_history \<Rightarrow> raw_queue \<times> raw_history \<Rightarrow> bool" where
  starts: "i < length (rqpWorkers q) \<Longrightarrow> rqpWorkers q ! i = Starting \<Longrightarrow> worker_step (q, h) (set_worker i AtQueue q, h)"
| fails: "i < length (rqpWorkers q) \<Longrightarrow> rqpWorkers q ! i = Starting \<Longrightarrow>
    worker_step (q, h) (start_failed i q, h\<lparr>rhGivenUp := rhGivenUp h \<union> set (om_values (rqpPending q))\<rparr>)"
| takes: "i < length (rqpWorkers q) \<Longrightarrow> rqpWorkers q ! i = AtQueue \<Longrightarrow> worker_step (q, h) (take_batch i q, h)"
| settles: "i < length (rqpWorkers q) \<Longrightarrow> rqpWorkers q ! i = InBatch ((app, item) # batch) deferred \<Longrightarrow>
    item_result persist probe refreshed \<noteq> Deferred \<Longrightarrow>
    worker_step (q, h) (set_worker i (InBatch batch deferred) q, h\<lparr>rhSettled := insert item (rhSettled h)\<rparr>)"
| defers: "i < length (rqpWorkers q) \<Longrightarrow> rqpWorkers q ! i = InBatch ((app, item) # batch) deferred \<Longrightarrow>
    item_result persist probe refreshed = Deferred \<Longrightarrow>
    worker_step (q, h) (set_worker i (InBatch batch (om_put app item deferred)) q, h\<lparr>rhGivenUp := insert item (rhGivenUp h)\<rparr>)"
| finishes: "i < length (rqpWorkers q) \<Longrightarrow> rqpWorkers q ! i = InBatch [] deferred \<Longrightarrow>
    worker_step (q, h) (finish_batch i deferred q, h)"

inductive raw_step :: "raw_queue \<times> raw_history \<Rightarrow> raw_queue \<times> raw_history \<Rightarrow> bool" where
  enqueues: "raw_step (q, h) (snd (enqueue_items items q), h\<lparr>rhSeen := rhSeen h \<union> set items\<rparr>)"
| works: "worker_step s s' \<Longrightarrow> raw_step s s'"

definition raw_start :: "raw_queue \<times> raw_history" where
  "raw_start = (raw_idle, \<lparr>rhSeen = {}, rhSettled = {}, rhGivenUp = {}\<rparr>)"

section \<open>Nothing is lost, and one worker at most\<close>

definition newer_or_same :: "raw_item \<Rightarrow> raw_item \<Rightarrow> bool" where
  "newer_or_same a b \<longleftrightarrow> riApp a = riApp b \<and> rawCacheItemShouldReplace (riGeneration b) (riChange b) (riGeneration a) (riChange a)"

lemma newer_refl: "newer_or_same a a"
  by (simp add: newer_or_same_def rawCacheItemShouldReplace_def)

lemma newer_trans: "newer_or_same a b \<Longrightarrow> newer_or_same b c \<Longrightarrow> newer_or_same a c"
  by (auto simp: newer_or_same_def rawCacheItemShouldReplace_def split: if_splits)

lemma newer_total: "riApp a = riApp b \<Longrightarrow> newer_or_same a b \<or> newer_or_same b a"
  by (auto simp: newer_or_same_def rawCacheItemShouldReplace_def)

definition map_fits :: "raw_map \<Rightarrow> bool" where
  "map_fits m \<longleftrightarrow> om_ok m \<and> (\<forall>(app, item) \<in> set m. riApp item = app)"

fun held_by :: "worker \<Rightarrow> raw_item set" where
  "held_by Starting = {}"
| "held_by AtQueue = {}"
| "held_by (InBatch batch deferred) = set (om_values batch) \<union> set (om_values deferred)"

fun worker_fits :: "worker \<Rightarrow> bool" where
  "worker_fits (InBatch batch deferred) \<longleftrightarrow> map_fits batch \<and> map_fits deferred \<and> fst ` set batch \<inter> fst ` set deferred = {}"
| "worker_fits w \<longleftrightarrow> True"

definition held :: "raw_queue \<Rightarrow> raw_item set" where
  "held q = set (om_values (rqpPending q)) \<union> \<Union> (held_by ` set (rqpWorkers q))"

definition covered :: "raw_item set \<Rightarrow> raw_item \<Rightarrow> bool" where
  "covered S a \<longleftrightarrow> (\<exists>b \<in> S. newer_or_same b a)"


lemma covered_self: "a \<in> S \<Longrightarrow> covered S a"
  unfolding covered_def using newer_refl by blast

lemma covered_through: "covered S x \<Longrightarrow> (\<And>a. a \<in> S \<Longrightarrow> covered T a) \<Longrightarrow> covered T x"
  unfolding covered_def using newer_trans by blast

lemma covered_mono: "covered S x \<Longrightarrow> S \<subseteq> T \<Longrightarrow> covered T x"
  unfolding covered_def by blast

abbreviation vals :: "raw_map \<Rightarrow> raw_item set" where
  "vals m \<equiv> set (om_values m)"

lemma vals_find: "map_fits m \<Longrightarrow> a \<in> vals m \<longleftrightarrow> om_find m (riApp a) = Some a"
proof
  assume m: "map_fits m" and a: "a \<in> vals m"
  then obtain k where k: "(k, a) \<in> set m" by (auto simp: om_values_def)
  then have "riApp a = k" using m by (auto simp: map_fits_def)
  then show "om_find m (riApp a) = Some a" using k m by (simp add: map_fits_def om_find_in_set)
next
  assume m: "map_fits m" and f: "om_find m (riApp a) = Some a"
  then have "(riApp a, a) \<in> set m" by (simp add: map_fits_def om_find_in_set)
  then show "a \<in> vals m" by (force simp: om_values_def)
qed

lemma put_fits: "map_fits m \<Longrightarrow> riApp item = app \<Longrightarrow> map_fits (om_put app item m)"
proof -
  assume m: "map_fits m" "riApp item = app"
  have "riApp x = k" if "(k, x) \<in> set (om_put app item m)" for k x
  proof -
    have "om_find (om_put app item m) k = Some x" using that m by (simp add: map_fits_def flip: om_find_in_set)
    then have "(k = app \<and> x = item) \<or> om_find m k = Some x" by (auto split: if_splits)
    then show ?thesis using m by (auto simp: map_fits_def om_find_in_set)
  qed
  then show ?thesis using m by (auto simp: map_fits_def)
qed

lemma raw_put_facts:
  assumes "map_fits m" "riApp item = app"
  shows "map_fits (raw_put app item m)" "vals (raw_put app item m) \<subseteq> insert item (vals m)" "raw_put app item m \<noteq> []"
    "covered (vals (raw_put app item m)) item" "a \<in> vals m \<Longrightarrow> covered (vals (raw_put app item m)) a"
proof -
  note fits = put_fits [OF assms]
  have put: "a \<in> vals (om_put app item m) \<longleftrightarrow> a = item \<or> (a \<in> vals m \<and> riApp a \<noteq> app)" for a
    using assms by (auto simp: vals_find [OF fits] vals_find [OF assms(1)])
  show "map_fits (raw_put app item m)" "vals (raw_put app item m) \<subseteq> insert item (vals m)" "raw_put app item m \<noteq> []"
    using assms(1) fits put by (auto simp: raw_put_def split: option.splits)
  show "covered (vals (raw_put app item m)) item"
  proof (cases "om_find m app")
    case None
    then show ?thesis using put by (auto simp: raw_put_def intro: covered_self)
  next
    case (Some p)
    have p: "p \<in> vals m" "riApp p = app" using Some assms(1) by (force simp: om_find_in_set map_fits_def om_values_def)+
    show ?thesis
    proof (cases "newer_or_same item p")
      case True
      then have "raw_put app item m = om_put app item m" using Some by (simp add: raw_put_def newer_or_same_def)
      then show ?thesis using put by (auto intro: covered_self)
    next
      case False
      then have "newer_or_same p item" "raw_put app item m = m"
        using newer_total [of p item] p assms(2) Some by (auto simp: raw_put_def newer_or_same_def)
      then show ?thesis using p by (auto simp: covered_def)
    qed
  qed
  show "covered (vals (raw_put app item m)) a" if a: "a \<in> vals m"
  proof (cases "raw_put app item m = m")
    case True
    then show ?thesis using a by (simp add: covered_self)
  next
    case False
    then have e: "raw_put app item m = om_put app item m" by (auto simp: raw_put_def split: option.splits if_splits)
    show ?thesis
    proof (cases "riApp a = app")
      case True
      then have "om_find m app = Some a" using a vals_find [OF assms(1)] by simp
      then have "newer_or_same item a" using False assms(2) True by (auto simp: raw_put_def newer_or_same_def split: if_splits)
      then show ?thesis using put e by (auto simp: covered_def)
    qed (use a put e in \<open>auto intro: covered_self\<close>)
  qed
qed

lemma fold_put_facts:
  assumes "map_fits m" "\<forall>(app, item) \<in> set es. riApp item = app"
  shows "map_fits (fold (\<lambda>(app, item). raw_put app item) es m) \<and>
    vals (fold (\<lambda>(app, item). raw_put app item) es m) \<subseteq> snd ` set es \<union> vals m \<and>
    (\<forall>a \<in> snd ` set es \<union> vals m. covered (vals (fold (\<lambda>(app, item). raw_put app item) es m)) a)"
  using assms
proof (induction es arbitrary: m)
  case (Cons e es)
  obtain app item where e: "e = (app, item)" by fastforce
  then have app: "riApp item = app" using Cons.prems(2) by simp
  note r = raw_put_facts [OF Cons.prems(1) app]
  note ih = Cons.IH [OF r(1)]
  let ?F = "fold (\<lambda>(app, item). raw_put app item) es (raw_put app item m)"
  have IH: "map_fits ?F" "vals ?F \<subseteq> snd ` set es \<union> vals (raw_put app item m)" "\<forall>a \<in> snd ` set es \<union> vals (raw_put app item m). covered (vals ?F) a"
    using ih Cons.prems(2) by auto
  have "covered (vals ?F) a" if "a \<in> insert item (vals m)" for a
  proof -
    have "covered (vals (raw_put app item m)) a" using that r(4,5) by blast
    then show ?thesis using IH(3) by (blast intro: covered_through)
  qed
  then show ?case using IH r(2) by (auto simp: e)
qed (auto intro: covered_self)

section \<open>The invariant\<close>

fun deferred_of :: "worker \<Rightarrow> raw_item set" where
  "deferred_of (InBatch batch deferred) = vals deferred"
| "deferred_of w = {}"

definition raw_inv :: "raw_queue \<times> raw_history \<Rightarrow> bool" where
  "raw_inv s \<longleftrightarrow> (case s of (q, h) \<Rightarrow>
     length (rqpWorkers q) \<le> 1 \<and> (rqpActive q \<longleftrightarrow> rqpWorkers q \<noteq> []) \<and>
     map_fits (rqpPending q) \<and> (\<forall>w \<in> set (rqpWorkers q). worker_fits w) \<and>
     (\<forall>a \<in> rhSeen h. covered (rhSettled h \<union> held q) a) \<and>
     (\<not> rqpActive q \<longrightarrow> vals (rqpPending q) \<subseteq> rhGivenUp h) \<and>
     (\<forall>w \<in> set (rqpWorkers q). deferred_of w \<subseteq> rhGivenUp h))"

lemma only_worker: "length ws \<le> 1 \<Longrightarrow> i < length ws \<Longrightarrow> ws ! i = w \<Longrightarrow> i = 0 \<and> ws = [w]"
  by (cases ws) auto

lemma inv_worker: "raw_inv (q, h) \<Longrightarrow> i < length (rqpWorkers q) \<Longrightarrow> rqpWorkers q ! i = w \<Longrightarrow> i = 0 \<and> rqpWorkers q = [w]"
  by (rule only_worker) (simp_all add: raw_inv_def)

lemma raw_inv_enqueue:
  assumes "raw_inv (q, h)"
  shows "raw_inv (snd (enqueue_items items q), h\<lparr>rhSeen := rhSeen h \<union> set items\<rparr>)"
proof (cases "items = []")
  case True
  then show ?thesis using assms by (simp add: enqueue_items_def)
next
  case False
  let ?m = "fold (\<lambda>item. raw_put (riApp item) item) items (rqpPending q)" and ?q = "snd (enqueue_items items q)"
  have m: "?m = fold (\<lambda>(app, item). raw_put app item) (map (\<lambda>i. (riApp i, i)) items) (rqpPending q)"
    by (simp add: fold_map comp_def)
  have f: "map_fits ?m" "\<forall>a \<in> set items \<union> vals (rqpPending q). covered (vals ?m) a"
    unfolding m using fold_put_facts [of "rqpPending q" "map (\<lambda>i. (riApp i, i)) items"] assms
    by (auto simp: raw_inv_def image_image)
  have q: "rqpPending ?q = ?m" "rqpActive ?q" "rqpWorkers ?q = (if rqpActive q then rqpWorkers q else rqpWorkers q @ [Starting])"
    using False by (auto simp: enqueue_items_def Let_def)
  have "held ?q = vals ?m \<union> \<Union> (held_by ` set (rqpWorkers q))" by (auto simp: held_def q)
  then have "covered (rhSettled h \<union> held ?q) a" if "a \<in> rhSettled h \<union> held q \<or> a \<in> set items" for a
    using that f(2) by (auto simp: held_def intro: covered_self covered_mono [of "vals ?m"])
  then have "\<forall>a \<in> rhSeen h \<union> set items. covered (rhSettled h \<union> held ?q) a"
    using assms by (auto simp: raw_inv_def intro: covered_through)
  then show ?thesis using assms f(1) q by (cases "rqpActive q") (auto simp: raw_inv_def)
qed

lemma worker_inv: "worker_step s s' \<Longrightarrow> raw_inv s \<Longrightarrow> raw_inv s'"
proof (induction rule: worker_step.induct)
  case (starts i q h)
  then have w: "i = 0" "rqpWorkers q = [Starting]" using inv_worker [OF starts.prems starts.hyps(1,2)] by simp_all
  then show ?case using starts by (auto simp: raw_inv_def set_worker_def held_def)
next
  case (fails i q h)
  then have w: "i = 0" "rqpWorkers q = [Starting]" using inv_worker [OF fails.prems fails.hyps(1,2)] by simp_all
  then show ?case using fails by (auto simp: raw_inv_def start_failed_def held_def)
next
  case (takes i q h)
  then have w: "i = 0" "rqpWorkers q = [AtQueue]" using inv_worker [OF takes.prems takes.hyps(1,2)] by simp_all
  then show ?case using takes
    by (auto simp: raw_inv_def take_batch_def worker_leaves_def set_worker_def held_def om_values_def map_fits_def)
next
  case (settles i q app item batch deferred persist probe refreshed h)
  then have w: "i = 0" "rqpWorkers q = [InBatch ((app, item) # batch) deferred]"
    using inv_worker [OF settles.prems settles.hyps(1,2)] by simp_all
  have "rhSettled h \<union> held q = insert item (rhSettled h) \<union> held (set_worker i (InBatch batch deferred) q)"
    by (auto simp: held_def w set_worker_def om_values_def)
  then show ?case using settles w by (auto simp: raw_inv_def set_worker_def map_fits_def om_ok_def)
next
  case (defers i q app item batch deferred persist probe refreshed h)
  then have w: "i = 0" "rqpWorkers q = [InBatch ((app, item) # batch) deferred]"
    using inv_worker [OF defers.prems defers.hyps(1,2)] by simp_all
  have fits: "map_fits ((app, item) # batch)" "map_fits deferred" "app \<notin> fst ` set deferred" "fst ` set batch \<inter> fst ` set deferred = {}"
    using defers.prems w by (auto simp: raw_inv_def)
  have app: "riApp item = app" and "map_fits batch" "app \<notin> fst ` set batch"
    using fits(1) by (auto simp: map_fits_def om_ok_def)
  note put = put_fits [OF fits(2) app]
  have "om_find deferred app = None" using fits(3) by (simp add: om_find_None_iff)
  then have v: "vals (om_put app item deferred) = insert item (vals deferred)"
    unfolding set_eq_iff insert_iff vals_find [OF put] vals_find [OF fits(2)] using app by auto
  have "held q = held (set_worker i (InBatch batch (om_put app item deferred)) q)"
    by (auto simp: held_def w set_worker_def v) (auto simp: om_values_def)
  then show ?case using defers.prems w put v \<open>map_fits batch\<close> fits(4) \<open>app \<notin> fst ` set batch\<close>
    by (auto simp: raw_inv_def set_worker_def fst_set_om_put)
next
  case (finishes i q deferred h)
  then have w: "i = 0" "rqpWorkers q = [InBatch [] deferred]" using inv_worker [OF finishes.prems finishes.hyps(1,2)] by simp_all
  have fits: "map_fits (rqpPending q)" "\<forall>(app, item) \<in> set deferred. riApp item = app" "vals deferred \<subseteq> rhGivenUp h"
    using finishes.prems w by (auto simp: raw_inv_def map_fits_def)
  let ?m = "merge_deferred deferred (rqpPending q)"
  note f = fold_put_facts [OF fits(1,2), folded merge_deferred_def]
  have vd: "snd ` set deferred = vals deferred" by (simp add: om_values_def)
  have cover: "covered (rhSettled h \<union> vals ?m) a" if "a \<in> rhSeen h" for a
  proof -
    have "covered (rhSettled h \<union> (vals (rqpPending q) \<union> vals deferred)) a"
      using finishes.prems that w by (auto simp: raw_inv_def held_def Un_commute om_values_def)
    moreover have "covered (rhSettled h \<union> vals ?m) b" if "b \<in> rhSettled h \<union> (vals (rqpPending q) \<union> vals deferred)" for b
    proof (cases "b \<in> rhSettled h")
      case True
      then show ?thesis by (intro covered_self) simp
    next
      case False
      then have "covered (vals ?m) b" using that f vd by blast
      then show ?thesis by (rule covered_mono) simp
    qed
    ultimately show ?thesis by (rule covered_through)
  qed
  have sub: "vals ?m \<subseteq> vals deferred \<union> vals (rqpPending q)" using f vd by simp
  have ne: "rqpPending q = [] \<Longrightarrow> vals ?m \<subseteq> rhGivenUp h" using sub fits(3) by (simp add: om_values_def)
  show ?case
  proof (cases "deferred = []")
    case True
    then show ?thesis using finishes.prems w
      by (auto simp: raw_inv_def finish_batch_def set_worker_def held_def om_values_def)
  next
    case False
    let ?q = "finish_batch i deferred q"
    have q: "rqpPending ?q = ?m" "rqpWorkers ?q = (if rqpPending q = [] then [] else [AtQueue])" "rqpActive ?q \<longleftrightarrow> rqpPending q \<noteq> []"
      using False finishes.prems w by (auto simp: finish_batch_def rawCacheWorkerShouldContinueAfterDeferral_def set_worker_def worker_leaves_def
          Let_def raw_inv_def)
    then have "held ?q = vals ?m" by (auto simp: held_def)
    then have "\<forall>a \<in> rhSeen h. covered (rhSettled h \<union> held ?q) a" using cover by simp
    then show ?thesis using f ne q by (simp add: raw_inv_def)
  qed
qed


lemma raw_inv_step: "raw_step s s' \<Longrightarrow> raw_inv s \<Longrightarrow> raw_inv s'"
  by (induction rule: raw_step.induct) (auto intro: raw_inv_enqueue worker_inv)

lemma raw_inv_reachable: "raw_step\<^sup>*\<^sup>* raw_start s \<Longrightarrow> raw_inv s"
proof (induction rule: rtranclp_induct)
  case base
  show ?case by (simp add: raw_start_def raw_idle_def raw_inv_def map_fits_def om_values_def)
qed (rule raw_inv_step)


definition sample_item :: "u32 \<Rightarrow> raw_item" where
  "sample_item app = \<lparr>riApp = app, riChange = 1, riSha = [], riBuffer = [], riVdfPath = [], riManaged = True, riGeneration = 1\<rparr>"

text \<open>A call that finds a worker being started is told that its items are taken; when the start then fails, they
  stay where they are without a worker.\<close>

lemma answered_and_stranded:
  fixes a b :: raw_item
  defines "q1 \<equiv> snd (enqueue_items [a] raw_idle)"
  defines "q2 \<equiv> snd (enqueue_items [b] q1)"
  defines "h2 \<equiv> \<lparr>rhSeen = {a, b}, rhSettled = {}, rhGivenUp = {}\<rparr>"
  defines "h3 \<equiv> h2\<lparr>rhGivenUp := set (om_values (rqpPending q2))\<rparr>"
  shows "raw_step\<^sup>*\<^sup>* raw_start (start_failed 0 q2, h3)" "\<not> rqpActive (start_failed 0 q2)" "enqueue_answer [b] q1 started"
    "riApp a \<noteq> riApp b \<Longrightarrow> set (om_values (rqpPending (start_failed 0 q2))) = {a, b}"
proof -
  have w1: "rqpWorkers q1 = [Starting]" "rqpActive q1" by (simp_all add: q1_def enqueue_items_def raw_idle_def)
  then have w2: "rqpWorkers q2 = [Starting]" by (simp add: q2_def enqueue_items_def Let_def)
  have "raw_step raw_start (q1, \<lparr>rhSeen = {a}, rhSettled = {}, rhGivenUp = {}\<rparr>)"
    using raw_step.enqueues [of raw_idle "\<lparr>rhSeen = {}, rhSettled = {}, rhGivenUp = {}\<rparr>" "[a]"] by (simp add: raw_start_def q1_def)
  moreover have "raw_step (q1, \<lparr>rhSeen = {a}, rhSettled = {}, rhGivenUp = {}\<rparr>) (q2, h2)"
    using raw_step.enqueues [of q1 "\<lparr>rhSeen = {a}, rhSettled = {}, rhGivenUp = {}\<rparr>" "[b]"] by (simp add: q2_def h2_def insert_commute)
  moreover have "raw_step (q2, h2) (start_failed 0 q2, h3)"
    using worker_step.fails [of 0 q2 h2] w2 by (auto simp: h3_def h2_def intro: raw_step.works)
  ultimately show "raw_step\<^sup>*\<^sup>* raw_start (start_failed 0 q2, h3)" by (meson converse_rtranclp_into_rtranclp rtranclp.rtrancl_refl)
  show "\<not> rqpActive (start_failed 0 q2)" by (simp add: start_failed_def)
  show "enqueue_answer [b] q1 started" using w1 by (simp add: enqueue_answer_def)
  show "set (om_values (rqpPending (start_failed 0 q2))) = {a, b}" if "riApp a \<noteq> riApp b"
    using that by (auto simp: start_failed_def q2_def q1_def enqueue_items_def raw_idle_def raw_put_def om_find_def om_values_def Let_def)
qed

theorem start_failure_strands:
  "riApp a \<noteq> riApp b \<Longrightarrow> \<exists>q h. raw_step\<^sup>*\<^sup>* raw_start (q, h) \<and> \<not> rqpActive q \<and> rqpWorkers q = [] \<and> rhSettled h = {} \<and>
     enqueue_answer [b] (snd (enqueue_items [a] raw_idle)) False \<and> b \<in> set (om_values (rqpPending q))"
proof -
  assume ab: "riApp a \<noteq> riApp b"
  note r = answered_and_stranded [where a = a and b = b]
  let ?q = "start_failed 0 (snd (enqueue_items [b] (snd (enqueue_items [a] raw_idle))))"
  have "rqpWorkers ?q = []" using raw_inv_reachable [OF r(1)] r(2) by (simp add: raw_inv_def)
  then show ?thesis using r(1,2,3) r(4) [OF ab] by (intro exI conjI) (assumption | simp)+
qed

lemma start_failure_strands_witness:
  "\<exists>q h. raw_step\<^sup>*\<^sup>* raw_start (q, h) \<and> \<not> rqpActive q \<and> rqpWorkers q = [] \<and> rhSettled h = {} \<and>
     enqueue_answer [sample_item 2] (snd (enqueue_items [sample_item 1] raw_idle)) False \<and> sample_item 2 \<in> set (om_values (rqpPending q))"
  by (rule start_failure_strands) (simp add: sample_item_def)


section \<open>The worker stops\<close>

fun work_left :: "nat \<Rightarrow> worker \<Rightarrow> nat" where
  "work_left p Starting = p + 4"
| "work_left p AtQueue = (if p = 0 then 1 else p + 3)"
| "work_left p (InBatch batch deferred) = (if p = 0 then length batch + 2 else p + length deferred + 2 * length batch + 4)"

definition total_work :: "raw_queue \<Rightarrow> nat" where
  "total_work q = sum_list (map (work_left (length (rqpPending q))) (rqpWorkers q))"


lemma raw_put_length: "length (raw_put app item m) \<le> Suc (length m)"
proof -
  have "length (om_put app item m) \<le> Suc (length m)" for app and item :: raw_item and m
    by (induction app item m rule: om_put.induct) auto
  then show ?thesis by (auto simp: raw_put_def split: option.split)
qed

lemma om_put_length: "length (om_put app item m) \<le> Suc (length m)"
  by (induction app item m rule: om_put.induct) auto

lemma merge_length: "length (merge_deferred d m) \<le> length d + length m"
  unfolding merge_deferred_def
proof (induction d arbitrary: m)
  case (Cons e d)
  show ?case using Cons.IH [of "raw_put (fst e) (snd e) m"] raw_put_length [of "fst e" "snd e" m] by (simp add: case_prod_beta)
qed simp

lemma worker_step_less: "worker_step s s' \<Longrightarrow> raw_inv s \<Longrightarrow> total_work (fst s') < total_work (fst s)"
proof (induction rule: worker_step.induct)
  case (starts i q h)
  then have "i = 0" "rqpWorkers q = [Starting]" using inv_worker [OF starts.prems starts.hyps(1,2)] by simp_all
  then show ?case by (simp add: total_work_def set_worker_def)
next
  case (fails i q h)
  then have "i = 0" "rqpWorkers q = [Starting]" using inv_worker [OF fails.prems fails.hyps(1,2)] by simp_all
  then show ?case by (simp add: total_work_def start_failed_def)
next
  case (takes i q h)
  then have "i = 0" "rqpWorkers q = [AtQueue]" using inv_worker [OF takes.prems takes.hyps(1,2)] by simp_all
  then show ?case by (simp add: total_work_def take_batch_def worker_leaves_def set_worker_def)
next
  case (settles i q app item batch deferred persist probe refreshed h)
  then have "i = 0" "rqpWorkers q = [InBatch ((app, item) # batch) deferred]"
    using inv_worker [OF settles.prems settles.hyps(1,2)] by simp_all
  then show ?case by (simp add: total_work_def set_worker_def)
next
  case (defers i q app item batch deferred persist probe refreshed h)
  then have "i = 0" "rqpWorkers q = [InBatch ((app, item) # batch) deferred]"
    using inv_worker [OF defers.prems defers.hyps(1,2)] by simp_all
  then show ?case using om_put_length [of app item deferred] by (simp add: total_work_def set_worker_def)
next
  case (finishes i q deferred h)
  then have "i = 0" "rqpWorkers q = [InBatch [] deferred]" using inv_worker [OF finishes.prems finishes.hyps(1,2)] by simp_all
  then show ?case using merge_length [of deferred "rqpPending q"]
    by (auto simp: total_work_def finish_batch_def set_worker_def worker_leaves_def rawCacheWorkerShouldContinueAfterDeferral_def Let_def)
qed

text \<open>C18: Without new items the worker stops: no run of worker steps from a reachable state is infinite, whichever items
  it can settle.\<close>

theorem raw_worker_stops:
  assumes "raw_step\<^sup>*\<^sup>* raw_start s"
  shows "\<not> (\<exists>run. run 0 = s \<and> (\<forall>n. worker_step (run n) (run (Suc n))))"
proof
  assume "\<exists>run. run 0 = s \<and> (\<forall>n. worker_step (run n) (run (Suc n)))"
  then obtain run where run: "run 0 = s" "worker_step (run n) (run (Suc n))" for n by blast
  have inv: "raw_inv (run n)" for n
    using raw_inv_reachable [OF assms] run by (induction n) (auto intro: worker_inv)
  have "total_work (fst (run n)) + n \<le> total_work (fst s)" for n
  proof (induction n)
    case (Suc n)
    then show ?case using worker_step_less [OF run(2) inv, of n] by simp
  qed (simp add: run)
  from this [of "Suc (total_work (fst s))"] show False by simp
qed

lemma raw_worker_stops_witness: "\<not> (\<exists>run. run 0 = raw_start \<and> (\<forall>n. worker_step (run n) (run (Suc n))))"
  by (rule raw_worker_stops) simp

end
