(* ===== verification/StagePlan.thy ===== *)
theory StagePlan
  imports DlcIds RefreshQueue CachePolicy
begin

text \<open>
  Which manifests are staged ahead of Steam: the depots in a provisioned app info text, the targets of the pre-warm
  worker with its failure tracker and back-off (\<open>src/feats/prewarm.hpp\<close>), and the plan of the product-info handler
  (\<open>src/feats/pics.hpp\<close>). A predicate that may be empty is an option.
\<close>

section \<open>The depots of an app info text\<close>

record depot_entry =
  deDepot :: u32
  deGid :: u64
  deOs :: string

record depot_walk =
  dwOut :: "depot_entry list"
  dwCurrent :: "u32 option"
  dwSection :: string
  dwBranch :: string
  dwDepth :: nat

text \<open>\<open>buf.find('"', scan)\<close>: what is in front of the next quote and behind it.\<close>

fun quote_split :: "string \<Rightarrow> (string \<times> string) option" where
  "quote_split [] = None"
| "quote_split (c # s) =
     (if c = CHR 0x22 then Some ([], s) else (case quote_split s of None \<Rightarrow> None | Some (a, b) \<Rightarrow> Some (c # a, b)))"

lemma quote_split_shorter: "quote_split s = Some (a, b) \<Longrightarrow> length b < length s"
  by (induction s arbitrary: a b) (fastforce split: if_splits option.splits)+

text \<open>The value that follows a key, and what is behind it.\<close>

definition quoted_value :: "string \<Rightarrow> (string \<times> string) option" where
  "quoted_value s = (case quote_split s of None \<Rightarrow> None | Some (_, t) \<Rightarrow> quote_split t)"

definition only_digits :: "string \<Rightarrow> bool" where
  "only_digits t \<longleftrightarrow> t \<noteq> [] \<and> list_all is_digit t"

definition entry_for :: "u32 \<Rightarrow> depot_entry list \<Rightarrow> depot_entry list" where
  "entry_for d out = (if \<exists>e \<in> set out. deDepot e = d then out else out @ [\<lparr>deDepot = d, deGid = 0, deOs = []\<rparr>])"

definition change_entry :: "u32 \<Rightarrow> (depot_entry \<Rightarrow> depot_entry) \<Rightarrow> depot_entry list \<Rightarrow> depot_entry list" where
  "change_entry d f out = map (\<lambda>e. if deDepot e = d then f e else e) out"

definition token_step :: "string \<Rightarrow> string \<Rightarrow> depot_walk \<Rightarrow> depot_walk \<times> string" where
  "token_step tok rest w =
     (if dwDepth w = 1 then
        (if only_digits tok then
           (case from_chars_all u32_max tok of
              Some d \<Rightarrow> (w\<lparr>dwCurrent := Some (of_nat d), dwOut := entry_for (of_nat d) (dwOut w)\<rparr>, rest)
            | None \<Rightarrow> (w\<lparr>dwCurrent := None\<rparr>, rest))
         else (w, rest))
      else if dwDepth w = 2 then (w\<lparr>dwSection := tok\<rparr>, rest)
      else if dwDepth w = 3 \<and> dwSection w = ''manifests'' then (w\<lparr>dwBranch := tok\<rparr>, rest)
      else if dwDepth w = 3 \<and> dwSection w = ''config'' \<and> tok = ''oslist'' \<and> dwCurrent w \<noteq> None then
        (case quoted_value rest of
           None \<Rightarrow> (w, rest)
         | Some (v, r) \<Rightarrow> (w\<lparr>dwOut := change_entry (the (dwCurrent w)) (\<lambda>e. e\<lparr>deOs := v\<rparr>) (dwOut w)\<rparr>, r))
      else if dwDepth w = 4 \<and> dwSection w = ''manifests'' \<and> dwBranch w = ''public'' \<and> tok = ''gid'' \<and> dwCurrent w \<noteq> None then
        (case quoted_value rest of
           None \<Rightarrow> (w, rest)
         | Some (v, r) \<Rightarrow>
             (if only_digits v then
                (case from_chars_all u64_max v of
                   Some g \<Rightarrow> (w\<lparr>dwOut := change_entry (the (dwCurrent w)) (\<lambda>e. e\<lparr>deGid := of_nat g\<rparr>) (dwOut w)\<rparr>, r)
                 | None \<Rightarrow> (w, r))
              else (w, r)))
      else (w, rest))"

lemma quoted_value_shorter: "quoted_value s = Some (a, b) \<Longrightarrow> length b < length s"
  by (auto simp: quoted_value_def split: option.splits dest!: quote_split_shorter)

lemma token_step_shorter: "length (snd (token_step tok rest w)) \<le> length rest"
  by (auto simp: token_step_def split: option.split dest!: quoted_value_shorter)

definition close_brace :: "depot_walk \<Rightarrow> depot_walk" where
  "close_brace w = (let w = w\<lparr>dwDepth := dwDepth w - 1\<rparr> in if dwDepth w = 1 then w\<lparr>dwCurrent := None\<rparr> else w)"

function depot_loop :: "string \<Rightarrow> depot_walk \<Rightarrow> depot_entry list" where
  "depot_loop [] w = dwOut w"
| "depot_loop (c # s) w =
     (if dwDepth w = 0 then dwOut w
      else if c = CHR 0x22 then
        (case quote_split s of
           None \<Rightarrow> dwOut w
         | Some (tok, rest) \<Rightarrow> depot_loop (snd (token_step tok rest w)) (fst (token_step tok rest w)))
      else if c = CHR ''{'' then depot_loop s (w\<lparr>dwDepth := dwDepth w + 1\<rparr>)
      else if c = CHR ''}'' then depot_loop s (close_brace w)
      else depot_loop s w)"
  by pat_completeness auto
termination
proof (relation "measure (\<lambda>(s, w). length s)")
  fix c :: char and s :: string and w :: depot_walk and x :: "string \<times> string" and tok rest
  assume "quote_split s = Some x" "(tok, rest) = x"
  then have "quote_split s = Some (tok, rest)" by simp
  from quote_split_shorter [OF this] token_step_shorter [of tok rest w]
  show "((snd (token_step tok rest w), fst (token_step tok rest w)), c # s, w) \<in> measure (\<lambda>(s, w). length s)" by simp
qed auto

definition parseDepots :: "string \<Rightarrow> depot_entry list" where
  "parseDepots buf =
     (case find_from (CHR 0x22 # ''depots'' @ [CHR 0x22]) buf 0 of
        None \<Rightarrow> []
      | Some p \<Rightarrow>
          (case find_from ''{'' buf (p + 8) of
             None \<Rightarrow> []
           | Some b \<Rightarrow> depot_loop (drop (b + 1) buf) \<lparr>dwOut = [], dwCurrent = None, dwSection = [], dwBranch = [], dwDepth = 1\<rparr>))"

definition isMacOnly :: "string \<Rightarrow> bool" where
  "isMacOnly os =
     (if os = [] then False
      else if \<not> (contains_sub ''macos'' os \<or> contains_sub ''osx'' os) then False
      else \<not> contains_sub ''linux'' os \<and> \<not> (contains_sub ''windows'' os \<or> contains_sub ''win'' os))"

type_synonym depot_gid = "u32 \<times> u64"

definition extractDepotsAndGids :: "string \<Rightarrow> depot_gid list" where
  "extractDepotsAndGids buf = map (\<lambda>e. (deDepot e, deGid e)) (filter (\<lambda>e. deGid e \<noteq> 0) (parseDepots buf))"

section \<open>The targets of the pre-warm worker\<close>

definition insert_target :: "depot_gid \<Rightarrow> depot_gid list \<times> depot_gid set \<Rightarrow> depot_gid list \<times> depot_gid set" where
  "insert_target t = (\<lambda>(out, seen). if t \<in> seen then (out, seen) else (out @ [t], insert t seen))"

definition plan_one :: "(u32 \<Rightarrow> bool) option \<Rightarrow> depot_entry \<Rightarrow> depot_gid list \<times> depot_gid set \<Rightarrow> depot_gid list \<times> depot_gid set" where
  "plan_one hasKey e acc =
     (if deGid e = 0 then acc
      else if (case hasKey of None \<Rightarrow> False | Some k \<Rightarrow> \<not> k (deDepot e)) then acc
      else if isMacOnly (deOs e) then acc
      else insert_target (deDepot e, deGid e) acc)"

definition planStageTargets :: "string list \<Rightarrow> (u32 \<Rightarrow> bool) option \<Rightarrow> depot_gid list" where
  "planStageTargets buffers hasKey = fst (fold (\<lambda>buf. fold (plan_one hasKey) (parseDepots buf)) buffers ([], {}))"

text \<open>The pins are a hash map: a list of its entries in the order of an iteration.\<close>

definition planPinnedStageTargets :: "depot_gid list \<Rightarrow> depot_gid list \<Rightarrow> depot_gid list" where
  "planPinnedStageTargets publicTargets pins =
     fst (fold (\<lambda>t acc. if fst t = 0 \<or> snd t = 0 \<or> fst t \<in> fst ` set pins then acc else insert_target t acc) publicTargets
       (fold (\<lambda>t acc. if fst t \<noteq> 0 \<and> snd t \<noteq> 0 then insert_target t acc else acc) pins ([], {})))"

text \<open>\<open>collectKey\<close>, on what is left of the file.\<close>

function collect_key :: "string \<Rightarrow> u32 \<Rightarrow> string \<Rightarrow> depot_gid list \<times> u64 set \<Rightarrow> depot_gid list \<times> u64 set" where
  "collect_key needle app s acc =
     (case find_at needle s of
        None \<Rightarrow> acc
      | Some i \<Rightarrow>
          (case quoted_value (drop (i + length needle) s) of
             None \<Rightarrow> acc
           | Some (v, rest) \<Rightarrow>
               collect_key needle app rest
                 (if \<not> only_digits v then acc
                  else (case from_chars_all u64_max v of
                          None \<Rightarrow> acc
                        | Some g \<Rightarrow>
                            if (of_nat g :: u64) = 0 \<or> of_nat g \<in> snd acc then acc
                            else (fst acc @ [(app, of_nat g)], insert (of_nat g) (snd acc))))))"
  by pat_completeness auto
termination
  by (relation "measure (\<lambda>(needle, app, s, acc). length s)") (auto dest!: quoted_value_shorter)

declare collect_key.simps [simp del]

definition extractWorkshopManifests :: "string \<Rightarrow> u32 \<Rightarrow> depot_gid list" where
  "extractWorkshopManifests acf app =
     fst (collect_key (CHR 0x22 # ''latest_manifest'' @ [CHR 0x22]) app acf
       (collect_key (CHR 0x22 # ''manifest'' @ [CHR 0x22]) app acf ([], {})))"

section \<open>Failures and back-off\<close>

definition pack_target :: "u32 \<Rightarrow> u64 \<Rightarrow> u64" where
  "pack_target depot gid = gid XOR (ucast depot * 0x9E3779B97F4A7C15)"

type_synonym fail_counts = "u64 \<Rightarrow> nat"

definition recordSuccess :: "u32 \<Rightarrow> u64 \<Rightarrow> fail_counts \<Rightarrow> fail_counts" where
  "recordSuccess depot gid m = m(pack_target depot gid := 0)"

definition recordFailure :: "nat \<Rightarrow> u32 \<Rightarrow> u64 \<Rightarrow> fail_counts \<Rightarrow> bool \<times> fail_counts" where
  "recordFailure limit depot gid m =
     (let n = m (pack_target depot gid) + 1 in (n = limit, m(pack_target depot gid := n)))"

definition isBlacklisted :: "nat \<Rightarrow> u32 \<Rightarrow> u64 \<Rightarrow> fail_counts \<Rightarrow> bool" where
  "isBlacklisted limit depot gid m \<longleftrightarrow> m (pack_target depot gid) \<noteq> 0 \<and> m (pack_target depot gid) \<ge> limit"

definition resetAll :: "fail_counts \<Rightarrow> fail_counts" where
  "resetAll m = (\<lambda>_. 0)"

record pass_backoff =
  pbTargets :: "u64 set"
  pbNoOp :: nat

definition kNoOpPassesBeforeBackoff :: nat where "kNoOpPassesBeforeBackoff = 3"
definition kBaseInterval :: nat where "kBaseInterval = 30"
definition kBackoffInterval :: nat where "kBackoffInterval = 60"

definition observeTargets :: "depot_gid list \<Rightarrow> pass_backoff \<Rightarrow> bool \<times> pass_backoff" where
  "observeTargets targets b =
     (let current = set (map (\<lambda>(d, g). pack_target d g) targets) in
      (\<exists>key \<in> current. key \<notin> pbTargets b, b\<lparr>pbTargets := current\<rparr>))"

definition recordPass :: "bool \<Rightarrow> pass_backoff \<Rightarrow> pass_backoff" where
  "recordPass noOp b = b\<lparr>pbNoOp := if noOp then pbNoOp b + 1 else 0\<rparr>"

definition interval :: "pass_backoff \<Rightarrow> nat" where
  "interval b = (if pbNoOp b \<ge> kNoOpPassesBeforeBackoff then kBackoffInterval else kBaseInterval)"

section \<open>The plan of the product-info handler\<close>

definition legacyManifestStagingEnabled :: "string option \<Rightarrow> bool" where
  "legacyManifestStagingEnabled envValue \<longleftrightarrow> envValue = Some ''1''"

definition selectManagedResponseApps :: "u32 set \<Rightarrow> u32 list \<Rightarrow> u32 set" where
  "selectManagedResponseApps managed responseAppIds = fold (\<lambda>a S. if a \<in> managed then insert a S else S) responseAppIds {}"

definition rawResponseCanRepairCache :: "bool \<Rightarrow> cache_readiness \<Rightarrow> bool" where
  "rawResponseCanRepairCache hasBuffer readiness \<longleftrightarrow>
     hasBuffer \<and> (readiness = Missing \<or> readiness = Invalid \<or> readiness = Busy \<or> readiness = Unverified)"

definition excludeRefreshRequestsForApps :: "refresh_request list \<Rightarrow> u32 set \<Rightarrow> refresh_request list" where
  "excludeRefreshRequestsForApps requests excluded = filter (\<lambda>r. rqAppId r \<notin> excluded) requests"

definition markRuntimePublicationForSuppressedApps :: "refresh_request list \<Rightarrow> u32 set \<Rightarrow> refresh_request list" where
  "markRuntimePublicationForSuppressedApps requests suppressed =
     map (\<lambda>r. r\<lparr>rqPublishRuntime := rqPublishRuntime r \<or> rqAppId r \<in> suppressed\<rparr>) requests"

record stage_target =
  stApp :: u32
  stDepot :: u32
  stGid :: u64

definition stage_one :: "(u32 \<Rightarrow> bool) option \<Rightarrow> u32 \<Rightarrow> depot_gid \<Rightarrow> stage_target list \<times> u64 set \<Rightarrow> stage_target list \<times> u64 set" where
  "stage_one hasKey app = (\<lambda>(depot, gid) (out, seen).
     (if gid = 0 then (out, seen)
      else if (case hasKey of None \<Rightarrow> False | Some k \<Rightarrow> \<not> k depot) then (out, seen)
      else if pack_target depot gid \<in> seen then (out, seen)
      else (out @ [\<lparr>stApp = app, stDepot = depot, stGid = gid\<rparr>], insert (pack_target depot gid) seen)))"

definition buildSyncStagePlan :: "(u32 \<times> depot_gid list) list \<Rightarrow> (u32 \<Rightarrow> bool) option \<Rightarrow> stage_target list" where
  "buildSyncStagePlan apps hasKey = fst (fold (\<lambda>(app, depots). fold (stage_one hasKey app) depots) apps ([], {}))"

definition buildPendingStagePlan :: "stage_target list \<Rightarrow> (stage_target \<Rightarrow> bool) option \<Rightarrow> stage_target list" where
  "buildPendingStagePlan plan isReady = filter (\<lambda>t. case isReady of None \<Rightarrow> True | Some r \<Rightarrow> \<not> r t) plan"


section \<open>Depots are read as written\<close>

definition no_marks :: "string \<Rightarrow> bool" where
  "no_marks w \<longleftrightarrow> CHR 0x22 \<notin> set w \<and> CHR ''{'' \<notin> set w \<and> CHR ''}'' \<notin> set w"

definition quoted :: "string \<Rightarrow> string" where
  "quoted s = CHR 0x22 # s @ [CHR 0x22]"

lemma quote_split_plain: "CHR 0x22 \<notin> set a \<Longrightarrow> quote_split (a @ CHR 0x22 # s) = Some (a, s)"
  by (induction a) auto

lemma quoted_value_plain: "no_marks w \<Longrightarrow> CHR 0x22 \<notin> set v \<Longrightarrow> quoted_value (w @ quoted v @ s) = Some (v, s)"
  by (simp add: quoted_value_def quoted_def no_marks_def quote_split_plain)

lemma loop_no_marks: "no_marks w \<Longrightarrow> dwDepth W \<noteq> 0 \<Longrightarrow> depot_loop (w @ s) W = depot_loop s W"
proof (induction w)
  case (Cons c w)
  then have "no_marks w" "c \<noteq> CHR 0x22" "c \<noteq> CHR ''{''" "c \<noteq> CHR ''}''" by (auto simp: no_marks_def)
  with Cons show ?case by simp
qed simp

lemma loop_token:
  "CHR 0x22 \<notin> set tok \<Longrightarrow> dwDepth W \<noteq> 0 \<Longrightarrow>
     depot_loop (quoted tok @ s) W = depot_loop (snd (token_step tok s W)) (fst (token_step tok s W))"
  by (simp add: quoted_def quote_split_plain)

lemma loop_open: "dwDepth W \<noteq> 0 \<Longrightarrow> depot_loop (CHR ''{'' # s) W = depot_loop s (W\<lparr>dwDepth := dwDepth W + 1\<rparr>)"
  by simp

lemma loop_close: "dwDepth W \<noteq> 0 \<Longrightarrow> depot_loop (CHR ''}'' # s) W = depot_loop s (close_brace W)"
  by simp

definition render_depot :: "string \<Rightarrow> depot_entry \<Rightarrow> string" where
  "render_depot w e =
     w @ quoted (to_dec (unat (deDepot e))) @ w @ CHR ''{'' #
       (w @ quoted ''config'' @ w @ CHR ''{'' # (w @ quoted ''oslist'' @ w @ quoted (deOs e) @ w @ CHR ''}'' #
        (w @ quoted ''manifests'' @ w @ CHR ''{'' # (w @ quoted ''public'' @ w @ CHR ''{'' #
          (w @ quoted ''gid'' @ w @ quoted (to_dec (unat (deGid e))) @ w @ CHR ''}'' # (w @ CHR ''}'' # (w @ [CHR ''}''])))))))"

lemma digits_plain: "CHR 0x22 \<notin> set (to_dec n)"
  using all_digits_to_dec [of n] by (auto simp: list_all_iff is_digit_def char_code_def)

lemma only_digits_dec: "only_digits (to_dec n)"
  using all_digits_to_dec [of n] by (simp add: only_digits_def)

lemma read_u32: "from_chars_all u32_max (to_dec (unat (d :: u32))) = Some (unat d)"
  using unat_u32_max [of d] by (simp add: from_chars_all_iff)

lemma read_u64: "from_chars_all u64_max (to_dec (unat (g :: u64))) = Some (unat g)"
  using unat_u64_max [of g] by (simp add: from_chars_all_iff)

lemma entry_new: "\<forall>x \<in> set out. deDepot x \<noteq> d \<Longrightarrow> entry_for d out = out @ [\<lparr>deDepot = d, deGid = 0, deOs = []\<rparr>]"
  by (auto simp: entry_for_def)

lemma change_last:
  "\<forall>x \<in> set out. deDepot x \<noteq> d \<Longrightarrow> deDepot e = d \<Longrightarrow> change_entry d f (out @ [e]) = out @ [f e]"
  by (simp add: change_entry_def map_idI)

lemma loop_render:
  assumes "no_marks w" "\<forall>x \<in> set out. deDepot x \<noteq> deDepot e" "CHR 0x22 \<notin> set (deOs e)"
  shows "depot_loop (render_depot w e @ s) \<lparr>dwOut = out, dwCurrent = cur, dwSection = sec, dwBranch = br, dwDepth = 1\<rparr> =
    depot_loop s \<lparr>dwOut = out @ [e], dwCurrent = None, dwSection = ''manifests'', dwBranch = ''public'', dwDepth = 1\<rparr>"
proof (cases e)
  case (fields d g os)
  show ?thesis
    using assms(1,2) quoted_value_plain [OF assms(1) assms(3)] quoted_value_plain [OF assms(1) digits_plain]
    unfolding render_depot_def append.assoc append_Cons append_Nil
    by (simp del: depot_loop.simps add: fields loop_no_marks loop_token loop_open loop_close digits_plain entry_new [OF assms(2), unfolded fields, simplified] read_u32
        token_step_def close_brace_def change_last only_digits_dec read_u64 Let_def)
qed


lemma loop_depots:
  assumes "no_marks w" "distinct (map deDepot (out @ es))" "\<forall>e \<in> set es. CHR 0x22 \<notin> set (deOs e)"
  shows "\<exists>sec br. depot_loop (concat (map (render_depot w) es) @ s) \<lparr>dwOut = out, dwCurrent = None, dwSection = sec0, dwBranch = br0, dwDepth = 1\<rparr> =
    depot_loop s \<lparr>dwOut = out @ es, dwCurrent = None, dwSection = sec, dwBranch = br, dwDepth = 1\<rparr>"
  using assms(2,3)
proof (induction es arbitrary: out sec0 br0)
  case (Cons e es)
  have "\<forall>x \<in> set out. deDepot x \<noteq> deDepot e" using Cons.prems(1) by (auto simp: image_iff)
  then have "depot_loop (concat (map (render_depot w) (e # es)) @ s) \<lparr>dwOut = out, dwCurrent = None, dwSection = sec0, dwBranch = br0, dwDepth = 1\<rparr> =
      depot_loop (concat (map (render_depot w) es) @ s) \<lparr>dwOut = out @ [e], dwCurrent = None, dwSection = ''manifests'', dwBranch = ''public'', dwDepth = 1\<rparr>"
    using loop_render [OF assms(1), of out e "concat (map (render_depot w) es) @ s"] Cons.prems(2) by simp
  then show ?case using Cons.IH [of "out @ [e]"] Cons.prems by simp
qed auto

lemma loop_done: "dwDepth W = 0 \<Longrightarrow> depot_loop s W = dwOut W"
  by (cases s) simp_all

definition render_depots :: "string \<Rightarrow> string \<Rightarrow> depot_entry list \<Rightarrow> string \<Rightarrow> string" where
  "render_depots pre w es post =
     pre @ quoted ''depots'' @ w @ CHR ''{'' # concat (map (render_depot w) es) @ w @ CHR ''}'' # post"

lemma find_depots:
  assumes "CHR 0x22 \<notin> set pre"
  shows "find_from (quoted ''depots'') (pre @ quoted ''depots'' @ s) 0 = Some (length pre)"
  using assms by (induction pre) (auto simp: find_from_def quoted_def starts_with_def)




section \<open>The planned targets\<close>

lemma insert_target_inv:
  "set (fst acc) = snd acc \<Longrightarrow> distinct (fst acc) \<Longrightarrow>
     set (fst (insert_target t acc)) = snd (insert_target t acc) \<and> distinct (fst (insert_target t acc)) \<and>
     snd (insert_target t acc) = insert t (snd acc)"
  by (cases acc) (auto simp: insert_target_def)

definition wanted_entry :: "(u32 \<Rightarrow> bool) option \<Rightarrow> depot_entry \<Rightarrow> bool" where
  "wanted_entry hasKey e \<longleftrightarrow> deGid e \<noteq> 0 \<and> (case hasKey of None \<Rightarrow> True | Some k \<Rightarrow> k (deDepot e)) \<and> \<not> isMacOnly (deOs e)"

definition targets_of :: "depot_entry list \<Rightarrow> depot_gid set" where
  "targets_of es = (\<lambda>e. (deDepot e, deGid e)) ` set es"

lemma plan_one_eq:
  "plan_one hasKey e acc = (if wanted_entry hasKey e then insert_target (deDepot e, deGid e) acc else acc)"
  by (auto simp: plan_one_def wanted_entry_def split: option.splits)

lemma plan_fold:
  "set (fst acc) = snd acc \<Longrightarrow> distinct (fst acc) \<Longrightarrow>
     set (fst (fold (plan_one hasKey) es acc)) = snd (fold (plan_one hasKey) es acc) \<and> distinct (fst (fold (plan_one hasKey) es acc)) \<and>
     snd (fold (plan_one hasKey) es acc) = snd acc \<union> targets_of (filter (wanted_entry hasKey) es)"
proof (induction es arbitrary: acc)
  case (Cons e es)
  note i = insert_target_inv [OF Cons.prems, of "(deDepot e, deGid e)"]
  then show ?case using Cons.IH [of "insert_target (deDepot e, deGid e) acc"] Cons.IH [OF Cons.prems]
    by (auto simp: plan_one_eq targets_of_def)
qed (simp add: targets_of_def)

text \<open>The worker stages, each once, exactly the manifests of the listed depots that have a public manifest and a key
  and are not for another system only.\<close>

theorem stage_targets_exact:
  "set (planStageTargets buffers hasKey) = (\<Union>buf \<in> set buffers. targets_of (filter (wanted_entry hasKey) (parseDepots buf))) \<and>
   distinct (planStageTargets buffers hasKey)"
proof -
  have "set (fst acc) = snd acc \<Longrightarrow> distinct (fst acc) \<Longrightarrow>
      (let r = fold (\<lambda>buf. fold (plan_one hasKey) (parseDepots buf)) buffers acc in
       set (fst r) = snd r \<and> distinct (fst r) \<and>
       snd r = snd acc \<union> (\<Union>buf \<in> set buffers. targets_of (filter (wanted_entry hasKey) (parseDepots buf))))" for acc
  proof (induction buffers arbitrary: acc)
    case (Cons b bs)
    then show ?case using plan_fold [OF Cons.prems, of hasKey "parseDepots b"] Cons.IH [of "fold (plan_one hasKey) (parseDepots b) acc"]
      by (auto simp: Let_def)
  qed simp
  from this [of "([], {})"] show ?thesis by (simp add: planStageTargets_def Let_def)
qed

lemma insert_if_fold:
  "set (fst acc) = snd acc \<Longrightarrow> distinct (fst acc) \<Longrightarrow>
     (let r = fold (\<lambda>t acc. if P t then insert_target t acc else acc) ts acc in
      set (fst r) = snd r \<and> distinct (fst r) \<and> snd r = snd acc \<union> {t \<in> set ts. P t})"
proof (induction ts arbitrary: acc)
  case (Cons t ts)
  note i = insert_target_inv [OF Cons.prems, of t]
  show ?case using i Cons.IH [OF Cons.prems] Cons.IH [of "insert_target t acc"] by (auto simp: Let_def)
qed simp

text \<open>With pins, a pinned depot is staged at its pin and every other depot at its public manifest.\<close>

theorem pinned_targets_exact:
  "set (planPinnedStageTargets publicTargets pins) =
     {t \<in> set pins. fst t \<noteq> 0 \<and> snd t \<noteq> 0} \<union> {t \<in> set publicTargets. fst t \<noteq> 0 \<and> snd t \<noteq> 0 \<and> fst t \<notin> fst ` set pins} \<and>
   distinct (planPinnedStageTargets publicTargets pins)"
proof -
  let ?Q = "\<lambda>t. \<not> (fst t = 0 \<or> snd t = 0 \<or> fst t \<in> fst ` set pins)"
  have e: "(\<lambda>t acc. if fst t = 0 \<or> snd t = 0 \<or> fst t \<in> fst ` set pins then acc else insert_target t acc) =
      (\<lambda>t acc. if ?Q t then insert_target t acc else acc)" by (intro ext) simp
  let ?p = "fold (\<lambda>t acc. if fst t \<noteq> 0 \<and> snd t \<noteq> 0 then insert_target t acc else acc) pins ([], {})"
  have p: "set (fst ?p) = snd ?p" "distinct (fst ?p)" "snd ?p = {t \<in> set pins. fst t \<noteq> 0 \<and> snd t \<noteq> 0}"
    using insert_if_fold [of "([], {})" "\<lambda>t. fst t \<noteq> 0 \<and> snd t \<noteq> 0" pins] by (simp_all add: Let_def)
  show ?thesis unfolding planPinnedStageTargets_def e
    using insert_if_fold [OF p(1,2), of ?Q publicTargets] p(3) by (auto simp: Let_def)
qed

section \<open>The plan of a response\<close>

definition stage_pairs :: "(u32 \<times> depot_gid list) list \<Rightarrow> (u32 \<Rightarrow> bool) option \<Rightarrow> depot_gid list" where
  "stage_pairs apps hasKey =
     filter (\<lambda>(d, g). g \<noteq> 0 \<and> (case hasKey of None \<Rightarrow> True | Some k \<Rightarrow> k d)) (concat (map snd apps))"

definition plan_pairs :: "stage_target list \<Rightarrow> depot_gid list" where
  "plan_pairs ts = map (\<lambda>t. (stDepot t, stGid t)) ts"

definition key_of :: "depot_gid \<Rightarrow> u64" where
  "key_of t = pack_target (fst t) (snd t)"

lemma stage_one_eq:
  "stage_one hasKey app t (out, seen) =
     (if (snd t \<noteq> 0 \<and> (case hasKey of None \<Rightarrow> True | Some k \<Rightarrow> k (fst t))) \<and> key_of t \<notin> seen
      then (out @ [\<lparr>stApp = app, stDepot = fst t, stGid = snd t\<rparr>], insert (key_of t) seen) else (out, seen))"
  by (cases t) (auto simp: stage_one_def key_of_def split: option.splits)

lemma stage_fold:
  assumes "snd acc = key_of ` set (plan_pairs (fst acc))" "distinct (map key_of (plan_pairs (fst acc)))"
  shows "let r = fold (\<lambda>(app, depots). fold (stage_one hasKey app) depots) apps acc in
    snd r = key_of ` set (plan_pairs (fst r)) \<and> distinct (map key_of (plan_pairs (fst r))) \<and>
    set (plan_pairs (fst r)) \<subseteq> set (plan_pairs (fst acc)) \<union> set (stage_pairs apps hasKey) \<and>
    snd r = snd acc \<union> key_of ` set (stage_pairs apps hasKey)"
proof -
  have one: "let r = fold (stage_one hasKey app) ts acc in
      snd r = key_of ` set (plan_pairs (fst r)) \<and> distinct (map key_of (plan_pairs (fst r))) \<and>
      set (plan_pairs (fst r)) \<subseteq> set (plan_pairs (fst acc)) \<union> set (stage_pairs [(app, ts)] hasKey) \<and>
      snd r = snd acc \<union> key_of ` set (stage_pairs [(app, ts)] hasKey)"
    if "snd acc = key_of ` set (plan_pairs (fst acc))" "distinct (map key_of (plan_pairs (fst acc)))" for acc app ts
    using that
  proof (induction ts arbitrary: acc)
    case (Cons t ts)
    obtain out seen where acc: "acc = (out, seen)" by (cases acc)
    let ?ok = "snd t \<noteq> 0 \<and> (case hasKey of None \<Rightarrow> True | Some k \<Rightarrow> k (fst t))"
    have pairs: "set (stage_pairs [(app, t # ts)] hasKey) = (if ?ok then {t} else {}) \<union> set (stage_pairs [(app, ts)] hasKey)"
      by (cases t; cases hasKey) (auto simp: stage_pairs_def)
    show ?case
    proof (cases "?ok \<and> key_of t \<notin> seen")
      case True
      let ?acc = "(out @ [\<lparr>stApp = app, stDepot = fst t, stGid = snd t\<rparr>], insert (key_of t) seen)"
      have "snd ?acc = key_of ` set (plan_pairs (fst ?acc))" "distinct (map key_of (plan_pairs (fst ?acc)))"
        using Cons.prems True by (auto simp: acc plan_pairs_def)
      note ih = Cons.IH [OF this, unfolded Let_def]
      have st: "stage_one hasKey app t acc = ?acc" using True by (simp add: acc stage_one_eq)
      have pp: "set (plan_pairs (fst ?acc)) = insert t (set (plan_pairs (fst acc)))" by (simp add: acc plan_pairs_def)
      have pairs': "set (stage_pairs [(app, t # ts)] hasKey) = insert t (set (stage_pairs [(app, ts)] hasKey))"
        unfolding pairs using True by simp
      have sub: "set (plan_pairs (fst (fold (stage_one hasKey app) ts ?acc))) \<subseteq> set (plan_pairs (fst acc)) \<union> insert t (set (stage_pairs [(app, ts)] hasKey))"
        using ih [THEN conjunct2, THEN conjunct2, THEN conjunct1] unfolding pp by simp
      have seen: "snd (fold (stage_one hasKey app) ts ?acc) = snd acc \<union> key_of ` insert t (set (stage_pairs [(app, ts)] hasKey))"
        using ih [THEN conjunct2, THEN conjunct2, THEN conjunct2] by (simp add: acc)
      show ?thesis unfolding Let_def fold_simps st pairs'
        using ih [THEN conjunct1] ih [THEN conjunct2, THEN conjunct1] sub seen by (intro conjI)
    next
      case False
      then have st: "stage_one hasKey app t acc = acc" by (simp add: acc stage_one_eq)
      note ih = Cons.IH [OF Cons.prems, unfolded Let_def]
      have "set (plan_pairs (fst (fold (stage_one hasKey app) ts acc))) \<subseteq> set (plan_pairs (fst acc)) \<union> set (stage_pairs [(app, t # ts)] hasKey)"
        using ih [THEN conjunct2, THEN conjunct2, THEN conjunct1] unfolding pairs by blast
      moreover have "snd (fold (stage_one hasKey app) ts acc) = snd acc \<union> key_of ` set (stage_pairs [(app, t # ts)] hasKey)"
        using ih [THEN conjunct2, THEN conjunct2, THEN conjunct2] False unfolding pairs by (auto simp: acc)
      ultimately show ?thesis unfolding Let_def fold_simps st
        using ih [THEN conjunct1] ih [THEN conjunct2, THEN conjunct1] by (intro conjI)
    qed
  qed (simp add: stage_pairs_def Let_def)
  have split: "set (stage_pairs (a # as) hasKey) = set (stage_pairs [a] hasKey) \<union> set (stage_pairs as hasKey)" for a as
    by (auto simp: stage_pairs_def)
  show ?thesis using assms
  proof (induction apps arbitrary: acc)
    case (Cons a apps)
    obtain app ts where a: "a = (app, ts)" by (cases a)
    let ?r1 = "fold (stage_one hasKey app) ts acc"
    let ?r2 = "fold (\<lambda>(app, depots). fold (stage_one hasKey app) depots) apps ?r1"
    note o1 = one [OF Cons.prems, of app ts, unfolded Let_def]
    note r1 = o1 [THEN conjunct1] o1 [THEN conjunct2, THEN conjunct1] o1 [THEN conjunct2, THEN conjunct2, THEN conjunct1]
      o1 [THEN conjunct2, THEN conjunct2, THEN conjunct2]
    note o2 = Cons.IH [OF r1(1,2), unfolded Let_def]
    note r2 = o2 [THEN conjunct1] o2 [THEN conjunct2, THEN conjunct1] o2 [THEN conjunct2, THEN conjunct2, THEN conjunct1]
      o2 [THEN conjunct2, THEN conjunct2, THEN conjunct2]
    have "set (plan_pairs (fst ?r2)) \<subseteq> set (plan_pairs (fst acc)) \<union> set (stage_pairs (a # apps) hasKey)"
      using r1(3) r2(3) unfolding a split [of "(app, ts)" apps] by blast
    moreover have "snd ?r2 = snd acc \<union> key_of ` set (stage_pairs (a # apps) hasKey)"
      unfolding a split [of "(app, ts)" apps] r2(4) r1(4) by (simp add: image_Un Un_assoc)
    ultimately show ?case using r2(1,2) by (simp add: a Let_def)
  qed (simp add: stage_pairs_def Let_def)
qed

text \<open>When no two manifests share a key the plan has each manifest once and leaves none out.\<close>

theorem stage_plan_exact:
  assumes "inj_on key_of (set (stage_pairs apps hasKey))"
  shows "set (plan_pairs (buildSyncStagePlan apps hasKey)) = set (stage_pairs apps hasKey) \<and>
    distinct (plan_pairs (buildSyncStagePlan apps hasKey))"
proof -
  let ?r = "buildSyncStagePlan apps hasKey"
  have r: "set (plan_pairs ?r) \<subseteq> set (stage_pairs apps hasKey)" "distinct (map key_of (plan_pairs ?r))"
    "key_of ` set (plan_pairs ?r) = key_of ` set (stage_pairs apps hasKey)"
    using stage_fold [of "([], {})" hasKey apps] by (auto simp: buildSyncStagePlan_def plan_pairs_def Let_def)
  then show ?thesis using assms inj_on_image_eq_iff [OF assms r(1)] by (auto simp: distinct_map)
qed

text \<open>Different manifests can share a key, and then one of them is left out.\<close>

theorem shared_key_drops_target:
  "let g1 = 0x9E3779B97F4A7C15; g2 = 0x3C6EF372FE94F82A in
     pack_target 1 g1 = pack_target 2 g2 \<and>
     plan_pairs (buildSyncStagePlan [(10, [(1, g1)]), (20, [(2, g2)])] None) = [(1, g1)]"
  by (simp add: pack_target_def buildSyncStagePlan_def stage_one_def plan_pairs_def)

lemma stage_plan_exact_witness:
  "set (plan_pairs (buildSyncStagePlan [(10, [(1, 5), (1, 5)])] None)) = {(1, 5)}"
proof -
  have s: "set (stage_pairs [(10, [(1, 5), (1, 5)])] None) = {(1, 5)}" by (auto simp: stage_pairs_def)
  then have "inj_on key_of (set (stage_pairs [(10, [(1, 5), (1, 5)])] None))" by simp
  from stage_plan_exact [OF this] show ?thesis using s by simp
qed

end
