(* ===== verification/Spec2Isabelle.thy ===== *)
theory Spec2Isabelle
  imports CachePolicy RefreshQueue ProvisionPolicy HotReloadStore HotReloadPackage StatsPolicy
    LibraryRemoval DepotKey CmWire KvRoundTrip DlcIds ManifestPlan Quarantine CachePair CodeScan
    OwnerThreads OwnerWork AppInfoLifecycle AppInfoGuard ManifestBytes CmReader ManifestNames ProtonMapping
    ConfigEdit DepotPrune AppRender Parental ProvisionTerminal AtomicFile PlayerStats AppTicket
    ManifestZip SynthMark DepotIndex ConfigDiscovery ManifestPin ManifestStore PatternScan RawCache StagePlan
begin

text \<open>
  A verification development of slsteam-moon, a plugin that is loaded into the 32-bit Linux Steam client. It keeps
  a set of managed apps, provisions their metadata (app info texts, depot manifests, depot keys) beside Steam's own
  files, rewrites some of the client's messages, and reloads the set of apps while Steam runs. The model follows the
  C++ files under \<open>src/\<close>; file names below are relative to it, and those without a directory are under
  \<open>src/feats/\<close>.

  \<^bold>\<open>How the parts interact.\<close> Scripts and configuration name the managed apps (\<open>ConfigDiscovery\<close>, \<open>ConfigEdit\<close>,
  \<open>DlcIds\<close>). A reload publishes a snapshot of them (\<open>HotReloadStore\<close>, \<open>HotReloadPackage\<close>), queues refreshes
  (\<open>RefreshQueue\<close>), and hands calls that only Steam's own thread may make to the owner queue (\<open>OwnerQueue\<close>,
  \<open>OwnerThreads\<close>, \<open>OwnerWork\<close>), as removals from the library do (\<open>LibraryRemoval\<close>). A refresh obtains a document over
  the CM protocol (\<open>CmWire\<close>, \<open>CmReader\<close>), under the retry and budget rules of \<open>ProvisionPolicy\<close>; it prunes, completes
  and renders it (\<open>DepotPrune\<close>, \<open>ManifestNames\<close>, \<open>AppRender\<close>), writes the cache pair as one transaction (\<open>CachePolicy\<close>,
  \<open>CachePair\<close>, \<open>AtomicFile\<close>), remembers results that are final (\<open>ProvisionTerminal\<close>), and merges the text into Steam's
  binary file (\<open>AppInfoFile\<close>, \<open>KvText\<close>), which a patch of the client's code makes it read (\<open>AppInfoHook\<close>,
  \<open>AppInfoLifecycle\<close>, \<open>AppInfoGuard\<close>, with the scanners of \<open>CodeScan\<close> and \<open>PatternScan\<close>). Manifests are chosen
  (\<open>ManifestPlan\<close>, \<open>ManifestPin\<close>, \<open>DepotIndex\<close>), unpacked and read (\<open>ManifestZip\<close>, \<open>ManifestBytes\<close>) and kept
  (\<open>ManifestStore\<close>); keys are looked up and answered (\<open>DepotKey\<close>), and depots whose key fails are set aside
  (\<open>Quarantine\<close>). Messages are rewritten for the client (\<open>Parental\<close>, \<open>PlayerStats\<close>, \<open>AppTicket\<close>, \<open>StatsPolicy\<close>).

  \<^bold>\<open>Shared theories.\<close> \<open>Prelude\<close> has the machine integers, sorted id lists and the interface \<open>invariant_machine\<close> of
  stateful classes, which every class with an invariant instantiates with its own steps: the snapshot store, the
  refresh queue, the license store, the removal queue, the depot quarantine and the key catalog. \<open>OrdMap\<close> is
  \<open>std::map\<close>, with the interface \<open>ordered_map\<close>; \<open>CppText\<close> and \<open>ByteCodec\<close> are the text and byte routines of the
  standard library that the sources use; \<open>WireWalk\<close> has the interface \<open>wire_reader\<close> of the two protobuf walkers.
  \<open>CachePair\<close> holds the file system that the other stores use too: a map from names to contents, a list of the
  outcomes of the next calls (any call may fail, a failing write may leave any bytes) and all earlier maps, so that a
  property of every moment of a run, and so of a crash at any moment, can be stated. \<open>AtomicFile\<close> refines one write
  of it to names, inodes and single system calls with other processes acting in between.

  \<^bold>\<open>What models what.\<close>
  \<^item> \<open>CachePolicy\<close>: \<open>provision_cache.hpp\<close>. \<open>RefreshQueue\<close>: \<open>provision_refresh.hpp\<close>. \<open>ProvisionPolicy\<close>:
    \<open>provision_result.hpp\<close>, \<open>provision_schedule.hpp\<close>, \<open>provision_network.hpp\<close>, \<open>retry.hpp\<close> and the small policy headers.
    \<open>ProvisionTerminal\<close>: \<open>provision_terminal.cpp\<close>.
  \<^item> \<open>HotReloadStore\<close>: \<open>hotreload_state.hpp\<close>; records live in a heap of snapshots, handles carry record and generation,
    and readers are steps that interleave with publications. \<open>HotReloadPackage\<close>: \<open>hotreload_types.hpp\<close>,
    \<open>hotreload_package.hpp\<close>, \<open>hotreload_publish_policy.hpp\<close>. \<open>LibraryRemoval\<close>: \<open>libraryremoval_policy.hpp\<close>.
  \<^item> \<open>OwnerQueue\<close>, \<open>OwnerThreads\<close>, \<open>OwnerWork\<close>: \<open>src/utils/ownerqueue.hpp\<close>, \<open>src/ownerwork.hpp\<close>, \<open>src/ownerwork.cpp\<close>.
  \<^item> \<open>CmWire\<close>: \<open>cmwire.hpp\<close>. \<open>CmReader\<close>, \<open>KvText\<close>, \<open>KvRoundTrip\<close>, \<open>AppInfoFile\<close>: the text and binary key-values of
    \<open>appinfo_provision.cpp\<close> and \<open>appinfo_vdf.cpp\<close>. \<open>AppRender\<close>, \<open>DepotPrune\<close>, \<open>ManifestNames\<close>, \<open>ManifestBytes\<close>: the way
    from a document to the cached text in \<open>appinfo_provision.cpp\<close>, with \<open>usabledepot.hpp\<close>, \<open>emptydepot.hpp\<close> and
    \<open>manifestsynth.hpp\<close>.
  \<^item> \<open>AppInfoHook\<close>, \<open>AppInfoLifecycle\<close>, \<open>AppInfoGuard\<close>: \<open>appinfostate.hpp\<close>, \<open>appinfostate.cpp\<close>, \<open>appinfostate_policy.hpp\<close>,
    \<open>appinforeload.hpp\<close>. \<open>CodeScan\<close>: \<open>ipcframe.hpp\<close>, \<open>appdata_layout.hpp\<close>, \<open>reconcilepin.hpp\<close>. \<open>PatternScan\<close>:
    \<open>src/pattern_scan.hpp\<close> and the search of \<open>src/memhlp.cpp\<close>.
  \<^item> \<open>ManifestPlan\<close>: \<open>manifestpins.hpp\<close>, \<open>manifestselection.hpp\<close>, \<open>manifestdonor_policy.hpp\<close>. \<open>ManifestPin\<close>, \<open>DepotIndex\<close>:
    \<open>manifestid.cpp\<close>, \<open>manifestid.hpp\<close>. \<open>ManifestStore\<close>: \<open>manifeststore.cpp\<close>, \<open>manifeststore_io.hpp\<close>,
    \<open>src/manifest_index.hpp\<close>. \<open>ManifestZip\<close>: \<open>src/utils/manifest_zip.cpp\<close>. \<open>DepotKey\<close>: \<open>depotkey.cpp\<close> and its headers.
    \<open>Quarantine\<close>: \<open>depotquarantine.hpp\<close>, \<open>depotquarantine_store.hpp\<close>.
  \<^item> \<open>ConfigDiscovery\<close>: \<open>src/config_discovery.hpp\<close>. \<open>ConfigEdit\<close>, \<open>ProtonMapping\<close>: \<open>compattool.hpp\<close>, \<open>pending_proton.hpp\<close>
    and their use. \<open>DlcIds\<close>: \<open>dlcids.hpp\<close>. \<open>SynthMark\<close>: \<open>synthmark.hpp\<close> and the request filter of \<open>apps.cpp\<close>.
  \<^item> \<open>Parental\<close>: \<open>parental.hpp\<close>, \<open>parental.cpp\<close>. \<open>PlayerStats\<close>: \<open>playerstats.hpp\<close>. \<open>AppTicket\<close>: \<open>appticket.hpp\<close>.
    \<open>StatsPolicy\<close>: \<open>stats_policy.hpp\<close>.

  \<^bold>\<open>What the lemmas show.\<close> Each theory first proves what its operations do on every branch, then the properties over
  them. The stores: nothing that is read was freed, no request or file is lost whichever calls fail, and what is on
  disk after a crash is the old or the new value. The writers and readers: what is written is read back, and reading
  stays in its buffer. The policies: the code decides as a short specification says. The threads: every command runs
  once and in order. Where the code falls short of that, a theorem shows the input and the result.

  \<^bold>\<open>Bounds and fuel.\<close> Integers have the width of the 32-bit build where they can wrap; indices that are bounded by a
  length are natural numbers. Loops are structural or have a measure; those of \<open>ManifestBytes\<close> may run forever and are
  partial functions, for which returning is proved where it holds. The recursive reader, the emitters and the
  validators take fuel: one more than the length of their input, which is enough since every call consumes a byte
  (\<open>translate_fuel\<close>, \<open>validator_fuel\<close>, and the round trips return a value). The search for calls in a script
  (\<open>pin_calls\<close>) takes the length of the rest as its fuel for the same reason.

  \<^bold>\<open>Arguments of the model.\<close> Code that is not under \<open>src/\<close> is an argument: the functions of libmem (memory, segments,
  disassembler, hooks), of zlib, of the YAML library and of the hash functions, with what the sources rely on as named
  hypotheses. So are the clock, listings of directories with their times, process ids, and the outcomes of system
  calls. Locks are modelled by what they protect: an operation under a lock is one step.

  \<^bold>\<open>Not modelled.\<close> The generated protocol buffers and the declarations under \<open>src/sdk\<close> and \<open>src/include\<close>, which hold no
  logic of the program; the installation of the other hooks and their signatures (\<open>src/hooks.cpp\<close>, \<open>src/patterns.cpp\<close>),
  which are calls of libmem with constants; the network transfers (\<open>src/curl.cpp\<close>, the CM client, the manifest and
  content servers), threads and timers around them; logging, notifications and the user interface; the update
  downloader; the tools, scripts and tests. Allocation failures and \<open>reserve\<close> are left out.
\<close>

end
